(* ===== verification/Ylos_Prelude.thy ===== *)
theory Ylos_Prelude
  imports Main "HOL-Library.Word"
begin

text \<open>
  The prelude of the development: the names of the machine types of
  include/ylos/types.h, the outcomes of a kernel call, and the generic lemmas on
  results, words and lists that the component theories share.

  A call that fails an \<open>assert\<close>, reaches \<open>panic\<close>, touches memory outside an object,
  divides by zero or loops for ever does not come back to its caller: it is a value
  \<open>Inl e\<close> of type \<open>'a result\<close>, and \<open>Inr v\<close> is a call that returned \<open>v\<close>.  (In the
  kernel the first two end in the endless loop of \<open>spin\<close> in kernel/assert.c, the
  others in the processor's exception handlers of kernel/interrupt.c.)
\<close>

unbundle bit_operations_syntax

section \<open>Machine types and outcomes\<close>

type_synonym u8 = "8 word"
type_synonym u16 = "16 word"
type_synonym u32 = "32 word"

datatype kerror =
    Assert_Failed   \<comment> \<open>\<open>assert(e)\<close> with \<open>e\<close> false\<close>
  | Kernel_Panic    \<comment> \<open>\<open>panic(...)\<close>\<close>
  | Bad_Access      \<comment> \<open>a read or write outside the object, or through NULL\<close>
  | Divide_Error    \<comment> \<open>division or remainder by zero\<close>
  | Diverges        \<comment> \<open>a loop that never ends\<close>
  | Would_Sleep     \<comment> \<open>the caller is suspended inside the call; it is followed no further\<close>

type_synonym 'a result = "kerror + 'a"

definition EOF :: u32 where
  "EOF = - 1"

definition bindr :: "'a result \<Rightarrow> ('a \<Rightarrow> 'b result) \<Rightarrow> 'b result" where
  "bindr m f = (case m of Inl e \<Rightarrow> Inl e | Inr x \<Rightarrow> f x)"

definition load_at :: "'a list \<Rightarrow> nat \<Rightarrow> 'a result" where
  "load_at xs i = (if i < length xs then Inr (xs ! i) else Inl Bad_Access)"

definition store_at :: "'a list \<Rightarrow> nat \<Rightarrow> 'a \<Rightarrow> 'a list result" where
  "store_at xs i v = (if i < length xs then Inr (xs[i := v]) else Inl Bad_Access)"

text \<open>A string literal of the source, with its terminator.\<close>

definition lit :: "string \<Rightarrow> u8 list" where
  "lit s = map of_char s @ [0]"

text \<open>The same with a line feed at the end.\<close>

definition lit_line :: "string \<Rightarrow> u8 list" where
  "lit_line s = map of_char s @ [0x0a, 0]"

text \<open>Little-endian fields of a sequence of bytes.\<close>

definition word16 :: "u8 list \<Rightarrow> nat \<Rightarrow> u16" where
  "word16 bytes off = ucast (bytes ! off) OR push_bit 8 (ucast (bytes ! (off + 1)))"

definition word32 :: "u8 list \<Rightarrow> nat \<Rightarrow> u32" where
  "word32 bytes off = ucast (word16 bytes off) OR push_bit 16 (ucast (word16 bytes (off + 2)))"

named_theorems word_nat "unsigned word arithmetic without wrap-around, read as natural numbers"

section \<open>Results\<close>

lemma bindr_Inl [simp]: "bindr (Inl e) f = Inl e"
  by (simp add: bindr_def)

lemma bindr_Inr [simp]: "bindr (Inr x) f = f x"
  by (simp add: bindr_def)

lemma bindr_Inr_iff: "bindr m f = Inr y \<longleftrightarrow> (\<exists>x. m = Inr x \<and> f x = Inr y)"
  by (cases m) simp_all

lemma bindr_InrE:
  assumes "bindr m f = Inr y"
  obtains x where "m = Inr x" and "f x = Inr y"
  using assms by (auto simp: bindr_Inr_iff)

lemma bindr_cong [fundef_cong]:
  "m = m' \<Longrightarrow> (\<And>x. m' = Inr x \<Longrightarrow> f x = f' x) \<Longrightarrow> bindr m f = bindr m' f'"
  by (cases m') simp_all

lemma bindr_assoc: "bindr (bindr m f) g = bindr m (\<lambda>x. bindr (f x) g)"
  by (cases m) simp_all

lemma load_at_Inr [simp]: "i < length xs \<Longrightarrow> load_at xs i = Inr (xs ! i)"
  by (simp add: load_at_def)

lemma load_at_Inl [simp]: "length xs \<le> i \<Longrightarrow> load_at xs i = Inl Bad_Access"
  by (simp add: load_at_def)

lemma store_at_Inr [simp]: "i < length xs \<Longrightarrow> store_at xs i v = Inr (xs[i := v])"
  by (simp add: store_at_def)

lemma store_at_Inl [simp]: "length xs \<le> i \<Longrightarrow> store_at xs i v = Inl Bad_Access"
  by (simp add: store_at_def)

section \<open>Words read as natural numbers\<close>

lemma unat_add_small [word_nat]:
  fixes a b :: "'a::len word"
  shows "unat a + unat b < 2 ^ LENGTH('a) \<Longrightarrow> unat (a + b) = unat a + unat b"
  by (simp add: unat_word_ariths)

lemma unat_Suc_small [word_nat]:
  fixes a :: "'a::len word"
  shows "Suc (unat a) < 2 ^ LENGTH('a) \<Longrightarrow> unat (a + 1) = Suc (unat a)"
  by (simp add: unat_word_ariths)

lemma unat_diff_small [word_nat]:
  fixes a b :: "'a::len word"
  shows "unat b \<le> unat a \<Longrightarrow> unat (a - b) = unat a - unat b"
  by (simp add: unat_sub word_le_nat_alt)

lemma unat_mult_small [word_nat]:
  fixes a b :: "'a::len word"
  shows "unat a * unat b < 2 ^ LENGTH('a) \<Longrightarrow> unat (a * b) = unat a * unat b"
  by (simp add: unat_word_ariths)

lemma unat_u32_of_nat [simp]: "n < 2 ^ 32 \<Longrightarrow> unat (of_nat n :: u32) = n"
  by (simp add: unat_of_nat)

lemma u32_less_2p32 [simp]: "unat (a :: u32) < 4294967296"
  using unsigned_less [of a, where ?'a = nat] by simp

lemma unat_step: "nr < count \<Longrightarrow> unat (nr + 1) = Suc (unat nr)" for nr count :: u32
  using u32_less_2p32 [of count] by (intro unat_Suc_small) (simp add: word_less_nat_alt del: u32_less_2p32)

lemma u32_eq_of_nat: "n < 2 ^ 32 \<Longrightarrow> unat (a :: u32) = n \<longleftrightarrow> a = of_nat n"
  by (metis unat_u32_of_nat of_nat_unat word_unat_eq_iff)

lemma unat_EOF [simp]: "unat EOF = 4294967295"
  by (simp add: EOF_def unsigned_minus_1_eq_mask mask_eq_exp_minus_1)

lemma sint_small: "unat (w :: u32) < 2 ^ 31 \<Longrightarrow> sint w = int (unat w)"
proof -
  assume "unat w < 2 ^ 31"
  then have "int (unat w) < int (2 ^ 31)" by (simp only: of_nat_less_iff)
  then have "int (unat w) < 2 ^ 31" by simp
  then show "sint w = int (unat w)"
    unfolding sint_uint uint_nat by (intro signed_take_bit_int_eq_self) (simp_all add: order_trans [OF _ of_nat_0_le_iff] del: of_nat_unat)
qed

section \<open>Lists\<close>

lemma nth_take_drop: "i < n \<Longrightarrow> p + n \<le> length xs \<Longrightarrow> take n (drop p xs) ! i = xs ! (p + i)"
  by simp

lemma in_set_tlD: "x \<in> set (tl xs) \<Longrightarrow> x \<in> set xs"
  by (cases xs) auto

end
