(* ===== verification/Ylos_List.thy ===== *)
theory Ylos_List
  imports Ylos_Prelude
begin

text \<open>
  lib/list.c with include/ylos/list.h: intrusive doubly linked lists with a head and a
  tail sentinel.  A node is an address of type \<open>'n\<close> (each client has its own type of
  node addresses), the two pointers of all nodes are the two maps of a \<open>links\<close> store,
  and NULL is \<open>None\<close>; following NULL is \<open>Bad_Access\<close>.  The operations write the store in
  the order of the code.  \<open>dll h l xs\<close> says that list \<open>l\<close> holds exactly the nodes \<open>xs\<close>
  in store \<open>h\<close>; the lemmas show that every operation refines the operation on \<open>xs\<close>,
  and what it leaves alone.
\<close>

section \<open>The code\<close>

record 'n links =
  l_next :: "'n \<Rightarrow> 'n option"
  l_prev :: "'n \<Rightarrow> 'n option"

record 'n list_t =
  l_head :: 'n
  l_tail :: 'n

definition set_next :: "'n links \<Rightarrow> 'n \<Rightarrow> 'n option \<Rightarrow> 'n links" where
  "set_next h n v = h\<lparr>l_next := (l_next h)(n := v)\<rparr>"

definition set_prev :: "'n links \<Rightarrow> 'n \<Rightarrow> 'n option \<Rightarrow> 'n links" where
  "set_prev h n v = h\<lparr>l_prev := (l_prev h)(n := v)\<rparr>"

definition deref :: "'a option \<Rightarrow> 'a result" where
  "deref p = (case p of None \<Rightarrow> Inl Bad_Access | Some a \<Rightarrow> Inr a)"

definition list_init :: "'n links \<Rightarrow> 'n list_t \<Rightarrow> 'n links" where
  "list_init h l =
     (let h = set_prev h (l_head l) None;
          h = set_next h (l_tail l) None;
          h = set_next h (l_head l) (Some (l_tail l));
          h = set_prev h (l_tail l) (Some (l_head l))
      in h)"

definition list_insert_before :: "'n links \<Rightarrow> 'n \<Rightarrow> 'n \<Rightarrow> 'n links result" where
  "list_insert_before h anchor node =
     (let h = set_prev h node (l_prev h anchor);
          h = set_next h node (Some anchor)
      in bindr (deref (l_prev h anchor)) (\<lambda>p.
         let h = set_next h p (Some node);
             h = set_prev h anchor (Some node)
         in Inr h))"

definition list_insert_after :: "'n links \<Rightarrow> 'n \<Rightarrow> 'n \<Rightarrow> 'n links result" where
  "list_insert_after h anchor node =
     (let h = set_prev h node (Some anchor);
          h = set_next h node (l_next h anchor)
      in bindr (deref (l_next h anchor)) (\<lambda>p.
         let h = set_prev h p (Some node);
             h = set_next h anchor (Some node)
         in Inr h))"

definition list_remove :: "'n links \<Rightarrow> 'n \<Rightarrow> 'n links result" where
  "list_remove h node =
     (if l_prev h node = None then Inl Assert_Failed
      else if l_next h node = None then Inl Assert_Failed
      else bindr (deref (l_prev h node)) (\<lambda>p.
           let h = set_next h p (l_next h node) in
           bindr (deref (l_next h node)) (\<lambda>q.
           let h = set_prev h q (l_prev h node);
               h = set_next h node None;
               h = set_prev h node None
           in Inr h)))"

definition list_empty :: "'n links \<Rightarrow> 'n list_t \<Rightarrow> bool" where
  "list_empty h l \<longleftrightarrow> l_next h (l_head l) = Some (l_tail l)"

text \<open>
  The loops that walk a list.  On a store whose chain never reaches the tail they run for
  ever, so each is a partial function whose value \<open>None\<close> is that case; the C function
  around it turns it into \<open>Inl Diverges\<close>.
\<close>

partial_function (option) search_loop ::
    "'n links \<Rightarrow> 'n \<Rightarrow> 'n \<Rightarrow> 'n option \<Rightarrow> bool result option" where
  "search_loop h tail node next =
     (if next = Some tail then Some (Inr False)
      else if next = Some node then Some (Inr True)
      else case next of
             None \<Rightarrow> Some (Inl Bad_Access)
           | Some p \<Rightarrow> search_loop h tail node (l_next h p))"

partial_function (option) size_loop ::
    "'n links \<Rightarrow> 'n \<Rightarrow> u32 \<Rightarrow> 'n option \<Rightarrow> u32 result option" where
  "size_loop h tail len next =
     (if next = Some tail then Some (Inr len)
      else case next of
             None \<Rightarrow> Some (Inl Bad_Access)
           | Some p \<Rightarrow> size_loop h tail (len + 1) (l_next h p))"

partial_function (option) anchor_loop ::
    "'n links \<Rightarrow> ('n \<Rightarrow> u32) \<Rightarrow> 'n \<Rightarrow> u32 \<Rightarrow> 'n option \<Rightarrow> 'n result option" where
  "anchor_loop h nkey tail key ptr =
     (if ptr = Some tail then Some (Inr tail)
      else case ptr of
             None \<Rightarrow> Some (Inl Bad_Access)
           | Some p \<Rightarrow> (if sint key < sint (nkey p) then Some (Inr p)
                      else anchor_loop h nkey tail key (l_next h p)))"

definition returned :: "'a result option \<Rightarrow> 'a result" where
  "returned r = (case r of None \<Rightarrow> Inl Diverges | Some v \<Rightarrow> v)"

definition list_search :: "'n links \<Rightarrow> 'n list_t \<Rightarrow> 'n \<Rightarrow> bool result" where
  "list_search h l node = returned (search_loop h (l_tail l) node (l_next h (l_head l)))"

definition list_size :: "'n links \<Rightarrow> 'n list_t \<Rightarrow> u32 result" where
  "list_size h l = returned (size_loop h (l_tail l) 0 (l_next h (l_head l)))"

definition list_push :: "'n links \<Rightarrow> 'n list_t \<Rightarrow> 'n \<Rightarrow> 'n links result" where
  "list_push h l node = bindr (list_search h l node) (\<lambda>found.
     if found then Inl Assert_Failed else list_insert_after h (l_head l) node)"

definition list_pushback :: "'n links \<Rightarrow> 'n list_t \<Rightarrow> 'n \<Rightarrow> 'n links result" where
  "list_pushback h l node = bindr (list_search h l node) (\<lambda>found.
     if found then Inl Assert_Failed else list_insert_before h (l_tail l) node)"

definition list_pop :: "'n links \<Rightarrow> 'n list_t \<Rightarrow> ('n links \<times> 'n) result" where
  "list_pop h l =
     (if list_empty h l then Inl Assert_Failed
      else bindr (deref (l_next h (l_head l))) (\<lambda>node.
           bindr (list_remove h node) (\<lambda>h. Inr (h, node))))"

definition list_popback :: "'n links \<Rightarrow> 'n list_t \<Rightarrow> ('n links \<times> 'n) result" where
  "list_popback h l =
     (if list_empty h l then Inl Assert_Failed
      else bindr (deref (l_prev h (l_tail l))) (\<lambda>node.
           bindr (list_remove h node) (\<lambda>h. Inr (h, node))))"

text \<open>
  \<open>nkey\<close> is \<open>element_node_key\<close>: the 32-bit word at the given offset from a node, compared
  as a signed \<open>int\<close>.
\<close>

definition list_insert_sort ::
    "'n links \<Rightarrow> 'n list_t \<Rightarrow> ('n \<Rightarrow> u32) \<Rightarrow> 'n \<Rightarrow> 'n links result" where
  "list_insert_sort h l nkey node =
     bindr (returned (anchor_loop h nkey (l_tail l) (nkey node) (l_next h (l_head l)))) (\<lambda>anchor.
       if l_next h node \<noteq> None then Inl Assert_Failed
       else if l_prev h node \<noteq> None then Inl Assert_Failed
       else list_insert_before h anchor node)"

section \<open>Chains of nodes\<close>

lemma set_next_simps [simp]:
  "l_next (set_next h n v) = (l_next h)(n := v)" "l_prev (set_next h n v) = l_prev h"
  by (simp_all add: set_next_def)

lemma set_prev_simps [simp]:
  "l_prev (set_prev h n v) = (l_prev h)(n := v)" "l_next (set_prev h n v) = l_next h"
  by (simp_all add: set_prev_def)

lemma deref_simps [simp]: "deref (Some a) = Inr a" "deref None = Inl Bad_Access"
  by (simp_all add: deref_def)

fun linked :: "'n links \<Rightarrow> 'n list \<Rightarrow> bool" where
  "linked h (a # b # zs) \<longleftrightarrow> l_next h a = Some b \<and> l_prev h b = Some a \<and> linked h (b # zs)"
| "linked h zs \<longleftrightarrow> True"

lemma linked_append:
  "linked h (xs @ a # ys) \<longleftrightarrow> linked h (xs @ [a]) \<and> linked h (a # ys)"
proof (induction xs)
  case Nil
  then show ?case by simp
next
  case (Cons x xs)
  then show ?case by (cases xs) auto
qed

text \<open>A chain depends on the next pointers of all but its last node and on the previous
  pointers of all but its first.\<close>

lemma linked_cong:
  "(\<And>x. x \<in> set (butlast zs) \<Longrightarrow> l_next h x = l_next h' x) \<Longrightarrow>
   (\<And>x. x \<in> set (tl zs) \<Longrightarrow> l_prev h x = l_prev h' x) \<Longrightarrow>
   linked h zs = linked h' zs"
  by (induction h zs rule: linked.induct) auto

text \<open>Both insertions leave the store \<open>link_between\<close>, removal leaves \<open>unlink\<close>.\<close>

definition link_between :: "'n links \<Rightarrow> 'n \<Rightarrow> 'n \<Rightarrow> 'n \<Rightarrow> 'n links" where
  "link_between h p n a =
     h\<lparr>l_next := (l_next h)(n := Some a, p := Some n), l_prev := (l_prev h)(n := Some p, a := Some n)\<rparr>"

definition unlink :: "'n links \<Rightarrow> 'n \<Rightarrow> 'n \<Rightarrow> 'n \<Rightarrow> 'n links" where
  "unlink h p n a =
     h\<lparr>l_next := (l_next h)(p := Some a, n := None), l_prev := (l_prev h)(a := Some p, n := None)\<rparr>"

lemma link_between_simps [simp]:
  "l_next (link_between h p n a) = (l_next h)(n := Some a, p := Some n)"
  "l_prev (link_between h p n a) = (l_prev h)(n := Some p, a := Some n)"
  by (simp_all add: link_between_def)

lemma unlink_simps [simp]:
  "l_next (unlink h p n a) = (l_next h)(p := Some a, n := None)"
  "l_prev (unlink h p n a) = (l_prev h)(a := Some p, n := None)"
  by (simp_all add: unlink_def)

lemma insert_before_link:
  "l_prev h a = Some p \<Longrightarrow> n \<noteq> a \<Longrightarrow> n \<noteq> p \<Longrightarrow> list_insert_before h a n = Inr (link_between h p n a)"
  by (simp add: list_insert_before_def link_between_def Let_def set_next_def set_prev_def fun_upd_twist)

lemma insert_after_link:
  "l_next h p = Some a \<Longrightarrow> n \<noteq> a \<Longrightarrow> n \<noteq> p \<Longrightarrow> list_insert_after h p n = Inr (link_between h p n a)"
  by (simp add: list_insert_after_def link_between_def Let_def set_next_def set_prev_def fun_upd_twist)

lemma remove_unlink:
  "l_prev h n = Some p \<Longrightarrow> l_next h n = Some a \<Longrightarrow> n \<noteq> p \<Longrightarrow> n \<noteq> a \<Longrightarrow>
   list_remove h n = Inr (unlink h p n a)"
  by (auto simp: list_remove_def unlink_def Let_def set_next_def set_prev_def)

lemma linked_link_between:
  assumes "linked h (xs @ p # a # ys)" and "distinct (xs @ p # a # ys)" and "n \<notin> set (xs @ p # a # ys)"
  shows "linked (link_between h p n a) (xs @ p # n # a # ys)"
proof -
  have 1: "linked h (xs @ [p])" and 2: "linked h (a # ys)"
    using assms(1) linked_append [of h xs p "a # ys"] linked_append [of h "xs @ [p]" a ys] by auto
  have "linked (link_between h p n a) (xs @ [p])"
    using 1 assms(2,3) by (subst linked_cong [where h' = h]) (auto dest: in_set_tlD split: if_splits)
  moreover have "linked (link_between h p n a) (a # ys)"
    using 2 assms(2,3) by (subst linked_cong [where h' = h]) (auto dest: in_set_butlastD split: if_splits)
  ultimately show ?thesis
    using assms(2,3) linked_append [of "link_between h p n a" xs p "n # a # ys"] by auto
qed

lemma linked_unlink:
  assumes "linked h (xs @ p # n # a # ys)" and "distinct (xs @ p # n # a # ys)"
  shows "linked (unlink h p n a) (xs @ p # a # ys)"
proof -
  have 1: "linked h (xs @ [p])" and 2: "linked h (a # ys)"
    using assms(1) linked_append [of h xs p "n # a # ys"] by auto
  have "linked (unlink h p n a) (xs @ [p])"
    using 1 assms(2) by (subst linked_cong [where h' = h]) (auto dest: in_set_tlD split: if_splits)
  moreover have "linked (unlink h p n a) (a # ys)"
    using 2 assms(2) by (subst linked_cong [where h' = h]) (auto dest: in_set_butlastD split: if_splits)
  ultimately show ?thesis
    using assms(2) linked_append [of "unlink h p n a" xs p "a # ys"] by auto
qed

section \<open>Lists in the store\<close>

definition dll :: "'n links \<Rightarrow> 'n list_t \<Rightarrow> 'n list \<Rightarrow> bool" where
  "dll h l xs \<longleftrightarrow> linked h (l_head l # xs @ [l_tail l]) \<and> distinct (l_head l # xs @ [l_tail l])"

definition detached :: "'n links \<Rightarrow> 'n \<Rightarrow> bool" where
  "detached h n \<longleftrightarrow> l_next h n = None \<and> l_prev h n = None"

definition cells :: "'n list_t \<Rightarrow> 'n list \<Rightarrow> 'n set" where
  "cells l xs = insert (l_head l) (insert (l_tail l) (set xs))"

lemma cells_simps [simp]: "l_head l \<in> cells l xs" "l_tail l \<in> cells l xs" "x \<in> set xs \<Longrightarrow> x \<in> cells l xs"
  by (simp_all add: cells_def)

text \<open>A list is unaffected by a change of pointers outside its cells.\<close>

lemma dll_frame:
  assumes "dll h l xs" and "\<And>x. x \<in> cells l xs \<Longrightarrow> l_next h' x = l_next h x \<and> l_prev h' x = l_prev h x"
  shows "dll h' l xs"
proof -
  have "linked h' (l_head l # xs @ [l_tail l]) = linked h (l_head l # xs @ [l_tail l])"
    by (rule linked_cong) (use assms(2) in \<open>auto simp: cells_def dest!: in_set_butlastD\<close>)
  with assms(1) show ?thesis by (simp add: dll_def)
qed

lemma list_init_dll: "l_head l \<noteq> l_tail l \<Longrightarrow> dll (list_init h l) l []"
  by (simp add: dll_def list_init_def Let_def)

lemma cells_split:
  fixes l :: "'n list_t"
  shows "\<exists>A B. \<forall>zs. l_head l # (xs @ zs @ ys) @ [l_tail l]
    = A @ last (l_head l # xs) # zs @ hd (ys @ [l_tail l]) # B"
proof -
  define A where "A = butlast (l_head l # xs)"
  define B where "B = tl (ys @ [l_tail l])"
  have 1: "A @ [last (l_head l # xs)] = l_head l # xs"
    unfolding A_def by (rule append_butlast_last_id) simp
  have 2: "hd (ys @ [l_tail l]) # B = ys @ [l_tail l]"
    unfolding B_def by (cases ys) simp_all
  have "l_head l # (xs @ zs @ ys) @ [l_tail l]
      = A @ last (l_head l # xs) # zs @ hd (ys @ [l_tail l]) # B" for zs
  proof -
    have "A @ last (l_head l # xs) # zs @ hd (ys @ [l_tail l]) # B
        = (A @ [last (l_head l # xs)]) @ zs @ (hd (ys @ [l_tail l]) # B)"
      by (simp only: append_assoc append_Cons append_Nil)
    also have "\<dots> = l_head l # (xs @ zs @ ys) @ [l_tail l]"
      by (simp only: 1 2 append_assoc append_Cons)
    finally show ?thesis ..
  qed
  then show ?thesis by (intro exI allI)
qed

lemma dll_next:
  assumes "dll h l (xs @ ys)"
  shows "l_next h (last (l_head l # xs)) = Some (hd (ys @ [l_tail l]))"
    and "l_prev h (hd (ys @ [l_tail l])) = Some (last (l_head l # xs))"
proof -
  from cells_split [of l xs ys] obtain A B where eq: "\<forall>zs. l_head l # (xs @ zs @ ys) @ [l_tail l]
      = A @ last (l_head l # xs) # zs @ hd (ys @ [l_tail l]) # B"
    by (elim exE)
  have eq0: "l_head l # (xs @ ys) @ [l_tail l] = A @ last (l_head l # xs) # hd (ys @ [l_tail l]) # B"
    using spec [OF eq, of "[]"] unfolding append_Nil .
  have "linked h (A @ last (l_head l # xs) # hd (ys @ [l_tail l]) # B)"
    using assms unfolding dll_def eq0 by (rule conjunct1)
  then have "linked h (last (l_head l # xs) # hd (ys @ [l_tail l]) # B)"
    by (rule iffD1 [OF linked_append, THEN conjunct2])
  then have *: "l_next h (last (l_head l # xs)) = Some (hd (ys @ [l_tail l]))
     \<and> l_prev h (hd (ys @ [l_tail l])) = Some (last (l_head l # xs)) \<and> linked h (hd (ys @ [l_tail l]) # B)"
    unfolding linked.simps(1) .
  from * show "l_next h (last (l_head l # xs)) = Some (hd (ys @ [l_tail l]))" by (rule conjunct1)
  from * show "l_prev h (hd (ys @ [l_tail l])) = Some (last (l_head l # xs))" by (elim conjE)
qed

lemma dll_insert:
  assumes "dll h l (xs @ ys)" and "n \<notin> cells l (xs @ ys)"
  shows "dll (link_between h (last (l_head l # xs)) n (hd (ys @ [l_tail l]))) l (xs @ n # ys)"
proof -
  define p where "p = last (l_head l # xs)"
  define a where "a = hd (ys @ [l_tail l])"
  from cells_split [of l xs ys, folded p_def a_def]
  obtain A B where eq: "\<forall>zs. l_head l # (xs @ zs @ ys) @ [l_tail l] = A @ p # zs @ a # B"
    by (elim exE)
  have eq0: "l_head l # (xs @ ys) @ [l_tail l] = A @ p # a # B"
    and eqn: "l_head l # (xs @ n # ys) @ [l_tail l] = A @ p # n # a # B"
    using spec [OF eq, of "[]"] spec [OF eq, of "[n]"] by (simp_all only: append_Nil append_Cons)
  have n: "n \<notin> set (A @ p # a # B)"
    using assms(2) unfolding eq0 [symmetric] by (simp add: cells_def)
  have d: "linked h (A @ p # a # B)" "distinct (A @ p # a # B)"
    using assms(1) by (simp_all only: dll_def eq0)
  have "linked (link_between h p n a) (A @ p # n # a # B)"
    using linked_link_between [OF d n] .
  moreover have "distinct (A @ p # n # a # B)" using d(2) n by auto
  ultimately have "dll (link_between h p n a) l (xs @ n # ys)" by (simp only: dll_def eqn)
  then show ?thesis by (simp only: p_def a_def)
qed

lemma dll_delete:
  assumes "dll h l (xs @ n # ys)"
  shows "dll (unlink h (last (l_head l # xs)) n (hd (ys @ [l_tail l]))) l (xs @ ys)"
proof -
  define p where "p = last (l_head l # xs)"
  define a where "a = hd (ys @ [l_tail l])"
  from cells_split [of l xs ys, folded p_def a_def]
  obtain A B where eq: "\<forall>zs. l_head l # (xs @ zs @ ys) @ [l_tail l] = A @ p # zs @ a # B"
    by (elim exE)
  have eq0: "l_head l # (xs @ ys) @ [l_tail l] = A @ p # a # B"
    and eqn: "l_head l # (xs @ n # ys) @ [l_tail l] = A @ p # n # a # B"
    using spec [OF eq, of "[]"] spec [OF eq, of "[n]"] by (simp_all only: append_Nil append_Cons)
  have d: "linked h (A @ p # n # a # B)" "distinct (A @ p # n # a # B)"
    using assms(1) by (simp_all only: dll_def eqn)
  have "linked (unlink h p n a) (A @ p # a # B)" using linked_unlink [OF d] .
  moreover have "distinct (A @ p # a # B)" using d(2) by auto
  ultimately have "dll (unlink h p n a) l (xs @ ys)" by (simp only: dll_def eq0)
  then show ?thesis by (simp only: p_def a_def)
qed

text \<open>The neighbours of a position are cells of the list, and differ from a node outside.\<close>

lemma neighbours_in_cells:
  "last (l_head l # xs) \<in> cells l xs" "hd (ys @ [l_tail l]) \<in> cells l ys"
proof -
  have "last (l_head l # xs) \<in> set (l_head l # xs)" by (rule last_in_set) simp
  then show "last (l_head l # xs) \<in> cells l xs" by (auto simp: cells_def)
  have "hd (ys @ [l_tail l]) \<in> set (ys @ [l_tail l])" by (rule hd_in_set) simp
  then show "hd (ys @ [l_tail l]) \<in> cells l ys" by (auto simp: cells_def)
qed

lemma cells_append: "cells l (xs @ ys) = cells l xs \<union> cells l ys"
  by (auto simp: cells_def)

lemma dll_distinct: "dll h l xs \<Longrightarrow> distinct xs \<and> l_head l \<notin> set xs \<and> l_tail l \<notin> set xs \<and> l_head l \<noteq> l_tail l"
  by (auto simp: dll_def)

lemma neighbours_not_node:
  assumes "dll h l (xs @ n # ys)"
  shows "last (l_head l # xs) \<noteq> n" and "hd (ys @ [l_tail l]) \<noteq> n"
proof -
  have n: "n \<notin> cells l xs" "n \<notin> cells l ys"
    using dll_distinct [OF assms] by (auto simp: cells_def)
  show "last (l_head l # xs) \<noteq> n" "hd (ys @ [l_tail l]) \<noteq> n"
    using n neighbours_in_cells(1) [of l xs] neighbours_in_cells(2) [where ys = ys and l = l] by metis+
qed

section \<open>The operations on lists in the store\<close>

definition same_outside :: "'n set \<Rightarrow> 'n links \<Rightarrow> 'n links \<Rightarrow> bool" where
  "same_outside S h h' \<longleftrightarrow> (\<forall>x. x \<notin> S \<longrightarrow> l_next h' x = l_next h x \<and> l_prev h' x = l_prev h x)"

lemma same_outside_mono: "same_outside S h h' \<Longrightarrow> S \<subseteq> T \<Longrightarrow> same_outside T h h'"
  by (auto simp: same_outside_def)

lemma same_outside_trans:
  "same_outside S h h' \<Longrightarrow> same_outside S h' h'' \<Longrightarrow> same_outside S h h''"
  by (auto simp: same_outside_def)

lemma dll_same_outside:
  "dll h l xs \<Longrightarrow> same_outside S h h' \<Longrightarrow> cells l xs \<inter> S = {} \<Longrightarrow> dll h' l xs"
  by (erule dll_frame) (auto simp: same_outside_def)

lemma detached_same_outside:
  "detached h n \<Longrightarrow> same_outside S h h' \<Longrightarrow> n \<notin> S \<Longrightarrow> detached h' n"
  by (auto simp: same_outside_def detached_def)

lemma link_between_same_outside: "same_outside {p, n, a} h (link_between h p n a)"
  by (simp add: same_outside_def)

lemma unlink_same_outside: "same_outside {p, n, a} h (unlink h p n a)"
  by (simp add: same_outside_def)

lemma dll_ConsD: "dll h l (x # xs) \<Longrightarrow> l_next h (l_head l) = Some x \<and> l_prev h x = Some (l_head l)"
  using dll_next [of h l "[]" "x # xs"] by simp

lemma dll_NilD: "dll h l [] \<Longrightarrow> l_next h (l_head l) = Some (l_tail l) \<and> l_prev h (l_tail l) = Some (l_head l)"
  using dll_next [of h l "[]" "[]"] by simp

lemma dll_node_next: "dll h l (xs @ x # ys) \<Longrightarrow> l_next h x = Some (hd (ys @ [l_tail l]))"
  using dll_next(1) [of h l "xs @ [x]" ys] by simp

lemma dll_node_prev: "dll h l (xs @ x # ys) \<Longrightarrow> l_prev h x = Some (last (l_head l # xs))"
  using dll_next(2) [of h l xs "x # ys"] by simp

lemma detached_not_in_cells:
  assumes "dll h l xs" and "detached h n"
  shows "n \<notin> cells l xs"
proof
  assume "n \<in> cells l xs"
  then consider "n = l_head l" | "n = l_tail l" | us vs where "xs = us @ n # vs"
    by (auto simp: cells_def dest: split_list)
  then show False
  proof cases
    case 1
    then show ?thesis using dll_next(1) [of h l "[]" xs] assms by (simp add: detached_def)
  next
    case 2
    have "dll h l (xs @ [])" using assms(1) by simp
    from dll_next(2) [OF this] show ?thesis using 2 assms(2) by (simp add: detached_def)
  next
    case 3
    then show ?thesis using dll_node_next [of h l us n vs] assms by (simp add: detached_def)
  qed
qed

lemma list_empty_dll: "dll h l xs \<Longrightarrow> list_empty h l \<longleftrightarrow> xs = []"
  using dll_ConsD [of h l "hd xs" "tl xs"] dll_NilD [of h l] dll_distinct [of h l xs]
  by (cases xs) (auto simp: list_empty_def)

lemma dll_linked: "dll h l xs \<Longrightarrow> linked h (l_head l # xs @ [l_tail l])"
  by (simp add: dll_def)

lemma dll_tail_notin: "dll h l xs \<Longrightarrow> l_tail l \<notin> set xs"
  by (auto simp: dll_def)

lemma search_loop_dll:
  "linked h (p # xs @ [t]) \<Longrightarrow> t \<notin> set xs \<Longrightarrow>
   search_loop h t n (l_next h p) = Some (Inr (n \<noteq> t \<and> n \<in> set xs))"
proof (induction xs arbitrary: p)
  case Nil
  then show ?case by (simp add: search_loop.simps)
next
  case (Cons x xs)
  then have "l_next h p = Some x" "x \<noteq> t" and rest: "linked h (x # xs @ [t])" "t \<notin> set xs" by auto
  then show ?case
    using Cons.IH [OF rest] by (subst search_loop.simps) auto
qed

lemma list_search_dll: "dll h l xs \<Longrightarrow> list_search h l n = Inr (n \<in> set xs)"
  using dll_tail_notin [of h l xs]
  by (auto simp: list_search_def returned_def search_loop_dll [OF dll_linked dll_tail_notin])

lemma size_loop_dll:
  "linked h (p # xs @ [t]) \<Longrightarrow> t \<notin> set xs \<Longrightarrow>
   size_loop h t k (l_next h p) = Some (Inr (k + of_nat (length xs)))"
proof (induction xs arbitrary: p k)
  case Nil
  then show ?case by (simp add: size_loop.simps)
next
  case (Cons x xs)
  then have "l_next h p = Some x" "x \<noteq> t" and rest: "linked h (x # xs @ [t])" "t \<notin> set xs" by auto
  then show ?case
    using Cons.IH [OF rest] by (subst size_loop.simps) (simp add: algebra_simps)
qed

lemma list_size_dll: "dll h l xs \<Longrightarrow> list_size h l = Inr (of_nat (length xs))"
  by (simp add: list_size_def returned_def size_loop_dll [OF dll_linked dll_tail_notin])

lemma anchor_loop_dll:
  "linked h (p # xs @ [t]) \<Longrightarrow> t \<notin> set xs \<Longrightarrow>
   anchor_loop h nkey t key (l_next h p) =
     Some (Inr (hd (dropWhile (\<lambda>x. sint (nkey x) \<le> sint key) xs @ [t])))"
proof (induction xs arbitrary: p)
  case Nil
  then show ?case by (simp add: anchor_loop.simps)
next
  case (Cons x xs)
  then have "l_next h p = Some x" "x \<noteq> t" and rest: "linked h (x # xs @ [t])" "t \<notin> set xs" by auto
  then show ?case
    using Cons.IH [OF rest] by (subst anchor_loop.simps) (simp add: not_le)
qed

lemma list_push_dll:
  assumes "dll h l xs" and "n \<notin> cells l xs"
  shows "\<exists>h'. list_push h l n = Inr h' \<and> dll h' l (n # xs) \<and> same_outside (cells l (n # xs)) h h'"
proof -
  let ?a = "hd (xs @ [l_tail l])"
  have a: "l_next h (l_head l) = Some ?a" using dll_next(1) [of h l "[]" xs] assms(1) by simp
  have na: "n \<noteq> ?a" "n \<noteq> l_head l"
    using assms(2) neighbours_in_cells(2) [where ys = xs and l = l] cells_simps(1) [of l xs] by metis+
  have "n \<notin> set xs" using assms(2) by (simp add: cells_def)
  then have "list_push h l n = Inr (link_between h (l_head l) n ?a)"
    unfolding list_push_def list_search_dll [OF assms(1)] bindr_Inr
    using insert_after_link [OF a na] by (simp only: if_False)
  moreover have "dll (link_between h (l_head l) n ?a) l (n # xs)"
    using dll_insert [of h l "[]" xs n] assms by simp
  moreover have "same_outside (cells l (n # xs)) h (link_between h (l_head l) n ?a)"
    by (rule same_outside_mono [OF link_between_same_outside])
      (use neighbours_in_cells(2) [where ys = xs and l = l] in \<open>auto simp: cells_def\<close>)
  ultimately show ?thesis by blast
qed

lemma list_pushback_dll:
  assumes "dll h l xs" and "n \<notin> cells l xs"
  shows "\<exists>h'. list_pushback h l n = Inr h' \<and> dll h' l (xs @ [n]) \<and> same_outside (cells l (n # xs)) h h'"
proof -
  let ?p = "last (l_head l # xs)"
  have p: "l_prev h (l_tail l) = Some ?p" using dll_next(2) [of h l xs "[]"] assms(1) by simp
  have np: "n \<noteq> l_tail l" "n \<noteq> ?p"
    using assms(2) neighbours_in_cells(1) [of l xs] cells_simps(2) [of l xs] by metis+
  have "n \<notin> set xs" using assms(2) by (simp add: cells_def)
  then have "list_pushback h l n = Inr (link_between h ?p n (l_tail l))"
    unfolding list_pushback_def list_search_dll [OF assms(1)] bindr_Inr
    using insert_before_link [OF p np] by (simp only: if_False)
  moreover have "dll (link_between h ?p n (l_tail l)) l (xs @ [n])"
    using dll_insert [of h l xs "[]" n] assms by simp
  moreover have "same_outside (cells l (n # xs)) h (link_between h ?p n (l_tail l))"
    by (rule same_outside_mono [OF link_between_same_outside])
      (use neighbours_in_cells(1) [of l xs] in \<open>auto simp: cells_def\<close>)
  ultimately show ?thesis by blast
qed

lemma list_push_member: "dll h l xs \<Longrightarrow> n \<in> set xs \<Longrightarrow> list_push h l n = Inl Assert_Failed"
  by (simp add: list_push_def list_search_dll)

lemma list_remove_dll:
  assumes "dll h l (xs @ n # ys)"
  shows "\<exists>h'. list_remove h n = Inr h' \<and> dll h' l (xs @ ys) \<and> detached h' n
    \<and> same_outside (cells l (xs @ n # ys)) h h'"
proof -
  let ?p = "last (l_head l # xs)" and ?a = "hd (ys @ [l_tail l])"
  have "list_remove h n = Inr (unlink h ?p n ?a)"
    using remove_unlink [OF dll_node_prev [OF assms] dll_node_next [OF assms]]
      neighbours_not_node [OF assms] by metis
  moreover have "dll (unlink h ?p n ?a) l (xs @ ys)" by (rule dll_delete [OF assms])
  moreover have "detached (unlink h ?p n ?a) n"
    using neighbours_not_node [OF assms] by (simp add: detached_def)
  moreover have "same_outside (cells l (xs @ n # ys)) h (unlink h ?p n ?a)"
    by (rule same_outside_mono [OF unlink_same_outside])
      (use neighbours_in_cells(1) [of l xs] neighbours_in_cells(2) [where ys = ys and l = l]
       in \<open>auto simp: cells_def\<close>)
  ultimately show ?thesis by blast
qed

lemma list_remove_member:
  assumes "dll h l xs" and "n \<in> set xs"
  shows "\<exists>h'. list_remove h n = Inr h' \<and> dll h' l (remove1 n xs) \<and> detached h' n
    \<and> same_outside (cells l xs) h h'"
proof -
  obtain us vs where xs: "xs = us @ n # vs" using split_list [OF assms(2)] by blast
  have "n \<notin> set us" using dll_distinct [OF assms(1)] xs by auto
  then have "remove1 n xs = us @ vs" by (simp add: xs remove1_append)
  then show ?thesis using list_remove_dll [of h l us n vs] assms(1) xs by simp
qed

lemma list_remove_detached: "detached h n \<Longrightarrow> list_remove h n = Inl Assert_Failed"
  by (simp add: list_remove_def detached_def)

lemma list_pop_dll:
  "dll h l (n # xs) \<Longrightarrow>
   \<exists>h'. list_pop h l = Inr (h', n) \<and> dll h' l xs \<and> detached h' n \<and> same_outside (cells l (n # xs)) h h'"
  using list_remove_dll [of h l "[]" n xs] dll_ConsD [of h l n xs]
  by (auto simp: list_pop_def list_empty_dll)

lemma list_popback_dll:
  "dll h l (xs @ [n]) \<Longrightarrow>
   \<exists>h'. list_popback h l = Inr (h', n) \<and> dll h' l xs \<and> detached h' n \<and> same_outside (cells l (xs @ [n])) h h'"
  using list_remove_dll [of h l xs n "[]"] dll_next(2) [of h l "xs @ [n]" "[]"]
  by (auto simp: list_popback_def list_empty_dll)

lemma list_pop_empty: "dll h l [] \<Longrightarrow> list_pop h l = Inl Assert_Failed"
  by (simp add: list_pop_def list_empty_dll)

lemma list_popback_empty: "dll h l [] \<Longrightarrow> list_popback h l = Inl Assert_Failed"
  by (simp add: list_popback_def list_empty_dll)

section \<open>Insertion by key\<close>

definition key_le :: "('n \<Rightarrow> u32) \<Rightarrow> 'n \<Rightarrow> 'n \<Rightarrow> bool" where
  "key_le nkey x y \<longleftrightarrow> sint (nkey x) \<le> sint (nkey y)"

definition insort_node :: "('n \<Rightarrow> u32) \<Rightarrow> 'n \<Rightarrow> 'n list \<Rightarrow> 'n list" where
  "insort_node nkey n xs =
     takeWhile (\<lambda>x. key_le nkey x n) xs @ n # dropWhile (\<lambda>x. key_le nkey x n) xs"

lemma set_insort_node [simp]: "set (insort_node nkey n xs) = insert n (set xs)"
proof -
  have "set (takeWhile P xs) \<union> set (dropWhile P xs) = set xs" for P
    by (metis set_append takeWhile_dropWhile_id)
  then show ?thesis by (auto simp: insort_node_def)
qed

lemma sorted_insort_node:
  "sorted_wrt (key_le nkey) xs \<Longrightarrow> sorted_wrt (key_le nkey) (insort_node nkey n xs)"
proof (induction xs)
  case Nil
  then show ?case by (simp add: insort_node_def)
next
  case (Cons x xs)
  then have IH: "sorted_wrt (key_le nkey) (insort_node nkey n xs)"
    and le: "\<And>y. y \<in> set xs \<Longrightarrow> key_le nkey x y" by auto
  show ?case
  proof (cases "key_le nkey x n")
    case True
    then have "insort_node nkey n (x # xs) = x # insort_node nkey n xs"
      by (simp add: insort_node_def)
    then show ?thesis using IH True le by auto
  next
    case False
    then have "insort_node nkey n (x # xs) = n # x # xs" by (simp add: insort_node_def)
    then show ?thesis using False Cons.prems le by (force simp: key_le_def)
  qed
qed

lemma list_insert_sort_dll:
  assumes "dll h l xs" and "detached h n"
  shows "\<exists>h'. list_insert_sort h l nkey n = Inr h' \<and> dll h' l (insort_node nkey n xs)
    \<and> same_outside (cells l (n # xs)) h h'"
proof -
  define us where "us = takeWhile (\<lambda>x. key_le nkey x n) xs"
  define vs where "vs = dropWhile (\<lambda>x. key_le nkey x n) xs"
  have xs: "xs = us @ vs" by (simp add: us_def vs_def)
  have d: "dll h l (us @ vs)" using assms(1) by (simp add: xs)
  have n: "n \<notin> cells l (us @ vs)" using detached_not_in_cells [OF d assms(2)] .
  let ?p = "last (l_head l # us)" and ?a = "hd (vs @ [l_tail l])"
  have anchor: "anchor_loop h nkey (l_tail l) (nkey n) (l_next h (l_head l)) = Some (Inr ?a)"
    using anchor_loop_dll [of h "l_head l" xs "l_tail l" nkey "nkey n"] assms(1) dll_distinct [OF assms(1)]
    by (simp add: dll_def vs_def key_le_def)
  have nn: "n \<noteq> ?a" "n \<noteq> ?p"
    using n neighbours_in_cells(1) [of l us] neighbours_in_cells(2) [where ys = vs and l = l]
    by (metis Un_iff cells_append)+
  have "list_insert_sort h l nkey n = Inr (link_between h ?p n ?a)"
    using assms(2) insert_before_link [OF dll_next(2) [OF d] nn]
    by (simp only: list_insert_sort_def anchor returned_def option.case bindr_Inr detached_def
        simp_thms if_False)
  moreover have "dll (link_between h ?p n ?a) l (insort_node nkey n xs)"
    using dll_insert [OF d n] by (simp only: insort_node_def us_def vs_def)
  moreover have "same_outside (cells l (n # xs)) h (link_between h ?p n ?a)"
    by (rule same_outside_mono [OF link_between_same_outside])
      (use neighbours_in_cells(1) [of l us] neighbours_in_cells(2) [where ys = vs and l = l]
       in \<open>auto simp: cells_def xs\<close>)
  ultimately show ?thesis by blast
qed

section \<open>The interface of a list: what its clients rely on\<close>

text \<open>
  The clients (wait queues of tasks, the free list of buffers, free blocks of arenas,
  device requests) use a list through these operations and laws.  \<open>agree S h h'\<close> says
  that the step from \<open>h\<close> to \<open>h'\<close> touches nothing outside \<open>S\<close>; \<open>area l xs\<close> is what list
  \<open>l\<close> occupies while it holds \<open>xs\<close>.
\<close>

locale node_lists =
  fixes rep :: "'h \<Rightarrow> 'l \<Rightarrow> 'n list \<Rightarrow> bool"
    and area :: "'l \<Rightarrow> 'n list \<Rightarrow> 'n set"
    and agree :: "'n set \<Rightarrow> 'h \<Rightarrow> 'h \<Rightarrow> bool"
    and push :: "'h \<Rightarrow> 'l \<Rightarrow> 'n \<Rightarrow> 'h result"
    and popback :: "'h \<Rightarrow> 'l \<Rightarrow> ('h \<times> 'n) result"
  assumes push_rep: "rep h l xs \<Longrightarrow> n \<notin> area l xs \<Longrightarrow>
      \<exists>h'. push h l n = Inr h' \<and> rep h' l (n # xs) \<and> agree (area l (n # xs)) h h'"
    and popback_rep: "rep h l (xs @ [n]) \<Longrightarrow>
      \<exists>h'. popback h l = Inr (h', n) \<and> rep h' l xs \<and> agree (area l (xs @ [n])) h h'"
    and frame: "rep h l xs \<Longrightarrow> agree S h h' \<Longrightarrow> area l xs \<inter> S = {} \<Longrightarrow> rep h' l xs"
    and area_Cons: "area l (n # xs) = insert n (area l xs)"
    and area_append: "area l (xs @ [n]) = insert n (area l xs)"
    and rep_nodes: "rep h l (xs @ [n]) \<Longrightarrow> n \<notin> area l xs"

fun push_all :: "('h \<Rightarrow> 'l \<Rightarrow> 'n \<Rightarrow> 'h result) \<Rightarrow> 'h \<Rightarrow> 'l \<Rightarrow> 'n list \<Rightarrow> 'h result" where
  "push_all push h l [] = Inr h"
| "push_all push h l (n # ns) = bindr (push h l n) (\<lambda>h. push_all push h l ns)"

fun drain :: "('h \<Rightarrow> 'l \<Rightarrow> ('h \<times> 'n) result) \<Rightarrow> nat \<Rightarrow> 'h \<Rightarrow> 'l \<Rightarrow> ('h \<times> 'n list) result" where
  "drain popback 0 h l = Inr (h, [])"
| "drain popback (Suc k) h l = bindr (popback h l) (\<lambda>(h, n).
     bindr (drain popback k h l) (\<lambda>(h, ns). Inr (h, n # ns)))"

context node_lists begin

lemma push_all_rep:
  "rep h l xs \<Longrightarrow> distinct ns \<Longrightarrow> set ns \<inter> area l xs = {} \<Longrightarrow>
   \<exists>h'. push_all push h l ns = Inr h' \<and> rep h' l (rev ns @ xs)"
proof (induction ns arbitrary: h xs)
  case Nil
  then show ?case by simp
next
  case (Cons n ns)
  then obtain h1 where h1: "push h l n = Inr h1" "rep h1 l (n # xs)"
    using push_rep [of h l xs n] by auto
  have "set ns \<inter> area l (n # xs) = {}" using Cons.prems by (auto simp: area_Cons)
  with Cons.IH [OF h1(2)] Cons.prems(2) h1(1) show ?case by auto
qed

lemma drain_rep:
  "rep h l (xs @ rev ns) \<Longrightarrow> \<exists>h'. drain popback (length ns) h l = Inr (h', ns) \<and> rep h' l xs"
proof (induction ns arbitrary: h)
  case Nil
  then show ?case by simp
next
  case (Cons n ns)
  then have "rep h l ((xs @ rev ns) @ [n])" by simp
  then obtain h1 where "popback h l = Inr (h1, n)" "rep h1 l (xs @ rev ns)"
    using popback_rep by blast
  with Cons.IH show ?case by fastforce
qed

text \<open>Nodes pushed at the head leave at the back in the order they came: a queue.\<close>

lemma queue_order:
  assumes "rep h l []" and "distinct ns" and "set ns \<inter> area l [] = {}"
  shows "\<exists>h1 h2. push_all push h l ns = Inr h1 \<and> drain popback (length ns) h1 l = Inr (h2, ns)
    \<and> rep h2 l []"
proof -
  obtain h1 where h1: "push_all push h l ns = Inr h1" "rep h1 l (rev ns @ [])"
    using push_all_rep [OF assms] by blast
  then have "rep h1 l ([] @ rev ns)" by simp
  from drain_rep [OF this] h1(1) show ?thesis by auto
qed

text \<open>Moving the oldest node of one list to another one.\<close>

lemma transfer_back:
  assumes "rep h l1 (xs @ [n])" and "rep h l2 ys" and "area l1 (xs @ [n]) \<inter> area l2 ys = {}"
  shows "\<exists>h1 h2. popback h l1 = Inr (h1, n) \<and> push h1 l2 n = Inr h2 \<and> rep h2 l1 xs \<and> rep h2 l2 (n # ys)"
proof -
  obtain h1 where h1: "popback h l1 = Inr (h1, n)" "rep h1 l1 xs" "agree (area l1 (xs @ [n])) h h1"
    using popback_rep [OF assms(1)] by blast
  have r2: "rep h1 l2 ys" using frame [OF assms(2) h1(3)] assms(3) by blast
  have "n \<notin> area l2 ys" using assms(3) by (auto simp: area_append)
  from push_rep [OF r2 this] obtain h2
    where h2: "push h1 l2 n = Inr h2" "rep h2 l2 (n # ys)" "agree (area l2 (n # ys)) h1 h2" by blast
  have "area l1 xs \<inter> area l2 (n # ys) = {}"
    using assms(3) rep_nodes [OF assms(1)] by (auto simp: area_append area_Cons)
  from frame [OF h1(2) h2(3) this] h1(1) h2 show ?thesis by blast
qed

end

lemma cells_Cons: "cells l (n # xs) = insert n (cells l xs)"
  by (auto simp: cells_def)

lemma cells_snoc: "cells l (xs @ [n]) = insert n (cells l xs)"
  by (auto simp: cells_def)

interpretation dlist: node_lists dll cells same_outside list_push list_popback
proof unfold_locales
  fix h :: "'a links" and l :: "'a list_t" and n xs S h'
  show "dll h l xs \<Longrightarrow> n \<notin> cells l xs \<Longrightarrow>
      \<exists>h'. list_push h l n = Inr h' \<and> dll h' l (n # xs) \<and> same_outside (cells l (n # xs)) h h'"
    by (rule list_push_dll)
  show "dll h l (xs @ [n]) \<Longrightarrow>
      \<exists>h'. list_popback h l = Inr (h', n) \<and> dll h' l xs \<and> same_outside (cells l (xs @ [n])) h h'"
    by (drule list_popback_dll) blast
  show "dll h l xs \<Longrightarrow> same_outside S h h' \<Longrightarrow> cells l xs \<inter> S = {} \<Longrightarrow> dll h' l xs"
    by (rule dll_same_outside)
  show "cells l (n # xs) = insert n (cells l xs)" by (rule cells_Cons)
  show "cells l (xs @ [n]) = insert n (cells l xs)" by (rule cells_snoc)
  show "dll h l (xs @ [n]) \<Longrightarrow> n \<notin> cells l xs"
    using dll_distinct [of h l "xs @ [n]"] by (auto simp: cells_def)
qed

section \<open>Properties\<close>

text \<open>
  A concrete store for the witnesses: two lists over natural-number addresses, list
  \<open>(0, 1)\<close> and list \<open>(2, 3)\<close>, both initialised, and every other node detached.
\<close>

definition demo_links :: "nat links" where
  "demo_links = list_init (list_init \<lparr>l_next = (\<lambda>_. None), l_prev = (\<lambda>_. None)\<rparr>
     \<lparr>l_head = 0, l_tail = 1\<rparr>) \<lparr>l_head = 2, l_tail = 3\<rparr>"

lemma demo_links_dll:
  "dll demo_links \<lparr>l_head = 0, l_tail = 1\<rparr> []" "dll demo_links \<lparr>l_head = 2, l_tail = 3\<rparr> []"
  "10 \<le> n \<Longrightarrow> detached demo_links n"
  by (simp_all add: demo_links_def dll_def detached_def list_init_def Let_def)

text \<open>
  C12. A list used with \<open>list_push\<close> and \<open>list_popback\<close>, as the kernel uses its wait queues
  and its list of free buffers, is a first-in first-out queue: after pushing any distinct
  nodes on an initialised list, every \<open>list_popback\<close> succeeds and they come back in the
  order of the pushes, and the list is empty again.
\<close>
theorem list_push_popback_fifo:
  assumes "l_head l \<noteq> l_tail l" and "distinct ns" and "l_head l \<notin> set ns" and "l_tail l \<notin> set ns"
  shows "\<exists>h1 h2. push_all list_push (list_init h l) l ns = Inr h1
    \<and> drain list_popback (length ns) h1 l = Inr (h2, ns) \<and> list_empty h2 l"
proof -
  have "set ns \<inter> cells l [] = {}" using assms by (auto simp: cells_def)
  from dlist.queue_order [OF list_init_dll [OF assms(1)] assms(2) this]
  obtain h1 h2 where "push_all list_push (list_init h l) l ns = Inr h1"
    "drain list_popback (length ns) h1 l = Inr (h2, ns)" "dll h2 l []" by blast
  then show ?thesis by (auto simp: list_empty_dll)
qed

lemma list_push_popback_fifo_witness:
  "\<exists>h1 h2. push_all list_push (list_init demo_links \<lparr>l_head = 4, l_tail = 5\<rparr>) \<lparr>l_head = 4, l_tail = 5\<rparr> [10, 12, 11] = Inr h1
    \<and> drain list_popback 3 h1 \<lparr>l_head = 4, l_tail = 5\<rparr> = Inr (h2, [10, 12, 11])"
  using list_push_popback_fifo [of "\<lparr>l_head = 4, l_tail = 5\<rparr>" "[10, 12, 11]" demo_links]
  by (auto simp: numeral_eq_Suc)

text \<open>
  C13. Removing a node from anywhere in a list deletes exactly that node, leaves both its
  pointers NULL (so that it can be inserted again), and changes no other list of the store.
\<close>
theorem list_remove_exact:
  assumes "dll h l xs" and "n \<in> set xs" and "dll h l' ys" and "cells l' ys \<inter> cells l xs = {}"
  shows "\<exists>h'. list_remove h n = Inr h' \<and> dll h' l (remove1 n xs) \<and> l_next h' n = None
    \<and> l_prev h' n = None \<and> dll h' l' ys \<and> list_search h' l n = Inr False"
proof -
  obtain h' where h': "list_remove h n = Inr h'" "dll h' l (remove1 n xs)" "detached h' n"
    "same_outside (cells l xs) h h'"
    using list_remove_member [OF assms(1,2)] by blast
  have "dll h' l' ys" by (rule dll_same_outside [OF assms(3) h'(4) assms(4)])
  moreover have "n \<notin> set (remove1 n xs)" using dll_distinct [OF assms(1)] by simp
  ultimately show ?thesis using h' by (auto simp: detached_def list_search_dll)
qed

lemma list_remove_exact_witness:
  "\<exists>h. dll h \<lparr>l_head = 0, l_tail = 1\<rparr> [11 :: nat, 10] \<and> (\<exists>h'. list_remove h 10 = Inr h'
    \<and> dll h' \<lparr>l_head = 0, l_tail = 1\<rparr> [11])"
proof -
  let ?l = "\<lparr>l_head = 0, l_tail = 1\<rparr> :: nat list_t"
  from list_push_dll [OF demo_links_dll(1), of 10] obtain h1
    where h1: "dll h1 ?l [10]" "same_outside (cells ?l [10]) demo_links h1" by (auto simp: cells_def)
  have o1: "dll h1 \<lparr>l_head = 2, l_tail = 3\<rparr> []"
    by (rule dll_same_outside [OF demo_links_dll(2) h1(2)]) (simp add: cells_def)
  from list_push_dll [OF h1(1), of 11] obtain h2
    where h2: "dll h2 ?l [11, 10]" "same_outside (cells ?l [11, 10]) h1 h2" by (auto simp: cells_def)
  have o2: "dll h2 \<lparr>l_head = 2, l_tail = 3\<rparr> []"
    by (rule dll_same_outside [OF o1 h2(2)]) (simp add: cells_def)
  from list_remove_exact [OF h2(1), of 10, OF _ o2] h2(1) show ?thesis
    by (auto simp: cells_def)
qed

text \<open>
  C14. \<open>list_insert_sort\<close> keeps a list sorted by its signed key: the new node goes behind
  every node whose key is less than or equal to its own and before the rest, the other
  nodes keep their order, and other lists are untouched.
\<close>
theorem list_insert_sort_sorted:
  assumes "dll h l xs" and "sorted_wrt (key_le nkey) xs" and "detached h n"
  shows "\<exists>h' us vs. list_insert_sort h l nkey n = Inr h' \<and> xs = us @ vs \<and> dll h' l (us @ n # vs)
    \<and> sorted_wrt (key_le nkey) (us @ n # vs)
    \<and> (\<forall>x\<in>set us. sint (nkey x) \<le> sint (nkey n)) \<and> (\<forall>x\<in>set vs. sint (nkey n) < sint (nkey x))
    \<and> (\<forall>l' ys. dll h l' ys \<and> cells l' ys \<inter> cells l xs = {} \<and> n \<notin> cells l' ys \<longrightarrow> dll h' l' ys)"
proof -
  define us where "us = takeWhile (\<lambda>x. key_le nkey x n) xs"
  define vs where "vs = dropWhile (\<lambda>x. key_le nkey x n) xs"
  have xs: "xs = us @ vs" and ins: "insort_node nkey n xs = us @ n # vs"
    by (simp_all add: us_def vs_def insort_node_def)
  obtain h' where h': "list_insert_sort h l nkey n = Inr h'" "dll h' l (us @ n # vs)"
    "same_outside (cells l (n # xs)) h h'"
    using list_insert_sort_dll [OF assms(1,3), of nkey] unfolding ins by blast
  have sorted: "sorted_wrt (key_le nkey) (us @ n # vs)"
    using sorted_insort_node [OF assms(2), of n] by (simp only: ins)
  have le: "\<forall>x\<in>set us. sint (nkey x) \<le> sint (nkey n)"
    by (auto simp: us_def key_le_def dest: set_takeWhileD)
  have gt: "\<forall>x\<in>set vs. sint (nkey n) < sint (nkey x)"
  proof (cases vs)
    case (Cons v vs')
    then have "\<not> key_le nkey v n" by (metis hd_dropWhile list.sel(1) list.distinct(1) vs_def)
    moreover have "\<forall>x\<in>set vs'. key_le nkey v x"
      using assms(2) Cons by (simp add: xs sorted_wrt_append)
    ultimately show ?thesis using Cons by (auto simp: key_le_def)
  qed simp
  have "dll h' l' ys" if "dll h l' ys" "cells l' ys \<inter> cells l xs = {}" "n \<notin> cells l' ys" for l' ys
    by (rule dll_same_outside [OF that(1) h'(3)]) (use that in \<open>auto simp: cells_Cons\<close>)
  with h' xs sorted le gt show ?thesis by blast
qed

text \<open>The node 12, whose key is that of node 10, goes between the nodes 10 and 11.\<close>

lemma list_insert_sort_sorted_witness:
  defines "key \<equiv> \<lambda>n :: nat. if n = 11 then 9 else 5 :: u32"
  shows "\<exists>h h'. dll h \<lparr>l_head = 0, l_tail = 1\<rparr> [10, 11] \<and> list_insert_sort h \<lparr>l_head = 0, l_tail = 1\<rparr> key 12 = Inr h'
    \<and> dll h' \<lparr>l_head = 0, l_tail = 1\<rparr> [10, 12, 11]"
proof -
  let ?l = "\<lparr>l_head = 0, l_tail = 1\<rparr> :: nat list_t"
  from list_push_dll [OF demo_links_dll(1), of 11] obtain h1
    where h1: "dll h1 ?l [11]" "same_outside (cells ?l [11]) demo_links h1" by (auto simp: cells_def)
  have d1: "detached h1 12" by (rule detached_same_outside [OF demo_links_dll(3) h1(2)]) (simp_all add: cells_def)
  from list_push_dll [OF h1(1), of 10] obtain h2
    where h2: "dll h2 ?l [10, 11]" "same_outside (cells ?l [10, 11]) h1 h2" by (auto simp: cells_def)
  have d2: "detached h2 12" by (rule detached_same_outside [OF d1 h2(2)]) (simp add: cells_def)
  have sorted: "sorted_wrt (key_le key) [10, 11]" by (simp add: key_le_def key_def)
  obtain h' us vs where ins: "list_insert_sort h2 ?l key 12 = Inr h'" "[10, 11] = us @ vs" "dll h' ?l (us @ 12 # vs)"
    and us: "\<forall>x\<in>set us. sint (key x) \<le> sint (key 12)" and vs: "\<forall>x\<in>set vs. sint (key 12) < sint (key x)"
    using list_insert_sort_sorted [OF h2(1) sorted d2] by blast
  have "us = [10] \<and> vs = [11]" using ins(2) us vs by (auto simp: Cons_eq_append_conv key_def)
  with ins h2(1) show ?thesis by auto
qed

end
