(* ===== verification/Ylos_Fifo.thy ===== *)
theory Ylos_Fifo
  imports Ylos_Prelude
begin

text \<open>
  lib/fifo.c with include/ylos/fifo.h: the ring buffer of bytes behind the keyboard, the
  serial lines and the pipes.  One slot of the buffer always stays free; putting into a
  full ring drops the oldest byte.  The lemmas refine the ring to the list of the bytes it
  holds, oldest first; the locale \<open>byte_queue\<close> is that contract as its clients use it.
\<close>

section \<open>The code\<close>

record fifo_t =
  f_buf :: "u8 list"
  f_length :: u32
  f_head :: u32
  f_tail :: u32

definition fifo_next :: "fifo_t \<Rightarrow> u32 \<Rightarrow> u32 result" where
  "fifo_next f pos = (if f_length f = 0 then Inl Divide_Error else Inr ((pos + 1) mod f_length f))"

definition fifo_init :: "u8 list \<Rightarrow> u32 \<Rightarrow> fifo_t" where
  "fifo_init buf len = \<lparr>f_buf = buf, f_length = len, f_head = 0, f_tail = 0\<rparr>"

definition fifo_full :: "fifo_t \<Rightarrow> bool result" where
  "fifo_full f = bindr (fifo_next f (f_head f)) (\<lambda>n. Inr (n = f_tail f))"

definition fifo_empty :: "fifo_t \<Rightarrow> bool" where
  "fifo_empty f \<longleftrightarrow> f_head f = f_tail f"

definition fifo_get :: "fifo_t \<Rightarrow> (fifo_t \<times> u8) result" where
  "fifo_get f =
     (if fifo_empty f then Inl Assert_Failed
      else bindr (load_at (f_buf f) (unat (f_tail f))) (\<lambda>byte.
           bindr (fifo_next f (f_tail f)) (\<lambda>n. Inr (f\<lparr>f_tail := n\<rparr>, byte))))"

text \<open>The loop \<open>while (fifo_full(fifo)) fifo_get(fifo);\<close> of \<open>fifo_put\<close>.\<close>

partial_function (option) make_room :: "fifo_t \<Rightarrow> fifo_t result option" where
  "make_room f =
     (case fifo_full f of
        Inl e \<Rightarrow> Some (Inl e)
      | Inr full \<Rightarrow>
          if \<not> full then Some (Inr f)
          else (case fifo_get f of Inl e \<Rightarrow> Some (Inl e) | Inr r \<Rightarrow> make_room (fst r)))"

definition fifo_put :: "fifo_t \<Rightarrow> u8 \<Rightarrow> fifo_t result" where
  "fifo_put f byte =
     bindr (case make_room f of None \<Rightarrow> Inl Diverges | Some r \<Rightarrow> r) (\<lambda>f.
     bindr (store_at (f_buf f) (unat (f_head f)) byte) (\<lambda>buf.
     bindr (fifo_next f (f_head f)) (\<lambda>n. Inr (f\<lparr>f_buf := buf, f_head := n\<rparr>))))"

section \<open>The bytes of a ring\<close>

definition ring_count :: "fifo_t \<Rightarrow> nat" where
  "ring_count f = (unat (f_head f) + unat (f_length f) - unat (f_tail f)) mod unat (f_length f)"

definition ring_at :: "fifo_t \<Rightarrow> nat \<Rightarrow> u8" where
  "ring_at f i = f_buf f ! ((unat (f_tail f) + i) mod unat (f_length f))"

definition ring_bytes :: "fifo_t \<Rightarrow> u8 list" where
  "ring_bytes f = map (ring_at f) [0..<ring_count f]"

definition ring_wf :: "fifo_t \<Rightarrow> bool" where
  "ring_wf f \<longleftrightarrow> 1 < f_length f \<and> unat (f_length f) \<le> length (f_buf f) \<and>
     f_head f < f_length f \<and> f_tail f < f_length f"

definition ring_rep :: "fifo_t \<Rightarrow> u8 list \<Rightarrow> bool" where
  "ring_rep f xs \<longleftrightarrow> ring_wf f \<and> ring_bytes f = xs"

definition ring_room :: "fifo_t \<Rightarrow> nat" where
  "ring_room f = unat (f_length f) - 1"

lemma ring_wf_nat:
  "ring_wf f \<longleftrightarrow> 1 < unat (f_length f) \<and> unat (f_length f) \<le> length (f_buf f) \<and>
     unat (f_head f) < unat (f_length f) \<and> unat (f_tail f) < unat (f_length f)"
  by (simp add: ring_wf_def word_less_nat_alt)

lemma fifo_next_wf:
  assumes "ring_wf f" and "unat pos < unat (f_length f)"
  obtains n where "fifo_next f pos = Inr n" and "unat n = (unat pos + 1) mod unat (f_length f)"
    and "n < f_length f"
proof
  have "unat pos < 4294967295" using assms(2) u32_less_2p32 [of "f_length f"] by linarith
  then have e: "unat (pos + 1) = unat pos + 1" using unat_Suc_small [of pos] by simp
  show "fifo_next f pos = Inr ((pos + 1) mod f_length f)"
    using assms by (auto simp: fifo_next_def ring_wf_nat)
  show "unat ((pos + 1) mod f_length f) = (unat pos + 1) mod unat (f_length f)"
    by (simp add: unat_mod_distrib e)
  show "(pos + 1) mod f_length f < f_length f"
    using assms by (simp add: word_less_nat_alt unat_mod_distrib ring_wf_nat)
qed

lemma ring_count_alt:
  assumes "ring_wf f"
  shows "ring_count f = (if unat (f_tail f) \<le> unat (f_head f) then unat (f_head f) - unat (f_tail f)
    else unat (f_head f) + unat (f_length f) - unat (f_tail f))"
proof (cases "unat (f_tail f) \<le> unat (f_head f)")
  case True
  then have e: "unat (f_head f) + unat (f_length f) - unat (f_tail f)
      = (unat (f_head f) - unat (f_tail f)) + unat (f_length f)" by simp
  have "unat (f_head f) - unat (f_tail f) < unat (f_length f)" using assms by (auto simp: ring_wf_nat intro: less_imp_diff_less)
  then show ?thesis unfolding ring_count_def e using True by (simp only: mod_add_self2 mod_less if_True)
next
  case False
  then have "unat (f_head f) + unat (f_length f) - unat (f_tail f) < unat (f_length f)"
    using assms unfolding ring_wf_nat by linarith
  with False show ?thesis by (simp add: ring_count_def)
qed

lemma ring_count_le: "ring_wf f \<Longrightarrow> ring_count f \<le> ring_room f"
  by (auto simp: ring_count_alt ring_room_def ring_wf_nat)

lemma ring_room_pos: "ring_wf f \<Longrightarrow> 0 < ring_room f"
  by (simp add: ring_room_def ring_wf_nat)

lemma length_ring_bytes [simp]: "length (ring_bytes f) = ring_count f"
  by (simp add: ring_bytes_def)

lemma fifo_empty_count: "ring_wf f \<Longrightarrow> fifo_empty f \<longleftrightarrow> ring_count f = 0"
  by (auto simp: fifo_empty_def ring_count_alt ring_wf_nat word_unat_eq_iff)

lemma succ_mod: "p < n \<Longrightarrow> (p + 1) mod n = (if p + 1 = n then 0 else p + 1)" for p n :: nat
  by auto

lemma wrap_mod: "a < n \<Longrightarrow> b < n \<Longrightarrow> (a + b) mod n = (if a + b < n then a + b else a + b - n)" for a b n :: nat
  by (simp add: mod_if)

lemma fifo_full_count:
  assumes "ring_wf f"
  shows "fifo_full f = Inr (ring_count f = ring_room f)"
proof -
  have h: "unat (f_head f) < unat (f_length f)" using assms by (simp add: ring_wf_nat)
  obtain n where n: "fifo_next f (f_head f) = Inr n"
    "unat n = (unat (f_head f) + 1) mod unat (f_length f)" using fifo_next_wf [OF assms h] .
  have "n = f_tail f \<longleftrightarrow> ring_count f = ring_room f"
    using n(2) assms h unfolding word_unat_eq_iff succ_mod [OF h]
    by (auto simp: ring_count_alt ring_room_def ring_wf_nat)
  with n(1) show ?thesis by (simp add: fifo_full_def)
qed

lemma ring_bytes_Cons:
  "0 < ring_count f \<Longrightarrow> ring_bytes f = ring_at f 0 # map (\<lambda>i. ring_at f (Suc i)) [0..<ring_count f - 1]"
  unfolding ring_bytes_def
  by (cases "ring_count f")
    (simp_all add: upt_conv_Cons map_Suc_upt [symmetric] o_def del: upt_Suc)

lemma fifo_get_ring:
  assumes "ring_rep f (x # xs)"
  obtains f' where "fifo_get f = Inr (f', x)" and "ring_rep f' xs" and "ring_room f' = ring_room f"
proof -
  have wf: "ring_wf f" and bytes: "ring_bytes f = x # xs" using assms by (auto simp: ring_rep_def)
  have t: "unat (f_tail f) < unat (f_length f)" using wf by (simp add: ring_wf_nat)
  have cnt: "0 < ring_count f" using arg_cong [OF bytes, of length] by simp
  obtain n where n: "fifo_next f (f_tail f) = Inr n"
    "unat n = (unat (f_tail f) + 1) mod unat (f_length f)" "n < f_length f" using fifo_next_wf [OF wf t] .
  let ?f = "f\<lparr>f_tail := n\<rparr>"
  have wf': "ring_wf ?f" using wf n(3) by (simp add: ring_wf_def)
  have cnt': "ring_count ?f = ring_count f - 1"
    using n(2) cnt unfolding ring_count_alt [OF wf] ring_count_alt [OF wf'] succ_mod [OF t]
    using wf by (auto simp: ring_wf_nat)
  have at': "ring_at ?f i = ring_at f (Suc i)" for i
    by (simp add: ring_at_def n(2) mod_add_left_eq)
  have "x = ring_at f 0" and xs: "xs = map (\<lambda>i. ring_at f (Suc i)) [0..<ring_count f - 1]"
    using bytes ring_bytes_Cons [OF cnt] by auto
  moreover have "load_at (f_buf f) (unat (f_tail f)) = Inr (ring_at f 0)"
    using wf by (simp add: ring_at_def ring_wf_nat)
  ultimately have "fifo_get f = Inr (?f, x)"
    using cnt n(1) by (simp add: fifo_get_def fifo_empty_count [OF wf])
  moreover have "ring_rep ?f xs" by (simp add: ring_rep_def wf' ring_bytes_def cnt' at' xs)
  ultimately show thesis by (rule that) (simp add: ring_room_def)
qed

lemma fifo_get_empty: "ring_rep f [] \<Longrightarrow> fifo_get f = Inl Assert_Failed"
  using fifo_empty_count [of f] length_ring_bytes [of f] by (simp add: fifo_get_def ring_rep_def)

definition ring_put :: "nat \<Rightarrow> u8 list \<Rightarrow> u8 \<Rightarrow> u8 list" where
  "ring_put room xs b = (if length xs < room then xs else tl xs) @ [b]"

lemma make_room_ring:
  assumes "ring_rep f xs"
  obtains f' where "make_room f = Some (Inr f')"
    and "ring_rep f' (if length xs < ring_room f then xs else tl xs)" and "ring_room f' = ring_room f"
    and "ring_count f' < ring_room f"
proof (cases "ring_count f < ring_room f")
  case True
  have wf: "ring_wf f" and xs: "ring_bytes f = xs" using assms by (simp_all add: ring_rep_def)
  have "make_room f = Some (Inr f)"
    using True by (subst make_room.simps) (simp add: fifo_full_count [OF wf])
  with True assms xs show thesis by (intro that [of f]) auto
next
  case False
  have wf: "ring_wf f" and bytes: "ring_bytes f = xs" using assms by (simp_all add: ring_rep_def)
  have full: "ring_count f = ring_room f" using False ring_count_le [OF wf] by simp
  then have len: "length xs = ring_room f" using arg_cong [OF bytes, of length] by simp
  then obtain y ys where xs: "xs = y # ys" using ring_room_pos [OF wf] by (cases xs) auto
  obtain f' where f': "fifo_get f = Inr (f', y)" "ring_rep f' ys" "ring_room f' = ring_room f"
    using fifo_get_ring [OF assms [unfolded xs]] .
  have wf': "ring_wf f'" using f'(2) by (simp add: ring_rep_def)
  have c': "ring_count f' < ring_room f"
    using f'(2) len length_ring_bytes [of f'] by (simp add: ring_rep_def xs)
  have "make_room f' = Some (Inr f')"
    using c' f'(3) by (subst make_room.simps) (simp add: fifo_full_count [OF wf'])
  then have "make_room f = Some (Inr f')"
    by (subst make_room.simps) (simp add: fifo_full_count [OF wf] full f'(1))
  then show thesis by (rule that) (use f' len xs c' in simp_all)
qed


lemma ring_bytes_put:
  assumes "ring_wf f" and "ring_count f < ring_room f" and "unat n = (unat (f_head f) + 1) mod unat (f_length f)"
    and "n < f_length f"
  shows "ring_rep (f\<lparr>f_buf := (f_buf f)[unat (f_head f) := b], f_head := n\<rparr>) (ring_bytes f @ [b])"
proof -
  let ?f = "f\<lparr>f_buf := (f_buf f)[unat (f_head f) := b], f_head := n\<rparr>"
  let ?L = "unat (f_length f)" and ?h = "unat (f_head f)" and ?t = "unat (f_tail f)"
  have nat: "1 < ?L" "?L \<le> length (f_buf f)" "?h < ?L" "?t < ?L"
    using assms(1) by (simp_all add: ring_wf_nat)
  have wf': "ring_wf ?f" using assms(1,4) by (simp add: ring_wf_def)
  have cnt': "ring_count ?f = Suc (ring_count f)"
    using assms(2,3) nat unfolding ring_count_alt [OF assms(1)] ring_count_alt [OF wf'] succ_mod [OF nat(3)]
    by (auto simp: ring_room_def)
  have cntL: "ring_count f < ?L" using assms(2) by (simp add: ring_room_def)
  have head: "(?t + ring_count f) mod ?L = ?h"
    using nat unfolding wrap_mod [OF nat(4) cntL] ring_count_alt [OF assms(1)] by auto
  have inj: "(?t + i) mod ?L \<noteq> ?h" if "i < ring_count f" for i
  proof -
    have "i < ?L" using that cntL by simp
    from wrap_mod [OF nat(4) this] show ?thesis
      using nat that unfolding ring_count_alt [OF assms(1)] by (auto split: if_splits)
  qed
  have old: "ring_at ?f i = ring_at f i" if "i < ring_count f" for i
    using inj [OF that] by (simp add: ring_at_def)
  have new: "ring_at ?f (ring_count f) = b"
    using nat by (simp add: ring_at_def head)
  have "ring_bytes ?f = map (ring_at ?f) [0..<ring_count f] @ [ring_at ?f (ring_count f)]"
    unfolding ring_bytes_def cnt' by simp
  also have "map (ring_at ?f) [0..<ring_count f] = ring_bytes f"
    unfolding ring_bytes_def by (rule map_cong) (use old in auto)
  finally show ?thesis using wf' new by (simp add: ring_rep_def)
qed

lemma fifo_put_ring:
  assumes "ring_rep f xs"
  obtains f' where "fifo_put f b = Inr f'" and "ring_rep f' (ring_put (ring_room f) xs b)"
    and "ring_room f' = ring_room f"
proof -
  let ?ys = "if length xs < ring_room f then xs else tl xs"
  obtain g where g: "make_room f = Some (Inr g)" "ring_rep g ?ys" "ring_room g = ring_room f"
    "ring_count g < ring_room f" using make_room_ring [OF assms] .
  have wf: "ring_wf g" and bytes: "ring_bytes g = ?ys" using g(2) by (simp_all add: ring_rep_def)
  have h: "unat (f_head g) < unat (f_length g)" "unat (f_head g) < length (f_buf g)"
    using wf by (auto simp: ring_wf_nat)
  obtain n where n: "fifo_next g (f_head g) = Inr n"
    "unat n = (unat (f_head g) + 1) mod unat (f_length g)" "n < f_length g" using fifo_next_wf [OF wf h(1)] .
  let ?f = "g\<lparr>f_buf := (f_buf g)[unat (f_head g) := b], f_head := n\<rparr>"
  have "ring_rep ?f (?ys @ [b])"
    using ring_bytes_put [OF wf _ n(2,3), of b] g(3,4) bytes by simp
  moreover have "fifo_put f b = Inr ?f"
    using h(2) n(1) by (simp add: fifo_put_def g(1) fifo_next_def)
  moreover have "ring_room ?f = ring_room f" using g(3) by (simp add: ring_room_def)
  ultimately show thesis by (intro that [of ?f]) (simp_all add: ring_put_def)
qed

lemma fifo_init_ring:
  assumes "1 < len" and "unat len \<le> length buf"
  shows "ring_rep (fifo_init buf len) []" and "ring_room (fifo_init buf len) = unat len - 1"
  using assms
  by (auto simp: ring_rep_def ring_wf_def fifo_init_def ring_bytes_def ring_count_def ring_room_def word_less_nat_alt)

text \<open>A ring of one slot has no free byte to give up: \<open>fifo_put\<close> fails its assertion.\<close>

lemma fifo_put_one_slot: "fifo_put (fifo_init buf 1) b = Inl Assert_Failed"
  by (subst fifo_put_def, subst make_room.simps)
    (simp add: fifo_full_def fifo_next_def fifo_init_def fifo_get_def fifo_empty_def)

lemma fifo_put_no_slot: "fifo_put (fifo_init buf 0) b = Inl Divide_Error"
  by (subst fifo_put_def, subst make_room.simps)
    (simp add: fifo_full_def fifo_next_def fifo_init_def)


section \<open>The interface of a byte queue\<close>

text \<open>
  What the interrupt handlers and the pipes rely on: a queue with room for a fixed number
  of bytes, \<open>put\<close> that gives up the oldest byte when there is no room, and \<open>get\<close> that
  yields the oldest byte.
\<close>

locale byte_queue =
  fixes rep :: "'q \<Rightarrow> u8 list \<Rightarrow> bool"
    and room :: "'q \<Rightarrow> nat"
    and put :: "'q \<Rightarrow> u8 \<Rightarrow> 'q result"
    and get :: "'q \<Rightarrow> ('q \<times> u8) result"
  assumes room_pos: "rep q xs \<Longrightarrow> 0 < room q \<and> length xs \<le> room q"
    and put_rep: "rep q xs \<Longrightarrow> \<exists>q'. put q b = Inr q' \<and> rep q' (ring_put (room q) xs b) \<and> room q' = room q"
    and get_rep: "rep q (x # xs) \<Longrightarrow> \<exists>q'. get q = Inr (q', x) \<and> rep q' xs \<and> room q' = room q"
    and get_nil: "rep q [] \<Longrightarrow> \<exists>e. get q = Inl e"

fun puts :: "('q \<Rightarrow> u8 \<Rightarrow> 'q result) \<Rightarrow> 'q \<Rightarrow> u8 list \<Rightarrow> 'q result" where
  "puts put q [] = Inr q"
| "puts put q (b # bs) = bindr (put q b) (\<lambda>q. puts put q bs)"

fun gets :: "('q \<Rightarrow> ('q \<times> u8) result) \<Rightarrow> nat \<Rightarrow> 'q \<Rightarrow> ('q \<times> u8 list) result" where
  "gets get 0 q = Inr (q, [])"
| "gets get (Suc n) q =
     bindr (get q) (\<lambda>(q, b). bindr (gets get n q) (\<lambda>(q, bs). Inr (q, b # bs)))"

text \<open>The youngest \<open>n\<close> bytes of a sequence, oldest first.\<close>

definition youngest :: "nat \<Rightarrow> 'a list \<Rightarrow> 'a list" where
  "youngest n xs = drop (length xs - n) xs"

lemma ring_put_youngest:
  "length xs \<le> room \<Longrightarrow> 0 < room \<Longrightarrow> ring_put room xs b = youngest room (xs @ [b])"
  by (cases xs) (auto simp: ring_put_def youngest_def)

lemma youngest_youngest: "youngest n (youngest n xs @ ys) = youngest n (xs @ ys)"
proof (cases "n \<le> length xs")
  case True
  then show ?thesis by (cases "length ys \<le> n") (simp_all add: youngest_def add.commute)
qed (simp add: youngest_def)

lemma length_youngest [simp]: "length (youngest n xs) = min n (length xs)"
  by (simp add: youngest_def)

lemma youngest_all: "length xs \<le> n \<Longrightarrow> youngest n xs = xs"
  by (simp add: youngest_def)

context byte_queue
begin

lemma puts_rep:
  "rep q xs \<Longrightarrow> \<exists>q'. puts put q bs = Inr q' \<and> rep q' (youngest (room q) (xs @ bs)) \<and> room q' = room q"
proof (induction bs arbitrary: q xs)
  case Nil
  then show ?case using room_pos by (auto simp: youngest_all)
next
  case (Cons b bs)
  obtain q' where q': "put q b = Inr q'" "rep q' (youngest (room q) (xs @ [b]))" "room q' = room q"
    using put_rep [OF Cons.prems] ring_put_youngest room_pos [OF Cons.prems] by metis
  with Cons.IH [OF q'(2)] show ?case by (auto simp: youngest_youngest)
qed

lemma gets_rep:
  "rep q (xs @ ys) \<Longrightarrow> \<exists>q'. gets get (length xs) q = Inr (q', xs) \<and> rep q' ys \<and> room q' = room q"
proof (induction xs arbitrary: q)
  case (Cons x xs)
  obtain q' where q': "get q = Inr (q', x)" "rep q' (xs @ ys)" "room q' = room q"
    using get_rep [of q x "xs @ ys"] Cons.prems by auto
  with Cons.IH [OF q'(2)] show ?case by auto
qed simp

lemma gets_too_many:
  assumes "rep q xs" and "length xs < n"
  shows "\<exists>e. gets get n q = Inl e"
  using assms
proof (induction xs arbitrary: q n)
  case Nil
  obtain e where "get q = Inl e" using get_nil [OF Nil.prems(1)] by blast
  then show ?case using Nil.prems(2) by (cases n) auto
next
  case (Cons x xs)
  then obtain m where m: "n = Suc m" "length xs < m" by (cases n) auto
  obtain q' where q': "get q = Inr (q', x)" "rep q' xs" using get_rep [OF Cons.prems(1)] by auto
  with Cons.IH [OF q'(2) m(2)] m(1) show ?case by auto
qed

lemma lossless:
  assumes "rep q []" and "length bs \<le> room q"
  shows "\<exists>q1 q2. puts put q bs = Inr q1 \<and> gets get (length bs) q1 = Inr (q2, bs) \<and> rep q2 []"
proof -
  obtain q1 where q1: "puts put q bs = Inr q1" "rep q1 bs"
    using puts_rep [OF assms(1), of bs] assms(2) by (auto simp: youngest_all)
  with gets_rep [of q1 bs "[]"] show ?thesis by auto
qed

end

interpretation fq: byte_queue ring_rep ring_room fifo_put fifo_get
proof
  fix f xs assume "ring_rep f xs"
  then show "0 < ring_room f \<and> length xs \<le> ring_room f"
    using ring_count_le ring_room_pos length_ring_bytes unfolding ring_rep_def by metis
qed (metis fifo_put_ring fifo_get_ring fifo_get_empty)+

section \<open>Properties\<close>

text \<open>
  C15. A ring over a buffer of \<open>len\<close> bytes is a first-in first-out queue of \<open>len - 1\<close> bytes
  that forgets its oldest byte when it overflows: whatever bytes are put in, no
  \<open>fifo_put\<close> fails or loops for ever, the next reads yield the youngest \<open>len - 1\<close> of them in
  the order they came, and a read of an empty ring fails its assertion.
\<close>
theorem fifo_keeps_youngest:
  assumes "1 < len" and "unat len \<le> length buf"
  shows "\<exists>f1 f2. puts fifo_put (fifo_init buf len) bs = Inr f1
    \<and> gets fifo_get (min (unat len - 1) (length bs)) f1 = Inr (f2, youngest (unat len - 1) bs)
    \<and> fifo_empty f2 \<and> fifo_get f2 = Inl Assert_Failed"
proof -
  note init = fifo_init_ring [OF assms]
  let ?ys = "youngest (unat len - 1) bs"
  obtain f1 where f1: "puts fifo_put (fifo_init buf len) bs = Inr f1" "ring_rep f1 ?ys"
    using fq.puts_rep [OF init(1), of bs] init(2) by auto
  then obtain f2 where f2: "gets fifo_get (length ?ys) f1 = Inr (f2, ?ys)" "ring_rep f2 []"
    using fq.gets_rep [of f1 ?ys "[]"] by auto
  have "fifo_empty f2" using f2(2) fifo_empty_count [of f2] length_ring_bytes [of f2]
    by (simp add: ring_rep_def)
  with f1 f2 fifo_get_empty show ?thesis by auto
qed

lemma fifo_keeps_youngest_witness:
  "\<exists>f1 f2. puts fifo_put (fifo_init [0, 0, 0, 0] 4) [1, 2, 3, 4, 5] = Inr f1
    \<and> gets fifo_get 3 f1 = Inr (f2, [3, 4, 5])"
  using fifo_keeps_youngest [of 4 "[0, 0, 0, 0]" "[1, 2, 3, 4, 5]"]
  by (simp add: youngest_def word_less_nat_alt numeral_3_eq_3 del: puts.simps gets.simps) blast

end
