(* ===== verification/Ylos_String.thy ===== *)
theory Ylos_String
  imports Ylos_Prelude "HOL-Library.List_Lexorder"
begin

text \<open>
  lib/string.c.  A pointer into an object is the list of the bytes from there to the end of
  the object; going past the end is \<open>Bad_Access\<close>.  A returned pointer is its distance from
  the argument, and NULL is \<open>None\<close>.  Bytes are compared as the signed \<open>char\<close> of the
  compiler: \<open>sint\<close> of the byte.  The destination and the source are different objects.
\<close>

section \<open>The code\<close>

definition EOS :: u8 where
  "EOS = 0"

fun strcpy :: "u8 list \<Rightarrow> u8 list \<Rightarrow> u8 list result" where
  "strcpy (d # dest) (c # src) =
     (if c = EOS then Inr (c # dest) else bindr (strcpy dest src) (\<lambda>dest. Inr (c # dest)))"
| "strcpy [] src = Inl Bad_Access"
| "strcpy dest [] = Inl Bad_Access"

text \<open>The loop of \<open>strncpy\<close>; the flag says that it met the end of the source.\<close>

fun strncpy_loop :: "u8 list \<Rightarrow> u8 list \<Rightarrow> nat \<Rightarrow> (u8 list \<times> bool) result" where
  "strncpy_loop dest src 0 = Inr (dest, False)"
| "strncpy_loop (d # dest) (c # src) (Suc n) =
     (if c = EOS then Inr (c # dest, True)
      else bindr (strncpy_loop dest src n) (\<lambda>(dest, e). Inr (c # dest, e)))"
| "strncpy_loop [] src (Suc n) = Inl Bad_Access"
| "strncpy_loop dest [] (Suc n) = Inl Bad_Access"

definition strncpy :: "u8 list \<Rightarrow> u8 list \<Rightarrow> u32 \<Rightarrow> u8 list result" where
  "strncpy dest src count =
     bindr (strncpy_loop dest src (unat count)) (\<lambda>(dest, ended).
       if ended then Inr dest else store_at dest (unat (count - 1)) EOS)"

fun strcat :: "u8 list \<Rightarrow> u8 list \<Rightarrow> u8 list result" where
  "strcat [] src = Inl Bad_Access"
| "strcat (d # dest) src =
     (if d = EOS then strcpy (d # dest) src
      else bindr (strcat dest src) (\<lambda>dest. Inr (d # dest)))"

fun strnlen_loop :: "u8 list \<Rightarrow> u32 \<Rightarrow> nat \<Rightarrow> nat result" where
  "strnlen_loop [] maxlen n = Inl Bad_Access"
| "strnlen_loop (c # str) maxlen n =
     (if c = EOS \<or> maxlen = 0 then Inr n else strnlen_loop str (maxlen - 1) (Suc n))"

definition strnlen :: "u8 list \<Rightarrow> u32 \<Rightarrow> nat result" where
  "strnlen str maxlen = strnlen_loop str maxlen 0"

fun strlen :: "u8 list \<Rightarrow> nat result" where
  "strlen [] = Inl Bad_Access"
| "strlen (c # str) = (if c = EOS then Inr 0 else bindr (strlen str) (\<lambda>n. Inr (Suc n)))"

definition char_diff :: "u8 \<Rightarrow> u8 \<Rightarrow> int" where
  "char_diff l r = (if sint l < sint r then - 1 else if sint r < sint l then 1 else 0)"

fun strcmp :: "u8 list \<Rightarrow> u8 list \<Rightarrow> int result" where
  "strcmp (l # lhs) (r # rhs) =
     (if l = r \<and> l \<noteq> EOS \<and> r \<noteq> EOS then strcmp lhs rhs else Inr (char_diff l r))"
| "strcmp [] rhs = Inl Bad_Access"
| "strcmp lhs [] = Inl Bad_Access"

fun strchr :: "u8 list \<Rightarrow> int \<Rightarrow> nat option result" where
  "strchr [] ch = Inl Bad_Access"
| "strchr (c # str) ch =
     (if sint c = ch then Inr (Some 0)
      else if c = EOS then Inr None
      else bindr (strchr str ch) (\<lambda>r. Inr (map_option Suc r)))"

text \<open>
  \<open>strrchr\<close> and \<open>strrsep\<close> carry the last hit along; \<open>n\<close> counts the steps of the pointer.
\<close>

fun strrchr_loop :: "u8 list \<Rightarrow> int \<Rightarrow> nat \<Rightarrow> nat option \<Rightarrow> nat option result" where
  "strrchr_loop [] ch n found = Inl Bad_Access"
| "strrchr_loop (c # str) ch n found =
     (let found = (if sint c = ch then Some n else found)
      in if c = EOS then Inr found else strrchr_loop str ch (Suc n) found)"

definition strrchr :: "u8 list \<Rightarrow> int \<Rightarrow> nat option result" where
  "strrchr str ch = strrchr_loop str ch 0 None"

definition IS_SEPARATOR :: "u8 \<Rightarrow> bool" where
  "IS_SEPARATOR c \<longleftrightarrow> c = 47 \<or> c = 92"

fun strsep :: "u8 list \<Rightarrow> nat option result" where
  "strsep [] = Inl Bad_Access"
| "strsep (c # str) =
     (if IS_SEPARATOR c then Inr (Some 0)
      else if c = EOS then Inr None
      else bindr (strsep str) (\<lambda>r. Inr (map_option Suc r)))"

fun strrsep_loop :: "u8 list \<Rightarrow> nat \<Rightarrow> nat option \<Rightarrow> nat option result" where
  "strrsep_loop [] n found = Inl Bad_Access"
| "strrsep_loop (c # str) n found =
     (let found = (if IS_SEPARATOR c then Some n else found)
      in if c = EOS then Inr found else strrsep_loop str (Suc n) found)"

definition strrsep :: "u8 list \<Rightarrow> nat option result" where
  "strrsep str = strrsep_loop str 0 None"

fun memcmp :: "u8 list \<Rightarrow> u8 list \<Rightarrow> nat \<Rightarrow> int result" where
  "memcmp lhs rhs 0 = Inr 0"
| "memcmp (l # lhs) (r # rhs) (Suc n) =
     (if l = r then memcmp lhs rhs n else Inr (char_diff l r))"
| "memcmp [] rhs (Suc n) = Inl Bad_Access"
| "memcmp lhs [] (Suc n) = Inl Bad_Access"

fun memset :: "u8 list \<Rightarrow> u8 \<Rightarrow> nat \<Rightarrow> u8 list result" where
  "memset dest ch 0 = Inr dest"
| "memset [] ch (Suc n) = Inl Bad_Access"
| "memset (d # dest) ch (Suc n) = bindr (memset dest ch n) (\<lambda>dest. Inr (ch # dest))"

fun memcpy :: "u8 list \<Rightarrow> u8 list \<Rightarrow> nat \<Rightarrow> u8 list result" where
  "memcpy dest src 0 = Inr dest"
| "memcpy (d # dest) (c # src) (Suc n) = bindr (memcpy dest src n) (\<lambda>dest. Inr (c # dest))"
| "memcpy [] src (Suc n) = Inl Bad_Access"
| "memcpy dest [] (Suc n) = Inl Bad_Access"

text \<open>
  \<open>memchr\<close> has no \<open>return\<close> after its loop: what the caller then gets is whatever is in the
  result register, the argument \<open>junk\<close>.
\<close>

fun memchr :: "nat option \<Rightarrow> u8 list \<Rightarrow> int \<Rightarrow> nat \<Rightarrow> nat \<Rightarrow> nat option result" where
  "memchr junk str ch 0 n = Inr junk"
| "memchr junk [] ch (Suc count) n = Inl Bad_Access"
| "memchr junk (c # str) ch (Suc count) n =
     (if sint c = ch then Inr (Some n) else memchr junk str ch count (Suc n))"

section \<open>C strings\<close>

definition cstr :: "u8 list \<Rightarrow> u8 list \<Rightarrow> bool" where
  "cstr p s \<longleftrightarrow> 0 \<notin> set s \<and> (\<exists>rest. p = s @ 0 # rest)"

lemma cstrI: "0 \<notin> set s \<Longrightarrow> cstr (s @ 0 # rest) s"
  by (auto simp: cstr_def)

lemma cstrE:
  assumes "cstr p s"
  obtains rest where "p = s @ 0 # rest" and "0 \<notin> set s"
  using assms by (auto simp: cstr_def)

lemma strlen_append: "0 \<notin> set s \<Longrightarrow> strlen (s @ 0 # rest) = Inr (length s)"
  by (induction s) (simp_all add: EOS_def)

lemma strlen_cstr: "cstr p s \<Longrightarrow> strlen p = Inr (length s)"
  by (auto simp: cstr_def strlen_append)

lemma strcpy_cstr:
  "0 \<notin> set s \<Longrightarrow> strcpy dest (s @ 0 # rest) =
     (if length s < length dest then Inr (s @ 0 # drop (Suc (length s)) dest) else Inl Bad_Access)"
proof (induction s arbitrary: dest)
  case Nil
  then show ?case by (cases dest) (simp_all add: EOS_def)
next
  case (Cons c s)
  then show ?case by (cases dest) (auto simp: EOS_def)
qed

lemma strcat_cstr:
  "0 \<notin> set t \<Longrightarrow> 0 \<notin> set s \<Longrightarrow> strcat (t @ 0 # free) (s @ 0 # rest) =
     (if length s \<le> length free then Inr (t @ s @ 0 # drop (length s) free) else Inl Bad_Access)"
proof (induction t)
  case Nil
  then show ?case by (auto simp: strcpy_cstr EOS_def)
qed (auto simp: EOS_def)

lemma strncpy_loop_short:
  "0 \<notin> set s \<Longrightarrow> length s < n \<Longrightarrow> length s < length dest \<Longrightarrow>
     strncpy_loop dest (s @ 0 # rest) n = Inr (s @ 0 # drop (Suc (length s)) dest, True)"
proof (induction s arbitrary: dest n)
  case Nil
  then show ?case by (cases dest; cases n) (simp_all add: EOS_def)
next
  case (Cons c s)
  then obtain d ds m where "dest = d # ds" "n = Suc m" by (cases dest; cases n) auto
  with Cons show ?case by (auto simp: EOS_def)
qed

lemma strncpy_loop_long:
  "0 \<notin> set (take n src) \<Longrightarrow> n \<le> length src \<Longrightarrow> n \<le> length dest \<Longrightarrow>
     strncpy_loop dest src n = Inr (take n src @ drop n dest, False)"
proof (induction n arbitrary: dest src)
  case (Suc n)
  then obtain d ds c cs where "dest = d # ds" "src = c # cs" by (cases dest; cases src) auto
  with Suc show ?case by (auto simp: EOS_def)
qed simp

lemma strncpy_cstr:
  assumes "0 \<notin> set s" and "0 < count" and "unat count \<le> length dest"
  shows "strncpy dest (s @ 0 # rest) count =
    Inr (take (unat count - 1) s @ 0 # drop (Suc (min (unat count - 1) (length s))) dest)"
proof (cases "length s < unat count")
  case True
  then have "length s < length dest" using assms(3) by simp
  from strncpy_loop_short [OF assms(1) True this]
  have "strncpy dest (s @ 0 # rest) count = Inr (s @ 0 # drop (Suc (length s)) dest)"
    by (simp add: strncpy_def)
  moreover have "min (unat count - 1) (length s) = length s" "take (unat count - 1) s = s"
    using True by auto
  ultimately show ?thesis by simp
next
  case False
  let ?n = "unat count"
  have n: "?n \<le> length s" "0 < ?n" using False assms(2) by (simp_all add: word_less_nat_alt)
  have s0: "0 \<notin> set (take ?n (s @ 0 # rest))" using assms(1) n(1) by (auto dest: in_set_takeD)
  have idx: "unat (count - 1) = ?n - 1" using n(2) by (simp add: unat_diff_small)
  have upd: "(take ?n s @ drop ?n dest)[?n - 1 := 0] = take (?n - 1) s @ 0 # drop ?n dest"
    using n assms(3) by (simp add: list_update_append take_hd_drop [symmetric] list_update_beyond
        upd_conv_take_nth_drop min_def)
  have loop: "strncpy_loop dest (s @ 0 # rest) ?n = Inr (take ?n s @ drop ?n dest, False)"
    using strncpy_loop_long [OF s0] n(1) assms(3) by simp
  have "?n - 1 < length (take ?n s @ drop ?n dest)" using n assms(3) by simp
  then have "strncpy dest (s @ 0 # rest) count = Inr (take (?n - 1) s @ 0 # drop ?n dest)"
    unfolding strncpy_def loop using upd by (simp add: idx EOS_def)
  moreover have "Suc (min (?n - 1) (length s)) = ?n" using n by (simp add: min_def)
  ultimately show ?thesis by simp
qed

lemma sint_eq_iff [simp]: "sint (a :: u8) = sint b \<longleftrightarrow> a = b"
  by (auto intro: signed_word_eqI)

lemma sint_eq_0 [simp]: "sint (a :: u8) = 0 \<longleftrightarrow> a = 0" "0 = sint (a :: u8) \<longleftrightarrow> a = 0"
  using sint_eq_iff [of a 0] by auto

lemma char_diff_0 [simp]: "char_diff a b = 0 \<longleftrightarrow> a = b"
  using sint_eq_iff [of a b] by (auto simp: char_diff_def simp del: sint_eq_iff)

lemma char_diff_swap: "char_diff b a = - char_diff a b"
  by (auto simp: char_diff_def)


lemma strcmp_cstr:
  "0 \<notin> set a \<Longrightarrow> 0 \<notin> set b \<Longrightarrow> \<exists>d. strcmp (a @ 0 # x) (b @ 0 # y) = Inr d
     \<and> (d = 0 \<longleftrightarrow> a = b) \<and> (d < 0 \<longleftrightarrow> map sint (a @ [0]) < map sint (b @ [0]))
     \<and> strcmp (b @ 0 # y) (a @ 0 # x) = Inr (- d) \<and> \<bar>d\<bar> \<le> 1"
proof (induction a arbitrary: b)
  case Nil
  then show ?case by (cases b) (auto simp: EOS_def char_diff_def)
next
  case (Cons c a)
  show ?case
  proof (cases b)
    case Nil
    with Cons.prems show ?thesis by (auto simp: EOS_def char_diff_def)
  next
    case (Cons e b')
    show ?thesis
    proof (cases "c = e")
      case True
      with Cons Cons.IH [of b'] Cons.prems show ?thesis by (auto simp: EOS_def)
    next
      case False
      have "char_diff c e < 0 \<longleftrightarrow> sint c < sint e" "\<bar>char_diff c e\<bar> \<le> 1" by (auto simp: char_diff_def)
      with False Cons show ?thesis by (auto simp: char_diff_swap [of e c])
    qed
  qed
qed

lemma strchr_append:
  assumes "0 \<notin> set s"
  shows "strchr (s @ 0 # rest) (sint c) =
    Inr (if c \<in> set s then Some (length (takeWhile (\<lambda>d. d \<noteq> c) s)) else if c = 0 then Some (length s) else None)"
  using assms by (induction s) (auto simp: EOS_def)

lemma strsep_append:
  assumes "0 \<notin> set s"
  shows "strsep (s @ 0 # rest) =
    Inr (if \<exists>c\<in>set s. IS_SEPARATOR c then Some (length (takeWhile (Not \<circ> IS_SEPARATOR) s)) else None)"
  using assms by (induction s) (auto simp: EOS_def IS_SEPARATOR_def)

definition last_index :: "('a \<Rightarrow> bool) \<Rightarrow> 'a list \<Rightarrow> nat option" where
  "last_index P s = (if \<exists>c\<in>set s. P c then Some (length s - Suc (length (takeWhile (Not \<circ> P) (rev s)))) else None)"

lemma last_index_Nil [simp]: "last_index P [] = None"
  by (simp add: last_index_def)

lemma last_index_snoc [simp]: "last_index P (s @ [c]) = (if P c then Some (length s) else last_index P s)"
  by (auto simp: last_index_def)

lemma strrsep_loop_append:
  "0 \<notin> set s \<Longrightarrow> 0 \<notin> set t \<Longrightarrow> strrsep_loop (t @ 0 # rest) (length s) (last_index IS_SEPARATOR s)
     = Inr (last_index IS_SEPARATOR (s @ t))"
proof (induction t arbitrary: s)
  case Nil
  then show ?case by (simp add: EOS_def IS_SEPARATOR_def)
next
  case (Cons c t)
  from Cons.IH [of "s @ [c]"] Cons.prems show ?case by (auto simp: EOS_def Let_def)
qed

lemma strrsep_append: "0 \<notin> set s \<Longrightarrow> strrsep (s @ 0 # rest) = Inr (last_index IS_SEPARATOR s)"
  using strrsep_loop_append [of "[]" s rest] by (simp add: strrsep_def)

lemma strrchr_loop_append:
  "c \<noteq> 0 \<Longrightarrow> 0 \<notin> set s \<Longrightarrow> 0 \<notin> set t \<Longrightarrow> strrchr_loop (t @ 0 # rest) (sint c) (length s) (last_index ((=) c) s)
     = Inr (last_index ((=) c) (s @ t))"
proof (induction t arbitrary: s)
  case Nil
  then show ?case by (auto simp: EOS_def)
next
  case (Cons d t)
  from Cons.IH [of "s @ [d]"] Cons.prems show ?case by (auto simp: EOS_def Let_def)
qed

lemma strrchr_append:
  "c \<noteq> 0 \<Longrightarrow> 0 \<notin> set s \<Longrightarrow> strrchr (s @ 0 # rest) (sint c) = Inr (last_index ((=) c) s)"
  using strrchr_loop_append [of c "[]" s rest] by (simp add: strrchr_def)

lemma strnlen_loop_append:
  "0 \<notin> set s \<Longrightarrow> strnlen_loop (s @ 0 # rest) m n = Inr (n + min (unat m) (length s))"
proof (induction s arbitrary: m n)
  case (Cons c s)
  show ?case
  proof (cases "m = 0")
    case False
    then have "unat m = Suc (unat (m - 1))" by (simp add: unat_minus_one unat_gt_0)
    with Cons False show ?thesis by (auto simp: EOS_def)
  qed simp
qed (simp add: EOS_def)

lemma memset_buf: "n \<le> length buf \<Longrightarrow> memset buf c n = Inr (replicate n c @ drop n buf)"
proof (induction n arbitrary: buf)
  case (Suc n)
  then show ?case by (cases buf) auto
qed simp

lemma memset_overrun: "length buf < n \<Longrightarrow> memset buf c n = Inl Bad_Access"
proof (induction buf arbitrary: n)
  case (Cons b buf)
  then show ?case by (cases n) auto
qed (metis memset.simps(2) gr0_implies_Suc list.size(3))

lemma memcpy_buf:
  "n \<le> length dest \<Longrightarrow> n \<le> length src \<Longrightarrow> memcpy dest src n = Inr (take n src @ drop n dest)"
proof (induction n arbitrary: dest src)
  case (Suc n)
  then show ?case by (cases dest; cases src) auto
qed simp

lemma memcmp_buf:
  "n \<le> length a \<Longrightarrow> n \<le> length b \<Longrightarrow> \<exists>d. memcmp a b n = Inr d \<and> (d = 0 \<longleftrightarrow> take n a = take n b)"
proof (induction n arbitrary: a b)
  case (Suc n)
  then obtain x a' y b' where "a = x # a'" "b = y # b'" by (cases a; cases b) auto
  with Suc show ?case by auto
qed simp

lemma memchr_absent: "n \<le> length str \<Longrightarrow> c \<notin> set (take n str) \<Longrightarrow> memchr junk str (sint c) n k = Inr junk"
proof (induction n arbitrary: str k)
  case (Suc n)
  then show ?case by (cases str) auto
qed simp

section \<open>Properties\<close>

text \<open>
  C16. On C strings \<open>strcmp\<close> is a total comparison: it returns 0 exactly for equal strings, a
  negative number exactly when the first precedes the second in the lexicographic order of
  signed characters (the terminator counting as a character), swapping the arguments flips
  the sign, and what lies behind the terminators does not matter.
\<close>
theorem strcmp_total_order:
  assumes "cstr p a" and "cstr q b"
  shows "\<exists>d. strcmp p q = Inr d \<and> (d = 0 \<longleftrightarrow> a = b)
    \<and> (d < 0 \<longleftrightarrow> map sint (a @ [0]) < map sint (b @ [0])) \<and> strcmp q p = Inr (- d)"
proof -
  obtain x y where "p = a @ 0 # x" "q = b @ 0 # y" "0 \<notin> set a" "0 \<notin> set b"
    using assms by (auto elim!: cstrE)
  with strcmp_cstr [of a b x y] show ?thesis by auto
qed

lemma strcmp_total_order_witness:
  "\<exists>d. strcmp [200, 0, 7] [0, 9] = Inr d \<and> d < 0 \<and> strcmp [0, 9] [200, 0, 7] = Inr (- d)"
proof -
  have c: "cstr [200, 0, 7] [200]" "cstr [0, 9] []" by (simp_all add: cstr_def)
  have "sint (200 :: u8) < 0" by code_simp
  with strcmp_total_order [OF c] show ?thesis by auto
qed

end
