(* ===== verification/Ylos_Stdlib.thy ===== *)
theory Ylos_Stdlib
  imports Ylos_Prelude
begin

text \<open>
  lib/stdlib.c: the conversions between binary and binary-coded decimal that the clock chip
  needs, rounding division, and \<open>atoi\<close>.  \<open>int\<close> is a 32-bit word read with \<open>sint\<close>; a string
  is the list of the bytes from the pointer on.
\<close>

section \<open>The code\<close>

fun delay :: "nat \<Rightarrow> unit result" where
  "delay 0 = Inr ()"
| "delay (Suc count) = delay count"

definition bcd_to_bin :: "u8 \<Rightarrow> u8" where
  "bcd_to_bin value = (value AND 0xf) + drop_bit 4 value * 10"

definition bin_to_bcd :: "u8 \<Rightarrow> u8" where
  "bin_to_bcd value = (value div 10) * 0x10 + value mod 10"

definition div_round_up :: "u32 \<Rightarrow> u32 \<Rightarrow> u32 result" where
  "div_round_up num size' = (if size' = 0 then Inl Divide_Error else Inr ((num + size' - 1) div size'))"

text \<open>The loop of \<open>atoi\<close>: \<open>*str\<close> is a signed character.\<close>

fun atoi_loop :: "u8 list \<Rightarrow> u32 \<Rightarrow> u32 result" where
  "atoi_loop [] r = Inl Bad_Access"
| "atoi_loop (c # str) r =
     (if c = 0 then Inr r else atoi_loop str (r * 10 + (word_of_int (sint c) - 48)))"

definition atoi :: "u8 list option \<Rightarrow> u32 result" where
  "atoi str =
     (case str of
        None \<Rightarrow> Inr 0
      | Some [] \<Rightarrow> Inl Bad_Access
      | Some (c # cs) \<Rightarrow>
          if c = 45 then bindr (atoi_loop cs 0) (\<lambda>r. Inr (r * (- 1)))
          else bindr (atoi_loop (c # cs) 0) (\<lambda>r. Inr (r * 1)))"

section \<open>Lemmas\<close>

lemma bcd_to_bin_nat: "bcd_to_bin v = of_nat (unat v mod 16 + unat v div 16 * 10)"
proof -
  have "v AND 0xf = v mod 16" using take_bit_eq_mod [of 4 v]
    by (simp add: take_bit_eq_mask mask_eq_exp_minus_1)
  moreover have "drop_bit 4 v = v div 16" using drop_bit_eq_div [of 4 v] by simp
  ultimately have "bcd_to_bin v = v mod 16 + v div 16 * 10" by (simp add: bcd_to_bin_def)
  also have "\<dots> = of_nat (unat v mod 16 + unat v div 16 * 10)"
    by (simp add: of_nat_mod of_nat_div word_unat_eq_iff unat_word_ariths unat_of_nat unat_mod_distrib unat_div_distrib mod_simps)
  finally show ?thesis .
qed

lemma bin_to_bcd_digits:
  assumes "unat v < 100"
  shows "unat (bin_to_bcd v) mod 16 = unat v mod 10" and "unat (bin_to_bcd v) div 16 = unat v div 10"
proof -
  have "unat v div 10 * 16 + unat v mod 10 < 256" using assms by linarith
  then have "unat (bin_to_bcd v) = unat v div 10 * 16 + unat v mod 10"
    by (simp add: bin_to_bcd_def unat_word_ariths unat_div_distrib unat_mod_distrib)
  moreover have "unat v mod 10 < 16" by (rule less_trans [of _ 10]) simp_all
  ultimately show "unat (bin_to_bcd v) mod 16 = unat v mod 10" "unat (bin_to_bcd v) div 16 = unat v div 10"
    by simp_all
qed

lemma bcd_roundtrip: "unat v < 100 \<Longrightarrow> bcd_to_bin (bin_to_bcd v) = v"
  by (simp only: bcd_to_bin_nat bin_to_bcd_digits) simp

text \<open>\<open>div_round_up\<close> is the ceiling of the quotient unless \<open>num + size - 1\<close> wraps.\<close>

lemma div_round_up_ceiling:
  assumes "0 < s" and "unat n + unat s \<le> 2 ^ 32"
  obtains q where "div_round_up n s = Inr q" and "unat q = (unat n + unat s - 1) div unat s"
    and "unat n \<le> unat q * unat s" and "unat q * unat s < unat n + unat s"
proof
  have s: "0 < unat s" using assms(1) by (simp add: word_less_nat_alt)
  show "div_round_up n s = Inr ((n + (s - 1)) div s)"
    using assms(1) by (auto simp: div_round_up_def add_diff_eq)
  have "unat (s - 1) = unat s - 1" using s by (simp add: unat_diff_small)
  then have "unat (n + (s - 1)) = unat n + (unat s - 1)"
    using assms(2) s by (subst unat_add_small) auto
  then show q: "unat ((n + (s - 1)) div s) = (unat n + unat s - 1) div unat s"
    using s by (simp add: unat_div_distrib)
  show "unat n \<le> unat ((n + (s - 1)) div s) * unat s" "unat ((n + (s - 1)) div s) * unat s < unat n + unat s"
    unfolding q using div_times_less_eq_dividend [of "unat n + unat s - 1" "unat s"]
      dividend_less_div_times [OF s, of "unat n + unat s - 1"] s by linarith+
qed

text \<open>The digits of a number in base ten, most significant first, as characters.\<close>

fun digits10 :: "nat \<Rightarrow> u8 list" where
  "digits10 n = (if n < 10 then [of_nat (48 + n)] else digits10 (n div 10) @ [of_nat (48 + n mod 10)])"

declare digits10.simps [simp del]

lemma digit_value: "d < 10 \<Longrightarrow> sint (of_nat (48 + d) :: u8) = 48 + int d"
proof -
  assume d: "d < 10"
  have "unat (of_nat (48 + d) :: u8) = 48 + d" using d by (simp only: unat_of_nat) simp
  then have "uint (of_nat (48 + d) :: u8) = 48 + int d" by (simp add: uint_nat del: of_nat_add)
  with d show ?thesis by (simp add: sint_uint signed_take_bit_int_eq_self del: of_nat_add)
qed

lemma digits10_not_0: "0 \<notin> set (digits10 n)"
proof (induction n rule: digits10.induct)
  case (1 n)
  have "(of_nat (48 + d) :: u8) \<noteq> 0" if "d < 10" for d
  proof
    assume "(of_nat (48 + d) :: u8) = 0"
    then show False using digit_value [OF that] by (simp del: of_nat_add)
  qed
  with 1 show ?case by (subst digits10.simps) auto
qed

lemma atoi_loop_append:
  "0 \<notin> set ds \<Longrightarrow> atoi_loop (ds @ rest) r = bindr (atoi_loop (ds @ [0]) r) (atoi_loop rest)"
proof (induction ds arbitrary: r)
  case (Cons d ds)
  then have d: "0 \<notin> set ds" "d \<noteq> 0" by auto
  show ?case by (simp only: append_Cons atoi_loop.simps d if_False Cons.IH [OF d(1)])
qed simp

lemma atoi_digits: "atoi_loop (digits10 n @ [0]) 0 = Inr (of_nat n)"
proof (induction n rule: digits10.induct)
  case (1 n)
  show ?case
  proof (cases "n < 10")
    case True
    have "(of_nat (48 + n) :: u8) \<noteq> 0" using digits10_not_0 [of n] True by (simp add: digits10.simps)
    with True digit_value [OF True] show ?thesis by (simp add: digits10.simps)
  next
    case False
    let ?c = "of_nat (48 + n mod 10) :: u8"
    have c: "?c \<noteq> 0" using digits10_not_0 [of n] False by (subst (asm) digits10.simps) auto
    have split: "digits10 n @ [0] = digits10 (n div 10) @ [?c, 0]"
      using False by (subst digits10.simps) simp
    have "atoi_loop (digits10 n @ [0]) 0 = bindr (atoi_loop (digits10 (n div 10) @ [0]) 0) (atoi_loop [?c, 0])"
      by (simp only: split atoi_loop_append [OF digits10_not_0, of "n div 10" "[?c, 0]"])
    also have "\<dots> = Inr (of_nat (n div 10) * 10 + of_nat (n mod 10))"
      using c digit_value [of "n mod 10"] 1 [OF False] by simp
    also have "of_nat (n div 10) * 10 + of_nat (n mod 10) = (of_nat (n div 10 * 10 + n mod 10) :: u32)"
      by (simp only: of_nat_add of_nat_mult of_nat_numeral)
    finally show ?thesis by (simp only: div_mult_mod_eq)
  qed
qed


lemma digits10_head: "\<exists>c cs. digits10 n = c # cs \<and> c \<noteq> 45 \<and> c \<noteq> 0"
proof (induction n rule: digits10.induct)
  case (1 n)
  show ?case
  proof (cases "n < 10")
    case True
    have "(of_nat (48 + n) :: u8) \<noteq> 45"
    proof
      assume "(of_nat (48 + n) :: u8) = 45"
      then have "sint (of_nat (48 + n) :: u8) = 45" by (simp del: of_nat_add)
      then show False using digit_value [OF True] by simp
    qed
    then show ?thesis using True digits10_not_0 [of n] by (simp add: digits10.simps)
  next
    case False
    with 1 obtain c cs where "digits10 (n div 10) = c # cs" "c \<noteq> 45" "c \<noteq> 0" by auto
    with False show ?thesis by (subst digits10.simps) simp
  qed
qed

section \<open>Properties\<close>

text \<open>
  C17. \<open>atoi\<close> reads what a decimal printer writes: the digits of \<open>n\<close> give \<open>n\<close> as a 32-bit
  word, with a minus sign before them its negative, whatever follows the terminator; the
  NULL pointer gives 0.
\<close>
theorem atoi_reads_decimal:
  "atoi (Some (digits10 n @ 0 # rest)) = Inr (of_nat n)
    \<and> atoi (Some (45 # digits10 n @ 0 # rest)) = Inr (- of_nat n) \<and> atoi None = Inr 0"
proof -
  obtain c cs where h: "digits10 n = c # cs" "c \<noteq> 45" using digits10_head by blast
  have "atoi_loop (digits10 n @ 0 # rest) 0 = Inr (of_nat n)"
    by (simp only: atoi_loop_append [OF digits10_not_0, of n "0 # rest"] atoi_digits) simp
  then show ?thesis using h by (simp add: atoi_def)
qed

end
