(* ===== verification/Ylos_Time.thy ===== *)
theory Ylos_Time
  imports Ylos_Stdlib
begin

text \<open>
  kernel/time.c, lib/time.c (the same calendar for user programs), kernel/rtc.c and the
  system time of kernel/clock.c.  \<open>time_t\<close> is a 32-bit word; the \<open>int\<close> locals are integers,
  wrapped when they are stored in a \<open>time_t\<close>.  The clock chip is a parameter: \<open>cmos n r\<close> is
  the byte that the \<open>n\<close>-th read of the chip yields when register \<open>r\<close> is selected.
  The lemmas compare the conversions with the Gregorian calendar of 1970 to 2069.
\<close>

section \<open>The code\<close>

record tm =
  tm_sec :: int
  tm_min :: int
  tm_hour :: int
  tm_mday :: int
  tm_mon :: int
  tm_year :: int
  tm_wday :: int
  tm_yday :: int
  tm_isdst :: int

definition MINUTE :: int where "MINUTE = 60"
definition HOUR :: int where "HOUR = 60 * MINUTE"
definition DAY :: int where "DAY = 24 * HOUR"
definition YEAR :: int where "YEAR = 365 * DAY"

text \<open>The table \<open>month\<close>; an index outside it is a bad access.\<close>

definition month :: "int list" where
  "month =
    [0, 0, 31, 31 + 29, 31 + 29 + 31, 31 + 29 + 31 + 30, 31 + 29 + 31 + 30 + 31,
     31 + 29 + 31 + 30 + 31 + 30, 31 + 29 + 31 + 30 + 31 + 30 + 31,
     31 + 29 + 31 + 30 + 31 + 30 + 31 + 31, 31 + 29 + 31 + 30 + 31 + 30 + 31 + 31 + 30,
     31 + 29 + 31 + 30 + 31 + 30 + 31 + 31 + 30 + 31,
     31 + 29 + 31 + 30 + 31 + 30 + 31 + 31 + 30 + 31 + 30]"

definition month_at :: "int \<Rightarrow> int result" where
  "month_at i = (if i < 0 then Inl Bad_Access else load_at month (nat i))"

text \<open>Division and remainder of C round towards zero.\<close>

definition cdiv :: "int \<Rightarrow> int \<Rightarrow> int" where
  "cdiv a b = sgn a * sgn b * (\<bar>a\<bar> div \<bar>b\<bar>)"

definition cmod :: "int \<Rightarrow> int \<Rightarrow> int" where
  "cmod a b = a - cdiv a b * b"

definition elapsed_leap_years :: "int \<Rightarrow> int" where
  "elapsed_leap_years year =
     cdiv (year - 1) 4 - cdiv (year - 1) 100 + cdiv (year + 299) 400 - cdiv (1970 - 1900) 4"

definition is_leap_year :: "int \<Rightarrow> bool" where
  "is_leap_year year \<longleftrightarrow> (cmod year 4 = 0 \<and> cmod year 100 \<noteq> 0) \<or> cmod (year + 1900) 400 = 0"

text \<open>
  The month loop of \<open>localtime\<close>, started at 1; the table bounds the search, so the access
  is inside it.
\<close>

fun month_loop :: "nat \<Rightarrow> int \<Rightarrow> int \<Rightarrow> int \<Rightarrow> int" where
  "month_loop 0 mon offset yday = mon"
| "month_loop (Suc n) mon offset yday =
     (if month ! nat mon - offset > yday then mon else month_loop n (mon + 1) offset yday)"

definition localtime :: "u32 \<Rightarrow> int \<Rightarrow> tm" where
  "localtime stamp isdst =
     (let remain = stamp div 60;
          days = remain div 60 div 24;
          years = int (unat (days div 365)) + 70;
          offset = (if is_leap_year years then 0 else 1);
          yday = int (unat ((days - word_of_int (elapsed_leap_years years)) mod word_of_int (366 - offset)));
          mon = month_loop 12 1 offset yday - 1
      in \<lparr>tm_sec = int (unat (stamp mod 60)), tm_min = int (unat (remain mod 60)),
          tm_hour = int (unat (remain div 60 mod 24)),
          tm_mday = yday - month ! nat mon + offset + 1, tm_mon = mon, tm_year = years,
          tm_wday = int (unat ((days + 4) mod 7)), tm_yday = yday, tm_isdst = isdst\<rparr>)"

definition since_1970 :: "int \<Rightarrow> int" where
  "since_1970 year = (if year \<ge> 70 then year - 70 else year - 70 + 100)"

definition mktime :: "tm \<Rightarrow> u32 result" where
  "mktime t =
     bindr (month_at (tm_mon t)) (\<lambda>m.
       let year = since_1970 (tm_year t);
           res = YEAR * year + DAY * cdiv (year + 1) 4 + m * DAY;
           res = (if tm_mon t > 2 \<and> cmod (year + 2) 4 \<noteq> 0 then res - DAY else res);
           res = res + DAY * (tm_mday t - 1) + HOUR * tm_hour t + MINUTE * tm_min t + tm_sec t
       in Inr (word_of_int res))"

definition get_yday :: "tm \<Rightarrow> int result" where
  "get_yday t =
     bindr (month_at (tm_mon t)) (\<lambda>m.
       let res = m + tm_mday t;
           year = since_1970 (tm_year t)
       in Inr (if cmod (year + 2) 4 \<noteq> 0 \<and> tm_mon t > 2 then res - 1 else res))"

text \<open>
  \<open>time_read_bcd\<close> reads the eight registers and then the seconds again, until the seconds
  did not change in between; with the registers in the order of the code.  The result also
  carries the century register and the number of the next read.
\<close>

definition read_regs :: "(nat \<Rightarrow> u8 \<Rightarrow> u8) \<Rightarrow> nat \<Rightarrow> tm \<Rightarrow> tm \<times> int" where
  "read_regs cmos n t =
     (t\<lparr>tm_sec := int (unat (cmos n 0x00)), tm_min := int (unat (cmos (n + 1) 0x02)),
        tm_hour := int (unat (cmos (n + 2) 0x04)), tm_wday := int (unat (cmos (n + 3) 0x06)),
        tm_mday := int (unat (cmos (n + 4) 0x07)), tm_mon := int (unat (cmos (n + 5) 0x08)),
        tm_year := int (unat (cmos (n + 6) 0x09))\<rparr>,
      int (unat (cmos (n + 7) 0x32)))"

partial_function (option) time_read_bcd ::
    "(nat \<Rightarrow> u8 \<Rightarrow> u8) \<Rightarrow> nat \<Rightarrow> tm \<Rightarrow> (tm \<times> int \<times> nat) option" where
  "time_read_bcd cmos n t =
     (let r = read_regs cmos n t
      in if tm_sec (fst r) \<noteq> int (unat (cmos (n + 8) 0x00)) then time_read_bcd cmos (n + 9) (fst r)
         else Some (fst r, snd r, n + 9))"

definition bcd_field :: "int \<Rightarrow> int" where
  "bcd_field v = int (unat (bcd_to_bin (word_of_int v)))"

definition time_read :: "(nat \<Rightarrow> u8 \<Rightarrow> u8) \<Rightarrow> nat \<Rightarrow> tm \<Rightarrow> (tm \<times> int \<times> nat) result" where
  "time_read cmos n t =
     (case time_read_bcd cmos n t of
        None \<Rightarrow> Inl Diverges
      | Some (t, century, n) \<Rightarrow>
          let t = t\<lparr>tm_sec := bcd_field (tm_sec t), tm_min := bcd_field (tm_min t),
                    tm_hour := bcd_field (tm_hour t), tm_wday := bcd_field (tm_wday t),
                    tm_mday := bcd_field (tm_mday t), tm_mon := bcd_field (tm_mon t),
                    tm_year := bcd_field (tm_year t)\<rparr>
          in bindr (get_yday t) (\<lambda>yday.
               Inr (t\<lparr>tm_yday := yday, tm_isdst := - 1\<rparr>, bcd_field century, n)))"

definition time_init :: "(nat \<Rightarrow> u8 \<Rightarrow> u8) \<Rightarrow> nat \<Rightarrow> tm \<Rightarrow> u32 result" where
  "time_init cmos n t = bindr (time_read cmos n t) (\<lambda>(t, century, n). mktime t)"

text \<open>\<open>sys_time\<close> of kernel/clock.c; \<open>JIFFY\<close> is 10 milliseconds.\<close>

definition sys_time :: "u32 \<Rightarrow> u32 \<Rightarrow> u32" where
  "sys_time startup_time jiffies = startup_time + (jiffies * 10) div 1000"

text \<open>
  \<open>set_alarm\<close> of kernel/rtc.c: the bytes it writes to the alarm registers, with the register
  numbers, in the order of the writes.
\<close>

definition alarm_secs :: "tm \<Rightarrow> int \<Rightarrow> tm" where
  "alarm_secs t sec =
     (let t = t\<lparr>tm_sec := tm_sec t + sec\<rparr>
      in if tm_sec t \<ge> 60 then t\<lparr>tm_sec := cmod (tm_sec t) 60, tm_min := tm_min t + 1\<rparr> else t)"

definition alarm_mins :: "tm \<Rightarrow> int \<Rightarrow> tm" where
  "alarm_mins t mins =
     (let t = t\<lparr>tm_min := tm_min t + mins\<rparr>
      in if tm_min t \<ge> 60 then t\<lparr>tm_min := cmod (tm_min t) 60, tm_hour := tm_hour t + 1\<rparr> else t)"

definition alarm_hours :: "tm \<Rightarrow> int \<Rightarrow> tm" where
  "alarm_hours t hour =
     (let t = t\<lparr>tm_hour := tm_hour t + hour\<rparr>
      in if tm_hour t \<ge> 24 then t\<lparr>tm_hour := cmod (tm_hour t) 24\<rparr> else t)"

definition alarm_time :: "tm \<Rightarrow> u32 \<Rightarrow> tm" where
  "alarm_time t secs =
     (let sec = int (unat (secs mod 60)); secs = secs div 60;
          mins = int (unat (secs mod 60)); secs = secs div 60;
          hour = int (unat secs)
      in alarm_hours (alarm_mins (alarm_secs t sec) mins) hour)"

definition set_alarm :: "(nat \<Rightarrow> u8 \<Rightarrow> u8) \<Rightarrow> nat \<Rightarrow> tm \<Rightarrow> u32 \<Rightarrow> (u8 \<times> u8) list result" where
  "set_alarm cmos n t secs =
     bindr (time_read cmos n t) (\<lambda>(t, century, n).
       let t = alarm_time t secs
       in Inr [(0x05, bin_to_bcd (word_of_int (tm_hour t))), (0x03, bin_to_bcd (word_of_int (tm_min t))),
               (0x01, bin_to_bcd (word_of_int (tm_sec t))), (0x0b, 0x22)])"


section \<open>The Gregorian calendar\<close>

definition greg_leap :: "nat \<Rightarrow> bool" where
  "greg_leap y \<longleftrightarrow> (y mod 4 = 0 \<and> y mod 100 \<noteq> 0) \<or> y mod 400 = 0"

text \<open>The days from the first of January 1970 to the first of January of the year \<open>1970 + k\<close>.\<close>

fun days_before_year :: "nat \<Rightarrow> nat" where
  "days_before_year 0 = 0"
| "days_before_year (Suc k) = days_before_year k + (if greg_leap (1970 + k) then 366 else 365)"

definition month_lengths :: "bool \<Rightarrow> nat list" where
  "month_lengths leap = [31, if leap then 29 else 28, 31, 30, 31, 30, 31, 31, 30, 31, 30, 31]"

definition days_before_month :: "bool \<Rightarrow> nat \<Rightarrow> nat" where
  "days_before_month leap m = sum_list (take (m - 1) (month_lengths leap))"

definition valid_date :: "nat \<Rightarrow> nat \<Rightarrow> nat \<Rightarrow> bool" where
  "valid_date k m d \<longleftrightarrow> 1 \<le> m \<and> m \<le> 12 \<and> 1 \<le> d \<and> d \<le> month_lengths (greg_leap (1970 + k)) ! (m - 1)"

definition year_day :: "nat \<Rightarrow> nat \<Rightarrow> nat \<Rightarrow> nat" where
  "year_day k m d = days_before_month (greg_leap (1970 + k)) m + d - 1"

definition epoch_seconds :: "nat \<Rightarrow> nat \<Rightarrow> nat \<Rightarrow> nat \<Rightarrow> nat \<Rightarrow> nat \<Rightarrow> nat" where
  "epoch_seconds k m d h mi s = ((days_before_year k + year_day k m d) * 24 + h) * 3600 + mi * 60 + s"

lemma greg_leap_mod4:
  assumes "k < 100"
  shows "greg_leap (1970 + k) \<longleftrightarrow> k mod 4 = 2"
proof -
  have "((1970 + k) mod 100 = 0 \<longleftrightarrow> k = 30) \<and> ((1970 + k) mod 400 = 0 \<longleftrightarrow> k = 30)"
  proof (cases "k < 30")
    case True
    have "1970 + k = (70 + k) + 19 * 100" by simp
    then have "(1970 + k) mod 100 = (70 + k) mod 100" by (metis mod_mult_self1)
    moreover have "1970 + k = (370 + k) + 4 * 400" by simp
    then have "(1970 + k) mod 400 = (370 + k) mod 400" by (metis mod_mult_self1)
    ultimately show ?thesis using True by auto
  next
    case False
    then have "1970 + k = (k - 30) + 20 * 100" by simp
    then have "(1970 + k) mod 100 = (k - 30) mod 100" by (metis mod_mult_self1)
    moreover have "1970 + k = (k - 30) + 5 * 400" using False by simp
    then have "(1970 + k) mod 400 = (k - 30) mod 400" by (metis mod_mult_self1)
    ultimately show ?thesis using False assms by auto
  qed
  moreover have "(1970 + k) mod 4 = 0 \<longleftrightarrow> k mod 4 = 2" by presburger
  ultimately show ?thesis by (auto simp: greg_leap_def)
qed

lemma days_before_year_closed: "k \<le> 100 \<Longrightarrow> days_before_year k = 365 * k + (k + 1) div 4"
proof (induction k)
  case (Suc k)
  have "(k + 2) div 4 = (k + 1) div 4 + (if k mod 4 = 2 then 1 else 0)" by presburger
  with Suc show ?case using greg_leap_mod4 [of k] by simp
qed simp

lemma month_cases:
  assumes "1 \<le> m" and "m \<le> (12 :: nat)"
  shows "m \<in> {1, 2, 3, 4, 5, 6, 7, 8, 9, 10, 11, 12}"
  using assms by (auto simp: numeral_eq_Suc le_Suc_eq)

lemma month_table:
  assumes "1 \<le> m" and "m \<le> 12"
  shows "month_at (int m) = Inr (int (days_before_month leap m) + (if m > 2 \<and> \<not> leap then 1 else 0))"
  using month_cases [OF assms]
  by (elim insertE emptyE; cases leap)
    (simp_all add: month_at_def month_def days_before_month_def month_lengths_def numeral_eq_Suc)

lemma year_day_bound:
  assumes "valid_date k m d"
  shows "year_day k m d < 366" and "\<not> greg_leap (1970 + k) \<Longrightarrow> year_day k m d < 365"
proof -
  let ?leap = "greg_leap (1970 + k)"
  have m: "m \<in> {1, 2, 3, 4, 5, 6, 7, 8, 9, 10, 11, 12}"
    using assms by (intro month_cases) (simp_all add: valid_date_def)
  have "days_before_month ?leap m + month_lengths ?leap ! (m - 1) \<le> (if ?leap then 366 else 365)"
    using m by (elim insertE emptyE) (simp_all add: days_before_month_def month_lengths_def numeral_eq_Suc)
  with assms have "year_day k m d < (if ?leap then 366 else 365)"
    by (simp add: valid_date_def year_day_def split: if_splits)
  then show "year_day k m d < 366" "\<not> ?leap \<Longrightarrow> year_day k m d < 365" by (auto split: if_splits)
qed

lemma cdiv_nat [simp]: "cdiv (int a) (numeral b) = int (a div numeral b)"
  by (cases "a = 0") (simp_all add: cdiv_def zdiv_int)

lemma cmod_nat [simp]: "cmod (int a) (numeral b) = int (a mod numeral b)"
  by (simp add: cmod_def minus_div_mult_eq_mod zdiv_int zmod_int)

text \<open>The two-digit years of the clock chip: 70 to 99 are of the last century, 0 to 69 of this.\<close>

definition two_digit :: "nat \<Rightarrow> nat" where
  "two_digit k = (if k < 30 then k + 70 else k - 30)"

lemma since_1970_two_digit: "k < 100 \<Longrightarrow> since_1970 (int (two_digit k)) = int k"
  by (auto simp: since_1970_def two_digit_def)

lemma epoch_seconds_bound:
  assumes "valid_date k m d" and "k < 100" and "h < 24" and "mi < 60" and "s < 60"
  shows "epoch_seconds k m d h mi s < 2 ^ 32"
proof -
  have "year_day k m d < 366" using year_day_bound [OF assms(1)] by simp
  moreover have "days_before_year k \<le> 365 * 99 + 25"
    using assms(2) by (simp add: days_before_year_closed)
  ultimately show ?thesis using assms(3-5) by (simp add: epoch_seconds_def)
qed

definition tm_of :: "nat \<Rightarrow> nat \<Rightarrow> nat \<Rightarrow> nat \<Rightarrow> nat \<Rightarrow> nat \<Rightarrow> tm" where
  "tm_of k m d h mi s =
     \<lparr>tm_sec = int s, tm_min = int mi, tm_hour = int h, tm_mday = int d, tm_mon = int m,
      tm_year = int (two_digit k), tm_wday = 0, tm_yday = 0, tm_isdst = 0\<rparr>"

lemma mktime_epoch:
  assumes "valid_date k m d" and "k < 100"
  shows "mktime (tm_of k m d h mi s) = Inr (of_nat (epoch_seconds k m d h mi s))"
proof -
  let ?leap = "greg_leap (1970 + k)"
  have m: "1 \<le> m" "m \<le> 12" "1 \<le> d" using assms(1) by (simp_all add: valid_date_def)
  have mo: "month_at (int m) = Inr (int (days_before_month ?leap m) + (if m > 2 \<and> \<not> ?leap then 1 else 0))"
    using month_table [OF m(1,2)] by blast
  have c: "cdiv (int k + 1) 4 = int ((k + 1) div 4)" "cmod (int k + 2) 4 = int ((k + 2) mod 4)"
    using cdiv_nat [of "k + 1" "num.Bit0 (num.Bit0 num.One)"] cmod_nat [of "k + 2" "num.Bit0 (num.Bit0 num.One)"]
    by (simp_all add: add.commute)
  have leap: "(k + 2) mod 4 \<noteq> 0 \<longleftrightarrow> \<not> ?leap" using greg_leap_mod4 [OF assms(2)] by presburger
  have dby: "int (days_before_year k) = 365 * int k + int ((k + 1) div 4)"
    using assms(2) by (simp add: days_before_year_closed)
  have yd: "int (year_day k m d) = int (days_before_month ?leap m) + int d - 1"
    using m(3) by (simp add: year_day_def)
  let ?r = "YEAR * int k + DAY * int ((k + 1) div 4)
      + (int (days_before_month ?leap m) + (if m > 2 \<and> \<not> ?leap then 1 else 0)) * DAY"
  have X: "(if int m > 2 \<and> int ((k + 2) mod 4) \<noteq> 0 then ?r - DAY else ?r)
      + DAY * (int d - 1) + HOUR * int h + MINUTE * int mi + int s = int (epoch_seconds k m d h mi s)"
    unfolding epoch_seconds_def of_nat_add of_nat_mult dby yd
    using leap by (simp add: YEAR_def DAY_def HOUR_def MINUTE_def algebra_simps)
  show ?thesis
    by (simp only: mktime_def tm_of_def tm.select_convs mo bindr_Inr Let_def
      since_1970_two_digit [OF assms(2)] c X of_int_of_nat_eq)
qed


lemma elapsed_leap_years_70: "k < 130 \<Longrightarrow> elapsed_leap_years (int k + 70) = int ((k + 1) div 4)"
proof -
  assume k: "k < 130"
  have e: "int k + 70 - 1 = int (69 + k)" "int k + 70 + 299 = int (369 + k)" "1970 - 1900 = int 70" by simp_all
  have "(69 + k) div 4 = 17 + (k + 1) div 4" by presburger
  moreover have "(369 + k) div 400 = (69 + k) div 100"
  proof (cases "k < 31")
    case False
    then have "(369 + k) div 400 = 1" "(69 + k) div 100 = 1" using k by (auto intro!: div_nat_eqI)
    then show ?thesis by simp
  qed simp
  ultimately show ?thesis unfolding elapsed_leap_years_def e cdiv_nat by simp
qed

lemma is_leap_year_70: "is_leap_year (int k + 70) = greg_leap (1970 + k)"
proof -
  have e: "int k + 70 = int (70 + k)" "int k + 70 + 1900 = int (1970 + k)" by simp_all
  have "(70 + k) mod 4 = 0 \<longleftrightarrow> (1970 + k) mod 4 = 0" by presburger
  moreover have "(1970 + k) mod 100 = (70 + k) mod 100"
  proof -
    have "1970 + k = (70 + k) + 19 * 100" by simp
    then show ?thesis by (simp only: mod_mult_self1)
  qed
  ultimately show ?thesis
    unfolding is_leap_year_def e(2) unfolding e(1) cmod_nat greg_leap_def by simp
qed


lemma month_at_nth: "0 \<le> i \<Longrightarrow> i \<le> 12 \<Longrightarrow> month_at i = Inr (month ! nat i)"
  by (simp add: month_at_def month_def)

lemma month_loop_march:
  assumes "valid_date k m d" and "\<not> greg_leap (1970 + k)" and "2 < m"
  shows "month_loop 12 1 1 (int (year_day k m d)) = int m + 1"
proof -
  have m: "m \<in> {1, 2, 3, 4, 5, 6, 7, 8, 9, 10, 11, 12}"
    by (rule month_cases) (use assms(1) in \<open>simp_all add: valid_date_def\<close>)
  moreover have "1 \<le> d" "d \<le> month_lengths False ! (m - 1)"
    using assms(1,2) by (simp_all add: valid_date_def)
  ultimately have m: "m \<in> {1, 2, 3, 4, 5, 6, 7, 8, 9, 10, 11, 12}" "1 \<le> d" "d \<le> month_lengths False ! (m - 1)"
    by blast+
  have "days_before_month False m \<le> year_day k m d"
    "year_day k m d < days_before_month False m + month_lengths False ! (m - 1)"
    using m assms(2) by (simp_all add: year_day_def)
  with m(1) assms(3) show ?thesis
    by (elim insertE emptyE)
      (simp_all add: days_before_month_def month_lengths_def month_def numeral_eq_Suc)
qed

lemma day_parts:
  fixes D h mi s :: nat
  assumes "h < 24" and "mi < 60" and "s < 60"
  defines "E \<equiv> (D * 24 + h) * 3600 + mi * 60 + s"
  shows "E mod 60 = s" and "E div 60 mod 60 = mi" and "E div 60 div 60 mod 24 = h"
    and "E div 60 div 60 div 24 = D"
proof -
  have split: "(a * n + b) div n = a" "(a * n + b) mod n = b" if "b < n" for a b n :: nat
    using that by auto
  have "E = ((D * 24 + h) * 60 + mi) * 60 + s" by (simp add: E_def)
  then show "E mod 60 = s" "E div 60 mod 60 = mi" "E div 60 div 60 mod 24 = h"
    "E div 60 div 60 div 24 = D"
    by (simp_all only: split [OF assms(1)] split [OF assms(2)] split [OF assms(3)])
qed

lemma localtime_march:
  assumes date: "valid_date k m d" "k < 100" "\<not> greg_leap (1970 + k)" "2 < m"
    and early: "year_day k m d + (k + 1) div 4 < 365"
    and clock: "h < 24" "mi < 60" "s < 60"
  shows "localtime (of_nat (epoch_seconds k m d h mi s)) z =
    \<lparr>tm_sec = int s, tm_min = int mi, tm_hour = int h, tm_mday = int d, tm_mon = int m,
     tm_year = 70 + int k, tm_wday = int ((days_before_year k + year_day k m d + 4) mod 7),
     tm_yday = int (year_day k m d), tm_isdst = z\<rparr>"
proof -
  let ?E = "epoch_seconds k m d h mi s" and ?yd = "year_day k m d"
  let ?D = "days_before_year k + ?yd" and ?stamp = "of_nat ?E :: u32"
  have E: "unat ?stamp = ?E" using epoch_seconds_bound [OF date(1,2) clock] by simp
  note parts = day_parts [OF clock, of ?D, folded epoch_seconds_def]
  have D: "?D = 365 * k + (?yd + (k + 1) div 4)"
    using date(2) by (simp add: days_before_year_closed)
  have years: "?D div 365 = k" unfolding D using early by simp
  let ?days = "?stamp div 60 div 60 div 24"
  have days: "unat ?days = ?D" by (simp add: unat_div_distrib E parts)
  then have uy: "int (unat (?days div 365)) + 70 = int k + 70" by (simp add: unat_div_distrib years)
  have Dlt: "?D < 2 ^ 32 - 4" using D date(2) early by simp
  let ?L = "word_of_int (int ((k + 1) div 4)) :: u32"
  have L: "unat ?L = (k + 1) div 4" using date(2) by (simp add: unat_of_nat)
  have "unat ?L \<le> unat ?days" unfolding L days D by simp
  then have "unat (?days - ?L) = ?D - (k + 1) div 4" by (simp only: unat_diff_small L days)
  then have yday: "int (unat ((?days - ?L) mod word_of_int (366 - 1))) = int ?yd"
    using early by (simp add: unat_mod_distrib D)
  have wday: "unat ((?days + 4) mod 7) = (?D + 4) mod 7"
    using days Dlt by (simp add: unat_mod_distrib unat_add_small)
  have mon: "month_loop 12 1 1 (int ?yd) - 1 = int m"
    using month_loop_march [OF date(1,3,4)] by simp
  have "month ! nat (int m) = int (days_before_month False m) + 1"
    using month_table [of m False] month_at_nth [of "int m"] date(1,4) by (simp add: valid_date_def)
  then have mday: "int ?yd - month ! nat (int m) + 1 + 1 = int d"
    using date(1,3) by (simp add: year_day_def valid_date_def of_nat_diff)
  have clk: "int (unat (?stamp mod 60)) = int s" "int (unat (?stamp div 60 mod 60)) = int mi"
    "int (unat (?stamp div 60 div 60 mod 24)) = int h"
    by (simp_all add: unat_mod_distrib unat_div_distrib E parts)
  have leap: "elapsed_leap_years (int k + 70) = int ((k + 1) div 4)" "\<not> is_leap_year (int k + 70)"
    using elapsed_leap_years_70 [of k] is_leap_year_70 [of k] date(2,3) by simp_all
  show ?thesis
    unfolding localtime_def Let_def uy leap(1) if_not_P [OF leap(2)] yday mon mday clk wday
    by simp
qed


section \<open>Where \<open>localtime\<close> and the calendar disagree\<close>

text \<open>
  Where \<open>localtime\<close> is not an inverse of \<open>mktime\<close>: the correction \<open>offset\<close> for the
  missing 29 February is applied to January and February too, so the epoch is shown as
  2 January; in a leap year the day is taken modulo 366 of a count of 365-day years, so that
  1 March 1972 is shown as 28 February; and the quotient by 365 runs ahead after the first
  leap year, so that 31 December 1973 is shown in 1974.
\<close>

theorem localtime_wrong_days:
  "mktime (tm_of 0 1 1 0 0 0) = Inr 0 \<and> tm_mon (localtime 0 z) = 1 \<and> tm_mday (localtime 0 z) = 2
   \<and> mktime (tm_of 2 3 1 0 0 0) = Inr 68256000
   \<and> tm_mon (localtime 68256000 z) = 2 \<and> tm_mday (localtime 68256000 z) = 28
   \<and> mktime (tm_of 3 12 31 0 0 0) = Inr 126144000 \<and> tm_year (localtime 126144000 z) = 74"
  by (intro conjI; code_simp)

section \<open>The clock chip\<close>

text \<open>Nine reads with steady seconds give the registers; nothing is read twice.\<close>

lemma time_read_bcd_steady:
  assumes "cmos (n + 8) 0x00 = cmos n 0x00"
  shows "time_read_bcd cmos n t = Some (fst (read_regs cmos n t), snd (read_regs cmos n t), n + 9)"
  using assms by (subst time_read_bcd.simps) (simp add: read_regs_def Let_def)

lemma bcd_field_bcd: "v < 100 \<Longrightarrow> bcd_field (int (unat (bin_to_bcd (of_nat v)))) = int v"
  by (simp add: bcd_field_def bcd_roundtrip unat_of_nat)

text \<open>
  Nine reads in a row, from the read \<open>n\<close> on, find this date and time in the six registers that hold them, in BCD and with a
  two-digit year.  The registers of the weekday and of the century, which may not exist, may hold anything.
\<close>

definition clock_shows :: "(nat \<Rightarrow> u8 \<Rightarrow> u8) \<Rightarrow> nat \<Rightarrow> nat \<Rightarrow> nat \<Rightarrow> nat \<Rightarrow> nat \<Rightarrow> nat \<Rightarrow> nat \<Rightarrow> bool" where
  "clock_shows cmos n k m d h mi s \<longleftrightarrow> (\<forall>i<9.
     cmos (n + i) 0x00 = bin_to_bcd (of_nat s) \<and> cmos (n + i) 0x02 = bin_to_bcd (of_nat mi) \<and>
     cmos (n + i) 0x04 = bin_to_bcd (of_nat h) \<and> cmos (n + i) 0x07 = bin_to_bcd (of_nat d) \<and>
     cmos (n + i) 0x08 = bin_to_bcd (of_nat m) \<and> cmos (n + i) 0x09 = bin_to_bcd (of_nat (two_digit k)))"

lemma valid_date_days: "valid_date k m d \<Longrightarrow> 1 \<le> d \<and> d < 100 \<and> 1 \<le> m \<and> m \<le> 12"
proof -
  assume v: "valid_date k m d"
  then have "m \<in> {1, 2, 3, 4, 5, 6, 7, 8, 9, 10, 11, 12}" by (intro month_cases) (simp_all add: valid_date_def)
  then have "month_lengths (greg_leap (1970 + k)) ! (m - 1) < 100"
    by (elim insertE emptyE) (simp_all add: month_lengths_def numeral_eq_Suc)
  with v show ?thesis by (auto simp: valid_date_def)
qed

lemma mktime_cong:
  "tm_sec t = tm_sec t' \<Longrightarrow> tm_min t = tm_min t' \<Longrightarrow> tm_hour t = tm_hour t' \<Longrightarrow> tm_mday t = tm_mday t'
    \<Longrightarrow> tm_mon t = tm_mon t' \<Longrightarrow> tm_year t = tm_year t' \<Longrightarrow> mktime t = mktime t'"
  by (simp add: mktime_def)

lemma alarm_secs_fields:
  assumes "tm_sec t = int s" "tm_min t = int mi" "s < 60" "x < 60"
  shows "tm_sec (alarm_secs t (int x)) = int (if s + x < 60 then s + x else s + x - 60)"
    and "tm_min (alarm_secs t (int x)) = int (if s + x < 60 then mi else mi + 1)"
    and "tm_hour (alarm_secs t (int x)) = tm_hour t"
proof -
  have e: "tm_sec t + int x = int (s + x)" using assms by simp
  have "(s + x) mod 60 = s + x - 60" if "\<not> s + x < 60" using assms(3,4) that by (simp add: mod_if)
  then show "tm_sec (alarm_secs t (int x)) = int (if s + x < 60 then s + x else s + x - 60)"
    "tm_min (alarm_secs t (int x)) = int (if s + x < 60 then mi else mi + 1)"
    "tm_hour (alarm_secs t (int x)) = tm_hour t"
    using assms(2) by (auto simp: alarm_secs_def Let_def e simp del: of_nat_add)
qed

lemma alarm_mins_fields:
  assumes "tm_min t = int mi" "tm_hour t = int h" "mi \<le> 60" "x < 60"
  shows "tm_min (alarm_mins t (int x)) = int (if mi + x < 60 then mi + x else mi + x - 60)"
    and "tm_hour (alarm_mins t (int x)) = int (if mi + x < 60 then h else h + 1)"
    and "tm_sec (alarm_mins t (int x)) = tm_sec t"
proof -
  have e: "tm_min t + int x = int (mi + x)" using assms by simp
  have "(mi + x) mod 60 = mi + x - 60" if "\<not> mi + x < 60" using assms(3,4) that by (simp add: mod_if)
  then show "tm_min (alarm_mins t (int x)) = int (if mi + x < 60 then mi + x else mi + x - 60)"
    "tm_hour (alarm_mins t (int x)) = int (if mi + x < 60 then h else h + 1)"
    "tm_sec (alarm_mins t (int x)) = tm_sec t"
    using assms(2) by (auto simp: alarm_mins_def Let_def e simp del: of_nat_add)
qed

lemma alarm_hours_fields:
  assumes "tm_hour t = int h"
  shows "tm_hour (alarm_hours t (int x)) = int ((h + x) mod 24)"
    and "tm_min (alarm_hours t (int x)) = tm_min t" and "tm_sec (alarm_hours t (int x)) = tm_sec t"
proof -
  have e: "tm_hour t + int x = int (h + x)" using assms by simp
  show "tm_hour (alarm_hours t (int x)) = int ((h + x) mod 24)"
    "tm_min (alarm_hours t (int x)) = tm_min t" "tm_sec (alarm_hours t (int x)) = tm_sec t"
    by (auto simp: alarm_hours_def Let_def e simp del: of_nat_add)
qed

lemma alarm_time_of_day:
  assumes "tm_sec t = int s" "tm_min t = int mi" "tm_hour t = int h" "s < 60" "mi < 60"
  obtains s' mi' h' where "tm_sec (alarm_time t secs) = int s'" "tm_min (alarm_time t secs) = int mi'"
    "tm_hour (alarm_time t secs) = int h'" "s' < 60" "mi' < 60" "h' < 24"
    "h' * 3600 + mi' * 60 + s' = (h * 3600 + mi * 60 + s + unat secs) mod 86400"
proof -
  define sa where "sa = unat secs mod 60"
  define ma where "ma = unat secs div 60 mod 60"
  define ha where "ha = unat secs div 60 div 60"
  have w: "unat (secs mod 60) = sa" "unat (secs div 60 mod 60) = ma" "unat (secs div 60 div 60) = ha"
    by (simp_all add: sa_def ma_def ha_def unat_mod_distrib unat_div_distrib)
  have b: "sa < 60" "ma < 60" by (simp_all add: sa_def ma_def)
  have "unat secs = unat secs div 60 * 60 + sa" unfolding sa_def by simp
  moreover have "unat secs div 60 = ha * 60 + ma" unfolding ha_def ma_def by simp
  ultimately have secs: "unat secs = ha * 3600 + ma * 60 + sa" by simp
  define s1 where "s1 = (if s + sa < 60 then s + sa else s + sa - 60)"
  define m1 where "m1 = (if s + sa < 60 then mi else mi + 1)"
  define m2 where "m2 = (if m1 + ma < 60 then m1 + ma else m1 + ma - 60)"
  define h2 where "h2 = (if m1 + ma < 60 then h else h + 1)"
  let ?t1 = "alarm_secs t (int sa)" and ?t2 = "alarm_mins (alarm_secs t (int sa)) (int ma)"
  note f1 = alarm_secs_fields [OF assms(1,2,4) b(1), folded s1_def m1_def]
  have "m1 \<le> 60" using assms(5) by (simp add: m1_def)
  note f2 = alarm_mins_fields [OF f1(2) f1(3) [unfolded assms(3)] this b(2), folded m2_def h2_def]
  note f3 = alarm_hours_fields [OF f2(2), of ha]
  have at: "alarm_time t secs = alarm_hours ?t2 (int ha)" by (simp only: alarm_time_def Let_def w)
  have lt: "s1 < 60" "m2 < 60" using assms(4,5) b by (auto simp: s1_def m2_def m1_def)
  have "h * 3600 + mi * 60 + s + unat secs = (h2 + ha) * 3600 + m2 * 60 + s1"
    unfolding secs by (auto simp: s1_def m2_def m1_def h2_def)
  also have "\<dots> mod 86400 = (h2 + ha) mod 24 * 3600 + m2 * 60 + s1"
  proof -
    define q where "q = (h2 + ha) div 24"
    define r where "r = (h2 + ha) mod 24"
    have qr: "h2 + ha = q * 24 + r" "r < 24" by (simp_all add: q_def r_def)
    have "(q * 24 + r) * 3600 + m2 * 60 + s1 = (r * 3600 + m2 * 60 + s1) + q * 86400" by simp
    moreover have "r * 3600 + m2 * 60 + s1 < 86400" using lt qr(2) by linarith
    ultimately have "((h2 + ha) * 3600 + m2 * 60 + s1) mod 86400 = r * 3600 + m2 * 60 + s1"
      unfolding qr(1) by (metis mod_less mod_mult_self1)
    then show ?thesis by (simp add: r_def)
  qed
  finally show thesis
    using that [of s1 m2 "(h2 + ha) mod 24"] f1 f2 f3 lt by (simp add: at)
qed

lemma two_digit_less: "k < 100 \<Longrightarrow> two_digit k < 100"
  by (auto simp: two_digit_def)

lemma time_init_steady:
  assumes "valid_date k m d" and "k < 100" and "h < 24" and "mi < 60" and "s < 60"
    and chip: "clock_shows cmos n k m d h mi s"
  shows "time_init cmos n t = mktime (tm_of k m d h mi s)"
proof -
  note f = bcd_field_bcd [of s] bcd_field_bcd [of mi] bcd_field_bcd [of h] bcd_field_bcd [of d]
    bcd_field_bcd [of m] bcd_field_bcd [of "two_digit k"]
  have m: "1 \<le> m" "m \<le> 12" "d < 100" using valid_date_days [OF assms(1)] by simp_all
  obtain y where y: "month_at (int m) = Inr y" using month_table [OF m(1,2)] by blast
  note r = chip [unfolded clock_shows_def, rule_format]
  have regs: "cmos n 0x00 = bin_to_bcd (of_nat s)" "cmos (n + 1) 0x02 = bin_to_bcd (of_nat mi)"
    "cmos (n + 2) 0x04 = bin_to_bcd (of_nat h)" "cmos (n + 4) 0x07 = bin_to_bcd (of_nat d)"
    "cmos (n + 5) 0x08 = bin_to_bcd (of_nat m)" "cmos (n + 6) 0x09 = bin_to_bcd (of_nat (two_digit k))"
    "cmos (n + 8) 0x00 = cmos n 0x00"
    using r [of 0] r [of 1] r [of 2] r [of 4] r [of 5] r [of 6] r [of 8] by (simp_all del: add_2_eq_Suc')
  show ?thesis
    unfolding time_init_def time_read_def time_read_bcd_steady [of cmos n, OF regs(7)]
    using f m assms(3-5) two_digit_less [OF assms(2)] y
    by (simp add: read_regs_def regs(1-6) Let_def get_yday_def mktime_def tm_of_def del: add_2_eq_Suc' One_nat_def)
qed

section \<open>Properties\<close>

text \<open>
  C18. For every date and time from 1970 to 2069 that the clock chip shows in BCD with a
  two-digit year and that stays the same during the nine reads, \<open>time_init\<close> ends and sets the
  start-up time to the number of seconds since 1970-01-01 of the Gregorian calendar,
  without wrap-around, whatever the registers of the weekday and of the century hold.
\<close>
theorem time_init_gregorian:
  assumes "valid_date k m d" and "k < 100" and "h < 24" and "mi < 60" and "s < 60"
    and "clock_shows cmos n k m d h mi s"
  shows "\<exists>stamp. time_init cmos n t = Inr stamp \<and> unat stamp = epoch_seconds k m d h mi s"
  using time_init_steady [OF assms] mktime_epoch [OF assms(1,2)] epoch_seconds_bound [OF assms(1-5)]
  by auto

text \<open>A chip at the last second of Thursday, 29 February 2024.\<close>

definition demo_chip :: "nat \<Rightarrow> u8 \<Rightarrow> u8" where
  "demo_chip i r = (if r = 0x00 then 0x59 else if r = 0x02 then 0x59 else if r = 0x04 then 0x23 else if r = 0x06 then 0x05
     else if r = 0x07 then 0x29 else if r = 0x08 then 0x02 else if r = 0x09 then 0x24 else 0x20)"

lemma time_init_gregorian_witness:
  "\<exists>stamp. time_init demo_chip 0 (tm_of 0 1 1 0 0 0) = Inr stamp \<and> unat stamp = epoch_seconds 54 2 29 23 59 59"
proof -
  have "clock_shows demo_chip 0 54 2 29 23 59 59"
    by (simp add: clock_shows_def demo_chip_def bin_to_bcd_def two_digit_def)
  from time_init_gregorian [OF _ _ _ _ _ this] show ?thesis
    by (simp add: valid_date_def greg_leap_def month_lengths_def)
qed

text \<open>
  C19. In the years without a 29 February, from March on and as long as the day of the year
  plus the number of leap years since 1970 is below 365, \<open>localtime\<close> gives back the date
  and time that \<open>mktime\<close> encoded, with the right weekday and day of the year.
\<close>
theorem localtime_inverts_mktime:
  assumes "valid_date k m d" and "k < 100" and "\<not> greg_leap (1970 + k)" and "2 < m"
    and "year_day k m d + (k + 1) div 4 < 365" and "h < 24" and "mi < 60" and "s < 60"
  shows "\<exists>stamp. mktime (tm_of k m d h mi s) = Inr stamp \<and> localtime stamp z =
    (tm_of k m d h mi s)\<lparr>tm_year := 70 + int k, tm_yday := int (year_day k m d), tm_isdst := z,
      tm_wday := int ((days_before_year k + year_day k m d + 4) mod 7)\<rparr>"
  using mktime_epoch [OF assms(1,2)] localtime_march [OF assms] by (simp add: tm_of_def)

lemma localtime_inverts_mktime_witness:
  "\<exists>stamp. mktime (tm_of 53 7 14 12 30 1) = Inr stamp \<and> tm_mday (localtime stamp 0) = 14
     \<and> tm_mon (localtime stamp 0) = 7 \<and> tm_year (localtime stamp 0) = 123"
proof -
  have "year_day 53 7 14 = 194"
    by (simp add: year_day_def days_before_month_def month_lengths_def greg_leap_def)
  then show ?thesis
    using localtime_inverts_mktime [of 53 7 14 12 30 1 0]
    by (auto simp: valid_date_def greg_leap_def month_lengths_def tm_of_def)
qed

end
