(* ===== verification/Ylos_Bitmap.thy ===== *)
theory Ylos_Bitmap
  imports Ylos_Prelude
begin

text \<open>
  lib/bitmap.c with include/ylos/bitmap.h: a bit array over a byte buffer, whose bit for
  index \<open>i\<close> is bit \<open>(i - offset) mod 8\<close> of byte \<open>(i - offset) div 8\<close>.  The buffer is the
  list of the bytes it owns; the \<open>length\<close> field is only what the code believes, so an
  access behind the buffer is \<open>Bad_Access\<close>.  All index arithmetic is on 32-bit words.
  The lemmas give the reading of the bits as a predicate on natural numbers, the effect
  of \<open>bitmap_set\<close> on it, and the first-fit search of \<open>bitmap_scan\<close>.
\<close>

section \<open>The code\<close>

record bitmap_t =
  bm_bits :: "u8 list"
  bm_length :: u32
  bm_offset :: u32

definition bitmap_make :: "u8 list \<Rightarrow> u32 \<Rightarrow> u32 \<Rightarrow> bitmap_t" where
  "bitmap_make buf len off = \<lparr>bm_bits = buf, bm_length = len, bm_offset = off\<rparr>"

definition bitmap_init :: "u8 list \<Rightarrow> u32 \<Rightarrow> u32 \<Rightarrow> bitmap_t result" where
  "bitmap_init buf len start =
     (if length buf < unat len then Inl Bad_Access
      else Inr (bitmap_make (replicate (unat len) 0 @ drop (unat len) buf) len start))"

definition bitmap_test :: "bitmap_t \<Rightarrow> u32 \<Rightarrow> bool result" where
  "bitmap_test bm index =
     (if \<not> bm_offset bm \<le> index then Inl Assert_Failed
      else let idx = index - bm_offset bm;
               bytes = idx div 8;
               bits = unat (idx mod 8)
           in if \<not> bytes < bm_length bm then Inl Assert_Failed
              else bindr (load_at (bm_bits bm) (unat bytes))
                     (\<lambda>byte. Inr (byte AND push_bit bits 1 \<noteq> 0)))"

definition bitmap_set :: "bitmap_t \<Rightarrow> u32 \<Rightarrow> bool \<Rightarrow> bitmap_t result" where
  "bitmap_set bm index value =
     (if \<not> bm_offset bm \<le> index then Inl Assert_Failed
      else let idx = index - bm_offset bm;
               bytes = unat (idx div 8);
               bits = unat (idx mod 8)
           in bindr (load_at (bm_bits bm) bytes) (\<lambda>byte.
              bindr (store_at (bm_bits bm) bytes
                       (if value then byte OR push_bit bits 1
                        else byte AND NOT (push_bit bits 1)))
                (\<lambda>buf. Inr (bm\<lparr>bm_bits := buf\<rparr>))))"

text \<open>
  The two loops of \<open>bitmap_scan\<close>.  \<open>bitmap_find\<close> is the search; it runs \<open>bits_left\<close>
  times at most and yields the local variable \<open>start\<close>.
\<close>

fun bitmap_find :: "bitmap_t \<Rightarrow> u32 \<Rightarrow> nat \<Rightarrow> u32 \<Rightarrow> u32 \<Rightarrow> u32 result" where
  "bitmap_find bm count 0 next_bit counter = Inr EOF"
| "bitmap_find bm count (Suc bits_left) next_bit counter =
     bindr (bitmap_test bm (bm_offset bm + next_bit)) (\<lambda>used.
       let counter = (if \<not> used then counter + 1 else 0);
           next_bit = next_bit + 1
       in if counter = count then Inr (next_bit - count)
          else bitmap_find bm count bits_left next_bit counter)"

fun bitmap_fill :: "bitmap_t \<Rightarrow> nat \<Rightarrow> u32 \<Rightarrow> bitmap_t result" where
  "bitmap_fill bm 0 next_bit = Inr bm"
| "bitmap_fill bm (Suc bits_left) next_bit =
     bindr (bitmap_set bm (bm_offset bm + next_bit) True)
       (\<lambda>bm. bitmap_fill bm bits_left (next_bit + 1))"

definition bitmap_scan :: "bitmap_t \<Rightarrow> u32 \<Rightarrow> (bitmap_t \<times> u32) result" where
  "bitmap_scan bm count =
     bindr (bitmap_find bm count (unat (bm_length bm * 8)) 0 0) (\<lambda>start.
       if start = EOF then Inr (bm, EOF)
       else bindr (bitmap_fill bm (unat count) start)
              (\<lambda>bm. Inr (bm, start + bm_offset bm)))"

section \<open>The bits of a map\<close>

definition bm_get :: "bitmap_t \<Rightarrow> nat \<Rightarrow> bool" where
  "bm_get m i = bit (bm_bits m ! (i div 8)) (i mod 8)"

definition bm_size :: "bitmap_t \<Rightarrow> nat" where
  "bm_size m = 8 * unat (bm_length m)"

text \<open>
  A well-formed map: the buffer has the length the map believes, and neither a bit
  number nor an index wraps around.
\<close>

definition bm_wf :: "bitmap_t \<Rightarrow> bool" where
  "bm_wf m \<longleftrightarrow> length (bm_bits m) = unat (bm_length m)
     \<and> bm_size m + unat (bm_offset m) < 2 ^ 32"

definition bm_index :: "bitmap_t \<Rightarrow> nat \<Rightarrow> u32" where
  "bm_index m i = bm_offset m + of_nat i"

lemma unat_bm_index:
  "bm_wf m \<Longrightarrow> i \<le> bm_size m \<Longrightarrow> unat (bm_index m i) = unat (bm_offset m) + i"
  by (simp add: bm_wf_def bm_index_def unat_add_small unat_of_nat)

lemma bm_index_minus: "bm_index m i - bm_offset m = of_nat i"
  by (simp add: bm_index_def)

lemma bm_index_ge:
  "bm_wf m \<Longrightarrow> i \<le> bm_size m \<Longrightarrow> bm_offset m \<le> bm_index m i"
  by (simp add: word_le_nat_alt unat_bm_index)

lemma bm_size_bound: "bm_wf m \<Longrightarrow> i \<le> bm_size m \<Longrightarrow> i < 4294967296"
  by (simp add: bm_wf_def)

lemma bm_byte:
  assumes "bm_wf m" and "i < bm_size m"
  shows "unat ((of_nat i :: u32) div 8) = i div 8" and "unat ((of_nat i :: u32) mod 8) = i mod 8"
    and "i div 8 < length (bm_bits m)" and "(of_nat i :: u32) div 8 < bm_length m"
proof -
  have i: "i < 4294967296" using assms bm_size_bound [of m i] by simp
  show a: "unat ((of_nat i :: u32) div 8) = i div 8" "unat ((of_nat i :: u32) mod 8) = i mod 8"
    using i by (simp_all add: unat_div unat_mod)
  show b: "i div 8 < length (bm_bits m)"
    using assms by (simp add: bm_wf_def bm_size_def)
  then show "(of_nat i :: u32) div 8 < bm_length m"
    using assms a by (simp add: bm_wf_def word_less_nat_alt)
qed

lemma bitmap_test_get:
  assumes "bm_wf m" and "i < bm_size m"
  shows "bitmap_test m (bm_index m i) = Inr (bm_get m i)"
  using bm_byte [OF assms] bm_index_ge [of m i] assms
  by (simp add: bitmap_test_def Let_def bm_index_minus and_exp_eq_0_iff_not_bit bm_get_def)

lemma bitmap_test_outside:
  assumes "bm_wf m" and "bm_size m \<le> i" and "i + unat (bm_offset m) < 2 ^ 32"
  shows "bitmap_test m (bm_index m i) = Inl Assert_Failed"
proof -
  have "\<not> (of_nat i :: u32) div 8 < bm_length m"
    using assms by (simp add: bm_wf_def word_less_nat_alt unat_div bm_size_def)
  then show ?thesis by (simp add: bitmap_test_def Let_def bm_index_minus)
qed

lemma bitmap_test_below: "index < bm_offset m \<Longrightarrow> bitmap_test m index = Inl Assert_Failed"
  by (simp add: bitmap_test_def not_le)

section \<open>Setting and clearing one bit\<close>

definition bm_upd :: "bitmap_t \<Rightarrow> nat \<Rightarrow> bool \<Rightarrow> bitmap_t" where
  "bm_upd m i v = (let byte = bm_bits m ! (i div 8) in
     m\<lparr>bm_bits := (bm_bits m)[i div 8 :=
       (if v then set_bit (i mod 8) byte else unset_bit (i mod 8) byte)]\<rparr>)"

lemma bm_upd_fields [simp]:
  "bm_length (bm_upd m i v) = bm_length m"
  "bm_offset (bm_upd m i v) = bm_offset m"
  "length (bm_bits (bm_upd m i v)) = length (bm_bits m)"
  by (simp_all add: bm_upd_def Let_def)

lemma bm_wf_upd [simp]: "bm_wf (bm_upd m i v) = bm_wf m"
  by (simp add: bm_wf_def bm_size_def)

lemma bm_size_upd [simp]: "bm_size (bm_upd m i v) = bm_size m"
  by (simp add: bm_size_def)

lemma bm_index_upd [simp]: "bm_index (bm_upd m i v) = bm_index m"
  by (simp add: bm_index_def fun_eq_iff)

lemma bm_get_upd:
  assumes "bm_wf m" and "i < bm_size m"
  shows "bm_get (bm_upd m i v) j = (if j = i then v else bm_get m j)"
proof -
  have 1: "i div 8 < length (bm_bits m)" using bm_byte [OF assms] by simp
  have 2: "j = i \<longleftrightarrow> j div 8 = i div 8 \<and> j mod 8 = i mod 8"
    by (metis div_mult_mod_eq)
  show ?thesis
    using 1 by (auto simp: bm_get_def bm_upd_def Let_def nth_list_update bit_simps 2)
qed

lemma bitmap_set_upd:
  assumes "bm_wf m" and "i < bm_size m"
  shows "bitmap_set m (bm_index m i) v = Inr (bm_upd m i v)"
proof -
  have "\<And>b n. (b :: u8) AND NOT (push_bit n 1) = unset_bit n b"
    by (rule bit_word_eqI) (auto simp: bit_simps)
  then show ?thesis
    using bm_byte [OF assms] bm_index_ge [of m i] assms
    by (simp add: bitmap_set_def Let_def bm_index_minus bm_upd_def set_bit_eq_or)
qed

section \<open>First fit\<close>

definition free_run :: "bitmap_t \<Rightarrow> nat \<Rightarrow> nat \<Rightarrow> bool" where
  "free_run m q n \<longleftrightarrow> q + n \<le> bm_size m \<and> (\<forall>i. q \<le> i \<and> i < q + n \<longrightarrow> \<not> bm_get m i)"

text \<open>
  The invariant of the search after \<open>p\<close> bits with \<open>c\<close> free bits counted: those are
  the last \<open>c\<close> ones, the bit before them is set (or there is none), and no run of the
  wanted length lies in what has been passed.
\<close>

definition find_inv :: "bitmap_t \<Rightarrow> nat \<Rightarrow> nat \<Rightarrow> nat \<Rightarrow> bool" where
  "find_inv m n p c \<longleftrightarrow> c \<le> p \<and> c < n \<and> p \<le> bm_size m
     \<and> (\<forall>i. p - c \<le> i \<and> i < p \<longrightarrow> \<not> bm_get m i)
     \<and> (c = p \<or> bm_get m (p - c - 1))
     \<and> (\<forall>q. q + n \<le> p \<longrightarrow> \<not> free_run m q n)"

lemma find_inv_used:
  assumes "find_inv m n p c" and "bm_get m p" and "p < bm_size m"
  shows "find_inv m n (Suc p) 0"
proof -
  have "\<not> free_run m q n" if "q + n \<le> Suc p" for q
  proof (cases "q + n \<le> p")
    case True
    with assms(1) show ?thesis by (simp add: find_inv_def)
  next
    case False
    with that have "q + n = Suc p" by simp
    moreover have "0 < n" using assms(1) by (simp add: find_inv_def)
    ultimately have "q \<le> p" "p < q + n" by auto
    with assms(2) show ?thesis by (auto simp: free_run_def)
  qed
  with assms show ?thesis by (auto simp: find_inv_def)
qed

lemma find_inv_free:
  assumes "find_inv m n p c" and "\<not> bm_get m p" and "p < bm_size m"
  shows "(Suc c < n \<longrightarrow> find_inv m n (Suc p) (Suc c))
    \<and> (Suc c = n \<longrightarrow> free_run m (p - c) n \<and> (\<forall>q < p - c. \<not> free_run m q n))"
proof -
  have c: "c \<le> p" and cn: "c < n" and run: "\<And>i. p - c \<le> i \<Longrightarrow> i < p \<Longrightarrow> \<not> bm_get m i"
    and before: "c = p \<or> bm_get m (p - c - 1)"
    and none: "\<And>q. q + n \<le> p \<Longrightarrow> \<not> free_run m q n"
    using assms(1) by (auto simp: find_inv_def)
  have run': "\<not> bm_get m i" if "p - c \<le> i" "i < Suc p" for i
    using run that assms(2) by (cases "i = p") auto
  have early: "\<not> free_run m q n" if q: "q < p - c" and len: "p - c \<le> q + n" for q
  proof -
    have "bm_get m (p - c - 1)" using before q c by auto
    moreover have "q \<le> p - c - 1" "p - c - 1 < q + n" using q len by auto
    ultimately show ?thesis by (auto simp: free_run_def)
  qed
  have none': "\<not> free_run m q n" if "q < p - c" for q
    using none [of q] early [of q] that by (cases "q + n \<le> p") auto
  show ?thesis
  proof (intro conjI impI)
    assume lt: "Suc c < n"
    have "\<not> free_run m q n" if "q + n \<le> Suc p" for q
      using none' [of q] that lt c by auto
    then show "find_inv m n (Suc p) (Suc c)"
      using lt c assms(3) run' before by (auto simp: find_inv_def)
  next
    assume "Suc c = n"
    then show "free_run m (p - c) n" using run' c assms(3) by (auto simp: free_run_def)
    show "\<forall>q < p - c. \<not> free_run m q n" using none' by blast
  qed
qed

lemma bitmap_find_spec:
  assumes wf: "bm_wf m" and n: "unat count = n" "0 < n"
    and "find_inv m n p c" and "p + k = bm_size m"
  shows "bitmap_find m count k (of_nat p) (of_nat c) =
     (if \<exists>q. free_run m q n then Inr (of_nat (LEAST q. free_run m q n)) else Inr EOF)"
  using assms(4,5)
proof (induction k arbitrary: p c)
  case 0
  have "\<not> free_run m q n" for q
    using 0 by (auto simp: find_inv_def free_run_def)
  then show ?case by simp
next
  case (Suc k)
  have p: "p < bm_size m" and p32: "p < 4294967296"
    using Suc.prems(2) bm_size_bound [OF wf, of p] by auto
  have c: "c \<le> p" "c < n" using Suc.prems(1) by (auto simp: find_inv_def)
  have test: "bitmap_test m (bm_offset m + of_nat p) = Inr (bm_get m p)"
    using bitmap_test_get [OF wf p] by (simp add: bm_index_def)
  have n32: "n < 4294967296" using n by auto
  have step: "bitmap_find m count (Suc k) (of_nat p) (of_nat c) =
      (let counter = (if bm_get m p then 0 else of_nat (Suc c)) in
       if counter = count then Inr (of_nat (Suc p) - count)
       else bitmap_find m count k (of_nat (Suc p)) counter)"
    unfolding bitmap_find.simps test bindr_Inr Let_def by (simp add: add.commute)
  show ?case
  proof (cases "bm_get m p")
    case True
    have "find_inv m n (Suc p) 0" using find_inv_used [OF Suc.prems(1) True p] .
    then have "bitmap_find m count k (of_nat (Suc p)) (of_nat 0) =
       (if \<exists>q. free_run m q n then Inr (of_nat (LEAST q. free_run m q n)) else Inr EOF)"
      using Suc.IH [of "Suc p" 0] Suc.prems(2) by simp
    moreover have "(0 :: u32) \<noteq> count" using n by auto
    ultimately show ?thesis unfolding step Let_def using True by simp
  next
    case False
    note next_inv = find_inv_free [OF Suc.prems(1) False p]
    have cnt: "(of_nat (Suc c) :: u32) = count \<longleftrightarrow> Suc c = n"
      using c n32 n(1) u32_eq_of_nat [of "Suc c" count] by auto
    show ?thesis
    proof (cases "Suc c = n")
      case True
      have 1: "free_run m (p - c) n" and 2: "\<forall>q < p - c. \<not> free_run m q n"
        using next_inv True by auto
      then have "(LEAST q. free_run m q n) = p - c"
        by (intro Least_equality) (auto simp: not_less [symmetric])
      moreover have "(of_nat (Suc p) :: u32) - count = of_nat (p - c)"
      proof -
        have "p - c = Suc p - Suc c" by simp
        moreover have "(of_nat (Suc p - Suc c) :: u32) = of_nat (Suc p) - of_nat (Suc c)"
          using c by (intro of_nat_diff) simp
        moreover have "(of_nat (Suc c) :: u32) = count" using cnt True by blast
        ultimately show ?thesis by metis
      qed
      moreover have "\<exists>q. free_run m q n" using 1 by blast
      ultimately show ?thesis unfolding step Let_def using False cnt True by auto
    next
      case neq: False
      with next_inv c have "find_inv m n (Suc p) (Suc c)" by auto
      then show ?thesis
        unfolding step Let_def
        using Suc.IH [of "Suc p" "Suc c"] Suc.prems(2) False neq cnt by auto
    qed
  qed
qed


section \<open>Marking the run that was found\<close>

fun bm_fill :: "bitmap_t \<Rightarrow> nat \<Rightarrow> nat \<Rightarrow> bitmap_t" where
  "bm_fill m q 0 = m"
| "bm_fill m q (Suc k) = bm_fill (bm_upd m q True) (Suc q) k"

lemma bm_fill_fields [simp]:
  "bm_length (bm_fill m q k) = bm_length m"
  "bm_offset (bm_fill m q k) = bm_offset m"
  "bm_wf (bm_fill m q k) = bm_wf m"
  "bm_size (bm_fill m q k) = bm_size m"
  "bm_index (bm_fill m q k) = bm_index m"
  by (induction m q k rule: bm_fill.induct) simp_all

lemma bm_get_fill:
  "bm_wf m \<Longrightarrow> q + k \<le> bm_size m \<Longrightarrow>
   bm_get (bm_fill m q k) j = (bm_get m j \<or> q \<le> j \<and> j < q + k)"
  by (induction m q k rule: bm_fill.induct) (auto simp: bm_get_upd)

lemma bitmap_fill_fill:
  "bm_wf m \<Longrightarrow> q + k \<le> bm_size m \<Longrightarrow> bitmap_fill m k (of_nat q) = Inr (bm_fill m q k)"
proof (induction m q k rule: bm_fill.induct)
  case (1 m q)
  then show ?case by simp
next
  case (2 m q k)
  have "bitmap_set m (bm_offset m + of_nat q) True = Inr (bm_upd m q True)"
    using bitmap_set_upd [of m q True] 2 by (simp add: bm_index_def)
  moreover have "bitmap_fill (bm_upd m q True) k (of_nat (Suc q)) = Inr (bm_fill (bm_upd m q True) (Suc q) k)"
    using 2 by simp
  ultimately show ?case by (simp add: add.commute)
qed

lemma bitmap_scan_some:
  assumes "bm_wf m" and "0 < count" and run: "\<exists>q. free_run m q (unat count)"
  defines "q \<equiv> LEAST q. free_run m q (unat count)"
  shows "bitmap_scan m count = Inr (bm_fill m q (unat count), bm_index m q)"
    and "free_run m q (unat count)"
proof -
  show fr: "free_run m q (unat count)"
    unfolding q_def using run by (rule LeastI_ex)
  have n: "0 < unat count" using assms(2) by (simp add: unat_gt_0 word_neq_0_conv)
  have qs: "q + unat count \<le> bm_size m" using fr by (simp add: free_run_def)
  have "unat (bm_length m * 8) = bm_size m"
    using assms(1) by (simp add: bm_wf_def bm_size_def unat_word_ariths)
  then have find: "bitmap_find m count (unat (bm_length m * 8)) 0 0 = Inr (of_nat q)"
    using bitmap_find_spec [of m count "unat count" 0 0 "bm_size m"] assms(1) n run
    by (auto simp: find_inv_def free_run_def q_def)
  have "(of_nat q :: u32) \<noteq> EOF"
    using qs n assms(1) by (auto simp: bm_wf_def word_unat_eq_iff unat_of_nat)
  then show "bitmap_scan m count = Inr (bm_fill m q (unat count), bm_index m q)"
    using bitmap_fill_fill [OF assms(1) qs]
    by (simp add: bitmap_scan_def find bm_index_def add.commute)
qed

lemma bitmap_scan_none:
  assumes "bm_wf m" and "0 < count" and "\<nexists>q. free_run m q (unat count)"
  shows "bitmap_scan m count = Inr (m, EOF)"
proof -
  have n: "0 < unat count" using assms(2) by (simp add: unat_gt_0 word_neq_0_conv)
  have "unat (bm_length m * 8) = bm_size m"
    using assms(1) by (simp add: bm_wf_def bm_size_def unat_word_ariths)
  then have "bitmap_find m count (unat (bm_length m * 8)) 0 0 = Inr EOF"
    using bitmap_find_spec [of m count "unat count" 0 0 "bm_size m"] assms n
    by (auto simp: find_inv_def free_run_def)
  then show ?thesis by (simp add: bitmap_scan_def)
qed

section \<open>Evaluation on concrete maps\<close>

lemma bitmap_find_numeral:
  "bitmap_find bm count (numeral k) next_bit counter =
     bindr (bitmap_test bm (bm_offset bm + next_bit)) (\<lambda>used.
       let counter = (if \<not> used then counter + 1 else 0);
           next_bit = next_bit + 1
       in if counter = count then Inr (next_bit - count)
          else bitmap_find bm count (pred_numeral k) next_bit counter)"
  by (simp add: numeral_eq_Suc)

lemma bitmap_fill_numeral:
  "bitmap_fill bm (numeral k) next_bit =
     bindr (bitmap_set bm (bm_offset bm + next_bit) True)
       (\<lambda>bm. bitmap_fill bm (pred_numeral k) (next_bit + 1))"
  by (simp add: numeral_eq_Suc)

lemmas bitmap_eval = bitmap_scan_def bitmap_test_def bitmap_set_def Let_def EOF_def
  bitmap_find_numeral bitmap_fill_numeral

section \<open>Properties\<close>

text \<open>
  C11. On a well-formed map \<open>bitmap_scan\<close> is exactly first fit: when \<open>count\<close> consecutive
  clear bits exist it returns the index of the lowest such run, sets the bits of that
  run and changes no other bit; when none exists it returns \<open>EOF\<close> and leaves the map alone.
\<close>
theorem bitmap_scan_first_fit:
  assumes "bm_wf m" and "0 < count"
  shows "\<exists>m' r. bitmap_scan m count = Inr (m', r) \<and> bm_wf m' \<and>
    (if \<exists>q. free_run m q (unat count)
     then let q = (LEAST q. free_run m q (unat count)) in
          r = bm_index m q \<and> (\<forall>j. bm_get m' j = (bm_get m j \<or> q \<le> j \<and> j < q + unat count))
     else r = EOF \<and> m' = m)"
proof (cases "\<exists>q. free_run m q (unat count)")
  case True
  define q where "q = (LEAST q. free_run m q (unat count))"
  note found = bitmap_scan_some [OF assms True, folded q_def]
  have "q + unat count \<le> bm_size m"
    using found(2) by (simp only: free_run_def)
  then have "\<forall>j. bm_get (bm_fill m q (unat count)) j = (bm_get m j \<or> q \<le> j \<and> j < q + unat count)"
    using bm_get_fill [OF assms(1)] by blast
  then show ?thesis
    unfolding if_P [OF True] Let_def q_def [symmetric]
    using found(1) assms(1) by (intro exI [of _ "bm_fill m q (unat count)"] exI [of _ "bm_index m q"]) simp
next
  case False
  show ?thesis
    unfolding if_not_P [OF False] using bitmap_scan_none [OF assms False] assms(1) by simp
qed

lemma bitmap_scan_first_fit_witness:
  "bm_wf \<lparr>bm_bits = [5, 0], bm_length = 2, bm_offset = 256\<rparr> \<and> (0 :: u32) < 3 \<and>
   bitmap_scan \<lparr>bm_bits = [5, 0], bm_length = 2, bm_offset = 256\<rparr> 3
     = Inr (\<lparr>bm_bits = [0x3D, 0], bm_length = 2, bm_offset = 256\<rparr>, 259) \<and>
   (\<exists>m' r. bitmap_scan \<lparr>bm_bits = [5, 0], bm_length = 2, bm_offset = 256\<rparr> 3 = Inr (m', r) \<and> bm_wf m')"
proof -
  let ?m = "\<lparr>bm_bits = [5, 0], bm_length = 2, bm_offset = 256\<rparr>"
  have wf: "bm_wf ?m" by (simp add: bm_wf_def bm_size_def)
  have c: "(0 :: u32) < 3" by simp
  have "bitmap_scan ?m 3 = Inr (\<lparr>bm_bits = [0x3D, 0], bm_length = 2, bm_offset = 256\<rparr>, 259)"
    by (simp add: bitmap_eval)
  with bitmap_scan_first_fit [OF wf c] wf c show ?thesis by auto
qed

text \<open>
  A bit that \<open>bitmap_set\<close> wrote is what \<open>bitmap_test\<close> then reads at that index, every
  other bit of the map reads as before, and the map stays well formed.
\<close>
theorem bitmap_set_test_roundtrip:
  assumes "bm_wf m" and "i < bm_size m" and "j < bm_size m"
  shows "\<exists>m'. bitmap_set m (bm_index m i) v = Inr m' \<and> bm_wf m' \<and>
    bitmap_test m' (bm_index m' i) = Inr v \<and>
    (j \<noteq> i \<longrightarrow> bitmap_test m' (bm_index m' j) = bitmap_test m (bm_index m j))"
  using assms bitmap_set_upd [of m i v] bitmap_test_get [of "bm_upd m i v"]
  by (simp add: bitmap_test_get bm_get_upd del: bm_index_upd)

lemma bitmap_set_test_roundtrip_witness:
  "\<exists>m'. bitmap_set \<lparr>bm_bits = [5, 0], bm_length = 2, bm_offset = 256\<rparr>
      (bm_index \<lparr>bm_bits = [5, 0], bm_length = 2, bm_offset = 256\<rparr> 9) True = Inr m' \<and>
    bitmap_test m' (bm_index m' 9) = Inr True"
  using bitmap_set_test_roundtrip [of "\<lparr>bm_bits = [5, 0], bm_length = 2, bm_offset = 256\<rparr>" 9 3 True]
  by (auto simp: bm_wf_def bm_size_def)

end
