(* ===== verification/Ylos_Proc.thy ===== *)
theory Ylos_Proc
  imports Ylos_Bitmap
begin

text \<open>
  include/ylos/task.h: the process control block.  A task lives in one kernel page and is
  named by the address of that page (\<open>task_ptr\<close>); pointers to inodes and open files are
  table indices.  The bitmap of a process's mapped memory is either the kernel's own map,
  which all kernel threads share, or a map of its own, with the address of its descriptor
  and of the page that holds its bits.  The state enumeration is ordered as in the header.
\<close>

type_synonym task_ptr = u32
type_synonym pid_t = u32

datatype task_state = TASK_INIT | TASK_RUNNING | TASK_READY | TASK_BLOCKED | TASK_SLEEPING | TASK_WAITING | TASK_DIED

datatype vmap_ref = Kernel_Map | Own_Map u32 u32 bitmap_t

definition KERNEL_USER :: u32 where "KERNEL_USER = 0"
definition NORMAL_USER :: u32 where "NORMAL_USER = 1000"
definition TASK_FILE_NR :: nat where "TASK_FILE_NR = 16"
definition YLOS_MAGIC :: u32 where "YLOS_MAGIC = 0x20230322"

record task_t =
  t_state :: task_state
  t_priority :: u32
  t_ticks :: u32
  t_jiffies :: u32
  t_name :: "u8 list"
  t_uid :: u32
  t_gid :: u32
  t_pid :: pid_t
  t_ppid :: pid_t
  t_pde :: u32
  t_vmap :: vmap_ref
  t_text :: u32
  t_data :: u32
  t_end :: u32
  t_brk :: u32
  t_status :: u32
  t_waitpid :: pid_t
  t_pwd_page :: u32
  t_pwd :: "u8 list"
  t_ipwd :: nat
  t_iroot :: nat
  t_iexec :: "nat option"
  t_umask :: u16
  t_files :: "nat option list"
  t_magic :: u32

text \<open>A task state that keeps its task on a list of waiting tasks.\<close>

definition waiting_state :: "task_state \<Rightarrow> bool" where
  "waiting_state s \<longleftrightarrow> s \<in> {TASK_BLOCKED, TASK_SLEEPING, TASK_WAITING}"

primrec state_code :: "task_state \<Rightarrow> nat" where
  "state_code TASK_INIT = 0"
| "state_code TASK_RUNNING = 1"
| "state_code TASK_READY = 2"
| "state_code TASK_BLOCKED = 3"
| "state_code TASK_SLEEPING = 4"
| "state_code TASK_WAITING = 5"
| "state_code TASK_DIED = 6"

instantiation task_state :: linorder
begin

definition less_eq_task_state :: "task_state \<Rightarrow> task_state \<Rightarrow> bool" where
  "a \<le> b \<longleftrightarrow> state_code a \<le> state_code b"

definition less_task_state :: "task_state \<Rightarrow> task_state \<Rightarrow> bool" where
  "a < b \<longleftrightarrow> state_code a < state_code b"

instance
proof
  fix a b :: task_state
  show "a \<le> b \<Longrightarrow> b \<le> a \<Longrightarrow> a = b" by (cases a; cases b) (simp_all add: less_eq_task_state_def)
qed (auto simp: less_eq_task_state_def less_task_state_def)

end

end
