(* ===== verification/Ylos_Memory.thy ===== *)
theory Ylos_Memory
  imports Ylos_Proc Ylos_Stdlib
begin

text \<open>
  kernel/memory.c with include/ylos/memory.h: physical frames with reference counts, the
  kernel's page bitmap, and the two-level page tables of the processor.  Physical memory
  is a function from frame number and word index to the word; a virtual access goes
  through \<open>translate\<close>, the page walk of the processor, so that the recursive entry 1023 of
  the page directory works in the model the way the code uses it.  An access to an unmapped
  page while the kernel runs is \<open>Bad_Access\<close>.  A page entry is the 32-bit word of
  \<open>page_entry_t\<close>.
\<close>

section \<open>Addresses and page entries\<close>

definition PAGE_SIZE :: u32 where "PAGE_SIZE = 0x1000"
definition MEMORY_BASE :: u32 where "MEMORY_BASE = 0x100000"
definition KERNEL_MEMORY_SIZE :: u32 where "KERNEL_MEMORY_SIZE = 0x1000000"
definition USER_EXEC_ADDR :: u32 where "USER_EXEC_ADDR = KERNEL_MEMORY_SIZE"
definition USER_MMAP_ADDR :: u32 where "USER_MMAP_ADDR = 0x8000000"
definition USER_MMAP_SIZE :: u32 where "USER_MMAP_SIZE = 0x8000000"
definition USER_STACK_TOP :: u32 where "USER_STACK_TOP = 0x10000000"
definition USER_STACK_SIZE :: u32 where "USER_STACK_SIZE = 0x200000"
definition USER_STACK_BOTTOM :: u32 where "USER_STACK_BOTTOM = USER_STACK_TOP - USER_STACK_SIZE"
definition KERNEL_PAGE_DIR :: u32 where "KERNEL_PAGE_DIR = 0x1000"
definition KERNEL_PAGE_TABLE :: "u32 list" where "KERNEL_PAGE_TABLE = [0x2000, 0x3000, 0x4000, 0x5000]"
definition PDE_MASK :: u32 where "PDE_MASK = 0xFFC00000"

definition IDX :: "u32 \<Rightarrow> u32" where "IDX a = drop_bit 12 a"
definition DIDX :: "u32 \<Rightarrow> u32" where "DIDX a = drop_bit 22 a AND 0x3ff"
definition TIDX :: "u32 \<Rightarrow> u32" where "TIDX a = drop_bit 12 a AND 0x3ff"
definition PAGE :: "u32 \<Rightarrow> u32" where "PAGE i = push_bit 12 i"
definition page_aligned :: "u32 \<Rightarrow> bool" where "page_aligned a \<longleftrightarrow> a AND 0xfff = 0"

text \<open>The fields of \<open>page_entry_t\<close>.\<close>

definition pe_present :: "u32 \<Rightarrow> bool" where "pe_present e = bit e 0"
definition pe_write :: "u32 \<Rightarrow> bool" where "pe_write e = bit e 1"
definition pe_user :: "u32 \<Rightarrow> bool" where "pe_user e = bit e 2"
definition pe_shared :: "u32 \<Rightarrow> bool" where "pe_shared e = bit e 9"
definition pe_privat :: "u32 \<Rightarrow> bool" where "pe_privat e = bit e 10"
definition pe_readonly :: "u32 \<Rightarrow> bool" where "pe_readonly e = bit e 11"
definition pe_index :: "u32 \<Rightarrow> u32" where "pe_index e = drop_bit 12 e"
definition pe_set_index :: "u32 \<Rightarrow> u32 \<Rightarrow> u32" where
  "pe_set_index i e = (e AND 0xfff) OR push_bit 12 i"

definition entry_init :: "u32 \<Rightarrow> u32" where
  "entry_init index = push_bit 12 index OR 0b111"

section \<open>The state\<close>

record mem_t =
  m_phys :: "u32 \<Rightarrow> u32 \<Rightarrow> u32"
  m_base :: u32
  m_size :: u32
  m_total_pages :: u32
  m_free_pages :: u32
  m_start_page :: u32
  m_map :: "u8 list"
  m_kernel_map :: bitmap_t
  m_cr3 :: u32

section \<open>Start-up\<close>

datatype zone = Zone (zone_base: "64 word") (zone_size: "64 word") (zone_type: u32)

definition pick_zone :: "zone \<Rightarrow> u32 \<times> u32 \<Rightarrow> u32 \<times> u32" where
  "pick_zone z b =
     (if zone_type z = 1 \<and> ucast (snd b) < zone_size z then (ucast (zone_base z), ucast (zone_size z)) else b)"

text \<open>The tags of the multiboot information that the search passes; each is its type and,
  for the memory map, its entries.\<close>

fun find_mmap :: "(u32 \<times> zone list) list \<Rightarrow> zone list result" where
  "find_mmap [] = Inl Bad_Access"
| "find_mmap ((type, entries) # tags) =
     (if type = 0 then Inr [] else if type = 6 then Inr entries else find_mmap tags)"

definition memory_zones :: "u32 \<Rightarrow> zone list \<Rightarrow> (u32 \<times> zone list) list \<Rightarrow> zone list result" where
  "memory_zones magic ards tags =
     (if magic = YLOS_MAGIC then Inr ards
      else if magic = 0x36d76289 then find_mmap tags
      else Inl Kernel_Panic)"

definition memory_init :: "mem_t \<Rightarrow> u32 \<Rightarrow> zone list \<Rightarrow> (u32 \<times> zone list) list \<Rightarrow> mem_t result" where
  "memory_init m magic ards tags =
     bindr (memory_zones magic ards tags) (\<lambda>zs.
       let (base, sz) = fold pick_zone zs (m_base m, m_size m)
       in if base \<noteq> MEMORY_BASE \<or> sz AND 0xfff \<noteq> 0 then Inl Assert_Failed
          else if sz < KERNEL_MEMORY_SIZE then Inl Kernel_Panic
          else Inr (m\<lparr>m_base := base, m_size := sz,
                      m_total_pages := IDX sz + IDX MEMORY_BASE, m_free_pages := IDX sz\<rparr>))"

text \<open>
  \<open>memory_map_init\<close>: \<open>ram\<close> is what the memory behind the frame table holds (it is cleared
  where the table lies), \<open>kbits\<close> the bytes at \<open>KERNEL_MAP_BITS\<close>.
\<close>

definition memory_map_init :: "mem_t \<Rightarrow> u8 list \<Rightarrow> u8 list \<Rightarrow> mem_t result" where
  "memory_map_init m ram kbits =
     bindr (div_round_up (m_total_pages m) PAGE_SIZE) (\<lambda>pages.
       let len = unat (pages * PAGE_SIZE); start = IDX MEMORY_BASE + pages
       in if length ram < len \<or> length ram < unat start then Inl Bad_Access
          else bindr (bitmap_init kbits ((IDX KERNEL_MEMORY_SIZE - IDX MEMORY_BASE) div 8) (IDX MEMORY_BASE)) (\<lambda>bm.
               bindr (bitmap_scan bm pages) (\<lambda>(bm, r).
                 Inr (m\<lparr>m_free_pages := m_free_pages m - pages,
                        m_map := replicate (unat start) 1 @ drop (unat start) (replicate len 0 @ drop len ram),
                        m_start_page := start, m_kernel_map := bm\<rparr>))))"

section \<open>Physical frames\<close>

text \<open>The search of \<open>get_page\<close> over \<open>n\<close> frames from \<open>i\<close> on.\<close>

fun find_frame :: "u8 list \<Rightarrow> nat \<Rightarrow> nat \<Rightarrow> nat option result" where
  "find_frame mm 0 i = Inr None"
| "find_frame mm (Suc n) i =
     bindr (load_at mm i) (\<lambda>c. if c = 0 then Inr (Some i) else find_frame mm n (Suc i))"

definition get_page :: "mem_t \<Rightarrow> (mem_t \<times> u32) result" where
  "get_page m =
     bindr (find_frame (m_map m) (unat (m_total_pages m) - unat (m_start_page m)) (unat (m_start_page m)))
       (\<lambda>r. case r of
          None \<Rightarrow> Inl Kernel_Panic
        | Some i \<Rightarrow> Inr (m\<lparr>m_map := (m_map m)[i := 1], m_free_pages := m_free_pages m - 1\<rparr>,
                         PAGE (of_nat i)))"

definition put_page :: "mem_t \<Rightarrow> u32 \<Rightarrow> mem_t result" where
  "put_page m addr =
     (if \<not> page_aligned addr then Inl Assert_Failed
      else let idx = IDX addr
           in if \<not> (m_start_page m \<le> idx \<and> idx < m_total_pages m) then Inl Assert_Failed
              else bindr (load_at (m_map m) (unat idx)) (\<lambda>c.
                   if \<not> 1 \<le> c then Inl Assert_Failed
                   else let c = c - 1;
                            free = (if c = 0 then m_free_pages m + 1 else m_free_pages m)
                        in if \<not> (0 < free \<and> free < m_total_pages m) then Inl Assert_Failed
                           else Inr (m\<lparr>m_map := (m_map m)[unat idx := c], m_free_pages := free\<rparr>)))"

section \<open>Kernel pages\<close>

definition scan_page :: "bitmap_t \<Rightarrow> u32 \<Rightarrow> (bitmap_t \<times> u32) result" where
  "scan_page bm count =
     (if count = 0 then Inl Assert_Failed
      else bindr (bitmap_scan bm count) (\<lambda>(bm, index).
           if index = EOF then Inl Kernel_Panic else Inr (bm, PAGE index)))"

fun reset_loop :: "bitmap_t \<Rightarrow> u32 \<Rightarrow> nat \<Rightarrow> bitmap_t result" where
  "reset_loop bm index 0 = Inr bm"
| "reset_loop bm index (Suc n) =
     bindr (bitmap_test bm index) (\<lambda>used.
       if \<not> used then Inl Assert_Failed
       else bindr (bitmap_set bm index False) (\<lambda>bm. reset_loop bm (index + 1) n))"

definition reset_page :: "bitmap_t \<Rightarrow> u32 \<Rightarrow> u32 \<Rightarrow> bitmap_t result" where
  "reset_page bm addr count =
     (if \<not> page_aligned addr \<or> count = 0 then Inl Assert_Failed
      else reset_loop bm (IDX addr) (unat count))"

definition alloc_kpage :: "mem_t \<Rightarrow> u32 \<Rightarrow> (mem_t \<times> u32) result" where
  "alloc_kpage m count =
     (if count = 0 then Inl Assert_Failed
      else bindr (scan_page (m_kernel_map m) count) (\<lambda>(bm, vaddr).
             Inr (m\<lparr>m_kernel_map := bm\<rparr>, vaddr)))"

definition free_kpage :: "mem_t \<Rightarrow> u32 \<Rightarrow> u32 \<Rightarrow> mem_t result" where
  "free_kpage m vaddr count =
     (if \<not> page_aligned vaddr \<or> count = 0 then Inl Assert_Failed
      else bindr (reset_page (m_kernel_map m) vaddr count) (\<lambda>bm. Inr (m\<lparr>m_kernel_map := bm\<rparr>)))"

section \<open>The page walk\<close>

definition translate :: "mem_t \<Rightarrow> u32 \<Rightarrow> u32 option" where
  "translate m vaddr =
     (let pde = m_phys m (IDX (m_cr3 m)) (DIDX vaddr)
      in if \<not> pe_present pde then None
         else let pte = m_phys m (pe_index pde) (TIDX vaddr)
              in if \<not> pe_present pte then None else Some (pe_index pte))"

definition word_index :: "u32 \<Rightarrow> u32" where
  "word_index vaddr = drop_bit 2 vaddr AND 0x3ff"

definition write_phys :: "mem_t \<Rightarrow> u32 \<Rightarrow> u32 \<Rightarrow> u32 \<Rightarrow> mem_t" where
  "write_phys m f w v = m\<lparr>m_phys := (m_phys m)(f := (m_phys m f)(w := v))\<rparr>"

definition vread :: "mem_t \<Rightarrow> u32 \<Rightarrow> u32 result" where
  "vread m vaddr =
     (case translate m vaddr of None \<Rightarrow> Inl Bad_Access | Some f \<Rightarrow> Inr (m_phys m f (word_index vaddr)))"

definition vwrite :: "mem_t \<Rightarrow> u32 \<Rightarrow> u32 \<Rightarrow> mem_t result" where
  "vwrite m vaddr v =
     (case translate m vaddr of None \<Rightarrow> Inl Bad_Access
      | Some f \<Rightarrow> Inr (write_phys m f (word_index vaddr) v))"


text \<open>\<open>memset\<close> and \<open>memcpy\<close> of a whole page, word by word through the page walk.\<close>

fun page_clear :: "mem_t \<Rightarrow> u32 \<Rightarrow> nat \<Rightarrow> mem_t result" where
  "page_clear m p 0 = Inr m"
| "page_clear m p (Suc n) = bindr (vwrite m p 0) (\<lambda>m. page_clear m (p + 4) n)"

fun page_copy :: "mem_t \<Rightarrow> u32 \<Rightarrow> u32 \<Rightarrow> nat \<Rightarrow> mem_t result" where
  "page_copy m dst src 0 = Inr m"
| "page_copy m dst src (Suc n) =
     bindr (vread m src) (\<lambda>v. bindr (vwrite m dst v) (\<lambda>m. page_copy m (dst + 4) (src + 4) n))"

definition set_cr3 :: "mem_t \<Rightarrow> u32 \<Rightarrow> mem_t result" where
  "set_cr3 m pde = (if page_aligned pde then Inr (m\<lparr>m_cr3 := pde\<rparr>) else Inl Assert_Failed)"

section \<open>The kernel's own mapping\<close>

text \<open>
  \<open>mapping_init\<close> runs before paging is on, so it writes physical words.  The page directory
  is frame 1, the four page tables are frames 2 to 5; \<open>index\<close> runs over their 4096 entries.
\<close>

definition kernel_entry :: "u32 \<Rightarrow> u32" where
  "kernel_entry index = unset_bit 2 (entry_init index)"

fun map_kernel_frames :: "mem_t \<Rightarrow> nat \<Rightarrow> nat \<Rightarrow> mem_t result" where
  "map_kernel_frames m 0 index = Inr m"
| "map_kernel_frames m (Suc n) index =
     bindr (if index = 0 then Inr m
            else bindr (load_at KERNEL_PAGE_TABLE (index div 1024)) (\<lambda>pte.
                 bindr (store_at (m_map m) index 1) (\<lambda>mm.
                   Inr ((write_phys m (IDX pte) (of_nat (index mod 1024)) (kernel_entry (of_nat index)))
                          \<lparr>m_map := mm\<rparr>))))
       (\<lambda>m. map_kernel_frames m n (Suc index))"

definition clear_frame :: "mem_t \<Rightarrow> u32 \<Rightarrow> mem_t" where
  "clear_frame m f = m\<lparr>m_phys := (m_phys m)(f := \<lambda>w. 0)\<rparr>"

definition mapping_init :: "mem_t \<Rightarrow> mem_t result" where
  "mapping_init m =
     (let dir = IDX KERNEL_PAGE_DIR;
          m = fold (\<lambda>f m. clear_frame m f) (dir # map IDX KERNEL_PAGE_TABLE) m;
          m = fold (\<lambda>d m. write_phys m dir (of_nat d) (kernel_entry (IDX (KERNEL_PAGE_TABLE ! d)))) [0..<4] m
      in bindr (map_kernel_frames m 4096 0) (\<lambda>m.
         set_cr3 (write_phys m dir 1023 (entry_init dir)) KERNEL_PAGE_DIR))"

section \<open>Page tables through the recursive mapping\<close>

definition get_pde :: u32 where "get_pde = 0xfffff000"

definition table_addr :: "u32 \<Rightarrow> u32" where
  "table_addr didx = PDE_MASK OR push_bit 12 didx"

definition entry_addr :: "u32 \<Rightarrow> u32 \<Rightarrow> u32" where
  "entry_addr table i = table + 4 * i"

definition get_pte :: "mem_t \<Rightarrow> u32 \<Rightarrow> bool \<Rightarrow> (mem_t \<times> u32) result" where
  "get_pte m vaddr create =
     (let idx = DIDX vaddr; slot = entry_addr get_pde idx; table = table_addr idx
      in bindr (vread m slot) (\<lambda>entry.
         if \<not> (create \<or> pe_present entry) then Inl Assert_Failed
         else if pe_present entry then Inr (m, table)
         else bindr (get_page m) (\<lambda>(m, page).
              bindr (vwrite m slot (entry_init (IDX page))) (\<lambda>m.
              bindr (page_clear m table 1024) (\<lambda>m. Inr (m, table))))))"

definition get_entry :: "mem_t \<Rightarrow> u32 \<Rightarrow> bool \<Rightarrow> (mem_t \<times> u32) result" where
  "get_entry m vaddr create =
     bindr (get_pte m vaddr create) (\<lambda>(m, pte). Inr (m, entry_addr pte (TIDX vaddr)))"

definition link_page :: "mem_t \<Rightarrow> u32 \<Rightarrow> mem_t result" where
  "link_page m vaddr =
     (if \<not> page_aligned vaddr then Inl Assert_Failed
      else bindr (get_entry m vaddr True) (\<lambda>(m, slot).
           bindr (vread m slot) (\<lambda>entry.
             if pe_present entry then Inr m
             else bindr (get_page m) (\<lambda>(m, paddr). vwrite m slot (entry_init (IDX paddr))))))"

definition unlink_page :: "mem_t \<Rightarrow> u32 \<Rightarrow> mem_t result" where
  "unlink_page m vaddr =
     (if \<not> page_aligned vaddr then Inl Assert_Failed
      else bindr (vread m (entry_addr get_pde (DIDX vaddr))) (\<lambda>dentry.
        if \<not> pe_present dentry then Inr m
        else bindr (get_entry m vaddr False) (\<lambda>(m, slot).
             bindr (vread m slot) (\<lambda>entry.
               if \<not> pe_present entry then Inr m
               else bindr (vwrite m slot (unset_bit 0 entry)) (\<lambda>m.
                    put_page m (PAGE (pe_index entry)))))))"

definition copy_page :: "mem_t \<Rightarrow> u32 \<Rightarrow> (mem_t \<times> u32) result" where
  "copy_page m page =
     bindr (get_page m) (\<lambda>(m, paddr).
     bindr (get_pte m 0 False) (\<lambda>(m, slot).
     bindr (vwrite m slot (entry_init (IDX paddr))) (\<lambda>m.
     bindr (page_copy m 0 page 1024) (\<lambda>m.
     bindr (vread m slot) (\<lambda>entry.
     bindr (vwrite m slot (unset_bit 0 entry)) (\<lambda>m. Inr (m, paddr)))))))"

section \<open>Copying and freeing an address space\<close>

fun share_entries :: "mem_t \<Rightarrow> u32 \<Rightarrow> nat \<Rightarrow> mem_t result" where
  "share_entries m slot 0 = Inr m"
| "share_entries m slot (Suc n) =
     bindr (vread m slot) (\<lambda>entry.
     bindr (if \<not> pe_present entry then Inr m
            else bindr (load_at (m_map m) (unat (pe_index entry))) (\<lambda>c.
              if \<not> 0 < c then Inl Assert_Failed
              else bindr (if pe_shared entry then Inr m else vwrite m slot (unset_bit 1 entry)) (\<lambda>m.
                   if \<not> c + 1 < 255 then Inl Assert_Failed
                   else Inr (m\<lparr>m_map := (m_map m)[unat (pe_index entry) := c + 1]\<rparr>))))
       (\<lambda>m. share_entries m (slot + 4) n))"

fun copy_tables :: "mem_t \<Rightarrow> u32 \<Rightarrow> u32 \<Rightarrow> nat \<Rightarrow> mem_t result" where
  "copy_tables m pde didx 0 = Inr m"
| "copy_tables m pde didx (Suc n) =
     bindr (vread m (entry_addr pde didx)) (\<lambda>dentry.
     bindr (if \<not> pe_present dentry then Inr m
            else bindr (share_entries m (table_addr didx) 1024) (\<lambda>m.
                 bindr (copy_page m (table_addr didx)) (\<lambda>(m, paddr).
                   vwrite m (entry_addr pde didx) (pe_set_index (IDX paddr) dentry))))
       (\<lambda>m. copy_tables m pde (didx + 1) n))"

definition copy_pde :: "mem_t \<Rightarrow> task_t \<Rightarrow> (mem_t \<times> u32) result" where
  "copy_pde m task =
     bindr (alloc_kpage m 1) (\<lambda>(m, pde).
     bindr (page_copy m pde (t_pde task) 1024) (\<lambda>m.
     bindr (vwrite m (entry_addr pde 1023) (entry_init (IDX pde))) (\<lambda>m.
     bindr (copy_tables m pde 4 1019) (\<lambda>m.
     bindr (set_cr3 m (t_pde task)) (\<lambda>m. Inr (m, pde))))))"

fun free_entries :: "mem_t \<Rightarrow> u32 \<Rightarrow> nat \<Rightarrow> mem_t result" where
  "free_entries m slot 0 = Inr m"
| "free_entries m slot (Suc n) =
     bindr (vread m slot) (\<lambda>entry.
     bindr (if \<not> pe_present entry then Inr m
            else bindr (load_at (m_map m) (unat (pe_index entry))) (\<lambda>c.
                 if \<not> 0 < c then Inl Assert_Failed else put_page m (PAGE (pe_index entry))))
       (\<lambda>m. free_entries m (slot + 4) n))"

fun free_tables :: "mem_t \<Rightarrow> u32 \<Rightarrow> nat \<Rightarrow> mem_t result" where
  "free_tables m didx 0 = Inr m"
| "free_tables m didx (Suc n) =
     bindr (vread m (entry_addr get_pde didx)) (\<lambda>dentry.
     bindr (if \<not> pe_present dentry then Inr m
            else bindr (free_entries m (table_addr didx) 1024) (\<lambda>m. put_page m (PAGE (pe_index dentry))))
       (\<lambda>m. free_tables m (didx + 1) n))"

definition free_pde :: "mem_t \<Rightarrow> task_t \<Rightarrow> mem_t result" where
  "free_pde m task =
     (if t_uid task = KERNEL_USER then Inl Assert_Failed
      else bindr (free_tables m 4 1019) (\<lambda>m. free_kpage m (t_pde task) 1))"

section \<open>System calls\<close>

fun unlink_range :: "mem_t \<Rightarrow> u32 \<Rightarrow> nat \<Rightarrow> mem_t result" where
  "unlink_range m page 0 = Inr m"
| "unlink_range m page (Suc n) = bindr (unlink_page m page) (\<lambda>m. unlink_range m (page + PAGE_SIZE) n)"

text \<open>The loop of \<open>sys_brk\<close> visits \<open>page = brk, brk + 0x1000, ...\<close> while below \<open>old_brk\<close>.\<close>

definition pages_below :: "u32 \<Rightarrow> u32 \<Rightarrow> nat" where
  "pages_below lo hi = (unat hi - unat lo + 4095) div 4096"

definition sys_brk :: "mem_t \<Rightarrow> task_t \<Rightarrow> u32 \<Rightarrow> (mem_t \<times> task_t \<times> u32) result" where
  "sys_brk m task brk =
     (if \<not> page_aligned brk \<or> t_uid task = KERNEL_USER \<or> \<not> (t_end task \<le> brk \<and> brk \<le> USER_MMAP_ADDR)
      then Inl Assert_Failed
      else let old = t_brk task
           in if brk < old
              then bindr (unlink_range m brk (pages_below brk old)) (\<lambda>m. Inr (m, task\<lparr>t_brk := brk\<rparr>, 0))
              else if m_free_pages m < IDX (brk - old) then Inr (m, task, EOF)
              else Inr (m, task\<lparr>t_brk := brk\<rparr>, 0))"

text \<open>\<open>task->vmap\<close> is the kernel's bitmap or the task's own.\<close>

definition task_vmap :: "mem_t \<Rightarrow> task_t \<Rightarrow> bitmap_t" where
  "task_vmap m task = (case t_vmap task of Kernel_Map \<Rightarrow> m_kernel_map m | Own_Map d p bm \<Rightarrow> bm)"

definition set_task_vmap :: "mem_t \<Rightarrow> task_t \<Rightarrow> bitmap_t \<Rightarrow> mem_t \<times> task_t" where
  "set_task_vmap m task bm =
     (case t_vmap task of
        Kernel_Map \<Rightarrow> (m\<lparr>m_kernel_map := bm\<rparr>, task)
      | Own_Map d p _ \<Rightarrow> (m, task\<lparr>t_vmap := Own_Map d p bm\<rparr>))"

definition PROT_WRITE :: u32 where "PROT_WRITE = 2"
definition MAP_SHARED :: u32 where "MAP_SHARED = 1"
definition MAP_PRIVATE :: u32 where "MAP_PRIVATE = 2"

definition mmap_entry :: "u32 \<Rightarrow> u32 \<Rightarrow> u32 \<Rightarrow> u32" where
  "mmap_entry prot flags e =
     (let e = set_bit 11 (unset_bit 1 (set_bit 2 e));
          e = (if prot AND PROT_WRITE \<noteq> 0 then set_bit 1 (unset_bit 11 e) else e);
          e = (if flags AND MAP_SHARED \<noteq> 0 then set_bit 9 e else e)
      in if flags AND MAP_PRIVATE \<noteq> 0 then set_bit 10 e else e)"

fun mmap_loop :: "mem_t \<Rightarrow> task_t \<Rightarrow> u32 \<Rightarrow> u32 \<Rightarrow> u32 \<Rightarrow> nat \<Rightarrow> (mem_t \<times> task_t) result" where
  "mmap_loop m task page prot flags 0 = Inr (m, task)"
| "mmap_loop m task page prot flags (Suc n) =
     bindr (link_page m page) (\<lambda>m.
     bindr (bitmap_set (task_vmap m task) (IDX page) True) (\<lambda>bm.
       let (m, task) = set_task_vmap m task bm
       in bindr (get_entry m page False) (\<lambda>(m, slot).
          bindr (vread m slot) (\<lambda>e.
          bindr (vwrite m slot (mmap_entry prot flags e)) (\<lambda>m.
            mmap_loop m task (page + PAGE_SIZE) prot flags n)))))"

text \<open>\<open>sys_mmap\<close> up to the copying of the file; its result is the address.\<close>

definition sys_mmap :: "mem_t \<Rightarrow> task_t \<Rightarrow> u32 \<Rightarrow> u32 \<Rightarrow> u32 \<Rightarrow> u32 \<Rightarrow> (mem_t \<times> task_t \<times> u32) result" where
  "sys_mmap m task addr len prot flags =
     (if \<not> page_aligned addr then Inl Assert_Failed
      else bindr (div_round_up len PAGE_SIZE) (\<lambda>count.
           bindr (if addr \<noteq> 0 then Inr (m, task, addr)
                  else bindr (scan_page (task_vmap m task) count) (\<lambda>(bm, vaddr).
                       let (m, task) = set_task_vmap m task bm in Inr (m, task, vaddr))) (\<lambda>(m, task, vaddr).
             if \<not> (USER_MMAP_ADDR \<le> vaddr \<and> vaddr < USER_STACK_BOTTOM) then Inl Assert_Failed
             else bindr (mmap_loop m task vaddr prot flags (unat count)) (\<lambda>(m, task).
                    Inr (m, task, vaddr)))))"

fun munmap_loop :: "mem_t \<Rightarrow> task_t \<Rightarrow> u32 \<Rightarrow> nat \<Rightarrow> (mem_t \<times> task_t) result" where
  "munmap_loop m task page 0 = Inr (m, task)"
| "munmap_loop m task page (Suc n) =
     bindr (unlink_page m page) (\<lambda>m.
     bindr (bitmap_test (task_vmap m task) (IDX page)) (\<lambda>used.
       if \<not> used then Inl Assert_Failed
       else bindr (bitmap_set (task_vmap m task) (IDX page) False) (\<lambda>bm.
            let (m, task) = set_task_vmap m task bm
            in munmap_loop m task (page + PAGE_SIZE) n)))"

definition sys_munmap :: "mem_t \<Rightarrow> task_t \<Rightarrow> u32 \<Rightarrow> u32 \<Rightarrow> (mem_t \<times> task_t \<times> u32) result" where
  "sys_munmap m task vaddr len =
     (if \<not> (USER_MMAP_ADDR \<le> vaddr \<and> vaddr < USER_STACK_BOTTOM) \<or> \<not> page_aligned vaddr then Inl Assert_Failed
      else bindr (div_round_up len PAGE_SIZE) (\<lambda>count.
           bindr (munmap_loop m task vaddr (unat count)) (\<lambda>(m, task). Inr (m, task, 0))))"

section \<open>The page fault handler\<close>

text \<open>The handler comes back with the new memory, or ends the task (\<open>task_exit(-1)\<close>).\<close>

datatype fault_outcome = Fault_Mapped mem_t | Segmentation_Fault

definition write_fault :: "mem_t \<Rightarrow> u32 \<Rightarrow> mem_t result" where
  "write_fault m vaddr =
     bindr (get_entry m vaddr False) (\<lambda>(m, slot).
     bindr (vread m slot) (\<lambda>entry.
       if \<not> pe_present entry \<or> pe_shared entry \<or> pe_readonly entry then Inl Assert_Failed
       else bindr (load_at (m_map m) (unat (pe_index entry))) (\<lambda>c.
            if \<not> 0 < c then Inl Assert_Failed
            else if c = 1 then vwrite m slot (set_bit 1 entry)
            else bindr (copy_page m (PAGE (IDX vaddr))) (\<lambda>(m, paddr).
                 bindr (vread m slot) (\<lambda>entry.
                 bindr (load_at (m_map m) (unat (pe_index entry))) (\<lambda>c.
                 vwrite (m\<lparr>m_map := (m_map m)[unat (pe_index entry) := c - 1]\<rparr>) slot (entry_init (IDX paddr))))))))"

definition page_fault :: "mem_t \<Rightarrow> task_t \<Rightarrow> u32 \<Rightarrow> u32 \<Rightarrow> u32 \<Rightarrow> fault_outcome result" where
  "page_fault m task vector vaddr error =
     (if vector \<noteq> 0xe then Inl Assert_Failed
      else if vaddr < USER_EXEC_ADDR \<or> USER_STACK_TOP \<le> vaddr
      then (if t_uid task = 0 then Inl Assert_Failed else Inr Segmentation_Fault)
      else if bit error 0
      then (if \<not> bit error 1 then Inl Assert_Failed
            else bindr (write_fault m vaddr) (\<lambda>m. Inr (Fault_Mapped m)))
      else if vaddr < t_brk task \<or> USER_STACK_BOTTOM \<le> vaddr
      then bindr (link_page m (PAGE (IDX vaddr))) (\<lambda>m. Inr (Fault_Mapped m))
      else Inl Kernel_Panic)"

section \<open>The parts of an address\<close>

lemma and_3ff: "(a :: u32) AND 0x3ff = take_bit 10 a"
  by (simp add: take_bit_eq_mask mask_eq_exp_minus_1)

lemma unat_DIDX: "unat (DIDX a) = unat a div 4194304 mod 1024"
  by (simp add: DIDX_def and_3ff unsigned_take_bit_eq unsigned_drop_bit_eq take_bit_eq_mod drop_bit_eq_div
      take_bit_nat_eq_self unat_div_distrib unat_mod_distrib)

lemma unat_TIDX: "unat (TIDX a) = unat a div 4096 mod 1024"
  by (simp add: TIDX_def and_3ff unsigned_take_bit_eq unsigned_drop_bit_eq take_bit_eq_mod drop_bit_eq_div
      take_bit_nat_eq_self unat_div_distrib unat_mod_distrib)

lemma unat_word_index: "unat (word_index a) = unat a div 4 mod 1024"
  by (simp add: word_index_def and_3ff unsigned_take_bit_eq unsigned_drop_bit_eq take_bit_eq_mod drop_bit_eq_div
      take_bit_nat_eq_self unat_div_distrib unat_mod_distrib)

lemma unat_IDX: "unat (IDX a) = unat a div 4096"
  by (simp add: IDX_def unsigned_drop_bit_eq drop_bit_eq_div unat_div_distrib)

lemma unat_PAGE: "unat i < 2 ^ 20 \<Longrightarrow> unat (PAGE i) = unat i * 4096"
  by (simp add: PAGE_def push_bit_eq_mult unat_mult_small)

lemma IDX_PAGE [simp]: "unat i < 2 ^ 20 \<Longrightarrow> IDX (PAGE i) = i"
  by (simp add: word_unat_eq_iff unat_IDX unat_PAGE)

lemma page_aligned_mod: "page_aligned a \<longleftrightarrow> unat a mod 4096 = 0"
proof -
  have "a AND 0xfff = take_bit 12 a" by (simp add: take_bit_eq_mask mask_eq_exp_minus_1)
  then show ?thesis
    by (simp add: page_aligned_def take_bit_eq_mod word_unat_eq_iff unat_mod_distrib)
qed

lemma page_aligned_PAGE [simp]: "unat i < 2 ^ 20 \<Longrightarrow> page_aligned (PAGE i)"
  by (simp add: page_aligned_mod unat_PAGE)

lemma PAGE_IDX: "page_aligned a \<Longrightarrow> PAGE (IDX a) = a"
proof -
  assume "page_aligned a"
  then have "unat a div 4096 * 4096 = unat a" by (auto simp: page_aligned_mod)
  moreover have "unat (IDX a) < 2 ^ 20"
    using u32_less_2p32 [of a] by (simp add: unat_IDX less_mult_imp_div_less)
  ultimately show ?thesis by (simp add: word_unat_eq_iff unat_PAGE unat_IDX)
qed

end
