(* ===== verification/Ylos_Frames.thy ===== *)
theory Ylos_Frames
  imports Ylos_Memory
begin

text \<open>
  The two allocators of Ylos_Memory: reference-counted physical frames (\<open>get_page\<close>,
  \<open>put_page\<close>) and ranges of kernel pages (\<open>alloc_kpage\<close>, \<open>free_kpage\<close>).  The locale
  \<open>page_ranges\<close> is what the clients of a range allocator rely on; the kernel page map and
  the maps of user memory provide it.
\<close>

section \<open>Physical frames\<close>

definition frame_used :: "mem_t \<Rightarrow> nat \<Rightarrow> nat" where
  "frame_used m i = unat (m_map m ! i)"

definition free_frames :: "mem_t \<Rightarrow> nat set" where
  "free_frames m = {i. unat (m_start_page m) \<le> i \<and> i < unat (m_total_pages m) \<and> m_map m ! i = 0}"

text \<open>
  The invariant of the frame table.  \<open>mapping_init\<close> marks the 4096 frames of the kernel as
  used without counting them, so \<open>free_pages\<close> exceeds the number of free frames by the
  frames between the table and the end of the kernel.
\<close>

definition mem_wf :: "mem_t \<Rightarrow> bool" where
  "mem_wf m \<longleftrightarrow> 0 < unat (m_start_page m) \<and> unat (m_start_page m) < 4096
     \<and> 4096 < unat (m_total_pages m) \<and> unat (m_total_pages m) \<le> 2 ^ 20
     \<and> unat (m_total_pages m) \<le> length (m_map m) \<and> (\<forall>i<4096. m_map m ! i \<noteq> 0)
     \<and> unat (m_free_pages m) = card (free_frames m) + (4096 - unat (m_start_page m))"

lemma finite_free_frames [simp]: "finite (free_frames m)"
  by (rule finite_subset [of _ "{..<unat (m_total_pages m)}"]) (auto simp: free_frames_def)

lemma free_frames_range: "mem_wf m \<Longrightarrow> i \<in> free_frames m \<Longrightarrow> 4096 \<le> i \<and> i < unat (m_total_pages m)"
  by (auto simp: mem_wf_def free_frames_def linorder_not_less [symmetric])

lemma card_free_frames: "mem_wf m \<Longrightarrow> card (free_frames m) \<le> unat (m_total_pages m) - 4096"
proof -
  assume "mem_wf m"
  then have "free_frames m \<subseteq> {4096..<unat (m_total_pages m)}" using free_frames_range by auto
  from card_mono [OF _ this] show ?thesis by simp
qed

lemma find_frame_find:
  "i + n \<le> length mm \<Longrightarrow> find_frame mm n i = Inr (find (\<lambda>j. mm ! j = 0) [i..<i + n])"
proof (induction n arbitrary: i)
  case (Suc n)
  have "[i..<i + Suc n] = i # [Suc i..<Suc i + n]" by (simp add: upt_conv_Cons)
  with Suc show ?case by simp
qed simp

lemma find_upt_Some:
  assumes "find P [a..<b] = Some i"
  shows "a \<le> i" and "i < b" and "P i" and "\<And>j. a \<le> j \<Longrightarrow> j < i \<Longrightarrow> \<not> P j"
proof -
  obtain k where k: "k < length [a..<b]" "i = [a..<b] ! k" "P ([a..<b] ! k)"
    "\<And>l. l < k \<Longrightarrow> \<not> P ([a..<b] ! l)" using assms by (auto simp: find_Some_iff)
  then show "a \<le> i" "i < b" "P i" by auto
  show "\<not> P j" if "a \<le> j" "j < i" for j
    using k(4) [of "j - a"] that k(1,2) by (auto simp: nth_upt)
qed

lemma get_page_cases:
  assumes "mem_wf m"
  shows "(free_frames m = {} \<and> get_page m = Inl Kernel_Panic) \<or>
    (\<exists>i\<in>free_frames m. (\<forall>j\<in>free_frames m. i \<le> j) \<and> get_page m =
       Inr (m\<lparr>m_map := (m_map m)[i := 1], m_free_pages := m_free_pages m - 1\<rparr>, PAGE (of_nat i)))"
proof -
  let ?P = "\<lambda>j. m_map m ! j = 0" and ?a = "unat (m_start_page m)" and ?b = "unat (m_total_pages m)"
  have ab: "?a + (?b - ?a) = ?b" "?b \<le> length (m_map m)" using assms by (simp_all add: mem_wf_def)
  have ff: "find_frame (m_map m) (?b - ?a) ?a = Inr (find ?P [?a..<?b])"
    using find_frame_find [of ?a "?b - ?a" "m_map m"] ab by simp
  show ?thesis
  proof (cases "find ?P [?a..<?b]")
    case None
    then have "free_frames m = {}" by (auto simp: find_None_iff free_frames_def)
    moreover have "get_page m = Inl Kernel_Panic" by (simp add: get_page_def ff None)
    ultimately show ?thesis by blast
  next
    case (Some i)
    note i = find_upt_Some [OF Some]
    have "i \<in> free_frames m" using i by (simp add: free_frames_def)
    moreover have "\<forall>j\<in>free_frames m. i \<le> j"
      using i(4) by (auto simp: free_frames_def linorder_not_less [symmetric])
    moreover have "get_page m = Inr (m\<lparr>m_map := (m_map m)[i := 1], m_free_pages := m_free_pages m - 1\<rparr>, PAGE (of_nat i))"
      by (simp add: get_page_def ff Some)
    ultimately show ?thesis by blast
  qed
qed

lemma get_page_fails: "mem_wf m \<Longrightarrow> get_page m = Inl e \<longleftrightarrow> e = Kernel_Panic \<and> free_frames m = {}"
  using get_page_cases [of m] by auto

lemma free_frames_take:
  assumes "mem_wf m" and "i \<in> free_frames m" and "c \<noteq> 0"
  shows "free_frames (m\<lparr>m_map := (m_map m)[i := c], m_free_pages := n\<rparr>) = free_frames m - {i}"
  using assms by (auto simp: free_frames_def mem_wf_def nth_list_update)

lemma get_page_wf:
  assumes "mem_wf m" and "get_page m = Inr (m', page)"
  obtains i where "i \<in> free_frames m" and "\<And>j. j \<in> free_frames m \<Longrightarrow> i \<le> j" and "page = PAGE (of_nat i)"
    and "m' = m\<lparr>m_map := (m_map m)[i := 1], m_free_pages := m_free_pages m - 1\<rparr>"
    and "mem_wf m'" and "free_frames m' = free_frames m - {i}" and "unat (IDX page) = i"
proof -
  obtain i where i: "i \<in> free_frames m" "\<And>j. j \<in> free_frames m \<Longrightarrow> i \<le> j" "page = PAGE (of_nat i)"
    "m' = m\<lparr>m_map := (m_map m)[i := 1], m_free_pages := m_free_pages m - 1\<rparr>"
    using get_page_cases [OF assms(1)] assms(2) by auto
  have ff: "free_frames m' = free_frames m - {i}" unfolding i(4) by (rule free_frames_take [OF assms(1) i(1)]) simp
  have range: "4096 \<le> i" "i < unat (m_total_pages m)" using free_frames_range [OF assms(1) i(1)] by simp_all
  have card: "card (free_frames m) = Suc (card (free_frames m'))"
    unfolding ff using card_Suc_Diff1 [OF finite_free_frames i(1)] by simp
  have "unat (m_free_pages m - 1) = unat (m_free_pages m) - 1"
    using assms(1) card by (subst unat_diff_small) (simp_all add: mem_wf_def)
  then have wf: "mem_wf m'"
    using assms(1) card range unfolding mem_wf_def i(4) by (simp add: nth_list_update)
  have "i < 2 ^ 20" using range assms(1) by (simp add: mem_wf_def)
  then have "unat (IDX page) = i"
    unfolding i(3) by (simp add: unat_of_nat)
  with i wf ff show thesis by (intro that) auto
qed


lemma put_page_wf:
  assumes wf: "mem_wf m" and i: "4096 \<le> i" "i < unat (m_total_pages m)" "m_map m ! i \<noteq> 0"
    and addr: "addr = PAGE (of_nat i)"
  defines "c \<equiv> m_map m ! i - 1"
  defines "m' \<equiv> m\<lparr>m_map := (m_map m)[i := c],
    m_free_pages := (if c = 0 then m_free_pages m + 1 else m_free_pages m)\<rparr>"
  shows "put_page m addr = Inr m'" and "mem_wf m'"
    and "free_frames m' = (if c = 0 then insert i (free_frames m) else free_frames m)"
    and "unat c = unat (m_map m ! i) - 1"
proof -
  have tot: "unat (m_total_pages m) \<le> 2 ^ 20" "unat (m_start_page m) < 4096"
    "i < length (m_map m)" "0 < unat (m_start_page m)" "unat (m_total_pages m) \<le> length (m_map m)"
    using wf i(2) by (simp_all add: mem_wf_def)
  have i20: "unat (of_nat i :: u32) = i" "i < 2 ^ 20" using i(2) tot(1) by simp_all
  have idx: "IDX addr = of_nat i" "page_aligned addr" using i20 by (simp_all add: addr)
  show cnat: "unat c = unat (m_map m ! i) - 1"
    using i(3) by (simp add: c_def unat_diff_small unat_gt_0 Suc_leI)
  have ni: "i \<notin> free_frames m" using i(3) by (simp add: free_frames_def)
  show ff: "free_frames m' = (if c = 0 then insert i (free_frames m) else free_frames m)"
    using i tot by (auto simp: m'_def free_frames_def nth_list_update)
  have le: "card (free_frames m') \<le> unat (m_total_pages m) - 4096"
  proof -
    have "free_frames m' \<subseteq> {4096..<unat (m_total_pages m)}"
      unfolding ff using free_frames_range [OF wf] i by (auto split: if_splits)
    from card_mono [OF _ this] show ?thesis by simp
  qed
  have card: "card (free_frames m') = card (free_frames m) + (if c = 0 then 1 else 0)"
    unfolding ff using ni by simp
  have free: "unat (m_free_pages m) = card (free_frames m) + (4096 - unat (m_start_page m))"
    using wf by (simp add: mem_wf_def)
  let ?n = "if c = 0 then m_free_pages m + 1 else m_free_pages m"
  have n: "unat ?n = card (free_frames m') + (4096 - unat (m_start_page m))"
  proof (cases "c = 0")
    case True
    have "Suc (unat (m_free_pages m)) < 2 ^ 32" using free card le tot True by simp
    with True free card tot show ?thesis by (simp add: unat_Suc_small del: One_nat_def)
  next
    case False
    with free card show ?thesis by simp
  qed
  show wf': "mem_wf m'"
    using wf n i unfolding mem_wf_def m'_def by (simp add: nth_list_update)
  have big: "4096 < unat (m_total_pages m)" using wf by (simp add: mem_wf_def)
  have "0 < ?n" "?n < m_total_pages m"
    unfolding word_less_nat_alt n unat_0 using le tot big by linarith+
  moreover have "1 \<le> m_map m ! i" using i(3) by (simp add: word_le_nat_alt unat_gt_0 Suc_leI)
  moreover have "m_start_page m \<le> of_nat i" "of_nat i < m_total_pages m"
    using i tot i20 by (simp_all add: word_le_nat_alt word_less_nat_alt)
  ultimately show "put_page m addr = Inr m'"
    using tot(3) i20(1)
    by (simp add: put_page_def idx Let_def m'_def c_def [symmetric])
qed

section \<open>Ranges of pages in a bitmap\<close>

definition pages_of :: "bitmap_t \<Rightarrow> nat set" where
  "pages_of bm = {unat (bm_offset bm) + i | i. i < bm_size bm \<and> bm_get bm i}"

definition page_range :: "u32 \<Rightarrow> nat \<Rightarrow> nat set" where
  "page_range a n = {unat (IDX a)..<unat (IDX a) + n}"

definition page_map_wf :: "bitmap_t \<Rightarrow> bool" where
  "page_map_wf bm \<longleftrightarrow> bm_wf bm \<and> bm_size bm + unat (bm_offset bm) \<le> 2 ^ 20"

definition map_span :: "bitmap_t \<Rightarrow> nat set" where
  "map_span bm = {unat (bm_offset bm)..<unat (bm_offset bm) + bm_size bm}"

lemma pages_of_iff: "k \<in> pages_of bm \<longleftrightarrow>
    unat (bm_offset bm) \<le> k \<and> k < unat (bm_offset bm) + bm_size bm \<and> bm_get bm (k - unat (bm_offset bm))"
  by (auto simp: pages_of_def) (metis le_add_diff_inverse add_less_cancel_left)

lemma scan_page_range:
  assumes wf: "page_map_wf bm" and scan: "scan_page bm count = Inr (bm', a)"
  shows "page_map_wf bm'" and "page_aligned a" and "page_range a (unat count) \<inter> pages_of bm = {}"
    and "pages_of bm' = pages_of bm \<union> page_range a (unat count)"
    and "page_range a (unat count) \<subseteq> map_span bm" and "map_span bm' = map_span bm"
    and "0 < count"
proof -
  let ?n = "unat count" and ?off = "unat (bm_offset bm)"
  have bwf: "bm_wf bm" and lim: "bm_size bm + ?off \<le> 2 ^ 20" using wf by (simp_all add: page_map_wf_def)
  have c: "0 < count" using scan by (auto simp: scan_page_def word_neq_0_conv split: if_splits)
  then show "0 < count" .
  have n0: "0 < ?n" using c by (simp add: word_less_nat_alt)
  have ex: "\<exists>q. free_run bm q ?n"
  proof (rule ccontr)
    assume "\<nexists>q. free_run bm q ?n"
    from bitmap_scan_none [OF bwf c this] scan c show False by (simp add: scan_page_def split: if_splits)
  qed
  define q where "q = (LEAST q. free_run bm q ?n)"
  note some = bitmap_scan_some [OF bwf c ex, folded q_def]
  have q: "q + ?n \<le> bm_size bm" "\<And>i. q \<le> i \<Longrightarrow> i < q + ?n \<Longrightarrow> \<not> bm_get bm i"
    using some(2) by (auto simp: free_run_def)
  have uq: "unat (bm_index bm q) = ?off + q" using q(1) by (simp add: unat_bm_index [OF bwf])
  have bm': "bm' = bm_fill bm q ?n" "a = PAGE (bm_index bm q)"
    using scan c some(1) by (auto simp: scan_page_def split: if_splits)
  have lt: "unat (bm_index bm q) < 2 ^ 20" using q(1) lim n0 by (simp add: uq)
  have range: "page_range a ?n = {?off + q..<?off + q + ?n}"
    unfolding bm' page_range_def IDX_PAGE [OF lt] uq ..
  show "page_aligned a" unfolding bm' by (rule page_aligned_PAGE [OF lt])
  show "page_map_wf bm'" using wf by (simp add: bm' page_map_wf_def)
  show "page_range a ?n \<inter> pages_of bm = {}" using q(2) by (auto simp: range pages_of_iff)
  show "page_range a ?n \<subseteq> map_span bm" using q(1) by (auto simp: range map_span_def)
  show "map_span bm' = map_span bm" by (simp add: bm' map_span_def)
  show "pages_of bm' = pages_of bm \<union> page_range a ?n"
    unfolding range using q(1) by (auto simp: pages_of_iff bm'(1) bm_get_fill [OF bwf q(1)])
qed

text \<open>A run of \<open>n\<close> pages of the span that nobody owns.\<close>

definition has_room :: "nat set \<Rightarrow> nat set \<Rightarrow> nat \<Rightarrow> bool" where
  "has_room span owned n \<longleftrightarrow> (\<exists>q. {q..<q + n} \<subseteq> span - owned)"

lemma has_room_free_run:
  assumes "0 < n"
  shows "has_room (map_span bm) (pages_of bm) n \<longleftrightarrow> (\<exists>q. free_run bm q n)"
proof
  let ?off = "unat (bm_offset bm)"
  assume "has_room (map_span bm) (pages_of bm) n"
  then obtain q where q: "{q..<q + n} \<subseteq> map_span bm - pages_of bm" by (auto simp: has_room_def)
  then have in_q: "k \<in> map_span bm - pages_of bm" if "q \<le> k" "k < q + n" for k using that by (auto simp: subset_iff)
  have "?off \<le> q" using in_q [of q] assms by (simp add: map_span_def)
  moreover have "q + n - 1 < ?off + bm_size bm" using in_q [of "q + n - 1"] assms by (simp add: map_span_def)
  then have "q + n \<le> ?off + bm_size bm" using assms by linarith
  moreover have "\<not> bm_get bm i" if "q - ?off \<le> i" "i < q - ?off + n" for i
    using in_q [of "?off + i"] that \<open>?off \<le> q\<close> by (simp add: map_span_def pages_of_iff)
  ultimately have "free_run bm (q - ?off) n" by (simp add: free_run_def)
  then show "\<exists>q. free_run bm q n" by blast
next
  assume "\<exists>q. free_run bm q n"
  then obtain q where "free_run bm q n" by blast
  then have "q + n \<le> bm_size bm" "\<And>i. q \<le> i \<Longrightarrow> i < q + n \<Longrightarrow> \<not> bm_get bm i" by (simp_all add: free_run_def)
  then have "{unat (bm_offset bm) + q..<unat (bm_offset bm) + q + n} \<subseteq> map_span bm - pages_of bm"
    by (auto simp: map_span_def pages_of_iff)
  then show "has_room (map_span bm) (pages_of bm) n" unfolding has_room_def by blast
qed

lemma scan_page_total:
  assumes "page_map_wf bm" and "0 < count"
  shows "if has_room (map_span bm) (pages_of bm) (unat count) then \<exists>bm' a. scan_page bm count = Inr (bm', a)
    else scan_page bm count = Inl Kernel_Panic"
proof -
  have wf: "bm_wf bm" and n0: "0 < unat count" using assms by (simp_all add: page_map_wf_def word_less_nat_alt)
  show ?thesis unfolding has_room_free_run [OF n0]
  proof (cases "\<exists>q. free_run bm q (unat count)")
    case True
    define q where "q = (LEAST q. free_run bm q (unat count))"
    note some = bitmap_scan_some [OF wf assms(2) True, folded q_def]
    have "q + unat count \<le> bm_size bm" using some(2) by (simp add: free_run_def)
    then have "unat (bm_index bm q) < 2 ^ 20"
      using assms(1) n0 by (simp add: unat_bm_index [OF wf] page_map_wf_def)
    moreover have "\<not> unat EOF < 2 ^ 20" by (simp add: unat_EOF)
    ultimately have "bm_index bm q \<noteq> EOF" by auto
    with some(1) assms(2) True show "if \<exists>q. free_run bm q (unat count) then \<exists>bm' a. scan_page bm count = Inr (bm', a)
        else scan_page bm count = Inl Kernel_Panic" by (auto simp: scan_page_def)
  next
    case False
    with bitmap_scan_none [OF wf assms(2) False] assms(2)
    show "if \<exists>q. free_run bm q (unat count) then \<exists>bm' a. scan_page bm count = Inr (bm', a)
        else scan_page bm count = Inl Kernel_Panic" by (auto simp: scan_page_def)
  qed
qed

lemma reset_loop_range:
  assumes "page_map_wf bm" and "unat idx + n \<le> 2 ^ 20" and "{unat idx..<unat idx + n} \<subseteq> pages_of bm"
  shows "\<exists>bm'. reset_loop bm idx n = Inr bm' \<and> page_map_wf bm' \<and> map_span bm' = map_span bm
    \<and> pages_of bm' = pages_of bm - {unat idx..<unat idx + n}"
  using assms
proof (induction n arbitrary: bm idx)
  case (Suc n)
  let ?off = "unat (bm_offset bm)" and ?i = "unat idx - unat (bm_offset bm)"
  have bwf: "bm_wf bm" using Suc.prems(1) by (simp add: page_map_wf_def)
  have in_map: "?off \<le> unat idx" "?i < bm_size bm" "bm_get bm ?i"
    using subsetD [OF Suc.prems(3), of "unat idx"] unfolding pages_of_iff by auto
  have idx: "idx = bm_index bm ?i"
    using in_map by (simp add: word_unat_eq_iff unat_bm_index [OF bwf])
  let ?bm = "bm_upd bm ?i False"
  have step: "bitmap_test bm idx = Inr True" "bitmap_set bm idx False = Inr ?bm"
    using bitmap_test_get [OF bwf in_map(2)] bitmap_set_upd [OF bwf in_map(2), of False] in_map(3)
    by (simp_all flip: idx)
  have s: "unat (idx + 1) = Suc (unat idx)" using Suc.prems(2) by (simp add: unat_Suc_small)
  have pages: "pages_of ?bm = pages_of bm - {unat idx}"
    using in_map by (auto simp: pages_of_iff bm_get_upd [OF bwf in_map(2)] split: if_splits)
  have "page_map_wf ?bm" using Suc.prems(1) by (simp add: page_map_wf_def)
  moreover have "map_span ?bm = map_span bm" by (simp add: map_span_def)
  moreover have "{unat (idx + 1)..<unat (idx + 1) + n} \<subseteq> pages_of ?bm"
    using Suc.prems(3) unfolding pages s by (auto simp: subset_iff)
  moreover have "unat (idx + 1) + n \<le> 2 ^ 20" using Suc.prems(2) by (simp add: s)
  ultimately obtain bm' where bm': "reset_loop ?bm (idx + 1) n = Inr bm'" "page_map_wf bm'"
    "map_span bm' = map_span bm" "pages_of bm' = pages_of ?bm - {unat (idx + 1)..<unat (idx + 1) + n}"
    using Suc.IH [of ?bm "idx + 1"] by auto
  have "pages_of bm' = pages_of bm - {unat idx..<unat idx + Suc n}"
    unfolding bm'(4) pages s by auto
  with bm' show ?case by (simp add: step)
qed auto

lemma pages_of_bound: "page_map_wf bm \<Longrightarrow> k \<in> pages_of bm \<Longrightarrow> k < 2 ^ 20"
  by (auto simp: page_map_wf_def pages_of_iff)

lemma reset_page_range:
  assumes "page_map_wf bm" and "page_aligned a" and "0 < count" and "page_range a (unat count) \<subseteq> pages_of bm"
  shows "\<exists>bm'. reset_page bm a count = Inr bm' \<and> page_map_wf bm' \<and> map_span bm' = map_span bm
    \<and> pages_of bm' = pages_of bm - page_range a (unat count)"
proof -
  have n0: "0 < unat count" using assms(3) by (simp add: word_less_nat_alt)
  then have "unat (IDX a) + unat count - 1 \<in> pages_of bm"
    using assms(4) by (auto simp: page_range_def subset_iff)
  from pages_of_bound [OF assms(1) this] have "unat (IDX a) + unat count \<le> 2 ^ 20" using n0 by simp
  from reset_loop_range [OF assms(1) this] assms(2-4) show ?thesis
    by (auto simp: reset_page_def page_range_def)
qed

text \<open>Freeing a page that is not in use, the first of the range for instance, fails.\<close>

lemma reset_page_unused:
  assumes "page_map_wf bm" and "page_aligned a" and "0 < count"
    and "unat (IDX a) \<in> map_span bm - pages_of bm"
  shows "reset_page bm a count = Inl Assert_Failed"
proof -
  let ?i = "unat (IDX a) - unat (bm_offset bm)"
  have bwf: "bm_wf bm" using assms(1) by (simp add: page_map_wf_def)
  have i: "?i < bm_size bm" "\<not> bm_get bm ?i" "unat (bm_offset bm) \<le> unat (IDX a)"
    using assms(4) by (auto simp: map_span_def pages_of_iff)
  have "IDX a = bm_index bm ?i" using i by (simp add: word_unat_eq_iff unat_bm_index [OF bwf])
  with bitmap_test_get [OF bwf i(1)] i(2) have "bitmap_test bm (IDX a) = Inr False" by simp
  moreover obtain n where "unat count = Suc n"
    using assms(3) by (metis gr0_implies_Suc word_less_nat_alt unat_0)
  ultimately show ?thesis using assms(2,3) by (simp add: reset_page_def)
qed


section \<open>The interface of a range allocator\<close>

text \<open>
  A client names a range by its first address and its number of pages.  \<open>owned\<close> are the
  pages in use, \<open>span\<close> the pages there are.  The laws: an allocated range was unused and becomes used,
  freeing a used range makes it unused, and an allocation succeeds when there is a run of unused pages
  long enough and panics when there is none.
\<close>

locale page_ranges =
  fixes inv :: "'s \<Rightarrow> bool"
    and owned :: "'s \<Rightarrow> nat set"
    and alloc :: "'s \<Rightarrow> u32 \<Rightarrow> ('s \<times> u32) result"
    and free :: "'s \<Rightarrow> u32 \<Rightarrow> u32 \<Rightarrow> 's result"
    and span :: "'s \<Rightarrow> nat set"
  assumes alloc_law: "inv s \<Longrightarrow> alloc s n = Inr (s', a) \<Longrightarrow>
      inv s' \<and> 0 < n \<and> page_aligned a \<and> page_range a (unat n) \<inter> owned s = {}
      \<and> owned s' = owned s \<union> page_range a (unat n)"
    and free_law: "inv s \<Longrightarrow> page_aligned a \<Longrightarrow> 0 < n \<Longrightarrow> page_range a (unat n) \<subseteq> owned s \<Longrightarrow>
      \<exists>s'. free s a n = Inr s' \<and> inv s' \<and> owned s' = owned s - page_range a (unat n)"
    and alloc_total: "inv s \<Longrightarrow> 0 < n \<Longrightarrow>
      if has_room (span s) (owned s) (unat n) then \<exists>s' a. alloc s n = Inr (s', a) else alloc s n = Inl Kernel_Panic"

fun alloc_all :: "('s \<Rightarrow> u32 \<Rightarrow> ('s \<times> u32) result) \<Rightarrow> 's \<Rightarrow> u32 list \<Rightarrow> ('s \<times> (u32 \<times> u32) list) result" where
  "alloc_all alloc s [] = Inr (s, [])"
| "alloc_all alloc s (n # ns) =
     bindr (alloc s n) (\<lambda>(s, a). bindr (alloc_all alloc s ns) (\<lambda>(s, rs). Inr (s, (a, n) # rs)))"

fun free_all :: "('s \<Rightarrow> u32 \<Rightarrow> u32 \<Rightarrow> 's result) \<Rightarrow> 's \<Rightarrow> (u32 \<times> u32) list \<Rightarrow> 's result" where
  "free_all free s [] = Inr s"
| "free_all free s ((a, n) # rs) = bindr (free s a n) (\<lambda>s. free_all free s rs)"

fun disjoint_ranges :: "(u32 \<times> u32) list \<Rightarrow> bool" where
  "disjoint_ranges [] = True"
| "disjoint_ranges ((a, n) # rs) \<longleftrightarrow>
     (\<forall>(b, k)\<in>set rs. page_range a (unat n) \<inter> page_range b (unat k) = {}) \<and> disjoint_ranges rs"

definition ranges_union :: "(u32 \<times> u32) list \<Rightarrow> nat set" where
  "ranges_union rs = (\<Union>(a, n)\<in>set rs. page_range a (unat n))"

lemma ranges_union_simps [simp]:
  "ranges_union [] = {}" "ranges_union ((a, n) # rs) = page_range a (unat n) \<union> ranges_union rs"
  by (auto simp: ranges_union_def)

lemma disjoint_ranges_union:
  "disjoint_ranges ((a, n) # rs) \<longleftrightarrow> page_range a (unat n) \<inter> ranges_union rs = {} \<and> disjoint_ranges rs"
  by (auto simp: ranges_union_def)

context page_ranges
begin

lemma alloc_all_ranges:
  "inv s \<Longrightarrow> alloc_all alloc s ns = Inr (s', rs) \<Longrightarrow>
     inv s' \<and> map snd rs = ns \<and> disjoint_ranges rs \<and> ranges_union rs \<inter> owned s = {}
     \<and> owned s' = owned s \<union> ranges_union rs \<and> (\<forall>(a, n)\<in>set rs. page_aligned a \<and> 0 < n)"
proof (induction ns arbitrary: s rs)
  case (Cons n ns)
  from Cons.prems(2) obtain s1 a rs1 where 1: "alloc s n = Inr (s1, a)"
    "alloc_all alloc s1 ns = Inr (s', rs1)" "rs = (a, n) # rs1"
    by (auto elim!: bindr_InrE)
  note a = alloc_law [OF Cons.prems(1) 1(1)]
  then have r: "inv s' \<and> map snd rs1 = ns \<and> disjoint_ranges rs1 \<and> ranges_union rs1 \<inter> owned s1 = {}
     \<and> owned s' = owned s1 \<union> ranges_union rs1 \<and> (\<forall>(a, n)\<in>set rs1. page_aligned a \<and> 0 < n)"
    using Cons.IH [OF _ 1(2)] by blast
  have "disjoint_ranges rs" unfolding 1(3) disjoint_ranges_union using a r by auto
  with a r show ?case by (auto simp: 1(3) simp del: disjoint_ranges.simps)
qed simp

lemma free_all_ranges:
  "inv s \<Longrightarrow> disjoint_ranges rs \<Longrightarrow> ranges_union rs \<subseteq> owned s \<Longrightarrow> \<forall>(a, n)\<in>set rs. page_aligned a \<and> 0 < n \<Longrightarrow>
     \<exists>s'. free_all free s rs = Inr s' \<and> inv s' \<and> owned s' = owned s - ranges_union rs"
proof (induction rs arbitrary: s)
  case (Cons r rs)
  obtain a n where r: "r = (a, n)" by fastforce
  have d: "page_range a (unat n) \<inter> ranges_union rs = {}" "disjoint_ranges rs"
    using Cons.prems(2) unfolding r disjoint_ranges_union by simp_all
  obtain s1 where s1: "free s a n = Inr s1" "inv s1" "owned s1 = owned s - page_range a (unat n)"
    using free_law [OF Cons.prems(1), of a n] Cons.prems(3,4) r by auto
  have "ranges_union rs \<subseteq> owned s1" using Cons.prems(3) d(1) unfolding s1(3) r by auto
  with Cons.IH [OF s1(2) d(2)] Cons.prems(4) obtain s' where s': "free_all free s1 rs = Inr s'" "inv s'"
    "owned s' = owned s1 - ranges_union rs" by (auto simp: r)
  have "owned s' = owned s - ranges_union (r # rs)" unfolding s'(3) s1(3) r by auto
  with s1(1) s'(1,2) show ?case by (auto simp: r)
qed simp

lemma alloc_free_all:
  assumes "inv s" and "alloc_all alloc s ns = Inr (s', rs)"
  shows "\<exists>s''. free_all free s' rs = Inr s'' \<and> inv s'' \<and> owned s'' = owned s"
proof -
  note a = alloc_all_ranges [OF assms]
  obtain s'' where s'': "free_all free s' rs = Inr s''" "inv s''" "owned s'' = owned s' - ranges_union rs"
    using free_all_ranges [of s' rs] a by auto
  have "owned s'' = owned s" unfolding s''(3) using a by auto
  with s'' show ?thesis by blast
qed

end

interpretation umap: page_ranges page_map_wf pages_of scan_page reset_page map_span
proof
  fix bm bm' and n a :: u32 assume "page_map_wf bm" "scan_page bm n = Inr (bm', a)"
  from scan_page_range [OF this] show "page_map_wf bm' \<and> 0 < n \<and> page_aligned a \<and>
      page_range a (unat n) \<inter> pages_of bm = {} \<and> pages_of bm' = pages_of bm \<union> page_range a (unat n)" by blast
qed (use reset_page_range scan_page_total in blast)+

definition kpage_inv :: "mem_t \<Rightarrow> bool" where
  "kpage_inv m \<longleftrightarrow> page_map_wf (m_kernel_map m)"

definition kpages :: "mem_t \<Rightarrow> nat set" where
  "kpages m = pages_of (m_kernel_map m)"

definition kspan :: "mem_t \<Rightarrow> nat set" where
  "kspan m = map_span (m_kernel_map m)"

text \<open>There are \<open>n\<close> free kernel pages in a row.\<close>

definition kroom :: "mem_t \<Rightarrow> nat \<Rightarrow> bool" where
  "kroom m n \<longleftrightarrow> has_room (kspan m) (kpages m) n"

lemma alloc_kpage_iff:
  "alloc_kpage m n = Inr (m', a) \<longleftrightarrow>
     (\<exists>bm. scan_page (m_kernel_map m) n = Inr (bm, a) \<and> m' = m\<lparr>m_kernel_map := bm\<rparr>)"
  by (auto simp: alloc_kpage_def scan_page_def bindr_Inr_iff split: if_splits)

lemma free_kpage_eq:
  "free_kpage m a n = bindr (reset_page (m_kernel_map m) a n) (\<lambda>bm. Inr (m\<lparr>m_kernel_map := bm\<rparr>))"
  by (simp add: free_kpage_def reset_page_def)

interpretation kmap: page_ranges kpage_inv kpages alloc_kpage free_kpage kspan
proof
  fix m m' and n a :: u32 assume "kpage_inv m" "alloc_kpage m n = Inr (m', a)"
  with umap.alloc_law [of "m_kernel_map m" n _ a]
  show "kpage_inv m' \<and> 0 < n \<and> page_aligned a \<and> page_range a (unat n) \<inter> kpages m = {}
      \<and> kpages m' = kpages m \<union> page_range a (unat n)"
    by (auto simp: alloc_kpage_iff kpage_inv_def kpages_def)
next
  fix m and a n :: u32 assume "kpage_inv m" "page_aligned a" "0 < n" "page_range a (unat n) \<subseteq> kpages m"
  with umap.free_law [of "m_kernel_map m" a n]
  show "\<exists>m'. free_kpage m a n = Inr m' \<and> kpage_inv m' \<and> kpages m' = kpages m - page_range a (unat n)"
    by (auto simp: free_kpage_eq kpage_inv_def kpages_def)
next
  fix m and n :: u32 assume m: "kpage_inv m" "0 < n"
  then have n: "n \<noteq> 0" by auto
  have "page_map_wf (m_kernel_map m)" using m by (simp add: kpage_inv_def)
  from umap.alloc_total [OF this m(2)] n
  show "if has_room (kspan m) (kpages m) (unat n) then \<exists>m' a. alloc_kpage m n = Inr (m', a) else alloc_kpage m n = Inl Kernel_Panic"
    by (auto simp: alloc_kpage_def kspan_def kpages_def)
qed

lemmas alloc_kpage_total = kmap.alloc_total [folded kroom_def]

lemma alloc_kpage_fails:
  assumes "kpage_inv m" and "0 < n" and "alloc_kpage m n = Inl e"
  shows "e = Kernel_Panic \<and> \<not> kroom m (unat n)"
  using alloc_kpage_total [OF assms(1,2)] assms(3) by (auto split: if_splits)

lemma alloc_kpage_succeeds: "kpage_inv m \<Longrightarrow> 0 < n \<Longrightarrow> alloc_kpage m n = Inr r \<Longrightarrow> kroom m (unat n)"
  using alloc_kpage_total [of m n] by (auto split: if_splits)


section \<open>Properties\<close>

text \<open>
  C8. \<open>get_page\<close> panics exactly when every frame is in use; otherwise it hands out the lowest
  free frame with reference count 1, changes no other count, and keeps the frame table's
  invariant, the counter of free pages included.  Giving the frame back with \<open>put_page\<close>
  passes its assertions and restores the frame table and the counter.
\<close>
theorem get_put_page:
  assumes "mem_wf m"
  shows "(free_frames m = {} \<longrightarrow> get_page m = Inl Kernel_Panic) \<and>
    (free_frames m \<noteq> {} \<longrightarrow> (\<exists>m' m'' i. get_page m = Inr (m', PAGE (of_nat i)) \<and> mem_wf m'
      \<and> i = Min (free_frames m) \<and> m_map m' = (m_map m)[i := 1]
      \<and> put_page m' (PAGE (of_nat i)) = Inr m'' \<and> mem_wf m''
      \<and> m_map m'' = m_map m \<and> m_free_pages m'' = m_free_pages m))"
proof (cases "free_frames m = {}")
  case True
  then show ?thesis using get_page_cases [OF assms] by auto
next
  case False
  then obtain m' page where g: "get_page m = Inr (m', page)" using get_page_cases [OF assms] by auto
  obtain i where i0: "i \<in> free_frames m" "\<forall>j\<in>free_frames m. i \<le> j" "page = PAGE (of_nat i)" "mem_wf m'"
    "m' = m\<lparr>m_map := (m_map m)[i := 1], m_free_pages := m_free_pages m - 1\<rparr>"
    using get_page_wf [OF assms g] by blast
  note i = i0(1,2) g [unfolded i0(3)] i0(4,5)
  have r: "4096 \<le> i" "i < unat (m_total_pages m)" using free_frames_range [OF assms i(1)] by simp_all
  have len: "i < length (m_map m)" "m_map m ! i = 0" using r(2) assms i(1) by (auto simp: mem_wf_def free_frames_def)
  have i': "m_map m' ! i = 1" "i < unat (m_total_pages m')" using len r by (simp_all add: i(5))
  note p = put_page_wf [OF i(4) r(1) i'(2) _ refl, unfolded i'(1), simplified]
  have "i = Min (free_frames m)" using i(1,2) by (intro Min_eqI [symmetric]) auto
  moreover have "(m_map m')[i := 0] = m_map m" "m_free_pages m' + 1 = m_free_pages m"
    using len by (simp_all add: i(5) list_update_same_conv)
  ultimately show ?thesis using False i(3,4) p(1,2) len(1) by (simp add: i(5))
qed

text \<open>A frame table for the witnesses: 4098 frames, the last two of them free.\<close>

definition demo_mem :: mem_t where
  "demo_mem = \<lparr>m_phys = (\<lambda>f w. 0), m_base = 0x100000, m_size = 0xF02000, m_total_pages = 4098,
     m_free_pages = 2 + (4096 - 258), m_start_page = 258, m_map = replicate 4096 1 @ [0, 0],
     m_kernel_map = \<lparr>bm_bits = [3, 0], bm_length = 2, bm_offset = 256\<rparr>, m_cr3 = 0x1000\<rparr>"

lemma demo_mem_wf: "mem_wf demo_mem" and demo_free: "free_frames demo_mem = {4096, 4097}"
proof -
  have nth: "m_map demo_mem ! i = (if i < 4096 then 1 else 0)" if "i < 4098" for i
    using that by (auto simp: demo_mem_def nth_append nth_Cons split: nat.splits)
  show ff: "free_frames demo_mem = {4096, 4097}"
  proof
    show "free_frames demo_mem \<subseteq> {4096, 4097}"
    proof
      fix i assume "i \<in> free_frames demo_mem"
      then have "i < 4098" "m_map demo_mem ! i = 0" by (simp_all add: free_frames_def demo_mem_def)
      with nth [of i] have "4096 \<le> i" "i < 4098" by (auto split: if_splits)
      then show "i \<in> {4096, 4097}" by auto
    qed
  qed (simp add: free_frames_def nth, simp add: demo_mem_def)
  show "mem_wf demo_mem"
    unfolding mem_wf_def ff using nth by (auto simp: demo_mem_def)
qed

lemma get_put_page_witness:
  "\<exists>m' m''. get_page demo_mem = Inr (m', PAGE 4096) \<and> put_page m' (PAGE 4096) = Inr m''
     \<and> m_map m'' = m_map demo_mem"
  using get_put_page [OF demo_mem_wf] unfolding demo_free by auto

text \<open>
  C6. Kernel page ranges: whatever sequence of \<open>alloc_kpage\<close> calls succeeds, the ranges are
  page aligned, pairwise disjoint and disjoint from the pages used before; freeing them all
  with \<open>free_kpage\<close> passes every assertion and leaves the set of used pages as it was.  An
  allocation succeeds when there are that many free pages in a row, and panics when there are not.
\<close>
theorem kpage_ranges_disjoint:
  assumes "kpage_inv m"
  shows "(\<forall>m' rs. alloc_all alloc_kpage m ns = Inr (m', rs) \<longrightarrow>
      map snd rs = ns \<and> disjoint_ranges rs \<and> ranges_union rs \<inter> kpages m = {}
      \<and> (\<exists>m''. free_all free_kpage m' rs = Inr m'' \<and> kpage_inv m'' \<and> kpages m'' = kpages m))
    \<and> (\<forall>n. 0 < n \<longrightarrow> (if kroom m (unat n) then \<exists>m' a. alloc_kpage m n = Inr (m', a) else alloc_kpage m n = Inl Kernel_Panic))"
  using kmap.alloc_all_ranges [OF assms] kmap.alloc_free_all [OF assms] alloc_kpage_total [OF assms]
  by blast

lemma demo_alloc:
  "\<exists>m'. alloc_all alloc_kpage demo_mem [2, 3] = Inr (m', [(0x102000, 2), (0x104000, 3)])"
proof -
  have "case alloc_all alloc_kpage demo_mem [2, 3] of
      Inr (_, rs) \<Rightarrow> rs = [(0x102000, 2), (0x104000, 3)] | _ \<Rightarrow> False"
    by code_simp
  then show ?thesis by (auto split: sum.splits prod.splits)
qed

lemma kpage_ranges_disjoint_witness:
  "\<exists>m' m''. alloc_all alloc_kpage demo_mem [2, 3] = Inr (m', [(0x102000, 2), (0x104000, 3)])
     \<and> disjoint_ranges [(0x102000, 2), (0x104000, 3)]
     \<and> free_all free_kpage m' [(0x102000, 2), (0x104000, 3)] = Inr m'' \<and> kpages m'' = kpages demo_mem"
proof -
  have wf: "kpage_inv demo_mem"
    by (simp add: kpage_inv_def page_map_wf_def demo_mem_def bm_wf_def bm_size_def)
  obtain m' where m': "alloc_all alloc_kpage demo_mem [2, 3] = Inr (m', [(0x102000, 2), (0x104000, 3)])"
    using demo_alloc by blast
  with kpage_ranges_disjoint [OF wf, of "[2, 3]"] show ?thesis by blast
qed

end
