(* ===== verification/Ylos_Paging.thy ===== *)
theory Ylos_Paging
  imports Ylos_Frames
begin

text \<open>
  The lemmas on the page tables of Ylos_Memory: what an address selects in the walk, the
  recursive entry, and the effect of mapping, unmapping and copy-on-write on the frames an
  address space shows.
\<close>

section \<open>Slots of the page tables\<close>

lemma bit_small:
  assumes "unat (d :: u32) < 2 ^ k" and "bit d n"
  shows "n < k"
proof -
  have "take_bit k d = d"
    using assms(1) by (simp add: word_unat_eq_iff unsigned_take_bit_eq take_bit_nat_eq_self)
  then show ?thesis using assms(2) by (metis bit_take_bit_iff)
qed

lemma table_addr_plus: "unat d < 1024 \<Longrightarrow> table_addr d = PDE_MASK + push_bit 12 d"
proof -
  assume d: "unat d < 1024"
  have "\<not> bit PDE_MASK n \<or> \<not> bit (push_bit 12 d) n" for n
  proof (rule ccontr)
    assume "\<not> (\<not> bit PDE_MASK n \<or> \<not> bit (push_bit 12 d) n)"
    then have b: "bit PDE_MASK n" "bit (push_bit 12 d) n" by simp_all
    have "PDE_MASK = push_bit 22 0x3ff" by (simp add: PDE_MASK_def push_bit_eq_mult)
    then have "bit (push_bit 22 0x3ff :: u32) n" using b(1) by (simp only:)
    then have "22 \<le> n" by (simp only: bit_push_bit_iff)
    moreover have "n - 12 < 10" using b(2) bit_small [of d 10 "n - 12"] d by (simp add: bit_push_bit_iff)
    ultimately show False by simp
  qed
  then show ?thesis by (simp add: table_addr_def disjunctive_add)
qed

lemma unat_table_addr: "unat d < 1024 \<Longrightarrow> unat (table_addr d) = 4290772992 + unat d * 4096"
  using unat_PAGE [of d]
  by (simp add: table_addr_plus unat_add_small PAGE_def PDE_MASK_def)

lemma get_pde_table: "get_pde = table_addr 1023"
  by (simp add: get_pde_def table_addr_plus PDE_MASK_def push_bit_eq_mult)

lemma unat_entry_addr:
  "unat d < 1024 \<Longrightarrow> unat t < 1024 \<Longrightarrow>
     unat (entry_addr (table_addr d) t) = 4290772992 + unat d * 4096 + 4 * unat t"
  by (simp add: entry_addr_def unat_add_small unat_mult_small unat_table_addr)

lemma entry_addr_parts:
  assumes "unat d < 1024" and "unat t < 1024"
  shows "DIDX (entry_addr (table_addr d) t) = 1023" and "TIDX (entry_addr (table_addr d) t) = d"
    and "word_index (entry_addr (table_addr d) t) = t"
proof -
  have e: "unat (entry_addr (table_addr d) t) = 4 * unat t + 4096 * (1047552 + unat d)"
    using assms by (simp add: unat_entry_addr)
  have "unat (entry_addr (table_addr d) t) div 4096 = 1047552 + unat d"
    unfolding e using assms(2) by simp
  moreover have "unat (entry_addr (table_addr d) t) div 4 = unat t + 1024 * (1047552 + unat d)"
    unfolding e by simp
  moreover have "unat (entry_addr (table_addr d) t) div 4194304 = 1023"
    unfolding unat_entry_addr [OF assms] using assms by (intro div_nat_eqI) simp_all
  moreover have "(1047552 + unat d) mod 1024 = unat d"
  proof -
    have "1047552 + unat d = unat d + 1023 * 1024" by simp
    then have "(1047552 + unat d) mod 1024 = unat d mod 1024" by (metis mod_mult_self1)
    with assms(1) show ?thesis by simp
  qed
  moreover have "(unat t + 1024 * (1047552 + unat d)) mod 1024 = unat t"
    unfolding mod_mult_self2 using assms(2) by simp
  ultimately have "unat (DIDX (entry_addr (table_addr d) t)) = 1023"
    "unat (TIDX (entry_addr (table_addr d) t)) = unat d"
    "unat (word_index (entry_addr (table_addr d) t)) = unat t"
    unfolding unat_DIDX unat_TIDX unat_word_index by simp_all
  then show "DIDX (entry_addr (table_addr d) t) = 1023" "TIDX (entry_addr (table_addr d) t) = d"
    "word_index (entry_addr (table_addr d) t) = t"
    by (simp_all add: word_unat_eq_iff)
qed

section \<open>The walk through the recursive entry\<close>

definition pdir :: "mem_t \<Rightarrow> u32" where
  "pdir m = IDX (m_cr3 m)"

definition pde_at :: "mem_t \<Rightarrow> u32 \<Rightarrow> u32" where
  "pde_at m d = m_phys m (pdir m) d"

definition pte_at :: "mem_t \<Rightarrow> u32 \<Rightarrow> u32 \<Rightarrow> u32" where
  "pte_at m d t = m_phys m (pe_index (pde_at m d)) t"

definition self_map :: "mem_t \<Rightarrow> bool" where
  "self_map m \<longleftrightarrow> pe_present (pde_at m 1023) \<and> pe_index (pde_at m 1023) = pdir m"

lemma translate_parts:
  "translate m v = (if pe_present (pde_at m (DIDX v)) \<and> pe_present (pte_at m (DIDX v) (TIDX v))
     then Some (pe_index (pte_at m (DIDX v) (TIDX v))) else None)"
  by (simp add: translate_def Let_def pde_at_def pte_at_def pdir_def)

lemma translate_slot:
  assumes "self_map m" and "unat d < 1024" and "unat t < 1024"
  shows "translate m (entry_addr (table_addr d) t) =
    (if pe_present (pde_at m d) then Some (pe_index (pde_at m d)) else None)"
  using assms by (simp add: translate_parts entry_addr_parts self_map_def pte_at_def) (simp add: pde_at_def)

lemma vread_slot:
  assumes "self_map m" and "unat d < 1024" and "unat t < 1024"
  shows "vread m (entry_addr (table_addr d) t) =
    (if pe_present (pde_at m d) then Inr (pte_at m d t) else Inl Bad_Access)"
  using assms by (simp add: vread_def translate_slot entry_addr_parts pte_at_def)

lemma vwrite_slot:
  assumes "self_map m" and "unat d < 1024" and "unat t < 1024"
  shows "vwrite m (entry_addr (table_addr d) t) v =
    (if pe_present (pde_at m d) then Inr (write_phys m (pe_index (pde_at m d)) t v) else Inl Bad_Access)"
  using assms by (simp add: vwrite_def translate_slot entry_addr_parts)

text \<open>Table 1023 is the directory itself.\<close>

lemma pte_at_1023: "self_map m \<Longrightarrow> pte_at m 1023 d = pde_at m d"
  by (simp add: self_map_def pte_at_def pde_at_def)

lemma vread_pde:
  "self_map m \<Longrightarrow> unat d < 1024 \<Longrightarrow> vread m (entry_addr get_pde d) = Inr (pde_at m d)"
  unfolding get_pde_table by (simp add: vread_slot pte_at_1023) (simp add: self_map_def)

lemma vwrite_pde:
  "self_map m \<Longrightarrow> unat d < 1024 \<Longrightarrow> vwrite m (entry_addr get_pde d) v = Inr (write_phys m (pdir m) d v)"
  unfolding get_pde_table by (simp add: vwrite_slot) (simp add: self_map_def)

lemma unat_DIDX_less: "unat (DIDX a) < 1024"
  by (simp add: unat_DIDX)

lemma unat_TIDX_less: "unat (TIDX a) < 1024"
  by (simp add: unat_TIDX)

section \<open>Page entries\<close>

lemma entry_init_fields:
  assumes "unat i < 2 ^ 20"
  shows "pe_present (entry_init i)" and "pe_write (entry_init i)" and "pe_user (entry_init i)"
    and "pe_index (entry_init i) = i" and "\<not> pe_shared (entry_init i)" and "\<not> pe_readonly (entry_init i)"
proof -
  have seven: "(0b111 :: u32) = mask 3" by (simp add: mask_eq_exp_minus_1)
  show "pe_present (entry_init i)" "pe_write (entry_init i)" "pe_user (entry_init i)"
    "\<not> pe_shared (entry_init i)" "\<not> pe_readonly (entry_init i)"
    unfolding entry_init_def pe_present_def pe_write_def pe_user_def pe_shared_def pe_readonly_def seven
    by (simp_all add: bit_or_iff bit_push_bit_iff bit_mask_iff)
  show "pe_index (entry_init i) = i"
    unfolding entry_init_def pe_index_def seven
  proof (rule bit_word_eqI)
    fix n assume "n < LENGTH(32)"
    show "bit (drop_bit 12 (push_bit 12 i OR mask 3)) n = bit i n"
      using bit_small [OF assms, of n]
      by (auto simp: bit_drop_bit_eq bit_or_iff bit_push_bit_iff bit_mask_iff)
  qed
qed

lemma entry_init_present [simp]: "pe_present (entry_init i)"
proof -
  have "(0b111 :: u32) = mask 3" by (simp add: mask_eq_exp_minus_1)
  then show ?thesis by (simp add: entry_init_def pe_present_def bit_or_iff bit_push_bit_iff bit_mask_iff)
qed

lemma pe_index_bits [simp]:
  "n < 12 \<Longrightarrow> pe_index (set_bit n e) = pe_index e" "n < 12 \<Longrightarrow> pe_index (unset_bit n e) = pe_index e"
  unfolding pe_index_def
  by (rule bit_word_eqI; simp add: bit_drop_bit_eq bit_set_bit_iff bit_unset_bit_iff; fastforce)+

lemma pe_present_bits [simp]:
  "pe_present (unset_bit 0 e) = False" "0 < n \<Longrightarrow> pe_present (set_bit n e) = pe_present e"
  "0 < n \<Longrightarrow> pe_present (unset_bit n e) = pe_present e"
  by (auto simp: pe_present_def bit_set_bit_iff bit_unset_bit_iff)

lemma pe_present_0 [simp]: "\<not> pe_present 0"
  by (simp add: pe_present_def)

lemma pe_index_less: "unat (pe_index e) < 2 ^ 20"
  by (simp add: pe_index_def unsigned_drop_bit_eq drop_bit_eq_div unat_div_distrib
      less_mult_imp_div_less)


section \<open>Writing physical words\<close>

lemma write_phys_fields [simp]:
  "m_base (write_phys m f w v) = m_base m" "m_size (write_phys m f w v) = m_size m"
  "m_total_pages (write_phys m f w v) = m_total_pages m"
  "m_free_pages (write_phys m f w v) = m_free_pages m"
  "m_start_page (write_phys m f w v) = m_start_page m" "m_map (write_phys m f w v) = m_map m"
  "m_kernel_map (write_phys m f w v) = m_kernel_map m" "m_cr3 (write_phys m f w v) = m_cr3 m"
  "m_phys (write_phys m f w v) g x = (if g = f \<and> x = w then v else m_phys m g x)"
  by (simp_all add: write_phys_def)

lemma pdir_write [simp]: "pdir (write_phys m f w v) = pdir m"
  by (simp add: pdir_def)

lemma pde_at_write: "pde_at (write_phys m f w v) d = (if f = pdir m \<and> d = w then v else pde_at m d)"
  by (simp add: pde_at_def)

lemma pde_at_write_other [simp]: "f \<noteq> pdir m \<Longrightarrow> pde_at (write_phys m f w v) d = pde_at m d"
  by (simp add: pde_at_write)

lemma self_map_write [simp]: "f \<noteq> pdir m \<Longrightarrow> self_map (write_phys m f w v) = self_map m"
  by (simp add: self_map_def)

text \<open>Memories that differ in physical words only.\<close>

definition with_phys :: "mem_t \<Rightarrow> (u32 \<Rightarrow> u32 \<Rightarrow> u32) \<Rightarrow> mem_t" where
  "with_phys m ph = m\<lparr>m_phys := ph\<rparr>"

lemma with_phys_fields [simp]:
  "m_total_pages (with_phys m ph) = m_total_pages m" "m_free_pages (with_phys m ph) = m_free_pages m"
  "m_start_page (with_phys m ph) = m_start_page m" "m_map (with_phys m ph) = m_map m"
  "m_kernel_map (with_phys m ph) = m_kernel_map m" "m_cr3 (with_phys m ph) = m_cr3 m"
  "m_phys (with_phys m ph) = ph" "with_phys (with_phys m ph') ph = with_phys m ph"
  "with_phys m (m_phys m) = m" "pdir (with_phys m ph) = pdir m"
  by (simp_all add: with_phys_def pdir_def)

lemma write_phys_with: "write_phys m f w v = with_phys m ((m_phys m)(f := (m_phys m f)(w := v)))"
  by (simp add: write_phys_def with_phys_def)

lemma with_phys_write [simp]: "with_phys (write_phys m f w v) ph = with_phys m ph"
  by (simp add: write_phys_with)

lemma free_frames_phys [simp]: "free_frames (with_phys m ph) = free_frames m"
  by (simp add: free_frames_def)

lemma mem_wf_phys [simp]: "mem_wf (with_phys m ph) = mem_wf m"
  by (simp add: mem_wf_def)

definition zero_words :: "(u32 \<Rightarrow> u32 \<Rightarrow> u32) \<Rightarrow> u32 \<Rightarrow> nat \<Rightarrow> nat \<Rightarrow> u32 \<Rightarrow> u32 \<Rightarrow> u32" where
  "zero_words ph p k n = ph(p := \<lambda>w. if k \<le> unat w \<and> unat w < k + n then 0 else ph p w)"

definition copy_words :: "(u32 \<Rightarrow> u32 \<Rightarrow> u32) \<Rightarrow> u32 \<Rightarrow> u32 \<Rightarrow> nat \<Rightarrow> nat \<Rightarrow> u32 \<Rightarrow> u32 \<Rightarrow> u32" where
  "copy_words ph p q k n = ph(p := \<lambda>w. if k \<le> unat w \<and> unat w < k + n then ph q w else ph p w)"

lemma zero_words_0 [simp]: "zero_words ph p k 0 = ph"
  by (auto simp: zero_words_def fun_eq_iff)

lemma copy_words_0 [simp]: "copy_words ph p q k 0 = ph"
  by (auto simp: copy_words_def fun_eq_iff)

lemma u32_of_nat_eq: "k < 2 ^ 32 \<Longrightarrow> w = of_nat k \<longleftrightarrow> unat (w :: u32) = k"
  using u32_eq_of_nat [of k w] by simp

lemma entry_addr_Suc: "entry_addr a (of_nat k) + 4 = entry_addr a (of_nat (Suc k))"
  by (simp add: entry_addr_def algebra_simps)

lemma entry_addr_0 [simp]: "entry_addr a 0 = a"
  by (simp add: entry_addr_def)

lemma page_clear_table:
  assumes "self_map m" and "unat d < 1024" and "pe_present (pde_at m d)" and "pe_index (pde_at m d) \<noteq> pdir m"
    and "k + n \<le> 1024"
  shows "page_clear m (entry_addr (table_addr d) (of_nat k)) n
    = Inr (with_phys m (zero_words (m_phys m) (pe_index (pde_at m d)) k n))"
  using assms
proof (induction n arbitrary: m k)
  case (Suc n)
  let ?p = "pe_index (pde_at m d)" and ?w = "of_nat k :: u32"
  have k: "k < 1024" "unat ?w < 1024" using Suc.prems(5) by (simp_all add: unat_of_nat)
  let ?m = "write_phys m ?p ?w 0"
  have eq: "zero_words (m_phys ?m) ?p (Suc k) n = zero_words (m_phys m) ?p k (Suc n)"
    using k(1) by (auto simp: zero_words_def fun_eq_iff u32_of_nat_eq)
  have "page_clear ?m (entry_addr (table_addr d) (of_nat (Suc k))) n
    = Inr (with_phys ?m (zero_words (m_phys ?m) (pe_index (pde_at ?m d)) (Suc k) n))"
    using Suc.prems by (intro Suc.IH) simp_all
  then have "page_clear ?m (entry_addr (table_addr d) (of_nat (Suc k))) n
    = Inr (with_phys m (zero_words (m_phys m) ?p k (Suc n)))"
    unfolding pde_at_write_other [OF Suc.prems(4)] eq with_phys_write .
  then show ?case
    using Suc.prems k by (simp add: vwrite_slot entry_addr_Suc del: of_nat_Suc)
qed simp


lemma entry_addr_page:
  assumes "page_aligned a" and "k < 1024"
  shows "DIDX (entry_addr a (of_nat k)) = DIDX a" and "TIDX (entry_addr a (of_nat k)) = TIDX a"
    and "word_index (entry_addr a (of_nat k)) = of_nat k"
proof -
  have a: "unat a mod 4096 = 0" using assms(1) by (simp add: page_aligned_mod)
  have "4096 * (unat a div 4096) = unat a" using a by (metis mult_div_mod_eq add_0_right)
  moreover have "unat a div 4096 < 1048576" by (simp add: less_mult_imp_div_less)
  ultimately have lim: "unat a \<le> 4294963200" by linarith
  have "unat (4 * of_nat k :: u32) = 4 * k" using assms(2) by (simp add: unat_mult_small unat_of_nat)
  then have e: "unat (entry_addr a (of_nat k)) = 4 * k + unat a"
    using lim assms(2) by (simp add: entry_addr_def unat_add_small)
  obtain c where c: "unat a = 4096 * c" using a by auto
  have d4096: "(4 * k + unat a) div 4096 = c" "unat a div 4096 = c" using assms(2) by (simp_all add: c)
  have two: "x div 4194304 = x div 4096 div 1024" for x :: nat by (simp add: div_mult2_eq [symmetric])
  show "DIDX (entry_addr a (of_nat k)) = DIDX a" "TIDX (entry_addr a (of_nat k)) = TIDX a"
    by (simp_all add: word_unat_eq_iff unat_DIDX unat_TIDX e two d4096)
  have "(4 * k + unat a) div 4 mod 1024 = k" using assms(2) by (simp add: c)
  then show "word_index (entry_addr a (of_nat k)) = of_nat k"
    using assms(2) by (simp add: word_unat_eq_iff unat_word_index e unat_of_nat)
qed

lemma page_copy_frames:
  assumes "page_aligned dst" "page_aligned src" "translate m dst = Some p" "translate m src = Some q"
    and "p \<noteq> q" "p \<noteq> pdir m" "p \<noteq> pe_index (pde_at m (DIDX dst))" "p \<noteq> pe_index (pde_at m (DIDX src))"
    and "k + n \<le> 1024"
  shows "page_copy m (entry_addr dst (of_nat k)) (entry_addr src (of_nat k)) n
    = Inr (with_phys m (copy_words (m_phys m) p q k n))"
  using assms
proof (induction n arbitrary: m k)
  case (Suc n)
  let ?w = "of_nat k :: u32"
  have k: "k < 1024" using Suc.prems(9) by simp
  let ?m = "write_phys m p ?w (m_phys m q ?w)"
  have tr: "translate ?m a = translate m a" if "p \<noteq> pe_index (pde_at m (DIDX a))" for a
    using that Suc.prems(6) by (simp add: translate_parts pte_at_def)
  have tk: "translate m (entry_addr a ?w) = translate m a" if "page_aligned a" for a
    using entry_addr_page [OF that k] by (simp add: translate_parts)
  have eq: "copy_words (m_phys ?m) p q (Suc k) n = copy_words (m_phys m) p q k (Suc n)"
    using k Suc.prems(5) by (auto simp: copy_words_def fun_eq_iff u32_of_nat_eq)
  have "page_copy ?m (entry_addr dst (of_nat (Suc k))) (entry_addr src (of_nat (Suc k))) n
    = Inr (with_phys ?m (copy_words (m_phys ?m) p q (Suc k) n))"
    using Suc.prems by (intro Suc.IH) (simp_all add: tr)
  then have "page_copy ?m (entry_addr dst (of_nat (Suc k))) (entry_addr src (of_nat (Suc k))) n
    = Inr (with_phys m (copy_words (m_phys m) p q k (Suc n)))"
    unfolding eq with_phys_write .
  moreover have "vread m (entry_addr src ?w) = Inr (m_phys m q ?w)"
    using Suc.prems entry_addr_page [OF Suc.prems(2) k] by (simp add: vread_def tk)
  moreover have "vwrite m (entry_addr dst ?w) v = Inr (write_phys m p ?w v)" for v
    using Suc.prems entry_addr_page [OF Suc.prems(1) k] by (simp add: vwrite_def tk)
  ultimately show ?case by (simp add: entry_addr_Suc del: of_nat_Suc)
qed simp


section \<open>Well-formed address spaces\<close>

definition user_dir :: "u32 \<Rightarrow> bool" where
  "user_dir d \<longleftrightarrow> 4 \<le> unat d \<and> unat d < 1023"

text \<open>The frames of the directory and of the page tables.\<close>

definition table_frames :: "mem_t \<Rightarrow> u32 set" where
  "table_frames m = {pe_index (pde_at m d) | d. unat d < 1024 \<and> pe_present (pde_at m d)}"

definition mapped_entry :: "mem_t \<Rightarrow> u32 \<Rightarrow> u32 \<Rightarrow> bool" where
  "mapped_entry m d t \<longleftrightarrow> unat d < 1024 \<and> unat t < 1024 \<and> pe_present (pde_at m d) \<and> pe_present (pte_at m d t)"

text \<open>A frame that a page of user memory may show: it is counted, above the kernel, and no table.\<close>

definition user_frame :: "mem_t \<Rightarrow> u32 \<Rightarrow> bool" where
  "user_frame m f \<longleftrightarrow> 4096 \<le> unat f \<and> unat f < unat (m_total_pages m) \<and> m_map m ! unat f \<noteq> 0
     \<and> f \<notin> table_frames m"

definition as_wf :: "mem_t \<Rightarrow> bool" where
  "as_wf m \<longleftrightarrow> mem_wf m \<and> self_map m
     \<and> (\<forall>d e. unat d < 1024 \<longrightarrow> unat e < 1024 \<longrightarrow> pe_present (pde_at m d) \<longrightarrow> pe_present (pde_at m e)
          \<longrightarrow> pe_index (pde_at m d) = pe_index (pde_at m e) \<longrightarrow> d = e)
     \<and> (\<forall>f\<in>table_frames m. unat f < unat (m_total_pages m) \<and> m_map m ! unat f \<noteq> 0)
     \<and> (\<forall>d t. user_dir d \<longrightarrow> mapped_entry m d t \<longrightarrow> user_frame m (pe_index (pte_at m d t)))
     \<and> pe_present (pde_at m 0) \<and> \<not> pe_present (pte_at m 0 0)"

lemma as_wfD:
  assumes "as_wf m"
  shows "mem_wf m" and "self_map m" and "pe_present (pde_at m 0)" and "\<not> pe_present (pte_at m 0 0)"
    and "\<And>d e. unat d < 1024 \<Longrightarrow> unat e < 1024 \<Longrightarrow> pe_present (pde_at m d) \<Longrightarrow> pe_present (pde_at m e)
          \<Longrightarrow> pe_index (pde_at m d) = pe_index (pde_at m e) \<Longrightarrow> d = e"
    and "\<And>f. f \<in> table_frames m \<Longrightarrow> unat f < unat (m_total_pages m) \<and> m_map m ! unat f \<noteq> 0"
    and "\<And>d t. user_dir d \<Longrightarrow> mapped_entry m d t \<Longrightarrow> user_frame m (pe_index (pte_at m d t))"
  using assms unfolding as_wf_def by blast+

lemma user_dir_less: "user_dir d \<Longrightarrow> unat d < 1024" "user_dir d \<Longrightarrow> d \<noteq> 1023" "user_dir d \<Longrightarrow> d \<noteq> 0"
  by (auto simp: user_dir_def)

lemma table_framesI: "unat d < 1024 \<Longrightarrow> pe_present (pde_at m d) \<Longrightarrow> pe_index (pde_at m d) \<in> table_frames m"
  by (auto simp: table_frames_def)

lemma pdir_table: "self_map m \<Longrightarrow> pdir m \<in> table_frames m"
  unfolding self_map_def using table_framesI [of 1023 m] by simp

lemma as_wf_table_not_pdir:
  assumes "as_wf m" and "user_dir d \<or> d = 0" and "pe_present (pde_at m d)"
  shows "pe_index (pde_at m d) \<noteq> pdir m"
proof
  assume "pe_index (pde_at m d) = pdir m"
  then have "pe_index (pde_at m d) = pe_index (pde_at m 1023)" "pe_present (pde_at m 1023)"
    using as_wfD(2) [OF assms(1)] by (simp_all add: self_map_def)
  from as_wfD(5) [OF assms(1) _ _ assms(3) this(2,1)] assms(2) show False
    by (auto simp: user_dir_def)
qed

text \<open>The walk looks only at physical words and the page directory register.\<close>

lemma walk_same [simp]:
  "pdir (m\<lparr>m_map := mm\<rparr>) = pdir m" "pdir (m\<lparr>m_free_pages := n\<rparr>) = pdir m"
  "pde_at (m\<lparr>m_map := mm\<rparr>) = pde_at m" "pde_at (m\<lparr>m_free_pages := n\<rparr>) = pde_at m"
  "pte_at (m\<lparr>m_map := mm\<rparr>) = pte_at m" "pte_at (m\<lparr>m_free_pages := n\<rparr>) = pte_at m"
  "self_map (m\<lparr>m_map := mm\<rparr>) = self_map m" "self_map (m\<lparr>m_free_pages := n\<rparr>) = self_map m"
  "table_frames (m\<lparr>m_map := mm\<rparr>) = table_frames m" "table_frames (m\<lparr>m_free_pages := n\<rparr>) = table_frames m"
  "mapped_entry (m\<lparr>m_map := mm\<rparr>) = mapped_entry m" "mapped_entry (m\<lparr>m_free_pages := n\<rparr>) = mapped_entry m"
  "translate (m\<lparr>m_map := mm\<rparr>) = translate m" "translate (m\<lparr>m_free_pages := n\<rparr>) = translate m"
  by (simp_all add: fun_eq_iff pdir_def pde_at_def pte_at_def self_map_def table_frames_def mapped_entry_def
      translate_def Let_def)

text \<open>A frame fresh from \<open>get_page\<close> is none of the tables.\<close>

lemma fresh_frame:
  assumes "as_wf m" and "get_page m = Inr (m', page)"
  obtains f where "page = PAGE f" and "IDX page = f" and "unat f \<in> free_frames m" and "f \<notin> table_frames m"
    and "f \<noteq> pdir m" and "unat f < 2 ^ 20" and "4096 \<le> unat f" and "unat f < unat (m_total_pages m)"
    and "m' = m\<lparr>m_map := (m_map m)[unat f := 1], m_free_pages := m_free_pages m - 1\<rparr>"
    and "as_wf m'" and "free_frames m' = free_frames m - {unat f}" and "m_map m' ! unat f = 1"
    and "\<forall>g. user_frame m g \<longrightarrow> user_frame m' g \<and> g \<noteq> f"
proof -
  note wf = as_wfD [OF assms(1)]
  obtain i where i: "i \<in> free_frames m" "page = PAGE (of_nat i)" "mem_wf m'" "unat (IDX page) = i"
    "m' = m\<lparr>m_map := (m_map m)[i := 1], m_free_pages := m_free_pages m - 1\<rparr>" "free_frames m' = free_frames m - {i}"
    using get_page_wf [OF wf(1) assms(2)] by metis
  have r: "4096 \<le> i" "i < unat (m_total_pages m)" "i < 2 ^ 20" "i < length (m_map m)" "m_map m ! i = 0"
    using free_frames_range [OF wf(1) i(1)] wf(1) i(1) by (auto simp: mem_wf_def free_frames_def)
  define f where "f = (of_nat i :: u32)"
  have u: "unat f = i" using r(3) by (simp add: f_def)
  have nt: "f \<notin> table_frames m" using wf(6) [of f] r(5) u by auto
  have idx: "IDX page = f" using i(4) u by (simp add: word_unat_eq_iff)
  have keep: "\<forall>g. user_frame m g \<longrightarrow> user_frame m' g \<and> g \<noteq> f"
    using r u by (auto simp: user_frame_def i(5) nth_list_update)
  have "as_wf m'"
    unfolding as_wf_def
    using wf i(3) keep r by (auto simp: i(5) nth_list_update)
  moreover have "f \<noteq> pdir m" using pdir_table [OF wf(2)] nt by auto
  ultimately show thesis
    using i r u nt idx keep by (intro that [of f]) (auto simp: f_def)
qed


text \<open>Storing an entry in the page table of a user directory entry.\<close>

lemma pte_at_set:
  assumes "as_wf m" and "user_dir d \<or> d = 0" and "pe_present (pde_at m d)"
  defines "p \<equiv> pe_index (pde_at m d)"
  shows "pde_at (write_phys m p t v) = pde_at m"
    and "self_map (write_phys m p t v)" and "table_frames (write_phys m p t v) = table_frames m"
    and "unat e < 1024 \<Longrightarrow> pe_present (pde_at m e) \<Longrightarrow>
      pte_at (write_phys m p t v) e u = (if e = d \<and> u = t then v else pte_at m e u)"
proof -
  have np: "p \<noteq> pdir m" unfolding p_def by (rule as_wf_table_not_pdir [OF assms(1-3)])
  show pde: "pde_at (write_phys m p t v) = pde_at m" using np by (simp add: fun_eq_iff)
  show "self_map (write_phys m p t v)" using np as_wfD(2) [OF assms(1)] by simp
  show "table_frames (write_phys m p t v) = table_frames m" by (simp add: table_frames_def pde)
  assume e: "unat e < 1024" "pe_present (pde_at m e)"
  have "unat d < 1024" using assms(2) by (auto simp: user_dir_def)
  then have "pe_index (pde_at m e) = p \<longleftrightarrow> e = d"
    unfolding p_def using as_wfD(5) [OF assms(1) e(1) _ e(2) assms(3)] by auto
  then show "pte_at (write_phys m p t v) e u = (if e = d \<and> u = t then v else pte_at m e u)"
    by (simp add: pte_at_def pde)
qed

lemma set_pte_wf:
  assumes wf: "as_wf m" and d: "user_dir d" "pe_present (pde_at m d)" and t: "unat t < 1024"
    and v: "pe_present v \<Longrightarrow> user_frame m (pe_index v)"
  shows "as_wf (write_phys m (pe_index (pde_at m d)) t v)"
proof -
  let ?m = "write_phys m (pe_index (pde_at m d)) t v"
  note set = pte_at_set [OF wf disjI1 [OF d(1)] d(2), where t = t and v = v]
  note w = as_wfD [OF wf]
  have "mem_wf ?m" using w(1) by (simp add: write_phys_with)
  moreover have "user_frame ?m (pe_index (pte_at ?m e u))" if "user_dir e" "mapped_entry ?m e u" for e u
    using that w(7) [of e u] v set(4) [of e u]
    by (auto simp: user_frame_def set(1,3) mapped_entry_def split: if_splits)
  moreover have "pte_at ?m 0 0 = pte_at m 0 0"
    using set(4) [of 0 0] w(3) d(1) by (auto simp: user_dir_def)
  ultimately show ?thesis unfolding as_wf_def using w by (simp add: set(1-3))
qed

text \<open>What a walk for a user or kernel address outside the recursive region sees.\<close>

lemma translate_set_pte:
  assumes "as_wf m" and "user_dir d" and "pe_present (pde_at m d)"
  shows "translate (write_phys m (pe_index (pde_at m d)) t v) a =
    (if DIDX a = d \<and> TIDX a = t then (if pe_present v then Some (pe_index v) else None) else translate m a)"
  using pte_at_set [OF assms(1) disjI1 [OF assms(2)] assms(3), where t = t and v = v] assms(3) unat_DIDX_less [of a]
  by (auto simp: translate_parts)

text \<open>Installing a new page table.\<close>

lemma new_table:
  assumes wf: "as_wf m" and d: "user_dir d" "\<not> pe_present (pde_at m d)"
    and get: "get_page m = Inr (m1, page)"
  defines "p \<equiv> IDX page"
  defines "m2 \<equiv> with_phys m1 (zero_words (m_phys (write_phys m1 (pdir m) d (entry_init p))) p 0 1024)"
  shows "get_pte m v c = (if DIDX v = d then if c then Inr (m2, table_addr d) else Inl Assert_Failed else get_pte m v c)"
    and "as_wf m2" and "pde_at m2 e = (if e = d then entry_init p else pde_at m e)"
    and "unat t < 1024 \<Longrightarrow> pte_at m2 d t = 0"
    and "e \<noteq> d \<Longrightarrow> e \<noteq> 1023 \<Longrightarrow> unat e < 1024 \<Longrightarrow> pe_present (pde_at m e) \<Longrightarrow> pte_at m2 e t = pte_at m e t"
    and "free_frames m2 = free_frames m - {unat p}" and "unat p \<in> free_frames m"
    and "m_map m2 = (m_map m)[unat p := 1]"
    and "f \<noteq> pdir m \<Longrightarrow> f \<noteq> p \<Longrightarrow> m_phys m2 f = m_phys m f"
    and "table_frames m2 = insert p (table_frames m)"
    and "\<And>g. user_frame m g \<Longrightarrow> user_frame m2 g \<and> g \<noteq> p"
proof -
  note w = as_wfD [OF wf]
  obtain f where f: "page = PAGE f" "IDX page = f" "unat f \<in> free_frames m" "f \<notin> table_frames m"
    "f \<noteq> pdir m" "unat f < 2 ^ 20" "4096 \<le> unat f" "unat f < unat (m_total_pages m)"
    "m1 = m\<lparr>m_map := (m_map m)[unat f := 1], m_free_pages := m_free_pages m - 1\<rparr>"
    "as_wf m1" "free_frames m1 = free_frames m - {unat f}" "m_map m1 ! unat f = 1"
    "\<forall>g. user_frame m g \<longrightarrow> user_frame m1 g \<and> g \<noteq> f"
    using fresh_frame [OF wf get] .
  have p: "p = f" by (simp add: p_def f(2))
  note ent = entry_init_fields [OF f(6), folded p]
  have d1024: "unat d < 1024" "d \<noteq> 1023" using user_dir_less [OF d(1)] by simp_all
  have phys1: "m_phys m1 = m_phys m" "pdir m1 = pdir m" "pde_at m1 = pde_at m" "pte_at m1 = pte_at m"
    by (simp_all add: f(9))
  let ?w = "write_phys m1 (pdir m) d (entry_init p)"
  have pde_w: "pde_at ?w e = (if e = d then entry_init p else pde_at m e)" for e
    by (simp add: pde_at_write phys1)
  show pde2: "pde_at m2 e = (if e = d then entry_init p else pde_at m e)" for e
    using f(5) by (simp add: m2_def pde_at_def phys1 zero_words_def p)
  have self_w: "self_map ?w" using w(2) d1024(2) by (simp add: self_map_def pde_w phys1)
  have self_2: "self_map m2"
    using w(2) d1024(2) by (simp add: self_map_def pde2) (simp add: m2_def phys1)
  show ph: "g \<noteq> pdir m \<Longrightarrow> g \<noteq> p \<Longrightarrow> m_phys m2 g = m_phys m g" for g
    by (simp add: m2_def zero_words_def fun_eq_iff phys1)
  show pte_d: "unat t < 1024 \<Longrightarrow> pte_at m2 d t = 0" for t
    by (simp add: pte_at_def pde2 ent) (simp add: m2_def zero_words_def)
  show pte_e: "e \<noteq> d \<Longrightarrow> e \<noteq> 1023 \<Longrightarrow> unat e < 1024 \<Longrightarrow> pe_present (pde_at m e) \<Longrightarrow>
      pte_at m2 e t = pte_at m e t" for e t
  proof -
    assume e: "e \<noteq> d" "e \<noteq> 1023" "unat e < 1024" "pe_present (pde_at m e)"
    have "pe_index (pde_at m e) \<noteq> p" using table_framesI [OF e(3,4)] f(4) p by auto
    moreover have "pe_index (pde_at m e) \<noteq> pdir m"
      using w(5) [of e 1023] e w(2) by (auto simp: self_map_def)
    ultimately show "pte_at m2 e t = pte_at m e t" using e by (simp add: pte_at_def pde2 ph)
  qed
  show "free_frames m2 = free_frames m - {unat p}" by (simp add: m2_def f(11) p)
  show "unat p \<in> free_frames m" by (simp add: p f(3))
  show "m_map m2 = (m_map m)[unat p := 1]" by (simp add: m2_def f(9) p)
  show tf: "table_frames m2 = insert p (table_frames m)"
    using d1024 d(2) ent p by (auto simp: table_frames_def pde2 split: if_splits)
  have len: "unat f < length (m_map m)" using f(8) w(1) by (simp add: mem_wf_def)
  show keep: "user_frame m g \<Longrightarrow> user_frame m2 g \<and> g \<noteq> p" for g
    using spec [OF f(13), of g] len by (auto simp: user_frame_def tf p) (auto simp: m2_def f(9))
  have "get_pte m v c = (if c then Inr (m2, table_addr d) else Inl Assert_Failed)" if v: "DIDX v = d"
  proof -
    have "page_clear ?w (entry_addr (table_addr d) (of_nat 0)) 1024
        = Inr (with_phys ?w (zero_words (m_phys ?w) (pe_index (pde_at ?w d)) 0 1024))"
      using ent f(5) [folded p] by (intro page_clear_table) (simp_all add: self_w d1024 pde_w phys1)
    then have clear: "page_clear ?w (table_addr d) 1024 = Inr m2"
      using ent by (simp add: pde_w m2_def)
    have "vwrite m1 (entry_addr get_pde d) (entry_init p) = Inr ?w"
      using vwrite_pde [of m1 d] as_wfD(2) [OF f(10)] d1024 by (simp add: phys1)
    moreover have "vread m (entry_addr get_pde d) = Inr (pde_at m d)"
      using vread_pde [OF w(2) d1024(1)] .
    ultimately show ?thesis
      using d(2) get clear by (simp add: get_pte_def v Let_def p_def [symmetric])
  qed
  then show "get_pte m v c = (if DIDX v = d then if c then Inr (m2, table_addr d) else Inl Assert_Failed else get_pte m v c)"
    by simp
  have inj: "x = y" if "unat x < 1024" "unat y < 1024" "pe_present (pde_at m2 x)" "pe_present (pde_at m2 y)"
    "pe_index (pde_at m2 x) = pe_index (pde_at m2 y)" for x y
  proof -
    have "pe_index (pde_at m z) \<noteq> p" if "unat z < 1024" "pe_present (pde_at m z)" for z
      using table_framesI [OF that] f(4) p by auto
    with that w(5) [of x y] ent p show ?thesis by (auto simp: pde2 split: if_splits)
  qed
  have mapped: "user_frame m2 (pe_index (pte_at m2 e t))" if e: "user_dir e" "mapped_entry m2 e t" for e t
  proof (cases "e = d")
    case True
    with e pte_d [of t] have "pe_present 0" by (auto simp: mapped_entry_def)
    then show ?thesis by (simp add: pe_present_def)
  next
    case False
    then have "pte_at m2 e t = pte_at m e t" "mapped_entry m e t"
      using e pte_e [OF False, of t] user_dir_less [OF e(1)] by (auto simp: mapped_entry_def pde2)
    with keep w(7) [OF e(1)] show ?thesis by auto
  qed
  have "mem_wf m2" using as_wfD(1) [OF f(10)] by (simp add: m2_def)
  moreover have "\<forall>g\<in>table_frames m2. unat g < unat (m_total_pages m2) \<and> m_map m2 ! unat g \<noteq> 0"
    unfolding tf using w(6) f(8) len by (auto simp: m2_def f(9) nth_list_update p)
  moreover have "pe_present (pde_at m2 0)" "\<not> pe_present (pte_at m2 0 0)"
    using w(3,4) user_dir_less(3) [OF d(1)] pte_e [of 0 0] by (auto simp: pde2)
  ultimately show "as_wf m2" unfolding as_wf_def using self_2 inj mapped by blast
qed


section \<open>Mapping and unmapping a page\<close>

lemma get_pte_present:
  assumes "self_map m" and "pe_present (pde_at m (DIDX v))"
  shows "get_pte m v c = Inr (m, table_addr (DIDX v))"
  using assms vread_pde [OF assms(1) unat_DIDX_less] by (simp add: get_pte_def Let_def)

lemma get_pte_absent_no_create:
  assumes "self_map m" and "\<not> pe_present (pde_at m (DIDX v))"
  shows "get_pte m v False = Inl Assert_Failed"
  using assms vread_pde [OF assms(1) unat_DIDX_less] by (simp add: get_pte_def Let_def)

lemma get_page_same:
  assumes "get_page m = Inr (m1, page)"
  obtains mm n where "m1 = m\<lparr>m_map := mm, m_free_pages := n\<rparr>"
  using assms by (auto simp: get_page_def bindr_Inr_iff split: option.splits)

lemma link_present:
  assumes wf: "as_wf m" and v: "page_aligned v" and d: "pe_present (pde_at m (DIDX v))"
  shows "link_page m v = (if pe_present (pte_at m (DIDX v) (TIDX v)) then Inr m
    else bindr (get_page m) (\<lambda>(m1, paddr).
      Inr (write_phys m1 (pe_index (pde_at m (DIDX v))) (TIDX v) (entry_init (IDX paddr)))))"
proof -
  note w = as_wfD [OF wf]
  let ?slot = "entry_addr (table_addr (DIDX v)) (TIDX v)"
  have entry: "get_entry m v True = Inr (m, ?slot)"
    using get_pte_present [OF w(2) d] by (simp add: get_entry_def)
  have read: "vread m ?slot = Inr (pte_at m (DIDX v) (TIDX v))"
    using vread_slot [OF w(2) unat_DIDX_less unat_TIDX_less] d by simp
  have "vwrite m1 ?slot (entry_init (IDX paddr)) = Inr (write_phys m1 (pe_index (pde_at m (DIDX v))) (TIDX v) (entry_init (IDX paddr)))"
    if g: "get_page m = Inr (m1, paddr)" for m1 paddr
  proof -
    obtain mm n where "m1 = m\<lparr>m_map := mm, m_free_pages := n\<rparr>" using get_page_same [OF g] .
    then have "self_map m1" "pde_at m1 = pde_at m" using w(2) by simp_all
    then show ?thesis using vwrite_slot [of m1] unat_DIDX_less unat_TIDX_less d by simp
  qed
  then show ?thesis using v
    by (auto simp: link_page_def entry read bindr_def split: sum.split)
qed

text \<open>The effect of \<open>link_page\<close> on an unmapped page: the result \<open>m'\<close> with the new frame \<open>f\<close>.\<close>

definition linked_page :: "mem_t \<Rightarrow> u32 \<Rightarrow> u32 \<Rightarrow> mem_t \<Rightarrow> bool" where
  "linked_page m v f m' \<longleftrightarrow> as_wf m' \<and> unat f \<in> free_frames m \<and> unat f \<notin> free_frames m'
     \<and> free_frames m' \<subseteq> free_frames m \<and> table_frames m \<subseteq> table_frames m'
     \<and> m_map m' ! unat f = 1 \<and> pte_at m' (DIDX v) (TIDX v) = entry_init f
     \<and> (\<forall>a. DIDX a \<noteq> 1023 \<longrightarrow> translate m' a = (if DIDX a = DIDX v \<and> TIDX a = TIDX v then Some f else translate m a))
     \<and> (\<forall>g. g \<notin> table_frames m' \<longrightarrow> m_phys m' g = m_phys m g)
     \<and> (\<forall>i. i \<notin> free_frames m \<longrightarrow> m_map m' ! i = m_map m ! i)"

lemma link_new_entry:
  assumes wf: "as_wf m" and d: "user_dir (DIDX v)" "pe_present (pde_at m (DIDX v))"
    and get: "get_page m = Inr (m1, paddr)"
  shows "\<exists>f. linked_page m v f (write_phys m1 (pe_index (pde_at m (DIDX v))) (TIDX v) (entry_init (IDX paddr)))"
proof -
  let ?d = "DIDX v" and ?t = "TIDX v"
  obtain f where f: "paddr = PAGE f" "IDX paddr = f" "unat f \<in> free_frames m" "f \<notin> table_frames m"
    "f \<noteq> pdir m" "unat f < 2 ^ 20" "4096 \<le> unat f" "unat f < unat (m_total_pages m)"
    "m1 = m\<lparr>m_map := (m_map m)[unat f := 1], m_free_pages := m_free_pages m - 1\<rparr>"
    "as_wf m1" "free_frames m1 = free_frames m - {unat f}" "m_map m1 ! unat f = 1"
    "\<forall>g. user_frame m g \<longrightarrow> user_frame m1 g \<and> g \<noteq> f"
    using fresh_frame [OF wf get] .
  have same: "pde_at m1 = pde_at m" "pte_at m1 = pte_at m" "table_frames m1 = table_frames m"
    "translate m1 = translate m" "m_phys m1 = m_phys m" by (simp_all add: f(9))
  let ?m = "write_phys m1 (pe_index (pde_at m ?d)) ?t (entry_init f)"
  note ent = entry_init_fields [OF f(6)]
  have d1: "pe_present (pde_at m1 ?d)" using d(2) by (simp add: same)
  have "user_frame m1 f" using f(4,7,8,12) by (simp add: user_frame_def same f(9))
  then have wf': "as_wf ?m"
    using set_pte_wf [OF f(10) d(1) d1 unat_TIDX_less, of "entry_init f"] by (simp add: ent same)
  note set = pte_at_set [OF f(10) disjI1 [OF d(1)] d1, where t = ?t and v = "entry_init f", unfolded same]
  have "pte_at ?m ?d ?t = entry_init f" using set(4) [of ?d ?t] d unat_DIDX_less by simp
  moreover have "translate ?m a = (if DIDX a = ?d \<and> TIDX a = ?t then Some f else translate m a)" for a
    using translate_set_pte [OF f(10) d(1) d1, of ?t "entry_init f" a] by (simp add: ent same)
  moreover have "m_phys ?m g = m_phys m g" if "g \<notin> table_frames ?m" for g
    using that table_framesI [OF unat_DIDX_less d(2)] by (auto simp: set(3) fun_eq_iff same)
  moreover have "free_frames ?m = free_frames m - {unat f}" by (simp add: write_phys_with f(11))
  moreover have "m_map ?m ! i = m_map m ! i" if "i \<notin> free_frames m" for i
    using that f(3) by (cases "i = unat f") (simp_all add: f(9))
  ultimately have "linked_page m v f ?m" using f(3,12) wf' set(3) unfolding linked_page_def by auto
  then show ?thesis using f(2) by (auto simp: same)
qed

text \<open>The frames \<open>link_page\<close> takes for an unmapped page: one, and one for the table when there is none.\<close>

definition frames_needed :: "mem_t \<Rightarrow> u32 \<Rightarrow> nat" where
  "frames_needed m v = (if pe_present (pde_at m (DIDX v)) then 1 else 2)"

lemma link_page_unmapped:
  assumes wf: "as_wf m" and v: "page_aligned v" and d: "user_dir (DIDX v)" and tr: "translate m v = None"
  shows "if card (free_frames m) < frames_needed m v then link_page m v = Inl Kernel_Panic
    else \<exists>m' f. link_page m v = Inr m' \<and> linked_page m v f m'"
proof (cases "pe_present (pde_at m (DIDX v))")
  case True
  then have np: "\<not> pe_present (pte_at m (DIDX v) (TIDX v))" using tr by (auto simp: translate_parts)
  show ?thesis
  proof (cases "get_page m")
    case (Inl e)
    then have "e = Kernel_Panic" "free_frames m = {}" using get_page_fails [OF as_wfD(1) [OF wf]] by auto
    then show ?thesis using Inl np link_present [OF wf v True] by (simp add: frames_needed_def)
  next
    case (Inr r)
    then obtain m1 paddr where get: "get_page m = Inr (m1, paddr)" by (cases r) auto
    from get have "free_frames m \<noteq> {}" using get_page_cases [OF as_wfD(1) [OF wf]] by auto
    then have few: "(card (free_frames m) < frames_needed m v) = False" using True by (auto simp: frames_needed_def)
    show ?thesis unfolding few using get link_new_entry [OF wf d True get] np link_present [OF wf v True] by auto
  qed
next
  case False
  show ?thesis
  proof (cases "get_page m")
    case (Inl e)
    then have "e = Kernel_Panic" "free_frames m = {}" using get_page_fails [OF as_wfD(1) [OF wf]] by auto
    moreover have "get_pte m v True = Inl e"
      using vread_pde [OF as_wfD(2) [OF wf] unat_DIDX_less] False Inl by (simp add: get_pte_def Let_def)
    ultimately show ?thesis using v False by (simp add: link_page_def get_entry_def frames_needed_def)
  next
    case (Inr r)
    then obtain m1 page where get: "get_page m = Inr (m1, page)" by (cases r) auto
    define p where "p = IDX page"
    define m2 where "m2 = with_phys m1 (zero_words (m_phys (write_phys m1 (pdir m) (DIDX v) (entry_init p))) p 0 1024)"
    note new = new_table [OF wf d False get, folded p_def, folded m2_def]
    have p20: "unat p < 2 ^ 20"
      using free_frames_range [OF as_wfD(1) [OF wf] new(7)] as_wfD(1) [OF wf] by (simp add: mem_wf_def)
    have d2: "pe_present (pde_at m2 (DIDX v))" by (simp add: new(3) entry_init_fields [OF p20])
    have z: "\<not> pe_present (pte_at m2 (DIDX v) (TIDX v))"
      using new(4) [OF unat_TIDX_less] by (simp add: pe_present_def)
    have "link_page m v = link_page m2 v"
      using new(1) [of v True] get_pte_present [OF as_wfD(2) [OF new(2)] d2, of True] v
      by (simp add: link_page_def get_entry_def)
    moreover have few: "card (free_frames m) < frames_needed m v \<longleftrightarrow> free_frames m2 = {}"
    proof -
      have "card (free_frames m) = Suc (card (free_frames m2))"
        unfolding new(6) using card_Suc_Diff1 [OF finite_free_frames new(7)] by simp
      then show ?thesis using False by (simp add: frames_needed_def)
    qed
    moreover have "if free_frames m2 = {} then link_page m2 v = Inl Kernel_Panic
      else \<exists>m' f. link_page m2 v = Inr m' \<and> linked_page m2 v f m'"
    proof (cases "get_page m2")
      case (Inl e)
      then have "e = Kernel_Panic" "free_frames m2 = {}" using get_page_fails [OF as_wfD(1) [OF new(2)]] by auto
      then show ?thesis using Inl z link_present [OF new(2) v d2] by simp
    next
      case (Inr r2)
      then obtain m3 paddr where get: "get_page m2 = Inr (m3, paddr)" by (cases r2) auto
      from get have "free_frames m2 \<noteq> {}" using get_page_cases [OF as_wfD(1) [OF new(2)]] by auto
      with get link_new_entry [OF new(2) d d2 get] z link_present [OF new(2) v d2] show ?thesis by auto
    qed
    moreover have "linked_page m v f m'" if l: "linked_page m2 v f m'" for f m'
    proof -
      have tr2: "translate m2 a = (if DIDX a = DIDX v then None else translate m a)" if "DIDX a \<noteq> 1023" for a
      proof (cases "DIDX a = DIDX v")
        case True
        then show ?thesis using new(4) [OF unat_TIDX_less [of a]] by (simp add: translate_parts)
      next
        case False
        then show ?thesis using new(3) [of "DIDX a"] new(5) [OF False that unat_DIDX_less]
          by (cases "pe_present (pde_at m (DIDX a))") (simp_all add: translate_parts)
      qed
      have tr0: "DIDX a = DIDX v \<Longrightarrow> translate m a = None" for a using False by (simp add: translate_parts)
      have tabs: "p \<in> table_frames m'" "pdir m \<in> table_frames m'" "table_frames m \<subseteq> table_frames m'"
        using l new(10) pdir_table [OF as_wfD(2) [OF wf]] by (auto simp: linked_page_def)
      have maps: "m_map m2 ! i = m_map m ! i" if "i \<notin> free_frames m" for i
        using that new(7) by (cases "i = unat p") (simp_all add: new(8))
      have data: "m_phys m2 g = m_phys m g" if "g \<notin> table_frames m'" for g
        using that tabs(1,2) new(9) [of g] by auto
      show ?thesis
        using l new(6) data tabs maps tr2 tr0 unfolding linked_page_def by auto
    qed
    ultimately show ?thesis by (auto split: if_splits)
  qed
qed


text \<open>\<open>unlink_page\<close>: nothing happens to an unmapped page; a mapped one disappears and its
  frame loses one reference.\<close>

lemma unlink_page_unmapped:
  assumes wf: "as_wf m" and v: "page_aligned v" and tr: "translate m v = None"
  shows "unlink_page m v = Inr m"
proof -
  note w = as_wfD [OF wf]
  note rd = vread_pde [OF w(2) unat_DIDX_less [of v]]
  show ?thesis
  proof (cases "pe_present (pde_at m (DIDX v))")
    case True
    then have "\<not> pe_present (pte_at m (DIDX v) (TIDX v))" using tr by (auto simp: translate_parts)
    with True v rd vread_slot [OF w(2) unat_DIDX_less unat_TIDX_less, of v v]
      get_pte_present [OF w(2) True]
    show ?thesis by (simp add: unlink_page_def get_entry_def)
  qed (use v rd in \<open>simp add: unlink_page_def\<close>)
qed

definition unlinked_page :: "mem_t \<Rightarrow> u32 \<Rightarrow> u32 \<Rightarrow> mem_t \<Rightarrow> bool" where
  "unlinked_page m v f m' \<longleftrightarrow> mem_wf m'
     \<and> (\<forall>a. DIDX a \<noteq> 1023 \<longrightarrow> translate m' a = (if DIDX a = DIDX v \<and> TIDX a = TIDX v then None else translate m a))
     \<and> frame_used m' (unat f) = frame_used m (unat f) - 1
     \<and> (\<forall>i. i \<noteq> unat f \<longrightarrow> frame_used m' i = frame_used m i)
     \<and> free_frames m' = (if frame_used m (unat f) = 1 then insert (unat f) (free_frames m) else free_frames m)
     \<and> (\<forall>g. g \<notin> table_frames m \<longrightarrow> m_phys m' g = m_phys m g)"

lemma unlink_page_mapped:
  assumes wf: "as_wf m" and v: "page_aligned v" and d: "user_dir (DIDX v)" and tr: "translate m v = Some f"
  shows "\<exists>m'. unlink_page m v = Inr m' \<and> unlinked_page m v f m'"
proof -
  note w = as_wfD [OF wf]
  let ?d = "DIDX v" and ?t = "TIDX v" and ?e = "pte_at m (DIDX v) (TIDX v)"
  have p: "pe_present (pde_at m ?d)" "pe_present ?e" "pe_index ?e = f"
    using tr by (auto simp: translate_parts split: if_splits)
  then have uf: "user_frame m f"
    using w(7) [OF d, of ?t] unat_DIDX_less unat_TIDX_less by (auto simp: mapped_entry_def)
  let ?m = "write_phys m (pe_index (pde_at m ?d)) ?t (unset_bit 0 ?e)"
  let ?slot = "entry_addr (table_addr ?d) ?t"
  have wr: "vwrite m ?slot (unset_bit 0 ?e) = Inr ?m"
    using vwrite_slot [OF w(2) unat_DIDX_less unat_TIDX_less] p by simp
  have rd: "vread m ?slot = Inr ?e"
    using vread_slot [OF w(2) unat_DIDX_less unat_TIDX_less] p by simp
  have wf1: "mem_wf ?m" using w(1) by (simp add: write_phys_with)
  have fr: "4096 \<le> unat f" "unat f < unat (m_total_pages ?m)" "m_map ?m ! unat f \<noteq> 0"
    using uf by (simp_all add: user_frame_def)
  have fl: "unat f < length (m_map m)" using uf w(1) by (simp add: user_frame_def mem_wf_def)
  define c where "c = m_map m ! unat f - 1"
  define m' where "m' = ?m\<lparr>m_map := (m_map ?m)[unat f := c],
      m_free_pages := (if m_map m ! unat f = 1 then m_free_pages ?m + 1 else m_free_pages ?m)\<rparr>"
  have addr: "PAGE (pe_index ?e) = PAGE (of_nat (unat f))" by (simp add: p(3))
  note put = put_page_wf [OF wf1 fr addr, simplified, folded c_def]
  have "unlink_page m v = Inr m'"
    using v vread_pde [OF w(2) unat_DIDX_less] get_pte_present [OF w(2) p(1)] p rd wr put(1)
    by (simp add: unlink_page_def get_entry_def m'_def)
  moreover have "unlinked_page m v f m'"
  proof -
    have "translate m' a = (if DIDX a = DIDX v \<and> TIDX a = TIDX v then None else translate m a)" for a
      using translate_set_pte [OF wf d p(1), of ?t "unset_bit 0 ?e" a] by (simp add: m'_def)
    moreover have "m_phys m' g = m_phys m g" if "g \<notin> table_frames m" for g
      using that table_framesI [OF unat_DIDX_less p(1)] by (auto simp: m'_def fun_eq_iff)
    moreover have "frame_used m' (unat f) = frame_used m (unat f) - 1"
      using fl put(4) by (simp add: frame_used_def m'_def)
    moreover have "frame_used m' i = frame_used m i" if "i \<noteq> unat f" for i
      using that by (simp add: frame_used_def m'_def)
    moreover have "m_map m ! unat f = 1 \<longleftrightarrow> frame_used m (unat f) = 1"
      by (simp add: frame_used_def word_unat_eq_iff)
    ultimately show ?thesis using put(2,3) unfolding unlinked_page_def m'_def by (simp add: free_frames_def)
  qed
  ultimately show ?thesis by blast
qed


section \<open>Copying a page\<close>

lemma zero_address: "DIDX 0 = 0" "TIDX 0 = 0" "page_aligned 0"
  by (simp_all add: DIDX_def TIDX_def page_aligned_def)

definition copied_page :: "mem_t \<Rightarrow> u32 \<Rightarrow> u32 \<Rightarrow> mem_t \<Rightarrow> bool" where
  "copied_page m q f m' \<longleftrightarrow> as_wf m' \<and> f \<notin> table_frames m \<and> unat f \<in> free_frames m
     \<and> free_frames m' = free_frames m - {unat f} \<and> m_map m' = (m_map m)[unat f := 1]
     \<and> pde_at m' = pde_at m \<and> table_frames m' = table_frames m
     \<and> (\<forall>e t. unat e < 1024 \<longrightarrow> pe_present (pde_at m e) \<longrightarrow> (e, t) \<noteq> (0, 0) \<longrightarrow> pte_at m' e t = pte_at m e t)
     \<and> (\<forall>a. DIDX a \<noteq> 1023 \<longrightarrow> translate m' a = translate m a)
     \<and> (\<forall>w. unat w < 1024 \<longrightarrow> m_phys m' f w = m_phys m q w)
     \<and> (\<forall>g. g \<noteq> f \<longrightarrow> g \<notin> table_frames m \<longrightarrow> m_phys m' g = m_phys m g)
     \<and> (\<forall>g. user_frame m g \<longrightarrow> user_frame m' g \<and> g \<noteq> f) \<and> m_total_pages m' = m_total_pages m"

lemma copy_page_spec:
  assumes wf: "as_wf m" and page: "page_aligned page" "translate m page = Some q"
    and q: "unat q \<notin> free_frames m" "q \<noteq> pe_index (pde_at m 0)"
  shows "free_frames m = {} \<and> copy_page m page = Inl Kernel_Panic \<or>
    (\<exists>m' f. copy_page m page = Inr (m', PAGE f) \<and> copied_page m q f m')"
proof (cases "get_page m")
  case (Inl e)
  then have "e = Kernel_Panic" "free_frames m = {}" using get_page_fails [OF as_wfD(1) [OF wf]] by auto
  with Inl show ?thesis by (simp add: copy_page_def)
next
  case (Inr r)
  then obtain m1 paddr where get: "get_page m = Inr (m1, paddr)" by (cases r) auto
  obtain f where f: "paddr = PAGE f" "IDX paddr = f" "unat f \<in> free_frames m" "f \<notin> table_frames m"
    "f \<noteq> pdir m" "unat f < 2 ^ 20" "4096 \<le> unat f" "unat f < unat (m_total_pages m)"
    "m1 = m\<lparr>m_map := (m_map m)[unat f := 1], m_free_pages := m_free_pages m - 1\<rparr>"
    "as_wf m1" "free_frames m1 = free_frames m - {unat f}" "m_map m1 ! unat f = 1"
    "\<forall>g. user_frame m g \<longrightarrow> user_frame m1 g \<and> g \<noteq> f"
    using fresh_frame [OF wf get] .
  note w = as_wfD [OF wf] and w1 = as_wfD [OF f(10)] and ent = entry_init_fields [OF f(6)]
  have same: "pde_at m1 = pde_at m" "pte_at m1 = pte_at m" "table_frames m1 = table_frames m"
    "translate m1 = translate m" "m_phys m1 = m_phys m" "pdir m1 = pdir m"
    "m_total_pages m1 = m_total_pages m" by (simp_all add: f(9))
  let ?p0 = "pe_index (pde_at m 0)"
  let ?e = "unset_bit 0 (entry_init f)"
  have p0: "pe_present (pde_at m1 0)" "?p0 \<in> table_frames m" "?p0 \<noteq> pdir m" "?p0 \<noteq> f"
    using w(3) table_framesI [of 0 m] f(4) as_wf_table_not_pdir [OF wf _ w(3)] by (auto simp: same)
  define m2 where "m2 = write_phys m1 ?p0 0 (entry_init f)"
  note set = pte_at_set [OF f(10) disjI2 [OF refl] p0(1), where t = 0 and v = "entry_init f", unfolded same, folded m2_def]
  have slot: "vwrite m1 (table_addr 0) (entry_init f) = Inr m2"
    using vwrite_slot [OF w1(2), of 0 0] p0(1) by (simp add: m2_def same)
  have get0: "get_pte m1 0 False = Inr (m1, table_addr 0)"
    using get_pte_present [OF w1(2), of 0 False] p0(1) by (simp add: zero_address)
  have np: "\<not> (DIDX page = 0 \<and> TIDX page = 0)"
    using page(2) w(4) by (auto simp: translate_parts split: if_splits)
  have t0: "translate m2 0 = Some f"
    using set(4) [of 0 0] w(3) by (simp add: translate_parts zero_address set(1) ent)
  have pd: "pe_present (pde_at m (DIDX page))" using page(2) by (auto simp: translate_parts split: if_splits)
  have tq: "translate m2 page = Some q"
    using page(2) set(4) [OF unat_DIDX_less pd, of "TIDX page"] np
    by (auto simp: translate_parts set(1) split: if_splits)
  have fq: "f \<noteq> q" using q(1) f(3) by auto
  have fd: "f \<noteq> pe_index (pde_at m (DIDX page))" using table_framesI [OF unat_DIDX_less pd] f(4) by auto
  define ph where "ph = copy_words (m_phys m2) f q 0 1024"
  have pcopy: "page_copy m2 0 page 1024 = Inr (with_phys m2 ph)"
    using page_copy_frames [OF zero_address(3) page(1) t0 tq fq, of 0 1024] f(5) p0(4) fd
    by (simp add: set(1) zero_address ph_def) (simp add: m2_def same)
  let ?m3 = "with_phys m2 ph"
  have pde3: "pde_at ?m3 = pde_at m" using f(5) set(1) same(6)
    by (simp add: fun_eq_iff pde_at_def ph_def copy_words_def) (simp add: m2_def)
  have self3: "self_map ?m3" using w(2) by (simp add: self_map_def pde3) (simp add: m2_def same)
  have ph0: "ph ?p0 = (m_phys m ?p0)(0 := entry_init f)"
    using p0(4) by (simp add: ph_def copy_words_def m2_def fun_eq_iff same)
  have rd: "vread ?m3 (table_addr 0) = Inr (entry_init f)"
    using vread_slot [OF self3, of 0 0] w(3) by (simp add: pde3 pte_at_def ph0)
  define m' where "m' = write_phys ?m3 ?p0 0 ?e"
  have wr: "vwrite ?m3 (table_addr 0) ?e = Inr m'"
    using vwrite_slot [OF self3, of 0 0] w(3) by (simp add: pde3 m'_def)
  have "copy_page m page = Inr (m', PAGE f)"
    by (simp add: copy_page_def get get0 slot f(2) pcopy rd wr) (simp add: f(1))
  moreover have "copied_page m q f m'"
  proof -
    have pdir': "pdir m' = pdir m" by (simp add: m'_def m2_def same)
    have phys': "m_phys m' g = (if g = ?p0 then (m_phys m ?p0)(0 := ?e)
        else if g = f then (\<lambda>w. if unat w < 1024 then m_phys m q w else m_phys m f w) else m_phys m g)" for g
      using p0(4) q(2) by (auto simp: fun_eq_iff m'_def ph_def copy_words_def m2_def same)
    have pde': "pde_at m' = pde_at m"
      using p0(3) f(5) by (simp add: fun_eq_iff pde_at_def pdir' phys')
    have self': "self_map m'" using w(2) by (simp add: self_map_def pde' pdir')
    have tab': "table_frames m' = table_frames m" by (simp add: table_frames_def pde')
    have inj0: "pe_index (pde_at m e) = ?p0 \<longleftrightarrow> e = 0" if "unat e < 1024" "pe_present (pde_at m e)" for e
      using w(5) [of e 0] that w(3) by auto
    have pte': "pte_at m' e t = (if e = 0 \<and> t = 0 then ?e else pte_at m e t)"
      if "unat e < 1024" "pe_present (pde_at m e)" for e t
      using inj0 [OF that] table_framesI [OF that] f(4) by (auto simp: pte_at_def pde' phys')
    have tr': "translate m' a = translate m a" for a
      using pte' [OF unat_DIDX_less, of a "TIDX a"] w(3,4) by (auto simp: translate_parts pde')
    have map': "m_map m' = (m_map m)[unat f := 1]" "m_total_pages m' = m_total_pages m"
      "m_free_pages m' = m_free_pages m - 1" "m_start_page m' = m_start_page m"
      by (simp_all add: m'_def m2_def f(9))
    have ff': "free_frames m' = free_frames m - {unat f}"
      by (simp add: m'_def m2_def write_phys_with f(11))
    have wf1': "mem_wf m'" using w1(1) by (simp add: m'_def m2_def write_phys_with)
    have keep: "user_frame m g \<Longrightarrow> user_frame m' g \<and> g \<noteq> f" for g
      using spec [OF f(13), of g] by (simp add: user_frame_def tab' map' same f(9))
    have mapped: "user_frame m' (pe_index (pte_at m' e t))" if "user_dir e" "mapped_entry m' e t" for e t
      using that pte' [of e t] w(7) [of e t] keep user_dir_less [OF that(1)]
      by (auto simp: mapped_entry_def pde' split: if_splits)
    have tabs: "unat g < unat (m_total_pages m') \<and> m_map m' ! unat g \<noteq> 0" if "g \<in> table_frames m'" for g
      using w1(6) [of g] that by (simp add: tab' same map' f(9))
    have "as_wf m'"
      unfolding as_wf_def using wf1' self' mapped tabs w(3,5) pte' [of 0 0] by (simp add: pde')
    then show ?thesis
      unfolding copied_page_def
      using f(3,4) ff' map'(1,2) pde' tab' pte' tr' phys' fq p0(2,4) keep by (auto simp: phys')
  qed
  ultimately show ?thesis by blast
qed


section \<open>Write faults\<close>

lemma PAGE_IDX_parts:
  "DIDX (PAGE (IDX v)) = DIDX v" "TIDX (PAGE (IDX v)) = TIDX v" "page_aligned (PAGE (IDX v))"
  "translate m (PAGE (IDX v)) = translate m v"
proof -
  have lt: "unat (IDX v) < 2 ^ 20"
    using u32_less_2p32 [of v] by (simp add: unat_IDX less_mult_imp_div_less)
  have u: "unat (PAGE (IDX v)) = unat v div 4096 * 4096" using unat_PAGE [OF lt] by (simp add: unat_IDX)
  have two: "x div 4194304 = x div 4096 div 1024" for x :: nat by (simp add: div_mult2_eq [symmetric])
  show d: "DIDX (PAGE (IDX v)) = DIDX v" and t: "TIDX (PAGE (IDX v)) = TIDX v"
    by (simp_all add: word_unat_eq_iff unat_DIDX unat_TIDX u two)
  show "page_aligned (PAGE (IDX v))" by (rule page_aligned_PAGE [OF lt])
  show "translate m (PAGE (IDX v)) = translate m v" by (simp add: translate_parts d t)
qed

text \<open>The frame was shared: the faulting page gets a private, writable copy.\<close>

definition private_copy :: "mem_t \<Rightarrow> u32 \<Rightarrow> u32 \<Rightarrow> u32 \<Rightarrow> mem_t \<Rightarrow> bool" where
  "private_copy m v old f m' \<longleftrightarrow> as_wf m' \<and> f \<noteq> old \<and> unat f \<in> free_frames m
     \<and> pte_at m' (DIDX v) (TIDX v) = entry_init f
     \<and> (\<forall>a. DIDX a \<noteq> 1023 \<longrightarrow> translate m' a = (if DIDX a = DIDX v \<and> TIDX a = TIDX v then Some f else translate m a))
     \<and> (\<forall>w. unat w < 1024 \<longrightarrow> m_phys m' f w = m_phys m old w)
     \<and> (\<forall>g. g \<noteq> f \<longrightarrow> g \<notin> table_frames m \<longrightarrow> m_phys m' g = m_phys m g)
     \<and> frame_used m' (unat old) = frame_used m (unat old) - 1 \<and> frame_used m' (unat f) = 1
     \<and> (\<forall>i. i \<noteq> unat old \<longrightarrow> i \<noteq> unat f \<longrightarrow> frame_used m' i = frame_used m i)"

lemma write_fault_access:
  assumes wf: "as_wf m" and p: "pe_present (pde_at m (DIDX v))" "pe_present (pte_at m (DIDX v) (TIDX v))"
    "\<not> pe_shared (pte_at m (DIDX v) (TIDX v))" "\<not> pe_readonly (pte_at m (DIDX v) (TIDX v))"
    and old: "pe_index (pte_at m (DIDX v) (TIDX v)) = old" and f: "user_frame m old"
    and slot: "entry_addr (table_addr (DIDX v)) (TIDX v) = slot"
  shows "write_fault m v =
    (if frame_used m (unat old) = 1
     then Inr (write_phys m (pe_index (pde_at m (DIDX v))) (TIDX v) (set_bit 1 (pte_at m (DIDX v) (TIDX v))))
     else bindr (copy_page m (PAGE (IDX v))) (\<lambda>(m, paddr).
          bindr (vread m slot) (\<lambda>entry.
          bindr (load_at (m_map m) (unat (pe_index entry))) (\<lambda>c.
          vwrite (m\<lparr>m_map := (m_map m)[unat (pe_index entry) := c - 1]\<rparr>) slot (entry_init (IDX paddr))))))"
proof -
  note w = as_wfD [OF wf]
  have len: "unat old < length (m_map m)" "m_map m ! unat old \<noteq> 0"
    using f w(1) by (simp_all add: user_frame_def mem_wf_def)
  have "get_entry m v False = Inr (m, slot)"
    using get_pte_present [OF w(2) p(1)] by (simp add: get_entry_def slot)
  moreover have "vread m slot = Inr (pte_at m (DIDX v) (TIDX v))"
    using vread_slot [OF w(2) unat_DIDX_less unat_TIDX_less, of v v] p by (simp add: slot)
  moreover have "vwrite m slot x = Inr (write_phys m (pe_index (pde_at m (DIDX v))) (TIDX v) x)" for x
    using vwrite_slot [OF w(2) unat_DIDX_less unat_TIDX_less, of v v] p by (simp add: slot)
  moreover have "m_map m ! unat old = 1 \<longleftrightarrow> frame_used m (unat old) = 1"
    by (simp add: frame_used_def word_unat_eq_iff)
  moreover have "0 < m_map m ! unat old" using len(2) by (simp add: word_neq_0_conv)
  ultimately show ?thesis
    using p len(1) by (simp add: write_fault_def old)
qed

lemma write_fault_sole:
  assumes wf: "as_wf m" and d: "user_dir (DIDX v)" and tr: "translate m v = Some old"
    and p: "\<not> pe_shared (pte_at m (DIDX v) (TIDX v))" "\<not> pe_readonly (pte_at m (DIDX v) (TIDX v))"
    and one: "frame_used m (unat old) = 1"
  shows "\<exists>m'. write_fault m v = Inr m' \<and> as_wf m' \<and> pe_write (pte_at m' (DIDX v) (TIDX v))
    \<and> (\<forall>a. translate m' a = translate m a) \<and> m_map m' = m_map m
    \<and> (\<forall>g. g \<notin> table_frames m \<longrightarrow> m_phys m' g = m_phys m g)"
proof -
  note w = as_wfD [OF wf]
  let ?d = "DIDX v" and ?t = "TIDX v" and ?e = "pte_at m (DIDX v) (TIDX v)"
  have pr: "pe_present (pde_at m ?d)" "pe_present ?e" "pe_index ?e = old"
    using tr by (auto simp: translate_parts split: if_splits)
  then have uf: "user_frame m old"
    using w(7) [OF d, of ?t] unat_DIDX_less unat_TIDX_less by (auto simp: mapped_entry_def)
  let ?m = "write_phys m (pe_index (pde_at m ?d)) ?t (set_bit 1 ?e)"
  have "write_fault m v = Inr ?m" using write_fault_access [OF wf pr(1,2) p pr(3) uf refl] one by simp
  moreover have "as_wf ?m"
    using set_pte_wf [OF wf d pr(1) unat_TIDX_less, of "set_bit 1 ?e"] uf pr(3) by simp
  moreover have "pe_write (pte_at ?m ?d ?t)"
    using pte_at_set(4) [OF wf disjI1 [OF d] pr(1) unat_DIDX_less pr(1), of ?t "set_bit 1 ?e" ?t]
    by (simp add: pe_write_def bit_set_bit_iff)
  moreover have "translate ?m a = translate m a" for a
    using translate_set_pte [OF wf d pr(1), of ?t "set_bit 1 ?e" a] pr tr
    by (auto simp: translate_parts)
  moreover have "m_phys ?m g = m_phys m g" if "g \<notin> table_frames m" for g
    using that table_framesI [OF unat_DIDX_less pr(1)] by (auto simp: fun_eq_iff)
  ultimately show ?thesis by (intro exI [of _ ?m]) simp
qed

lemma drop_reference:
  assumes wf: "as_wf m" and i: "i < length (m_map m)" "i \<notin> free_frames m" "c \<noteq> 0"
  shows "as_wf (m\<lparr>m_map := (m_map m)[i := c]\<rparr>)" and "m_map m ! i \<noteq> 0 \<Longrightarrow> user_frame m g \<Longrightarrow> user_frame (m\<lparr>m_map := (m_map m)[i := c]\<rparr>) g"
proof -
  let ?m = "m\<lparr>m_map := (m_map m)[i := c]\<rparr>"
  note w = as_wfD [OF wf]
  have ff: "free_frames ?m = free_frames m"
    using i by (auto simp: free_frames_def nth_list_update)
  have wf1: "mem_wf ?m" using w(1) i ff unfolding mem_wf_def by (auto simp: nth_list_update)
  have keep: "user_frame m g \<Longrightarrow> user_frame ?m g" for g
    using i by (auto simp: user_frame_def nth_list_update)
  then show "user_frame m g \<Longrightarrow> user_frame ?m g" .
  show "as_wf ?m"
    unfolding as_wf_def using w wf1 i keep by (auto simp: nth_list_update)
qed

lemma write_fault_copy:
  assumes wf: "as_wf m" and d: "user_dir (DIDX v)" and tr: "translate m v = Some old"
    and p: "\<not> pe_shared (pte_at m (DIDX v) (TIDX v))" "\<not> pe_readonly (pte_at m (DIDX v) (TIDX v))"
    and many: "frame_used m (unat old) \<noteq> 1"
  shows "if free_frames m = {} then write_fault m v = Inl Kernel_Panic
    else \<exists>m' f. write_fault m v = Inr m' \<and> private_copy m v old f m'"
proof -
  note w = as_wfD [OF wf]
  let ?d = "DIDX v" and ?t = "TIDX v" and ?e = "pte_at m (DIDX v) (TIDX v)"
  let ?slot = "entry_addr (table_addr ?d) ?t"
  have pr: "pe_present (pde_at m ?d)" "pe_present ?e" "pe_index ?e = old"
    using tr by (auto simp: translate_parts split: if_splits)
  then have uf: "user_frame m old"
    using w(7) [OF d, of ?t] unat_DIDX_less unat_TIDX_less by (auto simp: mapped_entry_def)
  then have old: "unat old \<notin> free_frames m" "old \<notin> table_frames m" "m_map m ! unat old \<noteq> 0"
    "unat old < unat (m_total_pages m)"
    by (auto simp: user_frame_def free_frames_def)
  have "translate m (PAGE (IDX v)) = Some old" using tr by (simp add: PAGE_IDX_parts)
  moreover have "old \<noteq> pe_index (pde_at m 0)" using old(2) table_framesI [of 0 m] w(3) by auto
  ultimately have cp: "free_frames m = {} \<and> copy_page m (PAGE (IDX v)) = Inl Kernel_Panic \<or>
      (\<exists>m' f. copy_page m (PAGE (IDX v)) = Inr (m', PAGE f) \<and> copied_page m old f m')"
    by (intro copy_page_spec [OF wf PAGE_IDX_parts(3) _ old(1)])
  note acc = write_fault_access [OF wf pr(1,2) p pr(3) uf refl]
  from cp show ?thesis
  proof
    assume "free_frames m = {} \<and> copy_page m (PAGE (IDX v)) = Inl Kernel_Panic"
    then show ?thesis using acc many by simp
  next
    assume "\<exists>m' f. copy_page m (PAGE (IDX v)) = Inr (m', PAGE f) \<and> copied_page m old f m'"
    then obtain m1 f where c: "copy_page m (PAGE (IDX v)) = Inr (m1, PAGE f)" "copied_page m old f m1" by blast
    have wf1: "as_wf m1" and f: "f \<notin> table_frames m" "unat f \<in> free_frames m"
      "free_frames m1 = free_frames m - {unat f}" "m_map m1 = (m_map m)[unat f := 1]"
      "pde_at m1 = pde_at m" "table_frames m1 = table_frames m" "m_total_pages m1 = m_total_pages m"
      and pte1: "\<And>e t. unat e < 1024 \<Longrightarrow> pe_present (pde_at m e) \<Longrightarrow> (e, t) \<noteq> (0, 0) \<Longrightarrow> pte_at m1 e t = pte_at m e t"
      and tr1: "\<And>a. DIDX a \<noteq> 1023 \<Longrightarrow> translate m1 a = translate m a"
      and ph1: "\<And>w. unat w < 1024 \<Longrightarrow> m_phys m1 f w = m_phys m old w"
        "\<And>g. g \<noteq> f \<Longrightarrow> g \<notin> table_frames m \<Longrightarrow> m_phys m1 g = m_phys m g"
      and keep1: "\<And>g. user_frame m g \<Longrightarrow> user_frame m1 g \<and> g \<noteq> f"
      using c(2) unfolding copied_page_def by blast+
    have fne: "f \<noteq> old" using old(1) f(2) by auto
    have tot: "unat (m_total_pages m) \<le> length (m_map m)" "unat (m_total_pages m) \<le> 2 ^ 20"
      using w(1) by (simp_all add: mem_wf_def)
    have flt: "unat f < unat (m_total_pages m)" "4096 \<le> unat f" using free_frames_range [OF w(1) f(2)] by simp_all
    have f20: "unat f < 2 ^ 20" using flt tot by simp
    note ent = entry_init_fields [OF f20]
    have e1: "pte_at m1 ?d ?t = ?e" using pte1 [OF unat_DIDX_less pr(1), of ?t] user_dir_less(3) [OF d] by simp
    have p1: "pe_present (pde_at m1 ?d)" using pr(1) f(5) by simp
    have rd: "vread m1 ?slot = Inr ?e"
      using vread_slot [OF as_wfD(2) [OF wf1] unat_DIDX_less unat_TIDX_less] p1 e1 by simp
    let ?c = "m_map m ! unat old - 1"
    have mold: "m_map m1 ! unat old = m_map m ! unat old" using fne f(4) by (simp add: word_unat_eq_iff)
    have cnat: "unat ?c = unat (m_map m ! unat old) - 1"
      using old(3) by (simp add: unat_diff_small unat_gt_0 Suc_leI)
    have c0: "?c \<noteq> 0"
      using many by (auto simp: frame_used_def)
    let ?m2 = "m1\<lparr>m_map := (m_map m1)[unat old := ?c]\<rparr>"
    have in1: "unat old < length (m_map m1)" "unat old \<notin> free_frames m1"
      using old tot f(3,4) by simp_all
    note drop = drop_reference [OF wf1 in1 c0]
    let ?pt = "pe_index (pde_at m ?d)"
    let ?m3 = "write_phys ?m2 ?pt ?t (entry_init f)"
    have p2: "pe_present (pde_at ?m2 ?d)" using p1 by simp
    have wr: "vwrite ?m2 ?slot (entry_init f) = Inr ?m3"
      using vwrite_slot [OF as_wfD(2) [OF drop(1)] unat_DIDX_less unat_TIDX_less] p2 f(5) by simp
    have "write_fault m v = Inr ?m3"
      using acc many c(1) rd pr(3) in1(1) mold wr IDX_PAGE [OF f20] by simp
    moreover have "private_copy m v old f ?m3"
    proof -
      have ufr: "user_frame ?m2 f"
        using flt f(1,4,6,7) fne tot by (auto simp: user_frame_def nth_list_update word_unat_eq_iff)
      have "as_wf ?m3"
        using set_pte_wf [OF drop(1) d p2 unat_TIDX_less, of "entry_init f"] ufr f(5) by (simp add: ent)
      moreover have "pte_at ?m3 ?d ?t = entry_init f"
        using pte_at_set(4) [OF drop(1) disjI1 [OF d] p2 unat_DIDX_less p2, of ?t "entry_init f" ?t] f(5) by simp
      moreover have "translate ?m3 a = (if DIDX a = ?d \<and> TIDX a = ?t then Some f else translate m a)"
        if "DIDX a \<noteq> 1023" for a
        using translate_set_pte [OF drop(1) d p2, of ?t "entry_init f" a] f(5) tr1 [OF that] by (simp add: ent)
      moreover have ptt: "?pt \<in> table_frames m" by (rule table_framesI [OF unat_DIDX_less pr(1)])
      have "m_phys ?m3 f w = m_phys m old w" if "unat w < 1024" for w
        using ptt f(1) ph1(1) [OF that] by auto
      moreover have "m_phys ?m3 g = m_phys m g" if "g \<noteq> f" "g \<notin> table_frames m" for g
        using ptt ph1(2) [OF that] that by (auto simp: fun_eq_iff)
      moreover have "frame_used ?m3 (unat old) = frame_used m (unat old) - 1"
        using in1(1) cnat by (simp add: frame_used_def)
      moreover have "frame_used ?m3 (unat f) = 1"
        using fne flt tot f(4) by (simp add: frame_used_def nth_list_update word_unat_eq_iff)
      moreover have "frame_used ?m3 i = frame_used m i" if "i \<noteq> unat old" "i \<noteq> unat f" for i
        using that f(4) by (simp add: frame_used_def)
      ultimately show ?thesis using fne f(2) unfolding private_copy_def by blast
    qed
    ultimately show ?thesis using f(2) by auto
  qed
qed

end
