(* ===== verification/Ylos_Address_Space.thy ===== *)
theory Ylos_Address_Space
  imports Ylos_Paging
begin

text \<open>
  The start of the memory system and the properties of the page fault handler: the kernel's
  identity mapping that \<open>mapping_init\<close> builds satisfies the invariant \<open>as_wf\<close> of the address
  spaces, faults of user programs on missing pages map a fresh frame, and write faults on
  shared frames copy them.
\<close>

section \<open>The mapping of the kernel\<close>

definition kernel_slot :: "nat \<Rightarrow> nat \<Rightarrow> u32 \<Rightarrow> u32 \<Rightarrow> bool" where
  "kernel_slot k n f w \<longleftrightarrow> 2 \<le> unat f \<and> unat f < 6 \<and> unat w < 1024
     \<and> (let i = (unat f - 2) * 1024 + unat w in k \<le> i \<and> i < k + n \<and> i \<noteq> 0)"

definition kernel_words :: "nat \<Rightarrow> nat \<Rightarrow> (u32 \<Rightarrow> u32 \<Rightarrow> u32) \<Rightarrow> u32 \<Rightarrow> u32 \<Rightarrow> u32" where
  "kernel_words k n ph f w =
     (if kernel_slot k n f w then kernel_entry (of_nat ((unat f - 2) * 1024 + unat w)) else ph f w)"

lemma table_index:
  assumes "i < 4096"
  shows "load_at KERNEL_PAGE_TABLE (i div 1024) = Inr (KERNEL_PAGE_TABLE ! (i div 1024))"
    and "unat (IDX (KERNEL_PAGE_TABLE ! (i div 1024))) = 2 + i div 1024"
proof -
  have "i div 1024 < 4" using assms by (simp add: less_mult_imp_div_less)
  then have "i div 1024 = 0 \<or> i div 1024 = 1 \<or> i div 1024 = 2 \<or> i div 1024 = 3" by linarith
  then show "load_at KERNEL_PAGE_TABLE (i div 1024) = Inr (KERNEL_PAGE_TABLE ! (i div 1024))"
    "unat (IDX (KERNEL_PAGE_TABLE ! (i div 1024))) = 2 + i div 1024"
    by (auto simp: KERNEL_PAGE_TABLE_def unat_IDX)
qed

lemma map_kernel_frames_spec:
  assumes "k + n \<le> 4096" and "4096 \<le> length (m_map m)"
  shows "\<exists>mm. map_kernel_frames m n k = Inr (m\<lparr>m_phys := kernel_words k n (m_phys m), m_map := mm\<rparr>)
    \<and> length mm = length (m_map m)
    \<and> (\<forall>i. mm ! i = (if k \<le> i \<and> i < k + n \<and> i \<noteq> 0 then 1 else m_map m ! i))"
  using assms
proof (induction n arbitrary: m k)
  case 0
  have "kernel_words k 0 (m_phys m) = m_phys m"
    by (auto simp: fun_eq_iff kernel_words_def kernel_slot_def Let_def)
  then show ?case by (intro exI [of _ "m_map m"]) auto
next
  case (Suc n)
  show ?case
  proof (cases "k = 0")
    case True
    obtain mm where mm: "map_kernel_frames m n (Suc k) = Inr (m\<lparr>m_phys := kernel_words (Suc k) n (m_phys m), m_map := mm\<rparr>)"
      "length mm = length (m_map m)"
      "\<forall>i. mm ! i = (if Suc k \<le> i \<and> i < Suc k + n \<and> i \<noteq> 0 then 1 else m_map m ! i)"
      using Suc.IH [of "Suc k" m] Suc.prems by auto
    have "kernel_slot (Suc 0) n = kernel_slot 0 (Suc n)"
      by (intro ext) (simp add: kernel_slot_def Let_def Suc_le_eq less_Suc_eq_le conj_ac)
    then have "kernel_words (Suc k) n (m_phys m) = kernel_words k (Suc n) (m_phys m)"
      using True by (intro ext) (simp add: kernel_words_def)
    then have "map_kernel_frames m (Suc n) k = Inr (m\<lparr>m_phys := kernel_words k (Suc n) (m_phys m), m_map := mm\<rparr>)"
      using mm(1) True by simp
    moreover have "mm ! i = (if k \<le> i \<and> i < k + Suc n \<and> i \<noteq> 0 then 1 else m_map m ! i)" for i
      using spec [OF mm(3), of i] True by (cases i) simp_all
    ultimately show ?thesis using mm(2) by blast
  next
    case False
    let ?f = "IDX (KERNEL_PAGE_TABLE ! (k div 1024))" and ?w = "of_nat (k mod 1024) :: u32"
    let ?v = "kernel_entry (of_nat k)"
    have k: "k < 4096" "k < length (m_map m)" using Suc.prems by simp_all
    note ti = table_index [OF k(1)]
    let ?m = "(write_phys m ?f ?w ?v)\<lparr>m_map := (m_map m)[k := 1]\<rparr>"
    have "\<exists>mm. map_kernel_frames ?m n (Suc k) = Inr (?m\<lparr>m_phys := kernel_words (Suc k) n (m_phys ?m), m_map := mm\<rparr>)
        \<and> length mm = length (m_map ?m)
        \<and> (\<forall>i. mm ! i = (if Suc k \<le> i \<and> i < Suc k + n \<and> i \<noteq> 0 then 1 else m_map ?m ! i))"
      by (rule Suc.IH) (use Suc.prems in simp_all)
    then obtain mm where mm: "map_kernel_frames ?m n (Suc k) = Inr (?m\<lparr>m_phys := kernel_words (Suc k) n (m_phys ?m), m_map := mm\<rparr>)"
      "length mm = length (m_map ?m)"
      "\<forall>i. mm ! i = (if Suc k \<le> i \<and> i < Suc k + n \<and> i \<noteq> 0 then 1 else m_map ?m ! i)" by blast
    have uw: "unat ?w = k mod 1024" by (simp add: unat_of_nat)
    have slot: "f = ?f \<and> w = ?w \<longleftrightarrow> 2 \<le> unat f \<and> unat f < 6 \<and> unat w < 1024 \<and> (unat f - 2) * 1024 + unat w = k" for f w
    proof
      assume "f = ?f \<and> w = ?w"
      then have "unat f = 2 + k div 1024" "unat w = k mod 1024" using ti(2) uw by simp_all
      moreover have "k div 1024 < 4" using k(1) by (simp add: less_mult_imp_div_less)
      ultimately show "2 \<le> unat f \<and> unat f < 6 \<and> unat w < 1024 \<and> (unat f - 2) * 1024 + unat w = k" by simp
    next
      assume r: "2 \<le> unat f \<and> unat f < 6 \<and> unat w < 1024 \<and> (unat f - 2) * 1024 + unat w = k"
      then have e: "k = (unat f - 2) * 1024 + unat w" "unat w < 1024" by simp_all
      have km: "k div 1024 = unat f - 2" "k mod 1024 = unat w"
        unfolding e(1) using e(2) by simp_all
      have "unat f = 2 + k div 1024" unfolding km(1) using r by linarith
      then show "f = ?f \<and> w = ?w" using ti(2) uw km(2) by (simp only: word_unat_eq_iff)
    qed
    have "kernel_words (Suc k) n (m_phys ?m) f w = kernel_words k (Suc n) (m_phys m) f w" for f w
    proof (cases "f = ?f \<and> w = ?w")
      case True
      then have r: "2 \<le> unat f \<and> unat f < 6 \<and> unat w < 1024 \<and> (unat f - 2) * 1024 + unat w = k"
        using slot [of f w] by blast
      then have s1: "\<not> kernel_slot (Suc k) n f w" by (simp add: kernel_slot_def Let_def)
      have "kernel_slot k (Suc n) f w" using r False by (simp add: kernel_slot_def Let_def)
      then show ?thesis using True s1 r by (simp add: kernel_words_def)
    next
      case False
      then have r: "\<not> (2 \<le> unat f \<and> unat f < 6 \<and> unat w < 1024 \<and> (unat f - 2) * 1024 + unat w = k)"
        using slot [of f w] by blast
      then have "kernel_slot (Suc k) n f w \<longleftrightarrow> kernel_slot k (Suc n) f w"
        by (auto simp: kernel_slot_def Let_def)
      moreover have "m_phys ?m f w = m_phys m f w" using False by auto
      ultimately show ?thesis by (simp add: kernel_words_def)
    qed
    then have eq: "kernel_words (Suc k) n (m_phys ?m) = kernel_words k (Suc n) (m_phys m)"
      by (simp add: fun_eq_iff)
    have "map_kernel_frames m (Suc n) k = map_kernel_frames ?m n (Suc k)"
      using False k(2) ti(1) by simp
    also have "\<dots> = Inr (m\<lparr>m_phys := kernel_words k (Suc n) (m_phys m), m_map := mm\<rparr>)"
      unfolding mm(1) eq by (simp add: write_phys_def)
    finally have "map_kernel_frames m (Suc n) k = Inr (m\<lparr>m_phys := kernel_words k (Suc n) (m_phys m), m_map := mm\<rparr>)" .
    moreover have "mm ! i = (if k \<le> i \<and> i < k + Suc n \<and> i \<noteq> 0 then 1 else m_map m ! i)" for i
      using spec [OF mm(3), of i] False k(2) by (cases "i = k") (simp_all add: Suc_le_eq)
    moreover have "length mm = length (m_map m)" using mm(2) by simp
    ultimately show ?thesis by blast
  qed
qed


lemma kernel_entry_fields:
  assumes "unat i < 2 ^ 20"
  shows "pe_present (kernel_entry i)" and "pe_index (kernel_entry i) = i"
  using entry_init_fields [OF assms] by (simp_all add: kernel_entry_def)

text \<open>What the four writes to the directory and the clearing of the tables leave.\<close>

definition boot_phys :: "(u32 \<Rightarrow> u32 \<Rightarrow> u32) \<Rightarrow> u32 \<Rightarrow> u32 \<Rightarrow> u32" where
  "boot_phys ph f w =
     (if f = 1 then if w = 1023 then entry_init 1 else if unat w < 4 then kernel_entry (w + 2) else 0
      else if kernel_slot 0 4096 f w then kernel_entry (of_nat ((unat f - 2) * 1024 + unat w))
      else if 2 \<le> unat f \<and> unat f < 6 then 0 else ph f w)"

lemma unat_lt_4: "unat (w :: u32) < 4 \<longleftrightarrow> w = 0 \<or> w = 1 \<or> w = 2 \<or> w = 3"
proof -
  have "unat w < 4 \<longleftrightarrow> unat w = 0 \<or> unat w = 1 \<or> unat w = 2 \<or> unat w = 3" by linarith
  then show ?thesis by (simp add: word_unat_eq_iff)
qed

lemma unat_2_6: "2 \<le> unat (f :: u32) \<and> unat f < 6 \<longleftrightarrow> f = 2 \<or> f = 3 \<or> f = 4 \<or> f = 5"
proof -
  have "2 \<le> unat f \<and> unat f < 6 \<longleftrightarrow> unat f = 2 \<or> unat f = 3 \<or> unat f = 4 \<or> unat f = 5" by linarith
  then show ?thesis by (simp add: word_unat_eq_iff)
qed

lemma table_frame_numbers:
  "IDX KERNEL_PAGE_DIR = 1" "map IDX KERNEL_PAGE_TABLE = [2, 3, 4, 5]" "KERNEL_PAGE_TABLE ! 0 = 0x2000"
  "KERNEL_PAGE_TABLE ! 1 = 0x3000" "KERNEL_PAGE_TABLE ! 2 = 0x4000" "KERNEL_PAGE_TABLE ! 3 = 0x5000"
  "IDX 0x2000 = 2" "IDX 0x3000 = 3" "IDX 0x4000 = 4" "IDX 0x5000 = 5"
  by (simp_all add: KERNEL_PAGE_DIR_def KERNEL_PAGE_TABLE_def IDX_def)

lemma mapping_init_spec:
  assumes "4096 \<le> length (m_map m)"
  obtains m' where "mapping_init m = Inr m'" and "m_phys m' = boot_phys (m_phys m)" and "m_cr3 m' = 0x1000"
    and "length (m_map m') = length (m_map m)"
    and "\<forall>i. m_map m' ! i = (if i < 4096 \<and> i \<noteq> 0 then 1 else m_map m ! i)"
    and "m_total_pages m' = m_total_pages m" and "m_free_pages m' = m_free_pages m"
    and "m_start_page m' = m_start_page m" and "m_kernel_map m' = m_kernel_map m"
proof -
  define m1 where "m1 = fold (\<lambda>f m. clear_frame m f) [1, 2, 3, 4, 5] m"
  define m2 where "m2 = fold (\<lambda>d m. write_phys m 1 (of_nat d) (kernel_entry (IDX (KERNEL_PAGE_TABLE ! d)))) [0..<4] m1"
  have same: "m_map m2 = m_map m" "m_total_pages m2 = m_total_pages m" "m_free_pages m2 = m_free_pages m"
    "m_start_page m2 = m_start_page m" "m_kernel_map m2 = m_kernel_map m"
    by (simp_all add: m2_def m1_def clear_frame_def upt_rec)
  have ph1: "m_phys m1 f w = (if f = 1 \<or> f = 2 \<or> f = 3 \<or> f = 4 \<or> f = 5 then 0 else m_phys m f w)" for f w
    by (simp add: m1_def clear_frame_def)
  have ph2: "m_phys m2 f w = (if f = 1 \<and> unat w < 4 then kernel_entry (w + 2) else m_phys m1 f w)" for f w
    by (auto simp: m2_def upt_rec KERNEL_PAGE_TABLE_def table_frame_numbers(7-) unat_lt_4)
  obtain mm where mm: "map_kernel_frames m2 4096 0 = Inr (m2\<lparr>m_phys := kernel_words 0 4096 (m_phys m2), m_map := mm\<rparr>)"
    "length mm = length (m_map m)" "\<forall>i. mm ! i = (if 0 \<le> i \<and> i < 0 + 4096 \<and> i \<noteq> 0 then 1 else m_map m ! i)"
    using map_kernel_frames_spec [of 0 4096 m2] assms by (auto simp: same)
  let ?m3 = "m2\<lparr>m_phys := kernel_words 0 4096 (m_phys m2), m_map := mm\<rparr>"
  let ?m4 = "(write_phys ?m3 1 1023 (entry_init 1))\<lparr>m_cr3 := 0x1000\<rparr>"
  have "mapping_init m = Inr ?m4"
    unfolding mapping_init_def Let_def table_frame_numbers m1_def [symmetric] m2_def [symmetric] mm(1)
    by (simp add: set_cr3_def KERNEL_PAGE_DIR_def page_aligned_def)
  moreover have "m_phys ?m4 f w = boot_phys (m_phys m) f w" for f w
  proof -
    have no1: "\<not> kernel_slot 0 4096 1 w" by (simp add: kernel_slot_def)
    have eq: "m_phys ?m4 f w = (if f = 1 \<and> w = 1023 then entry_init 1 else kernel_words 0 4096 (m_phys m2) f w)"
      by simp
    show ?thesis
      unfolding eq kernel_words_def boot_phys_def ph2 ph1 using no1 unat_2_6 [of f] by auto
  qed
  ultimately show thesis
    using mm(2,3) same by (intro that [of ?m4]) (auto simp: fun_eq_iff)
qed


section \<open>From the memory zones to the first address space\<close>

definition boot_memory :: "mem_t \<Rightarrow> u32 \<Rightarrow> zone list \<Rightarrow> (u32 \<times> zone list) list \<Rightarrow> u8 list \<Rightarrow> u8 list \<Rightarrow> mem_t result" where
  "boot_memory m magic ards tags ram kbits =
     bindr (memory_init m magic ards tags) (\<lambda>m.
     bindr (memory_map_init m ram kbits) mapping_init)"

lemma memory_init_result:
  assumes "memory_init m magic ards tags = Inr m1"
  shows "m_total_pages m1 = IDX (m_size m1) + 256" and "m_free_pages m1 = IDX (m_size m1)"
    and "KERNEL_MEMORY_SIZE \<le> m_size m1" and "m_base m1 = MEMORY_BASE"
proof -
  obtain zs where zs: "(let (base, sz) = fold pick_zone zs (m_base m, m_size m)
       in if base \<noteq> MEMORY_BASE \<or> sz AND 0xfff \<noteq> 0 then Inl Assert_Failed
          else if sz < KERNEL_MEMORY_SIZE then Inl Kernel_Panic
          else Inr (m\<lparr>m_base := base, m_size := sz,
                      m_total_pages := IDX sz + IDX MEMORY_BASE, m_free_pages := IDX sz\<rparr>)) = Inr m1"
    using assms unfolding memory_init_def by (elim bindr_InrE)
  obtain base sz where f: "fold pick_zone zs (m_base m, m_size m) = (base, sz)" by fastforce
  have "IDX MEMORY_BASE = 256" by (simp add: MEMORY_BASE_def IDX_def)
  then show "m_total_pages m1 = IDX (m_size m1) + 256" "m_free_pages m1 = IDX (m_size m1)"
    "KERNEL_MEMORY_SIZE \<le> m_size m1" "m_base m1 = MEMORY_BASE"
    using zs unfolding f by (auto split: if_splits)
qed

lemma bm_get_zero: "bm_get (bitmap_make (replicate n 0) len off) i = False" if "i < 8 * n"
  using that by (simp add: bm_get_def bitmap_make_def less_mult_imp_div_less)

lemma memory_map_init_result:
  assumes tot: "m_total_pages m = IDX (m_size m) + 256" "m_free_pages m = IDX (m_size m)"
    and size: "4096 \<le> unat (IDX (m_size m))" "unat (IDX (m_size m)) \<le> 2 ^ 20 - 256"
    and ram: "2 ^ 20 \<le> length ram" and kbits: "length kbits = 480"
  obtains m2 where "memory_map_init m ram kbits = Inr m2" and "kpage_inv m2"
    and "unat (m_total_pages m2) = unat (IDX (m_size m)) + 256"
    and "256 < unat (m_start_page m2)" and "unat (m_start_page m2) \<le> 512"
    and "unat (m_free_pages m2) = unat (m_total_pages m2) - unat (m_start_page m2)"
    and "unat (m_total_pages m2) \<le> length (m_map m2)" and "length (m_map m2) = length ram"
    and "\<forall>i < unat (m_start_page m2). m_map m2 ! i = 1"
    and "\<forall>i. unat (m_start_page m2) \<le> i \<longrightarrow> i < unat (m_total_pages m2) \<longrightarrow> m_map m2 ! i = 0"
proof -
  let ?T = "m_total_pages m"
  have T: "unat ?T = unat (IDX (m_size m)) + 256" using size(2) by (simp add: tot(1) unat_add_small)
  obtain pages where p: "div_round_up ?T PAGE_SIZE = Inr pages"
    "unat pages = (unat ?T + unat PAGE_SIZE - 1) div unat PAGE_SIZE"
    "unat ?T \<le> unat pages * unat PAGE_SIZE" "unat pages * unat PAGE_SIZE < unat ?T + unat PAGE_SIZE"
    by (rule div_round_up_ceiling [of PAGE_SIZE ?T]) (use T size in \<open>auto simp: PAGE_SIZE_def\<close>)
  have ps: "unat PAGE_SIZE = 4096" by (simp add: PAGE_SIZE_def)
  have "unat ?T \<le> 1048576" using T size(2) by simp
  then have pb: "0 < unat pages" "unat pages \<le> 256" using p(3,4) T unfolding ps by linarith+
  have len: "unat (pages * PAGE_SIZE) = unat pages * 4096"
    using pb by (subst unat_mult_small) (simp_all add: ps)
  have lenram: "unat pages * 4096 \<le> length ram" using pb(2) ram by simp
  let ?start = "IDX MEMORY_BASE + pages"
  have start: "unat ?start = 256 + unat pages" using pb by (simp add: MEMORY_BASE_def IDX_def unat_add_small)
  let ?bm = "bitmap_make (replicate 480 0) 480 256"
  have bm: "bitmap_init kbits ((IDX KERNEL_MEMORY_SIZE - IDX MEMORY_BASE) div 8) (IDX MEMORY_BASE) = Inr ?bm"
    using kbits by (simp add: bitmap_init_def KERNEL_MEMORY_SIZE_def MEMORY_BASE_def IDX_def)
  have pwf: "page_map_wf ?bm" by (simp add: page_map_wf_def bm_wf_def bm_size_def bitmap_make_def)
  then have bwf: "bm_wf ?bm" by (simp add: page_map_wf_def)
  have pos: "0 < pages" using pb(1) by (simp add: word_less_nat_alt)
  have sz: "bm_size ?bm = 3840" by (simp add: bm_size_def bitmap_make_def)
  have "free_run ?bm 0 (unat pages)"
    unfolding free_run_def using pb sz by (auto simp: bm_get_zero [where n = 480, simplified])
  then have ex: "\<exists>q. free_run ?bm q (unat pages)" by blast
  obtain bm' a where scan: "bitmap_scan ?bm pages = Inr (bm', a)" "page_map_wf bm'"
    using bitmap_scan_some(1) [OF bwf pos ex] pwf by (auto simp: page_map_wf_def)
  let ?L = "replicate (unat ?start) 1 @ drop (unat ?start) (replicate (unat pages * 4096) 0 @ drop (unat pages * 4096) ram)"
  define m2 where "m2 = m\<lparr>m_free_pages := m_free_pages m - pages, m_map := ?L, m_start_page := ?start, m_kernel_map := bm'\<rparr>"
  have "unat ?start \<le> unat pages * 4096" using pb(1) by (simp add: start)
  then have nth: "?L ! i = (if i < unat ?start then 1 else if i < unat pages * 4096 then 0 else ram ! i)"
    if "i < length ram" for i
    using that lenram by (auto simp: nth_append)
  have T2: "unat ?T \<le> unat pages * 4096" using p(3) ps by simp
  have "memory_map_init m ram kbits = Inr m2"
    using lenram ram pb(2) by (simp add: memory_map_init_def p(1) Let_def len bm scan(1) m2_def start)
  moreover have "unat (m_free_pages m2) = unat (m_total_pages m2) - unat (m_start_page m2)"
    unfolding m2_def by (simp add: start T tot(2)) (use pb size in \<open>simp add: unat_diff_small\<close>)
  moreover have "length ?L = length ram" using start pb lenram ram by simp
  moreover have "?L ! i = 1" if "i < unat ?start" for i
    using nth [of i] that start pb ram by simp
  moreover have "?L ! i = 0" if "unat ?start \<le> i" "i < unat ?T" for i
    using nth [of i] that T2 lenram by simp
  ultimately show thesis
    using pb T2 lenram scan(2) T start
    by (intro that [of m2]) (simp_all add: m2_def kpage_inv_def)
qed


lemma mapping_init_wf:
  assumes start: "0 < unat (m_start_page m)" "unat (m_start_page m) < 4096"
    and tot: "4096 < unat (m_total_pages m)" "unat (m_total_pages m) \<le> 2 ^ 20"
    and len: "unat (m_total_pages m) \<le> length (m_map m)"
    and used: "\<forall>i < unat (m_start_page m). m_map m ! i = 1"
    and clear: "\<forall>i. unat (m_start_page m) \<le> i \<longrightarrow> i < unat (m_total_pages m) \<longrightarrow> m_map m ! i = 0"
    and free: "unat (m_free_pages m) = unat (m_total_pages m) - unat (m_start_page m)"
  obtains m' where "mapping_init m = Inr m'" and "as_wf m'"
    and "free_frames m' = {4096..<unat (m_total_pages m)}" and "m_total_pages m' = m_total_pages m"
    and "m_kernel_map m' = m_kernel_map m"
    and "\<And>v. unat v < 0xffc00000 \<Longrightarrow>
      translate m' v = (if 4096 \<le> unat v \<and> unat v < 0x1000000 then Some (IDX v) else None)"
proof -
  obtain m' where m': "mapping_init m = Inr m'" "m_phys m' = boot_phys (m_phys m)" "m_cr3 m' = 0x1000"
    "length (m_map m') = length (m_map m)"
    "\<forall>i. m_map m' ! i = (if i < 4096 \<and> i \<noteq> 0 then 1 else m_map m ! i)"
    "m_total_pages m' = m_total_pages m" "m_free_pages m' = m_free_pages m"
    "m_start_page m' = m_start_page m" "m_kernel_map m' = m_kernel_map m"
    using mapping_init_spec [of m] len tot(1) by auto
  have low: "m_map m' ! i = 1" if "i < 4096" for i
    using that used start(1) spec [OF m'(5), of i] by (cases "i = 0") auto
  have high: "m_map m' ! i = 0" if "4096 \<le> i" "i < unat (m_total_pages m)" for i
    using that clear start(2) spec [OF m'(5), of i] by auto
  have ff: "free_frames m' = {4096..<unat (m_total_pages m)}"
    using low high start by (auto simp: free_frames_def m'(6,8)) (metis linorder_not_less zero_neq_one)
  have "mem_wf m'"
    unfolding mem_wf_def ff using start tot len low free by (auto simp: m')
  moreover have pd: "pdir m' = 1" by (simp add: pdir_def m'(3) IDX_def)
  have pde: "pde_at m' d = (if d = 1023 then entry_init 1 else if unat d < 4 then kernel_entry (d + 2) else 0)" for d
    by (simp add: pde_at_def pd m'(2) boot_phys_def)
  have e1: "pe_present (entry_init 1)" "pe_index (entry_init 1) = 1" using entry_init_fields [of 1] by simp_all
  have d2: "unat (d + 2) = unat d + 2" if "unat d < 4" for d :: u32
    using that by (subst unat_add_small) simp_all
  have ke: "pe_present (kernel_entry (d + 2))" "pe_index (kernel_entry (d + 2)) = d + 2" if "unat d < 4" for d
    using kernel_entry_fields [of "d + 2"] d2 [OF that] that by simp_all
  have self: "self_map m'" by (simp add: self_map_def pde e1 pd)
  have pres: "pe_present (pde_at m' d) \<longleftrightarrow> d = 1023 \<or> unat d < 4" for d
    using ke [of d] e1 by (auto simp: pde)
  have ind: "pe_index (pde_at m' d) = (if d = 1023 then 1 else d + 2)" if "pe_present (pde_at m' d)" for d
    using that ke [of d] e1 by (auto simp: pde)
  have n1: "d + 2 \<noteq> 1" if "unat d < 4" for d :: u32
  proof
    assume "d + 2 = 1"
    then have "unat (d + 2) = unat (1 :: u32)" by (rule arg_cong)
    with d2 [OF that] show False by (simp only: unat_1)
  qed
  have inj: "d = e" if "pe_present (pde_at m' d)" "pe_present (pde_at m' e)"
    "pe_index (pde_at m' d) = pe_index (pde_at m' e)" for d e
  proof -
    show ?thesis using that ind [OF that(1)] ind [OF that(2)] n1 [of d] n1 [of e]
      by (auto simp: pres split: if_splits)
  qed
  have tab: "unat f < unat (m_total_pages m') \<and> m_map m' ! unat f \<noteq> 0" if f: "f \<in> table_frames m'" for f
  proof -
    obtain d where d: "f = pe_index (pde_at m' d)" "pe_present (pde_at m' d)"
      using f by (auto simp: table_frames_def)
    then have "unat f < 6" using ind [OF d(2)] d2 [of d] by (auto simp: pres split: if_splits)
    with low [of "unat f"] tot(1) show ?thesis by (simp add: m'(6))
  qed
  have pte: "pte_at m' d t = (if (unat d * 1024 + unat t) = 0 then 0 else kernel_entry (of_nat (unat d * 1024 + unat t)))"
    if "unat d < 4" "unat t < 1024" for d t
  proof -
    have ne: "d \<noteq> 1023" "d + 2 \<noteq> 1" using that(1) n1 by auto
    then have "pe_index (pde_at m' d) = d + 2" using ind [of d] that by (auto simp: pres)
    then show ?thesis
      using that ne d2 [OF that(1)]
      by (simp add: pte_at_def m'(2) boot_phys_def kernel_slot_def Let_def)
  qed
  have "as_wf m'"
    unfolding as_wf_def
    using \<open>mem_wf m'\<close> self inj tab pres [of 0] pte [of 0 0] user_dir_less
    by (auto simp: mapped_entry_def pres user_dir_def)
  moreover have "translate m' v = (if 4096 \<le> unat v \<and> unat v < 0x1000000 then Some (IDX v) else None)"
    if "unat v < 0xffc00000" for v
  proof -
    have dv: "unat (DIDX v) = unat v div 4194304" using that by (simp add: unat_DIDX less_mult_imp_div_less)
    then have n1023: "DIDX v \<noteq> 1023" using that by (auto simp: less_mult_imp_div_less)
    show ?thesis
    proof (cases "unat v < 0x1000000")
      case True
      then have d4: "unat (DIDX v) < 4" unfolding dv by (simp add: less_mult_imp_div_less)
      have i: "unat (DIDX v) * 1024 + unat (TIDX v) = unat v div 4096"
      proof -
        have "unat v div 4194304 = unat v div 4096 div 1024" by (simp add: div_mult2_eq [symmetric])
        then show ?thesis unfolding dv unat_TIDX by simp
      qed
      have i20: "unat (of_nat (unat v div 4096) :: u32) = unat v div 4096"
        using True by (simp add: unat_of_nat less_mult_imp_div_less)
      have "of_nat (unat v div 4096) = IDX v" using i20 by (simp add: word_unat_eq_iff unat_IDX)
      then show ?thesis
        using pte [OF d4 unat_TIDX_less [of v]] pres [of "DIDX v"] d4 True
          kernel_entry_fields [of "IDX v"] i
        by (auto simp: translate_parts i unat_IDX)
    next
      case False
      then have "\<not> unat (DIDX v) < 4" unfolding dv by (simp add: div_less_iff_less_mult)
      then show ?thesis using False n1023 pres [of "DIDX v"] by (simp add: translate_parts)
    qed
  qed
  ultimately show thesis using that [of m'] m'(1,6,9) ff by blast
qed


section \<open>User addresses\<close>

lemma user_address_dir:
  assumes "USER_EXEC_ADDR \<le> v" and "v < USER_STACK_TOP"
  shows "user_dir (DIDX v)"
proof -
  have v: "0x1000000 \<le> unat v" "unat v < 0x10000000"
    using assms by (simp_all add: USER_EXEC_ADDR_def KERNEL_MEMORY_SIZE_def USER_STACK_TOP_def
        word_le_nat_alt word_less_nat_alt)
  then have "4 \<le> unat v div 4194304" "unat v div 4194304 < 64"
    by (simp_all add: less_mult_imp_div_less less_eq_div_iff_mult_less_eq)
  then show ?thesis by (simp add: user_dir_def unat_DIDX)
qed

text \<open>A small address space for the witnesses: one table at frame 4096 whose first entry
  shows frame 4097 read-only with two references; frames 4098 and 4099 are free.\<close>

definition demo_space :: mem_t where
  "demo_space = \<lparr>m_phys = (\<lambda>f w. if f = 1 then if w = 0 then entry_init 2 else if w = 1023 then entry_init 1
        else if w = 4 then entry_init 4096 else 0
      else if f = 4096 \<and> w = 0 then unset_bit 1 (entry_init 4097) else 0),
     m_base = 0x100000, m_size = 0xF04000, m_total_pages = 4100,
     m_free_pages = 2 + (4096 - 258), m_start_page = 258, m_map = replicate 4096 1 @ [1, 2, 0, 0],
     m_kernel_map = \<lparr>bm_bits = [3, 0], bm_length = 2, bm_offset = 256\<rparr>, m_cr3 = 0x1000\<rparr>"

lemma demo_space_map:
  "i < 4100 \<Longrightarrow> m_map demo_space ! i = (if i \<le> 4096 then 1 else if i = 4097 then 2 else 0)"
  by (auto simp: demo_space_def nth_append nth_Cons split: nat.splits)

lemma demo_space_entries:
  "pdir demo_space = 1"
  "pde_at demo_space d = (if d = 0 then entry_init 2 else if d = 1023 then entry_init 1
     else if d = 4 then entry_init 4096 else 0)"
  "pe_present (pde_at demo_space d) \<longleftrightarrow> d = 0 \<or> d = 1023 \<or> d = 4"
  "pe_index (entry_init 1) = 1" "pe_index (entry_init 2) = 2" "pe_index (entry_init 4096) = 4096"
  "pe_index (entry_init 4097) = 4097"
proof -
  show pd: "pdir demo_space = 1" by (simp add: pdir_def demo_space_def IDX_def)
  show pde: "pde_at demo_space d = (if d = 0 then entry_init 2 else if d = 1023 then entry_init 1
     else if d = 4 then entry_init 4096 else 0)" for d
    by (simp add: pde_at_def pd) (simp add: demo_space_def)
  have i: "unat i < 2 ^ 20 \<Longrightarrow> pe_present (entry_init i) \<and> pe_index (entry_init i) = i" for i
    using entry_init_fields [of i] by simp
  show "pe_present (pde_at demo_space d) \<longleftrightarrow> d = 0 \<or> d = 1023 \<or> d = 4"
    using i [of 1] i [of 2] i [of 4096] by (simp add: pde)
  show "pe_index (entry_init 1) = 1" "pe_index (entry_init 2) = 2" "pe_index (entry_init 4096) = 4096"
    "pe_index (entry_init 4097) = 4097"
    using i [of 1] i [of 2] i [of 4096] i [of 4097] by simp_all
qed

lemma demo_space_ptes:
  "pte_at demo_space 0 t = 0" "pte_at demo_space 4 t = (if t = 0 then unset_bit 1 (entry_init 4097) else 0)"
  by (simp_all add: pte_at_def demo_space_entries) (simp_all add: demo_space_def)

lemma demo_space_tables: "table_frames demo_space = {1, 2, 4096}"
proof -
  have "table_frames demo_space = (\<lambda>d. pe_index (pde_at demo_space d)) ` {0, 1023, 4}"
    by (auto simp: table_frames_def demo_space_entries(3))
  then show ?thesis by (auto simp: demo_space_entries)
qed

lemma demo_space_free: "free_frames demo_space = {4098, 4099}"
proof (rule set_eqI)
  fix i
  have "i \<in> free_frames demo_space \<longleftrightarrow> 258 \<le> i \<and> i < 4100 \<and> m_map demo_space ! i = 0"
    by (simp add: free_frames_def) (simp add: demo_space_def)
  also have "\<dots> \<longleftrightarrow> i = 4098 \<or> i = 4099"
    using demo_space_map [of i] by (cases "i < 4100") (auto split: if_splits)
  finally show "i \<in> free_frames demo_space \<longleftrightarrow> i \<in> {4098, 4099}" by simp
qed

lemma demo_space_wf: "as_wf demo_space"
proof -
  have num: "m_total_pages demo_space = 4100" "m_start_page demo_space = 258"
    "m_free_pages demo_space = 2 + (4096 - 258)" "length (m_map demo_space) = 4100"
    by (simp_all add: demo_space_def)
  have "mem_wf demo_space"
    unfolding mem_wf_def demo_space_free using demo_space_map by (simp add: num)
  moreover have "self_map demo_space" by (simp add: self_map_def demo_space_entries)
  moreover have "user_frame demo_space (pe_index (pte_at demo_space d t))"
    if "user_dir d" "mapped_entry demo_space d t" for d t
  proof -
    have "d = 4" using that by (auto simp: mapped_entry_def demo_space_entries(3) user_dir_def)
    moreover have "t = 0" using that \<open>d = 4\<close> by (auto simp: mapped_entry_def demo_space_ptes split: if_splits)
    ultimately show ?thesis
      using demo_space_map [of 4097]
      by (simp add: user_frame_def demo_space_ptes demo_space_entries demo_space_tables num)
  qed
  ultimately show ?thesis
    unfolding as_wf_def using demo_space_map
    by (auto simp: demo_space_entries demo_space_ptes demo_space_tables num split: if_splits)
qed

section \<open>Properties\<close>

text \<open>
  C7. Booting with any memory map whose chosen zone has at most 4095 megabytes ends in a
  consistent memory system: the frame table satisfies its invariant and exactly the frames
  above the kernel's 16 megabytes are free, the kernel page map is well formed, and the page
  tables map the kernel's memory one to one, leave page 0 and all user addresses unmapped,
  and contain the recursive entry.
\<close>
theorem boot_memory_established:
  assumes "memory_init m magic ards tags = Inr m1" and "m_size m1 \<le> 0xFFF00000"
    and "2 ^ 20 \<le> length ram" and "length kbits = 480"
  shows "\<exists>m'. boot_memory m magic ards tags ram kbits = Inr m' \<and> as_wf m' \<and> kpage_inv m'
    \<and> free_frames m' = {4096..<unat (m_total_pages m')}
    \<and> (\<forall>v. unat v < 0xFFC00000 \<longrightarrow>
        translate m' v = (if 4096 \<le> unat v \<and> unat v < 0x1000000 then Some (IDX v) else None))"
proof -
  note r = memory_init_result [OF assms(1)]
  have s: "4096 \<le> unat (IDX (m_size m1))" "unat (IDX (m_size m1)) \<le> 2 ^ 20 - 256"
    using r(3) assms(2)
    by (simp_all add: unat_IDX KERNEL_MEMORY_SIZE_def word_le_nat_alt less_eq_div_iff_mult_less_eq)
  obtain m2 where m2: "memory_map_init m1 ram kbits = Inr m2" "kpage_inv m2"
    "unat (m_total_pages m2) = unat (IDX (m_size m1)) + 256"
    "256 < unat (m_start_page m2)" "unat (m_start_page m2) \<le> 512"
    "unat (m_free_pages m2) = unat (m_total_pages m2) - unat (m_start_page m2)"
    "unat (m_total_pages m2) \<le> length (m_map m2)" "length (m_map m2) = length ram"
    "\<forall>i < unat (m_start_page m2). m_map m2 ! i = 1"
    "\<forall>i. unat (m_start_page m2) \<le> i \<longrightarrow> i < unat (m_total_pages m2) \<longrightarrow> m_map m2 ! i = 0"
    using memory_map_init_result [OF r(1,2) s assms(3,4)] .
  have "0 < unat (m_start_page m2)" "unat (m_start_page m2) < 4096" "4096 < unat (m_total_pages m2)"
    "unat (m_total_pages m2) \<le> 2 ^ 20" using m2(3-5) s by simp_all
  from mapping_init_wf [OF this m2(7,9,10,6)] obtain m' where m': "mapping_init m2 = Inr m'" "as_wf m'"
    "free_frames m' = {4096..<unat (m_total_pages m2)}" "m_total_pages m' = m_total_pages m2"
    "m_kernel_map m' = m_kernel_map m2"
    "\<And>v. unat v < 0xffc00000 \<Longrightarrow>
      translate m' v = (if 4096 \<le> unat v \<and> unat v < 0x1000000 then Some (IDX v) else None)" by metis
  have "boot_memory m magic ards tags ram kbits = Inr m'"
    by (simp add: boot_memory_def assms(1) m2(1) m'(1))
  with m' m2(2) show ?thesis by (auto simp: kpage_inv_def)
qed

lemma boot_memory_established_witness:
  "\<exists>m'. boot_memory demo_mem YLOS_MAGIC [Zone 0 0x9FC00 1, Zone 0x100000 0x1F00000 1] [] (replicate (2 ^ 20) 0) (replicate 480 0) = Inr m'
    \<and> as_wf m' \<and> kpage_inv m'"
proof -
  let ?m1 = "demo_mem\<lparr>m_base := 0x100000, m_size := 0x1F00000, m_total_pages := 0x2000, m_free_pages := 0x1F00\<rparr>"
  have a: "m_size ?m1 \<le> 0xFFF00000" by simp
  have b: "memory_init demo_mem YLOS_MAGIC [Zone 0 0x9FC00 1, Zone 0x100000 0x1F00000 1] [] = Inr ?m1"
    by (simp add: memory_init_def memory_zones_def pick_zone_def MEMORY_BASE_def KERNEL_MEMORY_SIZE_def IDX_def)
      (simp add: demo_mem_def)
  have c: "2 ^ 20 \<le> length (replicate (2 ^ 20) (0 :: u8))" "length (replicate 480 (0 :: u8)) = 480"
    by (simp_all only: length_replicate)
  from boot_memory_established [OF b a c] show ?thesis by blast
qed

text \<open>
  C5. A user program's access to a page that is not present, below its break or in its stack
  area, is served with a fresh frame.  One frame is needed, and another one when the page has no
  page table yet; with fewer free frames the handler panics, otherwise it comes
  back with that page alone newly mapped (present, writable, user) to a frame that was free
  and is now counted once; every other page keeps its frame and all frames but page tables
  keep their contents.
\<close>
theorem page_fault_maps_fresh_frame:
  assumes "as_wf m" and "USER_EXEC_ADDR \<le> v" and "v < USER_STACK_TOP" and "translate m v = None"
    and "\<not> bit err 0" and "v < t_brk task \<or> USER_STACK_BOTTOM \<le> v"
  shows "if card (free_frames m) < frames_needed m v then page_fault m task 0xe v err = Inl Kernel_Panic
    else \<exists>m' f. page_fault m task 0xe v err = Inr (Fault_Mapped m') \<and> linked_page m v f m'"
proof -
  have "user_dir (DIDX (PAGE (IDX v)))" using user_address_dir [OF assms(2,3)] by (simp add: PAGE_IDX_parts)
  note link = link_page_unmapped [OF assms(1) PAGE_IDX_parts(3) this]
  have same: "frames_needed m (PAGE (IDX v)) = frames_needed m v" "linked_page m (PAGE (IDX v)) = linked_page m v"
    "translate m (PAGE (IDX v)) = translate m v"
    by (simp_all add: frames_needed_def linked_page_def PAGE_IDX_parts fun_eq_iff)
  have "if card (free_frames m) < frames_needed m v then link_page m (PAGE (IDX v)) = Inl Kernel_Panic
      else \<exists>m' f. link_page m (PAGE (IDX v)) = Inr m' \<and> linked_page m v f m'"
    using link [unfolded same, OF assms(4)] .
  moreover have "page_fault m task 0xe v err = bindr (link_page m (PAGE (IDX v))) (\<lambda>m. Inr (Fault_Mapped m))"
    using assms(2,3,5,6) by (auto simp: page_fault_def not_le not_less)
  ultimately show ?thesis by (auto split: if_splits)
qed

lemma page_fault_maps_fresh_frame_witness:
  "\<forall>task. \<exists>m' f. page_fault demo_space (task\<lparr>t_brk := 0x1002000\<rparr>) 0xe 0x1001234 4 = Inr (Fault_Mapped m')
     \<and> linked_page demo_space 0x1001234 f m'"
proof
  fix task :: task_t
  have "DIDX 0x1001234 = 4" "TIDX 0x1001234 = 1" by (simp_all add: DIDX_def TIDX_def)
  then have tr: "translate demo_space 0x1001234 = None"
    by (simp add: translate_parts demo_space_ptes)
  have room: "\<not> card (free_frames demo_space) < frames_needed demo_space 0x1001234"
    by (simp add: demo_space_free frames_needed_def)
  have "USER_EXEC_ADDR \<le> 0x1001234" "0x1001234 < USER_STACK_TOP" "\<not> bit (4 :: u32) 0"
    "0x1001234 < t_brk (task\<lparr>t_brk := 0x1002000\<rparr>) \<or> USER_STACK_BOTTOM \<le> 0x1001234"
    by (simp_all add: USER_EXEC_ADDR_def KERNEL_MEMORY_SIZE_def USER_STACK_TOP_def)
  from page_fault_maps_fresh_frame [OF demo_space_wf this(1,2) tr this(3,4)] room
  show "\<exists>m' f. page_fault demo_space (task\<lparr>t_brk := 0x1002000\<rparr>) 0xe 0x1001234 4 = Inr (Fault_Mapped m')
       \<and> linked_page demo_space 0x1001234 f m'" by simp
qed

text \<open>
  C4. Copy on write: when a user program writes to a private page that is mapped read-only
  because its frame is shared, the handler gives it a frame of its own with the same
  contents and takes one reference from the old frame, whose contents stay as they are, and it
  panics only when no frame is free; when
  the frame has no other user the page just becomes writable.  Either way no other page
  changes its frame and no data frame its contents (the fresh frame apart), and the invariant
  of the address space is kept.
\<close>
theorem page_fault_copy_on_write:
  assumes "as_wf m" and "USER_EXEC_ADDR \<le> v" and "v < USER_STACK_TOP" and "translate m v = Some old"
    and "bit err 0" and "bit err 1"
    and "\<not> pe_shared (pte_at m (DIDX v) (TIDX v))" and "\<not> pe_readonly (pte_at m (DIDX v) (TIDX v))"
  shows "if frame_used m (unat old) = 1
    then (\<exists>m'. page_fault m task 0xe v err = Inr (Fault_Mapped m') \<and> as_wf m'
      \<and> pe_write (pte_at m' (DIDX v) (TIDX v)) \<and> (\<forall>a. translate m' a = translate m a) \<and> m_map m' = m_map m
      \<and> (\<forall>g. g \<notin> table_frames m \<longrightarrow> m_phys m' g = m_phys m g))
    else if free_frames m = {} then page_fault m task 0xe v err = Inl Kernel_Panic
    else \<exists>m' f. page_fault m task 0xe v err = Inr (Fault_Mapped m') \<and> private_copy m v old f m'"
proof -
  have pf: "page_fault m task 0xe v err = bindr (write_fault m v) (\<lambda>m. Inr (Fault_Mapped m))"
    using assms(5,6) leD [OF assms(2)] leD [of USER_STACK_TOP v] assms(3) by (auto simp: page_fault_def)
  note d = user_address_dir [OF assms(2,3)]
  show ?thesis
  proof (cases "frame_used m (unat old) = 1")
    case True
    with write_fault_sole [OF assms(1) d assms(4,7,8) True] pf show ?thesis by auto
  next
    case False
    with write_fault_copy [OF assms(1) d assms(4,7,8) False] pf show ?thesis by (auto split: if_splits)
  qed
qed

lemma page_fault_copy_on_write_witness:
  "\<forall>task. \<exists>m' f. page_fault demo_space task 0xe 0x1000010 7 = Inr (Fault_Mapped m')
     \<and> private_copy demo_space 0x1000010 4097 f m'"
proof
  fix task :: task_t
  let ?v = "0x1000010 :: u32"
  have v: "DIDX ?v = 4" "TIDX ?v = 0" by (simp_all add: DIDX_def TIDX_def)
  have e: "pe_present (entry_init 4097)" "\<not> pe_shared (entry_init 4097)" "\<not> pe_readonly (entry_init 4097)"
    using entry_init_fields [of 4097] by simp_all
  have tr: "translate demo_space ?v = Some 4097"
    using e(1) by (simp add: translate_parts v demo_space_ptes demo_space_entries)
  have "frame_used demo_space (unat (4097 :: u32)) \<noteq> 1"
    using demo_space_map [of 4097] by (simp add: frame_used_def)
  moreover have "\<not> pe_shared (pte_at demo_space (DIDX ?v) (TIDX ?v))" "\<not> pe_readonly (pte_at demo_space (DIDX ?v) (TIDX ?v))"
    using e by (simp_all add: v demo_space_ptes pe_shared_def pe_readonly_def bit_unset_bit_iff)
  moreover have "bit (7 :: u32) 0" "bit (7 :: u32) 1" by code_simp+
  ultimately show "\<exists>m' f. page_fault demo_space task 0xe 0x1000010 7 = Inr (Fault_Mapped m')
       \<and> private_copy demo_space 0x1000010 4097 f m'"
    using page_fault_copy_on_write [OF demo_space_wf _ _ tr, of 7 task]
    by (simp add: USER_EXEC_ADDR_def KERNEL_MEMORY_SIZE_def USER_STACK_TOP_def demo_space_free)
qed

end
