(* ===== verification/Ylos_Arena.thy ===== *)
theory Ylos_Arena
  imports Ylos_Frames Ylos_List
begin

text \<open>
  kernel/arena.c with include/ylos/arena.h: the kernel heap.  Sizes up to 1024 bytes come
  from blocks of 16, 32, ..., 1024 bytes cut out of one-page arenas, larger ones from ranges
  of kernel pages; both start with the header \<open>arena_t\<close>.  The free blocks of a descriptor
  form a linked list whose nodes are the blocks themselves.  The state holds the kernel page
  map, the links of the lists, the descriptors and the header that lies at each page.
  The lemmas are about the arena_blocks an arena is cut into; \<open>Ylos_Heap\<close> proves the heap safe.
\<close>

section \<open>The code\<close>

definition DESC_COUNT :: nat where "DESC_COUNT = 7"

text \<open>A list node is the head or the tail of a descriptor's free list, or a block.\<close>

datatype anode = Free_Head nat | Free_Tail nat | Block u32

record arena_descriptor_t =
  d_total_block :: u32
  d_block_size :: u32
  d_page_count :: u32

text \<open>\<open>desc\<close> is the index of the descriptor, NULL is \<open>None\<close>; \<open>sizeof(arena_t)\<close> is 16.\<close>

record arena_t =
  ar_desc :: "nat option"
  ar_count :: u32
  ar_large :: u32
  ar_magic :: u32

definition ARENA_HEADER :: u32 where "ARENA_HEADER = 16"

record heap_t =
  h_mem :: mem_t
  h_links :: "anode links"
  h_desc :: "arena_descriptor_t list"
  h_arena :: "u32 \<Rightarrow> arena_t"

definition free_list :: "nat \<Rightarrow> anode list_t" where
  "free_list i = \<lparr>l_head = Free_Head i, l_tail = Free_Tail i\<rparr>"

definition get_block_arena :: "u32 \<Rightarrow> u32" where
  "get_block_arena block = block AND 0xfffff000"

text \<open>\<open>memset\<close> of the pages of an arena: its header and all list nodes in it become zero.\<close>

definition zero_arena :: "heap_t \<Rightarrow> u32 \<Rightarrow> u32 \<Rightarrow> heap_t" where
  "zero_arena h a count =
     h\<lparr>h_arena := (\<lambda>p. if unat (IDX p) \<in> page_range a (unat count)
          then \<lparr>ar_desc = None, ar_count = 0, ar_large = 0, ar_magic = 0\<rparr> else h_arena h p),
       h_links := \<lparr>l_next = (\<lambda>n. case n of Block b \<Rightarrow> if unat (IDX b) \<in> page_range a (unat count) then None
                                    else l_next (h_links h) n | _ \<Rightarrow> l_next (h_links h) n),
                  l_prev = (\<lambda>n. case n of Block b \<Rightarrow> if unat (IDX b) \<in> page_range a (unat count) then None
                                    else l_prev (h_links h) n | _ \<Rightarrow> l_prev (h_links h) n)\<rparr>\<rparr>"

text \<open>The loop of \<open>arena_init\<close>, from descriptor \<open>i\<close> on with the next block size.\<close>

fun init_descriptors :: "nat \<Rightarrow> nat \<Rightarrow> u32 \<Rightarrow> heap_t \<Rightarrow> heap_t" where
  "init_descriptors 0 i size' h = h"
| "init_descriptors (Suc n) i size' h =
     init_descriptors n (Suc i) (push_bit 1 size')
       (h\<lparr>h_desc := (h_desc h)[i := \<lparr>d_total_block = (PAGE_SIZE - ARENA_HEADER) div size', d_block_size = size',
                                   d_page_count = d_page_count (h_desc h ! i)\<rparr>],
          h_links := list_init (h_links h) (free_list i)\<rparr>)"

definition arena_init :: "heap_t \<Rightarrow> heap_t" where
  "arena_init h = init_descriptors DESC_COUNT 0 16 h"

definition get_arena_block :: "heap_t \<Rightarrow> u32 \<Rightarrow> u32 \<Rightarrow> u32 result" where
  "get_arena_block h arena idx =
     bindr (deref (ar_desc (h_arena h arena))) (\<lambda>d.
     bindr (load_at (h_desc h) d) (\<lambda>desc.
       if \<not> idx < d_total_block desc then Inl Assert_Failed
       else Inr (arena + ARENA_HEADER + idx * d_block_size desc)))"

text \<open>The search for the descriptor: the first whose arena_blocks are large enough, or the last.\<close>

fun find_desc :: "arena_descriptor_t list \<Rightarrow> u32 \<Rightarrow> nat \<Rightarrow> nat" where
  "find_desc [] size' i = i - 1"
| "find_desc (d # ds) size' i = (if size' \<le> d_block_size d then i else find_desc ds size' (Suc i))"

fun fill_arena :: "heap_t \<Rightarrow> nat \<Rightarrow> u32 \<Rightarrow> nat \<Rightarrow> u32 \<Rightarrow> heap_t result" where
  "fill_arena h d arena 0 i = Inr h"
| "fill_arena h d arena (Suc n) i =
     bindr (get_arena_block h arena i) (\<lambda>block.
     bindr (list_search (h_links h) (free_list d) (Block block)) (\<lambda>found.
       if found then Inl Assert_Failed
       else bindr (list_push (h_links h) (free_list d) (Block block)) (\<lambda>links.
            let h = h\<lparr>h_links := links\<rparr>
            in bindr (list_search (h_links h) (free_list d) (Block block)) (\<lambda>found.
               if \<not> found then Inl Assert_Failed else fill_arena h d arena n (i + 1)))))"

definition new_arena :: "heap_t \<Rightarrow> nat \<Rightarrow> arena_descriptor_t \<Rightarrow> heap_t result" where
  "new_arena h d desc =
     bindr (alloc_kpage (h_mem h) 1) (\<lambda>(mem, arena).
       let h = zero_arena (h\<lparr>h_mem := mem\<rparr>) arena 1;
           h = h\<lparr>h_desc := (h_desc h)[d := desc\<lparr>d_page_count := d_page_count desc + 1\<rparr>],
                 h_arena := (h_arena h)(arena := \<lparr>ar_desc = Some d, ar_count = d_total_block desc,
                                                 ar_large = 0, ar_magic = YLOS_MAGIC\<rparr>)\<rparr>
       in fill_arena h d arena (unat (d_total_block desc)) 0)"

text \<open>The end of \<open>kmalloc\<close>: a block is taken off the descriptor's list.\<close>

definition pop_block :: "heap_t \<Rightarrow> nat \<Rightarrow> (heap_t \<times> u32) result" where
  "pop_block h d =
     bindr (list_pop (h_links h) (free_list d)) (\<lambda>(links, node).
       case node of
         Block block \<Rightarrow>
           let h = h\<lparr>h_links := links\<rparr>; a = get_block_arena block; ar = h_arena h a
           in if \<not> (ar_magic ar = YLOS_MAGIC \<and> ar_large ar = 0) then Inl Assert_Failed
              else Inr (h\<lparr>h_arena := (h_arena h)(a := ar\<lparr>ar_count := ar_count ar - 1\<rparr>)\<rparr>, block)
       | _ \<Rightarrow> Inl Bad_Access)"

definition kmalloc :: "heap_t \<Rightarrow> u32 \<Rightarrow> (heap_t \<times> u32) result" where
  "kmalloc h size' =
     (if 1024 < size'
      then bindr (div_round_up (size' + ARENA_HEADER) PAGE_SIZE) (\<lambda>count.
           bindr (alloc_kpage (h_mem h) count) (\<lambda>(mem, arena).
             let h = zero_arena (h\<lparr>h_mem := mem\<rparr>) arena count
             in Inr (h\<lparr>h_arena := (h_arena h)(arena := \<lparr>ar_desc = None, ar_count = count,
                                                      ar_large = 1, ar_magic = YLOS_MAGIC\<rparr>)\<rparr>,
                     arena + ARENA_HEADER)))
      else let d = find_desc (h_desc h) size' 0
           in bindr (load_at (h_desc h) d) (\<lambda>desc.
              bindr (if list_empty (h_links h) (free_list d) then new_arena h d desc else Inr h) (\<lambda>h.
              pop_block h d)))"

text \<open>The loop of \<open>kfree\<close> that takes the blocks of an empty arena off the list.\<close>

fun drain_arena :: "heap_t \<Rightarrow> nat \<Rightarrow> u32 \<Rightarrow> nat \<Rightarrow> u32 \<Rightarrow> heap_t result" where
  "drain_arena h d arena 0 i = Inr h"
| "drain_arena h d arena (Suc n) i =
     bindr (get_arena_block h arena i) (\<lambda>block.
     bindr (list_search (h_links h) (free_list d) (Block block)) (\<lambda>found.
       if \<not> found then Inl Assert_Failed
       else bindr (list_remove (h_links h) (Block block)) (\<lambda>links.
            let h = h\<lparr>h_links := links\<rparr>
            in bindr (list_search (h_links h) (free_list d) (Block block)) (\<lambda>found.
               if found then Inl Assert_Failed else drain_arena h d arena n (i + 1)))))"

definition kfree :: "heap_t \<Rightarrow> u32 \<Rightarrow> heap_t result" where
  "kfree h ptr =
     (if ptr = 0 then Inl Assert_Failed
      else let a = get_block_arena ptr; ar = h_arena h a
           in if \<not> (ar_large ar = 1 \<or> ar_large ar = 0) \<or> ar_magic ar \<noteq> YLOS_MAGIC then Inl Assert_Failed
              else if ar_large ar = 1
              then bindr (free_kpage (h_mem h) a (ar_count ar)) (\<lambda>mem. Inr (h\<lparr>h_mem := mem\<rparr>))
              else bindr (deref (ar_desc ar)) (\<lambda>d.
                   bindr (load_at (h_desc h) d) (\<lambda>desc.
                   bindr (list_push (h_links h) (free_list d) (Block ptr)) (\<lambda>links.
                     let h = h\<lparr>h_links := links,
                               h_arena := (h_arena h)(a := ar\<lparr>ar_count := ar_count ar + 1\<rparr>)\<rparr>
                     in if ar_count ar + 1 = d_total_block desc
                        then bindr (drain_arena h d a (unat (d_total_block desc)) 0) (\<lambda>h.
                             bindr (free_kpage (h_mem h) a 1) (\<lambda>mem. Inr (h\<lparr>h_mem := mem\<rparr>)))
                        else Inr h))))"

section \<open>The blocks of an arena\<close>

definition bsize :: "nat \<Rightarrow> nat" where "bsize d = 16 * 2 ^ d"
definition btotal :: "nat \<Rightarrow> nat" where "btotal d = 4080 div bsize d"

definition block_at :: "u32 \<Rightarrow> nat \<Rightarrow> nat \<Rightarrow> u32" where
  "block_at a d i = a + ARENA_HEADER + of_nat i * of_nat (bsize d)"

definition arena_blocks :: "u32 \<Rightarrow> nat \<Rightarrow> u32 set" where
  "arena_blocks a d = block_at a d ` {..<btotal d}"

lemma desc_range: "d < 7 \<Longrightarrow> 16 \<le> bsize d \<and> bsize d \<le> 1024 \<and> 3 \<le> btotal d \<and> btotal d * bsize d \<le> 4080"
proof -
  assume "d < 7"
  then have "d \<in> {0, 1, 2, 3, 4, 5, 6}" by auto
  then show ?thesis by (auto simp: bsize_def btotal_def)
qed

lemma page_end: "page_aligned a \<Longrightarrow> unat a + 4096 \<le> 2 ^ 32"
proof -
  assume "page_aligned a"
  then obtain c where c: "unat a = 4096 * c" by (auto simp: page_aligned_mod)
  with u32_less_2p32 [of a] have "c < 1048576" by simp
  then show ?thesis by (simp add: c)
qed

lemma block_end: "d < 7 \<Longrightarrow> i < btotal d \<Longrightarrow> i * bsize d + bsize d \<le> 4080"
proof -
  assume "d < 7" "i < btotal d"
  then have "Suc i * bsize d \<le> btotal d * bsize d" by (intro mult_le_mono1) simp
  with desc_range [OF \<open>d < 7\<close>] show ?thesis by simp
qed

lemma unat_block_at:
  assumes "page_aligned a" "d < 7" "i < btotal d"
  shows "unat (block_at a d i) = unat a + 16 + i * bsize d"
proof -
  note e = block_end [OF assms(2,3)] page_end [OF assms(1)] desc_range [OF assms(2)]
  have "i * 1 \<le> i * bsize d" using e(3) by (intro mult_le_mono2) simp
  then have i: "i < 2 ^ 32" using e by linarith
  then have 1: "unat (of_nat i * of_nat (bsize d) :: u32) = i * bsize d"
    using e by (subst unat_mult_small) (simp_all add: unat_of_nat)
  have 2: "unat (a + ARENA_HEADER) = unat a + 16"
    using e by (subst unat_add_small) (simp_all add: ARENA_HEADER_def)
  show ?thesis unfolding block_at_def using e 1 2 by (subst unat_add_small) simp_all
qed

lemma get_block_arena_PAGE: "get_block_arena b = PAGE (IDX b)"
proof -
  have m: "(0xfffff000 :: u32) = NOT (mask 12)" by (simp add: mask_eq_exp_minus_1)
  show ?thesis
    unfolding get_block_arena_def PAGE_def IDX_def m
    by (intro bit_word_eqI) (auto simp: bit_simps)
qed

lemma block_page:
  assumes "page_aligned a" "d < 7" "b \<in> arena_blocks a d"
  shows "get_block_arena b = a" and "IDX b = IDX a"
proof -
  obtain i where i: "i < btotal d" "b = block_at a d i" using assms(3) by (auto simp: arena_blocks_def)
  obtain c where c: "unat a = 4096 * c" using assms(1) by (auto simp: page_aligned_mod)
  have "unat b = 4096 * c + (16 + i * bsize d)" using unat_block_at [OF assms(1,2) i(1)] i(2) c by simp
  moreover have "16 + i * bsize d < 4096" using block_end [OF assms(2) i(1)] desc_range [OF assms(2)] by linarith
  ultimately have "unat b div 4096 = c" by simp
  then show idx: "IDX b = IDX a" by (simp add: word_unat_eq_iff unat_IDX c)
  show "get_block_arena b = a" by (simp add: get_block_arena_PAGE idx PAGE_IDX [OF assms(1)])
qed

lemma block_at_inj:
  assumes "page_aligned a" "d < 7" "i < btotal d" "j < btotal d" "block_at a d i = block_at a d j"
  shows "i = j"
proof -
  have "i * bsize d = j * bsize d"
    using arg_cong [OF assms(5), of unat] unfolding unat_block_at [OF assms(1,2,3)] unat_block_at [OF assms(1,2,4)]
    by linarith
  moreover have "0 < bsize d" by (simp add: bsize_def)
  ultimately show ?thesis by simp
qed

lemma card_blocks:
  assumes "page_aligned a" "d < 7"
  shows "card (arena_blocks a d) = btotal d"
proof -
  have "inj_on (block_at a d) {..<btotal d}"
  proof (rule inj_onI)
    fix i j assume ij: "i \<in> {..<btotal d}" "j \<in> {..<btotal d}" and eq: "block_at a d i = block_at a d j"
    show "i = j" by (rule block_at_inj [OF assms lessThan_iff [THEN iffD1, OF ij(1)] lessThan_iff [THEN iffD1, OF ij(2)] eq])
  qed
  from card_image [OF this] show ?thesis unfolding arena_blocks_def card_lessThan .
qed

lemma finite_blocks [simp]: "finite (arena_blocks a d)"
  by (simp add: arena_blocks_def)

text \<open>Two blocks of an arena do not overlap, and none reaches past its page.\<close>

lemma blocks_apart:
  assumes "page_aligned a" "d < 7" "b \<in> arena_blocks a d" "c \<in> arena_blocks a d" "b \<noteq> c"
  shows "unat b + bsize d \<le> unat c \<or> unat c + bsize d \<le> unat b"
proof -
  obtain i j where ij: "i < btotal d" "b = block_at a d i" "j < btotal d" "c = block_at a d j"
    using assms(3,4) by (auto simp: arena_blocks_def)
  then have "i \<noteq> j" using assms(5) by auto
  then have "i < j \<or> j < i" by linarith
  then have "Suc i * bsize d \<le> j * bsize d \<or> Suc j * bsize d \<le> i * bsize d" by (meson Suc_leI mult_le_mono1)
  then show ?thesis
    using unat_block_at [OF assms(1,2) ij(1)] unat_block_at [OF assms(1,2) ij(3)] ij(2,4) by auto
qed

end
