(* ===== verification/Ylos_Heap.thy ===== *)
theory Ylos_Heap
  imports Ylos_Arena
begin

text \<open>
  The proof about the kernel heap of kernel/arena.c: the invariant that ties the free lists, the
  counters and magic numbers of the arenas and the kernel page map together, its preservation
  by \<open>kmalloc\<close> and \<open>kfree\<close>, and the safety of every client: the blocks in use never overlap, and
  \<open>kfree\<close> of one of them passes all assertions.
\<close>

section \<open>What the heap holds\<close>

text \<open>
  \<open>A\<close> maps the first page of every range the heap has taken to what it is used for, \<open>F d\<close> is the
  free list of descriptor \<open>d\<close>.  \<open>live\<close> are the blocks handed out, with their sizes.
\<close>

datatype chunk = Cut nat | Large u32

fun chunk_pages :: "chunk \<Rightarrow> nat" where
  "chunk_pages (Cut d) = 1"
| "chunk_pages (Large n) = unat n"

definition desc_wf :: "heap_t \<Rightarrow> bool" where
  "desc_wf h \<longleftrightarrow> length (h_desc h) = 7 \<and>
     (\<forall>d<7. d_block_size (h_desc h ! d) = of_nat (bsize d) \<and> d_total_block (h_desc h ! d) = of_nat (btotal d))"

definition free_ok :: "(u32 \<Rightarrow> chunk option) \<Rightarrow> nat \<Rightarrow> u32 \<Rightarrow> bool" where
  "free_ok A d b \<longleftrightarrow> A (get_block_arena b) = Some (Cut d) \<and> b \<in> arena_blocks (get_block_arena b) d"

definition cut_header :: "u32 \<Rightarrow> nat \<Rightarrow> u32 set \<Rightarrow> arena_t" where
  "cut_header a d f = \<lparr>ar_desc = Some d, ar_count = of_nat (card (arena_blocks a d \<inter> f)), ar_large = 0, ar_magic = YLOS_MAGIC\<rparr>"

definition large_header :: "u32 \<Rightarrow> arena_t" where
  "large_header n = \<lparr>ar_desc = None, ar_count = n, ar_large = 1, ar_magic = YLOS_MAGIC\<rparr>"

definition heap_rep :: "heap_t \<Rightarrow> (u32 \<Rightarrow> chunk option) \<Rightarrow> (nat \<Rightarrow> u32 list) \<Rightarrow> bool" where
  "heap_rep h A F \<longleftrightarrow> desc_wf h \<and> kpage_inv (h_mem h)
     \<and> (\<forall>d<7. dll (h_links h) (free_list d) (map Block (F d)) \<and> (\<forall>b\<in>set (F d). free_ok A d b))
     \<and> (\<forall>a d. A a = Some (Cut d) \<longrightarrow> d < 7 \<and> page_aligned a \<and> page_range a 1 \<subseteq> kpages (h_mem h)
          \<and> h_arena h a = cut_header a d (set (F d)))
     \<and> (\<forall>a n. A a = Some (Large n) \<longrightarrow> 0 < n \<and> page_aligned a \<and> page_range a (unat n) \<subseteq> kpages (h_mem h)
          \<and> h_arena h a = large_header n)
     \<and> (\<forall>a b x y. A a = Some x \<longrightarrow> A b = Some y \<longrightarrow> a \<noteq> b \<longrightarrow>
          page_range a (chunk_pages x) \<inter> page_range b (chunk_pages y) = {})"

definition heap_wf :: "heap_t \<Rightarrow> (u32 \<Rightarrow> chunk option) \<Rightarrow> (nat \<Rightarrow> u32 list) \<Rightarrow> bool" where
  "heap_wf h A F \<longleftrightarrow> heap_rep h A F \<and> (\<forall>a d. A a = Some (Cut d) \<longrightarrow> \<not> arena_blocks a d \<subseteq> set (F d))"

definition live :: "(u32 \<Rightarrow> chunk option) \<Rightarrow> (nat \<Rightarrow> u32 list) \<Rightarrow> (u32 \<times> nat) set" where
  "live A F = {(b, k). \<exists>a d. A a = Some (Cut d) \<and> b \<in> arena_blocks a d \<and> b \<notin> set (F d) \<and> k = bsize d}
     \<union> {(b, k). \<exists>a n. A a = Some (Large n) \<and> b = a + ARENA_HEADER \<and> k = 4096 * unat n - 16}"

lemma heap_repD:
  assumes "heap_rep h A F"
  shows "desc_wf h" "kpage_inv (h_mem h)"
    "\<And>d. d < 7 \<Longrightarrow> dll (h_links h) (free_list d) (map Block (F d))"
    "\<And>d b. d < 7 \<Longrightarrow> b \<in> set (F d) \<Longrightarrow> free_ok A d b"
    "\<And>a d. A a = Some (Cut d) \<Longrightarrow> d < 7 \<and> page_aligned a \<and> page_range a 1 \<subseteq> kpages (h_mem h)
          \<and> h_arena h a = cut_header a d (set (F d))"
    "\<And>a n. A a = Some (Large n) \<Longrightarrow> 0 < n \<and> page_aligned a \<and> page_range a (unat n) \<subseteq> kpages (h_mem h)
          \<and> h_arena h a = large_header n"
    "\<And>a b x y. A a = Some x \<Longrightarrow> A b = Some y \<Longrightarrow> a \<noteq> b \<Longrightarrow>
          page_range a (chunk_pages x) \<inter> page_range b (chunk_pages y) = {}"
  using assms unfolding heap_rep_def by blast+

lemma heap_rep_cong:
  assumes "heap_rep h A F" "h_mem h' = h_mem h" "h_links h' = h_links h" "h_arena h' = h_arena h" "desc_wf h'"
  shows "heap_rep h' A F"
  using assms unfolding heap_rep_def by simp

lemma rep_distinct: "heap_rep h A F \<Longrightarrow> d < 7 \<Longrightarrow> distinct (F d)"
  using dll_distinct [OF heap_repD(3), of h A F d] by (simp add: distinct_map)

text \<open>The cells of two free lists are disjoint.\<close>

lemma cells_free_list: "cells (free_list d) (map Block xs) = {Free_Head d, Free_Tail d} \<union> Block ` set xs"
  by (auto simp: cells_def free_list_def)

lemma lists_apart:
  assumes "d \<noteq> e" "\<forall>b\<in>set xs. free_ok A d b" "\<forall>b\<in>set ys. free_ok A e b"
  shows "cells (free_list d) (map Block xs) \<inter> cells (free_list e) (map Block ys) = {}"
  using assms unfolding cells_free_list free_ok_def by fastforce

text \<open>
  One list changes to \<open>xs\<close>, touching nodes of \<open>ys\<close> only, and the counter of the one arena whose
  blocks it is about is brought up to date.
\<close>

lemma rep_step:
  assumes rep: "heap_rep h A F" and a: "A a = Some (Cut d)"
    and l: "dll links (free_list d) (map Block xs)"
    and same: "same_outside (cells (free_list d) (map Block ys)) (h_links h) links"
    and ys: "\<forall>b\<in>set ys. free_ok A d b" and xs: "set xs \<subseteq> set ys"
    and other: "\<forall>a'. a' \<noteq> a \<longrightarrow> A a' = Some (Cut d) \<longrightarrow> arena_blocks a' d \<inter> set xs = arena_blocks a' d \<inter> set (F d)"
  shows "heap_rep (h\<lparr>h_links := links, h_arena := (h_arena h)(a := cut_header a d (set xs))\<rparr>) A (F(d := xs))"
proof -
  note r = heap_repD [OF rep]
  have "dll links (free_list e) (map Block ((F(d := xs)) e)) \<and> (\<forall>b\<in>set ((F(d := xs)) e). free_ok A e b)" if "e < 7" for e
  proof (cases "e = d")
    case True
    then show ?thesis using l xs ys by auto
  next
    case False
    have "dll links (free_list e) (map Block (F e))"
      by (rule dll_same_outside [OF r(3) [OF that] same lists_apart [OF False _ ys]]) (use r(4) [OF that] in blast)
    with False r(4) [OF that] show ?thesis by simp
  qed
  moreover have "((h_arena h)(a := cut_header a d (set xs))) a' = cut_header a' e (set ((F(d := xs)) e))"
    if "A a' = Some (Cut e)" for a' e
    using r(5) [OF that] other that a by (auto simp: cut_header_def)
  moreover have "((h_arena h)(a := cut_header a d (set xs))) a' = large_header n" if "A a' = Some (Large n)" for a' n
    using r(6) [OF that] that a by auto
  ultimately show ?thesis
    using r unfolding heap_rep_def by (simp add: desc_wf_def)
qed

lemma cut_page:
  assumes "heap_rep h A F" "A a = Some (Cut d)" "b \<in> arena_blocks a d"
  shows "get_block_arena b = a" "IDX b = IDX a"
  using block_page [of a d b] heap_repD(5) [OF assms(1,2)] assms(3) by blast+

lemma rep_pop:
  assumes rep: "heap_rep h A F" and d: "d < 7" and F: "F d = b # bs"
  defines "a \<equiv> get_block_arena b"
  shows "A a = Some (Cut d)" and "b \<in> arena_blocks a d"
    and "\<exists>links. list_pop (h_links h) (free_list d) = Inr (links, Block b)
      \<and> heap_rep (h\<lparr>h_links := links, h_arena := (h_arena h)(a := cut_header a d (set bs))\<rparr>) A (F(d := bs))"
    and "(h_arena h a)\<lparr>ar_count := ar_count (h_arena h a) - 1\<rparr> = cut_header a d (set bs)"
proof -
  note r = heap_repD [OF rep]
  have ok: "free_ok A d b" using r(4) [OF d, of b] F by simp
  then show A: "A a = Some (Cut d)" and b: "b \<in> arena_blocks a d" by (simp_all add: free_ok_def a_def)
  have dist: "distinct (b # bs)" using rep_distinct [OF rep d] F by simp
  obtain links where pop: "list_pop (h_links h) (free_list d) = Inr (links, Block b)"
    "dll links (free_list d) (map Block bs)"
    "same_outside (cells (free_list d) (map Block (b # bs))) (h_links h) links"
    using list_pop_dll [of "h_links h" "free_list d" "Block b" "map Block bs"] r(3) [OF d] F by auto
  have other: "arena_blocks a' d \<inter> set bs = arena_blocks a' d \<inter> set (F d)" if "a' \<noteq> a" "A a' = Some (Cut d)" for a'
  proof -
    have "b \<notin> arena_blocks a' d" using cut_page(1) [OF rep that(2), of b] that(1) unfolding a_def by blast
    then show ?thesis using F by auto
  qed
  have "\<forall>x\<in>set (b # bs). free_ok A d x" using r(4) [OF d] F by simp
  from rep_step [OF rep A pop(2,3) this] other
  have "heap_rep (h\<lparr>h_links := links, h_arena := (h_arena h)(a := cut_header a d (set bs))\<rparr>) A (F(d := bs))"
    by (simp add: subset_insertI)
  with pop(1) show "\<exists>links. list_pop (h_links h) (free_list d) = Inr (links, Block b)
      \<and> heap_rep (h\<lparr>h_links := links, h_arena := (h_arena h)(a := cut_header a d (set bs))\<rparr>) A (F(d := bs))" by blast
  have "arena_blocks a d \<inter> set (F d) = insert b (arena_blocks a d \<inter> set bs)" using F b by auto
  then have "card (arena_blocks a d \<inter> set (F d)) = Suc (card (arena_blocks a d \<inter> set bs))" using dist by simp
  with r(5) [OF A] show "(h_arena h a)\<lparr>ar_count := ar_count (h_arena h a) - 1\<rparr> = cut_header a d (set bs)"
    by (simp add: cut_header_def)
qed

lemma rep_push:
  assumes rep: "heap_rep h A F" and A: "A a = Some (Cut d)" and b: "b \<in> arena_blocks a d" "b \<notin> set (F d)"
  shows "\<exists>links. list_push (h_links h) (free_list d) (Block b) = Inr links
      \<and> heap_rep (h\<lparr>h_links := links, h_arena := (h_arena h)(a := cut_header a d (set (b # F d)))\<rparr>) A (F(d := b # F d))"
    and "(h_arena h a)\<lparr>ar_count := ar_count (h_arena h a) + 1\<rparr> = cut_header a d (set (b # F d))"
proof -
  note r = heap_repD [OF rep]
  have d: "d < 7" using r(5) [OF A] by blast
  have "Block b \<notin> cells (free_list d) (map Block (F d))" using b(2) by (auto simp: cells_free_list)
  from list_push_dll [OF r(3) [OF d] this] obtain links where push:
    "list_push (h_links h) (free_list d) (Block b) = Inr links"
    "dll links (free_list d) (map Block (b # F d))"
    "same_outside (cells (free_list d) (map Block (b # F d))) (h_links h) links" by auto
  have pg: "get_block_arena b = a" by (rule cut_page(1) [OF rep A b(1)])
  then have "free_ok A d b" using A b(1) by (simp add: free_ok_def)
  then have ok: "\<forall>x\<in>set (b # F d). free_ok A d x" using r(4) [OF d] by simp
  have other: "arena_blocks a' d \<inter> set (b # F d) = arena_blocks a' d \<inter> set (F d)" if "a' \<noteq> a" "A a' = Some (Cut d)" for a'
  proof -
    have "b \<notin> arena_blocks a' d" using cut_page(1) [OF rep that(2), of b] that(1) pg by blast
    then show ?thesis by auto
  qed
  from rep_step [OF rep A push(2,3) ok] other push(1)
  show "\<exists>links. list_push (h_links h) (free_list d) (Block b) = Inr links
      \<and> heap_rep (h\<lparr>h_links := links, h_arena := (h_arena h)(a := cut_header a d (set (b # F d)))\<rparr>) A (F(d := b # F d))"
    by blast
  have "arena_blocks a d \<inter> set (b # F d) = insert b (arena_blocks a d \<inter> set (F d))" using b(1) by auto
  then have "card (arena_blocks a d \<inter> set (b # F d)) = Suc (card (arena_blocks a d \<inter> set (F d)))" using b(2) by simp
  with r(5) [OF A] show "(h_arena h a)\<lparr>ar_count := ar_count (h_arena h a) + 1\<rparr> = cut_header a d (set (b # F d))"
    by (simp add: cut_header_def)
qed

section \<open>The loops over the blocks of an arena\<close>

definition tail_blocks :: "u32 \<Rightarrow> nat \<Rightarrow> nat \<Rightarrow> nat \<Rightarrow> u32 list" where
  "tail_blocks a d i n = map (block_at a d) [i..<i + n]"

lemma tail_blocks_simps [simp]: "tail_blocks a d i 0 = []" "tail_blocks a d i (Suc n) = block_at a d i # tail_blocks a d (Suc i) n"
  by (simp_all add: tail_blocks_def upt_conv_Cons del: upt_Suc)

lemma set_tail_blocks: "set (tail_blocks a d 0 (btotal d)) = arena_blocks a d"
  by (auto simp: tail_blocks_def arena_blocks_def)

lemma tail_blocks_fresh:
  assumes "page_aligned a" "d < 7" "i + Suc n \<le> btotal d"
  shows "block_at a d i \<notin> set (tail_blocks a d (Suc i) n)"
proof
  assume "block_at a d i \<in> set (tail_blocks a d (Suc i) n)"
  then obtain j where j: "Suc i \<le> j" "j < Suc i + n" "block_at a d i = block_at a d j"
    by (auto simp: tail_blocks_def simp del: upt_Suc)
  then have "i = j" using assms(3) by (intro block_at_inj [OF assms(1,2) _ _ j(3)]) auto
  with j(1) show False by simp
qed

lemma btotal_less: "d < 7 \<Longrightarrow> btotal d < 256"
proof -
  assume "d < 7"
  then have "d \<in> {0, 1, 2, 3, 4, 5, 6}" by auto
  then show ?thesis by (auto simp: bsize_def btotal_def)
qed

lemma get_arena_block_eq:
  assumes "desc_wf h" "ar_desc (h_arena h a) = Some d" "d < 7" "i < btotal d"
  shows "get_arena_block h a (of_nat i) = Inr (block_at a d i)"
proof -
  have "i < 2 ^ 32" "btotal d < 2 ^ 32" using btotal_less [OF assms(3)] assms(4) by simp_all
  then have "(of_nat i :: u32) < of_nat (btotal d)" using assms(4) by (simp add: word_less_nat_alt unat_of_nat)
  with assms show ?thesis by (simp add: get_arena_block_def desc_wf_def block_at_def)
qed

lemma fill_arena_spec:
  assumes "desc_wf h" "ar_desc (h_arena h a) = Some d" "d < 7" "page_aligned a" "i + n \<le> btotal d"
    and "dll (h_links h) (free_list d) (map Block xs)" and "set (tail_blocks a d i n) \<inter> set xs = {}"
  shows "\<exists>links. fill_arena h d a n (of_nat i) = Inr (h\<lparr>h_links := links\<rparr>)
    \<and> dll links (free_list d) (map Block (rev (tail_blocks a d i n) @ xs))
    \<and> same_outside (cells (free_list d) (map Block (tail_blocks a d i n @ xs))) (h_links h) links"
  using assms
proof (induction n arbitrary: h i xs)
  case 0
  then show ?case by (auto simp: same_outside_def intro: exI [of _ "h_links h"])
next
  case (Suc n)
  let ?b = "block_at a d i"
  have g: "get_arena_block h a (of_nat i) = Inr ?b" using get_arena_block_eq [of h a d i] Suc.prems by simp
  have nb: "?b \<notin> set xs" using Suc.prems(7) by simp
  have s1: "list_search (h_links h) (free_list d) (Block ?b) = Inr False"
    using list_search_dll [OF Suc.prems(6), of "Block ?b"] nb by auto
  have "Block ?b \<notin> cells (free_list d) (map Block xs)" using nb by (auto simp: cells_free_list)
  from list_push_dll [OF Suc.prems(6) this] obtain l1 where l1:
    "list_push (h_links h) (free_list d) (Block ?b) = Inr l1" "dll l1 (free_list d) (map Block (?b # xs))"
    "same_outside (cells (free_list d) (map Block (?b # xs))) (h_links h) l1" by auto
  let ?h = "h\<lparr>h_links := l1\<rparr>"
  have s2: "list_search l1 (free_list d) (Block ?b) = Inr True"
    using list_search_dll [OF l1(2), of "Block ?b"] by simp
  have "set (tail_blocks a d (Suc i) n) \<inter> set (?b # xs) = {}"
    using Suc.prems(7) tail_blocks_fresh [OF Suc.prems(4,3,5)] by auto
  with Suc.IH [of ?h "Suc i" "?b # xs"] Suc.prems l1(2) obtain links where l:
    "fill_arena ?h d a n (of_nat (Suc i)) = Inr (?h\<lparr>h_links := links\<rparr>)"
    "dll links (free_list d) (map Block (rev (tail_blocks a d (Suc i) n) @ ?b # xs))"
    "same_outside (cells (free_list d) (map Block (tail_blocks a d (Suc i) n @ ?b # xs))) l1 links"
    by (auto simp: desc_wf_def)
  have "fill_arena h d a (Suc n) (of_nat i) = Inr (h\<lparr>h_links := links\<rparr>)"
    using g s1 l1(1) s2 l(1) by (simp add: Let_def add.commute)
  moreover have "same_outside (cells (free_list d) (map Block (tail_blocks a d i (Suc n) @ xs))) (h_links h) links"
    by (rule same_outside_trans [OF same_outside_mono [OF l1(3)] same_outside_mono [OF l(3)]]) (auto simp: cells_def)
  ultimately show ?case using l(2) by auto
qed

lemma drain_arena_spec:
  assumes "desc_wf h" "ar_desc (h_arena h a) = Some d" "d < 7" "page_aligned a" "i + n \<le> btotal d"
    and "dll (h_links h) (free_list d) (map Block xs)" and "set (tail_blocks a d i n) \<subseteq> set xs"
  shows "\<exists>links. drain_arena h d a n (of_nat i) = Inr (h\<lparr>h_links := links\<rparr>)
    \<and> dll links (free_list d) (map Block (filter (\<lambda>b. b \<notin> set (tail_blocks a d i n)) xs))
    \<and> same_outside (cells (free_list d) (map Block xs)) (h_links h) links"
  using assms
proof (induction n arbitrary: h i xs)
  case 0
  then show ?case by (auto simp: same_outside_def intro: exI [of _ "h_links h"])
next
  case (Suc n)
  let ?b = "block_at a d i"
  have g: "get_arena_block h a (of_nat i) = Inr ?b" using get_arena_block_eq [of h a d i] Suc.prems by simp
  have nb: "?b \<in> set xs" using Suc.prems(7) by simp
  have dist: "distinct xs" using dll_distinct [OF Suc.prems(6)] by (simp add: distinct_map)
  have s1: "list_search (h_links h) (free_list d) (Block ?b) = Inr True"
    using list_search_dll [OF Suc.prems(6), of "Block ?b"] nb by auto
  obtain l1 where l1: "list_remove (h_links h) (Block ?b) = Inr l1"
    "dll l1 (free_list d) (remove1 (Block ?b) (map Block xs))"
    "same_outside (cells (free_list d) (map Block xs)) (h_links h) l1"
    using list_remove_member [OF Suc.prems(6), of "Block ?b"] nb by auto
  let ?xs = "filter (\<lambda>b. b \<noteq> ?b) xs" and ?h = "h\<lparr>h_links := l1\<rparr>"
  have rm: "remove1 (Block ?b) (map Block xs) = map Block ?xs"
    using dist by (subst distinct_remove1_removeAll) (auto simp: distinct_map inj_on_def removeAll_filter_not_eq filter_map comp_def intro!: arg_cong [where f = "map Block"] filter_cong)
  have s2: "list_search l1 (free_list d) (Block ?b) = Inr False"
    using list_search_dll [OF l1(2) [unfolded rm], of "Block ?b"] by auto
  have "set (tail_blocks a d (Suc i) n) \<subseteq> set ?xs"
    using Suc.prems(7) tail_blocks_fresh [OF Suc.prems(4,3,5)] by auto
  with Suc.IH [of ?h "Suc i" ?xs] Suc.prems l1(2) [unfolded rm] obtain links where l:
    "drain_arena ?h d a n (of_nat (Suc i)) = Inr (?h\<lparr>h_links := links\<rparr>)"
    "dll links (free_list d) (map Block (filter (\<lambda>b. b \<notin> set (tail_blocks a d (Suc i) n)) ?xs))"
    "same_outside (cells (free_list d) (map Block ?xs)) l1 links"
    by (auto simp: desc_wf_def)
  have "drain_arena h d a (Suc n) (of_nat i) = Inr (h\<lparr>h_links := links\<rparr>)"
    using g s1 l1(1) s2 l(1) by (simp add: Let_def add.commute)
  moreover have "same_outside (cells (free_list d) (map Block xs)) (h_links h) links"
    by (rule same_outside_trans [OF l1(3) same_outside_mono [OF l(3)]]) (auto simp: cells_free_list)
  moreover have "filter (\<lambda>b. b \<notin> set (tail_blocks a d (Suc i) n)) ?xs = filter (\<lambda>b. b \<notin> set (tail_blocks a d i (Suc n))) xs"
    by (simp add: conj_commute)
  ultimately show ?case using l(2) by auto
qed

section \<open>Taking and giving back pages\<close>

lemma chunk_in_kpages:
  assumes "heap_rep h A F" "A a = Some c"
  shows "page_range a (chunk_pages c) \<subseteq> kpages (h_mem h)" "0 < chunk_pages c" "page_aligned a"
  using heap_repD(5,6) [OF assms(1), of a] assms(2)
  by (cases c; auto simp: word_less_nat_alt)+

lemma first_page: "0 < n \<Longrightarrow> unat (IDX a) \<in> page_range a n"
  by (simp add: page_range_def)

lemma fresh_range_unused:
  assumes "heap_rep h A F" "page_range a n \<inter> kpages (h_mem h) = {}" "0 < n"
  shows "A a = None"
proof (rule ccontr)
  assume "A a \<noteq> None"
  then obtain c where "A a = Some c" by auto
  from chunk_in_kpages [OF assms(1) this] first_page [of "chunk_pages c" a] first_page [OF assms(3), of a] assms(2)
  show False by blast
qed

lemma free_block_page:
  assumes "heap_rep h A F" "d < 7" "b \<in> set (F d)"
  shows "unat (IDX b) \<in> kpages (h_mem h)"
proof -
  have ok: "A (get_block_arena b) = Some (Cut d)" "b \<in> arena_blocks (get_block_arena b) d"
    using heap_repD(4) [OF assms] by (simp_all add: free_ok_def)
  have "IDX b = IDX (get_block_arena b)" by (rule cut_page(2) [OF assms(1) ok])
  then show ?thesis
    using heap_repD(5) [OF assms(1) ok(1)] first_page [of 1 "get_block_arena b"] by auto
qed

text \<open>Clearing a range that was not in use changes nothing the heap relies on.\<close>

lemma zero_rep:
  assumes rep: "heap_rep h A F" and fresh: "page_range a (unat n) \<inter> kpages (h_mem h) = {}"
    and mem: "kpage_inv mem" "kpages (h_mem h) \<subseteq> kpages mem"
  shows "heap_rep (zero_arena (h\<lparr>h_mem := mem\<rparr>) a n) A F"
proof -
  note r = heap_repD [OF rep]
  let ?h = "zero_arena (h\<lparr>h_mem := mem\<rparr>) a n"
  have "dll (h_links ?h) (free_list d) (map Block (F d))" if d: "d < 7" for d
  proof (rule dll_frame [OF r(3) [OF d]])
    fix x assume "x \<in> cells (free_list d) (map Block (F d))"
    then consider "x = Free_Head d" | "x = Free_Tail d" | b where "x = Block b" "b \<in> set (F d)"
      unfolding cells_free_list by auto
    then show "l_next (h_links ?h) x = l_next (h_links h) x \<and> l_prev (h_links ?h) x = l_prev (h_links h) x"
    proof cases
      case 3
      with free_block_page [OF rep d 3(2)] fresh show ?thesis by (auto simp: zero_arena_def)
    qed (simp_all add: zero_arena_def)
  qed
  moreover have "h_arena ?h p = h_arena h p" if "A p = Some c" for p c
  proof -
    have "unat (IDX p) \<in> kpages (h_mem h)"
      using chunk_in_kpages [OF rep that] first_page [of "chunk_pages c" p] by auto
    then have "unat (IDX p) \<notin> page_range a (unat n)" using fresh by blast
    then show ?thesis by (simp add: zero_arena_def)
  qed
  moreover have "desc_wf ?h" "h_mem ?h = mem" using r(1) by (simp_all add: zero_arena_def desc_wf_def)
  moreover have "page_range p k \<subseteq> kpages mem" if "page_range p k \<subseteq> kpages (h_mem h)" for p k
    using that mem(2) by blast
  ultimately show ?thesis using r mem(1) unfolding heap_rep_def by auto
qed

text \<open>A range of used pages that is nobody's becomes a chunk.\<close>

lemma add_chunk:
  assumes rep: "heap_rep h A F" and A: "A a = None" and al: "page_aligned a"
    and pages: "page_range a (chunk_pages c) \<subseteq> kpages (h_mem h)"
    and apart: "\<forall>b x. A b = Some x \<longrightarrow> page_range b (chunk_pages x) \<inter> page_range a (chunk_pages c) = {}"
    and c: "case c of Cut d \<Rightarrow> d < 7 | Large n \<Rightarrow> 0 < n"
    and hd: "hd' = (case c of Cut d \<Rightarrow> cut_header a d (set (F d)) | Large n \<Rightarrow> large_header n)"
  shows "heap_rep (h\<lparr>h_arena := (h_arena h)(a := hd')\<rparr>) (A(a \<mapsto> c)) F"
proof -
  note r = heap_repD [OF rep]
  have "free_ok (A(a \<mapsto> c)) d b" if "d < 7" "b \<in> set (F d)" for d b
    using r(4) [OF that] A by (auto simp: free_ok_def)
  moreover have "d < 7 \<and> page_aligned p \<and> page_range p 1 \<subseteq> kpages (h_mem h) \<and> ((h_arena h)(a := hd')) p = cut_header p d (set (F d))"
    if "(A(a \<mapsto> c)) p = Some (Cut d)" for p d
    using r(5) [of p d] that al pages c hd by (cases "p = a") auto
  moreover have "0 < n \<and> page_aligned p \<and> page_range p (unat n) \<subseteq> kpages (h_mem h) \<and> ((h_arena h)(a := hd')) p = large_header n"
    if "(A(a \<mapsto> c)) p = Some (Large n)" for p n
    using r(6) [of p n] that al pages c hd by (cases "p = a") auto
  moreover have "page_range p (chunk_pages x) \<inter> page_range q (chunk_pages y) = {}"
    if "(A(a \<mapsto> c)) p = Some x" "(A(a \<mapsto> c)) q = Some y" "p \<noteq> q" for p q x y
    using r(7) [of p x q y] apart that by (auto split: if_splits)
  ultimately show ?thesis using r(1-3) unfolding heap_rep_def by (simp add: desc_wf_def)
qed

lemma new_range:
  assumes rep: "heap_rep h A F" and alloc: "alloc_kpage (h_mem h) n = Inr (mem, a)" and c: "chunk_pages c = unat n"
    and cc: "case c of Cut d \<Rightarrow> d < 7 | Large n \<Rightarrow> 0 < n"
    and hd: "hd' = (case c of Cut d \<Rightarrow> cut_header a d (set (F d)) | Large n \<Rightarrow> large_header n)"
  shows "A a = None" "page_aligned a"
    and "let h1 = zero_arena (h\<lparr>h_mem := mem\<rparr>) a n in heap_rep (h1\<lparr>h_arena := (h_arena h1)(a := hd')\<rparr>) (A(a \<mapsto> c)) F"
    and "page_range a (unat n) \<inter> kpages (h_mem h) = {}"
proof -
  note law = kmap.alloc_law [OF heap_repD(2) [OF rep] alloc]
  have n: "0 < unat n" using law by (simp add: word_less_nat_alt)
  show fresh: "page_range a (unat n) \<inter> kpages (h_mem h) = {}" using law by blast
  show A: "A a = None" by (rule fresh_range_unused [OF rep fresh n])
  show al: "page_aligned a" using law by blast
  let ?h1 = "zero_arena (h\<lparr>h_mem := mem\<rparr>) a n"
  have rep1: "heap_rep ?h1 A F" by (rule zero_rep [OF rep fresh]) (use law in auto)
  have mem: "h_mem ?h1 = mem" by (simp add: zero_arena_def)
  have "\<forall>b x. A b = Some x \<longrightarrow> page_range b (chunk_pages x) \<inter> page_range a (chunk_pages c) = {}"
    using chunk_in_kpages(1) [OF rep] fresh unfolding c by blast
  then show "let h1 = ?h1 in heap_rep (h1\<lparr>h_arena := (h_arena h1)(a := hd')\<rparr>) (A(a \<mapsto> c)) F"
    unfolding Let_def by (intro add_chunk [OF rep1 A al _ _ cc hd]) (use law c mem in auto)
qed

lemma new_arena_rep:
  assumes rep: "heap_rep h A F" and d: "d < 7" and F: "F d = []"
  shows "new_arena h d (h_desc h ! d) = Inl Kernel_Panic \<and> \<not> kroom (h_mem h) 1 \<or>
    (\<exists>h' a. new_arena h d (h_desc h ! d) = Inr h' \<and> A a = None \<and> page_aligned a
      \<and> page_range a 1 \<inter> kpages (h_mem h) = {}
      \<and> heap_rep h' (A(a \<mapsto> Cut d)) (F(d := rev (tail_blocks a d 0 (btotal d)))))"
proof (cases "alloc_kpage (h_mem h) 1")
  case (Inl e)
  then have "e = Kernel_Panic \<and> \<not> kroom (h_mem h) 1" using alloc_kpage_fails [OF heap_repD(2) [OF rep], of 1] by simp
  with Inl show ?thesis by (simp add: new_arena_def)
next
  case (Inr ma)
  then obtain mem a where alloc: "alloc_kpage (h_mem h) 1 = Inr (mem, a)" by (cases ma) auto
  let ?D = "h_desc h ! d"
  let ?h1 = "zero_arena (h\<lparr>h_mem := mem\<rparr>) a 1"
  let ?h2 = "?h1\<lparr>h_arena := (h_arena ?h1)(a := cut_header a d {})\<rparr>"
  let ?desc = "(h_desc h)[d := ?D\<lparr>d_page_count := d_page_count ?D + 1\<rparr>]"
  let ?h3 = "?h1\<lparr>h_desc := ?desc, h_arena := (h_arena ?h1)(a := \<lparr>ar_desc = Some d, ar_count = d_total_block ?D,
               ar_large = 0, ar_magic = YLOS_MAGIC\<rparr>)\<rparr>"
  have c: "chunk_pages (Cut d) = unat (1 :: u32)" by simp
  have cc: "case Cut d of Cut d \<Rightarrow> d < 7 | Large n \<Rightarrow> 0 < n" using d by simp
  have hd: "cut_header a d {} = (case Cut d of Cut d \<Rightarrow> cut_header a d (set (F d)) | Large n \<Rightarrow> large_header n)" using F by simp
  have nr: "A a = None" "page_aligned a" "heap_rep ?h2 (A(a \<mapsto> Cut d)) F" "page_range a 1 \<inter> kpages (h_mem h) = {}"
    using new_range [OF rep alloc c cc hd] by (simp_all add: Let_def)
  have rep2: "heap_rep ?h2 (A(a \<mapsto> Cut d)) F" using nr(3) .
  have wf3: "desc_wf ?h3" using heap_repD(1) [OF rep] d by (auto simp: desc_wf_def zero_arena_def nth_list_update)
  have D: "unat (d_total_block ?D) = btotal d" "d_total_block ?D = of_nat (btotal d)"
    using heap_repD(1) [OF rep] d btotal_less [OF d] by (simp_all add: desc_wf_def unat_of_nat)
  have "dll (h_links ?h3) (free_list d) (map Block [])" using heap_repD(3) [OF rep2 d] F by simp
  from fill_arena_spec [OF wf3 _ d nr(2) _ this, of 0 "btotal d"] obtain links where l:
    "fill_arena ?h3 d a (btotal d) 0 = Inr (?h3\<lparr>h_links := links\<rparr>)"
    "dll links (free_list d) (map Block (rev (tail_blocks a d 0 (btotal d))))"
    "same_outside (cells (free_list d) (map Block (tail_blocks a d 0 (btotal d)))) (h_links ?h1) links"
    by auto
  let ?xs = "rev (tail_blocks a d 0 (btotal d))"
  have set_xs: "set ?xs = arena_blocks a d" by (simp add: set_tail_blocks)
  have ok: "\<forall>b\<in>set (tail_blocks a d 0 (btotal d)). free_ok (A(a \<mapsto> Cut d)) d b"
    unfolding set_tail_blocks using block_page(1) [OF nr(2) d] by (auto simp: free_ok_def)
  have other: "\<forall>a'. a' \<noteq> a \<longrightarrow> (A(a \<mapsto> Cut d)) a' = Some (Cut d) \<longrightarrow> arena_blocks a' d \<inter> set ?xs = arena_blocks a' d \<inter> set (F d)"
    unfolding set_xs F using block_page(1) [OF nr(2) d] cut_page(1) [OF rep] by fastforce
  have "heap_rep (?h2\<lparr>h_links := links, h_arena := (h_arena ?h2)(a := cut_header a d (set ?xs))\<rparr>) (A(a \<mapsto> Cut d)) (F(d := ?xs))"
    by (rule rep_step [OF rep2 _ l(2) _ ok _ other]) (use l(3) in auto)
  moreover have "cut_header a d (set ?xs) = \<lparr>ar_desc = Some d, ar_count = d_total_block ?D, ar_large = 0, ar_magic = YLOS_MAGIC\<rparr>"
    unfolding set_xs by (simp add: cut_header_def card_blocks [OF nr(2) d] D(2))
  ultimately have "heap_rep (?h3\<lparr>h_links := links\<rparr>) (A(a \<mapsto> Cut d)) (F(d := ?xs))"
    by (elim heap_rep_cong) (use wf3 in \<open>simp_all add: desc_wf_def\<close>)
  moreover have "new_arena h d ?D = Inr (?h3\<lparr>h_links := links\<rparr>)"
    using l(1) alloc D(1) by (simp add: new_arena_def Let_def zero_arena_def)
  ultimately show ?thesis using nr(1,2,4) by auto
qed

section \<open>The blocks in use\<close>

lemma header_page:
  assumes "page_aligned a"
  shows "unat (a + ARENA_HEADER) = unat a + 16" and "get_block_arena (a + ARENA_HEADER) = a"
proof -
  show u: "unat (a + ARENA_HEADER) = unat a + 16"
    using page_end [OF assms] by (subst unat_add_small) (simp_all add: ARENA_HEADER_def)
  obtain c where c: "unat a = 4096 * c" using assms by (auto simp: page_aligned_mod)
  then have "IDX (a + ARENA_HEADER) = IDX a" by (simp add: word_unat_eq_iff unat_IDX u)
  then show "get_block_arena (a + ARENA_HEADER) = a" by (simp add: get_block_arena_PAGE PAGE_IDX [OF assms])
qed

lemma live_iff:
  assumes rep: "heap_rep h A F"
  shows "(b, k) \<in> live A F \<longleftrightarrow> (case A (get_block_arena b) of
      None \<Rightarrow> False
    | Some (Cut d) \<Rightarrow> b \<in> arena_blocks (get_block_arena b) d \<and> b \<notin> set (F d) \<and> k = bsize d
    | Some (Large n) \<Rightarrow> b = get_block_arena b + ARENA_HEADER \<and> k = 4096 * unat n - 16)"
proof -
  have "(\<exists>a d. A a = Some (Cut d) \<and> b \<in> arena_blocks a d \<and> b \<notin> set (F d) \<and> k = bsize d) \<longleftrightarrow>
      (\<exists>d. A (get_block_arena b) = Some (Cut d) \<and> b \<in> arena_blocks (get_block_arena b) d \<and> b \<notin> set (F d) \<and> k = bsize d)"
    using cut_page(1) [OF rep] by auto
  moreover have "(\<exists>a n. A a = Some (Large n) \<and> b = a + ARENA_HEADER \<and> k = 4096 * unat n - 16) \<longleftrightarrow>
      (\<exists>n. A (get_block_arena b) = Some (Large n) \<and> b = get_block_arena b + ARENA_HEADER \<and> k = 4096 * unat n - 16)"
    using header_page(2) heap_repD(6) [OF rep] by auto
  ultimately show ?thesis
    unfolding live_def by (auto split: option.split chunk.split)
qed

lemma live_span:
  assumes rep: "heap_rep h A F" and b: "(b, k) \<in> live A F"
  obtains c where "A (get_block_arena b) = Some c" "unat (get_block_arena b) + 16 \<le> unat b"
    "unat b + k \<le> unat (get_block_arena b) + 4096 * chunk_pages c"
proof (cases "A (get_block_arena b)")
  case None
  then show ?thesis using b live_iff [OF rep] by simp
next
  case (Some c)
  show ?thesis
  proof (cases c)
    case (Cut d)
    with Some b have l: "b \<in> arena_blocks (get_block_arena b) d" "k = bsize d" by (simp_all add: live_iff [OF rep])
    have d: "d < 7" "page_aligned (get_block_arena b)" using heap_repD(5) [OF rep] Some Cut by blast+
    from l(1) obtain i where i: "i < btotal d" "b = block_at (get_block_arena b) d i" unfolding arena_blocks_def by blast
    have "unat b = unat (get_block_arena b) + 16 + i * bsize d"
      using arg_cong [OF i(2), of unat] unfolding unat_block_at [OF d(2,1) i(1)] .
    with that [OF Some] block_end [OF d(1) i(1)] show ?thesis by (simp add: Cut l(2))
  next
    case (Large n)
    with Some b have l: "b = get_block_arena b + ARENA_HEADER" "k = 4096 * unat n - 16" by (simp_all add: live_iff [OF rep])
    have d: "0 < n" "page_aligned (get_block_arena b)" using heap_repD(6) [OF rep] Some Large by blast+
    have "unat b = unat (get_block_arena b) + 16" using arg_cong [OF l(1), of unat] unfolding header_page(1) [OF d(2)] .
    with that [OF Some] d(1) show ?thesis by (simp add: Large l(2) word_less_nat_alt)
  qed
qed

lemma ranges_apart:
  assumes "page_aligned a" "page_aligned b" "page_range a m \<inter> page_range b n = {}" "0 < m" "0 < n"
  shows "unat a + 4096 * m \<le> unat b \<or> unat b + 4096 * n \<le> unat a"
proof -
  obtain c e where ce: "unat a = 4096 * c" "unat b = 4096 * e" using assms(1,2) by (auto simp: page_aligned_mod elim!: dvdE)
  have dis: "{c..<c + m} \<inter> {e..<e + n} = {}" using assms(3) by (simp add: page_range_def unat_IDX ce)
  have "c + m \<le> e \<or> e + n \<le> c"
  proof (rule ccontr)
    assume "\<not> ?thesis"
    then have "max c e \<in> {c..<c + m} \<inter> {e..<e + n}" using assms(4,5) by auto
    with dis show False by blast
  qed
  then show ?thesis unfolding ce by linarith
qed

lemma live_apart:
  assumes rep: "heap_rep h A F" and b: "(b, k) \<in> live A F" and c: "(c, l) \<in> live A F" and ne: "(b, k) \<noteq> (c, l)"
  shows "unat b + k \<le> unat c \<or> unat c + l \<le> unat b"
proof -
  obtain x where x: "A (get_block_arena b) = Some x" "unat (get_block_arena b) + 16 \<le> unat b"
    "unat b + k \<le> unat (get_block_arena b) + 4096 * chunk_pages x" using live_span [OF rep b] .
  obtain y where y: "A (get_block_arena c) = Some y" "unat (get_block_arena c) + 16 \<le> unat c"
    "unat c + l \<le> unat (get_block_arena c) + 4096 * chunk_pages y" using live_span [OF rep c] .
  note xp = chunk_in_kpages [OF rep x(1)] and yp = chunk_in_kpages [OF rep y(1)]
  show ?thesis
  proof (cases "get_block_arena b = get_block_arena c")
    case False
    from ranges_apart [OF xp(3) yp(3) heap_repD(7) [OF rep x(1) y(1) False] xp(2) yp(2)] x y show ?thesis by linarith
  next
    case True
    show ?thesis
    proof (cases x)
      case (Cut d)
      have l: "b \<in> arena_blocks (get_block_arena c) d" "k = bsize d" "c \<in> arena_blocks (get_block_arena c) d" "l = bsize d"
        using b c x(1) unfolding live_iff [OF rep] True Cut by simp_all
      with ne have "b \<noteq> c" by auto
      with blocks_apart [OF yp(3) _ l(1,3)] heap_repD(5) [OF rep, of "get_block_arena c" d] x(1) True Cut l(2,4)
      show ?thesis by auto
    next
      case (Large n)
      have "b = get_block_arena c + ARENA_HEADER" "c = get_block_arena c + ARENA_HEADER" "k = l"
        using b c x(1) unfolding live_iff [OF rep] True Large by simp_all
      with ne show ?thesis by auto
    qed
  qed
qed

section \<open>kmalloc and kfree\<close>

lemma find_desc_spec:
  "x \<in> set ds \<Longrightarrow> s \<le> d_block_size x \<Longrightarrow>
     \<exists>j<length ds. find_desc ds s i = i + j \<and> s \<le> d_block_size (ds ! j) \<and> (\<forall>e<j. d_block_size (ds ! e) < s)"
proof (induction ds arbitrary: i)
  case (Cons y ds)
  show ?case
  proof (cases "s \<le> d_block_size y")
    case False
    with Cons.prems obtain j where j: "j < length ds" "find_desc ds s (Suc i) = Suc i + j" "s \<le> d_block_size (ds ! j)"
      "\<forall>e<j. d_block_size (ds ! e) < s" using Cons.IH [of "Suc i"] by auto
    then have "\<forall>e<Suc j. d_block_size ((y # ds) ! e) < s" using False by (auto simp: nth_Cons split: nat.split)
    with False j show ?thesis by (intro exI [of _ "Suc j"]) auto
  qed auto
qed simp

text \<open>The descriptor for a size up to 1024 is the one with the smallest blocks that hold it.\<close>

lemma find_desc_wf:
  assumes "desc_wf h" "s \<le> 1024"
  obtains d where "find_desc (h_desc h) s 0 = d" "d < 7" "unat s \<le> bsize d" "\<forall>e<d. bsize e < unat s"
proof -
  have len: "length (h_desc h) = 7" using assms(1) by (simp add: desc_wf_def)
  have sz: "unat (d_block_size (h_desc h ! d)) = bsize d" if "d < 7" for d
    using assms(1) desc_range [OF that] that by (simp add: desc_wf_def)
  have "unat (d_block_size (h_desc h ! 6)) = 1024" using sz [of 6] by (simp add: bsize_def)
  then have "s \<le> d_block_size (h_desc h ! 6)" using assms(2) by (simp add: word_le_nat_alt)
  moreover have "h_desc h ! 6 \<in> set (h_desc h)" using len by (intro nth_mem) simp
  ultimately obtain j where j: "j < 7" "find_desc (h_desc h) s 0 = j" "s \<le> d_block_size (h_desc h ! j)"
    "\<forall>e<j. d_block_size (h_desc h ! e) < s" using find_desc_spec [of "h_desc h ! 6" "h_desc h" s 0] len by auto
  with sz that show ?thesis by (auto simp: word_le_nat_alt word_less_nat_alt)
qed

lemma kmalloc_small_eq:
  "s \<le> 1024 \<Longrightarrow> find_desc (h_desc h) s 0 = d \<Longrightarrow> kmalloc h s =
     bindr (load_at (h_desc h) d) (\<lambda>desc.
     bindr (if list_empty (h_links h) (free_list d) then new_arena h d desc else Inr h) (\<lambda>h. pop_block h d))"
  by (auto simp: kmalloc_def Let_def leD)

lemma kmalloc_pop:
  assumes rep: "heap_rep h A F" and d: "d < 7" and F: "F d = b # bs"
    and live: "\<forall>a e. A a = Some (Cut e) \<longrightarrow> arena_blocks a e \<subseteq> set (F e) \<longrightarrow> e = d \<and> b \<in> arena_blocks a d"
  obtains h' where "pop_block h d = Inr (h', b)"
    "heap_wf h' A (F(d := bs))" "live A (F(d := bs)) = insert (b, bsize d) (live A F)" "(b, bsize d) \<notin> live A F"
proof -
  let ?a = "get_block_arena b"
  note p = rep_pop [OF rep d F]
  from p(3) obtain links where l: "list_pop (h_links h) (free_list d) = Inr (links, Block b)"
    "heap_rep (h\<lparr>h_links := links, h_arena := (h_arena h)(?a := cut_header ?a d (set bs))\<rparr>) A (F(d := bs))" by blast
  have hdr: "ar_magic (h_arena h ?a) = YLOS_MAGIC" "ar_large (h_arena h ?a) = 0"
    using heap_repD(5) [OF rep p(1)] by (simp_all add: cut_header_def)
  have b: "b \<notin> set bs" using rep_distinct [OF rep d] F by simp
  have nsub: "\<not> arena_blocks a e \<subseteq> set ((F(d := bs)) e)" if A: "A a = Some (Cut e)" for a e
  proof
    assume sub: "arena_blocks a e \<subseteq> set ((F(d := bs)) e)"
    then have "arena_blocks a e \<subseteq> set (F e)" using F by (auto split: if_splits)
    with live A have "e = d" "b \<in> arena_blocks a d" by auto
    with sub b show False by auto
  qed
  have "(c, k) \<in> live A (F(d := bs)) \<longleftrightarrow> (c, k) = (b, bsize d) \<or> (c, k) \<in> live A F" for c k
    using p(1,2) F b unfolding live_iff [OF rep] live_iff [OF l(2)]
    by (cases "c = b") (auto split: option.split chunk.split)
  then have "live A (F(d := bs)) = insert (b, bsize d) (live A F)" by (simp add: set_eq_iff)
  moreover have "(b, bsize d) \<notin> live A F"
    using p(1,2) F by (simp add: live_iff [OF rep])
  ultimately show ?thesis
    using that [of "h\<lparr>h_links := links, h_arena := (h_arena h)(?a := cut_header ?a d (set bs))\<rparr>"] l p(4) hdr nsub
    by (simp add: pop_block_def Let_def heap_wf_def)
qed

lemma kmalloc_large_count:
  assumes wf: "heap_wf h A F" and s: "1024 < s" and n: "div_round_up (s + ARENA_HEADER) PAGE_SIZE = Inr n" "0 < n"
  shows "if kroom (h_mem h) (unat n)
    then \<exists>h' b A'. kmalloc h s = Inr (h', b) \<and> heap_wf h' A' F \<and> live A' F = insert (b, 4096 * unat n - 16) (live A F)
      \<and> (b, 4096 * unat n - 16) \<notin> live A F
    else kmalloc h s = Inl Kernel_Panic"
proof (cases "alloc_kpage (h_mem h) n")
  case (Inl e)
  have "kpage_inv (h_mem h)" using wf by (simp add: heap_wf_def heap_rep_def)
  from alloc_kpage_fails [OF this n(2) Inl] Inl s n(1) show ?thesis by (simp add: kmalloc_def)
next
  case (Inr ma)
  have "kpage_inv (h_mem h)" using wf by (simp add: heap_wf_def heap_rep_def)
  from alloc_kpage_succeeds [OF this n(2) Inr] have room: "kroom (h_mem h) (unat n)" .
  have rep: "heap_rep h A F" using wf by (simp add: heap_wf_def)
  obtain mem a where alloc: "alloc_kpage (h_mem h) n = Inr (mem, a)" using Inr by (cases ma) auto
  have c: "chunk_pages (Large n) = unat n" by simp
  have cc: "case Large n of Cut d \<Rightarrow> d < 7 | Large n \<Rightarrow> 0 < n" using n(2) by simp
  have hd: "large_header n = (case Large n of Cut d \<Rightarrow> cut_header a d (set (F d)) | Large n \<Rightarrow> large_header n)" by simp
  define h1 where "h1 = zero_arena (h\<lparr>h_mem := mem\<rparr>) a n"
  define h' where "h' = h1\<lparr>h_arena := (h_arena h1)(a := large_header n)\<rparr>"
  have nr: "A a = None" "page_aligned a" "heap_rep h' (A(a \<mapsto> Large n)) F"
    using new_range [OF rep alloc c cc hd] by (simp_all add: Let_def h1_def h'_def)
  have k: "kmalloc h s = Inr (h', a + ARENA_HEADER)"
    using s n(1) alloc by (simp add: kmalloc_def Let_def h1_def h'_def large_header_def)
  have "(c, l) \<in> live (A(a \<mapsto> Large n)) F \<longleftrightarrow> (c, l) = (a + ARENA_HEADER, 4096 * unat n - 16) \<or> (c, l) \<in> live A F" for c l
    using nr(1) header_page(2) [OF nr(2)] unfolding live_iff [OF rep] live_iff [OF nr(3)]
    by (cases "get_block_arena c = a") auto
  then have "live (A(a \<mapsto> Large n)) F = insert (a + ARENA_HEADER, 4096 * unat n - 16) (live A F)" by (simp add: set_eq_iff)
  moreover have "(a + ARENA_HEADER, 4096 * unat n - 16) \<notin> live A F"
    using nr(1) header_page(2) [OF nr(2)] by (simp add: live_iff [OF rep])
  moreover have "heap_wf h' (A(a \<mapsto> Large n)) F" using wf nr(3) by (simp add: heap_wf_def)
  ultimately show ?thesis unfolding if_P [OF room] using k by (intro exI conjI) (assumption | simp)+
qed

text \<open>The pages \<open>kmalloc\<close> may ask the page allocator for.\<close>

definition malloc_pages :: "u32 \<Rightarrow> nat" where
  "malloc_pages s = (if s \<le> 1024 then 1 else (unat s + 16 + 4095) div 4096)"

lemma kmalloc_large:
  assumes wf: "heap_wf h A F" and s: "1024 < s" "unat s \<le> 2 ^ 32 - 4112"
  shows "kmalloc h s = Inl Kernel_Panic \<and> \<not> kroom (h_mem h) (malloc_pages s) \<or>
    (\<exists>h' b k A'. kmalloc h s = Inr (h', b) \<and> heap_wf h' A' F \<and> live A' F = insert (b, k) (live A F)
      \<and> (b, k) \<notin> live A F \<and> unat s \<le> k)"
proof -
  have u: "unat (s + ARENA_HEADER) = unat s + 16"
    using s(2) by (subst unat_add_small) (simp_all add: ARENA_HEADER_def)
  have ps: "unat PAGE_SIZE = 4096" by (simp add: PAGE_SIZE_def)
  obtain n where n: "div_round_up (s + ARENA_HEADER) PAGE_SIZE = Inr n" "unat s + 16 \<le> unat n * 4096"
    "unat n = (unat s + 16 + 4096 - 1) div 4096"
    by (rule div_round_up_ceiling [of PAGE_SIZE "s + ARENA_HEADER"]) (use s(2) u ps in \<open>auto simp: PAGE_SIZE_def\<close>)
  have n0: "0 < n" using n(2) by (simp add: word_less_nat_alt)
  have big: "unat s \<le> 4096 * unat n - 16" using n(2) by linarith
  have pages: "malloc_pages s = unat n" using s(1) n(3) by (simp add: malloc_pages_def)
  show ?thesis
  proof (cases "kroom (h_mem h) (unat n)")
    case True
    then obtain h' b A' where "kmalloc h s = Inr (h', b)" "heap_wf h' A' F"
      "live A' F = insert (b, 4096 * unat n - 16) (live A F)" "(b, 4096 * unat n - 16) \<notin> live A F"
      using kmalloc_large_count [OF wf s(1) n(1) n0] by auto
    with big show ?thesis by blast
  next
    case False
    with kmalloc_large_count [OF wf s(1) n(1) n0] show ?thesis by (simp add: pages)
  qed
qed

lemma new_arena_live:
  assumes rep: "heap_rep h A F" and F: "F d = []" and A: "A a = None" and d: "d < 7" and al: "page_aligned a"
    and rep': "heap_rep h' (A(a \<mapsto> Cut d)) (F(d := rev (tail_blocks a d 0 (btotal d))))"
  shows "live (A(a \<mapsto> Cut d)) (F(d := rev (tail_blocks a d 0 (btotal d)))) = live A F"
proof -
  have "(c, l) \<in> live (A(a \<mapsto> Cut d)) (F(d := rev (tail_blocks a d 0 (btotal d)))) \<longleftrightarrow> (c, l) \<in> live A F" for c l
    using A F block_page(1) [OF al d] unfolding live_iff [OF rep] live_iff [OF rep'] set_rev
    by (auto simp: set_tail_blocks split: option.split chunk.split)
  then show ?thesis by (simp add: set_eq_iff)
qed

lemma kmalloc_small:
  assumes wf: "heap_wf h A F" and s: "s \<le> 1024"
  shows "kmalloc h s = Inl Kernel_Panic \<and> \<not> kroom (h_mem h) (malloc_pages s) \<or>
    (\<exists>h' b k A' F'. kmalloc h s = Inr (h', b) \<and> heap_wf h' A' F' \<and> live A' F' = insert (b, k) (live A F)
      \<and> (b, k) \<notin> live A F \<and> unat s \<le> k)"
proof -
  have rep: "heap_rep h A F" using wf by (simp add: heap_wf_def)
  note dw = heap_repD(1) [OF rep]
  obtain d where d: "find_desc (h_desc h) s 0 = d" "d < 7" "unat s \<le> bsize d" using find_desc_wf [OF dw s] by blast
  have ld: "load_at (h_desc h) d = Inr (h_desc h ! d)" using dw d(2) by (simp add: desc_wf_def)
  have em: "list_empty (h_links h) (free_list d) = (F d = [])"
    using list_empty_dll [OF heap_repD(3) [OF rep d(2)]] by simp
  show ?thesis
  proof (cases "F d")
    case (Cons b bs)
    have "\<forall>a e. A a = Some (Cut e) \<longrightarrow> arena_blocks a e \<subseteq> set (F e) \<longrightarrow> e = d \<and> b \<in> arena_blocks a d"
      using wf by (simp add: heap_wf_def)
    from kmalloc_pop [OF rep d(2) Cons this] obtain h' where h': "kmalloc h s = Inr (h', b)"
      "heap_wf h' A (F(d := bs))" "live A (F(d := bs)) = insert (b, bsize d) (live A F)" "(b, bsize d) \<notin> live A F"
      using ld em Cons by (auto simp: kmalloc_small_eq [OF s d(1)])
    with d(3) show ?thesis by blast
  next
    case Nil
    from new_arena_rep [OF rep d(2) Nil] show ?thesis
    proof (elim disjE exE conjE)
      assume "new_arena h d (h_desc h ! d) = Inl Kernel_Panic" "\<not> kroom (h_mem h) 1"
      then show ?thesis using ld em Nil s by (simp add: kmalloc_small_eq [OF s d(1)] malloc_pages_def)
    next
      fix h1 a assume n: "new_arena h d (h_desc h ! d) = Inr h1" "A a = None" "page_aligned a"
        "heap_rep h1 (A(a \<mapsto> Cut d)) (F(d := rev (tail_blocks a d 0 (btotal d))))"
      define A' where "A' = A(a \<mapsto> Cut d)"
      define F' where "F' = F(d := rev (tail_blocks a d 0 (btotal d)))"
      note rep1 = n(4) [folded A'_def F'_def]
      have "rev (tail_blocks a d 0 (btotal d)) \<noteq> []"
        using desc_range [OF d(2)] by (simp add: tail_blocks_def)
      then obtain b bs where bs: "rev (tail_blocks a d 0 (btotal d)) = b # bs" by (cases "rev (tail_blocks a d 0 (btotal d))") auto
      then have F'd: "F' d = b # bs" by (simp add: F'_def)
      have setF: "set (F' d) = arena_blocks a d" unfolding F'_def by (simp add: set_tail_blocks)
      have b: "b \<in> arena_blocks a d" using setF F'd by auto
      have "e = d \<and> b \<in> arena_blocks a' d" if A': "A' a' = Some (Cut e)" "arena_blocks a' e \<subseteq> set (F' e)" for a' e
      proof (cases "a' = a")
        case True with A'(1) b show ?thesis by (simp add: A'_def)
      next
        case False
        then have old: "A a' = Some (Cut e)" using A'(1) by (simp add: A'_def)
        show ?thesis
        proof (cases "e = d")
          case True
          have "block_at a' d 0 \<in> arena_blocks a' d" using desc_range [OF d(2)] unfolding arena_blocks_def by auto
          moreover from this have "block_at a' d 0 \<in> arena_blocks a d" using A'(2) setF True by auto
          ultimately have "a' = a" using cut_page(1) [OF rep old [unfolded True]] block_page(1) [OF n(3) d(2)] by fastforce
          with False show ?thesis by blast
        next
          case ne: False
          then have "arena_blocks a' e \<subseteq> set (F e)" using A'(2) by (simp add: F'_def)
          with wf old show ?thesis by (auto simp: heap_wf_def)
        qed
      qed
      then have "\<forall>a' e. A' a' = Some (Cut e) \<longrightarrow> arena_blocks a' e \<subseteq> set (F' e) \<longrightarrow> e = d \<and> b \<in> arena_blocks a' d" by blast
      from kmalloc_pop [OF rep1 d(2) F'd this] obtain h' where h': "kmalloc h s = Inr (h', b)"
        "heap_wf h' A' (F'(d := bs))" "live A' (F'(d := bs)) = insert (b, bsize d) (live A' F')" "(b, bsize d) \<notin> live A' F'"
        using ld em Nil n(1) by (auto simp: kmalloc_small_eq [OF s d(1)])
      have "live A' F' = live A F"
        using new_arena_live [OF rep Nil n(2) d(2) n(3,4)] by (simp add: A'_def F'_def)
      with h' d(3) show ?thesis by metis
    qed
  qed
qed

text \<open>A chunk none of whose blocks is on a free list gives its pages back.\<close>

lemma drop_chunk:
  assumes rep: "heap_rep (h\<lparr>h_arena := (h_arena h)(a := x)\<rparr>) A F" and A: "A a = Some c"
    and n: "chunk_pages c = unat n" and off: "\<forall>d<7. \<forall>b\<in>set (F d). get_block_arena b \<noteq> a"
  shows "\<exists>mem. free_kpage (h_mem h) a n = Inr mem \<and> heap_rep (h\<lparr>h_mem := mem\<rparr>) (A(a := None)) F"
proof -
  note r = heap_repD [OF rep] and ck = chunk_in_kpages [OF rep A]
  have "0 < n" using ck(2) n by (simp add: word_less_nat_alt)
  with kmap.free_law [of "h_mem h" a n] r(2) ck n obtain mem where mem: "free_kpage (h_mem h) a n = Inr mem"
    "kpage_inv mem" "kpages mem = kpages (h_mem h) - page_range a (unat n)" by auto
  have keep: "page_range p (chunk_pages y) \<subseteq> kpages mem" if "A p = Some y" "p \<noteq> a" for p y
    using chunk_in_kpages(1) [OF rep that(1)] r(7) [OF that(1) A that(2)] n unfolding mem(3) by auto
  have "free_ok (A(a := None)) d b" if "d < 7" "b \<in> set (F d)" for d b
    using r(4) [OF that] off that by (auto simp: free_ok_def)
  moreover have "d < 7 \<and> page_aligned p \<and> page_range p 1 \<subseteq> kpages mem \<and> h_arena h p = cut_header p d (set (F d))"
    if "(A(a := None)) p = Some (Cut d)" for p d
    using r(5) [of p d] keep [of p "Cut d"] that by (auto split: if_splits)
  moreover have "0 < n \<and> page_aligned p \<and> page_range p (unat n) \<subseteq> kpages mem \<and> h_arena h p = large_header n"
    if "(A(a := None)) p = Some (Large n)" for p n
    using r(6) [of p n] keep [of p "Large n"] that by (auto split: if_splits)
  moreover have "page_range p (chunk_pages y) \<inter> page_range q (chunk_pages z) = {}"
    if "(A(a := None)) p = Some y" "(A(a := None)) q = Some z" "p \<noteq> q" for p q y z
    using r(7) [of p y q z] that by (auto split: if_splits)
  ultimately have "heap_rep (h\<lparr>h_mem := mem\<rparr>) (A(a := None)) F"
    using r(1,3) mem(2) unfolding heap_rep_def by (simp add: desc_wf_def)
  with mem(1) show ?thesis by blast
qed

lemma live_not_null: "heap_rep h A F \<Longrightarrow> (b, k) \<in> live A F \<Longrightarrow> b \<noteq> 0"
  by (auto elim: live_span)

lemma kfree_large:
  assumes wf: "heap_wf h A F" and b: "(b, k) \<in> live A F" and A: "A (get_block_arena b) = Some (Large n)"
  shows "\<exists>h' A' F'. kfree h b = Inr h' \<and> heap_wf h' A' F' \<and> live A' F' = live A F - {(b, k)}"
proof -
  let ?a = "get_block_arena b"
  have rep: "heap_rep h A F" using wf by (simp add: heap_wf_def)
  have hdr: "h_arena h ?a = large_header n" using heap_repD(6) [OF rep A] by blast
  have "\<forall>d<7. \<forall>c\<in>set (F d). get_block_arena c \<noteq> ?a" using heap_repD(4) [OF rep] A unfolding free_ok_def by fastforce
  moreover have "heap_rep (h\<lparr>h_arena := (h_arena h)(?a := h_arena h ?a)\<rparr>) A F" using rep by simp
  ultimately obtain mem where mem: "free_kpage (h_mem h) ?a n = Inr mem"
    "heap_rep (h\<lparr>h_mem := mem\<rparr>) (A(?a := None)) F" using drop_chunk [of h ?a "h_arena h ?a" A F "Large n" n] A by auto
  have "kfree h b = Inr (h\<lparr>h_mem := mem\<rparr>)"
    using mem(1) hdr live_not_null [OF rep b] by (simp add: kfree_def Let_def large_header_def)
  moreover have "(c, l) \<in> live (A(?a := None)) F \<longleftrightarrow> (c, l) \<in> live A F - {(b, k)}" for c l
    using A b unfolding Diff_iff live_iff [OF rep] live_iff [OF mem(2)]
    by (cases "get_block_arena c = ?a") auto
  moreover have "heap_wf (h\<lparr>h_mem := mem\<rparr>) (A(?a := None)) F"
    using mem(2) wf by (auto simp: heap_wf_def split: if_splits)
  ultimately show ?thesis by (intro exI conjI) (auto simp: set_eq_iff)
qed

text \<open>The arena whose last block came back: its blocks leave the list, its page is freed.\<close>

lemma drain_drop:
  assumes rep1: "heap_rep h A F" and A: "A a = Some (Cut d)" and full: "arena_blocks a d \<subseteq> set (F d)"
  shows "\<exists>h' F'. bindr (drain_arena h d a (btotal d) 0) (\<lambda>h. bindr (free_kpage (h_mem h) a 1) (\<lambda>mem. Inr (h\<lparr>h_mem := mem\<rparr>))) = Inr h'
    \<and> heap_rep h' (A(a := None)) F' \<and> live (A(a := None)) F' = live A F \<and> (\<forall>e. set (F' e) \<subseteq> set (F e))"
proof -
  have d: "d < 7" "page_aligned a" and dw: "ar_desc (h_arena h a) = Some d"
    using heap_repD(5) [OF rep1 A] by (auto simp: cut_header_def)
  from drain_arena_spec [OF heap_repD(1) [OF rep1] dw d(1,2) _ heap_repD(3) [OF rep1 d(1)], of 0 "btotal d"] full
  obtain links where dr: "drain_arena h d a (btotal d) 0 = Inr (h\<lparr>h_links := links\<rparr>)"
    "dll links (free_list d) (map Block (filter (\<lambda>b. b \<notin> arena_blocks a d) (F d)))"
    "same_outside (cells (free_list d) (map Block (F d))) (h_links h) links"
    by (auto simp: set_tail_blocks)
  define h2 where "h2 = h\<lparr>h_links := links\<rparr>"
  define F2 where "F2 = F(d := filter (\<lambda>b. b \<notin> arena_blocks a d) (F d))"
  have ok: "\<forall>c\<in>set (F d). free_ok A d c" using heap_repD(4) [OF rep1 d(1)] by blast
  have other: "\<forall>p. p \<noteq> a \<longrightarrow> A p = Some (Cut d) \<longrightarrow>
      arena_blocks p d \<inter> set (filter (\<lambda>b. b \<notin> arena_blocks a d) (F d)) = arena_blocks p d \<inter> set (F d)"
  proof (intro allI impI)
    fix p assume p: "p \<noteq> a" "A p = Some (Cut d)"
    have "c \<notin> arena_blocks a d" if "c \<in> arena_blocks p d" for c
      using cut_page(1) [OF rep1 p(2) that] cut_page(1) [OF rep1 A, of c] p(1) by blast
    then show "arena_blocks p d \<inter> set (filter (\<lambda>b. b \<notin> arena_blocks a d) (F d)) = arena_blocks p d \<inter> set (F d)" by auto
  qed
  have "heap_rep (h\<lparr>h_links := links, h_arena := (h_arena h)(a := cut_header a d (set (F2 d)))\<rparr>) A F2"
    using rep_step [OF rep1 A dr(2,3) ok _ other] by (auto simp: F2_def)
  then have rep2: "heap_rep (h2\<lparr>h_arena := (h_arena h2)(a := cut_header a d (set (F2 d)))\<rparr>) A F2"
    by (simp add: h2_def)
  have off: "\<forall>e<7. \<forall>c\<in>set (F2 e). get_block_arena c \<noteq> a"
    using heap_repD(4) [OF rep2] A unfolding free_ok_def by (fastforce simp: F2_def)
  from drop_chunk [OF rep2 A _ off, of 1] obtain mem where mem: "free_kpage (h_mem h2) a 1 = Inr mem"
    "heap_rep (h2\<lparr>h_mem := mem\<rparr>) (A(a := None)) F2" by auto
  have "(c, l) \<in> live (A(a := None)) F2 \<longleftrightarrow> (c, l) \<in> live A F" for c l
    using A full unfolding live_iff [OF mem(2)] live_iff [OF rep1]
    by (cases "get_block_arena c = a")
       (auto simp: F2_def split: option.split chunk.split dest: cut_page(1) [OF rep1 A])
  then show ?thesis using dr(1) mem
    by (intro exI [of _ "h2\<lparr>h_mem := mem\<rparr>"] exI [of _ F2]) (auto simp: h2_def F2_def set_eq_iff)
qed

lemma kfree_cut:
  assumes wf: "heap_wf h A F" and b: "(b, k) \<in> live A F" and A: "A (get_block_arena b) = Some (Cut d)"
  shows "\<exists>h' A' F'. kfree h b = Inr h' \<and> heap_wf h' A' F' \<and> live A' F' = live A F - {(b, k)}"
proof -
  define a where "a = get_block_arena b"
  note A = A [folded a_def]
  have rep: "heap_rep h A F" using wf by (simp add: heap_wf_def)
  have l: "b \<in> arena_blocks a d" "b \<notin> set (F d)" "k = bsize d" using b A by (simp_all add: live_iff [OF rep] a_def)
  have d: "d < 7" "page_aligned a" and hdr: "h_arena h a = cut_header a d (set (F d))"
    using heap_repD(5) [OF rep A] by blast+
  note p = rep_push [OF rep A l(1,2)]
  define F1 where "F1 = F(d := b # F d)"
  from p(1) obtain links where push: "list_push (h_links h) (free_list d) (Block b) = Inr links"
    and rep0: "heap_rep (h\<lparr>h_links := links, h_arena := (h_arena h)(a := cut_header a d (set (b # F d)))\<rparr>) A F1"
    unfolding F1_def by blast
  define h1 where "h1 = h\<lparr>h_links := links, h_arena := (h_arena h)(a := cut_header a d (set (b # F d)))\<rparr>"
  note rep1 = rep0 [folded h1_def]
  have F1: "F1 d = b # F d" by (simp add: F1_def)
  have tot: "d_total_block (h_desc h ! d) = of_nat (btotal d)" "length (h_desc h) = 7"
    using heap_repD(1) [OF rep] d(1) by (simp_all add: desc_wf_def)
  have bt: "btotal d < 256" using btotal_less [OF d(1)] .
  have sub: "card (arena_blocks a d \<inter> set (b # F d)) \<le> btotal d"
    using card_mono [OF finite_blocks, of "arena_blocks a d \<inter> set (b # F d)" a d] unfolding card_blocks [OF d(2,1)] by simp
  have cnt: "ar_count (h_arena h a) + 1 = of_nat (card (arena_blocks a d \<inter> set (b # F d)))"
    using arg_cong [OF p(2), of ar_count] by (simp add: cut_header_def)
  have eq: "(ar_count (h_arena h a) + 1 = d_total_block (h_desc h ! d)) = (arena_blocks a d \<subseteq> set (F1 d))"
  proof -
    have "(ar_count (h_arena h a) + 1 = d_total_block (h_desc h ! d)) = (card (arena_blocks a d \<inter> set (F1 d)) = btotal d)"
      unfolding cnt tot F1 using sub bt by (subst word_unat_eq_iff) (simp add: unat_of_nat)
    also have "\<dots> = (arena_blocks a d \<subseteq> set (F1 d))"
      using card_seteq [OF finite_blocks, of "arena_blocks a d \<inter> set (F1 d)" a d] card_blocks [OF d(2,1)]
      by (metis inf.absorb_iff1 inf_le1 order_refl)
    finally show ?thesis .
  qed
  have free: "kfree h b = (if arena_blocks a d \<subseteq> set (F1 d)
      then bindr (drain_arena h1 d a (btotal d) 0) (\<lambda>h. bindr (free_kpage (h_mem h) a 1) (\<lambda>mem. Inr (h\<lparr>h_mem := mem\<rparr>)))
      else Inr h1)"
  proof -
    have ar: "ar_large (h_arena h a) = 0" "ar_magic (h_arena h a) = YLOS_MAGIC" "ar_desc (h_arena h a) = Some d"
      unfolding hdr by (simp_all add: cut_header_def)
    have u: "unat (d_total_block (h_desc h ! d)) = btotal d" using tot bt by simp
    show ?thesis
      unfolding kfree_def Let_def a_def [symmetric] h1_def p(2) [symmetric] eq [symmetric]
      using live_not_null [OF rep b] ar push u d(1) tot(2) by (simp add: deref_def)
  qed
  have live1: "(c, l) \<in> live A F1 \<longleftrightarrow> (c, l) \<in> live A F - {(b, k)}" for c l
    using A l unfolding Diff_iff live_iff [OF rep] live_iff [OF rep1] a_def
    by (cases "c = b") (auto simp: F1_def split: option.split chunk.split)
  show ?thesis
  proof (cases "arena_blocks a d \<subseteq> set (F1 d)")
    case False
    have "\<not> arena_blocks p e \<subseteq> set (F1 e)" if "A p = Some (Cut e)" for p e
    proof (cases "p = a")
      case True then show ?thesis using that A False by simp
    next
      case ne: False
      have "b \<notin> arena_blocks p e" using cut_page(1) [OF rep that, of b] ne by (auto simp: a_def)
      then show ?thesis using wf that by (auto simp: heap_wf_def F1_def)
    qed
    then have "heap_wf h1 A F1" using rep1 by (simp add: heap_wf_def)
    then show ?thesis using free False live1 by (intro exI conjI) (auto simp: set_eq_iff)
  next
    case True
    from drain_drop [OF rep1 A True] obtain h' F2 where dr:
      "bindr (drain_arena h1 d a (btotal d) 0) (\<lambda>h. bindr (free_kpage (h_mem h) a 1) (\<lambda>mem. Inr (h\<lparr>h_mem := mem\<rparr>))) = Inr h'"
      "heap_rep h' (A(a := None)) F2" "live (A(a := None)) F2 = live A F1" "\<forall>e. set (F2 e) \<subseteq> set (F1 e)" by blast
    have "\<not> arena_blocks p e \<subseteq> set (F2 e)" if "(A(a := None)) p = Some (Cut e)" for p e
    proof -
      have pe: "p \<noteq> a" "A p = Some (Cut e)" using that by (auto split: if_splits)
      have "b \<notin> arena_blocks p e" using cut_page(1) [OF rep pe(2), of b] pe(1) by (auto simp: a_def)
      moreover have "set (F2 e) \<subseteq> insert b (set (F e))" using dr(4) by (auto simp: F1_def split: if_splits)
      moreover have "\<not> arena_blocks p e \<subseteq> set (F e)" using wf pe(2) by (simp add: heap_wf_def)
      ultimately show ?thesis by blast
    qed
    then show ?thesis using free True dr(1-3) live1 by (intro exI conjI) (auto simp: set_eq_iff heap_wf_def)
  qed
qed

lemma kfree_live:
  assumes "heap_wf h A F" "(b, k) \<in> live A F"
  shows "\<exists>h' A' F'. kfree h b = Inr h' \<and> heap_wf h' A' F' \<and> live A' F' = live A F - {(b, k)}"
proof -
  from assms(1) have rep: "heap_rep h A F" by (simp add: heap_wf_def)
  obtain c where c: "A (get_block_arena b) = Some c" using live_span [OF rep assms(2)] .
  show ?thesis using kfree_large [OF assms] kfree_cut [OF assms] c by (cases c) auto
qed

lemma kmalloc_live:
  assumes "heap_wf h A F" "unat s \<le> 2 ^ 32 - 4112"
  shows "kmalloc h s = Inl Kernel_Panic \<and> \<not> kroom (h_mem h) (malloc_pages s) \<or>
    (\<exists>h' b k A' F'. kmalloc h s = Inr (h', b) \<and> heap_wf h' A' F' \<and> live A' F' = insert (b, k) (live A F)
      \<and> (b, k) \<notin> live A F \<and> unat s \<le> k)"
  using kmalloc_small [OF assms(1), of s] kmalloc_large [OF assms(1) _ assms(2)]
  by (cases "s \<le> 1024") (simp, fastforce simp: not_le)

section \<open>Start\<close>

lemma list_init_other:
  assumes "dll h (free_list i) []" "i \<noteq> j"
  shows "dll (list_init h (free_list j)) (free_list i) []"
  using assms by (simp add: dll_def list_init_def Let_def free_list_def)

lemma list_init_free: "dll (list_init h (free_list i)) (free_list i) []"
  by (rule list_init_dll) (simp add: free_list_def)

lemma arena_init_mem [simp]: "h_mem (arena_init h) = h_mem h"
proof -
  have "h_mem (init_descriptors n i k h) = h_mem h" for n i k
    by (induction n arbitrary: i k h) (simp_all add: list_init_def Let_def)
  then show ?thesis by (simp add: arena_init_def)
qed

lemma arena_init_heap:
  assumes "kpage_inv (h_mem h)" "length (h_desc h) = 7"
  shows "heap_wf (arena_init h) (\<lambda>_. None) (\<lambda>_. [])"
proof -
  have seven: "(7 :: nat) = Suc (Suc (Suc (Suc (Suc (Suc (Suc 0))))))" by simp
  have lt: "(P d :: bool)" if "d < 7" "P 0" "P (Suc 0)" "P (Suc (Suc 0))" "P (Suc (Suc (Suc 0)))"
    "P (Suc (Suc (Suc (Suc 0))))" "P (Suc (Suc (Suc (Suc (Suc 0)))))" "P (Suc (Suc (Suc (Suc (Suc (Suc 0))))))" for P and d :: nat
    using that unfolding seven by (auto elim!: less_SucE)
  have "desc_wf (arena_init h)"
    unfolding desc_wf_def using assms(2)
    by (auto simp: arena_init_def DESC_COUNT_def seven ARENA_HEADER_def PAGE_SIZE_def bsize_def btotal_def nth_list_update elim!: less_SucE)
  moreover have "dll (h_links (arena_init h)) (free_list d) (map Block [])" if "d < 7" for d
    by (rule lt [OF that]) (simp_all add: arena_init_def DESC_COUNT_def seven list_init_other list_init_free)
  ultimately show ?thesis using assms(1) by (simp add: heap_wf_def heap_rep_def)
qed

section \<open>Properties\<close>

text \<open>
  The states a client of the heap can reach, with the blocks it holds: from \<open>arena_init\<close> by calls
  of \<open>kmalloc\<close>, for sizes whose rounding does not wrap, and calls of \<open>kfree\<close> on blocks it holds.
\<close>

inductive heap_run :: "heap_t \<Rightarrow> (u32 \<times> u32) set \<Rightarrow> bool" where
  start: "kpage_inv (h_mem h) \<Longrightarrow> length (h_desc h) = 7 \<Longrightarrow> heap_run (arena_init h) {}"
| malloc: "heap_run h L \<Longrightarrow> unat s \<le> 2 ^ 32 - 4112 \<Longrightarrow> kmalloc h s = Inr (h', b) \<Longrightarrow> heap_run h' (insert (b, s) L)"
| free: "heap_run h L \<Longrightarrow> (b, s) \<in> L \<Longrightarrow> kfree h b = Inr h' \<Longrightarrow> heap_run h' (L - {(b, s)})"

lemma live_unique: "heap_rep h A F \<Longrightarrow> (b, k) \<in> live A F \<Longrightarrow> (b, l) \<in> live A F \<Longrightarrow> k = l"
  by (auto simp: live_iff split: option.splits chunk.splits)

definition held :: "(u32 \<times> u32) set \<Rightarrow> (u32 \<times> nat) set \<Rightarrow> bool" where
  "held L V \<longleftrightarrow> fst ` L = fst ` V \<and> inj_on fst L \<and> (\<forall>(b, s)\<in>L. \<forall>k. (b, k) \<in> V \<longrightarrow> unat s \<le> k)"

lemma held_insert:
  assumes "held L V" "b \<notin> fst ` V" "unat s \<le> k"
  shows "held (insert (b, s) L) (insert (b, k) V)"
proof -
  have h: "fst ` L = fst ` V" "inj_on fst L" and sz: "\<And>c t l. (c, t) \<in> L \<Longrightarrow> (c, l) \<in> V \<Longrightarrow> unat t \<le> l"
    using assms(1) unfolding held_def by auto
  have nb: "(b, t) \<notin> L" "(b, l) \<notin> V" for t l using assms(2) h(1) by (metis fst_conv imageI)+
  have "inj_on fst (insert (b, s) L)" using h assms(2) by (auto simp: inj_on_insert)
  moreover have "unat t \<le> l" if "(c, t) \<in> insert (b, s) L" "(c, l) \<in> insert (b, k) V" for c t l
    using that nb sz [of c t l] assms(3) by auto
  ultimately show ?thesis using h(1) unfolding held_def by auto
qed

lemma fst_image_remove:
  assumes "\<And>l. (b, l) \<in> V \<Longrightarrow> l = k"
  shows "fst ` (V - {(b, k)}) = fst ` V - {b}"
  using assms by force

lemma held_remove:
  assumes "held L V" "(b, s) \<in> L" "\<And>l. (b, l) \<in> V \<Longrightarrow> l = k"
  shows "held (L - {(b, s)}) (V - {(b, k)})"
proof -
  note h = assms(1) [unfolded held_def, THEN conjunct1] assms(1) [unfolded held_def, THEN conjunct2, THEN conjunct1]
    and sz = assms(1) [unfolded held_def, THEN conjunct2, THEN conjunct2]
  have "t = s" if "(b, t) \<in> L" for t using inj_onD [OF h(2) _ that assms(2)] by simp
  then have "fst ` (L - {(b, s)}) = fst ` L - {b}" by (rule fst_image_remove)
  moreover have "fst ` (V - {(b, k)}) = fst ` V - {b}" using assms(3) by (rule fst_image_remove)
  moreover have "inj_on fst (L - {(b, s)})" by (rule inj_on_subset [OF h(2)]) blast
  moreover have "\<forall>(c, t)\<in>L - {(b, s)}. \<forall>l. (c, l) \<in> V - {(b, k)} \<longrightarrow> unat t \<le> l"
    using sz by (fastforce split: prod.split)
  ultimately show ?thesis by (simp add: held_def h(1))
qed

lemma heap_run_wf: "heap_run h L \<Longrightarrow> \<exists>A F. heap_wf h A F \<and> held L (live A F)"
proof (induction rule: heap_run.induct)
  case (start h)
  then show ?case using arena_init_heap [of h] by (auto simp: held_def live_def)
next
  case (malloc h L s h' b)
  then obtain A F where wf: "heap_wf h A F" and hl: "held L (live A F)" by blast
  from kmalloc_live [OF wf malloc.hyps(2)] malloc.hyps(3) obtain k A' F' where
    m: "heap_wf h' A' F'" "live A' F' = insert (b, k) (live A F)" "(b, k) \<notin> live A F" "unat s \<le> k" by auto
  have rep': "heap_rep h' A' F'" using m(1) by (simp add: heap_wf_def)
  have new: "b \<notin> fst ` live A F"
  proof
    assume "b \<in> fst ` live A F"
    then obtain l where l: "(b, l) \<in> live A F" by auto
    then have "k = l" using live_unique [OF rep', of b k l] m(2) by simp
    with l m(3) show False by simp
  qed
  have "held (insert (b, s) L) (insert (b, k) (live A F))"
    by (rule held_insert [OF hl new m(4)])
  with m(1,2) show ?case by metis
next
  case (free h L b s h')
  then obtain A F where wf: "heap_wf h A F" and hl: "held L (live A F)" by blast
  obtain k where k: "(b, k) \<in> live A F" using hl free.hyps(2) unfolding held_def by force
  from kfree_live [OF wf k] free.hyps(3) obtain A' F' where m: "heap_wf h' A' F'" "live A' F' = live A F - {(b, k)}" by auto
  have rep: "heap_rep h A F" using wf by (simp add: heap_wf_def)
  have "held (L - {(b, s)}) (live A F - {(b, k)})"
    by (rule held_remove [OF hl free.hyps(2) live_unique [OF rep _ k]])
  with m show ?case by metis
qed

text \<open>
  C2. Whatever a client does with the heap, the blocks it holds, with the sizes it asked for, never
  overlap, and none is the null pointer; each of them can be given back, \<open>kfree\<close> passing every
  assertion (the drain of an empty arena and the release of its page included); and the next
  \<open>kmalloc\<close> returns a block that is not held, unless there are not as many free kernel pages in a row
  as the size takes (one for at most 1024 bytes); only then it may panic.
\<close>
theorem heap_blocks_safe:
  assumes "heap_run h L"
  shows "(\<forall>(b, s)\<in>L. \<forall>(c, t)\<in>L. (b, s) \<noteq> (c, t) \<longrightarrow> unat b + unat s \<le> unat c \<or> unat c + unat t \<le> unat b)
    \<and> (\<forall>(b, s)\<in>L. b \<noteq> 0 \<and> (\<exists>h'. kfree h b = Inr h'))
    \<and> (\<forall>s. unat s \<le> 2 ^ 32 - 4112 \<longrightarrow>
         kmalloc h s = Inl Kernel_Panic \<and> \<not> kroom (h_mem h) (malloc_pages s) \<or>
         (\<exists>h' b. kmalloc h s = Inr (h', b) \<and> b \<notin> fst ` L))"
proof -
  from heap_run_wf [OF assms] obtain A F where wf: "heap_wf h A F" and hl: "held L (live A F)" by blast
  have rep: "heap_rep h A F" using wf by (simp add: heap_wf_def)
  have size: "\<exists>k. (b, k) \<in> live A F \<and> unat s \<le> k" if "(b, s) \<in> L" for b s :: u32
    using hl that unfolding held_def by (force simp: image_iff)
  have "unat b + unat s \<le> unat c \<or> unat c + unat t \<le> unat b"
    if bc: "(b, s) \<in> L" "(c, t) \<in> L" "(b, s) \<noteq> (c, t)" for b s c t
  proof -
    obtain k l where k: "(b, k) \<in> live A F" "unat s \<le> k" "(c, l) \<in> live A F" "unat t \<le> l" using size [OF bc(1)] size [OF bc(2)] by blast
    have "b \<noteq> c" using hl bc inj_onD [of fst L "(b, s)" "(c, t)"] by (auto simp: held_def)
    with live_apart [OF rep k(1,3)] k(2,4) show ?thesis by auto
  qed
  moreover have "b \<noteq> 0 \<and> (\<exists>h'. kfree h b = Inr h')" if "(b, s) \<in> L" for b s
    using size [OF that] kfree_live [OF wf] live_not_null [OF rep] by metis
  moreover have "kmalloc h s = Inl Kernel_Panic \<and> \<not> kroom (h_mem h) (malloc_pages s) \<or>
      (\<exists>h' b. kmalloc h s = Inr (h', b) \<and> b \<notin> fst ` L)"
    if "unat s \<le> 2 ^ 32 - 4112" for s
  proof (cases "kmalloc h s")
    case (Inl e)
    then show ?thesis using kmalloc_live [OF wf that] by auto
  next
    case (Inr r)
    then obtain h' b where r: "kmalloc h s = Inr (h', b)" by (cases r) auto
    with kmalloc_live [OF wf that] obtain k A' F' where m: "heap_wf h' A' F'"
      "live A' F' = insert (b, k) (live A F)" "(b, k) \<notin> live A F" by auto
    have rep': "heap_rep h' A' F'" using m(1) by (simp add: heap_wf_def)
    have "b \<notin> fst ` live A F"
    proof
      assume "b \<in> fst ` live A F"
      then obtain l where l: "(b, l) \<in> live A F" by auto
      then have "k = l" using live_unique [OF rep', of b k l] m(2) by simp
      with l m(3) show False by simp
    qed
    then show ?thesis using r hl by (simp add: held_def)
  qed
  ultimately show ?thesis by blast
qed

definition demo_heap :: heap_t where
  "demo_heap = arena_init \<lparr>h_mem = demo_mem, h_links = \<lparr>l_next = (\<lambda>_. None), l_prev = (\<lambda>_. None)\<rparr>,
     h_desc = replicate 7 \<lparr>d_total_block = 0, d_block_size = 0, d_page_count = 0\<rparr>,
     h_arena = (\<lambda>_. \<lparr>ar_desc = None, ar_count = 0, ar_large = 0, ar_magic = 0\<rparr>)\<rparr>"

lemma demo_malloc: "\<exists>h h'. kmalloc demo_heap 5000 = Inr (h, 0x102010) \<and> kmalloc h 2000 = Inr (h', 0x104010)"
proof -
  have "case kmalloc demo_heap 5000 of Inl _ \<Rightarrow> False
    | Inr (h, b) \<Rightarrow> b = 0x102010 \<and> (case kmalloc h 2000 of Inl _ \<Rightarrow> False | Inr (h', c) \<Rightarrow> c = 0x104010)"
    by code_simp
  then show ?thesis by (auto split: sum.splits prod.splits)
qed

lemma demo_heap_run: "heap_run demo_heap {}"
  unfolding demo_heap_def
  by (rule heap_run.start) (simp_all add: kpage_inv_def page_map_wf_def demo_mem_def bm_wf_def bm_size_def)

lemma heap_blocks_safe_witness:
  "\<exists>h h'. heap_run h {(0x104010, 2000), (0x102010, 5000)} \<and> kfree h 0x102010 = Inr h'"
proof -
  obtain h h' where k: "kmalloc demo_heap 5000 = Inr (h, 0x102010)" "kmalloc h 2000 = Inr (h', 0x104010)"
    using demo_malloc by blast
  have r: "heap_run h' {(0x104010, 2000), (0x102010, 5000)}"
    by (rule heap_run.malloc [OF heap_run.malloc [OF demo_heap_run _ k(1)] _ k(2)]) simp_all
  from heap_blocks_safe [OF r] have "\<exists>h''. kfree h' 0x102010 = Inr h''" by simp
  with r show ?thesis by blast
qed

text \<open>
  C20. The size is rounded up in 32 bits: a request of more than \<open>2 ^ 32 - 16\<close> bytes wraps, and when
  a kernel page is free \<open>kmalloc\<close> hands out a one-page block, with room for 4080 bytes, as if it had
  served it; it panics only without a free page.
\<close>
theorem kmalloc_wraps:
  assumes "heap_run h L" "2 ^ 32 - 16 < unat s"
  shows "if kroom (h_mem h) 1
    then \<exists>h' b A F. kmalloc h s = Inr (h', b) \<and> heap_wf h' A F \<and> (b, 4080) \<in> live A F
    else kmalloc h s = Inl Kernel_Panic"
proof -
  from heap_run_wf [OF assms(1)] obtain A F where wf: "heap_wf h A F" by blast
  have "unat (s + ARENA_HEADER) = (unat s + 16) mod 2 ^ 32"
    by (simp add: ARENA_HEADER_def unat_word_ariths)
  then have u: "unat (s + ARENA_HEADER) = unat s + 16 - 2 ^ 32"
  proof -
    have "unat s - 4294967280 < 4294967296" by (rule le_less_trans [OF diff_le_self u32_less_2p32])
    then have "unat s + 16 - 2 ^ 32 < 2 ^ 32" by simp
    then show ?thesis using assms(2) \<open>unat (s + ARENA_HEADER) = _\<close> by (simp add: le_mod_geq)
  qed
  have small: "unat (s + ARENA_HEADER) < 16 \<and> 0 < unat (s + ARENA_HEADER)"
  proof -
    have "2 ^ 32 - 16 < x \<Longrightarrow> x < 4294967296 \<Longrightarrow> x + 16 - 2 ^ 32 < 16 \<and> 0 < x + 16 - 2 ^ 32" for x :: nat by simp
    from this [OF assms(2) u32_less_2p32] show ?thesis unfolding u .
  qed
  have "1024 < s" using assms(2) by (simp add: word_less_nat_alt)
  obtain n where n: "div_round_up (s + ARENA_HEADER) PAGE_SIZE = Inr n"
    "unat n = (unat (s + ARENA_HEADER) + unat PAGE_SIZE - 1) div unat PAGE_SIZE"
    by (rule div_round_up_ceiling [of PAGE_SIZE "s + ARENA_HEADER"]) (use small in \<open>auto simp: PAGE_SIZE_def\<close>)
  have ps: "unat PAGE_SIZE = 4096" by (simp add: PAGE_SIZE_def)
  have n1: "unat n = 1" unfolding n(2) ps by (rule div_nat_eqI) (use small in simp_all)
  then have "0 < n" by (simp add: word_less_nat_alt)
  from kmalloc_large_count [OF wf \<open>1024 < s\<close> n(1) this]
  show ?thesis unfolding n1 by (cases "kroom (h_mem h) 1") (simp_all del: unsigned_1, metis insertI1)
qed

lemma kmalloc_wraps_witness:
  "\<exists>h' b A F. kmalloc demo_heap 0xFFFFFFF8 = Inr (h', b) \<and> heap_wf h' A F \<and> (b, 4080) \<in> live A F"
proof -
  have "h_mem demo_heap = demo_mem" by (simp add: demo_heap_def)
  then have "258 \<in> kspan (h_mem demo_heap) - kpages (h_mem demo_heap)"
    by (simp add: kspan_def kpages_def map_span_def pages_of_iff bm_size_def bm_get_def demo_mem_def)
  moreover have "{258..<258 + 1} = {258 :: nat}" by auto
  ultimately have "kroom (h_mem demo_heap) 1" unfolding kroom_def has_room_def by (intro exI [of _ 258]) (simp only: insert_subset empty_subsetI)
  with kmalloc_wraps [OF demo_heap_run, of "0xFFFFFFF8"] show ?thesis by simp
qed

end
