(* ===== verification/Ylos_Task.thy ===== *)
theory Ylos_Task
  imports Ylos_Arena Ylos_String
begin

text \<open>
  kernel/task.c, and the clock handler of kernel/clock.c: the task table, the scheduler, the
  lists of blocked and sleeping tasks, creation, fork, exit and wait.  The state is one
  record: the task table, the process control blocks by address, the links of all lists of
  tasks, the running task (the task whose kernel stack the processor uses), the counter of
  clock ticks, the interrupt flag, the kernel heap with the memory below it, and the
  reference counts of inodes and open files.  \<open>task_switch\<close> (assembly) makes the next task
  the running one; the code after the call of \<open>schedule\<close> is run when the task is the
  running one again.
\<close>

section \<open>The state\<close>

definition NR_TASKS :: nat where "NR_TASKS = 64"

text \<open>A list of tasks is named by a number: the default list of blocked tasks, the list of
  sleeping tasks, and one for each mutex, device and pipe.\<close>

datatype tnode = List_Head nat | List_Tail nat | Node task_ptr

definition tlist :: "nat \<Rightarrow> tnode list_t" where
  "tlist i = \<lparr>l_head = List_Head i, l_tail = List_Tail i\<rparr>"

definition block_list :: nat where "block_list = 0"
definition sleep_list :: nat where "sleep_list = 1"

text \<open>Where a task goes on when it is switched to: after its own call of \<open>task_switch\<close>, at
  the start of a kernel thread, or at the end of the interrupt \<open>fork\<close> with a value in eax.\<close>

datatype resume = After_Switch | Thread_Start u32 | Interrupt_Exit u32

record sched_t =
  s_table :: "task_ptr option list"
  s_task :: "task_ptr \<Rightarrow> task_t"
  s_links :: "tnode links"
  s_current :: task_ptr
  s_idle :: "task_ptr option"
  s_jiffies :: u32
  s_intr :: bool
  s_heap :: heap_t
  s_esp0 :: u32
  s_resume :: "task_ptr \<Rightarrow> resume"
  s_inode_count :: "nat \<Rightarrow> u32"
  s_file_count :: "nat \<Rightarrow> u32"

definition jiffy :: u32 where "jiffy = 10"

definition running_task :: "sched_t \<Rightarrow> task_ptr" where
  "running_task s = s_current s"

definition upd_task :: "sched_t \<Rightarrow> task_ptr \<Rightarrow> (task_t \<Rightarrow> task_t) \<Rightarrow> sched_t" where
  "upd_task s p f = s\<lparr>s_task := (s_task s)(p := f (s_task s p))\<rparr>"

definition set_mem :: "sched_t \<Rightarrow> mem_t \<Rightarrow> sched_t" where
  "set_mem s m = s\<lparr>s_heap := (s_heap s)\<lparr>h_mem := m\<rparr>\<rparr>"

definition state_of :: "sched_t \<Rightarrow> task_ptr \<Rightarrow> task_state" where
  "state_of s p = t_state (s_task s p)"

section \<open>The task table\<close>

definition zero_task :: task_t where
  "zero_task = \<lparr>t_state = TASK_INIT, t_priority = 0, t_ticks = 0, t_jiffies = 0, t_name = replicate 16 0,
     t_uid = 0, t_gid = 0, t_pid = 0, t_ppid = 0, t_pde = 0, t_vmap = Kernel_Map, t_text = 0, t_data = 0,
     t_end = 0, t_brk = 0, t_status = 0, t_waitpid = 0, t_pwd_page = 0, t_pwd = [], t_ipwd = 0, t_iroot = 0,
     t_iexec = None, t_umask = 0, t_files = replicate TASK_FILE_NR None, t_magic = 0\<rparr>"

fun free_slot :: "task_ptr option list \<Rightarrow> nat \<Rightarrow> nat option" where
  "free_slot [] i = None"
| "free_slot (p # ps) i = (if p = None then Some i else free_slot ps (Suc i))"

definition get_free_task :: "sched_t \<Rightarrow> (sched_t \<times> task_ptr) result" where
  "get_free_task s =
     (case free_slot (s_table s) 0 of
        None \<Rightarrow> Inl Kernel_Panic
      | Some i \<Rightarrow>
          bindr (alloc_kpage (h_mem (s_heap s)) 1) (\<lambda>(mem, task).
            let s = set_mem s mem;
                s = s\<lparr>s_task := (s_task s)(task := zero_task\<lparr>t_pid := of_nat i\<rparr>),
                      s_links := set_prev (set_next (s_links s) (Node task) None) (Node task) None,
                      s_table := (s_table s)[i := Some task]\<rparr>
            in Inr (s, task)))"

definition sys_getpid :: "sched_t \<Rightarrow> pid_t" where
  "sys_getpid s = t_pid (s_task s (running_task s))"

definition sys_getppid :: "sched_t \<Rightarrow> pid_t" where
  "sys_getppid s = t_ppid (s_task s (running_task s))"

fun free_fd :: "'a option list \<Rightarrow> nat \<Rightarrow> nat" where
  "free_fd [] i = i"
| "free_fd (f # fs) i = (if f = None then i else free_fd fs (Suc i))"

definition task_get_fd :: "task_t \<Rightarrow> nat result" where
  "task_get_fd task =
     (let i = free_fd (drop 3 (t_files task)) 3
      in if i = TASK_FILE_NR then Inl Kernel_Panic else Inr i)"

text \<open>\<open>fd_t\<close> is a signed \<open>int\<close> compared below only with the upper bound.\<close>

definition task_put_fd :: "task_t \<Rightarrow> int \<Rightarrow> task_t result" where
  "task_put_fd task fd =
     (if \<not> fd < int TASK_FILE_NR then Inl Assert_Failed
      else if fd < 0 then Inl Bad_Access
      else bindr (store_at (t_files task) (nat fd) None) (\<lambda>fs. Inr (task\<lparr>t_files := fs\<rparr>)))"

section \<open>The scheduler\<close>

text \<open>The loop of \<open>task_search\<close> with its local variable \<open>task\<close>.\<close>

definition better :: "sched_t \<Rightarrow> task_ptr \<Rightarrow> task_ptr option \<Rightarrow> bool" where
  "better s ptr task =
     (case task of None \<Rightarrow> True
      | Some t \<Rightarrow> sint (t_ticks (s_task s t)) < sint (t_ticks (s_task s ptr))
               \<or> t_jiffies (s_task s ptr) < t_jiffies (s_task s t))"

fun search_tasks :: "sched_t \<Rightarrow> task_state \<Rightarrow> task_ptr option list \<Rightarrow> task_ptr option \<Rightarrow> task_ptr option" where
  "search_tasks s st [] task = task"
| "search_tasks s st (None # ps) task = search_tasks s st ps task"
| "search_tasks s st (Some ptr # ps) task =
     (if state_of s ptr \<noteq> st then search_tasks s st ps task
      else if running_task s = ptr then search_tasks s st ps task
      else search_tasks s st ps (if better s ptr task then Some ptr else task))"

definition task_search :: "sched_t \<Rightarrow> task_state \<Rightarrow> task_ptr option result" where
  "task_search s st =
     (if s_intr s then Inl Assert_Failed
      else let task = search_tasks s st (s_table s) None
           in Inr (if task = None \<and> st = TASK_READY then s_idle s else task))"

definition task_activate :: "sched_t \<Rightarrow> task_ptr \<Rightarrow> sched_t result" where
  "task_activate s p =
     (let task = s_task s p; mem = h_mem (s_heap s)
      in if t_magic task \<noteq> YLOS_MAGIC then Inl Assert_Failed
         else bindr (if t_pde task \<noteq> m_cr3 mem then set_cr3 mem (t_pde task) else Inr mem) (\<lambda>mem.
              let s = set_mem s mem
              in Inr (if t_uid task \<noteq> KERNEL_USER then s\<lparr>s_esp0 := p + PAGE_SIZE\<rparr> else s)))"

definition task_switch :: "sched_t \<Rightarrow> task_ptr \<Rightarrow> sched_t" where
  "task_switch s next = s\<lparr>s_current := next\<rparr>"

definition schedule :: "sched_t \<Rightarrow> sched_t result" where
  "schedule s =
     (if s_intr s then Inl Assert_Failed
      else let current = running_task s
           in bindr (task_search s TASK_READY) (\<lambda>r.
              case r of
                None \<Rightarrow> Inl Assert_Failed
              | Some next \<Rightarrow>
                  if t_magic (s_task s next) \<noteq> YLOS_MAGIC then Inl Assert_Failed
                  else let s = (if state_of s current = TASK_RUNNING
                                then upd_task s current (\<lambda>t. t\<lparr>t_state := TASK_READY\<rparr>) else s);
                           s = upd_task s next (\<lambda>t. t\<lparr>t_state := TASK_RUNNING\<rparr>)
                       in if next = current then Inr s
                          else bindr (task_activate s next) (\<lambda>s. Inr (task_switch s next))))"

definition task_yield :: "sched_t \<Rightarrow> sched_t result" where
  "task_yield s = schedule s"

section \<open>Blocking, sleeping, waking\<close>

definition task_block :: "sched_t \<Rightarrow> task_ptr \<Rightarrow> nat option \<Rightarrow> task_state \<Rightarrow> sched_t result" where
  "task_block s task blist st =
     (if s_intr s then Inl Assert_Failed
      else if l_next (s_links s) (Node task) \<noteq> None then Inl Assert_Failed
      else if l_prev (s_links s) (Node task) \<noteq> None then Inl Assert_Failed
      else let l = (case blist of None \<Rightarrow> block_list | Some l \<Rightarrow> l)
           in bindr (list_push (s_links s) (tlist l) (Node task)) (\<lambda>links.
              if st = TASK_READY \<or> st = TASK_RUNNING then Inl Assert_Failed
              else let s = upd_task (s\<lparr>s_links := links\<rparr>) task (\<lambda>t. t\<lparr>t_state := st\<rparr>)
                   in if running_task s = task then schedule s else Inr s))"

definition task_unblock :: "sched_t \<Rightarrow> task_ptr \<Rightarrow> sched_t result" where
  "task_unblock s task =
     (if s_intr s then Inl Assert_Failed
      else bindr (list_remove (s_links s) (Node task)) (\<lambda>links.
           if l_next links (Node task) \<noteq> None then Inl Assert_Failed
           else if l_prev links (Node task) \<noteq> None then Inl Assert_Failed
           else Inr (upd_task (s\<lparr>s_links := links\<rparr>) task (\<lambda>t. t\<lparr>t_state := TASK_READY\<rparr>))))"

text \<open>The key of a node of the sleep list is the field \<open>ticks\<close> of its task.\<close>

definition ticks_key :: "sched_t \<Rightarrow> tnode \<Rightarrow> u32" where
  "ticks_key s n = (case n of Node p \<Rightarrow> t_ticks (s_task s p) | _ \<Rightarrow> 0)"

definition task_sleep :: "sched_t \<Rightarrow> u32 \<Rightarrow> sched_t result" where
  "task_sleep s ms =
     (if s_intr s then Inl Assert_Failed
      else let ticks = ms div jiffy; ticks = (if 0 < ticks then ticks else 1);
               current = running_task s;
               s = upd_task s current (\<lambda>t. t\<lparr>t_ticks := s_jiffies s + ticks\<rparr>)
           in bindr (list_insert_sort (s_links s) (tlist sleep_list) (ticks_key s) (Node current)) (\<lambda>links.
              schedule (upd_task (s\<lparr>s_links := links\<rparr>) current (\<lambda>t. t\<lparr>t_state := TASK_SLEEPING\<rparr>))))"

text \<open>
  The loop of \<open>task_wakeup\<close>: the comparison of the signed \<open>ticks\<close> with the unsigned
  \<open>jiffies\<close> is unsigned in C.
\<close>

partial_function (option) wakeup_loop :: "sched_t \<Rightarrow> tnode option \<Rightarrow> sched_t result option" where
  "wakeup_loop s ptr =
     (if ptr = Some (List_Tail sleep_list) then Some (Inr s)
      else case ptr of
             Some (Node p) \<Rightarrow>
               if s_jiffies s < t_ticks (s_task s p) then Some (Inr s)
               else (case task_unblock (upd_task s p (\<lambda>t. t\<lparr>t_ticks := 0\<rparr>)) p of
                       Inl e \<Rightarrow> Some (Inl e)
                     | Inr s' \<Rightarrow> wakeup_loop s' (l_next (s_links s) (Node p)))
           | _ \<Rightarrow> Some (Inl Bad_Access))"

definition task_wakeup :: "sched_t \<Rightarrow> sched_t result" where
  "task_wakeup s =
     (if s_intr s then Inl Assert_Failed
      else returned (wakeup_loop s (l_next (s_links s) (List_Head sleep_list))))"

definition clock_handler :: "sched_t \<Rightarrow> u32 \<Rightarrow> sched_t result" where
  "clock_handler s vector =
     (if vector \<noteq> 0x20 then Inl Assert_Failed
      else bindr (task_wakeup s) (\<lambda>s.
           let s = s\<lparr>s_jiffies := s_jiffies s + 1\<rparr>;
               task = running_task s;
               s = upd_task s task (\<lambda>t. t\<lparr>t_jiffies := s_jiffies s, t_ticks := t_ticks t - 1\<rparr>)
           in if t_ticks (s_task s task) = 0
              then schedule (upd_task s task (\<lambda>t. t\<lparr>t_ticks := t_priority t\<rparr>))
              else Inr s))"

section \<open>Creation, fork, exit, wait\<close>

definition count_up :: "(nat \<Rightarrow> u32) \<Rightarrow> nat \<Rightarrow> nat \<Rightarrow> u32" where
  "count_up f i = f(i := f i + 1)"

text \<open>\<open>root\<close> is \<open>get_root_inode()\<close>, \<open>target\<close> the address of the thread's function.\<close>

definition task_create :: "sched_t \<Rightarrow> nat \<Rightarrow> u32 \<Rightarrow> u8 list \<Rightarrow> u32 \<Rightarrow> u32 \<Rightarrow> (sched_t \<times> task_ptr) result" where
  "task_create s root target name priority uid =
     bindr (get_free_task s) (\<lambda>(s, p).
     bindr (strcpy (t_name (s_task s p)) name) (\<lambda>nm.
     bindr (alloc_kpage (h_mem (s_heap s)) 1) (\<lambda>(mem, pwd).
       let s = upd_task (set_mem s mem) p (\<lambda>t. t\<lparr>t_name := nm, t_priority := priority, t_ticks := priority,
                 t_jiffies := 0, t_state := TASK_READY, t_uid := uid, t_gid := 0, t_vmap := Kernel_Map,
                 t_pde := KERNEL_PAGE_DIR, t_brk := USER_EXEC_ADDR, t_text := USER_EXEC_ADDR,
                 t_data := USER_EXEC_ADDR, t_end := USER_EXEC_ADDR, t_iexec := None, t_iroot := root,
                 t_ipwd := root, t_pwd_page := pwd, t_pwd := 0x2f # replicate 4095 0, t_umask := 0x12,
                 t_files := (t_files t)[0 := Some 0, 1 := Some 1, 2 := Some 2], t_magic := YLOS_MAGIC\<rparr>)
       in Inr (s\<lparr>s_inode_count := (s_inode_count s)(root := s_inode_count s root + 2),
                 s_file_count := count_up (count_up (count_up (s_file_count s) 0) 1) 2,
                 s_resume := (s_resume s)(p := Thread_Start target)\<rparr>, p))))"

definition task_build_stack :: "sched_t \<Rightarrow> task_ptr \<Rightarrow> sched_t" where
  "task_build_stack s p = s\<lparr>s_resume := (s_resume s)(p := Interrupt_Exit 0)\<rparr>"

fun count_files :: "nat option list \<Rightarrow> (nat \<Rightarrow> u32) \<Rightarrow> nat \<Rightarrow> u32" where
  "count_files [] c = c"
| "count_files (None # fs) c = count_files fs c"
| "count_files (Some f # fs) c = count_files fs (count_up c f)"

definition BITMAP_SIZE :: u32 where "BITMAP_SIZE = 12"

definition task_fork :: "sched_t \<Rightarrow> (sched_t \<times> pid_t) result" where
  "task_fork s =
     (let p = running_task s; task = s_task s p
      in if \<not> (l_next (s_links s) (Node p) = None \<and> l_prev (s_links s) (Node p) = None
               \<and> t_state task = TASK_RUNNING) then Inl Assert_Failed
         else bindr (get_free_task s) (\<lambda>(s, c).
              let pid = t_pid (s_task s c);
                  s = upd_task s c (\<lambda>_. task\<lparr>t_pid := pid, t_ppid := t_pid task, t_ticks := t_priority task,
                                           t_state := TASK_READY\<rparr>)
              in bindr (kmalloc (s_heap s) BITMAP_SIZE) (\<lambda>(heap, desc).
                 bindr (alloc_kpage (h_mem heap) 1) (\<lambda>(mem, buf).
                   let vmap = Own_Map desc buf (task_vmap mem task)
                   in bindr (copy_pde mem task) (\<lambda>(mem, pde).
                      bindr (alloc_kpage mem 1) (\<lambda>(mem, pwd_page).
                      bindr (strncpy (replicate 4096 0) (t_pwd task) PAGE_SIZE) (\<lambda>pwd.
                        let s = upd_task (s\<lparr>s_heap := heap\<lparr>h_mem := mem\<rparr>\<rparr>) c
                                  (\<lambda>t. t\<lparr>t_vmap := vmap, t_pde := pde, t_pwd_page := pwd_page, t_pwd := pwd\<rparr>);
                            ic = count_up (count_up (s_inode_count s) (t_ipwd task)) (t_iroot task);
                            ic = (case t_iexec task of None \<Rightarrow> ic | Some i \<Rightarrow> count_up ic i);
                            s = s\<lparr>s_inode_count := ic, s_file_count := count_files (t_files task) (s_file_count s)\<rparr>
                        in Inr (task_build_stack s c, pid)))))))) "

text \<open>
  \<open>iput\<close> (fs/inode.c) and \<open>close\<close> (the system call) work on this state and the file
  system's; they are arguments here.
\<close>

fun close_files :: "(sched_t \<Rightarrow> nat \<Rightarrow> sched_t result) \<Rightarrow> sched_t \<Rightarrow> task_ptr \<Rightarrow> nat \<Rightarrow> nat \<Rightarrow> sched_t result" where
  "close_files close s p i 0 = Inr s"
| "close_files close s p i (Suc n) =
     bindr (load_at (t_files (s_task s p)) i) (\<lambda>f.
     bindr (case f of None \<Rightarrow> Inr s | Some _ \<Rightarrow> close s i) (\<lambda>s. close_files close s p (Suc i) n))"

text \<open>The loop that gives the children of \<open>task\<close> to its parent, over \<open>task_table\<close> from 2 on.\<close>

fun adopt_children :: "sched_t \<Rightarrow> task_ptr option list \<Rightarrow> pid_t \<Rightarrow> pid_t \<Rightarrow> sched_t" where
  "adopt_children s [] pid ppid = s"
| "adopt_children s (None # ps) pid ppid = adopt_children s ps pid ppid"
| "adopt_children s (Some c # ps) pid ppid =
     adopt_children (if t_ppid (s_task s c) = pid then upd_task s c (\<lambda>t. t\<lparr>t_ppid := ppid\<rparr>) else s) ps pid ppid"

definition task_exit ::
    "(sched_t \<Rightarrow> nat option \<Rightarrow> sched_t result) \<Rightarrow> (sched_t \<Rightarrow> nat \<Rightarrow> sched_t result) \<Rightarrow>
     sched_t \<Rightarrow> u32 \<Rightarrow> sched_t result" where
  "task_exit iput close s status =
     (let p = running_task s; task = s_task s p
      in if \<not> (l_next (s_links s) (Node p) = None \<and> l_prev (s_links s) (Node p) = None
               \<and> t_state task = TASK_RUNNING) then Inl Assert_Failed
         else let s = upd_task s p (\<lambda>t. t\<lparr>t_state := TASK_DIED, t_status := status\<rparr>)
              in bindr (free_pde (h_mem (s_heap s)) task) (\<lambda>mem.
                 bindr (case t_vmap task of
                          Kernel_Map \<Rightarrow> Inl Assert_Failed \<comment> \<open>the bits of the kernel map are below its offset\<close>
                        | Own_Map desc buf bm \<Rightarrow>
                            bindr (free_kpage mem buf 1) (\<lambda>mem. kfree ((s_heap s)\<lparr>h_mem := mem\<rparr>) desc)) (\<lambda>heap.
                 bindr (free_kpage (h_mem heap) (t_pwd_page task) 1) (\<lambda>mem.
                 bindr (iput (s\<lparr>s_heap := heap\<lparr>h_mem := mem\<rparr>\<rparr>) (Some (t_ipwd task))) (\<lambda>s.
                 bindr (iput s (Some (t_iroot task))) (\<lambda>s.
                 bindr (iput s (t_iexec task)) (\<lambda>s.
                 bindr (close_files close s p 0 TASK_FILE_NR) (\<lambda>s.
                   let s = adopt_children s (drop 2 (s_table s)) (t_pid task) (t_ppid task)
                   in bindr (load_at (s_table s) (unat (t_ppid task))) (\<lambda>parent.
                      bindr (deref parent) (\<lambda>parent.
                        let pt = s_task s parent
                        in bindr (if t_state pt = TASK_WAITING \<and> (t_waitpid pt = -1 \<or> t_waitpid pt = t_pid task)
                                  then task_unblock s parent else Inr s) schedule)))))))))) "

text \<open>
  One pass of the loop of \<open>task_waitpid\<close>.  \<open>Wait_Blocked\<close> is the state in which the caller
  sleeps; it makes the next pass when it runs again.
\<close>

datatype scan_outcome = Found_Dead nat task_ptr | Has_Child | No_Child

fun scan_children :: "sched_t \<Rightarrow> pid_t \<Rightarrow> pid_t \<Rightarrow> task_ptr option list \<Rightarrow> nat \<Rightarrow> bool \<Rightarrow> scan_outcome" where
  "scan_children s self pid [] i has_child = (if has_child then Has_Child else No_Child)"
| "scan_children s self pid (None # ps) i has_child = scan_children s self pid ps (Suc i) has_child"
| "scan_children s self pid (Some c # ps) i has_child =
     (let t = s_task s c
      in if t_ppid t \<noteq> self then scan_children s self pid ps (Suc i) has_child
         else if pid \<noteq> t_pid t \<and> pid \<noteq> -1 then scan_children s self pid ps (Suc i) has_child
         else if t_state t = TASK_DIED then Found_Dead i c
         else scan_children s self pid ps (Suc i) True)"

datatype wait_outcome = Wait_Child sched_t pid_t u32 | Wait_None | Wait_Blocked sched_t

definition task_waitpid :: "sched_t \<Rightarrow> pid_t \<Rightarrow> wait_outcome result" where
  "task_waitpid s pid =
     (let p = running_task s
      in case scan_children s (t_pid (s_task s p)) pid (drop 2 (s_table s)) 2 False of
           Found_Dead i c \<Rightarrow>
             let s = s\<lparr>s_table := (s_table s)[i := None]\<rparr>
             in bindr (free_kpage (h_mem (s_heap s)) c 1) (\<lambda>mem.
                Inr (Wait_Child (set_mem s mem) (t_pid (s_task s c)) (t_status (s_task s c))))
         | Has_Child \<Rightarrow>
             bindr (task_block (upd_task s p (\<lambda>t. t\<lparr>t_waitpid := pid\<rparr>)) p None TASK_WAITING)
               (\<lambda>s. Inr (Wait_Blocked s))
         | No_Child \<Rightarrow> Inr Wait_None)"

section \<open>Start-up\<close>

definition task_setup :: "sched_t \<Rightarrow> sched_t" where
  "task_setup s = (upd_task s (running_task s) (\<lambda>t. t\<lparr>t_magic := YLOS_MAGIC, t_ticks := 1\<rparr>))
     \<lparr>s_table := replicate NR_TASKS None\<rparr>"

definition name_idle :: "u8 list" where "name_idle = [0x69, 0x64, 0x6c, 0x65, 0]"
definition name_init :: "u8 list" where "name_init = [0x69, 0x6e, 0x69, 0x74, 0]"
definition name_test :: "u8 list" where "name_test = [0x74, 0x65, 0x73, 0x74, 0]"

definition task_init :: "sched_t \<Rightarrow> nat \<Rightarrow> u32 \<Rightarrow> u32 \<Rightarrow> u32 \<Rightarrow> sched_t result" where
  "task_init s root idle_thread init_thread test_thread =
     (let s = s\<lparr>s_links := list_init (list_init (s_links s) (tlist block_list)) (tlist sleep_list)\<rparr>;
          s = task_setup s
      in bindr (task_create s root idle_thread name_idle 1 KERNEL_USER) (\<lambda>(s, idle).
         bindr (task_create (s\<lparr>s_idle := Some idle\<rparr>) root init_thread name_init 5 NORMAL_USER) (\<lambda>(s, _).
         bindr (task_create s root test_thread name_test 5 KERNEL_USER) (\<lambda>(s, _). Inr s))))"

end
