(* ===== verification/Ylos_Sched.thy ===== *)
theory Ylos_Sched
  imports Ylos_Task Ylos_Heap
begin

text \<open>
  The proofs about the scheduler of kernel/task.c.  The invariant says where a task is: a task is
  on exactly one list of waiting tasks when its state is a waiting one and on none otherwise, the
  sleeping tasks are on the list of sleepers in the order of their wake-up times, and the one
  running task is the one whose stack the processor uses.  Every operation of the scheduler keeps
  it, so none of its assertions fails.
\<close>

section \<open>The lists of waiting tasks\<close>

text \<open>\<open>N\<close> are the lists that were initialised, \<open>L i\<close> the tasks on list \<open>i\<close>.\<close>

definition queues :: "tnode links \<Rightarrow> nat set \<Rightarrow> (nat \<Rightarrow> task_ptr list) \<Rightarrow> bool" where
  "queues h N L \<longleftrightarrow> (\<forall>i\<in>N. dll h (tlist i) (map Node (L i)))
     \<and> (\<forall>i\<in>N. \<forall>j\<in>N. i \<noteq> j \<longrightarrow> set (L i) \<inter> set (L j) = {})"

definition queued :: "nat set \<Rightarrow> (nat \<Rightarrow> task_ptr list) \<Rightarrow> task_ptr set" where
  "queued N L = (\<Union>i\<in>N. set (L i))"

lemma cells_tlist: "cells (tlist i) (map Node xs) = {List_Head i, List_Tail i} \<union> Node ` set xs"
  by (auto simp: cells_def tlist_def)

lemma queues_change:
  assumes q: "queues h N L" and i: "i \<in> N" and l: "dll h' (tlist i) (map Node xs)"
    and same: "same_outside (cells (tlist i) (map Node ys)) h h'"
    and ys: "\<forall>j\<in>N. j \<noteq> i \<longrightarrow> set ys \<inter> set (L j) = {}" and xs: "set xs \<subseteq> set ys"
  shows "queues h' N (L(i := xs))"
    and "p \<notin> set ys \<Longrightarrow> detached h (Node p) \<Longrightarrow> detached h' (Node p)"
proof -
  have "dll h' (tlist j) (map Node (L j))" if "j \<in> N" "j \<noteq> i" for j
  proof (rule dll_same_outside [OF _ same])
    show "dll h (tlist j) (map Node (L j))" using q that(1) by (simp add: queues_def)
    show "cells (tlist j) (map Node (L j)) \<inter> cells (tlist i) (map Node ys) = {}"
      using ys that unfolding cells_tlist by fastforce
  qed
  moreover have "set xs \<inter> set (L j) = {}" if "j \<in> N" "j \<noteq> i" for j
    using ys xs that by blast
  ultimately show "queues h' N (L(i := xs))"
    using q l unfolding queues_def by (auto simp: Int_commute)
  show "p \<notin> set ys \<Longrightarrow> detached h (Node p) \<Longrightarrow> detached h' (Node p)"
    by (rule detached_same_outside [OF _ same]) (auto simp: cells_tlist)
qed

lemma queued_change: "i \<in> N \<Longrightarrow> queued N (L(i := xs)) = set xs \<union> queued (N - {i}) L"
  by (auto simp: queued_def split: if_splits)

lemma queued_split: "i \<in> N \<Longrightarrow> queued N L = set (L i) \<union> queued (N - {i}) L"
  by (auto simp: queued_def)

lemma queues_distinct: "queues h N L \<Longrightarrow> i \<in> N \<Longrightarrow> distinct (L i)"
  using dll_distinct [of h "tlist i" "map Node (L i)"] by (simp add: queues_def distinct_map)

lemma queues_push:
  assumes q: "queues h N L" and i: "i \<in> N" and p: "detached h (Node p)"
  shows "\<exists>h'. list_push h (tlist i) (Node p) = Inr h' \<and> queues h' N (L(i := p # L i))
    \<and> (\<forall>r. r \<notin> insert p (set (L i)) \<longrightarrow> detached h (Node r) \<longrightarrow> detached h' (Node r))"
proof -
  have d: "dll h (tlist j) (map Node (L j))" if "j \<in> N" for j using q that by (simp add: queues_def)
  have out: "p \<notin> set (L j)" if "j \<in> N" for j
    using detached_not_in_cells [OF d [OF that] p] by (auto simp: cells_tlist)
  from list_push_dll [OF d [OF i] detached_not_in_cells [OF d [OF i] p]] obtain h' where h':
    "list_push h (tlist i) (Node p) = Inr h'" "dll h' (tlist i) (map Node (p # L i))"
    "same_outside (cells (tlist i) (map Node (p # L i))) h h'" by auto
  have "\<forall>j\<in>N. j \<noteq> i \<longrightarrow> set (p # L i) \<inter> set (L j) = {}" using q i out by (auto simp: queues_def)
  from queues_change [OF q i h'(2,3) this] h'(1) show ?thesis by auto
qed

lemma queues_remove:
  assumes q: "queues h N L" and i: "i \<in> N" and p: "p \<in> set (L i)"
  shows "\<exists>h'. list_remove h (Node p) = Inr h' \<and> queues h' N (L(i := remove1 p (L i))) \<and> detached h' (Node p)
    \<and> (\<forall>r. r \<notin> set (L i) \<longrightarrow> detached h (Node r) \<longrightarrow> detached h' (Node r))"
proof -
  have d: "dll h (tlist i) (map Node (L i))" using q i by (simp add: queues_def)
  from list_remove_member [OF d, of "Node p"] p obtain h' where h': "list_remove h (Node p) = Inr h'"
    "dll h' (tlist i) (remove1 (Node p) (map Node (L i)))" "detached h' (Node p)"
    "same_outside (cells (tlist i) (map Node (L i))) h h'" by auto
  have "remove1 (Node p) (map Node xs) = map Node (remove1 p xs)" for xs by (induction xs) auto
  note l = h'(2) [unfolded this]
  have "\<forall>j\<in>N. j \<noteq> i \<longrightarrow> set (L i) \<inter> set (L j) = {}" using q i by (auto simp: queues_def)
  from queues_change [OF q i l h'(4) this set_remove1_subset] h'(1,3) show ?thesis by auto
qed

lemma queues_insort:
  assumes q: "queues h N L" and i: "i \<in> N" and p: "detached h (Node p)"
  shows "\<exists>h' xs. list_insert_sort h (tlist i) key (Node p) = Inr h' \<and> queues h' N (L(i := xs))
    \<and> map Node xs = insort_node key (Node p) (map Node (L i)) \<and> set xs = insert p (set (L i))
    \<and> (\<forall>r. r \<notin> insert p (set (L i)) \<longrightarrow> detached h (Node r) \<longrightarrow> detached h' (Node r))"
proof -
  have d: "dll h (tlist j) (map Node (L j))" if "j \<in> N" for j using q that by (simp add: queues_def)
  have out: "p \<notin> set (L j)" if "j \<in> N" for j
    using detached_not_in_cells [OF d [OF that] p] by (auto simp: cells_tlist)
  from list_insert_sort_dll [OF d [OF i] p, of key] obtain h' where h':
    "list_insert_sort h (tlist i) key (Node p) = Inr h'" "dll h' (tlist i) (insort_node key (Node p) (map Node (L i)))"
    "same_outside (cells (tlist i) (map Node (p # L i))) h h'" by auto
  define xs where "xs = takeWhile (\<lambda>r. key_le key (Node r) (Node p)) (L i) @ p # dropWhile (\<lambda>r. key_le key (Node r) (Node p)) (L i)"
  have xs: "map Node xs = insort_node key (Node p) (map Node (L i))"
    by (simp add: xs_def insort_node_def takeWhile_map dropWhile_map comp_def)
  have set_xs: "set xs = insert p (set (L i))"
    using arg_cong [OF xs, of set] by (auto simp: image_iff)
  have "\<forall>j\<in>N. j \<noteq> i \<longrightarrow> set (p # L i) \<inter> set (L j) = {}" using q i out by (auto simp: queues_def)
  from queues_change [OF q i h'(2) [folded xs] h'(3) this] h'(1) xs set_xs show ?thesis by auto
qed

section \<open>The invariant\<close>

definition tasks :: "sched_t \<Rightarrow> task_ptr set" where
  "tasks s = {p. Some p \<in> set (s_table s)}"

text \<open>The invariant while the running task may already have given up the processor.\<close>

definition sched_pre :: "sched_t \<Rightarrow> nat set \<Rightarrow> (nat \<Rightarrow> task_ptr list) \<Rightarrow> bool" where
  "sched_pre s N L \<longleftrightarrow> queues (s_links s) N L \<and> queued N L \<subseteq> tasks s \<and> {block_list, sleep_list} \<subseteq> N
     \<and> (\<forall>p\<in>tasks s. t_magic (s_task s p) = YLOS_MAGIC \<and> page_aligned (t_pde (s_task s p)))
     \<and> (\<forall>p\<in>tasks s. if waiting_state (state_of s p) then p \<in> queued N L else detached (s_links s) (Node p))
     \<and> (\<forall>p\<in>tasks s. state_of s p = TASK_SLEEPING \<longleftrightarrow> p \<in> set (L sleep_list))
     \<and> sorted_wrt (key_le (ticks_key s)) (map Node (L sleep_list))
     \<and> s_current s \<in> tasks s \<and> (\<forall>p\<in>tasks s. state_of s p = TASK_RUNNING \<longrightarrow> p = s_current s)
     \<and> (\<exists>p\<in>tasks s. s_idle s = Some p \<and> state_of s p \<in> {TASK_READY, TASK_RUNNING})"

definition sched_wf :: "sched_t \<Rightarrow> nat set \<Rightarrow> (nat \<Rightarrow> task_ptr list) \<Rightarrow> bool" where
  "sched_wf s N L \<longleftrightarrow> sched_pre s N L \<and> state_of s (s_current s) = TASK_RUNNING"

lemma sched_preD:
  assumes "sched_pre s N L"
  shows "queues (s_links s) N L" "queued N L \<subseteq> tasks s" "block_list \<in> N" "sleep_list \<in> N"
    "\<And>p. p \<in> tasks s \<Longrightarrow> t_magic (s_task s p) = YLOS_MAGIC \<and> page_aligned (t_pde (s_task s p))"
    "\<And>p. p \<in> tasks s \<Longrightarrow> waiting_state (state_of s p) \<longleftrightarrow> p \<in> queued N L"
    "\<And>p. p \<in> tasks s \<Longrightarrow> \<not> waiting_state (state_of s p) \<Longrightarrow> detached (s_links s) (Node p)"
    "\<And>p. p \<in> tasks s \<Longrightarrow> state_of s p = TASK_SLEEPING \<longleftrightarrow> p \<in> set (L sleep_list)"
    "s_current s \<in> tasks s" "\<And>p. p \<in> tasks s \<Longrightarrow> state_of s p = TASK_RUNNING \<Longrightarrow> p = s_current s"
    "\<exists>p\<in>tasks s. s_idle s = Some p \<and> state_of s p \<in> {TASK_READY, TASK_RUNNING}"
proof -
  have "p \<notin> queued N L" if "p \<in> tasks s" "detached (s_links s) (Node p)" for p
    using detached_not_in_cells [OF _ that(2)] assms
    by (fastforce simp: sched_pre_def queues_def queued_def cells_tlist)
  then show "\<And>p. p \<in> tasks s \<Longrightarrow> waiting_state (state_of s p) \<longleftrightarrow> p \<in> queued N L"
    using assms unfolding sched_pre_def by metis
qed (use assms in \<open>auto simp: sched_pre_def\<close>)

lemma state_of_upd [simp]: "state_of (upd_task s p f) q = (if q = p then t_state (f (s_task s p)) else state_of s q)"
  by (simp add: state_of_def upd_task_def)

lemma upd_task_simps [simp]:
  "s_links (upd_task s p f) = s_links s" "s_table (upd_task s p f) = s_table s" "s_current (upd_task s p f) = s_current s"
  "s_idle (upd_task s p f) = s_idle s" "s_intr (upd_task s p f) = s_intr s" "s_jiffies (upd_task s p f) = s_jiffies s"
  "s_heap (upd_task s p f) = s_heap s" "tasks (upd_task s p f) = tasks s" "running_task (upd_task s p f) = running_task s"
  "s_task (upd_task s p f) q = (if q = p then f (s_task s p) else s_task s q)"
  by (simp_all add: upd_task_def tasks_def running_task_def)

section \<open>The choice of the next task\<close>

lemma search_tasks_Some:
  "search_tasks s st ps t = Some p \<Longrightarrow> t = Some p \<or> (Some p \<in> set ps \<and> state_of s p = st \<and> p \<noteq> running_task s)"
  by (induction s st ps t rule: search_tasks.induct) (auto split: if_splits)

lemma search_tasks_None:
  "search_tasks s st ps t = None \<Longrightarrow> t = None \<and> (\<forall>p. Some p \<in> set ps \<longrightarrow> state_of s p \<noteq> st \<or> p = running_task s)"
proof (induction s st ps t rule: search_tasks.induct)
  case (3 s st ptr ps t)
  have b: "(if better s ptr t then Some ptr else t) = None \<longleftrightarrow> False"
    by (cases t) (simp_all add: better_def)
  show ?case
  proof (cases "state_of s ptr \<noteq> st \<or> running_task s = ptr")
    case True
    then have "search_tasks s st ps t = None" using "3.prems" by (auto split: if_splits)
    with True "3.IH"(1,2) show ?thesis by fastforce
  next
    case False
    then show ?thesis using "3.IH"(3) "3.prems" b by auto
  qed
qed auto

text \<open>
  The next task is a ready one other than the caller; only when there is none it is the idle
  task.
\<close>

lemma task_search_ready:
  assumes "\<not> s_intr s" and idle: "s_idle s = Some i"
  obtains p where "task_search s TASK_READY = Inr (Some p)"
    and "(p \<in> tasks s \<and> state_of s p = TASK_READY \<and> p \<noteq> s_current s)
       \<or> (p = i \<and> (\<forall>q\<in>tasks s. q \<noteq> s_current s \<longrightarrow> state_of s q \<noteq> TASK_READY))"
proof (cases "search_tasks s TASK_READY (s_table s) None")
  case None
  from search_tasks_None [OF None] have "\<forall>q\<in>tasks s. q \<noteq> s_current s \<longrightarrow> state_of s q \<noteq> TASK_READY"
    by (auto simp: tasks_def running_task_def)
  with that [of i] show ?thesis using assms None by (simp add: task_search_def Let_def)
next
  case (Some p)
  from search_tasks_Some [OF Some] have "p \<in> tasks s \<and> state_of s p = TASK_READY \<and> p \<noteq> s_current s"
    by (simp add: tasks_def running_task_def)
  with that [of p] show ?thesis using assms Some by (simp add: task_search_def Let_def)
qed

lemma not_waiting [simp]: "\<not> waiting_state TASK_READY" "\<not> waiting_state TASK_RUNNING" "\<not> waiting_state TASK_DIED"
  "\<not> waiting_state TASK_INIT" "waiting_state TASK_BLOCKED" "waiting_state TASK_WAITING" "waiting_state TASK_SLEEPING"
  by (simp_all add: waiting_state_def)

lemma sorted_key_le: "sorted_wrt (key_le k) xs \<longleftrightarrow> sorted_wrt (\<lambda>x y. sint x \<le> sint y) (map k xs)"
  by (simp add: sorted_wrt_map key_le_def [abs_def])

text \<open>What the invariant looks at; a change of anything else keeps it.\<close>

lemma sched_pre_cong:
  assumes pre: "sched_pre s N L" and "s_links s' = s_links s" "s_table s' = s_table s" "s_idle s' = s_idle s"
    and state: "\<forall>p\<in>tasks s. state_of s' p = state_of s p \<or> \<not> waiting_state (state_of s p) \<and> \<not> waiting_state (state_of s' p)"
    and fields: "\<forall>p\<in>tasks s. t_magic (s_task s' p) = t_magic (s_task s p) \<and> t_pde (s_task s' p) = t_pde (s_task s p)"
    and ticks: "\<forall>p\<in>set (L sleep_list). t_ticks (s_task s' p) = t_ticks (s_task s p)"
    and cur: "s_current s' \<in> tasks s" "\<forall>p\<in>tasks s. state_of s' p = TASK_RUNNING \<longrightarrow> p = s_current s'"
    and idle: "\<forall>p\<in>tasks s. s_idle s = Some p \<longrightarrow> state_of s' p \<in> {TASK_READY, TASK_RUNNING}"
  shows "sched_pre s' N L"
proof -
  have t: "tasks s' = tasks s" using assms(3) by (simp add: tasks_def)
  have keys: "map (ticks_key s') (map Node (L sleep_list)) = map (ticks_key s) (map Node (L sleep_list))"
    using ticks by (simp add: ticks_key_def)
  have "sorted_wrt (key_le (ticks_key s)) (map Node (L sleep_list))" using pre by (simp add: sched_pre_def)
  then have sorted: "sorted_wrt (key_le (ticks_key s')) (map Node (L sleep_list))"
    unfolding sorted_key_le keys .
  have w: "waiting_state (state_of s' p) = waiting_state (state_of s p)"
      "(state_of s' p = TASK_SLEEPING) = (state_of s p = TASK_SLEEPING)" if "p \<in> tasks s" for p
    using bspec [OF state that] by (auto simp: waiting_state_def)
  show ?thesis
    unfolding sched_pre_def t assms(2,4)
  proof (intro conjI)
    show "\<forall>p\<in>tasks s. t_magic (s_task s' p) = YLOS_MAGIC \<and> page_aligned (t_pde (s_task s' p))"
      using pre fields by (simp add: sched_pre_def)
    show "\<exists>p\<in>tasks s. s_idle s = Some p \<and> state_of s' p \<in> {TASK_READY, TASK_RUNNING}"
      using sched_preD(11) [OF pre] idle by blast
  qed (use pre cur sorted w in \<open>simp_all add: sched_pre_def\<close>)
qed

lemma schedule_pre:
  assumes pre: "sched_pre s N L" and intr: "\<not> s_intr s"
  shows "\<exists>s'. schedule s = Inr s' \<and> sched_wf s' N L \<and> tasks s' = tasks s
    \<and> (\<forall>p. state_of s' p = (if p = s_current s' then TASK_RUNNING
          else if p = s_current s \<and> state_of s p = TASK_RUNNING then TASK_READY else state_of s p))
    \<and> ((state_of s (s_current s') = TASK_READY \<and> s_current s' \<noteq> s_current s)
       \<or> (s_idle s = Some (s_current s') \<and> (\<forall>q\<in>tasks s. q \<noteq> s_current s \<longrightarrow> state_of s q \<noteq> TASK_READY)))
    \<and> \<not> s_intr s' \<and> s_jiffies s' = s_jiffies s
    \<and> (\<forall>p. t_ticks (s_task s' p) = t_ticks (s_task s p)) \<and> s_links s' = s_links s"
proof -
  note r = sched_preD [OF pre]
  from r(11) obtain i where i: "i \<in> tasks s" "s_idle s = Some i" "state_of s i \<in> {TASK_READY, TASK_RUNNING}" by blast
  obtain n where n: "task_search s TASK_READY = Inr (Some n)"
    "(n \<in> tasks s \<and> state_of s n = TASK_READY \<and> n \<noteq> s_current s)
       \<or> (n = i \<and> (\<forall>q\<in>tasks s. q \<noteq> s_current s \<longrightarrow> state_of s q \<noteq> TASK_READY))"
    by (rule task_search_ready [OF intr i(2)])
  have nt: "n \<in> tasks s" "state_of s n \<in> {TASK_READY, TASK_RUNNING}" using n(2) i by auto
  define s1 where "s1 = upd_task (if state_of s (s_current s) = TASK_RUNNING
      then upd_task s (s_current s) (\<lambda>t. t\<lparr>t_state := TASK_READY\<rparr>) else s) n (\<lambda>t. t\<lparr>t_state := TASK_RUNNING\<rparr>)"
  have s1: "s_links s1 = s_links s" "s_table s1 = s_table s" "s_idle s1 = s_idle s" "s_intr s1 = s_intr s"
    "s_jiffies s1 = s_jiffies s" "s_current s1 = s_current s"
    "\<And>p. t_magic (s_task s1 p) = t_magic (s_task s p) \<and> t_pde (s_task s1 p) = t_pde (s_task s p)
      \<and> t_ticks (s_task s1 p) = t_ticks (s_task s p)"
    "\<And>p. state_of s1 p = (if p = n then TASK_RUNNING
          else if p = s_current s \<and> state_of s p = TASK_RUNNING then TASK_READY else state_of s p)"
    by (auto simp: s1_def)
  have run: "\<forall>p\<in>tasks s. state_of s1 p = TASK_RUNNING \<longrightarrow> p = n"
    using r(10) by (auto simp: s1(8))
  obtain s' where s': "schedule s = Inr s'" "s_links s' = s_links s1" "s_table s' = s_table s1" "s_idle s' = s_idle s1"
    "s_task s' = s_task s1" "s_current s' = n" "s_intr s' = s_intr s1" "s_jiffies s' = s_jiffies s1"
  proof (cases "n = s_current s")
    case True
    then show ?thesis using that [of s1] intr n(1) r(5) [OF nt(1)]
      by (simp add: schedule_def running_task_def s1_def Let_def)
  next
    case False
    have "\<exists>s2. task_activate s1 n = Inr s2 \<and> s_links s2 = s_links s1 \<and> s_table s2 = s_table s1 \<and> s_idle s2 = s_idle s1
        \<and> s_task s2 = s_task s1 \<and> s_intr s2 = s_intr s1 \<and> s_jiffies s2 = s_jiffies s1"
      using r(5) [OF nt(1)] s1(7) [of n] by (auto simp: task_activate_def Let_def set_cr3_def set_mem_def)
    then obtain s2 where s2: "task_activate s1 n = Inr s2" "s_links s2 = s_links s1" "s_table s2 = s_table s1"
      "s_idle s2 = s_idle s1" "s_task s2 = s_task s1" "s_intr s2 = s_intr s1" "s_jiffies s2 = s_jiffies s1" by blast
    have "schedule s = Inr (task_switch s2 n)"
      using False intr n(1) r(5) [OF nt(1)] s2(1)
      by (simp add: schedule_def running_task_def s1_def Let_def)
    then show ?thesis using that [of "task_switch s2 n"] s2 by (simp add: task_switch_def)
  qed
  have st: "state_of s' p = state_of s1 p" for p by (simp add: state_of_def s'(5))
  have "sched_pre s' N L"
  proof (rule sched_pre_cong [OF pre])
    show "\<forall>p\<in>tasks s. state_of s' p = state_of s p \<or> \<not> waiting_state (state_of s p) \<and> \<not> waiting_state (state_of s' p)"
      using nt(2) by (auto simp: st s1(8))
    show "\<forall>p\<in>tasks s. s_idle s = Some p \<longrightarrow> state_of s' p \<in> {TASK_READY, TASK_RUNNING}"
      using i by (auto simp: st s1(8))
    show "\<forall>p\<in>tasks s. state_of s' p = TASK_RUNNING \<longrightarrow> p = s_current s'" using run st s'(6) by simp
  qed (use s' s1 nt(1) in auto)
  moreover have "state_of s' (s_current s') = TASK_RUNNING" by (simp add: st s1(8) s'(6))
  moreover have "tasks s' = tasks s" by (simp add: tasks_def s'(3) s1(2))
  ultimately show ?thesis
    using s' s1 st n(2) i(2) intr
    by (intro exI [of _ s'] conjI) (auto simp: sched_wf_def)
qed

section \<open>Blocking and waking\<close>

lemma ticks_key_links [simp]: "ticks_key (s\<lparr>s_links := h\<rparr>) = ticks_key s"
  by (rule ext) (simp add: ticks_key_def split: tnode.split)

lemma links_simps [simp]: "tasks (s\<lparr>s_links := h\<rparr>) = tasks s" "state_of (s\<lparr>s_links := h\<rparr>) p = state_of s p"
  "running_task (s\<lparr>s_links := h\<rparr>) = running_task s"
  by (simp_all add: tasks_def state_of_def running_task_def)

lemma other_queues: "queues h N L \<Longrightarrow> i \<in> N \<Longrightarrow> p \<in> set (L i) \<Longrightarrow> p \<notin> queued (N - {i}) L"
  by (auto simp: queues_def queued_def)

text \<open>A task joins a list, or leaves one.\<close>

lemma enqueue_pre:
  assumes pre: "sched_pre s N L" and p: "p \<in> tasks s" "\<not> waiting_state (state_of s p)" "s_idle s \<noteq> Some p"
    and i: "i \<in> N" and q: "queues h N (L(i := xs))" and xs: "set xs = insert p (set (L i))"
    and det: "\<forall>r. r \<notin> insert p (set (L i)) \<longrightarrow> detached (s_links s) (Node r) \<longrightarrow> detached h (Node r)"
    and st: "waiting_state st" "st = TASK_SLEEPING \<longleftrightarrow> i = sleep_list"
    and sorted: "sorted_wrt (key_le (ticks_key s)) (map Node ((L(i := xs)) sleep_list))"
  shows "sched_pre (upd_task (s\<lparr>s_links := h\<rparr>) p (\<lambda>t. t\<lparr>t_state := st\<rparr>)) N (L(i := xs))"
proof -
  note r = sched_preD [OF pre]
  let ?s = "upd_task (s\<lparr>s_links := h\<rparr>) p (\<lambda>t. t\<lparr>t_state := st\<rparr>)"
  have qd: "queued N (L(i := xs)) = insert p (queued N L)"
    using queued_change [OF i] queued_split [OF i, of L] xs by auto
  have slp: "q \<in> set ((L(i := xs)) sleep_list) \<longleftrightarrow> q \<in> set (L sleep_list) \<or> (q = p \<and> i = sleep_list)" for q
    using xs by auto
  have key: "ticks_key ?s = ticks_key s" by (rule ext) (simp add: ticks_key_def split: tnode.split)
  show ?thesis
    unfolding sched_pre_def key qd slp
  proof (intro conjI ballI)
    fix q assume q: "q \<in> tasks ?s"
    have "q \<noteq> p \<Longrightarrow> \<not> waiting_state (state_of s q) \<Longrightarrow> detached h (Node q)"
      using det r(6,7) [of q] q queued_split [OF i, of L] by auto
    then show "if waiting_state (state_of ?s q) then q \<in> insert p (queued N L) else detached (s_links ?s) (Node q)"
      using st(1) r(6) [of q] q by auto
    show "state_of ?s q = TASK_SLEEPING \<longleftrightarrow> q \<in> set (L sleep_list) \<or> q = p \<and> i = sleep_list"
      using st(2) r(6,8) [of q] q p by (auto simp: queued_def)
    show "state_of ?s q = TASK_RUNNING \<longrightarrow> q = s_current ?s"
      using st(1) r(10) [of q] q by auto
  qed (use pre q p i r(2-5,9,11) sorted in \<open>auto\<close>)
qed

lemma sorted_remove1: "sorted_wrt P xs \<Longrightarrow> sorted_wrt P (remove1 y xs)"
  by (induction xs) (auto dest!: subsetD [OF set_remove1_subset])

lemma map_remove1_Node: "map Node (remove1 p xs) = remove1 (Node p) (map Node xs)"
  by (induction xs) auto

lemma unblock_pre:
  assumes pre: "sched_pre s N L" and intr: "\<not> s_intr s" and i: "i \<in> N" and p: "p \<in> set (L i)"
    and f: "\<And>t. t_magic (f t) = t_magic t \<and> t_pde (f t) = t_pde t"
  shows "\<exists>h. task_unblock (upd_task s p f) p = Inr (upd_task (s\<lparr>s_links := h\<rparr>) p (\<lambda>t. (f t)\<lparr>t_state := TASK_READY\<rparr>))
    \<and> sched_pre (upd_task (s\<lparr>s_links := h\<rparr>) p (\<lambda>t. (f t)\<lparr>t_state := TASK_READY\<rparr>)) N (L(i := remove1 p (L i)))"
proof -
  note r = sched_preD [OF pre]
  from queues_remove [where L = L and i = i, OF r(1) i p] obtain h where h: "list_remove (s_links s) (Node p) = Inr h"
    "queues h N (L(i := remove1 p (L i)))" "detached h (Node p)"
    "\<forall>r. r \<notin> set (L i) \<longrightarrow> detached (s_links s) (Node r) \<longrightarrow> detached h (Node r)" by blast
  let ?s = "upd_task (s\<lparr>s_links := h\<rparr>) p (\<lambda>t. (f t)\<lparr>t_state := TASK_READY\<rparr>)"
  have un: "task_unblock (upd_task s p f) p = Inr ?s"
    using h(1,3) intr by (simp add: task_unblock_def detached_def upd_task_def)
  have set_rm: "set (remove1 p (L j)) = set (L j) - {p}" if "j \<in> N" for j
    using queues_distinct [OF r(1) that] by simp
  have po: "p \<notin> queued (N - {i}) L" by (rule other_queues [where i = i, OF r(1) i p])
  have qd: "queued N (L(i := remove1 p (L i))) = queued N L - {p}"
    using queued_change [OF i] queued_split [OF i, of L] set_rm [OF i] po by auto
  have pq: "p \<in> queued N L" using queued_split [OF i, of L] p by simp
  then have pt: "p \<in> tasks s" "waiting_state (state_of s p)" using subsetD [OF r(2) pq] r(6) [of p] by simp_all
  have pi: "s_idle s \<noteq> Some p" using r(11) pt(2) by auto
  have slp: "q \<in> set ((L(i := remove1 p (L i))) sleep_list) \<longleftrightarrow> q \<in> set (L sleep_list) \<and> q \<noteq> p" for q
    using set_rm [OF i] po r(4) by (auto simp: queued_def)
  have "sorted_wrt (key_le (ticks_key s)) (map Node (L sleep_list))" using pre by (simp add: sched_pre_def)
  then have "sorted_wrt (key_le (ticks_key s)) (map Node ((L(i := remove1 p (L i))) sleep_list))"
    by (simp add: map_remove1_Node sorted_remove1)
  moreover have "map (ticks_key ?s) (map Node ((L(i := remove1 p (L i))) sleep_list))
      = map (ticks_key s) (map Node ((L(i := remove1 p (L i))) sleep_list))"
    by (rule map_cong [OF refl]) (auto simp: ticks_key_def slp simp del: fun_upd_apply)
  ultimately have sorted: "sorted_wrt (key_le (ticks_key ?s)) (map Node ((L(i := remove1 p (L i))) sleep_list))"
    unfolding sorted_key_le by metis
  have "sched_pre ?s N (L(i := remove1 p (L i)))"
    unfolding sched_pre_def qd slp
  proof (intro conjI ballI)
    fix q assume q: "q \<in> tasks ?s"
    have "q \<noteq> p \<Longrightarrow> \<not> waiting_state (state_of s q) \<Longrightarrow> detached h (Node q)"
      using h(4) r(6,7) [of q] q queued_split [OF i, of L] by auto
    then show "if waiting_state (state_of ?s q) then q \<in> queued N L - {p} else detached (s_links ?s) (Node q)"
      using r(6) [of q] q h(3) by auto
    show "state_of ?s q = TASK_SLEEPING \<longleftrightarrow> q \<in> set (L sleep_list) \<and> q \<noteq> p"
      using r(8) [of q] q by auto
    show "state_of ?s q = TASK_RUNNING \<longrightarrow> q = s_current ?s" using r(10) [of q] q by auto
    show "t_magic (s_task ?s q) = YLOS_MAGIC" "page_aligned (t_pde (s_task ?s q))" using r(5) [of q] q f by auto
  next
    show "\<exists>q\<in>tasks ?s. s_idle ?s = Some q \<and> state_of ?s q \<in> {TASK_READY, TASK_RUNNING}" using r(11) by auto
    show "queued N L - {p} \<subseteq> tasks ?s" using r(2) by auto
  qed (simp_all add: h(2) r(3,4,9) sorted [simplified])
  with un show ?thesis by blast
qed

section \<open>The operations keep the invariant\<close>

text \<open>What no operation of the scheduler changes.\<close>

definition same_frame :: "sched_t \<Rightarrow> sched_t \<Rightarrow> bool" where
  "same_frame s s' \<longleftrightarrow> tasks s' = tasks s \<and> s_idle s' = s_idle s \<and> s_intr s' = s_intr s"

lemma same_frame_trans: "same_frame s t \<Longrightarrow> same_frame t u \<Longrightarrow> same_frame s u"
  by (simp add: same_frame_def)

lemma same_frame_upd [simp]: "same_frame s (upd_task s p f)" "same_frame s (s\<lparr>s_links := h\<rparr>)"
  "same_frame s (upd_task (s\<lparr>s_links := h\<rparr>) p f)"
  by (simp_all add: same_frame_def)

definition runnable :: "sched_t \<Rightarrow> task_ptr \<Rightarrow> bool" where
  "runnable s p \<longleftrightarrow> state_of s p \<in> {TASK_READY, TASK_RUNNING}"

text \<open>Tasks outside \<open>X\<close> that could run still can.\<close>

definition still_runnable :: "task_ptr set \<Rightarrow> sched_t \<Rightarrow> sched_t \<Rightarrow> bool" where
  "still_runnable X s s' \<longleftrightarrow> (\<forall>p. p \<notin> X \<longrightarrow> runnable s p \<longrightarrow> runnable s' p)"

lemma still_runnable_trans: "still_runnable X s t \<Longrightarrow> still_runnable {} t u \<Longrightarrow> still_runnable X s u"
  by (simp add: still_runnable_def)

lemma schedule_wf:
  assumes pre: "sched_pre s N L" and intr: "\<not> s_intr s"
  shows "\<exists>s'. schedule s = Inr s' \<and> sched_wf s' N L \<and> same_frame s s' \<and> s_jiffies s' = s_jiffies s
    \<and> still_runnable {} s s'
    \<and> (\<forall>p. t_ticks (s_task s' p) = t_ticks (s_task s p))"
proof -
  note r = sched_preD [OF pre]
  from schedule_pre [OF pre intr] obtain s' where s': "schedule s = Inr s'" "sched_wf s' N L" "tasks s' = tasks s"
    "\<forall>p. state_of s' p = (if p = s_current s' then TASK_RUNNING
          else if p = s_current s \<and> state_of s p = TASK_RUNNING then TASK_READY else state_of s p)"
    "\<not> s_intr s'" "s_jiffies s' = s_jiffies s" "\<forall>p. t_ticks (s_task s' p) = t_ticks (s_task s p)" by blast
  have "s_idle s' = s_idle s"
    using s'(1) by (auto simp: schedule_def task_activate_def task_switch_def set_mem_def Let_def elim!: bindr_InrE
        split: if_splits option.splits)
  then show ?thesis
    using s' intr by (intro exI [of _ s']) (auto simp: same_frame_def still_runnable_def runnable_def)
qed

lemma task_block_wf:
  assumes wf: "sched_wf s N L" and intr: "\<not> s_intr s" and p: "p \<in> tasks s" "\<not> waiting_state (state_of s p)" "s_idle s \<noteq> Some p"
    and i: "i \<in> N" "i \<noteq> sleep_list" "i = (case bl of None \<Rightarrow> block_list | Some l \<Rightarrow> l)"
    and st: "st \<in> {TASK_BLOCKED, TASK_WAITING}"
  shows "\<exists>s'. task_block s p bl st = Inr s' \<and> sched_wf s' N (L(i := p # L i)) \<and> same_frame s s' \<and> s_jiffies s' = s_jiffies s
    \<and> state_of s' p = st \<and> p \<noteq> s_current s' \<and> still_runnable {p} s s'"
proof -
  have pre: "sched_pre s N L" and run: "state_of s (s_current s) = TASK_RUNNING" using wf by (simp_all add: sched_wf_def)
  note r = sched_preD [OF pre]
  note det = r(7) [OF p(1,2)]
  from queues_push [OF r(1) i(1) det] obtain h where h: "list_push (s_links s) (tlist i) (Node p) = Inr h"
    "queues h N (L(i := p # L i))"
    "\<forall>r. r \<notin> insert p (set (L i)) \<longrightarrow> detached (s_links s) (Node r) \<longrightarrow> detached h (Node r)" by blast
  define s1 where "s1 = upd_task (s\<lparr>s_links := h\<rparr>) p (\<lambda>t. t\<lparr>t_state := st\<rparr>)"
  have "waiting_state st" "st = TASK_SLEEPING \<longleftrightarrow> i = sleep_list" using st i(2) by auto
  moreover have "sorted_wrt (key_le (ticks_key s)) (map Node ((L(i := p # L i)) sleep_list))"
    using pre i(2) by (simp add: sched_pre_def)
  ultimately have pre1: "sched_pre s1 N (L(i := p # L i))"
    unfolding s1_def by (intro enqueue_pre [OF pre p i(1) h(2) _ h(3)]) simp_all
  have bl: "task_block s p bl st = (if s_current s = p then schedule s1 else Inr s1)"
    using intr det h(1) st unfolding i(3) by (auto simp: task_block_def detached_def s1_def running_task_def Let_def)
  have f1: "same_frame s s1" "\<not> s_intr s1" "state_of s1 p = st" "s_jiffies s1 = s_jiffies s" "s_current s1 = s_current s"
    "still_runnable {p} s s1"
    using intr by (simp_all add: s1_def still_runnable_def runnable_def)
  show ?thesis
  proof (cases "s_current s = p")
    case False
    have "sched_wf s1 N (L(i := p # L i))" using pre1 run False by (simp add: sched_wf_def s1_def)
    then show ?thesis using bl f1 False by auto
  next
    case True
    from schedule_pre [OF pre1 f1(2)] obtain s' where s': "schedule s1 = Inr s'" "sched_wf s' N (L(i := p # L i))"
      "\<forall>q. state_of s' q = (if q = s_current s' then TASK_RUNNING
          else if q = s_current s1 \<and> state_of s1 q = TASK_RUNNING then TASK_READY else state_of s1 q)"
      "(state_of s1 (s_current s') = TASK_READY \<and> s_current s' \<noteq> s_current s1) \<or> s_idle s1 = Some (s_current s')" by blast
    from schedule_wf [OF pre1 f1(2)] s'(1) have fr: "same_frame s1 s'" "s_jiffies s' = s_jiffies s1" "still_runnable {} s1 s'" by auto
    have "p \<noteq> s_current s'" using s'(4) p(3) f1 True by (auto simp: same_frame_def)
    then show ?thesis using bl True s' fr f1 st by (auto intro: same_frame_trans still_runnable_trans)
  qed
qed

lemma task_unblock_wf:
  assumes wf: "sched_wf s N L" and intr: "\<not> s_intr s" and i: "i \<in> N" "p \<in> set (L i)"
  shows "\<exists>s'. task_unblock s p = Inr s' \<and> sched_wf s' N (L(i := remove1 p (L i))) \<and> same_frame s s'
    \<and> s_jiffies s' = s_jiffies s \<and> s_current s' = s_current s
    \<and> (\<forall>q. state_of s' q = (if q = p then TASK_READY else state_of s q))"
proof -
  have pre: "sched_pre s N L" and run: "state_of s (s_current s) = TASK_RUNNING" using wf by (simp_all add: sched_wf_def)
  have "p \<in> queued N L" using i queued_split [OF i(1), of L] by simp
  then have "waiting_state (state_of s p)" using sched_preD(2,6) [OF pre] by blast
  then have "p \<noteq> s_current s" using run by auto
  with unblock_pre [OF pre intr i, of "\<lambda>t. t"] run show ?thesis
    by (auto simp: sched_wf_def upd_task_def state_of_def same_frame_def tasks_def)
qed

lemma task_sleep_wf:
  assumes wf: "sched_wf s N L" and intr: "\<not> s_intr s" and idle: "s_idle s \<noteq> Some (s_current s)"
    and t: "t = s_jiffies s + (if 0 < ms div jiffy then ms div jiffy else 1)"
  shows "\<exists>s' xs. task_sleep s ms = Inr s' \<and> sched_wf s' N (L(sleep_list := xs)) \<and> set xs = insert (s_current s) (set (L sleep_list))
    \<and> same_frame s s' \<and> s_jiffies s' = s_jiffies s
    \<and> state_of s' (s_current s) = TASK_SLEEPING \<and> t_ticks (s_task s' (s_current s)) = t
    \<and> still_runnable {s_current s} s s'"
proof -
  have pre: "sched_pre s N L" and run: "state_of s (s_current s) = TASK_RUNNING" using wf by (simp_all add: sched_wf_def)
  note r = sched_preD [OF pre]
  define s0 where "s0 = upd_task s (s_current s) (\<lambda>u. u\<lparr>t_ticks := t\<rparr>)"
  have notin: "s_current s \<notin> set (L sleep_list)" using r(8) [OF r(9)] run by simp
  have st0: "state_of s0 p = state_of s p" for p by (simp add: s0_def state_of_def)
  have pre0: "sched_pre s0 N L"
  proof (rule sched_pre_cong [OF pre])
    show "\<forall>p\<in>tasks s. state_of s0 p = TASK_RUNNING \<longrightarrow> p = s_current s0"
      using r(10) by (simp add: st0) (simp add: s0_def)
    show "\<forall>p\<in>tasks s. s_idle s = Some p \<longrightarrow> state_of s0 p \<in> {TASK_READY, TASK_RUNNING}"
      using r(11) by (auto simp: st0)
    show "\<forall>p\<in>set (L sleep_list). t_ticks (s_task s0 p) = t_ticks (s_task s p)" using notin by (auto simp: s0_def)
  qed (use r(9) st0 in \<open>simp_all add: s0_def\<close>)
  note r0 = sched_preD [OF pre0]
  have cur: "s_current s0 = s_current s" "s_links s0 = s_links s" "\<not> s_intr s0" "\<not> waiting_state (state_of s0 (s_current s))"
    "s_current s \<in> tasks s0" "s_idle s0 \<noteq> Some (s_current s)"
    using run intr idle r(9) by (simp_all add: st0) (simp_all add: s0_def)
  from queues_insort [OF r0(1) r0(4) r0(7) [OF cur(5,4)], of "ticks_key s0"] obtain h xs where h:
    "list_insert_sort (s_links s0) (tlist sleep_list) (ticks_key s0) (Node (s_current s)) = Inr h"
    "queues h N (L(sleep_list := xs))" "map Node xs = insort_node (ticks_key s0) (Node (s_current s)) (map Node (L sleep_list))"
    "set xs = insert (s_current s) (set (L sleep_list))"
    "\<forall>r. r \<notin> insert (s_current s) (set (L sleep_list)) \<longrightarrow> detached (s_links s0) (Node r) \<longrightarrow> detached h (Node r)"
    by blast
  have "sorted_wrt (key_le (ticks_key s0)) (map Node xs)"
    unfolding h(3) by (rule sorted_insort_node) (use pre0 in \<open>simp add: sched_pre_def\<close>)
  then have sorted: "sorted_wrt (key_le (ticks_key s0)) (map Node ((L(sleep_list := xs)) sleep_list))" by simp
  define s1 where "s1 = upd_task (s0\<lparr>s_links := h\<rparr>) (s_current s) (\<lambda>t. t\<lparr>t_state := TASK_SLEEPING\<rparr>)"
  have pre1: "sched_pre s1 N (L(sleep_list := xs))"
    unfolding s1_def by (rule enqueue_pre [OF pre0 cur(5,4,6) r0(4) h(2,4,5) _ _ sorted]) simp_all
  have f1: "same_frame s s1" "\<not> s_intr s1" "s_jiffies s1 = s_jiffies s" "s_current s1 = s_current s"
    "state_of s1 (s_current s) = TASK_SLEEPING" "t_ticks (s_task s1 (s_current s)) = t"
    "still_runnable {s_current s} s s1"
    using intr by (simp_all add: s1_def s0_def same_frame_def still_runnable_def runnable_def)
  have sl: "task_sleep s ms = schedule s1"
    using intr h(1) by (simp add: task_sleep_def Let_def running_task_def s1_def s0_def t)
  from schedule_pre [OF pre1 f1(2)] obtain s' where s': "schedule s1 = Inr s'" "sched_wf s' N (L(sleep_list := xs))"
    "\<forall>q. state_of s' q = (if q = s_current s' then TASK_RUNNING
        else if q = s_current s1 \<and> state_of s1 q = TASK_RUNNING then TASK_READY else state_of s1 q)"
    "(state_of s1 (s_current s') = TASK_READY \<and> s_current s' \<noteq> s_current s1) \<or> s_idle s1 = Some (s_current s')"
    "\<forall>p. t_ticks (s_task s' p) = t_ticks (s_task s1 p)" by blast
  from schedule_wf [OF pre1 f1(2)] s'(1) have fr: "same_frame s1 s'" "s_jiffies s' = s_jiffies s1" "still_runnable {} s1 s'" by auto
  have "s_current s \<noteq> s_current s'" using s'(4) idle f1 by (auto simp: same_frame_def)
  then show ?thesis
    using sl s' fr f1 h(4) by (intro exI [of _ s'] exI [of _ xs]) (auto intro: same_frame_trans still_runnable_trans)
qed

section \<open>The clock\<close>

definition due :: "sched_t \<Rightarrow> task_ptr \<Rightarrow> bool" where
  "due s p \<longleftrightarrow> t_ticks (s_task s p) \<le> s_jiffies s"

definition woken :: "sched_t \<Rightarrow> task_ptr list \<Rightarrow> sched_t \<Rightarrow> bool" where
  "woken s ws s' \<longleftrightarrow> same_frame s s' \<and> s_jiffies s' = s_jiffies s \<and> s_current s' = s_current s
     \<and> (\<forall>q. state_of s' q = (if q \<in> set ws then TASK_READY else state_of s q))
     \<and> (\<forall>q. t_ticks (s_task s' q) = (if q \<in> set ws then 0 else t_ticks (s_task s q)))"

lemma wakeup_loop_pre:
  assumes "sched_pre s N L" and "\<not> s_intr s"
  shows "\<exists>s'. wakeup_loop s (Some (hd (map Node (L sleep_list) @ [List_Tail sleep_list]))) = Some (Inr s')
    \<and> sched_pre s' N (L(sleep_list := dropWhile (due s) (L sleep_list)))
    \<and> woken s (takeWhile (due s) (L sleep_list)) s'"
  using assms
proof (induction "L sleep_list" arbitrary: s L)
  case Nil
  from Nil.hyps [symmetric] have "L(sleep_list := []) = L" by (rule fun_upd_idem)
  with Nil.prems(1) Nil.hyps [symmetric] show ?case
    by (auto simp: wakeup_loop.simps [of _ "Some (List_Tail sleep_list)"] woken_def same_frame_def)
next
  case (Cons p ps)
  note L = Cons.hyps(2) [symmetric] and r = sched_preD [OF Cons.prems(1)]
  have step: "wakeup_loop s (Some (Node p)) = (if s_jiffies s < t_ticks (s_task s p) then Some (Inr s)
      else (case task_unblock (upd_task s p (\<lambda>t. t\<lparr>t_ticks := 0\<rparr>)) p of
              Inl e \<Rightarrow> Some (Inl e) | Inr s' \<Rightarrow> wakeup_loop s' (l_next (s_links s) (Node p))))"
    by (subst wakeup_loop.simps) simp
  show ?case
  proof (cases "due s p")
    case False
    have "L(sleep_list := p # ps) = L" using L by (intro fun_upd_idem)
    with False L Cons.prems(1) step show ?thesis by (auto simp: due_def woken_def same_frame_def)
  next
    case True
    have pin: "p \<in> set (L sleep_list)" by (simp add: L)
    have dist: "distinct (p # ps)" using queues_distinct [OF r(1,4)] L by simp
    obtain h where h: "task_unblock (upd_task s p (\<lambda>t. t\<lparr>t_ticks := 0\<rparr>)) p
        = Inr (upd_task (s\<lparr>s_links := h\<rparr>) p (\<lambda>t. t\<lparr>t_ticks := 0, t_state := TASK_READY\<rparr>))"
      "sched_pre (upd_task (s\<lparr>s_links := h\<rparr>) p (\<lambda>t. t\<lparr>t_ticks := 0, t_state := TASK_READY\<rparr>)) N (L(sleep_list := ps))"
      using unblock_pre [OF Cons.prems r(4) pin, of "\<lambda>t. t\<lparr>t_ticks := 0\<rparr>"] L by auto
    define s1 where "s1 = upd_task (s\<lparr>s_links := h\<rparr>) p (\<lambda>t. t\<lparr>t_ticks := 0, t_state := TASK_READY\<rparr>)"
    have s1: "same_frame s s1" "\<not> s_intr s1" "s_jiffies s1 = s_jiffies s" "s_current s1 = s_current s"
      using Cons.prems(2) by (simp_all add: s1_def)
    have due1: "due s1 q = due s q" if "q \<noteq> p" for q using that by (simp add: due_def s1_def)
    have tw: "takeWhile (due s1) ps = takeWhile (due s) ps" "dropWhile (due s1) ps = dropWhile (due s) ps"
      by (rule takeWhile_cong dropWhile_cong; use dist due1 in \<open>metis distinct.simps(2)\<close>)+
    have "dll (s_links s) (tlist sleep_list) (map Node (L sleep_list))" using r(1,4) by (simp add: queues_def)
    then have "dll (s_links s) (tlist sleep_list) (map Node (p # ps))" unfolding L .
    from dll_node_next [of "s_links s" "tlist sleep_list" "[]" "Node p" "map Node ps"] this
    have nx: "l_next (s_links s) (Node p) = Some (hd (map Node ps @ [List_Tail sleep_list]))" by (simp add: tlist_def)
    from Cons.hyps(1) [of "L(sleep_list := ps)" s1] h(2) s1(2) obtain s' where s':
      "wakeup_loop s1 (Some (hd (map Node ps @ [List_Tail sleep_list]))) = Some (Inr s')"
      "sched_pre s' N (L(sleep_list := dropWhile (due s) ps))" "woken s1 (takeWhile (due s) ps) s'"
      by (auto simp: s1_def [symmetric] tw)
    have "woken s (p # takeWhile (due s) ps) s'"
      using s'(3) s1 same_frame_trans [OF s1(1), of s'] by (auto simp: woken_def) (auto simp: s1_def)
    moreover have "wakeup_loop s (Some (Node p)) = Some (Inr s')"
      using step True h(1) s'(1) nx by (simp add: due_def s1_def not_less)
    ultimately show ?thesis using s'(2) True L by auto
  qed
qed

lemma task_wakeup_wf:
  assumes wf: "sched_wf s N L" and intr: "\<not> s_intr s"
  shows "\<exists>s'. task_wakeup s = Inr s' \<and> sched_wf s' N (L(sleep_list := dropWhile (due s) (L sleep_list)))
    \<and> woken s (takeWhile (due s) (L sleep_list)) s'"
proof -
  have pre: "sched_pre s N L" and run: "state_of s (s_current s) = TASK_RUNNING" using wf by (simp_all add: sched_wf_def)
  note r = sched_preD [OF pre]
  have "dll (s_links s) (tlist sleep_list) (map Node (L sleep_list))" using r(1,4) by (simp add: queues_def)
  from dll_next(1) [of "s_links s" "tlist sleep_list" "[]" "map Node (L sleep_list)"] this
  have hd: "l_next (s_links s) (List_Head sleep_list) = Some (hd (map Node (L sleep_list) @ [List_Tail sleep_list]))"
    by (simp add: tlist_def)
  from wakeup_loop_pre [OF pre intr] obtain s' where s':
    "wakeup_loop s (Some (hd (map Node (L sleep_list) @ [List_Tail sleep_list]))) = Some (Inr s')"
    "sched_pre s' N (L(sleep_list := dropWhile (due s) (L sleep_list)))" "woken s (takeWhile (due s) (L sleep_list)) s'" by blast
  have "s_current s \<notin> set (takeWhile (due s) (L sleep_list))"
    using r(8) [OF r(9)] run set_takeWhileD by fastforce
  then have "state_of s' (s_current s') = TASK_RUNNING" using s'(3) run by (simp add: woken_def)
  then show ?thesis using s' intr hd by (auto simp: task_wakeup_def returned_def sched_wf_def)
qed

lemma clock_handler_wf:
  assumes wf: "sched_wf s N L" and intr: "\<not> s_intr s"
  shows "\<exists>s'. clock_handler s 0x20 = Inr s' \<and> sched_wf s' N (L(sleep_list := dropWhile (due s) (L sleep_list)))
    \<and> same_frame s s' \<and> s_jiffies s' = s_jiffies s + 1 \<and> still_runnable {} s s'"
proof -
  from task_wakeup_wf [OF assms] obtain s1 where s1: "task_wakeup s = Inr s1"
    "sched_wf s1 N (L(sleep_list := dropWhile (due s) (L sleep_list)))" "woken s (takeWhile (due s) (L sleep_list)) s1" by blast
  define L' where "L' = L(sleep_list := dropWhile (due s) (L sleep_list))"
  define s2 where "s2 = upd_task (s1\<lparr>s_jiffies := s_jiffies s1 + 1\<rparr>) (s_current s1)
      (\<lambda>t. t\<lparr>t_jiffies := s_jiffies s1 + 1, t_ticks := t_ticks t - 1\<rparr>)"
  define s3 where "s3 = upd_task s2 (s_current s1) (\<lambda>t. t\<lparr>t_ticks := t_priority t\<rparr>)"
  have pre1: "sched_pre s1 N L'" and run: "state_of s1 (s_current s1) = TASK_RUNNING"
    using s1(2) by (simp_all add: sched_wf_def L'_def)
  note r = sched_preD [OF pre1]
  have notin: "s_current s1 \<notin> set (L' sleep_list)" using r(8) [OF r(9)] run by simp
  have pre: "sched_pre u N L'" if u: "u = s2 \<or> u = s3" for u
  proof (rule sched_pre_cong [OF pre1])
    have st: "state_of u p = state_of s1 p" for p using u by (auto simp: s3_def s2_def state_of_def upd_task_def)
    show "\<forall>p\<in>tasks s1. state_of u p = state_of s1 p \<or> \<not> waiting_state (state_of s1 p) \<and> \<not> waiting_state (state_of u p)"
      by (simp add: st)
    have cur: "s_current u = s_current s1" using u by (auto simp: s3_def s2_def)
    show "\<forall>p\<in>tasks s1. state_of u p = TASK_RUNNING \<longrightarrow> p = s_current u" using r(10) by (simp add: st cur)
    show "\<forall>p\<in>tasks s1. s_idle s1 = Some p \<longrightarrow> state_of u p \<in> {TASK_READY, TASK_RUNNING}" using r(11) by (auto simp: st)
    show "\<forall>p\<in>set (L' sleep_list). t_ticks (s_task u p) = t_ticks (s_task s1 p)"
      using u notin by (auto simp: s3_def s2_def)
    show "s_current u \<in> tasks s1" using r(9) by (simp add: cur)
  qed (use u in \<open>auto simp: s3_def s2_def\<close>)
  have f: "same_frame s s1" "\<not> s_intr s1" "s_jiffies s1 = s_jiffies s" "still_runnable {} s s1"
    using s1(3) intr by (simp_all add: woken_def same_frame_def still_runnable_def runnable_def)
  have f2: "same_frame s1 u" "\<not> s_intr u" "s_jiffies u = s_jiffies s1 + 1" "state_of u (s_current u) = TASK_RUNNING"
    "still_runnable {} s1 u"
    if "u = s2 \<or> u = s3" for u
    using that f(2) run
    by (auto simp: s3_def s2_def same_frame_def tasks_def state_of_def still_runnable_def runnable_def upd_task_def split: if_splits)
  have eq: "clock_handler s 0x20 = (if t_ticks (s_task s2 (s_current s1)) = 0 then schedule s3 else Inr s2)"
    using s1(1) by (simp add: clock_handler_def Let_def running_task_def s2_def s3_def)
  show ?thesis
  proof (cases "t_ticks (s_task s2 (s_current s1)) = 0")
    case False
    with eq pre [of s2] f2 [of s2] f show ?thesis by (auto simp: sched_wf_def L'_def intro: same_frame_trans still_runnable_trans)
  next
    case True
    from schedule_wf [OF pre [of s3]] f2 [of s3] obtain s' where "schedule s3 = Inr s'" "sched_wf s' N L'"
      "same_frame s3 s'" "s_jiffies s' = s_jiffies s3" "still_runnable {} s3 s'" by auto
    with True eq f f2 [of s3] show ?thesis by (auto simp: L'_def intro: same_frame_trans still_runnable_trans)
  qed
qed

section \<open>Properties\<close>

text \<open>
  The steps of the scheduler: the running task gives up the processor, blocks on a list or goes to
  sleep (the idle task does neither), makes a blocked task ready, or the clock interrupt comes.
\<close>

inductive sched_step :: "nat set \<Rightarrow> sched_t \<Rightarrow> sched_t \<Rightarrow> bool" for N where
  yield: "task_yield s = Inr s' \<Longrightarrow> sched_step N s s'"
| block: "s_idle s \<noteq> Some (s_current s) \<Longrightarrow> (case bl of None \<Rightarrow> block_list | Some l \<Rightarrow> l) \<in> N - {sleep_list} \<Longrightarrow>
    st \<in> {TASK_BLOCKED, TASK_WAITING} \<Longrightarrow> task_block s (s_current s) bl st = Inr s' \<Longrightarrow> sched_step N s s'"
| unblock: "p \<in> tasks s \<Longrightarrow> waiting_state (state_of s p) \<Longrightarrow> task_unblock s p = Inr s' \<Longrightarrow> sched_step N s s'"
| sleep: "s_idle s \<noteq> Some (s_current s) \<Longrightarrow> task_sleep s ms = Inr s' \<Longrightarrow> sched_step N s s'"
| tick: "clock_handler s 0x20 = Inr s' \<Longrightarrow> sched_step N s s'"

lemma current_not_waiting: "sched_wf s N L \<Longrightarrow> s_current s \<in> tasks s \<and> \<not> waiting_state (state_of s (s_current s))"
  using sched_preD(9) by (auto simp: sched_wf_def)

lemma waiting_on_list:
  assumes "sched_wf s N L" "p \<in> tasks s" "waiting_state (state_of s p)"
  obtains i where "i \<in> N" "p \<in> set (L i)"
  using sched_preD(6) [of s N L p] assms by (auto simp: sched_wf_def queued_def)

lemma sched_step_wf:
  assumes "sched_step N s s'" "sched_wf s N L" "\<not> s_intr s"
  shows "\<exists>L'. sched_wf s' N L' \<and> \<not> s_intr s' \<and> tasks s' = tasks s"
  using assms(1)
proof (cases rule: sched_step.cases)
  case yield
  have "sched_pre s N L" using assms(2) by (simp add: sched_wf_def)
  from schedule_wf [OF this assms(3)] yield assms(3) show ?thesis
    unfolding task_yield_def same_frame_def by (metis sum.inject(2))
next
  case (block bl st)
  then show ?thesis using task_block_wf [OF assms(2,3), of "s_current s" _ bl st] current_not_waiting [OF assms(2)] assms(3)
    by (auto simp: same_frame_def)
next
  case (unblock p)
  from waiting_on_list [OF assms(2) unblock(1,2)] obtain i where "i \<in> N" "p \<in> set (L i)" .
  from task_unblock_wf [OF assms(2,3) this] unblock(3) assms(3) show ?thesis by (auto simp: same_frame_def)
next
  case (sleep ms)
  then show ?thesis using task_sleep_wf [OF assms(2,3) sleep(1) refl, of ms] assms(3) by (auto simp: same_frame_def)
next
  case tick
  then show ?thesis using clock_handler_wf [OF assms(2,3)] assms(3) by (auto simp: same_frame_def)
qed

lemma sched_steps_wf:
  assumes "(sched_step N)\<^sup>*\<^sup>* s s'" "sched_wf s N L" "\<not> s_intr s"
  shows "\<exists>L'. sched_wf s' N L' \<and> \<not> s_intr s' \<and> tasks s' = tasks s"
  using assms
proof (induction rule: rtranclp_induct)
  case (step t u)
  then obtain L' where "sched_wf t N L'" "\<not> s_intr t" "tasks t = tasks s" by blast
  with sched_step_wf [OF step.hyps(2)] show ?case by metis
qed auto

lemma on_one_list:
  assumes "sched_pre s N L" "p \<in> tasks s"
  shows "(\<exists>!i. i \<in> N \<and> p \<in> set (L i)) = waiting_state (state_of s p)"
    and "i \<in> N \<Longrightarrow> p \<in> set (L i) \<Longrightarrow> waiting_state (state_of s p)"
proof -
  note r = sched_preD(1,6) [OF assms(1)]
  have one: "i = j" if "i \<in> N" "j \<in> N" "p \<in> set (L i)" "p \<in> set (L j)" for i j
    using r(1) that by (auto simp: queues_def)
  show w: "i \<in> N \<Longrightarrow> p \<in> set (L i) \<Longrightarrow> waiting_state (state_of s p)" for i
    using r(2) [OF assms(2)] by (auto simp: queued_def)
  show "(\<exists>!i. i \<in> N \<and> p \<in> set (L i)) = waiting_state (state_of s p)"
  proof
    assume "waiting_state (state_of s p)"
    then obtain i where "i \<in> N" "p \<in> set (L i)" using r(2) [OF assms(2)] by (auto simp: queued_def)
    with one show "\<exists>!i. i \<in> N \<and> p \<in> set (L i)" by blast
  qed (use w in blast)
qed

text \<open>
  C1. However the steps of the scheduler are interleaved: the running task is always the only one in
  state RUNNING, every task in a waiting state is on exactly one list and no other task is on any,
  and no operation the tasks may call next, nor the clock interrupt, fails an assertion.
\<close>
theorem scheduler_safe:
  assumes "(sched_step N)\<^sup>*\<^sup>* s0 s" "sched_wf s0 N L0" "\<not> s_intr s0"
  shows "{p \<in> tasks s. state_of s p = TASK_RUNNING} = {s_current s}
    \<and> (\<exists>L. queues (s_links s) N L \<and> (\<forall>p\<in>tasks s. (\<exists>!i. i \<in> N \<and> p \<in> set (L i)) = waiting_state (state_of s p)
         \<and> (\<forall>i\<in>N. p \<in> set (L i) \<longrightarrow> waiting_state (state_of s p))))
    \<and> (\<exists>s'. task_yield s = Inr s') \<and> (\<exists>s'. clock_handler s 0x20 = Inr s')
    \<and> (\<forall>p\<in>tasks s. waiting_state (state_of s p) \<longrightarrow> (\<exists>s'. task_unblock s p = Inr s'))
    \<and> (s_idle s \<noteq> Some (s_current s) \<longrightarrow> (\<forall>ms. \<exists>s'. task_sleep s ms = Inr s')
         \<and> (\<forall>i\<in>N - {sleep_list}. \<exists>s'. task_block s (s_current s) (Some i) TASK_BLOCKED = Inr s'))"
proof -
  from sched_steps_wf [OF assms] obtain L where wf: "sched_wf s N L" and intr: "\<not> s_intr s" by blast
  have pre: "sched_pre s N L" and run: "state_of s (s_current s) = TASK_RUNNING" using wf by (simp_all add: sched_wf_def)
  note r = sched_preD [OF pre]
  have "{p \<in> tasks s. state_of s p = TASK_RUNNING} = {s_current s}" using r(9,10) run by blast
  moreover have "(\<exists>!i. i \<in> N \<and> p \<in> set (L i)) = waiting_state (state_of s p)
      \<and> (\<forall>i\<in>N. p \<in> set (L i) \<longrightarrow> waiting_state (state_of s p))" if "p \<in> tasks s" for p
    using on_one_list [OF pre that] by blast
  moreover have "\<exists>s'. task_yield s = Inr s'" using schedule_wf [OF pre intr] by (auto simp: task_yield_def)
  moreover have "\<exists>s'. clock_handler s 0x20 = Inr s'" using clock_handler_wf [OF wf intr] by blast
  moreover have "\<exists>s'. task_unblock s p = Inr s'" if "p \<in> tasks s" "waiting_state (state_of s p)" for p
    using waiting_on_list [OF wf that] task_unblock_wf [OF wf intr] by metis
  moreover have "\<exists>s'. task_sleep s ms = Inr s'" if "s_idle s \<noteq> Some (s_current s)" for ms
    using task_sleep_wf [OF wf intr that refl] by blast
  moreover have "\<exists>s'. task_block s (s_current s) (Some i) TASK_BLOCKED = Inr s'"
    if "s_idle s \<noteq> Some (s_current s)" "i \<in> N - {sleep_list}" for i
    using task_block_wf [OF wf intr _ _ that(1), of i "Some i" TASK_BLOCKED] current_not_waiting [OF wf] that(2) by auto
  ultimately show ?thesis using r(1) by (intro conjI exI [of _ L]) simp_all
qed

text \<open>A small system: an idle task, and an init task that runs.\<close>

definition demo_tasks :: "task_ptr \<Rightarrow> task_t" where
  "demo_tasks p = zero_task\<lparr>t_state := (if p = 0x2000 then TASK_RUNNING else TASK_READY), t_ticks := 1, t_priority := 5,
     t_pde := 0x1000, t_magic := YLOS_MAGIC\<rparr>"

definition demo_sched :: sched_t where
  "demo_sched = \<lparr>s_table = [Some 0x1000, Some 0x2000] @ replicate 62 None, s_task = demo_tasks,
     s_links = list_init (list_init \<lparr>l_next = (\<lambda>_. None), l_prev = (\<lambda>_. None)\<rparr> (tlist block_list)) (tlist sleep_list),
     s_current = 0x2000, s_idle = Some 0x1000, s_jiffies = 7, s_intr = False, s_heap = demo_heap, s_esp0 = 0,
     s_resume = (\<lambda>_. After_Switch), s_inode_count = (\<lambda>_. 0), s_file_count = (\<lambda>_. 0)\<rparr>"

lemma demo_sched_wf: "sched_wf demo_sched {block_list, sleep_list} (\<lambda>_. [])"
proof -
  have q: "queues (s_links demo_sched) {block_list, sleep_list} (\<lambda>_. [])"
    by (simp add: queues_def demo_sched_def dll_def list_init_def Let_def tlist_def block_list_def sleep_list_def)
  have det: "detached (s_links demo_sched) (Node p)" for p
    by (simp add: demo_sched_def detached_def list_init_def Let_def tlist_def)
  have t: "tasks demo_sched = {0x1000, 0x2000}" by (auto simp: tasks_def demo_sched_def)
  have st: "state_of demo_sched p = (if p = 0x2000 then TASK_RUNNING else TASK_READY)" for p
    by (simp add: state_of_def demo_sched_def demo_tasks_def)
  have f: "t_magic (s_task demo_sched p) = YLOS_MAGIC" "t_pde (s_task demo_sched p) = 0x1000"
    "s_current demo_sched = 0x2000" "s_idle demo_sched = Some 0x1000" for p
    by (simp_all add: demo_sched_def demo_tasks_def)
  show ?thesis
    unfolding sched_wf_def sched_pre_def t by (simp add: q det st f queued_def page_aligned_def)
qed

lemma scheduler_safe_witness:
  "\<exists>s. sched_step {block_list, sleep_list} demo_sched s \<and> (\<exists>s'. clock_handler s 0x20 = Inr s')
     \<and> (\<exists>p. {q \<in> tasks s. state_of s q = TASK_RUNNING} = {p})"
proof -
  have i: "\<not> s_intr demo_sched" and n: "s_idle demo_sched \<noteq> Some (s_current demo_sched)" by (simp_all add: demo_sched_def)
  obtain s where s: "task_sleep demo_sched 30 = Inr s" using task_sleep_wf [OF demo_sched_wf i n refl] by blast
  have st: "sched_step {block_list, sleep_list} demo_sched s" by (rule sched_step.sleep [OF n s])
  note c = scheduler_safe [OF r_into_rtranclp [of "sched_step {block_list, sleep_list}", OF st] demo_sched_wf i]
  note c = c [THEN conjunct1] c [THEN conjunct2, THEN conjunct2, THEN conjunct2, THEN conjunct1]
  have "\<exists>p. {q \<in> tasks s. state_of s q = TASK_RUNNING} = {p}" by (rule exI) (rule c(1))
  with st c(2) show ?thesis by blast
qed

text \<open>
  C9. The choice of \<open>schedule\<close>: a ready task other than the caller when there is one, the idle task
  otherwise; the chosen task is then the one that runs, the caller is ready again if it was running,
  and no other task changes its state.
\<close>
theorem schedule_choice:
  assumes "sched_pre s N L" and "\<not> s_intr s"
  shows "\<exists>s'. schedule s = Inr s'
    \<and> (if \<exists>p\<in>tasks s. p \<noteq> s_current s \<and> state_of s p = TASK_READY
       then state_of s (s_current s') = TASK_READY \<and> s_current s' \<noteq> s_current s
       else s_idle s = Some (s_current s'))
    \<and> (\<forall>p. state_of s' p = (if p = s_current s' then TASK_RUNNING
          else if p = s_current s \<and> state_of s p = TASK_RUNNING then TASK_READY else state_of s p))"
proof -
  from schedule_pre [OF assms] obtain s' where s': "schedule s = Inr s'" "sched_wf s' N L" "tasks s' = tasks s"
    "\<forall>p. state_of s' p = (if p = s_current s' then TASK_RUNNING
          else if p = s_current s \<and> state_of s p = TASK_RUNNING then TASK_READY else state_of s p)"
    "(state_of s (s_current s') = TASK_READY \<and> s_current s' \<noteq> s_current s)
       \<or> (s_idle s = Some (s_current s') \<and> (\<forall>q\<in>tasks s. q \<noteq> s_current s \<longrightarrow> state_of s q \<noteq> TASK_READY))" by blast
  have "s_current s' \<in> tasks s" using current_not_waiting [OF s'(2)] s'(3) by simp
  with s' show ?thesis by auto
qed

lemma schedule_choice_witness:
  "\<exists>s'. schedule demo_sched = Inr s' \<and> state_of demo_sched (s_current s') = TASK_READY"
proof -
  have pre: "sched_pre demo_sched {block_list, sleep_list} (\<lambda>_. [])" and i: "\<not> s_intr demo_sched"
    using demo_sched_wf by (simp_all add: sched_wf_def demo_sched_def)
  have "0x1000 \<in> tasks demo_sched" "(0x1000 :: u32) \<noteq> s_current demo_sched" "state_of demo_sched 0x1000 = TASK_READY"
    by (simp_all add: tasks_def demo_sched_def demo_tasks_def state_of_def)
  then have "\<exists>p\<in>tasks demo_sched. p \<noteq> s_current demo_sched \<and> state_of demo_sched p = TASK_READY" by blast
  with schedule_choice [OF pre i] show ?thesis by auto
qed

lemma takeWhile_sorted: "sorted_wrt (\<lambda>x y. P y \<longrightarrow> P x) xs \<Longrightarrow> takeWhile P xs = filter P xs"
  by (induction xs) (auto simp: filter_empty_conv)

text \<open>
  C10. Nobody oversleeps: \<open>task_wakeup\<close>, called by every clock interrupt, makes exactly those sleepers
  ready whose wake-up time is not after \<open>jiffies\<close>, as long as the times stay below \<open>2 ^ 31\<close> (the list
  is sorted by the signed, the test made with the unsigned order).
\<close>
theorem wakeup_exact:
  assumes "sched_wf s N L" "\<not> s_intr s"
    and "\<forall>p\<in>tasks s. state_of s p = TASK_SLEEPING \<longrightarrow> unat (t_ticks (s_task s p)) < 2 ^ 31"
  shows "\<exists>s'. task_wakeup s = Inr s' \<and> (\<forall>p\<in>tasks s. state_of s' p =
    (if state_of s p = TASK_SLEEPING \<and> t_ticks (s_task s p) \<le> s_jiffies s then TASK_READY else state_of s p))"
proof -
  have pre: "sched_pre s N L" using assms(1) by (simp add: sched_wf_def)
  note r = sched_preD [OF pre]
  from task_wakeup_wf [OF assms(1,2)] obtain s' where s': "task_wakeup s = Inr s'"
    "woken s (takeWhile (due s) (L sleep_list)) s'" by blast
  have small: "unat (t_ticks (s_task s p)) < 2 ^ 31" if "p \<in> set (L sleep_list)" for p
  proof -
    have "p \<in> tasks s" using that r(2,4) by (auto simp: queued_def)
    with assms(3) r(8) that show ?thesis by blast
  qed
  have "sorted_wrt (\<lambda>x y. sint (t_ticks (s_task s x)) \<le> sint (t_ticks (s_task s y))) (L sleep_list)"
    using pre by (simp add: sched_pre_def sorted_wrt_map key_le_def ticks_key_def)
  then have "sorted_wrt (\<lambda>x y. due s y \<longrightarrow> due s x) (L sleep_list)"
    by (rule sorted_wrt_mono_rel [rotated])
       (simp add: due_def word_le_nat_alt sint_small [OF small] del: of_nat_unat)
  then have "takeWhile (due s) (L sleep_list) = filter (due s) (L sleep_list)" by (rule takeWhile_sorted)
  with s' r(8) show ?thesis by (auto simp: woken_def due_def)
qed

text \<open>Three sleepers at time 7: the first is late, the second due now, the third sleeps on.\<close>

definition demo_sleep_tasks :: "task_ptr \<Rightarrow> task_t" where
  "demo_sleep_tasks p = (if p = 0x3000 then (demo_tasks p)\<lparr>t_state := TASK_SLEEPING, t_ticks := 5\<rparr>
     else if p = 0x4000 then (demo_tasks p)\<lparr>t_state := TASK_SLEEPING, t_ticks := 7\<rparr>
     else if p = 0x5000 then (demo_tasks p)\<lparr>t_state := TASK_SLEEPING, t_ticks := 9\<rparr>
     else demo_tasks p)"

definition demo_sleep_links :: "tnode links" where
  "demo_sleep_links = (let h = s_links demo_sched in
     \<lparr>l_next = (l_next h)(List_Head sleep_list := Some (Node 0x3000), Node 0x3000 := Some (Node 0x4000),
                 Node 0x4000 := Some (Node 0x5000), Node 0x5000 := Some (List_Tail sleep_list)),
      l_prev = (l_prev h)(List_Tail sleep_list := Some (Node 0x5000), Node 0x5000 := Some (Node 0x4000),
                 Node 0x4000 := Some (Node 0x3000), Node 0x3000 := Some (List_Head sleep_list))\<rparr>)"

definition demo_sleepers :: sched_t where
  "demo_sleepers = demo_sched\<lparr>s_table := [Some 0x1000, Some 0x2000, Some 0x3000, Some 0x4000, Some 0x5000] @ replicate 59 None,
     s_task := demo_sleep_tasks, s_links := demo_sleep_links\<rparr>"

lemma demo_sleepers_fields:
  "tasks demo_sleepers = {0x1000, 0x2000, 0x3000, 0x4000, 0x5000}"
  "state_of demo_sleepers p = (if p = 0x3000 \<or> p = 0x4000 \<or> p = 0x5000 then TASK_SLEEPING
     else if p = 0x2000 then TASK_RUNNING else TASK_READY)"
  "t_ticks (s_task demo_sleepers p) = (if p = 0x3000 then 5 else if p = 0x4000 then 7 else if p = 0x5000 then 9 else 1)"
  "t_magic (s_task demo_sleepers p) = YLOS_MAGIC" "t_pde (s_task demo_sleepers p) = 0x1000"
  "s_current demo_sleepers = 0x2000" "s_idle demo_sleepers = Some 0x1000" "\<not> s_intr demo_sleepers" "s_jiffies demo_sleepers = 7"
  by (auto simp: tasks_def state_of_def demo_sleepers_def demo_sleep_tasks_def demo_tasks_def demo_sched_def)

lemma demo_sleepers_wf: "sched_wf demo_sleepers {block_list, sleep_list} (\<lambda>i. if i = sleep_list then [0x3000, 0x4000, 0x5000] else [])"
proof -
  let ?L = "\<lambda>i. if i = sleep_list then [0x3000, 0x4000, 0x5000] else []"
  have ne: "block_list \<noteq> sleep_list" by (simp add: block_list_def sleep_list_def)
  have h: "s_links demo_sleepers = demo_sleep_links" by (simp add: demo_sleepers_def)
  have "dll demo_sleep_links (tlist block_list) (map Node (?L block_list))"
    using ne by (simp add: dll_def demo_sleep_links_def demo_sched_def list_init_def Let_def tlist_def)
  moreover have "dll demo_sleep_links (tlist sleep_list) (map Node (?L sleep_list))"
    using ne by (simp add: dll_def demo_sleep_links_def demo_sched_def list_init_def Let_def tlist_def)
  ultimately have q: "queues demo_sleep_links {block_list, sleep_list} ?L" using ne by (simp add: queues_def)
  have det: "detached demo_sleep_links (Node p)" if "p \<noteq> 0x3000" "p \<noteq> 0x4000" "p \<noteq> 0x5000" for p
    using that by (simp add: demo_sleep_links_def demo_sched_def detached_def list_init_def Let_def tlist_def)
  have sorted: "sorted_wrt (key_le (ticks_key demo_sleepers)) (map Node (?L sleep_list))"
    by (simp add: key_le_def ticks_key_def demo_sleepers_fields)
  show ?thesis
    unfolding sched_wf_def sched_pre_def h demo_sleepers_fields(1)
    using ne q det sorted by (auto simp: demo_sleepers_fields(2-7) queued_def page_aligned_def)
qed

lemma wakeup_exact_witness:
  "\<exists>s'. task_wakeup demo_sleepers = Inr s' \<and> state_of s' 0x3000 = TASK_READY \<and> state_of s' 0x4000 = TASK_READY
     \<and> state_of s' 0x5000 = TASK_SLEEPING \<and> state_of s' 0x2000 = TASK_RUNNING"
proof -
  have "\<forall>p\<in>tasks demo_sleepers. state_of demo_sleepers p = TASK_SLEEPING \<longrightarrow>
      unat (t_ticks (s_task demo_sleepers p)) < 2 ^ 31" by (simp add: demo_sleepers_fields)
  from wakeup_exact [OF demo_sleepers_wf demo_sleepers_fields(8) this]
  show ?thesis by (auto simp: demo_sleepers_fields)
qed

end
