(* ===== verification/Ylos_Mutex.thy ===== *)
theory Ylos_Mutex
  imports Ylos_Sched
begin

text \<open>
  kernel/mutex.c with include/ylos/mutex.h: mutexes and re-entrant locks over the wait lists
  of the scheduler.  The loop of \<open>mutex_lock\<close> blocks the caller inside \<open>task_block\<close> and tests
  the mutex again when the caller is the running task again; one call of \<open>mutex_lock\<close> here is
  one pass of that loop, and \<open>Lock_Waits\<close> is the state in which the caller is suspended.
  \<open>intr\<close> is the interrupt flag the caller had; it is restored on the way out.
\<close>

section \<open>The code\<close>

record mutex_t =
  mx_value :: bool
  mx_waiters :: nat

record lock_t =
  lk_holder :: "task_ptr option"
  lk_mutex :: mutex_t
  lk_repeat :: u32

definition interrupt_disable :: "sched_t \<Rightarrow> sched_t \<times> bool" where
  "interrupt_disable s = (s\<lparr>s_intr := False\<rparr>, s_intr s)"

definition set_interrupt_state :: "sched_t \<Rightarrow> bool \<Rightarrow> sched_t" where
  "set_interrupt_state s intr = s\<lparr>s_intr := intr\<rparr>"

definition mutex_init :: "sched_t \<Rightarrow> nat \<Rightarrow> sched_t \<times> mutex_t" where
  "mutex_init s l = (s\<lparr>s_links := list_init (s_links s) (tlist l)\<rparr>, \<lparr>mx_value = False, mx_waiters = l\<rparr>)"

datatype 'm lock_outcome = Lock_Taken sched_t 'm | Lock_Waits sched_t

text \<open>\<open>intr\<close> is known from the first pass on, so a later pass gets it as an argument.\<close>

definition mutex_pass :: "sched_t \<Rightarrow> mutex_t \<Rightarrow> bool \<Rightarrow> mutex_t lock_outcome result" where
  "mutex_pass s mx intr =
     (if mx_value mx
      then bindr (task_block s (running_task s) (Some (mx_waiters mx)) TASK_BLOCKED) (\<lambda>s. Inr (Lock_Waits s))
      else Inr (Lock_Taken (set_interrupt_state s intr) (mx\<lparr>mx_value := True\<rparr>)))"

definition mutex_lock :: "sched_t \<Rightarrow> mutex_t \<Rightarrow> mutex_t lock_outcome result" where
  "mutex_lock s mx = (let (s, intr) = interrupt_disable s in mutex_pass s mx intr)"

text \<open>
  \<open>mutex_unlock\<close> hands the processor over after it has woken the oldest waiter
  (\<open>waiters.tail.prev\<close>); the flag of the caller is restored when it runs again, at once when
  nobody waits.
\<close>

definition mutex_unlock :: "sched_t \<Rightarrow> mutex_t \<Rightarrow> (sched_t \<times> mutex_t) result" where
  "mutex_unlock s mx =
     (let (s, intr) = interrupt_disable s
      in if \<not> mx_value mx then Inl Assert_Failed
         else let mx = mx\<lparr>mx_value := False\<rparr>
              in if list_empty (s_links s) (tlist (mx_waiters mx)) then Inr (set_interrupt_state s intr, mx)
                 else case l_prev (s_links s) (List_Tail (mx_waiters mx)) of
                        Some (Node p) \<Rightarrow>
                          if t_magic (s_task s p) \<noteq> YLOS_MAGIC then Inl Assert_Failed
                          else bindr (task_unblock s p) (\<lambda>s.
                               bindr (task_yield s) (\<lambda>s. Inr (s, mx)))
                      | _ \<Rightarrow> Inl Bad_Access)"

definition lock_init :: "sched_t \<Rightarrow> nat \<Rightarrow> sched_t \<times> lock_t" where
  "lock_init s l = (let (s, mx) = mutex_init s l in (s, \<lparr>lk_holder = None, lk_mutex = mx, lk_repeat = 0\<rparr>))"

text \<open>What \<open>lock_acquire\<close> does once it has the mutex.\<close>

definition lock_taken :: "sched_t \<Rightarrow> lock_t \<Rightarrow> task_ptr \<Rightarrow> mutex_t \<Rightarrow> lock_t lock_outcome result" where
  "lock_taken s lk current mx =
     (let lk = lk\<lparr>lk_mutex := mx, lk_holder := Some current\<rparr>
      in if lk_repeat lk \<noteq> 0 then Inl Assert_Failed else Inr (Lock_Taken s (lk\<lparr>lk_repeat := 1\<rparr>)))"

definition lock_acquire :: "sched_t \<Rightarrow> lock_t \<Rightarrow> lock_t lock_outcome result" where
  "lock_acquire s lk =
     (let current = running_task s
      in if lk_holder lk \<noteq> Some current
         then bindr (mutex_lock s (lk_mutex lk)) (\<lambda>r.
              case r of Lock_Waits s \<Rightarrow> Inr (Lock_Waits s) | Lock_Taken s mx \<Rightarrow> lock_taken s lk current mx)
         else Inr (Lock_Taken s (lk\<lparr>lk_repeat := lk_repeat lk + 1\<rparr>)))"

text \<open>A later pass, after the caller slept in \<open>mutex_lock\<close>: the holder is not tested again.\<close>

definition lock_pass :: "sched_t \<Rightarrow> lock_t \<Rightarrow> bool \<Rightarrow> lock_t lock_outcome result" where
  "lock_pass s lk intr =
     (let current = running_task s
      in bindr (mutex_pass s (lk_mutex lk) intr) (\<lambda>r.
         case r of Lock_Waits s \<Rightarrow> Inr (Lock_Waits s) | Lock_Taken s mx \<Rightarrow> lock_taken s lk current mx))"

definition lock_release :: "sched_t \<Rightarrow> lock_t \<Rightarrow> (sched_t \<times> lock_t) result" where
  "lock_release s lk =
     (if lk_holder lk \<noteq> Some (running_task s) then Inl Assert_Failed
      else if 1 < lk_repeat lk then Inr (s, lk\<lparr>lk_repeat := lk_repeat lk - 1\<rparr>)
      else if lk_repeat lk \<noteq> 1 then Inl Assert_Failed
      else bindr (mutex_unlock s (lk_mutex lk)) (\<lambda>(s, mx).
           Inr (s, lk\<lparr>lk_holder := None, lk_repeat := 0, lk_mutex := mx\<rparr>)))"

text \<open>A lock nobody holds or waits for can be taken and given back.\<close>

definition free_lock :: "nat \<Rightarrow> lock_t" where
  "free_lock l = \<lparr>lk_holder = None, lk_mutex = \<lparr>mx_value = False, mx_waiters = l\<rparr>, lk_repeat = 0\<rparr>"

lemma lock_round:
  assumes "list_empty (s_links s) (tlist l)"
  obtains s1 lk1 s2 lk2 where "lock_acquire s (free_lock l) = Inr (Lock_Taken s1 lk1)" "lock_release s1 lk1 = Inr (s2, lk2)"
proof -
  define lk where "lk = \<lparr>lk_holder = Some (running_task s), lk_mutex = \<lparr>mx_value = True, mx_waiters = l\<rparr>, lk_repeat = 1\<rparr>"
  define s1 where "s1 = s\<lparr>s_intr := s_intr s\<rparr>"
  have acq: "lock_acquire s (free_lock l) = Inr (Lock_Taken s1 lk)"
    by (simp add: free_lock_def lock_acquire_def mutex_lock_def interrupt_disable_def mutex_pass_def set_interrupt_state_def
        lock_taken_def Let_def lk_def s1_def)
  have "\<exists>s' lk'. lock_release s1 lk = Inr (s', lk')"
    using assms by (simp add: lock_release_def lk_def s1_def running_task_def mutex_unlock_def interrupt_disable_def Let_def)
  with acq that show ?thesis by blast
qed

section \<open>The clients of a mutex\<close>

text \<open>
  Everything that can happen around one mutex: \<open>cl_in\<close> are the tasks that got it and have not
  given it back, \<open>cl_wait p\<close> is the interrupt flag saved by a task \<open>p\<close> that is inside the loop of
  \<open>mutex_lock\<close>.  A task that is resumed inside the loop makes its next pass; any other running
  task may do what the scheduler offers, except that nobody else uses the list of waiters.
\<close>

record client =
  cl_s :: sched_t
  cl_mx :: mutex_t
  cl_in :: "task_ptr set"
  cl_wait :: "task_ptr \<Rightarrow> bool option"

inductive mx_step :: "nat set \<Rightarrow> client \<Rightarrow> client \<Rightarrow> bool" for N where
  lock: "cl_wait c (s_current (cl_s c)) = None \<Longrightarrow> s_current (cl_s c) \<notin> cl_in c \<Longrightarrow>
    mutex_lock (cl_s c) (cl_mx c) = Inr (Lock_Taken s' mx') \<Longrightarrow>
    mx_step N c (c\<lparr>cl_s := s', cl_mx := mx', cl_in := insert (s_current (cl_s c)) (cl_in c)\<rparr>)"
| lock_waits: "cl_wait c (s_current (cl_s c)) = None \<Longrightarrow> s_current (cl_s c) \<notin> cl_in c \<Longrightarrow>
    s_idle (cl_s c) \<noteq> Some (s_current (cl_s c)) \<Longrightarrow>
    mutex_lock (cl_s c) (cl_mx c) = Inr (Lock_Waits s') \<Longrightarrow>
    mx_step N c (c\<lparr>cl_s := s', cl_wait := (cl_wait c)(s_current (cl_s c) \<mapsto> s_intr (cl_s c))\<rparr>)"
| retry: "cl_wait c (s_current (cl_s c)) = Some intr \<Longrightarrow> \<not> s_intr (cl_s c) \<Longrightarrow>
    mutex_pass (cl_s c) (cl_mx c) intr = Inr (Lock_Taken s' mx') \<Longrightarrow>
    mx_step N c (c\<lparr>cl_s := s', cl_mx := mx', cl_in := insert (s_current (cl_s c)) (cl_in c),
                   cl_wait := (cl_wait c)(s_current (cl_s c) := None)\<rparr>)"
| retry_waits: "cl_wait c (s_current (cl_s c)) = Some intr \<Longrightarrow> \<not> s_intr (cl_s c) \<Longrightarrow>
    mutex_pass (cl_s c) (cl_mx c) intr = Inr (Lock_Waits s') \<Longrightarrow> mx_step N c (c\<lparr>cl_s := s'\<rparr>)"
| unlock: "s_current (cl_s c) \<in> cl_in c \<Longrightarrow> mutex_unlock (cl_s c) (cl_mx c) = Inr (s', mx') \<Longrightarrow>
    mx_step N c (c\<lparr>cl_s := s', cl_mx := mx', cl_in := cl_in c - {s_current (cl_s c)}\<rparr>)"
| flag: "cl_wait c (s_current (cl_s c)) = None \<Longrightarrow> mx_step N c (c\<lparr>cl_s := (cl_s c)\<lparr>s_intr := b\<rparr>\<rparr>)"
| tick: "clock_handler ((cl_s c)\<lparr>s_intr := False\<rparr>) 0x20 = Inr s' \<Longrightarrow> mx_step N c (c\<lparr>cl_s := s'\<rparr>)"
| yield: "\<not> s_intr (cl_s c) \<Longrightarrow> task_yield (cl_s c) = Inr s' \<Longrightarrow> mx_step N c (c\<lparr>cl_s := s'\<rparr>)"
| block: "cl_wait c (s_current (cl_s c)) = None \<Longrightarrow> \<not> s_intr (cl_s c) \<Longrightarrow> s_idle (cl_s c) \<noteq> Some (s_current (cl_s c)) \<Longrightarrow>
    (case bl of None \<Rightarrow> block_list | Some l \<Rightarrow> l) \<in> N - {sleep_list, mx_waiters (cl_mx c)} \<Longrightarrow>
    st \<in> {TASK_BLOCKED, TASK_WAITING} \<Longrightarrow> task_block (cl_s c) (s_current (cl_s c)) bl st = Inr s' \<Longrightarrow>
    mx_step N c (c\<lparr>cl_s := s'\<rparr>)"
| unblock: "\<not> s_intr (cl_s c) \<Longrightarrow> p \<in> tasks (cl_s c) \<Longrightarrow> waiting_state (state_of (cl_s c) p) \<Longrightarrow> cl_wait c p = None \<Longrightarrow>
    task_unblock (cl_s c) p = Inr s' \<Longrightarrow> mx_step N c (c\<lparr>cl_s := s'\<rparr>)"
| sleep: "cl_wait c (s_current (cl_s c)) = None \<Longrightarrow> \<not> s_intr (cl_s c) \<Longrightarrow> s_idle (cl_s c) \<noteq> Some (s_current (cl_s c)) \<Longrightarrow>
    task_sleep (cl_s c) ms = Inr s' \<Longrightarrow> mx_step N c (c\<lparr>cl_s := s'\<rparr>)"

section \<open>The invariant of a mutex\<close>

definition mx_inv :: "nat set \<Rightarrow> (nat \<Rightarrow> task_ptr list) \<Rightarrow> client \<Rightarrow> bool" where
  "mx_inv N L c \<longleftrightarrow> sched_wf (cl_s c) N L \<and> mx_waiters (cl_mx c) \<in> N - {sleep_list}
     \<and> (if mx_value (cl_mx c) then \<exists>h. cl_in c = {h} else cl_in c = {})
     \<and> (\<forall>p\<in>set (L (mx_waiters (cl_mx c))). cl_wait c p \<noteq> None)
     \<and> (\<forall>p. cl_wait c p \<noteq> None \<longrightarrow> p \<in> tasks (cl_s c) \<and> s_idle (cl_s c) \<noteq> Some p
          \<and> (p \<in> set (L (mx_waiters (cl_mx c))) \<or> runnable (cl_s c) p))
     \<and> (\<forall>p\<in>cl_in c. cl_wait c p = None)
     \<and> (\<not> mx_value (cl_mx c) \<and> L (mx_waiters (cl_mx c)) \<noteq> [] \<longrightarrow> (\<exists>p. cl_wait c p \<noteq> None \<and> runnable (cl_s c) p))"

lemma sched_wf_intr [simp]: "sched_wf (s\<lparr>s_intr := b\<rparr>) N L = sched_wf s N L"
proof -
  have "tasks (s\<lparr>s_intr := b\<rparr>) = tasks s" "state_of (s\<lparr>s_intr := b\<rparr>) = state_of s" "ticks_key (s\<lparr>s_intr := b\<rparr>) = ticks_key s"
    by (auto simp: tasks_def state_of_def ticks_key_def split: tnode.split)
  then show ?thesis by (simp add: sched_wf_def sched_pre_def)
qed

lemma intr_simps [simp]: "tasks (s\<lparr>s_intr := b\<rparr>) = tasks s" "runnable (s\<lparr>s_intr := b\<rparr>) = runnable s"
  "state_of (s\<lparr>s_intr := b\<rparr>) p = state_of s p"
  by (auto simp: tasks_def runnable_def state_of_def)

text \<open>A step of the rest of the system.\<close>

lemma mx_frame:
  assumes inv: "mx_inv N L c" and wf: "sched_wf s' N L'" and L': "L' (mx_waiters (cl_mx c)) = L (mx_waiters (cl_mx c))"
    and fr: "tasks s' = tasks (cl_s c)" "s_idle s' = s_idle (cl_s c)"
    and run: "still_runnable X (cl_s c) s'" and X: "\<forall>p\<in>X. cl_wait c p = None"
  shows "mx_inv N L' (c\<lparr>cl_s := s'\<rparr>)"
proof -
  have r: "cl_wait c p \<noteq> None \<Longrightarrow> runnable (cl_s c) p \<Longrightarrow> runnable s' p" for p
    using run X by (cases "p \<in> X") (auto simp: still_runnable_def)
  show ?thesis using inv wf r by (auto simp: mx_inv_def L' fr)
qed

lemma mx_taken:
  assumes inv: "mx_inv N L c" and free: "\<not> mx_value (cl_mx c)"
  shows "mx_inv N L (c\<lparr>cl_s := (cl_s c)\<lparr>s_intr := b\<rparr>, cl_mx := (cl_mx c)\<lparr>mx_value := True\<rparr>,
    cl_in := insert (s_current (cl_s c)) (cl_in c), cl_wait := (cl_wait c)(s_current (cl_s c) := None)\<rparr>)"
proof -
  have wf: "sched_wf (cl_s c) N L" using inv by (simp add: mx_inv_def)
  have "s_current (cl_s c) \<notin> set (L i)" if "i \<in> N" for i
    using current_not_waiting [OF wf] on_one_list(2) [of "cl_s c" N L "s_current (cl_s c)" i] wf that
    by (auto simp: sched_wf_def)
  then show ?thesis using inv free by (auto simp: mx_inv_def)
qed

lemma mx_waits:
  assumes inv: "mx_inv N L c" and busy: "mx_value (cl_mx c)"
    and s: "s = (cl_s c)\<lparr>s_intr := False\<rparr>" and idle: "s_idle s \<noteq> Some (s_current s)" and nin: "s_current s \<notin> cl_in c"
    and blk: "task_block s (s_current s) (Some (mx_waiters (cl_mx c))) TASK_BLOCKED = Inr s'"
  shows "\<exists>L'. mx_inv N L' (c\<lparr>cl_s := s', cl_wait := (cl_wait c)(s_current s \<mapsto> b)\<rparr>)"
proof -
  let ?w = "mx_waiters (cl_mx c)"
  have wf: "sched_wf s N L" and w: "?w \<in> N" "?w \<noteq> sleep_list" using inv by (simp_all add: mx_inv_def s)
  have "\<not> s_intr s" by (simp add: s)
  from task_block_wf [OF wf this _ _ idle w, of "Some ?w" TASK_BLOCKED] current_not_waiting [OF wf] blk
  have b: "sched_wf s' N (L(?w := s_current s # L ?w))" "same_frame s s'" "still_runnable {s_current s} s s'" by auto
  have r: "runnable (cl_s c) p \<Longrightarrow> p \<noteq> s_current s \<Longrightarrow> runnable s' p" for p
    using b(3) by (auto simp: still_runnable_def s)
  have "tasks s' = tasks (cl_s c)" "s_idle s' = s_idle (cl_s c)" using b(2) by (simp_all add: same_frame_def s)
  then have "mx_inv N (L(?w := s_current s # L ?w)) (c\<lparr>cl_s := s', cl_wait := (cl_wait c)(s_current s \<mapsto> b)\<rparr>)"
    using inv busy b(1) r idle nin current_not_waiting [OF wf] by (auto simp: mx_inv_def s)
  then show ?thesis by blast
qed

text \<open>Giving the mutex back: the oldest waiter becomes ready.\<close>

lemma list_last_dll: "dll h l (xs @ [n]) \<Longrightarrow> l_prev h (l_tail l) = Some n"
  using dll_next(2) [of h l "xs @ [n]" "[]"] by simp

lemma mutex_unlock_inv:
  assumes inv: "mx_inv N L c" and cur: "s_current (cl_s c) \<in> cl_in c"
  shows "\<exists>s' L'. mutex_unlock (cl_s c) (cl_mx c) = Inr (s', (cl_mx c)\<lparr>mx_value := False\<rparr>)
    \<and> mx_inv N L' (c\<lparr>cl_s := s', cl_mx := (cl_mx c)\<lparr>mx_value := False\<rparr>, cl_in := cl_in c - {s_current (cl_s c)}\<rparr>)"
proof -
  let ?w = "mx_waiters (cl_mx c)"
  define s where "s = (cl_s c)\<lparr>s_intr := False\<rparr>"
  have s: "\<not> s_intr s" "tasks s = tasks (cl_s c)" "s_idle s = s_idle (cl_s c)" "runnable s = runnable (cl_s c)"
    by (simp_all add: s_def)
  have val: "mx_value (cl_mx c)" and hold: "cl_in c = {s_current (cl_s c)}"
    using inv cur by (auto simp: mx_inv_def split: if_splits)
  have wf: "sched_wf s N L" and w: "?w \<in> N" using inv by (simp_all add: mx_inv_def s_def)
  have d: "dll (s_links s) (tlist ?w) (map Node (L ?w))"
    using sched_preD(1) [of s N L] wf w by (auto simp: sched_wf_def queues_def)
  show ?thesis
  proof (cases "L ?w" rule: rev_cases)
    case Nil
    have "mutex_unlock (cl_s c) (cl_mx c) = Inr ((cl_s c)\<lparr>s_intr := s_intr (cl_s c)\<rparr>, (cl_mx c)\<lparr>mx_value := False\<rparr>)"
      using val list_empty_dll [OF d] Nil
      by (simp add: mutex_unlock_def interrupt_disable_def set_interrupt_state_def s_def)
    moreover have "mx_inv N L (c\<lparr>cl_s := (cl_s c)\<lparr>s_intr := s_intr (cl_s c)\<rparr>, cl_mx := (cl_mx c)\<lparr>mx_value := False\<rparr>,
        cl_in := cl_in c - {s_current (cl_s c)}\<rparr>)"
      using inv hold Nil by (simp add: mx_inv_def)
    ultimately show ?thesis by blast
  next
    case (snoc ps p)
    have pin: "p \<in> set (L ?w)" by (simp add: snoc)
    have prev: "l_prev (s_links s) (List_Tail ?w) = Some (Node p)"
      using list_last_dll [of "s_links s" "tlist ?w" "map Node ps" "Node p"] d snoc by (simp add: tlist_def)
    have pt: "p \<in> tasks s" "cl_wait c p \<noteq> None" using inv pin by (auto simp: mx_inv_def s(2))
    from task_unblock_wf [where i = ?w and L = L, OF wf s(1) w pin] obtain s1 where s1: "task_unblock s p = Inr s1"
      "sched_wf s1 N (L(?w := remove1 p (L ?w)))" "same_frame s s1"
      "\<forall>q. state_of s1 q = (if q = p then TASK_READY else state_of s q)" by blast
    have pre1: "sched_pre s1 N (L(?w := remove1 p (L ?w)))" "\<not> s_intr s1"
      using s1(2,3) s(1) by (simp_all add: sched_wf_def same_frame_def)
    from schedule_wf [OF pre1] obtain s' where s': "schedule s1 = Inr s'"
      "sched_wf s' N (L(?w := remove1 p (L ?w)))" "same_frame s1 s'" "still_runnable {} s1 s'" by blast
    have magic: "t_magic (s_task s p) = YLOS_MAGIC" using sched_preD(5) [of s N L p] wf pt(1) by (simp add: sched_wf_def)
    have eq: "mutex_unlock (cl_s c) (cl_mx c) = Inr (s', (cl_mx c)\<lparr>mx_value := False\<rparr>)"
      using val list_empty_dll [OF d] snoc prev magic s1(1) s'(1)
      by (simp add: mutex_unlock_def interrupt_disable_def s_def task_yield_def)
    have run: "runnable (cl_s c) q \<or> q = p \<Longrightarrow> runnable s' q" for q
    proof -
      assume "runnable (cl_s c) q \<or> q = p"
      then have "runnable s1 q" using s1(4) by (auto simp: runnable_def s_def)
      then show "runnable s' q" using s'(4) by (simp add: still_runnable_def)
    qed
    have fr: "tasks s' = tasks (cl_s c)" "s_idle s' = s_idle (cl_s c)"
      using s'(3) s1(3) by (simp_all add: same_frame_def s_def)
    have rm: "set (remove1 p (L ?w)) = set (L ?w) - {p}"
      using queues_distinct [of "s_links s" N L ?w] wf w by (simp add: sched_wf_def sched_pre_def)
    have "\<exists>p. cl_wait c p \<noteq> None \<and> runnable s' p" using pt(2) run [of p] by blast
    then have "mx_inv N (L(?w := remove1 p (L ?w))) (c\<lparr>cl_s := s', cl_mx := (cl_mx c)\<lparr>mx_value := False\<rparr>,
        cl_in := cl_in c - {s_current (cl_s c)}\<rparr>)"
      using inv hold s'(2) fr rm run by (auto simp: mx_inv_def)
    with eq show ?thesis by blast
  qed
qed

lemma client_update_s [simp]: "c\<lparr>cl_s := s, cl_wait := cl_wait c\<rparr> = c\<lparr>cl_s := s\<rparr>"
  by simp

lemma mx_step_inv:
  assumes "mx_step N c c'" "mx_inv N L c"
  shows "\<exists>L'. mx_inv N L' c'"
  using assms(1)
proof (cases rule: mx_step.cases)
  case (lock s' mx')
  then have "\<not> mx_value (cl_mx c)" "s' = (cl_s c)\<lparr>s_intr := s_intr (cl_s c)\<rparr>" "mx' = (cl_mx c)\<lparr>mx_value := True\<rparr>"
    by (auto simp: mutex_lock_def mutex_pass_def interrupt_disable_def set_interrupt_state_def split: if_splits elim!: bindr_InrE)
  moreover have "(cl_wait c)(s_current (cl_s c) := None) = cl_wait c" using lock(2) by (rule fun_upd_idem)
  ultimately show ?thesis using mx_taken [OF assms(2), of "s_intr (cl_s c)"] lock(1) by auto
next
  case (retry intr s' mx')
  then have "\<not> mx_value (cl_mx c)" "s' = (cl_s c)\<lparr>s_intr := intr\<rparr>" "mx' = (cl_mx c)\<lparr>mx_value := True\<rparr>"
    by (auto simp: mutex_pass_def set_interrupt_state_def split: if_splits elim!: bindr_InrE)
  then show ?thesis using mx_taken [OF assms(2), of intr] retry(1) by auto
next
  case (unlock s' mx')
  with mutex_unlock_inv [OF assms(2) unlock(2)] show ?thesis by auto
next
  case (lock_waits s')
  then have busy: "mx_value (cl_mx c)"
    and b: "task_block ((cl_s c)\<lparr>s_intr := False\<rparr>) (s_current (cl_s c)) (Some (mx_waiters (cl_mx c))) TASK_BLOCKED = Inr s'"
    by (auto simp: mutex_lock_def mutex_pass_def interrupt_disable_def running_task_def split: if_splits elim!: bindr_InrE)
  show ?thesis using mx_waits [OF assms(2) busy refl, of s' "s_intr (cl_s c)"] b lock_waits(1,3,4) by simp
next
  case (retry_waits intr s')
  have eq: "cl_s c = (cl_s c)\<lparr>s_intr := False\<rparr>" using retry_waits(3) by simp
  have busy: "mx_value (cl_mx c)"
    and b: "task_block (cl_s c) (s_current (cl_s c)) (Some (mx_waiters (cl_mx c))) TASK_BLOCKED = Inr s'"
    using retry_waits(4) by (auto simp: mutex_pass_def running_task_def split: if_splits elim!: bindr_InrE)
  have "s_current (cl_s c) \<notin> cl_in c" "s_idle (cl_s c) \<noteq> Some (s_current (cl_s c))"
    using assms(2) retry_waits(2) by (auto simp: mx_inv_def)
  from mx_waits [OF assms(2) busy eq this(2,1) b, of intr] retry_waits(1,2) show ?thesis
    by (simp add: fun_upd_idem)
next
  case (flag b)
  then show ?thesis using assms(2) by (auto simp: mx_inv_def)
next
  case (tick s')
  have wf: "sched_wf ((cl_s c)\<lparr>s_intr := False\<rparr>) N L" and w: "mx_waiters (cl_mx c) \<noteq> sleep_list"
    using assms(2) by (simp_all add: mx_inv_def)
  from clock_handler_wf [OF wf] tick(2) obtain L' where "sched_wf s' N L'" "L' (mx_waiters (cl_mx c)) = L (mx_waiters (cl_mx c))"
    "same_frame ((cl_s c)\<lparr>s_intr := False\<rparr>) s'" "still_runnable {} ((cl_s c)\<lparr>s_intr := False\<rparr>) s'" using w by auto
  then show ?thesis using mx_frame [OF assms(2), of s' L' "{}"] tick(1) by (auto simp: same_frame_def still_runnable_def)
next
  case (yield s')
  have wf: "sched_pre (cl_s c) N L" using assms(2) by (simp add: mx_inv_def sched_wf_def)
  from schedule_wf [OF wf yield(2)] yield(3) show ?thesis
    using mx_frame [OF assms(2), of s' L "{}"] yield(1) by (auto simp: same_frame_def task_yield_def)
next
  case (block bl st s')
  have wf: "sched_wf (cl_s c) N L" using assms(2) by (simp add: mx_inv_def)
  define i where "i = (case bl of None \<Rightarrow> block_list | Some l \<Rightarrow> l)"
  have i: "i \<in> N" "i \<noteq> sleep_list" "i \<noteq> mx_waiters (cl_mx c)" using block(5) by (simp_all add: i_def)
  from task_block_wf [OF wf block(3) _ _ block(4) i(1,2) i_def block(6)] block(7) current_not_waiting [OF wf] i(3) have
    "sched_wf s' N (L(i := s_current (cl_s c) # L i))" "same_frame (cl_s c) s'" "still_runnable {s_current (cl_s c)} (cl_s c) s'"
    "i \<noteq> mx_waiters (cl_mx c)" by auto
  then show ?thesis using mx_frame [OF assms(2), of s' "L(i := s_current (cl_s c) # L i)" "{s_current (cl_s c)}"] block(1,2)
    by (auto simp: same_frame_def)
next
  case (unblock p s')
  have wf: "sched_wf (cl_s c) N L" using assms(2) by (simp add: mx_inv_def)
  from waiting_on_list [OF wf unblock(3,4)] obtain i where i: "i \<in> N" "p \<in> set (L i)" .
  then have ne: "i \<noteq> mx_waiters (cl_mx c)" using assms(2) unblock(5) by (auto simp: mx_inv_def)
  from task_unblock_wf [OF wf unblock(2) i] unblock(6) have
    "sched_wf s' N (L(i := remove1 p (L i)))" "same_frame (cl_s c) s'" "still_runnable {} (cl_s c) s'"
    by (auto simp: still_runnable_def runnable_def)
  then show ?thesis using mx_frame [OF assms(2), of s' "L(i := remove1 p (L i))" "{}"] unblock(1) ne
    by (auto simp: same_frame_def)
next
  case (sleep ms s')
  have wf: "sched_wf (cl_s c) N L" and w: "mx_waiters (cl_mx c) \<noteq> sleep_list" using assms(2) by (simp_all add: mx_inv_def)
  from task_sleep_wf [OF wf sleep(3,4) refl, of ms] sleep(5) obtain xs where "sched_wf s' N (L(sleep_list := xs))"
    "same_frame (cl_s c) s'" "still_runnable {s_current (cl_s c)} (cl_s c) s'" by auto
  then show ?thesis using mx_frame [OF assms(2), of s' "L(sleep_list := xs)" "{s_current (cl_s c)}"] sleep(1,2) w
    by (auto simp: same_frame_def)
qed

lemma mx_steps_inv: "(mx_step N)\<^sup>*\<^sup>* c c' \<Longrightarrow> mx_inv N L c \<Longrightarrow> \<exists>L'. mx_inv N L' c'"
proof (induction rule: rtranclp_induct)
  case (step c' c'')
  then show ?case using mx_step_inv by blast
qed blast

text \<open>\<open>mutex_init\<close> adds a list to those of the scheduler.\<close>

lemma list_init_same: "same_outside {l_head l, l_tail l} h (list_init h l)"
  by (simp add: same_outside_def list_init_def Let_def)

lemma mutex_init_wf:
  assumes wf: "sched_wf s N L" and l: "l \<notin> N" and i: "mutex_init s l = (s', mx)"
  shows "mx_inv (insert l N) (L(l := [])) \<lparr>cl_s = s', cl_mx = mx, cl_in = {}, cl_wait = (\<lambda>_. None)\<rparr>"
proof -
  have eq: "s' = s\<lparr>s_links := list_init (s_links s) (tlist l)\<rparr>" "mx = \<lparr>mx_value = False, mx_waiters = l\<rparr>"
    using i by (simp_all add: mutex_init_def)
  have pre: "sched_pre s N L" using wf by (simp add: sched_wf_def)
  note r = sched_preD [OF pre]
  have same: "same_outside (cells (tlist l) []) (s_links s) (list_init (s_links s) (tlist l))"
    using list_init_same [of "tlist l"] by (simp add: cells_def)
  have "dll (list_init (s_links s) (tlist l)) (tlist j) (map Node (L j))" if "j \<in> N" for j
  proof (rule dll_same_outside [OF _ same])
    show "dll (s_links s) (tlist j) (map Node (L j))" using r(1) that by (simp add: queues_def)
    show "cells (tlist j) (map Node (L j)) \<inter> cells (tlist l) [] = {}" using that l by (auto simp: cells_def tlist_def)
  qed
  moreover have "dll (list_init (s_links s) (tlist l)) (tlist l) []" by (rule list_init_dll) (simp add: tlist_def)
  ultimately have q: "queues (s_links s') (insert l N) (L(l := []))" using r(1) by (auto simp: queues_def eq)
  have "detached (s_links s') (Node p)" if "detached (s_links s) (Node p)" for p
    using detached_same_outside [OF that same] by (simp add: eq cells_def tlist_def)
  moreover have "queued (insert l N) (L(l := [])) = queued N L" using l by (auto simp: queued_def split: if_splits)
  moreover have "(L(l := [])) sleep_list = L sleep_list" using r(4) l by auto
  ultimately have "sched_pre s' (insert l N) (L(l := []))"
    using pre q unfolding sched_pre_def by (simp add: eq)
  moreover have "state_of s' (s_current s') = TASK_RUNNING" using wf by (simp add: sched_wf_def eq)
  ultimately have "sched_wf s' (insert l N) (L(l := []))" by (simp add: sched_wf_def)
  moreover have "l \<noteq> sleep_list" using r(4) l by auto
  ultimately show ?thesis by (simp add: mx_inv_def eq)
qed

section \<open>Properties\<close>

text \<open>
  C3. Mutual exclusion and no lost wake-up: whatever the tasks and the clock do, at most one task is
  between \<open>mutex_lock\<close> and \<open>mutex_unlock\<close>, exactly when the mutex is taken; the holder's
  \<open>mutex_unlock\<close> passes its assertions; and when the mutex is free while tasks are queued for it, a
  task that is inside \<open>mutex_lock\<close> can run and will try again.
\<close>
theorem mutex_safe:
  assumes "sched_wf s0 N L0" "l \<notin> N" "mutex_init s0 l = (s, mx)"
    and "(mx_step (insert l N))\<^sup>*\<^sup>* \<lparr>cl_s = s, cl_mx = mx, cl_in = {}, cl_wait = (\<lambda>_. None)\<rparr> c"
  shows "finite (cl_in c) \<and> card (cl_in c) \<le> 1 \<and> (mx_value (cl_mx c) \<longleftrightarrow> cl_in c \<noteq> {})
    \<and> (s_current (cl_s c) \<in> cl_in c \<longrightarrow> (\<exists>s' mx'. mutex_unlock (cl_s c) (cl_mx c) = Inr (s', mx')))
    \<and> (\<not> mx_value (cl_mx c) \<and> \<not> list_empty (s_links (cl_s c)) (tlist (mx_waiters (cl_mx c))) \<longrightarrow>
        (\<exists>p\<in>tasks (cl_s c). cl_wait c p \<noteq> None \<and> runnable (cl_s c) p))"
proof -
  from mx_steps_inv [OF assms(4) mutex_init_wf [OF assms(1-3)]] obtain L where inv: "mx_inv (insert l N) L c" by blast
  have one: "finite (cl_in c) \<and> card (cl_in c) \<le> 1 \<and> (mx_value (cl_mx c) \<longleftrightarrow> cl_in c \<noteq> {})"
    using inv by (auto simp: mx_inv_def split: if_splits)
  have un: "s_current (cl_s c) \<in> cl_in c \<longrightarrow> (\<exists>s' mx'. mutex_unlock (cl_s c) (cl_mx c) = Inr (s', mx'))"
    using mutex_unlock_inv [OF inv] by blast
  have "dll (s_links (cl_s c)) (tlist (mx_waiters (cl_mx c))) (map Node (L (mx_waiters (cl_mx c))))"
  proof -
    have "sched_pre (cl_s c) (insert l N) L" "mx_waiters (cl_mx c) \<in> insert l N"
      using inv by (simp_all only: mx_inv_def sched_wf_def Diff_iff)
    from sched_preD(1) [OF this(1)] this(2) show ?thesis by (simp only: queues_def)
  qed
  from list_empty_dll [OF this] have "list_empty (s_links (cl_s c)) (tlist (mx_waiters (cl_mx c))) \<longleftrightarrow> L (mx_waiters (cl_mx c)) = []"
    by simp
  with inv have "\<not> mx_value (cl_mx c) \<and> \<not> list_empty (s_links (cl_s c)) (tlist (mx_waiters (cl_mx c))) \<longrightarrow>
      (\<exists>p\<in>tasks (cl_s c). cl_wait c p \<noteq> None \<and> runnable (cl_s c) p)"
    unfolding mx_inv_def by blast
  with one un show ?thesis by blast
qed

lemma mutex_safe_witness:
  "\<exists>c. (mx_step {2, block_list, sleep_list})\<^sup>*\<^sup>*
      \<lparr>cl_s = fst (mutex_init demo_sched 2), cl_mx = \<lparr>mx_value = False, mx_waiters = 2\<rparr>, cl_in = {}, cl_wait = (\<lambda>_. None)\<rparr> c
    \<and> mx_value (cl_mx c) \<and> cl_in c = {0x2000} \<and> (\<exists>s' mx'. mutex_unlock (cl_s c) (cl_mx c) = Inr (s', mx'))"
proof -
  let ?s = "fst (mutex_init demo_sched 2)" and ?mx = "\<lparr>mx_value = False, mx_waiters = 2\<rparr>"
  let ?c = "\<lparr>cl_s = ?s, cl_mx = ?mx, cl_in = {}, cl_wait = (\<lambda>_. None)\<rparr> :: client"
  have i: "mutex_init demo_sched 2 = (?s, ?mx)" by (simp add: mutex_init_def)
  have n: "2 \<notin> {block_list, sleep_list}" by (simp add: block_list_def sleep_list_def)
  have cur: "s_current ?s = 0x2000" by (simp add: mutex_init_def demo_sched_def)
  let ?c' = "?c\<lparr>cl_s := ?s\<lparr>s_intr := s_intr ?s\<rparr>, cl_mx := ?mx\<lparr>mx_value := True\<rparr>, cl_in := insert (s_current (cl_s ?c)) (cl_in ?c)\<rparr>"
  have "mutex_lock (cl_s ?c) (cl_mx ?c) = Inr (Lock_Taken (?s\<lparr>s_intr := s_intr ?s\<rparr>) (?mx\<lparr>mx_value := True\<rparr>))"
    by (simp add: mutex_lock_def interrupt_disable_def mutex_pass_def set_interrupt_state_def)
  then have st: "mx_step {2, block_list, sleep_list} ?c ?c'" by (intro mx_step.lock) simp_all
  have "s_current (cl_s ?c') \<in> cl_in ?c'" by simp
  with mutex_safe [OF demo_sched_wf n i r_into_rtranclp [of "mx_step {2, block_list, sleep_list}", OF st]]
  have "\<exists>s' mx'. mutex_unlock (cl_s ?c') (cl_mx ?c') = Inr (s', mx')" by blast
  with r_into_rtranclp [of "mx_step {2, block_list, sleep_list}", OF st] cur show ?thesis by (intro exI [of _ ?c']) simp
qed

end
