(* ===== verification/Ylos_Pipe.thy ===== *)
theory Ylos_Pipe
  imports Ylos_Task Ylos_Fifo
begin

text \<open>
  fs/pipe.c: a pipe is a ring of bytes with at most one waiting reader and one waiting
  writer.  A call of \<open>pipe_read\<close> or \<open>pipe_write\<close> runs until it has done all its bytes or until
  it sleeps in \<open>task_block\<close>; a sleeping call is continued with \<open>resumed = True\<close>, which goes on
  behind \<open>task_block\<close> (the ring is not tested again, the code has \<open>if\<close> and not \<open>while\<close>).
\<close>

section \<open>The code\<close>

record pipe_t =
  pp_fifo :: fifo_t
  pp_rx :: "task_ptr option"
  pp_tx :: "task_ptr option"

text \<open>The outcome of a call: finished, with the bytes that are left to write or that were
  read, or asleep.\<close>

datatype pipe_outcome = Pipe_Done sched_t pipe_t "u8 list" | Pipe_Sleeps sched_t pipe_t "u8 list" nat

definition wake :: "sched_t \<Rightarrow> task_ptr option \<Rightarrow> sched_t result" where
  "wake s w = (case w of None \<Rightarrow> Inr s | Some p \<Rightarrow> task_unblock s p)"

fun pipe_read :: "sched_t \<Rightarrow> pipe_t \<Rightarrow> bool \<Rightarrow> u8 list \<Rightarrow> nat \<Rightarrow> pipe_outcome result" where
  "pipe_read s pp resumed buf 0 = Inr (Pipe_Done s pp buf)"
| "pipe_read s pp resumed buf (Suc n) =
     (if fifo_empty (pp_fifo pp) \<and> \<not> resumed
     then (if pp_rx pp \<noteq> None then Inl Assert_Failed
           else bindr (task_block s (running_task s) None TASK_BLOCKED) (\<lambda>s'.
                Inr (Pipe_Sleeps s' (pp\<lparr>pp_rx := Some (running_task s)\<rparr>) buf (Suc n))))
     else bindr (fifo_get (pp_fifo pp)) (\<lambda>(f, byte).
          bindr (wake s (pp_tx pp)) (\<lambda>s.
            pipe_read s (pp\<lparr>pp_fifo := f, pp_tx := None\<rparr>) False (buf @ [byte]) n)))"

fun pipe_write :: "sched_t \<Rightarrow> pipe_t \<Rightarrow> bool \<Rightarrow> u8 list \<Rightarrow> pipe_outcome result" where
  "pipe_write s pp resumed [] = Inr (Pipe_Done s pp [])"
| "pipe_write s pp resumed (b # bs) =
     bindr (fifo_full (pp_fifo pp)) (\<lambda>full.
     if full \<and> \<not> resumed
     then (if pp_tx pp \<noteq> None then Inl Assert_Failed
           else bindr (task_block s (running_task s) None TASK_BLOCKED) (\<lambda>s'.
                Inr (Pipe_Sleeps s' (pp\<lparr>pp_tx := Some (running_task s)\<rparr>) (b # bs) 0)))
     else bindr (fifo_put (pp_fifo pp) b) (\<lambda>f.
          bindr (wake s (pp_rx pp)) (\<lambda>s.
            pipe_write s (pp\<lparr>pp_fifo := f, pp_rx := None\<rparr>) False bs)))"

end
