(* ===== verification/Ylos_Vsprintf.thy ===== *)
theory Ylos_Vsprintf
  imports Ylos_String Ylos_Stdlib
begin

text \<open>
  lib/vsprintf.c: formatted output.  The format is a zero-terminated byte list, the variable
  arguments are a list of tagged values (taking an argument of another kind is undefined
  behaviour in C and \<open>Bad_Access\<close> here), and the output is the byte list that is written to
  the buffer of \<open>cap\<close> bytes.  The \<open>int\<close> locals are HOL integers: an overflow of theirs needs a
  width of ten digits in the format, which C leaves undefined.  A double is given by the sign and
  the two 32-bit numbers that \<open>number\<close> computes from it with the floating-point unit.
\<close>

section \<open>The code\<close>

datatype va_arg = Arg_Int u32 | Arg_Str "u8 list" | Arg_Double bool u32 u32 | Arg_Ref

definition ZEROPAD :: u32 where "ZEROPAD = 0x01"
definition SIGN :: u32 where "SIGN = 0x02"
definition PLUS :: u32 where "PLUS = 0x04"
definition SPACE :: u32 where "SPACE = 0x08"
definition LEFT :: u32 where "LEFT = 0x10"
definition SPECIAL :: u32 where "SPECIAL = 0x20"
definition SMALL :: u32 where "SMALL = 0x40"
definition DOUBLE :: u32 where "DOUBLE = 0x80"

definition is_digit :: "u8 \<Rightarrow> bool" where
  "is_digit c \<longleftrightarrow> 0x30 \<le> c \<and> c \<le> 0x39"

fun skip_atoi :: "u8 list \<Rightarrow> int \<Rightarrow> (int \<times> u8 list) result" where
  "skip_atoi [] i = Inl Bad_Access"
| "skip_atoi (c # s) i = (if is_digit c then skip_atoi s (i * 10 + uint c - 0x30) else Inr (i, c # s))"

text \<open>The character of a digit in the string \<open>digits\<close>, upper or lower case.\<close>

definition digit_char :: "bool \<Rightarrow> u32 \<Rightarrow> u8" where
  "digit_char small i =
     (if i < 10 then 0x30 + ucast i else if small then 0x61 + ucast (i - 10) else 0x41 + ucast (i - 10))"

text \<open>The loops that fill \<open>tmp\<close>, least significant digit first: \<open>while\<close> and \<open>do while\<close>.\<close>

function digits_while :: "bool \<Rightarrow> u32 \<Rightarrow> u32 \<Rightarrow> u8 list" where
  "digits_while small base num =
     (if num = 0 \<or> base < 2 then []
      else digit_char small (num mod base) # digits_while small base (num div base))"
  by pat_completeness auto

lemma u32_div_less: "num \<noteq> 0 \<Longrightarrow> \<not> base < 2 \<Longrightarrow> unat (num div base) < unat (num :: u32)"
  by (simp add: unat_div_distrib word_less_nat_alt unat_gt_0 div_less_dividend)

termination digits_while
  by (relation "measure (\<lambda>(small, base, num). unat num)") (auto intro: u32_div_less)

declare digits_while.simps [simp del]

definition digits_do :: "bool \<Rightarrow> u32 \<Rightarrow> u32 \<Rightarrow> u8 list" where
  "digits_do small base num =
     digit_char small (num mod base) # digits_while small base (num div base)"

text \<open>\<open>while (size-- > 0) *str++ = c;\<close> yields the bytes and the new \<open>size\<close>.\<close>

definition pad_loop :: "u8 \<Rightarrow> int \<Rightarrow> u8 list \<times> int" where
  "pad_loop c size' = (replicate (nat size') c, if 0 < size' then -1 else size' - 1)"

definition has :: "u32 \<Rightarrow> u32 \<Rightarrow> bool" where
  "has flags f \<longleftrightarrow> flags AND f \<noteq> 0"

definition number_sign :: "u32 \<Rightarrow> bool \<Rightarrow> u8" where
  "number_sign flags negative =
     (if negative then 0x2d else if has flags PLUS then 0x2b else if has flags SPACE then 0x20 else 0)"

text \<open>\<open>number\<close> from the digits on: \<open>size\<close> is already reduced for the sign and the prefix.\<close>

definition number_layout :: "u8 list \<Rightarrow> u8 \<Rightarrow> u32 \<Rightarrow> int \<Rightarrow> int \<Rightarrow> u32 \<Rightarrow> u8 list" where
  "number_layout tmp sign base size' precision flags =
     (let pad = (if has flags ZEROPAD then 0x30 else 0x20);
          i = int (length tmp);
          precision = (if precision < i then i else precision);
          size' = size' - precision;
          (s1, size') = (if \<not> has flags (ZEROPAD + LEFT) then pad_loop 0x20 size' else ([], size'));
          s2 = (if sign \<noteq> 0 then [sign] else []);
          s3 = (if has flags SPECIAL
                then (if base = 8 then [0x30]
                      else if base = 16 then [0x30, digit_char (has flags SMALL) 33] else []) else []);
          (s4, size') = (if \<not> has flags LEFT then pad_loop pad size' else ([], size'));
          s5 = replicate (nat (precision - i)) 0x30;
          (s6, _) = pad_loop 0x20 size'
      in s1 @ s2 @ s3 @ s4 @ s5 @ rev tmp @ s6)"

text \<open>The sign and the digits; \<open>num\<close> is replaced by its absolute value.\<close>

definition number_digits :: "va_arg \<Rightarrow> u32 \<Rightarrow> bool \<Rightarrow> u32 \<Rightarrow> (bool \<times> u8 list) result" where
  "number_digits arg base small flags =
     (case arg of
        Arg_Double neg ival fval \<Rightarrow>
          Inr (neg, digits_do small base fval @ 0x2e # digits_do small base ival)
      | Arg_Int num \<Rightarrow>
          (let neg = has flags SIGN \<and> sint num < 0; num = (if neg then - num else num)
           in Inr (neg, if num = 0 then [0x30] else digits_while small base num))
      | _ \<Rightarrow> Inl Bad_Access)"

text \<open>What is left of \<open>size\<close> behind the sign and the prefix of \<open>#\<close>.\<close>

definition number_size :: "int \<Rightarrow> u8 \<Rightarrow> u32 \<Rightarrow> u32 \<Rightarrow> int" where
  "number_size size' sign base flags =
     (let size' = (if sign \<noteq> 0 then size' - 1 else size')
      in if has flags SPECIAL
         then (if base = 16 then size' - 2 else if base = 8 then size' - 1 else size') else size')"

definition number :: "va_arg \<Rightarrow> u32 \<Rightarrow> int \<Rightarrow> int \<Rightarrow> u32 \<Rightarrow> u8 list result" where
  "number arg base size' precision flags =
     (let small = has flags SMALL;
          flags = (if has flags LEFT then flags AND NOT ZEROPAD else flags)
      in if base < 2 \<or> 36 < base then Inl Bad_Access
         else bindr (number_digits arg base small flags) (\<lambda>(neg, tmp).
              let sign = number_sign flags neg; size' = number_size size' sign base flags
              in Inr (number_layout tmp sign base size' precision flags)))"

fun scan_flags :: "u8 list \<Rightarrow> u32 \<Rightarrow> (u32 \<times> u8 list) result" where
  "scan_flags [] flags = Inl Bad_Access"
| "scan_flags (c # fmt) flags =
     (if c = 0x2d then scan_flags fmt (flags OR LEFT)
      else if c = 0x2b then scan_flags fmt (flags OR PLUS)
      else if c = 0x20 then scan_flags fmt (flags OR SPACE)
      else if c = 0x23 then scan_flags fmt (flags OR SPECIAL)
      else if c = 0x30 then scan_flags fmt (flags OR ZEROPAD)
      else Inr (flags, c # fmt))"

definition take_int :: "va_arg list \<Rightarrow> (u32 \<times> va_arg list) result" where
  "take_int args = (case args of Arg_Int n # rest \<Rightarrow> Inr (n, rest) | _ \<Rightarrow> Inl Bad_Access)"

definition take_str :: "va_arg list \<Rightarrow> (u8 list \<times> va_arg list) result" where
  "take_str args = (case args of Arg_Str s # rest \<Rightarrow> Inr (s, rest) | _ \<Rightarrow> Inl Bad_Access)"

fun scan_width :: "u8 list \<Rightarrow> u32 \<Rightarrow> va_arg list \<Rightarrow> (int \<times> u32 \<times> u8 list \<times> va_arg list) result" where
  "scan_width [] flags args = Inl Bad_Access"
| "scan_width (c # fmt) flags args =
     (if is_digit c then bindr (skip_atoi (c # fmt) 0) (\<lambda>(w, fmt). Inr (w, flags, fmt, args))
      else if c = 0x2a
      then bindr (take_int args) (\<lambda>(n, args).
           if sint n < 0 then Inr (- sint n, flags OR LEFT, fmt, args) else Inr (sint n, flags, fmt, args))
      else Inr (-1, flags, c # fmt, args))"

fun scan_precision :: "u8 list \<Rightarrow> va_arg list \<Rightarrow> (int \<times> u8 list \<times> va_arg list) result" where
  "scan_precision [] args = Inl Bad_Access"
| "scan_precision (c # fmt) args =
     (if c \<noteq> 0x2e then Inr (-1, c # fmt, args)
      else bindr (case fmt of
                    [] \<Rightarrow> Inl Bad_Access
                  | d # fmt' \<Rightarrow>
                      if is_digit d then bindr (skip_atoi fmt 0) (\<lambda>(p, fmt). Inr (p, fmt, args))
                      else if d = 0x2a then bindr (take_int args) (\<lambda>(n, args). Inr (sint n, fmt', args))
                      else Inr (-1, fmt, args)) (\<lambda>(p, fmt, args).
           Inr (if p < 0 then 0 else p, fmt, args)))"

fun skip_qualifier :: "u8 list \<Rightarrow> u8 list result" where
  "skip_qualifier [] = Inl Bad_Access"
| "skip_qualifier (c # fmt) = Inr (if c = 0x68 \<or> c = 0x6c \<or> c = 0x4c then fmt else c # fmt)"

text \<open>The loops of \<open>%m\<close> and \<open>%r\<close> over \<open>n\<close> bytes at a pointer, with the separator after each.\<close>

fun byte_fields :: "nat \<Rightarrow> u8 list \<Rightarrow> u32 \<Rightarrow> int \<Rightarrow> int \<Rightarrow> u32 \<Rightarrow> u8 \<Rightarrow> u8 list result" where
  "byte_fields 0 ptr base width precision flags sep = Inr []"
| "byte_fields (Suc n) [] base width precision flags sep = Inl Bad_Access"
| "byte_fields (Suc n) (b # ptr) base width precision flags sep =
     bindr (number (Arg_Int (ucast b)) base width precision flags) (\<lambda>s.
     bindr (byte_fields n ptr base width precision flags sep) (\<lambda>rest. Inr (s @ sep # rest)))"

definition format_char :: "u8 \<Rightarrow> int \<Rightarrow> u32 \<Rightarrow> u8 list" where
  "format_char c width flags =
     (let (s1, width) = (if \<not> has flags LEFT then pad_loop 0x20 (width - 1) else ([], width));
          (s2, _) = pad_loop 0x20 (width - 1)
      in s1 @ c # s2)"

definition format_str :: "u8 list \<Rightarrow> int \<Rightarrow> int \<Rightarrow> u32 \<Rightarrow> u8 list result" where
  "format_str s width precision flags =
     bindr (strlen s) (\<lambda>n.
       let len = int n;
           len = (if precision < 0 then len else if precision < len then precision else len);
           (s1, width) = (if \<not> has flags LEFT
                          then (replicate (nat (width - len)) 0x20, if len < width then len - 1 else width - 1)
                          else ([], width));
           s2 = replicate (nat (width - len)) 0x20
       in Inr (s1 @ take (nat len) s @ s2))"

text \<open>
  The conversion \<open>c\<close>: the bytes it appends, the arguments that are left, and the value that
  \<open>%n\<close> stores, if any.  \<open>done\<close> is the number of bytes written so far.
\<close>

definition convert ::
    "u8 \<Rightarrow> u32 \<Rightarrow> int \<Rightarrow> int \<Rightarrow> va_arg list \<Rightarrow> nat \<Rightarrow> (u8 list \<times> va_arg list \<times> u32 list) result" where
  "convert c flags width precision args done =
     (let num = (\<lambda>base width flags. bindr (take_int args) (\<lambda>(n, args).
                  bindr (number (Arg_Int n) base width precision flags) (\<lambda>s. Inr (s, args, []))))
      in if c = 0x63 then bindr (take_int args) (\<lambda>(n, args). Inr (format_char (ucast n) width flags, args, []))
         else if c = 0x73 then bindr (take_str args) (\<lambda>(s, args).
           bindr (format_str s width precision flags) (\<lambda>out. Inr (out, args, [])))
         else if c = 0x6f then num 8 width flags
         else if c = 0x70 then (if width = -1 then num 16 8 (flags OR ZEROPAD) else num 16 width flags)
         else if c = 0x78 then num 16 width (flags OR SMALL)
         else if c = 0x58 then num 16 width flags
         else if c = 0x64 \<or> c = 0x69 then num 10 width (flags OR SIGN)
         else if c = 0x75 then num 10 width flags
         else if c = 0x6e
         then (case args of Arg_Ref # args \<Rightarrow> Inr ([], args, [of_nat done]) | _ \<Rightarrow> Inl Bad_Access)
         else if c = 0x66
         then (case args of Arg_Double neg i f # args \<Rightarrow>
                 bindr (number (Arg_Double neg i f) 10 width precision (flags OR SIGN OR DOUBLE)) (\<lambda>s. Inr (s, args, []))
               | _ \<Rightarrow> Inl Bad_Access)
         else if c = 0x62 then num 2 width flags
         else if c = 0x6d then bindr (take_str args) (\<lambda>(p, args).
           bindr (byte_fields 6 p 16 2 precision (flags OR SMALL OR ZEROPAD) 0x3a) (\<lambda>s. Inr (butlast s, args, [])))
         else if c = 0x72 then bindr (take_str args) (\<lambda>(p, args).
           bindr (byte_fields 4 p 10 width precision (flags OR SMALL) 0x2e) (\<lambda>s. Inr (butlast s, args, [])))
         else Inr ((if c \<noteq> 0x25 then [0x25] else []) @ (if c \<noteq> 0 then [c] else []), args, []))"

section \<open>The loop over the format\<close>

lemma skip_atoi_length: "skip_atoi s i = Inr (n, r) \<Longrightarrow> length r \<le> length s"
proof (induction s arbitrary: i)
  case (Cons c s)
  show ?case using Cons.prems by (auto split: if_splits dest!: Cons.IH)
qed simp

lemma scan_flags_length: "scan_flags s fl = Inr (n, r) \<Longrightarrow> length r \<le> length s"
proof (induction s arbitrary: fl)
  case (Cons c s)
  show ?case using Cons.prems by (simp split: if_splits) (auto dest!: Cons.IH)
qed simp

lemma scan_width_length: "scan_width s fl args = Inr (w, fl', r, args') \<Longrightarrow> length r \<le> length s"
  by (cases s) (auto simp: bindr_Inr_iff dest: skip_atoi_length split: if_splits)

lemma scan_precision_length: "scan_precision s args = Inr (p, r, args') \<Longrightarrow> length r \<le> length s"
  by (cases s) (auto simp: bindr_Inr_iff dest!: skip_atoi_length split: if_splits list.splits)

lemma skip_qualifier_length: "skip_qualifier s = Inr r \<Longrightarrow> length r \<le> length s"
  by (cases s) (auto split: if_splits)

text \<open>
  One conversion, from behind the percent sign: the bytes it appends, the stored values, the
  rest of the format and the arguments that are left.  At the end of the format the rest is
  the terminating zero itself (\<open>--fmt\<close>).
\<close>

definition conversion ::
    "u8 list \<Rightarrow> va_arg list \<Rightarrow> nat \<Rightarrow> (u8 list \<times> u32 list \<times> u8 list \<times> va_arg list) result" where
  "conversion fmt args done =
     bindr (scan_flags fmt 0) (\<lambda>(flags, fmt).
     bindr (scan_width fmt flags args) (\<lambda>(width, flags, fmt, args).
     bindr (scan_precision fmt args) (\<lambda>(precision, fmt, args).
     bindr (skip_qualifier fmt) (\<lambda>fmt.
     bindr (load_at fmt 0) (\<lambda>c.
     bindr (convert c flags width precision args done) (\<lambda>(s, args, n).
       Inr (s, n, if c = 0 then fmt else tl fmt, args)))))))"

lemma conversion_length: "conversion fmt args k = Inr (s, n, rest, args') \<Longrightarrow> length rest \<le> length fmt"
  unfolding conversion_def
  by (auto simp: bindr_Inr_iff split: if_splits
      dest!: scan_flags_length scan_width_length scan_precision_length skip_qualifier_length)

function format_loop :: "u8 list \<Rightarrow> va_arg list \<Rightarrow> u8 list \<Rightarrow> u32 list \<Rightarrow> (u8 list \<times> u32 list) result" where
  "format_loop fmt args out ns =
     (case fmt of
        [] \<Rightarrow> Inl Bad_Access
      | c # fmt' \<Rightarrow>
          if c = 0 then Inr (out, ns)
          else if c \<noteq> 0x25 then format_loop fmt' args (out @ [c]) ns
          else bindr (conversion fmt' args (length out)) (\<lambda>(s, n, rest, args).
               format_loop rest args (out @ s) (ns @ n)))"
  by pat_completeness auto

termination format_loop
  by (relation "measure (\<lambda>(fmt, _). length fmt)") (auto dest!: conversion_length)

declare format_loop.simps [simp del]

definition vsprintf :: "nat \<Rightarrow> u8 list \<Rightarrow> va_arg list \<Rightarrow> (u8 list \<times> u32 list \<times> u32) result" where
  "vsprintf cap fmt args =
     bindr (format_loop fmt args [] []) (\<lambda>(out, ns).
       if cap \<le> length out then Inl Bad_Access
       else if \<not> length out < 1024 then Inl Assert_Failed
       else Inr (out @ [0], ns, of_nat (length out)))"

section \<open>Widths\<close>

definition number_prefix :: "u32 \<Rightarrow> u32 \<Rightarrow> nat" where
  "number_prefix base flags = (if has flags SPECIAL then (if base = 16 then 2 else if base = 8 then 1 else 0) else 0)"

lemma pad_loop_fst: "fst (pad_loop c n) = replicate (nat n) c"
  by (simp add: pad_loop_def)

lemma pad_loop_snd_neg: "snd (pad_loop c n) < 0 \<or> n < 0 \<or> snd (pad_loop c n) = - 1"
  by (simp add: pad_loop_def)

lemma pad_loop_after: "nat (snd (pad_loop c n)) = 0"
  by (simp add: pad_loop_def)

lemma has_sum_LEFT: "has flags (ZEROPAD + LEFT) \<longleftrightarrow> has flags ZEROPAD \<or> has flags LEFT"
proof -
  have "(ZEROPAD + LEFT :: u32) = ZEROPAD OR LEFT" by (simp add: ZEROPAD_def LEFT_def)
  then show ?thesis by (simp add: has_def bit.conj_disj_distrib or_eq_0_iff)
qed

lemma number_layout_length:
  "int (length (number_layout tmp sign base size' precision flags)) =
     max (size' - max precision (int (length tmp))) 0 + (if sign \<noteq> 0 then 1 else 0) + int (number_prefix base flags)
     + max precision (int (length tmp))"
proof -
  have p: "(if precision < int (length tmp) then int (length tmp) else precision) = max precision (int (length tmp))"
    by auto
  show ?thesis
    unfolding number_layout_def Let_def p
    by (cases "has flags ZEROPAD"; cases "has flags LEFT")
       (auto simp: has_sum_LEFT pad_loop_def number_prefix_def max_def split: if_splits)
qed

section \<open>Decimal digits\<close>

lemma digit_char_decimal: "i < 10 \<Longrightarrow> digit_char small i = of_nat (48 + unat i)"
proof -
  assume i: "i < 10"
  then have "unat i < 10" by (simp add: word_less_nat_alt)
  then have "ucast i = (of_nat (unat i) :: u8)" by (simp add: unsigned_ucast_eq word_unat_eq_iff take_bit_nat_eq_self)
  with i show ?thesis by (simp add: digit_char_def)
qed

lemma digits_while_decimal: "num \<noteq> 0 \<Longrightarrow> rev (digits_while small 10 num) = digits10 (unat num)"
proof (induction "unat num" arbitrary: num rule: less_induct)
  case less
  have n10: "unat (num div 10) = unat num div 10" "unat (num mod 10) = unat num mod 10"
    by (simp_all add: unat_div_distrib unat_mod_distrib)
  have "num mod 10 < 10" by (simp add: word_less_nat_alt n10)
  from digit_char_decimal [OF this] have c: "digit_char small (num mod 10) = of_nat (48 + unat num mod 10)"
    by (simp add: n10)
  have step: "rev (digits_while small 10 num) = rev (digits_while small 10 (num div 10)) @ [of_nat (48 + unat num mod 10)]"
    using less.prems c by (subst digits_while.simps) simp
  show ?case
  proof (cases "num div 10 = 0")
    case True
    then have "unat num div 10 = 0" using n10(1) by simp
    then have lt: "unat num < 10" by simp
    then show ?thesis unfolding step using True
      by (subst digits_while.simps, subst digits10.simps) simp
  next
    case False
    have "unat (num div 10) < unat num" using less.prems by (intro u32_div_less) auto
    from less.hyps [OF this False] have ih: "rev (digits_while small 10 (num div 10)) = digits10 (unat num div 10)"
      by (simp add: n10)
    have "unat (num div 10) \<noteq> 0" using False by (simp only: unat_eq_zero) simp
    then have "unat num div 10 \<noteq> 0" by (simp only: n10(1)) simp
    then have "\<not> unat num < 10" by simp
    then show ?thesis unfolding step ih by (subst (2) digits10.simps) simp
  qed
qed

section \<open>Properties\<close>

definition fmt_d :: "u8 list" where "fmt_d = [0x25, 0x64, 0]"

lemma number_decimal:
  "number (Arg_Int w) 10 (-1) (-1) SIGN =
     Inr (if sint w < 0 then 0x2d # digits10 (unat (- w)) else digits10 (unat w))"
proof -
  have z: "rev (if num = 0 then [0x30] else digits_while False 10 num) = digits10 (unat num)" for num
    using digits_while_decimal [of num False] by (cases "num = 0") (simp_all add: digits10.simps)
  have lay: "number_layout tmp sg 10 (if sg \<noteq> 0 then -2 else -1) (-1) SIGN
      = (if sg \<noteq> 0 then [sg] else []) @ rev tmp" for tmp sg
    by (simp add: number_layout_def pad_loop_def has_def SIGN_def LEFT_def ZEROPAD_def SPECIAL_def Let_def)
  have f: "has SIGN SIGN" "\<not> has SIGN LEFT" "\<not> has SIGN SMALL" "\<not> has SIGN SPECIAL" "\<not> has SIGN PLUS" "\<not> has SIGN SPACE"
    by (simp_all add: has_def SIGN_def LEFT_def SMALL_def SPECIAL_def PLUS_def SPACE_def)
  show ?thesis
  proof (cases "sint w < 0")
    case True
    have "number (Arg_Int w) 10 (-1) (-1) SIGN
       = Inr (number_layout (if - w = 0 then [0x30] else digits_while False 10 (- w)) 0x2d 10 (-2) (-1) SIGN)"
      using True by (simp add: number_def number_digits_def number_size_def f number_sign_def Let_def)
    with True lay [where sg = "0x2d"] z [of "- w"] show ?thesis by simp
  next
    case False
    have "number (Arg_Int w) 10 (-1) (-1) SIGN
       = Inr (number_layout (if w = 0 then [0x30] else digits_while False 10 w) 0 10 (-1) (-1) SIGN)"
      using False by (simp add: number_def number_digits_def number_size_def f number_sign_def Let_def)
    with False lay [where sg = 0] z [of w] show ?thesis by simp
  qed
qed

lemma digits10_length: "n < 10 ^ k \<Longrightarrow> 0 < k \<Longrightarrow> length (digits10 n) \<le> k"
proof (induction k arbitrary: n)
  case (Suc k)
  show ?case
  proof (cases "n < 10")
    case True
    then show ?thesis by (subst digits10.simps) simp
  next
    case False
    then have "n div 10 < 10 ^ k" "0 < k" using Suc.prems by (auto intro: Nat.gr0I)
    with Suc.IH have "length (digits10 (n div 10)) \<le> k" by blast
    with False show ?thesis by (subst digits10.simps) simp
  qed
qed simp

lemma format_d: "format_loop fmt_d [Arg_Int w] [] [] =
    bindr (number (Arg_Int w) 10 (-1) (-1) SIGN) (\<lambda>s. Inr (s, []))"
  unfolding fmt_d_def
  by (subst format_loop.simps)
     (simp add: conversion_def is_digit_def convert_def take_int_def bindr_assoc format_loop.simps)

text \<open>
  C21. \<open>vsprintf(buf, "%d", w)\<close> and \<open>atoi\<close> are inverse on all 32-bit integers, the most negative
  one included: the text written into any buffer of at least 12 bytes ends with the
  terminator, its length is the returned value, and \<open>atoi\<close> reads \<open>w\<close> back from it.
\<close>
theorem vsprintf_atoi_roundtrip:
  assumes "12 \<le> cap"
  shows "\<exists>out. vsprintf cap fmt_d [Arg_Int w] = Inr (out @ [0], [], of_nat (length out))
    \<and> length out \<le> 11 \<and> atoi (Some (out @ [0])) = Inr w"
proof -
  define out where "out = (if sint w < 0 then 0x2d # digits10 (unat (- w)) else digits10 (unat w))"
  have "length (digits10 (unat v)) \<le> 10" for v :: u32
    using digits10_length [of "unat v" 10] u32_less_2p32 [of v] by simp
  from this [of w] this [of "- w"] have len: "length out \<le> 11" by (simp add: out_def)
  have "format_loop fmt_d [Arg_Int w] [] [] = Inr (out, [])"
    by (simp only: format_d number_decimal out_def bindr_Inr)
  then have "vsprintf cap fmt_d [Arg_Int w] = Inr (out @ [0], [], of_nat (length out))"
    using assms len by (simp add: vsprintf_def)
  moreover have "atoi (Some (out @ [0])) = Inr w"
    using atoi_reads_decimal [of "unat w" "[]"] atoi_reads_decimal [of "unat (- w)" "[]"]
    by (simp add: out_def)
  ultimately show ?thesis using len by blast
qed

lemma vsprintf_atoi_roundtrip_witness:
  "\<exists>out. vsprintf 1024 fmt_d [Arg_Int 0x80000000] = Inr (out @ [0], [], of_nat (length out))
    \<and> length out \<le> 11 \<and> atoi (Some (out @ [0])) = Inr 0x80000000"
  by (rule vsprintf_atoi_roundtrip) simp

definition is_negative :: "u32 \<Rightarrow> u32 \<Rightarrow> bool" where
  "is_negative flags w \<longleftrightarrow> has flags SIGN \<and> sint w < 0"

text \<open>The number of digits of \<open>v\<close> in base \<open>b\<close>, one for zero.\<close>

fun digit_count :: "nat \<Rightarrow> nat \<Rightarrow> nat" where
  "digit_count b v = (if b < 2 \<or> v < b then 1 else Suc (digit_count b (v div b)))"

declare digit_count.simps [simp del]

lemma digits_while_count: "num \<noteq> 0 \<Longrightarrow> 2 \<le> base \<Longrightarrow> length (digits_while small base num) = digit_count (unat base) (unat num)"
proof (induction "unat num" arbitrary: num rule: less_induct)
  case less
  have b: "\<not> base < 2" "\<not> unat base < 2" using less.prems(2) by (simp_all add: word_less_nat_alt word_le_nat_alt)
  have d: "unat (num div base) = unat num div unat base" by (simp add: unat_div_distrib)
  have step: "length (digits_while small base num) = Suc (length (digits_while small base (num div base)))"
    using less.prems(1) b by (subst digits_while.simps) simp
  show ?case
  proof (cases "unat num < unat base")
    case True
    then have "num div base = 0" by (simp only: word_unat_eq_iff d) simp
    then have "digits_while small base (num div base) = []" by (subst digits_while.simps) simp
    with True show ?thesis unfolding step by (simp add: digit_count.simps)
  next
    case False
    then have "unat (num div base) \<noteq> 0" unfolding d using b by (simp add: div_eq_0_iff)
    then have nz: "num div base \<noteq> 0" by (metis unat_0)
    have "unat (num div base) < unat num" using less.prems(1) b by (intro u32_div_less) auto
    from less.hyps [OF this nz less.prems(2)] show ?thesis
      unfolding step using False b by (subst digit_count.simps) (simp add: d)
  qed
qed

text \<open>
  The field width: whatever the value, base, precision and flags, the text of an integer
  is as long as the width asks for, or as long as its sign, the prefix of \<open>#\<close> and its digits
  (at least \<open>precision\<close> many) need when that is more; nothing is ever cut off.
\<close>
theorem number_width:
  assumes "2 \<le> base" and "base \<le> 36"
  shows "\<exists>out. number (Arg_Int w) base width precision flags = Inr out
    \<and> int (length out) = max width
       ((if is_negative flags w \<or> has flags PLUS \<or> has flags SPACE then 1 else 0) + int (number_prefix base flags)
        + max precision (int (digit_count (unat base) (unat (if is_negative flags w then - w else w)))))"
proof -
  define F where "F = (if has flags LEFT then flags AND NOT ZEROPAD else flags)"
  have z: "x AND NOT ZEROPAD AND f = x AND f" if "f AND ZEROPAD = 0" for x f :: u32
  proof -
    have "NOT ZEROPAD AND f = f"
    proof (rule bit_word_eqI)
      fix n
      have "bit (f AND ZEROPAD) n = bit (0 :: u32) n" by (simp only: that)
      then show "n < LENGTH(32) \<Longrightarrow> bit (NOT ZEROPAD AND f) n = bit f n" by (simp add: bit_simps) blast
    qed
    then show ?thesis by (simp only: and.assoc)
  qed
  have h: "has F f = has flags f" if "f AND ZEROPAD = 0" for f
    using z [OF that, of flags] by (simp add: has_def and.assoc F_def)
  have fl: "has F SPECIAL = has flags SPECIAL" "has F PLUS = has flags PLUS"
    "has F SPACE = has flags SPACE" "has F SIGN = has flags SIGN"
    by (rule h, simp add: SPECIAL_def PLUS_def SPACE_def SIGN_def ZEROPAD_def)+
  let ?neg = "is_negative flags w"
  let ?v = "if ?neg then - w else w"
  define tmp where "tmp = (if ?v = 0 then [0x30] else digits_while (has flags SMALL) base ?v)"
  define sg where "sg = number_sign F ?neg"
  let ?w = "(if sg \<noteq> 0 then width - 1 else width) - int (number_prefix base flags)"
  have d: "number_digits (Arg_Int w) base (has flags SMALL) F = Inr (?neg, tmp)"
    by (simp add: number_digits_def is_negative_def fl tmp_def Let_def)
  have sz: "number_size width sg base F = ?w"
    by (simp add: number_size_def number_prefix_def fl)
  have "\<not> (base < 2 \<or> 36 < base)" using assms by auto
  then have n: "number (Arg_Int w) base width precision flags = Inr (number_layout tmp sg base ?w precision F)"
    by (simp only: number_def Let_def if_False F_def [symmetric] d bindr_Inr prod.case sg_def [symmetric] sz)
  have s: "(sg \<noteq> 0) = (?neg \<or> has flags PLUS \<or> has flags SPACE)"
    by (simp add: sg_def number_sign_def fl)
  have "1 < unat base" using assms(1) by (simp add: word_le_nat_alt)
  then have t: "length tmp = digit_count (unat base) (unat ?v)"
    using digits_while_count [OF _ assms(1), of ?v] digit_count.simps [of "unat base" 0] by (simp add: tmp_def)
  have p: "number_prefix base F = number_prefix base flags" by (simp only: number_prefix_def fl)
  let ?out = "number_layout tmp sg base ?w precision F"
  have "int (length ?out) = max width ((if sg \<noteq> 0 then 1 else 0) + int (number_prefix base flags)
      + max precision (int (length tmp)))"
    unfolding number_layout_length p by (cases "sg \<noteq> 0") (simp_all add: max_def)
  then have "int (length ?out) = max width ((if ?neg \<or> has flags PLUS \<or> has flags SPACE then 1 else 0)
      + int (number_prefix base flags) + max precision (int (digit_count (unat base) (unat ?v))))"
    by (simp only: s t)
  with n show ?thesis by (intro exI conjI)
qed

lemma number_width_witness:
  "\<exists>out. number (Arg_Int 255) 16 5 (-1) (SPECIAL OR SMALL) = Inr out \<and> int (length out) = max 5
       ((if is_negative (SPECIAL OR SMALL) 255 \<or> has (SPECIAL OR SMALL) PLUS \<or> has (SPECIAL OR SMALL) SPACE then 1 else 0)
        + int (number_prefix 16 (SPECIAL OR SMALL))
        + max (-1) (int (digit_count (unat (16 :: u32)) (unat (if is_negative (SPECIAL OR SMALL) 255 then - 255 else 255 :: u32)))))"
  by (rule number_width) simp_all

end
