(* ===== verification/Ylos_Monad.thy ===== *)
theory Ylos_Monad
  imports Ylos_Prelude
begin

text \<open>
  State and error for the device and file-system code: an operation takes the state and
  either fails or returns a value with the new state.  \<open>keeps\<close> and \<open>yields\<close> are the partial
  and the total correctness judgements the component theories use.
\<close>

type_synonym ('s, 'a) op = "'s \<Rightarrow> ('a \<times> 's) result"

definition ret :: "'a \<Rightarrow> ('s, 'a) op" where
  "ret x = (\<lambda>s. Inr (x, s))"

definition bindM :: "('s, 'a) op \<Rightarrow> ('a \<Rightarrow> ('s, 'b) op) \<Rightarrow> ('s, 'b) op" where
  "bindM m f = (\<lambda>s. bindr (m s) (\<lambda>(x, s). f x s))"

definition seqM :: "('s, 'a) op \<Rightarrow> ('s, 'b) op \<Rightarrow> ('s, 'b) op" where
  "seqM m k = bindM m (\<lambda>_. k)"

definition failM :: "kerror \<Rightarrow> ('s, 'a) op" where
  "failM e = (\<lambda>s. Inl e)"

definition getM :: "('s \<Rightarrow> 'a) \<Rightarrow> ('s, 'a) op" where
  "getM f = (\<lambda>s. Inr (f s, s))"

definition modM :: "('s \<Rightarrow> 's) \<Rightarrow> ('s, unit) op" where
  "modM f = (\<lambda>s. Inr ((), f s))"

definition liftM :: "'a result \<Rightarrow> ('s, 'a) op" where
  "liftM r = (\<lambda>s. bindr r (\<lambda>x. Inr (x, s)))"

definition assertM :: "bool \<Rightarrow> ('s, unit) op" where
  "assertM b = (if b then ret () else failM Assert_Failed)"

definition whenM :: "bool \<Rightarrow> ('s, unit) op \<Rightarrow> ('s, unit) op" where
  "whenM b m = (if b then m else ret ())"

text \<open>A sequence of statements.\<close>

fun do_all :: "('s, unit) op list \<Rightarrow> ('s, unit) op" where
  "do_all [] = ret ()"
| "do_all (m # ms) = seqM m (do_all ms)"

lemma bindM_cong [fundef_cong]:
  assumes "m s = m' s'" and "\<And>x t. m' s' = Inr (x, t) \<Longrightarrow> f x t = f' x t" and "s = s'"
  shows "bindM m f s = bindM m' f' s'"
  using assms by (auto simp: bindM_def bindr_def split: sum.splits)

lemma op_simps [simp]:
  "ret x s = Inr (x, s)" "failM e s = Inl e" "getM f s = Inr (f s, s)" "modM g s = Inr ((), g s)"
  "liftM (Inr x) s = Inr (x, s)" "liftM (Inl e) s = Inl e"
  by (simp_all add: ret_def failM_def getM_def modM_def liftM_def)

lemma assertM_simps [simp]: "assertM True s = Inr ((), s)" "assertM False s = Inl Assert_Failed"
  by (simp_all add: assertM_def)

lemma assertM_iff: "assertM b s = (if b then Inr ((), s) else Inl Assert_Failed)"
  by (simp add: assertM_def)

lemma whenM_simps [simp]: "whenM True m = m" "whenM False m s = Inr ((), s)"
  by (simp_all add: whenM_def)

lemma bindM_run: "m s = Inr (x, t) \<Longrightarrow> bindM m f s = f x t"
  by (simp add: bindM_def)

lemma seqM_run: "m s = Inr (x, t) \<Longrightarrow> seqM m k s = k t"
  by (simp add: seqM_def bindM_run)

lemma bindM_fail: "m s = Inl e \<Longrightarrow> bindM m f s = Inl e"
  by (simp add: bindM_def)

lemma bindM_Inr_iff: "bindM m f s = Inr r \<longleftrightarrow> (\<exists>x t. m s = Inr (x, t) \<and> f x t = Inr r)"
  by (auto simp: bindM_def bindr_Inr_iff)

lemma seqM_Inr_iff: "seqM m k s = Inr r \<longleftrightarrow> (\<exists>x t. m s = Inr (x, t) \<and> k t = Inr r)"
  by (simp add: seqM_def bindM_Inr_iff)

section \<open>Partial correctness\<close>

definition keeps :: "('s \<Rightarrow> bool) \<Rightarrow> ('s, 'a) op \<Rightarrow> ('a \<Rightarrow> 's \<Rightarrow> bool) \<Rightarrow> bool" where
  "keeps P m Q \<longleftrightarrow> (\<forall>s x t. P s \<longrightarrow> m s = Inr (x, t) \<longrightarrow> Q x t)"

lemma keepsI: "(\<And>s x t. P s \<Longrightarrow> m s = Inr (x, t) \<Longrightarrow> Q x t) \<Longrightarrow> keeps P m Q"
  by (simp add: keeps_def)

lemma keepsD: "keeps P m Q \<Longrightarrow> P s \<Longrightarrow> m s = Inr (x, t) \<Longrightarrow> Q x t"
  by (simp add: keeps_def)

named_theorems keeps_rules "rules of partial correctness"

lemma keeps_bindM [keeps_rules]:
  "keeps P m R \<Longrightarrow> (\<And>x. keeps (R x) (f x) Q) \<Longrightarrow> keeps P (bindM m f) Q"
  unfolding keeps_def bindM_Inr_iff by blast

lemma keeps_seqM [keeps_rules]:
  "keeps P m (\<lambda>_. R) \<Longrightarrow> keeps R k Q \<Longrightarrow> keeps P (seqM m k) Q"
  unfolding keeps_def seqM_Inr_iff by blast

lemma keeps_ret: "(\<And>s. P s \<Longrightarrow> Q x s) \<Longrightarrow> keeps P (ret x) Q"
  by (simp add: keeps_def)

lemma keeps_weaken: "keeps P m Q \<Longrightarrow> (\<And>s. P' s \<Longrightarrow> P s) \<Longrightarrow> (\<And>x s. Q x s \<Longrightarrow> Q' x s) \<Longrightarrow> keeps P' m Q'"
  unfolding keeps_def by blast

lemma keeps_if [keeps_rules]: "(b \<Longrightarrow> keeps P m Q) \<Longrightarrow> (\<not> b \<Longrightarrow> keeps P k Q) \<Longrightarrow> keeps P (if b then m else k) Q"
  by simp

lemma keeps_fail [keeps_rules]: "keeps P (failM e) Q"
  by (simp add: keeps_def)

lemma keeps_getM: "(\<And>s. P s \<Longrightarrow> Q (f s) s) \<Longrightarrow> keeps P (getM f) Q"
  by (simp add: keeps_def)

lemma keeps_modM: "(\<And>s. P s \<Longrightarrow> Q () (f s)) \<Longrightarrow> keeps P (modM f) Q"
  by (simp add: keeps_def)

lemma keeps_assertM: "(\<And>s. P s \<Longrightarrow> b \<Longrightarrow> Q () s) \<Longrightarrow> keeps P (assertM b) Q"
  by (simp add: keeps_def assertM_iff split: if_splits)

lemma keeps_whenM [keeps_rules]: "(b \<Longrightarrow> keeps P m Q) \<Longrightarrow> (\<And>s. \<not> b \<Longrightarrow> P s \<Longrightarrow> Q () s) \<Longrightarrow> keeps P (whenM b m) Q"
  by (simp add: keeps_def whenM_def)

lemma keeps_liftM: "(\<And>s x. P s \<Longrightarrow> r = Inr x \<Longrightarrow> Q x s) \<Longrightarrow> keeps P (liftM r) Q"
  by (auto simp: keeps_def liftM_def bindr_Inr_iff)

end
