(* ===== verification/Ylos_Device.thy ===== *)
theory Ylos_Device
  imports Ylos_Monad Ylos_List Ylos_String Ylos_Memory
begin

text \<open>
  kernel/device.c with include/ylos/device.h, and the RAM disk of kernel/ramdisk.c.  The
  function pointers of a device are functions on the state \<open>'w\<close> of the drivers; the RAM disk is
  such a driver, the IDE disk is one that its hardware decides and stays a parameter.  The
  requests of a block device wait on a list sorted by sector; \<open>device_request\<close> is split where
  the caller sleeps behind earlier requests: \<open>request_begin\<close> queues, \<open>request_finish\<close> serves
  the request and names the one to be woken.
\<close>

section \<open>The device table\<close>

definition DEVICE_NR :: nat where "DEVICE_NR = 64"
definition NAMELEN :: u32 where "NAMELEN = 16"
definition DEV_NULL :: u32 where "DEV_NULL = 0"
definition DEV_CHAR :: u32 where "DEV_CHAR = 1"
definition DEV_BLOCK :: u32 where "DEV_BLOCK = 2"
definition DEV_CONSOLE :: u32 where "DEV_CONSOLE = 1"
definition DEV_KEYBOARD :: u32 where "DEV_KEYBOARD = 2"
definition DEV_SERIAL :: u32 where "DEV_SERIAL = 3"
definition DEV_IDE_DISK :: u32 where "DEV_IDE_DISK = 4"
definition DEV_IDE_PART :: u32 where "DEV_IDE_PART = 5"
definition DEV_RAMDISK :: u32 where "DEV_RAMDISK = 6"
definition DEV_CMD_SECTOR_START :: u32 where "DEV_CMD_SECTOR_START = 1"
definition DEV_CMD_SECTOR_COUNT :: u32 where "DEV_CMD_SECTOR_COUNT = 2"
definition DEV_CMD_SECTOR_SIZE :: u32 where "DEV_CMD_SECTOR_SIZE = 3"
definition REQ_READ :: u32 where "REQ_READ = 0"
definition REQ_WRITE :: u32 where "REQ_WRITE = 1"

text \<open>A driver's functions: \<open>ptr\<close> names its own data; \<open>read\<close> returns the bytes it puts into
  the buffer, \<open>write\<close> gets them.  The value is the \<open>int\<close> the code returns.\<close>

type_synonym 'w dev_ioctl = "nat \<Rightarrow> u32 \<Rightarrow> u32 \<Rightarrow> u32 \<Rightarrow> ('w, u32) op"
type_synonym 'w dev_read = "nat \<Rightarrow> u32 \<Rightarrow> u32 \<Rightarrow> u32 \<Rightarrow> ('w, u8 list \<times> u32) op"
type_synonym 'w dev_write = "nat \<Rightarrow> u8 list \<Rightarrow> u32 \<Rightarrow> u32 \<Rightarrow> u32 \<Rightarrow> ('w, u32) op"

record 'w device_t =
  dv_name :: "u8 list"
  dv_type :: u32
  dv_subtype :: u32
  dv_dev :: u32
  dv_parent :: u32
  dv_ptr :: nat
  dv_direct_down :: bool
  dv_ioctl :: "'w dev_ioctl option"
  dv_read :: "'w dev_read option"
  dv_write :: "'w dev_write option"

text \<open>A node of a request list: the head or tail of a device's list, or a request.\<close>

datatype rnode = Req_Head nat | Req_Tail nat | Req nat

definition rlist :: "nat \<Rightarrow> rnode list_t" where
  "rlist d = \<lparr>l_head = Req_Head d, l_tail = Req_Tail d\<rparr>"

record request_t =
  r_dev :: u32
  r_type :: u32
  r_idx :: u32
  r_count :: u32
  r_flags :: u32
  r_task :: "nat option"

record 'w devs_t =
  ds_table :: "'w device_t list"
  ds_links :: "rnode links"
  ds_req :: "nat \<Rightarrow> request_t"
  ds_world :: 'w

fun find_null :: "'w device_t list \<Rightarrow> nat \<Rightarrow> nat result" where
  "find_null [] i = Inl Kernel_Panic"
| "find_null (d # ds) i = (if dv_type d = DEV_NULL then Inr i else find_null ds (Suc i))"

definition get_null_device :: "('w devs_t, nat) op" where
  "get_null_device = bindM (getM ds_table) (\<lambda>ds. liftM (find_null (tl ds) 1))"

definition device_get :: "u32 \<Rightarrow> ('w devs_t, 'w device_t) op" where
  "device_get dev = bindM (getM ds_table) (\<lambda>ds.
     if \<not> sint dev < int DEVICE_NR then failM Assert_Failed
     else bindM (liftM (load_at ds (unat dev))) (\<lambda>d.
          if dv_type d = DEV_NULL then failM Assert_Failed else ret d))"

text \<open>A call of a driver acts on the drivers' part of the state.\<close>

definition driver :: "('w, 'a) op \<Rightarrow> ('w devs_t, 'a) op" where
  "driver m = (\<lambda>s. bindr (m (ds_world s)) (\<lambda>(x, w). Inr (x, s\<lparr>ds_world := w\<rparr>)))"

definition device_ioctl :: "u32 \<Rightarrow> u32 \<Rightarrow> u32 \<Rightarrow> u32 \<Rightarrow> ('w devs_t, u32) op" where
  "device_ioctl dev cmd args flags = bindM (device_get dev) (\<lambda>d.
     case dv_ioctl d of None \<Rightarrow> ret EOF | Some f \<Rightarrow> driver (f (dv_ptr d) cmd args flags))"

definition device_read :: "u32 \<Rightarrow> u32 \<Rightarrow> u32 \<Rightarrow> u32 \<Rightarrow> ('w devs_t, u8 list \<times> u32) op" where
  "device_read dev count idx flags = bindM (device_get dev) (\<lambda>d.
     case dv_read d of None \<Rightarrow> ret ([], EOF) | Some f \<Rightarrow> driver (f (dv_ptr d) count idx flags))"

definition device_write :: "u32 \<Rightarrow> u8 list \<Rightarrow> u32 \<Rightarrow> u32 \<Rightarrow> u32 \<Rightarrow> ('w devs_t, u32) op" where
  "device_write dev buf count idx flags = bindM (device_get dev) (\<lambda>d.
     case dv_write d of None \<Rightarrow> ret EOF | Some f \<Rightarrow> driver (f (dv_ptr d) buf count idx flags))"

definition device_install ::
    "u32 \<Rightarrow> u32 \<Rightarrow> nat \<Rightarrow> u8 list \<Rightarrow> u32 \<Rightarrow> 'w dev_ioctl option \<Rightarrow> 'w dev_read option \<Rightarrow> 'w dev_write option \<Rightarrow>
     ('w devs_t, u32) op" where
  "device_install type subtype ptr name parent ioctl rd wr =
     bindM get_null_device (\<lambda>i.
     bindM (getM ds_table) (\<lambda>ds.
     bindM (liftM (load_at ds i)) (\<lambda>d.
     bindM (liftM (strncpy (dv_name d) name NAMELEN)) (\<lambda>nm.
     seqM (modM (\<lambda>s. s\<lparr>ds_table := ds[i := d\<lparr>dv_ptr := ptr, dv_parent := parent, dv_type := type,
         dv_subtype := subtype, dv_name := nm, dv_ioctl := ioctl, dv_read := rd, dv_write := wr\<rparr>]\<rparr>))
       (ret (dv_dev d))))))"

definition null_name :: "u8 list" where
  "null_name = [0x6e, 0x75, 0x6c, 0x6c, 0] @ replicate 11 0"

definition null_device :: "nat \<Rightarrow> 'w device_t" where
  "null_device i = \<lparr>dv_name = null_name, dv_type = DEV_NULL, dv_subtype = DEV_NULL, dv_dev = of_nat i,
     dv_parent = 0, dv_ptr = 0, dv_direct_down = False, dv_ioctl = None, dv_read = None, dv_write = None\<rparr>"

definition device_init :: "('w devs_t, unit) op" where
  "device_init = modM (\<lambda>s. s\<lparr>ds_table := map null_device [0..<DEVICE_NR],
     ds_links := foldl (\<lambda>h i. list_init h (rlist i)) (ds_links s) [0..<DEVICE_NR]\<rparr>)"

fun find_subtype :: "'w device_t list \<Rightarrow> u32 \<Rightarrow> u32 \<Rightarrow> u32 \<Rightarrow> 'w device_t option" where
  "find_subtype [] subtype idx nr = None"
| "find_subtype (d # ds) subtype idx nr =
     (if dv_subtype d \<noteq> subtype then find_subtype ds subtype idx nr
      else if nr = idx then Some d else find_subtype ds subtype idx (nr + 1))"

definition device_find :: "u32 \<Rightarrow> u32 \<Rightarrow> ('w devs_t, 'w device_t option) op" where
  "device_find subtype idx = bindM (getM ds_table) (\<lambda>ds. ret (find_subtype ds subtype idx 0))"

section \<open>Block requests\<close>

text \<open>\<open>assert(device->type = DEV_BLOCK)\<close> is an assignment: it stores the type and holds.\<close>

definition set_block_type :: "u32 \<Rightarrow> ('w devs_t, unit) op" where
  "set_block_type dev = modM (\<lambda>s. s\<lparr>ds_table := (ds_table s)[unat dev := (ds_table s ! unat dev)\<lparr>dv_type := DEV_BLOCK\<rparr>]\<rparr>)"

definition req_key :: "(nat \<Rightarrow> request_t) \<Rightarrow> rnode \<Rightarrow> u32" where
  "req_key rq n = (case n of Req i \<Rightarrow> r_idx (rq i) | _ \<Rightarrow> 0)"

text \<open>
  Up to the sleep: \<open>req\<close> is the address \<open>kmalloc\<close> returned, \<open>task\<close> the caller; the value is
  whether it has to sleep because the list was not empty.  The parameter \<open>count\<close> of \<open>device_request\<close> is a
  byte.
\<close>

definition request_begin :: "nat \<Rightarrow> nat \<Rightarrow> u32 \<Rightarrow> u32 \<Rightarrow> u32 \<Rightarrow> u32 \<Rightarrow> u32 \<Rightarrow> ('w devs_t, u32 \<times> bool) op" where
  "request_begin req task dev count idx flags type =
     bindM (device_get dev) (\<lambda>d.
     seqM (set_block_type dev)
     (bindM (device_ioctl (dv_dev d) DEV_CMD_SECTOR_START 0 0) (\<lambda>start.
     bindM (if dv_parent d \<noteq> 0 then device_get (dv_parent d) else device_get dev) (\<lambda>d.
     bindM (getM id) (\<lambda>s.
       let offset = idx + start;
           rq = (ds_req s)(req := \<lparr>r_dev = dv_dev d, r_type = type, r_idx = offset, r_count = ucast (ucast count :: u8),
                                  r_flags = flags, r_task = None\<rparr>);
           l = rlist (unat (dv_dev d));
           empty = list_empty (ds_links s) l
       in bindM (liftM (list_insert_sort (ds_links s) l (req_key rq) (Req req))) (\<lambda>links.
          seqM (modM (\<lambda>s. s\<lparr>ds_links := links,
                  ds_req := (if empty then rq else rq(req := (rq req)\<lparr>r_task := Some task\<rparr>))\<rparr>))
            (ret (dv_dev d, \<not> empty))))))))"

definition do_request :: "nat \<Rightarrow> u8 list \<Rightarrow> ('w devs_t, u8 list) op" where
  "do_request req buf =
     bindM (getM (\<lambda>s. ds_req s req)) (\<lambda>r.
     if r_type r = REQ_READ
     then bindM (device_read (r_dev r) (r_count r) (r_idx r) (r_flags r)) (\<lambda>(bytes, n).
          ret (bytes @ drop (length bytes) buf))
     else if r_type r = REQ_WRITE
     then bindM (device_write (r_dev r) buf (r_count r) (r_idx r) (r_flags r)) (\<lambda>n. ret buf)
     else failM Kernel_Panic)"

text \<open>The elevator: the new direction, and the neighbour of the request in that direction.\<close>

definition turn :: "rnode links \<Rightarrow> nat \<Rightarrow> nat \<Rightarrow> bool \<Rightarrow> bool" where
  "turn h d req down =
     (if \<not> down \<and> l_next h (Req req) = Some (Req_Tail d) then True
      else if down \<and> l_prev h (Req req) = Some (Req_Head d) then False else down)"

definition request_nextreq :: "nat \<Rightarrow> nat \<Rightarrow> ('w devs_t, nat option) op" where
  "request_nextreq d req =
     bindM (getM id) (\<lambda>s.
     bindM (liftM (load_at (ds_table s) d)) (\<lambda>device.
       let down = turn (ds_links s) d req (dv_direct_down device);
           next = (if down then l_prev (ds_links s) (Req req) else l_next (ds_links s) (Req req))
       in seqM (modM (\<lambda>s. s\<lparr>ds_table := (ds_table s)[d := device\<lparr>dv_direct_down := down\<rparr>]\<rparr>))
            (case next of
               Some (Req r) \<Rightarrow> ret (Some r)
             | Some _ \<Rightarrow> ret None
             | None \<Rightarrow> failM Bad_Access)))"

text \<open>Behind the sleep: the bytes of the buffer, and the task to be woken.\<close>

definition request_finish :: "nat \<Rightarrow> u32 \<Rightarrow> u8 list \<Rightarrow> ('w devs_t, u8 list \<times> nat option) op" where
  "request_finish req dev buf =
     bindM (do_request req buf) (\<lambda>buf.
     bindM (request_nextreq (unat dev) req) (\<lambda>next.
     bindM (getM ds_links) (\<lambda>h.
     bindM (liftM (list_remove h (Req req))) (\<lambda>links.
     seqM (modM (\<lambda>s. s\<lparr>ds_links := links\<rparr>))
       (case next of
          None \<Rightarrow> ret (buf, None)
        | Some r \<Rightarrow> bindM (getM (\<lambda>s. r_task (ds_req s r))) (\<lambda>t.
                    case t of None \<Rightarrow> failM Bad_Access | Some t \<Rightarrow> ret (buf, Some t)))))))"

text \<open>
  A request of a caller that finds the queue of the device empty; \<open>Would_Sleep\<close> otherwise.
  Then nobody waits, and the request can live at any free address, here 0.
\<close>

definition device_request :: "u32 \<Rightarrow> u8 list \<Rightarrow> u32 \<Rightarrow> u32 \<Rightarrow> u32 \<Rightarrow> u32 \<Rightarrow> ('w devs_t, u8 list) op" where
  "device_request dev buf count idx flags type =
     bindM (request_begin 0 0 dev count idx flags type) (\<lambda>(dev, sleeps).
     if sleeps then failM Would_Sleep
     else bindM (request_finish 0 dev buf) (\<lambda>(buf, woken). ret buf))"

section \<open>The RAM disk\<close>

definition SECTOR_SIZE :: u32 where "SECTOR_SIZE = 512"
definition RAMDISK_NR :: nat where "RAMDISK_NR = 4"
definition KERNEL_RAMDISK_MEM :: u32 where "KERNEL_RAMDISK_MEM = 0xc00000"
definition KERNEL_RAMDISK_SIZE :: u32 where "KERNEL_RAMDISK_SIZE = 0x400000"

record ramdisk_t =
  rd_start :: u32
  rd_size :: u32

text \<open>The driver's state: the disks, and the bytes of memory by address.\<close>

record ram_t =
  ram_disks :: "ramdisk_t list"
  ram_bytes :: "u32 \<Rightarrow> u8"

definition ram_get :: "(u32 \<Rightarrow> u8) \<Rightarrow> u32 \<Rightarrow> nat \<Rightarrow> u8 list" where
  "ram_get f a n = map (\<lambda>i. f (a + of_nat i)) [0..<n]"

definition ram_put :: "(u32 \<Rightarrow> u8) \<Rightarrow> u32 \<Rightarrow> u8 list \<Rightarrow> u32 \<Rightarrow> u8" where
  "ram_put f a bs x = (if unat (x - a) < length bs then bs ! unat (x - a) else f x)"

definition ramdisk_ioctl :: "nat \<Rightarrow> u32 \<Rightarrow> u32 \<Rightarrow> u32 \<Rightarrow> (ram_t, u32) op" where
  "ramdisk_ioctl ptr cmd args flags =
     bindM (getM ram_disks) (\<lambda>ds. bindM (liftM (load_at ds ptr)) (\<lambda>disk.
       if cmd = DEV_CMD_SECTOR_START then ret 0
       else if cmd = DEV_CMD_SECTOR_COUNT then ret (rd_size disk div SECTOR_SIZE)
       else if cmd = DEV_CMD_SECTOR_SIZE then ret SECTOR_SIZE
       else failM Kernel_Panic))"

text \<open>The number of sectors is an \<open>u8\<close> parameter of the driver's functions.\<close>

definition ramdisk_read :: "nat \<Rightarrow> u32 \<Rightarrow> u32 \<Rightarrow> u32 \<Rightarrow> (ram_t, u8 list \<times> u32) op" where
  "ramdisk_read ptr count lba flags =
     bindM (getM id) (\<lambda>s. bindM (liftM (load_at (ram_disks s) ptr)) (\<lambda>disk.
       let count = count AND 0xff; addr = rd_start disk + lba * SECTOR_SIZE; len = count * SECTOR_SIZE
       in seqM (assertM (addr + len < KERNEL_RAMDISK_MEM + KERNEL_MEMORY_SIZE))
            (ret (ram_get (ram_bytes s) addr (unat len), count))))"

definition ramdisk_write :: "nat \<Rightarrow> u8 list \<Rightarrow> u32 \<Rightarrow> u32 \<Rightarrow> u32 \<Rightarrow> (ram_t, u32) op" where
  "ramdisk_write ptr buf count lba flags =
     bindM (getM id) (\<lambda>s. bindM (liftM (load_at (ram_disks s) ptr)) (\<lambda>disk.
       let count = count AND 0xff; addr = rd_start disk + lba * SECTOR_SIZE; len = count * SECTOR_SIZE
       in seqM (assertM (addr + len < KERNEL_RAMDISK_MEM + KERNEL_MEMORY_SIZE))
          (if length buf < unat len then failM Bad_Access
           else seqM (modM (\<lambda>s. s\<lparr>ram_bytes := ram_put (ram_bytes s) addr (take (unat len) buf)\<rparr>)) (ret count))))"

definition ramdisk_name :: "nat \<Rightarrow> u8 list" where
  "ramdisk_name i = [0x6d, 0x64, of_nat (0x61 + i), 0]"

fun ramdisk_loop :: "nat \<Rightarrow> nat \<Rightarrow> u32 \<Rightarrow> (ram_t devs_t, unit) op" where
  "ramdisk_loop 0 i size' = ret ()"
| "ramdisk_loop (Suc n) i size' =
     (let start = KERNEL_RAMDISK_MEM + size' * of_nat i
      in seqM (driver (modM (\<lambda>w. w\<lparr>ram_disks := (ram_disks w)[i := \<lparr>rd_start = start, rd_size = size'\<rparr>],
                 ram_bytes := ram_put (ram_bytes w) start (replicate (unat size') 0)\<rparr>)))
         (seqM (device_install DEV_BLOCK DEV_RAMDISK i (ramdisk_name i) 0
                  (Some ramdisk_ioctl) (Some ramdisk_read) (Some ramdisk_write))
           (ramdisk_loop n (Suc i) size')))"

definition ramdisk_init :: "(ram_t devs_t, unit) op" where
  "ramdisk_init =
     (let size' = KERNEL_RAMDISK_SIZE div of_nat RAMDISK_NR
      in seqM (assertM (size' mod SECTOR_SIZE = 0)) (ramdisk_loop RAMDISK_NR 0 size'))"

end
