(* ===== verification/Ylos_Fs.thy ===== *)
theory Ylos_Fs
  imports Ylos_Device Ylos_Fifo Ylos_Arena
begin

text \<open>
  include/ylos/fs.h, buffer.h and stat.h: the state of the file system.  Buffers, inodes,
  super blocks and open files are named by their index in their table.  The descriptors of
  inodes and super blocks and the directory entries lie in the bytes of buffers, as in the
  kernel, and are read and written there: two names for the same entry share its bytes.
  The file-system code is followed for one task (\<open>fs_task\<close>) from one suspension to the next; where
  it would sleep it is \<open>Would_Sleep\<close>.
\<close>

section \<open>Constants\<close>

definition BLOCK_SIZE :: u32 where "BLOCK_SIZE = 1024"
definition BLOCK_SECS :: u32 where "BLOCK_SECS = 2"
definition MINIX1_MAGIC :: u16 where "MINIX1_MAGIC = 0x137f"
definition NAME_LEN :: u32 where "NAME_LEN = 14"
definition IMAP_NR :: nat where "IMAP_NR = 8"
definition ZMAP_NR :: nat where "ZMAP_NR = 8"
definition BLOCK_BITS :: u32 where "BLOCK_BITS = 8192"
definition BLOCK_INODES :: u32 where "BLOCK_INODES = 32"
definition BLOCK_DENTRIES :: u32 where "BLOCK_DENTRIES = 64"
definition BLOCK_INDEXES :: u32 where "BLOCK_INDEXES = 512"
definition DIRECT_BLOCK :: u32 where "DIRECT_BLOCK = 7"
definition INDIRECT1_BLOCK :: u32 where "INDIRECT1_BLOCK = 512"
definition INDIRECT2_BLOCK :: u32 where "INDIRECT2_BLOCK = 262144"
definition TOTAL_BLOCK :: u32 where "TOTAL_BLOCK = 262663"
definition DENTRY_SIZE :: u32 where "DENTRY_SIZE = 16"
definition INODE_DESC_SIZE :: nat where "INODE_DESC_SIZE = 32"

definition O_RDONLY :: u32 where "O_RDONLY = 0"
definition O_WRONLY :: u32 where "O_WRONLY = 1"
definition O_RDWR :: u32 where "O_RDWR = 2"
definition O_ACCMODE :: u32 where "O_ACCMODE = 3"
definition O_CREAT :: u32 where "O_CREAT = 0x40"
definition O_TRUNC :: u32 where "O_TRUNC = 0x200"
definition O_APPEND :: u32 where "O_APPEND = 0x400"

definition IFMT :: u16 where "IFMT = 0xf000"
definition IFREG :: u16 where "IFREG = 0x8000"
definition IFBLK :: u16 where "IFBLK = 0x6000"
definition IFDIR :: u16 where "IFDIR = 0x4000"
definition IFCHR :: u16 where "IFCHR = 0x2000"
definition ISVTX :: u16 where "ISVTX = 0x200"
definition ISDIR :: "u16 \<Rightarrow> bool" where "ISDIR m \<longleftrightarrow> m AND IFMT = IFDIR"
definition ISCHR :: "u16 \<Rightarrow> bool" where "ISCHR m \<longleftrightarrow> m AND IFMT = IFCHR"
definition ISBLK :: "u16 \<Rightarrow> bool" where "ISBLK m \<longleftrightarrow> m AND IFMT = IFBLK"
definition ISFILE :: "u16 \<Rightarrow> bool" where "ISFILE m \<longleftrightarrow> m AND IFMT = IFREG"
definition P_EXEC :: u16 where "P_EXEC = 1"
definition P_READ :: u16 where "P_READ = 4"
definition P_WRITE :: u16 where "P_WRITE = 2"

text \<open>\<open>ACC_MODE(x)\<close> indexes the string \<open>"\004\002\006\377"\<close>; its characters are signed.\<close>

definition ACC_MODE :: "u32 \<Rightarrow> u16" where
  "ACC_MODE x =
     (let i = x AND O_ACCMODE in if i = 0 then 4 else if i = 1 then 2 else if i = 2 then 6 else 0xffff)"

section \<open>Tables\<close>

text \<open>\<open>count\<close> of a buffer is a signed \<open>int\<close>, whose overflow C leaves undefined; here it has no bound.\<close>

record buffer_t =
  b_data :: "u8 list"
  b_dev :: u32
  b_block :: u32
  b_count :: int
  b_dirty :: bool
  b_valid :: bool

text \<open>\<open>i_buf\<close> and \<open>i_desc\<close> are the buffer and the offset of the descriptor; a pipe has a
  ring instead, at the heap address \<open>i_ring\<close>, with its bytes in the page \<open>i_page\<close>.\<close>

record inode_t =
  i_buf :: nat
  i_desc :: nat
  i_dev :: u32
  i_nr :: u32
  i_count :: u32
  i_atime :: u32
  i_ctime :: u32
  i_mount :: u32
  i_pipe :: bool
  i_fifo :: fifo_t
  i_ring :: u32
  i_page :: u32

record super_block_t =
  sb_buf :: "nat option"
  sb_imaps :: "nat option list"
  sb_zmaps :: "nat option list"
  sb_dev :: u32
  sb_count :: u32
  sb_iroot :: "nat option"
  sb_imount :: "nat option"

record file_t =
  fl_inode :: "nat option"
  fl_count :: u32
  fl_offset :: u32
  fl_flags :: u32
  fl_mode :: u32

text \<open>List nodes: the hash chains and the free list of buffers, the inode lists of super
  blocks.\<close>

datatype fnode = Hash_Head nat | Hash_Tail nat | Free_List_Head | Free_List_Tail | Hnode nat | Rnode nat
  | Inodes_Head nat | Inodes_Tail nat | Inode_Node nat

record 'w fs_t =
  fs_bufs :: "buffer_t list"
  fs_buf_ptr :: u32
  fs_buf_data :: u32
  fs_waiters :: "task_ptr list"
  fs_links :: "fnode links"
  fs_inodes :: "inode_t list"
  fs_supers :: "super_block_t list"
  fs_root :: "nat option"
  fs_files :: "file_t list"
  fs_task :: task_t
  fs_now :: u32
  fs_heap :: heap_t
  fs_devs :: "'w devs_t"

definition hash_list :: "nat \<Rightarrow> fnode list_t" where
  "hash_list i = \<lparr>l_head = Hash_Head i, l_tail = Hash_Tail i\<rparr>"

definition buffer_free_list :: "fnode list_t" where
  "buffer_free_list = \<lparr>l_head = Free_List_Head, l_tail = Free_List_Tail\<rparr>"

definition inode_list :: "nat \<Rightarrow> fnode list_t" where
  "inode_list i = \<lparr>l_head = Inodes_Head i, l_tail = Inodes_Tail i\<rparr>"

section \<open>Access to the tables and to bytes\<close>

definition buf_at :: "nat \<Rightarrow> ('w fs_t, buffer_t) op" where
  "buf_at b = bindM (getM fs_bufs) (\<lambda>bs. liftM (load_at bs b))"

definition upd_buf :: "nat \<Rightarrow> (buffer_t \<Rightarrow> buffer_t) \<Rightarrow> ('w fs_t, unit) op" where
  "upd_buf b f = bindM (buf_at b) (\<lambda>x. modM (\<lambda>s. s\<lparr>fs_bufs := (fs_bufs s)[b := f x]\<rparr>))"

definition set_dirty :: "nat \<Rightarrow> ('w fs_t, unit) op" where
  "set_dirty b = upd_buf b (\<lambda>x. x\<lparr>b_dirty := True\<rparr>)"

definition inode_at :: "nat \<Rightarrow> ('w fs_t, inode_t) op" where
  "inode_at i = bindM (getM fs_inodes) (\<lambda>xs. liftM (load_at xs i))"

definition upd_inode :: "nat \<Rightarrow> (inode_t \<Rightarrow> inode_t) \<Rightarrow> ('w fs_t, unit) op" where
  "upd_inode i f = bindM (inode_at i) (\<lambda>x. modM (\<lambda>s. s\<lparr>fs_inodes := (fs_inodes s)[i := f x]\<rparr>))"

definition super_at :: "nat \<Rightarrow> ('w fs_t, super_block_t) op" where
  "super_at i = bindM (getM fs_supers) (\<lambda>xs. liftM (load_at xs i))"

definition upd_super :: "nat \<Rightarrow> (super_block_t \<Rightarrow> super_block_t) \<Rightarrow> ('w fs_t, unit) op" where
  "upd_super i f = bindM (super_at i) (\<lambda>x. modM (\<lambda>s. s\<lparr>fs_supers := (fs_supers s)[i := f x]\<rparr>))"

text \<open>Little-endian fields at an offset of a buffer.\<close>

definition load8 :: "nat \<Rightarrow> nat \<Rightarrow> ('w fs_t, u8) op" where
  "load8 b off = bindM (buf_at b) (\<lambda>x. liftM (load_at (b_data x) off))"

definition store8 :: "nat \<Rightarrow> nat \<Rightarrow> u8 \<Rightarrow> ('w fs_t, unit) op" where
  "store8 b off v = bindM (buf_at b) (\<lambda>x. bindM (liftM (store_at (b_data x) off v)) (\<lambda>d.
     upd_buf b (\<lambda>x. x\<lparr>b_data := d\<rparr>)))"

definition load16 :: "nat \<Rightarrow> nat \<Rightarrow> ('w fs_t, u16) op" where
  "load16 b off = bindM (load8 b off) (\<lambda>lo. bindM (load8 b (off + 1)) (\<lambda>hi.
     ret (ucast lo OR push_bit 8 (ucast hi))))"

definition store16 :: "nat \<Rightarrow> nat \<Rightarrow> u16 \<Rightarrow> ('w fs_t, unit) op" where
  "store16 b off v = seqM (store8 b off (ucast v)) (store8 b (off + 1) (ucast (drop_bit 8 v)))"

definition load32 :: "nat \<Rightarrow> nat \<Rightarrow> ('w fs_t, u32) op" where
  "load32 b off = bindM (load16 b off) (\<lambda>lo. bindM (load16 b (off + 2)) (\<lambda>hi.
     ret (ucast lo OR push_bit 16 (ucast hi))))"

definition store32 :: "nat \<Rightarrow> nat \<Rightarrow> u32 \<Rightarrow> ('w fs_t, unit) op" where
  "store32 b off v = seqM (store16 b off (ucast v)) (store16 b (off + 2) (ucast (drop_bit 16 v)))"

text \<open>The fields of \<open>inode->desc\<close>: mode 0, uid 2, size 4, mtime 8, gid 12, nlinks 13,
  zone[9] from 14 on.\<close>

definition desc8 :: "nat \<Rightarrow> nat \<Rightarrow> ('w fs_t, u8) op" where
  "desc8 i off = bindM (inode_at i) (\<lambda>x. load8 (i_buf x) (i_desc x + off))"

definition desc16 :: "nat \<Rightarrow> nat \<Rightarrow> ('w fs_t, u16) op" where
  "desc16 i off = bindM (inode_at i) (\<lambda>x. load16 (i_buf x) (i_desc x + off))"

definition desc32 :: "nat \<Rightarrow> nat \<Rightarrow> ('w fs_t, u32) op" where
  "desc32 i off = bindM (inode_at i) (\<lambda>x. load32 (i_buf x) (i_desc x + off))"

definition set_desc8 :: "nat \<Rightarrow> nat \<Rightarrow> u8 \<Rightarrow> ('w fs_t, unit) op" where
  "set_desc8 i off v = bindM (inode_at i) (\<lambda>x. store8 (i_buf x) (i_desc x + off) v)"

definition set_desc16 :: "nat \<Rightarrow> nat \<Rightarrow> u16 \<Rightarrow> ('w fs_t, unit) op" where
  "set_desc16 i off v = bindM (inode_at i) (\<lambda>x. store16 (i_buf x) (i_desc x + off) v)"

definition set_desc32 :: "nat \<Rightarrow> nat \<Rightarrow> u32 \<Rightarrow> ('w fs_t, unit) op" where
  "set_desc32 i off v = bindM (inode_at i) (\<lambda>x. store32 (i_buf x) (i_desc x + off) v)"

definition imode :: "nat \<Rightarrow> ('w fs_t, u16) op" where "imode i = desc16 i 0"
definition iuid :: "nat \<Rightarrow> ('w fs_t, u16) op" where "iuid i = desc16 i 2"
definition isize :: "nat \<Rightarrow> ('w fs_t, u32) op" where "isize i = desc32 i 4"
definition inlinks :: "nat \<Rightarrow> ('w fs_t, u8) op" where "inlinks i = desc8 i 13"
definition izone :: "nat \<Rightarrow> nat \<Rightarrow> ('w fs_t, u16) op" where "izone i k = desc16 i (14 + 2 * k)"
definition set_imode :: "nat \<Rightarrow> u16 \<Rightarrow> ('w fs_t, unit) op" where "set_imode i v = set_desc16 i 0 v"
definition set_isize :: "nat \<Rightarrow> u32 \<Rightarrow> ('w fs_t, unit) op" where "set_isize i v = set_desc32 i 4 v"
definition set_imtime :: "nat \<Rightarrow> u32 \<Rightarrow> ('w fs_t, unit) op" where "set_imtime i v = set_desc32 i 8 v"
definition set_inlinks :: "nat \<Rightarrow> u8 \<Rightarrow> ('w fs_t, unit) op" where "set_inlinks i v = set_desc8 i 13 v"
definition set_izone :: "nat \<Rightarrow> nat \<Rightarrow> u16 \<Rightarrow> ('w fs_t, unit) op" where "set_izone i k v = set_desc16 i (14 + 2 * k) v"

definition inode_dirty :: "nat \<Rightarrow> ('w fs_t, unit) op" where
  "inode_dirty i = bindM (inode_at i) (\<lambda>x. set_dirty (i_buf x))"

text \<open>The fields of \<open>super->desc\<close>: inodes 0, zones 2, imap blocks 4, zmap blocks 6, first
  data zone 8, zone size 10, maximal size 12, magic number 16.\<close>

definition super16 :: "nat \<Rightarrow> nat \<Rightarrow> ('w fs_t, u16) op" where
  "super16 i off = bindM (super_at i) (\<lambda>sb. bindM (liftM (deref (sb_buf sb))) (\<lambda>b. load16 b off))"

text \<open>A call of the device layer.\<close>

definition devs :: "('w devs_t, 'a) op \<Rightarrow> ('w fs_t, 'a) op" where
  "devs m = (\<lambda>s. bindr (m (fs_devs s)) (\<lambda>(x, d). Inr (x, s\<lparr>fs_devs := d\<rparr>)))"

end
