(* ===== verification/Ylos_Buffer.thy ===== *)
theory Ylos_Buffer
  imports Ylos_Fs Ylos_Task
begin

text \<open>
  kernel/buffer.c: the cache of disk blocks.  Buffers are made one after the other in a
  region of memory until their descriptors meet their data; a buffer is found by device and
  block through a hash table of lists, and an unused one waits on the free list.  The lock of
  a buffer is taken and released between two suspensions of its only user and is not part of
  the state.
\<close>

section \<open>The code\<close>

definition HASH_COUNT :: u32 where "HASH_COUNT = 31"
definition KERNEL_BUFFER_MEM :: u32 where "KERNEL_BUFFER_MEM = 0x800000"
definition KERNEL_BUFFER_SIZE :: u32 where "KERNEL_BUFFER_SIZE = 0x400000"
definition BUFFER_T_SIZE :: u32 where "BUFFER_T_SIZE = 64"

definition hash :: "u32 \<Rightarrow> u32 \<Rightarrow> nat" where
  "hash dev block = unat ((dev XOR block) mod HASH_COUNT)"

text \<open>The walk along a hash chain.\<close>

partial_function (option) hash_loop ::
    "fnode links \<Rightarrow> buffer_t list \<Rightarrow> fnode \<Rightarrow> u32 \<Rightarrow> u32 \<Rightarrow> fnode option \<Rightarrow> nat option result option" where
  "hash_loop h bufs tail dev block node =
     (if node = Some tail then Some (Inr None)
      else case node of
             Some (Hnode b) \<Rightarrow>
               (if b < length bufs \<and> b_dev (bufs ! b) = dev \<and> b_block (bufs ! b) = block then Some (Inr (Some b))
                else hash_loop h bufs tail dev block (l_next h (Hnode b)))
           | _ \<Rightarrow> Some (Inl Bad_Access))"

definition get_from_hash_table :: "u32 \<Rightarrow> u32 \<Rightarrow> ('w fs_t, nat option) op" where
  "get_from_hash_table dev block =
     bindM (getM id) (\<lambda>s.
     let l = hash_list (hash dev block)
     in bindM (liftM (returned (hash_loop (fs_links s) (fs_bufs s) (l_tail l) dev block (l_next (fs_links s) (l_head l)))))
        (\<lambda>r. case r of
             None \<Rightarrow> ret None
           | Some b \<Rightarrow>
               bindM (liftM (list_search (fs_links s) buffer_free_list (Rnode b))) (\<lambda>found.
               if \<not> found then ret (Some b)
               else bindM (liftM (list_remove (fs_links s) (Rnode b))) (\<lambda>links.
                    seqM (modM (\<lambda>s. s\<lparr>fs_links := links\<rparr>)) (ret (Some b))))))"

definition hash_locate :: "nat \<Rightarrow> ('w fs_t, unit) op" where
  "hash_locate b =
     bindM (buf_at b) (\<lambda>buf. bindM (getM fs_links) (\<lambda>h.
     let l = hash_list (hash (b_dev buf) (b_block buf))
     in bindM (liftM (list_search h l (Hnode b))) (\<lambda>found.
        seqM (assertM (\<not> found))
        (bindM (liftM (list_push h l (Hnode b))) (\<lambda>links. modM (\<lambda>s. s\<lparr>fs_links := links\<rparr>))))))"

text \<open>The assertion of \<open>hash_remove\<close> is as in the code: the buffer must not be found.\<close>

definition hash_remove :: "nat \<Rightarrow> ('w fs_t, unit) op" where
  "hash_remove b =
     bindM (buf_at b) (\<lambda>buf. bindM (getM fs_links) (\<lambda>h.
     let l = hash_list (hash (b_dev buf) (b_block buf))
     in bindM (liftM (list_search h l (Hnode b))) (\<lambda>found.
        seqM (assertM (\<not> found))
        (bindM (liftM (list_remove h (Hnode b))) (\<lambda>links. modM (\<lambda>s. s\<lparr>fs_links := links\<rparr>))))))"

text \<open>A new buffer; its data area holds what is in memory there, zero at first.\<close>

definition new_buffer :: buffer_t where
  "new_buffer = \<lparr>b_data = replicate 1024 0, b_dev = EOF, b_block = 0, b_count = 0, b_dirty = False, b_valid = False\<rparr>"

definition get_new_buffer :: "('w fs_t, nat option) op" where
  "get_new_buffer =
     bindM (getM id) (\<lambda>s.
     if fs_buf_ptr s + BUFFER_T_SIZE < fs_buf_data s
     then seqM (modM (\<lambda>s. s\<lparr>fs_bufs := fs_bufs s @ [new_buffer], fs_buf_ptr := fs_buf_ptr s + BUFFER_T_SIZE,
                          fs_buf_data := fs_buf_data s - BLOCK_SIZE\<rparr>))
            (ret (Some (length (fs_bufs s))))
     else ret None)"

definition get_free_buffer :: "('w fs_t, nat) op" where
  "get_free_buffer =
     bindM get_new_buffer (\<lambda>r. case r of Some b \<Rightarrow> ret b | None \<Rightarrow>
     bindM (getM fs_links) (\<lambda>h.
     if list_empty h buffer_free_list then failM Would_Sleep
     else bindM (liftM (list_popback h buffer_free_list)) (\<lambda>(links, node).
          seqM (modM (\<lambda>s. s\<lparr>fs_links := links\<rparr>))
          (case node of
             Rnode b \<Rightarrow> seqM (hash_remove b) (seqM (upd_buf b (\<lambda>x. x\<lparr>b_valid := False\<rparr>)) (ret b))
           | _ \<Rightarrow> failM Bad_Access))))"

definition getblk :: "u32 \<Rightarrow> u32 \<Rightarrow> ('w fs_t, nat) op" where
  "getblk dev block =
     bindM (get_from_hash_table dev block) (\<lambda>r. case r of
       Some b \<Rightarrow> seqM (upd_buf b (\<lambda>x. x\<lparr>b_count := b_count x + 1\<rparr>)) (ret b)
     | None \<Rightarrow>
         bindM get_free_buffer (\<lambda>b.
         bindM (buf_at b) (\<lambda>x.
         seqM (assertM (b_count x = 0))
         (seqM (assertM (\<not> b_dirty x))
         (seqM (upd_buf b (\<lambda>x. x\<lparr>b_count := 1, b_dev := dev, b_block := block\<rparr>))
         (seqM (hash_locate b) (ret b)))))))"

definition bread :: "u32 \<Rightarrow> u32 \<Rightarrow> ('w fs_t, nat) op" where
  "bread dev block =
     bindM (getblk dev block) (\<lambda>b.
     bindM (buf_at b) (\<lambda>x.
     if b_valid x then ret b
     else bindM (devs (device_request (b_dev x) (b_data x) BLOCK_SECS (b_block x * BLOCK_SECS) 0 REQ_READ)) (\<lambda>d.
          seqM (upd_buf b (\<lambda>x. x\<lparr>b_data := d, b_dirty := False, b_valid := True\<rparr>)) (ret b))))"

definition bwrite :: "nat \<Rightarrow> ('w fs_t, unit) op" where
  "bwrite b =
     bindM (buf_at b) (\<lambda>x.
     if \<not> b_dirty x then ret ()
     else bindM (devs (device_request (b_dev x) (b_data x) BLOCK_SECS (b_block x * BLOCK_SECS) 0 REQ_WRITE)) (\<lambda>d.
          upd_buf b (\<lambda>x. x\<lparr>b_dirty := False, b_valid := True\<rparr>)))"

text \<open>
  \<open>brelse\<close>.  A waiter is taken off the wait list by \<open>list_popback\<close> and then given to
  \<open>task_unblock\<close>, which wants to remove it again: that assertion always fails
  (\<open>popback_unblock_fails\<close> below).
\<close>

definition brelse :: "nat option \<Rightarrow> ('w fs_t, unit) op" where
  "brelse buf = (case buf of None \<Rightarrow> ret () | Some b \<Rightarrow>
     seqM (bwrite b)
     (seqM (upd_buf b (\<lambda>x. x\<lparr>b_count := b_count x - 1\<rparr>))
     (bindM (buf_at b) (\<lambda>x.
      seqM (assertM (0 \<le> b_count x))
      (if b_count x \<noteq> 0 then ret ()
       else bindM (getM fs_links) (\<lambda>h.
            seqM (assertM (l_next h (Rnode b) = None))
            (seqM (assertM (l_prev h (Rnode b) = None))
            (bindM (liftM (list_push h buffer_free_list (Rnode b))) (\<lambda>links.
             seqM (modM (\<lambda>s. s\<lparr>fs_links := links\<rparr>))
             (bindM (getM fs_waiters) (\<lambda>ws. assertM (ws = [])))))))))))) "

definition buffer_init :: "('w fs_t, unit) op" where
  "buffer_init = modM (\<lambda>s. s\<lparr>fs_links := foldl (\<lambda>h i. list_init h (hash_list i))
       (list_init (fs_links s) buffer_free_list) [0..<31], fs_waiters := [],
     fs_bufs := [], fs_buf_ptr := KERNEL_BUFFER_MEM, fs_buf_data := KERNEL_BUFFER_MEM + KERNEL_BUFFER_SIZE - BLOCK_SIZE\<rparr>)"

lemma popback_unblock_fails:
  "dll h l (xs @ [n]) \<Longrightarrow> \<exists>h'. list_popback h l = Inr (h', n) \<and> list_remove h' n = Inl Assert_Failed"
  by (drule list_popback_dll) (elim exE conjE, intro exI conjI, assumption, rule list_remove_detached)

end
