(* ===== verification/Ylos_Bmap.thy ===== *)
theory Ylos_Bmap
  imports Ylos_Buffer
begin

text \<open>
  fs/bmap.c: allocation of blocks and inodes in the bitmaps of the super block, and the map
  from the blocks of a file to the blocks of its device; with the lookup of super blocks
  (\<open>get_super\<close> of fs/super.c), which it uses.
\<close>

section \<open>Super blocks\<close>

definition SUPER_NR :: nat where "SUPER_NR = 16"

fun find_super :: "super_block_t list \<Rightarrow> u32 \<Rightarrow> nat \<Rightarrow> nat option" where
  "find_super [] dev i = None"
| "find_super (sb # sbs) dev i = (if sb_dev sb = dev then Some i else find_super sbs dev (Suc i))"

definition get_free_super :: "('w fs_t, nat) op" where
  "get_free_super = bindM (getM fs_supers) (\<lambda>sbs.
     case find_super sbs EOF 0 of None \<Rightarrow> failM Kernel_Panic | Some i \<Rightarrow> ret i)"

definition get_super :: "u32 \<Rightarrow> ('w fs_t, nat option) op" where
  "get_super dev = bindM (getM fs_supers) (\<lambda>sbs. ret (find_super sbs dev 0))"

text \<open>\<open>get_super\<close> followed by \<open>assert(sb)\<close>.\<close>

definition the_super :: "u32 \<Rightarrow> ('w fs_t, nat) op" where
  "the_super dev = bindM (get_super dev) (\<lambda>r. case r of None \<Rightarrow> failM Assert_Failed | Some sb \<Rightarrow> ret sb)"

section \<open>Allocation\<close>

text \<open>The buffer of a bitmap, \<open>assert(buf)\<close> included.\<close>

definition map_buf :: "nat option list \<Rightarrow> nat \<Rightarrow> ('w fs_t, nat) op" where
  "map_buf maps i = bindM (liftM (load_at maps i)) (\<lambda>b.
     case b of None \<Rightarrow> failM Assert_Failed | Some b \<Rightarrow> ret b)"

text \<open>\<open>bitmap_scan(&map, 1)\<close> on a map over the bytes of the buffer \<open>b\<close>.\<close>

definition scan_map :: "nat \<Rightarrow> u32 \<Rightarrow> u32 \<Rightarrow> ('w fs_t, u32) op" where
  "scan_map b len off =
     bindM (buf_at b) (\<lambda>x.
     bindM (liftM (bitmap_scan (bitmap_make (b_data x) len off) 1)) (\<lambda>(bm, bit).
     seqM (upd_buf b (\<lambda>x. x\<lparr>b_data := bm_bits bm\<rparr>)) (ret bit)))"

definition clear_map :: "nat \<Rightarrow> u32 \<Rightarrow> u32 \<Rightarrow> u32 \<Rightarrow> ('w fs_t, unit) op" where
  "clear_map b len off idx =
     bindM (buf_at b) (\<lambda>x. let map = bitmap_make (b_data x) len off in
     bindM (liftM (bitmap_test map idx)) (\<lambda>used.
     seqM (assertM used)
     (bindM (liftM (bitmap_set map idx False)) (\<lambda>bm. upd_buf b (\<lambda>x. x\<lparr>b_data := bm_bits bm\<rparr>)))))"

text \<open>
  The loops over the bitmap blocks; \<open>len\<close> is the length in bytes the code gives to
  \<open>bitmap_make\<close>, \<open>base\<close> the number of the first bit of block 0, \<open>buf\<close> the last block visited.
\<close>

fun alloc_loop :: "nat option list \<Rightarrow> u32 \<Rightarrow> u32 \<Rightarrow> u16 \<Rightarrow> nat \<Rightarrow> nat \<Rightarrow> nat option \<Rightarrow> ('w fs_t, u32 \<times> nat option) op" where
  "alloc_loop maps len base zones 0 i buf = ret (EOF, buf)"
| "alloc_loop maps len base zones (Suc n) i buf =
     bindM (map_buf maps i) (\<lambda>b.
     bindM (scan_map b len (of_nat i * BLOCK_BITS + base)) (\<lambda>bit.
     if bit = EOF then alloc_loop maps len base zones n (Suc i) (Some b)
     else seqM (assertM (bit < ucast zones)) (seqM (set_dirty b) (ret (bit, Some b)))))"

definition bwrite_opt :: "nat option \<Rightarrow> ('w fs_t, unit) op" where
  "bwrite_opt b = (case b of None \<Rightarrow> failM Assert_Failed | Some b \<Rightarrow> bwrite b)"

definition balloc :: "u32 \<Rightarrow> ('w fs_t, u32) op" where
  "balloc dev =
     bindM (the_super dev) (\<lambda>i. bindM (super_at i) (\<lambda>sb.
     bindM (super16 i 8) (\<lambda>first. bindM (super16 i 2) (\<lambda>zones.
     bindM (alloc_loop (sb_zmaps sb) BLOCK_SIZE (ucast first - 1) zones ZMAP_NR 0 None) (\<lambda>(bit, buf).
     seqM (bwrite_opt buf) (ret bit))))))"

definition ialloc :: "u32 \<Rightarrow> ('w fs_t, u32) op" where
  "ialloc dev =
     bindM (the_super dev) (\<lambda>i. bindM (super_at i) (\<lambda>sb. bindM (super16 i 2) (\<lambda>zones.
     bindM (alloc_loop (sb_imaps sb) BLOCK_BITS 0 zones IMAP_NR 0 None) (\<lambda>(bit, buf).
     seqM (bwrite_opt buf) (ret bit)))))"

text \<open>The loops of \<open>bfree\<close> and \<open>ifree\<close>: past the last block \<open>buf\<close> is uninitialised.\<close>

fun free_loop :: "nat option list \<Rightarrow> u32 \<Rightarrow> u32 \<Rightarrow> u32 \<Rightarrow> nat \<Rightarrow> nat \<Rightarrow> ('w fs_t, nat) op" where
  "free_loop maps len base idx 0 i = failM Bad_Access"
| "free_loop maps len base idx (Suc n) i =
     (if BLOCK_BITS * (of_nat i + 1) < idx then free_loop maps len base idx n (Suc i)
      else bindM (map_buf maps i) (\<lambda>b.
           seqM (clear_map b len (of_nat i * BLOCK_BITS + base) idx) (seqM (set_dirty b) (ret b))))"

definition bfree :: "u32 \<Rightarrow> u32 \<Rightarrow> ('w fs_t, unit) op" where
  "bfree dev idx =
     bindM (the_super dev) (\<lambda>i. bindM (super_at i) (\<lambda>sb. bindM (super16 i 2) (\<lambda>zones.
     seqM (assertM (idx < ucast zones))
     (bindM (super16 i 8) (\<lambda>first.
      bindM (free_loop (sb_zmaps sb) BLOCK_SIZE (ucast first - 1) idx ZMAP_NR 0) bwrite)))))"

definition ifree :: "u32 \<Rightarrow> u32 \<Rightarrow> ('w fs_t, unit) op" where
  "ifree dev idx =
     bindM (the_super dev) (\<lambda>i. bindM (super_at i) (\<lambda>sb. bindM (super16 i 2) (\<lambda>zones.
     seqM (assertM (idx < ucast zones))
     (bindM (free_loop (sb_imaps sb) BLOCK_BITS 0 idx IMAP_NR 0) bwrite))))"

section \<open>The block map of a file\<close>

text \<open>
  Where the walk starts: level, index into \<open>zone\<close>, what is left of the block number, and the
  number of blocks below one entry.
\<close>

definition bmap_start :: "u32 \<Rightarrow> nat \<times> u32 \<times> u32 \<times> u32" where
  "bmap_start block =
     (if block < DIRECT_BLOCK then (0, block, block, 1)
      else if block - DIRECT_BLOCK < INDIRECT1_BLOCK then (1, DIRECT_BLOCK, block - DIRECT_BLOCK, 1)
      else (2, DIRECT_BLOCK + 1, block - DIRECT_BLOCK - INDIRECT1_BLOCK, BLOCK_INDEXES))"

text \<open>The loop from \<open>level\<close> down to 0; the array is at offset \<open>base\<close> of buffer \<open>buf\<close>.\<close>

fun bmap_walk :: "u32 \<Rightarrow> bool \<Rightarrow> nat \<Rightarrow> nat \<Rightarrow> nat \<Rightarrow> u32 \<Rightarrow> u32 \<Rightarrow> u32 \<Rightarrow> ('w fs_t, u32) op" where
  "bmap_walk dev create level buf base index block divider =
     (let slot = base + 2 * unat index
      in bindM (load16 buf slot) (\<lambda>v.
         seqM (whenM (v = 0 \<and> create)
                 (bindM (balloc dev) (\<lambda>nr. seqM (store16 buf slot (ucast nr)) (set_dirty buf))))
         (seqM (brelse (Some buf))
         (bindM (load16 buf slot) (\<lambda>v.
          case level of
            0 \<Rightarrow> ret (ucast v)
          | Suc l \<Rightarrow>
              if v = 0 then ret 0
              else bindM (bread dev (ucast v)) (\<lambda>buf.
                   bmap_walk dev create l buf 0 (block div divider) (block mod divider) (divider div BLOCK_INDEXES)))))))"

definition bmap :: "nat \<Rightarrow> u32 \<Rightarrow> bool \<Rightarrow> ('w fs_t, u32) op" where
  "bmap i block create =
     seqM (assertM (block < TOTAL_BLOCK))
     (bindM (inode_at i) (\<lambda>x.
      seqM (upd_buf (i_buf x) (\<lambda>b. b\<lparr>b_count := b_count b + 1\<rparr>))
      (let (level, index, block, divider) = bmap_start block
       in bmap_walk (i_dev x) create level (i_buf x) (i_desc x + 14) index block divider)))"

end
