(* ===== verification/Ylos_Inode.thy ===== *)
theory Ylos_Inode
  imports Ylos_Bmap
begin

text \<open>
  fs/inode.c: the table of inodes in memory, reading and writing of files through the block
  map, and the release of the blocks of a file.  \<open>time()\<close> is the field \<open>fs_now\<close>.
\<close>

section \<open>The inode table\<close>

definition INODE_NR :: nat where "INODE_NR = 64"

fun find_free_inode :: "inode_t list \<Rightarrow> nat \<Rightarrow> nat option" where
  "find_free_inode [] i = None"
| "find_free_inode (x # xs) i = (if i_dev x = EOF then Some i else find_free_inode xs (Suc i))"

definition get_free_inode :: "('w fs_t, nat) op" where
  "get_free_inode = bindM (getM fs_inodes) (\<lambda>xs.
     case find_free_inode xs 0 of None \<Rightarrow> failM Kernel_Panic | Some i \<Rightarrow> ret i)"

definition put_free_inode :: "nat \<Rightarrow> ('w fs_t, unit) op" where
  "put_free_inode i =
     seqM (assertM (i \<noteq> 0))
     (bindM (inode_at i) (\<lambda>x. seqM (assertM (i_count x = 0)) (upd_inode i (\<lambda>x. x\<lparr>i_dev := EOF\<rparr>))))"

definition get_root_inode :: nat where "get_root_inode = 0"

definition FIFO_T_SIZE :: u32 where "FIFO_T_SIZE = 16"

definition get_pipe_inode :: "('w fs_t, nat) op" where
  "get_pipe_inode =
     bindM get_free_inode (\<lambda>i.
     seqM (upd_inode i (\<lambda>x. x\<lparr>i_dev := - 2\<rparr>))
     (bindM (getM fs_heap) (\<lambda>h.
      bindM (liftM (kmalloc h FIFO_T_SIZE)) (\<lambda>(h, ring).
      bindM (liftM (alloc_kpage (h_mem h) 1)) (\<lambda>(mem, page).
      seqM (modM (\<lambda>s. s\<lparr>fs_heap := h\<lparr>h_mem := mem\<rparr>\<rparr>))
      (seqM (upd_inode i (\<lambda>x. x\<lparr>i_ring := ring, i_page := page, i_count := 2, i_pipe := True,
               i_fifo := fifo_init (replicate 4096 0) PAGE_SIZE\<rparr>))
        (ret i)))))))"

definition put_pipe_inode :: "nat \<Rightarrow> ('w fs_t, unit) op" where
  "put_pipe_inode i =
     seqM (upd_inode i (\<lambda>x. x\<lparr>i_count := i_count x - 1\<rparr>))
     (bindM (inode_at i) (\<lambda>x.
      if i_count x \<noteq> 0 then ret ()
      else seqM (upd_inode i (\<lambda>x. x\<lparr>i_pipe := False\<rparr>))
           (bindM (getM fs_heap) (\<lambda>h.
            bindM (liftM (kfree h (i_ring x))) (\<lambda>h.
            bindM (liftM (free_kpage (h_mem h) (i_page x) 1)) (\<lambda>mem.
            seqM (modM (\<lambda>s. s\<lparr>fs_heap := h\<lparr>h_mem := mem\<rparr>\<rparr>)) (put_free_inode i)))))))"

definition inode_block :: "nat \<Rightarrow> u32 \<Rightarrow> ('w fs_t, u32) op" where
  "inode_block sb nr =
     bindM (super16 sb 4) (\<lambda>im. bindM (super16 sb 6) (\<lambda>zm.
     ret (2 + ucast im + ucast zm + (nr - 1) div BLOCK_INODES)))"

partial_function (option) inode_loop ::
    "fnode links \<Rightarrow> inode_t list \<Rightarrow> fnode \<Rightarrow> u32 \<Rightarrow> fnode option \<Rightarrow> nat option result option" where
  "inode_loop h xs tail nr node =
     (if node = Some tail then Some (Inr None)
      else case node of
             Some (Inode_Node i) \<Rightarrow>
               (if i < length xs \<and> i_nr (xs ! i) = nr then Some (Inr (Some i))
                else inode_loop h xs tail nr (l_next h (Inode_Node i)))
           | _ \<Rightarrow> Some (Inl Bad_Access))"

definition find_inode :: "u32 \<Rightarrow> u32 \<Rightarrow> ('w fs_t, nat option) op" where
  "find_inode dev nr =
     bindM (the_super dev) (\<lambda>sb. bindM (getM id) (\<lambda>s.
     liftM (returned (inode_loop (fs_links s) (fs_inodes s) (Inodes_Tail sb) nr (l_next (fs_links s) (Inodes_Head sb))))))"

definition iput :: "nat option \<Rightarrow> ('w fs_t, unit) op" where
  "iput i = (case i of None \<Rightarrow> ret () | Some i \<Rightarrow>
     bindM (inode_at i) (\<lambda>x.
     if i_pipe x then put_pipe_inode i
     else seqM (bwrite (i_buf x))
          (seqM (upd_inode i (\<lambda>x. x\<lparr>i_count := i_count x - 1\<rparr>))
          (if i_count x - 1 \<noteq> 0 then ret ()
           else seqM (brelse (Some (i_buf x)))
                (bindM (getM fs_links) (\<lambda>h.
                 bindM (liftM (list_remove h (Inode_Node i))) (\<lambda>links.
                 seqM (modM (\<lambda>s. s\<lparr>fs_links := links\<rparr>)) (put_free_inode i))))))))"

definition fit_inode :: "nat \<Rightarrow> ('w fs_t, nat) op" where
  "fit_inode i =
     bindM (inode_at i) (\<lambda>x.
     if i_mount x = 0 then ret i
     else bindM (the_super (i_mount x)) (\<lambda>sb.
          seqM (iput (Some i))
          (bindM (super_at sb) (\<lambda>sb.
           bindM (liftM (deref (sb_iroot sb))) (\<lambda>r.
           seqM (upd_inode r (\<lambda>x. x\<lparr>i_count := i_count x + 1\<rparr>)) (ret r))))))"

definition iget :: "u32 \<Rightarrow> u32 \<Rightarrow> ('w fs_t, nat) op" where
  "iget dev nr =
     bindM (find_inode dev nr) (\<lambda>r. case r of
       Some i \<Rightarrow> bindM (getM fs_now) (\<lambda>t.
                 seqM (upd_inode i (\<lambda>x. x\<lparr>i_count := i_count x + 1, i_atime := t\<rparr>)) (fit_inode i))
     | None \<Rightarrow>
         bindM (the_super dev) (\<lambda>sb.
         bindM (super16 sb 0) (\<lambda>inodes.
         seqM (assertM (nr \<le> ucast inodes))
         (bindM get_free_inode (\<lambda>i.
          seqM (upd_inode i (\<lambda>x. x\<lparr>i_dev := dev, i_nr := nr, i_count := i_count x + 1\<rparr>))
          (bindM (getM fs_links) (\<lambda>h.
           bindM (liftM (list_push h (inode_list sb) (Inode_Node i))) (\<lambda>links.
           seqM (modM (\<lambda>s. s\<lparr>fs_links := links\<rparr>))
           (bindM (inode_block sb nr) (\<lambda>block.
            bindM (bread dev block) (\<lambda>b.
            seqM (upd_inode i (\<lambda>x. x\<lparr>i_buf := b, i_desc := unat ((nr - 1) mod BLOCK_INODES) * INODE_DESC_SIZE\<rparr>))
            (bindM (desc32 i 8) (\<lambda>mtime. bindM (getM fs_now) (\<lambda>t.
             seqM (upd_inode i (\<lambda>x. x\<lparr>i_ctime := mtime, i_atime := t\<rparr>)) (ret i)))))))))))))))"

definition new_inode :: "u32 \<Rightarrow> u32 \<Rightarrow> ('w fs_t, nat) op" where
  "new_inode dev nr =
     bindM (getM fs_task) (\<lambda>task. bindM (getM fs_now) (\<lambda>t.
     bindM (iget dev nr) (\<lambda>i.
     seqM (inode_dirty i)
     (seqM (set_imode i (0x1ff AND NOT (t_umask task)))
     (seqM (set_desc16 i 2 (ucast (t_uid task)))
     (seqM (set_isize i 0)
     (seqM (upd_inode i (\<lambda>x. x\<lparr>i_atime := t\<rparr>))
     (seqM (set_imtime i t)
     (seqM (set_desc8 i 12 (ucast (t_gid task)))
     (seqM (set_inlinks i 1) (ret i)))))))))))"

definition inode_init :: "('w fs_t, unit) op" where
  "inode_init = modM (\<lambda>s. s\<lparr>fs_inodes := map (\<lambda>x. x\<lparr>i_dev := EOF, i_pipe := False\<rparr>) (fs_inodes s)\<rparr>)"

section \<open>Reading and writing\<close>

text \<open>\<open>offset / BLOCK_SIZE\<close> and \<open>offset % BLOCK_SIZE\<close> on the signed \<open>off_t\<close>.\<close>

definition off_div :: "u32 \<Rightarrow> u32" where
  "off_div off = (if sint off < 0 then word_of_int (- ((- sint off) div 1024)) else off div 1024)"

definition off_mod :: "u32 \<Rightarrow> u32" where
  "off_mod off = off - off_div off * 1024"

text \<open>The loop of \<open>inode_read\<close>; every pass takes at least one byte off \<open>left\<close>, so the bytes
  left are fuel enough.  The value is the bytes put into the caller's buffer.\<close>

fun read_loop :: "nat \<Rightarrow> nat \<Rightarrow> u32 \<Rightarrow> u32 \<Rightarrow> u8 list \<Rightarrow> ('w fs_t, u8 list \<times> u32) op" where
  "read_loop fuel i left offset out =
     (if left = 0 then ret (out, offset)
      else case fuel of 0 \<Rightarrow> failM Diverges | Suc fuel \<Rightarrow>
        bindM (bmap i (off_div offset) False) (\<lambda>nr.
        seqM (assertM (nr \<noteq> 0))
        (bindM (inode_at i) (\<lambda>x.
         bindM (bread (i_dev x) nr) (\<lambda>b.
         bindM (buf_at b) (\<lambda>buf.
           let start = off_mod offset; chars = min (BLOCK_SIZE - start) left
           in bindM (liftM (memcpy (replicate (unat chars) 0) (drop (unat start) (b_data buf)) (unat chars))) (\<lambda>bytes.
              seqM (brelse (Some b)) (read_loop fuel i (left - chars) (offset + chars) (out @ bytes)))))))))"

definition inode_read :: "nat \<Rightarrow> u32 \<Rightarrow> u32 \<Rightarrow> ('w fs_t, u8 list \<times> u32) op" where
  "inode_read i len offset =
     bindM (imode i) (\<lambda>mode.
     seqM (assertM (ISFILE mode \<or> ISDIR mode))
     (bindM (isize i) (\<lambda>size'.
      if size' \<le> offset then ret ([], EOF)
      else let left = min len (size' - offset)
           in bindM (read_loop (unat left) i left offset []) (\<lambda>(out, end_off).
              bindM (getM fs_now) (\<lambda>t.
              seqM (upd_inode i (\<lambda>x. x\<lparr>i_atime := t\<rparr>)) (ret (out, end_off - offset)))))))"

fun write_loop :: "nat \<Rightarrow> nat \<Rightarrow> u8 list \<Rightarrow> u32 \<Rightarrow> u32 \<Rightarrow> ('w fs_t, u32) op" where
  "write_loop fuel i data left offset =
     (if left = 0 then ret offset
      else case fuel of 0 \<Rightarrow> failM Diverges | Suc fuel \<Rightarrow>
        bindM (bmap i (off_div offset) True) (\<lambda>nr.
        seqM (assertM (nr \<noteq> 0))
        (bindM (inode_at i) (\<lambda>x.
         bindM (bread (i_dev x) nr) (\<lambda>b.
         seqM (set_dirty b)
         (let start = off_mod offset; chars = min (BLOCK_SIZE - start) left; offset = offset + chars
          in bindM (isize i) (\<lambda>size'.
             seqM (whenM (size' < offset) (seqM (set_isize i offset) (inode_dirty i)))
             (bindM (buf_at b) (\<lambda>buf.
              bindM (liftM (memcpy (drop (unat start) (b_data buf)) data (unat chars))) (\<lambda>bytes.
              seqM (upd_buf b (\<lambda>x. x\<lparr>b_data := take (unat start) (b_data buf) @ bytes\<rparr>))
              (seqM (brelse (Some b)) (write_loop fuel i (drop (unat chars) data) (left - chars) offset))))))))))))"

definition inode_write :: "nat \<Rightarrow> u8 list \<Rightarrow> u32 \<Rightarrow> u32 \<Rightarrow> ('w fs_t, u32) op" where
  "inode_write i data len offset =
     bindM (imode i) (\<lambda>mode.
     seqM (assertM (ISFILE mode))
     (bindM (write_loop (unat len) i data len offset) (\<lambda>end_off.
      bindM (getM fs_now) (\<lambda>t.
      seqM (upd_inode i (\<lambda>x. x\<lparr>i_atime := t\<rparr>))
      (seqM (set_imtime i t)
      (bindM (inode_at i) (\<lambda>x.
       seqM (bwrite (i_buf x)) (ret (end_off - offset)))))))))"

section \<open>Truncation\<close>

text \<open>\<open>inode_bfree\<close> on the array at offset \<open>base\<close> of buffer \<open>b\<close>, and its loop over a block of
  indices.\<close>

fun inode_bfree :: "nat \<Rightarrow> nat \<Rightarrow> nat \<Rightarrow> nat \<Rightarrow> nat \<Rightarrow> ('w fs_t, unit) op"
and bfree_entries :: "nat \<Rightarrow> nat \<Rightarrow> nat \<Rightarrow> nat \<Rightarrow> nat \<Rightarrow> ('w fs_t, unit) op" where
  "inode_bfree i 0 b base index =
     bindM (load16 b (base + 2 * index)) (\<lambda>v.
     if v = 0 then ret () else bindM (inode_at i) (\<lambda>x. bfree (i_dev x) (ucast v)))"
| "inode_bfree i (Suc level) b base index =
     bindM (load16 b (base + 2 * index)) (\<lambda>v.
     if v = 0 then ret ()
     else bindM (inode_at i) (\<lambda>x.
          bindM (bread (i_dev x) (ucast v)) (\<lambda>b'.
          seqM (bfree_entries i level b' 0 512)
          (seqM (brelse (Some b'))
          (bindM (load16 b (base + 2 * index)) (\<lambda>v. bfree (i_dev x) (ucast v)))))))"
| "bfree_entries i level b k 0 = ret ()"
| "bfree_entries i level b k (Suc n) = seqM (inode_bfree i level b 0 k) (bfree_entries i level b (Suc k) n)"

fun truncate_direct :: "nat \<Rightarrow> nat \<Rightarrow> nat \<Rightarrow> ('w fs_t, unit) op" where
  "truncate_direct i k 0 = ret ()"
| "truncate_direct i k (Suc n) =
     bindM (inode_at i) (\<lambda>x.
     seqM (inode_bfree i 0 (i_buf x) (i_desc x + 14) k)
     (seqM (set_izone i k 0) (truncate_direct i (Suc k) n)))"

definition inode_truncate :: "nat \<Rightarrow> ('w fs_t, unit) op" where
  "inode_truncate i =
     bindM (imode i) (\<lambda>mode.
     if \<not> ISFILE mode \<and> \<not> ISDIR mode then ret ()
     else bindM (inode_at i) (\<lambda>x.
          seqM (truncate_direct i 0 7)
          (seqM (inode_bfree i 1 (i_buf x) (i_desc x + 14) 7)
          (seqM (set_izone i 7 0)
          (seqM (inode_bfree i 2 (i_buf x) (i_desc x + 14) 8)
          (seqM (set_izone i 8 0)
          (seqM (set_isize i 0)
          (seqM (inode_dirty i)
          (bindM (getM fs_now) (\<lambda>t.
           seqM (set_imtime i t) (bwrite (i_buf x))))))))))))"

end
