(* ===== verification/Ylos_Namei.thy ===== *)
theory Ylos_Namei
  imports Ylos_Inode
begin

text \<open>
  fs/namei.c: permissions, directory entries, path resolution and the system calls on names.
  A \<open>char *\<close> into a path is the list of the bytes from there on; two pointers into one path are
  equal when equally many bytes are left.  A directory entry is a buffer and the offset of
  its 16 bytes there: the inode number, then the name.
\<close>

section \<open>Permissions and names\<close>

definition permission :: "nat \<Rightarrow> u16 \<Rightarrow> ('w fs_t, bool) op" where
  "permission i msk =
     bindM (imode i) (\<lambda>mode. bindM (inlinks i) (\<lambda>nlinks.
     if nlinks = 0 then ret False
     else bindM (getM fs_task) (\<lambda>task.
          if t_uid task = KERNEL_USER then ret True
          else bindM (iuid i) (\<lambda>uid. bindM (desc8 i 12) (\<lambda>gid.
               let mode = (if t_uid task = ucast uid then drop_bit 6 mode
                           else if t_gid task = ucast gid then drop_bit 3 mode else mode)
               in ret (mode AND msk AND 7 = msk))))))"

fun match_loop :: "u8 list \<Rightarrow> u8 list \<Rightarrow> (u8 list \<times> u8 list) result" where
  "match_loop (l # lhs) (r # rhs) =
     (if l = r \<and> l \<noteq> EOS \<and> r \<noteq> EOS then match_loop lhs rhs else Inr (l # lhs, r # rhs))"
| "match_loop [] rhs = Inl Bad_Access"
| "match_loop lhs [] = Inl Bad_Access"

text \<open>The value is \<open>*next\<close> when the names match.\<close>

definition match_name :: "u8 list \<Rightarrow> u8 list \<Rightarrow> u8 list option result" where
  "match_name name entry_name =
     bindr (match_loop name entry_name) (\<lambda>(lhs, rhs).
       if hd rhs \<noteq> 0 then Inr None
       else if hd lhs \<noteq> 0 \<and> \<not> IS_SEPARATOR (hd lhs) then Inr None
       else Inr (Some (if IS_SEPARATOR (hd lhs) then tl lhs else lhs)))"

definition dot :: "u8 list" where "dot = [0x2e, 0]"
definition dotdot :: "u8 list" where "dotdot = [0x2e, 0x2e, 0]"

section \<open>Directory entries\<close>

text \<open>
  The loop of \<open>find_entry\<close>: \<open>n\<close> entries are left, \<open>i\<close> is the next one, \<open>buf\<close> and \<open>off\<close> are the
  buffer and the entry in it; \<open>next\<close> is handed back as it was when nothing matches.
\<close>

fun find_loop :: "nat \<Rightarrow> u8 list \<Rightarrow> u8 list \<Rightarrow> nat \<Rightarrow> u32 \<Rightarrow> nat option \<Rightarrow> nat \<Rightarrow>
     ('w fs_t, (nat \<times> nat) option \<times> u8 list) op" where
  "find_loop dir name next 0 i buf off = seqM (brelse buf) (ret (None, next))"
| "find_loop dir name next (Suc n) i buf off =
     bindM (if buf = None \<or> 1024 \<le> off
            then seqM (brelse buf)
                 (bindM (bmap dir (i div BLOCK_DENTRIES) False) (\<lambda>block.
                  seqM (assertM (block \<noteq> 0))
                  (bindM (inode_at dir) (\<lambda>x. bindM (bread (i_dev x) block) (\<lambda>b. ret (b, 0))))))
            else ret (the buf, off)) (\<lambda>(b, off).
     bindM (buf_at b) (\<lambda>x.
     bindM (liftM (match_name name (drop (off + 2) (b_data x)))) (\<lambda>m.
     bindM (load16 b off) (\<lambda>nr.
       let next = (case m of None \<Rightarrow> next | Some r \<Rightarrow> r)
       in if m \<noteq> None \<and> nr \<noteq> 0 then ret (Some (b, off), next)
          else find_loop dir name next n (i + 1) (Some b) (off + 16)))))"

text \<open>\<open>find_entry\<close> yields the new \<open>*dir\<close>, the entry if there is one, and \<open>*next\<close>.\<close>

definition find_entry :: "nat \<Rightarrow> u8 list \<Rightarrow> u8 list \<Rightarrow> ('w fs_t, nat \<times> (nat \<times> nat) option \<times> u8 list) op" where
  "find_entry dir name next =
     bindM (imode dir) (\<lambda>mode.
     seqM (assertM (ISDIR mode))
     (bindM (liftM (match_name name dotdot)) (\<lambda>m.
      bindM (inode_at dir) (\<lambda>x.
        let next = (case m of None \<Rightarrow> next | Some r \<Rightarrow> r)
        in bindM (if m \<noteq> None \<and> i_nr x = 1
                  then bindM (get_super (i_dev x)) (\<lambda>sb.
                       bindM (liftM (deref sb)) (\<lambda>sb. bindM (super_at sb) (\<lambda>sb.
                       bindM (liftM (deref (sb_imount sb))) (\<lambda>m.
                       seqM (upd_inode m (\<lambda>x. x\<lparr>i_count := i_count x + 1\<rparr>))
                       (seqM (iput (Some dir)) (ret m))))))
                  else ret dir) (\<lambda>dir.
           bindM (isize dir) (\<lambda>size'.
           bindM (find_loop dir name next (unat (size' div DENTRY_SIZE)) 0 None 0) (\<lambda>(r, next).
             ret (dir, r, next))))))))"

text \<open>The name must hold no separator within its first 14 characters.\<close>

fun no_separator :: "nat \<Rightarrow> u8 list \<Rightarrow> bool result" where
  "no_separator 0 name = Inr True"
| "no_separator (Suc n) [] = Inl Bad_Access"
| "no_separator (Suc n) (c # name) =
     (if c = 0 then Inr True else if IS_SEPARATOR c then Inr False else no_separator n name)"

text \<open>The endless loop of \<open>add_entry\<close>; behind the last entry it always finds room, so the
  number of entries and one is fuel enough.\<close>

fun add_loop :: "nat \<Rightarrow> nat \<Rightarrow> u8 list \<Rightarrow> u32 \<Rightarrow> nat option \<Rightarrow> nat \<Rightarrow> ('w fs_t, nat \<times> nat) op" where
  "add_loop 0 dir name i buf off = failM Diverges"
| "add_loop (Suc fuel) dir name i buf off =
     bindM (if buf = None \<or> 1024 \<le> off
            then seqM (brelse buf)
                 (bindM (bmap dir (i div BLOCK_DENTRIES) True) (\<lambda>block.
                  seqM (assertM (block \<noteq> 0))
                  (bindM (inode_at dir) (\<lambda>x. bindM (bread (i_dev x) block) (\<lambda>b. ret (b, 0))))))
            else ret (the buf, off)) (\<lambda>(b, off).
     bindM (isize dir) (\<lambda>size'.
     seqM (whenM (size' \<le> i * DENTRY_SIZE)
             (seqM (store16 b off 0) (seqM (set_isize dir ((i + 1) * DENTRY_SIZE)) (inode_dirty dir))))
     (bindM (load16 b off) (\<lambda>nr.
      if nr \<noteq> 0 then add_loop fuel dir name (i + 1) (Some b) (off + 16)
      else bindM (buf_at b) (\<lambda>x.
           bindM (liftM (strncpy (drop (off + 2) (b_data x)) name NAME_LEN)) (\<lambda>bytes.
           seqM (upd_buf b (\<lambda>x. x\<lparr>b_data := take (off + 2) (b_data x) @ bytes, b_dirty := True\<rparr>))
           (bindM (getM fs_now) (\<lambda>t.
            seqM (set_imtime dir t) (seqM (inode_dirty dir) (ret (b, off)))))))))))"

definition add_entry :: "nat \<Rightarrow> u8 list \<Rightarrow> ('w fs_t, nat \<times> nat) op" where
  "add_entry dir name =
     bindM (find_entry dir name []) (\<lambda>(dir, r, next). case r of
       Some e \<Rightarrow> ret e
     | None \<Rightarrow>
         bindM (liftM (no_separator 14 name)) (\<lambda>ok.
         seqM (assertM ok)
         (bindM (isize dir) (\<lambda>size'. add_loop (unat (size' div DENTRY_SIZE) + 2) dir name 0 None 0))))"

section \<open>Path resolution\<close>

definition enter :: "nat \<Rightarrow> nat \<Rightarrow> nat \<Rightarrow> ('w fs_t, nat \<times> bool) op" where
  "enter inode b off =
     bindM (inode_at inode) (\<lambda>x.
     seqM (iput (Some inode))
     (bindM (load16 b off) (\<lambda>nr.
      bindM (iget (i_dev x) (ucast nr)) (\<lambda>inode.
      bindM (imode inode) (\<lambda>mode.
      if \<not> ISDIR mode then ret (inode, False)
      else bindM (permission inode P_EXEC) (\<lambda>ok. ret (inode, ok)))))))"

text \<open>The loop of \<open>named\<close>.  \<open>right\<close> is the number of bytes from the last component on.\<close>

partial_function (option) named_loop ::
    "nat \<Rightarrow> u8 list \<Rightarrow> nat \<Rightarrow> nat option \<Rightarrow> 'w fs_t \<Rightarrow> ((nat option \<times> u8 list) \<times> 'w fs_t) result option" where
  "named_loop inode left right buf s =
     (case seqM (brelse buf) (find_entry inode left left) s of
        Inl e \<Rightarrow> Some (Inl e)
      | Inr ((inode, r, next), s) \<Rightarrow>
          (case r of
             None \<Rightarrow> Some (seqM (iput (Some inode)) (ret (None, next)) s)
           | Some (b, off) \<Rightarrow>
               (case enter inode b off s of
                  Inl e \<Rightarrow> Some (Inl e)
                | Inr ((inode, ok), s) \<Rightarrow>
                    if \<not> ok then Some (seqM (brelse (Some b)) (seqM (iput (Some inode)) (ret (None, next))) s)
                    else if right = length next then Some (seqM (brelse (Some b)) (ret (Some inode, next)) s)
                    else named_loop inode next right (Some b) s)))"

definition named :: "u8 list \<Rightarrow> ('w fs_t, nat option \<times> u8 list) op" where
  "named pathname =
     bindM (getM fs_task) (\<lambda>task.
     bindM (liftM (load_at pathname 0)) (\<lambda>c.
     if \<not> IS_SEPARATOR c \<and> c = 0 then ret (None, pathname)
     else let inode = (if IS_SEPARATOR c then t_iroot task else t_ipwd task);
              left = (if IS_SEPARATOR c then tl pathname else pathname)
          in seqM (upd_inode inode (\<lambda>x. x\<lparr>i_count := i_count x + 1\<rparr>))
             (bindM (liftM (load_at left 0)) (\<lambda>d.
              if d = 0 then ret (Some inode, left)
              else bindM (liftM (strrsep left)) (\<lambda>r. case r of
                     None \<Rightarrow> ret (Some inode, left)
                   | Some k \<Rightarrow> (\<lambda>s. returned (named_loop inode left (length left - k - 1) None s)))))))"

definition namei :: "u8 list \<Rightarrow> ('w fs_t, nat option) op" where
  "namei pathname =
     bindM (named pathname) (\<lambda>(dir, next). case dir of
       None \<Rightarrow> ret None
     | Some dir \<Rightarrow>
         bindM (liftM (load_at next 0)) (\<lambda>c.
         if c = 0 then ret (Some dir)
         else bindM (find_entry dir next next) (\<lambda>(dir, r, _). case r of
                None \<Rightarrow> seqM (iput (Some dir)) (ret None)
              | Some (b, off) \<Rightarrow>
                  bindM (inode_at dir) (\<lambda>x. bindM (load16 b off) (\<lambda>nr.
                  bindM (iget (i_dev x) (ucast nr)) (\<lambda>inode.
                  seqM (iput (Some dir)) (seqM (brelse (Some b)) (ret (Some inode)))))))))"

end
