(* ===== verification/Ylos_Dirs.thy ===== *)
theory Ylos_Dirs
  imports Ylos_Namei
begin

text \<open>
  fs/namei.c, second part: the system calls that change directories, opening by name, and the
  current directory.  Each follows the code's order of checks; \<open>rollback\<close> is the common exit.
\<close>

section \<open>Making and removing directories\<close>

text \<open>The exit of most calls: \<open>brelse(buf); iput(inode); iput(dir)\<close>; NULL is \<open>None\<close>.\<close>

definition release :: "nat option \<Rightarrow> nat option \<Rightarrow> nat option \<Rightarrow> ('w fs_t, unit) op" where
  "release buf inode dir = do_all [brelse buf, iput inode, iput dir]"

text \<open>The common start: the parent directory, a name that is not empty, and write permission.\<close>

definition parent_for_write :: "u8 list \<Rightarrow> 'a \<Rightarrow> (nat \<Rightarrow> u8 list \<Rightarrow> ('w fs_t, 'a) op) \<Rightarrow> ('w fs_t, 'a) op" where
  "parent_for_write pathname failure k =
     bindM (named pathname) (\<lambda>(dir, next). case dir of
       None \<Rightarrow> ret failure
     | Some dir \<Rightarrow>
         bindM (liftM (load_at next 0)) (\<lambda>c.
         if c = 0 then seqM (iput (Some dir)) (ret failure)
         else bindM (permission dir P_WRITE) (\<lambda>ok.
              if \<not> ok then seqM (iput (Some dir)) (ret failure) else k dir next)))"

definition write_dentry :: "nat \<Rightarrow> nat \<Rightarrow> u8 list \<Rightarrow> u16 \<Rightarrow> ('w fs_t, unit) op" where
  "write_dentry b off name nr =
     seqM (bindM (buf_at b) (\<lambda>x. bindM (liftM (strcpy (drop (off + 2) (b_data x)) name)) (\<lambda>bytes.
           upd_buf b (\<lambda>x. x\<lparr>b_data := take (off + 2) (b_data x) @ bytes\<rparr>))))
       (store16 b off nr)"

definition sys_mkdir :: "u8 list \<Rightarrow> u32 \<Rightarrow> ('w fs_t, u32) op" where
  "sys_mkdir pathname mode =
     parent_for_write pathname EOF (\<lambda>dir name.
       bindM (find_entry dir name name) (\<lambda>(dir, r, next). case r of
         Some (b, _) \<Rightarrow> seqM (release (Some b) None (Some dir)) (ret EOF)
       | None \<Rightarrow>
           bindM (add_entry dir name) (\<lambda>(b, off).
           bindM (inode_at dir) (\<lambda>d.
           bindM (ialloc (i_dev d)) (\<lambda>nr.
           bindM (getM fs_task) (\<lambda>task.
           bindM (seqM (do_all [set_dirty b, store16 b off (ucast nr)]) (load16 b off)) (\<lambda>nr.
           bindM (new_inode (i_dev d) (ucast nr)) (\<lambda>i.
           bindM (seqM (do_all [set_imode i ((ucast mode AND 0x1ff AND NOT (t_umask task)) OR IFDIR),
                          set_isize i 32, set_inlinks i 2, inode_dirty dir]) (inlinks dir)) (\<lambda>links.
           bindM (seqM (set_inlinks dir (links + 1)) (bmap i 0 True)) (\<lambda>block.
           bindM (inode_at i) (\<lambda>x. bindM (inode_at dir) (\<lambda>d.
           bindM (bread (i_dev x) block) (\<lambda>z.
             seqM (do_all [set_dirty z, write_dentry z 0 dot (ucast (i_nr x)), write_dentry z 16 dotdot (ucast (i_nr d)),
                     iput (Some i), iput (Some dir), brelse (Some b), brelse (Some z)])
               (ret 0))))))))))))))"

text \<open>The loop of \<open>is_empty\<close> that counts the entries in use.\<close>

fun count_entries :: "nat \<Rightarrow> nat \<Rightarrow> u32 \<Rightarrow> nat option \<Rightarrow> nat \<Rightarrow> nat \<Rightarrow> ('w fs_t, nat) op" where
  "count_entries dir 0 i buf off count = seqM (brelse buf) (ret count)"
| "count_entries dir (Suc n) i buf off count =
     bindM (if buf = None \<or> 1024 \<le> off
            then seqM (brelse buf)
                 (bindM (bmap dir (i div BLOCK_DENTRIES) False) (\<lambda>block.
                  seqM (assertM (block \<noteq> 0))
                  (bindM (inode_at dir) (\<lambda>x. bindM (bread (i_dev x) block) (\<lambda>b. ret (b, 0))))))
            else ret (the buf, off)) (\<lambda>(b, off).
     bindM (load16 b off) (\<lambda>nr.
       count_entries dir n (i + 1) (Some b) (off + 16) (if nr \<noteq> 0 then Suc count else count)))"

definition is_empty :: "nat \<Rightarrow> ('w fs_t, bool) op" where
  "is_empty i =
     bindM (imode i) (\<lambda>mode.
     seqM (assertM (ISDIR mode))
     (bindM (isize i) (\<lambda>size'. bindM (izone i 0) (\<lambda>z.
       let entries = unat (size' div DENTRY_SIZE)
       in if entries < 2 \<or> z = 0 then ret False
          else bindM (count_entries i entries 0 None 0 0) (\<lambda>count. ret (count = 2))))))"

definition sys_rmdir :: "u8 list \<Rightarrow> ('w fs_t, u32) op" where
  "sys_rmdir pathname =
     parent_for_write pathname EOF (\<lambda>dir name.
       bindM (find_entry dir name name) (\<lambda>(dir, r, next). case r of
         None \<Rightarrow> seqM (release None None (Some dir)) (ret EOF)
       | Some (b, off) \<Rightarrow>
           bindM (inode_at dir) (\<lambda>d. bindM (load16 b off) (\<lambda>nr.
           bindM (iget (i_dev d) (ucast nr)) (\<lambda>i.
           bindM (getM fs_task) (\<lambda>task.
           bindM (imode i) (\<lambda>mode. bindM (imode dir) (\<lambda>dmode. bindM (iuid i) (\<lambda>uid.
           bindM (inode_at i) (\<lambda>x.
             let rollback = seqM (do_all [iput (Some i), iput (Some dir), brelse (Some b)]) (ret EOF)
             in if i = dir \<or> \<not> ISDIR mode then rollback
                else if dmode AND ISVTX \<noteq> 0 \<and> t_uid task \<noteq> ucast uid then rollback
                else if i_dev d \<noteq> i_dev x \<or> 1 < i_count x then rollback
                else bindM (is_empty i) (\<lambda>empty.
                     if \<not> empty then rollback
                     else bindM (inlinks i) (\<lambda>n.
                          seqM (assertM (n = 2))
                          (seqM (inode_truncate i)
                          (seqM (ifree (i_dev x) (i_nr x))
                          (seqM (do_all [set_inlinks i 0, inode_dirty i, upd_inode i (\<lambda>x. x\<lparr>i_nr := 0\<rparr>)])
                          (bindM (inlinks dir) (\<lambda>n. bindM (getM fs_now) (\<lambda>t.
                           seqM (do_all [set_inlinks dir (n - 1), set_imtime dir t,
                                   upd_inode dir (\<lambda>x. x\<lparr>i_atime := t, i_ctime := t\<rparr>), inode_dirty dir,
                                   assertM (0 < n - 1), store16 b off 0, set_dirty b,
                                   iput (Some i), iput (Some dir), brelse (Some b)])
                             (ret 0)))))))))))))))))))"

section \<open>Links\<close>

definition sys_link :: "u8 list \<Rightarrow> u8 list \<Rightarrow> ('w fs_t, u32) op" where
  "sys_link oldname newname =
     bindM (namei oldname) (\<lambda>inode. case inode of
       None \<Rightarrow> ret EOF
     | Some i \<Rightarrow>
         bindM (imode i) (\<lambda>mode.
         if ISDIR mode then seqM (release None (Some i) None) (ret EOF)
         else bindM (named newname) (\<lambda>(dir, name). case dir of
           None \<Rightarrow> seqM (release None (Some i) None) (ret EOF)
         | Some dir \<Rightarrow>
             bindM (liftM (load_at name 0)) (\<lambda>c.
             bindM (inode_at i) (\<lambda>x. bindM (inode_at dir) (\<lambda>d.
             if c = 0 \<or> i_dev d \<noteq> i_dev x then seqM (release None (Some i) (Some dir)) (ret EOF)
             else bindM (permission dir P_WRITE) (\<lambda>ok.
               if \<not> ok then seqM (release None (Some i) (Some dir)) (ret EOF)
               else bindM (find_entry dir name name) (\<lambda>(dir, r, next). case r of
                 Some (b, _) \<Rightarrow> seqM (release (Some b) (Some i) (Some dir)) (ret EOF)
               | None \<Rightarrow>
                   bindM (add_entry dir name) (\<lambda>(b, off).
                   bindM (inlinks i) (\<lambda>n. bindM (getM fs_now) (\<lambda>t.
                   seqM (do_all [store16 b off (ucast (i_nr x)), set_dirty b, set_inlinks i (n + 1),
                           upd_inode i (\<lambda>x. x\<lparr>i_ctime := t\<rparr>), inode_dirty i, release (Some b) (Some i) (Some dir)])
                     (ret 0))))))))))))"

definition sys_unlink :: "u8 list \<Rightarrow> ('w fs_t, u32) op" where
  "sys_unlink filename =
     parent_for_write filename EOF (\<lambda>dir name.
       bindM (find_entry dir name name) (\<lambda>(dir, r, next). case r of
         None \<Rightarrow> seqM (release None None (Some dir)) (ret EOF)
       | Some (b, off) \<Rightarrow>
           bindM (inode_at dir) (\<lambda>d. bindM (load16 b off) (\<lambda>nr.
           bindM (iget (i_dev d) (ucast nr)) (\<lambda>i.
           bindM (imode i) (\<lambda>mode. bindM (iuid i) (\<lambda>uid. bindM (getM fs_task) (\<lambda>task.
           if ISDIR mode \<or> (mode AND ISVTX \<noteq> 0 \<and> t_uid task \<noteq> ucast uid)
           then seqM (release (Some b) (Some i) (Some dir)) (ret EOF)
           else bindM (inlinks i) (\<lambda>n. bindM (inode_at i) (\<lambda>x.
                seqM (do_all [store16 b off 0, set_dirty b, set_inlinks i (n - 1), inode_dirty i,
                        whenM (n - 1 = 0) (seqM (inode_truncate i) (ifree (i_dev x) (i_nr x))),
                        release (Some b) (Some i) (Some dir)])
                  (ret 0)))))))))))"

section \<open>Opening\<close>

text \<open>\<open>sys_umask\<close> of kernel/system.c sets the bits that new files do not get.\<close>

definition sys_umask :: "u16 \<Rightarrow> ('w fs_t, u16) op" where
  "sys_umask msk =
     bindM (getM fs_task) (\<lambda>task.
     seqM (modM (\<lambda>s. s\<lparr>fs_task := task\<lparr>t_umask := msk AND 0x1ff\<rparr>\<rparr>)) (ret (t_umask task)))"

text \<open>\<open>makeup\<close>: the checks on an inode that exists now.  \<open>mode\<close> is an \<open>int\<close>; the flag word
  is \<open>flag\<close>.\<close>

definition open_makeup :: "nat \<Rightarrow> nat \<Rightarrow> nat \<Rightarrow> u32 \<Rightarrow> ('w fs_t, nat option) op" where
  "open_makeup dir b i flag =
     bindM (permission i (ACC_MODE flag)) (\<lambda>ok.
     bindM (imode i) (\<lambda>mode. bindM (getM fs_now) (\<lambda>t.
     if \<not> ok \<or> (ISDIR mode \<and> flag AND O_ACCMODE \<noteq> O_RDONLY)
     then seqM (do_all [brelse (Some b), iput (Some dir), iput (Some i)]) (ret None)
     else seqM (do_all [upd_inode i (\<lambda>x. x\<lparr>i_atime := t\<rparr>), whenM (flag AND O_TRUNC \<noteq> 0) (inode_truncate i),
                  brelse (Some b), iput (Some dir)])
            (ret (Some i)))))"

definition inode_open :: "u8 list \<Rightarrow> u32 \<Rightarrow> u32 \<Rightarrow> ('w fs_t, nat option) op" where
  "inode_open pathname flag mode =
     bindM (named pathname) (\<lambda>(dir, name). case dir of
       None \<Rightarrow> ret None
     | Some dir \<Rightarrow>
         bindM (liftM (load_at name 0)) (\<lambda>c.
         if c = 0 then ret (Some dir)
         else let flag = (if flag AND O_TRUNC \<noteq> 0 \<and> flag AND O_ACCMODE = O_RDONLY then flag OR O_RDWR else flag)
              in bindM (find_entry dir name name) (\<lambda>(dir, r, next).
                 bindM (inode_at dir) (\<lambda>d. case r of
                   Some (b, off) \<Rightarrow>
                     bindM (load16 b off) (\<lambda>nr. bindM (iget (i_dev d) (ucast nr)) (\<lambda>i. open_makeup dir b i flag))
                 | None \<Rightarrow>
                     if flag AND O_CREAT = 0 then seqM (iput (Some dir)) (ret None)
                     else bindM (permission dir P_WRITE) (\<lambda>ok.
                       if \<not> ok then seqM (iput (Some dir)) (ret None)
                       else bindM (add_entry dir name) (\<lambda>(b, off).
                            bindM (ialloc (i_dev d)) (\<lambda>nr.
                            bindM (seqM (store16 b off (ucast nr)) (load16 b off)) (\<lambda>nr.
                            bindM (new_inode (i_dev d) (ucast nr)) (\<lambda>i.
                            bindM (getM fs_task) (\<lambda>task.
                            seqM (set_imode i ((ucast mode AND 0x1ff AND NOT (t_umask task)) OR IFREG))
                              (open_makeup dir b i flag)))))))))))"

definition sys_mknod :: "u8 list \<Rightarrow> u32 \<Rightarrow> u32 \<Rightarrow> ('w fs_t, u32) op" where
  "sys_mknod filename mode dev =
     parent_for_write filename EOF (\<lambda>dir name.
       bindM (find_entry dir name name) (\<lambda>(dir, r, next). case r of
         Some (b, _) \<Rightarrow> seqM (release (Some b) None (Some dir)) (ret EOF)
       | None \<Rightarrow>
           bindM (add_entry dir name) (\<lambda>(b, off).
           bindM (inode_at dir) (\<lambda>d.
           bindM (ialloc (i_dev d)) (\<lambda>nr.
           bindM (seqM (do_all [set_dirty b, store16 b off (ucast nr)]) (load16 b off)) (\<lambda>nr.
           bindM (new_inode (i_dev d) (ucast nr)) (\<lambda>i.
             seqM (do_all [set_imode i (ucast mode),
                     whenM (ISBLK (ucast mode) \<or> ISCHR (ucast mode)) (set_izone i 0 (ucast dev)),
                     release (Some b) (Some i) (Some dir)])
               (ret 0))))))))"

section \<open>The current directory\<close>

definition sys_getcwd :: "u8 list \<Rightarrow> u32 \<Rightarrow> ('w fs_t, u8 list) op" where
  "sys_getcwd buf size' = bindM (getM fs_task) (\<lambda>task. liftM (strncpy buf (t_pwd task) size'))"

text \<open>\<open>cur = strrsep(pwd) + 1; *cur = 0;\<close>\<close>

definition cut_last :: "u8 list \<Rightarrow> (u8 list \<times> nat) result" where
  "cut_last pwd =
     bindr (strrsep pwd) (\<lambda>r. case r of
       None \<Rightarrow> Inl Bad_Access
     | Some k \<Rightarrow> bindr (store_at pwd (Suc k) 0) (\<lambda>pwd. Inr (pwd, Suc k)))"

text \<open>One level up, unless \<open>cur\<close> is behind the first separator.\<close>

definition go_up :: "u8 list \<Rightarrow> nat \<Rightarrow> (u8 list \<times> nat) result" where
  "go_up pwd cur =
     (if cur - 1 \<noteq> 0 then bindr (store_at pwd (cur - 1) 0) cut_last else Inr (pwd, cur))"

text \<open>The loop of \<open>abspath\<close>; each pass goes on by at least one character, so the length of the
  path is fuel enough.\<close>

fun abspath_loop :: "nat \<Rightarrow> u8 list \<Rightarrow> nat \<Rightarrow> u8 list \<Rightarrow> (u8 list \<times> nat \<times> u8 list) result" where
  "abspath_loop fuel pwd cur path =
     bindr (load_at path 0) (\<lambda>c.
     if c = 0 then Inr (pwd, cur, path)
     else bindr (strsep path) (\<lambda>r. case r of
            None \<Rightarrow> Inr (pwd, cur, path)
          | Some k \<Rightarrow>
              (case fuel of 0 \<Rightarrow> Inl Diverges | Suc fuel \<Rightarrow>
               let len = Suc k; path = path[k := 0x2f]
               in bindr (memcmp path [0x2e, 0x2f] 2) (\<lambda>d1.
                  bindr (if d1 = 0 then Inr (pwd, cur)
                         else bindr (memcmp path [0x2e, 0x2e, 0x2f] 3) (\<lambda>d2.
                           if d2 = 0 then go_up pwd cur
                           else bindr (strncpy (drop cur pwd) path (of_nat (Suc len))) (\<lambda>bytes.
                                Inr (take cur pwd @ bytes, cur + len)))) (\<lambda>(pwd, cur).
                     abspath_loop fuel pwd cur (drop len path))))))"

definition abspath :: "u8 list \<Rightarrow> u8 list \<Rightarrow> u8 list result" where
  "abspath pwd path =
     bindr (load_at path 0) (\<lambda>c.
     bindr (if IS_SEPARATOR c then bindr (store_at pwd 1 0) (\<lambda>pwd. Inr (pwd, 1)) else cut_last pwd) (\<lambda>(pwd, cur).
     bindr (abspath_loop (length path) pwd cur (if IS_SEPARATOR c then tl path else path)) (\<lambda>(pwd, cur, path).
     bindr (load_at path 0) (\<lambda>c.
     if c = 0 then Inr pwd
     else bindr (strcmp path dot) (\<lambda>d1.
          if d1 = 0 then Inr pwd
          else bindr (strcmp path dotdot) (\<lambda>d2.
               if d2 \<noteq> 0
               then bindr (strcpy (drop cur pwd) path) (\<lambda>bytes.
                    bindr (strlen path) (\<lambda>n.
                    bindr (store_at (take cur pwd @ bytes) (cur + n) 0x2f) (\<lambda>pwd.
                    store_at pwd (cur + n + 1) 0)))
               else bindr (go_up pwd cur) (\<lambda>(pwd, cur). Inr pwd)))))))"

text \<open>\<open>chdir\<close> and \<open>chroot\<close> take a directory other than the current one.\<close>

definition new_dir :: "u8 list \<Rightarrow> (nat \<Rightarrow> task_t \<Rightarrow> ('w fs_t, unit) op) \<Rightarrow> ('w fs_t, u32) op" where
  "new_dir pathname k =
     bindM (namei pathname) (\<lambda>inode. case inode of
       None \<Rightarrow> ret EOF
     | Some i \<Rightarrow>
         bindM (imode i) (\<lambda>mode. bindM (getM fs_task) (\<lambda>task.
         if \<not> ISDIR mode \<or> i = t_ipwd task then seqM (iput (Some i)) (ret EOF)
         else seqM (k i task) (ret 0))))"

definition sys_chdir :: "u8 list \<Rightarrow> ('w fs_t, u32) op" where
  "sys_chdir pathname =
     new_dir pathname (\<lambda>i task.
       bindM (liftM (abspath (t_pwd task) pathname)) (\<lambda>pwd.
       do_all [modM (\<lambda>s. s\<lparr>fs_task := (fs_task s)\<lparr>t_pwd := pwd\<rparr>\<rparr>), iput (Some (t_ipwd task)),
         modM (\<lambda>s. s\<lparr>fs_task := (fs_task s)\<lparr>t_ipwd := i\<rparr>\<rparr>)]))"

definition sys_chroot :: "u8 list \<Rightarrow> ('w fs_t, u32) op" where
  "sys_chroot pathname =
     new_dir pathname (\<lambda>i task.
       do_all [iput (Some (t_iroot task)), modM (\<lambda>s. s\<lparr>fs_task := (fs_task s)\<lparr>t_iroot := i\<rparr>\<rparr>)])"

end
