(* ===== verification/Ylos_File.thy ===== *)
theory Ylos_File
  imports Ylos_Dirs
begin

text \<open>
  fs/file.c, fs/stat.c and \<open>sys_pipe\<close> of fs/pipe.c: open files and descriptors.  A descriptor
  is an index into \<open>files\<close> of the running task, whose entries are indices into the file table.
\<close>

section \<open>The file table\<close>

definition FILE_NR :: nat where "FILE_NR = 128"
definition SEEK_SET :: u32 where "SEEK_SET = 1"
definition SEEK_CUR :: u32 where "SEEK_CUR = 2"
definition SEEK_END :: u32 where "SEEK_END = 3"

definition file_at :: "nat \<Rightarrow> ('w fs_t, file_t) op" where
  "file_at f = bindM (getM fs_files) (\<lambda>xs. liftM (load_at xs f))"

definition upd_file :: "nat \<Rightarrow> (file_t \<Rightarrow> file_t) \<Rightarrow> ('w fs_t, unit) op" where
  "upd_file f g = bindM (file_at f) (\<lambda>x. modM (\<lambda>s. s\<lparr>fs_files := (fs_files s)[f := g x]\<rparr>))"

fun find_file :: "file_t list \<Rightarrow> nat \<Rightarrow> nat option" where
  "find_file [] i = None"
| "find_file (x # xs) i = (if fl_count x = 0 then Some i else find_file xs (Suc i))"

definition get_file :: "('w fs_t, nat) op" where
  "get_file = bindM (getM fs_files) (\<lambda>xs.
     case find_file (drop 3 xs) 3 of
       None \<Rightarrow> failM Kernel_Panic
     | Some f \<Rightarrow> seqM (upd_file f (\<lambda>x. x\<lparr>fl_count := fl_count x + 1\<rparr>)) (ret f))"

definition put_file :: "nat \<Rightarrow> ('w fs_t, unit) op" where
  "put_file f =
     bindM (file_at f) (\<lambda>x.
     seqM (assertM (0 < fl_count x))
     (seqM (upd_file f (\<lambda>x. x\<lparr>fl_count := fl_count x - 1\<rparr>))
       (if fl_count x - 1 = 0 then iput (fl_inode x) else ret ())))"

definition file_init :: "('w fs_t, unit) op" where
  "file_init = modM (\<lambda>s. s\<lparr>fs_files := take 3 (fs_files s) @
     map (\<lambda>_. \<lparr>fl_inode = None, fl_count = 0, fl_offset = 0, fl_flags = 0, fl_mode = 0\<rparr>) (drop 3 (fs_files s))\<rparr>)"

section \<open>Descriptors\<close>

definition set_task_file :: "nat \<Rightarrow> nat option \<Rightarrow> ('w fs_t, unit) op" where
  "set_task_file fd f = modM (\<lambda>s. s\<lparr>fs_task := (fs_task s)\<lparr>t_files := (t_files (fs_task s))[fd := f]\<rparr>\<rparr>)"

text \<open>\<open>task->files[fd]\<close>; an index out of the array is a \<open>Bad_Access\<close>.\<close>

definition task_file :: "u32 \<Rightarrow> ('w fs_t, nat option) op" where
  "task_file fd = bindM (getM fs_task) (\<lambda>task. liftM (load_at (t_files task) (unat fd)))"

definition sys_open :: "u8 list \<Rightarrow> u32 \<Rightarrow> u32 \<Rightarrow> ('w fs_t, u32) op" where
  "sys_open filename flags mode =
     bindM (inode_open filename flags mode) (\<lambda>r. case r of
       None \<Rightarrow> ret EOF
     | Some i \<Rightarrow>
         bindM (getM fs_task) (\<lambda>task.
         bindM (liftM (task_get_fd task)) (\<lambda>fd.
         bindM get_file (\<lambda>f.
         bindM (imode i) (\<lambda>imode. bindM (isize i) (\<lambda>size'.
         seqM (do_all [set_task_file fd (Some f),
                 upd_file f (\<lambda>x. x\<lparr>fl_inode := Some i, fl_flags := flags, fl_count := 1, fl_mode := ucast imode,
                   fl_offset := (if flags AND O_APPEND \<noteq> 0 then size' else 0)\<rparr>)])
           (ret (of_nat fd))))))))"

definition sys_creat :: "u8 list \<Rightarrow> u32 \<Rightarrow> ('w fs_t, u32) op" where
  "sys_creat filename mode = sys_open filename (O_CREAT OR O_TRUNC) mode"

definition sys_close :: "u32 \<Rightarrow> ('w fs_t, unit) op" where
  "sys_close fd =
     seqM (assertM (sint fd < int TASK_FILE_NR))
     (bindM (task_file fd) (\<lambda>r. case r of
        None \<Rightarrow> ret ()
      | Some f \<Rightarrow>
          bindM (file_at f) (\<lambda>x.
          seqM (assertM (fl_inode x \<noteq> None))
          (seqM (put_file f)
          (bindM (getM fs_task) (\<lambda>task.
           bindM (liftM (task_put_fd task (sint fd))) (\<lambda>task. modM (\<lambda>s. s\<lparr>fs_task := task\<rparr>))))))))"

text \<open>
  The loops of \<open>pipe_read\<close> and \<open>pipe_write\<close> while no sleep is needed (Ylos_Pipe has the sleeping
  and waking of the two ends).
\<close>

fun pipe_take :: "nat \<Rightarrow> nat \<Rightarrow> u8 list \<Rightarrow> ('w fs_t, u8 list) op" where
  "pipe_take i 0 out = ret out"
| "pipe_take i (Suc n) out =
     bindM (inode_at i) (\<lambda>x.
     if fifo_empty (i_fifo x) then failM Would_Sleep
     else bindM (liftM (fifo_get (i_fifo x))) (\<lambda>(f, b).
          seqM (upd_inode i (\<lambda>x. x\<lparr>i_fifo := f\<rparr>)) (pipe_take i n (out @ [b]))))"

fun pipe_give :: "nat \<Rightarrow> u8 list \<Rightarrow> ('w fs_t, unit) op" where
  "pipe_give i [] = ret ()"
| "pipe_give i (b # bs) =
     bindM (inode_at i) (\<lambda>x.
     bindM (liftM (fifo_full (i_fifo x))) (\<lambda>full.
     if full then failM Would_Sleep
     else bindM (liftM (fifo_put (i_fifo x) b)) (\<lambda>f.
          seqM (upd_inode i (\<lambda>x. x\<lparr>i_fifo := f\<rparr>)) (pipe_give i bs))))"

text \<open>Where a file's bytes come from and go to, in the order the code tests it.\<close>

definition opened :: "u32 \<Rightarrow> ('w fs_t, nat \<times> file_t) op" where
  "opened fd = bindM (task_file fd) (\<lambda>r. case r of
     None \<Rightarrow> failM Assert_Failed | Some f \<Rightarrow> bindM (file_at f) (\<lambda>x. ret (f, x)))"

definition advance :: "nat \<Rightarrow> u32 \<Rightarrow> ('w fs_t, unit) op" where
  "advance f len = whenM (len \<noteq> EOF) (upd_file f (\<lambda>x. x\<lparr>fl_offset := fl_offset x + len\<rparr>))"

definition sys_read :: "u32 \<Rightarrow> u32 \<Rightarrow> ('w fs_t, u8 list \<times> u32) op" where
  "sys_read fd count =
     bindM (opened fd) (\<lambda>(f, file).
     seqM (assertM (0 < sint count))
     (if fl_flags file AND O_ACCMODE = O_WRONLY then ret ([], EOF)
      else bindM (liftM (deref (fl_inode file))) (\<lambda>i.
           bindM (inode_at i) (\<lambda>x.
           if i_pipe x then bindM (pipe_take i (unat count) []) (\<lambda>out. ret (out, count))
           else bindM (imode i) (\<lambda>mode. bindM (izone i 0) (\<lambda>z.
                if ISCHR mode then seqM (assertM (z \<noteq> 0)) (devs (device_read (ucast z) count 0 0))
                else if ISBLK mode
                then seqM (do_all [assertM (z \<noteq> 0), bindM (devs (device_get (ucast z))) (\<lambda>_. ret ()),
                             assertM (off_mod (fl_offset file) = 0), assertM (off_mod count = 0)])
                       (devs (device_read (ucast z) (off_div count) (off_div (fl_offset file)) 0))
                else bindM (inode_read i count (fl_offset file)) (\<lambda>(out, len).
                     seqM (advance f len) (ret (out, len)))))))))"

definition sys_write :: "u32 \<Rightarrow> u8 list \<Rightarrow> u32 \<Rightarrow> ('w fs_t, u32) op" where
  "sys_write fd buf count =
     bindM (opened fd) (\<lambda>(f, file).
     seqM (assertM (0 < sint count))
     (if fl_flags file AND O_ACCMODE = O_RDONLY then ret EOF
      else case fl_inode file of None \<Rightarrow> failM Assert_Failed | Some i \<Rightarrow>
           bindM (inode_at i) (\<lambda>x.
           if i_pipe x then seqM (pipe_give i (take (unat count) buf)) (ret count)
           else bindM (imode i) (\<lambda>mode. bindM (izone i 0) (\<lambda>z.
                if ISCHR mode
                then seqM (do_all [assertM (z \<noteq> 0), bindM (devs (device_get (ucast z))) (\<lambda>_. ret ())])
                       (devs (device_write (ucast z) buf count 0 0))
                else if ISBLK mode
                then seqM (do_all [assertM (z \<noteq> 0), bindM (devs (device_get (ucast z))) (\<lambda>_. ret ()),
                             assertM (off_mod (fl_offset file) = 0), assertM (off_mod count = 0)])
                       (devs (device_write (ucast z) buf (off_div count) (off_div (fl_offset file)) 0))
                else bindM (inode_write i buf count (fl_offset file)) (\<lambda>len.
                     seqM (advance f len) (ret len)))))))"

text \<open>
  The assertion of \<open>SEEK_END\<close> compares the unsigned sum of size and offset with 0 and always
  holds; the other two are signed.
\<close>

definition sys_lseek :: "u32 \<Rightarrow> u32 \<Rightarrow> u32 \<Rightarrow> ('w fs_t, u32) op" where
  "sys_lseek fd offset whence =
     seqM (assertM (sint fd < int TASK_FILE_NR))
     (bindM (opened fd) (\<lambda>(f, file).
      case fl_inode file of None \<Rightarrow> failM Assert_Failed | Some i \<Rightarrow>
      bindM (if whence = SEEK_SET then seqM (assertM (0 \<le> sint offset)) (ret offset)
             else if whence = SEEK_CUR
             then seqM (assertM (0 \<le> sint (fl_offset file + offset))) (ret (fl_offset file + offset))
             else if whence = SEEK_END then bindM (isize i) (\<lambda>size'. ret (size' + offset))
             else failM Kernel_Panic) (\<lambda>pos.
      seqM (upd_file f (\<lambda>x. x\<lparr>fl_offset := pos\<rparr>)) (ret pos))))"

definition sys_readdir :: "u32 \<Rightarrow> ('w fs_t, u8 list \<times> u32) op" where
  "sys_readdir fd = sys_read fd DENTRY_SIZE"

definition dupfd :: "u32 \<Rightarrow> u32 \<Rightarrow> ('w fs_t, u32) op" where
  "dupfd fd arg =
     (if int TASK_FILE_NR \<le> sint fd then ret EOF
      else bindM (task_file fd) (\<lambda>r. case r of
        None \<Rightarrow> ret EOF
      | Some f \<Rightarrow>
          bindM (getM fs_task) (\<lambda>task.
          if sint arg < 0 then failM Bad_Access
          else let a = free_fd (drop (unat arg) (t_files task)) (unat arg)
               in if int TASK_FILE_NR \<le> int a then ret EOF
                  else seqM (do_all [set_task_file a (Some f), upd_file f (\<lambda>x. x\<lparr>fl_count := fl_count x + 1\<rparr>)])
                         (ret (of_nat a)))))"

definition sys_dup :: "u32 \<Rightarrow> ('w fs_t, u32) op" where
  "sys_dup oldfd = dupfd oldfd 0"

definition sys_dup2 :: "u32 \<Rightarrow> u32 \<Rightarrow> ('w fs_t, u32) op" where
  "sys_dup2 oldfd newfd = seqM (sys_close newfd) (dupfd oldfd newfd)"

definition sys_pipe :: "('w fs_t, u32 \<times> u32) op" where
  "sys_pipe =
     bindM get_pipe_inode (\<lambda>i.
     bindM (getM fs_task) (\<lambda>task. bindM (liftM (task_get_fd task)) (\<lambda>fd0.
     bindM get_file (\<lambda>f0. seqM (set_task_file fd0 (Some f0))
     (bindM (getM fs_task) (\<lambda>task. bindM (liftM (task_get_fd task)) (\<lambda>fd1.
      bindM get_file (\<lambda>f1.
      seqM (do_all [set_task_file fd1 (Some f1),
              upd_file f0 (\<lambda>x. x\<lparr>fl_inode := Some i, fl_flags := O_RDONLY\<rparr>),
              upd_file f1 (\<lambda>x. x\<lparr>fl_inode := Some i, fl_flags := O_WRONLY\<rparr>)])
        (ret (of_nat fd0, of_nat fd1))))))))))"

section \<open>Status\<close>

record stat_t =
  st_dev :: u32
  st_nr :: u32
  st_mode :: u16
  st_nlinks :: u8
  st_uid :: u16
  st_gid :: u8
  st_rdev :: u32
  st_size :: u32
  st_atime :: u32
  st_mtime :: u32
  st_ctime :: u32

definition copy_stat :: "nat \<Rightarrow> ('w fs_t, stat_t) op" where
  "copy_stat i =
     bindM (inode_at i) (\<lambda>x. bindM (imode i) (\<lambda>mode. bindM (inlinks i) (\<lambda>n. bindM (iuid i) (\<lambda>uid.
     bindM (desc8 i 12) (\<lambda>gid. bindM (izone i 0) (\<lambda>z. bindM (isize i) (\<lambda>size'. bindM (desc32 i 8) (\<lambda>mtime.
     ret \<lparr>st_dev = i_dev x, st_nr = i_nr x, st_mode = mode, st_nlinks = n, st_uid = uid, st_gid = gid,
          st_rdev = ucast z, st_size = size', st_atime = i_atime x, st_mtime = mtime, st_ctime = i_ctime x\<rparr>))))))))"

definition sys_stat :: "u8 list \<Rightarrow> ('w fs_t, stat_t option) op" where
  "sys_stat filename =
     bindM (namei filename) (\<lambda>r. case r of
       None \<Rightarrow> ret None
     | Some i \<Rightarrow> bindM (copy_stat i) (\<lambda>st. seqM (iput (Some i)) (ret (Some st))))"

definition sys_fstat :: "u32 \<Rightarrow> ('w fs_t, stat_t option) op" where
  "sys_fstat fd =
     (if int TASK_FILE_NR \<le> sint fd then ret None
      else bindM (task_file fd) (\<lambda>r. case r of
        None \<Rightarrow> ret None
      | Some f \<Rightarrow> bindM (file_at f) (\<lambda>x. case fl_inode x of
          None \<Rightarrow> failM Assert_Failed
        | Some i \<Rightarrow> bindM (copy_stat i) (\<lambda>st. ret (Some st)))))"

end
