(* ===== verification/Ylos_Super.thy ===== *)
theory Ylos_Super
  imports Ylos_File Ylos_Vsprintf
begin

text \<open>
  fs/super.c: reading and releasing super blocks, mounting, making a file system.
\<close>

section \<open>Super blocks\<close>

fun brelse_all :: "nat option list \<Rightarrow> nat \<Rightarrow> nat \<Rightarrow> ('w fs_t, unit) op" where
  "brelse_all maps i 0 = ret ()"
| "brelse_all maps i (Suc n) =
     bindM (liftM (load_at maps i)) (\<lambda>b. seqM (brelse b) (brelse_all maps (Suc i) n))"

definition put_super :: "nat option \<Rightarrow> ('w fs_t, unit) op" where
  "put_super super = (case super of None \<Rightarrow> ret () | Some i \<Rightarrow>
     bindM (super_at i) (\<lambda>sb.
     seqM (assertM (0 < sb_count sb))
     (seqM (upd_super i (\<lambda>sb. sb\<lparr>sb_count := sb_count sb - 1\<rparr>))
     (if sb_count sb - 1 \<noteq> 0 then ret ()
      else seqM (do_all [upd_super i (\<lambda>sb. sb\<lparr>sb_dev := EOF\<rparr>), iput (sb_imount sb), iput (sb_iroot sb)])
           (bindM (super16 i 4) (\<lambda>im. seqM (brelse_all (sb_imaps sb) 0 (unat im))
           (bindM (super16 i 6) (\<lambda>zm. seqM (brelse_all (sb_zmaps sb) 0 (unat zm))
             (brelse (sb_buf sb))))))))))"

text \<open>The two loops that read the bitmap blocks from block \<open>idx\<close> on; \<open>bread\<close> returns no NULL.\<close>

fun read_maps :: "u32 \<Rightarrow> nat \<Rightarrow> nat \<Rightarrow> nat \<Rightarrow> u32 \<Rightarrow> nat option list \<Rightarrow> ('w fs_t, nat option list \<times> u32) op" where
  "read_maps dev lim i 0 idx maps = ret (maps, idx)"
| "read_maps dev lim i (Suc n) idx maps =
     seqM (assertM (i < lim))
     (bindM (bread dev idx) (\<lambda>b. read_maps dev lim (Suc i) n (idx + 1) (maps[i := Some b])))"

definition read_super :: "u32 \<Rightarrow> ('w fs_t, nat) op" where
  "read_super dev =
     bindM (get_super dev) (\<lambda>r. case r of
       Some sb \<Rightarrow> seqM (upd_super sb (\<lambda>x. x\<lparr>sb_count := sb_count x + 1\<rparr>)) (ret sb)
     | None \<Rightarrow>
         bindM get_free_super (\<lambda>sb.
         bindM (bread dev 1) (\<lambda>b.
         bindM (seqM (upd_super sb (\<lambda>x. x\<lparr>sb_buf := Some b, sb_dev := dev, sb_count := 1\<rparr>)) (super16 sb 16)) (\<lambda>magic.
         seqM (assertM (magic = MINIX1_MAGIC))
         (bindM (super16 sb 4) (\<lambda>im. bindM (super16 sb 6) (\<lambda>zm.
          bindM (read_maps dev IMAP_NR 0 (unat im) 2 (replicate IMAP_NR None)) (\<lambda>(imaps, idx).
          seqM (upd_super sb (\<lambda>x. x\<lparr>sb_imaps := imaps\<rparr>))
          (bindM (read_maps dev ZMAP_NR 0 (unat zm) idx (replicate ZMAP_NR None)) (\<lambda>(zmaps, idx).
           seqM (upd_super sb (\<lambda>x. x\<lparr>sb_zmaps := zmaps\<rparr>)) (ret sb)))))))))))"

definition mount_root :: "('w fs_t, unit) op" where
  "mount_root =
     bindM (devs (device_find DEV_IDE_PART 0)) (\<lambda>d. case d of
       None \<Rightarrow> failM Assert_Failed
     | Some d \<Rightarrow>
         bindM (read_super (dv_dev d)) (\<lambda>root.
         seqM (modM (\<lambda>s. s\<lparr>fs_root := Some root\<rparr>))
         (bindM (iget (dv_dev d) 1) (\<lambda>i.
          seqM (upd_super root (\<lambda>x. x\<lparr>sb_iroot := Some i\<rparr>))
          (bindM (iget (dv_dev d) 1) (\<lambda>i. upd_super root (\<lambda>x. x\<lparr>sb_imount := Some i\<rparr>)))))))"

definition super_init :: "('w fs_t, unit) op" where
  "super_init =
     seqM (modM (\<lambda>s. s\<lparr>fs_supers := map (\<lambda>sb. sb\<lparr>sb_dev := EOF, sb_buf := None, sb_iroot := None, sb_imount := None\<rparr>) (fs_supers s),
                      fs_links := foldl (\<lambda>h i. list_init h (inode_list i)) (fs_links s) [0..<SUPER_NR]\<rparr>))
       mount_root"

section \<open>Mounting\<close>

definition sys_mount :: "u8 list \<Rightarrow> u8 list \<Rightarrow> ('w fs_t, u32) op" where
  "sys_mount devname dirname =
     bindM (namei devname) (\<lambda>devinode. case devinode of
       None \<Rightarrow> ret EOF
     | Some di \<Rightarrow>
         bindM (imode di) (\<lambda>mode.
         if \<not> ISBLK mode then seqM (iput (Some di)) (ret EOF)
         else bindM (izone di 0) (\<lambda>z.
              bindM (namei dirname) (\<lambda>dirinode. case dirinode of
                None \<Rightarrow> seqM (iput (Some di)) (ret EOF)
              | Some i \<Rightarrow>
                  bindM (imode i) (\<lambda>mode. bindM (inode_at i) (\<lambda>x.
                  let rollback = (\<lambda>sb. seqM (do_all [put_super sb, iput (Some di), iput (Some i)]) (ret EOF))
                  in if \<not> ISDIR mode \<or> i_count x \<noteq> 1 \<or> i_mount x \<noteq> 0 then rollback None
                     else bindM (read_super (ucast z)) (\<lambda>sb. bindM (super_at sb) (\<lambda>sbx.
                          if sb_imount sbx \<noteq> None then rollback (Some sb)
                          else bindM (iget (ucast z) 1) (\<lambda>r.
                               seqM (do_all [upd_super sb (\<lambda>x. x\<lparr>sb_iroot := Some r, sb_imount := Some i\<rparr>),
                                       upd_inode i (\<lambda>x. x\<lparr>i_mount := ucast z\<rparr>), iput (Some di)])
                                 (ret 0))))))))))"

text \<open>Every exit of \<open>sys_umount\<close> behind \<open>get_super\<close> runs \<open>put_super\<close>, the failing ones too.\<close>

definition sys_umount :: "u8 list \<Rightarrow> ('w fs_t, u32) op" where
  "sys_umount target =
     bindM (namei target) (\<lambda>inode. case inode of
       None \<Rightarrow> ret EOF
     | Some i \<Rightarrow>
         bindM (imode i) (\<lambda>mode. bindM (inode_at i) (\<lambda>x.
         bindM (getM fs_root) (\<lambda>root. bindM (liftM (deref root)) (\<lambda>root. bindM (super_at root) (\<lambda>rootsb.
         if (\<not> ISBLK mode \<and> i_nr x \<noteq> 1) \<or> sb_imount rootsb = Some i then seqM (iput (Some i)) (ret EOF)
         else bindM (if ISBLK mode then bindM (izone i 0) (\<lambda>z. ret (ucast z)) else ret (i_dev x)) (\<lambda>dev.
              bindM (get_super dev) (\<lambda>sb. bindM (liftM (deref sb)) (\<lambda>sb. bindM (super_at sb) (\<lambda>sbx.
              case sb_imount sbx of
                None \<Rightarrow> seqM (do_all [put_super (Some sb), iput (Some i)]) (ret EOF)
              | Some m \<Rightarrow>
                  bindM (getM fs_links) (\<lambda>h. bindM (liftM (list_size h (inode_list sb))) (\<lambda>n.
                  if 1 < n then seqM (do_all [put_super (Some sb), iput (Some i)]) (ret EOF)
                  else seqM (do_all [iput (sb_iroot sbx), upd_super sb (\<lambda>x. x\<lparr>sb_iroot := None\<rparr>),
                               upd_inode m (\<lambda>x. x\<lparr>i_mount := 0\<rparr>), iput (Some m),
                               upd_super sb (\<lambda>x. x\<lparr>sb_imount := None\<rparr>), put_super (Some sb), iput (Some i)])
                         (ret 0)))))))))))))"

section \<open>Making a file system\<close>

definition set_super16 :: "nat \<Rightarrow> nat \<Rightarrow> u16 \<Rightarrow> ('w fs_t, unit) op" where
  "set_super16 i off v = bindM (super_at i) (\<lambda>sb. bindM (liftM (deref (sb_buf sb))) (\<lambda>b. store16 b off v))"

definition set_super32 :: "nat \<Rightarrow> nat \<Rightarrow> u32 \<Rightarrow> ('w fs_t, unit) op" where
  "set_super32 i off v = bindM (super_at i) (\<lambda>sb. bindM (liftM (deref (sb_buf sb))) (\<lambda>b. store32 b off v))"

text \<open>The two loops that read and clear the bitmap blocks.\<close>

fun clear_maps :: "u32 \<Rightarrow> nat \<Rightarrow> nat \<Rightarrow> u32 \<Rightarrow> nat option list \<Rightarrow> ('w fs_t, nat option list \<times> u32) op" where
  "clear_maps dev i 0 idx maps = ret (maps, idx)"
| "clear_maps dev i (Suc n) idx maps =
     bindM (bread dev idx) (\<lambda>b.
     bindM (liftM (store_at maps i (Some b))) (\<lambda>maps.
     seqM (upd_buf b (\<lambda>x. x\<lparr>b_data := replicate 1024 0, b_dirty := True\<rparr>))
       (clear_maps dev (Suc i) n (idx + 1) maps)))"

text \<open>
  The end of a bitmap: all bytes behind the byte of bit \<open>count\<close> are set, and that byte becomes
  0x80, since \<open>bits\<close> is not shifted in the loop.
\<close>

definition mark_tail :: "nat option list \<Rightarrow> u16 \<Rightarrow> u32 \<Rightarrow> ('w fs_t, unit) op" where
  "mark_tail maps blocks count =
     (if blocks = 0 then failM Bad_Access
      else bindM (liftM (load_at maps (unat blocks - 1))) (\<lambda>m. bindM (liftM (deref m)) (\<lambda>m.
           let begin' = unat (count mod BLOCK_BITS) div 8
           in upd_buf m (\<lambda>x. x\<lparr>b_data := take begin' (b_data x) @ 0x80 # replicate (1023 - begin') 0xff, b_dirty := True\<rparr>))))"

definition devmkfs :: "u32 \<Rightarrow> u32 \<Rightarrow> ('w fs_t, u32) op" where
  "devmkfs dev icount =
     bindM (devs (device_ioctl dev DEV_CMD_SECTOR_COUNT 0 0)) (\<lambda>sectors.
     let total = sectors div BLOCK_SECS
     in seqM (do_all [assertM (total \<noteq> 0), assertM (icount < total)])
     (let icount = (if icount = 0 then total div 3 else icount)
      in bindM get_free_super (\<lambda>sb.
         bindM (seqM (upd_super sb (\<lambda>x. x\<lparr>sb_dev := dev, sb_count := 1\<rparr>)) (bread dev 1)) (\<lambda>b.
         bindM (liftM (div_round_up (icount * 32) BLOCK_SIZE)) (\<lambda>inode_blocks.
         bindM (liftM (div_round_up icount BLOCK_BITS)) (\<lambda>im.
         let zcount = total - ucast (ucast im :: u16) - inode_blocks - 2
         in bindM (liftM (div_round_up zcount BLOCK_BITS)) (\<lambda>zm.
            seqM (do_all [upd_super sb (\<lambda>x. x\<lparr>sb_buf := Some b\<rparr>), set_dirty b, set_super16 sb 0 (ucast icount),
                    set_super16 sb 2 (ucast total), set_super16 sb 4 (ucast im), set_super16 sb 6 (ucast zm),
                    set_super16 sb 8 (2 + ucast im + ucast zm + ucast inode_blocks), set_super16 sb 10 0,
                    set_super32 sb 12 (BLOCK_SIZE * TOTAL_BLOCK), set_super16 sb 16 MINIX1_MAGIC])
            (bindM (super16 sb 4) (\<lambda>im16. bindM (super16 sb 6) (\<lambda>zm16.
             bindM (clear_maps dev 0 (unat im16) 2 (replicate IMAP_NR None)) (\<lambda>(imaps, idx).
             bindM (clear_maps dev 0 (unat zm16) idx (replicate ZMAP_NR None)) (\<lambda>(zmaps, idx).
             seqM (upd_super sb (\<lambda>x. x\<lparr>sb_imaps := imaps, sb_zmaps := zmaps\<rparr>))
             (bindM (balloc dev) (\<lambda>_. bindM (ialloc dev) (\<lambda>_. bindM (ialloc dev) (\<lambda>_.
              seqM (do_all [mark_tail imaps im16 (icount + 1), mark_tail zmaps zm16 zcount])
              (bindM (getM fs_task) (\<lambda>task.
               bindM (new_inode dev 1) (\<lambda>r.
               bindM (seqM (do_all [upd_super sb (\<lambda>x. x\<lparr>sb_iroot := Some r\<rparr>),
                              set_imode r ((0x1ff AND NOT (t_umask task)) OR IFDIR), set_isize r 32, set_inlinks r 2])
                        (bmap r 0 True)) (\<lambda>block.
               bindM (bread dev block) (\<lambda>z.
               bindM (inode_at r) (\<lambda>x.
               seqM (do_all [upd_buf z (\<lambda>x. x\<lparr>b_dirty := True, b_data := replicate 1024 0\<rparr>),
                       write_dentry z 0 dot (ucast (i_nr x)), write_dentry z 16 dotdot (ucast (i_nr x)),
                       brelse (Some z), put_super (Some sb)])
                 (ret 0)))))))))))))))))))))))"

definition sys_mkfs :: "u8 list \<Rightarrow> u32 \<Rightarrow> ('w fs_t, u32) op" where
  "sys_mkfs devname icount =
     bindM (namei devname) (\<lambda>inode. case inode of
       None \<Rightarrow> ret EOF
     | Some i \<Rightarrow>
         bindM (imode i) (\<lambda>mode.
         if \<not> ISBLK mode then seqM (iput (Some i)) (ret EOF)
         else bindM (izone i 0) (\<lambda>z.
              seqM (assertM (z \<noteq> 0))
              (bindM (devmkfs (ucast z) icount) (\<lambda>r. seqM (iput (Some i)) (ret r))))))"

end
