(* ===== verification/Ylos_Keyboard.thy ===== *)
theory Ylos_Keyboard
  imports Ylos_Mutex Ylos_Fifo
begin

text \<open>
  kernel/keyboard.c: the keyboard driver.  The interrupt handler turns scan codes into characters
  (shift, caps lock, prefix 0xe0) and puts them into a ring; \<open>keyboard_read\<close> takes them out and
  sleeps while there are none.  The state holds the table \<open>keymap\<close>, whose last two columns record
  which keys are down, the lock states, the ring, the lock and the waiting task, and the bytes
  sent to the keyboard.  The waiting loops of \<open>set_leds\<close> end when the keyboard answers, which is
  taken for granted.
\<close>

section \<open>The code\<close>

definition KEY_SHIFT_L :: nat where "KEY_SHIFT_L = 0x2a"
definition KEY_SLASH :: nat where "KEY_SLASH = 0x35"
definition KEY_SHIFT_R :: nat where "KEY_SHIFT_R = 0x36"
definition KEY_CAPSLOCK :: nat where "KEY_CAPSLOCK = 0x3a"
definition KEY_NUMLOCK :: nat where "KEY_NUMLOCK = 0x45"
definition KEY_SCRLOCK :: nat where "KEY_SCRLOCK = 0x46"
definition KEY_PRINT_SCREEN :: nat where "KEY_PRINT_SCREEN = 0x5f"
definition CODE_PRINT_SCREEN_DOWN :: u16 where "CODE_PRINT_SCREEN_DOWN = 0xb7"
definition KEYBOARD_CMD_LED :: u8 where "KEYBOARD_CMD_LED = 0xed"
definition INV :: u8 where "INV = 0"
definition BUFFER_SIZE :: u32 where "BUFFER_SIZE = 64"

definition keymap :: "u8 list list" where
  "keymap = [
    [0x00, 0x00, 0, 0], [0x1b, 0x1b, 0, 0], [0x31, 0x21, 0, 0], [0x32, 0x40, 0, 0],
    [0x33, 0x23, 0, 0], [0x34, 0x24, 0, 0], [0x35, 0x25, 0, 0], [0x36, 0x5e, 0, 0],
    [0x37, 0x26, 0, 0], [0x38, 0x2a, 0, 0], [0x39, 0x28, 0, 0], [0x30, 0x29, 0, 0],
    [0x2d, 0x5f, 0, 0], [0x3d, 0x2b, 0, 0], [0x08, 0x08, 0, 0], [0x09, 0x09, 0, 0],
    [0x71, 0x51, 0, 0], [0x77, 0x57, 0, 0], [0x65, 0x45, 0, 0], [0x72, 0x52, 0, 0],
    [0x74, 0x54, 0, 0], [0x79, 0x59, 0, 0], [0x75, 0x55, 0, 0], [0x69, 0x49, 0, 0],
    [0x6f, 0x4f, 0, 0], [0x70, 0x50, 0, 0], [0x5b, 0x7b, 0, 0], [0x5d, 0x7d, 0, 0],
    [0x0a, 0x0a, 0, 0], [0x00, 0x00, 0, 0], [0x61, 0x41, 0, 0], [0x73, 0x53, 0, 0],
    [0x64, 0x44, 0, 0], [0x66, 0x46, 0, 0], [0x67, 0x47, 0, 0], [0x68, 0x48, 0, 0],
    [0x6a, 0x4a, 0, 0], [0x6b, 0x4b, 0, 0], [0x6c, 0x4c, 0, 0], [0x3b, 0x3a, 0, 0],
    [0x27, 0x22, 0, 0], [0x60, 0x7e, 0, 0], [0x00, 0x00, 0, 0], [0x5c, 0x7c, 0, 0],
    [0x7a, 0x5a, 0, 0], [0x78, 0x58, 0, 0], [0x63, 0x43, 0, 0], [0x76, 0x56, 0, 0],
    [0x62, 0x42, 0, 0], [0x6e, 0x4e, 0, 0], [0x6d, 0x4d, 0, 0], [0x2c, 0x3c, 0, 0],
    [0x2e, 0x3e, 0, 0], [0x2f, 0x3f, 0, 0], [0x00, 0x00, 0, 0], [0x2a, 0x2a, 0, 0],
    [0x00, 0x00, 0, 0], [0x20, 0x20, 0, 0], [0x00, 0x00, 0, 0], [0x00, 0x00, 0, 0],
    [0x00, 0x00, 0, 0], [0x00, 0x00, 0, 0], [0x00, 0x00, 0, 0], [0x00, 0x00, 0, 0],
    [0x00, 0x00, 0, 0], [0x00, 0x00, 0, 0], [0x00, 0x00, 0, 0], [0x00, 0x00, 0, 0],
    [0x00, 0x00, 0, 0], [0x00, 0x00, 0, 0], [0x00, 0x00, 0, 0], [0x37, 0x00, 0, 0],
    [0x38, 0x00, 0, 0], [0x39, 0x00, 0, 0], [0x2d, 0x2d, 0, 0], [0x34, 0x00, 0, 0],
    [0x35, 0x00, 0, 0], [0x36, 0x00, 0, 0], [0x2b, 0x2b, 0, 0], [0x31, 0x00, 0, 0],
    [0x32, 0x00, 0, 0], [0x33, 0x00, 0, 0], [0x30, 0x00, 0, 0], [0x2e, 0x7f, 0, 0],
    [0x00, 0x00, 0, 0], [0x00, 0x00, 0, 0], [0x00, 0x00, 0, 0], [0x00, 0x00, 0, 0],
    [0x00, 0x00, 0, 0], [0x00, 0x00, 0, 0], [0x00, 0x00, 0, 0], [0x00, 0x00, 0, 0],
    [0x00, 0x00, 0, 0], [0x00, 0x00, 0, 0], [0x00, 0x00, 0, 0], [0x00, 0x00, 0, 0]
  ]"

record kb_t =
  kb_map :: "u8 list list"
  kb_caps :: bool
  kb_scr :: bool
  kb_num :: bool
  kb_ext :: bool
  kb_fifo :: fifo_t
  kb_lock :: lock_t
  kb_waiter :: "task_ptr option"
  kb_out :: "u8 list"

definition key_cell :: "kb_t \<Rightarrow> nat \<Rightarrow> nat \<Rightarrow> u8 result" where
  "key_cell k row col = bindr (load_at (kb_map k) row) (\<lambda>r. load_at r col)"

definition set_key_cell :: "kb_t \<Rightarrow> nat \<Rightarrow> nat \<Rightarrow> u8 \<Rightarrow> kb_t result" where
  "set_key_cell k row col v =
     bindr (load_at (kb_map k) row) (\<lambda>r. bindr (store_at r col v) (\<lambda>r.
     bindr (store_at (kb_map k) row r) (\<lambda>m. Inr (k\<lparr>kb_map := m\<rparr>))))"

definition shift_state :: "kb_t \<Rightarrow> bool result" where
  "shift_state k = bindr (key_cell k KEY_SHIFT_L 2) (\<lambda>l. bindr (key_cell k KEY_SHIFT_R 2) (\<lambda>r. Inr (l \<noteq> 0 \<or> r \<noteq> 0)))"

definition bool_byte :: "bool \<Rightarrow> u8" where
  "bool_byte b = (if b then 1 else 0)"

definition leds :: "kb_t \<Rightarrow> u8" where
  "leds k = push_bit 2 (bool_byte (kb_caps k)) OR push_bit 1 (bool_byte (kb_num k)) OR bool_byte (kb_scr k)"

definition set_leds :: "kb_t \<Rightarrow> kb_t" where
  "set_leds k = k\<lparr>kb_out := kb_out k @ [KEYBOARD_CMD_LED, leds k]\<rparr>"

text \<open>The keys that switch a lock, and the lights.\<close>

definition lock_keys :: "kb_t \<Rightarrow> nat \<Rightarrow> kb_t" where
  "lock_keys k makecode =
     (if makecode = KEY_NUMLOCK then set_leds (k\<lparr>kb_num := \<not> kb_num k\<rparr>)
      else if makecode = KEY_CAPSLOCK then set_leds (k\<lparr>kb_caps := \<not> kb_caps k\<rparr>)
      else if makecode = KEY_SCRLOCK then set_leds (k\<lparr>kb_scr := \<not> kb_scr k\<rparr>)
      else k)"

text \<open>The character of a key that went down, \<open>INV\<close> when it has none.\<close>

definition key_char :: "kb_t \<Rightarrow> nat \<Rightarrow> nat \<Rightarrow> u8 result" where
  "key_char k makecode ext =
     bindr (key_cell k makecode 0) (\<lambda>base.
     let shift = (kb_caps k \<and> 0x61 \<le> sint base \<and> sint base \<le> 0x7a)
     in bindr (shift_state k) (\<lambda>sh.
        let shift = (if sh then \<not> shift else shift)
        in if ext = 3 \<and> makecode \<noteq> KEY_SLASH then key_cell k makecode 1
           else key_cell k makecode (if shift then 1 else 0)))"

definition wake_waiter :: "sched_t \<Rightarrow> kb_t \<Rightarrow> (sched_t \<times> kb_t) result" where
  "wake_waiter s k =
     (case kb_waiter k of None \<Rightarrow> Inr (s, k)
      | Some p \<Rightarrow> bindr (task_unblock s p) (\<lambda>s. Inr (s, k\<lparr>kb_waiter := None\<rparr>)))"

definition keyboard_handler :: "sched_t \<Rightarrow> kb_t \<Rightarrow> u32 \<Rightarrow> u8 \<Rightarrow> (sched_t \<times> kb_t) result" where
  "keyboard_handler s k vector byte =
     (if vector \<noteq> 0x21 then Inl Assert_Failed
      else let scancode = (ucast byte :: u16)
           in if scancode = 0xe0 then Inr (s, k\<lparr>kb_ext := True\<rparr>)
              else let ext = (if kb_ext k then 3 else 2);
                       scancode = (if kb_ext k then scancode OR 0xe000 else scancode);
                       k = k\<lparr>kb_ext := False\<rparr>;
                       makecode = scancode AND 0x7f;
                       makecode = (if makecode = CODE_PRINT_SCREEN_DOWN then KEY_PRINT_SCREEN else unat makecode)
                   in if KEY_PRINT_SCREEN < makecode then Inr (s, k)
                      else if scancode AND 0x80 \<noteq> 0
                      then bindr (set_key_cell k makecode ext 0) (\<lambda>k. Inr (s, k))
                      else bindr (set_key_cell k makecode ext 1) (\<lambda>k.
                           let k = lock_keys k makecode
                           in bindr (key_char k makecode ext) (\<lambda>ch.
                              if ch = INV then Inr (s, k)
                              else bindr (fifo_put (kb_fifo k) ch) (\<lambda>f. wake_waiter s (k\<lparr>kb_fifo := f\<rparr>)))))"

text \<open>
  \<open>keyboard_read\<close> from one suspension to the next: \<open>Kb_Locked\<close> waits for the lock, \<open>Kb_Sleeps\<close>
  for a character, with the bytes read so far and the number still to read.
\<close>

datatype kb_outcome = Kb_Done sched_t kb_t "u8 list" | Kb_Locked sched_t kb_t | Kb_Sleeps sched_t kb_t "u8 list" nat

definition kb_finish :: "sched_t \<Rightarrow> kb_t \<Rightarrow> u8 list \<Rightarrow> kb_outcome result" where
  "kb_finish s k buf = bindr (lock_release s (kb_lock k)) (\<lambda>(s, lk). Inr (Kb_Done s (k\<lparr>kb_lock := lk\<rparr>) buf))"

fun kb_loop :: "sched_t \<Rightarrow> kb_t \<Rightarrow> u8 list \<Rightarrow> nat \<Rightarrow> kb_outcome result" where
  "kb_loop s k buf 0 = kb_finish s k buf"
| "kb_loop s k buf (Suc n) =
     (if fifo_empty (kb_fifo k)
      then bindr (task_block s (running_task s) None TASK_BLOCKED) (\<lambda>s'.
             Inr (Kb_Sleeps s' (k\<lparr>kb_waiter := Some (running_task s)\<rparr>) buf (Suc n)))
      else bindr (fifo_get (kb_fifo k)) (\<lambda>(f, byte). kb_loop s (k\<lparr>kb_fifo := f\<rparr>) (buf @ [byte]) n))"

definition keyboard_read :: "sched_t \<Rightarrow> kb_t \<Rightarrow> u32 \<Rightarrow> kb_outcome result" where
  "keyboard_read s k count =
     bindr (lock_acquire s (kb_lock k)) (\<lambda>r.
     case r of Lock_Waits s \<Rightarrow> Inr (Kb_Locked s k)
     | Lock_Taken s lk \<Rightarrow> kb_loop s (k\<lparr>kb_lock := lk\<rparr>) [] (unat count))"

definition keyboard_init :: "sched_t \<Rightarrow> nat \<Rightarrow> u8 list \<Rightarrow> sched_t \<times> kb_t" where
  "keyboard_init s l buf =
     (let (s, lk) = lock_init s l
      in (s, set_leds \<lparr>kb_map = keymap, kb_caps = False, kb_scr = False, kb_num = False, kb_ext = False,
                      kb_fifo = fifo_init buf BUFFER_SIZE, kb_lock = lk, kb_waiter = None, kb_out = []\<rparr>))"

section \<open>The reference decoder\<close>

text \<open>
  What a keyboard does, without the table: the lock states, whether the prefix was seen, and which
  keys are down (with and without prefix).
\<close>

record akb =
  a_caps :: bool
  a_scr :: bool
  a_num :: bool
  a_ext :: bool
  a_down :: "(nat \<times> bool) set"

definition layout :: "nat \<Rightarrow> u8 \<times> u8" where
  "layout key = (keymap ! key ! 0, keymap ! key ! 1)"

definition letter :: "nat \<Rightarrow> bool" where
  "letter key \<longleftrightarrow> 0x61 \<le> sint (fst (layout key)) \<and> sint (fst (layout key)) \<le> 0x7a"

definition shifted :: "akb \<Rightarrow> bool" where
  "shifted a \<longleftrightarrow> (KEY_SHIFT_L, False) \<in> a_down a \<or> (KEY_SHIFT_R, False) \<in> a_down a"

definition typed :: "akb \<Rightarrow> nat \<Rightarrow> bool \<Rightarrow> u8 list" where
  "typed a key ext =
     (let upper = (if ext \<and> key \<noteq> KEY_SLASH then True else (a_caps a \<and> letter key) \<noteq> shifted a);
          ch = (if upper then snd (layout key) else fst (layout key))
      in if ch = INV then [] else [ch])"

definition decode :: "akb \<Rightarrow> u8 \<Rightarrow> akb \<times> u8 list" where
  "decode a byte =
     (if byte = 0xe0 then (a\<lparr>a_ext := True\<rparr>, [])
      else let key = unat byte mod 128; ext = a_ext a; a = a\<lparr>a_ext := False\<rparr>
           in if KEY_PRINT_SCREEN < key then (a, [])
              else if 128 \<le> unat byte then (a\<lparr>a_down := a_down a - {(key, ext)}\<rparr>, [])
              else let a = a\<lparr>a_down := insert (key, ext) (a_down a)\<rparr>;
                       a = a\<lparr>a_num := (a_num a \<noteq> (key = KEY_NUMLOCK)), a_caps := (a_caps a \<noteq> (key = KEY_CAPSLOCK)),
                             a_scr := (a_scr a \<noteq> (key = KEY_SCRLOCK))\<rparr>
                   in (a, typed a key ext))"

fun decode_all :: "akb \<Rightarrow> u8 list \<Rightarrow> akb \<times> u8 list" where
  "decode_all a [] = (a, [])"
| "decode_all a (b # bs) = (let (a, cs) = decode a b; (a, ds) = decode_all a bs in (a, cs @ ds))"

fun handle_all :: "sched_t \<Rightarrow> kb_t \<Rightarrow> u8 list \<Rightarrow> (sched_t \<times> kb_t) result" where
  "handle_all s k [] = Inr (s, k)"
| "handle_all s k (b # bs) = bindr (keyboard_handler s k 0x21 b) (\<lambda>(s, k). handle_all s k bs)"

section \<open>The driver implements the decoder\<close>

definition key_row :: "akb \<Rightarrow> nat \<Rightarrow> u8 list" where
  "key_row a i = [fst (layout i), snd (layout i), bool_byte ((i, False) \<in> a_down a), bool_byte ((i, True) \<in> a_down a)]"

definition kb_rep :: "kb_t \<Rightarrow> akb \<Rightarrow> bool" where
  "kb_rep k a \<longleftrightarrow> kb_map k = map (key_row a) [0..<96] \<and> kb_caps k = a_caps a \<and> kb_scr k = a_scr a
     \<and> kb_num k = a_num a \<and> kb_ext k = a_ext a"

lemma length_keymap: "length keymap = 96"
  by (simp add: keymap_def)

lemma keymap_rows: "\<forall>r\<in>set keymap. length r = 4 \<and> r ! 2 = 0 \<and> r ! 3 = 0"
  by (simp add: keymap_def)

lemma keymap_rep: "keymap = map (key_row \<lparr>a_caps = c, a_scr = s, a_num = n, a_ext = e, a_down = {}\<rparr>) [0..<96]"
proof (rule nth_equalityI)
  fix i assume "i < length keymap"
  then have i: "i < 96" and r: "length (keymap ! i) = 4" "keymap ! i ! 2 = 0" "keymap ! i ! 3 = 0"
    using keymap_rows by (auto simp: length_keymap)
  have "keymap ! i = [keymap ! i ! 0, keymap ! i ! 1, 0, 0]"
    by (rule nth_equalityI) (use r in \<open>auto simp: less_Suc_eq numeral_2_eq_2 numeral_3_eq_3 nth_Cons' numeral_Bit0\<close>)
  then show "keymap ! i = map (key_row \<lparr>a_caps = c, a_scr = s, a_num = n, a_ext = e, a_down = {}\<rparr>) [0..<96] ! i"
    using i by (simp add: key_row_def layout_def bool_byte_def)
qed (simp add: length_keymap)

lemma rep_cell:
  "kb_rep k a \<Longrightarrow> i < 96 \<Longrightarrow> j < 4 \<Longrightarrow> key_cell k i j = Inr (key_row a i ! j)"
  by (simp add: kb_rep_def key_cell_def key_row_def)

lemma rep_set:
  assumes "kb_rep k a" "i < 96"
  shows "set_key_cell k i (if e then 3 else 2) (bool_byte v)
    = Inr (k\<lparr>kb_map := map (key_row (a\<lparr>a_down := (if v then insert (i, e) (a_down a) else a_down a - {(i, e)})\<rparr>)) [0..<96]\<rparr>)"
proof -
  have "(map (key_row a) [0..<96])[i := (key_row a i)[(if e then 3 else 2) := bool_byte v]]
      = map (key_row (a\<lparr>a_down := (if v then insert (i, e) (a_down a) else a_down a - {(i, e)})\<rparr>)) [0..<96]"
    by (rule nth_equalityI)
       (use assms(2) in \<open>auto simp: nth_list_update key_row_def bool_byte_def numeral_2_eq_2 numeral_3_eq_3\<close>)
  then show ?thesis using assms by (simp add: set_key_cell_def kb_rep_def key_row_def)
qed

lemma u8_bound: "unat (b :: u8) < 256"
  using unsigned_less [of b, where ?'a = nat] by simp

lemma unat_ucast_byte: "unat (ucast (b :: u8) :: u16) = unat b"
  using u8_bound [of b] by (simp add: unsigned_ucast_eq take_bit_nat_eq_self)

lemma scan_key:
  "unat ((ucast (b :: u8) :: u16) AND 0x7f) = unat b mod 128"
  "unat ((ucast b OR 0xe000 :: u16) AND 0x7f) = unat b mod 128"
proof -
  have m: "(0x7f :: u16) = mask 7" by (simp add: mask_eq_exp_minus_1)
  have t: "take_bit 7 (0xe000 :: u16) = 0" by simp
  have u: "unat (take_bit 7 (ucast b :: u16)) = unat b mod 128"
    unfolding unsigned_take_bit_eq unat_ucast_byte by (simp add: take_bit_eq_mod)
  show "unat ((ucast b :: u16) AND 0x7f) = unat b mod 128" unfolding m take_bit_eq_mask [symmetric] by (rule u)
  show "unat ((ucast b OR 0xe000 :: u16) AND 0x7f) = unat b mod 128"
    unfolding m take_bit_eq_mask [symmetric] take_bit_or t by (simp add: u)
qed

lemma scan_break:
  "(ucast (b :: u8) :: u16) AND 0x80 = 0 \<longleftrightarrow> unat b < 128"
  "(ucast b OR 0xe000 :: u16) AND 0x80 = 0 \<longleftrightarrow> unat b < 128"
proof -
  have p: "(0x80 :: u16) = 2 ^ 7" by simp
  have b: "bit (ucast b :: u16) 7 \<longleftrightarrow> \<not> unat b < 128"
  proof -
    have "bit (ucast b :: u16) 7 \<longleftrightarrow> odd (unat b div 128)"
    proof -
      have "bit (ucast b :: u16) 7 \<longleftrightarrow> bit (unat (ucast b :: u16)) 7" by (simp add: bit_unsigned_iff)
      then show ?thesis unfolding unat_ucast_byte by (simp add: bit_iff_odd)
    qed
    moreover have "odd (unat b div 128) \<longleftrightarrow> \<not> unat b < 128"
    proof (cases "unat b < 128")
      case False
      then have "unat b div 128 = 1" using u8_bound [of b] by (intro div_nat_eqI) simp_all
      then show ?thesis using False by simp
    qed simp
    ultimately show ?thesis by simp
  qed
  show "(ucast (b :: u8) :: u16) AND 0x80 = 0 \<longleftrightarrow> unat b < 128"
    unfolding p and_exp_eq_0_iff_not_bit using b by simp
  show "(ucast b OR 0xe000 :: u16) AND 0x80 = 0 \<longleftrightarrow> unat b < 128"
    unfolding p and_exp_eq_0_iff_not_bit using b by (simp add: bit_or_iff)
qed

lemma scan_prefix: "(ucast (b :: u8) :: u16) = 0xe0 \<longleftrightarrow> b = 0xe0"
  by (simp add: word_unat_eq_iff unat_ucast_byte)

lemma rep_press:
  assumes "kb_rep k a" "i < 96"
  shows "\<exists>k'. set_key_cell k i (if e then 3 else 2) 1 = Inr k' \<and> kb_rep k' (a\<lparr>a_down := insert (i, e) (a_down a)\<rparr>)
    \<and> kb_fifo k' = kb_fifo k \<and> kb_waiter k' = kb_waiter k"
  using rep_set [OF assms, of e True] assms(1) by (simp add: kb_rep_def bool_byte_def)

lemma rep_release:
  assumes "kb_rep k a" "i < 96"
  shows "\<exists>k'. set_key_cell k i (if e then 3 else 2) 0 = Inr k' \<and> kb_rep k' (a\<lparr>a_down := a_down a - {(i, e)}\<rparr>)
    \<and> kb_fifo k' = kb_fifo k \<and> kb_waiter k' = kb_waiter k"
  using rep_set [OF assms, of e False] assms(1) by (simp add: kb_rep_def bool_byte_def)

lemma key_row_down: "a_down a = a_down a' \<Longrightarrow> key_row a = key_row a'"
  by (rule ext) (simp add: key_row_def)

lemma rep_lock_keys:
  assumes "kb_rep k a"
  shows "kb_rep (lock_keys k i) (a\<lparr>a_num := (a_num a \<noteq> (i = KEY_NUMLOCK)), a_caps := (a_caps a \<noteq> (i = KEY_CAPSLOCK)),
      a_scr := (a_scr a \<noteq> (i = KEY_SCRLOCK))\<rparr>)" (is "kb_rep _ ?a")
    and "kb_fifo (lock_keys k i) = kb_fifo k" "kb_waiter (lock_keys k i) = kb_waiter k"
proof -
  have row: "key_row ?a = key_row a" by (rule key_row_down) simp
  show "kb_rep (lock_keys k i) ?a"
    using assms unfolding kb_rep_def row
    by (simp add: lock_keys_def set_leds_def KEY_NUMLOCK_def KEY_CAPSLOCK_def KEY_SCRLOCK_def)
qed (simp_all add: lock_keys_def set_leds_def)

lemma rep_char:
  assumes "kb_rep k a" "i < 96"
  shows "\<exists>ch. key_char k i (if e then 3 else 2) = Inr ch \<and> typed a i e = (if ch = INV then [] else [ch])"
proof -
  have sh: "shift_state k = Inr (shifted a)"
    using rep_cell [OF assms(1), of KEY_SHIFT_L 2] rep_cell [OF assms(1), of KEY_SHIFT_R 2]
    by (auto simp: shift_state_def KEY_SHIFT_L_def KEY_SHIFT_R_def shifted_def key_row_def bool_byte_def)
  have c: "key_cell k i 0 = Inr (fst (layout i))" "key_cell k i 1 = Inr (snd (layout i))"
    using rep_cell [OF assms, of 0] rep_cell [OF assms, of 1] by (simp_all add: key_row_def)
  have caps: "kb_caps k = a_caps a" using assms(1) by (simp add: kb_rep_def)
  have both: "key_cell k i (if up then 1 else 0) = Inr (if up then snd (layout i) else fst (layout i))" for up
    using c by simp
  have lower: "(a_caps a \<and> letter i) \<noteq> shifted a
      \<longleftrightarrow> (if shifted a then \<not> (a_caps a \<and> letter i) else a_caps a \<and> letter i)" by simp
  show ?thesis
  proof (cases "e \<and> i \<noteq> KEY_SLASH")
    case True
    then show ?thesis
      unfolding key_char_def c caps bindr_Inr Let_def sh typed_def by simp
  next
    case False
    then have n: "\<not> ((if e then 3 else 2 :: nat) = 3 \<and> i \<noteq> KEY_SLASH)" by auto
    show ?thesis
      unfolding key_char_def c caps bindr_Inr Let_def sh typed_def lower letter_def [symmetric]
        if_not_P [OF n] if_not_P [OF False] both by simp
  qed
qed

text \<open>One scan code.\<close>

definition kb_idle :: "kb_t \<Rightarrow> akb \<Rightarrow> u8 list \<Rightarrow> bool" where
  "kb_idle k a xs \<longleftrightarrow> kb_rep k a \<and> kb_waiter k = None \<and> ring_rep (kb_fifo k) xs \<and> ring_room (kb_fifo k) = 63"

lemma idle_len: "kb_idle k a xs \<Longrightarrow> length xs \<le> 63"
  using ring_count_le [of "kb_fifo k"] length_ring_bytes [of "kb_fifo k"] by (auto simp: kb_idle_def ring_rep_def)

lemma keyboard_handler_decode:
  assumes "kb_idle k a xs"
  shows "\<exists>k'. keyboard_handler s k 0x21 b = Inr (s, k') \<and> kb_idle k' (fst (decode a b)) (youngest 63 (xs @ snd (decode a b)))"
proof (cases "b = 0xe0")
  case True
  then show ?thesis using assms idle_len [OF assms]
    by (auto simp: keyboard_handler_def Let_def scan_prefix decode_def kb_idle_def kb_rep_def youngest_all
        intro!: map_cong fun_cong [OF key_row_down])
next
  case False
  define e where "e = kb_ext k"
  define key where "key = unat b mod 128"
  define sc where "sc = (if e then ucast b OR 0xe000 else ucast b :: u16)"
  have sc: "unat (sc AND 0x7f) = key" "sc AND 0x80 = 0 \<longleftrightarrow> unat b < 128"
    using scan_key [of b] scan_break [of b] by (auto simp: sc_def key_def)
  have "key < 128" by (simp add: key_def)
  then have "sc AND 0x7f \<noteq> CODE_PRINT_SCREEN_DOWN"
    using sc(1) by (auto simp: CODE_PRINT_SCREEN_DOWN_def dest: arg_cong [where f = unat])
  note mk = this sc(1)
  define k0 where "k0 = k\<lparr>kb_ext := False\<rparr>"
  define a0 where "a0 = a\<lparr>a_ext := False\<rparr>"
  have rep: "kb_rep k0 a0" and idle: "kb_fifo k0 = kb_fifo k" "kb_waiter k0 = None" and ae: "a_ext a = e"
    using assms by (auto simp: kb_idle_def kb_rep_def k0_def a0_def e_def key_row_def [abs_def])
  have ring: "ring_rep (kb_fifo k) xs" "ring_room (kb_fifo k) = 63" using assms by (simp_all add: kb_idle_def)
  have len: "length xs \<le> 63" by (rule idle_len [OF assms])
  have run: "keyboard_handler s k 0x21 b =
     (if KEY_PRINT_SCREEN < key then Inr (s, k0)
      else if \<not> unat b < 128 then bindr (set_key_cell k0 key (if e then 3 else 2) 0) (\<lambda>k. Inr (s, k))
      else bindr (set_key_cell k0 key (if e then 3 else 2) 1) (\<lambda>k.
           let k = lock_keys k key
           in bindr (key_char k key (if e then 3 else 2)) (\<lambda>ch.
              if ch = INV then Inr (s, k)
              else bindr (fifo_put (kb_fifo k) ch) (\<lambda>f. wake_waiter s (k\<lparr>kb_fifo := f\<rparr>)))))"
    using False mk sc(2)
    unfolding keyboard_handler_def Let_def scan_prefix e_def [symmetric] sc_def [symmetric] k0_def [symmetric]
      if_not_P [OF mk(1)] mk(2)
    by simp
  have dec: "decode a b = (if KEY_PRINT_SCREEN < key then (a0, [])
      else if \<not> unat b < 128 then (a0\<lparr>a_down := a_down a0 - {(key, e)}\<rparr>, [])
      else let a = a0\<lparr>a_down := insert (key, e) (a_down a0)\<rparr>;
               a = a\<lparr>a_num := (a_num a \<noteq> (key = KEY_NUMLOCK)), a_caps := (a_caps a \<noteq> (key = KEY_CAPSLOCK)),
                     a_scr := (a_scr a \<noteq> (key = KEY_SCRLOCK))\<rparr>
           in (a, typed a key e))"
    using False by (simp add: decode_def Let_def key_def a0_def ae not_less)
  show ?thesis
  proof (cases "KEY_PRINT_SCREEN < key")
    case True
    then show ?thesis using run dec rep idle ring len by (simp add: kb_idle_def youngest_all)
  next
    case small: False
    then have k96: "key < 96" by (simp add: KEY_PRINT_SCREEN_def)
    show ?thesis
    proof (cases "unat b < 128")
      case False
      from rep_release [OF rep k96, of e] show ?thesis
        using run dec small False idle ring len by (auto simp: kb_idle_def youngest_all)
    next
      case press: True
      from rep_press [OF rep k96, of e] obtain k1 where k1: "set_key_cell k0 key (if e then 3 else 2) 1 = Inr k1"
        "kb_rep k1 (a0\<lparr>a_down := insert (key, e) (a_down a0)\<rparr>)" "kb_fifo k1 = kb_fifo k0" "kb_waiter k1 = kb_waiter k0" by auto
      define a2 where "a2 = (let a = a0\<lparr>a_down := insert (key, e) (a_down a0)\<rparr> in
        a\<lparr>a_num := (a_num a \<noteq> (key = KEY_NUMLOCK)), a_caps := (a_caps a \<noteq> (key = KEY_CAPSLOCK)),
           a_scr := (a_scr a \<noteq> (key = KEY_SCRLOCK))\<rparr>)"
      have k2: "kb_rep (lock_keys k1 key) a2" "kb_fifo (lock_keys k1 key) = kb_fifo k" "kb_waiter (lock_keys k1 key) = None"
        using rep_lock_keys [OF k1(2), of key] rep_lock_keys(2,3) [OF k1(2)] k1(3,4) idle by (simp_all add: a2_def Let_def)
      have dec2: "decode a b = (a2, typed a2 key e)" using dec small press by (simp add: a2_def Let_def)
      from rep_char [OF k2(1) k96, of e] obtain ch where ch: "key_char (lock_keys k1 key) key (if e then 3 else 2) = Inr ch"
        "typed a2 key e = (if ch = INV then [] else [ch])" by blast
      obtain f where f: "fifo_put (kb_fifo k) ch = Inr f" "ring_rep f (ring_put 63 xs ch)" "ring_room f = 63"
        using fifo_put_ring [OF ring(1), of ch] ring(2) by metis
      have "kb_rep (lock_keys k1 key\<lparr>kb_fifo := f\<rparr>) a2" using k2(1) by (simp add: kb_rep_def)
      then show ?thesis
        using run small press k1(1) ch k2 f len ring
        by (auto simp: dec2 kb_idle_def youngest_all wake_waiter_def Let_def ring_put_youngest)
    qed
  qed
qed

lemma handler_lock: "keyboard_handler s k v b = Inr (s', k') \<Longrightarrow> kb_lock k' = kb_lock k"
  unfolding keyboard_handler_def Let_def
  by (auto simp: set_key_cell_def lock_keys_def set_leds_def wake_waiter_def bindr_Inr_iff split: if_splits option.splits)

lemma handle_all_decode:
  "kb_idle k a xs \<Longrightarrow>
   \<exists>k'. handle_all s k bs = Inr (s, k') \<and> kb_idle k' (fst (decode_all a bs)) (youngest 63 (xs @ snd (decode_all a bs)))
     \<and> kb_lock k' = kb_lock k"
proof (induction bs arbitrary: k a xs)
  case Nil
  then show ?case using idle_len [OF Nil] by (auto simp: youngest_all)
next
  case (Cons b bs)
  obtain a1 cs where d: "decode a b = (a1, cs)" by fastforce
  obtain a2 ds where e: "decode_all a1 bs = (a2, ds)" by fastforce
  from keyboard_handler_decode [OF Cons.prems, of s b] d obtain k1 where
    k1: "keyboard_handler s k 0x21 b = Inr (s, k1)" "kb_idle k1 a1 (youngest 63 (xs @ cs))" by auto
  have "kb_lock k1 = kb_lock k" using k1(1) by (rule handler_lock)
  with Cons.IH [OF k1(2)] k1(1) show ?case by (auto simp: d e youngest_youngest)
qed

lemma idle_read:
  "kb_idle k a xs \<Longrightarrow> n \<le> length xs \<Longrightarrow>
   \<exists>k'. kb_loop s k buf n = kb_finish s k' (buf @ take n xs) \<and> kb_lock k' = kb_lock k"
proof (induction n arbitrary: k xs buf)
  case (Suc n)
  then obtain x ys where xs: "xs = x # ys" by (cases xs) auto
  with Suc.prems have r: "ring_rep (kb_fifo k) (x # ys)" by (simp add: kb_idle_def)
  then have ne: "\<not> fifo_empty (kb_fifo k)"
    using length_ring_bytes [of "kb_fifo k"] by (auto simp: ring_rep_def fifo_empty_count)
  from fifo_get_ring [OF r] obtain f where
    f: "fifo_get (kb_fifo k) = Inr (f, x)" "ring_rep f ys" "ring_room f = ring_room (kb_fifo k)" .
  then have "kb_idle (k\<lparr>kb_fifo := f\<rparr>) a ys" using Suc.prems(1) by (simp add: kb_idle_def kb_rep_def)
  from Suc.IH [OF this, of "buf @ [x]"] Suc.prems(2) obtain k' where
    "kb_loop s (k\<lparr>kb_fifo := f\<rparr>) (buf @ [x]) n = kb_finish s k' (buf @ take (Suc n) xs)" "kb_lock k' = kb_lock k"
    by (auto simp: xs)
  with ne f(1) show ?case by auto
qed auto

definition unpressed :: akb where
  "unpressed = \<lparr>a_caps = False, a_scr = False, a_num = False, a_ext = False, a_down = {}\<rparr>"

lemma keyboard_init_idle:
  assumes "keyboard_init s l buf = (s0, k)" "length buf = 64"
  shows "kb_idle k unpressed []" and "kb_lock k = free_lock l"
    and "s_links s0 = list_init (s_links s) (tlist l)"
  using assms fifo_init_ring [of BUFFER_SIZE buf] keymap_rep [of False False False False]
  by (auto simp: keyboard_init_def lock_init_def mutex_init_def set_leds_def kb_idle_def kb_rep_def unpressed_def BUFFER_SIZE_def free_lock_def)

lemma read_typed:
  assumes "kb_idle k a xs" "kb_lock k = free_lock l"
    and "s_links s = list_init h (tlist l)" "unat n \<le> length xs"
  shows "\<exists>s' k'. keyboard_read s k n = Inr (Kb_Done s' k' (take (unat n) xs))"
proof -
  have emp: "list_empty (s_links s) (tlist l)"
    using list_empty_dll [OF list_init_dll [of "tlist l" h]] assms(3) by (simp add: tlist_def)
  obtain s1 lk s2 lk2 where lock: "lock_acquire s (free_lock l) = Inr (Lock_Taken s1 lk)" "lock_release s1 lk = Inr (s2, lk2)"
    by (rule lock_round [OF emp])
  have idle: "kb_idle (k\<lparr>kb_lock := lk\<rparr>) a xs" using assms(1) by (simp add: kb_idle_def kb_rep_def)
  from idle_read [OF idle assms(4), of s1 "[]"] obtain k' where
    "kb_loop s1 (k\<lparr>kb_lock := lk\<rparr>) [] (unat n) = kb_finish s1 k' (take (unat n) xs)" "kb_lock k' = lk" by auto
  with lock assms(2) show ?thesis by (auto simp: keyboard_read_def kb_finish_def)
qed

text \<open>
  C22. The keyboard types what the reference decoder says.  After \<open>keyboard_init\<close> on a buffer of 64
  bytes, the interrupt handler takes every sequence of scan codes without failing (whatever
  prefixes, repeated or stray codes it holds, so no access leaves the table), and a
  \<open>keyboard_read\<close> of no more characters than are there returns the first of the youngest 63
  characters that the decoder, which knows only key states and the layout, makes of the sequence.
\<close>
theorem keyboard_types:
  assumes "keyboard_init s l buf = (s0, k0)" "length buf = 64"
  shows "\<exists>k. handle_all s0 k0 bs = Inr (s0, k)
    \<and> (\<forall>n. unat n \<le> length (youngest 63 (snd (decode_all unpressed bs))) \<longrightarrow>
         (\<exists>s' k'. keyboard_read s0 k n = Inr (Kb_Done s' k' (take (unat n) (youngest 63 (snd (decode_all unpressed bs)))))))"
proof -
  note init = keyboard_init_idle [OF assms]
  from handle_all_decode [OF init(1), of s0 bs] obtain k where
    k: "handle_all s0 k0 bs = Inr (s0, k)" "kb_idle k (fst (decode_all unpressed bs)) (youngest 63 (snd (decode_all unpressed bs)))"
    "kb_lock k = kb_lock k0" by auto
  from read_typed [OF k(2) _ init(3)] k(1,3) init(2) show ?thesis by auto
qed

text \<open>Shift, \<open>a\<close>, release of shift, \<open>a\<close>: an upper and a lower case letter.\<close>

lemma keyboard_types_witness:
  "\<exists>s0 k0 k s' k'. keyboard_init demo_sched 2 (replicate 64 0) = (s0, k0)
     \<and> handle_all s0 k0 [0x2a, 0x1e, 0xaa, 0x9e, 0x1e] = Inr (s0, k)
     \<and> keyboard_read s0 k 2 = Inr (Kb_Done s' k' [0x41, 0x61])"
proof -
  obtain s0 k0 where i: "keyboard_init demo_sched 2 (replicate 64 0) = (s0, k0)" by fastforce
  have d: "snd (decode_all unpressed [0x2a, 0x1e, 0xaa, 0x9e, 0x1e]) = [0x41, 0x61]"
    by (simp add: unpressed_def decode_def typed_def layout_def letter_def shifted_def keymap_def Let_def INV_def
        KEY_SHIFT_L_def KEY_SHIFT_R_def KEY_SLASH_def KEY_PRINT_SCREEN_def KEY_NUMLOCK_def KEY_CAPSLOCK_def KEY_SCRLOCK_def)
  from keyboard_types [OF i, of "[0x2a, 0x1e, 0xaa, 0x9e, 0x1e]"] obtain k where
    k: "handle_all s0 k0 [0x2a, 0x1e, 0xaa, 0x9e, 0x1e] = Inr (s0, k)"
    "\<forall>n. unat n \<le> length (youngest 63 [0x41, 0x61 :: u8]) \<longrightarrow>
       (\<exists>s' k'. keyboard_read s0 k n = Inr (Kb_Done s' k' (take (unat n) (youngest 63 [0x41, 0x61]))))"
    unfolding d by auto
  from k(2) [rule_format, of 2] obtain s' k' where "keyboard_read s0 k 2 = Inr (Kb_Done s' k' [0x41, 0x61])"
    by (auto simp: youngest_def)
  with i k(1) show ?thesis by blast
qed

end
