(* ===== verification/Ylos_Console.thy ===== *)
theory Ylos_Console
  imports Ylos_Prelude
begin

text \<open>
  kernel/console.c: the text console, with the beeper of kernel/clock.c that it rings.  The state
  holds the window \<open>screen\<close> into video memory, the address \<open>pos\<close> of the cursor and its coordinates,
  the memory, the registers of the display controller as a function of their index, the speaker
  port, and the interrupt flag.  The reference terminal has 25 rows of 80 cells and no memory
  around them.
\<close>

section \<open>The code\<close>

definition CRT_START_ADDR_H :: u8 where "CRT_START_ADDR_H = 0xc"
definition CRT_START_ADDR_L :: u8 where "CRT_START_ADDR_L = 0xd"
definition CRT_CURSOR_H :: u8 where "CRT_CURSOR_H = 0xe"
definition CRT_CURSOR_L :: u8 where "CRT_CURSOR_L = 0xf"
definition MEM_BASE :: u32 where "MEM_BASE = 0xb8000"
definition MEM_SIZE :: u32 where "MEM_SIZE = 0x4000"
definition MEM_END :: u32 where "MEM_END = MEM_BASE + MEM_SIZE"
definition WIDTH :: u32 where "WIDTH = 80"
definition HEIGHT :: u32 where "HEIGHT = 25"
definition ROW_SIZE :: u32 where "ROW_SIZE = WIDTH * 2"
definition SCR_SIZE :: u32 where "SCR_SIZE = ROW_SIZE * HEIGHT"
definition ASCII_NUL :: u8 where "ASCII_NUL = 0x00"
definition ASCII_ENQ :: u8 where "ASCII_ENQ = 0x05"
definition ASCII_ESC :: u8 where "ASCII_ESC = 0x1b"
definition ASCII_BEL :: u8 where "ASCII_BEL = 0x07"
definition ASCII_BS :: u8 where "ASCII_BS = 0x08"
definition ASCII_HT :: u8 where "ASCII_HT = 0x09"
definition ASCII_LF :: u8 where "ASCII_LF = 0x0a"
definition ASCII_VT :: u8 where "ASCII_VT = 0x0b"
definition ASCII_FF :: u8 where "ASCII_FF = 0x0c"
definition ASCII_CR :: u8 where "ASCII_CR = 0x0d"
definition ASCII_DEL :: u8 where "ASCII_DEL = 0x7f"
definition attr :: u8 where "attr = 7"
definition erase :: u16 where "erase = 0x0720"

record console_t =
  c_screen :: u32
  c_pos :: u32
  c_x :: u32
  c_y :: u32
  c_mem :: "u32 \<Rightarrow> u8"
  c_crt :: "u8 \<Rightarrow> u8"
  c_intr :: bool
  c_jiffies :: u32
  c_beeping :: bool
  c_speaker :: u8

text \<open>\<open>outb\<close> to the index register and then to the data register, and the same with \<open>inb\<close>.\<close>

definition crt_out :: "u8 \<Rightarrow> u32 \<Rightarrow> console_t \<Rightarrow> console_t" where
  "crt_out r v c = c\<lparr>c_crt := (c_crt c)(r := ucast (v AND 0xff))\<rparr>"

definition crt_in :: "u8 \<Rightarrow> console_t \<Rightarrow> u32" where
  "crt_in r c = ucast (c_crt c r)"

definition get_screen :: "console_t \<Rightarrow> console_t" where
  "get_screen c =
     (let screen = push_bit 8 (crt_in CRT_START_ADDR_H c);
          screen = screen OR crt_in CRT_START_ADDR_L c
      in c\<lparr>c_screen := push_bit 1 screen + MEM_BASE\<rparr>)"

definition set_screen :: "console_t \<Rightarrow> console_t" where
  "set_screen c =
     crt_out CRT_START_ADDR_L (drop_bit 1 (c_screen c - MEM_BASE))
       (crt_out CRT_START_ADDR_H (drop_bit 9 (c_screen c - MEM_BASE)) c)"

definition get_cursor :: "console_t \<Rightarrow> console_t" where
  "get_cursor c =
     (let pos = push_bit 8 (crt_in CRT_CURSOR_H c);
          pos = pos OR crt_in CRT_CURSOR_L c;
          c = get_screen c;
          pos = push_bit 1 pos + MEM_BASE;
          delta = drop_bit 1 (pos - c_screen c)
      in c\<lparr>c_pos := pos, c_x := delta mod WIDTH, c_y := delta div WIDTH\<rparr>)"

definition set_cursor :: "console_t \<Rightarrow> console_t" where
  "set_cursor c =
     crt_out CRT_CURSOR_L (drop_bit 1 (c_pos c - MEM_BASE))
       (crt_out CRT_CURSOR_H (drop_bit 9 (c_pos c - MEM_BASE)) c)"

definition put_u16 :: "(u32 \<Rightarrow> u8) \<Rightarrow> u32 \<Rightarrow> u16 \<Rightarrow> u32 \<Rightarrow> u8" where
  "put_u16 m p v = m(p := ucast v, p + 1 := ucast (drop_bit 8 v))"

definition put_u32 :: "(u32 \<Rightarrow> u8) \<Rightarrow> u32 \<Rightarrow> u32 \<Rightarrow> u32 \<Rightarrow> u8" where
  "put_u32 m p v = m(p := ucast v, p + 1 := ucast (drop_bit 8 v), p + 2 := ucast (drop_bit 16 v), p + 3 := ucast (drop_bit 24 v))"

fun copy_mem :: "(u32 \<Rightarrow> u8) \<Rightarrow> u32 \<Rightarrow> u32 \<Rightarrow> nat \<Rightarrow> u32 \<Rightarrow> u8" where
  "copy_mem m dest src 0 = m"
| "copy_mem m dest src (Suc n) = copy_mem (m(dest := m src)) (dest + 1) (src + 1) n"

fun erase_row :: "(u32 \<Rightarrow> u8) \<Rightarrow> u32 \<Rightarrow> nat \<Rightarrow> u32 \<Rightarrow> u8" where
  "erase_row m ptr 0 = m"
| "erase_row m ptr (Suc n) = erase_row (put_u32 m ptr (ucast erase)) (ptr + 4) n"

definition rewind :: "console_t \<Rightarrow> console_t" where
  "rewind c = c\<lparr>c_mem := copy_mem (c_mem c) MEM_BASE (c_screen c) (unat SCR_SIZE),
     c_pos := c_pos c - (c_screen c - MEM_BASE), c_screen := MEM_BASE\<rparr>"

definition scroll_up :: "console_t \<Rightarrow> console_t" where
  "scroll_up c =
     (let c = (if MEM_END \<le> c_screen c + SCR_SIZE + ROW_SIZE then rewind c else c);
          c = c\<lparr>c_mem := erase_row (c_mem c) (c_screen c + SCR_SIZE) (unat WIDTH)\<rparr>
      in set_screen (c\<lparr>c_screen := c_screen c + ROW_SIZE, c_pos := c_pos c + ROW_SIZE\<rparr>))"

definition command_lf :: "console_t \<Rightarrow> console_t" where
  "command_lf c =
     (if c_y c + 1 < HEIGHT then c\<lparr>c_y := c_y c + 1, c_pos := c_pos c + ROW_SIZE\<rparr> else scroll_up c)"

definition command_cr :: "console_t \<Rightarrow> console_t" where
  "command_cr c = c\<lparr>c_pos := c_pos c - push_bit 1 (c_x c), c_x := 0\<rparr>"

definition command_bs :: "console_t \<Rightarrow> console_t" where
  "command_bs c =
     (if c_x c \<noteq> 0
      then let c = c\<lparr>c_x := c_x c - 1, c_pos := c_pos c - 2\<rparr> in c\<lparr>c_mem := put_u16 (c_mem c) (c_pos c) erase\<rparr>
      else c)"

definition command_del :: "console_t \<Rightarrow> console_t" where
  "command_del c = c\<lparr>c_mem := put_u16 (c_mem c) (c_pos c) erase\<rparr>"

function clear_loop :: "(u32 \<Rightarrow> u8) \<Rightarrow> u32 \<Rightarrow> u32 \<Rightarrow> u8" where
  "clear_loop m ptr = (if ptr < MEM_END then clear_loop (put_u16 m ptr erase) (ptr + 2) else m)"
  by auto
termination
proof (relation "measure (\<lambda>(m, ptr). unat MEM_END - unat ptr)")
  fix m and ptr :: u32 assume "ptr < MEM_END"
  then have "unat ptr < 0xbc000" by (simp add: word_less_nat_alt MEM_END_def MEM_BASE_def MEM_SIZE_def)
  then show "((put_u16 m ptr erase, ptr + 2), m, ptr) \<in> measure (\<lambda>(m, ptr). unat MEM_END - unat ptr)"
    by (simp add: unat_add_small MEM_END_def MEM_BASE_def MEM_SIZE_def)
qed simp

definition console_clear :: "console_t \<Rightarrow> console_t" where
  "console_clear c =
     (let c = c\<lparr>c_screen := MEM_BASE, c_pos := MEM_BASE, c_x := 0, c_y := 0\<rparr>;
          c = set_screen (set_cursor c)
      in c\<lparr>c_mem := clear_loop (c_mem c) MEM_BASE\<rparr>)"

text \<open>\<open>beeping\<close> is a \<open>bool\<close>: it only records that the sum is not zero.\<close>

definition start_beep :: "console_t \<Rightarrow> console_t" where
  "start_beep c =
     (let c = (if \<not> c_beeping c then c\<lparr>c_speaker := c_speaker c OR 0b11\<rparr> else c)
      in c\<lparr>c_beeping := (c_jiffies c + 5 \<noteq> 0)\<rparr>)"

definition stop_beep :: "console_t \<Rightarrow> console_t" where
  "stop_beep c =
     (if c_beeping c \<and> (if c_beeping c then 1 else 0) < c_jiffies c
      then c\<lparr>c_speaker := c_speaker c AND 0xfc, c_beeping := False\<rparr> else c)"

definition put_char :: "u8 \<Rightarrow> console_t \<Rightarrow> console_t" where
  "put_char ch c =
     (let c = (if WIDTH \<le> c_x c then command_lf (c\<lparr>c_x := c_x c - WIDTH, c_pos := c_pos c - ROW_SIZE\<rparr>) else c);
          c = c\<lparr>c_mem := (c_mem c)(c_pos c := ch), c_pos := c_pos c + 1\<rparr>;
          c = c\<lparr>c_mem := (c_mem c)(c_pos c := attr), c_pos := c_pos c + 1\<rparr>
      in c\<lparr>c_x := c_x c + 1\<rparr>)"

definition console_char :: "u8 \<Rightarrow> console_t \<Rightarrow> console_t" where
  "console_char ch c =
     (if ch = ASCII_NUL \<or> ch = ASCII_ENQ \<or> ch = ASCII_ESC then c
      else if ch = ASCII_BEL then start_beep c
      else if ch = ASCII_BS then command_bs c
      else if ch = ASCII_HT then c
      else if ch = ASCII_LF then command_cr (command_lf c)
      else if ch = ASCII_VT then c
      else if ch = ASCII_FF then command_lf c
      else if ch = ASCII_CR then command_cr c
      else if ch = ASCII_DEL then command_del c
      else put_char ch c)"

text \<open>The loop \<open>while (nr++ < count)\<close>: the comparison is unsigned, \<open>nr\<close> is one more after it fails.\<close>

function console_loop :: "console_t \<Rightarrow> u8 list \<Rightarrow> u32 \<Rightarrow> u32 \<Rightarrow> (console_t \<times> u32) result" where
  "console_loop c buf nr count =
     (if nr < count then bindr (load_at buf (unat nr)) (\<lambda>ch. console_loop (console_char ch c) buf (nr + 1) count)
      else Inr (c, nr + 1))"
  by auto
termination
proof (relation "measure (\<lambda>(c, buf, nr, count). unat count - unat nr)")
  fix c and buf :: "u8 list" and nr count :: u32 and ch
  assume "nr < count"
  then have "unat nr < unat count" by (simp add: word_less_nat_alt)
  moreover have "unat (nr + 1) = Suc (unat nr)" using \<open>nr < count\<close> by (rule unat_step)
  ultimately show "((console_char ch c, buf, nr + 1, count), c, buf, nr, count) \<in> measure (\<lambda>(c, buf, nr, count). unat count - unat nr)"
    by simp
qed simp

declare clear_loop.simps [simp del] console_loop.simps [simp del]

definition console_write :: "console_t \<Rightarrow> u8 list \<Rightarrow> u32 \<Rightarrow> (console_t \<times> u32) result" where
  "console_write c buf count =
     (let intr = c_intr c; c = c\<lparr>c_intr := False\<rparr>
      in bindr (console_loop c buf 0 count) (\<lambda>(c, nr). Inr ((set_cursor c)\<lparr>c_intr := intr\<rparr>, nr)))"

section \<open>The reference terminal\<close>

record term_t =
  t_cells :: "u8 list"
  t_x :: nat
  t_y :: nat

definition blank_row :: "u8 list" where
  "blank_row = map (\<lambda>i. [0x20, 7, 0, 0] ! (i mod 4)) [0..<160]"

definition term_write :: "nat \<Rightarrow> u8 \<Rightarrow> u8 \<Rightarrow> term_t \<Rightarrow> term_t" where
  "term_write i a b t = t\<lparr>t_cells := (t_cells t)[i := a, i + 1 := b]\<rparr>"

definition term_at :: "term_t \<Rightarrow> nat" where
  "term_at t = 160 * t_y t + 2 * t_x t"

definition term_lf :: "term_t \<Rightarrow> term_t" where
  "term_lf t = (if t_y t < 24 then t\<lparr>t_y := t_y t + 1\<rparr> else t\<lparr>t_cells := drop 160 (t_cells t) @ blank_row\<rparr>)"

definition term_cr :: "term_t \<Rightarrow> term_t" where
  "term_cr t = t\<lparr>t_x := 0\<rparr>"

definition term_bs :: "term_t \<Rightarrow> term_t" where
  "term_bs t = (if t_x t = 0 then t else let t = t\<lparr>t_x := t_x t - 1\<rparr> in term_write (term_at t) 0x20 7 t)"

definition term_put :: "u8 \<Rightarrow> term_t \<Rightarrow> term_t" where
  "term_put ch t =
     (let t = (if t_x t = 80 then term_lf (term_cr t) else t); t = term_write (term_at t) ch 7 t
      in t\<lparr>t_x := t_x t + 1\<rparr>)"

definition term_char :: "u8 \<Rightarrow> term_t \<Rightarrow> term_t" where
  "term_char ch t =
     (if ch \<in> {0x00, 0x05, 0x1b, 0x07, 0x09, 0x0b} then t
      else if ch = 0x08 then term_bs t
      else if ch = 0x0a then term_cr (term_lf t)
      else if ch = 0x0c then term_lf t
      else if ch = 0x0d then term_cr t
      else if ch = 0x7f then term_write (term_at t) 0x20 7 t
      else term_put ch t)"

definition clear_cells :: "u8 list" where
  "clear_cells = map (\<lambda>i. [0x20, 7] ! (i mod 2)) [0..<4000]"

definition term_clear :: term_t where
  "term_clear = \<lparr>t_cells = clear_cells, t_x = 0, t_y = 0\<rparr>"

section \<open>Video memory\<close>

text \<open>The address of offset \<open>i\<close>, and what the console shows when its window starts at row \<open>k\<close>.\<close>

definition vaddr :: "nat \<Rightarrow> u32" where
  "vaddr i = MEM_BASE + of_nat i"

definition visible :: "(u32 \<Rightarrow> u8) \<Rightarrow> nat \<Rightarrow> u8 list" where
  "visible m k = map (\<lambda>i. m (vaddr (160 * k + i))) [0..<4000]"

definition term_at_row :: "nat \<Rightarrow> console_t \<Rightarrow> term_t \<Rightarrow> bool" where
  "term_at_row k c t \<longleftrightarrow> k \<le> 77 \<and> t_x t \<le> 80 \<and> t_y t < 25
     \<and> c_screen c = vaddr (160 * k) \<and> c_pos c = vaddr (160 * k + term_at t)
     \<and> c_x c = of_nat (t_x t) \<and> c_y c = of_nat (t_y t) \<and> visible (c_mem c) k = t_cells t"

definition term_rep :: "console_t \<Rightarrow> term_t \<Rightarrow> bool" where
  "term_rep c t \<longleftrightarrow> (\<exists>k. term_at_row k c t)"

definition outside :: "(u32 \<Rightarrow> u8) \<Rightarrow> (u32 \<Rightarrow> u8) \<Rightarrow> bool" where
  "outside m m' \<longleftrightarrow> (\<forall>a. a \<notin> vaddr ` {..<16480} \<longrightarrow> m' a = m a)"

lemma vaddr_eq [simp]: "i < 0x10000 \<Longrightarrow> j < 0x10000 \<Longrightarrow> vaddr i = vaddr j \<longleftrightarrow> i = j"
  by (simp add: vaddr_def word_of_nat_eq_iff take_bit_nat_eq_self)

lemma vaddr_add: "vaddr i + of_nat n = vaddr (i + n)"
  by (simp add: vaddr_def)

lemma vaddr_add_num [simp]: "vaddr i + 1 = vaddr (i + 1)" "vaddr i + numeral n = vaddr (i + numeral n)"
  by (simp_all add: vaddr_def)

lemma vaddr_sub: "n \<le> i \<Longrightarrow> vaddr i - of_nat n = vaddr (i - n)"
  by (simp add: vaddr_def of_nat_diff)

lemma vaddr_base: "vaddr i - MEM_BASE = of_nat i" "vaddr 0 = MEM_BASE"
  by (simp_all add: vaddr_def)

lemma unat_vaddr: "i < 0x10000 \<Longrightarrow> unat (vaddr i) = 0xb8000 + i"
  by (simp add: vaddr_def MEM_BASE_def unat_add_small)

section \<open>The loops over memory\<close>

lemma vaddr_image: "j < 0x10000 \<Longrightarrow> n \<le> 0x10000 \<Longrightarrow> vaddr j \<in> vaddr ` {..<n} \<longleftrightarrow> j < n"
proof -
  assume "j < 0x10000" "n \<le> 0x10000"
  then have "\<And>i. i < n \<Longrightarrow> vaddr j = vaddr i \<longleftrightarrow> j = i" by simp
  then show ?thesis by (auto simp: image_iff)
qed

lemma outside_refl [simp]: "outside m m"
  by (simp add: outside_def)

lemma outside_trans: "outside m m' \<Longrightarrow> outside m' m'' \<Longrightarrow> outside m m''"
  by (simp add: outside_def)

lemma outside_upd: "i < 16480 \<Longrightarrow> outside m (m(vaddr i := v))"
  by (auto simp: outside_def)

lemma outside_put16: "i + 1 < 16480 \<Longrightarrow> outside m (put_u16 m (vaddr i) v)"
  unfolding put_u16_def by (auto simp: outside_def)

lemma outside_put32: "i + 3 < 16480 \<Longrightarrow> outside m (put_u32 m (vaddr i) v)"
  unfolding put_u32_def by (auto simp: outside_def)

lemma put_u32_at:
  "j < 0x8000 \<Longrightarrow> i < 0x8000 \<Longrightarrow> put_u32 m (vaddr i) (ucast erase) (vaddr j)
    = (if i \<le> j \<and> j < i + 4 then [0x20, 7, 0, 0] ! (j - i) else m (vaddr j))"
proof -
  assume "j < 0x8000" "i < 0x8000"
  moreover have "i \<le> j \<and> j < i + 4 \<longleftrightarrow> j = i \<or> j = i + 1 \<or> j = i + 2 \<or> j = i + 3" by auto
  ultimately show ?thesis by (auto simp: put_u32_def erase_def)
qed

lemma put_u16_at:
  "j < 0x8000 \<Longrightarrow> i < 0x8000 \<Longrightarrow> put_u16 m (vaddr i) erase (vaddr j)
    = (if j = i then 0x20 else if j = i + 1 then 7 else m (vaddr j))"
  by (auto simp: put_u16_def erase_def)

lemma erase_row_at:
  "i + 4 * n < 0x8000 \<Longrightarrow> j < 0x8000 \<Longrightarrow> erase_row m (vaddr i) n (vaddr j)
    = (if i \<le> j \<and> j < i + 4 * n then [0x20, 7, 0, 0] ! ((j - i) mod 4) else m (vaddr j))"
proof (induction n arbitrary: i m)
  case (Suc n)
  from Suc.IH [of "i + 4"] Suc.prems have "erase_row m (vaddr i) (Suc n) (vaddr j)
    = (if i + 4 \<le> j \<and> j < i + 4 + 4 * n then [0x20, 7, 0, 0] ! ((j - (i + 4)) mod 4)
       else put_u32 m (vaddr i) (ucast erase) (vaddr j))" by simp
  moreover have "(j - (i + 4)) mod 4 = (j - i) mod 4" if "i + 4 \<le> j"
    using that mod_add_self2 [of "j - (i + 4)" 4] by simp
  ultimately show ?case using Suc.prems put_u32_at [of j i m] by auto
qed auto

lemma erase_row_outside: "i + 4 * n \<le> 16480 \<Longrightarrow> outside m (erase_row m (vaddr i) n)"
proof (induction n arbitrary: i m)
  case (Suc n)
  from Suc.IH [of "i + 4"] Suc.prems outside_put32 [of i m] show ?case by (auto intro: outside_trans)
qed simp

lemma copy_mem_at:
  "d \<le> s \<Longrightarrow> s + n < 0x8000 \<Longrightarrow> j < 0x8000 \<Longrightarrow> copy_mem m (vaddr d) (vaddr s) n (vaddr j)
    = (if d \<le> j \<and> j < d + n then m (vaddr (s + (j - d))) else m (vaddr j))"
proof (induction n arbitrary: d s m)
  case (Suc n)
  define m' where "m' = m(vaddr d := m (vaddr s))"
  have upd: "m' (vaddr i) = (if i = d then m (vaddr s) else m (vaddr i))" if "i < 0x10000" for i
    using that Suc.prems by (simp add: m'_def)
  have step: "copy_mem m (vaddr d) (vaddr s) (Suc n) (vaddr j) = copy_mem m' (vaddr (d + 1)) (vaddr (s + 1)) n (vaddr j)"
    unfolding m'_def by simp
  have IH: "copy_mem m' (vaddr (d + 1)) (vaddr (s + 1)) n (vaddr j)
    = (if d + 1 \<le> j \<and> j < d + 1 + n then m' (vaddr (s + 1 + (j - (d + 1)))) else m' (vaddr j))"
    by (rule Suc.IH) (use Suc.prems in simp_all)
  have shift: "s + 1 + (j - (d + 1)) = s + (j - d)" if "d + 1 \<le> j" using that by simp
  show ?case unfolding step IH using Suc.prems upd [of j] upd [of "s + (j - d)"] shift by auto
qed auto

lemma copy_mem_outside: "d + n \<le> 16480 \<Longrightarrow> outside m (copy_mem m (vaddr d) s n)"
proof (induction n arbitrary: d s m)
  case (Suc n)
  from Suc.IH [of "d + 1"] Suc.prems outside_upd [of d m] show ?case by (auto intro: outside_trans)
qed simp

lemma clear_loop_at:
  "unat (vaddr i) = 0xb8000 + i \<Longrightarrow> i \<le> 0x4000 \<Longrightarrow> even i \<Longrightarrow> j < 0x8000 \<Longrightarrow>
   clear_loop m (vaddr i) (vaddr j) = (if i \<le> j \<and> j < 0x4000 then [0x20, 7] ! (j mod 2) else m (vaddr j))"
proof (induction "0x4000 - i" arbitrary: i m rule: less_induct)
  case less
  have lt: "vaddr i < MEM_END \<longleftrightarrow> i < 0x4000"
    using less.prems(1) by (simp add: word_less_nat_alt MEM_END_def MEM_BASE_def MEM_SIZE_def)
  show ?case
  proof (cases "i < 0x4000")
    case True
    with less.prems have i2: "i + 2 \<le> 0x4000" by presburger
    have "clear_loop m (vaddr i) (vaddr j) = clear_loop (put_u16 m (vaddr i) erase) (vaddr (i + 2)) (vaddr j)"
      using True lt by (subst clear_loop.simps) simp
    also have "\<dots> = (if i + 2 \<le> j \<and> j < 0x4000 then [0x20, 7] ! (j mod 2) else put_u16 m (vaddr i) erase (vaddr j))"
      by (rule less.hyps) (use True i2 less.prems in \<open>simp_all add: unat_vaddr\<close>)
    also have "\<dots> = (if i \<le> j \<and> j < 0x4000 then [0x20, 7] ! (j mod 2) else m (vaddr j))"
    proof -
      have "i \<le> j \<longleftrightarrow> j = i \<or> j = i + 1 \<or> i + 2 \<le> j" by auto
      then show ?thesis using True i2 less.prems put_u16_at [of j i m] by (auto elim: evenE)
    qed
    finally show ?thesis .
  next
    case False
    then show ?thesis using lt by (subst clear_loop.simps) auto
  qed
qed

lemma clear_loop_outside: "i \<le> 0x4000 \<Longrightarrow> even i \<Longrightarrow> outside m (clear_loop m (vaddr i))"
proof (induction "0x4000 - i" arbitrary: i m rule: less_induct)
  case less
  have lt: "vaddr i < MEM_END \<longleftrightarrow> i < 0x4000"
    using less.prems by (simp add: unat_vaddr word_less_nat_alt MEM_END_def MEM_BASE_def MEM_SIZE_def)
  show ?case
  proof (cases "i < 0x4000")
    case True
    with less.prems have "i + 2 \<le> 0x4000" by presburger
    with less.hyps [of "i + 2" "put_u16 m (vaddr i) erase"] True less.prems
    have "outside (put_u16 m (vaddr i) erase) (clear_loop (put_u16 m (vaddr i) erase) (vaddr (i + 2)))" by simp
    with outside_put16 [of i m erase] True lt show ?thesis
      by (subst clear_loop.simps) (auto intro: outside_trans)
  qed (use lt in \<open>subst clear_loop.simps, simp\<close>)
qed

section \<open>Every command keeps the representation\<close>

lemma sizes: "WIDTH = 80" "HEIGHT = 25" "ROW_SIZE = 160" "SCR_SIZE = 4000" "unat SCR_SIZE = 4000" "unat WIDTH = 80"
  by (simp_all add: WIDTH_def HEIGHT_def ROW_SIZE_def SCR_SIZE_def)

lemma visible_iff:
  "visible m k = cs \<longleftrightarrow> length cs = 4000 \<and> (\<forall>i<4000. m (vaddr (160 * k + i)) = cs ! i)"
  by (auto simp: visible_def list_eq_iff_nth_eq)

lemma visible_length: "visible m k = cs \<Longrightarrow> length cs = 4000"
  by (simp add: visible_iff)

lemma set_screen_frame [simp]:
  "c_screen (set_screen c) = c_screen c" "c_pos (set_screen c) = c_pos c" "c_x (set_screen c) = c_x c"
  "c_y (set_screen c) = c_y c" "c_mem (set_screen c) = c_mem c"
  "c_screen (set_cursor c) = c_screen c" "c_pos (set_cursor c) = c_pos c" "c_x (set_cursor c) = c_x c"
  "c_y (set_cursor c) = c_y c" "c_mem (set_cursor c) = c_mem c"
  by (simp_all add: set_screen_def set_cursor_def crt_out_def)

lemma length_blank_row [simp]: "length blank_row = 160"
  by (simp add: blank_row_def)

lemma blank_row_nth: "i < 160 \<Longrightarrow> blank_row ! i = [0x20, 7, 0, 0] ! (i mod 4)"
  by (simp add: blank_row_def)

lemma visible_scroll:
  assumes "visible m k = cs" "k \<le> 76"
  shows "visible (erase_row m (vaddr (160 * k + 4000)) 80) (k + 1) = drop 160 cs @ blank_row"
  unfolding visible_iff
proof (intro conjI allI impI)
  have cs: "length cs = 4000" "\<forall>i<4000. m (vaddr (160 * k + i)) = cs ! i" using assms(1) by (simp_all add: visible_iff)
  show "length (drop 160 cs @ blank_row) = 4000" using cs by simp
  fix i :: nat assume i: "i < 4000"
  have e: "erase_row m (vaddr (160 * k + 4000)) 80 (vaddr (160 * (k + 1) + i))
    = (if 3840 \<le> i then [0x20, 7, 0, 0] ! ((i - 3840) mod 4) else m (vaddr (160 * k + (160 + i))))"
    using erase_row_at [of "160 * k + 4000" 80 "160 * (k + 1) + i" m] i assms(2) by (auto simp: algebra_simps)
  show "erase_row m (vaddr (160 * k + 4000)) 80 (vaddr (160 * (k + 1) + i)) = (drop 160 cs @ blank_row) ! i"
  proof (cases "3840 \<le> i")
    case True
    then show ?thesis unfolding e using cs i by (simp add: nth_append blank_row_nth)
  next
    case False
    then have "m (vaddr (160 * k + (160 + i))) = cs ! (160 + i)" using cs(2) by auto
    then show ?thesis unfolding e using False cs(1) by (simp add: nth_append)
  qed
qed

lemma visible_rewind:
  assumes "visible m k = cs" "k = 77"
  shows "visible (copy_mem m MEM_BASE (vaddr (160 * k)) 4000) 0 = cs"
  using assms copy_mem_at [of 0 "160 * 77" 4000 _ m] by (simp add: visible_iff vaddr_base(2))

lemma scroll_up_rep:
  assumes "term_at_row k c t" "t_y t = 24"
  shows "term_at_row (if k = 77 then 1 else k + 1) (scroll_up c) (t\<lparr>t_cells := drop 160 (t_cells t) @ blank_row\<rparr>)"
    and "outside (c_mem c) (c_mem (scroll_up c))"
proof -
  have r: "k \<le> 77" "c_screen c = vaddr (160 * k)" "c_pos c = vaddr (160 * k + term_at t)" "visible (c_mem c) k = t_cells t"
    using assms(1) by (simp_all add: term_at_row_def)
  have ge: "MEM_END \<le> c_screen c + SCR_SIZE + ROW_SIZE \<longleftrightarrow> k = 77"
    using r(1) by (simp add: r(2) sizes word_le_nat_alt unat_vaddr MEM_END_def MEM_BASE_def MEM_SIZE_def) auto
  have at: "term_at (t\<lparr>t_cells := x\<rparr>) = term_at t" for x by (simp add: term_at_def)
  have goal: "term_at_row (if k = 77 then 1 else k + 1) (scroll_up c) (t\<lparr>t_cells := drop 160 (t_cells t) @ blank_row\<rparr>)
    \<and> outside (c_mem c) (c_mem (scroll_up c))"
  proof (cases "k = 77")
    case True
    have pos: "vaddr (160 * k + term_at t) - (vaddr (160 * k) - MEM_BASE) = vaddr (term_at t)"
      by (simp add: vaddr_def)
    have v: "visible (erase_row (copy_mem (c_mem c) MEM_BASE (vaddr (160 * k)) 4000) (vaddr 4000) 80) 1
        = drop 160 (t_cells t) @ blank_row"
      using visible_scroll [OF visible_rewind [OF r(4) True]] by simp
    have o: "outside (c_mem c) (erase_row (copy_mem (c_mem c) MEM_BASE (vaddr (160 * k)) 4000) (vaddr 4000) 80)"
      using copy_mem_outside [of 0 4000 "c_mem c" "vaddr (160 * k)"] erase_row_outside [of 4000 80]
      by (auto simp: vaddr_base intro: outside_trans)
    have b: "MEM_BASE + 4000 = vaddr 4000" "MEM_BASE + 160 = vaddr 160" "vaddr (term_at t) + 160 = vaddr (term_at t + 160)"
      by (simp_all add: vaddr_def)
    have "rewind c = c\<lparr>c_mem := copy_mem (c_mem c) MEM_BASE (vaddr (160 * k)) 4000, c_pos := vaddr (term_at t), c_screen := MEM_BASE\<rparr>"
      by (simp only: rewind_def r(2,3) pos sizes(5))
    then have "scroll_up c = set_screen (c\<lparr>c_mem := erase_row (copy_mem (c_mem c) MEM_BASE (vaddr (160 * k)) 4000) (vaddr 4000) 80,
        c_screen := vaddr 160, c_pos := vaddr (term_at t + 160)\<rparr>)"
      using True unfolding scroll_up_def ge by (simp add: sizes Let_def b)
    then show ?thesis
      using v o assms True by (simp add: term_at_row_def at add.commute)
  next
    case False
    with r(1) have "k \<le> 76" by simp
    note v = visible_scroll [OF r(4) this] and o = erase_row_outside [of "160 * k + 4000" 80 "c_mem c"]
    have "scroll_up c = set_screen (c\<lparr>c_mem := erase_row (c_mem c) (vaddr (160 * k + 4000)) 80,
        c_screen := vaddr (160 * k + 160), c_pos := vaddr (160 * k + term_at t + 160)\<rparr>)"
      using False unfolding scroll_up_def ge by (simp add: sizes r(2,3) Let_def)
    then show ?thesis using v o assms False \<open>k \<le> 76\<close> by (simp add: term_at_row_def at add.commute add.left_commute)
  qed
  from goal show "term_at_row (if k = 77 then 1 else k + 1) (scroll_up c) (t\<lparr>t_cells := drop 160 (t_cells t) @ blank_row\<rparr>)"
    and "outside (c_mem c) (c_mem (scroll_up c))" by blast+
qed

lemma term_rep_intros:
  assumes "term_at_row k c t"
  shows "term_rep c t" using assms by (auto simp: term_rep_def)

lemma row_below: "n < 25 \<Longrightarrow> (of_nat n :: u32) + 1 < 25 \<longleftrightarrow> n < 24"
  using unat_Suc_small [of "of_nat n :: u32"] by (simp add: word_less_nat_alt unat_of_nat)

lemma column_end: "n \<le> 80 \<Longrightarrow> 80 \<le> (of_nat n :: u32) \<longleftrightarrow> n = 80"
  by (simp add: word_le_nat_alt unat_of_nat)

lemma column_start: "n \<le> 80 \<Longrightarrow> (of_nat n :: u32) = 0 \<longleftrightarrow> n = 0"
  by (simp add: word_unat_eq_iff unat_of_nat)

lemma command_lf_row:
  assumes "term_at_row k c t" "t_y t < 24"
  shows "term_at_row k (command_lf c) (term_lf t)"
proof -
  have y: "c_y c = of_nat (t_y t)" "c_pos c = vaddr (160 * k + term_at t)" using assms(1) by (simp_all add: term_at_row_def)
  have lt: "c_y c + 1 < HEIGHT" unfolding sizes y(1) using assms(2) by (simp add: row_below)
  have "160 * k + term_at t + 160 = 160 * k + term_at (t\<lparr>t_y := t_y t + 1\<rparr>)" by (simp add: term_at_def)
  then have "c_pos c + 160 = vaddr (160 * k + term_at (t\<lparr>t_y := t_y t + 1\<rparr>))"
    unfolding y(2) vaddr_add_num by (rule arg_cong)
  with assms lt show ?thesis by (simp add: term_at_row_def command_lf_def term_lf_def sizes)
qed

lemma command_lf_rep:
  assumes "term_rep c t"
  shows "term_rep (command_lf c) (term_lf t) \<and> outside (c_mem c) (c_mem (command_lf c))"
proof -
  obtain k where k: "term_at_row k c t" using assms by (auto simp: term_rep_def)
  then have y: "t_y t < 25" "c_y c = of_nat (t_y t)" by (simp_all add: term_at_row_def)
  have lt: "c_y c + 1 < HEIGHT \<longleftrightarrow> t_y t < 24" unfolding sizes y(2) by (rule row_below [OF y(1)])
  show ?thesis
  proof (cases "t_y t < 24")
    case True
    from command_lf_row [OF k True] True lt show ?thesis by (auto simp: term_rep_def command_lf_def)
  next
    case False
    with y(1) have "t_y t = 24" by simp
    from scroll_up_rep [OF k this] lt False show ?thesis
      by (auto simp: term_rep_def command_lf_def term_lf_def)
  qed
qed

lemma command_cr_row:
  assumes "term_at_row k c t"
  shows "term_at_row k (command_cr c) (term_cr t)"
proof -
  have "push_bit 1 (c_x c) = of_nat (2 * t_x t)" "c_pos c = vaddr (160 * k + term_at t)"
    using assms by (simp_all add: term_at_row_def push_bit_eq_mult)
  with vaddr_sub [of "2 * t_x t" "160 * k + term_at t"]
  have "c_pos c - push_bit 1 (c_x c) = vaddr (160 * k + 160 * t_y t)" by (simp add: term_at_def)
  with assms show ?thesis by (simp add: term_at_row_def command_cr_def term_cr_def term_at_def)
qed

lemma command_cr_rep: "term_rep c t \<Longrightarrow> term_rep (command_cr c) (term_cr t) \<and> outside (c_mem c) (c_mem (command_cr c))"
  using command_cr_row by (auto simp: term_rep_def command_cr_def)

text \<open>Two bytes are written at the cursor, or behind the window.\<close>

lemma visible_put:
  assumes "visible m k = cs" "k \<le> 77" "i \<le> 4000"
  shows "visible (m(vaddr (160 * k + i) := a, vaddr (160 * k + i + 1) := b)) k = cs[i := a, i + 1 := b]"
  using assms by (auto simp: visible_iff nth_list_update)

lemma put_u16_erase: "put_u16 m p erase = m(p := 0x20, p + 1 := 7)"
proof -
  have "(ucast erase :: u8) = 0x20" "(ucast (drop_bit 8 erase) :: u8) = 7" by (simp_all add: erase_def)
  then show ?thesis by (simp add: put_u16_def)
qed

lemma erase_at:
  assumes "term_at_row k c t" "c_pos c = vaddr (160 * k + term_at t)"
  shows "term_at_row k (c\<lparr>c_mem := put_u16 (c_mem c) (c_pos c) erase\<rparr>) (term_write (term_at t) 0x20 7 t)
    \<and> outside (c_mem c) (put_u16 (c_mem c) (c_pos c) erase)"
proof -
  have le: "term_at t \<le> 4000" "k \<le> 77" using assms(1) by (auto simp: term_at_row_def term_at_def)
  have v: "visible (c_mem c) k = t_cells t" using assms(1) by (simp add: term_at_row_def)
  have at: "term_at (term_write i a b t) = term_at t" for i a b by (simp add: term_at_def term_write_def)
  show ?thesis
    using assms visible_put [OF v le(2,1), where a = "0x20" and b = "7"] outside_put16 [of "160 * k + term_at t" "c_mem c" erase] le
    by (simp add: term_at_row_def at) (simp add: put_u16_erase term_write_def)
qed

lemma command_del_rep:
  assumes "term_rep c t"
  shows "term_rep (command_del c) (term_write (term_at t) 0x20 7 t) \<and> outside (c_mem c) (c_mem (command_del c))"
proof -
  obtain k where k: "term_at_row k c t" using assms by (auto simp: term_rep_def)
  then have "c_pos c = vaddr (160 * k + term_at t)" by (simp add: term_at_row_def)
  from erase_at [OF k this] show ?thesis by (auto simp: term_rep_def command_del_def)
qed

lemma command_bs_rep:
  assumes "term_rep c t"
  shows "term_rep (command_bs c) (term_bs t) \<and> outside (c_mem c) (c_mem (command_bs c))"
proof -
  obtain k where k: "term_at_row k c t" using assms by (auto simp: term_rep_def)
  then have x: "t_x t \<le> 80" "c_x c = of_nat (t_x t)" by (simp_all add: term_at_row_def)
  show ?thesis
  proof (cases "t_x t = 0")
    case True
    then show ?thesis using assms x by (simp add: command_bs_def term_bs_def)
  next
    case False
    let ?c = "c\<lparr>c_x := c_x c - 1, c_pos := c_pos c - 2\<rparr>" and ?t = "t\<lparr>t_x := t_x t - 1\<rparr>"
    have "c_pos c - 2 = vaddr (160 * k + term_at t - 2)"
      using k False vaddr_sub [of 2 "160 * k + term_at t"] by (simp add: term_at_row_def term_at_def)
    also have "160 * k + term_at t - 2 = 160 * k + term_at ?t" using False by (simp add: term_at_def)
    finally have p: "c_pos ?c = vaddr (160 * k + term_at ?t)" by simp
    have "c_x c - 1 = of_nat (t_x t - 1)" using False x(2) by (simp add: of_nat_diff)
    with k p have "term_at_row k ?c ?t" by (auto simp: term_at_row_def)
    from erase_at [OF this p] False x show ?thesis
      by (auto simp: term_rep_def command_bs_def term_bs_def Let_def column_start)
  qed
qed

lemma put_cell_rep:
  assumes "term_at_row k c t" "t_x t < 80"
  shows "term_at_row k (c\<lparr>c_mem := (c_mem c)(c_pos c := ch, c_pos c + 1 := attr), c_pos := c_pos c + 1 + 1, c_x := c_x c + 1\<rparr>)
      (let t = term_write (term_at t) ch 7 t in t\<lparr>t_x := t_x t + 1\<rparr>)
    \<and> outside (c_mem c) ((c_mem c)(c_pos c := ch, c_pos c + 1 := attr))"
proof -
  have le: "term_at t + 1 < 4000" "k \<le> 77" using assms by (auto simp: term_at_row_def term_at_def)
  have v: "visible (c_mem c) k = t_cells t" and p: "c_pos c = vaddr (160 * k + term_at t)"
    using assms(1) by (simp_all add: term_at_row_def)
  have at: "term_at ((term_write i a b t)\<lparr>t_x := t_x t + 1\<rparr>) = term_at t + 2" for i a b by (simp add: term_at_def term_write_def)
  have o: "outside (c_mem c) ((c_mem c)(vaddr (160 * k + term_at t) := ch, vaddr (160 * k + term_at t + 1) := attr))"
    by (rule outside_trans [OF outside_upd outside_upd]) (use le in simp_all)
  show ?thesis
    using assms visible_put [OF v le(2), where i = "term_at t" and a = ch and b = attr] le(1) o
    unfolding p vaddr_add_num Let_def term_at_row_def
    by (simp add: term_write_def attr_def term_at_def algebra_simps)
qed

lemma wrap_rep:
  assumes "term_at_row k c t" "t_x t = 80"
  shows "term_rep (c\<lparr>c_x := c_x c - WIDTH, c_pos := c_pos c - ROW_SIZE\<rparr>) (term_cr t)"
proof -
  have "c_pos c - 160 = vaddr (160 * k + 160 * t_y t)"
    using assms vaddr_sub [of 160 "160 * k + term_at t"] by (simp add: term_at_row_def term_at_def)
  with assms have "term_at_row k (c\<lparr>c_x := c_x c - WIDTH, c_pos := c_pos c - ROW_SIZE\<rparr>) (term_cr t)"
    by (simp add: term_at_row_def sizes term_cr_def term_at_def)
  then show ?thesis by (rule term_rep_intros)
qed

lemma put_char_rep:
  assumes "term_rep c t"
  shows "term_rep (put_char ch c) (term_put ch t) \<and> outside (c_mem c) (c_mem (put_char ch c))"
proof -
  define c1 where "c1 = (if WIDTH \<le> c_x c then command_lf (c\<lparr>c_x := c_x c - WIDTH, c_pos := c_pos c - ROW_SIZE\<rparr>) else c)"
  define t1 where "t1 = (if t_x t = 80 then term_lf (term_cr t) else t)"
  obtain k where k: "term_at_row k c t" using assms by (auto simp: term_rep_def)
  then have x: "t_x t \<le> 80" "c_x c = of_nat (t_x t)" by (simp_all add: term_at_row_def)
  have w: "WIDTH \<le> c_x c \<longleftrightarrow> t_x t = 80" unfolding sizes x(2) by (rule column_end [OF x(1)])
  have 1: "term_rep c1 t1 \<and> outside (c_mem c) (c_mem c1) \<and> t_x t1 < 80"
  proof (cases "t_x t = 80")
    case True
    from command_lf_rep [OF wrap_rep [OF k True]] True w show ?thesis
      by (simp add: c1_def t1_def term_lf_def term_cr_def)
  next
    case False
    then show ?thesis using assms w x by (simp add: c1_def t1_def)
  qed
  then obtain j where j: "term_at_row j c1 t1" by (auto simp: term_rep_def)
  have "put_char ch c = c1\<lparr>c_mem := (c_mem c1)(c_pos c1 := ch, c_pos c1 + 1 := attr), c_pos := c_pos c1 + 1 + 1, c_x := c_x c1 + 1\<rparr>"
    unfolding put_char_def c1_def [symmetric] by (simp add: Let_def)
  moreover have "term_put ch t = (let t = term_write (term_at t1) ch 7 t1 in t\<lparr>t_x := t_x t + 1\<rparr>)"
    unfolding term_put_def t1_def [symmetric] by (simp add: Let_def)
  ultimately show ?thesis using put_cell_rep [OF j, of ch] 1 by (auto simp: term_rep_def intro: outside_trans)
qed

lemma start_beep_rep [simp]: "term_rep (start_beep c) t = term_rep c t" "c_mem (start_beep c) = c_mem c"
  by (simp_all add: start_beep_def term_rep_def term_at_row_def Let_def)

lemma console_char_rep:
  assumes "term_rep c t"
  shows "term_rep (console_char ch c) (term_char ch t) \<and> outside (c_mem c) (c_mem (console_char ch c))"
proof -
  note lf = command_lf_rep [OF assms]
  have nl: "term_rep (command_cr (command_lf c)) (term_cr (term_lf t)) \<and> outside (c_mem c) (c_mem (command_cr (command_lf c)))"
    using lf command_cr_rep [of "command_lf c"] by (auto intro: outside_trans)
  show ?thesis
    unfolding console_char_def term_char_def
    using assms lf nl command_cr_rep [OF assms] command_bs_rep [OF assms] command_del_rep [OF assms] put_char_rep [OF assms, of ch]
    by (simp add: ASCII_NUL_def ASCII_ENQ_def ASCII_ESC_def ASCII_BEL_def ASCII_BS_def ASCII_HT_def ASCII_LF_def
        ASCII_VT_def ASCII_FF_def ASCII_CR_def ASCII_DEL_def)
qed

section \<open>Whole writes\<close>

lemma console_loop_fold:
  assumes "nr \<le> count" "unat count \<le> length buf"
  shows "console_loop c buf nr count = Inr (fold console_char (take (unat count - unat nr) (drop (unat nr) buf)) c, count + 1)"
  using assms
proof (induction "unat count - unat nr" arbitrary: c nr)
  case 0
  then have "nr = count" by (simp add: word_le_nat_alt word_unat_eq_iff)
  with 0 show ?case by (subst console_loop.simps) auto
next
  case (Suc n)
  then have lt: "unat nr < unat count" by simp
  then have nr: "nr < count" "unat (nr + 1) = Suc (unat nr)" by (simp_all add: word_less_nat_alt unat_step)
  have l: "unat nr < length buf" using lt Suc.prems(2) by simp
  have tk: "take (unat count - unat nr) (drop (unat nr) buf) = buf ! unat nr # take (unat count - unat (nr + 1)) (drop (unat (nr + 1)) buf)"
    using l lt by (simp add: nr(2) Cons_nth_drop_Suc [symmetric] Suc_diff_Suc [symmetric])
  have "n = unat count - unat (nr + 1)" "nr + 1 \<le> count" using Suc.hyps(2) nr(2) lt by (simp_all add: word_le_nat_alt)
  from Suc.hyps(1) [OF this Suc.prems(2)] nr(1) l show ?case unfolding tk by (subst console_loop.simps) simp
qed

lemma console_write_fold:
  "unat count \<le> length buf \<Longrightarrow> console_write c buf count
    = Inr ((set_cursor (fold console_char (take (unat count) buf) (c\<lparr>c_intr := False\<rparr>)))\<lparr>c_intr := c_intr c\<rparr>, count + 1)"
  by (simp add: console_write_def Let_def console_loop_fold)

lemma fold_console_rep:
  "term_rep c t \<Longrightarrow> term_rep (fold console_char bs c) (fold term_char bs t) \<and> outside (c_mem c) (c_mem (fold console_char bs c))"
proof (induction bs arbitrary: c t)
  case (Cons b bs)
  from console_char_rep [OF Cons.prems, of b] Cons.IH [of "console_char b c" "term_char b t"]
  show ?case by (auto intro: outside_trans)
qed simp

lemma term_rep_intr [simp]: "term_rep (c\<lparr>c_intr := b\<rparr>) t = term_rep c t" "term_rep (set_cursor c) t = term_rep c t"
  by (simp_all add: term_rep_def term_at_row_def)

definition demo_console :: console_t where
  "demo_console = console_clear \<lparr>c_screen = 0, c_pos = 0, c_x = 0, c_y = 0, c_mem = (\<lambda>_. 0), c_crt = (\<lambda>_. 0),
     c_intr = True, c_jiffies = 0, c_beeping = False, c_speaker = 0\<rparr>"

lemma console_clear_row: "term_at_row 0 (console_clear c) term_clear"
proof -
  have "clear_loop m MEM_BASE (vaddr i) = [0x20, 7] ! (i mod 2)" if "i < 4000" for m i
    using clear_loop_at [of 0 i m] that by (simp add: vaddr_base MEM_BASE_def)
  then have "visible (clear_loop m MEM_BASE) 0 = clear_cells" for m
    unfolding visible_iff clear_cells_def by (simp del: upt_rec_numeral)
  then show ?thesis
    by (simp add: term_at_row_def console_clear_def Let_def term_clear_def term_at_def vaddr_base)
qed

lemma console_clear_rep: "term_rep (console_clear c) term_clear"
  by (rule term_rep_intros [OF console_clear_row])

lemma demo_console_rep: "term_rep demo_console term_clear"
  unfolding demo_console_def by (rule console_clear_rep)

text \<open>
  C23. The console is a terminal of 25 rows of 80 cells.  From a cleared screen on, whatever bytes are
  written, however often the window moves through video memory and is rewound, the window shows
  exactly what the reference terminal shows, the cursor is at its place, \<open>console_write\<close> always
  returns, and returns one more than the bytes it wrote; the interrupt flag is as before.
\<close>
theorem console_shows_terminal:
  assumes "term_rep c t" "unat count \<le> length buf"
  shows "\<exists>c'. console_write c buf count = Inr (c', count + 1) \<and> c_intr c' = c_intr c
    \<and> term_rep c' (fold term_char (take (unat count) buf) t)"
proof -
  have "term_rep (c\<lparr>c_intr := False\<rparr>) t" using assms(1) by simp
  from fold_console_rep [OF this, of "take (unat count) buf"] show ?thesis
    by (simp add: console_write_fold [OF assms(2)])
qed

text \<open>\<open>A\<close> and two line feeds.\<close>

lemma console_shows_terminal_witness:
  "\<exists>c'. console_write demo_console [0x41, 0x0a, 0x0a] 3 = Inr (c', 4)
    \<and> term_rep c' \<lparr>t_cells = clear_cells[0 := 0x41, 1 := 7], t_x = 0, t_y = 2\<rparr>"
proof -
  have a: "term_char 0x41 term_clear = \<lparr>t_cells = clear_cells[0 := 0x41, 1 := 7], t_x = 1, t_y = 0\<rparr>"
    by (simp add: term_char_def term_put_def term_clear_def term_write_def term_at_def)
  have nl: "term_char 0x0a t = term_cr (term_lf t)" for t by (simp add: term_char_def)
  have "fold term_char [0x41, 0x0a, 0x0a] term_clear = \<lparr>t_cells = clear_cells[0 := 0x41, 1 := 7], t_x = 0, t_y = 2\<rparr>"
    by (simp add: a nl term_cr_def term_lf_def)
  then show ?thesis
    using console_shows_terminal [OF demo_console_rep, of 3 "[0x41, 0x0a, 0x0a]"] by auto
qed

section \<open>The display controller\<close>

lemma crt_bytes:
  fixes v :: u32
  assumes "unat v < 0x20000"
  shows "push_bit 8 (ucast (ucast (drop_bit 9 v AND 0xff) :: u8) :: u32) OR ucast (ucast (drop_bit 1 v AND 0xff) :: u8) = drop_bit 1 v"
proof (rule bit_word_eqI)
  fix n assume n: "n < LENGTH(32)"
  have m: "(0xff :: u32) = mask 8" by (simp add: mask_eq_exp_minus_1)
  have "v = take_bit 17 v"
    using assms by (simp add: word_unat_eq_iff unsigned_take_bit_eq take_bit_nat_eq_self)
  then have high: "\<not> bit v i" if "17 \<le> i" for i
    using that by (metis bit_take_bit_iff not_le)
  show "bit (push_bit 8 (ucast (ucast (drop_bit 9 v AND 0xff) :: u8) :: u32) OR ucast (ucast (drop_bit 1 v AND 0xff) :: u8)) n
    \<longleftrightarrow> bit (drop_bit 1 v) n"
    unfolding m using n high [of "Suc n"]
    by (cases "n < 8"; cases "n < 16")
      (auto simp: bit_or_iff bit_push_bit_iff bit_unsigned_iff bit_and_iff bit_mask_iff bit_drop_bit_eq not_less)
qed

lemma half_offset:
  "n < 0x8000 \<Longrightarrow> drop_bit 1 (of_nat (2 * n) :: u32) = of_nat n"
  "n < 0x8000 \<Longrightarrow> push_bit 8 (ucast (ucast (drop_bit 9 (of_nat (2 * n) :: u32) AND 0xff) :: u8) :: u32)
     OR ucast (ucast (drop_bit 1 (of_nat (2 * n) :: u32) AND 0xff) :: u8) = of_nat n"
  "push_bit 1 (of_nat n :: u32) + MEM_BASE = vaddr (2 * n)"
proof -
  show d: "drop_bit 1 (of_nat (2 * n) :: u32) = of_nat n" if "n < 0x8000"
  proof -
    have "unat (of_nat (2 * n) :: u32) = 2 * n" "unat (of_nat n :: u32) = n"
      by (rule unat_u32_of_nat, use that in simp)+
    then show ?thesis unfolding word_unat_eq_iff unat_drop_bit_eq by (simp only: drop_bit_eq_div) simp
  qed
  show "push_bit 8 (ucast (ucast (drop_bit 9 (of_nat (2 * n) :: u32) AND 0xff) :: u8) :: u32)
     OR ucast (ucast (drop_bit 1 (of_nat (2 * n) :: u32) AND 0xff) :: u8) = of_nat n" if "n < 0x8000"
  proof -
    have "unat (of_nat (2 * n) :: u32) = 2 * n" by (rule unat_u32_of_nat, use that in simp)
    with that have "unat (of_nat (2 * n) :: u32) < 0x20000" by linarith
    from crt_bytes [OF this] show ?thesis unfolding d [OF that] .
  qed
  show "push_bit 1 (of_nat n :: u32) + MEM_BASE = vaddr (2 * n)"
    by (simp add: vaddr_def push_bit_eq_mult mult.commute)
qed

lemma get_screen_set:
  assumes "c_screen c = vaddr (2 * n)" "n < 0x8000"
  shows "c_screen (get_screen (set_screen c)) = c_screen c"
proof -
  have "c_screen c - MEM_BASE = of_nat (2 * n)" unfolding assms(1) vaddr_base ..
  then show ?thesis
    using half_offset(2,3) assms
    by (simp add: get_screen_def set_screen_def crt_in_def crt_out_def CRT_START_ADDR_H_def CRT_START_ADDR_L_def Let_def)
qed

text \<open>The controller is told the window and the cursor.\<close>

definition crt_window :: "console_t \<Rightarrow> bool" where
  "crt_window c \<longleftrightarrow> c_screen (get_screen c) = c_screen c"

lemma crt_window_frame: "c_screen c' = c_screen c \<Longrightarrow> c_crt c' = c_crt c \<Longrightarrow> crt_window c' = crt_window c"
  by (simp add: crt_window_def get_screen_def crt_in_def)

lemma scroll_up_window:
  assumes "term_at_row k c t" "t_y t = 24"
  shows "crt_window (scroll_up c)"
proof -
  obtain d where d: "scroll_up c = set_screen d" by (auto simp: scroll_up_def Let_def)
  obtain j where j: "j \<le> 77" "c_screen (scroll_up c) = vaddr (160 * j)"
    using scroll_up_rep(1) [OF assms] by (auto simp: term_at_row_def split: if_splits)
  then have "c_screen d = vaddr (2 * (80 * j))" by (simp add: d)
  from get_screen_set [OF this] j(1) show ?thesis by (simp add: crt_window_def d)
qed

lemma command_lf_window:
  assumes "term_rep c t" "crt_window c"
  shows "crt_window (command_lf c)"
proof -
  obtain k where k: "term_at_row k c t" using assms(1) by (auto simp: term_rep_def)
  then have y: "t_y t < 25" "c_y c = of_nat (t_y t)" by (simp_all add: term_at_row_def)
  have lt: "c_y c + 1 < HEIGHT \<longleftrightarrow> t_y t < 24" unfolding sizes y(2) by (rule row_below [OF y(1)])
  show ?thesis
  proof (cases "t_y t < 24")
    case True
    then show ?thesis using lt assms(2) by (simp add: command_lf_def crt_window_def get_screen_def crt_in_def)
  next
    case False
    with y(1) scroll_up_window [OF k] lt show ?thesis by (simp add: command_lf_def)
  qed
qed

lemma console_char_window:
  assumes "term_rep c t" "crt_window c"
  shows "crt_window (console_char ch c)"
proof -
  have cr: "crt_window (command_cr d) = crt_window d" for d by (rule crt_window_frame) (simp_all add: command_cr_def)
  have bs: "crt_window (command_bs d) = crt_window d" for d
    by (rule crt_window_frame) (simp_all add: command_bs_def Let_def)
  have del: "crt_window (command_del d) = crt_window d" for d by (rule crt_window_frame) (simp_all add: command_del_def)
  have beep: "crt_window (start_beep d) = crt_window d" for d by (rule crt_window_frame) (simp_all add: start_beep_def Let_def)
  note lf = command_lf_window [OF assms]
  have wrap: "crt_window (command_lf (c\<lparr>c_x := c_x c - WIDTH, c_pos := c_pos c - ROW_SIZE\<rparr>))" if "WIDTH \<le> c_x c"
  proof -
    obtain k where k: "term_at_row k c t" using assms(1) by (auto simp: term_rep_def)
    have "t_x t = 80" using k that column_end [of "t_x t"] by (simp add: term_at_row_def sizes)
    from wrap_rep [OF k this] show ?thesis
      using assms(2) by (intro command_lf_window) (auto simp: crt_window_def get_screen_def crt_in_def)
  qed
  have put: "crt_window (put_char ch c)"
    using assms(2) wrap by (simp add: put_char_def Let_def crt_window_def get_screen_def crt_in_def)
  show ?thesis
    using assms(2) lf put unfolding console_char_def by (simp add: cr bs del beep)
qed

lemma get_cursor_set:
  assumes "term_rep c t" "crt_window c" "t_x t < 80"
  shows "get_cursor (set_cursor c) = set_cursor c"
proof -
  obtain k where k: "term_at_row k c t" using assms(1) by (auto simp: term_rep_def)
  define n where "n = 80 * k + 80 * t_y t + t_x t"
  have n: "160 * k + term_at t = 2 * n" "n < 0x8000" using k assms(3) by (simp_all add: n_def term_at_def term_at_row_def)
  then have pos: "c_pos c = vaddr (2 * n)" "c_pos c - MEM_BASE = of_nat (2 * n)"
    using k by (simp_all only: term_at_row_def n(1) vaddr_base)
  have scr: "c_screen (get_screen (set_cursor c)) = c_screen c"
    using assms(2) by (simp add: crt_window_def get_screen_def set_cursor_def crt_in_def crt_out_def Let_def
        CRT_START_ADDR_H_def CRT_START_ADDR_L_def CRT_CURSOR_H_def CRT_CURSOR_L_def)
  have gs: "get_screen (set_cursor c) = set_cursor c"
    using scr by (simp add: get_screen_def Let_def)
  have "c_pos c - c_screen c = of_nat (2 * (80 * t_y t + t_x t))"
    using k by (simp add: term_at_row_def term_at_def vaddr_def)
  moreover have "80 * t_y t + t_x t < 0x8000" using k by (simp add: term_at_row_def)
  ultimately have delta: "drop_bit 1 (c_pos c - c_screen c) = of_nat (80 * t_y t + t_x t)" by (simp only: half_offset(1))
  have small: "unat (of_nat (80 * t_y t + t_x t) :: u32) = 80 * t_y t + t_x t"
    by (rule unat_u32_of_nat) (use k in \<open>simp add: term_at_row_def\<close>)
  have xy: "(of_nat (80 * t_y t + t_x t) :: u32) mod WIDTH = c_x c" "(of_nat (80 * t_y t + t_x t) :: u32) div WIDTH = c_y c"
    using k assms(3) by (simp_all add: word_unat_eq_iff unat_mod unat_div small sizes term_at_row_def unat_of_nat del: of_nat_add of_nat_mult)
  have cin: "push_bit 8 (crt_in CRT_CURSOR_H (set_cursor c)) OR crt_in CRT_CURSOR_L (set_cursor c) = of_nat n"
    using half_offset(2) [OF n(2)]
    by (simp add: set_cursor_def crt_in_def crt_out_def pos(2) CRT_CURSOR_H_def CRT_CURSOR_L_def)
  show ?thesis
    unfolding get_cursor_def Let_def cin gs half_offset(3) pos(1) [symmetric]
    using delta xy by (simp add: set_cursor_def crt_out_def)
qed

lemma console_clear_window: "crt_window (console_clear c)"
proof -
  let ?c = "(set_cursor (c\<lparr>c_screen := MEM_BASE, c_pos := MEM_BASE, c_x := 0, c_y := 0\<rparr>))"
  have "c_screen ?c = vaddr (2 * 0)" by (simp add: vaddr_base)
  from get_screen_set [OF this] have "crt_window (set_screen ?c)" by (simp add: crt_window_def)
  then show ?thesis by (simp add: console_clear_def Let_def crt_window_def get_screen_def crt_in_def)
qed

lemma demo_console_window: "crt_window demo_console"
  unfolding demo_console_def by (rule console_clear_window)

lemma fold_console_window: "term_rep c t \<Longrightarrow> crt_window c \<Longrightarrow> crt_window (fold console_char bs c)"
proof (induction bs arbitrary: c t)
  case (Cons b bs)
  have "term_rep (console_char b c) (term_char b t)" using console_char_rep [OF Cons.prems(1)] by blast
  from Cons.IH [OF this console_char_window [OF Cons.prems]] show ?case by simp
qed simp

text \<open>
  The display controller follows the console.  After every write the registers hold the window
  and the cursor: reading them back with \<open>get_cursor\<close> gives the very state that \<open>console_write\<close>
  left, unless the cursor waits behind the last column.
\<close>
theorem console_display_roundtrip:
  assumes "term_rep c t" "crt_window c" "unat count \<le> length buf" "t_x (fold term_char (take (unat count) buf) t) < 80"
  shows "\<exists>c'. console_write c buf count = Inr (c', count + 1) \<and> crt_window c' \<and> get_cursor c' = c'"
proof -
  define c2 where "c2 = fold console_char (take (unat count) buf) (c\<lparr>c_intr := False\<rparr>)"
  have r: "term_rep (c\<lparr>c_intr := False\<rparr>) t" using assms(1) by simp
  have w: "crt_window (c\<lparr>c_intr := False\<rparr>)" using assms(2) by (simp add: crt_window_def get_screen_def crt_in_def)
  have c2: "term_rep c2 (fold term_char (take (unat count) buf) t)" and w2: "crt_window c2"
    using fold_console_rep [OF r] fold_console_window [OF r w] unfolding c2_def by blast+
  let ?c = "(set_cursor c2)\<lparr>c_intr := c_intr c\<rparr>"
  have "get_cursor (d\<lparr>c_intr := b\<rparr>) = (get_cursor d)\<lparr>c_intr := b\<rparr>" for d b
    by (simp add: get_cursor_def get_screen_def crt_in_def Let_def)
  then have g: "get_cursor ?c = ?c" by (simp only: get_cursor_set [OF c2 w2 assms(4)])
  have "c_screen (get_cursor d) = c_screen (get_screen d)" for d by (simp add: get_cursor_def Let_def)
  from this [of ?c] have "crt_window ?c" unfolding g crt_window_def by (rule sym)
  with g show ?thesis by (intro exI [of _ ?c]) (simp add: console_write_fold [OF assms(3)] c2_def)
qed

lemma console_display_roundtrip_witness:
  "\<exists>c'. console_write demo_console [0x41, 0x0a] 2 = Inr (c', 3) \<and> crt_window c' \<and> get_cursor c' = c'"
proof -
  have "t_x (fold term_char [0x41, 0x0a] term_clear) < 80"
    by (simp add: term_char_def term_cr_def)
  then show ?thesis
    using console_display_roundtrip [OF demo_console_rep demo_console_window, of 2 "[0x41, 0x0a]"] by auto
qed

section \<open>Memory around the screen\<close>

text \<open>
  C24. Writing to the console touches no memory but the 16480 bytes at \<open>MEM_BASE\<close>: the 16 KiB of
  video memory and the 96 bytes after its end.
\<close>
theorem console_write_confined:
  assumes "term_rep c t" "unat count \<le> length buf" "console_write c buf count = Inr (c', nr)"
    and "unat a < 0xb8000 \<or> 0xbc060 \<le> unat a"
  shows "c_mem c' a = c_mem c a"
proof -
  have "term_rep (c\<lparr>c_intr := False\<rparr>) t" using assms(1) by simp
  from fold_console_rep [OF this, of "take (unat count) buf"] assms(3)
  have out: "outside (c_mem c) (c_mem c')" by (auto simp: console_write_fold [OF assms(2)])
  have "a \<noteq> vaddr i" if "i < 16480" for i using assms(4) that unat_vaddr [of i] by auto
  then have "a \<notin> vaddr ` {..<16480}" by auto
  with out show ?thesis unfolding outside_def by blast
qed

lemma console_write_confined_witness:
  "\<exists>c'. console_write demo_console [0x41] 1 = Inr (c', 2) \<and> c_mem c' 0 = c_mem demo_console 0"
proof -
  obtain c' where c': "console_write demo_console [0x41] 1 = Inr (c', 1 + 1)"
    using console_shows_terminal [OF demo_console_rep, of 1 "[0x41]"] by auto
  from console_write_confined [OF demo_console_rep _ c', of 0] c' show ?thesis by auto
qed

lemma row_76_overrun:
  assumes "c_screen c = vaddr 12160" "16384 \<le> j" "j < 16480"
  shows "c_mem (scroll_up c) (vaddr j) = [0x20, 7, 0, 0] ! (j mod 4)"
proof -
  have no: "\<not> MEM_END \<le> c_screen c + SCR_SIZE + ROW_SIZE"
    by (simp add: assms(1) sizes word_le_nat_alt unat_vaddr MEM_END_def MEM_BASE_def MEM_SIZE_def)
  have "c_mem (scroll_up c) (vaddr j) = [0x20, 7, 0, 0] ! ((j - 16160) mod 4)"
    using no erase_row_at [of 16160 80 j "c_mem c"] assms by (simp add: scroll_up_def Let_def sizes)
  moreover have "(j - 16160) mod 4 = j mod 4"
    using mod_mult_self2 [of "j - 16160" 4 4040] assms(2) by simp
  ultimately show ?thesis by simp
qed

text \<open>The console after \<open>n\<close> line feeds.\<close>

definition feeds :: "nat \<Rightarrow> console_t \<Rightarrow> console_t" where
  "feeds n = fold console_char (replicate n ASCII_LF)"

lemma feeds_Suc: "feeds (Suc n) c = command_cr (command_lf (feeds n c))"
proof -
  have "replicate (Suc n) ASCII_LF = replicate n ASCII_LF @ [ASCII_LF]" by (simp add: replicate_append_same)
  then show ?thesis
    unfolding feeds_def by (simp add: console_char_def ASCII_LF_def ASCII_NUL_def ASCII_ENQ_def ASCII_ESC_def ASCII_BEL_def
        ASCII_BS_def ASCII_HT_def)
qed

lemma line_feed_row:
  assumes "term_at_row k c t"
  shows "t_y t < 24 \<Longrightarrow> term_at_row k (command_cr (command_lf c)) (term_cr (term_lf t))"
    and "t_y t = 24 \<Longrightarrow> k < 77 \<Longrightarrow> term_at_row (k + 1) (command_cr (command_lf c)) (term_cr (term_lf t))"
proof -
  show "term_at_row k (command_cr (command_lf c)) (term_cr (term_lf t))" if "t_y t < 24"
    by (rule command_cr_row [OF command_lf_row [OF assms that]])
  show "term_at_row (k + 1) (command_cr (command_lf c)) (term_cr (term_lf t))" if "t_y t = 24" "k < 77"
  proof -
    have y: "c_y c = 24" using assms that(1) by (simp add: term_at_row_def)
    then have "command_lf c = scroll_up c" by (simp add: command_lf_def sizes)
    with scroll_up_rep(1) [OF assms that(1)] that show ?thesis
      by (intro command_cr_row) (simp add: term_lf_def)
  qed
qed

lemma feeds_row:
  assumes "term_at_row 0 c t" "t_y t = 0" "n \<le> 101"
  shows "\<exists>u. term_at_row (n - 24) (feeds n c) u \<and> t_y u = min n 24"
  using assms(3)
proof (induction n)
  case 0
  then show ?case using assms by (auto simp: feeds_def)
next
  case (Suc n)
  then obtain u where u: "term_at_row (n - 24) (feeds n c) u" "t_y u = min n 24" by auto
  have ty: "t_y (term_cr (term_lf u)) = min (Suc n) 24" using u(2) by (auto simp: term_cr_def term_lf_def)
  show ?case
  proof (cases "n < 24")
    case True
    with line_feed_row(1) [OF u(1)] u(2) ty show ?thesis by (auto simp: feeds_Suc)
  next
    case False
    then have e: "Suc n - 24 = n - 24 + 1" by simp
    from False line_feed_row(2) [OF u(1)] u(2) Suc.prems
    have "term_at_row (n - 24 + 1) (feeds (Suc n) c) (term_cr (term_lf u))" by (simp add: feeds_Suc)
    with ty show ?thesis unfolding e by blast
  qed
qed

text \<open>
  Scrolling runs past the end of video memory.  The row that is blanked before the window moves
  is written as 80 words of 32 bits, twice its length; so after \<open>console_clear\<close>, in any state, a
  write of 101 line feeds leaves the pattern of blank cells in the 96 bytes behind \<open>MEM_END\<close>.
\<close>
theorem scroll_up_past_end:
  "\<exists>c'. console_write (console_clear c) (replicate 101 0x0a) 101 = Inr (c', 102)
    \<and> map (\<lambda>i. c_mem c' (MEM_END + of_nat i)) [0..<96] = map (\<lambda>i. [0x20, 7, 0, 0] ! (i mod 4)) [0..<96]"
proof -
  let ?c = "(console_clear c)\<lparr>c_intr := False\<rparr>"
  have r: "term_at_row 0 ?c term_clear"
    using console_clear_row [of c] by (simp add: term_at_row_def)
  from feeds_row [OF r, of 100] obtain u where u: "term_at_row 76 (feeds 100 ?c) u" "t_y u = 24"
    by (auto simp: term_clear_def)
  then have s: "c_screen (feeds 100 ?c) = vaddr 12160" "c_y (feeds 100 ?c) = 24" by (simp_all add: term_at_row_def)
  then have last: "feeds 101 ?c = command_cr (scroll_up (feeds 100 ?c))"
    using feeds_Suc [of 100 ?c] by (simp add: command_lf_def sizes)
  have w: "console_write (console_clear c) (replicate 101 0x0a) 101
     = Inr ((set_cursor (feeds 101 ?c))\<lparr>c_intr := c_intr (console_clear c)\<rparr>, 102)"
    by (simp add: console_write_fold feeds_def ASCII_LF_def)
  have "c_mem (feeds 101 ?c) (MEM_END + of_nat i) = [0x20, 7, 0, 0] ! (i mod 4)" if "i < 96" for i
  proof -
    have a: "MEM_END + of_nat i = vaddr (16384 + i)" by (simp add: vaddr_def MEM_END_def MEM_SIZE_def)
    have "(16384 + i) mod 4 = i mod 4" using mod_mult_self2 [of i 4 4096] by (simp add: add.commute)
    with row_76_overrun [OF s(1), of "16384 + i"] that show ?thesis by (simp add: last a command_cr_def)
  qed
  then have past: "map (\<lambda>i. c_mem (feeds 101 ?c) (MEM_END + of_nat i)) [0..<96] = map (\<lambda>i. [0x20, 7, 0, 0] ! (i mod 4)) [0..<96]"
    by (intro map_cong refl) (simp only: set_upt atLeastLessThan_iff)
  have mem: "c_mem ((set_cursor (feeds 101 ?c))\<lparr>c_intr := c_intr (console_clear c)\<rparr>) = c_mem (feeds 101 ?c)" by simp
  show ?thesis by (rule exI, rule conjI, rule w) (simp only: mem past)
qed

end
