(* ===== verification/Ylos_Args.thy ===== *)
theory Ylos_Args
  imports Ylos_String Ylos_Memory
begin

text \<open>
  The arguments of a program: \<open>copy_argv_envp\<close> of kernel/execve.c lays them out on the user stack,
  and lib/crt.asm with \<open>__libc_start_main\<close> of lib/crt1.c takes them up there.  The four temporary
  kernel pages and the page of pointers are lists with whatever bytes they held; a pointer into
  the pages is its offset.  An array of pointers ends with the first NULL (\<open>None\<close>).
\<close>

section \<open>The code of the kernel\<close>

fun count_loop :: "u8 list option list \<Rightarrow> nat \<Rightarrow> nat result" where
  "count_loop [] i = Inl Bad_Access"
| "count_loop (p # ps) i = (case p of None \<Rightarrow> Inr i | Some _ \<Rightarrow> count_loop ps (Suc i))"

definition count_argv :: "u8 list option list option \<Rightarrow> nat result" where
  "count_argv argv = (case argv of None \<Rightarrow> Inr 0 | Some ps \<Rightarrow> count_loop ps 0)"

definition word_bytes :: "u32 \<Rightarrow> u8 list" where
  "word_bytes w = [ucast w, ucast (drop_bit 8 w), ucast (drop_bit 16 w), ucast (drop_bit 24 w)]"

record args_t =
  a_pages :: "u8 list"
  a_ktop :: nat
  a_utop :: u32
  a_ptrs :: "u32 list"

text \<open>\<open>ktop -= len; memcpy(ktop, bs, len)\<close>.\<close>

definition push_kernel :: "args_t \<Rightarrow> u8 list \<Rightarrow> args_t result" where
  "push_kernel a bs =
     (if a_ktop a < length bs then Inl Bad_Access
      else let k = a_ktop a - length bs
           in Inr (a\<lparr>a_ktop := k, a_pages := take k (a_pages a) @ bs @ drop (k + length bs) (a_pages a)\<rparr>))"

text \<open>One string: its length, both tops, the copy, and the pointer of the user into \<open>slot\<close>.\<close>

definition push_string :: "args_t \<Rightarrow> u8 list option \<Rightarrow> nat \<Rightarrow> args_t result" where
  "push_string a str slot =
     (case str of None \<Rightarrow> Inl Bad_Access
      | Some str \<Rightarrow>
          bindr (strlen str) (\<lambda>n.
          let len = n + 1; a = a\<lparr>a_utop := a_utop a - of_nat len\<rparr>
          in bindr (push_kernel a (take len str)) (\<lambda>a.
             bindr (store_at (a_ptrs a) slot (a_utop a)) (\<lambda>ptrs. Inr (a\<lparr>a_ptrs := ptrs\<rparr>)))))"

text \<open>The loops over \<open>envp\<close> and \<open>argv\<close>, from the last string down to the first.\<close>

fun push_strings :: "args_t \<Rightarrow> u8 list option list \<Rightarrow> nat \<Rightarrow> nat \<Rightarrow> args_t result" where
  "push_strings a strs base 0 = Inr a"
| "push_strings a strs base (Suc i) =
     bindr (load_at strs i) (\<lambda>str. bindr (push_string a str (base + i)) (\<lambda>a. push_strings a strs base i))"

definition set_ptr :: "args_t \<Rightarrow> nat \<Rightarrow> u32 \<Rightarrow> args_t result" where
  "set_ptr a slot v = bindr (store_at (a_ptrs a) slot v) (\<lambda>ptrs. Inr (a\<lparr>a_ptrs := ptrs\<rparr>))"

definition ptr_bytes :: "args_t \<Rightarrow> nat \<Rightarrow> nat \<Rightarrow> u8 list" where
  "ptr_bytes a base n = concat (map word_bytes (take n (drop base (a_ptrs a))))"

text \<open>
  \<open>copy_argv_envp\<close> up to the copy to the user stack: the value is the new top of the user stack
  and the bytes that go there.
\<close>

definition copy_argv_envp ::
    "u8 list \<Rightarrow> u32 list \<Rightarrow> u8 list \<Rightarrow> u8 list option list option \<Rightarrow> u8 list option list option \<Rightarrow> (u32 \<times> u8 list) result" where
  "copy_argv_envp pages ptrs filename argv envp =
     bindr (count_argv argv) (\<lambda>n.
     bindr (count_argv envp) (\<lambda>envc.
     let argc = n + 1; a = \<lparr>a_pages = pages, a_ktop = length pages, a_utop = USER_STACK_TOP, a_ptrs = ptrs\<rparr>
     in bindr (set_ptr a argc 0) (\<lambda>a.
        bindr (set_ptr a (argc + 1 + envc) 0) (\<lambda>a.
        bindr (push_strings a (case envp of None \<Rightarrow> [] | Some ps \<Rightarrow> ps) (argc + 1) envc) (\<lambda>a.
        bindr (push_strings a (case argv of None \<Rightarrow> [] | Some ps \<Rightarrow> ps) 1 (argc - 1)) (\<lambda>a.
        bindr (push_string a (Some filename) 0) (\<lambda>a.
        bindr (push_kernel a (ptr_bytes a (argc + 1) (envc + 1))) (\<lambda>a.
        bindr (push_kernel a (ptr_bytes a 0 (argc + 1))) (\<lambda>a.
        bindr (push_kernel a (word_bytes (of_nat argc))) (\<lambda>a.
        if \<not> 0 < a_ktop a then Inl Assert_Failed
        else Inr (USER_STACK_TOP - of_nat (length pages - a_ktop a), drop (a_ktop a) (a_pages a))))))))))))"

section \<open>The start of a program\<close>

definition bytes_word :: "u8 list \<Rightarrow> u32" where
  "bytes_word bs = (case bs of a # b # c # d # _ \<Rightarrow>
      ucast a OR push_bit 8 (ucast b) OR push_bit 16 (ucast c) OR push_bit 24 (ucast d) | _ \<Rightarrow> 0)"

text \<open>\<open>_start\<close> pops \<open>argc\<close>; \<open>argv\<close> is what \<open>esp\<close> is then, and \<open>envp\<close> is \<open>argv + argc + 1\<close>.
  \<open>block\<close> are the bytes from the stack pointer \<open>esp\<close> on.\<close>

definition stack_word :: "u8 list \<Rightarrow> u32 \<Rightarrow> u32 \<Rightarrow> u32" where
  "stack_word block esp addr = bytes_word (drop (unat (addr - esp)) block)"

definition crt_start :: "u8 list \<Rightarrow> u32 \<Rightarrow> u32 \<times> u32 \<times> u32" where
  "crt_start block esp =
     (let argc = stack_word block esp esp; argv = esp + 4; envp = argv + 4 * (argc + 1)
      in (argc, argv, envp))"

text \<open>What a program sees of an array of strings: each string up to its NUL, up to the NULL.\<close>

definition string_at :: "u8 list \<Rightarrow> u32 \<Rightarrow> u32 \<Rightarrow> u8 list" where
  "string_at block esp p = takeWhile (\<lambda>c. c \<noteq> 0) (drop (unat (p - esp)) block)"

fun strings_at :: "u8 list \<Rightarrow> u32 \<Rightarrow> u32 \<Rightarrow> nat \<Rightarrow> u8 list list" where
  "strings_at block esp p 0 = []"
| "strings_at block esp p (Suc n) =
     (let q = stack_word block esp p
      in if q = 0 then [] else string_at block esp q # strings_at block esp (p + 4) n)"

section \<open>Words and bytes\<close>

lemma length_word_bytes [simp]: "length (word_bytes w) = 4"
  by (simp add: word_bytes_def)

lemma bytes_word_bytes: "bytes_word (word_bytes w @ bs) = w"
proof (rule bit_word_eqI)
  fix n assume "n < LENGTH(32)"
  then show "bit (bytes_word (word_bytes w @ bs)) n = bit w n"
    by (cases "n < 8"; cases "n < 16"; cases "n < 24")
      (auto simp: bytes_word_def word_bytes_def bit_or_iff bit_push_bit_iff bit_unsigned_iff bit_drop_bit_eq not_less)
qed

lemma length_concat_words [simp]: "length (concat (map word_bytes ws)) = 4 * length ws"
  by (induction ws) simp_all

lemma drop_words: "i \<le> length ws \<Longrightarrow> drop (4 * i) (concat (map word_bytes ws) @ bs) = concat (map word_bytes (drop i ws)) @ bs"
proof (induction ws arbitrary: i)
  case (Cons w ws)
  then show ?case by (cases i) simp_all
qed simp

lemma nth_word:
  assumes "i < length ws"
  shows "bytes_word (drop (4 * i) (concat (map word_bytes ws) @ bs)) = ws ! i"
proof -
  have "drop i ws = ws ! i # drop (Suc i) ws" using assms by (rule Cons_nth_drop_Suc [symmetric])
  then show ?thesis using assms unfolding drop_words [OF less_imp_le [OF assms]] by (simp add: bytes_word_bytes)
qed

section \<open>What the kernel lays out\<close>

definition zstr :: "u8 list \<Rightarrow> u8 list" where
  "zstr s = s @ [0]"

definition args_rep :: "u8 list option list option \<Rightarrow> u8 list list \<Rightarrow> bool" where
  "args_rep p ss \<longleftrightarrow> (p = None \<and> ss = [])
     \<or> (\<exists>bufs rest. p = Some (map Some bufs @ None # rest) \<and> list_all2 cstr bufs ss)"

definition pointers :: "u8 list option list option \<Rightarrow> u8 list option list" where
  "pointers p = (case p of None \<Rightarrow> [] | Some ps \<Rightarrow> ps)"

definition area :: "args_t \<Rightarrow> u8 list" where
  "area a = drop (a_ktop a) (a_pages a)"

definition area_wf :: "args_t \<Rightarrow> bool" where
  "area_wf a \<longleftrightarrow> a_ktop a \<le> length (a_pages a)"

lemma count_loop_rep: "count_loop (map Some bufs @ None # rest) i = Inr (i + length bufs)"
  by (induction bufs arbitrary: i) simp_all

lemma count_argv_rep: "args_rep p ss \<Longrightarrow> count_argv p = Inr (length ss)"
  by (auto simp: args_rep_def count_argv_def count_loop_rep dest: list_all2_lengthD)

lemma args_rep_nth:
  assumes "args_rep p ss" "i < length ss"
  obtains buf where "load_at (pointers p) i = Inr (Some buf)" "cstr buf (ss ! i)"
proof -
  obtain bufs rest where b: "p = Some (map Some bufs @ None # rest)" "list_all2 cstr bufs ss"
    using assms by (auto simp: args_rep_def)
  then have "length bufs = length ss" by (simp add: list_all2_lengthD)
  with b assms(2) list_all2_nthD2 [OF b(2) assms(2)] show ?thesis
    by (intro that [of "bufs ! i"]) (simp_all add: pointers_def nth_append load_at_def)
qed

lemma push_kernel_area:
  assumes "area_wf a"
  shows "length bs \<le> a_ktop a \<Longrightarrow> \<exists>a'. push_kernel a bs = Inr a' \<and> area a' = bs @ area a \<and> area_wf a'
      \<and> a_ktop a' = a_ktop a - length bs \<and> a_utop a' = a_utop a \<and> a_ptrs a' = a_ptrs a \<and> length (a_pages a') = length (a_pages a)"
    and "a_ktop a < length bs \<Longrightarrow> push_kernel a bs = Inl Bad_Access"
  using assms by (auto simp: push_kernel_def area_def area_wf_def Let_def)

definition zs_length :: "u8 list list \<Rightarrow> nat" where
  "zs_length ss = length (concat (map zstr ss))"

lemma zs_length_simps [simp]:
  "zs_length [] = 0" "zs_length (s # ss) = length (zstr s) + zs_length ss"
  "zs_length (ss @ ts) = zs_length ss + zs_length ts"
  by (simp_all add: zs_length_def)

text \<open>
  \<open>pushed a a' ss base\<close>: \<open>a'\<close> is \<open>a\<close> with the strings \<open>ss\<close> in front and their user addresses in the
  slots from \<open>base\<close> on; \<open>pushes\<close>: this is the outcome \<open>r\<close> when there is room, else it fails.
\<close>

definition pushed :: "args_t \<Rightarrow> args_t \<Rightarrow> u8 list list \<Rightarrow> nat \<Rightarrow> bool" where
  "pushed a a' ss base \<longleftrightarrow> area a' = concat (map zstr ss) @ area a \<and> area_wf a' \<and> zs_length ss \<le> a_ktop a
     \<and> a_ktop a' = a_ktop a - zs_length ss \<and> a_utop a' = a_utop a - of_nat (zs_length ss)
     \<and> length (a_ptrs a') = length (a_ptrs a) \<and> length (a_pages a') = length (a_pages a)
     \<and> (\<forall>i. a_ptrs a' ! i = (if base \<le> i \<and> i < base + length ss
           then a_utop a - of_nat (zs_length (drop (i - base) ss)) else a_ptrs a ! i))"

definition pushes :: "args_t \<Rightarrow> u8 list list \<Rightarrow> nat \<Rightarrow> args_t result \<Rightarrow> bool" where
  "pushes a ss base r \<longleftrightarrow> (if zs_length ss \<le> a_ktop a then \<exists>a'. r = Inr a' \<and> pushed a a' ss base else r = Inl Bad_Access)"

lemma pushedD:
  assumes "pushed a a' ss base"
  shows "area a' = concat (map zstr ss) @ area a" "area_wf a'" "zs_length ss \<le> a_ktop a" "a_ktop a' = a_ktop a - zs_length ss"
    "a_utop a' = a_utop a - of_nat (zs_length ss)" "length (a_ptrs a') = length (a_ptrs a)" "length (a_pages a') = length (a_pages a)"
    "a_ptrs a' ! i = (if base \<le> i \<and> i < base + length ss
       then a_utop a - of_nat (zs_length (drop (i - base) ss)) else a_ptrs a ! i)"
  using assms unfolding pushed_def by blast+

lemma pushes_bind:
  assumes "pushes a ss base r" "\<And>a1. r = Inr a1 \<Longrightarrow> pushed a a1 ss base \<Longrightarrow> pushes a1 ts base' (g a1)"
  shows "if zs_length ts + zs_length ss \<le> a_ktop a
    then \<exists>a1 a2. pushed a a1 ss base \<and> pushed a1 a2 ts base' \<and> bindr r g = Inr a2 else bindr r g = Inl Bad_Access"
proof (cases "zs_length ss \<le> a_ktop a")
  case True
  with assms(1) obtain a1 where a1: "r = Inr a1" "pushed a a1 ss base" by (auto simp: pushes_def)
  have le: "zs_length ts \<le> a_ktop a1 \<longleftrightarrow> zs_length ts + zs_length ss \<le> a_ktop a"
    using pushedD(4) [OF a1(2)] True by auto
  from assms(2) [OF a1] a1 show ?thesis unfolding pushes_def le by (cases "zs_length ts + zs_length ss \<le> a_ktop a") auto
next
  case False
  then show ?thesis using assms(1) by (simp add: pushes_def)
qed

lemma push_string_pushes:
  assumes "area_wf a" "cstr buf s" "slot < length (a_ptrs a)"
  shows "pushes a [s] slot (push_string a (Some buf) slot)"
proof -
  let ?a = "a\<lparr>a_utop := a_utop a - of_nat (length s + 1)\<rparr>"
  have n: "strlen buf = Inr (length s)" by (rule strlen_cstr [OF assms(2)])
  have z: "take (length s + 1) buf = zstr s" using assms(2) by (auto simp: cstr_def zstr_def)
  have wf: "area_wf ?a" using assms(1) by (simp add: area_wf_def)
  have run: "push_string a (Some buf) slot
    = bindr (push_kernel ?a (zstr s)) (\<lambda>a. bindr (store_at (a_ptrs a) slot (a_utop a)) (\<lambda>ptrs. Inr (a\<lparr>a_ptrs := ptrs\<rparr>)))"
    by (simp only: push_string_def option.case n bindr_Inr Let_def z)
  show ?thesis
  proof (cases "length (zstr s) \<le> a_ktop a")
    case False
    then show ?thesis using push_kernel_area(2) [OF wf, of "zstr s"] by (simp add: pushes_def run)
  next
    case True
    then obtain a1 where "push_kernel ?a (zstr s) = Inr a1" "area a1 = zstr s @ area a" "area_wf a1"
      "a_ktop a1 = a_ktop a - length (zstr s)" "a_utop a1 = a_utop a - of_nat (length s + 1)" "a_ptrs a1 = a_ptrs a"
      "length (a_pages a1) = length (a_pages a)"
      using push_kernel_area(1) [OF wf, of "zstr s"] by (auto simp: area_def)
    then show ?thesis
      using True assms(3)
      by (simp add: pushes_def run pushed_def area_def area_wf_def zstr_def nth_list_update)
  qed
qed

lemma push_strings_pushes:
  assumes "args_rep p ss"
  shows "area_wf a \<Longrightarrow> base + n \<le> length (a_ptrs a) \<Longrightarrow> n \<le> length ss \<Longrightarrow>
    pushes a (take n ss) base (push_strings a (pointers p) base n)"
proof (induction n arbitrary: a)
  case 0
  then show ?case by (auto simp: pushes_def pushed_def)
next
  case (Suc n)
  then have n: "n < length ss" by simp
  from args_rep_nth [OF assms n] obtain buf where b: "load_at (pointers p) n = Inr (Some buf)" "cstr buf (ss ! n)" .
  have slot: "base + n < length (a_ptrs a)" using Suc.prems by simp
  have tk: "take (Suc n) ss = take n ss @ [ss ! n]" using n by (rule take_Suc_conv_app_nth)
  have IH: "pushes a1 (take n ss) base (push_strings a1 (pointers p) base n)"
    if "pushed a a1 [ss ! n] (base + n)" for a1
    by (rule Suc.IH) (use Suc.prems pushedD [OF that] in simp_all)
  have run: "push_strings a (pointers p) base (Suc n)
    = bindr (push_string a (Some buf) (base + n)) (\<lambda>a. push_strings a (pointers p) base n)"
    using b(1) by simp
  have "pushed a a2 (take (Suc n) ss) base" if p1: "pushed a a1 [ss ! n] (base + n)" and p2: "pushed a1 a2 (take n ss) base" for a1 a2
  proof -
    note P = pushedD [OF p1] and Q = pushedD [OF p2]
    have "a_ptrs a2 ! i = (if base \<le> i \<and> i < base + Suc n
        then a_utop a - of_nat (zs_length (drop (i - base) (take (Suc n) ss))) else a_ptrs a ! i)" for i
    proof (cases "i = base + n")
      case True
      then show ?thesis using n P(8) Q(8) by (simp add: tk)
    next
      case False
      then show ?thesis using n P(5) P(8) [of i] Q(8) [of i] by (auto simp: tk algebra_simps)
    qed
    with P(1-7) Q(1-7) n show ?thesis by (simp add: pushed_def tk) linarith
  qed
  with pushes_bind [OF push_string_pushes [OF Suc.prems(1) b(2) slot] IH] show ?case
    unfolding run pushes_def tk by (cases "zs_length (take n ss) + zs_length [ss ! n] \<le> a_ktop a") (auto simp: tk)
qed

text \<open>The three groups of strings, and the tables of the user's pointers.\<close>

definition user_ptr :: "u8 list list \<Rightarrow> nat \<Rightarrow> u32" where
  "user_ptr zs i = USER_STACK_TOP - of_nat (zs_length (drop i zs))"

definition args_need :: "u8 list list \<Rightarrow> nat" where
  "args_need zs = zs_length zs + 4 * (length zs + 3)"

lemma set_ptr_simps:
  "slot < length (a_ptrs a) \<Longrightarrow> set_ptr a slot v = Inr (a\<lparr>a_ptrs := (a_ptrs a)[slot := v]\<rparr>)"
  "length (a_ptrs a) \<le> slot \<Longrightarrow> set_ptr a slot v = Inl Bad_Access"
  by (simp_all add: set_ptr_def)

lemma tables:
  assumes "pushed a a1 es (length as + 2)" "pushed a1 a2 as 1" "pushed a2 a3 [f] 0"
    and "a_utop a = USER_STACK_TOP" "a_ptrs a ! (length as + 1) = 0" "a_ptrs a ! (length as + 2 + length es) = 0"
    and "length as + length es + 2 < length (a_ptrs a)"
  defines "zs \<equiv> f # as @ es"
  shows "take (length as + 2) (a_ptrs a3) = map (user_ptr zs) [0..<length as + 1] @ [0]"
    and "take (length es + 1) (drop (length as + 2) (a_ptrs a3)) = map (user_ptr zs) [length as + 1..<length zs] @ [0]"
proof -
  note P = pushedD [OF assms(1)] and Q = pushedD [OF assms(2)] and R = pushedD [OF assms(3)]
  have len: "length (a_ptrs a3) = length (a_ptrs a)" using P(6) Q(6) R(6) by simp
  have args: "a_ptrs a3 ! i = user_ptr zs i" if "i \<le> length as" for i
  proof (cases i)
    case 0
    then show ?thesis using R(8) [of 0] Q(5) P(5) assms(4) by (simp add: user_ptr_def zs_def algebra_simps)
  next
    case (Suc j)
    then show ?thesis using R(8) [of i] Q(8) [of i] P(5) assms(4) that by (simp add: user_ptr_def zs_def algebra_simps)
  qed
  have envs: "a_ptrs a3 ! (length as + 2 + j) = user_ptr zs (length as + 1 + j)" if "j < length es" for j
    using R(8) [of "length as + 2 + j"] Q(8) [of "length as + 2 + j"] P(8) [of "length as + 2 + j"] assms(4) that
    by (simp add: user_ptr_def zs_def)
  have nulls: "a_ptrs a3 ! (length as + 1) = 0" "a_ptrs a3 ! (length as + 2 + length es) = 0"
    using R(8) Q(8) P(8) assms(5,6) by simp_all
  show "take (length as + 2) (a_ptrs a3) = map (user_ptr zs) [0..<length as + 1] @ [0]"
    by (rule nth_equalityI)
      (use args nulls(1) len assms(7) in \<open>auto simp: nth_append less_Suc_eq_le not_less simp del: upt_Suc elim: le_SucE\<close>)
  show "take (length es + 1) (drop (length as + 2) (a_ptrs a3)) = map (user_ptr zs) [length as + 1..<length zs] @ [0]"
  proof (rule nth_equalityI)
    fix j assume "j < length (take (length es + 1) (drop (length as + 2) (a_ptrs a3)))"
    then have j: "j \<le> length es" by simp
    have "take (length es + 1) (drop (length as + 2) (a_ptrs a3)) ! j = a_ptrs a3 ! (length as + 2 + j)"
      using j len assms(7) by simp
    also have "\<dots> = (map (user_ptr zs) [length as + 1..<length zs] @ [0]) ! j"
      using envs [of j] nulls(2) j by (cases "j = length es") (simp_all add: nth_append zs_def del: upt_Suc)
    finally show "take (length es + 1) (drop (length as + 2) (a_ptrs a3)) ! j = (map (user_ptr zs) [length as + 1..<length zs] @ [0]) ! j" .
  qed (use len assms(7) in \<open>simp add: zs_def del: upt_Suc\<close>)
qed

lemma strings_run:
  assumes "args_rep argv as" "args_rep envp es" "cstr filename f" "area_wf a" "length as + length es + 2 < length (a_ptrs a)"
  defines "run \<equiv> bindr (push_strings a (pointers envp) (length as + 2) (length es)) (\<lambda>a.
      bindr (push_strings a (pointers argv) 1 (length as)) (\<lambda>a. push_string a (Some filename) 0))"
  shows "if zs_length (f # as @ es) \<le> a_ktop a
    then \<exists>a1 a2 a3. pushed a a1 es (length as + 2) \<and> pushed a1 a2 as 1 \<and> pushed a2 a3 [f] 0 \<and> run = Inr a3
    else run = Inl Bad_Access"
proof -
  define r1 where "r1 = push_strings a (pointers envp) (length as + 2) (length es)"
  have e: "pushes a es (length as + 2) r1"
    unfolding r1_def using push_strings_pushes [OF assms(2,4), of "length as + 2" "length es"] assms(5) by simp
  have "pushes a1 as 1 (push_strings a1 (pointers argv) 1 (length as))" if "pushed a a1 es (length as + 2)" for a1
    using push_strings_pushes [OF assms(1) pushedD(2) [OF that], of 1 "length as"] pushedD(6) [OF that] assms(5) by simp
  note two = pushes_bind [OF e this]
  show ?thesis
  proof (cases "zs_length as + zs_length es \<le> a_ktop a")
    case False
    then have "run = Inl Bad_Access"
      using two unfolding run_def r1_def [symmetric] bindr_assoc [symmetric] by simp
    with False show ?thesis by simp
  next
    case True
    with two obtain a1 a2 where a: "pushed a a1 es (length as + 2)" "pushed a1 a2 as 1"
      "bindr r1 (\<lambda>a. push_strings a (pointers argv) 1 (length as)) = Inr a2" by auto
    have run: "run = push_string a2 (Some filename) 0"
      unfolding run_def r1_def [symmetric] bindr_assoc [symmetric] a(3) by simp
    have "0 < length (a_ptrs a2)" using pushedD(6) [OF a(1)] pushedD(6) [OF a(2)] assms(5) by linarith
    from push_string_pushes [OF pushedD(2) [OF a(2)] assms(3) this]
    have p: "pushes a2 [f] 0 run" by (simp only: run)
    have "zs_length [f] \<le> a_ktop a2 \<longleftrightarrow> zs_length (f # as @ es) \<le> a_ktop a"
      using pushedD(3,4) [OF a(1)] pushedD(3,4) [OF a(2)] by auto
    with p a(1,2) show ?thesis unfolding pushes_def by (cases "zs_length [f] \<le> a_ktop a2") auto
  qed
qed

definition args_block :: "u8 list list \<Rightarrow> u8 list list \<Rightarrow> u8 list" where
  "args_block as es = (let zs = as @ es in
     concat (map word_bytes ([of_nat (length as)] @ (map (user_ptr zs) [0..<length as] @ [0])
       @ map (user_ptr zs) [length as..<length zs] @ [0])) @ concat (map zstr zs))"

lemma length_args_block: "length (args_block as es) = args_need (as @ es)"
  unfolding args_block_def Let_def length_append length_concat_words
  by (simp add: args_need_def zs_length_def)

text \<open>The two tables and \<open>argc\<close> go in front of the strings.\<close>

lemma push_kernel_fits:
  assumes "area_wf a" "length bs \<le> a_ktop a"
  obtains a' where "push_kernel a bs = Inr a'" "area a' = bs @ area a" "area_wf a'" "a_ktop a' = a_ktop a - length bs"
    "a_ptrs a' = a_ptrs a" "length (a_pages a') = length (a_pages a)"
  using push_kernel_area(1) [OF assms] by blast

lemma rest_run:
  fixes a :: args_t and m e n :: nat and z :: "u8 list"
  assumes "area_wf a" "length (a_pages a) = 16384"
  defines "x \<equiv> ptr_bytes a m e" and "y \<equiv> ptr_bytes a 0 n"
  defines "run \<equiv> bindr (push_kernel a (ptr_bytes a m e)) (\<lambda>a. bindr (push_kernel a (ptr_bytes a 0 n)) (\<lambda>a.
      bindr (push_kernel a z) (\<lambda>a. if \<not> 0 < a_ktop a then Inl Assert_Failed
        else Inr (USER_STACK_TOP - of_nat (16384 - a_ktop a), drop (a_ktop a) (a_pages a)))))"
  shows "if length z + length y + length x < a_ktop a
    then run = Inr (USER_STACK_TOP - of_nat (length (z @ y @ x @ area a)), z @ y @ x @ area a)
    else run = Inl (if length z + length y + length x = a_ktop a then Assert_Failed else Bad_Access)"
proof (cases "length x \<le> a_ktop a")
  case False
  then show ?thesis using push_kernel_area(2) [OF assms(1), of x] by (simp add: run_def x_def)
next
  case True
  from push_kernel_fits [OF assms(1) True] obtain a1 where a1: "push_kernel a x = Inr a1" "area a1 = x @ area a" "area_wf a1"
    "a_ktop a1 = a_ktop a - length x" "a_ptrs a1 = a_ptrs a" "length (a_pages a1) = length (a_pages a)" .
  then have run1: "run = bindr (push_kernel a1 y) (\<lambda>a. bindr (push_kernel a z) (\<lambda>a. if \<not> 0 < a_ktop a then Inl Assert_Failed
        else Inr (USER_STACK_TOP - of_nat (16384 - a_ktop a), drop (a_ktop a) (a_pages a))))"
    by (simp add: run_def x_def y_def ptr_bytes_def)
  show ?thesis
  proof (cases "length y \<le> a_ktop a1")
    case False
    then have "a_ktop a < length z + length y + length x" using a1(4) True by linarith
    then show ?thesis using False push_kernel_area(2) [OF a1(3), of y] by (simp add: run1)
  next
    case True
    from push_kernel_fits [OF a1(3) True] obtain a2 where a2: "push_kernel a1 y = Inr a2" "area a2 = y @ area a1" "area_wf a2"
      "a_ktop a2 = a_ktop a1 - length y" "a_ptrs a2 = a_ptrs a1" "length (a_pages a2) = length (a_pages a1)" .
    show ?thesis
    proof (cases "length z \<le> a_ktop a2")
      case False
      then have "a_ktop a < length z + length y + length x"
        using a1(4) a2(4) \<open>length y \<le> a_ktop a1\<close> \<open>length x \<le> a_ktop a\<close> by linarith
      then show ?thesis using False push_kernel_area(2) [OF a2(3), of z] a2(1) by (simp add: run1)
    next
      case True
      from push_kernel_fits [OF a2(3) True] obtain a3 where a3: "push_kernel a2 z = Inr a3" "area a3 = z @ area a2" "area_wf a3"
        "a_ktop a3 = a_ktop a2 - length z" "a_ptrs a3 = a_ptrs a2" "length (a_pages a3) = length (a_pages a2)" .
      have "length (area a3) = 16384 - a_ktop a3" using a3(6) a2(6) a1(6) assms(2) by (simp add: area_def)
      moreover have "area a3 = z @ y @ x @ area a" using a3(2) a2(2) a1(2) by simp
      moreover have "0 < a_ktop a3 \<longleftrightarrow> length z + length y + length x < a_ktop a"
        "\<not> 0 < a_ktop a3 \<longleftrightarrow> length z + length y + length x = a_ktop a"
        using a3(4) a2(4) a1(4) True \<open>length y \<le> a_ktop a1\<close> \<open>length x \<le> a_ktop a\<close> by auto
      ultimately show ?thesis
        using a3(1) a2(1) by (auto simp: run1 area_def [symmetric])
    qed
  qed
qed

lemma copy_argv_envp_run:
  assumes "args_rep argv as" "args_rep envp es" "cstr filename f" "length pages = 16384" "length ptrs = 1024"
  shows "copy_argv_envp pages ptrs filename argv envp =
    (if \<not> length as + length es + 2 < 1024 \<or> 16384 < args_need (f # as @ es) then Inl Bad_Access
     else if args_need (f # as @ es) = 16384 then Inl Assert_Failed
     else Inr (USER_STACK_TOP - of_nat (args_need (f # as @ es)), args_block (f # as) es))"
proof -
  define zs where "zs = f # as @ es"
  define a where "a = \<lparr>a_pages = pages, a_ktop = length pages, a_utop = USER_STACK_TOP, a_ptrs = ptrs\<rparr>"
  define rest where "rest = (\<lambda>a. bindr (push_kernel a (ptr_bytes a (length as + 2) (length es + 1))) (\<lambda>a.
        bindr (push_kernel a (ptr_bytes a 0 (length as + 2))) (\<lambda>a.
        bindr (push_kernel a (word_bytes (of_nat (length as + 1)))) (\<lambda>a.
        if \<not> 0 < a_ktop a then Inl Assert_Failed
        else Inr (USER_STACK_TOP - of_nat (length pages - a_ktop a), drop (a_ktop a) (a_pages a))))))"
  have run: "copy_argv_envp pages ptrs filename argv envp
    = bindr (set_ptr a (length as + 1) 0) (\<lambda>a. bindr (set_ptr a (length as + 2 + length es) 0) (\<lambda>a.
      bindr (bindr (push_strings a (pointers envp) (length as + 2) (length es)) (\<lambda>a.
        bindr (push_strings a (pointers argv) 1 (length as)) (\<lambda>a. push_string a (Some filename) 0))) rest))"
    unfolding copy_argv_envp_def count_argv_rep [OF assms(1)] count_argv_rep [OF assms(2)] bindr_Inr Let_def bindr_assoc
      rest_def pointers_def [symmetric] a_def
    by simp
  show ?thesis
  proof (cases "length as + length es + 2 < 1024")
    case False
    then have "copy_argv_envp pages ptrs filename argv envp = Inl Bad_Access"
      using assms(5) by (cases "length as + 1 < 1024") (simp_all add: run set_ptr_simps a_def)
    with False show ?thesis by simp
  next
    case True
    define b where "b = a\<lparr>a_ptrs := ptrs[length as + 1 := 0, length as + 2 + length es := 0]\<rparr>"
    have b: "area_wf b" "area b = []" "a_ktop b = 16384" "a_utop b = USER_STACK_TOP" "length (a_ptrs b) = 1024"
      "a_ptrs b ! (length as + 1) = 0" "a_ptrs b ! (length as + 2 + length es) = 0" "length (a_pages b) = 16384"
      using True assms(4,5) by (simp_all add: b_def a_def area_wf_def area_def)
    have fits: "length as + length es + 2 < length (a_ptrs b)" using True b(5) by simp
    have run2: "copy_argv_envp pages ptrs filename argv envp
      = bindr (bindr (push_strings b (pointers envp) (length as + 2) (length es)) (\<lambda>a.
        bindr (push_strings a (pointers argv) 1 (length as)) (\<lambda>a. push_string a (Some filename) 0))) rest"
      using True assms(5) unfolding run by (simp add: set_ptr_simps a_def b_def)
    note S = strings_run [OF assms(1,2,3) b(1) fits]
    show ?thesis
    proof (cases "zs_length zs \<le> 16384")
      case False
      then have "copy_argv_envp pages ptrs filename argv envp = Inl Bad_Access"
        using S b(3) unfolding run2 zs_def [symmetric] by simp
      with False show ?thesis by (simp add: args_need_def zs_def)
    next
      case strs: True
      with S b(3) obtain a1 a2 a3 where p: "pushed b a1 es (length as + 2)" "pushed a1 a2 as 1" "pushed a2 a3 [f] 0"
        and r: "copy_argv_envp pages ptrs filename argv envp = rest a3"
        unfolding run2 zs_def [symmetric] by auto
      note P = pushedD [OF p(1)] and Q = pushedD [OF p(2)] and R = pushedD [OF p(3)]
      have a3: "area a3 = concat (map zstr zs)" "area_wf a3" "a_ktop a3 = 16384 - zs_length zs" "length (a_pages a3) = 16384"
        using P(1,4,7) Q(1,4,7) R(1,2,4,7) b by (simp_all add: zs_def)
      note T = tables [OF p b(4,6,7) fits, folded zs_def]
      have t1: "ptr_bytes a3 0 (length as + 2) = concat (map word_bytes (map (user_ptr zs) [0..<length as + 1] @ [0]))"
        unfolding ptr_bytes_def drop_0 T(1) ..
      have t2: "ptr_bytes a3 (length as + 2) (length es + 1) = concat (map word_bytes (map (user_ptr zs) [length as + 1..<length zs] @ [0]))"
        unfolding ptr_bytes_def T(2) ..
      have r2: "rest a3 = bindr (push_kernel a3 (ptr_bytes a3 (length as + 2) (length es + 1))) (\<lambda>a.
          bindr (push_kernel a (ptr_bytes a 0 (length as + 2))) (\<lambda>a. bindr (push_kernel a (word_bytes (of_nat (length as + 1)))) (\<lambda>a.
          if \<not> 0 < a_ktop a then Inl Assert_Failed
          else Inr (USER_STACK_TOP - of_nat (16384 - a_ktop a), drop (a_ktop a) (a_pages a)))))"
        unfolding rest_def assms(4) ..
      have blk: "word_bytes (of_nat (length as + 1)) @ ptr_bytes a3 0 (length as + 2)
          @ ptr_bytes a3 (length as + 2) (length es + 1) @ area a3 = args_block (f # as) es"
        unfolding t1 t2 a3(1) args_block_def Let_def by (simp add: zs_def)
      have room: "length (word_bytes (of_nat (length as + 1))) + length (ptr_bytes a3 0 (length as + 2))
          + length (ptr_bytes a3 (length as + 2) (length es + 1)) < a_ktop a3 \<longleftrightarrow> args_need zs < 16384"
        "length (word_bytes (of_nat (length as + 1))) + length (ptr_bytes a3 0 (length as + 2))
          + length (ptr_bytes a3 (length as + 2) (length es + 1)) = a_ktop a3 \<longleftrightarrow> args_need zs = 16384"
        unfolding t1 t2 length_concat_words a3(3) using strs by (auto simp: args_need_def zs_def)
      from rest_run [OF a3(2,4), of "word_bytes (of_nat (length as + 1))" "length as + 2" "length as + 2" "length es + 1"]
      show ?thesis
        using True unfolding r r2 blk room length_args_block zs_def
        by (cases "args_need (f # as @ es)" "16384 :: nat" rule: linorder_cases) simp_all
    qed
  qed
qed

section \<open>What the program takes up\<close>

definition args_words :: "u8 list list \<Rightarrow> u8 list list \<Rightarrow> u32 list" where
  "args_words as es = [of_nat (length as)] @ (map (user_ptr (as @ es)) [0..<length as] @ [0])
       @ map (user_ptr (as @ es)) [length as..<length (as @ es)] @ [0]"

lemma args_block_words: "args_block as es = concat (map word_bytes (args_words as es)) @ concat (map zstr (as @ es))"
  unfolding args_block_def args_words_def Let_def ..

lemma length_args_words: "length (args_words as es) = length (as @ es) + 3"
  by (simp add: args_words_def)

lemma args_words_nth:
  "args_words as es ! 0 = of_nat (length as)"
  "i < length as \<Longrightarrow> args_words as es ! Suc i = user_ptr (as @ es) i"
  "args_words as es ! Suc (length as) = 0"
  "j < length es \<Longrightarrow> args_words as es ! Suc (Suc (length as + j)) = user_ptr (as @ es) (length as + j)"
  "args_words as es ! Suc (Suc (length as + length es)) = 0"
  by (simp_all add: args_words_def nth_append)

lemma unat_offset: "n < 0x10000 \<Longrightarrow> unat (a + of_nat n - a :: u32) = n"
  by simp

lemma stack_word_at:
  assumes "i < length (args_words as es)" "args_need (as @ es) < 16384"
  shows "stack_word (args_block as es) esp (esp + of_nat (4 * i)) = args_words as es ! i"
proof -
  have "4 * i < 0x10000" using assms by (simp add: length_args_words args_need_def)
  then show ?thesis
    unfolding stack_word_def unat_offset [OF \<open>4 * i < 0x10000\<close>] args_block_words by (intro nth_word assms(1))
qed

lemma drop_concat: "drop (length (concat (map g (take i xs)))) (concat (map g xs)) = concat (map g (drop i xs))"
proof -
  have "concat (map g xs) = concat (map g (take i xs)) @ concat (map g (drop i xs))"
    by (metis append_take_drop_id concat_append map_append)
  then show ?thesis by simp
qed

lemma zs_length_drop: "zs_length zs = zs_length (take i zs) + zs_length (drop i zs)"
  by (metis append_take_drop_id zs_length_simps(3))

lemma user_string:
  assumes "i < length (as @ es)" "0 \<notin> set ((as @ es) ! i)" "args_need (as @ es) < 16384"
  shows "string_at (args_block as es) (USER_STACK_TOP - of_nat (args_need (as @ es))) (user_ptr (as @ es) i) = (as @ es) ! i"
    and "user_ptr (as @ es) i \<noteq> 0"
proof -
  define zs where "zs = as @ es"
  have le: "zs_length (drop i zs) \<le> args_need zs" "zs_length (drop i zs) < 16384"
    using zs_length_drop [of zs i] assms(3) by (simp_all add: args_need_def zs_def)
  have "user_ptr zs i - (USER_STACK_TOP - of_nat (args_need zs)) = of_nat (args_need zs - zs_length (drop i zs))"
    using le(1) by (simp add: user_ptr_def of_nat_diff)
  then have "unat (user_ptr zs i - (USER_STACK_TOP - of_nat (args_need zs))) = args_need zs - zs_length (drop i zs)"
    using assms(3) unfolding zs_def [symmetric] by (simp only:) (rule unat_u32_of_nat, simp)
  also have "\<dots> = 4 * (length zs + 3) + zs_length (take i zs)"
    using zs_length_drop [of zs i] by (simp add: args_need_def)
  finally have off: "unat (user_ptr zs i - (USER_STACK_TOP - of_nat (args_need zs)))
    = length (concat (map word_bytes (args_words as es))) + length (concat (map zstr (take i zs)))"
    unfolding length_concat_words length_args_words zs_def [symmetric] zs_length_def .
  have "drop (unat (user_ptr zs i - (USER_STACK_TOP - of_nat (args_need zs)))) (args_block as es) = concat (map zstr (drop i zs))"
    unfolding off args_block_words zs_def [symmetric] drop_append [symmetric]
    using drop_concat [of zstr i zs] by (simp add: add.commute)
  also have "drop i zs = zs ! i # drop (Suc i) zs" using assms(1) by (intro Cons_nth_drop_Suc [symmetric]) (simp add: zs_def)
  finally have d: "drop (unat (user_ptr zs i - (USER_STACK_TOP - of_nat (args_need zs)))) (args_block as es)
    = zs ! i @ 0 # concat (map zstr (drop (Suc i) zs))" by (simp add: zstr_def [of "zs ! i"])
  have tw: "takeWhile (\<lambda>c. c \<noteq> 0) (zs ! i @ 0 # r) = zs ! i" for r :: "u8 list"
    using assms(2) unfolding zs_def [symmetric] by (subst takeWhile_append2) auto
  show "string_at (args_block as es) (USER_STACK_TOP - of_nat (args_need (as @ es))) (user_ptr (as @ es) i) = (as @ es) ! i"
    unfolding zs_def [symmetric] string_at_def d tw ..
  have "user_ptr zs i = 0 \<Longrightarrow> unat (of_nat (zs_length (drop i zs)) :: u32) = unat USER_STACK_TOP"
    by (simp add: user_ptr_def)
  then show "user_ptr (as @ es) i \<noteq> 0"
    using le(2) unfolding zs_def [symmetric] by (auto simp: USER_STACK_TOP_def unat_of_nat)
qed

lemma strings_at_words:
  assumes "args_need (as @ es) < 16384" "\<forall>s\<in>set (as @ es). 0 \<notin> set s"
  defines "esp \<equiv> USER_STACK_TOP - of_nat (args_need (as @ es))"
  shows "q + length ts \<le> length (as @ es) \<Longrightarrow> w + length ts < length (args_words as es) \<Longrightarrow>
    (\<forall>j<length ts. args_words as es ! (w + j) = user_ptr (as @ es) (q + j) \<and> (as @ es) ! (q + j) = ts ! j) \<Longrightarrow>
    args_words as es ! (w + length ts) = 0 \<Longrightarrow> length ts < n \<Longrightarrow>
    strings_at (args_block as es) esp (esp + of_nat (4 * w)) n = ts"
proof (induction ts arbitrary: w q n)
  case Nil
  then obtain m where "n = Suc m" by (cases n) auto
  with Nil show ?case using stack_word_at [OF _ assms(1), of w esp] by simp
next
  case (Cons t ts)
  then obtain m where n: "n = Suc m" by (cases n) auto
  have w: "w < length (args_words as es)" using Cons.prems(2) by simp
  have qq: "q < length (as @ es)" using Cons.prems(1) by simp
  have f: "args_words as es ! w = user_ptr (as @ es) q" "(as @ es) ! q = t" using Cons.prems(3) [rule_format, of 0] by simp_all
  have nz: "0 \<notin> set ((as @ es) ! q)" using assms(2) qq nth_mem by blast
  note u = user_string [OF qq nz assms(1), folded esp_def]
  have next': "esp + of_nat (4 * w) + 4 = esp + of_nat (4 * (w + 1))" by simp
  have "strings_at (args_block as es) esp (esp + of_nat (4 * (w + 1))) m = ts"
  proof (rule Cons.IH [of "q + 1" "w + 1"])
    show "\<forall>j<length ts. args_words as es ! (w + 1 + j) = user_ptr (as @ es) (q + 1 + j) \<and> (as @ es) ! (q + 1 + j) = ts ! j"
      using Cons.prems(3) by (auto dest: spec [of _ "Suc _"])
  qed (use Cons.prems n in simp_all)
  then show ?case
    unfolding n strings_at.simps Let_def stack_word_at [OF w assms(1)] next'
    using u f by simp
qed

lemma args_rep_strings: "args_rep p ss \<Longrightarrow> s \<in> set ss \<Longrightarrow> 0 \<notin> set s"
proof -
  assume "args_rep p ss" "s \<in> set ss"
  then obtain i where "i < length ss" "s = ss ! i" by (auto simp: in_set_conv_nth)
  with args_rep_nth [OF \<open>args_rep p ss\<close>, of i] show ?thesis by (metis cstr_def)
qed

text \<open>
  C25. The arguments of a program survive \<open>execve\<close>.  When they fit the four temporary pages and the
  page of pointers, \<open>copy_argv_envp\<close> gives the stack pointer and the bytes from there up to
  \<open>USER_STACK_TOP\<close>, and what \<open>_start\<close> and \<open>__libc_start_main\<close> take up from these bytes is the number
  of arguments, the program name with the arguments, and the environment, both arrays ended by
  NULL, whatever the pages held before.
\<close>
theorem execve_args_roundtrip:
  assumes "args_rep argv as" "args_rep envp es" "cstr filename f" "length pages = 16384" "length ptrs = 1024"
    and "length as + length es + 2 < 1024" "args_need (f # as @ es) < 16384"
  shows "\<exists>top block av ev. copy_argv_envp pages ptrs filename argv envp = Inr (top, block)
    \<and> unat top + length block = unat USER_STACK_TOP
    \<and> crt_start block top = (of_nat (length as + 1), av, ev)
    \<and> strings_at block top av (length as + 2) = f # as \<and> strings_at block top ev (length es + 1) = es"
proof -
  define fs where "fs = f # as"
  define block where "block = args_block fs es"
  define top where "top = USER_STACK_TOP - of_nat (args_need (fs @ es))"
  have need: "args_need (fs @ es) < 16384" using assms(7) by (simp add: fs_def)
  have run: "copy_argv_envp pages ptrs filename argv envp = Inr (top, block)"
    using copy_argv_envp_run [OF assms(1-5)] assms(6,7) by (simp add: top_def block_def fs_def)
  have nz: "\<forall>s\<in>set (fs @ es). 0 \<notin> set s"
    using args_rep_strings [OF assms(1)] args_rep_strings [OF assms(2)] assms(3) by (auto simp: fs_def cstr_def)
  have T: "unat top = unat USER_STACK_TOP - args_need (fs @ es)"
    using need unfolding top_def by (subst unat_diff_small) (simp_all add: USER_STACK_TOP_def unat_of_nat)
  have "stack_word block top top = of_nat (length fs)"
    using stack_word_at [OF _ need, of 0 top] by (simp add: block_def length_args_words args_words_nth)
  then have crt: "crt_start block top = (of_nat (length as + 1), top + of_nat (4 * 1), top + of_nat (4 * (length fs + 2)))"
    by (simp add: crt_start_def Let_def fs_def algebra_simps)
  have lf: "length as + 2 = length fs + 1" by (simp add: fs_def)
  have "strings_at block top (top + of_nat (4 * 1)) (length as + 2) = fs"
    unfolding block_def top_def lf
    by (rule strings_at_words [OF need nz, of 0]) (simp_all add: length_args_words args_words_nth nth_append)
  moreover have "strings_at block top (top + of_nat (4 * (length fs + 2))) (length es + 1) = es"
    unfolding block_def top_def
    by (rule strings_at_words [OF need nz, of "length fs"]) (simp_all add: length_args_words args_words_nth)
  moreover have "unat top + length block = unat USER_STACK_TOP"
    using need unfolding T block_def length_args_block by (simp add: USER_STACK_TOP_def)
  ultimately show ?thesis using run crt unfolding fs_def by blast
qed

text \<open>\<open>/a b\<close> with the environment \<open>c\<close>.\<close>

lemma execve_args_roundtrip_witness:
  "\<exists>top block av ev. copy_argv_envp (replicate 16384 0) (replicate 1024 0) [0x2f, 0x61, 0]
       (Some [Some [0x62, 0], None]) (Some [Some [0x63, 0], None]) = Inr (top, block)
    \<and> crt_start block top = (2, av, ev) \<and> strings_at block top av 3 = [[0x2f, 0x61], [0x62]] \<and> strings_at block top ev 2 = [[0x63]]"
proof -
  have a: "args_rep (Some [Some [0x62, 0], None]) [[0x62]]" "args_rep (Some [Some [0x63, 0], None]) [[0x63]]"
    by (auto simp: args_rep_def cstr_def intro!: exI [of _ "[[_, 0]]"])
  have f: "cstr [0x2f, 0x61, 0] [0x2f, 0x61]" by (simp add: cstr_def)
  have "args_need ([0x2f, 0x61] # [[0x62]] @ [[0x63]]) < 16384" by (simp add: args_need_def zstr_def)
  from execve_args_roundtrip [OF a f _ _ _ this, of "replicate 16384 0" "replicate 1024 0"] show ?thesis
    by (simp add: numeral_2_eq_2 numeral_3_eq_3 del: strings_at.simps replicate.simps) blast
qed

text \<open>
  C26. How much \<open>copy_argv_envp\<close> can take.  It keeps to its temporary pages exactly when the pointers of
  the two arrays, both closing NULLs included, fit the page \<open>argvk\<close> and the strings with their
  terminators, the arrays and \<open>argc\<close> fit the four pages \<open>pages\<close>; then it returns the complete block, unless
  nothing is left of the four pages, which the assertion at the end refuses.  Nothing in the code
  keeps larger arguments off: it writes behind \<open>argvk\<close> or below \<open>pages\<close> (\<open>Bad_Access\<close>; the C code goes
  on from there with whatever it overwrote).
\<close>
theorem execve_args_bounds:
  assumes "args_rep argv as" "args_rep envp es" "cstr filename f" "length pages = 16384" "length ptrs = 1024"
  shows "copy_argv_envp pages ptrs filename argv envp =
    (if 1024 < length as + length es + 3 \<or> 16384 < args_need (f # as @ es) then Inl Bad_Access
     else if args_need (f # as @ es) = 16384 then Inl Assert_Failed
     else Inr (USER_STACK_TOP - of_nat (args_need (f # as @ es)), args_block (f # as) es))"
  using copy_argv_envp_run [OF assms] by auto

text \<open>A program called \<open>a\<close> with 1022 empty arguments: 1025 pointers, for 5123 bytes in all.\<close>

lemma execve_args_bounds_witness:
  "copy_argv_envp (replicate 16384 0) (replicate 1024 0) [0x61, 0] (Some (replicate 1022 (Some [0]) @ [None])) None = Inl Bad_Access"
proof -
  have a: "args_rep (Some (replicate 1022 (Some [0]) @ [None])) (replicate 1022 [])" "args_rep None []"
    by (auto simp: args_rep_def cstr_def list_all2_conv_all_nth intro!: exI [of _ "replicate 1022 [0]"])
  have f: "cstr [0x61, 0] [0x61]" by (simp add: cstr_def)
  show ?thesis
    using execve_args_bounds [OF a f, of "replicate 16384 0" "replicate 1024 0"]
    by (simp only: length_replicate list.size) simp
qed

end
