(* ===== verification/Ylos_Execve.thy ===== *)
theory Ylos_Execve
  imports Ylos_Args Ylos_Namei
begin

text \<open>
  kernel/execve.c: the check of an ELF header, the loading of the segments, and \<open>sys_execve\<close>.
  Bytes of the user's memory are read and written through the page tables, by the kernel, which
  the processor does not keep from writing to read-only pages; a page that is not there runs the
  page fault handler first.  The headers are read where they lie in the user's memory, so a
  segment may overwrite them.
\<close>

section \<open>User memory\<close>

definition get_mem :: "('w fs_t, mem_t) op" where
  "get_mem = getM (\<lambda>s. h_mem (fs_heap s))"

definition put_mem :: "mem_t \<Rightarrow> ('w fs_t, unit) op" where
  "put_mem m = modM (\<lambda>s. s\<lparr>fs_heap := (fs_heap s)\<lparr>h_mem := m\<rparr>\<rparr>)"

text \<open>A task that is ended by the handler does not come back to the caller.\<close>

definition touch :: "u32 \<Rightarrow> u32 \<Rightarrow> ('w fs_t, unit) op" where
  "touch error addr =
     bindM get_mem (\<lambda>m.
     if translate m addr \<noteq> None then ret ()
     else bindM (getM fs_task) (\<lambda>task.
          bindM (liftM (page_fault m task 0xe addr error)) (\<lambda>r. case r of
            Fault_Mapped m \<Rightarrow> put_mem m
          | Segmentation_Fault \<Rightarrow> failM Would_Sleep)))"

definition byte_shift :: "u32 \<Rightarrow> nat" where
  "byte_shift addr = 8 * unat (addr AND 3)"

definition user_read8 :: "u32 \<Rightarrow> ('w fs_t, u8) op" where
  "user_read8 addr =
     seqM (touch 0 addr) (bindM get_mem (\<lambda>m. bindM (liftM (vread m addr)) (\<lambda>w. ret (ucast (drop_bit (byte_shift addr) w)))))"

definition user_write8 :: "u32 \<Rightarrow> u8 \<Rightarrow> ('w fs_t, unit) op" where
  "user_write8 addr v =
     seqM (touch 2 addr) (bindM get_mem (\<lambda>m. bindM (liftM (vread m addr)) (\<lambda>w.
       let w = (w AND NOT (push_bit (byte_shift addr) 0xff)) OR push_bit (byte_shift addr) (ucast v)
       in bindM (liftM (vwrite m addr w)) put_mem)))"

fun user_read :: "u32 \<Rightarrow> nat \<Rightarrow> ('w fs_t, u8 list) op" where
  "user_read addr 0 = ret []"
| "user_read addr (Suc n) = bindM (user_read8 addr) (\<lambda>b. bindM (user_read (addr + 1) n) (\<lambda>bs. ret (b # bs)))"

fun user_write :: "u32 \<Rightarrow> u8 list \<Rightarrow> ('w fs_t, unit) op" where
  "user_write addr [] = ret ()"
| "user_write addr (b # bs) = seqM (user_write8 addr b) (user_write (addr + 1) bs)"

definition user_u16 :: "u32 \<Rightarrow> ('w fs_t, u16) op" where
  "user_u16 addr = bindM (user_read addr 2) (\<lambda>bs. ret (ucast (bytes_word (bs @ [0, 0]))))"

definition user_u32 :: "u32 \<Rightarrow> ('w fs_t, u32) op" where
  "user_u32 addr = bindM (user_read addr 4) (\<lambda>bs. ret (bytes_word bs))"

text \<open>\<open>inode_read\<close> into the user's memory.\<close>

definition user_inode_read :: "nat \<Rightarrow> u32 \<Rightarrow> u32 \<Rightarrow> u32 \<Rightarrow> ('w fs_t, u32) op" where
  "user_inode_read i addr len off = bindM (inode_read i len off) (\<lambda>(bs, n). seqM (user_write addr bs) (ret n))"

section \<open>The ELF file\<close>

definition ET_EXEC :: u16 where "ET_EXEC = 2"
definition EM_386 :: u16 where "EM_386 = 3"
definition EV_CURRENT :: u32 where "EV_CURRENT = 1"
definition PT_LOAD :: u32 where "PT_LOAD = 1"
definition PF_X :: u32 where "PF_X = 1"
definition PF_W :: u32 where "PF_W = 2"
definition PF_R :: u32 where "PF_R = 4"

text \<open>Offsets of the fields, and the sizes of the two headers.\<close>

definition EHDR_SIZE :: u32 where "EHDR_SIZE = 52"
definition PHDR_SIZE :: u32 where "PHDR_SIZE = 32"
definition e_type :: "u32 \<Rightarrow> ('w fs_t, u16) op" where "e_type h = user_u16 (h + 16)"
definition e_machine :: "u32 \<Rightarrow> ('w fs_t, u16) op" where "e_machine h = user_u16 (h + 18)"
definition e_version :: "u32 \<Rightarrow> ('w fs_t, u32) op" where "e_version h = user_u32 (h + 20)"
definition e_entry :: "u32 \<Rightarrow> ('w fs_t, u32) op" where "e_entry h = user_u32 (h + 24)"
definition e_phoff :: "u32 \<Rightarrow> ('w fs_t, u32) op" where "e_phoff h = user_u32 (h + 28)"
definition e_phentsize :: "u32 \<Rightarrow> ('w fs_t, u16) op" where "e_phentsize h = user_u16 (h + 42)"
definition e_phnum :: "u32 \<Rightarrow> ('w fs_t, u16) op" where "e_phnum h = user_u16 (h + 44)"
definition p_type :: "u32 \<Rightarrow> ('w fs_t, u32) op" where "p_type p = user_u32 p"
definition p_offset :: "u32 \<Rightarrow> ('w fs_t, u32) op" where "p_offset p = user_u32 (p + 4)"
definition p_vaddr :: "u32 \<Rightarrow> ('w fs_t, u32) op" where "p_vaddr p = user_u32 (p + 8)"
definition p_filesz :: "u32 \<Rightarrow> ('w fs_t, u32) op" where "p_filesz p = user_u32 (p + 16)"
definition p_memsz :: "u32 \<Rightarrow> ('w fs_t, u32) op" where "p_memsz p = user_u32 (p + 20)"
definition p_flags :: "u32 \<Rightarrow> ('w fs_t, u32) op" where "p_flags p = user_u32 (p + 24)"
definition p_align :: "u32 \<Rightarrow> ('w fs_t, u32) op" where "p_align p = user_u32 (p + 28)"

definition elf_magic :: "u8 list" where
  "elf_magic = [0x7f, 0x45, 0x4c, 0x46, 1, 1, 1]"

definition elf_validate :: "u32 \<Rightarrow> ('w fs_t, bool) op" where
  "elf_validate ehdr =
     bindM (user_read ehdr 7) (\<lambda>ident. bindM (liftM (memcmp ident elf_magic 7)) (\<lambda>c.
     if c \<noteq> 0 then ret False
     else bindM (e_type ehdr) (\<lambda>t. if t \<noteq> ET_EXEC then ret False
     else bindM (e_machine ehdr) (\<lambda>m. if m \<noteq> EM_386 then ret False
     else bindM (e_version ehdr) (\<lambda>v. if v \<noteq> EV_CURRENT then ret False
     else bindM (e_phentsize ehdr) (\<lambda>n. ret (ucast n = PHDR_SIZE)))))))"

fun link_segment :: "u32 \<Rightarrow> u32 \<Rightarrow> nat \<Rightarrow> ('w fs_t, unit) op" where
  "link_segment vaddr i 0 = ret ()"
| "link_segment vaddr i (Suc n) =
     (let addr = vaddr + i * PAGE_SIZE
      in seqM (assertM (USER_EXEC_ADDR \<le> addr \<and> addr < USER_MMAP_ADDR))
         (bindM get_mem (\<lambda>m. bindM (liftM (link_page m addr)) (\<lambda>m.
          seqM (put_mem m) (link_segment vaddr (i + 1) n)))))"

fun protect_segment :: "u32 \<Rightarrow> u32 \<Rightarrow> nat \<Rightarrow> ('w fs_t, unit) op" where
  "protect_segment vaddr i 0 = ret ()"
| "protect_segment vaddr i (Suc n) =
     (let addr = vaddr + i * PAGE_SIZE
      in bindM get_mem (\<lambda>m. bindM (liftM (get_entry m addr False)) (\<lambda>(m, slot).
         bindM (liftM (vread m slot)) (\<lambda>entry.
         bindM (liftM (vwrite m slot (set_bit 11 (unset_bit 1 entry)))) (\<lambda>m.
         seqM (put_mem m) (protect_segment vaddr (i + 1) n))))))"

definition load_segment :: "nat \<Rightarrow> u32 \<Rightarrow> ('w fs_t, unit) op" where
  "load_segment inode phdr =
     bindM (p_align phdr) (\<lambda>align. seqM (assertM (align = 0x1000))
     (bindM (p_vaddr phdr) (\<lambda>vaddr. seqM (assertM (vaddr AND 0xfff = 0))
     (bindM (p_memsz phdr) (\<lambda>memsz. bindM (p_filesz phdr) (\<lambda>filesz.
      bindM (liftM (div_round_up (max memsz filesz) PAGE_SIZE)) (\<lambda>count.
      seqM (link_segment vaddr 0 (unat count))
      (bindM (p_filesz phdr) (\<lambda>filesz. bindM (p_offset phdr) (\<lambda>off.
       seqM (bindM (user_inode_read inode vaddr filesz off) (\<lambda>_. ret ()))
       (bindM (p_filesz phdr) (\<lambda>filesz. bindM (p_memsz phdr) (\<lambda>memsz.
        seqM (whenM (filesz < memsz) (user_write (vaddr + filesz) (replicate (unat (memsz - filesz)) 0)))
        (bindM (p_flags phdr) (\<lambda>flags.
         seqM (whenM (flags AND PF_W = 0) (protect_segment vaddr 0 (unat count)))
         (bindM (p_flags phdr) (\<lambda>flags.
          seqM (if flags = PF_R OR PF_X then modM (\<lambda>s. s\<lparr>fs_task := (fs_task s)\<lparr>t_text := vaddr\<rparr>\<rparr>)
                else whenM (flags = PF_R OR PF_W) (modM (\<lambda>s. s\<lparr>fs_task := (fs_task s)\<lparr>t_data := vaddr\<rparr>\<rparr>)))
          (modM (\<lambda>s. s\<lparr>fs_task := (fs_task s)\<lparr>t_end := max (t_end (fs_task s)) (vaddr + count * PAGE_SIZE)\<rparr>\<rparr>)))))))))))))))))))"

text \<open>
  The loop over the program headers.  \<open>e_phnum\<close> is read again for each round, and \<open>ptr\<close> moves on
  only after a header of type \<open>PT_LOAD\<close>.  \<open>e_phnum\<close> has 16 bits, so 65536 rounds are enough.
\<close>

fun load_loop :: "nat \<Rightarrow> nat \<Rightarrow> u32 \<Rightarrow> u32 \<Rightarrow> ('w fs_t, unit) op" where
  "load_loop inode 0 i ptr = failM Diverges"
| "load_loop inode (Suc fuel) i ptr =
     bindM (e_phnum USER_EXEC_ADDR) (\<lambda>phnum.
     if \<not> i < ucast phnum then ret ()
     else bindM (p_type ptr) (\<lambda>t.
          if t \<noteq> PT_LOAD then load_loop inode fuel (i + 1) ptr
          else seqM (load_segment inode ptr) (load_loop inode fuel (i + 1) (ptr + PHDR_SIZE))))"

definition load_elf :: "nat \<Rightarrow> ('w fs_t, u32) op" where
  "load_elf inode =
     bindM get_mem (\<lambda>m. bindM (liftM (link_page m USER_EXEC_ADDR)) (\<lambda>m.
     seqM (put_mem m)
     (bindM (user_inode_read inode USER_EXEC_ADDR EHDR_SIZE 0) (\<lambda>n.
      seqM (assertM (n = EHDR_SIZE))
      (bindM (elf_validate USER_EXEC_ADDR) (\<lambda>valid.
       if \<not> valid then ret EOF
       else bindM (e_phnum USER_EXEC_ADDR) (\<lambda>phnum. bindM (e_phentsize USER_EXEC_ADDR) (\<lambda>phentsize.
            bindM (e_phoff USER_EXEC_ADDR) (\<lambda>phoff.
            bindM (user_inode_read inode (USER_EXEC_ADDR + EHDR_SIZE) (ucast phnum * ucast phentsize) phoff) (\<lambda>_.
            seqM (load_loop inode 65536 0 (USER_EXEC_ADDR + EHDR_SIZE)) (e_entry USER_EXEC_ADDR)))))))))))"

section \<open>\<open>sys_execve\<close>\<close>

definition brk_task :: "u32 \<Rightarrow> ('w fs_t, u32) op" where
  "brk_task addr =
     bindM get_mem (\<lambda>m. bindM (getM fs_task) (\<lambda>task.
     bindM (liftM (sys_brk m task addr)) (\<lambda>(m, task, r).
     seqM (put_mem m) (seqM (modM (\<lambda>s. s\<lparr>fs_task := task\<rparr>)) (ret r)))))"

text \<open>The temporary pages; their old bytes \<open>pages\<close> and \<open>ptrs\<close> do not matter (\<open>copy_argv_envp_run\<close>).\<close>

definition copy_args ::
    "u8 list \<Rightarrow> u32 list \<Rightarrow> u8 list \<Rightarrow> u8 list option list option \<Rightarrow> u8 list option list option \<Rightarrow> ('w fs_t, u32) op" where
  "copy_args pages ptrs filename argv envp =
     bindM get_mem (\<lambda>m. bindM (liftM (alloc_kpage m 4)) (\<lambda>(m, kpages).
     bindM (liftM (alloc_kpage m 1)) (\<lambda>(m, argvk).
     seqM (put_mem m)
     (bindM (liftM (copy_argv_envp pages ptrs filename argv envp)) (\<lambda>(utop, block).
      seqM (user_write utop block)
      (bindM get_mem (\<lambda>m. bindM (liftM (free_kpage m argvk 1)) (\<lambda>m. bindM (liftM (free_kpage m kpages 4)) (\<lambda>m.
       seqM (put_mem m) (ret utop))))))))))"

text \<open>The call comes back with a value, or leaves by the interrupt frame into the new program.\<close>

datatype exec_outcome = Exec_Returns u32 | Exec_Enters u32 u32

definition exec_fails :: "nat option \<Rightarrow> ('w fs_t, exec_outcome) op" where
  "exec_fails inode = seqM (iput inode) (ret (Exec_Returns EOF))"

definition sys_execve ::
    "u8 list \<Rightarrow> u32 list \<Rightarrow> u8 list \<Rightarrow> u8 list option list option \<Rightarrow> u8 list option list option \<Rightarrow> ('w fs_t, exec_outcome) op" where
  "sys_execve pages ptrs filename argv envp =
     bindM (namei filename) (\<lambda>r. case r of None \<Rightarrow> exec_fails None
     | Some inode \<Rightarrow>
       bindM (imode inode) (\<lambda>mode.
       if \<not> ISFILE mode then exec_fails (Some inode)
       else bindM (permission inode P_EXEC) (\<lambda>ok.
       if \<not> ok then exec_fails (Some inode)
       else bindM (getM fs_task) (\<lambda>task.
            bindM (liftM (strncpy (t_name task) filename 16)) (\<lambda>name.
            seqM (modM (\<lambda>s. s\<lparr>fs_task := (fs_task s)\<lparr>t_name := name\<rparr>\<rparr>))
            (bindM (copy_args pages ptrs filename argv envp) (\<lambda>top.
             seqM (modM (\<lambda>s. s\<lparr>fs_task := (fs_task s)\<lparr>t_end := USER_EXEC_ADDR\<rparr>\<rparr>))
             (seqM (bindM (brk_task USER_EXEC_ADDR) (\<lambda>_. ret ()))
             (bindM (load_elf inode) (\<lambda>entry.
              if entry = EOF then exec_fails (Some inode)
              else bindM (getM fs_task) (\<lambda>task.
                   seqM (bindM (brk_task (t_end task)) (\<lambda>_. ret ()))
                   (bindM (getM fs_task) (\<lambda>task.
                    seqM (iput (t_iexec task))
                    (seqM (modM (\<lambda>s. s\<lparr>fs_task := (fs_task s)\<lparr>t_iexec := Some inode\<rparr>\<rparr>))
                     (ret (Exec_Enters entry top))))))))))))))))"

section \<open>Program headers behind the first that is not loaded\<close>

lemma load_loop_stuck:
  assumes "e_phnum USER_EXEC_ADDR s = Inr (n, s)" "p_type ptr s = Inr (t, s)" "t \<noteq> PT_LOAD"
  shows "unat n - unat i < fuel \<Longrightarrow> load_loop inode fuel i ptr s = Inr ((), s)"
proof (induction fuel arbitrary: i)
  case (Suc fuel)
  have un: "unat (ucast n :: u32) = unat n"
    using unsigned_less [of n, where ?'a = nat] by (simp add: unsigned_ucast_eq take_bit_nat_eq_self)
  show ?case
  proof (cases "i < ucast n")
    case True
    then have lt: "unat i < unat n" by (simp add: word_less_nat_alt un)
    have "unat n < 65536" using unsigned_less [of n, where ?'a = nat] by simp
    with lt have "unat (i + 1) = Suc (unat i)" by (intro unat_Suc_small) simp
    with lt Suc.prems have "unat n - unat (i + 1) < fuel" by simp
    from Suc.IH [OF this] True assms show ?thesis by (simp add: bindM_def)
  qed (simp add: bindM_def assms(1))
qed simp

text \<open>Reading bytes that are there changes nothing.\<close>

definition user_byte :: "mem_t \<Rightarrow> u32 \<Rightarrow> u8" where
  "user_byte m addr = (case vread m addr of Inr w \<Rightarrow> ucast (drop_bit (byte_shift addr) w) | Inl _ \<Rightarrow> 0)"

definition fs_mem :: "'w fs_t \<Rightarrow> mem_t" where
  "fs_mem s = h_mem (fs_heap s)"

lemma user_read8_mapped:
  assumes "translate (fs_mem s) addr = Some f"
  shows "user_read8 addr s = Inr (user_byte (fs_mem s) addr, s)"
  using assms
  by (simp add: user_read8_def seqM_def bindM_def touch_def get_mem_def fs_mem_def vread_def user_byte_def)

lemma user_read_mapped:
  "(\<And>i. i < n \<Longrightarrow> translate (fs_mem s) (addr + of_nat i) \<noteq> None) \<Longrightarrow>
   user_read addr n s = Inr (map (\<lambda>i. user_byte (fs_mem s) (addr + of_nat i)) [0..<n], s)"
proof (induction n arbitrary: addr)
  case (Suc n)
  have "user_read (addr + 1) n s = Inr (map (\<lambda>i. user_byte (fs_mem s) (addr + 1 + of_nat i)) [0..<n], s)"
    by (rule Suc.IH) (use Suc.prems [of "Suc _"] in \<open>simp add: algebra_simps\<close>)
  moreover obtain f where "translate (fs_mem s) addr = Some f" using Suc.prems [of 0] by auto
  ultimately show ?case
    by (simp add: bindM_def user_read8_mapped map_upt_Suc algebra_simps del: upt_Suc)
qed simp

text \<open>
  A program header that is not \<open>PT_LOAD\<close> hides all that follow it.  The loop of \<open>load_elf\<close> goes on
  to its next round without moving to the next header, so once it meets such a header it spends the
  rounds left on it and ends: no segment behind it is loaded, no page linked, nothing of the task
  changed, and \<open>load_elf\<close> still reports success.
\<close>
theorem load_elf_stops_at_other_header:
  assumes "\<And>i. i < 2 \<Longrightarrow> translate (fs_mem s) (USER_EXEC_ADDR + 44 + of_nat i) \<noteq> None"
    and "\<And>i. i < 4 \<Longrightarrow> translate (fs_mem s) (ptr + of_nat i) \<noteq> None"
    and "bytes_word (map (\<lambda>i. user_byte (fs_mem s) (ptr + of_nat i)) [0..<4]) \<noteq> PT_LOAD"
  shows "load_loop inode 65536 i ptr s = Inr ((), s)"
proof -
  obtain n where n: "e_phnum USER_EXEC_ADDR s = Inr (n, s)"
    using user_read_mapped [OF assms(1)] by (simp add: e_phnum_def user_u16_def bindM_def)
  have "p_type ptr s = Inr (bytes_word (map (\<lambda>i. user_byte (fs_mem s) (ptr + of_nat i)) [0..<4]), s)"
    using user_read_mapped [OF assms(2)] by (simp add: p_type_def user_u32_def bindM_def del: upt_rec_numeral)
  moreover have "unat n - unat i < 65536" using unsigned_less [of n, where ?'a = nat] by simp
  ultimately show ?thesis using load_loop_stuck [OF n _ assms(3)] by blast
qed

text \<open>One page of the user, whose words are all 0: a header of type \<open>PT_NULL\<close>.\<close>

definition null_page :: mem_t where
  "null_page = \<lparr>m_phys = (\<lambda>f w. if f = 1 \<and> w = 4 then 0x2007 else if f = 2 \<and> w = 0 then 0x3007 else 0), m_base = 0, m_size = 0,
     m_total_pages = 0, m_free_pages = 0, m_start_page = 0, m_map = [], m_kernel_map = undefined, m_cr3 = 0x1000\<rparr>"

definition null_fs :: "unit fs_t" where
  "null_fs = (undefined :: unit fs_t)\<lparr>fs_heap := undefined\<lparr>h_mem := null_page\<rparr>\<rparr>"

lemma null_page_mapped: "a \<in> {0x1000000..<0x1001000} \<Longrightarrow> translate null_page a = Some 3 \<and> m_phys null_page 3 (word_index a) = 0"
proof -
  assume a: "a \<in> {0x1000000..<0x1001000}"
  then have u: "0x1000000 \<le> unat a" "unat a < 0x1001000" by (simp_all add: word_le_nat_alt word_less_nat_alt)
  have "unat a div 4194304 = 4" "unat a div 4096 = 4096" by (rule div_nat_eqI; use u in simp)+
  then have "unat (DIDX a) = 4" "unat (TIDX a) = 0" unfolding unat_DIDX unat_TIDX by simp_all
  then have "DIDX a = 4" "TIDX a = 0" by (simp_all add: word_unat_eq_iff)
  then show ?thesis
    by (simp add: translate_def null_page_def IDX_def pe_present_def pe_index_def)
qed

lemma load_elf_stops_at_other_header_witness:
  "load_loop 0 65536 0 (USER_EXEC_ADDR + EHDR_SIZE) null_fs = Inr ((), null_fs)"
proof (rule load_elf_stops_at_other_header)
  have m: "fs_mem null_fs = null_page" by (simp add: fs_mem_def null_fs_def)
  have addr: "0x1000000 + of_nat i \<in> {0x1000000 :: u32..<0x1001000}" if "i < 100" for i
    using that by (simp add: word_le_nat_alt word_less_nat_alt unat_add_small)
  have e: "USER_EXEC_ADDR + 44 + of_nat i = 0x1000000 + of_nat (44 + i)"
    "USER_EXEC_ADDR + EHDR_SIZE + of_nat i = 0x1000000 + of_nat (52 + i)" for i
    by (simp_all add: USER_EXEC_ADDR_def KERNEL_MEMORY_SIZE_def EHDR_SIZE_def)
  show "translate (fs_mem null_fs) (USER_EXEC_ADDR + 44 + of_nat i) \<noteq> None" if "i < 2" for i
    using null_page_mapped [OF addr [of "44 + i"]] that unfolding e m by simp
  have p: "translate (fs_mem null_fs) (USER_EXEC_ADDR + EHDR_SIZE + of_nat i) = Some 3"
    "user_byte (fs_mem null_fs) (USER_EXEC_ADDR + EHDR_SIZE + of_nat i) = 0" if "i < 4" for i
    using null_page_mapped [OF addr [of "52 + i"]] that unfolding e m by (simp_all add: user_byte_def vread_def)
  then show "translate (fs_mem null_fs) (USER_EXEC_ADDR + EHDR_SIZE + of_nat i) \<noteq> None" if "i < 4" for i
    using that by simp
  have "map (\<lambda>i. user_byte (fs_mem null_fs) (USER_EXEC_ADDR + EHDR_SIZE + of_nat i)) [0..<4] = map (\<lambda>i. 0) [0..<4]"
    by (intro map_cong refl p(2)) (simp del: upt_rec_numeral)
  moreover have "map (\<lambda>i. 0 :: u8) [0..<4] = [0, 0, 0, 0]" by (simp add: upt_rec)
  ultimately have z: "map (\<lambda>i. user_byte (fs_mem null_fs) (USER_EXEC_ADDR + EHDR_SIZE + of_nat i)) [0..<4] = [0, 0, 0, 0]"
    by (rule trans)
  show "bytes_word (map (\<lambda>i. user_byte (fs_mem null_fs) (USER_EXEC_ADDR + EHDR_SIZE + of_nat i)) [0..<4]) \<noteq> PT_LOAD"
    unfolding z by (simp add: bytes_word_def PT_LOAD_def)
qed

end
