(* ===== verification/Ylos_Shell.thy ===== *)
theory Ylos_Shell
  imports Ylos_String
begin

text \<open>
  The command line of builtin/ysh.c: \<open>readline\<close> and \<open>cmd_parse\<close>.  A buffer is its bytes, a pointer
  into the command its offset.  What the terminal delivers is the list of the results of the calls
  of \<open>read\<close>: \<open>None\<close> is \<open>-1\<close>, \<open>Some c\<close> a byte that was put into the buffer.
\<close>

section \<open>The code\<close>

definition MAX_CMD_LEN :: u32 where "MAX_CMD_LEN = 256"
definition MAX_ARG_NR :: nat where "MAX_ARG_NR = 16"

definition chr_bs :: u8 where "chr_bs = 0x08"
definition chr_tab :: u8 where "chr_tab = 0x09"
definition chr_nl :: u8 where "chr_nl = 0x0a"
definition chr_cr :: u8 where "chr_cr = 0x0d"
definition chr_blank :: u8 where "chr_blank = 0x20"
definition chr_quote :: u8 where "chr_quote = 0x22"

text \<open>
  The loop of \<open>readline\<close>.  It reads from \<open>input\<close>, writes to \<open>out\<close>, and returns with the buffer, the
  output and the input that is left; with the input used up it waits for more.
\<close>

fun readline_loop :: "u8 list \<Rightarrow> u32 \<Rightarrow> u32 \<Rightarrow> u8 option list \<Rightarrow> u8 list \<Rightarrow> (u8 list \<times> u8 list \<times> u8 option list) result" where
  "readline_loop buf idx count input out =
     (if \<not> idx < count then bindr (store_at buf (unat idx) 0) (\<lambda>buf. Inr (buf, out, input))
      else case input of
             [] \<Rightarrow> Inl Would_Sleep
           | None # input \<Rightarrow> bindr (store_at buf (unat idx) 0) (\<lambda>buf. Inr (buf, out, input))
           | Some c # input \<Rightarrow>
               bindr (store_at buf (unat idx) c) (\<lambda>buf.
               if c = chr_nl \<or> c = chr_cr
               then bindr (store_at buf (unat idx) 0) (\<lambda>buf. Inr (buf, out @ [c], input))
               else if c = chr_bs
               then bindr (load_at buf 0) (\<lambda>first.
                    if first \<noteq> chr_bs then readline_loop buf (idx - 1) count input (out @ [chr_bs])
                    else readline_loop buf idx count input out)
               else if c = chr_tab then readline_loop buf idx count input out
               else readline_loop buf (idx + 1) count input (out @ [c])))"

declare readline_loop.simps [simp del]

definition readline :: "u8 list \<Rightarrow> u32 \<Rightarrow> u8 option list \<Rightarrow> (u8 list \<times> u8 list \<times> u8 option list) result" where
  "readline buf count input = readline_loop buf 0 count input []"

text \<open>The two inner loops of \<open>cmd_parse\<close>.\<close>

function skip_blank :: "u8 list \<Rightarrow> bool \<Rightarrow> nat \<Rightarrow> nat result" where
  "skip_blank cmd quot pos =
     bindr (load_at cmd pos) (\<lambda>c.
     if c = chr_blank \<or> (quot \<and> c \<noteq> chr_quote) then skip_blank cmd quot (pos + 1) else Inr pos)"
  by auto
termination
  by (relation "measure (\<lambda>(cmd, quot, pos). length cmd - pos)") (auto simp: load_at_def split: if_splits)

function scan_word :: "u8 list \<Rightarrow> nat \<Rightarrow> nat result" where
  "scan_word cmd pos =
     bindr (load_at cmd pos) (\<lambda>c. if c \<noteq> 0 \<and> c \<noteq> chr_blank then scan_word cmd (pos + 1) else Inr pos)"
  by auto
termination
  by (relation "measure (\<lambda>(cmd, pos). length cmd - pos)") (auto simp: load_at_def split: if_splits)

declare skip_blank.simps [simp del] scan_word.simps [simp del]

lemma skip_blank_ge: "skip_blank cmd quot pos = Inr n \<Longrightarrow> pos \<le> n"
proof (induction cmd quot pos rule: skip_blank.induct)
  case (1 cmd quot pos)
  then show ?case by (subst (asm) (2) skip_blank.simps) (fastforce elim!: bindr_InrE split: if_splits)
qed

lemma skip_blank_stops:
  "skip_blank cmd quot pos = Inr n \<Longrightarrow> \<exists>c. load_at cmd n = Inr c \<and> c \<noteq> chr_blank \<and> (quot \<longrightarrow> c = chr_quote)"
proof (induction cmd quot pos rule: skip_blank.induct)
  case (1 cmd quot pos)
  then show ?case by (subst (asm) (2) skip_blank.simps) (fastforce elim!: bindr_InrE split: if_splits)
qed

lemma scan_word_ge: "scan_word cmd pos = Inr n \<Longrightarrow> pos \<le> n"
proof (induction cmd pos rule: scan_word.induct)
  case (1 cmd pos)
  then show ?case by (subst (asm) (2) scan_word.simps) (fastforce elim!: bindr_InrE split: if_splits)
qed

lemma scan_word_gt:
  assumes "scan_word cmd pos = Inr n" "load_at cmd pos = Inr c" "c \<noteq> 0" "c \<noteq> chr_blank"
  shows "pos < n"
  using assms(1) scan_word_ge [of cmd "pos + 1" n] by (subst (asm) scan_word.simps) (simp add: assms(2-4))

lemma word_end:
  assumes "skip_blank cmd quot pos = Inr n" "n < length cmd" "cmd ! n \<noteq> 0" "scan_word cmd n = Inr m"
  shows "pos < m"
proof -
  have "load_at cmd n = Inr (cmd ! n)" "cmd ! n \<noteq> chr_blank" using skip_blank_stops [OF assms(1)] assms(2) by auto
  with scan_word_gt [OF assms(4) this(1) assms(3)] skip_blank_ge [OF assms(1)] show ?thesis by simp
qed

text \<open>The loop of \<open>cmd_parse\<close>: the command (in which ends of words become 0), the pointer, the
  pointers found, their number, and whether a quotation is open.\<close>

function parse_loop :: "u8 list \<Rightarrow> nat \<Rightarrow> nat option list \<Rightarrow> nat \<Rightarrow> bool \<Rightarrow> (u8 list \<times> nat option list \<times> nat) result" where
  "parse_loop cmd pos argv argc quot =
     bindr (load_at cmd pos) (\<lambda>c.
     if \<not> (c \<noteq> 0 \<and> argc < MAX_ARG_NR) then Inr (cmd, argv, argc)
     else bindr (skip_blank cmd quot pos) (\<lambda>pos.
          bindr (load_at cmd pos) (\<lambda>c.
          if c = 0 then Inr (cmd, argv, argc)
          else if c = chr_quote
          then if \<not> quot
               then bindr (store_at argv argc (Some (pos + 1))) (\<lambda>argv. parse_loop cmd (pos + 1) argv (argc + 1) True)
               else bindr (store_at cmd pos 0) (\<lambda>cmd. parse_loop cmd (pos + 1) argv argc False)
          else bindr (store_at argv argc (Some pos)) (\<lambda>argv.
               bindr (scan_word cmd pos) (\<lambda>pos.
               bindr (load_at cmd pos) (\<lambda>d.
               if d \<noteq> 0 then bindr (store_at cmd pos 0) (\<lambda>cmd. parse_loop cmd (pos + 1) argv (argc + 1) quot)
               else parse_loop cmd pos argv (argc + 1) quot))))))"
  by auto
termination
  by (relation "measure (\<lambda>(cmd, pos, argv, argc, quot). length cmd - pos)")
    (auto simp: load_at_def store_at_def dest: skip_blank_ge word_end split: if_splits)

declare parse_loop.simps [simp del]

definition cmd_parse :: "u8 list \<Rightarrow> nat option list \<Rightarrow> (u8 list \<times> nat option list \<times> nat) result" where
  "cmd_parse cmd argv =
     bindr (parse_loop cmd 0 argv 0 False) (\<lambda>(cmd, argv, argc).
     bindr (store_at argv argc None) (\<lambda>argv. Inr (cmd, argv, argc)))"

section \<open>What is a word\<close>

text \<open>
  The words of a line: separated by blanks, or quoted from the first quotation mark to the next.
  Inside a word a quotation mark is a character like any other.  \<open>None\<close>: a quotation is not closed,
  unless its mark is the last character, which gives an empty word.
\<close>

function tokens :: "u8 list \<Rightarrow> u8 list list option" where
  "tokens s = (case dropWhile (\<lambda>c. c = chr_blank) s of
       [] \<Rightarrow> Some []
     | c # cs \<Rightarrow>
         if c = chr_quote
         then if cs = [] then Some [[]]
              else case dropWhile (\<lambda>c. c \<noteq> chr_quote) cs of
                     [] \<Rightarrow> None
                   | _ # r \<Rightarrow> map_option (Cons (takeWhile (\<lambda>c. c \<noteq> chr_quote) cs)) (tokens r)
         else map_option (Cons (c # takeWhile (\<lambda>c. c \<noteq> chr_blank) cs)) (tokens (tl (dropWhile (\<lambda>c. c \<noteq> chr_blank) cs))))"
  by auto
termination
proof (relation "measure length")
  fix s :: "u8 list" and c cs q r
  assume a: "dropWhile (\<lambda>c. c = chr_blank) s = c # cs"
  have cs: "length cs < length s" using length_dropWhile_le [of "\<lambda>c. c = chr_blank" s] a by simp
  show "(tl (dropWhile (\<lambda>c. c \<noteq> chr_blank) cs), s) \<in> measure length"
    using cs length_dropWhile_le [of "\<lambda>c. c \<noteq> chr_blank" cs] by simp
  assume "dropWhile (\<lambda>c. c \<noteq> chr_quote) cs = q # r"
  then show "(r, s) \<in> measure length" using cs length_dropWhile_le [of "\<lambda>c. c \<noteq> chr_quote" cs] by simp
qed simp

declare tokens.simps [simp del]

lemma skip_blank_run:
  "(\<forall>x\<in>set xs. x = chr_blank \<or> (quot \<and> x \<noteq> chr_quote)) \<Longrightarrow> \<not> (c = chr_blank \<or> (quot \<and> c \<noteq> chr_quote)) \<Longrightarrow>
   skip_blank (pre @ xs @ c # ys) quot (length pre) = Inr (length pre + length xs)"
proof (induction xs arbitrary: pre)
  case Nil
  then show ?case by (subst skip_blank.simps) (auto simp: load_at_def)
next
  case (Cons x xs)
  from Cons.IH [of "pre @ [x]"] Cons.prems show ?case by (subst skip_blank.simps) (simp add: load_at_def)
qed

lemma scan_word_run:
  "(\<forall>x\<in>set xs. x \<noteq> 0 \<and> x \<noteq> chr_blank) \<Longrightarrow> c = 0 \<or> c = chr_blank \<Longrightarrow>
   scan_word (pre @ xs @ c # ys) (length pre) = Inr (length pre + length xs)"
proof (induction xs arbitrary: pre)
  case Nil
  then show ?case by (subst scan_word.simps) (auto simp: load_at_def)
next
  case (Cons x xs)
  from Cons.IH [of "pre @ [x]"] Cons.prems show ?case by (subst scan_word.simps) (simp add: load_at_def)
qed

section \<open>The loop finds the words\<close>

text \<open>\<open>parsed pre n rest argv argc ws r\<close>: the loop comes back with \<open>argc + length ws\<close> pointers, where
  the new ones point to the words \<open>ws\<close> as C strings; only the \<open>n\<close> bytes after \<open>pre\<close> have changed.\<close>

definition parsed ::
    "u8 list \<Rightarrow> nat \<Rightarrow> u8 list \<Rightarrow> nat option list \<Rightarrow> nat \<Rightarrow> u8 list list \<Rightarrow> (u8 list \<times> nat option list \<times> nat) result \<Rightarrow> bool" where
  "parsed pre n rest argv argc ws r \<longleftrightarrow> (\<exists>s' argv'. r = Inr (pre @ s' @ 0 # rest, argv', argc + length ws)
     \<and> length s' = n \<and> length argv' = length argv \<and> take argc argv' = take argc argv
     \<and> (\<forall>i<length ws. \<exists>off. argv' ! (argc + i) = Some off \<and> cstr (drop off (pre @ s' @ 0 # rest)) (ws ! i)))"

text \<open>A word \<open>w\<close> at offset \<open>off\<close> is found, ended by 0, and the loop goes on behind it.\<close>

lemma parsed_word:
  assumes "parsed (pre @ w @ [0]) n rest (argv[argc := Some (length pre)]) (argc + 1) ws r" "argc < length argv" "0 \<notin> set w"
    and "pre = pre0 @ p" "length p + length w + 1 + n = m"
  shows "parsed pre0 m rest argv argc (w # ws) r"
proof -
  obtain s' argv' where r: "r = Inr ((pre @ w @ [0]) @ s' @ 0 # rest, argv', argc + 1 + length ws)" "length s' = n"
    "length argv' = length argv" "take (argc + 1) argv' = take (argc + 1) (argv[argc := Some (length pre)])"
    "\<forall>i<length ws. \<exists>off. argv' ! (argc + 1 + i) = Some off \<and> cstr (drop off ((pre @ w @ [0]) @ s' @ 0 # rest)) (ws ! i)"
    using assms(1) by (auto simp: parsed_def)
  have at: "argv' ! i = argv[argc := Some (length pre)] ! i" if "i < argc + 1" for i
    using arg_cong [OF r(4), of "\<lambda>xs. xs ! i"] that by simp
  let ?s = "p @ w @ 0 # s'"
  have e: "(pre @ w @ [0]) @ s' @ 0 # rest = pre0 @ ?s @ 0 # rest" by (simp add: assms(4))
  have "take argc argv' = take argc argv"
    by (rule nth_equalityI) (use at r(3) assms(2) in \<open>auto simp: nth_list_update\<close>)
  moreover have "\<exists>off. argv' ! (argc + i) = Some off \<and> cstr (drop off (pre0 @ ?s @ 0 # rest)) ((w # ws) ! i)"
    if "i < length (w # ws)" for i
  proof (cases i)
    case 0
    have "cstr (drop (length pre) ((pre @ w @ [0]) @ s' @ 0 # rest)) w" using assms(3) by (simp add: cstr_def)
    with 0 at [of argc] assms(2) show ?thesis unfolding e by simp
  next
    case (Suc j)
    with r(5) that show ?thesis unfolding e by auto
  qed
  ultimately show ?thesis
    unfolding parsed_def r(1) e using r(2,3) assms(5) by (intro exI [of _ ?s] exI [of _ argv']) simp
qed

lemma parsed_last:
  assumes "argc < length argv" "0 \<notin> set w" "s = p @ w"
  shows "parsed pre (length s) rest argv argc [w] (Inr (pre @ s @ 0 # rest, argv[argc := Some (length (pre @ p))], argc + 1))"
  unfolding parsed_def using assms by (intro exI [of _ s] exI [of _ "argv[argc := Some (length (pre @ p))]"]) (simp add: cstr_def)

lemma codes: "chr_blank \<noteq> 0" "chr_quote \<noteq> 0" "chr_quote \<noteq> chr_blank"
  by (simp_all add: chr_blank_def chr_quote_def)

lemma parse_end: "parse_loop (pre @ 0 # rest) (length pre) argv argc quot = Inr (pre @ 0 # rest, argv, argc)"
  by (subst parse_loop.simps) (simp add: load_at_def)

text \<open>One pass, to the first character that is not skipped.\<close>

lemma parse_skip:
  assumes "set bs \<subseteq> {chr_blank}" "c \<noteq> chr_blank" "bs @ [c] \<noteq> [0]" "argc < MAX_ARG_NR"
  shows "parse_loop (pre @ bs @ c # cs) (length pre) argv argc False =
    (if c = 0 then Inr (pre @ bs @ c # cs, argv, argc)
     else if c = chr_quote
     then bindr (store_at argv argc (Some (length pre + length bs + 1)))
            (\<lambda>argv. parse_loop (pre @ bs @ c # cs) (length pre + length bs + 1) argv (argc + 1) True)
     else bindr (store_at argv argc (Some (length pre + length bs))) (\<lambda>argv.
          bindr (scan_word (pre @ bs @ c # cs) (length pre + length bs)) (\<lambda>pos.
          bindr (load_at (pre @ bs @ c # cs) pos) (\<lambda>d.
          if d \<noteq> 0 then bindr (store_at (pre @ bs @ c # cs) pos 0) (\<lambda>cmd. parse_loop cmd (pos + 1) argv (argc + 1) False)
          else parse_loop (pre @ bs @ c # cs) pos argv (argc + 1) False))))"
proof -
  have sk: "skip_blank (pre @ bs @ c # cs) False (length pre) = Inr (length pre + length bs)"
    by (rule skip_blank_run) (use assms in auto)
  have first: "load_at (pre @ bs @ c # cs) (length pre) = Inr (hd (bs @ [c]))"
    by (cases bs) (simp_all add: load_at_def)
  have "hd (bs @ [c]) \<noteq> 0" using assms(1,3) codes by (cases bs) auto
  moreover have "load_at (pre @ bs @ c # cs) (length pre + length bs) = Inr c" by (simp add: load_at_def nth_append)
  ultimately show ?thesis
    using assms(4) by (subst parse_loop.simps) (simp add: first sk)
qed

text \<open>A quotation that is closed.\<close>

lemma parse_quoted:
  assumes "chr_quote \<notin> set w" "0 \<notin> set w" "argc < MAX_ARG_NR"
  shows "parse_loop (pre @ w @ chr_quote # cs) (length pre) argv argc True
    = parse_loop (pre @ w @ 0 # cs) (length (pre @ w @ [0])) argv argc False"
proof -
  have sk: "skip_blank (pre @ w @ chr_quote # cs) True (length pre) = Inr (length pre + length w)"
    by (rule skip_blank_run) (use assms(1) in \<open>auto simp: codes\<close>)
  have first: "load_at (pre @ w @ chr_quote # cs) (length pre) = Inr (hd (w @ [chr_quote]))"
    by (cases w) (simp_all add: load_at_def)
  have nz: "hd (w @ [chr_quote]) \<noteq> 0" using assms(2) codes by (cases w) auto
  have at: "load_at (pre @ w @ chr_quote # cs) (length pre + length w) = Inr chr_quote" by (simp add: load_at_def nth_append)
  have st: "store_at (pre @ w @ chr_quote # cs) (length pre + length w) 0 = Inr (pre @ w @ 0 # cs)"
    by (simp add: store_at_def list_update_append)
  show ?thesis using nz assms(3) by (subst parse_loop.simps) (simp add: first sk at st codes)
qed

text \<open>\<open>parses s ws\<close>: wherever the line \<open>s\<close> stands, the loop finds the words \<open>ws\<close> in it.\<close>

definition parses :: "u8 list \<Rightarrow> u8 list list \<Rightarrow> bool" where
  "parses s ws \<longleftrightarrow> (\<forall>pre rest argv argc. argc + length ws < MAX_ARG_NR \<longrightarrow> length argv = MAX_ARG_NR \<longrightarrow>
     parsed pre (length s) rest argv argc ws (parse_loop (pre @ s @ 0 # rest) (length pre) argv argc False))"

lemma parsesI:
  assumes "\<And>pre rest argv argc. argc + length ws < MAX_ARG_NR \<Longrightarrow> length argv = MAX_ARG_NR \<Longrightarrow>
    parsed pre (length s) rest argv argc ws (parse_loop (pre @ s @ 0 # rest) (length pre) argv argc False)"
  shows "parses s ws"
  using assms unfolding parses_def by blast

lemma parsesD: "parses s ws \<Longrightarrow> argc + length ws < MAX_ARG_NR \<Longrightarrow> length argv = MAX_ARG_NR \<Longrightarrow>
    parsed pre (length s) rest argv argc ws (parse_loop (pre @ s @ 0 # rest) (length pre) argv argc False)"
  unfolding parses_def by blast

lemma parses_blank:
  assumes "set bs \<subseteq> {chr_blank}"
  shows "parses bs []"
proof (rule parsesI)
  fix pre rest and argv :: "nat option list" and argc assume "argc + length [] < MAX_ARG_NR" "length argv = MAX_ARG_NR"
  then have "parse_loop (pre @ bs @ 0 # rest) (length pre) argv argc False = Inr (pre @ bs @ 0 # rest, argv, argc)"
    using parse_skip [of bs 0 argc pre rest argv] parse_end [of pre rest] assms codes(1) by (cases bs) auto
  then show "parsed pre (length bs) rest argv argc [] (parse_loop (pre @ bs @ 0 # rest) (length pre) argv argc False)"
    unfolding parsed_def by (intro exI [of _ bs] exI [of _ argv]) simp
qed

lemma run_quote_end:
  assumes "set bs \<subseteq> {chr_blank}" "argc < MAX_ARG_NR" "length argv = MAX_ARG_NR"
  shows "parse_loop (pre @ (bs @ [chr_quote]) @ 0 # rest) (length pre) argv argc False
    = Inr (pre @ (bs @ [chr_quote]) @ 0 # rest, argv[argc := Some (length (pre @ bs @ [chr_quote]))], argc + 1)"
  using parse_skip [of bs chr_quote argc pre "0 # rest" argv] parse_end [of "pre @ bs @ [chr_quote]" rest] assms codes by auto

lemma parses_quote_end:
  assumes "set bs \<subseteq> {chr_blank}"
  shows "parses (bs @ [chr_quote]) [[]]"
proof (rule parsesI)
  fix pre rest and argv :: "nat option list" and argc assume a: "argc + length [[]] < MAX_ARG_NR" "length argv = MAX_ARG_NR"
  then show "parsed pre (length (bs @ [chr_quote])) rest argv argc [[]] (parse_loop (pre @ (bs @ [chr_quote]) @ 0 # rest) (length pre) argv argc False)"
    using run_quote_end [OF assms, of argc argv pre rest] parsed_last [of argc argv "[]" "bs @ [chr_quote]" "bs @ [chr_quote]" pre rest]
    by simp
qed

lemma run_open:
  assumes "set bs \<subseteq> {chr_blank}" "argc < MAX_ARG_NR" "length argv = MAX_ARG_NR"
  shows "parse_loop (pre @ (bs @ chr_quote # cs) @ 0 # rest) (length pre) argv argc False
    = parse_loop ((pre @ bs @ [chr_quote]) @ cs @ 0 # rest) (length (pre @ bs @ [chr_quote]))
        (argv[argc := Some (length (pre @ bs @ [chr_quote]))]) (argc + 1) True"
  using parse_skip [of bs chr_quote argc pre "cs @ 0 # rest" argv] assms codes by auto

lemma run_quoted:
  fixes pre bs w :: "u8 list"
  assumes "set bs \<subseteq> {chr_blank}" "chr_quote \<notin> set w" "0 \<notin> set w" "argc + 1 < MAX_ARG_NR" "length argv = MAX_ARG_NR"
  defines "pre' \<equiv> pre @ bs @ [chr_quote]"
  shows "parse_loop (pre @ (bs @ chr_quote # w @ chr_quote # r) @ 0 # rest) (length pre) argv argc False
    = parse_loop ((pre' @ w @ [0]) @ r @ 0 # rest) (length (pre' @ w @ [0])) (argv[argc := Some (length pre')]) (argc + 1) False"
  using run_open [OF assms(1) _ assms(5), of argc pre "w @ chr_quote # r" rest]
    parse_quoted [OF assms(2,3,4), of pre' "r @ 0 # rest" "argv[argc := Some (length pre')]"] assms(4)
  by (simp add: pre'_def)

lemma parses_quoted:
  assumes "set bs \<subseteq> {chr_blank}" "chr_quote \<notin> set w" "0 \<notin> set w" "parses r ws"
  shows "parses (bs @ chr_quote # w @ chr_quote # r) (w # ws)"
proof (rule parsesI)
  let ?s = "bs @ chr_quote # w @ chr_quote # r"
  fix pre rest and argv :: "nat option list" and argc
  let ?pre = "pre @ bs @ [chr_quote]"
  assume a: "argc + length (w # ws) < MAX_ARG_NR" "length argv = MAX_ARG_NR"
  have "parsed (?pre @ w @ [0]) (length r) rest (argv[argc := Some (length ?pre)]) (argc + 1) ws
      (parse_loop (pre @ ?s @ 0 # rest) (length pre) argv argc False)"
    using run_quoted [OF assms(1-3), of argc argv pre r rest] parsesD [OF assms(4), of "argc + 1" "argv[argc := Some (length ?pre)]" "?pre @ w @ [0]" rest] a
    by simp
  from parsed_word [OF this _ assms(3)] show "parsed pre (length ?s) rest argv argc (w # ws) (parse_loop (pre @ ?s @ 0 # rest) (length pre) argv argc False)"
    using a by simp
qed

text \<open>A word that is not quoted, up to a blank or the end.\<close>

lemma parse_word:
  assumes "set bs \<subseteq> {chr_blank}" "c \<noteq> chr_quote" "c \<noteq> 0" "0 \<notin> set w" "chr_blank \<notin> set (c # w)" "d = 0 \<or> d = chr_blank"
    and "argc < MAX_ARG_NR" "length argv = MAX_ARG_NR"
  shows "parse_loop (pre @ bs @ (c # w) @ d # cs) (length pre) argv argc False =
    (let argv = argv[argc := Some (length (pre @ bs))]; pos = length (pre @ bs @ c # w)
     in if d \<noteq> 0 then parse_loop (pre @ bs @ (c # w) @ 0 # cs) (pos + 1) argv (argc + 1) False
        else parse_loop (pre @ bs @ (c # w) @ d # cs) pos argv (argc + 1) False)"
proof -
  let ?cmd = "(pre @ bs) @ (c # w) @ d # cs"
  have "scan_word ?cmd (length (pre @ bs)) = Inr (length (pre @ bs) + length (c # w))"
    by (rule scan_word_run) (use assms(3-6) in auto)
  moreover have "?cmd ! Suc (length pre + length bs + length w) = d" "?cmd[Suc (length pre + length bs + length w) := 0] = (pre @ bs) @ (c # w) @ 0 # cs"
    using nth_append_length [of "pre @ bs @ c # w" d cs] list_update_length [of "pre @ bs @ c # w" d cs 0]
    by (simp_all add: add.assoc)
  ultimately show ?thesis
    using parse_skip [of bs c argc pre "w @ d # cs" argv] assms codes by (auto simp: Let_def add.assoc)
qed

lemma run_last:
  assumes "set bs \<subseteq> {chr_blank}" "c \<noteq> chr_quote" "c \<noteq> 0" "0 \<notin> set w" "chr_blank \<notin> set (c # w)"
    and "argc < MAX_ARG_NR" "length argv = MAX_ARG_NR"
  shows "parse_loop (pre @ (bs @ c # w) @ 0 # rest) (length pre) argv argc False
    = Inr (pre @ (bs @ c # w) @ 0 # rest, argv[argc := Some (length (pre @ bs))], argc + 1)"
  using parse_word [OF assms(1-5), of 0 argc argv pre rest] parse_end [of "pre @ bs @ c # w" rest] assms(6,7) by (simp add: Let_def)

lemma parses_last:
  assumes "set bs \<subseteq> {chr_blank}" "c \<noteq> chr_quote" "c \<noteq> 0" "0 \<notin> set w" "chr_blank \<notin> set (c # w)"
  shows "parses (bs @ c # w) [c # w]"
proof (rule parsesI)
  fix pre rest and argv :: "nat option list" and argc assume a: "argc + length [c # w] < MAX_ARG_NR" "length argv = MAX_ARG_NR"
  then show "parsed pre (length (bs @ c # w)) rest argv argc [c # w] (parse_loop (pre @ (bs @ c # w) @ 0 # rest) (length pre) argv argc False)"
    using run_last [OF assms, of argc argv pre rest] parsed_last [of argc argv "c # w" "bs @ c # w" bs pre rest] assms by simp
qed

lemma run_word:
  assumes "set bs \<subseteq> {chr_blank}" "c \<noteq> chr_quote" "c \<noteq> 0" "0 \<notin> set w" "chr_blank \<notin> set (c # w)"
    and "argc < MAX_ARG_NR" "length argv = MAX_ARG_NR"
  shows "parse_loop (pre @ (bs @ c # w @ chr_blank # r) @ 0 # rest) (length pre) argv argc False
    = parse_loop (((pre @ bs) @ (c # w) @ [0]) @ r @ 0 # rest) (length ((pre @ bs) @ (c # w) @ [0]))
        (argv[argc := Some (length (pre @ bs))]) (argc + 1) False"
  using parse_word [OF assms(1-5), of chr_blank argc argv pre "r @ 0 # rest"] assms(6,7) codes by (simp add: Let_def)

lemma parses_word:
  assumes "set bs \<subseteq> {chr_blank}" "c \<noteq> chr_quote" "c \<noteq> 0" "0 \<notin> set w" "chr_blank \<notin> set (c # w)" "parses r ws"
  shows "parses (bs @ c # w @ chr_blank # r) ((c # w) # ws)"
proof (rule parsesI)
  let ?s = "bs @ c # w @ chr_blank # r"
  fix pre rest and argv :: "nat option list" and argc assume a: "argc + length ((c # w) # ws) < MAX_ARG_NR" "length argv = MAX_ARG_NR"
  then have l: "argc < MAX_ARG_NR" by simp
  have "parsed ((pre @ bs) @ (c # w) @ [0]) (length r) rest (argv[argc := Some (length (pre @ bs))]) (argc + 1) ws
      (parse_loop (pre @ ?s @ 0 # rest) (length pre) argv argc False)"
    unfolding run_word [OF assms(1-5) l a(2)] by (intro parsesD [OF assms(6)]) (use a in simp_all)
  from parsed_word [OF this] show "parsed pre (length ?s) rest argv argc ((c # w) # ws) (parse_loop (pre @ ?s @ 0 # rest) (length pre) argv argc False)"
    using a assms(3,4) by simp
qed

lemma dropWhile_split: "dropWhile P s = c # cs \<Longrightarrow> \<not> P c \<and> s = takeWhile P s @ c # cs"
  using hd_dropWhile [of P s] takeWhile_dropWhile_id [of P s] by simp

text \<open>The ways a line can begin, with what \<open>tokens\<close> makes of each.\<close>

lemma tokens_cases:
  assumes "0 \<notin> set s"
  obtains
    (blank) "set s \<subseteq> {chr_blank}" "tokens s = Some []"
  | (quote_end) bs where "s = bs @ [chr_quote]" "set bs \<subseteq> {chr_blank}" "tokens s = Some [[]]"
  | (quote_open) bs cs where "s = bs @ chr_quote # cs" "set bs \<subseteq> {chr_blank}" "cs \<noteq> []" "0 \<notin> set cs" "chr_quote \<notin> set cs" "tokens s = None"
  | (quoted) bs w r where "s = bs @ chr_quote # w @ chr_quote # r" "set bs \<subseteq> {chr_blank}" "chr_quote \<notin> set w" "0 \<notin> set w"
      "tokens s = map_option (Cons w) (tokens r)"
  | (last) bs c w where "s = bs @ c # w" "set bs \<subseteq> {chr_blank}" "c \<noteq> chr_quote" "c \<noteq> 0" "0 \<notin> set w" "chr_blank \<notin> set (c # w)"
      "tokens s = Some [c # w]"
  | (word) bs c w r where "s = bs @ c # w @ chr_blank # r" "set bs \<subseteq> {chr_blank}" "c \<noteq> chr_quote" "c \<noteq> 0" "0 \<notin> set w"
      "chr_blank \<notin> set (c # w)" "tokens s = map_option (Cons (c # w)) (tokens r)"
proof -
  define bs where "bs = takeWhile (\<lambda>c. c = chr_blank) s"
  have bs: "set bs \<subseteq> {chr_blank}" unfolding bs_def by (auto dest: set_takeWhileD)
  note tk = tokens.simps [of s]
  show thesis
  proof (cases "dropWhile (\<lambda>c. c = chr_blank) s")
    case Nil
    then have "set s \<subseteq> {chr_blank}" by auto
    then show thesis using tk unfolding Nil by (intro blank) simp_all
  next
    case (Cons c cs)
    have c: "c \<noteq> chr_blank" and s: "s = bs @ c # cs" using dropWhile_split [OF Cons] unfolding bs_def by blast+
    have nz: "c \<noteq> 0" "0 \<notin> set cs" using assms unfolding s by auto
    note tk = tk [unfolded Cons list.case]
    show thesis
    proof (cases "c = chr_quote")
      case True
      show thesis
      proof (cases "dropWhile (\<lambda>c. c \<noteq> chr_quote) cs")
        case Nil
        then have "chr_quote \<notin> set cs" by auto
        then show thesis
          using tk True s bs nz unfolding Nil list.case by (cases "cs = []") (auto intro: quote_end quote_open)
      next
        case (Cons q r)
        let ?w = "takeWhile (\<lambda>c. c \<noteq> chr_quote) cs"
        have q: "q = chr_quote" using conjunct1 [OF dropWhile_split [OF Cons]] by simp
        have cs: "cs = ?w @ chr_quote # r" using conjunct2 [OF dropWhile_split [OF Cons]] unfolding q .
        have "cs \<noteq> []" using Cons by auto
        then have "tokens s = map_option (Cons ?w) (tokens r)" using tk True unfolding Cons list.case by simp
        moreover have "s = bs @ chr_quote # ?w @ chr_quote # r" using s True cs by metis
        moreover have "chr_quote \<notin> set ?w" "0 \<notin> set ?w" using nz(2) by (auto dest: set_takeWhileD)
        ultimately show thesis using bs by (intro quoted)
      qed
    next
      case False
      let ?w = "takeWhile (\<lambda>c. c \<noteq> chr_blank) cs"
      have w: "0 \<notin> set ?w" "chr_blank \<notin> set (c # ?w)" using nz(2) c by (auto dest: set_takeWhileD)
      have tk: "tokens s = map_option (Cons (c # ?w)) (tokens (tl (dropWhile (\<lambda>c. c \<noteq> chr_blank) cs)))"
        using tk False by simp
      show thesis
      proof (cases "dropWhile (\<lambda>c. c \<noteq> chr_blank) cs")
        case Nil
        then have "cs = ?w" by (metis append_Nil2 takeWhile_dropWhile_id)
        moreover have "tokens s = Some [c # ?w]" using tk unfolding Nil by (simp add: tokens.simps [of "[]"])
        ultimately show thesis using s False bs nz w by (intro last [of bs c ?w]) simp_all
      next
        case (Cons d r)
        have d: "d = chr_blank" using conjunct1 [OF dropWhile_split [OF Cons]] by simp
        have cs: "cs = ?w @ chr_blank # r" using conjunct2 [OF dropWhile_split [OF Cons]] unfolding d .
        have "s = bs @ c # ?w @ chr_blank # r" using s cs by metis
        then show thesis using bs False nz(1) w tk unfolding Cons list.sel by (intro word)
      qed
    qed
  qed
qed

lemma tokens_parses: "tokens s = Some ws \<Longrightarrow> 0 \<notin> set s \<Longrightarrow> parses s ws"
proof (induction "length s" arbitrary: s ws rule: less_induct)
  case less
  from less.prems(2) show ?case
  proof (cases rule: tokens_cases)
    case (quoted bs w r)
    with less.prems(1) obtain vs where vs: "tokens r = Some vs" "ws = w # vs" by (auto simp: map_option_case split: option.splits)
    have "parses r vs" by (rule less.hyps [OF _ vs(1)]) (use quoted less.prems(2) in auto)
    with quoted vs(2) show ?thesis by (simp add: parses_quoted)
  next
    case (word bs c w r)
    with less.prems(1) obtain vs where vs: "tokens r = Some vs" "ws = (c # w) # vs" by (auto simp: map_option_case split: option.splits)
    have "parses r vs" by (rule less.hyps [OF _ vs(1)]) (use word less.prems(2) in auto)
    with word vs(2) show ?thesis by (simp add: parses_word)
  qed (use less.prems(1) in \<open>auto intro: parses_blank parses_quote_end parses_last\<close>)
qed

text \<open>
  C27. \<open>cmd_parse\<close> finds the words of the line.  For every line in which each quotation is closed and
  that has fewer than 16 words, the result is their number, and the table of arguments points, in
  order, at C strings inside the command that are the words, with NULL behind the last: blanks
  separate words, a quoted word keeps its blanks, and no word is lost or cut.
\<close>
theorem cmd_parse_words:
  assumes "cstr cmd s" "tokens s = Some ws" "length ws < MAX_ARG_NR" "length argv = MAX_ARG_NR"
  shows "\<exists>cmd' argv'. cmd_parse cmd argv = Inr (cmd', argv', length ws) \<and> argv' ! length ws = None
    \<and> (\<forall>i<length ws. \<exists>off. argv' ! i = Some off \<and> cstr (drop off cmd') (ws ! i))"
proof -
  obtain rest where s: "0 \<notin> set s" "cmd = s @ 0 # rest" using assms(1) by (auto simp: cstr_def)
  have "parsed [] (length s) rest argv 0 ws (parse_loop cmd 0 argv 0 False)"
    using parsesD [OF tokens_parses [OF assms(2) s(1)], of 0 argv "[]" rest] assms(3,4) by (simp add: s(2))
  then obtain s' argv' where r: "parse_loop cmd 0 argv 0 False = Inr (s' @ 0 # rest, argv', length ws)" "length argv' = MAX_ARG_NR"
    "\<forall>i<length ws. \<exists>off. argv' ! i = Some off \<and> cstr (drop off (s' @ 0 # rest)) (ws ! i)"
    using assms(4) by (auto simp: parsed_def)
  then show ?thesis using assms(3) by (auto simp: cmd_parse_def)
qed

text \<open>The line \<open>a "b c" d\<close>.\<close>

lemma cmd_parse_words_witness:
  "\<exists>cmd' argv'. cmd_parse [0x61, 0x20, 0x22, 0x62, 0x20, 0x63, 0x22, 0x20, 0x64, 0] (replicate 16 None) = Inr (cmd', argv', 3)
    \<and> argv' ! 3 = None \<and> (\<exists>off. argv' ! 1 = Some off \<and> cstr (drop off cmd') [0x62, 0x20, 0x63])"
proof -
  have c: "cstr [0x61, 0x20, 0x22, 0x62, 0x20, 0x63, 0x22, 0x20, 0x64, 0] [0x61, 0x20, 0x22, 0x62, 0x20, 0x63, 0x22, 0x20, 0x64 :: u8]"
    by (simp add: cstr_def)
  have t: "tokens [0x61, 0x20, 0x22, 0x62, 0x20, 0x63, 0x22, 0x20, 0x64] = Some [[0x61], [0x62, 0x20, 0x63], [0x64]]"
    by (simp add: tokens.simps chr_blank_def chr_quote_def)
  from cmd_parse_words [OF c t, of "replicate 16 None"] show ?thesis
    by (fastforce simp: MAX_ARG_NR_def numeral_3_eq_3)
qed

section \<open>Lines that are not parsed\<close>

text \<open>\<open>bad r\<close>: the loop ran over the end of the command, or filled the table of arguments.\<close>

definition bad :: "(u8 list \<times> nat option list \<times> nat) result \<Rightarrow> bool" where
  "bad r \<longleftrightarrow> r = Inl Bad_Access \<or> (\<exists>cmd argv. r = Inr (cmd, argv, MAX_ARG_NR) \<and> length argv = MAX_ARG_NR)"

lemma parse_full: "pos < length cmd \<Longrightarrow> length argv = MAX_ARG_NR \<Longrightarrow> bad (parse_loop cmd pos argv MAX_ARG_NR quot)"
  by (subst parse_loop.simps) (simp add: bad_def)

lemma skip_runs_out: "chr_quote \<notin> set xs \<Longrightarrow> skip_blank (pre @ xs) True (length pre) = Inl Bad_Access"
proof (induction xs arbitrary: pre)
  case Nil
  then show ?case by (subst skip_blank.simps) simp
next
  case (Cons x xs)
  from Cons.IH [of "pre @ [x]"] Cons.prems show ?case by (subst skip_blank.simps) (auto simp: load_at_def)
qed

lemma run_open_quote:
  assumes "cs \<noteq> []" "0 \<notin> set cs" "chr_quote \<notin> set cs" "chr_quote \<notin> set rest" "length argv = MAX_ARG_NR" "argc \<le> MAX_ARG_NR"
  shows "bad (parse_loop (pre @ cs @ 0 # rest) (length pre) argv argc True)"
proof (cases "argc = MAX_ARG_NR")
  case True
  then show ?thesis using parse_full assms(5) by simp
next
  case False
  have "skip_blank (pre @ cs @ 0 # rest) True (length pre) = Inl Bad_Access"
    by (rule skip_runs_out) (use assms codes in auto)
  then show ?thesis using assms(1,2,6) False by (cases cs) (subst parse_loop.simps, auto simp: load_at_def bad_def)+
qed

definition too_many :: "nat \<Rightarrow> u8 list list option \<Rightarrow> bool" where
  "too_many argc t \<longleftrightarrow> (case t of None \<Rightarrow> True | Some ws \<Rightarrow> MAX_ARG_NR \<le> argc + length ws)"

lemma too_many_step: "too_many argc (map_option (Cons w) t) = too_many (argc + 1) t"
  by (cases t) (simp_all add: too_many_def)

lemma parse_bad:
  "0 \<notin> set s \<Longrightarrow> chr_quote \<notin> set rest \<Longrightarrow> too_many argc (tokens s) \<Longrightarrow> argc \<le> MAX_ARG_NR \<Longrightarrow> length argv = MAX_ARG_NR \<Longrightarrow>
   bad (parse_loop (pre @ s @ 0 # rest) (length pre) argv argc False)"
proof (induction "length s" arbitrary: s pre argv argc rule: less_induct)
  case less
  show ?case
  proof (cases "argc = MAX_ARG_NR")
    case True
    then show ?thesis using parse_full less.prems(5) by simp
  next
    case False
    with less.prems(4) have lt: "argc < MAX_ARG_NR" by simp
    from less.prems(1) show ?thesis
    proof (cases rule: tokens_cases)
      case blank
      then show ?thesis using less.prems(3) lt by (simp add: too_many_def)
    next
      case (quote_end bs)
      then show ?thesis
        using run_quote_end [OF quote_end(2) lt less.prems(5), of pre rest] less.prems(3,5) lt by (simp add: too_many_def bad_def)
    next
      case (quote_open bs cs)
      have "bad (parse_loop ((pre @ bs @ [chr_quote]) @ cs @ 0 # rest) (length (pre @ bs @ [chr_quote]))
          (argv[argc := Some (length (pre @ bs @ [chr_quote]))]) (argc + 1) True)"
        by (rule run_open_quote) (use quote_open less.prems(2,5) lt in simp_all)
      then show ?thesis using run_open [OF quote_open(2) lt less.prems(5), of pre cs rest] by (simp add: quote_open(1))
    next
      case (quoted bs w r)
      show ?thesis
      proof (cases "argc + 1 = MAX_ARG_NR")
        case True
        have "bad (parse_loop ((pre @ bs @ [chr_quote]) @ (w @ chr_quote # r) @ 0 # rest) (length (pre @ bs @ [chr_quote]))
            (argv[argc := Some (length (pre @ bs @ [chr_quote]))]) (argc + 1) True)"
          unfolding True by (rule parse_full) (use less.prems(5) in simp_all)
        then show ?thesis using run_open [OF quoted(2) lt less.prems(5), of pre "w @ chr_quote # r" rest] by (simp add: quoted(1))
      next
        case False
        with lt have l1: "argc + 1 < MAX_ARG_NR" by simp
        let ?pre = "(pre @ bs @ [chr_quote]) @ w @ [0]"
        have "bad (parse_loop (?pre @ r @ 0 # rest) (length ?pre) (argv[argc := Some (length (pre @ bs @ [chr_quote]))]) (argc + 1) False)"
          by (rule less.hyps) (use quoted less.prems l1 too_many_step in auto)
        then show ?thesis unfolding quoted(1) using run_quoted [OF quoted(2-4) l1 less.prems(5), of pre r rest] by simp
      qed
    next
      case (last bs c w)
      then show ?thesis
        using run_last [OF last(2-6) lt less.prems(5), of pre rest] less.prems(3,5) lt by (simp add: too_many_def bad_def)
    next
      case (word bs c w r)
      let ?pre = "(pre @ bs) @ (c # w) @ [0]"
      have "bad (parse_loop (?pre @ r @ 0 # rest) (length ?pre) (argv[argc := Some (length (pre @ bs))]) (argc + 1) False)"
        by (rule less.hyps) (use word less.prems lt too_many_step in auto)
      then show ?thesis unfolding word(1) using run_word [OF word(2-6) lt less.prems(5), of pre r rest] by simp
    qed
  qed
qed

text \<open>
  C28. The lines \<open>cmd_parse\<close> does not survive.  When no quotation mark follows the end of the line in
  the buffer, \<open>cmd_parse\<close> returns exactly for the lines whose quotations are closed and that have
  fewer than 16 words; with 16 words or more it writes NULL behind its table of 16 arguments, and an
  open quotation makes it run over the end of the buffer.
\<close>
theorem cmd_parse_error:
  assumes "cmd = s @ 0 # rest" "0 \<notin> set s" "chr_quote \<notin> set rest" "length argv = MAX_ARG_NR"
  shows "cmd_parse cmd argv = Inl Bad_Access \<longleftrightarrow> \<not> (\<exists>ws. tokens s = Some ws \<and> length ws < MAX_ARG_NR)"
proof (cases "too_many 0 (tokens s)")
  case True
  from parse_bad [OF assms(2,3) True, of argv "[]"] assms(4) have "bad (parse_loop cmd 0 argv 0 False)" by (simp add: assms(1))
  then have "cmd_parse cmd argv = Inl Bad_Access" by (auto simp: bad_def cmd_parse_def)
  moreover have "\<not> (\<exists>ws. tokens s = Some ws \<and> length ws < MAX_ARG_NR)" using True by (auto simp: too_many_def)
  ultimately show ?thesis by simp
next
  case False
  then obtain ws where ws: "tokens s = Some ws" "length ws < MAX_ARG_NR" by (auto simp: too_many_def split: option.splits)
  have "parsed [] (length s) rest argv 0 ws (parse_loop cmd 0 argv 0 False)"
    using parsesD [OF tokens_parses [OF ws(1) assms(2)], of 0 argv "[]" rest] ws(2) assms(1,4) by simp
  then have "\<exists>r. cmd_parse cmd argv = Inr r" using ws(2) assms(4) by (auto simp: parsed_def cmd_parse_def)
  with ws show ?thesis by auto
qed

text \<open>The line \<open>"a\<close>, which is never closed.\<close>

lemma cmd_parse_error_witness: "cmd_parse [0x22, 0x61, 0, 0] (replicate 16 None) = Inl Bad_Access"
proof -
  have t: "tokens [0x22, 0x61] = None" by (simp add: tokens.simps chr_blank_def chr_quote_def)
  show ?thesis
    using cmd_parse_error [of "[0x22, 0x61, 0, 0]" "[0x22, 0x61]" "[0]" "replicate 16 None"] t
    by (simp add: chr_quote_def MAX_ARG_NR_def)
qed

section \<open>Reading a line\<close>

text \<open>
  The reference editor: the line typed so far, at most \<open>n - 1\<close> bytes of it.  A backspace takes the last
  byte off and is echoed, on an empty line it does nothing; a tabulator is ignored; a line end
  is echoed and ends the line, as does the end of the input.
\<close>

definition echo :: "u8 list \<Rightarrow> ('l \<times> u8 list \<times> 'r) result \<Rightarrow> ('l \<times> u8 list \<times> 'r) result" where
  "echo cs r = bindr r (\<lambda>(line, out, rest). Inr (line, cs @ out, rest))"

fun edit_line :: "nat \<Rightarrow> u8 list \<Rightarrow> u8 option list \<Rightarrow> (u8 list \<times> u8 list \<times> u8 option list) result" where
  "edit_line n line [] = Inl Would_Sleep"
| "edit_line n line (None # input) = Inr (line, [], input)"
| "edit_line n line (Some c # input) =
     (if c = chr_nl \<or> c = chr_cr then Inr (line, [c], input)
      else if c = chr_bs then if line = [] then edit_line n line input else echo [c] (edit_line n (butlast line) input)
      else if c = chr_tab then edit_line n line input
      else if length line + 1 < n then echo [c] (edit_line n (line @ [c]) input) else Inl Bad_Access)"

text \<open>The buffer holds the line and then the end of the string.\<close>

definition holds :: "u8 list \<Rightarrow> nat \<Rightarrow> (u8 list \<times> u8 list \<times> u8 option list) result \<Rightarrow> (u8 list \<times> u8 list \<times> u8 option list) result \<Rightarrow> bool" where
  "holds out n r e \<longleftrightarrow> (case e of Inl err \<Rightarrow> r = Inl err
     | Inr (line, echoed, rest) \<Rightarrow> \<exists>buf. r = Inr (buf, out @ echoed, rest) \<and> length buf = n \<and> take (length line + 1) buf = line @ [0])"

lemma holds_echo: "holds (out @ cs) n r e \<Longrightarrow> holds out n r (echo cs e)"
  by (auto simp: holds_def echo_def split: sum.splits)

lemma take_store: "take i xs = line \<Longrightarrow> i < length xs \<Longrightarrow> take (Suc i) (xs[i := c]) = line @ [c]"
  by (simp add: take_Suc_conv_app_nth)

lemma holds_end:
  "length buf = n \<Longrightarrow> take (length line) buf = line \<Longrightarrow> length line < n \<Longrightarrow>
   holds out n (Inr (buf[length line := 0], out @ cs, input)) (Inr (line, cs, input))"
  by (simp add: holds_def take_store)

lemma readline_loop_edit:
  "length buf = unat count \<Longrightarrow> length line < unat count \<Longrightarrow> unat idx = length line \<Longrightarrow> take (length line) buf = line \<Longrightarrow>
   chr_bs \<notin> set line \<Longrightarrow> holds out (unat count) (readline_loop buf idx count input out) (edit_line (unat count) line input)"
proof (induction "unat count" line input arbitrary: buf idx out rule: edit_line.induct)
  case (1 line)
  then show ?case by (subst readline_loop.simps) (simp add: holds_def word_less_nat_alt)
next
  case (2 line input)
  then show ?case using holds_end [of buf "unat count" line out "[]" input]
    by (subst readline_loop.simps) (simp add: word_less_nat_alt)
next
  case (3 line c input)
  let ?buf = "buf[length line := c]"
  have lt: "idx < count" using "3.prems" by (simp add: word_less_nat_alt)
  have st: "store_at buf (unat idx) c = Inr ?buf" using "3.prems" by simp
  have b: "length ?buf = unat count" "take (length line) ?buf = line" using "3.prems" by simp_all
  have run: "readline_loop buf idx count (Some c # input) out =
     (if c = chr_nl \<or> c = chr_cr then Inr (buf[length line := 0], out @ [c], input)
      else if c = chr_bs
      then if ?buf ! 0 \<noteq> chr_bs then readline_loop ?buf (idx - 1) count input (out @ [chr_bs])
           else readline_loop ?buf idx count input out
      else if c = chr_tab then readline_loop ?buf idx count input out
      else readline_loop ?buf (idx + 1) count input (out @ [c]))"
    using lt "3.prems" by (subst readline_loop.simps) (simp add: st)
  show ?case
  proof (cases "c = chr_nl \<or> c = chr_cr")
    case True
    then show ?thesis using "3.prems" by (simp add: run holds_end)
  next
    case nl: False
    show ?thesis
    proof (cases "c = chr_bs")
      case bs: True
      show ?thesis
      proof (cases "line = []")
        case True
        with "3.prems" have "?buf ! 0 = chr_bs" by (simp add: bs)
        with "3.hyps"(1) [OF nl bs True b(1) _ _ b(2), of idx out] nl bs True "3.prems" show ?thesis unfolding run by simp
      next
        case False
        have "take (length line) buf ! 0 = line ! 0" using "3.prems"(4) by simp
        then have "?buf ! 0 = hd line" using False by (simp add: hd_conv_nth)
        then have ne: "?buf ! 0 \<noteq> chr_bs" using "3.prems"(5) hd_in_set [OF False] by metis
        have i: "unat (idx - 1) = length (butlast line)" using "3.prems" False by (simp add: unat_diff_small Suc_leI)
        have "take (length (butlast line)) ?buf = butlast line"
          using b(2) by (metis butlast_conv_take length_butlast min.absorb1 take_take diff_le_self)
        moreover have "chr_bs \<notin> set (butlast line)" using "3.prems"(5) by (meson in_set_butlastD)
        ultimately have "holds (out @ [c]) (unat count) (readline_loop ?buf (idx - 1) count input (out @ [c])) (edit_line (unat count) (butlast line) input)"
          by (intro "3.hyps"(2) [OF nl bs False b(1) _ i]) (use "3.prems" in simp_all)
        from holds_echo [OF this] nl bs False ne show ?thesis unfolding run by simp
      qed
    next
      case bs: False
      show ?thesis
      proof (cases "c = chr_tab")
        case True
        with "3.hyps"(3) [OF nl bs True b(1) _ _ b(2), of idx out] nl bs True "3.prems" show ?thesis unfolding run by simp
      next
        case tab: False
        have i: "unat (idx + 1) = length (line @ [c])" using unat_step [OF lt] "3.prems" by simp
        have tk: "take (length (line @ [c])) ?buf = line @ [c]" using take_store [of "length line" buf line c] "3.prems" by simp
        show ?thesis
        proof (cases "length line + 1 < unat count")
          case True
          have "holds (out @ [c]) (unat count) (readline_loop ?buf (idx + 1) count input (out @ [c])) (edit_line (unat count) (line @ [c]) input)"
            by (rule "3.hyps"(4) [OF nl bs tab True b(1) _ i tk]) (use True "3.prems" bs in simp_all)
          from holds_echo [OF this] nl bs tab True show ?thesis by (simp add: run)
        next
          case False
          then have "unat (idx + 1) = unat count" using i "3.prems"(2) by simp
          then have "\<not> idx + 1 < count" "store_at ?buf (unat (idx + 1)) 0 = Inl Bad_Access" using b(1) by (simp_all add: word_less_nat_alt)
          then have "readline_loop ?buf (idx + 1) count input (out @ [c]) = Inl Bad_Access" by (subst readline_loop.simps) simp
          with nl bs tab False show ?thesis by (simp add: run holds_def)
        qed
      qed
    qed
  qed
qed

text \<open>
  C29. \<open>readline\<close> is the reference line editor.  For whatever is typed, with backspaces, tabulators and
  line ends in any order, it echoes the same, leaves the same input unread, waits when the editor
  waits, and ends with the edited line as a string in the buffer; when the line gets as long as the
  buffer, it writes behind it, exactly when the editor gives up.
\<close>
theorem readline_edits:
  assumes "length buf = unat count" "0 < count"
  shows "case edit_line (unat count) [] input of
      Inl err \<Rightarrow> readline buf count input = Inl err
    | Inr (line, out, rest) \<Rightarrow> \<exists>buf'. readline buf count input = Inr (buf', out, rest) \<and> take (length line + 1) buf' = line @ [0]"
  using readline_loop_edit [of buf count "[]" 0 "[]" input] assms
  by (auto simp: readline_def holds_def word_less_nat_alt split: sum.splits)

text \<open>\<open>lx\<close>, a backspace and \<open>s\<close>.\<close>

lemma readline_edits_witness:
  "\<exists>buf'. readline (replicate 256 0) MAX_CMD_LEN [Some 0x6c, Some 0x78, Some 0x08, Some 0x73, Some 0x0a] = Inr (buf', [0x6c, 0x78, 0x08, 0x73, 0x0a], [])
    \<and> take 3 buf' = [0x6c, 0x73, 0]"
  using readline_edits [of "replicate 256 0" MAX_CMD_LEN "[Some 0x6c, Some 0x78, Some 0x08, Some 0x73, Some 0x0a]"]
  by (simp add: MAX_CMD_LEN_def chr_nl_def chr_cr_def chr_bs_def chr_tab_def echo_def numeral_3_eq_3)

end
