(* ===== verification/Ylos_Abspath.thy ===== *)
theory Ylos_Abspath
  imports Ylos_Dirs
begin

text \<open>
  What \<open>abspath\<close> of fs/namei.c computes.  A directory is a list of names; \<open>path_str\<close> is its path,
  which begins and ends with a separator.  The reference takes a path apart at its separators and
  walks from name to name.
\<close>

section \<open>Paths as lists of names\<close>

definition slash :: u8 where "slash = 0x2f"
definition one_dot :: "u8 list" where "one_dot = [0x2e]"
definition two_dots :: "u8 list" where "two_dots = [0x2e, 0x2e]"

definition sep_free :: "u8 list \<Rightarrow> bool" where
  "sep_free c \<longleftrightarrow> 0 \<notin> set c \<and> (\<forall>x\<in>set c. \<not> IS_SEPARATOR x)"

definition path_str :: "u8 list list \<Rightarrow> u8 list" where
  "path_str cs = slash # concat (map (\<lambda>c. c @ [slash]) cs)"

definition walk_name :: "u8 list list \<Rightarrow> u8 list \<Rightarrow> u8 list list" where
  "walk_name cs c = (if c = one_dot then cs else if c = two_dots then butlast cs else cs @ [c])"

text \<open>The names before the separators, and what is left behind the last one.\<close>

function path_parts :: "u8 list \<Rightarrow> u8 list list \<times> u8 list" where
  "path_parts s = (case dropWhile (Not \<circ> IS_SEPARATOR) s of
       [] \<Rightarrow> ([], s)
     | _ # r \<Rightarrow> (let (ps, l) = path_parts r in (takeWhile (Not \<circ> IS_SEPARATOR) s # ps, l)))"
  by auto
termination
proof (relation "measure length")
  fix s :: "u8 list" and c r assume "dropWhile (Not \<circ> IS_SEPARATOR) s = c # r"
  then show "(r, s) \<in> measure length" using length_dropWhile_le [of "Not \<circ> IS_SEPARATOR" s] by simp
qed simp

declare path_parts.simps [simp del] abspath_loop.simps [simp del]

definition walk_path :: "u8 list list \<Rightarrow> u8 list \<Rightarrow> u8 list list" where
  "walk_path cs s = (let (ps, l) = path_parts s; cs = foldl walk_name cs ps in if l = [] then cs else walk_name cs l)"

definition resolve :: "u8 list list \<Rightarrow> u8 list \<Rightarrow> u8 list list" where
  "resolve cs s = (if s \<noteq> [] \<and> IS_SEPARATOR (hd s) then walk_path [] (tl s) else walk_path cs s)"

definition pwd_at :: "u8 list \<Rightarrow> nat \<Rightarrow> u8 list list \<Rightarrow> bool" where
  "pwd_at pwd cur cs \<longleftrightarrow> (\<exists>rest. pwd = path_str cs @ 0 # rest) \<and> cur = length (path_str cs) \<and> (\<forall>c\<in>set cs. sep_free c)"

lemma slash_simps [simp]: "slash \<noteq> 0" "IS_SEPARATOR slash" "\<not> IS_SEPARATOR 0"
  by (simp_all add: slash_def IS_SEPARATOR_def)

lemma path_str_snoc: "path_str (cs @ [c]) = path_str cs @ c @ [slash]"
  by (simp add: path_str_def)

lemma path_str_end: "\<exists>p. path_str cs = p @ [slash]"
  by (cases cs rule: rev_cases) (auto simp: path_str_snoc, simp add: path_str_def)

lemma path_str_nonzero: "\<forall>c\<in>set cs. sep_free c \<Longrightarrow> 0 \<notin> set (path_str cs)"
  by (auto simp: path_str_def sep_free_def)

lemma last_separator:
  assumes "sep_free c"
  shows "last_index IS_SEPARATOR (path_str cs @ c) = Some (length (path_str cs) - 1)"
  using assms
proof (induction c rule: rev_induct)
  case Nil
  obtain p where "path_str cs = p @ [slash]" using path_str_end by blast
  then show ?case by simp
next
  case (snoc x c)
  then have "\<not> IS_SEPARATOR x" "sep_free c" by (auto simp: sep_free_def)
  with snoc.IH show ?case by (simp add: append_assoc [symmetric] del: append_assoc)
qed

section \<open>The steps\<close>

lemma cut_last_at:
  assumes "pwd = path_str cs @ c @ 0 # rest" "sep_free c" "\<forall>c\<in>set cs. sep_free c"
  shows "\<exists>pwd'. cut_last pwd = Inr (pwd', length (path_str cs)) \<and> pwd_at pwd' (length (path_str cs)) cs \<and> length pwd' = length pwd"
proof -
  have z: "0 \<notin> set (path_str cs @ c)" using path_str_nonzero [OF assms(3)] assms(2) by (simp add: sep_free_def)
  have s: "strrsep pwd = Inr (Some (length (path_str cs) - 1))"
    using strrsep_append [OF z, of rest] unfolding last_separator [OF assms(2)] by (simp add: assms(1))
  have k: "Suc (length (path_str cs) - 1) = length (path_str cs)" by (simp add: path_str_def)
  obtain r where r: "pwd[length (path_str cs) := 0] = path_str cs @ 0 # r"
    by (cases c) (simp_all add: assms(1))
  have "cut_last pwd = Inr (pwd[length (path_str cs) := 0], length (path_str cs))"
    unfolding cut_last_def s bindr_Inr option.case k by (simp add: assms(1))
  moreover have "pwd_at (pwd[length (path_str cs) := 0]) (length (path_str cs)) cs"
    unfolding pwd_at_def r using assms(3) by simp
  ultimately show ?thesis by simp
qed

lemma go_up_at:
  assumes "pwd_at pwd cur cs"
  shows "\<exists>pwd' cur'. go_up pwd cur = Inr (pwd', cur') \<and> pwd_at pwd' cur' (butlast cs) \<and> length pwd' = length pwd"
proof (cases cs rule: rev_cases)
  case Nil
  then show ?thesis using assms by (auto simp: go_up_def pwd_at_def path_str_def)
next
  case (snoc ds c)
  obtain rest where p: "pwd = path_str ds @ c @ slash # 0 # rest" "cur = length (path_str ds) + length c + 1"
    and free: "sep_free c" "\<forall>c\<in>set ds. sep_free c"
    using assms by (auto simp: pwd_at_def snoc path_str_snoc)
  have "pwd[cur - 1 := 0] = path_str ds @ c @ 0 # 0 # rest"
    unfolding p by (simp add: append_assoc [symmetric] list_update_length del: append_assoc flip: length_append)
  from cut_last_at [OF this free] obtain pwd' where
    "cut_last (pwd[cur - 1 := 0]) = Inr (pwd', length (path_str ds))" "pwd_at pwd' (length (path_str ds)) ds"
    "length pwd' = length pwd" by auto
  moreover have "cur - 1 \<noteq> 0" "cur - 1 < length pwd" by (simp_all add: p path_str_def)
  ultimately show ?thesis by (auto simp: go_up_def snoc)
qed

lemma append_at:
  assumes "pwd_at pwd cur cs" "sep_free w" "0 \<notin> set r" "length (path_str cs) + length w + 2 \<le> length pwd" "length pwd < 2 ^ 32"
  shows "\<exists>bytes. strncpy (drop cur pwd) (w @ slash # r @ 0 # rs) (of_nat (Suc (Suc (length w)))) = Inr bytes
    \<and> pwd_at (take cur pwd @ bytes) (cur + Suc (length w)) (cs @ [w]) \<and> length (take cur pwd @ bytes) = length pwd"
proof -
  obtain rest where p: "pwd = path_str cs @ 0 # rest" "cur = length (path_str cs)" "\<forall>c\<in>set cs. sep_free c"
    using assms(1) by (auto simp: pwd_at_def)
  define n where "n = Suc (Suc (length w))"
  have n: "n \<le> length (drop cur pwd)" using assms(4) by (simp add: p(1,2) n_def)
  then have "n < 2 ^ 32" using assms(5) by (simp add: p(1))
  note n = unat_u32_of_nat [OF this] n
  have z: "0 \<notin> set (w @ slash # r)" using assms(2,3) by (simp add: sep_free_def)
  have "(0 :: u32) < of_nat n" using n(1) by (simp add: word_less_nat_alt n_def del: of_nat_Suc)
  from strncpy_cstr [OF z this] n have
    "strncpy (drop cur pwd) (w @ slash # r @ 0 # rs) (of_nat n) = Inr ((w @ [slash]) @ 0 # drop n (drop cur pwd))"
    by (simp add: n_def del: of_nat_Suc)
  moreover have "pwd_at (take cur pwd @ (w @ [slash]) @ 0 # drop n (drop cur pwd)) (cur + Suc (length w)) (cs @ [w])"
    using p assms(2) by (auto simp: pwd_at_def path_str_snoc)
  moreover have "length (take cur pwd @ (w @ [slash]) @ 0 # drop n (drop cur pwd)) = length pwd"
    using n(2) assms(4) by (simp add: p(1,2) n_def)
  ultimately show ?thesis unfolding n_def by blast
qed

lemma memcmp_dots:
  assumes "sep_free w"
  shows "\<exists>d. memcmp (w @ slash # x) [0x2e, 0x2f] 2 = Inr d \<and> (d = 0 \<longleftrightarrow> w = one_dot)"
    and "\<exists>d. memcmp (w @ slash # x) [0x2e, 0x2e, 0x2f] 3 = Inr d \<and> (d = 0 \<longleftrightarrow> w = two_dots)"
proof -
  have nz: "char_diff a b = 0 \<longleftrightarrow> a = b" for a b by (auto simp: char_diff_def)
  have ns: "0x2f \<notin> set w" using assms by (auto simp: sep_free_def IS_SEPARATOR_def)
  show "\<exists>d. memcmp (w @ slash # x) [0x2e, 0x2f] 2 = Inr d \<and> (d = 0 \<longleftrightarrow> w = one_dot)"
    using ns by (cases w; cases "tl w") (auto simp: numeral_2_eq_2 slash_def one_dot_def nz)
  show "\<exists>d. memcmp (w @ slash # x) [0x2e, 0x2e, 0x2f] 3 = Inr d \<and> (d = 0 \<longleftrightarrow> w = two_dots)"
    using ns by (cases w; cases "tl w"; cases "tl (tl w)") (auto simp: numeral_3_eq_3 slash_def two_dots_def nz)
qed

section \<open>The loop walks the path\<close>

lemma path_parts_none: "\<forall>c\<in>set s. \<not> IS_SEPARATOR c \<Longrightarrow> path_parts s = ([], s)"
  by (subst path_parts.simps) (simp add: dropWhile_eq_Nil_conv [THEN iffD2])

lemma path_parts_sep:
  "\<forall>x\<in>set w. \<not> IS_SEPARATOR x \<Longrightarrow> IS_SEPARATOR c \<Longrightarrow> path_parts (w @ c # r) = (let (ps, l) = path_parts r in (w # ps, l))"
  by (subst path_parts.simps) (simp add: takeWhile_append2 dropWhile_append2)

definition walked :: "nat \<Rightarrow> u8 list list \<Rightarrow> u8 list \<Rightarrow> (u8 list \<times> nat \<times> u8 list) result \<Rightarrow> bool" where
  "walked n cs s r \<longleftrightarrow> (let (ps, l) = path_parts s; cs' = foldl walk_name cs ps
     in \<exists>pwd cur rs. r = Inr (pwd, cur, l @ 0 # rs) \<and> pwd_at pwd cur cs' \<and> length pwd = n
        \<and> length (path_str cs') + length l + 2 \<le> n \<and> sep_free l)"

lemma walk_shorter: "length (path_str (walk_name cs c)) \<le> length (path_str cs) + length c + 1"
proof -
  have "length (path_str (cs @ [c])) = length (path_str cs) + length c + 1" by (simp add: path_str_snoc)
  moreover have "length (path_str (butlast cs)) \<le> length (path_str cs)"
    by (cases cs rule: rev_cases) (simp_all add: path_str_snoc)
  ultimately show ?thesis by (simp add: walk_name_def)
qed

lemma abspath_loop_walks:
  "pwd_at pwd cur cs \<Longrightarrow> 0 \<notin> set s \<Longrightarrow> length (path_str cs) + length s + 2 \<le> length pwd \<Longrightarrow> length pwd < 2 ^ 32 \<Longrightarrow>
   length s \<le> fuel \<Longrightarrow> walked (length pwd) cs s (abspath_loop fuel pwd cur (s @ 0 # rs))"
proof (induction fuel arbitrary: pwd cur cs s)
  case 0
  then show ?case by (simp add: walked_def path_parts_none sep_free_def abspath_loop.simps)
next
  case (Suc fuel)
  show ?case
  proof (cases "\<exists>c\<in>set s. IS_SEPARATOR c")
    case False
    then have "strsep (s @ 0 # rs) = Inr None" "path_parts s = ([], s)" using strsep_append [OF Suc.prems(2)] by (simp_all add: path_parts_none)
    with Suc.prems False show ?thesis by (cases s) (auto simp: walked_def sep_free_def abspath_loop.simps)
  next
    case True
    then obtain w c r where s: "s = w @ c # r" "IS_SEPARATOR c" and w: "\<forall>x\<in>set w. \<not> IS_SEPARATOR x"
      using split_list_first_prop [of s IS_SEPARATOR] by blast
    have wf: "sep_free w" using w Suc.prems(2) s by (simp add: sep_free_def)
    have tw: "takeWhile (Not \<circ> IS_SEPARATOR) s = w" using w s by (simp add: takeWhile_append2)
    have k: "strsep (s @ 0 # rs) = Inr (Some (length w))" using strsep_append [OF Suc.prems(2), of rs] True tw by simp
    have path: "(s @ 0 # rs)[length w := 0x2f] = w @ slash # r @ 0 # rs" by (simp add: s slash_def)
    obtain d1 where d1: "memcmp (w @ slash # r @ 0 # rs) [0x2e, 0x2f] 2 = Inr d1" "d1 = 0 \<longleftrightarrow> w = one_dot"
      using memcmp_dots(1) [OF wf] by blast
    obtain d2 where d2: "memcmp (w @ slash # r @ 0 # rs) [0x2e, 0x2e, 0x2f] 3 = Inr d2" "d2 = 0 \<longleftrightarrow> w = two_dots"
      using memcmp_dots(2) [OF wf] by blast
    define move where "move = (if d1 = 0 then Inr (pwd, cur)
        else bindr (Inr d2) (\<lambda>d2. if d2 = 0 then go_up pwd cur
          else bindr (strncpy (drop cur pwd) (w @ slash # r @ 0 # rs) (of_nat (Suc (Suc (length w))))) (\<lambda>bytes.
               Inr (take cur pwd @ bytes, cur + Suc (length w)))))"
    obtain c0 where c0: "load_at (s @ 0 # rs) 0 = Inr c0" "c0 \<noteq> 0" using Suc.prems(2) s by (cases w) (auto simp: load_at_def)
    have dr: "drop (Suc (length w)) (w @ slash # r @ 0 # rs) = r @ 0 # rs" by simp
    have run: "abspath_loop (Suc fuel) pwd cur (s @ 0 # rs) = bindr move (\<lambda>(pwd, cur). abspath_loop fuel pwd cur (r @ 0 # rs))"
      unfolding abspath_loop.simps [of "Suc fuel"] c0(1) bindr_Inr if_not_P [OF c0(2)] k option.case nat.case Let_def path d1(1) d2(1)
        move_def dr ..
    have "\<exists>pwd' cur'. move = Inr (pwd', cur') \<and> pwd_at pwd' cur' (walk_name cs w) \<and> length pwd' = length pwd"
    proof (cases "w = one_dot \<or> w = two_dots")
      case True
      then show ?thesis using d1(2) d2(2) go_up_at [OF Suc.prems(1)] Suc.prems(1) by (auto simp: move_def walk_name_def)
    next
      case False
      have "0 \<notin> set r" "length (path_str cs) + length w + 2 \<le> length pwd" using Suc.prems(2,3) s by simp_all
      from append_at [OF Suc.prems(1) wf this Suc.prems(4), of rs] False d1(2) d2(2) show ?thesis
        by (auto simp: move_def walk_name_def)
    qed
    then obtain pwd' cur' where mv: "move = Inr (pwd', cur')" "pwd_at pwd' cur' (walk_name cs w)" "length pwd' = length pwd" by blast
    have "walked (length pwd') (walk_name cs w) r (abspath_loop fuel pwd' cur' (r @ 0 # rs))"
      by (rule Suc.IH [OF mv(2)]) (use Suc.prems walk_shorter [of cs w] in \<open>simp_all add: s mv(3)\<close>)
    then show ?thesis
      unfolding run mv(1) bindr_Inr prod.case by (simp add: walked_def s path_parts_sep [OF w s(2)] mv(3) split: prod.splits)
  qed
qed

text \<open>What is behind the last separator.\<close>

definition abspath_last :: "u8 list \<Rightarrow> nat \<Rightarrow> u8 list \<Rightarrow> u8 list result" where
  "abspath_last pwd cur path =
     bindr (load_at path 0) (\<lambda>c.
     if c = 0 then Inr pwd
     else bindr (strcmp path dot) (\<lambda>d1.
          if d1 = 0 then Inr pwd
          else bindr (strcmp path dotdot) (\<lambda>d2.
               if d2 \<noteq> 0
               then bindr (strcpy (drop cur pwd) path) (\<lambda>bytes.
                    bindr (strlen path) (\<lambda>n.
                    bindr (store_at (take cur pwd @ bytes) (cur + n) 0x2f) (\<lambda>pwd.
                    store_at pwd (cur + n + 1) 0)))
               else bindr (go_up pwd cur) (\<lambda>(pwd, cur). Inr pwd))))"

lemma pwd_at_cstr: "pwd_at pwd cur cs \<Longrightarrow> cstr pwd (path_str cs) \<and> (\<forall>c\<in>set cs. sep_free c)"
  using path_str_nonzero by (auto simp: pwd_at_def cstr_def)

lemma abspath_last_at:
  assumes "pwd_at pwd cur cs" "sep_free l" "length (path_str cs) + length l + 2 \<le> length pwd"
  defines "cs' \<equiv> if l = [] then cs else walk_name cs l"
  shows "\<exists>pwd'. abspath_last pwd cur (l @ 0 # rs) = Inr pwd' \<and> cstr pwd' (path_str cs') \<and> (\<forall>c\<in>set cs'. sep_free c)
    \<and> length pwd' = length pwd"
proof (cases "l = []")
  case True
  then show ?thesis using pwd_at_cstr [OF assms(1)] by (simp add: abspath_last_def cs'_def)
next
  case ne: False
  have z: "0 \<notin> set l" "0 \<notin> set one_dot" "0 \<notin> set two_dots" using assms(2) by (simp_all add: sep_free_def one_dot_def two_dots_def)
  have d: "dot = one_dot @ 0 # []" "dotdot = two_dots @ 0 # []" by (simp_all add: dot_def one_dot_def dotdot_def two_dots_def)
  obtain d1 where d1: "strcmp (l @ 0 # rs) dot = Inr d1" "d1 = 0 \<longleftrightarrow> l = one_dot" using strcmp_cstr [OF z(1,2)] unfolding d by blast
  obtain d2 where d2: "strcmp (l @ 0 # rs) dotdot = Inr d2" "d2 = 0 \<longleftrightarrow> l = two_dots" using strcmp_cstr [OF z(1,3)] unfolding d by blast
  have first: "load_at (l @ 0 # rs) 0 = Inr (hd l)" "hd l \<noteq> 0" using ne z(1) by (cases l; simp add: load_at_def)+
  have run: "abspath_last pwd cur (l @ 0 # rs) = (if d1 = 0 then Inr pwd else if d2 \<noteq> 0
      then bindr (strcpy (drop cur pwd) (l @ 0 # rs)) (\<lambda>bytes. bindr (strlen (l @ 0 # rs)) (\<lambda>n.
           bindr (store_at (take cur pwd @ bytes) (cur + n) 0x2f) (\<lambda>pwd. store_at pwd (cur + n + 1) 0)))
      else bindr (go_up pwd cur) (\<lambda>(pwd, cur). Inr pwd))"
    using first by (simp add: abspath_last_def d1(1) d2(1))
  show ?thesis
  proof (cases "l = one_dot \<or> l = two_dots")
    case True
    show ?thesis
    proof (cases "l = one_dot")
      case True
      then have "d1 = 0" "cs' = cs" using d1(2) ne by (simp_all add: cs'_def walk_name_def)
      then show ?thesis using pwd_at_cstr [OF assms(1)] unfolding run by simp
    next
      case False
      obtain pwd' cur' where up: "go_up pwd cur = Inr (pwd', cur')" "pwd_at pwd' cur' (butlast cs)" "length pwd' = length pwd"
        using go_up_at [OF assms(1)] by blast
      have "d1 \<noteq> 0" "d2 = 0" "cs' = butlast cs" using False True d1(2) d2(2) ne by (auto simp: cs'_def walk_name_def)
      then show ?thesis using pwd_at_cstr [OF up(2)] up(1,3) unfolding run by simp
    qed
  next
    case False
    obtain rest where p: "pwd = path_str cs @ 0 # rest" "cur = length (path_str cs)" "\<forall>c\<in>set cs. sep_free c"
      using assms(1) by (auto simp: pwd_at_def)
    have lr: "length l + 1 \<le> length rest" using assms(3) by (simp add: p(1))
    then obtain a x where x: "drop (length l) rest = a # x" by (cases "drop (length l) rest") auto
    have "strcpy (drop cur pwd) (l @ 0 # rs) = Inr (l @ 0 # a # x)"
      using strcpy_cstr [OF z(1), of "0 # rest" rs] lr x by (simp add: p(1,2))
    then have "abspath_last pwd cur (l @ 0 # rs) = Inr (path_str cs @ l @ slash # 0 # x)"
      using False d1(2) d2(2) strlen_append [OF z(1), of rs] unfolding run
      by (simp add: p(1,2) slash_def store_at_def list_update_append)
    moreover have "cs' = cs @ [l]" using False ne by (simp add: cs'_def walk_name_def)
    moreover have "cstr (path_str cs @ l @ slash # 0 # x) (path_str (cs @ [l]))"
      using path_str_nonzero [of "cs @ [l]"] p(3) assms(2) by (auto simp: cstr_def path_str_snoc)
    moreover have "length (path_str cs @ l @ slash # 0 # x) = length pwd"
      using arg_cong [OF x, of length] lr by (simp add: p(1))
    ultimately show ?thesis using p(3) assms(2) by auto
  qed
qed

text \<open>
  C30. \<open>abspath\<close> resolves paths.  With the path of a directory in the buffer and room for it and the
  given path, whatever the given path is (absolute or not, with either separator, with any number
  of \<open>.\<close> and \<open>..\<close>, more of them than there are levels, with or without a separator at its end), the
  call ends without touching anything outside the buffer, and the buffer then holds the path of the
  directory that walking the names one by one reaches, which never goes above the root.  (Two separators in a row enclose an empty name, which
  is kept like any other.)
\<close>
theorem abspath_resolves:
  assumes "cstr pwd (path_str cs)" "\<forall>c\<in>set cs. sep_free c" "cstr path s"
    and "length (path_str cs) + length s + 2 \<le> length pwd" "length pwd < 2 ^ 32"
  shows "\<exists>pwd'. abspath pwd path = Inr pwd' \<and> cstr pwd' (path_str (resolve cs s)) \<and> (\<forall>c\<in>set (resolve cs s). sep_free c)
    \<and> length pwd' = length pwd"
proof -
  obtain rs where p: "path = s @ 0 # rs" "0 \<notin> set s" using assms(3) by (auto simp: cstr_def)
  obtain rest where pw: "pwd = path_str cs @ [] @ 0 # rest" using assms(1) by (auto simp: cstr_def)
  define abs' where "abs' \<longleftrightarrow> s \<noteq> [] \<and> IS_SEPARATOR (hd s)"
  define s1 where "s1 = (if abs' then tl s else s)"
  define cs1 where "cs1 = (if abs' then [] else cs)"
  have first: "load_at path 0 = Inr (if s = [] then 0 else hd s)" by (cases s) (simp_all add: p)
  have sep: "IS_SEPARATOR (if s = [] then 0 else hd s) \<longleftrightarrow> abs'" by (simp add: abs'_def)
  have left: "(if abs' then tl path else path) = s1 @ 0 # rs" by (cases s) (auto simp: p s1_def abs'_def)
  have res: "resolve cs s = walk_path cs1 s1" by (simp add: resolve_def cs1_def s1_def abs'_def)
  have "\<exists>pwd1 cur. (if abs' then bindr (store_at pwd 1 0) (\<lambda>pwd. Inr (pwd, 1)) else cut_last pwd) = Inr (pwd1, cur)
    \<and> pwd_at pwd1 cur cs1 \<and> length pwd1 = length pwd"
  proof (cases abs')
    case True
    obtain r where "pwd[1 := 0] = slash # 0 # r" "1 < length pwd"
      unfolding pw path_str_def by (cases "concat (map (\<lambda>c. c @ [slash]) cs) @ [] @ 0 # rest") auto
    then show ?thesis using True length_list_update [of pwd 1 0] by (auto simp: cs1_def pwd_at_def path_str_def)
  next
    case False
    then show ?thesis using cut_last_at [OF pw _ assms(2)] by (auto simp: cs1_def sep_free_def)
  qed
  then obtain pwd1 cur where start: "(if abs' then bindr (store_at pwd 1 0) (\<lambda>pwd. Inr (pwd, 1)) else cut_last pwd) = Inr (pwd1, cur)"
    "pwd_at pwd1 cur cs1" "length pwd1 = length pwd" by blast
  have z1: "0 \<notin> set s1" using p(2) by (cases s) (auto simp: s1_def)
  have room: "length (path_str cs1) + length s1 + 2 \<le> length pwd1"
    using assms(4) start(3) by (auto simp: cs1_def s1_def path_str_def)
  obtain ps l where parts: "path_parts s1 = (ps, l)" by fastforce
  define cs2 where "cs2 = foldl walk_name cs1 ps"
  have "walked (length pwd1) cs1 s1 (abspath_loop (length path) pwd1 cur (s1 @ 0 # rs))"
    by (rule abspath_loop_walks [OF start(2) z1 room]) (use assms(5) start(3) in \<open>auto simp: p s1_def\<close>)
  then obtain pwd2 cur2 rs2 where w: "abspath_loop (length path) pwd1 cur (s1 @ 0 # rs) = Inr (pwd2, cur2, l @ 0 # rs2)"
    "pwd_at pwd2 cur2 cs2" "length pwd2 = length pwd" "length (path_str cs2) + length l + 2 \<le> length pwd" "sep_free l"
    by (auto simp: walked_def parts cs2_def start(3) Let_def)
  have goal: "walk_path cs1 s1 = (if l = [] then cs2 else walk_name cs2 l)" by (simp add: walk_path_def parts cs2_def)
  have "abspath pwd path = abspath_last pwd2 cur2 (l @ 0 # rs2)"
    unfolding abspath_def first bindr_Inr sep start(1) prod.case left w(1) abspath_last_def ..
  with abspath_last_at [OF w(2) w(5), of rs2] w(3,4) show ?thesis unfolding res goal by auto
qed

lemma abspath_resolves_witness:
  "\<exists>pwd'. abspath ([0x2f, 0x61, 0x2f, 0] @ replicate 20 0) ([0x2e, 0x2e, 0x2f, 0x62, 0x5c, 0x2e, 0x2f, 0x63, 0]) = Inr pwd'
    \<and> cstr pwd' [0x2f, 0x62, 0x2f, 0x63, 0x2f]"
proof -
  have "resolve [[0x61]] [0x2e, 0x2e, 0x2f, 0x62, 0x5c, 0x2e, 0x2f, 0x63] = [[0x62], [0x63]]"
    by (simp add: resolve_def walk_path_def path_parts.simps walk_name_def one_dot_def two_dots_def IS_SEPARATOR_def)
  then show ?thesis
    using abspath_resolves [of "[0x2f, 0x61, 0x2f, 0] @ replicate 20 0" "[[0x61]]"
      "[0x2e, 0x2e, 0x2f, 0x62, 0x5c, 0x2e, 0x2f, 0x63, 0]" "[0x2e, 0x2e, 0x2f, 0x62, 0x5c, 0x2e, 0x2f, 0x63]"]
    by (auto simp: cstr_def path_str_def slash_def sep_free_def IS_SEPARATOR_def)
qed

end
