(* ===== verification/Ylos_Descriptors.thy ===== *)
theory Ylos_Descriptors
  imports Ylos_Prelude
begin

unbundle bit_operations_syntax

text \<open>
  Segments: kernel/global.c and include/ylos/global.h.  A structure with bit fields is a record whose
  fields have the width of the bit fields; \<open>descriptor_bits\<close> packs one the way the compiler lays it
  out.  The second part is how the processor reads the packed form (Intel SDM, volume 3, chapters 3
  and 8).  The addresses of \<open>gdt\<close> and \<open>tss\<close>, which the linker chooses, are arguments.
\<close>

section \<open>The code\<close>

definition GDT_SIZE :: nat where "GDT_SIZE = 128"
definition KERNEL_CODE_IDX :: nat where "KERNEL_CODE_IDX = 1"
definition KERNEL_DATA_IDX :: nat where "KERNEL_DATA_IDX = 2"
definition KERNEL_TSS_IDX :: nat where "KERNEL_TSS_IDX = 3"
definition USER_CODE_IDX :: nat where "USER_CODE_IDX = 4"
definition USER_DATA_IDX :: nat where "USER_DATA_IDX = 5"

definition KERNEL_CODE_SELECTOR :: u32 where "KERNEL_CODE_SELECTOR = push_bit 3 (of_nat KERNEL_CODE_IDX)"
definition KERNEL_DATA_SELECTOR :: u32 where "KERNEL_DATA_SELECTOR = push_bit 3 (of_nat KERNEL_DATA_IDX)"
definition KERNEL_TSS_SELECTOR :: u32 where "KERNEL_TSS_SELECTOR = push_bit 3 (of_nat KERNEL_TSS_IDX)"
definition USER_CODE_SELECTOR :: u32 where "USER_CODE_SELECTOR = push_bit 3 (of_nat USER_CODE_IDX) OR 3"
definition USER_DATA_SELECTOR :: u32 where "USER_DATA_SELECTOR = push_bit 3 (of_nat USER_DATA_IDX) OR 3"

record descriptor_t =
  limit_low :: u16
  base_low :: "24 word"
  d_type :: "4 word"
  d_segment :: "1 word"
  d_DPL :: "2 word"
  d_present :: "1 word"
  limit_high :: "4 word"
  available :: "1 word"
  long_mode :: "1 word"
  d_big :: "1 word"
  granularity :: "1 word"
  base_high :: u8

definition zero_descriptor :: descriptor_t where
  "zero_descriptor = \<lparr>limit_low = 0, base_low = 0, d_type = 0, d_segment = 0, d_DPL = 0, d_present = 0, limit_high = 0,
     available = 0, long_mode = 0, d_big = 0, granularity = 0, base_high = 0\<rparr>"

record pointer_t =
  ptr_limit :: u16
  ptr_base :: u32

record tss_t =
  tss_backlink :: u32
  tss_esp0 :: u32
  tss_ss0 :: u32
  tss_esp1 :: u32
  tss_ss1 :: u32
  tss_esp2 :: u32
  tss_ss2 :: u32
  tss_cr3 :: u32
  tss_eip :: u32
  tss_flags :: u32
  tss_eax :: u32
  tss_ecx :: u32
  tss_edx :: u32
  tss_ebx :: u32
  tss_esp :: u32
  tss_ebp :: u32
  tss_esi :: u32
  tss_edi :: u32
  tss_es :: u32
  tss_cs :: u32
  tss_ss :: u32
  tss_ds :: u32
  tss_fs :: u32
  tss_gs :: u32
  tss_ldtr :: u32
  tss_trace :: "1 word"
  tss_reversed :: "15 word"
  tss_iobase :: u16
  tss_ssp :: u32

definition zero_tss :: tss_t where
  "zero_tss = \<lparr>tss_backlink = 0, tss_esp0 = 0, tss_ss0 = 0, tss_esp1 = 0, tss_ss1 = 0, tss_esp2 = 0, tss_ss2 = 0, tss_cr3 = 0, tss_eip = 0,
     tss_flags = 0, tss_eax = 0, tss_ecx = 0, tss_edx = 0, tss_ebx = 0, tss_esp = 0, tss_ebp = 0, tss_esi = 0, tss_edi = 0,
     tss_es = 0, tss_cs = 0, tss_ss = 0, tss_ds = 0, tss_fs = 0, tss_gs = 0, tss_ldtr = 0,
     tss_trace = 0, tss_reversed = 0, tss_iobase = 0, tss_ssp = 0\<rparr>"

text \<open>\<open>sizeof\<close> of the packed structures: 25 registers of 4 bytes, two halves of 2, and \<open>ssp\<close>.\<close>

definition TSS_BYTES :: u32 where "TSS_BYTES = 108"
definition DESCRIPTOR_BYTES :: nat where "DESCRIPTOR_BYTES = 8"

definition descriptor_init :: "descriptor_t \<Rightarrow> u32 \<Rightarrow> u32 \<Rightarrow> descriptor_t" where
  "descriptor_init desc base limit = desc\<lparr>
     base_low := ucast (base AND 0xffffff),
     base_high := ucast (drop_bit 24 base AND 0xff),
     limit_low := ucast (limit AND 0xffff),
     limit_high := ucast (drop_bit 16 limit AND 0xf)\<rparr>"

definition code_desc :: "2 word \<Rightarrow> descriptor_t \<Rightarrow> descriptor_t" where
  "code_desc dpl desc = (descriptor_init desc 0 0xfffff)\<lparr>d_segment := 1, granularity := 1, d_big := 1, long_mode := 0,
     d_present := 1, d_DPL := dpl, d_type := 10\<rparr>"

definition data_desc :: "2 word \<Rightarrow> descriptor_t \<Rightarrow> descriptor_t" where
  "data_desc dpl desc = (descriptor_init desc 0 0xfffff)\<lparr>d_segment := 1, granularity := 1, d_big := 1, long_mode := 0,
     d_present := 1, d_DPL := dpl, d_type := 2\<rparr>"

definition upd_desc :: "descriptor_t list \<Rightarrow> nat \<Rightarrow> (descriptor_t \<Rightarrow> descriptor_t) \<Rightarrow> descriptor_t list" where
  "upd_desc gdt i f = gdt[i := f (gdt ! i)]"

definition gdt_init :: "u32 \<Rightarrow> descriptor_t list \<times> pointer_t" where
  "gdt_init gdt_addr =
     (let gdt = replicate GDT_SIZE zero_descriptor;
          gdt = upd_desc gdt KERNEL_CODE_IDX (code_desc 0);
          gdt = upd_desc gdt KERNEL_DATA_IDX (data_desc 0);
          gdt = upd_desc gdt USER_CODE_IDX (code_desc 3);
          gdt = upd_desc gdt USER_DATA_IDX (data_desc 3)
      in (gdt, \<lparr>ptr_limit = of_nat (GDT_SIZE * DESCRIPTOR_BYTES - 1), ptr_base = gdt_addr\<rparr>))"

definition tss_init :: "u32 \<Rightarrow> descriptor_t list \<Rightarrow> tss_t \<times> descriptor_t list" where
  "tss_init tss_addr gdt =
     (let tss = zero_tss;
          tss = tss\<lparr>tss_ss0 := KERNEL_DATA_SELECTOR\<rparr>;
          tss = tss\<lparr>tss_iobase := ucast TSS_BYTES\<rparr>
      in (tss, upd_desc gdt KERNEL_TSS_IDX (\<lambda>desc. (descriptor_init desc tss_addr (TSS_BYTES - 1))
           \<lparr>d_segment := 0, granularity := 0, d_big := 0, long_mode := 0, d_present := 1, d_DPL := 0, d_type := 9\<rparr>)))"

text \<open>The eight bytes of a descriptor, the lowest bits first.\<close>

definition descriptor_bits :: "descriptor_t \<Rightarrow> 64 word" where
  "descriptor_bits d = ucast (limit_low d) OR push_bit 16 (ucast (base_low d)) OR push_bit 40 (ucast (d_type d))
     OR push_bit 44 (ucast (d_segment d)) OR push_bit 45 (ucast (d_DPL d)) OR push_bit 47 (ucast (d_present d))
     OR push_bit 48 (ucast (limit_high d)) OR push_bit 52 (ucast (available d)) OR push_bit 53 (ucast (long_mode d))
     OR push_bit 54 (ucast (d_big d)) OR push_bit 55 (ucast (granularity d)) OR push_bit 56 (ucast (base_high d))"

section \<open>The processor's view\<close>

definition cpu_base :: "64 word \<Rightarrow> u32" where
  "cpu_base w = ucast (ucast (drop_bit 16 w) :: 24 word) OR push_bit 24 (ucast (ucast (drop_bit 56 w) :: u8))"
definition cpu_limit :: "64 word \<Rightarrow> u32" where
  "cpu_limit w = (let l = ucast (ucast w :: u16) OR push_bit 16 (ucast (ucast (drop_bit 48 w) :: 4 word))
     in if bit w 55 then push_bit 12 l OR 0xfff else l)"
definition cpu_type :: "64 word \<Rightarrow> 4 word" where "cpu_type w = ucast (drop_bit 40 w)"
definition cpu_dpl :: "64 word \<Rightarrow> 2 word" where "cpu_dpl w = ucast (drop_bit 45 w)"

text \<open>A selector: the index, and the privilege level it asks for (all tables are global).\<close>

definition sel_index :: "u32 \<Rightarrow> nat" where "sel_index s = unat (drop_bit 3 s)"
definition sel_rpl :: "u32 \<Rightarrow> 2 word" where "sel_rpl s = ucast s"

text \<open>What a descriptor is: a code segment (readable, not conforming) or a data segment (writable, growing
  up) with its privilege level, base and last offset, or the state of a task.\<close>

datatype segment_kind = Code "2 word" u32 u32 | Data "2 word" u32 u32 | Task u32 u32 | Absent

definition cpu_segment :: "64 word \<Rightarrow> segment_kind" where
  "cpu_segment w =
     (if \<not> bit w 47 then Absent
      else if bit w 44 \<and> bit w 54 \<and> \<not> bit w 53 \<and> bit (cpu_type w) 3 \<and> \<not> bit (cpu_type w) 2 \<and> bit (cpu_type w) 1
      then Code (cpu_dpl w) (cpu_base w) (cpu_limit w)
      else if bit w 44 \<and> bit w 54 \<and> \<not> bit (cpu_type w) 3 \<and> bit (cpu_type w) 1 \<and> \<not> bit (cpu_type w) 2
      then Data (cpu_dpl w) (cpu_base w) (cpu_limit w)
      else if \<not> bit w 44 \<and> cpu_type w = 9 then Task (cpu_base w) (cpu_limit w)
      else Absent)"

section \<open>The fields of a packed descriptor\<close>

lemma bit_beyond: "LENGTH('a::len) \<le> n \<Longrightarrow> bit (w :: 'a word) n = False"
  using bit_imp_le_length by force

lemma descriptor_bit:
  "bit (descriptor_bits x) n = (
     if n < 16 then bit (limit_low x) n else if n < 40 then bit (base_low x) (n - 16)
     else if n < 44 then bit (d_type x) (n - 40) else if n < 45 then bit (d_segment x) (n - 44)
     else if n < 47 then bit (d_DPL x) (n - 45) else if n < 48 then bit (d_present x) (n - 47)
     else if n < 52 then bit (limit_high x) (n - 48) else if n < 53 then bit (available x) (n - 52)
     else if n < 54 then bit (long_mode x) (n - 53) else if n < 55 then bit (d_big x) (n - 54)
     else if n < 56 then bit (granularity x) (n - 55) else bit (base_high x) (n - 56))"
  unfolding descriptor_bits_def by (auto simp: bit_simps bit_beyond dest: bit_imp_le_length)

lemma descriptor_fields:
  "cpu_base (descriptor_bits x) = ucast (base_low x) OR push_bit 24 (ucast (base_high x))"
  "cpu_limit (descriptor_bits x) = (let l = ucast (limit_low x) OR push_bit 16 (ucast (limit_high x))
     in if bit (granularity x) 0 then push_bit 12 l OR 0xfff else l)"
  "cpu_type (descriptor_bits x) = d_type x"
  "cpu_dpl (descriptor_bits x) = d_DPL x"
proof -
  have f: "ucast (drop_bit 16 (descriptor_bits x)) = base_low x" "ucast (drop_bit 56 (descriptor_bits x)) = base_high x"
    "ucast (descriptor_bits x) = limit_low x" "ucast (drop_bit 48 (descriptor_bits x)) = limit_high x"
    by (rule bit_word_eqI; auto simp: bit_simps descriptor_bit)+
  show "cpu_base (descriptor_bits x) = ucast (base_low x) OR push_bit 24 (ucast (base_high x))"
    by (simp add: cpu_base_def f)
  show "cpu_limit (descriptor_bits x) = (let l = ucast (limit_low x) OR push_bit 16 (ucast (limit_high x))
     in if bit (granularity x) 0 then push_bit 12 l OR 0xfff else l)"
    by (simp add: cpu_limit_def f descriptor_bit)
  show "cpu_type (descriptor_bits x) = d_type x" "cpu_dpl (descriptor_bits x) = d_DPL x"
    unfolding cpu_type_def cpu_dpl_def by (rule bit_word_eqI; auto simp: bit_simps descriptor_bit)+
qed

lemma masks: "0xffffff = (mask 24 :: u32)" "0xffff = (mask 16 :: u32)" "0xff = (mask 8 :: u32)" "0xf = (mask 4 :: u32)"
  by (simp_all add: mask_eq_exp_minus_1)

lemma descriptor_init_fields:
  "ucast (base_low (descriptor_init x base limit)) OR push_bit 24 (ucast (base_high (descriptor_init x base limit))) = base"
  "drop_bit 20 limit = 0 \<Longrightarrow>
   ucast (limit_low (descriptor_init x base limit)) OR push_bit 16 (ucast (limit_high (descriptor_init x base limit))) = limit"
proof -
  show "ucast (base_low (descriptor_init x base limit)) OR push_bit 24 (ucast (base_high (descriptor_init x base limit))) = base"
    by (rule bit_word_eqI) (auto simp: descriptor_init_def masks bit_simps)
  assume "drop_bit 20 limit = 0"
  then have "take_bit 20 limit = limit" by (simp add: take_bit_eq_self_iff_drop_bit_eq_0)
  then have small: "n < 20" if "bit limit n" for n using that by (metis bit_take_bit_iff)
  show "ucast (limit_low (descriptor_init x base limit)) OR push_bit 16 (ucast (limit_high (descriptor_init x base limit))) = limit"
    by (intro bit_word_eqI) (auto simp: descriptor_init_def masks bit_simps dest: small)
qed

lemma descriptor_init_other [simp]:
  "d_type (descriptor_init x base limit) = d_type x" "d_segment (descriptor_init x base limit) = d_segment x"
  by (simp_all add: descriptor_init_def)

lemma code_desc_segment: "cpu_segment (descriptor_bits (code_desc dpl x)) = Code dpl 0 0xffffffff"
  by (simp add: cpu_segment_def descriptor_fields descriptor_bit code_desc_def descriptor_init_fields Let_def)

lemma data_desc_segment: "cpu_segment (descriptor_bits (data_desc dpl x)) = Data dpl 0 0xffffffff"
  by (simp add: cpu_segment_def descriptor_fields descriptor_bit data_desc_def descriptor_init_fields Let_def)

lemma tss_desc_segment:
  "cpu_segment (descriptor_bits ((descriptor_init x base (TSS_BYTES - 1))
     \<lparr>d_segment := 0, granularity := 0, d_big := 0, long_mode := 0, d_present := 1, d_DPL := 0, d_type := 9\<rparr>)) = Task base 107"
  using descriptor_init_fields(2) [of 107 x base]
  by (simp add: cpu_segment_def descriptor_fields descriptor_bit descriptor_init_fields(1) Let_def TSS_BYTES_def)

lemma zero_segment: "cpu_segment (descriptor_bits zero_descriptor) = Absent"
  by (simp add: cpu_segment_def descriptor_bit zero_descriptor_def)

lemmas gdt_idx = KERNEL_CODE_IDX_def KERNEL_DATA_IDX_def KERNEL_TSS_IDX_def USER_CODE_IDX_def USER_DATA_IDX_def

text \<open>The table after both functions, entry by entry.\<close>

definition boot_gdt :: "u32 \<Rightarrow> u32 \<Rightarrow> descriptor_t list" where
  "boot_gdt gdt_addr tss_addr = snd (tss_init tss_addr (fst (gdt_init gdt_addr)))"

lemma boot_gdt_segments:
  "map (cpu_segment \<circ> descriptor_bits) (boot_gdt gdt_addr tss_addr) =
     [Absent, Code 0 0 0xffffffff, Data 0 0 0xffffffff, Task tss_addr 107, Code 3 0 0xffffffff, Data 3 0 0xffffffff]
     @ replicate 122 Absent"
proof -
  define r where "r = replicate 122 zero_descriptor"
  have z: "replicate GDT_SIZE zero_descriptor = zero_descriptor # zero_descriptor # zero_descriptor # zero_descriptor #
      zero_descriptor # zero_descriptor # r"
    unfolding r_def replicate_Suc [symmetric] by (simp add: GDT_SIZE_def)
  have "map (cpu_segment \<circ> descriptor_bits) r = replicate 122 Absent" by (simp add: r_def zero_segment)
  then show ?thesis
    unfolding boot_gdt_def tss_init_def gdt_init_def z
    by (simp add: upd_desc_def gdt_idx Let_def eval_nat_numeral zero_segment code_desc_segment data_desc_segment tss_desc_segment)
qed

text \<open>
  C31. The segments are what their names say.  Read by the processor, the table that \<open>gdt_init\<close> and
  \<open>tss_init\<close> leave has a flat code and a flat data segment of 4 GB for the kernel (level 0) and for
  programs (level 3), the state of the task at the address of \<open>tss\<close> with its 108 bytes, and nothing
  else; each selector names the entry it should with the level of that entry; the table's limit is
  its last byte; the kernel stack's segment is the kernel's data segment; and the map of ports lies
  outside the state of the task, so that programs may use none.
\<close>
theorem segments_typed:
  "map (cpu_segment \<circ> descriptor_bits) (boot_gdt gdt_addr tss_addr) =
     [Absent, Code 0 0 0xffffffff, Data 0 0 0xffffffff, Task tss_addr 107, Code 3 0 0xffffffff, Data 3 0 0xffffffff]
     @ replicate 122 Absent
   \<and> map (\<lambda>s. (sel_index s, sel_rpl s))
        [KERNEL_CODE_SELECTOR, KERNEL_DATA_SELECTOR, KERNEL_TSS_SELECTOR, USER_CODE_SELECTOR, USER_DATA_SELECTOR]
      = [(1, 0), (2, 0), (3, 0), (4, 3), (5, 3)]
   \<and> snd (gdt_init gdt_addr) = \<lparr>ptr_limit = 128 * 8 - 1, ptr_base = gdt_addr\<rparr>
   \<and> tss_ss0 (fst (tss_init tss_addr gdt)) = KERNEL_DATA_SELECTOR \<and> 107 < tss_iobase (fst (tss_init tss_addr gdt))"
proof -
  have "map (\<lambda>s. (sel_index s, sel_rpl s))
        [KERNEL_CODE_SELECTOR, KERNEL_DATA_SELECTOR, KERNEL_TSS_SELECTOR, USER_CODE_SELECTOR, USER_DATA_SELECTOR]
      = [(1, 0), (2, 0), (3, 0), (4, 3), (5, 3)]"
    by (simp add: sel_index_def sel_rpl_def KERNEL_CODE_SELECTOR_def KERNEL_DATA_SELECTOR_def KERNEL_TSS_SELECTOR_def
      USER_CODE_SELECTOR_def USER_DATA_SELECTOR_def gdt_idx)
  then show ?thesis
    using boot_gdt_segments [of gdt_addr tss_addr]
    by (simp add: gdt_init_def tss_init_def Let_def GDT_SIZE_def DESCRIPTOR_BYTES_def TSS_BYTES_def)
qed

end
