(* ===== verification/Ylos_Interrupt.thy ===== *)
theory Ylos_Interrupt
  imports Ylos_Descriptors
begin

text \<open>
  Interrupts: kernel/interrupt.c, include/ylos/interrupt.h and the entry of kernel/handler.asm.  The
  ports of the two interrupt controllers hold the last byte written to them, as the data port of the
  controller does for its mask.  Handlers are named by the functions that are registered; what they
  do is an argument.
\<close>

section \<open>The controllers\<close>

definition PIC_M_CTRL :: u16 where "PIC_M_CTRL = 0x20"
definition PIC_M_DATA :: u16 where "PIC_M_DATA = 0x21"
definition PIC_S_CTRL :: u16 where "PIC_S_CTRL = 0xa0"
definition PIC_S_DATA :: u16 where "PIC_S_DATA = 0xa1"
definition PIC_EOI :: u8 where "PIC_EOI = 0x20"

definition IRQ_CLOCK :: u32 where "IRQ_CLOCK = 0"
definition IRQ_KEYBOARD :: u32 where "IRQ_KEYBOARD = 1"
definition IRQ_CASCADE :: u32 where "IRQ_CASCADE = 2"
definition IRQ_SERIAL_2 :: u32 where "IRQ_SERIAL_2 = 3"
definition IRQ_SERIAL_1 :: u32 where "IRQ_SERIAL_1 = 4"
definition IRQ_RTC :: u32 where "IRQ_RTC = 8"
definition IRQ_HARDDISK :: u32 where "IRQ_HARDDISK = 14"
definition IRQ_HARDDISK2 :: u32 where "IRQ_HARDDISK2 = 15"
definition IRQ_MASTER_NR :: nat where "IRQ_MASTER_NR = 0x20"

text \<open>Bytes written to ports, in order.\<close>

type_synonym port_writes = "(u16 \<times> u8) list"

definition send_eoi :: "u32 \<Rightarrow> port_writes" where
  "send_eoi vector =
     (if 0x20 \<le>s vector \<and> vector <s 0x28 then [(PIC_M_CTRL, PIC_EOI)] else [])
     @ (if 0x28 \<le>s vector \<and> vector <s 0x30 then [(PIC_M_CTRL, PIC_EOI), (PIC_S_CTRL, PIC_EOI)] else [])"

type_synonym ports = "u16 \<Rightarrow> u8"

definition set_interrupt_mask :: "ports \<Rightarrow> u32 \<Rightarrow> bool \<Rightarrow> ports result" where
  "set_interrupt_mask ports irq enable =
     (if \<not> irq < 16 then Inl Assert_Failed
      else let (port, irq) = (if irq < 8 then (PIC_M_DATA, irq) else (PIC_S_DATA, irq - 8)) in
           if enable then Inr (ports(port := ports port AND NOT (push_bit (unat irq) 1)))
           else Inr (ports(port := ports port OR push_bit (unat irq) 1)))"

definition pic_init :: port_writes where
  "pic_init =
     [(PIC_M_CTRL, 0x11), (PIC_M_DATA, 0x20), (PIC_M_DATA, 0x04), (PIC_M_DATA, 0x01),
      (PIC_S_CTRL, 0x11), (PIC_S_DATA, 0x28), (PIC_S_DATA, 0x02), (PIC_S_DATA, 0x01),
      (PIC_M_DATA, 0xff), (PIC_S_DATA, 0xff)]"

definition out_all :: "port_writes \<Rightarrow> ports \<Rightarrow> ports" where
  "out_all ws ports = foldl (\<lambda>ports (p, b). ports(p := b)) ports ws"

section \<open>The table of gates\<close>

definition IDT_SIZE :: nat where "IDT_SIZE = 256"
definition ENTRY_SIZE :: nat where "ENTRY_SIZE = 0x30"

record gate_t =
  offset0 :: u16
  g_selector :: u16
  reserved :: u8
  g_type :: "4 word"
  g_segment :: "1 word"
  g_DPL :: "2 word"
  g_present :: "1 word"
  offset1 :: u16

definition zero_gate :: gate_t where
  "zero_gate = \<lparr>offset0 = 0, g_selector = 0, reserved = 0, g_type = 0, g_segment = 0, g_DPL = 0, g_present = 0, offset1 = 0\<rparr>"

definition set_gate :: "u32 \<Rightarrow> 2 word \<Rightarrow> gate_t \<Rightarrow> gate_t" where
  "set_gate handler dpl gate = gate\<lparr>
     offset0 := ucast (handler AND 0xffff),
     offset1 := ucast (drop_bit 16 handler AND 0xffff),
     g_selector := push_bit 3 1,
     reserved := 0,
     g_type := 14,
     g_segment := 0,
     g_DPL := dpl,
     g_present := 1\<rparr>"

text \<open>The functions that handle interrupts; \<open>No_Handler\<close> is a null pointer.\<close>

datatype handler = No_Handler | exception_handler | page_fault_handler | default_handler | clock_handler_fn
  | keyboard_handler_fn | serial_handler_fn | rtc_handler_fn | ide_handler_fn

text \<open>
  \<open>idt_init\<close>, with the addresses in \<open>handler_entry_table\<close>, of \<open>syscall_handler\<close> and of \<open>idt\<close>.  Both
  tables are zero when it is called.
\<close>

definition upd_gate :: "gate_t list \<Rightarrow> nat \<Rightarrow> (gate_t \<Rightarrow> gate_t) \<Rightarrow> gate_t list" where
  "upd_gate idt i f = idt[i := f (idt ! i)]"

definition idt_init :: "(nat \<Rightarrow> u32) \<Rightarrow> u32 \<Rightarrow> u32 \<Rightarrow> gate_t list \<times> handler list \<times> pointer_t" where
  "idt_init handler_entry_table syscall_handler idt_addr =
     (let idt = replicate IDT_SIZE zero_gate;
          handler_table = replicate IDT_SIZE No_Handler;
          idt = foldl (\<lambda>idt i. upd_gate idt i (set_gate (handler_entry_table i) 0)) idt [0..<ENTRY_SIZE];
          handler_table = foldl (\<lambda>t i. t[i := exception_handler]) handler_table [0..<0x20];
          handler_table = handler_table[0xe := page_fault_handler];
          handler_table = foldl (\<lambda>t i. t[i := default_handler]) handler_table [0x20..<ENTRY_SIZE];
          idt = upd_gate idt 0x80 (set_gate syscall_handler 3)
      in (idt, handler_table, \<lparr>ptr_limit = of_nat (IDT_SIZE * DESCRIPTOR_BYTES - 1), ptr_base = idt_addr\<rparr>))"

definition set_interrupt_handler :: "handler list \<Rightarrow> u32 \<Rightarrow> handler \<Rightarrow> handler list result" where
  "set_interrupt_handler t irq handler =
     (if irq < 16 then store_at t (IRQ_MASTER_NR + unat irq) handler else Inl Assert_Failed)"

section \<open>The handlers of interrupts nobody has registered\<close>

definition default_interrupt :: "u32 \<Rightarrow> port_writes" where
  "default_interrupt vector = send_eoi vector"

definition messages :: "string list" where
  "messages = [
     ''#DE Divide Error'',
     ''#DB RESERVED'',
     ''--  NMI Interrupt'',
     ''#BP Breakpoint'',
     ''#OF Overflow'',
     ''#BR BOUND Range Exceeded'',
     ''#UD Invalid Opcode (Undefined Opcode)'',
     ''#NM Device Not Available (No Math Coprocessor)'',
     ''#DF Double Fault'',
     ''    Coprocessor Segment Overrun (reserved)'',
     ''#TS Invalid TSS'',
     ''#NP Segment Not Present'',
     ''#SS Stack-Segment Fault'',
     ''#GP General Protection'',
     ''#PF Page Fault'',
     ''--  (Intel reserved. Do not use.)'',
     ''#MF x87 FPU Floating-Point Error (Math Fault)'',
     ''#AC Alignment Check'',
     ''#MC Machine Check'',
     ''#XF SIMD Floating-Point Exception'',
     ''#VE Virtualization Exception'',
     ''#CP Control Protection Exception'']"

text \<open>\<open>exception_handler\<close> prints the message and then spins; the vectors come from the entries 0 to 0x1f.\<close>

definition exception_message :: "u32 \<Rightarrow> string result" where
  "exception_message vector = (if vector <s 22 then load_at messages (unat vector) else load_at messages 15)"

section \<open>Entry and exit\<close>

text \<open>The registers of the interrupted code, and the stack as the list of its words, the top first.\<close>

record regs =
  r_eax :: u32
  r_ecx :: u32
  r_edx :: u32
  r_ebx :: u32
  r_esp :: u32
  r_ebp :: u32
  r_esi :: u32
  r_edi :: u32
  r_ds :: u32
  r_es :: u32
  r_fs :: u32
  r_gs :: u32
  r_eip :: u32
  r_cs :: u32
  r_eflags :: u32
  r_ss :: u32

definition pusha :: "regs \<Rightarrow> u32 list" where
  "pusha r = [r_edi r, r_esi r, r_ebp r, r_esp r, r_ebx r, r_edx r, r_ecx r, r_eax r]"

definition push_segments :: "regs \<Rightarrow> u32 list" where
  "push_segments r = [r_gs r, r_fs r, r_es r, r_ds r]"

text \<open>What the processor pushes, and pops again at \<open>iret\<close>: stack and stack segment only when the level changes.\<close>

definition from_user :: "u32 \<Rightarrow> bool" where "from_user cs \<longleftrightarrow> sel_rpl cs = 3"

definition cpu_frame :: "regs \<Rightarrow> u32 list" where
  "cpu_frame r = [r_eip r, r_cs r, r_eflags r] @ (if from_user (r_cs r) then [r_esp r, r_ss r] else [])"

fun iret :: "regs \<Rightarrow> u32 list \<Rightarrow> regs result" where
  "iret r (eip # cs # eflags # rest) =
     (let r = r\<lparr>r_eip := eip, r_cs := cs, r_eflags := eflags\<rparr> in
      if from_user cs
      then (case rest of esp # ss # _ \<Rightarrow> Inr (r\<lparr>r_esp := esp, r_ss := ss\<rparr>) | _ \<Rightarrow> Inl Bad_Access)
      else Inr r)"
| "iret r _ = Inl Bad_Access"

text \<open>\<open>add esp, 4; popa; pop gs; pop fs; pop es; pop ds; add esp, 8; iret\<close>.\<close>

fun interrupt_exit :: "regs \<Rightarrow> u32 list \<Rightarrow> regs result" where
  "interrupt_exit r (_ # edi # esi # ebp # _ # ebx # edx # ecx # eax # gs # fs # es # ds # _ # _ # frame) =
     iret (r\<lparr>r_edi := edi, r_esi := esi, r_ebp := ebp, r_ebx := ebx, r_edx := edx, r_ecx := ecx, r_eax := eax,
       r_gs := gs, r_fs := fs, r_es := es, r_ds := ds\<rparr>) frame"
| "interrupt_exit r _ = Inl Bad_Access"

definition ENTRY_MAGIC :: u32 where "ENTRY_MAGIC = 0x20230322"

text \<open>
  The entry of vector \<open>v\<close>; \<open>err\<close> is the error code of the exceptions that have one.  \<open>call h\<close> is
  the C function \<open>h\<close>: it takes the vector and may leave anything in the registers it need not keep
  (the first component of what it returns; the stack pointer is back where it was).
\<close>

definition interrupt_entry ::
    "(handler \<Rightarrow> u32 \<Rightarrow> 's \<Rightarrow> (regs \<times> 's) result) \<Rightarrow> handler list \<Rightarrow> regs \<Rightarrow> nat \<Rightarrow> u32 option \<Rightarrow> 's \<Rightarrow> (regs \<times> 's) result" where
  "interrupt_entry call handler_table r v err s =
     (let stack = pusha r @ push_segments r @ [of_nat v, case err of Some e \<Rightarrow> e | None \<Rightarrow> ENTRY_MAGIC] @ cpu_frame r
      in bindr (load_at stack 12) (\<lambda>eax.
         let stack = eax # stack in
         bindr (load_at handler_table (unat eax)) (\<lambda>h.
         bindr (call h eax s) (\<lambda>(left, s).
         bindr (interrupt_exit (left\<lparr>r_esp := r_esp r, r_ss := r_ss r\<rparr>) stack) (\<lambda>r. Inr (r, s))))))"

section \<open>What the processor does with a vector\<close>

definition gate_bits :: "gate_t \<Rightarrow> 64 word" where
  "gate_bits g = ucast (offset0 g) OR push_bit 16 (ucast (g_selector g)) OR push_bit 32 (ucast (reserved g))
     OR push_bit 40 (ucast (g_type g)) OR push_bit 44 (ucast (g_segment g)) OR push_bit 45 (ucast (g_DPL g))
     OR push_bit 47 (ucast (g_present g)) OR push_bit 48 (ucast (offset1 g))"

definition cpu_offset :: "64 word \<Rightarrow> u32" where
  "cpu_offset w = ucast (ucast w :: u16) OR push_bit 16 (ucast (ucast (drop_bit 48 w) :: u16))"
definition cpu_gate_selector :: "64 word \<Rightarrow> u32" where
  "cpu_gate_selector w = ucast (ucast (drop_bit 16 w) :: u16)"

text \<open>
  Where vector \<open>v\<close> enters, and at which level, when the processor runs at level \<open>cpl\<close>; \<open>software\<close>: the
  vector comes from an \<open>int\<close> instruction.  \<open>None\<close>: it is refused.
\<close>

definition deliver :: "64 word list \<Rightarrow> 64 word list \<Rightarrow> bool \<Rightarrow> 2 word \<Rightarrow> nat \<Rightarrow> (2 word \<times> u32) option" where
  "deliver gdt idt software cpl v =
     (if length idt \<le> v then None
      else let g = idt ! v in
      if \<not> bit g 47 \<or> bit g 44 \<or> cpu_type g \<noteq> 14 then None
      else if software \<and> cpu_dpl g < cpl then None
      else let i = sel_index (cpu_gate_selector g) in
      if length gdt \<le> i then None
      else case cpu_segment (gdt ! i) of
             Code dpl base lim \<Rightarrow> if cpl < dpl \<or> lim < cpu_offset g then None else Some (dpl, base + cpu_offset g)
           | _ \<Rightarrow> None)"

lemma gate_bit:
  "bit (gate_bits x) n = (
     if n < 16 then bit (offset0 x) n else if n < 32 then bit (g_selector x) (n - 16)
     else if n < 40 then bit (reserved x) (n - 32) else if n < 44 then bit (g_type x) (n - 40)
     else if n < 45 then bit (g_segment x) (n - 44) else if n < 47 then bit (g_DPL x) (n - 45)
     else if n < 48 then bit (g_present x) (n - 47) else bit (offset1 x) (n - 48))"
  unfolding gate_bits_def by (auto simp: bit_simps bit_beyond dest: bit_imp_le_length)

lemma gate_fields:
  "cpu_offset (gate_bits x) = ucast (offset0 x) OR push_bit 16 (ucast (offset1 x))"
  "cpu_gate_selector (gate_bits x) = ucast (g_selector x)"
  "cpu_type (gate_bits x) = g_type x" "cpu_dpl (gate_bits x) = g_DPL x"
proof -
  have f: "ucast (gate_bits x) = offset0 x" "ucast (drop_bit 48 (gate_bits x)) = offset1 x"
    "ucast (drop_bit 16 (gate_bits x)) = g_selector x"
    by (rule bit_word_eqI; auto simp: bit_simps gate_bit)+
  show "cpu_offset (gate_bits x) = ucast (offset0 x) OR push_bit 16 (ucast (offset1 x))"
    "cpu_gate_selector (gate_bits x) = ucast (g_selector x)"
    by (simp_all add: cpu_offset_def cpu_gate_selector_def f)
  show "cpu_type (gate_bits x) = g_type x" "cpu_dpl (gate_bits x) = g_DPL x"
    unfolding cpu_type_def cpu_dpl_def by (rule bit_word_eqI; auto simp: bit_simps gate_bit)+
qed

lemma set_gate_offset:
  "ucast (offset0 (set_gate h dpl g)) OR push_bit 16 (ucast (offset1 (set_gate h dpl g))) = h"
  by (rule bit_word_eqI) (auto simp: set_gate_def masks bit_simps)

lemma foldl_upd_nth:
  "m \<le> n \<Longrightarrow> n \<le> length xs \<Longrightarrow>
   foldl (\<lambda>xs i. xs[i := f i (xs ! i)]) xs [m..<n] = map (\<lambda>i. if m \<le> i \<and> i < n then f i (xs ! i) else xs ! i) [0..<length xs]"
proof (induction n)
  case 0
  then show ?case by (simp add: map_nth)
next
  case (Suc n)
  show ?case
  proof (cases "m \<le> n")
    case True
    with Suc show ?thesis by (auto intro!: nth_equalityI simp: nth_list_update less_Suc_eq)
  next
    case False
    with Suc.prems have "m = Suc n" by simp
    then show ?thesis by (auto intro!: nth_equalityI)
  qed
qed

text \<open>The gates \<open>idt_init\<close> leaves.\<close>

lemma idt_init_gate:
  assumes "v < IDT_SIZE"
  shows "fst (idt_init entry sc idt_addr) ! v =
    (if v = 0x80 then set_gate sc 3 zero_gate else if v < ENTRY_SIZE then set_gate (entry v) 0 zero_gate else zero_gate)"
  using assms foldl_upd_nth [of 0 ENTRY_SIZE "replicate IDT_SIZE zero_gate" "\<lambda>i. set_gate (entry i) 0"]
  by (simp add: idt_init_def upd_gate_def Let_def nth_list_update ENTRY_SIZE_def IDT_SIZE_def del: upt_Suc)

lemma idt_init_length: "length (fst (idt_init entry sc idt_addr)) = IDT_SIZE"
  using foldl_upd_nth [of 0 ENTRY_SIZE "replicate IDT_SIZE zero_gate" "\<lambda>i. set_gate (entry i) 0"]
  by (simp add: idt_init_def upd_gate_def Let_def ENTRY_SIZE_def IDT_SIZE_def del: upt_Suc)

lemma kernel_code_entry:
  "sel_index (cpu_gate_selector (gate_bits (set_gate h dpl g))) = 1"
  "\<not> length (boot_gdt gdt_addr tss_addr) \<le> 1"
  "cpu_segment (map descriptor_bits (boot_gdt gdt_addr tss_addr) ! 1) = Code 0 0 0xffffffff"
proof -
  show "sel_index (cpu_gate_selector (gate_bits (set_gate h dpl g))) = 1"
    by (simp add: gate_fields set_gate_def sel_index_def)
  have n: "length (boot_gdt gdt_addr tss_addr) = 128"
    using arg_cong [OF boot_gdt_segments [of gdt_addr tss_addr], of length] by simp
  then show "\<not> length (boot_gdt gdt_addr tss_addr) \<le> 1" by simp
  show "cpu_segment (map descriptor_bits (boot_gdt gdt_addr tss_addr) ! 1) = Code 0 0 0xffffffff"
    using arg_cong [OF boot_gdt_segments [of gdt_addr tss_addr], of "\<lambda>xs. xs ! 1"] n by simp
qed

text \<open>
  C32. Programs enter the kernel through one door.  With the tables the kernel sets up, each of the
  vectors 0 to 0x2f that the hardware raises enters its own entry of \<open>handler_entry_table\<close> at level 0,
  whatever the processor was doing; an \<open>int\<close> instruction at another level than 0 enters only
  \<open>syscall_handler\<close>, through vector 0x80, and any other \<open>int\<close> of a program is refused, as is every
  other vector.
\<close>
theorem gates_typed:
  "deliver (map descriptor_bits (boot_gdt gdt_addr tss_addr)) (map gate_bits (fst (idt_init entry sc idt_addr))) software cpl v
   = (if v = 0x80 then Some (0, sc) else if v < 0x30 \<and> \<not> (software \<and> cpl \<noteq> 0) then Some (0, entry v) else None)"
proof (cases "v < IDT_SIZE")
  case False
  then show ?thesis by (auto simp: deliver_def idt_init_length IDT_SIZE_def)
next
  case True
  have max: "\<not> 0xffffffff < (x :: u32)" for x
  proof -
    have "(0xffffffff :: u32) = - 1" by simp
    then show ?thesis using word_n1_ge [of x] by (simp only: not_less)
  qed
  have "\<not> (3 :: 2 word) < a" for a
  proof -
    have "unat a < 2 ^ LENGTH(2)" by (rule unsigned_less)
    then show ?thesis by (simp add: word_less_nat_alt)
  qed
  then have zero: "\<not> (a :: 2 word) < 0" "(0 < a) = (a \<noteq> 0)" "\<not> (3 :: 2 word) < a" for a by (simp_all add: word_gt_0)
  have flat: "cpu_offset (gate_bits (set_gate h dpl g)) = h" "bit (gate_bits (set_gate h dpl g)) 47"
    "\<not> bit (gate_bits (set_gate h dpl g)) 44" "cpu_type (gate_bits (set_gate h dpl g)) = 14"
    "cpu_dpl (gate_bits (set_gate h dpl g)) = dpl" for h dpl g
    by (simp_all only: gate_fields set_gate_offset) (simp_all add: gate_bit set_gate_def)
  have none: "\<not> bit (gate_bits zero_gate) 47" by (simp add: gate_bit zero_gate_def)
  show ?thesis
    using True kernel_code_entry
    by (simp add: deliver_def idt_init_length idt_init_gate flat none max zero ENTRY_SIZE_def Let_def)
qed

section \<open>Masks, ends of interrupts and the registers\<close>

text \<open>Interrupt line \<open>j\<close> is masked.\<close>

definition irq_masked :: "ports \<Rightarrow> nat \<Rightarrow> bool" where
  "irq_masked ports j = (if j < 8 then bit (ports PIC_M_DATA) j else bit (ports PIC_S_DATA) (j - 8))"

lemma set_interrupt_mask_exact:
  assumes "irq < 16"
  shows "\<exists>ports'. set_interrupt_mask ports irq enable = Inr ports'
    \<and> (\<forall>j<16. irq_masked ports' j = (if j = unat irq then \<not> enable else irq_masked ports j))"
proof -
  have i: "unat irq < 16" "irq < 8 \<longleftrightarrow> unat irq < 8" using assms by (simp_all add: word_less_nat_alt)
  have d: "\<not> irq < 8 \<Longrightarrow> unat (irq - 8) = unat irq - 8" by (simp add: unat_sub not_less)
  have p: "PIC_M_DATA \<noteq> PIC_S_DATA" by (simp add: PIC_M_DATA_def PIC_S_DATA_def)
  show ?thesis
    using assms i d p by (auto simp: set_interrupt_mask_def irq_masked_def bit_simps)
qed

lemma bit_all_ones: "bit (0xff :: u8) i \<longleftrightarrow> i < 8"
proof -
  have "(0xff :: u8) = mask 8" by (simp add: mask_eq_exp_minus_1)
  show ?thesis unfolding \<open>0xff = mask 8\<close> bit_mask_iff by auto
qed

lemma pic_init_masks_all: "irq_masked (out_all pic_init ports) j \<longleftrightarrow> j < 16"
proof -
  have "out_all pic_init ports PIC_M_DATA = 0xff" "out_all pic_init ports PIC_S_DATA = 0xff"
    by (simp_all add: out_all_def pic_init_def PIC_M_DATA_def PIC_S_DATA_def PIC_M_CTRL_def PIC_S_CTRL_def)
  note ports = this
  show ?thesis unfolding irq_masked_def ports bit_all_ones by auto
qed

text \<open>An interrupt leaves every register of what it interrupted as it was.\<close>

lemma iret_frame:
  fixes left r :: regs
  assumes "r_esp left = r_esp r" "r_ss left = r_ss r"
  shows "iret left (cpu_frame r) = Inr (left\<lparr>r_eip := r_eip r, r_cs := r_cs r, r_eflags := r_eflags r\<rparr>)"
proof -
  have same: "left\<lparr>r_eip := a, r_cs := b, r_eflags := c, r_esp := r_esp r, r_ss := r_ss r\<rparr>
    = left\<lparr>r_eip := a, r_cs := b, r_eflags := c\<rparr>" for a b c
    by (rule regs.equality) (simp_all add: assms)
  show ?thesis
    unfolding cpu_frame_def append_Cons append_Nil iret.simps(1) Let_def
    by (cases "from_user (r_cs r)") (simp_all only: if_True if_False simp_thms list.case same)
qed

lemma regs_restored:
  fixes left r :: regs
  assumes "r_esp left = r_esp r" "r_ss left = r_ss r"
  shows "left\<lparr>r_edi := r_edi r, r_esi := r_esi r, r_ebp := r_ebp r, r_ebx := r_ebx r, r_edx := r_edx r, r_ecx := r_ecx r,
     r_eax := r_eax r, r_gs := r_gs r, r_fs := r_fs r, r_es := r_es r, r_ds := r_ds r, r_eip := r_eip r, r_cs := r_cs r,
     r_eflags := r_eflags r\<rparr> = r"
  by (rule regs.equality) (simp_all add: assms)

lemma interrupt_exit_entry:
  assumes "r_esp left = r_esp r" "r_ss left = r_ss r"
  shows "interrupt_exit left (a # pusha r @ push_segments r @ b # c # cpu_frame r) = Inr r"
proof -
  let ?l = "left\<lparr>r_edi := r_edi r, r_esi := r_esi r, r_ebp := r_ebp r, r_ebx := r_ebx r, r_edx := r_edx r, r_ecx := r_ecx r,
        r_eax := r_eax r, r_gs := r_gs r, r_fs := r_fs r, r_es := r_es r, r_ds := r_ds r\<rparr>"
  have "interrupt_exit left (a # pusha r @ push_segments r @ b # c # cpu_frame r) = iret ?l (cpu_frame r)"
    unfolding pusha_def push_segments_def append_Cons append_Nil by (rule interrupt_exit.simps(1))
  also have "\<dots> = Inr (?l\<lparr>r_eip := r_eip r, r_cs := r_cs r, r_eflags := r_eflags r\<rparr>)"
    by (rule iret_frame) (simp_all add: assms)
  finally show ?thesis unfolding regs_restored [OF assms] .
qed

lemma interrupt_transparent:
  assumes "v < length handler_table" "v < 2 ^ 32" "call (handler_table ! v) (of_nat v) s = Inr (left, s')"
  shows "interrupt_entry call handler_table r v err s = Inr (r, s')"
proof -
  have "load_at (pusha r @ push_segments r @ [of_nat v, e] @ cpu_frame r) 12 = Inr (of_nat v)" for e
    by (simp add: load_at_def pusha_def push_segments_def)
  moreover have "load_at handler_table (unat (of_nat v :: u32)) = Inr (handler_table ! v)"
    using assms(1) unat_u32_of_nat [OF assms(2)] by simp
  ultimately show ?thesis
    by (simp only: interrupt_entry_def Let_def bindr_Inr assms(3) prod.case) (simp add: interrupt_exit_entry)
qed

end
