(* ===== verification/Ylos_Syscall.thy ===== *)
theory Ylos_Syscall
  imports Ylos_Interrupt
begin

text \<open>
  System calls, from the function a program calls to the function of the kernel: lib/syscall.c, the
  numbers of include/ylos/syscall.h, the table of kernel/gate.c and \<open>syscall_handler\<close> of
  kernel/handler.asm.  Pointers and integers of every width travel as the contents of a register.
  The functions of the kernel are named; what they do is an argument.
\<close>

section \<open>The numbers\<close>

definition SYS_NR_TEST :: u32 where "SYS_NR_TEST = 0"
definition SYS_NR_EXIT :: u32 where "SYS_NR_EXIT = 1"
definition SYS_NR_FORK :: u32 where "SYS_NR_FORK = 2"
definition SYS_NR_READ :: u32 where "SYS_NR_READ = 3"
definition SYS_NR_WRITE :: u32 where "SYS_NR_WRITE = 4"
definition SYS_NR_OPEN :: u32 where "SYS_NR_OPEN = 5"
definition SYS_NR_CLOSE :: u32 where "SYS_NR_CLOSE = 6"
definition SYS_NR_WAITPID :: u32 where "SYS_NR_WAITPID = 7"
definition SYS_NR_CREAT :: u32 where "SYS_NR_CREAT = 8"
definition SYS_NR_LINK :: u32 where "SYS_NR_LINK = 9"
definition SYS_NR_UNLINK :: u32 where "SYS_NR_UNLINK = 10"
definition SYS_NR_EXECVE :: u32 where "SYS_NR_EXECVE = 11"
definition SYS_NR_CHDIR :: u32 where "SYS_NR_CHDIR = 12"
definition SYS_NR_TIME :: u32 where "SYS_NR_TIME = 13"
definition SYS_NR_MKNOD :: u32 where "SYS_NR_MKNOD = 14"
definition SYS_NR_STAT :: u32 where "SYS_NR_STAT = 18"
definition SYS_NR_LSEEK :: u32 where "SYS_NR_LSEEK = 19"
definition SYS_NR_GETPID :: u32 where "SYS_NR_GETPID = 20"
definition SYS_NR_MOUNT :: u32 where "SYS_NR_MOUNT = 21"
definition SYS_NR_UMOUNT :: u32 where "SYS_NR_UMOUNT = 22"
definition SYS_NR_FSTAT :: u32 where "SYS_NR_FSTAT = 28"
definition SYS_NR_MKDIR :: u32 where "SYS_NR_MKDIR = 39"
definition SYS_NR_RMDIR :: u32 where "SYS_NR_RMDIR = 40"
definition SYS_NR_DUP :: u32 where "SYS_NR_DUP = 41"
definition SYS_NR_PIPE :: u32 where "SYS_NR_PIPE = 42"
definition SYS_NR_BRK :: u32 where "SYS_NR_BRK = 45"
definition SYS_NR_UMASK :: u32 where "SYS_NR_UMASK = 60"
definition SYS_NR_CHROOT :: u32 where "SYS_NR_CHROOT = 61"
definition SYS_NR_DUP2 :: u32 where "SYS_NR_DUP2 = 63"
definition SYS_NR_GETPPID :: u32 where "SYS_NR_GETPPID = 64"
definition SYS_NR_READDIR :: u32 where "SYS_NR_READDIR = 89"
definition SYS_NR_MMAP :: u32 where "SYS_NR_MMAP = 90"
definition SYS_NR_MUNMAP :: u32 where "SYS_NR_MUNMAP = 91"
definition SYS_NR_YIELD :: u32 where "SYS_NR_YIELD = 158"
definition SYS_NR_SLEEP :: u32 where "SYS_NR_SLEEP = 162"
definition SYS_NR_GETCWD :: u32 where "SYS_NR_GETCWD = 183"
definition SYS_NR_CLEAR :: u32 where "SYS_NR_CLEAR = 200"
definition SYS_NR_MKFS :: u32 where "SYS_NR_MKFS = 201"
definition SYSCALL_SIZE :: u32 where "SYSCALL_SIZE = 256"

lemmas syscall_numbers = SYS_NR_TEST_def SYS_NR_EXIT_def SYS_NR_FORK_def SYS_NR_READ_def SYS_NR_WRITE_def SYS_NR_OPEN_def
  SYS_NR_CLOSE_def SYS_NR_WAITPID_def SYS_NR_CREAT_def SYS_NR_LINK_def SYS_NR_UNLINK_def SYS_NR_EXECVE_def
  SYS_NR_CHDIR_def SYS_NR_TIME_def SYS_NR_MKNOD_def SYS_NR_STAT_def SYS_NR_LSEEK_def SYS_NR_GETPID_def
  SYS_NR_MOUNT_def SYS_NR_UMOUNT_def SYS_NR_FSTAT_def SYS_NR_MKDIR_def SYS_NR_RMDIR_def SYS_NR_DUP_def
  SYS_NR_PIPE_def SYS_NR_BRK_def SYS_NR_UMASK_def SYS_NR_CHROOT_def SYS_NR_DUP2_def SYS_NR_GETPPID_def
  SYS_NR_READDIR_def SYS_NR_MMAP_def SYS_NR_MUNMAP_def SYS_NR_YIELD_def SYS_NR_SLEEP_def SYS_NR_GETCWD_def
  SYS_NR_CLEAR_def SYS_NR_MKFS_def

section \<open>The table of the kernel\<close>

datatype sys_fn = fn_sys_default | fn_sys_test | fn_task_exit | fn_task_fork | fn_task_waitpid | fn_sys_execve
  | fn_task_sleep | fn_task_yield | fn_sys_getpid | fn_sys_getppid | fn_sys_brk | fn_sys_mmap
  | fn_sys_munmap | fn_sys_dup | fn_sys_dup2 | fn_sys_pipe | fn_sys_read | fn_sys_write
  | fn_sys_lseek | fn_sys_readdir | fn_sys_mkdir | fn_sys_rmdir | fn_sys_open | fn_sys_creat
  | fn_sys_close | fn_sys_link | fn_sys_unlink | fn_sys_time | fn_sys_umask | fn_sys_chdir
  | fn_sys_chroot | fn_sys_getcwd | fn_console_clear | fn_sys_stat | fn_sys_fstat | fn_sys_mknod
  | fn_sys_mount | fn_sys_umount | fn_sys_mkfs

text \<open>The assignments of \<open>syscall_init\<close>, in order.\<close>

definition syscall_entries :: "(u32 \<times> sys_fn) list" where
  "syscall_entries = [
     (SYS_NR_TEST, fn_sys_test), (SYS_NR_EXIT, fn_task_exit), (SYS_NR_FORK, fn_task_fork),
     (SYS_NR_WAITPID, fn_task_waitpid), (SYS_NR_EXECVE, fn_sys_execve), (SYS_NR_SLEEP, fn_task_sleep),
     (SYS_NR_YIELD, fn_task_yield), (SYS_NR_GETPID, fn_sys_getpid), (SYS_NR_GETPPID, fn_sys_getppid),
     (SYS_NR_BRK, fn_sys_brk), (SYS_NR_MMAP, fn_sys_mmap), (SYS_NR_MUNMAP, fn_sys_munmap), (SYS_NR_DUP, fn_sys_dup),
     (SYS_NR_DUP2, fn_sys_dup2), (SYS_NR_PIPE, fn_sys_pipe), (SYS_NR_READ, fn_sys_read),
     (SYS_NR_WRITE, fn_sys_write), (SYS_NR_LSEEK, fn_sys_lseek), (SYS_NR_READDIR, fn_sys_readdir),
     (SYS_NR_MKDIR, fn_sys_mkdir), (SYS_NR_RMDIR, fn_sys_rmdir), (SYS_NR_OPEN, fn_sys_open),
     (SYS_NR_CREAT, fn_sys_creat), (SYS_NR_CLOSE, fn_sys_close), (SYS_NR_LINK, fn_sys_link),
     (SYS_NR_UNLINK, fn_sys_unlink), (SYS_NR_TIME, fn_sys_time), (SYS_NR_UMASK, fn_sys_umask),
     (SYS_NR_CHDIR, fn_sys_chdir), (SYS_NR_CHROOT, fn_sys_chroot), (SYS_NR_GETCWD, fn_sys_getcwd),
     (SYS_NR_CLEAR, fn_console_clear), (SYS_NR_STAT, fn_sys_stat), (SYS_NR_FSTAT, fn_sys_fstat),
     (SYS_NR_MKNOD, fn_sys_mknod), (SYS_NR_MOUNT, fn_sys_mount), (SYS_NR_UMOUNT, fn_sys_umount),
     (SYS_NR_MKFS, fn_sys_mkfs)]"

definition syscall_check :: "u32 \<Rightarrow> unit result" where
  "syscall_check nr = (if SYSCALL_SIZE \<le> nr then Inl Kernel_Panic else Inr ())"

text \<open>\<open>syscall_init\<close> fills the table of 256 functions, whatever it held.\<close>

definition set_fn :: "u32 \<Rightarrow> sys_fn \<Rightarrow> sys_fn list \<Rightarrow> sys_fn list" where
  "set_fn nr f table = table[unat nr := f]"

definition syscall_init :: "sys_fn list \<Rightarrow> sys_fn list" where
  "syscall_init table =
     (let table = foldl (\<lambda>table i. table[i := fn_sys_default]) table [0..<unat SYSCALL_SIZE]
      in fold (\<lambda>(nr, f). set_fn nr f) syscall_entries table)"

text \<open>\<open>sys_default\<close> panics; every other function is \<open>call\<close>, which takes the six arguments on the stack.\<close>

definition call_sys :: "(sys_fn \<Rightarrow> u32 list \<Rightarrow> 's \<Rightarrow> ((u32 \<times> regs) \<times> 's) result) \<Rightarrow> sys_fn \<Rightarrow> u32 list \<Rightarrow> 's \<Rightarrow> ((u32 \<times> regs) \<times> 's) result" where
  "call_sys call f args s = (if f = fn_sys_default then Inl Kernel_Panic else call f args s)"

text \<open>
  \<open>syscall_handler\<close>.  The code relies on \<open>syscall_check\<close> to leave the registers alone, which the calling
  convention does not promise for \<open>eax\<close>, \<open>ecx\<close> and \<open>edx\<close>; here it does.  The function may leave anything
  in the other registers; its result goes into the slot of \<open>eax\<close> in the frame.
\<close>

definition syscall_handler ::
    "(sys_fn \<Rightarrow> u32 list \<Rightarrow> 's \<Rightarrow> ((u32 \<times> regs) \<times> 's) result) \<Rightarrow> sys_fn list \<Rightarrow> regs \<Rightarrow> 's \<Rightarrow> (regs \<times> 's) result" where
  "syscall_handler call syscall_table r s =
     bindr (syscall_check (r_eax r)) (\<lambda>_.
     let stack = 0x80 # pusha r @ push_segments r @ [0x80, ENTRY_MAGIC] @ cpu_frame r;
         args = [r_ebx r, r_ecx r, r_edx r, r_esi r, r_edi r, r_ebp r]
     in bindr (load_at syscall_table (unat (r_eax r))) (\<lambda>f.
        bindr (call_sys call f args s) (\<lambda>((eax, left), s).
        bindr (store_at stack 8 eax) (\<lambda>stack.
        bindr (interrupt_exit (left\<lparr>r_esp := r_esp r, r_ss := r_ss r\<rparr>) stack) (\<lambda>r. Inr (r, s))))))"

section \<open>The library of the programs\<close>

text \<open>
  \<open>int 0x80\<close> with the number and the arguments in their registers; the other registers hold what the
  calling function left there.  The sixth argument goes through \<open>ebp\<close>, which is saved around the trap.
\<close>

type_synonym 's trap = "regs \<Rightarrow> 's \<Rightarrow> (regs \<times> 's) result"
type_synonym 's stub = "'s trap \<Rightarrow> regs \<Rightarrow> 's \<Rightarrow> (u32 \<times> regs \<times> 's) result"

definition int80 :: "(regs \<Rightarrow> regs) \<Rightarrow> 's stub" where
  "int80 inputs trap r s = bindr (trap (inputs r) s) (\<lambda>(r, s). Inr (r_eax r, r, s))"

definition syscall0 :: "u32 \<Rightarrow> 's stub" where
  "syscall0 nr = int80 (\<lambda>r. r\<lparr>r_eax := nr\<rparr>)"
definition syscall1 :: "u32 \<Rightarrow> u32 \<Rightarrow> 's stub" where
  "syscall1 nr a1 = int80 (\<lambda>r. r\<lparr>r_eax := nr, r_ebx := a1\<rparr>)"
definition syscall2 :: "u32 \<Rightarrow> u32 \<Rightarrow> u32 \<Rightarrow> 's stub" where
  "syscall2 nr a1 a2 = int80 (\<lambda>r. r\<lparr>r_eax := nr, r_ebx := a1, r_ecx := a2\<rparr>)"
definition syscall3 :: "u32 \<Rightarrow> u32 \<Rightarrow> u32 \<Rightarrow> u32 \<Rightarrow> 's stub" where
  "syscall3 nr a1 a2 a3 = int80 (\<lambda>r. r\<lparr>r_eax := nr, r_ebx := a1, r_ecx := a2, r_edx := a3\<rparr>)"
definition syscall4 :: "u32 \<Rightarrow> u32 \<Rightarrow> u32 \<Rightarrow> u32 \<Rightarrow> u32 \<Rightarrow> 's stub" where
  "syscall4 nr a1 a2 a3 a4 = int80 (\<lambda>r. r\<lparr>r_eax := nr, r_ebx := a1, r_ecx := a2, r_edx := a3, r_esi := a4\<rparr>)"
definition syscall5 :: "u32 \<Rightarrow> u32 \<Rightarrow> u32 \<Rightarrow> u32 \<Rightarrow> u32 \<Rightarrow> u32 \<Rightarrow> 's stub" where
  "syscall5 nr a1 a2 a3 a4 a5 =
     int80 (\<lambda>r. r\<lparr>r_eax := nr, r_ebx := a1, r_ecx := a2, r_edx := a3, r_esi := a4, r_edi := a5\<rparr>)"
definition syscall6 :: "u32 \<Rightarrow> u32 \<Rightarrow> u32 \<Rightarrow> u32 \<Rightarrow> u32 \<Rightarrow> u32 \<Rightarrow> u32 \<Rightarrow> 's stub" where
  "syscall6 nr a1 a2 a3 a4 a5 a6 trap r s =
     bindr (int80 (\<lambda>r. r\<lparr>r_eax := nr, r_ebx := a1, r_ecx := a2, r_edx := a3, r_esi := a4, r_edi := a5, r_ebp := a6\<rparr>) trap r s)
       (\<lambda>(ret, r', s). Inr (ret, r'\<lparr>r_ebp := r_ebp r\<rparr>, s))"

definition usr_test :: "'s stub" where
  "usr_test = syscall0 SYS_NR_TEST"
definition usr_exit :: "u32 \<Rightarrow> 's stub" where
  "usr_exit status = syscall1 SYS_NR_EXIT status"
definition usr_fork :: "'s stub" where
  "usr_fork = syscall0 SYS_NR_FORK"
definition usr_waitpid :: "u32 \<Rightarrow> u32 \<Rightarrow> 's stub" where
  "usr_waitpid pid status = syscall2 SYS_NR_WAITPID pid status"
definition usr_execve :: "u32 \<Rightarrow> u32 \<Rightarrow> u32 \<Rightarrow> 's stub" where
  "usr_execve filename argv envp = syscall3 SYS_NR_EXECVE filename argv envp"
definition usr_yield :: "'s stub" where
  "usr_yield = syscall0 SYS_NR_YIELD"
definition usr_sleep :: "u32 \<Rightarrow> 's stub" where
  "usr_sleep ms = syscall1 SYS_NR_SLEEP ms"
definition usr_getpid :: "'s stub" where
  "usr_getpid = syscall0 SYS_NR_GETPID"
definition usr_getppid :: "'s stub" where
  "usr_getppid = syscall0 SYS_NR_GETPPID"
definition usr_brk :: "u32 \<Rightarrow> 's stub" where
  "usr_brk addr = syscall1 SYS_NR_BRK addr"
definition usr_mmap :: "u32 \<Rightarrow> u32 \<Rightarrow> u32 \<Rightarrow> u32 \<Rightarrow> u32 \<Rightarrow> u32 \<Rightarrow> 's stub" where
  "usr_mmap addr length' prot' flags fd offset = syscall6 SYS_NR_MMAP addr length' prot' flags fd offset"
definition usr_munmap :: "u32 \<Rightarrow> u32 \<Rightarrow> 's stub" where
  "usr_munmap addr length' = syscall2 SYS_NR_MUNMAP addr length'"
definition usr_dup :: "u32 \<Rightarrow> 's stub" where
  "usr_dup oldfd = syscall1 SYS_NR_DUP oldfd"
definition usr_dup2 :: "u32 \<Rightarrow> u32 \<Rightarrow> 's stub" where
  "usr_dup2 oldfd newfd = syscall2 SYS_NR_DUP2 oldfd newfd"
definition usr_pipe :: "u32 \<Rightarrow> 's stub" where
  "usr_pipe pipefd = syscall1 SYS_NR_PIPE pipefd"
definition usr_open :: "u32 \<Rightarrow> u32 \<Rightarrow> u32 \<Rightarrow> 's stub" where
  "usr_open filename flags mode = syscall3 SYS_NR_OPEN filename flags mode"
definition usr_creat :: "u32 \<Rightarrow> u32 \<Rightarrow> 's stub" where
  "usr_creat filename mode = syscall2 SYS_NR_CREAT filename mode"
definition usr_close :: "u32 \<Rightarrow> 's stub" where
  "usr_close fd = syscall1 SYS_NR_CLOSE fd"
definition usr_read :: "u32 \<Rightarrow> u32 \<Rightarrow> u32 \<Rightarrow> 's stub" where
  "usr_read fd buf len = syscall3 SYS_NR_READ fd buf len"
definition usr_write :: "u32 \<Rightarrow> u32 \<Rightarrow> u32 \<Rightarrow> 's stub" where
  "usr_write fd buf len = syscall3 SYS_NR_WRITE fd buf len"
definition usr_lseek :: "u32 \<Rightarrow> u32 \<Rightarrow> u32 \<Rightarrow> 's stub" where
  "usr_lseek fd offset whence = syscall3 SYS_NR_LSEEK fd offset whence"
definition usr_readdir :: "u32 \<Rightarrow> u32 \<Rightarrow> u32 \<Rightarrow> 's stub" where
  "usr_readdir fd dir count = syscall3 SYS_NR_READDIR fd dir count"
definition usr_getcwd :: "u32 \<Rightarrow> u32 \<Rightarrow> 's stub" where
  "usr_getcwd buf size' = syscall2 SYS_NR_GETCWD buf size'"
definition usr_chdir :: "u32 \<Rightarrow> 's stub" where
  "usr_chdir pathname = syscall1 SYS_NR_CHDIR pathname"
definition usr_chroot :: "u32 \<Rightarrow> 's stub" where
  "usr_chroot pathname = syscall1 SYS_NR_CHROOT pathname"
definition usr_mkdir :: "u32 \<Rightarrow> u32 \<Rightarrow> 's stub" where
  "usr_mkdir pathname mode = syscall2 SYS_NR_MKDIR pathname mode"
definition usr_rmdir :: "u32 \<Rightarrow> 's stub" where
  "usr_rmdir pathname = syscall1 SYS_NR_RMDIR pathname"
definition usr_link :: "u32 \<Rightarrow> u32 \<Rightarrow> 's stub" where
  "usr_link oldname newname = syscall2 SYS_NR_LINK oldname newname"
definition usr_unlink :: "u32 \<Rightarrow> 's stub" where
  "usr_unlink filename = syscall1 SYS_NR_UNLINK filename"
definition usr_mount :: "u32 \<Rightarrow> u32 \<Rightarrow> u32 \<Rightarrow> 's stub" where
  "usr_mount devname dirname flags = syscall3 SYS_NR_MOUNT devname dirname flags"
definition usr_umount :: "u32 \<Rightarrow> 's stub" where
  "usr_umount target = syscall1 SYS_NR_UMOUNT target"
definition usr_time :: "'s stub" where
  "usr_time = syscall0 SYS_NR_TIME"
definition usr_umask :: "u32 \<Rightarrow> 's stub" where
  "usr_umask mask' = syscall1 SYS_NR_UMASK mask'"
definition usr_clear :: "'s stub" where
  "usr_clear = syscall0 SYS_NR_CLEAR"
definition usr_stat :: "u32 \<Rightarrow> u32 \<Rightarrow> 's stub" where
  "usr_stat filename statbuf = syscall2 SYS_NR_STAT filename statbuf"
definition usr_fstat :: "u32 \<Rightarrow> u32 \<Rightarrow> 's stub" where
  "usr_fstat fd statbuf = syscall2 SYS_NR_FSTAT fd statbuf"
definition usr_mknod :: "u32 \<Rightarrow> u32 \<Rightarrow> u32 \<Rightarrow> 's stub" where
  "usr_mknod filename mode dev = syscall3 SYS_NR_MKNOD filename mode dev"
definition usr_mkfs :: "u32 \<Rightarrow> u32 \<Rightarrow> 's stub" where
  "usr_mkfs devname icount = syscall2 SYS_NR_MKFS devname icount"

lemmas usr_defs = usr_test_def usr_exit_def usr_fork_def usr_waitpid_def usr_execve_def usr_yield_def usr_sleep_def
  usr_getpid_def usr_getppid_def usr_brk_def usr_mmap_def usr_munmap_def usr_dup_def usr_dup2_def usr_pipe_def
  usr_open_def usr_creat_def usr_close_def usr_read_def usr_write_def usr_lseek_def usr_readdir_def
  usr_getcwd_def usr_chdir_def usr_chroot_def usr_mkdir_def usr_rmdir_def usr_link_def usr_unlink_def
  usr_mount_def usr_umount_def usr_time_def usr_umask_def usr_clear_def usr_stat_def usr_fstat_def
  usr_mknod_def usr_mkfs_def

section \<open>Every function of the library reaches its function of the kernel\<close>

definition boot_table :: "sys_fn list" where
  "boot_table = syscall_init (replicate 256 fn_sys_test)"

text \<open>The argument registers in the order of the stack, and what a call must leave alone.\<close>

definition arg_regs :: "regs \<Rightarrow> u32 list" where
  "arg_regs r = [r_ebx r, r_ecx r, r_edx r, r_esi r, r_edi r, r_ebp r]"

definition kept :: "regs \<Rightarrow> u32 list" where
  "kept r = [r_esp r, r_ebp r, r_ds r, r_es r, r_fs r, r_gs r, r_eip r, r_cs r, r_eflags r, r_ss r]"

text \<open>
  The stub \<open>f\<close> reaches \<open>fn\<close> with \<open>args\<close>: it does what \<open>fn\<close> does with these arguments (the other slots of
  the six hold registers of the caller), fails as it fails, returns its result, and keeps the stack,
  the segments and the place it was called from.
\<close>

definition reaches :: "'s stub \<Rightarrow> sys_fn \<Rightarrow> u32 list \<Rightarrow> bool" where
  "reaches f fn args \<longleftrightarrow> (\<forall>call r s.
     case call fn (args @ drop (length args) (arg_regs r)) s of
       Inl e \<Rightarrow> f (syscall_handler call boot_table) r s = Inl e
     | Inr ((ret, left), s') \<Rightarrow> \<exists>r'. f (syscall_handler call boot_table) r s = Inr (ret, r', s') \<and> kept r' = kept r)"

lemma fold_set_fn_nth:
  "n < length t \<Longrightarrow> n < 2 ^ 32 \<Longrightarrow>
   length (fold (\<lambda>(nr, f). set_fn nr f) kvs t) = length t
   \<and> fold (\<lambda>(nr, f). set_fn nr f) kvs t ! n = (case map_of (rev kvs) (of_nat n) of Some f \<Rightarrow> f | None \<Rightarrow> t ! n)"
proof (induction kvs rule: rev_induct)
  case (snoc kv kvs)
  obtain nr f where kv: "kv = (nr, f)" by fastforce
  have "unat nr = n \<longleftrightarrow> nr = of_nat n" using unat_u32_of_nat [OF snoc.prems(2)] by auto
  with snoc show ?case by (auto simp: kv set_fn_def nth_list_update)
qed simp

text \<open>The entries of the table, by number.\<close>

lemma boot_table_nth:
  assumes "nr < 256"
  shows "unat nr < length boot_table"
    and "boot_table ! unat nr = (case map_of (rev syscall_entries) nr of Some f \<Rightarrow> f | None \<Rightarrow> fn_sys_default)"
proof -
  have cleared: "foldl (\<lambda>t i. t[i := fn_sys_default]) (replicate 256 fn_sys_test) [0..<256] = replicate 256 fn_sys_default"
    using foldl_upd_nth [of 0 256 "replicate 256 fn_sys_test" "\<lambda>_ _. fn_sys_default"]
    by (auto intro!: nth_equalityI simp del: upt_Suc)
  have n: "unat nr < 256" using assms by (simp add: word_less_nat_alt)
  have b: "boot_table = fold (\<lambda>(nr, f). set_fn nr f) syscall_entries (replicate 256 fn_sys_default)"
    using cleared by (simp add: boot_table_def syscall_init_def SYSCALL_SIZE_def)
  show "unat nr < length boot_table"
    "boot_table ! unat nr = (case map_of (rev syscall_entries) nr of Some f \<Rightarrow> f | None \<Rightarrow> fn_sys_default)"
    using fold_set_fn_nth [of "unat nr" "replicate 256 fn_sys_default" syscall_entries] n
    by (simp_all add: b nth_replicate split: option.splits)
qed

text \<open>The trap with a number that has a function.\<close>

lemma syscall_handler_call:
  assumes "map_of (rev syscall_entries) (r_eax r) = Some fn" "r_eax r < 256" "fn \<noteq> fn_sys_default"
  shows "syscall_handler call boot_table r s
    = bindr (call fn (arg_regs r) s) (\<lambda>((ret, left), s). Inr (r\<lparr>r_eax := ret\<rparr>, s))"
proof -
  have check: "syscall_check (r_eax r) = Inr ()" using assms(2) by (simp add: syscall_check_def SYSCALL_SIZE_def not_le)
  have f: "load_at boot_table (unat (r_eax r)) = Inr fn" using boot_table_nth [OF assms(2)] assms(1) by simp
  have frame: "store_at (0x80 # pusha r @ push_segments r @ [0x80, ENTRY_MAGIC] @ cpu_frame r) 8 ret
    = Inr (0x80 # pusha (r\<lparr>r_eax := ret\<rparr>) @ push_segments (r\<lparr>r_eax := ret\<rparr>) @ 0x80 # ENTRY_MAGIC # cpu_frame (r\<lparr>r_eax := ret\<rparr>))" for ret
    by (simp add: store_at_def pusha_def push_segments_def cpu_frame_def)
  have "interrupt_exit (left\<lparr>r_esp := r_esp r, r_ss := r_ss r\<rparr>)
      (0x80 # pusha (r\<lparr>r_eax := ret\<rparr>) @ push_segments (r\<lparr>r_eax := ret\<rparr>) @ 0x80 # ENTRY_MAGIC # cpu_frame (r\<lparr>r_eax := ret\<rparr>))
    = Inr (r\<lparr>r_eax := ret\<rparr>)" for left ret
    by (rule interrupt_exit_entry) simp_all
  note exit = this
  have call: "call_sys call fn = call fn" by (rule ext)+ (simp add: call_sys_def assms(3))
  show ?thesis
    unfolding syscall_handler_def check f bindr_Inr Let_def frame exit call arg_regs_def by (simp add: case_prod_unfold)
qed

lemma syscall_handler_panics:
  assumes "map_of (rev syscall_entries) (r_eax r) = None"
  shows "syscall_handler call boot_table r s = Inl Kernel_Panic"
  using boot_table_nth [of "r_eax r"] assms
  by (cases "r_eax r < 256") (simp_all add: syscall_handler_def syscall_check_def SYSCALL_SIZE_def call_sys_def not_le not_less)

text \<open>The stubs, by the number of their arguments.\<close>

lemma reaches_int80:
  assumes "\<And>r. r_eax (inputs r) = nr" "\<And>r. arg_regs (inputs r) = args @ drop (length args) (arg_regs r)"
    and "\<And>r ret. kept ((inputs r)\<lparr>r_eax := ret\<rparr>) = kept r"
    and "map_of (rev syscall_entries) nr = Some fn" "nr < 256" "fn \<noteq> fn_sys_default"
  shows "reaches (int80 inputs) fn args"
  unfolding reaches_def
proof (intro allI)
  fix call and r :: regs and s
  have "syscall_handler call boot_table (inputs r) s
    = bindr (call fn (args @ drop (length args) (arg_regs r)) s) (\<lambda>((ret, left), s). Inr ((inputs r)\<lparr>r_eax := ret\<rparr>, s))"
    using syscall_handler_call [of "inputs r" fn call s] assms(1,2,4-6) by simp
  then show "case call fn (args @ drop (length args) (arg_regs r)) s of
      Inl e \<Rightarrow> int80 inputs (syscall_handler call boot_table) r s = Inl e
    | Inr ((ret, left), s') \<Rightarrow> \<exists>r'. int80 inputs (syscall_handler call boot_table) r s = Inr (ret, r', s') \<and> kept r' = kept r"
    using assms(3) by (auto simp: int80_def bindr_def split: sum.splits)
qed

lemma reaches_stubs:
  assumes "map_of (rev syscall_entries) nr = Some fn" "nr < 256" "fn \<noteq> fn_sys_default"
  shows "reaches (syscall0 nr) fn []" "reaches (syscall1 nr a1) fn [a1]" "reaches (syscall2 nr a1 a2) fn [a1, a2]"
    "reaches (syscall3 nr a1 a2 a3) fn [a1, a2, a3]"
  unfolding syscall0_def syscall1_def syscall2_def syscall3_def
  by (rule reaches_int80 [OF _ _ _ assms]; simp add: arg_regs_def kept_def numeral_eq_Suc)+

lemma reaches_stub6:
  assumes "map_of (rev syscall_entries) nr = Some fn" "nr < 256" "fn \<noteq> fn_sys_default"
  shows "reaches (syscall6 nr a1 a2 a3 a4 a5 a6) fn [a1, a2, a3, a4, a5, a6]"
  unfolding reaches_def
proof (intro allI)
  fix call and r :: regs and s
  let ?r = "r\<lparr>r_eax := nr, r_ebx := a1, r_ecx := a2, r_edx := a3, r_esi := a4, r_edi := a5, r_ebp := a6\<rparr>"
  let ?args = "[a1, a2, a3, a4, a5, a6]"
  have a: "?args @ drop (length ?args) (arg_regs r) = ?args" by (simp add: arg_regs_def)
  have "syscall_handler call boot_table ?r s = bindr (call fn ?args s) (\<lambda>((ret, left), s). Inr (?r\<lparr>r_eax := ret\<rparr>, s))"
    using syscall_handler_call [of ?r fn call s] assms by (simp add: arg_regs_def)
  then show "case call fn (?args @ drop (length ?args) (arg_regs r)) s of
      Inl e \<Rightarrow> syscall6 nr a1 a2 a3 a4 a5 a6 (syscall_handler call boot_table) r s = Inl e
    | Inr ((ret, left), s') \<Rightarrow> \<exists>r'. syscall6 nr a1 a2 a3 a4 a5 a6 (syscall_handler call boot_table) r s = Inr (ret, r', s') \<and> kept r' = kept r"
    unfolding a by (auto simp: syscall6_def int80_def bindr_def kept_def split: sum.splits)
qed

text \<open>
  C33. Every system call arrives.  Each function of lib/syscall.c, with the table \<open>syscall_init\<close> leaves,
  reaches the function of the kernel its name stands for, with its arguments in order; it returns what
  that function returns, fails as it fails, and comes back to its place with the stack, the frame
  pointer and the segments as they were.  A trap with any other number panics.
\<close>
theorem syscalls_reach_kernel:
  "reaches usr_test fn_sys_test [] \<and>
   reaches (usr_exit status) fn_task_exit [status] \<and>
   reaches usr_fork fn_task_fork [] \<and>
   reaches (usr_waitpid pid status) fn_task_waitpid [pid, status] \<and>
   reaches (usr_execve filename argv envp) fn_sys_execve [filename, argv, envp] \<and>
   reaches usr_yield fn_task_yield [] \<and>
   reaches (usr_sleep ms) fn_task_sleep [ms] \<and>
   reaches usr_getpid fn_sys_getpid [] \<and>
   reaches usr_getppid fn_sys_getppid [] \<and>
   reaches (usr_brk addr) fn_sys_brk [addr] \<and>
   reaches (usr_mmap addr length' prot' flags fd offset) fn_sys_mmap [addr, length', prot', flags, fd, offset] \<and>
   reaches (usr_munmap addr length') fn_sys_munmap [addr, length'] \<and>
   reaches (usr_dup oldfd) fn_sys_dup [oldfd] \<and>
   reaches (usr_dup2 oldfd newfd) fn_sys_dup2 [oldfd, newfd] \<and>
   reaches (usr_pipe pipefd) fn_sys_pipe [pipefd] \<and>
   reaches (usr_open filename flags mode) fn_sys_open [filename, flags, mode] \<and>
   reaches (usr_creat filename mode) fn_sys_creat [filename, mode] \<and>
   reaches (usr_close fd) fn_sys_close [fd] \<and>
   reaches (usr_read fd buf len) fn_sys_read [fd, buf, len] \<and>
   reaches (usr_write fd buf len) fn_sys_write [fd, buf, len] \<and>
   reaches (usr_lseek fd offset whence) fn_sys_lseek [fd, offset, whence] \<and>
   reaches (usr_readdir fd dir count) fn_sys_readdir [fd, dir, count] \<and>
   reaches (usr_getcwd buf size') fn_sys_getcwd [buf, size'] \<and>
   reaches (usr_chdir pathname) fn_sys_chdir [pathname] \<and>
   reaches (usr_chroot pathname) fn_sys_chroot [pathname] \<and>
   reaches (usr_mkdir pathname mode) fn_sys_mkdir [pathname, mode] \<and>
   reaches (usr_rmdir pathname) fn_sys_rmdir [pathname] \<and>
   reaches (usr_link oldname newname) fn_sys_link [oldname, newname] \<and>
   reaches (usr_unlink filename) fn_sys_unlink [filename] \<and>
   reaches (usr_mount devname dirname flags) fn_sys_mount [devname, dirname, flags] \<and>
   reaches (usr_umount target) fn_sys_umount [target] \<and>
   reaches usr_time fn_sys_time [] \<and>
   reaches (usr_umask mask') fn_sys_umask [mask'] \<and>
   reaches usr_clear fn_console_clear [] \<and>
   reaches (usr_stat filename statbuf) fn_sys_stat [filename, statbuf] \<and>
   reaches (usr_fstat fd statbuf) fn_sys_fstat [fd, statbuf] \<and>
   reaches (usr_mknod filename mode dev) fn_sys_mknod [filename, mode, dev] \<and>
   reaches (usr_mkfs devname icount) fn_sys_mkfs [devname, icount]
   \<and> (r_eax r \<in> fst ` set syscall_entries \<or> syscall_handler call boot_table r s = Inl Kernel_Panic)"
proof -
  have "r_eax r \<in> fst ` set syscall_entries \<or> map_of (rev syscall_entries) (r_eax r) = None"
    by (simp add: map_of_eq_None_iff)
  then have panics: "r_eax r \<in> fst ` set syscall_entries \<or> syscall_handler call boot_table r s = Inl Kernel_Panic"
    using syscall_handler_panics [of r call s] by auto
  show ?thesis
    unfolding usr_defs
    by (intro conjI; (rule panics | (rule reaches_stubs reaches_stub6; simp add: syscall_entries_def syscall_numbers)))
qed

end
