(* ===== verification/Ylos_User.thy ===== *)
theory Ylos_User
  imports Ylos_File Ylos_Vsprintf Ylos_Time
begin

text \<open>
  User programs: lib/printf.c and the programs cat, dup, echo, env and init of builtin/.  A program is
  the tree of its system calls: at each call the kernel's answer chooses the branch.  Nothing is assumed
  of the kernel; a theorem names the answers it is about.  A loop without end takes fuel.
\<close>

section \<open>Programs\<close>

text \<open>The system calls the programs make, with the bytes of the strings and buffers they pass.\<close>

datatype sys =
    Do_Read u32 u32 | Do_Write u32 "u8 list" | Do_Open "u8 list option" u32 u32 | Do_Close u32
  | Do_Lseek u32 u32 u32 | Do_Readdir u32 | Do_Stat "u8 list" | Do_Dup2 u32 u32 | Do_Pipe | Do_Fork
  | Do_Waitpid u32 | Do_Execve "u8 list" "u8 list list option" "u8 list list option" | Do_Getpid | Do_Time
  | Do_Getcwd u32 | Do_Clear | Do_Chdir "u8 list option" | Do_Mkdir "u8 list option" u32 | Do_Rmdir "u8 list option"
  | Do_Unlink "u8 list option" | Do_Mount "u8 list option" "u8 list option" u32 | Do_Umount "u8 list option"
  | Do_Mkfs "u8 list option" u32

text \<open>An answer: the value, and what the kernel stores through the pointers of the call.\<close>

record answer =
  an_val :: u32
  an_bytes :: "u8 list"   \<comment> \<open>into the buffer of \<open>read\<close>, \<open>getcwd\<close>; the name of a directory entry\<close>
  an_word :: u32          \<comment> \<open>\<open>pipefd[0]\<close>, the status of \<open>waitpid\<close>, the number of a directory entry\<close>
  an_word2 :: u32         \<comment> \<open>\<open>pipefd[1]\<close>\<close>
  an_stat :: "stat_t option"

datatype 'a prog =
    Done 'a
  | Crash kerror          \<comment> \<open>the program accesses memory it does not have, or the fuel is used up\<close>
  | Exited u32            \<comment> \<open>\<open>exit(status)\<close>\<close>
  | Sys sys "answer \<Rightarrow> 'a prog"

primrec bindP :: "'a prog \<Rightarrow> ('a \<Rightarrow> 'b prog) \<Rightarrow> 'b prog" where
  "bindP (Done x) f = f x"
| "bindP (Crash e) f = Crash e"
| "bindP (Exited c) f = Exited c"
| "bindP (Sys s k) f = Sys s (\<lambda>a. bindP (k a) f)"

definition seqP :: "'a prog \<Rightarrow> 'b prog \<Rightarrow> 'b prog" where
  "seqP m k = bindP m (\<lambda>_. k)"

definition call :: "sys \<Rightarrow> answer prog" where
  "call s = Sys s Done"

definition liftP :: "'a result \<Rightarrow> 'a prog" where
  "liftP r = (case r of Inl e \<Rightarrow> Crash e | Inr x \<Rightarrow> Done x)"

definition whenP :: "bool \<Rightarrow> unit prog \<Rightarrow> unit prog" where
  "whenP b m = (if b then m else Done ())"

section \<open>The library\<close>

definition STDIN_FILENO :: u32 where "STDIN_FILENO = 0"
definition STDOUT_FILENO :: u32 where "STDOUT_FILENO = 1"
definition STDERR_FILENO :: u32 where "STDERR_FILENO = 2"

text \<open>What the kernel puts into a buffer, at its start.\<close>

definition overwrite :: "u8 list \<Rightarrow> u8 list \<Rightarrow> u8 list" where
  "overwrite buf bs = bs @ drop (length bs) buf"

text \<open>\<open>write\<close> of the first \<open>n\<close> bytes of a buffer.\<close>

definition write_bytes :: "u32 \<Rightarrow> u8 list \<Rightarrow> u32 \<Rightarrow> unit prog" where
  "write_bytes fd buf n =
     (if unat n \<le> length buf then seqP (call (Do_Write fd (take (unat n) buf))) (Done ()) else Crash Bad_Access)"

text \<open>The buffer of \<open>printf\<close> has 1024 bytes.\<close>

definition printf :: "u8 list \<Rightarrow> va_arg list \<Rightarrow> u32 prog" where
  "printf fmt args =
     bindP (liftP (vsprintf 1024 fmt args)) (\<lambda>(buf, _, i). seqP (write_bytes STDOUT_FILENO buf i) (Done i))"

text \<open>\<open>strftime\<close> stands in builtin/ls.c and in builtin/ysh.c.\<close>

definition strftime :: "u32 \<Rightarrow> u8 list result" where
  "strftime stamp =
     (let t = localtime stamp 0
      in bindr (vsprintf 1024 (lit ''%d-%02d-%02d %02d:%02d:%02d'')
           (map (\<lambda>x. Arg_Int (word_of_int x)) [tm_year t + 1900, tm_mon t, tm_mday t, tm_hour t, tm_min t, tm_sec t]))
           (\<lambda>(buf, _). Inr buf))"

section \<open>cat, dup, echo, env, init\<close>

fun cat_loop :: "nat \<Rightarrow> u32 \<Rightarrow> u8 list \<Rightarrow> unit prog" where
  "cat_loop 0 fd buf = Crash Diverges"
| "cat_loop (Suc n) fd buf =
     bindP (call (Do_Read fd 1024)) (\<lambda>a.
     if an_val a = EOF then Done ()
     else let buf = overwrite buf (an_bytes a)
          in seqP (write_bytes 1 buf (an_val a)) (cat_loop n fd buf))"

definition cat_main :: "nat \<Rightarrow> u8 list list \<Rightarrow> u32 prog" where
  "cat_main n argv =
     (if length argv < 2 then Done EOF
      else bindP (call (Do_Open (Some (argv ! 1)) O_RDONLY 0)) (\<lambda>a.
        if an_val a = EOF then seqP (printf (lit_line ''file %s not exists.'') [Arg_Str (argv ! 1)]) (Done EOF)
        else seqP (cat_loop n (an_val a) (replicate 1024 0)) (seqP (call (Do_Close (an_val a))) (Done 0))))"

text \<open>\<open>ch\<close> keeps its value when \<open>read\<close> stores nothing.\<close>

fun dup_loop :: "nat \<Rightarrow> u8 \<Rightarrow> unit prog" where
  "dup_loop 0 ch = Crash Diverges"
| "dup_loop (Suc n) ch =
     bindP (call (Do_Read STDIN_FILENO 1)) (\<lambda>a.
     if an_val a = EOF then Done ()
     else let ch = hd (an_bytes a @ [ch]) in
       if ch = 0x0a then write_bytes STDOUT_FILENO [ch] 1
       else seqP (write_bytes STDOUT_FILENO [ch] 1) (seqP (write_bytes STDOUT_FILENO [ch] 1) (dup_loop n ch)))"

definition dup_main :: "nat \<Rightarrow> u8 \<Rightarrow> u32 prog" where
  "dup_main n ch = seqP (dup_loop n ch) (Done 0)"

text \<open>\<open>echo\<close> gives each argument to \<open>printf\<close> as a format.\<close>

fun echo_args :: "u8 list list \<Rightarrow> unit prog" where
  "echo_args [] = Done ()"
| "echo_args (w # ws) =
     seqP (printf w []) (seqP (whenP (ws \<noteq> []) (seqP (printf (lit '' '') []) (Done ()))) (echo_args ws))"

definition echo_main :: "u8 list list \<Rightarrow> u32 prog" where
  "echo_main argv = seqP (echo_args (tl argv)) (seqP (printf (lit_line '''') []) (Done 0))"

fun env_args :: "u8 list list \<Rightarrow> unit prog" where
  "env_args [] = Done ()"
| "env_args (w # ws) = seqP (printf (lit_line ''%s'') [Arg_Str w]) (env_args ws)"

fun env_vars :: "u8 list list \<Rightarrow> unit prog" where
  "env_vars [] = Done ()"
| "env_vars (w # ws) =
     bindP (liftP (strlen w)) (\<lambda>len.
     seqP (whenP (\<not> 1022 \<le> len) (seqP (printf (lit_line ''%s'') [Arg_Str w]) (Done ()))) (env_vars ws))"

definition env_main :: "u8 list list \<Rightarrow> u8 list list \<Rightarrow> u32 prog" where
  "env_main argv envp = seqP (env_args argv) (seqP (env_vars envp) (Done 0))"

text \<open>\<open>status\<close> keeps its value when \<open>waitpid\<close> fails.\<close>

fun init_loop :: "nat \<Rightarrow> u32 \<Rightarrow> u32 prog" where
  "init_loop 0 status = Crash Diverges"
| "init_loop (Suc n) status =
     bindP (call Do_Fork) (\<lambda>p.
     if an_val p \<noteq> 0
     then bindP (call (Do_Waitpid (an_val p))) (\<lambda>w.
          let status = (if an_val w = EOF then status else an_word w)
          in bindP (call Do_Time) (\<lambda>t.
             seqP (printf (lit_line ''wait pid %d status %d %d'') [Arg_Int (an_val w), Arg_Int status, Arg_Int (an_val t)])
               (init_loop n status)))
     else bindP (call (Do_Execve (lit ''/bin/ysh.out'') None None)) (\<lambda>e.
          seqP (printf (lit_line ''execve /bin/ysh.out error %d'') [Arg_Int (an_val e)]) (Exited (an_val e))))"

definition init_main :: "nat \<Rightarrow> u32 \<Rightarrow> u32 prog" where
  "init_main n status =
     bindP (call Do_Getpid) (\<lambda>a.
     if an_val a \<noteq> 1 then seqP (printf (lit_line ''init already running...'') []) (Done 0) else init_loop n status)"

section \<open>Runs\<close>

text \<open>
  How a program goes over a kernel: \<open>os\<close> gives the answer to a call and its new state, or \<open>None\<close> for a
  call that does not come back.  The result has how each child and the program itself ended, with the
  states; a child starts at its \<open>fork\<close>, with the state from before and the answer 0.
\<close>

datatype 'a ending = Returns 'a | Crashes kerror | Exits u32 | Gone sys

primrec forget :: "'a ending \<Rightarrow> unit ending" where
  "forget (Returns x) = Returns ()"
| "forget (Crashes e) = Crashes e"
| "forget (Exits c) = Exits c"
| "forget (Gone c) = Gone c"

type_synonym ('s, 'a) outcome = "(unit ending \<times> 's) list \<times> 'a ending \<times> 's"

primrec run :: "('s \<Rightarrow> sys \<Rightarrow> (answer \<times> 's) option) \<Rightarrow> 'a prog \<Rightarrow> 's \<Rightarrow> ('s, 'a) outcome" where
  "run os (Done x) = (\<lambda>s. ([], Returns x, s))"
| "run os (Crash e) = (\<lambda>s. ([], Crashes e, s))"
| "run os (Exited c) = (\<lambda>s. ([], Exits c, s))"
| "run os (Sys c k) = (\<lambda>s. case os s c of
       None \<Rightarrow> ([], Gone c, s)
     | Some (a, t) \<Rightarrow>
         (let (cs, r, u) = run os (k a) t;
              (ds, q, v) = run os (k (a\<lparr>an_val := 0\<rparr>)) s
          in (if c = Do_Fork then (forget q, v) # ds @ cs else cs, r, u)))"

lemma liftP_simps [simp]: "liftP (Inr x) = Done x" "liftP (Inl e) = Crash e"
  by (simp_all add: liftP_def)

lemma call_bind [simp]: "bindP (call c) f = Sys c f"
  by (simp add: call_def)

lemma call_seq [simp]: "seqP (call c) k = Sys c (\<lambda>_. k)"
  by (simp add: seqP_def)

lemma seqP_simps [simp]: "seqP (Done x) k = k" "seqP (Sys c f) k = Sys c (\<lambda>a. seqP (f a) k)" "seqP (Crash e) k = Crash e"
  by (simp_all add: seqP_def)

lemma whenP_simps [simp]: "whenP True m = m" "whenP False m = Done ()"
  by (simp_all add: whenP_def)

lemma bindP_assoc: "bindP (bindP m f) g = bindP m (\<lambda>x. bindP (f x) g)"
  by (induction m) auto

lemma bindP_seqP: "bindP (seqP m k) g = seqP m (bindP k g)"
  by (simp add: seqP_def bindP_assoc)

lemma run_Sys: "os s c = Some (a, t) \<Longrightarrow> c \<noteq> Do_Fork \<Longrightarrow> run os (Sys c k) s = run os (k a) t"
  by (simp split: prod.splits)

lemma run_Fork:
  "os s Do_Fork = Some (a, t) \<Longrightarrow> run os (k a) t = (cs, r, u) \<Longrightarrow> run os (k (a\<lparr>an_val := 0\<rparr>)) s = (ds, q, v) \<Longrightarrow>
   run os (Sys Do_Fork k) s = ((forget q, v) # ds @ cs, r, u)"
  by simp

lemma run_Gone: "os s c = None \<Longrightarrow> run os (Sys c k) s = ([], Gone c, s)"
  by simp

text \<open>A sequence: the children must not come back to what follows in their parent.\<close>

lemma forget_Returns [simp]: "forget r = Returns () \<longleftrightarrow> (\<exists>x. r = Returns x)"
  by (cases r) simp_all

definition all_end :: "(unit ending \<times> 's) list \<Rightarrow> bool" where
  "all_end cs \<longleftrightarrow> Returns () \<notin> fst ` set cs"

lemma all_end_simps [simp]:
  "all_end []" "all_end ((e, s) # cs) \<longleftrightarrow> e \<noteq> Returns () \<and> all_end cs" "all_end (cs @ ds) \<longleftrightarrow> all_end cs \<and> all_end ds"
  by (auto simp: all_end_def)

lemma run_bind_ends:
  "run os m s = (cs, r, t) \<Longrightarrow> all_end cs \<Longrightarrow> forget r \<noteq> Returns () \<Longrightarrow>
   \<exists>q. run os (bindP m k) s = (cs, q, t) \<and> forget q = forget r"
proof (induction m arbitrary: s cs r t)
  case (Sys c f)
  show ?case
  proof (cases "os s c")
    case None
    with Sys.prems show ?thesis by auto
  next
    case (Some at)
    then obtain a t' where os: "os s c = Some (a, t')" by (cases at) auto
    obtain cs1 r1 u1 where 1: "run os (f a) t' = (cs1, r1, u1)" by (cases "run os (f a) t'") auto
    obtain cs2 r2 u2 where 2: "run os (f (a\<lparr>an_val := 0\<rparr>)) s = (cs2, r2, u2)" by (cases "run os (f (a\<lparr>an_val := 0\<rparr>)) s") auto
    have e: "r = r1" "t = u1" "cs = (if c = Do_Fork then (forget r2, u2) # cs2 @ cs1 else cs1)" using Sys.prems(1) os 1 2 by auto
    obtain q where q: "run os (bindP (f a) k) t' = (cs1, q, u1)" "forget q = forget r1"
      using Sys.IH [OF rangeI 1] Sys.prems(2,3) e by (auto split: if_splits)
    show ?thesis
    proof (cases "c = Do_Fork")
      case True
      obtain q2 where "run os (bindP (f (a\<lparr>an_val := 0\<rparr>)) k) s = (cs2, q2, u2)" "forget q2 = forget r2"
        using Sys.IH [OF rangeI 2] Sys.prems(2) e True by auto
      with q os e True show ?thesis by auto
    next
      case False
      with q os e show ?thesis by (auto split: prod.splits)
    qed
  qed
qed auto

lemma run_bind:
  "run os m s = (cs, Returns x, t) \<Longrightarrow> all_end cs \<Longrightarrow> run os (k x) t = (ds, r, u) \<Longrightarrow> run os (bindP m k) s = (cs @ ds, r, u)"
proof (induction m arbitrary: s cs t)
  case (Sys c f)
  show ?case
  proof (cases "os s c")
    case None
    with Sys.prems show ?thesis by auto
  next
    case (Some at)
    then obtain a t' where os: "os s c = Some (a, t')" by (cases at) auto
    obtain cs1 r1 u1 where 1: "run os (f a) t' = (cs1, r1, u1)" by (cases "run os (f a) t'") auto
    obtain cs2 r2 u2 where 2: "run os (f (a\<lparr>an_val := 0\<rparr>)) s = (cs2, r2, u2)" by (cases "run os (f (a\<lparr>an_val := 0\<rparr>)) s") auto
    have e: "r1 = Returns x" "t = u1" "cs = (if c = Do_Fork then (forget r2, u2) # cs2 @ cs1 else cs1)"
      using Sys.prems(1) os 1 2 by auto
    have q: "run os (bindP (f a) k) t' = (cs1 @ ds, r, u)"
      using Sys.IH [OF rangeI, of a t' cs1 u1] Sys.prems(2,3) 1 e by (auto split: if_splits)
    show ?thesis
    proof (cases "c = Do_Fork")
      case True
      obtain q2 where "run os (bindP (f (a\<lparr>an_val := 0\<rparr>)) k) s = (cs2, q2, u2)" "forget q2 = forget r2"
        using run_bind_ends [OF 2, of k] Sys.prems(2) e True by auto
      with q os e True show ?thesis by auto
    next
      case False
      with q os e show ?thesis by (auto split: prod.splits)
    qed
  qed
qed auto

lemma run_seq:
  "run os m s = (cs, Returns x, t) \<Longrightarrow> all_end cs \<Longrightarrow> run os k t = (ds, r, u) \<Longrightarrow> run os (seqP m k) s = (cs @ ds, r, u)"
  unfolding seqP_def by (rule run_bind)

section \<open>cat copies\<close>

text \<open>A kernel that serves the pieces of a file one by one and collects what is written.\<close>

definition reply :: "u32 \<Rightarrow> answer" where
  "reply v = \<lparr>an_val = v, an_bytes = [], an_word = 0, an_word2 = 0, an_stat = None\<rparr>"

fun serve :: "u8 list list \<times> u8 list \<Rightarrow> sys \<Rightarrow> (answer \<times> u8 list list \<times> u8 list) option" where
  "serve ([], out) (Do_Read fd n) = Some (reply EOF, [], out)"
| "serve (c # cs, out) (Do_Read fd n) = Some ((reply (of_nat (length c)))\<lparr>an_bytes := c\<rparr>, cs, out)"
| "serve (cs, out) (Do_Write fd bs) = Some (reply (of_nat (length bs)), cs, out @ bs)"
| "serve s c = Some (reply 3, s)"

lemma reply_val [simp]: "an_val (reply v) = v" by (simp add: reply_def)

lemma cat_loop_copies:
  "list_all (\<lambda>c. length c \<le> 1024) cs \<Longrightarrow> length buf = 1024 \<Longrightarrow> length cs < n \<Longrightarrow>
   run serve (seqP (cat_loop n fd buf) k) (cs, out) = run serve k ([], out @ concat cs)"
proof (induction cs arbitrary: n buf out)
  case Nil
  then obtain m where "n = Suc m" by (cases n) auto
  then show ?case by (simp add: run_Sys [where t = "([], out)"] del: run.simps)
next
  case (Cons c cs)
  then obtain m where n: "n = Suc m" by (cases n) auto
  have c: "length c \<le> 1024" using Cons.prems(1) by simp
  then have ne: "(of_nat (length c) :: u32) \<noteq> EOF" "unat (of_nat (length c) :: u32) = length c"
    by (auto simp: word_unat_eq_iff)
  have "run serve (seqP (cat_loop m fd (overwrite buf c)) k) (cs, out @ c) = run serve k ([], out @ c @ concat cs)"
    using Cons.IH [of "overwrite buf c" m "out @ c"] Cons.prems n c by (simp add: overwrite_def)
  then show ?case using ne c
    by (simp add: n run_Sys [where t = "(cs, out)"] run_Sys [where t = "(cs, out @ c)"] write_bytes_def overwrite_def Let_def
        Cons.prems(2) del: run.simps)
qed

lemma cat_copies:
  assumes "list_all (\<lambda>c. length c \<le> 1024) cs"
  shows "run serve (cat_main (Suc (length cs)) [prog, path]) (cs, []) = ([], Returns 0, [], concat cs)"
proof -
  have "(3 :: u32) \<noteq> EOF" by (simp add: EOF_def)
  then have "run serve (cat_main (Suc (length cs)) [prog, path]) (cs, []) =
    run serve (seqP (cat_loop (Suc (length cs)) 3 (replicate 1024 0)) (Sys (Do_Close 3) (\<lambda>_. Done 0))) (cs, [])"
    by (simp add: cat_main_def run_Sys [where t = "(cs, [])"] del: run.simps cat_loop.simps)
  also have "\<dots> = run serve (Sys (Do_Close 3) (\<lambda>_. Done 0)) ([], concat cs)"
    by (subst cat_loop_copies [OF assms]) (simp_all del: run.simps)
  also have "\<dots> = ([], Returns 0, [], concat cs)" by simp
  finally show ?thesis .
qed

end
