(* ===== verification/Ylos_Ls.thy ===== *)
theory Ylos_Ls
  imports Ylos_User
begin

text \<open>builtin/ls.c: listing a directory.\<close>

section \<open>The lines of ls\<close>

definition IFIFO :: u16 where "IFIFO = 0x1000"
definition IFLNK :: u16 where "IFLNK = 0xa000"
definition IFSOCK :: u16 where "IFSOCK = 0xc000"

definition file_type_char :: "u16 \<Rightarrow> u8" where
  "file_type_char mode =
     (let fmt = mode AND IFMT
      in if fmt = IFREG then 0x2d else if fmt = IFBLK then 0x62 else if fmt = IFDIR then 0x64
         else if fmt = IFCHR then 0x63 else if fmt = IFIFO then 0x70 else if fmt = IFLNK then 0x6c
         else if fmt = IFSOCK then 0x73 else 0x3f)"

text \<open>One round of the loop over the three groups of permission bits, at \<open>ptr\<close>.\<close>

definition mode_group :: "u8 list \<Rightarrow> nat \<Rightarrow> u16 \<Rightarrow> nat \<Rightarrow> u8 list result" where
  "mode_group buf ptr mode i =
     (let fmt = drop_bit i mode AND 7
      in bindr (if fmt AND 4 \<noteq> 0 then store_at buf ptr 0x72 else Inr buf) (\<lambda>buf.
         bindr (if fmt AND 2 \<noteq> 0 then store_at buf (ptr + 1) 0x77 else Inr buf) (\<lambda>buf.
         if fmt AND 1 \<noteq> 0 then store_at buf (ptr + 2) 0x78 else Inr buf)))"

definition parsemode :: "u16 \<Rightarrow> u8 list \<Rightarrow> u8 list result" where
  "parsemode mode buf =
     bindr (memset buf 0x2d 10) (\<lambda>buf.
     bindr (store_at buf 10 0) (\<lambda>buf.
     bindr (store_at buf 0 (file_type_char mode)) (\<lambda>buf.
     bindr (mode_group buf 1 mode 6) (\<lambda>buf.
     bindr (mode_group buf 4 mode 3) (\<lambda>buf. mode_group buf 7 mode 0)))))"

definition qualifies :: "u8 list" where
  "qualifies = [0x42, 0x4b, 0x4d, 0x47, 0x54]"

text \<open>The loop divides by 1024 with an arithmetic shift; it stops at 0 or behind the end of \<open>qualifies\<close>.\<close>

function reckon_loop :: "u32 \<Rightarrow> nat \<Rightarrow> u32 \<Rightarrow> u8 \<Rightarrow> (u32 \<times> u8) result" where
  "reckon_loop num i size' qualifer =
     (if num = 0 then Inr (size', qualifer)
      else if length qualifies \<le> i then Inl Bad_Access
      else reckon_loop (signed_drop_bit 10 num) (Suc i) num (qualifies ! i))"
  by auto
termination by (relation "measure (\<lambda>(_, i, _). length qualifies - i)") auto

definition reckon_size :: "u32 \<Rightarrow> (u32 \<times> u8) result" where
  "reckon_size size' = reckon_loop size' 0 size' 0x42"

text \<open>One entry of the directory that is shown: the program, with the static buffer.\<close>

definition ls_long :: "u8 list \<Rightarrow> u8 list \<Rightarrow> u8 list prog" where
  "ls_long name buf =
     bindP (call (Do_Stat name)) (\<lambda>a. case an_stat a of
       None \<Rightarrow> Crash Bad_Access
     | Some st \<Rightarrow>
         bindP (liftP (parsemode (st_mode st) buf)) (\<lambda>buf.
         bindP (printf (lit ''%s '') [Arg_Str buf]) (\<lambda>_.
         bindP (liftP (strftime (st_ctime st))) (\<lambda>time.
         let buf = overwrite buf time in
         bindP (liftP (reckon_size (st_size st))) (\<lambda>(size', qualifier).
         bindP (printf (lit_line ''% 2d % 2d % 2d % 4d%c %s %s'')
           [Arg_Int (ucast (st_nlinks st)), Arg_Int (ucast (st_uid st)), Arg_Int (ucast (st_gid st)), Arg_Int size',
            Arg_Int (scast qualifier), Arg_Str buf, Arg_Str name]) (\<lambda>_.
         Done buf))))))"

text \<open>The loop over the directory; \<open>readdir\<close> gives the number of the inode and the name.\<close>

fun ls_loop :: "nat \<Rightarrow> u32 \<Rightarrow> bool \<Rightarrow> u8 list \<Rightarrow> unit prog" where
  "ls_loop 0 fd long buf = Crash Diverges"
| "ls_loop (Suc n) fd long buf =
     bindP (call (Do_Readdir fd)) (\<lambda>a.
     if an_val a = EOF then Done ()
     else if an_word a = 0 then ls_loop n fd long buf
     else bindP (liftP (strcmp (an_bytes a) (lit ''.''))) (\<lambda>d1.
          bindP (if d1 = 0 then Done 0 else liftP (strcmp (an_bytes a) (lit ''..''))) (\<lambda>d2.
          if d2 = 0 then ls_loop n fd long buf
          else if \<not> long then seqP (printf (lit ''%s '') [Arg_Str (an_bytes a)]) (ls_loop n fd long buf)
          else bindP (ls_long (an_bytes a) buf) (ls_loop n fd long))))"

definition ls_main :: "nat \<Rightarrow> u8 list list \<Rightarrow> u32 prog" where
  "ls_main n argv =
     bindP (call (Do_Open (Some (lit ''.'')) O_RDONLY 0)) (\<lambda>a.
     if an_val a = EOF then Done EOF
     else bindP (if length argv = 2 then bindP (liftP (strcmp (argv ! 1) (lit ''-l''))) (\<lambda>d. Done (d = 0)) else Done False) (\<lambda>long.
          seqP (call (Do_Lseek (an_val a) 0 SEEK_SET))
          (seqP (ls_loop n (an_val a) long (replicate 1024 0))
          (seqP (whenP (\<not> long) (seqP (printf (lit_line '''') []) (Done ())))
          (seqP (call (Do_Close (an_val a))) (Done 0))))))"

section \<open>Sizes\<close>

declare reckon_loop.simps [simp del]

text \<open>The unit of a size: how often 1024 divides it before it is below 1024.\<close>

definition size_unit :: "nat \<Rightarrow> nat" where
  "size_unit n = (if n < 1024 then 0 else if n < 1024 ^ 2 then 1 else if n < 1024 ^ 3 then 2 else 3)"

lemma sint_shift: "sint (signed_drop_bit 10 w) = sint w div 1024" for w :: u32
  by (simp add: sint_signed_drop_bit_eq drop_bit_eq_div)

lemma sint_zero: "w = 0 \<longleftrightarrow> sint w = 0" for w :: u32
  by (metis signed_0 signed_word_eqI)

lemma reckon_step:
  "sint num \<noteq> 0 \<Longrightarrow> i < 5 \<Longrightarrow> reckon_loop num i s q = reckon_loop (signed_drop_bit 10 num) (Suc i) num (qualifies ! i)"
  "sint num = 0 \<Longrightarrow> reckon_loop num i s q = Inr (s, q)"
  "sint num \<noteq> 0 \<Longrightarrow> reckon_loop num 5 s q = Inl Bad_Access"
  by (subst reckon_loop.simps, simp add: sint_zero qualifies_def)+

lemma reckon_runs:
  "1024 ^ k \<le> sint num \<Longrightarrow> sint num < 1024 ^ Suc k \<Longrightarrow> i + k < 5 \<Longrightarrow>
   \<exists>w. sint w = sint num div 1024 ^ k \<and> reckon_loop num i s q = Inr (w, qualifies ! (i + k))"
proof (induction k arbitrary: num i s q)
  case 0
  then have "sint (signed_drop_bit 10 num) = 0" by (simp add: sint_shift)
  with 0 show ?case by (simp add: reckon_step)
next
  case (Suc k)
  have "1024 ^ k \<le> sint num div 1024" using zdiv_mono1 [OF Suc.prems(1), of 1024] by simp
  moreover have "sint num div 1024 < 1024 ^ Suc k" using Suc.prems(2) by (simp add: div_less_iff_less_mult)
  ultimately obtain w where w: "sint w = sint num div 1024 div 1024 ^ k"
    "reckon_loop (signed_drop_bit 10 num) (Suc i) num (qualifies ! i) = Inr (w, qualifies ! (Suc i + k))"
    using Suc.IH [of "signed_drop_bit 10 num" "Suc i" num "qualifies ! i"] Suc.prems(3) by (auto simp: sint_shift)
  have "0 < (1024::int) ^ Suc k" by simp
  then have "sint num \<noteq> 0" using Suc.prems(1) by linarith
  then show ?case using w Suc.prems(3) reckon_step(1) [of num i s q] by (auto simp: zdiv_zmult2_eq)
qed

lemma reckon_negative: "sint num < 0 \<Longrightarrow> i + k = 5 \<Longrightarrow> reckon_loop num i s q = Inl Bad_Access"
proof (induction k arbitrary: num i s q)
  case 0
  then show ?case by (simp add: reckon_step)
next
  case (Suc k)
  have "sint (signed_drop_bit 10 num) < 0" using Suc.prems(1) by (simp add: sint_shift)
  from Suc.IH [OF this, of "Suc i"] Suc.prems show ?case using reckon_step(1) [of num i s q] by simp
qed

text \<open>
  C39. \<open>ls\<close> counts sizes in units, and its loop ends.  For a size below 2 GiB \<open>reckon_size\<close> returns the
  size in the largest of the units B, K, M and G in which it is at least 1, rounded down; a size whose
  word is negative as an \<open>int\<close> stays negative under the shift, and the loop ends behind the table of units.
\<close>
theorem reckon_size_units:
  "reckon_size size' = (if sint size' < 0 then Inl Bad_Access
     else Inr (of_nat (nat (sint size') div 1024 ^ size_unit (nat (sint size'))), qualifies ! size_unit (nat (sint size'))))"
proof -
  let ?n = "sint size'"
  have top: "?n < 1024 ^ 4" using sint_lt [of size'] by simp
  have unit: "reckon_size size' = Inr (of_nat (nat ?n div 1024 ^ k), qualifies ! k)"
    if a: "1024 ^ k \<le> ?n" and b: "?n < 1024 ^ Suc k" and c: "k < 5" for k
  proof -
    obtain w where w: "sint w = ?n div 1024 ^ k" "reckon_loop size' 0 size' 0x42 = Inr (w, qualifies ! k)"
      using reckon_runs [where i = 0 and s = size' and q = "0x42", OF a b] c by auto
    have "0 < (1024::int) ^ k" by simp
    with a have "0 \<le> ?n" by linarith
    then have "?n div 1024 ^ k = int (nat ?n div 1024 ^ k)" by (simp add: zdiv_int)
    moreover have "w = word_of_int (sint w)" by simp
    ultimately have "w = of_nat (nat ?n div 1024 ^ k)" using w(1) by simp
    then show ?thesis using w(2) by (simp add: reckon_size_def)
  qed
  consider "?n < 0" | "?n = 0" | "1024 ^ 0 \<le> ?n" "?n < 1024 ^ Suc 0" | "1024 ^ 1 \<le> ?n" "?n < 1024 ^ Suc 1"
    | "1024 ^ 2 \<le> ?n" "?n < 1024 ^ Suc 2" | "1024 ^ 3 \<le> ?n" "?n < 1024 ^ Suc 3" using top by fastforce
  then show ?thesis
  proof cases
    case 1
    then show ?thesis using reckon_negative [where num = size' and i = 0 and k = 5 and s = size' and q = "0x42"] by (simp add: reckon_size_def)
  next
    case 2
    then have "size' = 0" by (simp add: sint_zero)
    then show ?thesis by (simp add: reckon_size_def reckon_step size_unit_def qualifies_def)
  next
    case 3
    then have "size_unit (nat ?n) = 0" by (simp add: size_unit_def)
    with unit [of 0] 3 show ?thesis by simp
  next
    case 4
    then have "size_unit (nat ?n) = 1" by (simp add: size_unit_def nat_less_iff power2_eq_square)
    with unit [of 1] 4 show ?thesis by simp
  next
    case 5
    then have "size_unit (nat ?n) = 2" by (simp add: size_unit_def nat_less_iff power2_eq_square power3_eq_cube)
    with unit [of 2] 5 show ?thesis by simp
  next
    case 6
    then have "size_unit (nat ?n) = 3" by (simp add: size_unit_def nat_less_iff power2_eq_square power3_eq_cube)
    with unit [of 3] 6 show ?thesis by simp
  qed
qed

end
