(* ===== verification/Ylos_Ysh.thy ===== *)
theory Ylos_Ysh
  imports Ylos_Shell Ylos_User
begin

text \<open>
  The rest of the shell, builtin/ysh.c: the prompt, the commands it has, redirections and pipelines.  A
  pointer into the command or to an argument is the bytes from there on, \<open>NULL\<close> is \<open>None\<close>.  Where
  \<open>dupfile\<close> ends without a \<open>return\<close> the value its caller sees is the parameter \<open>ub\<close>.
\<close>

section \<open>The prompt and the commands of the shell\<close>

type_synonym args = "u8 list option list"

definition basename :: "u8 list \<Rightarrow> nat result" where
  "basename name = bindr (strrsep name) (\<lambda>ptr. case ptr of
       None \<Rightarrow> Inl Bad_Access
     | Some p \<Rightarrow> bindr (load_at name (p + 1)) (\<lambda>c. Inr (if c = 0 then p else p + 1)))"

definition MAX_PATH_LEN :: u32 where "MAX_PATH_LEN = 1024"

definition print_prompt :: "u8 list \<Rightarrow> u8 list prog" where
  "print_prompt cwd =
     bindP (call (Do_Getcwd MAX_PATH_LEN)) (\<lambda>a.
     let cwd = overwrite cwd (an_bytes a) in
     bindP (liftP (strrsep cwd)) (\<lambda>ptr.
     bindP (case ptr of None \<Rightarrow> Crash Bad_Access | Some p \<Rightarrow> Done (if p \<noteq> 0 then cwd[p := 0] else cwd)) (\<lambda>cwd.
     bindP (liftP (basename cwd)) (\<lambda>base.
     seqP (printf (lit ''[Welcome@ylos: %s]# '') [Arg_Str (drop base cwd)]) (Done cwd)))))"

definition ylos_logo :: "u8 list" where
  "ylos_logo = concat (map (\<lambda>l. map of_char l @ [0x0a])
     [''                          ___   ____    __  ____ '',
      ''                          '' @ [CHR 0x5c] @ ''  '' @ [CHR 0x5c] @ '' / / |   / _'' @ [CHR 0x5c] @ ''/ ___|'',
      ''                            '' @ [CHR 0x5c] @ '' V /| |  | | | '' @ [CHR 0x5c] @ ''___'',
      ''                             | | | |__| |_| ___ )'',
      ''                             |_| |_____'' @ [CHR 0x5c] @ ''__/|____/'']) @ [0]"

definition builtin_logo :: "unit prog" where
  "builtin_logo = seqP (call Do_Clear) (seqP (printf ylos_logo []) (Done ()))"

definition builtin_test :: "unit prog" where
  "builtin_test = seqP (printf (lit_line ''ysh test starting...'') []) (Done ())"

definition builtin_pwd :: "u8 list \<Rightarrow> u8 list prog" where
  "builtin_pwd cwd =
     bindP (call (Do_Getcwd MAX_PATH_LEN)) (\<lambda>a.
     let cwd = overwrite cwd (an_bytes a) in seqP (printf (lit_line ''%s'') [Arg_Str cwd]) (Done cwd))"

definition builtin_clear :: "unit prog" where
  "builtin_clear = seqP (call Do_Clear) (Done ())"

text \<open>The commands that hand their arguments to the kernel.\<close>

definition builtin_cd :: "args \<Rightarrow> unit prog" where
  "builtin_cd argv = bindP (liftP (load_at argv 1)) (\<lambda>p. seqP (call (Do_Chdir p)) (Done ()))"

definition with_arg :: "nat \<Rightarrow> args \<Rightarrow> (u8 list option \<Rightarrow> sys) \<Rightarrow> unit prog" where
  "with_arg argc argv f =
     (if argc < 2 then Done () else bindP (liftP (load_at argv 1)) (\<lambda>p. seqP (call (f p)) (Done ())))"

definition builtin_mkdir :: "nat \<Rightarrow> args \<Rightarrow> unit prog" where
  "builtin_mkdir argc argv = with_arg argc argv (\<lambda>p. Do_Mkdir p 0x1ed)"

definition builtin_rmdir :: "nat \<Rightarrow> args \<Rightarrow> unit prog" where
  "builtin_rmdir argc argv = with_arg argc argv Do_Rmdir"

definition builtin_rm :: "nat \<Rightarrow> args \<Rightarrow> unit prog" where
  "builtin_rm argc argv = with_arg argc argv Do_Unlink"

definition builtin_date :: "u8 list \<Rightarrow> u8 list prog" where
  "builtin_date buf =
     bindP (call Do_Time) (\<lambda>t.
     bindP (liftP (strftime (an_val t))) (\<lambda>txt.
     let buf = overwrite buf txt in seqP (printf (lit_line ''%s'') [Arg_Str buf]) (Done buf)))"

definition builtin_mount :: "nat \<Rightarrow> args \<Rightarrow> unit prog" where
  "builtin_mount argc argv =
     (if argc < 3 then Done ()
      else bindP (liftP (load_at argv 1)) (\<lambda>p. bindP (liftP (load_at argv 2)) (\<lambda>q.
           seqP (call (Do_Mount p q 0)) (Done ()))))"

definition builtin_umount :: "nat \<Rightarrow> args \<Rightarrow> unit prog" where
  "builtin_umount argc argv = with_arg argc argv Do_Umount"

definition builtin_mkfs :: "nat \<Rightarrow> args \<Rightarrow> unit prog" where
  "builtin_mkfs argc argv = with_arg argc argv (\<lambda>p. Do_Mkfs p 0)"

section \<open>Redirections\<close>

record redir =
  rd_in :: "u8 list option"
  rd_out :: "u8 list option"
  rd_err :: "u8 list option"
  rd_outappend :: u32
  rd_errappend :: u32

text \<open>\<open>!strcmp(argv[i], s)\<close>\<close>

definition word_is :: "args \<Rightarrow> nat \<Rightarrow> string \<Rightarrow> bool result" where
  "word_is argv i s =
     bindr (load_at argv i) (\<lambda>p. case p of
       None \<Rightarrow> Inl Bad_Access
     | Some w \<Rightarrow> bindr (strcmp w (lit s)) (\<lambda>d. Inr (d = 0)))"

text \<open>
  One \<open>if\<close> of the loop: when word \<open>i\<close> is the operator and has a word behind it, that word, with what it
  means; else the \<open>if\<close>s after it.
\<close>

definition try_op ::
    "nat \<Rightarrow> args \<Rightarrow> nat \<Rightarrow> string \<Rightarrow> (u8 list option \<Rightarrow> redir \<Rightarrow> redir) \<Rightarrow> redir \<Rightarrow> redir option result \<Rightarrow> redir option result" where
  "try_op argc argv i s f rd other =
     bindr (word_is argv i s) (\<lambda>m.
     if m \<and> i + 1 < argc then bindr (load_at argv (i + 1)) (\<lambda>w. Inr (Some (f w rd))) else other)"

definition redirect :: "nat \<Rightarrow> args \<Rightarrow> nat \<Rightarrow> redir \<Rightarrow> redir option result" where
  "redirect argc argv i rd =
     try_op argc argv i ''<'' (\<lambda>w. rd_in_update (\<lambda>_. w)) rd
     (try_op argc argv i ''>'' (\<lambda>w. rd_out_update (\<lambda>_. w)) rd
     (try_op argc argv i ''>>'' (\<lambda>w rd. rd\<lparr>rd_out := w, rd_outappend := O_APPEND\<rparr>) rd
     (try_op argc argv i ''2>'' (\<lambda>w. rd_err_update (\<lambda>_. w)) rd
     (try_op argc argv i ''2>>'' (\<lambda>w rd. rd\<lparr>rd_err := w, rd_errappend := O_APPEND\<rparr>) rd (Inr None)))))"

function dup_scan :: "nat \<Rightarrow> nat \<Rightarrow> args \<Rightarrow> redir \<Rightarrow> (args \<times> redir) result" where
  "dup_scan argc i argv rd =
     (if \<not> i < argc then Inr (argv, rd)
      else bindr (redirect argc argv i rd) (\<lambda>r. case r of
             None \<Rightarrow> dup_scan argc (i + 1) argv rd
           | Some rd \<Rightarrow> bindr (store_at argv i None) (\<lambda>argv. dup_scan argc (i + 2) argv rd)))"
  by auto
termination by (relation "measure (\<lambda>(argc, i, _). argc - i)") auto

declare dup_scan.simps [simp del]

text \<open>One file: \<open>None\<close> when the code goes to \<open>rollback\<close>.\<close>

definition open_slot :: "u8 list option \<Rightarrow> u32 \<Rightarrow> nat \<Rightarrow> u32 list \<Rightarrow> (bool \<times> u32 list) prog" where
  "open_slot file flags k fds = (case file of
       None \<Rightarrow> Done (True, fds)
     | Some path \<Rightarrow>
         bindP (call (Do_Open (Some path) flags 0x1ed)) (\<lambda>a.
         if an_val a = EOF then seqP (printf (lit_line ''open file %s failure'') [Arg_Str path]) (Done (False, fds))
         else Done (True, fds[k := an_val a])))"

fun rollback :: "u32 list \<Rightarrow> unit prog" where
  "rollback [] = Done ()"
| "rollback (fd # rest) = seqP (if fd \<noteq> EOF then call (Do_Close fd) else Done (reply 0)) (rollback rest)"

fun open_slots :: "(u8 list option \<times> u32) list \<Rightarrow> nat \<Rightarrow> u32 list \<Rightarrow> (bool \<times> u32 list) prog" where
  "open_slots [] k fds = Done (True, fds)"
| "open_slots ((file, flags) # fs) k fds =
     bindP (open_slot file flags k fds) (\<lambda>(good, fds). if good then open_slots fs (k + 1) fds else Done (False, fds))"

definition dupfile :: "u32 \<Rightarrow> nat \<Rightarrow> args \<Rightarrow> (u32 \<times> args \<times> u32 list) prog" where
  "dupfile ub argc argv =
     bindP (liftP (dup_scan argc 0 argv
       \<lparr>rd_in = None, rd_out = None, rd_err = None, rd_outappend = 0, rd_errappend = 0\<rparr>)) (\<lambda>(argv, rd).
     bindP (open_slots [(rd_in rd, O_RDONLY OR rd_outappend rd OR O_CREAT), (rd_out rd, O_WRONLY OR rd_outappend rd OR O_CREAT),
       (rd_err rd, O_WRONLY OR rd_errappend rd OR O_CREAT)] 0 [EOF, EOF, EOF]) (\<lambda>(good, fds).
     if good then Done (0, argv, fds) else seqP (rollback fds) (Done (ub, argv, fds))))"

section \<open>Commands and pipelines\<close>

definition close_if :: "u32 \<Rightarrow> unit prog" where
  "close_if fd = whenP (fd \<noteq> EOF) (seqP (call (Do_Close fd)) (Done ()))"

definition redirect_fd :: "u32 \<Rightarrow> u32 \<Rightarrow> unit prog" where
  "redirect_fd fd std = whenP (fd \<noteq> EOF) (seqP (call (Do_Dup2 fd std)) (seqP (call (Do_Close fd)) (Done ())))"

text \<open>The words that \<open>execve\<close> takes from a pointer into the arguments: up to NULL.\<close>

definition arg_words :: "args \<Rightarrow> nat option \<Rightarrow> u8 list list option" where
  "arg_words argv p = map_option (\<lambda>k. map the (takeWhile (\<lambda>w. w \<noteq> None) (drop k argv))) p"

definition envp :: "u8 list list" where
  "envp = [lit ''HOME=/'', lit ''PATH=/bin'']"

definition builtin_command :: "u8 list \<Rightarrow> args \<Rightarrow> nat option \<Rightarrow> u32 \<Rightarrow> u32 \<Rightarrow> u32 \<Rightarrow> u32 prog" where
  "builtin_command filename argv bargv infd outfd errfd =
     bindP (call Do_Fork) (\<lambda>p.
     if an_val p \<noteq> 0 then seqP (close_if infd) (seqP (close_if outfd) (seqP (close_if errfd) (Done (an_val p))))
     else seqP (redirect_fd infd STDIN_FILENO) (seqP (redirect_fd outfd STDOUT_FILENO) (seqP (redirect_fd errfd STDERR_FILENO)
       (bindP (call (Do_Execve filename (arg_words argv bargv) (Some envp))) (\<lambda>e. Exited (an_val e))))))"

record exec_st =
  ex_p :: bool
  ex_bargv :: "nat option"
  ex_name :: nat
  ex_buf :: "u8 list"
  ex_argv :: args
  ex_infd :: u32
  ex_count :: nat

text \<open>
  The three parts of the loop's body: a word behind a command, a bar, the name of a command.  \<open>Inl buf\<close>
  is the early \<open>return\<close>.
\<close>

definition exec_bar :: "nat \<Rightarrow> exec_st \<Rightarrow> exec_st prog" where
  "exec_bar i x =
     bindP (liftP (store_at (ex_argv x) i None)) (\<lambda>argv.
     bindP (call Do_Pipe) (\<lambda>a.
     bindP (builtin_command (drop (ex_name x) (ex_buf x)) argv (ex_bargv x) (ex_infd x) (an_word2 a) EOF) (\<lambda>_.
     bindP (liftP (strlen (drop (ex_name x) (ex_buf x)))) (\<lambda>len.
     Done (x\<lparr>ex_p := True, ex_name := ex_name x + (len + 1), ex_argv := argv, ex_infd := an_word a, ex_count := ex_count x + 1\<rparr>)))))"

definition exec_name :: "nat \<Rightarrow> u8 list \<Rightarrow> exec_st \<Rightarrow> (u8 list + exec_st) prog" where
  "exec_name i w x =
     bindP (liftP (vsprintf (1024 - ex_name x) (lit ''/bin/%s.out'') [Arg_Str w])) (\<lambda>(txt, _).
     let buf = take (ex_name x) (ex_buf x) @ overwrite (drop (ex_name x) (ex_buf x)) txt in
     bindP (call (Do_Stat (drop (ex_name x) buf))) (\<lambda>a.
     if an_val a = EOF then seqP (printf (lit_line ''ysh: command not found: %s'') [Arg_Str w]) (Done (Inl buf))
     else Done (Inr (x\<lparr>ex_p := False, ex_bargv := Some (i + 1), ex_buf := buf\<rparr>))))"

fun exec_loop :: "nat \<Rightarrow> nat \<Rightarrow> exec_st \<Rightarrow> (u8 list + exec_st) prog" where
  "exec_loop 0 i x = Done (Inr x)"
| "exec_loop (Suc n) i x =
     bindP (liftP (load_at (ex_argv x) i)) (\<lambda>p. case p of
       None \<Rightarrow> exec_loop n (i + 1) x
     | Some w \<Rightarrow>
         if \<not> ex_p x
         then bindP (liftP (word_is (ex_argv x) i ''|'')) (\<lambda>bar.
              if bar then bindP (exec_bar i x) (\<lambda>x. exec_loop n (i + 1) x) else exec_loop n (i + 1) x)
         else bindP (exec_name i w x) (\<lambda>r. case r of
                Inl buf \<Rightarrow> Done (Inl buf)
              | Inr x \<Rightarrow> exec_loop n (i + 1) x))"

fun wait_all :: "nat \<Rightarrow> unit prog" where
  "wait_all 0 = Done ()"
| "wait_all (Suc n) = seqP (call (Do_Waitpid EOF)) (wait_all n)"

definition builtin_exec :: "u32 \<Rightarrow> nat \<Rightarrow> args \<Rightarrow> u8 list \<Rightarrow> u8 list prog" where
  "builtin_exec ub argc argv buf =
     bindP (dupfile ub argc argv) (\<lambda>(r, argv, fds).
     if r = EOF then Done buf
     else bindP (exec_loop argc 0 \<lparr>ex_p = True, ex_bargv = None, ex_name = 0, ex_buf = buf, ex_argv = argv,
                   ex_infd = fds ! 0, ex_count = 0\<rparr>) (\<lambda>res. case res of
            Inl buf \<Rightarrow> Done buf
          | Inr x \<Rightarrow>
              bindP (builtin_command (drop (ex_name x) (ex_buf x)) (ex_argv x) (ex_bargv x) (ex_infd x) (fds ! 1) (fds ! 2)) (\<lambda>_.
              seqP (wait_all (ex_count x + 1)) (Done (ex_buf x)))))"

section \<open>Executing a line\<close>

record shell =
  sh_cwd :: "u8 list"
  sh_cmd :: "u8 list"
  sh_args :: "nat option list"
  sh_buf :: "u8 list"

definition cmd_if :: "args \<Rightarrow> string \<Rightarrow> 'a prog \<Rightarrow> 'a prog \<Rightarrow> 'a prog" where
  "cmd_if argv s m other = bindP (liftP (word_is argv 0 s)) (\<lambda>b. if b then m else other)"

definition builtin_exit :: "nat \<Rightarrow> args \<Rightarrow> 'a prog" where
  "builtin_exit argc argv =
     bindP (if argc = 2 then bindP (liftP (load_at argv 1)) (\<lambda>p. liftP (atoi p)) else Done 0) Exited"

definition execute :: "u32 \<Rightarrow> nat \<Rightarrow> args \<Rightarrow> shell \<Rightarrow> shell prog" where
  "execute ub argc argv sh =
     cmd_if argv ''test'' (seqP builtin_test (Done sh))
     (cmd_if argv ''logo'' (seqP builtin_logo (Done sh))
     (cmd_if argv ''pwd'' (bindP (builtin_pwd (sh_cwd sh)) (\<lambda>cwd. Done (sh\<lparr>sh_cwd := cwd\<rparr>)))
     (cmd_if argv ''clear'' (seqP builtin_clear (Done sh))
     (cmd_if argv ''exit'' (builtin_exit argc argv)
     (cmd_if argv ''cd'' (seqP (builtin_cd argv) (Done sh))
     (cmd_if argv ''mkdir'' (seqP (builtin_mkdir argc argv) (Done sh))
     (cmd_if argv ''rmdir'' (seqP (builtin_rmdir argc argv) (Done sh))
     (cmd_if argv ''rm'' (seqP (builtin_rm argc argv) (Done sh))
     (cmd_if argv ''date'' (bindP (builtin_date (sh_buf sh)) (\<lambda>buf. Done (sh\<lparr>sh_buf := buf\<rparr>)))
     (cmd_if argv ''mount'' (seqP (builtin_mount argc argv) (Done sh))
     (cmd_if argv ''umount'' (seqP (builtin_umount argc argv) (Done sh))
     (cmd_if argv ''mkfs'' (seqP (builtin_mkfs argc argv) (Done sh))
     (bindP (builtin_exec ub argc argv (sh_buf sh)) (\<lambda>buf. Done (sh\<lparr>sh_buf := buf\<rparr>)))))))))))))))"

text \<open>\<open>readline\<close> with its calls of the kernel; Ylos_Shell follows it over a given input.\<close>

fun read_line :: "nat \<Rightarrow> u8 list \<Rightarrow> u32 \<Rightarrow> u32 \<Rightarrow> u8 list prog" where
  "read_line 0 buf idx count = Crash Diverges"
| "read_line (Suc n) buf idx count =
     (if \<not> idx < count then liftP (store_at buf (unat idx) 0)
      else bindP (call (Do_Read STDIN_FILENO 1)) (\<lambda>a.
           if an_val a = - 1 then liftP (store_at buf (unat idx) 0)
           else bindP (liftP (load_at buf (unat idx))) (\<lambda>old.
                let c = hd (an_bytes a @ [old]) in
                bindP (liftP (store_at buf (unat idx) c)) (\<lambda>buf.
                if c = chr_nl \<or> c = chr_cr
                then bindP (liftP (store_at buf (unat idx) 0)) (\<lambda>buf. seqP (write_bytes STDOUT_FILENO [c] 1) (Done buf))
                else if c = chr_bs
                then bindP (liftP (load_at buf 0)) (\<lambda>first.
                     if first \<noteq> chr_bs then seqP (write_bytes STDOUT_FILENO [chr_bs] 1) (read_line n buf (idx - 1) count)
                     else read_line n buf idx count)
                else if c = chr_tab then read_line n buf idx count
                else seqP (write_bytes STDOUT_FILENO [c] 1) (read_line n buf (idx + 1) count)))))"

text \<open>One round of \<open>main\<close>: a line is read, taken apart and executed.\<close>

definition ysh_round :: "u32 \<Rightarrow> nat \<Rightarrow> shell \<Rightarrow> shell prog" where
  "ysh_round ub fuel sh =
     bindP (print_prompt (sh_cwd sh)) (\<lambda>cwd.
     bindP (read_line fuel (sh_cmd sh) 0 MAX_CMD_LEN) (\<lambda>cmd.
     let sh = sh\<lparr>sh_cwd := cwd, sh_cmd := cmd\<rparr> in
     bindP (liftP (load_at cmd 0)) (\<lambda>c.
     if c = 0 then Done sh
     else bindP (liftP (cmd_parse cmd (sh_args sh))) (\<lambda>(cmd, argv, argc).
          let sh = sh\<lparr>sh_cmd := cmd, sh_args := argv\<rparr> in
          if MAX_ARG_NR \<le> argc then Done sh
          else execute ub argc (map (map_option (\<lambda>p. drop p cmd)) argv) sh))))"

fun ysh_loop :: "u32 \<Rightarrow> nat \<Rightarrow> nat \<Rightarrow> shell \<Rightarrow> u32 prog" where
  "ysh_loop ub 0 fuel sh = Crash Diverges"
| "ysh_loop ub (Suc n) fuel sh = bindP (ysh_round ub fuel sh) (ysh_loop ub n fuel)"

definition ysh_main :: "u32 \<Rightarrow> nat \<Rightarrow> nat \<Rightarrow> u32 prog" where
  "ysh_main ub n fuel =
     seqP builtin_logo
       (ysh_loop ub n fuel \<lparr>sh_cwd = replicate 1024 0, sh_cmd = replicate 256 0, sh_args = replicate 16 None,
          sh_buf = replicate 1024 0\<rparr>)"

text \<open>Over a terminal that delivers the input, \<open>read_line\<close> is \<open>readline\<close>.\<close>

fun terminal :: "u8 option list \<times> u8 list \<Rightarrow> sys \<Rightarrow> (answer \<times> u8 option list \<times> u8 list) option" where
  "terminal ([], out) (Do_Read fd n) = None"
| "terminal (None # input, out) (Do_Read fd n) = Some (reply EOF, input, out)"
| "terminal (Some c # input, out) (Do_Read fd n) = Some ((reply 1)\<lparr>an_bytes := [c]\<rparr>, input, out)"
| "terminal (input, out) (Do_Write fd bs) = Some (reply (of_nat (length bs)), input, out @ bs)"
| "terminal s c = Some (reply 0, s)"

lemma read_line_readline:
  "readline_loop buf idx count input out = Inr (buf', out', input') \<Longrightarrow> length input < n \<Longrightarrow>
   run terminal (read_line n buf idx count) (input, out) = ([], Returns buf', input', out')"
proof (induction buf idx count input out arbitrary: n rule: readline_loop.induct)
  case (1 buf idx count input out)
  then obtain m where n: "n = Suc m" by (cases n) auto
  show ?case
  proof (cases "idx < count")
    case False
    with 1(5) show ?thesis by (subst (asm) readline_loop.simps) (auto simp: n bindr_Inr_iff)
  next
    case idx: True
    show ?thesis
    proof (cases input)
      case Nil
      with 1(5) idx show ?thesis by (subst (asm) readline_loop.simps) simp
    next
      case (Cons i rest)
      show ?thesis
      proof (cases i)
        case None
        with 1(5) idx Cons show ?thesis by (subst (asm) readline_loop.simps) (auto simp: n bindr_Inr_iff EOF_def)
      next
        case (Some c)
        from 1(5) idx Cons Some obtain buf1 where s: "store_at buf (unat idx) c = Inr buf1"
          by (subst (asm) readline_loop.simps) (auto simp: bindr_Inr_iff)
        then have len: "unat idx < length buf" by (simp add: store_at_def split: if_splits)
        have l1: "(1 :: u32) \<noteq> - 1" by simp
        note r = 1(5) [unfolded readline_loop.simps [of buf idx]]
        consider "c = chr_nl \<or> c = chr_cr" | "c = chr_bs" | "c = chr_tab"
          | "\<not> (c = chr_nl \<or> c = chr_cr)" "c \<noteq> chr_bs" "c \<noteq> chr_tab" by blast
        then show ?thesis
        proof cases
          case 1
          with r idx Cons Some s len show ?thesis by (auto simp: n write_bytes_def bindr_Inr_iff)
        next
          case 2
          then have c: "\<not> (c = chr_nl \<or> c = chr_cr)" by (simp add: chr_bs_def chr_nl_def chr_cr_def)
          from r idx Cons Some s 2 c obtain first where f: "load_at buf1 0 = Inr first" by (auto simp: bindr_Inr_iff)
          show ?thesis
          proof (cases "first = chr_bs")
            case True
            with 1(2) [OF _ Cons Some s c 2 f] r idx Cons Some s len c 2 f 1(6) show ?thesis
              by (simp add: n)
          next
            case False
            with 1(1) [OF _ Cons Some s c 2 f] r idx Cons Some s len c 2 f 1(6) show ?thesis
              by (simp add: n write_bytes_def)
          qed
        next
          case 3
          then have c: "\<not> (c = chr_nl \<or> c = chr_cr)" "c \<noteq> chr_bs" by (simp_all add: chr_bs_def chr_nl_def chr_cr_def chr_tab_def)
          with 1(3) [OF _ Cons Some s c 3] r idx Cons Some s len 3 1(6) show ?thesis by (simp add: n)
        next
          case 4
          with 1(4) [OF _ Cons Some s 4] r idx Cons Some s len 1(6) show ?thesis by (simp add: n write_bytes_def)
        qed
      qed
    qed
  qed
qed

end
