(* ===== verification/Ylos_Fd.thy ===== *)
theory Ylos_Fd
  imports Ylos_User
begin

text \<open>
  The descriptors of a task as a program sees them: a table of sixteen files and the calls that change it.
  \<open>kernel_agrees\<close> shows that \<open>sys_open\<close>, \<open>sys_close\<close>, \<open>sys_dup2\<close>, \<open>sys_pipe\<close> and \<open>sys_stat\<close> of Ylos_File
  do to the task and the file table what \<open>desc_os\<close> does to its table, and \<open>fork_agrees\<close> that a child of
  \<open>task_fork\<close> starts with the descriptors of its parent.
\<close>

section \<open>Descriptors\<close>

datatype file_obj = Inherited nat | Opened "u8 list" u32 | Read_End nat | Write_End nat

record desc =
  d_files :: "file_obj option list"
  d_pipes :: nat      \<comment> \<open>pipes made so far\<close>
  d_forks :: nat      \<comment> \<open>children started\<close>
  d_waits :: nat      \<comment> \<open>children waited for\<close>

text \<open>What a run finds outside the table: which files there are, the numbers of its children.\<close>

record kernel_env =
  ke_commands :: "u8 list \<Rightarrow> bool"            \<comment> \<open>the paths that \<open>stat\<close> finds\<close>
  ke_opens :: "u8 list \<Rightarrow> u32 \<Rightarrow> bool"        \<comment> \<open>the paths that \<open>open\<close> opens with these flags\<close>
  ke_pid :: "nat \<Rightarrow> u32"                      \<comment> \<open>the \<open>n\<close>-th child\<close>
  ke_wait :: "nat \<Rightarrow> u32"                     \<comment> \<open>what the \<open>n\<close>-th \<open>waitpid\<close> returns\<close>
  ke_answer :: "sys \<Rightarrow> answer"                \<comment> \<open>the answers to the calls that are not about descriptors\<close>

text \<open>\<open>task_get_fd\<close>; the kernel panics when the table is full.\<close>

definition new_fd :: "file_obj option list \<Rightarrow> nat option" where
  "new_fd fs = (let i = free_fd (drop 3 fs) 3 in if i = TASK_FILE_NR then None else Some i)"

text \<open>A C string.\<close>

definition cstring :: "u8 list \<Rightarrow> u8 list" where
  "cstring p = takeWhile (\<lambda>c. c \<noteq> 0) p"

text \<open>
  The calls over the table; \<open>None\<close> where the kernel panics or the call does not come back.  \<open>open\<close>
  answers -1 without a file, \<open>dup2\<close> without an open \<open>oldfd\<close>, after it has closed \<open>newfd\<close>.
\<close>

fun desc_os :: "kernel_env \<Rightarrow> desc \<Rightarrow> sys \<Rightarrow> (answer \<times> desc) option" where
  "desc_os E d (Do_Open None flags mode) = None"
| "desc_os E d (Do_Open (Some p) flags mode) =
     (if \<not> ke_opens E (cstring p) flags then Some (reply EOF, d)
      else case new_fd (d_files d) of
        None \<Rightarrow> None
      | Some i \<Rightarrow> Some (reply (of_nat i), d\<lparr>d_files := (d_files d)[i := Some (Opened (cstring p) flags)]\<rparr>))"
| "desc_os E d (Do_Close fd) =
     (if unat fd < TASK_FILE_NR then Some (reply 0, d\<lparr>d_files := (d_files d)[unat fd := None]\<rparr>) else None)"
| "desc_os E d (Do_Dup2 oldfd newfd) =
     (if unat newfd < TASK_FILE_NR
      then let fs = (d_files d)[unat newfd := None] in
           if int TASK_FILE_NR \<le> sint oldfd then Some (reply EOF, d\<lparr>d_files := fs\<rparr>)
           else if sint oldfd < 0 then None
           else case fs ! unat oldfd of
                  None \<Rightarrow> Some (reply EOF, d\<lparr>d_files := fs\<rparr>)
                | Some x \<Rightarrow> Some (reply newfd, d\<lparr>d_files := fs[unat newfd := Some x]\<rparr>)
      else None)"
| "desc_os E d Do_Pipe = (case new_fd (d_files d) of
       None \<Rightarrow> None
     | Some i \<Rightarrow> let fs = (d_files d)[i := Some (Read_End (d_pipes d))] in (case new_fd fs of
         None \<Rightarrow> None
       | Some j \<Rightarrow> Some ((reply 0)\<lparr>an_word := of_nat i, an_word2 := of_nat j\<rparr>,
                        d\<lparr>d_files := fs[j := Some (Write_End (d_pipes d))], d_pipes := d_pipes d + 1\<rparr>)))"
| "desc_os E d Do_Fork = Some (reply (ke_pid E (d_forks d)), d\<lparr>d_forks := d_forks d + 1\<rparr>)"
| "desc_os E d (Do_Waitpid pid) = Some (reply (ke_wait E (d_waits d)), d\<lparr>d_waits := d_waits d + 1\<rparr>)"
| "desc_os E d (Do_Stat path) = Some (reply (if ke_commands E (cstring path) then 0 else EOF), d)"
| "desc_os E d (Do_Execve file argv env) = None"
| "desc_os E d c = Some (ke_answer E c, d)"

section \<open>Calls that leave the descriptors alone\<close>

text \<open>Whatever the file system does for a path or an inode, the task and the file table stay as they are.\<close>

definition quiet :: "('w fs_t, 'a) op \<Rightarrow> bool" where
  "quiet m \<longleftrightarrow> (\<forall>s x t. m s = Inr (x, t) \<longrightarrow> fs_task t = fs_task s \<and> fs_files t = fs_files s)"

named_theorems quiet_rules "operations that keep the task and the file table"

lemma quietD: "quiet m \<Longrightarrow> m s = Inr (x, t) \<Longrightarrow> fs_task t = fs_task s \<and> fs_files t = fs_files s"
  by (simp add: quiet_def)

lemma quiet_basic [quiet_rules]:
  "quiet (ret x)" "quiet (failM e)" "quiet (getM f)" "quiet (liftM r)" "quiet (assertM b)"
  by (auto simp: quiet_def liftM_def bindr_Inr_iff assertM_iff split: if_splits)

lemma quiet_modM: "(\<And>s. fs_task (f s) = fs_task s \<and> fs_files (f s) = fs_files s) \<Longrightarrow> quiet (modM f)"
  by (simp add: quiet_def)

lemma quiet_bindM [quiet_rules]: "quiet m \<Longrightarrow> (\<And>x. quiet (f x)) \<Longrightarrow> quiet (bindM m f)"
  unfolding quiet_def bindM_Inr_iff by metis

lemma quiet_seqM [quiet_rules]: "quiet m \<Longrightarrow> quiet k \<Longrightarrow> quiet (seqM m k)"
  unfolding seqM_def by (rule quiet_bindM)

lemma quiet_whenM [quiet_rules]: "quiet m \<Longrightarrow> quiet (whenM b m)"
  by (simp add: whenM_def quiet_basic)

lemma quiet_if [quiet_rules]: "quiet m \<Longrightarrow> quiet k \<Longrightarrow> quiet (if b then m else k)"
  by simp

lemma quiet_cond: "(b \<Longrightarrow> quiet m) \<Longrightarrow> (\<not> b \<Longrightarrow> quiet k) \<Longrightarrow> quiet (if b then m else k)"
  by simp

lemma quiet_option [quiet_rules]: "quiet m \<Longrightarrow> (\<And>x. quiet (f x)) \<Longrightarrow> quiet (case r of None \<Rightarrow> m | Some x \<Rightarrow> f x)"
  by (cases r) simp_all

lemma quiet_prod [quiet_rules]: "(\<And>x y. quiet (f x y)) \<Longrightarrow> quiet (case r of (x, y) \<Rightarrow> f x y)"
  by (cases r) simp

lemma quiet_nat [quiet_rules]: "quiet m \<Longrightarrow> (\<And>k. quiet (f k)) \<Longrightarrow> quiet (case n of 0 \<Rightarrow> m | Suc k \<Rightarrow> f k)"
  by (cases n) simp_all

lemma quiet_Let [quiet_rules]: "quiet (f x) \<Longrightarrow> quiet (Let x f)"
  by simp

lemma quiet_do_all_Nil [quiet_rules]: "quiet (do_all [])"
  by (simp add: quiet_basic)

lemma quiet_do_all_Cons [quiet_rules]: "quiet m \<Longrightarrow> quiet (do_all ms) \<Longrightarrow> quiet (do_all (m # ms))"
  by (simp add: quiet_seqM)

lemma quiet_devs [quiet_rules]: "quiet (devs m)"
  by (auto simp: quiet_def devs_def bindr_Inr_iff)

lemma quiet_tables [quiet_rules]:
  "quiet (buf_at b)" "quiet (upd_buf b f)" "quiet (inode_at i)" "quiet (upd_inode i g)" "quiet (super_at i)" "quiet (upd_super i h)"
  by (simp_all add: buf_at_def upd_buf_def inode_at_def upd_inode_def super_at_def upd_super_def quiet_rules quiet_modM)

lemma quiet_bytes [quiet_rules]:
  "quiet (set_dirty b)" "quiet (load8 b off)" "quiet (store8 b off v8)" "quiet (load16 b off)" "quiet (store16 b off v16)"
  "quiet (load32 b off)" "quiet (store32 b off v32)"
  by (simp_all add: set_dirty_def load8_def store8_def load16_def store16_def load32_def store32_def quiet_rules)

lemma quiet_desc [quiet_rules]:
  "quiet (desc8 i off)" "quiet (desc16 i off)" "quiet (desc32 i off)" "quiet (set_desc8 i off v8)"
  "quiet (set_desc16 i off v16)" "quiet (set_desc32 i off v32)" "quiet (super16 i off)"
  by (simp_all add: desc8_def desc16_def desc32_def set_desc8_def set_desc16_def set_desc32_def super16_def quiet_rules)

lemma quiet_fields [quiet_rules]:
  "quiet (imode i)" "quiet (iuid i)" "quiet (isize i)" "quiet (inlinks i)" "quiet (izone i k)" "quiet (set_imode i v16)"
  "quiet (set_isize i v32)" "quiet (set_imtime i v32)" "quiet (set_inlinks i v8)" "quiet (set_izone i k v16)" "quiet (inode_dirty i)"
  by (simp_all add: imode_def iuid_def isize_def inlinks_def izone_def set_imode_def set_isize_def set_imtime_def set_inlinks_def
      set_izone_def inode_dirty_def quiet_rules)

lemma quiet_links [quiet_rules]: "quiet (modM (\<lambda>s. s\<lparr>fs_links := h\<rparr>))" "quiet (modM (\<lambda>s. s\<lparr>fs_heap := g\<rparr>))"
  by (simp_all add: quiet_modM)

lemma quiet_buffers [quiet_rules]:
  "quiet (get_from_hash_table dev block)" "quiet (hash_locate b)" "quiet (hash_remove b)" "quiet get_new_buffer" "quiet (bwrite b)"
  by (simp_all add: get_from_hash_table_def hash_locate_def hash_remove_def get_new_buffer_def bwrite_def quiet_rules quiet_modM)

lemma quiet_fnode [quiet_rules]:
  "(\<And>b. quiet (f b)) \<Longrightarrow> quiet m \<Longrightarrow> quiet (case n of Rnode b \<Rightarrow> f b | _ \<Rightarrow> m)"
  by (cases n) simp_all

lemma quiet_get_free_buffer [quiet_rules]: "quiet get_free_buffer"
  unfolding get_free_buffer_def by (intro quiet_rules)

lemma quiet_getblk [quiet_rules]: "quiet (getblk dev block)" "quiet (bread dev block)" "quiet (brelse buf)"
  unfolding getblk_def bread_def brelse_def by (intro quiet_rules)+

section \<open>Blocks and inodes\<close>

lemma quiet_supers [quiet_rules]: "quiet (get_super dev)" "quiet (the_super dev)" "quiet (map_buf maps i)" "quiet (bwrite_opt buf)"
  unfolding get_super_def the_super_def map_buf_def bwrite_opt_def by (intro quiet_rules)+

lemma quiet_maps [quiet_rules]: "quiet (scan_map b len off)" "quiet (clear_map b len off idx)"
  unfolding scan_map_def clear_map_def by (intro quiet_rules)+

lemma quiet_alloc_loop [quiet_rules]: "quiet (alloc_loop maps len base zones n i buf)"
  by (induction n arbitrary: i buf) (simp_all add: quiet_rules)

lemma quiet_free_loop [quiet_rules]: "quiet (free_loop maps len base idx n i)"
  by (induction n arbitrary: i) (simp_all add: quiet_rules)

lemma quiet_alloc [quiet_rules]: "quiet (balloc dev)" "quiet (ialloc dev)" "quiet (bfree dev idx)" "quiet (ifree dev idx)"
  unfolding balloc_def ialloc_def bfree_def ifree_def by (intro quiet_rules)+

lemma quiet_bmap_walk [quiet_rules]: "quiet (bmap_walk dev create level buf base index block divider)"
proof (induction level arbitrary: buf base index block divider)
  case 0
  show ?case unfolding bmap_walk.simps [of _ _ 0] Let_def nat.case by (intro quiet_rules)
next
  case (Suc l)
  show ?case unfolding bmap_walk.simps [of _ _ "Suc l"] Let_def nat.case by (intro quiet_rules Suc.IH)
qed

lemma quiet_bmap [quiet_rules]: "quiet (bmap i block create)"
  unfolding bmap_def by (intro quiet_rules)

lemma quiet_inode_table [quiet_rules]:
  "quiet get_free_inode" "quiet (put_free_inode i)" "quiet get_pipe_inode" "quiet (put_pipe_inode i)" "quiet (inode_block sb nr)"
  "quiet (find_inode dev nr)"
  unfolding get_free_inode_def put_free_inode_def get_pipe_inode_def put_pipe_inode_def inode_block_def find_inode_def
  by (intro quiet_rules)+

lemma quiet_iput [quiet_rules]: "quiet (iput i)"
  unfolding iput_def by (intro quiet_rules)

lemma quiet_iget [quiet_rules]: "quiet (fit_inode i)" "quiet (iget dev nr)"
  unfolding fit_inode_def iget_def by (intro quiet_rules)+

lemma quiet_new_inode [quiet_rules]: "quiet (new_inode dev nr)"
  unfolding new_inode_def by (intro quiet_rules)

lemma quiet_inode_bfree:
  "quiet (inode_bfree i level b base index :: ('w fs_t, unit) op)" "quiet (bfree_entries i level b k n :: ('w fs_t, unit) op)"
proof (induction i level b base index and i level b k n rule: inode_bfree_bfree_entries.induct)
  case (2 i level b base index)
  show ?case unfolding inode_bfree.simps
    by (intro quiet_bindM quiet_seqM quiet_tables quiet_bytes quiet_cond quiet_getblk quiet_alloc quiet_basic) (rule 2)
qed (simp_all add: quiet_rules, simp add: quiet_def)

lemma quiet_truncate [quiet_rules]: "quiet (truncate_direct i k n)" "quiet (inode_truncate i)"
proof -
  show t: "quiet (truncate_direct i k n)" for k n
    by (induction n arbitrary: k) (simp_all add: quiet_rules quiet_inode_bfree)
  show "quiet (inode_truncate i)" unfolding inode_truncate_def by (intro quiet_rules quiet_inode_bfree t)
qed

section \<open>Paths\<close>

lemma quiet_permission [quiet_rules]: "quiet (permission i msk)"
  unfolding permission_def by (intro quiet_rules)

lemma quiet_find_loop [quiet_rules]: "quiet (find_loop dir name nxt n i buf off)"
proof (induction n arbitrary: nxt i buf off)
  case 0
  show ?case unfolding find_loop.simps by (intro quiet_rules)
next
  case (Suc n)
  show ?case unfolding find_loop.simps by (intro quiet_rules Suc.IH)
qed

lemma quiet_find_entry [quiet_rules]: "quiet (find_entry dir name nxt)"
  unfolding find_entry_def by (intro quiet_rules)

lemma quiet_add_loop [quiet_rules]: "quiet (add_loop fuel dir name i buf off)"
proof (induction fuel arbitrary: i buf off)
  case 0
  show ?case unfolding add_loop.simps by (intro quiet_rules)
next
  case (Suc fuel)
  show ?case unfolding add_loop.simps by (intro quiet_rules Suc.IH)
qed

lemma quiet_add_entry [quiet_rules]: "quiet (add_entry dir name)"
  unfolding add_entry_def by (intro quiet_rules)

lemma quiet_enter [quiet_rules]: "quiet (enter inode b off)"
  unfolding enter_def by (intro quiet_rules)

lemma named_loop_quiet:
  "named_loop inode left right buf s = Some r \<Longrightarrow>
   \<forall>x t. r = Inr (x, t) \<longrightarrow> fs_task t = fs_task s \<and> fs_files t = fs_files s"
proof (induction inode left right buf s r rule: named_loop.raw_induct [rotated, consumes 1, case_names step])
  case (step nl inode left right buf s r)
  have q1: "quiet (seqM (brelse buf) (find_entry inode left left))" by (intro quiet_rules)
  show ?case
  proof (cases "seqM (brelse buf) (find_entry inode left left) s")
    case (Inr w)
    obtain i e nx s1 where w: "w = ((i, e, nx), s1)" by (cases w) auto
    have s1: "fs_task s1 = fs_task s \<and> fs_files s1 = fs_files s" using quietD [OF q1 Inr [unfolded w]] .
    show ?thesis
    proof (cases e)
      case None
      have "quiet (seqM (iput (Some i)) (ret (None :: nat option, nx)))" by (intro quiet_rules)
      then show ?thesis using step.hyps s1 by (auto simp: Inr w None dest: quietD)
    next
      case (Some bo)
      obtain b off where bo: "bo = (b, off)" by (cases bo)
      show ?thesis
      proof (cases "enter i b off s1")
        case Inl
        then show ?thesis using step.hyps by (auto simp: Inr w Some bo)
      next
        case ent: (Inr v)
        obtain i2 ok s2 where v: "v = ((i2, ok), s2)" by (cases v) auto
        have s2: "fs_task s2 = fs_task s \<and> fs_files s2 = fs_files s"
          using quietD [OF quiet_enter ent [unfolded v]] s1 by simp
        have q2: "quiet (seqM (brelse (Some b)) (seqM (iput (Some i2)) (ret (None :: nat option, nx))))"
          "quiet (seqM (brelse (Some b)) (ret (Some i2, nx)))" by (intro quiet_rules)+
        show ?thesis using step.hyps s2 q2 step.IH [of i2 nx right "Some b" s2]
          by (auto simp: Inr w Some bo ent v dest: quietD split: if_splits)
      qed
    qed
  qed (use step.hyps in auto)
qed

lemma quiet_loop [quiet_rules]: "quiet (\<lambda>s. returned (named_loop inode left right buf s))"
  by (auto simp: quiet_def returned_def split: option.splits dest: named_loop_quiet)

lemma quiet_named [quiet_rules]: "quiet (named path)"
  unfolding named_def by (intro quiet_rules)

lemma quiet_namei [quiet_rules]: "quiet (namei path)"
  unfolding namei_def by (intro quiet_rules)

lemma quiet_open_makeup [quiet_rules]: "quiet (open_makeup dir b i flag)"
  unfolding open_makeup_def by (intro quiet_rules)

lemma quiet_inode_open: "quiet (inode_open path flag mode)"
  unfolding inode_open_def by (intro quiet_rules)

lemma quiet_stat: "quiet (sys_stat path)"
  unfolding sys_stat_def copy_stat_def by (intro quiet_rules)

section \<open>The table and the kernel's files\<close>

text \<open>
  \<open>tab \<alpha> cs fs D\<close>: the table \<open>D\<close> shows the descriptors \<open>fs\<close> of a task, where \<open>\<alpha>\<close> says what the entries of
  the file table are.  The count of an entry that the task has open, in \<open>cs\<close>, covers the descriptors of
  the task; the rest are those of other tasks and stay far from the width of the count.
\<close>

definition refs :: "nat \<Rightarrow> nat option list \<Rightarrow> nat" where
  "refs f fs = count_list fs (Some f)"

definition covered :: "u32 list \<Rightarrow> nat option list \<Rightarrow> nat \<Rightarrow> bool" where
  "covered cs fs f \<longleftrightarrow> f < length cs \<and> refs f fs \<le> unat (cs ! f) \<and> unat (cs ! f) + 16 < 2 ^ 32 + refs f fs"

definition tab :: "(nat \<Rightarrow> file_obj) \<Rightarrow> u32 list \<Rightarrow> nat option list \<Rightarrow> file_obj option list \<Rightarrow> bool" where
  "tab \<alpha> cs fs D \<longleftrightarrow> length fs = 16 \<and> D = map (map_option \<alpha>) fs \<and> (\<forall>f. Some f \<in> set fs \<longrightarrow> covered cs fs f)"

definition counts :: "'w fs_t \<Rightarrow> u32 list" where
  "counts s = map fl_count (fs_files s)"

definition shows_desc :: "(nat \<Rightarrow> file_obj) \<Rightarrow> 'w fs_t \<Rightarrow> desc \<Rightarrow> bool" where
  "shows_desc \<alpha> s d \<longleftrightarrow> tab \<alpha> (counts s) (t_files (fs_task s)) (d_files d)"

lemma refs_update:
  "i < length fs \<Longrightarrow> refs f (fs[i := x]) + (if fs ! i = Some f then 1 else 0) = refs f fs + (if x = Some f then 1 else 0)"
proof (induction fs arbitrary: i)
  case (Cons g fs)
  then show ?case by (cases i) (force simp: refs_def)+
qed simp

lemma refs_pos: "Some f \<in> set fs \<longleftrightarrow> 0 < refs f fs"
  unfolding refs_def using count_list_0_iff [of fs "Some f"] by auto

lemma refs_less: "None \<in> set fs \<Longrightarrow> refs f fs < length fs"
proof (induction fs)
  case (Cons g fs)
  have "refs f fs \<le> length fs" by (simp add: refs_def count_le_length)
  with Cons show ?case by (auto simp: refs_def)
qed simp

lemma tab_slot: "tab \<alpha> cs fs D \<Longrightarrow> i < 16 \<Longrightarrow> D ! i = map_option \<alpha> (fs ! i)"
  by (simp add: tab_def)

lemma tab_cong: "tab \<alpha> cs fs D \<Longrightarrow> (\<And>f. Some f \<in> set fs \<Longrightarrow> \<beta> f = \<alpha> f) \<Longrightarrow> tab \<beta> cs fs D"
  by (auto simp: tab_def option.map_comp intro!: option.map_cong)

lemma tab_clear:
  assumes "tab \<alpha> cs fs D" "i < 16" "fs ! i = Some f"
  shows "tab \<alpha> (cs[f := cs ! f - 1]) (fs[i := None]) (D[i := None])"
proof -
  have fs: "length fs = 16" "D = map (map_option \<alpha>) fs" and cov: "covered cs fs g" if "Some g \<in> set fs" for g
    using assms(1) that by (simp_all add: tab_def)
  have len: "length fs = 16" using assms(1) by (simp add: tab_def)
  then have f: "Some f \<in> set fs" using assms(2,3) by (metis nth_mem)
  have r: "refs g (fs[i := None]) + (if g = f then 1 else 0) = refs g fs" for g
    using refs_update [of i fs g None] assms(2,3) len by (auto split: if_splits)
  have "covered (cs[f := cs ! f - 1]) (fs[i := None]) g" if g: "Some g \<in> set (fs[i := None])" for g
  proof -
    have rg: "0 < refs g (fs[i := None])" using g refs_pos by blast
    then have "Some g \<in> set fs" using r [of g] refs_pos [of g fs] by (auto split: if_splits)
    then have c: "covered cs fs g" by (rule cov)
    show ?thesis
    proof (cases "g = f")
      case True
      have "0 < unat (cs ! f)" using c rg r [of g] True by (simp add: covered_def)
      then have "cs ! f \<noteq> 0" by auto
      then have "unat (cs ! f - 1) = unat (cs ! f) - 1" by (rule unat_minus_one)
      then show ?thesis using c r [of g] True rg by (auto simp: covered_def)
    next
      case False
      then show ?thesis using c r [of g] by (simp add: covered_def)
    qed
  qed
  moreover have "D[i := None] = map (map_option \<alpha>) (fs[i := None])" using assms(1) by (simp add: tab_def map_update)
  ultimately show ?thesis using len by (simp add: tab_def)
qed

lemma tab_set:
  assumes "tab \<alpha> cs fs D" "i < 16" "fs ! i = None" "Some f \<in> set fs \<or> f < length cs \<and> cs ! f = 0"
  shows "tab \<alpha> (cs[f := cs ! f + 1]) (fs[i := Some f]) (D[i := Some (\<alpha> f)])"
proof -
  have len: "length fs = 16" and cov: "\<And>g. Some g \<in> set fs \<Longrightarrow> covered cs fs g" using assms(1) by (auto simp: tab_def)
  have r: "refs g (fs[i := Some f]) = refs g fs + (if f = g then 1 else 0)" for g
    using refs_update [of i fs g "Some f"] assms(2,3) len by simp
  have "None \<in> set fs" using assms(2,3) len by (metis nth_mem)
  then have less: "refs f fs < 16" using refs_less len by metis
  have old: "covered cs fs g" if "g \<noteq> f" "Some g \<in> set (fs[i := Some f])" for g
    using that(2) r [of g] that(1) refs_pos [of g] by (intro cov) simp
  have new: "f < length cs \<and> refs f fs \<le> unat (cs ! f) \<and> unat (cs ! f) + 16 < 2 ^ 32 + refs f fs"
  proof (cases "Some f \<in> set fs")
    case True
    with cov show ?thesis by (simp add: covered_def)
  next
    case False
    with assms(4) refs_pos [of f fs] show ?thesis by simp
  qed
  then have "unat (cs ! f + 1) = unat (cs ! f) + 1" using less by (simp add: unat_word_ariths)
  with new have "covered (cs[f := cs ! f + 1]) (fs[i := Some f]) f" by (simp add: covered_def r)
  moreover have "covered (cs[f := cs ! f + 1]) (fs[i := Some f]) g" if "g \<noteq> f" "Some g \<in> set (fs[i := Some f])" for g
    using old [OF that] that(1) r [of g] by (simp add: covered_def)
  moreover have "D[i := Some (\<alpha> f)] = map (map_option \<alpha>) (fs[i := Some f])" using assms(1) by (simp add: tab_def map_update)
  ultimately show ?thesis using len unfolding tab_def by (metis length_list_update)
qed

text \<open>An entry whose count is 0 is not open in the task.\<close>

lemma tab_fresh: "tab \<alpha> cs fs D \<Longrightarrow> cs ! f = 0 \<Longrightarrow> Some f \<notin> set fs"
  by (auto simp: tab_def covered_def refs_pos)

lemma tab_new:
  assumes "tab \<alpha> cs fs D" "i < 16" "fs ! i = None" "f < length cs" "cs ! f = 0"
  shows "tab (\<alpha>(f := obj)) (cs[f := 1]) (fs[i := Some f]) (D[i := Some obj])"
proof -
  have "Some f \<notin> set fs" by (rule tab_fresh [OF assms(1,5)])
  then have "tab (\<alpha>(f := obj)) cs fs D" by (intro tab_cong [OF assms(1)]) auto
  from tab_set [OF this assms(2,3), of f] assms(4,5) show ?thesis by simp
qed

section \<open>What the calls do to the files\<close>

lemma file_at_Inr: "file_at f s = Inr (x, t) \<longleftrightarrow> t = s \<and> f < length (fs_files s) \<and> x = fs_files s ! f"
  by (auto simp: file_at_def bindM_Inr_iff load_at_def liftM_def split: if_splits)

lemma upd_file_Inr:
  "upd_file f g s = Inr (u, t) \<longleftrightarrow> f < length (fs_files s) \<and> t = s\<lparr>fs_files := (fs_files s)[f := g (fs_files s ! f)]\<rparr>"
  by (auto simp: upd_file_def bindM_Inr_iff file_at_Inr)

lemma counts_upd: "f < length (fs_files s) \<Longrightarrow> counts (s\<lparr>fs_files := (fs_files s)[f := x]\<rparr>) = (counts s)[f := fl_count x]"
  by (simp add: counts_def map_update)

lemma counts_length: "length (counts s) = length (fs_files s)"
  by (simp add: counts_def)

lemma counts_nth: "f < length (fs_files s) \<Longrightarrow> counts s ! f = fl_count (fs_files s ! f)"
  by (simp add: counts_def)

lemma quiet_counts: "quiet m \<Longrightarrow> m s = Inr (x, t) \<Longrightarrow> counts t = counts s \<and> fs_task t = fs_task s"
  by (simp add: counts_def quietD)

lemma put_file_Inr:
  assumes "put_file f s = Inr (u, t)"
  shows "f < length (counts s)" "counts t = (counts s)[f := counts s ! f - 1]" "fs_task t = fs_task s"
proof -
  obtain x where x: "f < length (fs_files s)" "x = fs_files s ! f"
    and m: "(if fl_count x - 1 = 0 then iput (fl_inode x) else ret ())
      (s\<lparr>fs_files := (fs_files s)[f := x\<lparr>fl_count := fl_count x - 1\<rparr>]\<rparr>) = Inr (u, t)"
    using assms by (auto simp: put_file_def bindM_Inr_iff seqM_Inr_iff file_at_Inr upd_file_Inr assertM_iff split: if_splits)
  have "quiet (if fl_count x - 1 = 0 then iput (fl_inode x) else ret ())" by (intro quiet_rules)
  from quiet_counts [OF this m] x show "f < length (counts s)" "counts t = (counts s)[f := counts s ! f - 1]" "fs_task t = fs_task s"
    by (simp_all add: counts_upd counts_length counts_nth)
qed

lemma task_file_Inr:
  "task_file fd s = Inr (r, t) \<longleftrightarrow> t = s \<and> unat fd < length (t_files (fs_task s)) \<and> r = t_files (fs_task s) ! unat fd"
  by (auto simp: task_file_def bindM_Inr_iff load_at_def liftM_def split: if_splits)

lemma sys_close_Inr:
  assumes "sys_close fd s = Inr (u, t)" "shows_desc \<alpha> s d"
  shows "unat fd < 16 \<and> shows_desc \<alpha> t (d\<lparr>d_files := (d_files d)[unat fd := None]\<rparr>)
    \<and> t_files (fs_task t) = (t_files (fs_task s))[unat fd := None]"
proof -
  let ?fs = "t_files (fs_task s)"
  have tab: "tab \<alpha> (counts s) ?fs (d_files d)" and len: "length ?fs = 16" using assms(2) by (simp_all add: shows_desc_def tab_def)
  have fd: "unat fd < 16" using assms(1) len
    by (auto simp: sys_close_def seqM_Inr_iff bindM_Inr_iff task_file_Inr assertM_iff split: if_splits)
  show ?thesis
  proof (cases "?fs ! unat fd")
    case None
    then have "t = s" using assms(1) by (auto simp: sys_close_def seqM_Inr_iff bindM_Inr_iff task_file_Inr assertM_iff split: if_splits)
    moreover have "d_files d ! unat fd = None" using tab_slot [OF tab fd] None by simp
    ultimately show ?thesis using fd assms(2) None by (metis desc.surjective desc.update_convs(1) list_update_id)
  next
    case (Some f)
    obtain s1 task where 1: "put_file f s = Inr ((), s1)" "task_put_fd (fs_task s1) (sint fd) = Inr task" "t = s1\<lparr>fs_task := task\<rparr>"
      using assms(1) Some by (auto simp: sys_close_def seqM_Inr_iff bindM_Inr_iff task_file_Inr assertM_iff file_at_Inr liftM_def
          bindr_Inr_iff split: if_splits)
    have sint: "sint fd = int (unat fd)" using fd by (intro sint_small) simp
    have task: "task = fs_task s\<lparr>t_files := ?fs[unat fd := None]\<rparr>"
      using 1(2) put_file_Inr(3) [OF 1(1)] fd len by (simp add: task_put_fd_def sint TASK_FILE_NR_def del: of_nat_unat)
    have "counts t = (counts s)[f := counts s ! f - 1]" using put_file_Inr(2) [OF 1(1)] 1(3) by (simp add: counts_def)
    with tab_clear [OF tab fd Some] show ?thesis using fd by (simp add: shows_desc_def 1(3) task)
  qed
qed

lemma free_fd_first: "free_fd fs i = i + length (takeWhile (\<lambda>f. f \<noteq> None) fs)"
  by (induction fs i rule: free_fd.induct) auto

lemma find_file_Inr: "find_file xs i = Some f \<Longrightarrow> i \<le> f \<and> f < i + length xs \<and> fl_count (xs ! (f - i)) = 0"
proof (induction xs i rule: find_file.induct)
  case (2 x xs i)
  show ?case
  proof (cases "fl_count x = 0")
    case False
    with 2 have "Suc i \<le> f \<and> f < Suc i + length xs \<and> fl_count (xs ! (f - Suc i)) = 0" by simp
    moreover from this have "f - i = Suc (f - Suc i)" by linarith
    ultimately show ?thesis by simp
  qed (use 2 in simp)
qed simp

lemma get_file_Inr:
  assumes "get_file s = Inr (f, t)"
  shows "f < length (counts s)" "counts s ! f = 0" "counts t = (counts s)[f := 1]" "fs_task t = fs_task s"
proof -
  obtain u where f: "find_file (drop 3 (fs_files s)) 3 = Some f" and
    t: "upd_file f (\<lambda>x. x\<lparr>fl_count := fl_count x + 1\<rparr>) s = Inr (u, t)"
    using assms by (auto simp: get_file_def bindM_Inr_iff seqM_Inr_iff split: option.splits)
  have "f < length (fs_files s)" "fl_count (fs_files s ! f) = 0"
    using find_file_Inr [OF f] by (auto simp: nth_drop)
  with t show "f < length (counts s)" "counts s ! f = 0" "counts t = (counts s)[f := 1]" "fs_task t = fs_task s"
    by (auto simp: upd_file_Inr counts_upd counts_length counts_nth)
qed

text \<open>The lowest free descriptor is the same on both sides.\<close>

lemma free_fd_map: "free_fd (map (map_option \<alpha>) fs) i = free_fd fs i"
  by (induction fs i rule: free_fd.induct) auto

lemma task_get_fd_new:
  assumes "tab \<alpha> cs (t_files task) D"
  shows "task_get_fd task = Inr i \<longleftrightarrow> new_fd D = Some i"
  using assms by (auto simp: tab_def task_get_fd_def new_fd_def Let_def drop_map free_fd_map)

lemma new_fd_slot:
  assumes "new_fd D = Some i" "length D = 16"
  shows "3 \<le> i" "i < 16" "D ! i = None"
proof -
  let ?k = "length (takeWhile (\<lambda>f. f \<noteq> None) (drop 3 D))"
  have i: "i = 3 + ?k" "i \<noteq> 16" using assms(1) by (simp_all add: new_fd_def free_fd_first Let_def TASK_FILE_NR_def split: if_splits)
  moreover have "?k \<le> length (drop 3 D)" by (rule length_takeWhile_le)
  ultimately have k: "?k < length (drop 3 D)" using assms(2) by simp
  with i assms(2) show "3 \<le> i" "i < 16" by simp_all
  from nth_length_takeWhile [OF k] have "drop 3 D ! ?k = None" by simp
  then show "D ! i = None" using i(1) assms(2) by simp
qed

lemma task_get_fd_slot:
  assumes "tab \<alpha> cs (t_files task) D" "task_get_fd task = Inr i"
  shows "new_fd D = Some i" "i < 16" "t_files task ! i = None"
proof -
  show i: "new_fd D = Some i" using task_get_fd_new [OF assms(1), of i] assms(2) by blast
  have D: "length D = 16" using assms(1) by (simp add: tab_def)
  show "i < 16" by (rule new_fd_slot(2) [OF i D])
  then show "t_files task ! i = None" using new_fd_slot(3) [OF i D] tab_slot [OF assms(1)] by simp
qed

lemma set_task_file_Inr:
  "set_task_file fd f s = Inr (u, t) \<longleftrightarrow> t = s\<lparr>fs_task := (fs_task s)\<lparr>t_files := (t_files (fs_task s))[fd := f]\<rparr>\<rparr>"
  by (auto simp: set_task_file_def)

lemma sys_open_Inr:
  assumes "sys_open p flags mode s = Inr (r, t)" "shows_desc \<alpha> s d"
  shows "r = EOF \<and> shows_desc \<alpha> t d
    \<or> (\<exists>i f. new_fd (d_files d) = Some i \<and> r = of_nat i \<and> Some f \<notin> set (t_files (fs_task s))
         \<and> shows_desc (\<alpha>(f := obj)) t (d\<lparr>d_files := (d_files d)[i := Some obj]\<rparr>))"
proof -
  obtain io s1 where io: "inode_open p flags mode s = Inr (io, s1)"
    using assms(1) by (auto simp: sys_open_def bindM_Inr_iff)
  have s1: "counts s1 = counts s \<and> fs_task s1 = fs_task s" by (rule quiet_counts [OF quiet_inode_open io])
  show ?thesis
  proof (cases io)
    case None
    then show ?thesis using assms io s1 by (auto simp: sys_open_def bindM_Inr_iff shows_desc_def)
  next
    case (Some n)
    obtain i f s2 im s3 sz s4 g where fd: "task_get_fd (fs_task s1) = Inr i" and f: "get_file s1 = Inr (f, s2)"
      and q: "imode n s2 = Inr (im, s3)" "isize n s3 = Inr (sz, s4)" and r: "r = of_nat i"
      and t: "upd_file f g (s4\<lparr>fs_task := (fs_task s4)\<lparr>t_files := (t_files (fs_task s4))[i := Some f]\<rparr>\<rparr>) = Inr ((), t)"
      and g: "\<And>x. fl_count (g x) = 1"
      using assms(1) io Some by (fastforce simp: sys_open_def bindM_Inr_iff seqM_Inr_iff liftM_def bindr_Inr_iff set_task_file_Inr)
    have tab: "tab \<alpha> (counts s) (t_files (fs_task s)) (d_files d)" using assms(2) by (simp add: shows_desc_def)
    have tab1: "tab \<alpha> (counts s1) (t_files (fs_task s1)) (d_files d)" using tab s1 by simp
    note slot = task_get_fd_slot [OF tab1 fd] and F = get_file_Inr [OF f]
    have s4: "counts s4 = counts s2 \<and> fs_task s4 = fs_task s2"
      using quiet_counts [of "imode n", OF quiet_fields(1) q(1)] quiet_counts [of "isize n", OF quiet_fields(3) q(2)] by simp
    have "counts t = (counts s1)[f := 1] \<and> t_files (fs_task t) = (t_files (fs_task s1))[i := Some f]"
      using t F s4 g by (auto simp: upd_file_Inr counts_def map_update)
    with tab_new [OF tab1 slot(2,3) F(1,2), of obj]
    have "shows_desc (\<alpha>(f := obj)) t (d\<lparr>d_files := (d_files d)[i := Some obj]\<rparr>)" by (simp add: shows_desc_def)
    moreover have "Some f \<notin> set (t_files (fs_task s))" using tab_fresh [OF tab1 F(2)] s1 by simp
    ultimately show ?thesis using slot(1) r by blast
  qed
qed

lemma free_fd_at: "k < length fs \<Longrightarrow> fs ! k = None \<Longrightarrow> free_fd (drop k fs) k = k"
  by (cases "drop k fs") (auto simp: nth_via_drop)

lemma dupfd_Inr:
  assumes "dupfd fd arg s = Inr (r, t)" "shows_desc \<alpha> s d" "unat arg < 16" "t_files (fs_task s) ! unat arg = None"
  shows "if int TASK_FILE_NR \<le> sint fd then r = EOF \<and> t = s
    else \<not> sint fd < 0 \<and> (case d_files d ! unat fd of
        None \<Rightarrow> r = EOF \<and> t = s
      | Some x \<Rightarrow> r = arg \<and> shows_desc \<alpha> t (d\<lparr>d_files := (d_files d)[unat arg := Some x]\<rparr>))"
proof (cases "int TASK_FILE_NR \<le> sint fd")
  case True
  then show ?thesis using assms(1) by (simp add: dupfd_def)
next
  case False
  let ?fs = "t_files (fs_task s)"
  have tab: "tab \<alpha> (counts s) ?fs (d_files d)" and len: "length ?fs = 16" using assms(2) by (simp_all add: shows_desc_def tab_def)
  have fd: "unat fd < 16" using assms(1) False len by (auto simp: dupfd_def bindM_Inr_iff task_file_Inr)
  have pos: "\<not> sint fd < 0" "\<not> sint arg < 0" using sint_small [of fd] sint_small [of arg] fd assms(3) by simp_all
  have slot: "free_fd (drop (unat arg) ?fs) (unat arg) = unat arg" using assms(3,4) len by (intro free_fd_at) simp_all
  show ?thesis
  proof (cases "?fs ! unat fd")
    case None
    then show ?thesis using assms(1) False fd pos len tab_slot [OF tab fd] by (simp add: dupfd_def bindM_def task_file_def)
  next
    case (Some f)
    have c: "covered (counts s) ?fs f" using tab Some fd len by (metis nth_mem tab_def)
    have t: "r = arg" "t = s\<lparr>fs_task := (fs_task s)\<lparr>t_files := ?fs[unat arg := Some f]\<rparr>,
        fs_files := (fs_files s)[f := (fs_files s ! f)\<lparr>fl_count := fl_count (fs_files s ! f) + 1\<rparr>]\<rparr>" "f < length (fs_files s)"
      using assms(1,3) False fd pos len Some slot
      by (auto simp: dupfd_def bindM_Inr_iff seqM_Inr_iff task_file_Inr set_task_file_Inr upd_file_Inr TASK_FILE_NR_def Let_def)
    have "counts t = (counts s)[f := counts s ! f + 1]" using t(2,3) by (simp add: counts_def map_update)
    moreover have "tab \<alpha> ((counts s)[f := counts s ! f + 1]) (?fs[unat arg := Some f]) ((d_files d)[unat arg := Some (\<alpha> f)])"
      using Some fd len by (intro tab_set [OF tab assms(3,4)]) (metis nth_mem)
    ultimately show ?thesis using False pos t(1,2) tab_slot [OF tab fd] Some by (simp add: shows_desc_def)
  qed
qed

lemma sys_dup2_Inr:
  assumes "sys_dup2 oldfd newfd s = Inr (r, t)" "shows_desc \<alpha> s d"
  shows "\<exists>d'. desc_os E d (Do_Dup2 oldfd newfd) = Some (reply r, d') \<and> shows_desc \<alpha> t d'"
proof -
  obtain u s1 where c: "sys_close newfd s = Inr (u, s1)" and dup: "dupfd oldfd newfd s1 = Inr (r, t)"
    using assms(1) by (auto simp: sys_dup2_def seqM_Inr_iff)
  let ?d = "d\<lparr>d_files := (d_files d)[unat newfd := None]\<rparr>"
  have close: "unat newfd < 16" "shows_desc \<alpha> s1 ?d" "t_files (fs_task s1) = (t_files (fs_task s))[unat newfd := None]"
    using sys_close_Inr [OF c assms(2)] by simp_all
  have "length (t_files (fs_task s)) = 16" using assms(2) by (simp add: shows_desc_def tab_def)
  then have "t_files (fs_task s1) ! unat newfd = None" using close(1,3) by simp
  from dupfd_Inr [OF dup close(2,1) this] close show ?thesis
    by (auto simp: TASK_FILE_NR_def Let_def split: if_splits option.splits)
qed

lemma sys_pipe_Inr:
  assumes "sys_pipe s = Inr ((r, w), t)" "shows_desc \<alpha> s d"
  shows "\<exists>d' f g. desc_os E d Do_Pipe = Some ((reply 0)\<lparr>an_word := r, an_word2 := w\<rparr>, d')
    \<and> Some f \<notin> set (t_files (fs_task s)) \<and> Some g \<notin> set (t_files (fs_task s))
    \<and> shows_desc (\<alpha>(f := Read_End (d_pipes d), g := Write_End (d_pipes d))) t d'"
proof -
  let ?fs = "t_files (fs_task s)"
  obtain n s1 i f s2 j g s4 t4 t5 u1 u2 where n: "get_pipe_inode s = Inr (n, s1)" and
    i: "task_get_fd (fs_task s1) = Inr i" and f: "get_file s1 = Inr (f, s2)" and
    j: "task_get_fd ((fs_task s2)\<lparr>t_files := (t_files (fs_task s2))[i := Some f]\<rparr>) = Inr j" and
    g: "get_file (s2\<lparr>fs_task := (fs_task s2)\<lparr>t_files := (t_files (fs_task s2))[i := Some f]\<rparr>\<rparr>) = Inr (g, s4)" and
    t4: "t4 = s4\<lparr>fs_task := (fs_task s4)\<lparr>t_files := (t_files (fs_task s4))[j := Some g]\<rparr>\<rparr>" and
    t5: "upd_file f (\<lambda>x. x\<lparr>fl_inode := Some n, fl_flags := O_RDONLY\<rparr>) t4 = Inr (u1, t5)" and
    t: "upd_file g (\<lambda>x. x\<lparr>fl_inode := Some n, fl_flags := O_WRONLY\<rparr>) t5 = Inr (u2, t)" and
    rw: "r = of_nat i" "w = of_nat j"
    using assms(1) by (fastforce simp: sys_pipe_def bindM_Inr_iff seqM_Inr_iff liftM_def bindr_Inr_iff set_task_file_Inr)
  let ?D1 = "(d_files d)[i := Some (Read_End (d_pipes d))]" and ?D2 = "(d_files d)[i := Some (Read_End (d_pipes d)), j := Some (Write_End (d_pipes d))]"
  have s1: "counts s1 = counts s \<and> fs_task s1 = fs_task s" by (rule quiet_counts [of get_pipe_inode, OF quiet_inode_table(3) n])
  have tab: "tab \<alpha> (counts s1) (t_files (fs_task s1)) (d_files d)" using assms(2) s1 by (simp add: shows_desc_def)
  note I = task_get_fd_slot [OF tab i] and F = get_file_Inr [OF f]
  have tab2: "tab (\<alpha>(f := Read_End (d_pipes d))) (counts s2) (t_files ((fs_task s2)\<lparr>t_files := (t_files (fs_task s2))[i := Some f]\<rparr>)) ?D1"
    using tab_new [OF tab I(2,3) F(1,2)] F(3,4) by simp
  note J = task_get_fd_slot [OF tab2 j] and G0 = get_file_Inr [OF g]
  have G: "g < length (counts s2)" "counts s2 ! g = 0" "counts s4 = (counts s2)[g := 1]"
    "fs_task s4 = (fs_task s2)\<lparr>t_files := (t_files (fs_task s2))[i := Some f]\<rparr>"
    using G0 by (simp_all add: counts_def)
  have "tab (\<alpha>(f := Read_End (d_pipes d), g := Write_End (d_pipes d))) (counts s4) (t_files (fs_task t4)) ?D2"
    using tab_new [OF tab2 J(2,3) G(1,2), of "Write_End (d_pipes d)"] G(3,4) t4 by simp
  moreover have "counts t = counts s4 \<and> fs_task t = fs_task t4"
    using t5 t t4 by (auto simp: upd_file_Inr counts_def map_update nth_list_update intro!: nth_equalityI)
  ultimately have res: "shows_desc (\<alpha>(f := Read_End (d_pipes d), g := Write_End (d_pipes d))) t (d\<lparr>d_files := ?D2, d_pipes := d_pipes d + 1\<rparr>)"
    by (simp add: shows_desc_def)
  have "Some f \<notin> set ?fs" using tab_fresh [OF tab F(2)] s1 by simp
  moreover have "Some g \<notin> set ?fs"
  proof
    assume g: "Some g \<in> set ?fs"
    have "Some g \<notin> set ((t_files (fs_task s2))[i := Some f])" using tab_fresh [OF tab2 G(2)] by simp
    moreover have "t_files (fs_task s2) = ?fs" "?fs ! i = None" using F(4) s1 I(3) by simp_all
    ultimately show False using g by (metis in_set_conv_nth length_list_update nth_list_update_neq option.distinct(1))
  qed
  moreover have "desc_os E d Do_Pipe = Some ((reply 0)\<lparr>an_word := r, an_word2 := w\<rparr>, d\<lparr>d_files := ?D2, d_pipes := d_pipes d + 1\<rparr>)"
    using I(1) J(1) rw by (simp add: Let_def)
  ultimately show ?thesis using res by blast
qed

section \<open>The calls agree\<close>

text \<open>A call of the kernel that comes back, with its answer; what \<open>stat\<close> stores is left out.\<close>

inductive kernel_step :: "sys \<Rightarrow> 'w fs_t \<Rightarrow> answer \<Rightarrow> 'w fs_t \<Rightarrow> bool" where
  step_open: "sys_open p flags mode s = Inr (r, t) \<Longrightarrow> kernel_step (Do_Open (Some p) flags mode) s (reply r) t"
| step_close: "sys_close fd s = Inr ((), t) \<Longrightarrow> kernel_step (Do_Close fd) s (reply 0) t"
| step_dup2: "sys_dup2 oldfd newfd s = Inr (r, t) \<Longrightarrow> kernel_step (Do_Dup2 oldfd newfd) s (reply r) t"
| step_pipe: "sys_pipe s = Inr ((r, w), t) \<Longrightarrow> kernel_step Do_Pipe s ((reply 0)\<lparr>an_word := r, an_word2 := w\<rparr>) t"
| step_stat: "sys_stat p s = Inr (st, t) \<Longrightarrow> kernel_step (Do_Stat p) s (reply (if st = None then EOF else 0)) t"

text \<open>The surroundings of the table are those of the call.\<close>

definition env_fits :: "kernel_env \<Rightarrow> sys \<Rightarrow> answer \<Rightarrow> bool" where
  "env_fits E c a \<longleftrightarrow> (case c of
       Do_Open (Some p) flags mode \<Rightarrow> ke_opens E (cstring p) flags \<longleftrightarrow> an_val a \<noteq> EOF
     | Do_Stat p \<Rightarrow> ke_commands E (cstring p) \<longleftrightarrow> an_val a \<noteq> EOF
     | _ \<Rightarrow> True)"

text \<open>
  Whenever one of these calls of Ylos_File comes back, the table gives the same answer, and it shows the
  task's new descriptors; what it says of the files that were open stays.
\<close>

lemma kernel_agrees:
  assumes "kernel_step c s a t" "shows_desc \<alpha> s d" "env_fits E c a"
  shows "\<exists>\<beta> d'. desc_os E d c = Some (a, d') \<and> shows_desc \<beta> t d' \<and> (\<forall>f. Some f \<in> set (t_files (fs_task s)) \<longrightarrow> \<beta> f = \<alpha> f)"
  using assms
proof cases
  case (step_open p flags mode r)
  consider "r = EOF" "shows_desc \<alpha> t d"
    | i f where "new_fd (d_files d) = Some i" "r = of_nat i" "Some f \<notin> set (t_files (fs_task s))"
      "shows_desc (\<alpha>(f := Opened (cstring p) flags)) t (d\<lparr>d_files := (d_files d)[i := Some (Opened (cstring p) flags)]\<rparr>)"
    using sys_open_Inr [OF step_open(3) assms(2), of "Opened (cstring p) flags"] by blast
  then show ?thesis
  proof cases
    case 1
    then show ?thesis using assms(3) step_open(1,2) by (auto simp: env_fits_def)
  next
    case 2
    have "length (d_files d) = 16" using assms(2) by (simp add: shows_desc_def tab_def)
    then have "i < 16" using new_fd_slot(2) [OF 2(1)] by simp
    then have "r \<noteq> EOF" using 2(2) by (simp add: word_unat_eq_iff)
    then have "ke_opens E (cstring p) flags" using assms(3) step_open(1,2) by (simp add: env_fits_def)
    then have os: "desc_os E d c = Some (a, d\<lparr>d_files := (d_files d)[i := Some (Opened (cstring p) flags)]\<rparr>)"
      using 2(1,2) step_open(1,2) by simp
    show ?thesis using os 2(3,4) by (intro exI conjI) auto
  qed
next
  case (step_close fd)
  with sys_close_Inr [OF step_close(3) assms(2)] show ?thesis by (intro exI conjI) (auto simp: TASK_FILE_NR_def)
next
  case (step_dup2 oldfd newfd r)
  with sys_dup2_Inr [OF step_dup2(3) assms(2), of E] show ?thesis by (metis (full_types))
next
  case (step_pipe r w)
  obtain d' f g where p: "desc_os E d Do_Pipe = Some ((reply 0)\<lparr>an_word := r, an_word2 := w\<rparr>, d')"
    "Some f \<notin> set (t_files (fs_task s))" "Some g \<notin> set (t_files (fs_task s))"
    "shows_desc (\<alpha>(f := Read_End (d_pipes d), g := Write_End (d_pipes d))) t d'"
    using sys_pipe_Inr [OF step_pipe(3) assms(2), of E] by blast
  show ?thesis using p step_pipe(1,2)
    by (intro exI [of _ "\<alpha>(f := Read_End (d_pipes d), g := Write_End (d_pipes d))"] exI [of _ d']) auto
next
  case (step_stat p st)
  have "counts t = counts s \<and> fs_task t = fs_task s" by (rule quiet_counts [of "sys_stat p", OF quiet_stat step_stat(3)])
  with assms(2,3) step_stat(1,2) show ?thesis
    by (intro exI [of _ \<alpha>] exI [of _ d]) (auto simp: shows_desc_def env_fits_def split: if_splits)
qed

text \<open>A child starts with the descriptors of its parent, each file counted once more.\<close>

lemma count_files_refs: "count_files fs c f = c f + of_nat (refs f fs)"
proof (induction fs c rule: count_files.induct)
  case (3 g fs c)
  then show ?case by (auto simp: refs_def count_up_def fun_upd_def)
qed (simp_all add: refs_def)

lemma free_slot_pos: "free_slot xs (Suc i) = Some k \<Longrightarrow> i < k \<and> k < Suc i + length xs"
proof (induction xs arbitrary: i)
  case (Cons x xs)
  then show ?case by (force split: if_splits)
qed simp

lemma free_slot_bound: "free_slot xs 0 = Some k \<Longrightarrow> k < length xs"
  by (cases xs) (auto split: if_splits dest: free_slot_pos)

lemma fork_agrees:
  assumes "task_fork s = Inr (t, pid)"
  obtains c where "Some c \<in> set (s_table t)" "t_pid (s_task t c) = pid"
    "t_files (s_task t c) = t_files (s_task s (running_task s))"
    "t_files (s_task t (running_task s)) = t_files (s_task s (running_task s))"
    "\<And>f. s_file_count t f = s_file_count s f + of_nat (refs f (t_files (s_task s (running_task s))))"
    "s_table s \<noteq> [] \<Longrightarrow> hd (s_table s) \<noteq> None \<Longrightarrow> length (s_table s) = 64 \<Longrightarrow> pid \<noteq> 0"
proof -
  let ?p = "running_task s" and ?task = "s_task s (running_task s)"
  obtain s1 c where g: "get_free_task s = Inr (s1, c)"
    using assms by (auto simp: task_fork_def Let_def bindr_Inr_iff split: if_splits)
  obtain k mem where k: "free_slot (s_table s) 0 = Some k" and s1: "s1 = (set_mem s mem)\<lparr>s_task := (s_task s)(c := zero_task\<lparr>t_pid := of_nat k\<rparr>),
      s_links := s_links s1, s_table := (s_table s)[k := Some c]\<rparr>"
    using g by (auto simp: get_free_task_def Let_def bindr_Inr_iff set_mem_def split: option.splits)
  have t: "pid = t_pid (s_task s1 c)" "s_table t = s_table s1" "t_pid (s_task t c) = pid" "t_files (s_task t c) = t_files ?task"
    "t_files (s_task t ?p) = (if c = ?p then t_files ?task else t_files (s_task s1 ?p))"
    "s_file_count t = count_files (t_files ?task) (s_file_count s1)"
    using assms g by (auto simp: task_fork_def Let_def bindr_Inr_iff task_build_stack_def upd_task_def split: if_splits)
  have len: "k < length (s_table s)" by (rule free_slot_bound [OF k])
  have pid: "pid = of_nat k" unfolding t(1) by (subst s1) simp
  show ?thesis
  proof (rule that [of c])
    show "Some c \<in> set (s_table t)" unfolding t(2) by (subst s1) (simp add: len set_update_memI)
    show "t_pid (s_task t c) = pid" "t_files (s_task t c) = t_files ?task" by (rule t)+
    have "c \<noteq> ?p \<Longrightarrow> s_task s1 ?p = ?task" by (subst s1) simp
    then show "t_files (s_task t ?p) = t_files ?task" using t(5) by simp
    have "s_file_count s1 = s_file_count s" by (subst s1) (simp add: set_mem_def)
    then show "s_file_count t f = s_file_count s f + of_nat (refs f (t_files ?task))" for f by (simp add: t(6) count_files_refs)
    assume h: "s_table s \<noteq> []" "hd (s_table s) \<noteq> None" "length (s_table s) = 64"
    then have "k \<noteq> 0" using k free_slot_pos [of "tl (s_table s)" 0 k] by (cases "s_table s") auto
    then have "unat pid = k" using pid len h(3) by simp
    then show "pid \<noteq> 0" using \<open>k \<noteq> 0\<close> by auto
  qed
qed

end
