(* ===== verification/Ylos_Pipeline.thy ===== *)
theory Ylos_Pipeline
  imports Ylos_Ysh Ylos_Fd
begin

text \<open>
  What the shell does with a pipeline: \<open>builtin_exec\<close> of builtin/ysh.c runs over a table of descriptors
  that behaves like the one of a task (the lowest free descriptor from 3 on, sixteen of them), and
  every program of the line gets the standard files the line means.
\<close>

section \<open>Descriptors\<close>

definition free_fds :: "file_obj option list \<Rightarrow> nat set" where
  "free_fds fs = {i. 3 \<le> i \<and> i < 16 \<and> fs ! i = None}"

lemma free_fd_spec:
  "\<exists>j<length fs. fs ! j = None \<Longrightarrow> \<exists>j<length fs. free_fd fs i = i + j \<and> fs ! j = None"
proof (induction fs arbitrary: i)
  case (Cons f fs)
  show ?case
  proof (cases f)
    case None
    then show ?thesis by auto
  next
    case (Some x)
    then have "\<exists>j<length fs. fs ! j = None" using Cons.prems by (auto simp: less_Suc_eq_0_disj)
    from Cons.IH [OF this, of "Suc i"] obtain j where "j < length fs" "free_fd fs (Suc i) = Suc i + j" "fs ! j = None" by blast
    with Some show ?thesis by (intro exI [of _ "Suc j"]) simp
  qed
qed simp

lemma new_fd_free:
  assumes "length fs = 16" "free_fds fs \<noteq> {}"
  obtains i where "new_fd fs = Some i" "3 \<le> i" "i < 16" "fs ! i = None"
proof -
  from assms obtain k where k: "3 \<le> k" "k < 16" "fs ! k = None" by (auto simp: free_fds_def)
  then have "\<exists>j<length (drop 3 fs). drop 3 fs ! j = None" using assms(1) by (intro exI [of _ "k - 3"]) auto
  from free_fd_spec [OF this, of 3] obtain j where j: "j < length (drop 3 fs)" "free_fd (drop 3 fs) 3 = 3 + j" "drop 3 fs ! j = None"
    by blast
  then have "new_fd fs = Some (3 + j)" using assms(1) by (simp add: new_fd_def TASK_FILE_NR_def)
  with j assms(1) that show ?thesis by simp
qed

lemma finite_free [simp]: "finite (free_fds fs)"
  by (simp add: free_fds_def)

lemma free_fds_update:
  "length fs = 16 \<Longrightarrow> free_fds (fs[i := Some x]) = free_fds fs - {i}"
  "length fs = 16 \<Longrightarrow> 3 \<le> i \<Longrightarrow> i < 16 \<Longrightarrow> free_fds (fs[i := None]) = insert i (free_fds fs)"
  by (cases "i < 16"; auto simp: free_fds_def nth_list_update split: if_splits)
    (auto simp: free_fds_def nth_list_update)

text \<open>An optional descriptor; -1 stands for none.\<close>

definition fd_word :: "nat option \<Rightarrow> u32" where
  "fd_word f = (case f of None \<Rightarrow> EOF | Some i \<Rightarrow> of_nat i)"

definition fd_ok :: "file_obj option list \<Rightarrow> nat option \<Rightarrow> bool" where
  "fd_ok fs f \<longleftrightarrow> (\<forall>i. f = Some i \<longrightarrow> 3 \<le> i \<and> i < 16 \<and> fs ! i \<noteq> None)"

definition closed :: "file_obj option list \<Rightarrow> nat option \<Rightarrow> file_obj option list" where
  "closed fs f = (case f of None \<Rightarrow> fs | Some i \<Rightarrow> fs[i := None])"

definition moved :: "file_obj option list \<Rightarrow> nat option \<Rightarrow> nat \<Rightarrow> file_obj option list" where
  "moved fs f k = (case f of None \<Rightarrow> fs | Some i \<Rightarrow> fs[k := fs ! i, i := None])"

definition std_of :: "file_obj option list \<Rightarrow> nat option \<Rightarrow> nat \<Rightarrow> file_obj option" where
  "std_of fs f k = (case f of None \<Rightarrow> fs ! k | Some i \<Rightarrow> fs ! i)"

lemma unat_fd [simp]: "i < 16 \<Longrightarrow> unat (of_nat i :: u32) = i"
  by simp

lemma fd_word_EOF: "i < 16 \<Longrightarrow> (of_nat i :: u32) \<noteq> EOF"
  by (simp add: word_unat_eq_iff)

lemma run_close_if:
  assumes "fd_ok fs f"
  shows "run (desc_os E) (close_if (fd_word f)) d = ([], Returns (), d\<lparr>d_files := closed (d_files d) f\<rparr>)"
  using assms
  by (cases f) (auto simp: close_if_def fd_word_def closed_def fd_ok_def fd_word_EOF TASK_FILE_NR_def)

lemma run_redirect_fd:
  assumes "fd_ok fs f" "length (d_files d) = 16" "k < 3" "unat w = k" "d_files d = fs"
  shows "run (desc_os E) (redirect_fd (fd_word f) w) d = ([], Returns (), d\<lparr>d_files := moved (d_files d) f k\<rparr>)"
proof (cases f)
  case (Some i)
  with assms(1,5) obtain x where i: "3 \<le> i" "i < 16" "d_files d ! i = Some x" by (auto simp: fd_ok_def)
  have "sint (of_nat i :: u32) = int i" using sint_small [of "of_nat i"] i(2) by simp
  moreover have "unat (of_nat i :: u32) = i" using i(2) by simp
  ultimately show ?thesis using i assms(2-4) Some
    by (simp add: redirect_fd_def fd_word_def fd_word_EOF moved_def Let_def TASK_FILE_NR_def nth_list_update)
qed (simp add: redirect_fd_def fd_word_def moved_def)

section \<open>One command\<close>

text \<open>What the child of a command ends with: the program, its arguments, its three standard files.\<close>

type_synonym job = "u8 list \<times> u8 list list \<times> file_obj option list"

definition path_of :: "u8 list \<Rightarrow> u8 list" where
  "path_of c = map of_char ''/bin/'' @ c @ map of_char ''.out''"

definition runs_job :: "unit ending \<times> desc \<Rightarrow> job \<Rightarrow> bool" where
  "runs_job e j \<longleftrightarrow> (\<exists>file args. fst e = Gone (Do_Execve file (Some args) (Some envp)) \<and> cstr file (path_of (fst j))
     \<and> list_all2 cstr args (fst (snd j)) \<and> take 3 (d_files (snd e)) = snd (snd j))"

lemma take3: "length fs = 16 \<Longrightarrow> take 3 fs = [fs ! 0, fs ! 1, fs ! 2]"
  by (rule nth_equalityI) (auto simp: nth_Cons less_Suc_eq numeral_3_eq_3 numeral_2_eq_2 split: nat.splits)

lemma moved_simps [simp]:
  "length (moved fs f k) = length fs"
  "k' < 3 \<Longrightarrow> k' \<noteq> k \<Longrightarrow> k < 3 \<Longrightarrow> fd_ok fs f \<Longrightarrow> moved fs f k ! k' = fs ! k'"
  "k < 3 \<Longrightarrow> fd_ok fs f \<Longrightarrow> length fs = 16 \<Longrightarrow> moved fs f k ! k = std_of fs f k"
  by (auto simp: moved_def std_of_def fd_ok_def nth_list_update split: option.splits)

lemma moved_other:
  "fd_ok fs f \<Longrightarrow> fd_ok fs g \<Longrightarrow> length fs = 16 \<Longrightarrow> k < 3 \<Longrightarrow> g = None \<or> f \<noteq> g \<Longrightarrow>
   fd_ok (moved fs f k) g \<and> (k' \<noteq> k \<longrightarrow> k' < 3 \<longrightarrow> std_of (moved fs f k) g k' = std_of fs g k')"
  by (auto simp: moved_def std_of_def fd_ok_def nth_list_update split: option.splits)

lemma closed_simps [simp]: "length (closed fs f) = length fs"
  by (simp add: closed_def split: option.splits)

lemma closed_ok: "fd_ok fs g \<Longrightarrow> g = None \<or> f \<noteq> g \<Longrightarrow> fd_ok (closed fs f) g"
  by (cases f; cases g; auto simp: closed_def fd_ok_def)

lemma run_builtin_command:
  assumes ok: "fd_ok (d_files d) i" "fd_ok (d_files d) out" "fd_ok (d_files d) err"
    and ne: "out = None \<or> i \<noteq> out" "err = None \<or> i \<noteq> err" "err = None \<or> out \<noteq> err"
    and len: "length (d_files d) = 16" and args: "arg_words argv bargv = Some ws" and pids: "\<And>n. ke_pid E n \<noteq> 0"
  shows "\<exists>e. run (desc_os E) (builtin_command fname argv bargv (fd_word i) (fd_word out) (fd_word err)) d =
      ([e], Returns (ke_pid E (d_forks d)), d\<lparr>d_files := closed (closed (closed (d_files d) i) out) err, d_forks := d_forks d + 1\<rparr>)
    \<and> fst e = Gone (Do_Execve fname (Some ws) (Some envp))
    \<and> take 3 (d_files (snd e)) = [std_of (d_files d) i 0, std_of (d_files d) out 1, std_of (d_files d) err 2]"
proof -
  let ?fs = "d_files d" and ?os = "desc_os E"
  let ?pid = "ke_pid E (d_forks d)" and ?d1 = "d\<lparr>d_forks := d_forks d + 1\<rparr>"
  let ?parent = "seqP (close_if (fd_word i)) (seqP (close_if (fd_word out)) (seqP (close_if (fd_word err)) (Done ?pid)))"
  let ?exec = "bindP (call (Do_Execve fname (arg_words argv bargv) (Some envp))) (\<lambda>e. Exited (an_val e)) :: u32 prog"
  let ?child = "seqP (redirect_fd (fd_word i) STDIN_FILENO) (seqP (redirect_fd (fd_word out) STDOUT_FILENO)
    (seqP (redirect_fd (fd_word err) STDERR_FILENO) ?exec))"
  have ok': "fd_ok (d_files ?d1) i" "fd_ok ?fs out" "fd_ok ?fs err" using ok by simp_all
  have "run ?os ?parent ?d1 = ([] @ [] @ [] @ [], Returns ?pid, ?d1\<lparr>d_files := closed (closed (closed ?fs i) out) err\<rparr>)"
    by (intro run_seq [OF run_close_if [OF ok'(1)]] run_seq [OF run_close_if [where fs = ?fs, OF ok'(2)]]
        run_seq [OF run_close_if [where fs = ?fs, OF ok'(3)]]) simp_all
  then have parent: "run ?os ?parent ?d1 = ([], Returns ?pid, ?d1\<lparr>d_files := closed (closed (closed ?fs i) out) err\<rparr>)" by simp
  let ?f1 = "moved ?fs i 0" let ?f2 = "moved ?f1 out 1" let ?f3 = "moved ?f2 err 2"
  have o1: "fd_ok ?f1 out" "fd_ok ?f1 err" "std_of ?f1 out 1 = std_of ?fs out 1" "std_of ?f1 err 2 = std_of ?fs err 2"
    using moved_other [OF ok(1,2) len, of 0 1] moved_other [OF ok(1,3) len, of 0 2] ne by auto
  have o2: "fd_ok ?f2 err" "std_of ?f2 err 2 = std_of ?fs err 2"
    using moved_other [OF o1(1,2), of 1 2] ne(3) len o1(4) by auto
  have "run ?os ?child d = ([] @ [] @ [] @ [], Gone (Do_Execve fname (Some ws) (Some envp)), d\<lparr>d_files := ?f3\<rparr>)"
    by (intro run_seq [OF run_redirect_fd [OF ok(1)]] run_seq [OF run_redirect_fd [where fs = ?f1, OF o1(1)]]
        run_seq [OF run_redirect_fd [where fs = ?f2, OF o2(1)]])
      (simp_all add: len STDIN_FILENO_def STDOUT_FILENO_def STDERR_FILENO_def args)
  then have child: "run ?os ?child d = ([], Gone (Do_Execve fname (Some ws) (Some envp)), d\<lparr>d_files := ?f3\<rparr>)" by simp
  have "take 3 ?f3 = [std_of ?fs i 0, std_of ?fs out 1, std_of ?fs err 2]"
    using ok o1 o2 len by (simp add: take3)
  with parent child show ?thesis
    using pids [of "d_forks d"] by (auto simp: builtin_command_def reply_def)
qed

section \<open>Words and names\<close>

definition word_rel :: "u8 list option \<Rightarrow> u8 list \<Rightarrow> bool" where
  "word_rel p w \<longleftrightarrow> (\<exists>v. p = Some v \<and> cstr v w)"

lemma word_is_cstr:
  assumes "i < length argv" "argv ! i = Some v" "cstr v w" "0 \<notin> set (map of_char s :: u8 list)"
  shows "word_is argv i s = Inr (w = map of_char s)"
proof -
  obtain r where v: "v = w @ 0 # r" "0 \<notin> set w" using assms(3) by (auto simp: cstr_def)
  from strcmp_cstr [OF v(2) assms(4), of r "[]"] obtain d where
    "strcmp (w @ 0 # r) (map of_char s @ [0]) = Inr d" "d = 0 \<longleftrightarrow> w = map of_char s" by blast
  then show ?thesis using assms(1,2) v by (simp add: word_is_def lit_def)
qed

lemma format_plain:
  "0 \<notin> set t \<Longrightarrow> 0x25 \<notin> set t \<Longrightarrow> format_loop (t @ fmt) args out ns = format_loop fmt args (out @ t) ns"
proof (induction t arbitrary: out)
  case (Cons c t)
  then show ?case by (subst format_loop.simps) simp
qed simp

lemma format_s:
  assumes "cstr s w"
  shows "format_loop (0x25 # 0x73 # fmt) (Arg_Str s # args) out ns = format_loop fmt args (out @ w) ns"
proof -
  obtain r where s: "s = w @ 0 # r" using assms by (auto simp: cstr_def)
  have "format_str s (-1) (-1) 0 = Inr w" using strlen_cstr [OF assms] by (simp add: format_str_def s has_def Let_def)
  then show ?thesis
    by (subst format_loop.simps) (simp add: conversion_def is_digit_def convert_def take_str_def bindr_assoc)
qed

lemma format_end: "format_loop (0 # fmt) args out ns = Inr (out, ns)"
  by (subst format_loop.simps) simp

lemma command_name:
  assumes "cstr s c" "length c + 10 \<le> cap" "length c + 10 \<le> 1024"
  shows "vsprintf cap (lit ''/bin/%s.out'') [Arg_Str s] = Inr (path_of c @ [0], [], of_nat (length c + 9))"
proof -
  have l: "lit ''/bin/%s.out'' = map of_char ''/bin/'' @ 0x25 # 0x73 # map of_char ''.out'' @ [0]" by (simp add: lit_def)
  have p: "0 \<notin> set (map of_char ''/bin/'' :: u8 list)" "0x25 \<notin> set (map of_char ''/bin/'' :: u8 list)"
    "0 \<notin> set (map of_char ''.out'' :: u8 list)" "0x25 \<notin> set (map of_char ''.out'' :: u8 list)" by simp_all
  have "format_loop (lit ''/bin/%s.out'') [Arg_Str s] [] [] = Inr (path_of c, [])"
    unfolding l format_plain [OF p(1,2)] format_s [OF assms(1)] format_plain [OF p(3,4)] format_end path_of_def by simp
  then show ?thesis using assms(2,3) by (simp add: vsprintf_def path_of_def)
qed

lemma path_of_no_zero: "0 \<notin> set c \<Longrightarrow> 0 \<notin> set (path_of c)"
  by (simp add: path_of_def)

lemma cstring_cstr:
  assumes "cstr p w"
  shows "cstring p = w"
proof -
  obtain r where r: "p = w @ 0 # r" "0 \<notin> set w" using assms by (auto simp: cstr_def)
  then have "c \<noteq> 0" if "c \<in> set w" for c using that by blast
  then show ?thesis by (simp add: cstring_def r(1) takeWhile_append2)
qed

section \<open>The loop over the words\<close>

lemma exec_split:
  "exec_loop (m + n) i x =
     bindP (exec_loop m i x) (\<lambda>r. case r of Inl buf \<Rightarrow> Done (Inl buf) | Inr x \<Rightarrow> exec_loop n (i + m) x)"
proof (induction m arbitrary: i x)
  case (Suc m)
  have e: "(\<lambda>r. case r of Inl buf \<Rightarrow> Done (Inl buf) | Inr x \<Rightarrow> exec_loop (m + n) (i + 1) x)
    = (\<lambda>r. bindP (case r of Inl buf \<Rightarrow> Done (Inl buf) | Inr x \<Rightarrow> exec_loop m (i + 1) x)
         (\<lambda>r. case r of Inl buf \<Rightarrow> Done (Inl buf) | Inr x \<Rightarrow> exec_loop n (i + Suc m) x))"
    by (rule ext) (auto simp: Suc.IH split: sum.split)
  show ?case by (auto simp: bindP_assoc Suc.IH e [simplified] intro!: arg_cong [where f = "bindP _"] ext split: option.split sum.split)
qed simp

text \<open>Words that the loop passes over once it has a command.\<close>

definition no_bar :: "u8 list option \<Rightarrow> bool" where
  "no_bar p \<longleftrightarrow> p = None \<or> (\<exists>w. word_rel p w \<and> w \<noteq> [0x7c])"

lemma exec_skip:
  "i + n \<le> length (ex_argv x) \<Longrightarrow> \<not> ex_p x \<Longrightarrow> list_all no_bar (take n (drop i (ex_argv x))) \<Longrightarrow> exec_loop n i x = Done (Inr x)"
proof (induction n arbitrary: i)
  case (Suc n)
  then obtain p where p: "i < length (ex_argv x)" "ex_argv x ! i = p" by auto
  then have d: "drop i (ex_argv x) = p # drop (Suc i) (ex_argv x)" using Cons_nth_drop_Suc [OF p(1)] by simp
  then have nb: "no_bar p" and rest: "list_all no_bar (take n (drop (Suc i) (ex_argv x)))" using Suc.prems(3) by simp_all
  have step: "exec_loop n (i + 1) x = Done (Inr x)" using Suc.IH [of "Suc i"] Suc.prems(1,2) rest by simp
  show ?case
  proof (cases p)
    case None
    with step p show ?thesis by simp
  next
    case (Some v)
    with nb obtain w where "cstr v w" "w \<noteq> [0x7c]" by (auto simp: no_bar_def word_rel_def)
    then have "word_is (ex_argv x) i ''|'' = Inr False" using word_is_cstr [OF p(1), of v w "''|''"] p(2) Some by simp
    with step p Some Suc.prems(2) show ?thesis by simp
  qed
qed simp

lemma run_exec_name:
  assumes "cstr v c" "ke_commands E (path_of c)" "length (ex_buf x) = 1024" "ex_name x + length c + 10 \<le> 1024"
  shows "\<exists>buf. run (desc_os E) (exec_name i v x) d =
      ([], Returns (Inr (x\<lparr>ex_p := False, ex_bargv := Some (i + 1), ex_buf := buf\<rparr>)), d)
    \<and> length buf = 1024 \<and> cstr (drop (ex_name x) buf) (path_of c)"
proof -
  let ?n = "ex_name x"
  let ?buf = "take ?n (ex_buf x) @ overwrite (drop ?n (ex_buf x)) (path_of c @ [0])"
  have c: "0 \<notin> set c" using assms(1) by (auto simp: cstr_def)
  have d: "drop ?n ?buf = path_of c @ 0 # drop (length (path_of c) + 1) (drop ?n (ex_buf x))"
    using assms(3,4) by (simp add: overwrite_def)
  then have cs: "cstr (drop ?n ?buf) (path_of c)" using path_of_no_zero [OF c] by (auto simp: cstr_def)
  have len: "length ?buf = 1024" using assms(3,4) by (simp add: overwrite_def path_of_def)
  have "vsprintf (1024 - ?n) (lit ''/bin/%s.out'') [Arg_Str v] = Inr (path_of c @ [0], [], of_nat (length c + 9))"
    by (rule command_name [OF assms(1)]) (use assms(4) in simp_all)
  then have "exec_name i v x = Sys (Do_Stat (drop ?n ?buf)) (\<lambda>a. if an_val a = EOF
      then seqP (printf (lit_line ''ysh: command not found: %s'') [Arg_Str v]) (Done (Inl ?buf))
      else Done (Inr (x\<lparr>ex_p := False, ex_bargv := Some (i + 1), ex_buf := ?buf\<rparr>)))"
    by (simp add: exec_name_def Let_def)
  moreover have "desc_os E d (Do_Stat (drop ?n ?buf)) = Some (reply 0, d)"
    using cstring_cstr [OF cs] assms(2) by simp
  moreover have "(0 :: u32) \<noteq> EOF" by (simp add: EOF_def)
  ultimately have "run (desc_os E) (exec_name i v x) d =
      ([], Returns (Inr (x\<lparr>ex_p := False, ex_bargv := Some (i + 1), ex_buf := ?buf\<rparr>)), d)"
    by simp
  with cs len show ?thesis by blast
qed

text \<open>The words of a command and its arguments.\<close>

lemma run_exec_command:
  assumes "ex_argv x = pre @ Some v # args @ post" "i = length pre" "ex_p x" "cstr v c" "list_all no_bar args" "ke_commands E (path_of c)"
    "length (ex_buf x) = 1024" "ex_name x + length c + 10 \<le> 1024"
  shows "\<exists>buf. run (desc_os E) (exec_loop (Suc (length args)) i x) d =
      ([], Returns (Inr (x\<lparr>ex_p := False, ex_bargv := Some (i + 1), ex_buf := buf\<rparr>)), d)
    \<and> length buf = 1024 \<and> cstr (drop (ex_name x) buf) (path_of c)"
proof -
  obtain buf where buf: "run (desc_os E) (exec_name i v x) d =
      ([], Returns (Inr (x\<lparr>ex_p := False, ex_bargv := Some (i + 1), ex_buf := buf\<rparr>)), d)"
    "length buf = 1024" "cstr (drop (ex_name x) buf) (path_of c)"
    using run_exec_name [where E = E and c = c, OF assms(4,6,7,8)] by blast
  let ?x = "x\<lparr>ex_p := False, ex_bargv := Some (i + 1), ex_buf := buf\<rparr>"
  let ?k = "\<lambda>r. case r of Inl buf \<Rightarrow> Done (Inl buf) | Inr x \<Rightarrow> exec_loop (length args) (Suc (length pre)) x"
  have skip: "exec_loop (length args) (Suc (length pre)) ?x = Done (Inr ?x)"
    by (rule exec_skip) (use assms(1,2,5) in simp_all)
  have "exec_loop (Suc (length args)) i x = bindP (exec_name i v x) ?k"
    using assms(1-3) by simp
  moreover have "run (desc_os E) (bindP (exec_name i v x) ?k) d = ([] @ [], Returns (Inr ?x), d)"
    by (rule run_bind [OF buf(1)]) (use skip in simp_all)
  ultimately have "run (desc_os E) (exec_loop (Suc (length args)) i x) d = ([], Returns (Inr ?x), d)" by simp
  with buf(2,3) show ?thesis by auto
qed

section \<open>A bar\<close>

text \<open>
  \<open>wired d i fs\<close>: apart from the descriptor \<open>i\<close>, the standard input of the next command, the table is \<open>fs\<close>.
\<close>

definition wired :: "desc \<Rightarrow> nat option \<Rightarrow> file_obj option list \<Rightarrow> bool" where
  "wired d i fs \<longleftrightarrow> length (d_files d) = 16 \<and> fd_ok (d_files d) i \<and> closed (d_files d) i = fs \<and> 3 \<le> card (free_fds fs)"

lemma wired_free: "wired d i fs \<Longrightarrow> 2 \<le> card (free_fds (d_files d))"
proof (cases i)
  case (Some k)
  assume w: "wired d i fs"
  with Some have "free_fds fs = insert k (free_fds (d_files d))"
    by (auto simp: wired_def closed_def fd_ok_def free_fds_update)
  with w show ?thesis using card_insert_le_m1 [of "card (free_fds (d_files d)) + 1" "free_fds (d_files d)" k] by (simp add: wired_def)
qed (simp add: wired_def closed_def)

lemma wired_std: "wired d i fs \<Longrightarrow> 0 < k \<Longrightarrow> k < 3 \<Longrightarrow> d_files d ! k = fs ! k"
  by (auto simp: wired_def closed_def fd_ok_def nth_list_update split: option.splits)

text \<open>A pipe takes two free descriptors.\<close>

lemma pipe_fds:
  assumes "length fs = 16" "2 \<le> card (free_fds fs)"
  obtains r w where "new_fd fs = Some r" "new_fd (fs[r := Some x]) = Some w" "3 \<le> r" "r < 16" "3 \<le> w" "w < 16" "r \<noteq> w"
    "fs ! r = None" "fs ! w = None"
proof -
  have "free_fds fs \<noteq> {}" using assms(2) by auto
  then obtain r where r: "new_fd fs = Some r" "3 \<le> r" "r < 16" "fs ! r = None" using new_fd_free [OF assms(1)] by blast
  have "1 \<le> card (free_fds fs - {r})" using assms(2) card_Diff_singleton_if [of "free_fds fs" r] by (simp split: if_splits)
  then have "free_fds (fs[r := Some x]) \<noteq> {}" unfolding free_fds_update(1) [OF assms(1)] by force
  then obtain w where w: "new_fd (fs[r := Some x]) = Some w" "3 \<le> w" "w < 16" "fs[r := Some x] ! w = None"
    using new_fd_free [of "fs[r := Some x]"] assms(1) by auto
  then have "r \<noteq> w" using r(3) assms(1) by auto
  with r w that show ?thesis by simp
qed

lemma words_up: "map the (takeWhile (\<lambda>w. w \<noteq> None) (map Some args @ None # post)) = args"
  by (induction args) auto

lemma run_exec_bar:
  assumes "wired d i fs" "ex_argv x = pre @ Some v # map Some args @ bar # post"
    and "n = length pre + 1 + length args" "ex_bargv x = Some (length pre + 1)" "ex_infd x = fd_word i"
    and "cstr (drop (ex_name x) (ex_buf x)) (path_of c)" and pids: "\<And>n. ke_pid E n \<noteq> 0"
  shows "\<exists>e r d'. run (desc_os E) (exec_bar n x) d =
      ([e], Returns (x\<lparr>ex_p := True, ex_name := ex_name x + (length c + 10), ex_argv := pre @ Some v # map Some args @ None # post,
         ex_infd := fd_word (Some r), ex_count := ex_count x + 1\<rparr>), d')
    \<and> fst e = Gone (Do_Execve (drop (ex_name x) (ex_buf x)) (Some args) (Some envp))
    \<and> take 3 (d_files (snd e)) = [std_of (d_files d) i 0, Some (Write_End (d_pipes d)), fs ! 2]
    \<and> wired d' (Some r) fs \<and> d_files d' ! r = Some (Read_End (d_pipes d)) \<and> d_pipes d' = d_pipes d + 1 \<and> d_waits d' = d_waits d
    \<and> d_forks d' = d_forks d + 1"
proof -
  let ?F = "d_files d" and ?k = "d_pipes d" and ?file = "drop (ex_name x) (ex_buf x)" and ?os = "desc_os E"
  have len: "length ?F = 16" and ok: "fd_ok ?F i" and fs: "closed ?F i = fs" using assms(1) by (simp_all add: wired_def)
  obtain r w where rw: "new_fd ?F = Some r" "new_fd (?F[r := Some (Read_End ?k)]) = Some w" "3 \<le> r" "r < 16" "3 \<le> w" "w < 16"
    "r \<noteq> w" "?F ! r = None" "?F ! w = None" by (rule pipe_fds [OF len wired_free [OF assms(1)]])
  let ?G = "?F[r := Some (Read_End ?k), w := Some (Write_End ?k)]"
  let ?d1 = "d\<lparr>d_files := ?G, d_pipes := ?k + 1\<rparr>" and ?argv = "pre @ Some v # map Some args @ None # post"
  have ir: "i \<noteq> Some r" "i \<noteq> Some w" using ok rw(8,9) by (auto simp: fd_ok_def)
  have okG: "fd_ok ?G i" "fd_ok ?G (Some w)" "fd_ok ?G None"
    using ok ir rw(4-6) len by (auto simp: fd_ok_def nth_list_update)
  have aw: "arg_words ?argv (Some (length pre + 1)) = Some args"
    by (simp add: arg_words_def words_up del: not_None_eq)
  obtain e where e: "run ?os (builtin_command ?file ?argv (Some (length pre + 1)) (fd_word i) (fd_word (Some w)) (fd_word None)) ?d1 =
      ([e], Returns (ke_pid E (d_forks ?d1)), ?d1\<lparr>d_files := closed (closed (closed ?G i) (Some w)) None, d_forks := d_forks ?d1 + 1\<rparr>)"
    "fst e = Gone (Do_Execve ?file (Some args) (Some envp))"
    "take 3 (d_files (snd e)) = [std_of ?G i 0, std_of ?G (Some w) 1, std_of ?G None 2]"
    using run_builtin_command [where d = "?d1" and i = i and out = "Some w" and err = None and argv = "?argv"
        and bargv = "Some (length pre + 1)" and ws = args and E = E and fname = "?file"] okG ir(2) len aw pids by auto
  let ?d2 = "?d1\<lparr>d_files := closed (closed (closed ?G i) (Some w)) None, d_forks := d_forks ?d1 + 1\<rparr>"
  have F2: "d_files ?d2 = fs[r := Some (Read_End ?k)]"
    using ok ir rw(3-9) len unfolding fs [symmetric]
    by (cases i) (auto simp: closed_def fd_ok_def nth_list_update intro!: nth_equalityI)
  have fr: "fs ! r = None" using rw(4,8) ok len unfolding fs [symmetric] by (auto simp: closed_def fd_ok_def nth_list_update split: option.split)
  have lfs: "length fs = 16" unfolding fs [symmetric] by (simp add: len)
  have "closed (d_files ?d2) (Some r) = fs" unfolding F2 using fr lfs rw(4) by (simp add: closed_def list_update_same_conv)
  then have wd: "wired ?d2 (Some r) fs" using assms(1) F2 lfs rw(3,4) by (simp add: wired_def fd_ok_def)
  have run: "run ?os (exec_bar n x) d = ([] @ [e] @ [], Returns (x\<lparr>ex_p := True, ex_name := ex_name x + (length c + 10),
      ex_argv := ?argv, ex_infd := of_nat r, ex_count := ex_count x + 1\<rparr>), ?d2)"
  proof -
    have st: "store_at (ex_argv x) n None = Inr ?argv" using assms(2,3) by (simp add: store_at_def list_update_append)
    have sl: "strlen ?file = Inr (length c + 9)" using strlen_cstr [OF assms(6)] by (simp add: path_of_def)
    let ?after = "bindP (liftP (strlen ?file)) (\<lambda>len. Done (x\<lparr>ex_p := True, ex_name := ex_name x + (len + 1), ex_argv := ?argv,
      ex_infd := of_nat r, ex_count := ex_count x + 1\<rparr>))"
    have k: "run ?os (bindP (builtin_command ?file ?argv (Some (length pre + 1)) (fd_word i) (of_nat w) EOF) (\<lambda>_. ?after)) ?d1 =
        ([e] @ [], Returns (x\<lparr>ex_p := True, ex_name := ex_name x + (length c + 10), ex_argv := ?argv,
          ex_infd := of_nat r, ex_count := ex_count x + 1\<rparr>), ?d2)"
      using run_bind [OF e(1) [unfolded fd_word_def [of "Some w"] fd_word_def [of None] option.case], of "\<lambda>_. ?after"] e(2) sl
      by (simp add: all_end_def)
    have p: "?os d Do_Pipe = Some ((reply 0)\<lparr>an_word := of_nat r, an_word2 := of_nat w\<rparr>, ?d1)" using rw(1,2) by (simp add: Let_def)
    show ?thesis using k p unfolding exec_bar_def by (simp add: st assms(4,5) del: desc_os.simps)
  qed
  have "std_of ?G i 0 = std_of ?F i 0" "std_of ?G (Some w) 1 = Some (Write_End ?k)" "std_of ?G None 2 = fs ! 2"
    using ok ir rw(3-7) len wired_std [OF assms(1), of 2] by (auto simp: std_of_def fd_ok_def nth_list_update split: option.splits)
  moreover have "d_files ?d2 ! r = Some (Read_End ?k)" using F2 lfs rw(4) by simp
  ultimately show ?thesis using run e(2,3) wd
    by (intro exI [of _ e] exI [of _ r] exI [of _ ?d2]) (simp add: fd_word_def)
qed

section \<open>Pipelines\<close>

text \<open>The words of a pipeline: commands with their arguments, bars between them.\<close>

type_synonym segment = "u8 list \<times> u8 list list"

fun pipeline_words :: "segment list \<Rightarrow> u8 list list" where
  "pipeline_words [] = []"
| "pipeline_words [(c, as)] = c # as"
| "pipeline_words ((c, as) # segs) = c # as @ [0x7c] # pipeline_words segs"

text \<open>
  What the line means: each command with its arguments and its standard files.  The pipe behind the
  \<open>k\<close>-th command is number \<open>k\<close>; the first command reads \<open>inp\<close>, the last one writes \<open>out\<close> and \<open>err\<close>.
\<close>

fun jobs :: "nat \<Rightarrow> file_obj option \<Rightarrow> file_obj option \<Rightarrow> file_obj option \<Rightarrow> file_obj option \<Rightarrow> segment list \<Rightarrow> job list" where
  "jobs k inp out err shell_err [] = []"
| "jobs k inp out err shell_err [(c, as)] = [(c, as, [inp, out, err])]"
| "jobs k inp out err shell_err ((c, as) # segs) =
     (c, as, [inp, Some (Write_End k), shell_err]) # jobs (Suc k) (Some (Read_End k)) out err shell_err segs"

fun name_room :: "segment list \<Rightarrow> nat" where
  "name_room [] = 0"
| "name_room ((c, as) # segs) = length c + 10 + name_room segs"

definition seg_ok :: "kernel_env \<Rightarrow> segment \<Rightarrow> bool" where
  "seg_ok E seg \<longleftrightarrow> ke_commands E (path_of (fst seg)) \<and> [0x7c] \<notin> set (snd seg)"

lemma word_rel_SomeE:
  assumes "list_all2 word_rel ps ws"
  obtains vs where "ps = map Some vs" "list_all2 cstr vs ws"
proof -
  have "list_all2 (\<lambda>p w. p \<noteq> None \<and> cstr (the p) w) ps ws"
    by (rule list_all2_mono [OF assms]) (auto simp: word_rel_def)
  then have "ps = map Some (map the ps)" "list_all2 cstr (map the ps) ws"
    by (induction rule: list_all2_induct) auto
  then show ?thesis by (rule that)
qed

lemma no_bar_words: "list_all2 cstr vs ws \<Longrightarrow> [0x7c] \<notin> set ws \<Longrightarrow> list_all no_bar (map Some vs)"
  by (induction rule: list_all2_induct) (auto simp: no_bar_def word_rel_def)

text \<open>
  The loop over a pipeline: every command but the last is started with its standard files, and the last
  one is ready to be started.
\<close>

definition loop_done ::
    "kernel_env \<Rightarrow> nat \<Rightarrow> exec_st \<Rightarrow> desc \<Rightarrow> file_obj option list \<Rightarrow> args \<Rightarrow> job list \<Rightarrow> nat \<Rightarrow> nat \<Rightarrow> bool" where
  "loop_done E i x d fs post js len npipes \<longleftrightarrow> (\<exists>es x' d' inn pre v args.
     run (desc_os E) (exec_loop len i x) d = (es, Returns (Inr x'), d')
     \<and> all_end es \<and> list_all2 runs_job es (butlast js) \<and> wired d' inn fs \<and> d_waits d' = d_waits d \<and> d_forks d' = d_forks d + npipes
     \<and> ex_infd x' = fd_word inn \<and> ex_count x' = ex_count x + npipes \<and> \<not> ex_p x'
     \<and> ex_argv x' = pre @ Some v # map Some args @ post \<and> length pre + 1 + length args = i + len
     \<and> ex_bargv x' = Some (length pre + 1) \<and> std_of (d_files d') inn 0 = hd (snd (snd (last js)))
     \<and> cstr (drop (ex_name x') (ex_buf x')) (path_of (fst (last js))) \<and> list_all2 cstr args (fst (snd (last js))))"

lemma jobs_ne: "segs \<noteq> [] \<Longrightarrow> jobs k inp out err serr segs \<noteq> []"
  by (cases "(k, inp, out, err, serr, segs)" rule: jobs.cases) auto

lemma exec_bar_step:
  assumes "ex_argv x = pre @ Some b # post" "n = length pre" "\<not> ex_p x" "cstr b [0x7c]"
  shows "exec_loop (Suc m) n x = bindP (exec_bar n x) (exec_loop m (Suc n))"
proof -
  have "word_is (ex_argv x) n ''|'' = Inr True" using word_is_cstr [of n "ex_argv x" b "[0x7c]" "''|''"] assms by simp
  then show ?thesis using assms(1-3) by simp
qed

lemma exec_pipeline:
  assumes "list_all2 word_rel mid (pipeline_words segs)" "segs \<noteq> []" "list_all (seg_ok E) segs"
    and "ex_argv x = pre @ mid @ post" "ex_p x" "ex_infd x = fd_word i" "wired d i fs"
    and "length (ex_buf x) = 1024" "ex_name x + name_room segs \<le> 1024" and "\<And>n. ke_pid E n \<noteq> 0"
  shows "loop_done E (length pre) x d fs post (jobs (d_pipes d) (std_of (d_files d) i 0) out err (fs ! 2) segs)
    (length mid) (length segs - 1)"
  using assms
proof (induction segs arbitrary: mid x pre i d)
  case Nil
  then show ?case by simp
next
  case (Cons seg segs)
  obtain c as where seg: "seg = (c, as)" by (cases seg)
  have ok: "ke_commands E (path_of c)" "[0x7c] \<notin> set as" using Cons.prems(3) seg by (auto simp: seg_ok_def)
  show ?case
  proof (cases segs)
    case Nil
    with Cons.prems(1) seg obtain v vs where mid: "mid = Some v # map Some vs" "cstr v c" "list_all2 cstr vs as"
      by (auto simp: list_all2_Cons2 word_rel_def [of _ c] elim!: word_rel_SomeE)
    obtain buf where buf: "run (desc_os E) (exec_loop (Suc (length (map Some vs))) (length pre) x) d =
        ([], Returns (Inr (x\<lparr>ex_p := False, ex_bargv := Some (length pre + 1), ex_buf := buf\<rparr>)), d)"
      "cstr (drop (ex_name x) buf) (path_of c)"
      using run_exec_command [where E = E and c = c and v = v and args = "map Some vs" and pre = pre and post = post
          and x = x and d = d and i = "length pre"] Cons.prems mid ok Nil seg no_bar_words [OF mid(3) ok(2)] by auto
    show ?thesis unfolding loop_done_def
      by (rule exI [of _ "[]"], rule exI [of _ "x\<lparr>ex_p := False, ex_bargv := Some (length pre + 1), ex_buf := buf\<rparr>"],
          rule exI [of _ d], rule exI [of _ i], rule exI [of _ pre], rule exI [of _ v], rule exI [of _ vs])
        (use buf Cons.prems mid Nil seg in simp)
  next
    case (Cons seg2 segs2)
    from Cons.prems(1) obtain v aps b mid2 where mid1: "mid = Some v # aps @ Some b # mid2" "cstr v c"
      "list_all2 word_rel aps as" "cstr b [0x7c]" "list_all2 word_rel mid2 (pipeline_words segs)"
      unfolding seg Cons by (auto simp: list_all2_Cons2 list_all2_append2 word_rel_def [of _ c] word_rel_def [of _ "[0x7c]"])
    from mid1(3) obtain vs where "aps = map Some vs" "list_all2 cstr vs as" by (rule word_rel_SomeE)
    with mid1 have mid: "mid = Some v # map Some vs @ Some b # mid2" "cstr v c" "list_all2 cstr vs as" "cstr b [0x7c]"
      "list_all2 word_rel mid2 (pipeline_words segs)" by simp_all
    have nb: "list_all no_bar (map Some vs)" by (rule no_bar_words [OF mid(3) ok(2)])
    let ?k = "d_pipes d" and ?n = "length pre + 1 + length vs" and ?inp = "std_of (d_files d) i 0"
    have room: "ex_name x + length c + 10 \<le> 1024" using Cons.prems(9) seg by simp
    obtain buf where buf: "run (desc_os E) (exec_loop (Suc (length vs)) (length pre) x) d =
        ([], Returns (Inr (x\<lparr>ex_p := False, ex_bargv := Some (length pre + 1), ex_buf := buf\<rparr>)), d)"
      "length buf = 1024" "cstr (drop (ex_name x) buf) (path_of c)"
      using run_exec_command [where E = E and c = c and v = v and args = "map Some vs" and pre = pre and x = x and d = d
          and post = "Some b # mid2 @ post" and i = "length pre"] Cons.prems(4,5,8) mid(1,2) ok(1) room nb by auto
    let ?x1 = "x\<lparr>ex_p := False, ex_bargv := Some (length pre + 1), ex_buf := buf\<rparr>"
    let ?argv = "pre @ Some v # map Some vs @ None # mid2 @ post"
    have bar: "exec_loop (Suc (length mid2)) ?n ?x1 = bindP (exec_bar ?n ?x1) (exec_loop (length mid2) (Suc ?n))"
      by (rule exec_bar_step [where pre = "pre @ Some v # map Some vs" and b = b and post = "mid2 @ post"])
        (use Cons.prems(4) mid(1,4) in simp_all)
    obtain e r d1 where e: "run (desc_os E) (exec_bar ?n ?x1) d = ([e], Returns (?x1\<lparr>ex_p := True,
        ex_name := ex_name ?x1 + (length c + 10), ex_argv := ?argv, ex_infd := fd_word (Some r), ex_count := ex_count ?x1 + 1\<rparr>), d1)"
      "fst e = Gone (Do_Execve (drop (ex_name ?x1) (ex_buf ?x1)) (Some vs) (Some envp))"
      "take 3 (d_files (snd e)) = [?inp, Some (Write_End ?k), fs ! 2]"
      "wired d1 (Some r) fs" "d_files d1 ! r = Some (Read_End ?k)" "d_pipes d1 = ?k + 1" "d_waits d1 = d_waits d"
      "d_forks d1 = d_forks d + 1"
      using run_exec_bar [where d = d and i = i and fs = fs and x = ?x1 and pre = pre and v = v and args = vs and bar = "Some b"
          and post = "mid2 @ post" and n = ?n and c = c and E = E] Cons.prems(4,6,7,10) mid(1) buf(3) by auto
    let ?x2 = "?x1\<lparr>ex_p := True, ex_name := ex_name ?x1 + (length c + 10), ex_argv := ?argv,
        ex_infd := fd_word (Some r), ex_count := ex_count ?x1 + 1\<rparr>"
    have job: "runs_job e (c, as, [?inp, Some (Write_End ?k), fs ! 2])"
      using e(2,3) buf(3) mid(3) by (auto simp: runs_job_def)
    have "loop_done E (length (pre @ Some v # map Some vs @ [None])) ?x2 d1 fs post
        (jobs (d_pipes d1) (std_of (d_files d1) (Some r) 0) out err (fs ! 2) segs) (length mid2) (length segs - 1)"
      by (rule Cons.IH [where i = "Some r"]) (use Cons Cons.prems(3,9,10) mid(5) e(4) buf(2) seg in auto)
    then obtain es x' d' inn pre' v' args where
      run: "run (desc_os E) (exec_loop (length mid2) (Suc ?n) ?x2) d1 = (es, Returns (Inr x'), d')" and
      rest: "all_end es" "list_all2 runs_job es (butlast (jobs (Suc ?k) (Some (Read_End ?k)) out err (fs ! 2) segs))" "wired d' inn fs"
        "d_waits d' = d_waits d1" "d_forks d' = d_forks d1 + (length segs - 1)" "ex_infd x' = fd_word inn" "ex_count x' = ex_count ?x2 + (length segs - 1)" "\<not> ex_p x'"
        "ex_argv x' = pre' @ Some v' # map Some args @ post" "length pre' + 1 + length args = Suc ?n + length mid2"
        "ex_bargv x' = Some (length pre' + 1)" and
      last: "std_of (d_files d') inn 0 = hd (snd (snd (last (jobs (Suc ?k) (Some (Read_End ?k)) out err (fs ! 2) segs))))"
        "cstr (drop (ex_name x') (ex_buf x')) (path_of (fst (last (jobs (Suc ?k) (Some (Read_End ?k)) out err (fs ! 2) segs))))"
        "list_all2 cstr args (fst (snd (last (jobs (Suc ?k) (Some (Read_End ?k)) out err (fs ! 2) segs))))"
      unfolding loop_done_def by (auto simp: e(5,6) std_of_def)
    have ne: "jobs (Suc ?k) (Some (Read_End ?k)) out err (fs ! 2) segs \<noteq> []" using Cons by (intro jobs_ne) simp
    have J: "jobs ?k ?inp out err (fs ! 2) (seg # segs) = (c, as, [?inp, Some (Write_End ?k), fs ! 2])
        # jobs (Suc ?k) (Some (Read_End ?k)) out err (fs ! 2) segs" using Cons seg by simp
    have "run (desc_os E) (exec_loop (Suc (length mid2)) ?n ?x1) d = ([e] @ es, Returns (Inr x'), d')"
      unfolding bar using e(2) run by (intro run_bind [OF e(1)]) (simp_all add: all_end_def)
    then have "run (desc_os E) (exec_loop (Suc (length vs) + Suc (length mid2)) (length pre) x) d = ([] @ e # es, Returns (Inr x'), d')"
      unfolding exec_split by (intro run_bind [OF buf(1)]) simp_all
    then have all: "run (desc_os E) (exec_loop (length mid) (length pre) x) d = (e # es, Returns (Inr x'), d')" using mid(1) by simp
    show ?thesis unfolding loop_done_def J
      by (rule exI [of _ "e # es"], rule exI [of _ x'], rule exI [of _ d'], rule exI [of _ inn], rule exI [of _ pre'],
          rule exI [of _ v'], rule exI [of _ args]) (use all rest last ne job e(2,7,8) Cons mid(1) in \<open>cases e; simp\<close>)
  qed
qed

section \<open>Redirections\<close>

datatype redirection = From | To | Append_To | Err_To | Err_Append

fun op_word :: "redirection \<Rightarrow> u8 list" where
  "op_word From = [0x3c]"
| "op_word To = [0x3e]"
| "op_word Append_To = [0x3e, 0x3e]"
| "op_word Err_To = [0x32, 0x3e]"
| "op_word Err_Append = [0x32, 0x3e, 0x3e]"

definition op_of :: "u8 list \<Rightarrow> redirection option" where
  "op_of w = (if w = [0x3c] then Some From else if w = [0x3e] then Some To else if w = [0x3e, 0x3e] then Some Append_To
     else if w = [0x32, 0x3e] then Some Err_To else if w = [0x32, 0x3e, 0x3e] then Some Err_Append else None)"

fun apply_op :: "redirection \<Rightarrow> u8 list option \<Rightarrow> redir \<Rightarrow> redir" where
  "apply_op From w rd = rd\<lparr>rd_in := w\<rparr>"
| "apply_op To w rd = rd\<lparr>rd_out := w\<rparr>"
| "apply_op Append_To w rd = rd\<lparr>rd_out := w, rd_outappend := O_APPEND\<rparr>"
| "apply_op Err_To w rd = rd\<lparr>rd_err := w\<rparr>"
| "apply_op Err_Append w rd = rd\<lparr>rd_err := w, rd_errappend := O_APPEND\<rparr>"

lemma op_of_word [simp]: "op_of (op_word r) = Some r"
  by (cases r) (simp_all add: op_of_def)

lemma redirect_cstr:
  assumes "i < length argv" "argv ! i = Some v" "cstr v w"
  shows "redirect argc argv i rd = (case op_of w of
      None \<Rightarrow> Inr None
    | Some r \<Rightarrow> if i + 1 < argc then bindr (load_at argv (i + 1)) (\<lambda>w. Inr (Some (apply_op r w rd))) else Inr None)"
  using word_is_cstr [OF assms, of "''<''"] word_is_cstr [OF assms, of "''>''"] word_is_cstr [OF assms, of "''>>''"]
    word_is_cstr [OF assms, of "''2>''"] word_is_cstr [OF assms, of "''2>>''"]
  by (simp add: redirect_def try_op_def op_of_def)

lemma dup_scan_plain:
  "list_all2 word_rel ps ws \<Longrightarrow> list_all (\<lambda>w. op_of w = None) ws \<Longrightarrow> length pre + length ps \<le> argc \<Longrightarrow>
   dup_scan argc (length pre) (pre @ ps @ post) rd = dup_scan argc (length pre + length ps) (pre @ ps @ post) rd"
proof (induction ps ws arbitrary: pre rule: list_all2_induct)
  case (Cons p ps w ws)
  then obtain v where v: "p = Some v" "cstr v w" by (auto simp: word_rel_def)
  have "redirect argc (pre @ (p # ps) @ post) (length pre) rd = Inr None"
    using redirect_cstr [of "length pre" "pre @ (p # ps) @ post" v w] v Cons.prems(1) by simp
  then have "dup_scan argc (length pre) (pre @ (p # ps) @ post) rd = dup_scan argc (length pre + 1) (pre @ (p # ps) @ post) rd"
    using Cons.prems(2) by (subst dup_scan.simps) simp
  with Cons.IH [of "pre @ [p]"] Cons.prems show ?case by simp
qed simp

text \<open>The redirections at the end of a line: operators and files; the operators become NULL.\<close>

fun red_words :: "(redirection \<times> u8 list) list \<Rightarrow> u8 list list" where
  "red_words [] = []"
| "red_words ((r, f) # rds) = op_word r # f # red_words rds"

fun file_args :: "u8 list list \<Rightarrow> args" where
  "file_args [] = []"
| "file_args (f # fs) = None # Some f # file_args fs"

fun applied :: "redirection list \<Rightarrow> u8 list list \<Rightarrow> redir \<Rightarrow> redir" where
  "applied (r # rs) (f # fs) rd = applied rs fs (apply_op r (Some f) rd)"
| "applied rs fs rd = rd"

lemma dup_scan_red:
  "list_all2 word_rel ps (red_words rds) \<Longrightarrow> argc = length pre + length ps \<Longrightarrow>
   \<exists>fs. dup_scan argc (length pre) (pre @ ps @ post) rd = Inr (pre @ file_args fs @ post, applied (map fst rds) fs rd)
     \<and> list_all2 cstr fs (map snd rds) \<and> length (file_args fs) = length ps"
proof (induction rds arbitrary: ps pre rd)
  case Nil
  then show ?case by (subst dup_scan.simps) (auto intro!: exI [of _ "[]"])
next
  case (Cons rf rds)
  obtain r f where rf: "rf = (r, f)" by (cases rf)
  from Cons.prems(1) obtain v g ps' where ps: "ps = Some v # Some g # ps'" "cstr v (op_word r)" "cstr g f"
    "list_all2 word_rel ps' (red_words rds)"
    unfolding rf by (auto simp: list_all2_Cons2 word_rel_def [of _ f] word_rel_def [of _ "op_word r"])
  let ?argv = "pre @ Some v # Some g # ps' @ post"
  have "redirect argc ?argv (length pre) rd = Inr (Some (apply_op r (Some g) rd))"
    using redirect_cstr [of "length pre" ?argv v "op_word r"] ps(2) Cons.prems(2) ps(1) by (simp add: nth_append)
  then have step: "dup_scan argc (length pre) ?argv rd
      = dup_scan argc (length (pre @ [None, Some g])) ((pre @ [None, Some g]) @ ps' @ post) (apply_op r (Some g) rd)"
    using Cons.prems(2) ps(1) by (subst dup_scan.simps) (simp add: list_update_append)
  obtain fs where "dup_scan argc (length (pre @ [None, Some g])) ((pre @ [None, Some g]) @ ps' @ post) (apply_op r (Some g) rd)
      = Inr ((pre @ [None, Some g]) @ file_args fs @ post, applied (map fst rds) fs (apply_op r (Some g) rd))"
    "list_all2 cstr fs (map snd rds)" "length (file_args fs) = length ps'"
    using Cons.IH [OF ps(4), of "pre @ [None, Some g]" "apply_op r (Some g) rd"] Cons.prems(2) ps(1) by auto
  with step ps(1,3) rf show ?case by (intro exI [of _ "g # fs"]) simp
qed

text \<open>What the redirections mean: the last one of each kind counts.\<close>

definition last_file :: "redirection set \<Rightarrow> (redirection \<times> u8 list) list \<Rightarrow> u8 list option" where
  "last_file R rds = (let xs = filter (\<lambda>x. fst x \<in> R) rds in if xs = [] then None else Some (snd (last xs)))"

definition append_flag :: "redirection \<Rightarrow> (redirection \<times> u8 list) list \<Rightarrow> u32" where
  "append_flag r rds = (if r \<in> fst ` set rds then O_APPEND else 0)"

definition redir_rel :: "redir \<Rightarrow> (redirection \<times> u8 list) list \<Rightarrow> bool" where
  "redir_rel rd rds \<longleftrightarrow> rel_option cstr (rd_in rd) (last_file {From} rds)
     \<and> rel_option cstr (rd_out rd) (last_file {To, Append_To} rds) \<and> rel_option cstr (rd_err rd) (last_file {Err_To, Err_Append} rds)
     \<and> rd_outappend rd = append_flag Append_To rds \<and> rd_errappend rd = append_flag Err_Append rds"

lemma last_file_snoc: "last_file R (rds @ [(r, f)]) = (if r \<in> R then Some f else last_file R rds)"
  by (simp add: last_file_def)

lemma append_flag_snoc: "append_flag r (rds @ [(q, f)]) = (if q = r then O_APPEND else append_flag r rds)"
  by (auto simp: append_flag_def)

lemma applied_rel:
  "list_all2 cstr fs (map snd rds) \<Longrightarrow> redir_rel rd before \<Longrightarrow> redir_rel (applied (map fst rds) fs rd) (before @ rds)"
proof (induction rds arbitrary: fs rd before)
  case (Cons rf rds)
  obtain r f where rf: "rf = (r, f)" by (cases rf)
  with Cons.prems(1) obtain g gs where fs: "fs = g # gs" "cstr g f" "list_all2 cstr gs (map snd rds)"
    by (auto simp: list_all2_Cons2)
  have "redir_rel (apply_op r (Some g) rd) (before @ [(r, f)])"
    using Cons.prems(2) fs(2) by (cases r) (simp_all add: redir_rel_def last_file_snoc append_flag_snoc)
  from Cons.IH [OF fs(3) this] show ?case by (simp add: rf fs(1))
qed simp

section \<open>Opening the files\<close>

definition with_file :: "file_obj option list \<Rightarrow> nat option \<Rightarrow> file_obj option \<Rightarrow> file_obj option list" where
  "with_file t f obj = (case f of None \<Rightarrow> t | Some i \<Rightarrow> t[i := obj])"

definition slot_free :: "file_obj option list \<Rightarrow> nat option \<Rightarrow> bool" where
  "slot_free t f \<longleftrightarrow> (\<forall>i. f = Some i \<longrightarrow> 3 \<le> i \<and> i < 16 \<and> t ! i = None)"

definition file_of :: "u8 list option \<Rightarrow> u32 \<Rightarrow> file_obj option" where
  "file_of f flags = map_option (\<lambda>f. Opened f flags) f"

text \<open>The standard files that redirections give, and that the kernel opens them.\<close>

definition red_in :: "(redirection \<times> u8 list) list \<Rightarrow> file_obj option" where
  "red_in rds = file_of (last_file {From} rds) (O_RDONLY OR append_flag Append_To rds OR O_CREAT)"

definition red_out :: "(redirection \<times> u8 list) list \<Rightarrow> file_obj option" where
  "red_out rds = file_of (last_file {To, Append_To} rds) (O_WRONLY OR append_flag Append_To rds OR O_CREAT)"

definition red_err :: "(redirection \<times> u8 list) list \<Rightarrow> file_obj option" where
  "red_err rds = file_of (last_file {Err_To, Err_Append} rds) (O_WRONLY OR append_flag Err_Append rds OR O_CREAT)"

definition opens :: "kernel_env \<Rightarrow> file_obj option \<Rightarrow> bool" where
  "opens E obj \<longleftrightarrow> (case obj of Some (Opened f flags) \<Rightarrow> ke_opens E f flags | _ \<Rightarrow> True)"

lemma run_open_slot:
  assumes "length (d_files d) = 16" "free_fds (d_files d) \<noteq> {}" "rel_option cstr p f" "obj = file_of f flags"
    and "k < length fds" "fds ! k = EOF" and opens: "opens E obj"
  obtains i where "run (desc_os E) (open_slot p flags k fds) d =
      ([], Returns (True, fds[k := fd_word i]), d\<lparr>d_files := with_file (d_files d) i obj\<rparr>)"
    "slot_free (d_files d) i" "i = None \<longleftrightarrow> obj = None"
proof (cases f)
  case None
  with assms(3) have "p = None" by simp
  with None assms(4-6) list_update_id [of fds k] show ?thesis
    by (intro that [of None]) (simp_all add: open_slot_def with_file_def slot_free_def fd_word_def file_of_def)
next
  case (Some g)
  with assms(3) obtain v where v: "p = Some v" "cstr v g" by (auto simp: option_rel_Some2)
  obtain i where "new_fd (d_files d) = Some i" "3 \<le> i" "i < 16" "d_files d ! i = None" using new_fd_free [OF assms(1,2)] .
  moreover have "ke_opens E g flags" using opens assms(4) Some by (simp add: opens_def file_of_def)
  ultimately show ?thesis using Some v assms(4)
    by (intro that [of "Some i"])
      (simp_all add: open_slot_def with_file_def slot_free_def fd_word_def fd_word_EOF file_of_def cstring_cstr)
qed

lemma free_with_file: "length t = 16 \<Longrightarrow> card (free_fds t) \<le> card (free_fds (with_file t f obj)) + 1"
proof (cases f; cases obj)
  fix i x
  assume "length t = 16" "f = Some i" "obj = Some x"
  then have "free_fds (with_file t f obj) = free_fds t - {i}" by (simp add: with_file_def free_fds_update)
  then show ?thesis by (simp add: card_Diff_singleton_if) linarith
next
  fix i
  assume "length t = 16" "f = Some i" "obj = None"
  then have "free_fds t \<subseteq> free_fds (with_file t f obj)" by (cases "i < 16"; auto simp: with_file_def free_fds_def nth_list_update)
  then show ?thesis by (meson card_mono finite_free le_add1 order_trans)
qed (simp_all add: with_file_def)

lemma with_file_length [simp]: "length (with_file t f obj) = length t"
  by (simp add: with_file_def split: option.split)

lemma run_dupfile:
  assumes "length (d_files d) = 16" "5 \<le> card (free_fds (d_files d))" "redir_rel rd rds"
    and "dup_scan argc 0 argv \<lparr>rd_in = None, rd_out = None, rd_err = None, rd_outappend = 0, rd_errappend = 0\<rparr> = Inr (argv', rd)"
    and "A = red_in rds" "B = red_out rds" "C = red_err rds" "opens E A" "opens E B" "opens E C"
  obtains i j k where "run (desc_os E) (dupfile ub argc argv) d = ([], Returns (0, argv', [fd_word i, fd_word j, fd_word k]),
      d\<lparr>d_files := with_file (with_file (with_file (d_files d) i A) j B) k C\<rparr>)"
    "slot_free (d_files d) i" "slot_free (with_file (d_files d) i A) j" "slot_free (with_file (with_file (d_files d) i A) j B) k"
    "i = None \<longleftrightarrow> A = None" "j = None \<longleftrightarrow> B = None" "k = None \<longleftrightarrow> C = None"
proof -
  let ?t = "d_files d"
  have rel: "rel_option cstr (rd_in rd) (last_file {From} rds)" "rel_option cstr (rd_out rd) (last_file {To, Append_To} rds)"
    "rel_option cstr (rd_err rd) (last_file {Err_To, Err_Append} rds)" "rd_outappend rd = append_flag Append_To rds"
    "rd_errappend rd = append_flag Err_Append rds" using assms(3) by (simp_all add: redir_rel_def)
  have c0: "free_fds ?t \<noteq> {}" using assms(2) by auto
  have obj: "A = file_of (last_file {From} rds) (O_RDONLY OR rd_outappend rd OR O_CREAT)"
    "B = file_of (last_file {To, Append_To} rds) (O_WRONLY OR rd_outappend rd OR O_CREAT)"
    "C = file_of (last_file {Err_To, Err_Append} rds) (O_WRONLY OR rd_errappend rd OR O_CREAT)"
    using assms(5-7) rel(4,5) by (simp_all add: red_in_def red_out_def red_err_def)
  obtain i where i: "run (desc_os E) (open_slot (rd_in rd) (O_RDONLY OR rd_outappend rd OR O_CREAT) 0 [EOF, EOF, EOF]) d =
      ([], Returns (True, [EOF, EOF, EOF][0 := fd_word i]), d\<lparr>d_files := with_file ?t i A\<rparr>)" "slot_free ?t i" "i = None \<longleftrightarrow> A = None"
    by (rule run_open_slot [OF assms(1) c0 rel(1) obj(1), of 0 "[EOF, EOF, EOF]" E]) (simp_all add: assms(8))
  let ?t1 = "with_file ?t i A" let ?d1 = "d\<lparr>d_files := ?t1\<rparr>"
  have c1: "4 \<le> card (free_fds ?t1)" using free_with_file [OF assms(1), of i A] assms(2) by simp
  have l1: "length (d_files ?d1) = 16" "free_fds (d_files ?d1) \<noteq> {}" using assms(1) c1 by auto
  obtain j where j0: "run (desc_os E) (open_slot (rd_out rd) (O_WRONLY OR rd_outappend rd OR O_CREAT) 1 [fd_word i, EOF, EOF]) ?d1 =
      ([], Returns (True, [fd_word i, EOF, EOF][1 := fd_word j]), ?d1\<lparr>d_files := with_file (d_files ?d1) j B\<rparr>)"
      "slot_free (d_files ?d1) j" "j = None \<longleftrightarrow> B = None"
    by (rule run_open_slot [OF l1 rel(2) obj(2), of 1 "[fd_word i, EOF, EOF]" E]) (simp_all add: assms(9))
  let ?t2 = "with_file ?t1 j B" let ?d2 = "d\<lparr>d_files := ?t2\<rparr>"
  have "3 \<le> card (free_fds ?t2)" using free_with_file [of ?t1 j B] c1 assms(1) by simp
  then have l2: "length (d_files ?d2) = 16" "free_fds (d_files ?d2) \<noteq> {}" using assms(1) by auto
  obtain k where k0: "run (desc_os E) (open_slot (rd_err rd) (O_WRONLY OR rd_errappend rd OR O_CREAT) 2 [fd_word i, fd_word j, EOF]) ?d2 =
      ([], Returns (True, [fd_word i, fd_word j, EOF][2 := fd_word k]), ?d2\<lparr>d_files := with_file (d_files ?d2) k C\<rparr>)"
      "slot_free (d_files ?d2) k" "k = None \<longleftrightarrow> C = None"
    by (rule run_open_slot [OF l2 rel(3) obj(3), of 2 "[fd_word i, fd_word j, EOF]" E]) (simp_all add: assms(10))
  let ?t3 = "with_file ?t2 k C" let ?d3 = "d\<lparr>d_files := ?t3\<rparr>"
  have j: "run (desc_os E) (open_slot (rd_out rd) (O_WRONLY OR rd_outappend rd OR O_CREAT) 1 [fd_word i, EOF, EOF]) ?d1 =
      ([], Returns (True, [fd_word i, fd_word j, EOF]), ?d2)" using j0(1) by simp
  have k: "run (desc_os E) (open_slot (rd_err rd) (O_WRONLY OR rd_errappend rd OR O_CREAT) 2 [fd_word i, fd_word j, EOF]) ?d2 =
      ([], Returns (True, [fd_word i, fd_word j, fd_word k]), ?d3)" using k0(1) by (simp add: numeral_2_eq_2)
  let ?in = "(rd_in rd, O_RDONLY OR rd_outappend rd OR O_CREAT)" and ?out = "(rd_out rd, O_WRONLY OR rd_outappend rd OR O_CREAT)"
    and ?err = "(rd_err rd, O_WRONLY OR rd_errappend rd OR O_CREAT)"
  have "run (desc_os E) (open_slots [?err] 2 [fd_word i, fd_word j, EOF]) ?d2 =
      ([] @ [], Returns (True, [fd_word i, fd_word j, fd_word k]), ?d3)"
    unfolding open_slots.simps by (rule run_bind [OF k]) simp_all
  then have "run (desc_os E) (open_slots [?out, ?err] 1 [fd_word i, EOF, EOF]) ?d1 =
      ([] @ [], Returns (True, [fd_word i, fd_word j, fd_word k]), ?d3)"
    unfolding open_slots.simps(2) [of _ _ "[?err]"] by (intro run_bind [OF j]) (simp_all add: numeral_2_eq_2 [symmetric] del: open_slots.simps)
  then have slots: "run (desc_os E) (open_slots [?in, ?out, ?err] 0 [EOF, EOF, EOF]) d =
      ([] @ [], Returns (True, [fd_word i, fd_word j, fd_word k]), ?d3)"
    unfolding open_slots.simps(2) [of _ _ "[?out, ?err]"] by (intro run_bind [OF i(1)]) (simp_all del: open_slots.simps)
  have "run (desc_os E) (dupfile ub argc argv) d = ([] @ [] @ [], Returns (0, argv', [fd_word i, fd_word j, fd_word k]), ?d3)"
    unfolding dupfile_def assms(4) liftP_simps bindP.simps prod.case
    by (rule run_bind [OF slots [unfolded append_Nil]]) simp_all
  then show ?thesis using that i(2,3) j0(2,3) k0(2,3) by simp
qed

section \<open>The whole line\<close>

lemma run_wait_all: "run (desc_os E) (wait_all n) d = ([], Returns (), d\<lparr>d_waits := d_waits d + n\<rparr>)"
  by (induction n arbitrary: d) simp_all

lemma last_jobs: "segs \<noteq> [] \<Longrightarrow> \<exists>x. snd (snd (last (jobs k inp out err serr segs))) = [x, out, err]"
  by (induction k inp out err serr segs rule: jobs.induct) (auto simp: jobs_ne)

lemma closed_at:
  assumes "closed F i = fs" "fd_ok fs j" "length F = 16"
  shows "fd_ok F j" "j = None \<or> i \<noteq> j"
proof -
  have "F ! b = fs ! b \<and> i \<noteq> Some b" if b: "j = Some b" for b
  proof -
    have b16: "b < 16" "fs ! b \<noteq> None" using b assms(2) by (simp_all add: fd_ok_def)
    then have ne: "i \<noteq> Some b" using assms(1,3) by (auto simp: closed_def)
    then have "F ! b = fs ! b" using assms(1) by (auto simp: closed_def split: option.splits)
    with ne show ?thesis by simp
  qed
  then show "fd_ok F j" "j = None \<or> i \<noteq> j" using assms(2) by (auto simp: fd_ok_def)
qed

lemma std_of_closed:
  assumes "wired d i fs" "fd_ok fs j" "0 < n" "n < 3"
  shows "std_of (d_files d) j n = std_of fs j n"
proof (cases j)
  case None
  then show ?thesis using wired_std [OF assms(1,3,4)] by (simp add: std_of_def)
next
  case (Some b)
  have c: "closed (d_files d) i = fs" "length (d_files d) = 16" using assms(1) by (simp_all add: wired_def)
  have "i \<noteq> Some b" using closed_at(2) [OF c(1) assms(2) c(2)] Some by auto
  then have "d_files d ! b = fs ! b" using c(1) by (auto simp: closed_def split: option.splits)
  then show ?thesis by (simp add: std_of_def Some)
qed

lemma run_exec_part:
  assumes w: "wired d i fs" and ok: "fd_ok fs j" "fd_ok fs k" "k = None \<or> j \<noteq> k"
    and mid: "list_all2 word_rel mid (pipeline_words segs)" "segs \<noteq> []" "list_all (seg_ok E) segs"
    and post: "post = None # q" "list_all no_bar (take m post)" "m \<le> length post"
    and buf: "length buf = 1024" "name_room segs \<le> 1024" and pids: "\<And>n. ke_pid E n \<noteq> 0"
  shows "\<exists>es buf' d'. run (desc_os E)
      (bindP (exec_loop (length mid + m) 0 \<lparr>ex_p = True, ex_bargv = None, ex_name = 0, ex_buf = buf, ex_argv = mid @ post,
                   ex_infd = fd_word i, ex_count = 0\<rparr>) (\<lambda>res. case res of
            Inl buf \<Rightarrow> Done buf
          | Inr x \<Rightarrow>
              bindP (builtin_command (drop (ex_name x) (ex_buf x)) (ex_argv x) (ex_bargv x) (ex_infd x) (fd_word j) (fd_word k)) (\<lambda>_.
              seqP (wait_all (ex_count x + 1)) (Done (ex_buf x))))) d = (es, Returns buf', d')
    \<and> list_all2 runs_job es (jobs (d_pipes d) (std_of (d_files d) i 0) (std_of fs j 1) (std_of fs k 2) (fs ! 2) segs)
    \<and> d_files d' = closed (closed fs j) k \<and> d_waits d' = d_waits d + length segs \<and> d_forks d' = d_forks d + length segs"
proof -
  let ?os = "desc_os E" and ?js = "jobs (d_pipes d) (std_of (d_files d) i 0) (std_of fs j 1) (std_of fs k 2) (fs ! 2) segs"
  let ?x0 = "\<lparr>ex_p = True, ex_bargv = None, ex_name = 0, ex_buf = buf, ex_argv = mid @ post, ex_infd = fd_word i, ex_count = 0\<rparr>"
  have "loop_done E (length ([] :: args)) ?x0 d fs post ?js (length mid) (length segs - 1)"
    by (rule exec_pipeline [OF mid]) (use w buf pids in simp_all)
  then obtain es x d1 inn pre v args where
    run: "run ?os (exec_loop (length mid) 0 ?x0) d = (es, Returns (Inr x), d1)" and
    es: "all_end es" "list_all2 runs_job es (butlast ?js)" and w1: "wired d1 inn fs" "d_waits d1 = d_waits d"
      "d_forks d1 = d_forks d + (length segs - 1)" and
    x: "ex_infd x = fd_word inn" "ex_count x = length segs - 1" "\<not> ex_p x" "ex_argv x = pre @ Some v # map Some args @ post"
      "length pre + 1 + length args = length mid" "ex_bargv x = Some (length pre + 1)" and
    last: "std_of (d_files d1) inn 0 = hd (snd (snd (last ?js)))" "cstr (drop (ex_name x) (ex_buf x)) (path_of (fst (last ?js)))"
      "list_all2 cstr args (fst (snd (last ?js)))"
    unfolding loop_done_def by auto
  have skip: "exec_loop m (length mid) x = Done (Inr x)"
    by (rule exec_skip) (use x(3-5) post(2,3) in \<open>simp_all add: x(5) [symmetric]\<close>)
  have loop: "run ?os (exec_loop (length mid + m) 0 ?x0) d = (es @ [], Returns (Inr x), d1)"
    unfolding exec_split by (rule run_bind [OF run es(1)]) (simp add: skip)
  have F: "closed (d_files d1) inn = fs" "length (d_files d1) = 16" "fd_ok (d_files d1) inn" using w1(1) by (simp_all add: wired_def)
  have aw: "arg_words (ex_argv x) (ex_bargv x) = Some args"
    by (simp add: arg_words_def x(4,6) post(1) words_up del: not_None_eq)
  let ?file = "drop (ex_name x) (ex_buf x)"
  obtain e where e: "run ?os (builtin_command ?file (ex_argv x) (ex_bargv x) (fd_word inn) (fd_word j) (fd_word k)) d1 =
      ([e], Returns (ke_pid E (d_forks d1)), d1\<lparr>d_files := closed (closed (closed (d_files d1) inn) j) k, d_forks := d_forks d1 + 1\<rparr>)"
    "fst e = Gone (Do_Execve ?file (Some args) (Some envp))"
    "take 3 (d_files (snd e)) = [std_of (d_files d1) inn 0, std_of (d_files d1) j 1, std_of (d_files d1) k 2]"
    using run_builtin_command [OF F(3) closed_at(1) [OF F(1) ok(1) F(2)] closed_at(1) [OF F(1) ok(2) F(2)]
        closed_at(2) [OF F(1) ok(1) F(2)] closed_at(2) [OF F(1) ok(2) F(2)] ok(3) F(2) aw pids, of ?file] by blast
  let ?d2 = "d1\<lparr>d_files := closed (closed fs j) k, d_forks := d_forks d1 + 1\<rparr>" let ?d3 = "?d2\<lparr>d_waits := d_waits ?d2 + (ex_count x + 1)\<rparr>"
  obtain y where y: "snd (snd (last ?js)) = [y, std_of fs j 1, std_of fs k 2]" using last_jobs [OF mid(2)] by blast
  have std: "std_of (d_files d1) j 1 = std_of fs j 1" "std_of (d_files d1) k 2 = std_of fs k 2"
    using std_of_closed [OF w1(1)] ok by simp_all
  have job: "runs_job e (last ?js)" using e(2,3) last y std by (simp add: runs_job_def)
  have jobs: "list_all2 runs_job (es @ [e]) ?js"
    using list_all2_appendI [OF es(2), of "[e]" "[last ?js]"] job jobs_ne [OF mid(2)] by simp
  have wait: "run ?os (seqP (wait_all (ex_count x + 1)) (Done (ex_buf x))) ?d2 = ([] @ [], Returns (ex_buf x), ?d3)"
    by (rule run_seq [OF run_wait_all]) simp_all
  let ?k2 = "\<lambda>res. case res of Inl buf \<Rightarrow> Done buf
          | Inr x \<Rightarrow> bindP (builtin_command (drop (ex_name x) (ex_buf x)) (ex_argv x) (ex_bargv x) (ex_infd x) (fd_word j) (fd_word k)) (\<lambda>_.
              seqP (wait_all (ex_count x + 1)) (Done (ex_buf x)))"
  have cmd: "run ?os (?k2 (Inr x)) d1 = ([e] @ [], Returns (ex_buf x), ?d3)"
    unfolding sum.case x(1) by (rule run_bind [OF e(1) [unfolded F(1)]]) (use e(2) wait in \<open>simp_all add: all_end_def\<close>)
  have "run ?os (bindP (exec_loop (length mid + m) 0 ?x0) ?k2) d = (es @ [e], Returns (ex_buf x), ?d3)"
    by (rule run_bind [OF loop [unfolded append_Nil2] es(1)]) (use cmd in simp)
  moreover have "d_files ?d3 = closed (closed fs j) k" "d_waits ?d3 = d_waits d + length segs" "d_forks ?d3 = d_forks d + length segs"
    using w1(2,3) x(2) mid(2) by (cases segs; simp)+
  ultimately show ?thesis using jobs by blast
qed

definition or_std :: "file_obj option \<Rightarrow> file_obj option \<Rightarrow> file_obj option" where
  "or_std obj std = (case obj of None \<Rightarrow> std | Some _ \<Rightarrow> obj)"

text \<open>The table with the files of the redirections.\<close>

lemma with_file_table:
  assumes "length t = 16" "slot_free t i" "slot_free (with_file t i A) j" "slot_free (with_file (with_file t i A) j B) k"
    and "i = None \<longleftrightarrow> A = None" "j = None \<longleftrightarrow> B = None" "k = None \<longleftrightarrow> C = None"
  defines "t3 \<equiv> with_file (with_file (with_file t i A) j B) k C"
  shows "fd_ok t3 i" "closed t3 i = with_file (with_file t j B) k C" "fd_ok (closed t3 i) j" "fd_ok (closed t3 i) k"
    "k = None \<or> j \<noteq> k" "closed (closed (closed t3 i) j) k = t" "std_of t3 i 0 = or_std A (t ! 0)"
    "std_of (closed t3 i) j 1 = or_std B (t ! 1)" "std_of (closed t3 i) k 2 = or_std C (t ! 2)" "closed t3 i ! 2 = t ! 2"
  using assms(1-7) unfolding t3_def
  by (cases i; cases j; cases k; force simp: with_file_def slot_free_def fd_ok_def closed_def std_of_def or_std_def nth_list_update
    split: if_splits intro!: nth_equalityI)+

lemma file_args_no_bar: "list_all2 cstr gs fs \<Longrightarrow> [0x7c] \<notin> set fs \<Longrightarrow> list_all no_bar (file_args gs)"
  by (induction rule: list_all2_induct) (auto simp: no_bar_def word_rel_def)

text \<open>
  C40. The shell runs a pipeline.  The line has commands with bars between them, and all its redirections
  at its end; the commands exist, the kernel opens the files of the redirections, it gives every child a
  number that is not 0, and the shell has five free descriptors, so that no call panics for want of one.
  Then \<open>builtin_exec\<close> starts one program for each command, in order, with its arguments and nothing else,
  and the standard files the line means: the first reads the file of \<open><\<close>, or what the shell reads; every
  other one reads the pipe that the one before it writes; the last one writes the files of \<open>>\<close> and \<open>2>\<close>
  (the last one of each kind counts, appending after \<open>>>\<close>), or what the shell writes.  It waits for as many
  children as it started, and its own descriptors are what they were: none is lost.  The descriptors are
  those of \<open>desc_os\<close>: \<open>kernel_agrees\<close> of Ylos_Fd shows that \<open>sys_open\<close>, \<open>sys_close\<close>, \<open>sys_dup2\<close>, \<open>sys_pipe\<close>
  and \<open>sys_stat\<close>, when they come back, do to a task's files what \<open>desc_os\<close> says.
\<close>
theorem pipeline_runs:
  assumes "segs \<noteq> []" "list_all (seg_ok E) segs" "list_all (\<lambda>w. op_of w = None) (pipeline_words segs)"
    and "[0x7c] \<notin> set (map snd rds)" "list_all2 word_rel ps (pipeline_words segs @ red_words rds)"
    and "length buf = 1024" "name_room segs \<le> 1024" "length (d_files d) = 16" "5 \<le> card (free_fds (d_files d))"
    and "opens E (red_in rds)" "opens E (red_out rds)" "opens E (red_err rds)" and pids: "\<And>n. ke_pid E n \<noteq> 0"
  shows "\<exists>es buf' d'. run (desc_os E) (builtin_exec ub (length ps) (ps @ None # rest) buf) d = (es, Returns buf', d')
    \<and> list_all2 runs_job es (jobs (d_pipes d) (or_std (red_in rds) (d_files d ! 0)) (or_std (red_out rds) (d_files d ! 1))
        (or_std (red_err rds) (d_files d ! 2)) (d_files d ! 2) segs)
    \<and> d_files d' = d_files d \<and> d_forks d' = d_forks d + length segs \<and> d_waits d' = d_waits d + length segs"
proof -
  let ?t = "d_files d" and ?rd0 = "\<lparr>rd_in = None, rd_out = None, rd_err = None, rd_outappend = 0, rd_errappend = 0\<rparr>"
  let ?A = "red_in rds" and ?B = "red_out rds" and ?C = "red_err rds"
  from assms(5) obtain mid rs where ps: "ps = mid @ rs" "list_all2 word_rel mid (pipeline_words segs)" "list_all2 word_rel rs (red_words rds)"
    by (auto simp: list_all2_append2)
  have "dup_scan (length ps) 0 (ps @ None # rest) ?rd0 = dup_scan (length ps) (length mid) (mid @ rs @ None # rest) ?rd0"
    using dup_scan_plain [OF ps(2) assms(3), of "[]" "length ps" "rs @ None # rest"] ps(1) by simp
  moreover obtain gs where gs: "dup_scan (length ps) (length mid) (mid @ rs @ None # rest) ?rd0 =
      Inr (mid @ file_args gs @ None # rest, applied (map fst rds) gs ?rd0)"
    "list_all2 cstr gs (map snd rds)" "length (file_args gs) = length rs"
    using dup_scan_red [OF ps(3), of "length ps" mid "None # rest"] ps(1) by auto
  ultimately have scan: "dup_scan (length ps) 0 (ps @ None # rest) ?rd0 =
      Inr (mid @ file_args gs @ None # rest, applied (map fst rds) gs ?rd0)" by simp
  have "redir_rel ?rd0 []" by (simp add: redir_rel_def last_file_def append_flag_def)
  from applied_rel [OF gs(2) this] have rel: "redir_rel (applied (map fst rds) gs ?rd0) rds" by simp
  obtain i j k where dup: "run (desc_os E) (dupfile ub (length ps) (ps @ None # rest)) d =
      ([], Returns (0, mid @ file_args gs @ None # rest, [fd_word i, fd_word j, fd_word k]),
       d\<lparr>d_files := with_file (with_file (with_file ?t i ?A) j ?B) k ?C\<rparr>)" and
    slots: "slot_free ?t i" "slot_free (with_file ?t i ?A) j" "slot_free (with_file (with_file ?t i ?A) j ?B) k"
      "i = None \<longleftrightarrow> ?A = None" "j = None \<longleftrightarrow> ?B = None" "k = None \<longleftrightarrow> ?C = None"
    by (rule run_dupfile [OF assms(8,9) rel scan refl refl refl assms(10-12)])
  let ?t3 = "with_file (with_file (with_file ?t i ?A) j ?B) k ?C" let ?d3 = "d\<lparr>d_files := ?t3\<rparr>"
  note T = with_file_table [OF assms(8) slots]
  have "5 \<le> card (free_fds (closed ?t3 i)) + 2" unfolding T(2)
    using free_with_file [OF assms(8), of j ?B] free_with_file [of "with_file ?t j ?B" k ?C] assms(8,9) by simp
  then have w: "wired ?d3 i (closed ?t3 i)" using T(1) assms(8) by (simp add: wired_def)
  obtain q where q: "file_args gs @ None # rest = None # q" by (cases gs) auto
  have nb: "list_all no_bar (take (length rs) (file_args gs @ None # rest))"
    using file_args_no_bar [OF gs(2) assms(4)] gs(3) by simp
  have m: "length rs \<le> length (file_args gs @ None # rest)" using gs(3) by simp
  note part = run_exec_part [OF w T(3,4,5) ps(2) assms(1,2) q nb m assms(6,7) pids]
  then obtain es buf' d' where run: "run (desc_os E)
      (bindP (exec_loop (length mid + length rs) 0 \<lparr>ex_p = True, ex_bargv = None, ex_name = 0, ex_buf = buf,
           ex_argv = mid @ file_args gs @ None # rest, ex_infd = fd_word i, ex_count = 0\<rparr>) (\<lambda>res. case res of
            Inl buf \<Rightarrow> Done buf
          | Inr x \<Rightarrow>
              bindP (builtin_command (drop (ex_name x) (ex_buf x)) (ex_argv x) (ex_bargv x) (ex_infd x) (fd_word j) (fd_word k)) (\<lambda>_.
              seqP (wait_all (ex_count x + 1)) (Done (ex_buf x))))) ?d3 = (es, Returns buf', d')"
    and res: "list_all2 runs_job es (jobs (d_pipes d) (or_std ?A (?t ! 0)) (or_std ?B (?t ! 1)) (or_std ?C (?t ! 2)) (?t ! 2) segs)"
      "d_files d' = ?t" "d_forks d' = d_forks d + length segs" "d_waits d' = d_waits d + length segs"
    using T(6-10) by auto
  have "run (desc_os E) (builtin_exec ub (length ps) (ps @ None # rest) buf) d = ([] @ es, Returns buf', d')"
  proof -
    let ?fds = "[fd_word i, fd_word j, fd_word k]"
    have fds: "?fds ! 0 = fd_word i" "?fds ! 1 = fd_word j" "?fds ! 2 = fd_word k" "length ps = length mid + length rs" "(0 :: u32) \<noteq> EOF"
      using ps(1) by (simp_all add: EOF_def)
    show ?thesis unfolding builtin_exec_def
      by (rule run_bind [OF dup]) (use run in \<open>simp_all only: prod.case fds if_False all_end_simps simp_thms\<close>)
  qed
  with res show ?thesis by auto
qed

text \<open>
  \<open>ls -l | cat > f\<close>, typed into a shell with its three files: a kernel that has these two programs, opens
  the file, and gives the numbers 2 and 3 to the children.
\<close>

definition demo_env :: kernel_env where
  "demo_env = \<lparr>ke_commands = (\<lambda>p. p \<in> {path_of [0x6c, 0x73], path_of [0x63, 0x61, 0x74]}), ke_opens = (\<lambda>p flags. p = [0x66]),
     ke_pid = (\<lambda>n. if n = 0 then 2 else 3), ke_wait = (\<lambda>n. if n = 0 then 3 else 2), ke_answer = (\<lambda>c. reply 0)\<rparr>"

lemma pipeline_runs_witness:
  defines "d \<equiv> \<lparr>d_files = [Some (Inherited 0), Some (Inherited 1), Some (Inherited 2)] @ replicate 13 None, d_pipes = 0, d_forks = 0, d_waits = 0\<rparr>"
  shows "\<exists>es buf' d'. run (desc_os demo_env) (builtin_exec 7 6 [Some [0x6c, 0x73, 0], Some [0x2d, 0x6c, 0], Some [0x7c, 0],
      Some [0x63, 0x61, 0x74, 0], Some [0x3e, 0], Some [0x66, 0], None] (replicate 1024 0)) d = (es, Returns buf', d')
    \<and> list_all2 runs_job es
       [([0x6c, 0x73], [[0x2d, 0x6c]], [Some (Inherited 0), Some (Write_End 0), Some (Inherited 2)]),
        ([0x63, 0x61, 0x74], [], [Some (Read_End 0), Some (Opened [0x66] (O_WRONLY OR O_CREAT)), Some (Inherited 2)])]
    \<and> d_files d' = d_files d \<and> d_forks d' = 2 \<and> d_waits d' = 2"
proof -
  let ?segs = "[([0x6c, 0x73], [[0x2d, 0x6c]]), ([0x63, 0x61, 0x74], [])] :: segment list" and ?rds = "[(To, [0x66 :: u8])]"
  let ?ps = "[Some [0x6c, 0x73, 0], Some [0x2d, 0x6c, 0], Some [0x7c, 0], Some [0x63, 0x61, 0x74, 0], Some [0x3e, 0], Some [0x66, 0]] :: args"
  have segs: "?segs \<noteq> []" "list_all (seg_ok demo_env) ?segs" "list_all (\<lambda>w. op_of w = None) (pipeline_words ?segs)"
    by (simp_all add: seg_ok_def op_of_def demo_env_def)
  have rds: "[0x7c] \<notin> set (map snd ?rds)" by simp
  have ps: "list_all2 word_rel ?ps (pipeline_words ?segs @ red_words ?rds)"
    by (simp add: word_rel_def cstr_def)
  have len: "length (d_files d) = 16" by (simp add: d_def)
  have "free_fds (d_files d) = {3..<16}" by (auto simp: d_def free_fds_def nth_append)
  then have free: "5 \<le> card (free_fds (d_files d))" by simp
  have red: "red_in ?rds = None" "red_out ?rds = Some (Opened [0x66] (O_WRONLY OR O_CREAT))" "red_err ?rds = None"
    by (simp_all add: red_in_def red_out_def red_err_def last_file_def append_flag_def file_of_def)
  have op: "opens demo_env (red_in ?rds)" "opens demo_env (red_out ?rds)" "opens demo_env (red_err ?rds)"
    unfolding red by (simp_all add: opens_def demo_env_def)
  have pid: "ke_pid demo_env n \<noteq> 0" for n by (simp add: demo_env_def)
  have n: "length ?ps = 6" "length ?segs = 2" "length (replicate 1024 (0 :: u8)) = 1024" "name_room ?segs \<le> 1024" by simp_all
  note r = pipeline_runs [where ub = 7 and rest = "[]", OF segs rds ps n(3,4) len free op pid]
  show ?thesis using r [unfolded n(1,2) red]
    by (simp add: or_std_def d_def del: add_2_eq_Suc add_2_eq_Suc')
qed

end
