(* ===== verification/Ylos_Stream.thy ===== *)
theory Ylos_Stream
  imports Ylos_Pipe Ylos_Mutex
begin

text \<open>
  A pipe between one reader and one writer, on top of the scheduler.  The reader and the writer call
  \<open>pipe_read\<close> and \<open>pipe_write\<close> as often as they like, are suspended in the calls and go on with them
  when they run again; between the calls they, and at any time all other tasks and the clock, do
  whatever the scheduler offers.
\<close>

section \<open>The system\<close>

text \<open>\<open>st_read\<close> and \<open>st_write\<close> are the calls that are suspended: how many bytes the reader still wants,
  which bytes the writer still has.  \<open>st_in\<close> are all bytes that were given to \<open>pipe_write\<close>, \<open>st_out\<close>
  those that \<open>pipe_read\<close> has put into the buffers of the reader.\<close>

record stream =
  st_s :: sched_t
  st_pp :: pipe_t
  st_read :: "nat option"
  st_write :: "u8 list option"
  st_in :: "u8 list"
  st_out :: "u8 list"

text \<open>The state behind a call of the reader and of the writer.\<close>

definition read_done :: "stream \<Rightarrow> pipe_outcome \<Rightarrow> stream" where
  "read_done c r = (case r of
       Pipe_Done s pp bs \<Rightarrow> c\<lparr>st_s := s, st_pp := pp, st_read := None, st_out := st_out c @ bs\<rparr>
     | Pipe_Sleeps s pp bs n \<Rightarrow> c\<lparr>st_s := s, st_pp := pp, st_read := Some n, st_out := st_out c @ bs\<rparr>)"

definition write_done :: "stream \<Rightarrow> u8 list \<Rightarrow> pipe_outcome \<Rightarrow> stream" where
  "write_done c given r = (case r of
       Pipe_Done s pp bs \<Rightarrow> c\<lparr>st_s := s, st_pp := pp, st_write := None, st_in := st_in c @ given\<rparr>
     | Pipe_Sleeps s pp bs n \<Rightarrow> c\<lparr>st_s := s, st_pp := pp, st_write := Some bs, st_in := st_in c @ given\<rparr>)"

text \<open>
  What happens beside the pipe.  The tasks of \<open>B\<close> are suspended in calls: they do nothing else, and
  nobody else wakes them.
\<close>

inductive other_step :: "nat set \<Rightarrow> task_ptr set \<Rightarrow> sched_t \<Rightarrow> sched_t \<Rightarrow> bool" for N B where
  flag: "other_step N B s (s\<lparr>s_intr := b\<rparr>)"
| tick: "clock_handler (s\<lparr>s_intr := False\<rparr>) 0x20 = Inr s' \<Longrightarrow> other_step N B s s'"
| yield: "\<not> s_intr s \<Longrightarrow> task_yield s = Inr s' \<Longrightarrow> other_step N B s s'"
| block: "s_current s \<notin> B \<Longrightarrow> \<not> s_intr s \<Longrightarrow> s_idle s \<noteq> Some (s_current s) \<Longrightarrow>
    (case bl of None \<Rightarrow> block_list | Some l \<Rightarrow> l) \<in> N - {sleep_list} \<Longrightarrow> st \<in> {TASK_BLOCKED, TASK_WAITING} \<Longrightarrow>
    task_block s (s_current s) bl st = Inr s' \<Longrightarrow> other_step N B s s'"
| unblock: "\<not> s_intr s \<Longrightarrow> p \<in> tasks s \<Longrightarrow> waiting_state (state_of s p) \<Longrightarrow> p \<notin> B \<Longrightarrow> task_unblock s p = Inr s' \<Longrightarrow>
    other_step N B s s'"
| sleep: "s_current s \<notin> B \<Longrightarrow> \<not> s_intr s \<Longrightarrow> s_idle s \<noteq> Some (s_current s) \<Longrightarrow> task_sleep s ms = Inr s' \<Longrightarrow>
    other_step N B s s'"

definition suspended :: "task_ptr \<Rightarrow> task_ptr \<Rightarrow> stream \<Rightarrow> task_ptr set" where
  "suspended R W c = (if st_read c = None then {} else {R}) \<union> (if st_write c = None then {} else {W})"

inductive stream_step :: "nat set \<Rightarrow> task_ptr \<Rightarrow> task_ptr \<Rightarrow> stream \<Rightarrow> stream \<Rightarrow> bool" for N R W where
  take: "s_current (st_s c) = R \<Longrightarrow> \<not> s_intr (st_s c) \<Longrightarrow> st_read c = None \<Longrightarrow>
    pipe_read (st_s c) (st_pp c) False [] n = Inr r \<Longrightarrow> stream_step N R W c (read_done c r)"
| take_on: "s_current (st_s c) = R \<Longrightarrow> \<not> s_intr (st_s c) \<Longrightarrow> st_read c = Some n \<Longrightarrow>
    pipe_read (st_s c) (st_pp c) True [] n = Inr r \<Longrightarrow> stream_step N R W c (read_done c r)"
| put: "s_current (st_s c) = W \<Longrightarrow> \<not> s_intr (st_s c) \<Longrightarrow> st_write c = None \<Longrightarrow>
    pipe_write (st_s c) (st_pp c) False bs = Inr r \<Longrightarrow> stream_step N R W c (write_done c bs r)"
| put_on: "s_current (st_s c) = W \<Longrightarrow> \<not> s_intr (st_s c) \<Longrightarrow> st_write c = Some bs \<Longrightarrow>
    pipe_write (st_s c) (st_pp c) True bs = Inr r \<Longrightarrow> stream_step N R W c (write_done c [] r)"
| other: "other_step N (suspended R W c) (st_s c) s' \<Longrightarrow> stream_step N R W c (c\<lparr>st_s := s'\<rparr>)"

section \<open>The invariant\<close>

text \<open>
  The pipe holds \<open>xs\<close>; \<open>rd\<close> and \<open>wr\<close>: the reader and the writer are suspended in a call.  A suspended
  task is either noted in the pipe, asleep, with nothing to do, or it can run and finds its byte or
  its room.
\<close>

definition pipe_ok ::
    "nat set \<Rightarrow> task_ptr \<Rightarrow> task_ptr \<Rightarrow> (nat \<Rightarrow> task_ptr list) \<Rightarrow> sched_t \<Rightarrow> pipe_t \<Rightarrow> u8 list \<Rightarrow> bool \<Rightarrow> bool \<Rightarrow> bool" where
  "pipe_ok N R W L s pp xs rd wr \<longleftrightarrow>
     sched_wf s N L \<and> block_list \<in> N \<and> R \<in> tasks s \<and> W \<in> tasks s \<and> R \<noteq> W \<and> s_idle s \<noteq> Some R \<and> s_idle s \<noteq> Some W
     \<and> ring_rep (pp_fifo pp) xs
     \<and> (if pp_rx pp = None then rd \<longrightarrow> runnable s R \<and> xs \<noteq> []
        else pp_rx pp = Some R \<and> rd \<and> R \<in> set (L block_list) \<and> xs = [])
     \<and> (if pp_tx pp = None then wr \<longrightarrow> runnable s W \<and> length xs < ring_room (pp_fifo pp)
        else pp_tx pp = Some W \<and> wr \<and> W \<in> set (L block_list) \<and> length xs = ring_room (pp_fifo pp))"

lemma pipe_okD:
  assumes "pipe_ok N R W L s pp xs rd wr"
  shows "sched_wf s N L" "block_list \<in> N" "R \<in> tasks s" "W \<in> tasks s" "R \<noteq> W" "s_idle s \<noteq> Some R" "s_idle s \<noteq> Some W"
    and "ring_rep (pp_fifo pp) xs" "0 < ring_room (pp_fifo pp)" "length xs \<le> ring_room (pp_fifo pp)"
  using assms fq.room_pos [of "pp_fifo pp" xs] by (auto simp: pipe_ok_def)

lemma current_not_queued: "sched_wf s N L \<Longrightarrow> i \<in> N \<Longrightarrow> s_current s \<notin> set (L i)"
  using current_not_waiting [of s N L] on_one_list(2) [of s N L "s_current s" i] by (auto simp: sched_wf_def)

lemma current_runnable: "sched_wf s N L \<Longrightarrow> runnable s (s_current s)"
  by (simp add: sched_wf_def runnable_def)

section \<open>One call\<close>

text \<open>Waking whoever the pipe has noted, when it can go on.\<close>

lemma wake_writer:
  assumes ok: "pipe_ok N R W L s pp xs rd wr" and intr: "\<not> s_intr s"
  shows "\<exists>s' L'. wake s (pp_tx pp) = Inr s' \<and> sched_wf s' N L' \<and> same_frame s s' \<and> s_current s' = s_current s
    \<and> (wr \<longrightarrow> runnable s' W) \<and> (runnable s R \<longrightarrow> runnable s' R) \<and> (R \<in> set (L block_list) \<longrightarrow> R \<in> set (L' block_list))"
proof (cases "pp_tx pp")
  case None
  then show ?thesis using ok by (auto simp: wake_def pipe_ok_def same_frame_def)
next
  case (Some p)
  then have p: "p = W" "W \<in> set (L block_list)" and wf: "sched_wf s N L" "block_list \<in> N" and ne: "R \<noteq> W"
    using ok by (auto simp: pipe_ok_def)
  from task_unblock_wf [OF wf(1) intr wf(2) p(2)] obtain s' where s': "task_unblock s W = Inr s'"
    "sched_wf s' N (L(block_list := remove1 W (L block_list)))" "same_frame s s'" "s_current s' = s_current s"
    "\<forall>q. state_of s' q = (if q = W then TASK_READY else state_of s q)" by blast
  then show ?thesis using Some p(1) ne by (auto simp: wake_def runnable_def intro!: exI [of _ s'])
qed

lemma wake_reader:
  assumes ok: "pipe_ok N R W L s pp xs rd wr" and intr: "\<not> s_intr s"
  shows "\<exists>s' L'. wake s (pp_rx pp) = Inr s' \<and> sched_wf s' N L' \<and> same_frame s s' \<and> s_current s' = s_current s
    \<and> (rd \<longrightarrow> runnable s' R) \<and> (runnable s W \<longrightarrow> runnable s' W) \<and> (W \<in> set (L block_list) \<longrightarrow> W \<in> set (L' block_list))"
proof (cases "pp_rx pp")
  case None
  then show ?thesis using ok by (auto simp: wake_def pipe_ok_def same_frame_def)
next
  case (Some p)
  then have p: "p = R" "R \<in> set (L block_list)" and wf: "sched_wf s N L" "block_list \<in> N" and ne: "R \<noteq> W"
    using ok by (auto simp: pipe_ok_def)
  from task_unblock_wf [OF wf(1) intr wf(2) p(2)] obtain s' where s': "task_unblock s R = Inr s'"
    "sched_wf s' N (L(block_list := remove1 R (L block_list)))" "same_frame s s'" "s_current s' = s_current s"
    "\<forall>q. state_of s' q = (if q = R then TASK_READY else state_of s q)" by blast
  then show ?thesis using Some p(1) ne by (auto simp: wake_def runnable_def intro!: exI [of _ s'])
qed

text \<open>Taking one byte, and putting one.\<close>

lemma read_byte:
  assumes ok: "pipe_ok N R W L s pp (x # xs) rd wr" and intr: "\<not> s_intr s" and cur: "s_current s = R"
  shows "\<exists>f s' L'. fifo_get (pp_fifo pp) = Inr (f, x) \<and> wake s (pp_tx pp) = Inr s'
    \<and> pipe_ok N R W L' s' (pp\<lparr>pp_fifo := f, pp_tx := None\<rparr>) xs False wr \<and> \<not> s_intr s' \<and> s_current s' = R"
proof -
  note D = pipe_okD [OF ok]
  obtain f where f: "fifo_get (pp_fifo pp) = Inr (f, x)" "ring_rep f xs" "ring_room f = ring_room (pp_fifo pp)"
    using D(8) by (rule fifo_get_ring)
  from wake_writer [OF ok intr] obtain s' L' where s': "wake s (pp_tx pp) = Inr s'" "sched_wf s' N L'" "same_frame s s'"
    "s_current s' = s_current s" "wr \<longrightarrow> runnable s' W" by blast
  have "pp_rx pp = None" using ok by (auto simp: pipe_ok_def split: if_splits)
  then have "pipe_ok N R W L' s' (pp\<lparr>pp_fifo := f, pp_tx := None\<rparr>) xs False wr"
    using D s'(2,3,5) f(2,3) by (auto simp: pipe_ok_def same_frame_def)
  then show ?thesis using f(1) s' intr cur by (auto simp: same_frame_def)
qed

lemma write_byte:
  assumes ok: "pipe_ok N R W L s pp xs rd wr" and room: "length xs < ring_room (pp_fifo pp)" and intr: "\<not> s_intr s"
    and cur: "s_current s = W"
  shows "\<exists>f s' L'. fifo_put (pp_fifo pp) b = Inr f \<and> wake s (pp_rx pp) = Inr s'
    \<and> pipe_ok N R W L' s' (pp\<lparr>pp_fifo := f, pp_rx := None\<rparr>) (xs @ [b]) rd False \<and> ring_room f = ring_room (pp_fifo pp)
    \<and> \<not> s_intr s' \<and> s_current s' = W"
proof -
  note D = pipe_okD [OF ok]
  obtain f where f: "fifo_put (pp_fifo pp) b = Inr f" "ring_rep f (ring_put (ring_room (pp_fifo pp)) xs b)"
    "ring_room f = ring_room (pp_fifo pp)" using D(8) by (rule fifo_put_ring)
  have xs: "ring_put (ring_room (pp_fifo pp)) xs b = xs @ [b]" using room by (simp add: ring_put_def)
  from wake_reader [OF ok intr] obtain s' L' where s': "wake s (pp_rx pp) = Inr s'" "sched_wf s' N L'" "same_frame s s'"
    "s_current s' = s_current s" "rd \<longrightarrow> runnable s' R" by blast
  have "pp_tx pp = None" using ok room by (auto simp: pipe_ok_def split: if_splits)
  then have "pipe_ok N R W L' s' (pp\<lparr>pp_fifo := f, pp_rx := None\<rparr>) (xs @ [b]) rd False"
    using D s'(2,3,5) f(2,3) unfolding xs by (auto simp: pipe_ok_def same_frame_def)
  then show ?thesis using f(1,3) s' intr cur by (auto simp: same_frame_def)
qed

text \<open>Going to sleep in the pipe.\<close>

lemma pipe_block:
  assumes wf: "sched_wf s N L" and bl: "block_list \<in> N" and intr: "\<not> s_intr s" and idle: "s_idle s \<noteq> Some (s_current s)"
  shows "\<exists>s'. task_block s (s_current s) None TASK_BLOCKED = Inr s' \<and> sched_wf s' N (L(block_list := s_current s # L block_list))
    \<and> same_frame s s' \<and> still_runnable {s_current s} s s'"
proof -
  have "block_list \<noteq> sleep_list" by (simp add: block_list_def sleep_list_def)
  from task_block_wf [OF wf intr _ _ idle bl this, of None TASK_BLOCKED] current_not_waiting [OF wf] show ?thesis by auto
qed

lemma fifo_empty_ring: "ring_rep f xs \<Longrightarrow> fifo_empty f \<longleftrightarrow> xs = []"
  using fifo_empty_count [of f] length_ring_bytes [of f] by (auto simp: ring_rep_def ring_bytes_def)

lemma fifo_full_ring: "ring_rep f xs \<Longrightarrow> fifo_full f = Inr (length xs = ring_room f)"
  using fifo_full_count [of f] length_ring_bytes [of f] by (auto simp: ring_rep_def)

text \<open>The running task is noted nowhere.\<close>

lemma not_noted:
  assumes "pipe_ok N R W L s pp xs rd wr"
  shows "s_current s = R \<Longrightarrow> pp_rx pp = None \<and> (rd \<longrightarrow> xs \<noteq> [])"
    and "s_current s = W \<Longrightarrow> pp_tx pp = None \<and> (wr \<longrightarrow> length xs < ring_room (pp_fifo pp))"
  using assms current_not_queued [OF pipe_okD(1,2) [OF assms]] by (auto simp: pipe_ok_def split: if_splits)

definition read_result :: "nat set \<Rightarrow> task_ptr \<Rightarrow> task_ptr \<Rightarrow> u8 list \<Rightarrow> bool \<Rightarrow> u8 list \<Rightarrow> nat \<Rightarrow> pipe_outcome \<Rightarrow> bool" where
  "read_result N R W xs wr buf n r \<longleftrightarrow> (case r of
       Pipe_Done s pp out \<Rightarrow> n \<le> length xs \<and> out = buf @ take n xs \<and> (\<exists>L. pipe_ok N R W L s pp (drop n xs) False wr)
     | Pipe_Sleeps s pp out m \<Rightarrow> length xs < n \<and> out = buf @ xs \<and> m = n - length xs \<and> (\<exists>L. pipe_ok N R W L s pp [] True wr))"

lemma pipe_read_runs:
  "pipe_ok N R W L s pp xs rd wr \<Longrightarrow> \<not> s_intr s \<Longrightarrow> s_current s = R \<Longrightarrow>
   \<exists>r. pipe_read s pp rd buf n = Inr r \<and> read_result N R W xs wr buf n r"
proof (induction n arbitrary: s pp xs L rd buf)
  case 0
  then have "pipe_ok N R W L s pp xs False wr" using not_noted(1) [OF 0(1,3)] by (simp add: pipe_ok_def)
  then show ?case by (auto simp: read_result_def)
next
  case (Suc n)
  note ok = Suc.prems(1) and intr = Suc.prems(2) and cur = Suc.prems(3)
  note D = pipe_okD [OF ok] and rx = not_noted(1) [OF ok cur]
  show ?case
  proof (cases xs)
    case Nil
    with rx have rd: "\<not> rd" "pp_rx pp = None" by auto
    have idle: "s_idle s \<noteq> Some (s_current s)" using D(6) cur by simp
    from pipe_block [OF D(1,2) intr idle] cur obtain s' where s': "task_block s R None TASK_BLOCKED = Inr s'"
      "sched_wf s' N (L(block_list := R # L block_list))" "same_frame s s'" "still_runnable {R} s s'" by auto
    have tx: "pp_tx pp = None" using ok Nil D(9) by (auto simp: pipe_ok_def split: if_splits)
    have "pipe_ok N R W (L(block_list := R # L block_list)) s' (pp\<lparr>pp_rx := Some R\<rparr>) [] True wr"
      using ok s'(2-4) Nil tx by (auto simp: pipe_ok_def same_frame_def still_runnable_def)
    moreover have "pipe_read s pp rd buf (Suc n) = Inr (Pipe_Sleeps s' (pp\<lparr>pp_rx := Some R\<rparr>) buf (Suc n))"
      using rd s'(1) fifo_empty_ring [OF D(8)] Nil cur by (simp add: running_task_def)
    ultimately show ?thesis using Nil by (auto simp: read_result_def)
  next
    case (Cons x xs')
    from read_byte [of N R W L s pp x xs' rd wr] ok intr cur Cons obtain f s' L' where g:
      "fifo_get (pp_fifo pp) = Inr (f, x)" "wake s (pp_tx pp) = Inr s'"
      "pipe_ok N R W L' s' (pp\<lparr>pp_fifo := f, pp_tx := None\<rparr>) xs' False wr" "\<not> s_intr s'" "s_current s' = R" by blast
    have "pipe_read s pp rd buf (Suc n) = pipe_read s' (pp\<lparr>pp_fifo := f, pp_tx := None\<rparr>) False (buf @ [x]) n"
      using g(1,2) fifo_empty_ring [OF D(8)] Cons by simp
    moreover from Suc.IH [OF g(3-5), of "buf @ [x]"] obtain r where
      "pipe_read s' (pp\<lparr>pp_fifo := f, pp_tx := None\<rparr>) False (buf @ [x]) n = Inr r" "read_result N R W xs' wr (buf @ [x]) n r" by blast
    ultimately show ?thesis by (auto simp: read_result_def Cons split: pipe_outcome.splits)
  qed
qed

definition write_result :: "nat set \<Rightarrow> task_ptr \<Rightarrow> task_ptr \<Rightarrow> u8 list \<Rightarrow> bool \<Rightarrow> u8 list \<Rightarrow> pipe_outcome \<Rightarrow> bool" where
  "write_result N R W xs rd bs r \<longleftrightarrow> (case r of
       Pipe_Done s pp out \<Rightarrow> \<exists>L. pipe_ok N R W L s pp (xs @ bs) rd False
     | Pipe_Sleeps s pp out m \<Rightarrow> \<exists>L k. out = drop k bs \<and> pipe_ok N R W L s pp (xs @ take k bs) rd True)"

lemma pipe_write_runs:
  "pipe_ok N R W L s pp xs rd wr \<Longrightarrow> \<not> s_intr s \<Longrightarrow> s_current s = W \<Longrightarrow>
   \<exists>r. pipe_write s pp wr bs = Inr r \<and> write_result N R W xs rd bs r"
proof (induction bs arbitrary: s pp xs L wr rd)
  case Nil
  then have "pipe_ok N R W L s pp xs rd False" using not_noted(2) [OF Nil(1,3)] by (simp add: pipe_ok_def)
  then show ?case by (auto simp: write_result_def)
next
  case (Cons b bs)
  note ok = Cons.prems(1) and intr = Cons.prems(2) and cur = Cons.prems(3)
  note D = pipe_okD [OF ok] and tx = not_noted(2) [OF ok cur]
  show ?case
  proof (cases "length xs = ring_room (pp_fifo pp)")
    case True
    with tx have wr: "\<not> wr" "pp_tx pp = None" by auto
    have idle: "s_idle s \<noteq> Some (s_current s)" using D(7) cur by simp
    from pipe_block [OF D(1,2) intr idle] cur obtain s' where s': "task_block s W None TASK_BLOCKED = Inr s'"
      "sched_wf s' N (L(block_list := W # L block_list))" "same_frame s s'" "still_runnable {W} s s'" by auto
    have rx: "pp_rx pp = None" using ok True D(9) by (auto simp: pipe_ok_def split: if_splits)
    have "pipe_ok N R W (L(block_list := W # L block_list)) s' (pp\<lparr>pp_tx := Some W\<rparr>) (xs @ take 0 (b # bs)) rd True"
      using ok s'(2-4) True rx by (auto simp: pipe_ok_def same_frame_def still_runnable_def)
    moreover have "pipe_write s pp wr (b # bs) = Inr (Pipe_Sleeps s' (pp\<lparr>pp_tx := Some W\<rparr>) (drop 0 (b # bs)) 0)"
      using wr s'(1) fifo_full_ring [OF D(8)] True cur by (simp add: running_task_def)
    moreover have "write_result N R W xs rd (b # bs) (Pipe_Sleeps s' (pp\<lparr>pp_tx := Some W\<rparr>) (drop 0 (b # bs)) 0)"
      unfolding write_result_def pipe_outcome.case using calculation(1) by blast
    ultimately show ?thesis by blast
  next
    case False
    then have room: "length xs < ring_room (pp_fifo pp)" using D(10) by simp
    from write_byte [OF ok room intr cur] obtain f s' L' where g:
      "fifo_put (pp_fifo pp) b = Inr f" "wake s (pp_rx pp) = Inr s'"
      "pipe_ok N R W L' s' (pp\<lparr>pp_fifo := f, pp_rx := None\<rparr>) (xs @ [b]) rd False" "\<not> s_intr s'" "s_current s' = W" by blast
    have "pipe_write s pp wr (b # bs) = pipe_write s' (pp\<lparr>pp_fifo := f, pp_rx := None\<rparr>) False bs"
      using g(1,2) fifo_full_ring [OF D(8)] False by simp
    moreover from Cons.IH [OF g(3-5)] obtain r where
      "pipe_write s' (pp\<lparr>pp_fifo := f, pp_rx := None\<rparr>) False bs = Inr r" "write_result N R W (xs @ [b]) rd bs r" by blast
    moreover have "write_result N R W xs rd (b # bs) r" if "write_result N R W (xs @ [b]) rd bs r" for r
    proof (cases r)
      case (Pipe_Sleeps s pp out m)
      with that obtain L k where "out = drop k bs" "pipe_ok N R W L s pp ((xs @ [b]) @ take k bs) rd True"
        by (auto simp: write_result_def)
      then have "out = drop (Suc k) (b # bs)" "pipe_ok N R W L s pp (xs @ take (Suc k) (b # bs)) rd True" by simp_all
      then show ?thesis unfolding write_result_def Pipe_Sleeps pipe_outcome.case by blast
    qed (use that in \<open>simp add: write_result_def\<close>)
    ultimately show ?thesis by auto
  qed
qed

section \<open>Every step keeps the invariant\<close>

definition left :: "u8 list option \<Rightarrow> u8 list" where
  "left w = (case w of None \<Rightarrow> [] | Some bs \<Rightarrow> bs)"

definition stream_inv :: "nat set \<Rightarrow> task_ptr \<Rightarrow> task_ptr \<Rightarrow> u8 list \<Rightarrow> stream \<Rightarrow> bool" where
  "stream_inv N R W xs c \<longleftrightarrow> (\<exists>L. pipe_ok N R W L (st_s c) (st_pp c) xs (st_read c \<noteq> None) (st_write c \<noteq> None))
     \<and> st_in c = st_out c @ xs @ left (st_write c)"

lemma left_simps [simp]: "left None = []" "left (Some bs) = bs" by (simp_all add: left_def)

lemma read_done_inv:
  assumes "read_result N R W xs (st_write c \<noteq> None) [] n r" "st_in c = st_out c @ xs @ left (st_write c)"
  shows "\<exists>xs. stream_inv N R W xs (read_done c r)"
proof (cases r)
  case (Pipe_Done s pp out)
  with assms have "stream_inv N R W (drop n xs) (read_done c r)" by (auto simp: read_result_def read_done_def stream_inv_def)
  then show ?thesis by blast
next
  case (Pipe_Sleeps s pp out m)
  with assms have "stream_inv N R W [] (read_done c r)" by (auto simp: read_result_def read_done_def stream_inv_def)
  then show ?thesis by blast
qed

lemma write_done_inv:
  assumes "write_result N R W xs (st_read c \<noteq> None) bs r" "st_in c @ given = st_out c @ xs @ bs"
  shows "\<exists>xs. stream_inv N R W xs (write_done c given r)"
proof (cases r)
  case (Pipe_Done s pp out)
  with assms have "stream_inv N R W (xs @ bs) (write_done c given r)" by (auto simp: write_result_def write_done_def stream_inv_def)
  then show ?thesis by blast
next
  case (Pipe_Sleeps s pp out m)
  with assms(1) obtain L k where "out = drop k bs" "pipe_ok N R W L s pp (xs @ take k bs) (st_read c \<noteq> None) True"
    by (auto simp: write_result_def)
  with Pipe_Sleeps assms(2) have "stream_inv N R W (xs @ take k bs) (write_done c given r)"
    by (auto simp: write_done_def stream_inv_def)
  then show ?thesis by blast
qed

text \<open>The rest of the system leaves the suspended tasks where they are.\<close>

definition undisturbed :: "nat set \<Rightarrow> task_ptr set \<Rightarrow> sched_t \<Rightarrow> (nat \<Rightarrow> task_ptr list) \<Rightarrow> sched_t \<Rightarrow> bool" where
  "undisturbed N B s L s' \<longleftrightarrow> tasks s' = tasks s \<and> s_idle s' = s_idle s \<and> (\<forall>p\<in>B. runnable s p \<longrightarrow> runnable s' p)
     \<and> (\<exists>L'. sched_wf s' N L' \<and> (\<forall>p\<in>B. p \<in> set (L block_list) \<longrightarrow> p \<in> set (L' block_list)))"

lemma undisturbedI:
  assumes "sched_wf s' N L'" "same_frame s s'" "still_runnable X s s'" "X \<inter> B = {}"
    and "\<And>p. p \<in> B \<Longrightarrow> p \<in> set (L block_list) \<Longrightarrow> p \<in> set (L' block_list)"
  shows "undisturbed N B s L s'"
  using assms by (auto simp: undisturbed_def same_frame_def still_runnable_def)

lemma other_step_undisturbed:
  assumes wf: "sched_wf s N L" and step: "other_step N B s s'"
  shows "undisturbed N B s L s'"
  using step
proof (cases rule: other_step.cases)
  case (flag b)
  then show ?thesis using wf by (auto simp: undisturbed_def)
next
  case tick
  have "sched_wf (s\<lparr>s_intr := False\<rparr>) N L" "\<not> s_intr (s\<lparr>s_intr := False\<rparr>)" using wf by simp_all
  from clock_handler_wf [OF this] tick have "undisturbed N B (s\<lparr>s_intr := False\<rparr>) L s'"
    by (auto intro!: undisturbedI [where X = "{}"] simp: block_list_def sleep_list_def)
  then show ?thesis by (simp add: undisturbed_def)
next
  case yield
  with schedule_wf [of s N L] wf show ?thesis
    by (auto intro!: undisturbedI [where X = "{}"] simp: sched_wf_def task_yield_def)
next
  case (block bl st)
  define i where "i = (case bl of None \<Rightarrow> block_list | Some l \<Rightarrow> l)"
  have i: "i \<in> N" "i \<noteq> sleep_list" using block(4) by (simp_all add: i_def)
  from task_block_wf [OF wf block(2) _ _ block(3) i i_def block(5)] current_not_waiting [OF wf] block(6) have
    "sched_wf s' N (L(i := s_current s # L i))" "same_frame s s'" "still_runnable {s_current s} s s'" by auto
  then show ?thesis by (rule undisturbedI) (use block(1) in \<open>auto split: if_splits\<close>)
next
  case (unblock p)
  obtain i where i: "i \<in> N" "p \<in> set (L i)" using waiting_on_list [OF wf unblock(2,3)] .
  from task_unblock_wf [OF wf unblock(1) i] unblock(5) have
    "sched_wf s' N (L(i := remove1 p (L i)))" "same_frame s s'" "still_runnable {} s s'"
    by (auto simp: still_runnable_def runnable_def)
  then show ?thesis
  proof (rule undisturbedI)
    fix q assume "q \<in> B" "q \<in> set (L block_list)"
    moreover from this unblock(4) have "q \<noteq> p" by blast
    ultimately show "q \<in> set ((L(i := remove1 p (L i))) block_list)" by simp
  qed simp
next
  case (sleep ms)
  from task_sleep_wf [OF wf sleep(2,3) refl, of ms] sleep(4) obtain xs where
    "sched_wf s' N (L(sleep_list := xs))" "same_frame s s'" "still_runnable {s_current s} s s'" by auto
  then show ?thesis by (rule undisturbedI) (use sleep(1) in \<open>auto simp: block_list_def sleep_list_def\<close>)
qed

lemma pipe_ok_undisturbed:
  assumes ok: "pipe_ok N R W L s pp xs rd wr" and u: "undisturbed N B s L s'" and B: "rd \<longrightarrow> R \<in> B" "wr \<longrightarrow> W \<in> B"
  shows "\<exists>L'. pipe_ok N R W L' s' pp xs rd wr"
proof -
  obtain L' where L': "sched_wf s' N L'" "\<And>p. p \<in> B \<Longrightarrow> p \<in> set (L block_list) \<Longrightarrow> p \<in> set (L' block_list)"
    using u by (auto simp: undisturbed_def)
  have "pipe_ok N R W L' s' pp xs rd wr"
    using ok u B L' unfolding pipe_ok_def undisturbed_def by (auto split: if_splits)
  then show ?thesis by blast
qed

lemma stream_step_inv:
  assumes "stream_step N R W c c'" "stream_inv N R W xs c"
  shows "\<exists>xs. stream_inv N R W xs c'"
proof -
  obtain L where ok: "pipe_ok N R W L (st_s c) (st_pp c) xs (st_read c \<noteq> None) (st_write c \<noteq> None)"
    and bytes: "st_in c = st_out c @ xs @ left (st_write c)" using assms(2) by (auto simp: stream_inv_def)
  show ?thesis using assms(1)
  proof (cases rule: stream_step.cases)
    case (take n r)
    with pipe_read_runs [OF ok, of "[]" n] show ?thesis using read_done_inv [OF _ bytes] by auto
  next
    case (take_on n r)
    with pipe_read_runs [OF ok, of "[]" n] show ?thesis using read_done_inv [OF _ bytes] by auto
  next
    case (put bs r)
    with pipe_write_runs [OF ok, of bs] bytes write_done_inv [of N R W xs c bs r bs] show ?thesis by auto
  next
    case (put_on bs r)
    with pipe_write_runs [OF ok, of bs] bytes write_done_inv [of N R W xs c bs r "[]"] show ?thesis by auto
  next
    case (other s')
    from pipe_ok_undisturbed [OF ok other_step_undisturbed [OF pipe_okD(1) [OF ok] other(2)]] bytes
    have "stream_inv N R W xs c'" by (auto simp: stream_inv_def suspended_def other(1))
    then show ?thesis by blast
  qed
qed

lemma stream_steps_inv: "(stream_step N R W)\<^sup>*\<^sup>* c c' \<Longrightarrow> stream_inv N R W xs c \<Longrightarrow> \<exists>xs. stream_inv N R W xs c'"
proof (induction rule: rtranclp_induct)
  case (step c' c'')
  then show ?case using stream_step_inv by blast
qed blast

section \<open>Properties\<close>

definition stream_start :: "sched_t \<Rightarrow> u8 list \<Rightarrow> u32 \<Rightarrow> stream" where
  "stream_start s buf len = \<lparr>st_s = s, st_pp = \<lparr>pp_fifo = fifo_init buf len, pp_rx = None, pp_tx = None\<rparr>,
     st_read = None, st_write = None, st_in = [], st_out = []\<rparr>"

text \<open>No call of the running task fails.\<close>

definition calls_run :: "task_ptr \<Rightarrow> task_ptr \<Rightarrow> stream \<Rightarrow> bool" where
  "calls_run R W c \<longleftrightarrow>
     (s_current (st_s c) = R \<longrightarrow>
        (case st_read c of None \<Rightarrow> \<forall>n. \<exists>r. pipe_read (st_s c) (st_pp c) False [] n = Inr r
         | Some n \<Rightarrow> \<exists>r. pipe_read (st_s c) (st_pp c) True [] n = Inr r))
   \<and> (s_current (st_s c) = W \<longrightarrow>
        (case st_write c of None \<Rightarrow> \<forall>bs. \<exists>r. pipe_write (st_s c) (st_pp c) False bs = Inr r
         | Some bs \<Rightarrow> \<exists>r. pipe_write (st_s c) (st_pp c) True bs = Inr r))"

text \<open>
  C34. A pipe is a stream.  However the calls of one reader and one writer of a new pipe interleave
  with each other, the clock and all other tasks: the bytes given to \<open>pipe_write\<close> are, in order, those
  \<open>pipe_read\<close> has delivered, those in the ring and those a suspended \<open>pipe_write\<close> still has; no call
  of the reader or the writer fails; and a suspended reader that cannot run has an empty ring before
  it, a suspended writer that cannot run a full one, so never both.
\<close>
theorem pipe_stream:
  assumes "sched_wf s N L" "block_list \<in> N" "R \<in> tasks s" "W \<in> tasks s" "R \<noteq> W" "s_idle s \<noteq> Some R" "s_idle s \<noteq> Some W"
    and "1 < len" "unat len \<le> length buf" "(stream_step N R W)\<^sup>*\<^sup>* (stream_start s buf len) c"
  shows "\<exists>xs. ring_rep (pp_fifo (st_pp c)) xs \<and> st_in c = st_out c @ xs @ left (st_write c)
    \<and> (\<not> s_intr (st_s c) \<longrightarrow> calls_run R W c)
    \<and> (st_read c \<noteq> None \<and> \<not> runnable (st_s c) R \<longrightarrow> xs = [])
    \<and> (st_write c \<noteq> None \<and> \<not> runnable (st_s c) W \<longrightarrow> length xs = ring_room (pp_fifo (st_pp c)))
    \<and> 0 < ring_room (pp_fifo (st_pp c))"
proof -
  note i = fifo_init_ring [OF assms(8,9)]
  have "stream_inv N R W [] (stream_start s buf len)"
    using assms(1-8) i by (auto simp: stream_inv_def stream_start_def pipe_ok_def)
  from stream_steps_inv [OF assms(10) this] obtain xs L where
    ok: "pipe_ok N R W L (st_s c) (st_pp c) xs (st_read c \<noteq> None) (st_write c \<noteq> None)"
    and bytes: "st_in c = st_out c @ xs @ left (st_write c)" by (auto simp: stream_inv_def)
  have run: "calls_run R W c" if "\<not> s_intr (st_s c)"
  proof -
    have "\<exists>r. pipe_read (st_s c) (st_pp c) (st_read c \<noteq> None) [] n = Inr r" if "s_current (st_s c) = R" for n
      using pipe_read_runs [OF ok \<open>\<not> s_intr (st_s c)\<close> that] by blast
    moreover have "\<exists>r. pipe_write (st_s c) (st_pp c) (st_write c \<noteq> None) bs = Inr r" if "s_current (st_s c) = W" for bs
      using pipe_write_runs [OF ok \<open>\<not> s_intr (st_s c)\<close> that] by blast
    ultimately show ?thesis unfolding calls_run_def by (auto split: option.splits)
  qed
  have "st_read c \<noteq> None \<and> \<not> runnable (st_s c) R \<longrightarrow> xs = []"
    "st_write c \<noteq> None \<and> \<not> runnable (st_s c) W \<longrightarrow> length xs = ring_room (pp_fifo (st_pp c))"
    using ok by (auto simp: pipe_ok_def split: if_splits)
  with bytes run pipe_okD(8,9) [OF ok] show ?thesis by (intro exI [of _ xs]) simp
qed

text \<open>An idle task, a writer that runs and a reader.\<close>

definition demo_pair :: sched_t where
  "demo_pair = demo_sched\<lparr>s_table := [Some 0x1000, Some 0x2000, Some 0x3000] @ replicate 61 None\<rparr>"

lemma demo_pair_wf: "sched_wf demo_pair {block_list, sleep_list} (\<lambda>_. [])"
proof -
  note wf = demo_sched_wf [unfolded sched_wf_def sched_pre_def]
  have det: "detached (s_links demo_pair) (Node p)" for p
    by (simp add: demo_pair_def demo_sched_def detached_def list_init_def Let_def tlist_def)
  have t: "tasks demo_pair = {0x1000, 0x2000, 0x3000}" by (auto simp: tasks_def demo_pair_def)
  have st: "state_of demo_pair p = (if p = 0x2000 then TASK_RUNNING else TASK_READY)" for p
    by (simp add: state_of_def demo_pair_def demo_sched_def demo_tasks_def)
  have f: "t_magic (s_task demo_pair p) = YLOS_MAGIC" "t_pde (s_task demo_pair p) = 0x1000"
    "s_current demo_pair = 0x2000" "s_idle demo_pair = Some 0x1000" "s_links demo_pair = s_links demo_sched" for p
    by (simp_all add: demo_pair_def demo_sched_def demo_tasks_def)
  show ?thesis
    unfolding sched_wf_def sched_pre_def t using wf det by (simp add: st f queued_def page_aligned_def)
qed

lemma pipe_stream_witness:
  "\<exists>c xs. (stream_step {block_list, sleep_list} 0x3000 0x2000)\<^sup>*\<^sup>* (stream_start demo_pair (replicate 8 0) 8) c
    \<and> st_in c = [1, 2, 3] \<and> [1, 2, 3] = st_out c @ xs @ left (st_write c)"
proof -
  let ?c = "stream_start demo_pair (replicate 8 0) 8"
  have t: "tasks demo_pair = {0x1000, 0x2000, 0x3000}" by (auto simp: tasks_def demo_pair_def)
  have f: "s_current demo_pair = 0x2000" "s_idle demo_pair = Some 0x1000" "\<not> s_intr demo_pair"
    by (simp_all add: demo_pair_def demo_sched_def)
  have pre: "block_list \<in> {block_list, sleep_list}" "0x3000 \<in> tasks demo_pair" "0x2000 \<in> tasks demo_pair" "0x3000 \<noteq> (0x2000 :: u32)"
    "s_idle demo_pair \<noteq> Some 0x3000" "s_idle demo_pair \<noteq> Some 0x2000" "1 < (8 :: u32)" "unat (8 :: u32) \<le> length (replicate 8 (0 :: u8))"
    by (simp_all add: t f)
  note P = pipe_stream [OF demo_pair_wf pre]
  have "calls_run 0x3000 0x2000 ?c" using P [OF rtranclp.rtrancl_refl] f(3) by (auto simp: stream_start_def)
  then have "\<forall>bs. \<exists>r. pipe_write (st_s ?c) (st_pp ?c) False bs = Inr r"
    using f by (simp add: calls_run_def stream_start_def)
  then obtain r where r: "pipe_write (st_s ?c) (st_pp ?c) False [1, 2, 3] = Inr r" by blast
  let ?c' = "write_done ?c [1, 2, 3] r"
  have "stream_step {block_list, sleep_list} 0x3000 0x2000 ?c ?c'"
    by (rule stream_step.put [OF _ _ _ r]) (simp_all add: stream_start_def f)
  then have st: "(stream_step {block_list, sleep_list} 0x3000 0x2000)\<^sup>*\<^sup>* ?c ?c'" by (rule r_into_rtranclp)
  have i: "st_in ?c' = [1, 2, 3]" by (cases r) (simp_all add: write_done_def stream_start_def)
  obtain xs where "st_in ?c' = st_out ?c' @ xs @ left (st_write ?c')" using P [OF st] by blast
  with i have "[1, 2, 3] = st_out ?c' @ xs @ left (st_write ?c')" by (simp only:)
  with st i show ?thesis by (intro exI [of _ ?c'] exI [of _ xs] conjI)
qed

end
