(* ===== verification/Ylos_Disk.thy ===== *)
theory Ylos_Disk
  imports Ylos_Fs
begin

text \<open>
  The block devices below the buffer cache: what one request does to a device whose queue is empty,
  and the RAM disks of kernel/ramdisk.c as a store of blocks.  The locale \<open>block_device\<close> is the
  contract the cache relies on; the RAM disks are proved to keep it.
\<close>

section \<open>A request of a device with an empty queue\<close>

text \<open>What a request changes beside the driver's own state: the direction of the elevator, and the
  list nodes of the device's queue and of the request.\<close>

definition queue_nodes :: "u32 \<Rightarrow> rnode set" where
  "queue_nodes dev = cells (rlist (unat dev)) [Req 0]"

definition after_request :: "u32 \<Rightarrow> 'w devs_t \<Rightarrow> 'w \<Rightarrow> 'w devs_t \<Rightarrow> bool" where
  "after_request dev s w t \<longleftrightarrow> (\<exists>down h rq.
     t = s\<lparr>ds_req := rq, ds_world := w, ds_table := (ds_table s)[unat dev :=
           (ds_table s ! unat dev)\<lparr>dv_direct_down := down\<rparr>], ds_links := h\<rparr> \<and>
     dll h (rlist (unat dev)) [] \<and> detached h (Req 0) \<and> same_outside (queue_nodes dev) (ds_links s) h)"

definition root_device :: "u32 \<Rightarrow> 'w devs_t \<Rightarrow> bool" where
  "root_device dev s \<longleftrightarrow> length (ds_table s) = DEVICE_NR \<and> unat dev < DEVICE_NR \<and>
     dv_type (ds_table s ! unat dev) = DEV_BLOCK \<and> dv_dev (ds_table s ! unat dev) = dev \<and>
     dv_parent (ds_table s ! unat dev) = 0 \<and>
     device_ioctl dev DEV_CMD_SECTOR_START 0 0 s = Inr (0, s) \<and>
     dll (ds_links s) (rlist (unat dev)) [] \<and> detached (ds_links s) (Req 0)"

lemma device_get_root:
  assumes "length (ds_table s) = DEVICE_NR" and "unat dev < DEVICE_NR" and "dv_type (ds_table s ! unat dev) \<noteq> DEV_NULL"
  shows "device_get dev s = Inr (ds_table s ! unat dev, s)"
  using assms by (simp add: device_get_def bindM_def sint_small DEVICE_NR_def del: of_nat_unat)

lemma rlist_simps [simp]: "l_head (rlist d) = Req_Head d" "l_tail (rlist d) = Req_Tail d"
  by (simp_all add: rlist_def)

lemma set_same_type: "dv_type e = t \<Longrightarrow> e\<lparr>dv_type := t\<rparr> = e"
  by (cases e) simp

text \<open>The request as \<open>device_request\<close> builds it.\<close>

definition block_request :: "u32 \<Rightarrow> u32 \<Rightarrow> u32 \<Rightarrow> u32 \<Rightarrow> u32 \<Rightarrow> request_t" where
  "block_request dev count idx flags type =
     \<lparr>r_dev = dev, r_type = type, r_idx = idx, r_count = ucast (ucast count :: u8), r_flags = flags, r_task = None\<rparr>"

lemma block_sectors [simp]: "ucast (ucast BLOCK_SECS :: u8) = BLOCK_SECS"
  by (simp add: BLOCK_SECS_def)

lemma request_begin_alone:
  assumes "root_device dev s"
  shows "\<exists>h. request_begin 0 task dev count idx flags type s
      = Inr ((dev, False), s\<lparr>ds_links := h, ds_req := (ds_req s)(0 := block_request dev count idx flags type)\<rparr>)
    \<and> dll h (rlist (unat dev)) [Req 0] \<and> same_outside (queue_nodes dev) (ds_links s) h"
proof -
  note r = assms(1) [unfolded root_device_def]
  let ?rq = "(ds_req s)(0 := block_request dev count idx flags type)"
  have get: "device_get dev s = Inr (ds_table s ! unat dev, s)"
    by (rule device_get_root) (use r in \<open>simp_all add: DEV_BLOCK_def DEV_NULL_def\<close>)
  have same: "set_block_type dev s = Inr ((), s)"
    using r by (simp add: set_block_type_def set_same_type)
  have "list_empty (ds_links s) (rlist (unat dev))" using r list_empty_dll by auto
  moreover obtain h where "list_insert_sort (ds_links s) (rlist (unat dev)) (req_key ?rq) (Req 0) = Inr h"
    "dll h (rlist (unat dev)) [Req 0]" "same_outside (queue_nodes dev) (ds_links s) h"
    using list_insert_sort_dll [of "ds_links s" "rlist (unat dev)" "[]" "Req 0" "req_key ?rq"] r
    by (auto simp: queue_nodes_def insort_node_def)
  ultimately show ?thesis
    using r by (intro exI [of _ h])
      (simp add: request_begin_def bindM_def seqM_def get same Let_def block_request_def)
qed

lemma request_finish_alone:
  assumes "do_request 0 buf s = Inr (buf', s')" and "ds_table s' = ds_table s" and "ds_links s' = ds_links s"
    and "unat dev < length (ds_table s)" and "dll (ds_links s) (rlist (unat dev)) [Req 0]"
  shows "\<exists>down h. request_finish 0 dev buf s = Inr ((buf', None),
      s'\<lparr>ds_table := (ds_table s')[unat dev := (ds_table s' ! unat dev)\<lparr>dv_direct_down := down\<rparr>], ds_links := h\<rparr>)
    \<and> dll h (rlist (unat dev)) [] \<and> detached h (Req 0) \<and> same_outside (queue_nodes dev) (ds_links s) h"
proof -
  let ?down = "turn (ds_links s) (unat dev) 0 (dv_direct_down (ds_table s ! unat dev))"
  have l: "l_next (ds_links s) (Req 0) = Some (Req_Tail (unat dev))" "l_prev (ds_links s) (Req 0) = Some (Req_Head (unat dev))"
    using dll_node_next [of "ds_links s" "rlist (unat dev)" "[]" "Req 0" "[]"]
      dll_node_prev [of "ds_links s" "rlist (unat dev)" "[]" "Req 0" "[]"] assms(5) by simp_all
  obtain h where h: "list_remove (ds_links s) (Req 0) = Inr h" "dll h (rlist (unat dev)) []" "detached h (Req 0)"
    "same_outside (queue_nodes dev) (ds_links s) h"
    using list_remove_member [OF assms(5), of "Req 0"] by (auto simp: queue_nodes_def)
  have "request_nextreq (unat dev) 0 s' =
      Inr (None, s'\<lparr>ds_table := (ds_table s')[unat dev := (ds_table s' ! unat dev)\<lparr>dv_direct_down := ?down\<rparr>]\<rparr>)"
    using assms(2-4) l by (simp add: request_nextreq_def bindM_def seqM_def Let_def)
  then have "request_finish 0 dev buf s = Inr ((buf', None),
      s'\<lparr>ds_table := (ds_table s')[unat dev := (ds_table s' ! unat dev)\<lparr>dv_direct_down := ?down\<rparr>], ds_links := h\<rparr>)"
    using assms(1,3) h(1) by (simp add: request_finish_def bindM_def seqM_def)
  with h(2-4) show ?thesis by blast
qed

text \<open>Both together.  \<open>serve\<close> is the driver's function on the request as it was built.\<close>

lemma request_alone:
  assumes "root_device dev s"
    and serve: "\<And>h. do_request 0 buf (s\<lparr>ds_links := h, ds_req := (ds_req s)(0 := block_request dev count idx flags type)\<rparr>)
      = Inr (buf', s\<lparr>ds_links := h, ds_req := (ds_req s)(0 := block_request dev count idx flags type), ds_world := w\<rparr>)"
  shows "\<exists>t. device_request dev buf count idx flags type s = Inr (buf', t) \<and> after_request dev s w t"
proof -
  let ?rq = "(ds_req s)(0 := block_request dev count idx flags type)"
  obtain h where h: "request_begin 0 0 dev count idx flags type s = Inr ((dev, False), s\<lparr>ds_links := h, ds_req := ?rq\<rparr>)"
    "dll h (rlist (unat dev)) [Req 0]" "same_outside (queue_nodes dev) (ds_links s) h"
    using request_begin_alone [OF assms(1)] by blast
  have n: "unat dev < length (ds_table s)" using assms(1) by (simp add: root_device_def)
  obtain down h' where h': "request_finish 0 dev buf (s\<lparr>ds_links := h, ds_req := ?rq\<rparr>) = Inr ((buf', None),
      s\<lparr>ds_req := ?rq, ds_world := w, ds_table := (ds_table s)[unat dev :=
        (ds_table s ! unat dev)\<lparr>dv_direct_down := down\<rparr>], ds_links := h'\<rparr>)"
    "dll h' (rlist (unat dev)) []" "detached h' (Req 0)" "same_outside (queue_nodes dev) h h'"
    using request_finish_alone [OF serve [of h], of dev] n h(2) by auto
  have "device_request dev buf count idx flags type s = Inr (buf', s\<lparr>ds_req := ?rq, ds_world := w, ds_table :=
      (ds_table s)[unat dev := (ds_table s ! unat dev)\<lparr>dv_direct_down := down\<rparr>], ds_links := h'\<rparr>)"
    by (simp add: device_request_def bindM_def h(1) h'(1))
  with h'(2,3) same_outside_trans [OF h(3) h'(4)] show ?thesis unfolding after_request_def by blast
qed

lemma root_deviceD:
  assumes "root_device dev s"
  shows "device_get dev (s\<lparr>ds_links := h, ds_req := rq\<rparr>) = Inr (ds_table s ! unat dev, s\<lparr>ds_links := h, ds_req := rq\<rparr>)"
  by (subst device_get_root) (use assms in \<open>simp_all add: root_device_def DEV_BLOCK_def DEV_NULL_def\<close>)

lemma request_read:
  assumes "root_device dev s" and "dv_read (ds_table s ! unat dev) = Some f"
    and "f (dv_ptr (ds_table s ! unat dev)) (ucast (ucast count :: u8)) idx flags (ds_world s) = Inr ((bytes, n), w)"
  shows "\<exists>t. device_request dev buf count idx flags REQ_READ s = Inr (bytes @ drop (length bytes) buf, t)
    \<and> after_request dev s w t"
  by (rule request_alone [OF assms(1)])
    (simp add: do_request_def block_request_def bindM_def device_read_def root_deviceD [OF assms(1)] driver_def assms)

lemma request_write:
  assumes "root_device dev s" and "dv_write (ds_table s ! unat dev) = Some f"
    and "f (dv_ptr (ds_table s ! unat dev)) buf (ucast (ucast count :: u8)) idx flags (ds_world s) = Inr (n, w)"
  shows "\<exists>t. device_request dev buf count idx flags REQ_WRITE s = Inr (buf, t) \<and> after_request dev s w t"
  by (rule request_alone [OF assms(1)])
    (simp add: do_request_def block_request_def bindM_def device_write_def root_deviceD [OF assms(1)] driver_def assms
      REQ_READ_def REQ_WRITE_def)

section \<open>The contract of a block device\<close>

text \<open>A list of block writes, and the last bytes written to each block.\<close>

definition write_all :: "(u32 \<times> u32 \<times> u8 list) list \<Rightarrow> ('w devs_t, unit) op" where
  "write_all ws = do_all (map (\<lambda>(d, b, data).
     seqM (device_request d data BLOCK_SECS (b * BLOCK_SECS) 0 REQ_WRITE) (ret ())) ws)"

definition last_written :: "(u32 \<times> u32 \<Rightarrow> u8 list) \<Rightarrow> (u32 \<times> u32 \<times> u8 list) list \<Rightarrow> u32 \<times> u32 \<Rightarrow> u8 list" where
  "last_written = foldl (\<lambda>f (d, b, data). f((d, b) := data))"

text \<open>\<open>ok\<close> is the state the device layer rests in, \<open>served d b\<close> says that device \<open>d\<close> has a block
  \<open>b\<close>, \<open>content\<close> are the bytes of the blocks.\<close>

locale block_device =
  fixes ok :: "'w devs_t \<Rightarrow> bool"
    and served :: "u32 \<Rightarrow> u32 \<Rightarrow> bool"
    and content :: "'w devs_t \<Rightarrow> u32 \<times> u32 \<Rightarrow> u8 list"
  assumes content_length: "ok s \<Longrightarrow> served d b \<Longrightarrow> length (content s (d, b)) = 1024"
    and read_block: "ok s \<Longrightarrow> served d b \<Longrightarrow> length buf = 1024 \<Longrightarrow>
      \<exists>t. device_request d buf BLOCK_SECS (b * BLOCK_SECS) 0 REQ_READ s = Inr (content s (d, b), t)
        \<and> ok t \<and> content t = content s"
    and write_block: "ok s \<Longrightarrow> served d b \<Longrightarrow> length buf = 1024 \<Longrightarrow>
      \<exists>t. device_request d buf BLOCK_SECS (b * BLOCK_SECS) 0 REQ_WRITE s = Inr (buf, t)
        \<and> ok t \<and> content t = (content s)((d, b) := buf)"

lemma last_written_cong: "f db = g db \<Longrightarrow> last_written f ws db = last_written g ws db"
proof (induction ws arbitrary: f g)
  case (Cons w ws)
  obtain d b data where w: "w = (d, b, data)" by (cases w)
  have "(f((d, b) := data)) db = (g((d, b) := data)) db" using Cons.prems by simp
  from Cons.IH [of "f((d, b) := data)" "g((d, b) := data)", OF this] show ?case
    by (simp only: last_written_def w foldl_Cons prod.case)
qed (simp add: last_written_def)

context block_device begin

lemma write_all_runs:
  "ok s \<Longrightarrow> list_all (\<lambda>(d, b, data). served d b \<and> length data = 1024) ws \<Longrightarrow>
   \<exists>t. write_all ws s = Inr ((), t) \<and> ok t \<and> content t = last_written (content s) ws"
proof (induction ws arbitrary: s)
  case Nil
  then show ?case by (simp add: write_all_def last_written_def)
next
  case (Cons w ws)
  obtain d b data where w: "w = (d, b, data)" by (cases w)
  with Cons.prems write_block [of s d b data] obtain t
    where t: "device_request d data BLOCK_SECS (b * BLOCK_SECS) 0 REQ_WRITE s = Inr (data, t)" "ok t"
      "content t = (content s)((d, b) := data)" by auto
  from Cons.IH [OF t(2)] Cons.prems(2) obtain u where u: "write_all ws t = Inr ((), u)" "ok u"
    "content u = last_written (content t) ws" by auto
  have "write_all (w # ws) s = Inr ((), u)" using u(1) by (simp add: write_all_def w seqM_def bindM_def t(1))
  moreover have "content u = last_written (content s) (w # ws)" by (simp add: u(3) t(3) last_written_def w)
  ultimately show ?case using u(2) by blast
qed

end

section \<open>The RAM disks\<close>

text \<open>Memory, seen from the start of the first disk.\<close>

definition ram_byte :: "(u32 \<Rightarrow> u8) \<Rightarrow> nat \<Rightarrow> u8" where
  "ram_byte f m = f (KERNEL_RAMDISK_MEM + of_nat m)"

lemma ram_put_byte:
  assumes "p < 2 ^ 31" "m < 2 ^ 31" "length bs < 2 ^ 31"
  shows "ram_byte (ram_put f (KERNEL_RAMDISK_MEM + of_nat p) bs) m
    = (if p \<le> m \<and> m < p + length bs then bs ! (m - p) else ram_byte f m)"
proof -
  have sub: "(KERNEL_RAMDISK_MEM + of_nat m :: u32) - (KERNEL_RAMDISK_MEM + of_nat p) = of_nat m - of_nat p" by simp
  have n: "unat (of_nat m :: u32) = m" "unat (of_nat p :: u32) = p"
    by (rule unat_u32_of_nat, use assms in simp)+
  have "unat (of_nat m - of_nat p :: u32) = (if p \<le> m then m - p else m + 2 ^ 32 - p)"
    unfolding unat_sub_if_size n by (simp add: word_size)
  with assms show ?thesis by (auto simp: ram_byte_def ram_put_def sub)
qed

lemma ram_get_byte: "ram_get f (KERNEL_RAMDISK_MEM + of_nat p) n = map (\<lambda>j. ram_byte f (p + j)) [0..<n]"
  by (simp add: ram_get_def ram_byte_def add.assoc)

text \<open>Disk \<open>i\<close> is device \<open>k + i\<close>; a block has a place in memory.\<close>

definition ram_served :: "nat \<Rightarrow> u32 \<Rightarrow> u32 \<Rightarrow> bool" where
  "ram_served k d b \<longleftrightarrow> k \<le> unat d \<and> unat d < k + RAMDISK_NR \<and> unat b < 1024"

definition ram_place :: "nat \<Rightarrow> u32 \<times> u32 \<Rightarrow> nat" where
  "ram_place k db = ((unat (fst db) - k) * 1024 + unat (snd db)) * 1024"

definition ram_content :: "nat \<Rightarrow> ram_t devs_t \<Rightarrow> u32 \<times> u32 \<Rightarrow> u8 list" where
  "ram_content k s db = (if ram_served k (fst db) (snd db)
     then ram_get (ram_bytes (ds_world s)) (KERNEL_RAMDISK_MEM + of_nat (ram_place k db)) 1024 else [])"

definition ram_device :: "nat \<Rightarrow> nat \<Rightarrow> ram_t device_t \<Rightarrow> bool" where
  "ram_device k i e \<longleftrightarrow> dv_type e = DEV_BLOCK \<and> dv_dev e = of_nat (k + i) \<and> dv_parent e = 0 \<and> dv_ptr e = i
     \<and> dv_ioctl e = Some ramdisk_ioctl \<and> dv_read e = Some ramdisk_read \<and> dv_write e = Some ramdisk_write"

lemma ram_device_direct [simp]: "ram_device k i (e\<lparr>dv_direct_down := down\<rparr>) = ram_device k i e"
  by (simp add: ram_device_def)

definition ram_ok :: "nat \<Rightarrow> ram_t devs_t \<Rightarrow> bool" where
  "ram_ok k s \<longleftrightarrow> length (ds_table s) = DEVICE_NR \<and> k + RAMDISK_NR \<le> DEVICE_NR
     \<and> ram_disks (ds_world s) = map (\<lambda>i. \<lparr>rd_start = KERNEL_RAMDISK_MEM + 0x100000 * of_nat i, rd_size = 0x100000\<rparr>) [0..<RAMDISK_NR]
     \<and> (\<forall>i<RAMDISK_NR. ram_device k i (ds_table s ! (k + i)))
     \<and> (\<forall>i<RAMDISK_NR. dll (ds_links s) (rlist (k + i)) []) \<and> detached (ds_links s) (Req 0)"

lemma same_kilobyte: "x * 1024 \<le> y * 1024 + j \<Longrightarrow> y * 1024 + j < x * 1024 + 1024 \<Longrightarrow> j < 1024 \<Longrightarrow> x = y" for x y j :: nat
proof -
  assume "x * 1024 \<le> y * 1024 + j" "y * 1024 + j < x * 1024 + 1024" "j < 1024"
  then have "x < y + 1" "y < x + 1" by linarith+
  then show "x = y" by simp
qed

lemma same_kilobyte': "x * 1024 + b = y * 1024 + c \<Longrightarrow> b < 1024 \<Longrightarrow> c < 1024 \<Longrightarrow> x = y \<and> b = c" for x y b c :: nat
proof -
  assume eq: "x * 1024 + b = y * 1024 + c" and "b < 1024" "c < 1024"
  then have "(x * 1024 + b) div 1024 = x" "(y * 1024 + c) div 1024 = y" by simp_all
  with eq show "x = y \<and> b = c" by simp
qed

lemma ram_disjoint:
  assumes "ram_served k d b" "ram_served k d' b'" "(d, b) \<noteq> (d', b')" "j < 1024"
  shows "\<not> (ram_place k (d, b) \<le> ram_place k (d', b') + j \<and> ram_place k (d', b') + j < ram_place k (d, b) + 1024)"
proof
  assume *: "ram_place k (d, b) \<le> ram_place k (d', b') + j \<and> ram_place k (d', b') + j < ram_place k (d, b) + 1024"
  then have "(unat d - k) * 1024 + unat b = (unat d' - k) * 1024 + unat b'"
    using assms(4) unfolding ram_place_def fst_conv snd_conv by (intro same_kilobyte) simp_all
  then have "unat d - k = unat d' - k \<and> unat b = unat b'"
    using assms(1,2) unfolding ram_served_def by (intro same_kilobyte') simp_all
  with assms(1-3) show False by (auto simp: ram_served_def word_unat_eq_iff)
qed

lemma ram_place_bound:
  assumes "ram_served k d b"
  shows "ram_place k (d, b) + 1024 \<le> 0x400000"
proof -
  have "unat d - k \<le> 3" "unat b \<le> 1023" using assms by (auto simp: ram_served_def RAMDISK_NR_def)
  moreover have "x \<le> 3 \<Longrightarrow> y \<le> 1023 \<Longrightarrow> (x * 1024 + y) * 1024 + 1024 \<le> 0x400000" for x y :: nat by simp
  ultimately show ?thesis unfolding ram_place_def fst_conv snd_conv by blast
qed

lemma ram_root_device:
  assumes "ram_ok k s" "ram_served k d b"
  shows "root_device d s" "ram_device k (unat d - k) (ds_table s ! unat d)"
proof -
  have d: "unat d - k < RAMDISK_NR" "k + (unat d - k) = unat d" using assms(2) by (auto simp: ram_served_def)
  then show e: "ram_device k (unat d - k) (ds_table s ! unat d)" using assms(1) unfolding ram_ok_def by metis
  have n: "unat d < DEVICE_NR" using assms by (auto simp: ram_ok_def ram_served_def)
  have "device_get d s = Inr (ds_table s ! unat d, s)"
    by (rule device_get_root) (use assms n e in \<open>simp_all add: ram_ok_def ram_device_def DEV_BLOCK_def DEV_NULL_def\<close>)
  moreover have "unat d - k < length (ram_disks (ds_world s))" using assms(1) d by (simp add: ram_ok_def)
  ultimately have "device_ioctl d DEV_CMD_SECTOR_START 0 0 s = Inr (0, s)"
    using e by (simp add: device_ioctl_def bindM_def ram_device_def driver_def ramdisk_ioctl_def)
  moreover have "dll (ds_links s) (rlist (unat d)) []" using assms(1) d unfolding ram_ok_def by metis
  ultimately show "root_device d s"
    using assms(1) n e d(2) by (simp add: root_device_def ram_ok_def ram_device_def)
qed

text \<open>The address of a block, as the driver computes it, and its check.\<close>

lemma ram_address:
  assumes "ram_ok k s" "ram_served k d b"
  shows "load_at (ram_disks (ds_world s)) (unat d - k) = Inr \<lparr>rd_start = KERNEL_RAMDISK_MEM + 0x100000 * of_nat (unat d - k), rd_size = 0x100000\<rparr>"
    and "KERNEL_RAMDISK_MEM + 0x100000 * of_nat (unat d - k) + b * BLOCK_SECS * SECTOR_SIZE = KERNEL_RAMDISK_MEM + of_nat (ram_place k (d, b))"
    and "KERNEL_RAMDISK_MEM + of_nat (ram_place k (d, b)) + 0x400 < KERNEL_RAMDISK_MEM + KERNEL_MEMORY_SIZE"
proof -
  have d: "unat d - k < RAMDISK_NR" using assms(2) by (auto simp: ram_served_def)
  then show "load_at (ram_disks (ds_world s)) (unat d - k) = Inr \<lparr>rd_start = KERNEL_RAMDISK_MEM + 0x100000 * of_nat (unat d - k), rd_size = 0x100000\<rparr>"
    using assms(1) by (simp add: ram_ok_def)
  have "of_nat (ram_place k (d, b)) = (of_nat x * 1024 + b) * (1024 :: u32)" if "x = unat d - k" for x
    by (simp add: ram_place_def that [symmetric])
  then show "KERNEL_RAMDISK_MEM + 0x100000 * of_nat (unat d - k) + b * BLOCK_SECS * SECTOR_SIZE = KERNEL_RAMDISK_MEM + of_nat (ram_place k (d, b))"
    by (simp add: BLOCK_SECS_def SECTOR_SIZE_def distrib_right)
  have p: "ram_place k (d, b) + 1024 \<le> 0x400000" by (rule ram_place_bound [OF assms(2)])
  have "unat (of_nat (ram_place k (d, b)) :: u32) = ram_place k (d, b)" by (rule unat_u32_of_nat) (use p in simp)
  with p show "KERNEL_RAMDISK_MEM + of_nat (ram_place k (d, b)) + 0x400 < KERNEL_RAMDISK_MEM + KERNEL_MEMORY_SIZE"
    by (simp add: KERNEL_RAMDISK_MEM_def KERNEL_MEMORY_SIZE_def word_less_nat_alt unat_word_ariths)
qed

lemma ram_content_length: "ram_ok k s \<Longrightarrow> ram_served k d b \<Longrightarrow> length (ram_content k s (d, b)) = 1024"
  by (simp add: ram_content_def ram_get_def)

lemma after_request_ram:
  assumes "ram_ok k s" "ram_served k d b" "after_request d s w t"
    and "ram_disks w = ram_disks (ds_world s)"
  shows "ram_ok k t"
proof -
  from assms(3) obtain down h rq where t: "t = s\<lparr>ds_req := rq, ds_world := w, ds_table := (ds_table s)[unat d :=
           (ds_table s ! unat d)\<lparr>dv_direct_down := down\<rparr>], ds_links := h\<rparr>"
    and h: "dll h (rlist (unat d)) []" "detached h (Req 0)" "same_outside (queue_nodes d) (ds_links s) h"
    by (auto simp: after_request_def)
  have "dll h (rlist (k + i)) []" if "i < RAMDISK_NR" for i
  proof (cases "k + i = unat d")
    case False
    have "dll (ds_links s) (rlist (k + i)) []" using assms(1) that by (simp add: ram_ok_def)
    from dll_same_outside [OF this h(3)] False show ?thesis by (auto simp: queue_nodes_def cells_def)
  qed (use h in simp)
  moreover have "ram_device k i (ds_table t ! (k + i))" if "i < RAMDISK_NR" for i
  proof -
    have "ram_device k i (ds_table s ! (k + i))" "k + i < length (ds_table s)" using assms(1) that by (auto simp: ram_ok_def)
    then show ?thesis by (cases "k + i = unat d") (simp_all add: t)
  qed
  ultimately show ?thesis using assms(1,4) h(2) by (simp add: ram_ok_def t)
qed

lemma ram_read:
  assumes "ram_ok k s" "ram_served k d b" "length buf = 1024"
  shows "\<exists>t. device_request d buf BLOCK_SECS (b * BLOCK_SECS) 0 REQ_READ s = Inr (ram_content k s (d, b), t)
        \<and> ram_ok k t \<and> ram_content k t = ram_content k s"
proof -
  note r = ram_root_device [OF assms(1,2)] and a = ram_address [OF assms(1,2)]
  have "ramdisk_read (unat d - k) BLOCK_SECS (b * BLOCK_SECS) 0 (ds_world s) = Inr ((ram_content k s (d, b), BLOCK_SECS), ds_world s)"
    using a(1,3) assms(2) unfolding ramdisk_read_def
    by (simp add: bindM_def a(2) ram_content_def Let_def seqM_def) (simp add: BLOCK_SECS_def SECTOR_SIZE_def)
  then obtain t where t: "device_request d buf BLOCK_SECS (b * BLOCK_SECS) 0 REQ_READ s = Inr (ram_content k s (d, b), t)"
    "after_request d s (ds_world s) t"
    using request_read [OF r(1), of ramdisk_read BLOCK_SECS "b * BLOCK_SECS" 0 "ram_content k s (d, b)" BLOCK_SECS "ds_world s" buf]
      r(2) assms ram_content_length [OF assms(1,2)] by (auto simp: ram_device_def)
  moreover have "ram_content k t = ram_content k s" using t(2) by (auto simp: ram_content_def after_request_def)
  ultimately show ?thesis using after_request_ram [OF assms(1,2) t(2)] by blast
qed

lemma ram_write:
  assumes "ram_ok k s" "ram_served k d b" "length buf = 1024"
  shows "\<exists>t. device_request d buf BLOCK_SECS (b * BLOCK_SECS) 0 REQ_WRITE s = Inr (buf, t)
        \<and> ram_ok k t \<and> ram_content k t = (ram_content k s)((d, b) := buf)"
proof -
  note r = ram_root_device [OF assms(1,2)] and a = ram_address [OF assms(1,2)]
  let ?w = "(ds_world s)\<lparr>ram_bytes := ram_put (ram_bytes (ds_world s)) (KERNEL_RAMDISK_MEM + of_nat (ram_place k (d, b))) buf\<rparr>"
  have "ramdisk_write (unat d - k) buf BLOCK_SECS (b * BLOCK_SECS) 0 (ds_world s) = Inr (BLOCK_SECS, ?w)"
    using a(1,3) assms(2,3) unfolding ramdisk_write_def
    by (simp add: bindM_def a(2) Let_def seqM_def) (simp add: BLOCK_SECS_def SECTOR_SIZE_def)
  then obtain t where t: "device_request d buf BLOCK_SECS (b * BLOCK_SECS) 0 REQ_WRITE s = Inr (buf, t)" "after_request d s ?w t"
    using request_write [OF r(1), of ramdisk_write buf BLOCK_SECS "b * BLOCK_SECS" 0 BLOCK_SECS ?w] r(2) by (auto simp: ram_device_def)
  have eq: "ram_content k t (d', b') = ((ram_content k s)((d, b) := buf)) (d', b')" for d' b'
  proof (cases "ram_served k d' b'")
    case True
    note B = ram_place_bound [OF True] ram_place_bound [OF assms(2)]
    have put: "ram_byte (ram_bytes ?w) (ram_place k (d', b') + j) =
      (if (d', b') = (d, b) then buf ! j else ram_byte (ram_bytes (ds_world s)) (ram_place k (d', b') + j))" if "j < 1024" for j
      using ram_put_byte [of "ram_place k (d, b)" "ram_place k (d', b') + j" buf "ram_bytes (ds_world s)"] B that assms(3)
        ram_disjoint [OF assms(2) True _ that] by auto
    have "ram_content k t (d', b') = map (\<lambda>j. ram_byte (ram_bytes ?w) (ram_place k (d', b') + j)) [0..<1024]"
      using True t(2) by (auto simp: ram_content_def after_request_def ram_get_byte)
    also have "\<dots> = map (\<lambda>j. if (d', b') = (d, b) then buf ! j else ram_byte (ram_bytes (ds_world s)) (ram_place k (d', b') + j)) [0..<1024]"
      by (rule map_cong [OF refl], rule put) simp
    also have "\<dots> = ((ram_content k s)((d, b) := buf)) (d', b')"
      using True assms(3) map_nth [of buf] by (auto simp: ram_content_def ram_get_byte)
    finally show ?thesis .
  qed (use assms(2) in \<open>auto simp: ram_content_def\<close>)
  have "ram_content k t = (ram_content k s)((d, b) := buf)"
  proof
    show "ram_content k t db = ((ram_content k s)((d, b) := buf)) db" for db by (cases db) (simp only: eq)
  qed
  with t after_request_ram [OF assms(1,2) t(2)] show ?thesis by auto
qed

interpretation ram: block_device "ram_ok k" "ram_served k" "ram_content k" for k
  by unfold_locales (blast intro: ram_content_length ram_read ram_write)+

section \<open>Setting the RAM disks up\<close>

text \<open>The device table while devices are installed: the first free entry is \<open>k\<close>.\<close>

definition free_from :: "nat \<Rightarrow> 'w devs_t \<Rightarrow> bool" where
  "free_from k s \<longleftrightarrow> 0 < k \<and> length (ds_table s) = DEVICE_NR
     \<and> (\<forall>j. 0 < j \<and> j < k \<longrightarrow> dv_type (ds_table s ! j) \<noteq> DEV_NULL)
     \<and> (\<forall>j. k \<le> j \<and> j < DEVICE_NR \<longrightarrow> dv_type (ds_table s ! j) = DEV_NULL \<and> dv_dev (ds_table s ! j) = of_nat j
          \<and> length (dv_name (ds_table s ! j)) = 16)
     \<and> (\<forall>j. k \<le> j \<and> j < DEVICE_NR \<longrightarrow> dll (ds_links s) (rlist j) []) \<and> detached (ds_links s) (Req 0)"

lemma find_null_nth:
  "(\<forall>j<m. dv_type (ds ! j) \<noteq> DEV_NULL) \<Longrightarrow> m < length ds \<Longrightarrow> dv_type (ds ! m) = DEV_NULL \<Longrightarrow> find_null ds i = Inr (i + m)"
proof (induction ds arbitrary: i m)
  case (Cons d ds)
  show ?case
  proof (cases m)
    case 0
    then show ?thesis using Cons.prems by simp
  next
    case (Suc m')
    have "dv_type d \<noteq> DEV_NULL" using Cons.prems(1) Suc by force
    moreover have "find_null ds (Suc i) = Inr (Suc i + m')"
      by (rule Cons.IH) (use Cons.prems Suc in force)+
    ultimately show ?thesis by (simp add: Suc)
  qed
qed simp

lemma get_null_device_first:
  assumes "free_from k s" "k < DEVICE_NR"
  shows "get_null_device s = Inr (k, s)"
proof -
  have l: "length (ds_table s) = DEVICE_NR" and k: "0 < k"
    and busy: "0 < j \<Longrightarrow> j < k \<Longrightarrow> dv_type (ds_table s ! j) \<noteq> DEV_NULL"
    and free: "dv_type (ds_table s ! k) = DEV_NULL" for j
    using assms by (auto simp: free_from_def)
  have "find_null (tl (ds_table s)) 1 = Inr (1 + (k - 1))"
    by (rule find_null_nth) (use l k busy free assms(2) in \<open>auto simp: nth_tl\<close>)
  then show ?thesis using k by (simp add: get_null_device_def bindM_def)
qed

lemma device_install_first:
  assumes "free_from k s" "k < DEVICE_NR" "0 \<notin> set nm" "length nm < 16" "type \<noteq> DEV_NULL"
  shows "\<exists>e. device_install type subtype ptr (nm @ [0]) parent ioctl rd wr s = Inr (of_nat k, s\<lparr>ds_table := (ds_table s)[k := e]\<rparr>)
    \<and> dv_type e = type \<and> dv_dev e = of_nat k \<and> dv_parent e = parent \<and> dv_ptr e = ptr \<and> dv_ioctl e = ioctl
    \<and> dv_read e = rd \<and> dv_write e = wr \<and> free_from (Suc k) (s\<lparr>ds_table := (ds_table s)[k := e]\<rparr>)"
proof -
  let ?d = "ds_table s ! k"
  have l: "length (ds_table s) = DEVICE_NR" and d: "dv_dev ?d = of_nat k" "length (dv_name ?d) = 16"
    using assms(1,2) by (auto simp: free_from_def)
  obtain nm' where nm': "strncpy (dv_name ?d) (nm @ [0]) NAMELEN = Inr nm'"
    using strncpy_cstr [OF assms(3), of NAMELEN "dv_name ?d" "[]"] d(2) by (simp add: NAMELEN_def)
  let ?e = "?d\<lparr>dv_ptr := ptr, dv_parent := parent, dv_type := type, dv_subtype := subtype, dv_name := nm',
    dv_ioctl := ioctl, dv_read := rd, dv_write := wr\<rparr>"
  have "device_install type subtype ptr (nm @ [0]) parent ioctl rd wr s = Inr (of_nat k, s\<lparr>ds_table := (ds_table s)[k := ?e]\<rparr>)"
    using get_null_device_first [OF assms(1,2)] assms(2) l nm' d by (simp add: device_install_def bindM_def seqM_def)
  moreover have "free_from (Suc k) (s\<lparr>ds_table := (ds_table s)[k := ?e]\<rparr>)"
    using assms(1,2,5) by (auto simp: free_from_def nth_list_update less_Suc_eq)
  ultimately show ?thesis using d by (intro exI [of _ ?e]) simp
qed

text \<open>After \<open>i\<close> rounds of \<open>ramdisk_init\<close>.\<close>

definition disk_desc :: "nat \<Rightarrow> ramdisk_t" where
  "disk_desc i = \<lparr>rd_start = KERNEL_RAMDISK_MEM + 0x100000 * of_nat i, rd_size = 0x100000\<rparr>"

definition ram_round :: "nat \<Rightarrow> nat \<Rightarrow> ram_t devs_t \<Rightarrow> bool" where
  "ram_round k i s \<longleftrightarrow> free_from (k + i) s \<and> length (ram_disks (ds_world s)) = RAMDISK_NR
     \<and> (\<forall>j<i. ram_device k j (ds_table s ! (k + j)) \<and> ram_disks (ds_world s) ! j = disk_desc j \<and> dll (ds_links s) (rlist (k + j)) [])
     \<and> (\<forall>m<i * 0x100000. ram_byte (ram_bytes (ds_world s)) m = 0)"

lemma ramdisk_name_string:
  assumes "i < RAMDISK_NR"
  shows "ramdisk_name i = [0x6d, 0x64, of_nat (0x61 + i)] @ [0] \<and> 0 \<notin> set [0x6d, 0x64, of_nat (0x61 + i) :: u8]"
proof -
  consider "i = 0" | "i = 1" | "i = 2" | "i = 3" using assms unfolding RAMDISK_NR_def by linarith
  then show ?thesis by cases (simp_all add: ramdisk_name_def)
qed

lemma ram_round_next:
  assumes "ram_round k i s" "i < RAMDISK_NR" "k + RAMDISK_NR \<le> DEVICE_NR"
  shows "\<exists>t. ramdisk_loop (Suc n) i 0x100000 s = ramdisk_loop n (Suc i) 0x100000 t \<and> ram_round k (Suc i) t"
proof -
  note r = assms(1) [unfolded ram_round_def]
  define w where "w = (ds_world s)\<lparr>ram_disks := (ram_disks (ds_world s))[i := disk_desc i],
    ram_bytes := ram_put (ram_bytes (ds_world s)) (rd_start (disk_desc i)) (replicate (unat (0x100000 :: u32)) 0)\<rparr>"
  have free: "free_from (k + i) (s\<lparr>ds_world := w\<rparr>)" using r by (simp add: free_from_def)
  have ki: "k + i < DEVICE_NR" using assms(2,3) by simp
  have nm: "ramdisk_name i = [0x6d, 0x64, of_nat (0x61 + i)] @ [0]" "0 \<notin> set [0x6d, 0x64, of_nat (0x61 + i) :: u8]"
    using ramdisk_name_string [OF assms(2)] by simp_all
  obtain e where e: "device_install DEV_BLOCK DEV_RAMDISK i (ramdisk_name i) 0 (Some ramdisk_ioctl) (Some ramdisk_read) (Some ramdisk_write)
      (s\<lparr>ds_world := w\<rparr>) = Inr (of_nat (k + i), s\<lparr>ds_world := w, ds_table := (ds_table s)[k + i := e]\<rparr>)"
    "ram_device k i e" "free_from (Suc (k + i)) (s\<lparr>ds_world := w, ds_table := (ds_table s)[k + i := e]\<rparr>)"
    using device_install_first [OF free ki nm(2), of DEV_BLOCK DEV_RAMDISK i 0 "Some ramdisk_ioctl" "Some ramdisk_read" "Some ramdisk_write"]
    by (auto simp: nm(1) ram_device_def DEV_BLOCK_def DEV_NULL_def)
  let ?t = "s\<lparr>ds_world := w, ds_table := (ds_table s)[k + i := e]\<rparr>"
  have step: "ramdisk_loop (Suc n) i 0x100000 s = ramdisk_loop n (Suc i) 0x100000 ?t"
    using e(1) unfolding w_def by (simp add: seqM_def bindM_def driver_def disk_desc_def Let_def)
  have len: "k + i < length (ds_table s)" using free ki by (simp add: free_from_def)
  have old: "ram_device k j (ds_table ?t ! (k + j)) \<and> ram_disks (ds_world ?t) ! j = disk_desc j \<and> dll (ds_links ?t) (rlist (k + j)) []"
    if "j < Suc i" for j
    using that r e(2) assms(2) free ki len by (cases "j = i") (auto simp: w_def free_from_def)
  have zero: "ram_byte (ram_bytes w) m = 0" if "m < Suc i * 0x100000" for m
  proof -
    have i3: "i \<le> 3" using assms(2) by (simp add: RAMDISK_NR_def)
    have start: "rd_start (disk_desc i) = KERNEL_RAMDISK_MEM + of_nat (i * 0x100000)" by (simp add: disk_desc_def)
    have n: "unat (0x100000 :: u32) = 0x100000" by simp
    have "ram_byte (ram_bytes w) m = (if i * 0x100000 \<le> m \<and> m < i * 0x100000 + 0x100000 then 0
        else ram_byte (ram_bytes (ds_world s)) m)"
      using ram_put_byte [of "i * 0x100000" m "replicate 0x100000 (0 :: u8)" "ram_bytes (ds_world s)"] i3 that
      unfolding w_def start n by (simp)
    with that r show ?thesis by auto
  qed
  have "ram_round k (Suc i) ?t" using e(3) r old zero by (auto simp: ram_round_def w_def)
  with step show ?thesis by blast
qed

lemma ramdisk_loop_runs:
  "ram_round k i s \<Longrightarrow> i + n = RAMDISK_NR \<Longrightarrow> k + RAMDISK_NR \<le> DEVICE_NR \<Longrightarrow>
   \<exists>t. ramdisk_loop n i 0x100000 s = Inr ((), t) \<and> ram_round k RAMDISK_NR t"
proof (induction n arbitrary: i s)
  case (Suc n)
  from ram_round_next [OF Suc.prems(1) _ Suc.prems(3), of n] Suc.prems(2)
  obtain t where "ramdisk_loop (Suc n) i 0x100000 s = ramdisk_loop n (Suc i) 0x100000 t" "ram_round k (Suc i) t" by auto
  with Suc.IH [of "Suc i" t] Suc.prems(2,3) show ?case by auto
qed simp

lemma ramdisk_init_runs:
  assumes "free_from k s" "k + RAMDISK_NR \<le> DEVICE_NR" "length (ram_disks (ds_world s)) = RAMDISK_NR"
  shows "\<exists>t. ramdisk_init s = Inr ((), t) \<and> ram_ok k t \<and> (\<forall>d b. ram_served k d b \<longrightarrow> ram_content k t (d, b) = replicate 1024 0)"
proof -
  have "ram_round k 0 s" using assms by (simp add: ram_round_def)
  from ramdisk_loop_runs [OF this, of RAMDISK_NR] assms(2) obtain t
    where t: "ramdisk_loop RAMDISK_NR 0 0x100000 s = Inr ((), t)" "ram_round k RAMDISK_NR t" by auto
  have "ramdisk_init s = Inr ((), t)"
    using t(1) by (simp add: ramdisk_init_def KERNEL_RAMDISK_SIZE_def RAMDISK_NR_def SECTOR_SIZE_def seqM_def bindM_def Let_def)
  moreover have "ram_disks (ds_world t) = map disk_desc [0..<RAMDISK_NR]"
    using t(2) by (intro nth_equalityI) (auto simp: ram_round_def)
  then have "ram_ok k t"
    using t(2) assms(2) by (auto simp: ram_round_def ram_ok_def free_from_def disk_desc_def)
  moreover have "ram_content k t (d, b) = replicate 1024 0" if "ram_served k d b" for d b
  proof -
    have "map (\<lambda>j. ram_byte (ram_bytes (ds_world t)) (ram_place k (d, b) + j)) [0..<1024] = map (\<lambda>_. 0) [0..<1024]"
      using t(2) ram_place_bound [OF that] by (intro map_cong) (auto simp: ram_round_def RAMDISK_NR_def)
    then show ?thesis using that by (simp add: ram_content_def ram_get_byte map_replicate_const del: map_eq_conv)
  qed
  ultimately show ?thesis by blast
qed

lemma list_init_many:
  assumes "n \<le> DEVICE_NR"
  shows "(\<forall>j<n. dll (foldl (\<lambda>h i. list_init h (rlist i)) h [0..<n]) (rlist j) [])
    \<and> (\<forall>r. l_next (foldl (\<lambda>h i. list_init h (rlist i)) h [0..<n]) (Req r) = l_next h (Req r)
        \<and> l_prev (foldl (\<lambda>h i. list_init h (rlist i)) h [0..<n]) (Req r) = l_prev h (Req r))"
proof (induction n)
  case (Suc n)
  let ?h = "foldl (\<lambda>h i. list_init h (rlist i)) h [0..<n]"
  have "dll (list_init ?h (rlist n)) (rlist j) []" if "j < Suc n" for j
  proof (cases "j = n")
    case False
    then have "dll ?h (rlist j) []" using Suc.IH that by simp
    moreover have "same_outside {Req_Head n, Req_Tail n} ?h (list_init ?h (rlist n))"
      by (simp add: same_outside_def list_init_def Let_def)
    ultimately show ?thesis by (rule dll_same_outside) (use False in \<open>simp add: cells_def\<close>)
  qed (simp add: list_init_dll)
  with Suc.IH show ?case by (simp add: list_init_def Let_def)
qed simp

lemma device_init_free:
  assumes "detached (ds_links s) (Req 0)"
  shows "\<exists>t. device_init s = Inr ((), t) \<and> free_from 1 t \<and> ds_world t = ds_world s"
  using list_init_many [of DEVICE_NR "ds_links s"] assms
  by (auto simp: device_init_def free_from_def null_device_def null_name_def detached_def)

text \<open>
  The drivers' check is against the end of the kernel's memory and not of the disk: a block behind the
  end of a disk is one of the next disk.
\<close>

lemma ramdisk_overrun:
  assumes "ram_disks w = map disk_desc [0..<RAMDISK_NR]" "Suc i < RAMDISK_NR"
  shows "ramdisk_read i count (0x800 + lba) flags w = ramdisk_read (Suc i) count lba flags w"
    and "ramdisk_write i buf count (0x800 + lba) flags w = ramdisk_write (Suc i) buf count lba flags w"
proof -
  have l: "load_at (ram_disks w) i = Inr (disk_desc i)" "load_at (ram_disks w) (Suc i) = Inr (disk_desc (Suc i))"
    using assms by simp_all
  have a: "rd_start (disk_desc i) + (0x800 + lba) * SECTOR_SIZE = rd_start (disk_desc (Suc i)) + lba * SECTOR_SIZE"
    by (simp add: disk_desc_def SECTOR_SIZE_def algebra_simps)
  show "ramdisk_read i count (0x800 + lba) flags w = ramdisk_read (Suc i) count lba flags w"
    "ramdisk_write i buf count (0x800 + lba) flags w = ramdisk_write (Suc i) buf count lba flags w"
    by (simp_all only: ramdisk_read_def ramdisk_write_def bindM_def getM_def bindr_Inr prod.case id_apply l liftM_def Let_def a)
qed

text \<open>
  C35. The RAM disks are disks.  \<open>ramdisk_init\<close>, on a device table that has room for its four devices,
  makes them with all blocks zero; then every list of block writes to them succeeds, and reading any
  block gives the bytes last written to that block of that disk, and to no other.
\<close>
theorem ramdisk_stores_blocks:
  assumes "free_from k s" "k + RAMDISK_NR \<le> DEVICE_NR" "length (ram_disks (ds_world s)) = RAMDISK_NR"
    and "list_all (\<lambda>(d, b, data). ram_served k d b \<and> length data = 1024) ws"
    and "ram_served k d b" "length buf = 1024"
  shows "\<exists>s0 s1 s2. ramdisk_init s = Inr ((), s0) \<and> write_all ws s0 = Inr ((), s1)
    \<and> device_request d buf BLOCK_SECS (b * BLOCK_SECS) 0 REQ_READ s1
      = Inr (last_written (\<lambda>_. replicate 1024 0) ws (d, b), s2)"
proof -
  obtain s0 where s0: "ramdisk_init s = Inr ((), s0)" "ram_ok k s0"
    "\<forall>d b. ram_served k d b \<longrightarrow> ram_content k s0 (d, b) = replicate 1024 0"
    using ramdisk_init_runs [OF assms(1-3)] by blast
  obtain s1 where s1: "write_all ws s0 = Inr ((), s1)" "ram_ok k s1" "ram_content k s1 = last_written (ram_content k s0) ws"
    using ram.write_all_runs [OF s0(2) assms(4)] by blast
  have "last_written (ram_content k s0) ws (d, b) = last_written (\<lambda>_. replicate 1024 0) ws (d, b)"
    using last_written_cong [of "ram_content k s0" "(d, b)" "\<lambda>_. replicate 1024 0" ws] s0(3) assms(5) by simp
  with s0(1) s1 ram.read_block [OF s1(2) assms(5,6)] show ?thesis by metis
qed

definition demo_devices :: "ram_t devs_t" where
  "demo_devices = \<lparr>ds_table = [], ds_links = \<lparr>l_next = (\<lambda>_. None), l_prev = (\<lambda>_. None)\<rparr>,
     ds_req = (\<lambda>_. \<lparr>r_dev = 0, r_type = 0, r_idx = 0, r_count = 0, r_flags = 0, r_task = None\<rparr>),
     ds_world = \<lparr>ram_disks = replicate 4 \<lparr>rd_start = 0, rd_size = 0\<rparr>, ram_bytes = (\<lambda>_. 7)\<rparr>\<rparr>"

lemma ramdisk_stores_blocks_witness:
  "\<exists>s s0 s1 s2. device_init demo_devices = Inr ((), s) \<and> ramdisk_init s = Inr ((), s0)
    \<and> write_all [(1, 5, replicate 1024 1), (2, 5, replicate 1024 2), (1, 6, replicate 1024 3)] s0 = Inr ((), s1)
    \<and> device_request 1 (replicate 1024 9) BLOCK_SECS (5 * BLOCK_SECS) 0 REQ_READ s1 = Inr (replicate 1024 1, s2)"
proof -
  obtain s where s: "device_init demo_devices = Inr ((), s)" "free_from 1 s" "ds_world s = ds_world demo_devices"
    using device_init_free [of demo_devices] by (auto simp: demo_devices_def detached_def)
  have pre: "1 + RAMDISK_NR \<le> DEVICE_NR" "length (ram_disks (ds_world s)) = RAMDISK_NR"
    "list_all (\<lambda>(d, b, data). ram_served 1 d b \<and> length data = 1024)
      [(1, 5, replicate 1024 1), (2, 5, replicate 1024 2), (1, 6, replicate 1024 3)]" "ram_served 1 1 5"
    "length (replicate 1024 (9 :: u8)) = 1024"
    by (simp_all add: s(3) demo_devices_def RAMDISK_NR_def DEVICE_NR_def ram_served_def)
  note P = ramdisk_stores_blocks [OF s(2) pre]
  have "last_written (\<lambda>_. replicate 1024 0) [(1, 5, replicate 1024 1), (2, 5, replicate 1024 2), (1, 6, replicate 1024 3)] (1, 5)
      = replicate 1024 1"
    by (simp add: last_written_def)
  with P s(1) show ?thesis by metis
qed

end
