(* ===== verification/Ylos_Cache.thy ===== *)
theory Ylos_Cache
  imports Ylos_Buffer Ylos_Disk Ylos_Heap
begin

text \<open>
  The buffer cache of kernel/buffer.c over a block device: the invariant of its hash chains, its free
  list and its buffers, and what \<open>bread\<close> and \<open>brelse\<close> do to the blocks a client sees.
\<close>

section \<open>The invariant\<close>

definition buf_key :: "buffer_t \<Rightarrow> u32 \<times> u32" where
  "buf_key x = (b_dev x, b_block x)"

definition chain_of :: "u32 \<times> u32 \<Rightarrow> nat" where
  "chain_of db = hash (fst db) (snd db)"

text \<open>The links: \<open>H i\<close> are the buffers on hash chain \<open>i\<close>, \<open>F\<close> those on the free list, of \<open>n\<close> buffers.\<close>

definition cache_lists :: "fnode links \<Rightarrow> nat \<Rightarrow> (nat \<Rightarrow> nat list) \<Rightarrow> nat list \<Rightarrow> bool" where
  "cache_lists h n H F \<longleftrightarrow> (\<forall>i<31. dll h (hash_list i) (map Hnode (H i)))
     \<and> dll h buffer_free_list (map Rnode F)
     \<and> (\<forall>b\<ge>n. detached h (Hnode b)) \<and> (\<forall>b. b \<notin> set F \<longrightarrow> detached h (Rnode b))"

text \<open>The buffers: each is on the chain of its key, no two have the same key, the free ones are those
  nobody holds, and the clean ones agree with the device.\<close>

definition cache_bufs :: "(u32 \<Rightarrow> u32 \<Rightarrow> bool) \<Rightarrow> (u32 \<times> u32 \<Rightarrow> u8 list) \<Rightarrow> buffer_t list \<Rightarrow> (nat \<Rightarrow> nat list) \<Rightarrow> nat list \<Rightarrow> bool" where
  "cache_bufs served D bufs H F \<longleftrightarrow>
     (\<forall>i<31. set (H i) = {b. b < length bufs \<and> chain_of (buf_key (bufs ! b)) = i})
     \<and> (\<forall>b<length bufs. \<forall>c<length bufs. buf_key (bufs ! b) = buf_key (bufs ! c) \<longrightarrow> b = c)
     \<and> set F = {b. b < length bufs \<and> b_count (bufs ! b) = 0}
     \<and> (\<forall>b<length bufs. 0 \<le> b_count (bufs ! b) \<and> b_valid (bufs ! b) \<and> length (b_data (bufs ! b)) = 1024
          \<and> served (b_dev (bufs ! b)) (b_block (bufs ! b))
          \<and> (\<not> b_dirty (bufs ! b) \<longrightarrow> b_data (bufs ! b) = D (buf_key (bufs ! b)))
          \<and> (b_count (bufs ! b) = 0 \<longrightarrow> \<not> b_dirty (bufs ! b)))"

definition cache_room :: "'w fs_t \<Rightarrow> bool" where
  "cache_room s \<longleftrightarrow> fs_buf_ptr s = KERNEL_BUFFER_MEM + of_nat (length (fs_bufs s)) * BUFFER_T_SIZE
     \<and> fs_buf_data s = KERNEL_BUFFER_MEM + KERNEL_BUFFER_SIZE - BLOCK_SIZE - of_nat (length (fs_bufs s)) * BLOCK_SIZE
     \<and> length (fs_bufs s) \<le> 3855"

definition cache_wf ::
    "('w devs_t \<Rightarrow> bool) \<Rightarrow> (u32 \<Rightarrow> u32 \<Rightarrow> bool) \<Rightarrow> ('w devs_t \<Rightarrow> u32 \<times> u32 \<Rightarrow> u8 list) \<Rightarrow> 'w fs_t \<Rightarrow>
     (nat \<Rightarrow> nat list) \<Rightarrow> nat list \<Rightarrow> bool" where
  "cache_wf ok served content s H F \<longleftrightarrow> ok (fs_devs s) \<and> fs_waiters s = [] \<and> cache_room s
     \<and> cache_lists (fs_links s) (length (fs_bufs s)) H F
     \<and> cache_bufs served (content (fs_devs s)) (fs_bufs s) H F"

text \<open>What a client sees of a block: the buffer when there is one, the device otherwise.\<close>

definition cached :: "buffer_t list \<Rightarrow> u32 \<times> u32 \<Rightarrow> bool" where
  "cached bufs db \<longleftrightarrow> (\<exists>b<length bufs. buf_key (bufs ! b) = db)"

fun block_view :: "buffer_t list \<Rightarrow> (u32 \<times> u32 \<Rightarrow> u8 list) \<Rightarrow> u32 \<times> u32 \<Rightarrow> u8 list" where
  "block_view [] D db = D db"
| "block_view (x # xs) D db = (if buf_key x = db then b_data x else block_view xs D db)"

lemma block_view_nth:
  "b < length bufs \<Longrightarrow> buf_key (bufs ! b) = db \<Longrightarrow> (\<And>c. c < b \<Longrightarrow> buf_key (bufs ! c) \<noteq> db) \<Longrightarrow>
   block_view bufs D db = b_data (bufs ! b)"
proof (induction bufs arbitrary: b)
  case (Cons x xs)
  show ?case
  proof (cases b)
    case (Suc c)
    have "buf_key x \<noteq> db" using Cons.prems(3) [of 0] Suc by simp
    moreover have "block_view xs D db = b_data (xs ! c)"
      by (rule Cons.IH) (use Cons.prems Suc in force)+
    ultimately show ?thesis by (simp add: Suc)
  qed (use Cons.prems in simp)
qed simp

lemma block_view_none: "\<not> cached bufs db \<Longrightarrow> block_view bufs D db = D db"
  by (induction bufs) (force simp: cached_def)+

section \<open>The chains\<close>

lemma hash_less: "hash d b < 31"
proof -
  have "unat ((d XOR b) mod HASH_COUNT) < unat HASH_COUNT"
    unfolding unat_mod by (rule mod_less_divisor) (simp add: HASH_COUNT_def)
  then show ?thesis by (simp add: hash_def HASH_COUNT_def)
qed

lemma chain_less [simp]: "chain_of db < 31"
  by (simp add: chain_of_def hash_less)

lemma hash_list_simps [simp]: "l_head (hash_list i) = Hash_Head i" "l_tail (hash_list i) = Hash_Tail i"
  "l_head buffer_free_list = Free_List_Head" "l_tail buffer_free_list = Free_List_Tail"
  by (simp_all add: hash_list_def buffer_free_list_def)

lemma hash_loop_dll:
  assumes "linked h (p # map Hnode xs @ [Hash_Tail i])" and "\<forall>b\<in>set xs. b < length bufs"
  shows "hash_loop h bufs (Hash_Tail i) dev block (l_next h p)
    = Some (Inr (find (\<lambda>b. buf_key (bufs ! b) = (dev, block)) xs))"
  using assms
proof (induction xs arbitrary: p)
  case Nil
  then show ?case by (simp add: hash_loop.simps)
next
  case (Cons x xs)
  then have "l_next h p = Some (Hnode x)" "x < length bufs" and rest: "linked h (Hnode x # map Hnode xs @ [Hash_Tail i])"
    "\<forall>b\<in>set xs. b < length bufs" by auto
  then show ?case
    using Cons.IH [OF rest] by (subst hash_loop.simps) (auto simp: buf_key_def)
qed

lemma cache_bufsD:
  assumes "cache_bufs served D bufs H F"
  shows "i < 31 \<Longrightarrow> set (H i) = {b. b < length bufs \<and> chain_of (buf_key (bufs ! b)) = i}"
    and "b < length bufs \<Longrightarrow> c < length bufs \<Longrightarrow> buf_key (bufs ! b) = buf_key (bufs ! c) \<Longrightarrow> b = c"
    and "set F = {b. b < length bufs \<and> b_count (bufs ! b) = 0}"
    and "b < length bufs \<Longrightarrow> 0 \<le> b_count (bufs ! b) \<and> b_valid (bufs ! b) \<and> length (b_data (bufs ! b)) = 1024
          \<and> served (b_dev (bufs ! b)) (b_block (bufs ! b))
          \<and> (\<not> b_dirty (bufs ! b) \<longrightarrow> b_data (bufs ! b) = D (buf_key (bufs ! b)))
          \<and> (b_count (bufs ! b) = 0 \<longrightarrow> \<not> b_dirty (bufs ! b))"
  using assms unfolding cache_bufs_def by simp_all

lemma find_unique:
  assumes "b \<in> set xs" "P b" and u: "\<And>c. c \<in> set xs \<Longrightarrow> P c \<Longrightarrow> c = b"
  shows "find P xs = Some b"
proof (cases "find P xs")
  case None
  then have "\<not> P b" using assms(1) by (simp add: find_None_iff)
  with assms(2) show ?thesis by blast
next
  case (Some c)
  then have "c \<in> set xs" "P c" by (auto simp: find_Some_iff)
  from u [OF this] Some show ?thesis by simp
qed

lemma find_cached:
  assumes "cache_bufs served D bufs H F" and "b < length bufs"
  shows "find (\<lambda>c. buf_key (bufs ! c) = buf_key (bufs ! b)) (H (chain_of (buf_key (bufs ! b)))) = Some b"
proof (rule find_unique)
  let ?i = "chain_of (buf_key (bufs ! b))"
  note S = cache_bufsD(1) [OF assms(1) chain_less]
  show "b \<in> set (H ?i)" using assms(2) by (simp only: S mem_Collect_eq simp_thms)
  show "c = b" if "c \<in> set (H ?i)" "buf_key (bufs ! c) = buf_key (bufs ! b)" for c
    by (rule cache_bufsD(2) [OF assms(1) _ assms(2) that(2)]) (use that(1) in \<open>simp only: S mem_Collect_eq\<close>)
qed simp

lemma find_uncached:
  assumes "cache_bufs served D bufs H F" and "\<not> cached bufs db"
  shows "find (\<lambda>c. buf_key (bufs ! c) = db) (H (chain_of db)) = None"
  unfolding find_None_iff
proof
  assume "\<exists>c. c \<in> set (H (chain_of db)) \<and> buf_key (bufs ! c) = db"
  then obtain c where "c \<in> set (H (chain_of db))" "buf_key (bufs ! c) = db" by (elim exE conjE)
  then show False using assms(2) unfolding cache_bufsD(1) [OF assms(1) chain_less] cached_def by simp
qed

text \<open>Taking a buffer off the free list, putting it there, and a new buffer on its chain.\<close>

lemma cache_lists_bufs:
  assumes "cache_lists h n H F" "cache_bufs served D bufs H F" "n = length bufs"
  shows "dll h (hash_list (chain_of db)) (map Hnode (H (chain_of db)))" "\<forall>b\<in>set (H (chain_of db)). b < n"
    "dll h buffer_free_list (map Rnode F)"
  using assms(1,3) cache_bufsD(1) [OF assms(2) chain_less] by (auto simp: cache_lists_def)

lemma map_Rnode [simp]: "map Rnode (remove1 b F) = remove1 (Rnode b) (map Rnode F)"
  by (induction F) auto

lemma cache_lists_unfree:
  assumes "cache_lists h n H F" "b \<in> set F"
  shows "\<exists>h'. list_remove h (Rnode b) = Inr h' \<and> cache_lists h' n H (remove1 b F)"
proof -
  have f: "dll h buffer_free_list (map Rnode F)" using assms(1) by (simp add: cache_lists_def)
  obtain h' where h': "list_remove h (Rnode b) = Inr h'" "dll h' buffer_free_list (map Rnode (remove1 b F))"
    "detached h' (Rnode b)" "same_outside (cells buffer_free_list (map Rnode F)) h h'"
    using list_remove_member [OF f, of "Rnode b"] assms(2) by auto
  have "dll h' (hash_list i) (map Hnode (H i))" if "i < 31" for i
    by (rule dll_same_outside [OF _ h'(4)]) (use assms(1) that in \<open>auto simp: cache_lists_def cells_def\<close>)
  moreover have "detached h' (Hnode c)" if "n \<le> c" for c
    by (rule detached_same_outside [OF _ h'(4)]) (use assms(1) that in \<open>auto simp: cache_lists_def cells_def\<close>)
  moreover have "detached h' (Rnode c)" if "c \<notin> set (remove1 b F)" for c
  proof (cases "c = b")
    case False
    then have "c \<notin> set F" using that by simp
    then show ?thesis
      by (intro detached_same_outside [OF _ h'(4)]) (use assms(1) in \<open>auto simp: cache_lists_def cells_def\<close>)
  qed (use h'(3) in simp)
  ultimately show ?thesis using h'(1,2) unfolding cache_lists_def by blast
qed

lemma cache_lists_free:
  assumes "cache_lists h n H F" "b \<notin> set F"
  shows "\<exists>h'. list_push h buffer_free_list (Rnode b) = Inr h' \<and> cache_lists h' n H (b # F)"
proof -
  have f: "dll h buffer_free_list (map Rnode F)" using assms(1) by (simp add: cache_lists_def)
  obtain h' where h': "list_push h buffer_free_list (Rnode b) = Inr h'" "dll h' buffer_free_list (Rnode b # map Rnode F)"
    "same_outside (cells buffer_free_list (Rnode b # map Rnode F)) h h'"
    using list_push_dll [OF f, of "Rnode b"] assms(2) by (auto simp: cells_def)
  have "dll h' (hash_list i) (map Hnode (H i))" if "i < 31" for i
    by (rule dll_same_outside [OF _ h'(3)]) (use assms(1) that in \<open>auto simp: cache_lists_def cells_def\<close>)
  moreover have "detached h' (Hnode c)" if "n \<le> c" for c
    by (rule detached_same_outside [OF _ h'(3)]) (use assms(1) that in \<open>auto simp: cache_lists_def cells_def\<close>)
  moreover have "detached h' (Rnode c)" if "c \<notin> set (b # F)" for c
    by (rule detached_same_outside [OF _ h'(3)]) (use assms(1) that in \<open>auto simp: cache_lists_def cells_def\<close>)
  ultimately show ?thesis using h'(1,2) unfolding cache_lists_def by simp
qed

lemma cache_lists_new:
  assumes "cache_lists h n H F" "i < 31" "\<forall>b\<in>set (H i). b < n"
    and dis: "\<And>j. j < 31 \<Longrightarrow> j \<noteq> i \<Longrightarrow> set (H j) \<inter> insert n (set (H i)) = {}"
  shows "\<exists>h'. list_push h (hash_list i) (Hnode n) = Inr h' \<and> list_search h (hash_list i) (Hnode n) = Inr False
    \<and> cache_lists h' (Suc n) (H(i := n # H i)) F"
proof -
  have f: "dll h (hash_list i) (map Hnode (H i))" using assms(1,2) by (simp add: cache_lists_def)
  have n: "Hnode n \<notin> cells (hash_list i) (map Hnode (H i))" using assms(3) by (auto simp: cells_def)
  obtain h' where h': "list_push h (hash_list i) (Hnode n) = Inr h'" "dll h' (hash_list i) (Hnode n # map Hnode (H i))"
    "same_outside (cells (hash_list i) (Hnode n # map Hnode (H i))) h h'"
    using list_push_dll [OF f n] by blast
  have "dll h' (hash_list j) (map Hnode ((H(i := n # H i)) j))" if "j < 31" for j
  proof (cases "j = i")
    case False
    have "dll h (hash_list j) (map Hnode (H j))" using assms(1) that by (simp add: cache_lists_def)
    moreover have "cells (hash_list j) (map Hnode (H j)) \<inter> cells (hash_list i) (Hnode n # map Hnode (H i)) = {}"
      using dis [OF that False] False by (auto simp: cells_def)
    ultimately show ?thesis using False dll_same_outside [OF _ h'(3)] by simp
  qed (use h'(2) in simp)
  moreover have "detached h' (Hnode c)" if "Suc n \<le> c" for c
    by (rule detached_same_outside [OF _ h'(3)]) (use assms(1,3) that in \<open>auto simp: cache_lists_def cells_def\<close>)
  moreover have "detached h' (Rnode c)" if "c \<notin> set F" for c
    by (rule detached_same_outside [OF _ h'(3)]) (use assms(1) that in \<open>auto simp: cache_lists_def cells_def\<close>)
  moreover have "dll h' buffer_free_list (map Rnode F)"
    by (rule dll_same_outside [OF _ h'(3)]) (use assms(1) in \<open>auto simp: cache_lists_def cells_def\<close>)
  moreover have "list_search h (hash_list i) (Hnode n) = Inr False" using list_search_dll [OF f] n by (simp add: cells_def)
  ultimately show ?thesis using h'(1) unfolding cache_lists_def by blast
qed

section \<open>Looking a block up\<close>

lemma get_cached:
  assumes "cache_wf ok served content s H F" "b < length (fs_bufs s)" "buf_key (fs_bufs s ! b) = (dev, block)"
  shows "\<exists>h. get_from_hash_table dev block s = Inr (Some b, s\<lparr>fs_links := h\<rparr>)
    \<and> cache_lists h (length (fs_bufs s)) H (remove1 b F)"
proof -
  note w = assms(1) [unfolded cache_wf_def]
  have L: "cache_lists (fs_links s) (length (fs_bufs s)) H F" and B: "cache_bufs served (content (fs_devs s)) (fs_bufs s) H F"
    using w by simp_all
  let ?i = "hash dev block"
  have i: "chain_of (dev, block) = ?i" by (simp add: chain_of_def)
  note d = cache_lists_bufs(1,2) [OF L B refl, of "(dev, block)", unfolded i] cache_lists_bufs(3) [OF L B refl]
  have f: "find (\<lambda>b. buf_key (fs_bufs s ! b) = (dev, block)) (H ?i) = Some b"
    using find_cached [OF B assms(2)] unfolding assms(3) i .
  have loop: "hash_loop (fs_links s) (fs_bufs s) (Hash_Tail ?i) dev block (l_next (fs_links s) (Hash_Head ?i)) = Some (Inr (Some b))"
    using hash_loop_dll [of "fs_links s" "Hash_Head ?i" "H ?i" ?i "fs_bufs s" dev block] dll_linked [OF d(1)] d(2) f by simp
  have s: "list_search (fs_links s) buffer_free_list (Rnode b) = Inr (b \<in> set F)"
    using list_search_dll [OF d(3)] by auto
  show ?thesis
  proof (cases "b \<in> set F")
    case True
    from cache_lists_unfree [OF L True] obtain h where "list_remove (fs_links s) (Rnode b) = Inr h"
      "cache_lists h (length (fs_bufs s)) H (remove1 b F)" by blast
    then show ?thesis using True
      by (intro exI [of _ h]) (simp add: get_from_hash_table_def bindM_def seqM_def Let_def loop returned_def s)
  next
    case False
    then have "remove1 b F = F" by (simp add: remove1_idem)
    with False L show ?thesis
      by (intro exI [of _ "fs_links s"]) (simp add: get_from_hash_table_def bindM_def seqM_def Let_def loop returned_def s)
  qed
qed

lemma get_uncached:
  assumes "cache_wf ok served content s H F" "\<not> cached (fs_bufs s) (dev, block)"
  shows "get_from_hash_table dev block s = Inr (None, s)"
proof -
  note w = assms(1) [unfolded cache_wf_def]
  have L: "cache_lists (fs_links s) (length (fs_bufs s)) H F" and B: "cache_bufs served (content (fs_devs s)) (fs_bufs s) H F"
    using w by simp_all
  let ?i = "hash dev block"
  have i: "chain_of (dev, block) = ?i" by (simp add: chain_of_def)
  note d = cache_lists_bufs(1,2) [OF L B refl, of "(dev, block)", unfolded i] cache_lists_bufs(3) [OF L B refl]
  have f: "find (\<lambda>b. buf_key (fs_bufs s ! b) = (dev, block)) (H ?i) = None"
    using find_uncached [OF B assms(2)] unfolding i .
  have "hash_loop (fs_links s) (fs_bufs s) (Hash_Tail ?i) dev block (l_next (fs_links s) (Hash_Head ?i)) = Some (Inr None)"
    using hash_loop_dll [of "fs_links s" "Hash_Head ?i" "H ?i" ?i "fs_bufs s" dev block] dll_linked [OF d(1)] d(2) f by simp
  then show ?thesis by (simp add: get_from_hash_table_def bindM_def Let_def returned_def)
qed

lemma new_buffer_simps [simp]: "b_count new_buffer = 0" "\<not> b_dirty new_buffer" "\<not> b_valid new_buffer"
  "length (b_data new_buffer) = 1024"
  by (simp_all add: new_buffer_def)

lemma upd_buf_run: "b < length (fs_bufs s) \<Longrightarrow> upd_buf b f s = Inr ((), s\<lparr>fs_bufs := (fs_bufs s)[b := f (fs_bufs s ! b)]\<rparr>)"
  by (simp add: upd_buf_def buf_at_def bindM_def)

lemma buf_at_run: "b < length (fs_bufs s) \<Longrightarrow> buf_at b s = Inr (fs_bufs s ! b, s)"
  by (simp add: buf_at_def bindM_def)

text \<open>Updating one buffer.\<close>

lemma cache_bufs_update:
  assumes "cache_bufs served D bufs H F" "b < length bufs" "buf_key x = buf_key (bufs ! b)"
    and "0 \<le> b_count x" "b_valid x" "length (b_data x) = 1024" "b_count x = 0 \<Longrightarrow> \<not> b_dirty x"
    and D: "\<And>c. c < length bufs \<Longrightarrow> c \<noteq> b \<Longrightarrow> D' (buf_key (bufs ! c)) = D (buf_key (bufs ! c))"
    and x: "\<not> b_dirty x \<Longrightarrow> b_data x = D' (buf_key x)"
    and F: "set F' = {c. c < length bufs \<and> b_count (bufs[b := x] ! c) = 0}"
  shows "cache_bufs served D' (bufs[b := x]) H F'"
proof -
  note B = cache_bufsD [OF assms(1)]
  have key: "buf_key (bufs[b := x] ! c) = buf_key (bufs ! c)" for c
    using assms(2,3) by (cases "c = b") simp_all
  have served: "served (b_dev x) (b_block x)" using B(4) [OF assms(2)] assms(3) by (simp add: buf_key_def)
  have "0 \<le> b_count (bufs[b := x] ! c) \<and> b_valid (bufs[b := x] ! c) \<and> length (b_data (bufs[b := x] ! c)) = 1024
          \<and> served (b_dev (bufs[b := x] ! c)) (b_block (bufs[b := x] ! c))
          \<and> (\<not> b_dirty (bufs[b := x] ! c) \<longrightarrow> b_data (bufs[b := x] ! c) = D' (buf_key (bufs[b := x] ! c)))
          \<and> (b_count (bufs[b := x] ! c) = 0 \<longrightarrow> \<not> b_dirty (bufs[b := x] ! c))" if "c < length bufs" for c
    using B(4) [OF that] that assms(4-7) served x D [OF that] by (cases "c = b") simp_all
  then show ?thesis
    using B(1,2) F by (simp add: cache_bufs_def key)
qed

section \<open>Room for another buffer\<close>

lemma new_buffer_room:
  assumes "cache_room s"
  shows "fs_buf_ptr s + BUFFER_T_SIZE < fs_buf_data s \<longleftrightarrow> length (fs_bufs s) < 3855"
proof -
  let ?n = "length (fs_bufs s)"
  have n: "?n \<le> 3855" using assms by (simp add: cache_room_def)
  have "fs_buf_ptr s + BUFFER_T_SIZE = of_nat (0x800000 + ?n * 64 + 64)"
    using assms by (simp add: cache_room_def KERNEL_BUFFER_MEM_def BUFFER_T_SIZE_def)
  moreover have "fs_buf_data s = of_nat (0xbffc00 - ?n * 1024)"
    using assms n by (simp add: cache_room_def KERNEL_BUFFER_MEM_def KERNEL_BUFFER_SIZE_def BLOCK_SIZE_def of_nat_diff)
  moreover have "unat (of_nat (0x800000 + ?n * 64 + 64) :: u32) = 0x800000 + ?n * 64 + 64"
    "unat (of_nat (0xbffc00 - ?n * 1024) :: u32) = 0xbffc00 - ?n * 1024"
    by (rule unat_u32_of_nat, use n in simp)+
  ultimately have "fs_buf_ptr s + BUFFER_T_SIZE < fs_buf_data s \<longleftrightarrow> 0x800000 + ?n * 64 + 64 < 0xbffc00 - ?n * 1024"
    by (simp only: word_less_nat_alt)
  also have "\<dots> \<longleftrightarrow> ?n < 3855" unfolding less_diff_conv by (intro iffI) linarith+
  finally show ?thesis .
qed

lemma get_free_new:
  assumes "cache_room s" "length (fs_bufs s) < 3855"
  shows "get_free_buffer s = Inr (length (fs_bufs s), s\<lparr>fs_bufs := fs_bufs s @ [new_buffer],
      fs_buf_ptr := fs_buf_ptr s + BUFFER_T_SIZE, fs_buf_data := fs_buf_data s - BLOCK_SIZE\<rparr>)"
  using new_buffer_room [OF assms(1)] assms(2) by (simp add: get_free_buffer_def get_new_buffer_def bindM_def seqM_def)

text \<open>When the memory is used up the cache is at its end: with a free buffer the assertion of
  \<open>hash_remove\<close> fails.\<close>

lemma get_free_full:
  assumes "cache_wf ok served content s H F" "\<not> length (fs_bufs s) < 3855"
  shows "get_free_buffer s = Inl (if F = [] then Would_Sleep else Assert_Failed)"
proof -
  note w = assms(1) [unfolded cache_wf_def]
  have L: "cache_lists (fs_links s) (length (fs_bufs s)) H F" and B: "cache_bufs served (content (fs_devs s)) (fs_bufs s) H F"
    and R: "cache_room s" using w by simp_all
  note f = cache_lists_bufs(3) [OF L B refl]
  have new: "get_new_buffer s = Inr (None, s)"
    using new_buffer_room [OF R] assms(2) by (simp add: get_new_buffer_def bindM_def)
  show ?thesis
  proof (cases F rule: rev_cases)
    case Nil
    then show ?thesis using list_empty_dll [OF f] by (simp add: get_free_buffer_def bindM_def new)
  next
    case (snoc F' b)
    then have "dll (fs_links s) buffer_free_list (map Rnode F' @ [Rnode b])" using f by simp
    from list_popback_dll [OF this] obtain h where
      h: "list_popback (fs_links s) buffer_free_list = Inr (h, Rnode b)"
        "same_outside (cells buffer_free_list (map Rnode F' @ [Rnode b])) (fs_links s) h" by blast
    have "b \<in> set F" using snoc by simp
    then have b: "b < length (fs_bufs s)" unfolding cache_bufsD(3) [OF B] by simp
    let ?k = "buf_key (fs_bufs s ! b)"
    have "dll h (hash_list (chain_of ?k)) (map Hnode (H (chain_of ?k)))"
      by (rule dll_same_outside [OF cache_lists_bufs(1) [OF L B refl] h(2)]) (auto simp: cells_def)
    moreover have "b \<in> set (H (chain_of ?k))" using cache_bufsD(1) [OF B chain_less] b by simp
    ultimately have "list_search h (hash_list (chain_of ?k)) (Hnode b) = Inr True"
      using list_search_dll [of h "hash_list (chain_of ?k)" "map Hnode (H (chain_of ?k))" "Hnode b"] by simp
    then have "hash_remove b (s\<lparr>fs_links := h\<rparr>) = Inl Assert_Failed"
      using b by (simp add: hash_remove_def buf_at_def bindM_def seqM_def Let_def chain_of_def buf_key_def)
    then show ?thesis
      using list_empty_dll [OF f] snoc h(1) by (simp add: get_free_buffer_def bindM_def seqM_def new)
  qed
qed

section \<open>The operations\<close>

lemma distinct_free: "cache_lists h n H F \<Longrightarrow> distinct F"
  using dll_distinct [of h buffer_free_list "map Rnode F"] by (auto simp: cache_lists_def distinct_map)

lemma cached_buffer_view:
  assumes "cache_bufs served D bufs H F" "b < length bufs"
  shows "block_view bufs E (buf_key (bufs ! b)) = b_data (bufs ! b)"
  by (rule block_view_nth [OF assms(2) refl]) (use cache_bufsD(2) [OF assms(1)] assms(2) less_trans in blast)

lemma block_view_update:
  "b < length bufs \<Longrightarrow> buf_key x = buf_key (bufs ! b) \<Longrightarrow> distinct (map buf_key bufs) \<Longrightarrow>
   block_view (bufs[b := x]) D db = (if db = buf_key x then b_data x else block_view bufs D db)"
proof (induction bufs arbitrary: b)
  case (Cons y ys)
  show ?case
  proof (cases b)
    case (Suc c)
    have "buf_key (ys ! c) \<in> buf_key ` set ys" using Cons.prems(1) Suc by simp
    then have "buf_key y \<noteq> buf_key x" using Cons.prems Suc by auto
    then show ?thesis using Cons.IH [of c] Cons.prems Suc by auto
  qed (use Cons.prems in auto)
qed simp

lemma distinct_keys: "cache_bufs served D bufs H F \<Longrightarrow> distinct (map buf_key bufs)"
  using cache_bufsD(2) [of served D bufs H F] by (force simp: distinct_conv_nth)

lemma block_view_append: "\<not> cached bufs (buf_key x) \<Longrightarrow>
    block_view (bufs @ [x]) D db = (if db = buf_key x then b_data x else block_view bufs D db)"
proof (induction bufs)
  case (Cons y ys)
  have "buf_key y \<noteq> buf_key x" "\<not> cached ys (buf_key x)"
    using Cons.prems by (fastforce simp: cached_def)+
  with Cons.IH show ?case by auto
qed simp

lemma block_view_device: "cached bufs db \<Longrightarrow> block_view bufs D db = block_view bufs E db"
proof (induction bufs)
  case (Cons y ys)
  have "cached ys db" if "buf_key y \<noteq> db"
    using Cons.prems that by (auto simp: cached_def less_Suc_eq_0_disj)
  then show ?case using Cons.IH by auto
qed (simp add: cached_def)

context block_device begin

lemma bread_cached:
  assumes w: "cache_wf ok served content s H F" and b: "b < length (fs_bufs s)" "buf_key (fs_bufs s ! b) = (d, k)"
  shows "\<exists>t. bread d k s = Inr (b, t) \<and> cache_wf ok served content t H (remove1 b F)
    \<and> fs_bufs t = (fs_bufs s)[b := (fs_bufs s ! b)\<lparr>b_count := b_count (fs_bufs s ! b) + 1\<rparr>] \<and> fs_devs t = fs_devs s"
proof -
  note W = w [unfolded cache_wf_def]
  have B: "cache_bufs served (content (fs_devs s)) (fs_bufs s) H F" using W by simp
  obtain h where h: "get_from_hash_table d k s = Inr (Some b, s\<lparr>fs_links := h\<rparr>)" "cache_lists h (length (fs_bufs s)) H (remove1 b F)"
    using get_cached [OF w b] by blast
  let ?x = "fs_bufs s ! b" let ?y = "?x\<lparr>b_count := b_count ?x + 1\<rparr>"
  let ?t = "s\<lparr>fs_links := h, fs_bufs := (fs_bufs s)[b := ?y]\<rparr>"
  note x = cache_bufsD(4) [OF B b(1)]
  have "bread d k s = Inr (b, ?t)"
    using b(1) x by (simp add: bread_def getblk_def bindM_def seqM_def h(1) upd_buf_run buf_at_run)
  moreover have "set F = {c. c < length (fs_bufs s) \<and> b_count (fs_bufs s ! c) = 0}" by (rule cache_bufsD(3) [OF B])
  then have "set (remove1 b F) = {c. c < length (fs_bufs s) \<and> b_count ((fs_bufs s)[b := ?y] ! c) = 0}"
    using distinct_free W x b(1) by (auto simp: nth_list_update)
  then have "cache_bufs served (content (fs_devs s)) ((fs_bufs s)[b := ?y]) H (remove1 b F)"
    by (intro cache_bufs_update [OF B b(1)]) (use x in \<open>simp_all add: buf_key_def\<close>)
  then have "cache_wf ok served content ?t H (remove1 b F)" using W h(2) by (simp add: cache_wf_def cache_room_def)
  ultimately show ?thesis by (intro exI [of _ ?t]) simp
qed

lemma bread_new:
  assumes w: "cache_wf ok served content s H F" and n: "\<not> cached (fs_bufs s) (d, k)" "length (fs_bufs s) < 3855"
    and "served d k"
  shows "\<exists>t H'. bread d k s = Inr (length (fs_bufs s), t) \<and> cache_wf ok served content t H' F
    \<and> fs_bufs t = fs_bufs s @ [\<lparr>b_data = content (fs_devs s) (d, k), b_dev = d, b_block = k, b_count = 1, b_dirty = False, b_valid = True\<rparr>]
    \<and> content (fs_devs t) = content (fs_devs s)"
proof -
  note W = w [unfolded cache_wf_def]
  let ?n = "length (fs_bufs s)" let ?i = "hash d k" and ?c = "content (fs_devs s)"
  have B: "cache_bufs served ?c (fs_bufs s) H F" and L: "cache_lists (fs_links s) ?n H F"
    and R: "cache_room s" using W by simp_all
  have i: "?i < 31" "chain_of (d, k) = ?i" by (simp_all add: hash_less chain_of_def)
  note S = cache_bufsD(1) [OF B]
  obtain h where h: "list_push (fs_links s) (hash_list ?i) (Hnode ?n) = Inr h"
    "list_search (fs_links s) (hash_list ?i) (Hnode ?n) = Inr False" "cache_lists h (Suc ?n) (H(?i := ?n # H ?i)) F"
    using cache_lists_new [OF L i(1)] S i(1) by auto
  let ?new = "new_buffer\<lparr>b_count := 1, b_dev := d, b_block := k\<rparr>"
  let ?s = "s\<lparr>fs_bufs := fs_bufs s @ [?new], fs_buf_ptr := fs_buf_ptr s + BUFFER_T_SIZE,
    fs_buf_data := fs_buf_data s - BLOCK_SIZE, fs_links := h\<rparr>"
  have blk: "getblk d k s = Inr (?n, ?s)"
    using h(1,2) by (simp add: getblk_def bindM_def seqM_def get_uncached [OF w n(1)] get_free_new [OF R n(2)]
        buf_at_run upd_buf_run hash_locate_def Let_def list_update_append)
  obtain e where e: "device_request d (b_data ?new) BLOCK_SECS (k * BLOCK_SECS) 0 REQ_READ (fs_devs s) = Inr (?c (d, k), e)"
    "ok e" "content e = ?c"
    using read_block [of "fs_devs s" d k "b_data ?new"] W assms(4) by auto
  let ?x = "\<lparr>b_data = ?c (d, k), b_dev = d, b_block = k, b_count = 1, b_dirty = False, b_valid = True\<rparr>"
  let ?t = "?s\<lparr>fs_devs := e, fs_bufs := fs_bufs s @ [?x]\<rparr>"
  have "bread d k s = Inr (?n, ?t)"
    using e(1) by (simp add: bread_def bindM_def seqM_def blk buf_at_run upd_buf_run devs_def list_update_append)
  moreover have "cache_bufs served ?c (fs_bufs s @ [?x]) (H(?i := ?n # H ?i)) F"
  proof -
    have new: "(fs_bufs s @ [?x]) ! c = (if c < ?n then fs_bufs s ! c else ?x)" if "c < Suc ?n" for c
      using that by (simp add: nth_append)
    have k: "buf_key (fs_bufs s ! c) \<noteq> buf_key ?x" if "c < ?n" for c
      using n(1) that by (auto simp: cached_def buf_key_def)
    have key: "buf_key ?x = (d, k)" by (simp add: buf_key_def)
    have ch: "chain_of (buf_key ((fs_bufs s @ [?x]) ! b)) = (if b < ?n then chain_of (buf_key (fs_bufs s ! b)) else ?i)"
      if "b < Suc ?n" for b
      unfolding new [OF that] by (simp add: key i(2))
    have "set ((H(?i := ?n # H ?i)) j) = {b. b < Suc ?n \<and> chain_of (buf_key ((fs_bufs s @ [?x]) ! b)) = j}" if "j < 31" for j
    proof (rule set_eqI)
      fix b
      have "b \<in> set ((H(?i := ?n # H ?i)) j) \<longleftrightarrow> (b < ?n \<and> chain_of (buf_key (fs_bufs s ! b)) = j) \<or> (b = ?n \<and> j = ?i)"
        using S [OF that] S [OF i(1)] by (cases "j = ?i") auto
      then show "b \<in> set ((H(?i := ?n # H ?i)) j) \<longleftrightarrow> b \<in> {b. b < Suc ?n \<and> chain_of (buf_key ((fs_bufs s @ [?x]) ! b)) = j}"
        using ch [of b] by (cases b ?n rule: linorder_cases) (simp_all add: eq_commute [of j])
    qed
    moreover have "b = c" if "b < Suc ?n" "c < Suc ?n" "buf_key ((fs_bufs s @ [?x]) ! b) = buf_key ((fs_bufs s @ [?x]) ! c)" for b c
      using that k [of b] k [of c] cache_bufsD(2) [OF B, of b c] unfolding new [OF that(1)] new [OF that(2)]
      by (simp split: if_splits)
    moreover have "set F = {b. b < Suc ?n \<and> b_count ((fs_bufs s @ [?x]) ! b) = 0}"
      unfolding cache_bufsD(3) [OF B] by (auto simp: nth_append less_Suc_eq)
    moreover have "0 \<le> b_count ((fs_bufs s @ [?x]) ! b) \<and> b_valid ((fs_bufs s @ [?x]) ! b)
        \<and> length (b_data ((fs_bufs s @ [?x]) ! b)) = 1024 \<and> served (b_dev ((fs_bufs s @ [?x]) ! b)) (b_block ((fs_bufs s @ [?x]) ! b))
        \<and> (\<not> b_dirty ((fs_bufs s @ [?x]) ! b) \<longrightarrow> b_data ((fs_bufs s @ [?x]) ! b) = ?c (buf_key ((fs_bufs s @ [?x]) ! b)))
        \<and> (b_count ((fs_bufs s @ [?x]) ! b) = 0 \<longrightarrow> \<not> b_dirty ((fs_bufs s @ [?x]) ! b))" if "b < Suc ?n" for b
    proof (cases "b < ?n")
      case True
      then show ?thesis using cache_bufsD(4) [OF B True] unfolding new [OF that] by simp
    next
      case False
      then show ?thesis using assms(4) content_length [of "fs_devs s" d k] W unfolding new [OF that] by (simp add: key)
    qed
    ultimately show ?thesis unfolding cache_bufs_def length_append_singleton by blast
  qed
  moreover have "cache_room ?t" using R n(2) by (simp add: cache_room_def distrib_right)
  ultimately have "cache_wf ok served content ?t (H(?i := ?n # H ?i)) F"
    using W h(3) e(2,3) by (simp add: cache_wf_def)
  with \<open>bread d k s = Inr (?n, ?t)\<close> e(3) show ?thesis by (intro exI [of _ ?t] exI [of _ "H(?i := ?n # H ?i)"]) simp
qed

lemma bread_full:
  assumes w: "cache_wf ok served content s H F" and "\<not> cached (fs_bufs s) (d, k)" "\<not> length (fs_bufs s) < 3855"
  shows "bread d k s = Inl (if F = [] then Would_Sleep else Assert_Failed)"
  by (simp add: bread_def getblk_def bindM_def get_uncached [OF w assms(2)] get_free_full [OF w assms(3)])

text \<open>Writing a buffer back, filling it, and releasing it.\<close>

lemma cache_counts:
  assumes "cache_bufs served D bufs H F" "b < length bufs" "b_count x = b_count (bufs ! b)"
  shows "set F = {c. c < length bufs \<and> b_count (bufs[b := x] ! c) = 0}"
proof -
  have "b_count (bufs[b := x] ! c) = b_count (bufs ! c)" for c using assms(2,3) by (cases "c = b") simp_all
  then show ?thesis using cache_bufsD(3) [OF assms(1)] by simp
qed

lemma bwrite_runs:
  assumes w: "cache_wf ok served content s H F" and b: "b < length (fs_bufs s)"
  defines "x \<equiv> fs_bufs s ! b"
  shows "\<exists>t. bwrite b s = Inr ((), t) \<and> cache_wf ok served content t H F \<and> fs_bufs t = (fs_bufs s)[b := x\<lparr>b_dirty := False\<rparr>]
    \<and> content (fs_devs t) = (content (fs_devs s))(buf_key x := b_data x) \<and> fs_links t = fs_links s"
proof -
  note W = w [unfolded cache_wf_def]
  have B: "cache_bufs served (content (fs_devs s)) (fs_bufs s) H F" using W by simp
  note X = cache_bufsD(4) [OF B b, folded x_def]
  show ?thesis
  proof (cases "b_dirty x")
    case False
    then have "x\<lparr>b_dirty := False\<rparr> = x" by (cases x) simp
    then have "(fs_bufs s)[b := x\<lparr>b_dirty := False\<rparr>] = fs_bufs s" by (simp add: x_def)
    moreover have "bwrite b s = Inr ((), s)" using False b by (simp add: bwrite_def bindM_def buf_at_run x_def)
    moreover have "(content (fs_devs s))(buf_key x := b_data x) = content (fs_devs s)" using X False by (simp add: fun_upd_idem)
    ultimately show ?thesis using w by (intro exI [of _ s]) simp
  next
    case True
    obtain e where e: "device_request (b_dev x) (b_data x) BLOCK_SECS (b_block x * BLOCK_SECS) 0 REQ_WRITE (fs_devs s) = Inr (b_data x, e)"
      "ok e" "content e = (content (fs_devs s))(buf_key x := b_data x)"
      using write_block [of "fs_devs s" "b_dev x" "b_block x" "b_data x"] W X by (auto simp: buf_key_def)
    have x': "x\<lparr>b_dirty := False, b_valid := True\<rparr> = x\<lparr>b_dirty := False\<rparr>" using X by (cases x) simp
    let ?t = "s\<lparr>fs_devs := e, fs_bufs := (fs_bufs s)[b := x\<lparr>b_dirty := False\<rparr>]\<rparr>"
    have run: "bwrite b s = Inr ((), ?t)"
      using b True e(1) x' by (simp add: bwrite_def bindM_def seqM_def buf_at_run devs_def upd_buf_run x_def)
    have "cache_bufs served (content e) ((fs_bufs s)[b := x\<lparr>b_dirty := False\<rparr>]) H F"
    proof (rule cache_bufs_update [OF B b])
      show "content e (buf_key (fs_bufs s ! c)) = content (fs_devs s) (buf_key (fs_bufs s ! c))"
        if "c < length (fs_bufs s)" "c \<noteq> b" for c
        using cache_bufsD(2) [OF B that(1) b] that(2) unfolding e(3) x_def by auto
      show "set F = {c. c < length (fs_bufs s) \<and> b_count ((fs_bufs s)[b := x\<lparr>b_dirty := False\<rparr>] ! c) = 0}"
        by (rule cache_counts [OF B b]) (simp add: x_def)
    qed (use X in \<open>simp_all add: e(3) x_def buf_key_def\<close>)
    then have "cache_wf ok served content ?t H F" using W e(2) by (simp add: cache_wf_def cache_room_def)
    with run e(3) show ?thesis by (intro exI [of _ ?t]) simp
  qed
qed

lemma put_runs:
  assumes w: "cache_wf ok served content s H F" and b: "b < length (fs_bufs s)" "b_count (fs_bufs s ! b) \<noteq> 0" and "length data = 1024"
  defines "x \<equiv> fs_bufs s ! b"
  shows "\<exists>t. seqM (upd_buf b (\<lambda>x. x\<lparr>b_data := data\<rparr>)) (set_dirty b) s = Inr ((), t) \<and> cache_wf ok served content t H F
    \<and> fs_bufs t = (fs_bufs s)[b := x\<lparr>b_data := data, b_dirty := True\<rparr>] \<and> fs_devs t = fs_devs s"
proof -
  note W = w [unfolded cache_wf_def]
  have B: "cache_bufs served (content (fs_devs s)) (fs_bufs s) H F" using W by simp
  note X = cache_bufsD(4) [OF B b(1), folded x_def]
  let ?y = "x\<lparr>b_data := data, b_dirty := True\<rparr>"
  let ?t = "s\<lparr>fs_bufs := (fs_bufs s)[b := ?y]\<rparr>"
  have run: "seqM (upd_buf b (\<lambda>x. x\<lparr>b_data := data\<rparr>)) (set_dirty b) s = Inr ((), ?t)"
    using b(1) by (simp add: seqM_def bindM_def set_dirty_def upd_buf_run x_def)
  have "cache_bufs served (content (fs_devs s)) ((fs_bufs s)[b := ?y]) H F"
  proof (rule cache_bufs_update [OF B b(1)])
    show "set F = {c. c < length (fs_bufs s) \<and> b_count ((fs_bufs s)[b := ?y] ! c) = 0}"
      by (rule cache_counts [OF B b(1)]) (simp add: x_def)
  qed (use X b(2) assms(4) in \<open>simp_all add: x_def buf_key_def\<close>)
  then have "cache_wf ok served content ?t H F" using W by (simp add: cache_wf_def cache_room_def)
  with run show ?thesis by (intro exI [of _ ?t]) simp
qed

lemma brelse_runs:
  assumes w: "cache_wf ok served content s H F" and b: "b < length (fs_bufs s)" "b_count (fs_bufs s ! b) \<noteq> 0"
  defines "x \<equiv> fs_bufs s ! b"
  shows "\<exists>t F'. brelse (Some b) s = Inr ((), t) \<and> cache_wf ok served content t H F'
    \<and> fs_bufs t = (fs_bufs s)[b := x\<lparr>b_dirty := False, b_count := b_count x - 1\<rparr>]
    \<and> content (fs_devs t) = (content (fs_devs s))(buf_key x := b_data x)"
proof -
  from bwrite_runs [OF w b(1), folded x_def] obtain u where
    u: "bwrite b s = Inr ((), u)" "cache_wf ok served content u H F" "fs_bufs u = (fs_bufs s)[b := x\<lparr>b_dirty := False\<rparr>]"
      "content (fs_devs u) = (content (fs_devs s))(buf_key x := b_data x)" by blast
  note U = u(2) [unfolded cache_wf_def]
  have B: "cache_bufs served (content (fs_devs u)) (fs_bufs u) H F" and L: "cache_lists (fs_links u) (length (fs_bufs u)) H F"
    using U by simp_all
  have bu: "b < length (fs_bufs u)" "fs_bufs u ! b = x\<lparr>b_dirty := False\<rparr>" using b(1) u(3) by simp_all
  let ?y = "x\<lparr>b_dirty := False, b_count := b_count x - 1\<rparr>"
  note X = cache_bufsD(4) [OF B bu(1), unfolded bu(2)]
  have c: "1 \<le> b_count x" using X b(2) by (simp add: x_def)
  have c': "0 < b_count x" using c by simp
  have B0: "cache_bufs served (content (fs_devs s)) (fs_bufs s) H F" using w by (simp add: cache_wf_def)
  have Xs: "b_valid x" "length (b_data x) = 1024" using cache_bufsD(4) [OF B0 b(1)] by (simp_all add: x_def)
  have Xd: "b_data x = content (fs_devs u) (b_dev x, b_block x)" using X by (simp add: buf_key_def)
  have F: "set F = {c. c < length (fs_bufs u) \<and> b_count (fs_bufs u ! c) = 0}" by (rule cache_bufsD(3) [OF B])
  have bF: "b \<notin> set F" unfolding F using bu(2) c by simp
  have det: "l_next (fs_links u) (Rnode b) = None" "l_prev (fs_links u) (Rnode b) = None"
    using L bF by (auto simp: cache_lists_def detached_def)
  have bufs: "cache_bufs served (content (fs_devs u)) ((fs_bufs u)[b := ?y]) H F'"
    if "set F' = {c. c < length (fs_bufs u) \<and> b_count ((fs_bufs u)[b := ?y] ! c) = 0}" for F'
    by (rule cache_bufs_update [OF B bu(1) _ _ _ _ _ _ _ that])
      (simp_all add: bu(2) buf_key_def Xs c c' Xd [symmetric])
  have upd: "(fs_bufs u)[b := ?y] = (fs_bufs s)[b := ?y]" by (simp add: u(3))
  show ?thesis
  proof (cases "b_count x = 1")
    case False
    let ?t = "u\<lparr>fs_bufs := (fs_bufs u)[b := ?y]\<rparr>"
    have "brelse (Some b) s = Inr ((), ?t)"
      using bu c False by (simp add: brelse_def seqM_def bindM_def u(1) upd_buf_run buf_at_run)
    moreover have "cache_bufs served (content (fs_devs u)) ((fs_bufs u)[b := ?y]) H F"
      by (rule bufs, unfold F) (use False bu c in \<open>auto simp: nth_list_update\<close>)
    then have "cache_wf ok served content ?t H F" using U by (simp add: cache_wf_def cache_room_def)
    ultimately show ?thesis using u(4) upd by (intro exI [of _ ?t] exI [of _ F]) simp
  next
    case True
    obtain h where h: "list_push (fs_links u) buffer_free_list (Rnode b) = Inr h" "cache_lists h (length (fs_bufs u)) H (b # F)"
      using cache_lists_free [OF L bF] by blast
    let ?t = "u\<lparr>fs_bufs := (fs_bufs u)[b := ?y], fs_links := h\<rparr>"
    have "brelse (Some b) s = Inr ((), ?t)"
      using bu True det h(1) U by (simp add: brelse_def seqM_def bindM_def u(1) upd_buf_run buf_at_run)
    moreover have "cache_bufs served (content (fs_devs u)) ((fs_bufs u)[b := ?y]) H (b # F)"
      by (rule bufs) (use F True bu in \<open>auto simp: nth_list_update\<close>)
    then have "cache_wf ok served content ?t H (b # F)" using U h(2) by (simp add: cache_wf_def cache_room_def)
    ultimately show ?thesis using u(4) upd by (intro exI [of _ ?t] exI [of _ "b # F"]) simp
  qed
qed

end

section \<open>The cache over the RAM disks\<close>

text \<open>
  The clients of the cache: \<open>D\<close> is what the blocks are to hold, \<open>taken\<close> the buffers that were taken
  with \<open>bread\<close> and not given back yet.  A client changes the bytes of a buffer it holds and marks it dirty.
\<close>

inductive cache_run :: "nat \<Rightarrow> ram_t fs_t \<Rightarrow> (u32 \<times> u32 \<Rightarrow> u8 list) \<Rightarrow> nat list \<Rightarrow> bool" for k where
  start: "ram_ok k (fs_devs s) \<Longrightarrow> (\<And>b. detached (fs_links s) (Hnode b) \<and> detached (fs_links s) (Rnode b)) \<Longrightarrow>
    buffer_init s = Inr ((), t) \<Longrightarrow> cache_run k t (ram_content k (fs_devs s)) []"
| read: "cache_run k s D taken \<Longrightarrow> ram_served k d b \<Longrightarrow> bread d b s = Inr (i, t) \<Longrightarrow> cache_run k t D (i # taken)"
| put: "cache_run k s D taken \<Longrightarrow> i \<in> set taken \<Longrightarrow> buf_at i s = Inr (x, s) \<Longrightarrow> length data = 1024 \<Longrightarrow>
    seqM (upd_buf i (\<lambda>x. x\<lparr>b_data := data\<rparr>)) (set_dirty i) s = Inr ((), t) \<Longrightarrow>
    cache_run k t (D(buf_key x := data)) taken"
| release: "cache_run k s D taken \<Longrightarrow> i \<in> set taken \<Longrightarrow> brelse (Some i) s = Inr ((), t) \<Longrightarrow>
    cache_run k t D (remove1 i taken)"

definition cache_inv :: "nat \<Rightarrow> ram_t fs_t \<Rightarrow> (u32 \<times> u32 \<Rightarrow> u8 list) \<Rightarrow> nat list \<Rightarrow> (nat \<Rightarrow> nat list) \<Rightarrow> nat list \<Rightarrow> bool" where
  "cache_inv k s D taken H F \<longleftrightarrow> cache_wf (ram_ok k) (ram_served k) (ram_content k) s H F
     \<and> (\<forall>d b. ram_served k d b \<longrightarrow> block_view (fs_bufs s) (ram_content k (fs_devs s)) (d, b) = D (d, b))
     \<and> (\<forall>i<length (fs_bufs s). b_count (fs_bufs s ! i) = int (count_list taken i))
     \<and> set taken \<subseteq> {..<length (fs_bufs s)}"

definition init_lists :: "fnode links \<Rightarrow> nat \<Rightarrow> fnode links" where
  "init_lists h n = foldl (\<lambda>h i. list_init h (hash_list i)) (list_init h buffer_free_list) [0..<n]"

lemma init_lists_simps: "init_lists h 0 = list_init h buffer_free_list"
  "init_lists h (Suc n) = list_init (init_lists h n) (hash_list n)"
  by (simp_all add: init_lists_def)

lemma init_chains:
  "(\<forall>i<n. dll (init_lists h n) (hash_list i) []) \<and> dll (init_lists h n) buffer_free_list []
    \<and> (\<forall>b. (detached h (Hnode b) \<longrightarrow> detached (init_lists h n) (Hnode b))
         \<and> (detached h (Rnode b) \<longrightarrow> detached (init_lists h n) (Rnode b)))"
proof (induction n)
  case 0
  have "dll (list_init h buffer_free_list) buffer_free_list []" by (rule list_init_dll) simp
  then show ?case by (simp add: init_lists_simps) (simp add: detached_def list_init_def Let_def)
next
  case (Suc n)
  let ?h = "init_lists h n"
  have same: "same_outside {Hash_Head n, Hash_Tail n} ?h (list_init ?h (hash_list n))"
    by (simp add: same_outside_def list_init_def Let_def)
  have "dll (list_init ?h (hash_list n)) (hash_list i) []" if "i < Suc n" for i
  proof (cases "i = n")
    case False
    then have "dll ?h (hash_list i) []" using Suc that by simp
    from dll_same_outside [OF this same] False show ?thesis by (simp add: cells_def)
  qed (simp add: list_init_dll)
  moreover have "dll (list_init ?h (hash_list n)) buffer_free_list []"
    by (rule dll_same_outside [OF _ same]) (use Suc in \<open>simp_all add: cells_def\<close>)
  moreover have "detached (list_init ?h (hash_list n)) (Hnode b) = detached ?h (Hnode b)"
    "detached (list_init ?h (hash_list n)) (Rnode b) = detached ?h (Rnode b)" for b
    by (simp_all add: detached_def list_init_def Let_def)
  ultimately show ?case using Suc by (simp add: init_lists_simps)
qed

lemma buffer_init_inv:
  assumes "ram_ok k (fs_devs s)" "\<And>b. detached (fs_links s) (Hnode b) \<and> detached (fs_links s) (Rnode b)"
    and "buffer_init s = Inr ((), t)"
  shows "cache_inv k t (ram_content k (fs_devs s)) [] (\<lambda>_. []) []"
proof -
  from assms(3) have t: "t = s\<lparr>fs_links := init_lists (fs_links s) 31,
      fs_waiters := [], fs_bufs := [], fs_buf_ptr := KERNEL_BUFFER_MEM, fs_buf_data := KERNEL_BUFFER_MEM + KERNEL_BUFFER_SIZE - BLOCK_SIZE\<rparr>"
    by (simp add: buffer_init_def init_lists_def)
  have "cache_lists (fs_links t) 0 (\<lambda>_. []) []"
    using init_chains [of 31 "fs_links s"] assms(2) by (simp add: cache_lists_def t)
  then show ?thesis
    using assms(1) by (simp add: cache_inv_def cache_wf_def cache_bufs_def cache_room_def t)
qed

lemma cache_invD:
  assumes "cache_inv k s D taken H F"
  shows "cache_wf (ram_ok k) (ram_served k) (ram_content k) s H F"
    and "ram_served k d b \<Longrightarrow> block_view (fs_bufs s) (ram_content k (fs_devs s)) (d, b) = D (d, b)"
    and "i < length (fs_bufs s) \<Longrightarrow> b_count (fs_bufs s ! i) = int (count_list taken i)"
    and "set taken \<subseteq> {..<length (fs_bufs s)}"
    and "cache_bufs (ram_served k) (ram_content k (fs_devs s)) (fs_bufs s) H F"
  using assms by (simp_all add: cache_inv_def cache_wf_def)

lemma held_buffer:
  assumes "cache_inv k s D taken H F" "i \<in> set taken"
  shows "i < length (fs_bufs s)" "b_count (fs_bufs s ! i) \<noteq> 0"
    "ram_served k (b_dev (fs_bufs s ! i)) (b_block (fs_bufs s ! i))"
    "b_data (fs_bufs s ! i) = D (buf_key (fs_bufs s ! i))"
proof -
  show i: "i < length (fs_bufs s)" using cache_invD(4) [OF assms(1)] assms(2) by blast
  show "b_count (fs_bufs s ! i) \<noteq> 0" using cache_invD(3) [OF assms(1) i] assms(2) by (simp add: count_list_0_iff)
  note B = cache_invD(5) [OF assms(1)]
  show s: "ram_served k (b_dev (fs_bufs s ! i)) (b_block (fs_bufs s ! i))" using cache_bufsD(4) [OF B i] by simp
  show "b_data (fs_bufs s ! i) = D (buf_key (fs_bufs s ! i))"
    using cached_buffer_view [OF B i, of "ram_content k (fs_devs s)"] cache_invD(2) [OF assms(1) s] by (simp add: buf_key_def)
qed

text \<open>Changing one buffer and the count of its holders.\<close>

lemma cache_inv_update:
  assumes I: "cache_inv k s D taken H F" and i: "i < length (fs_bufs s)" and w: "cache_wf (ram_ok k) (ram_served k) (ram_content k) t H' F'"
    and t: "fs_bufs t = (fs_bufs s)[i := y]" "buf_key y = buf_key (fs_bufs s ! i)"
    and c: "ram_content k (fs_devs t) = (ram_content k (fs_devs s))(buf_key y := z)"
    and D: "D' = D(buf_key y := b_data y)"
    and h: "b_count y = int (count_list taken' i)" "\<And>j. j \<noteq> i \<Longrightarrow> count_list taken' j = count_list taken j"
      "set taken' \<subseteq> insert i (set taken)"
  shows "cache_inv k t D' taken' H' F'"
proof -
  note B = cache_invD(5) [OF I]
  have ci: "cached (fs_bufs s) (buf_key (fs_bufs s ! i))" using i by (auto simp: cached_def)
  have "block_view (fs_bufs t) (ram_content k (fs_devs t)) (d, b) = D' (d, b)" if "ram_served k d b" for d b
  proof (cases "(d, b) = buf_key y")
    case True
    then show ?thesis using block_view_update [OF i t(2) distinct_keys [OF B]] by (simp add: t(1) D)
  next
    case False
    have "block_view (fs_bufs s) (ram_content k (fs_devs t)) (d, b) = block_view (fs_bufs s) (ram_content k (fs_devs s)) (d, b)"
    proof (cases "cached (fs_bufs s) (d, b)")
      case True
      then show ?thesis by (rule block_view_device)
    qed (simp add: block_view_none c False)
    then show ?thesis
      using block_view_update [OF i t(2) distinct_keys [OF B]] False cache_invD(2) [OF I that] by (simp add: t(1) D)
  qed
  moreover have "b_count (fs_bufs t ! j) = int (count_list taken' j)" if "j < length (fs_bufs t)" for j
    using that i h(1,2) cache_invD(3) [OF I, of j] by (cases "j = i") (simp_all add: t(1))
  moreover have "set taken' \<subseteq> {..<length (fs_bufs t)}" using h(3) cache_invD(4) [OF I] i by (auto simp: t(1))
  ultimately show ?thesis using w by (simp add: cache_inv_def)
qed

text \<open>Buffers are added, and keep their block.\<close>

definition same_keys :: "'w fs_t \<Rightarrow> 'w fs_t \<Rightarrow> bool" where
  "same_keys s t \<longleftrightarrow> length (fs_bufs s) \<le> length (fs_bufs t)
     \<and> (\<forall>j<length (fs_bufs s). buf_key (fs_bufs t ! j) = buf_key (fs_bufs s ! j))"

lemma same_keys_trans: "same_keys s t \<Longrightarrow> same_keys t u \<Longrightarrow> same_keys s u"
  by (auto simp: same_keys_def)

lemma same_keys_update: "fs_bufs t = (fs_bufs s)[i := y] \<Longrightarrow> buf_key y = buf_key (fs_bufs s ! i) \<Longrightarrow> same_keys s t"
  by (cases "i < length (fs_bufs s)") (auto simp: same_keys_def nth_list_update)

lemma read_step:
  assumes I: "cache_inv k s D taken H F" and "ram_served k d b"
  shows "(\<exists>i t x H' F'. bread d b s = Inr (i, t) \<and> buf_at i t = Inr (x, t) \<and> buf_key x = (d, b) \<and> b_data x = D (d, b)
      \<and> cache_inv k t D (i # taken) H' F' \<and> same_keys s t \<and> length (fs_bufs t) \<le> Suc (length (fs_bufs s)))
    \<or> (\<not> cached (fs_bufs s) (d, b) \<and> length (fs_bufs s) = 3855
      \<and> bread d b s = Inl (if set taken = {..<3855} then Would_Sleep else Assert_Failed))"
proof -
  note w = cache_invD(1) [OF I] and B = cache_invD(5) [OF I] and v = cache_invD(2) [OF I assms(2)]
  consider i where "i < length (fs_bufs s)" "buf_key (fs_bufs s ! i) = (d, b)"
    | "\<not> cached (fs_bufs s) (d, b)" "length (fs_bufs s) < 3855" | "\<not> cached (fs_bufs s) (d, b)" "\<not> length (fs_bufs s) < 3855"
    unfolding cached_def by blast
  then show ?thesis
  proof cases
    case 1
    let ?y = "(fs_bufs s ! i)\<lparr>b_count := b_count (fs_bufs s ! i) + 1\<rparr>"
    obtain t where t: "bread d b s = Inr (i, t)" "cache_wf (ram_ok k) (ram_served k) (ram_content k) t H (remove1 i F)"
      "fs_bufs t = (fs_bufs s)[i := ?y]" "fs_devs t = fs_devs s"
      using ram.bread_cached [OF w 1] by blast
    have data: "b_data (fs_bufs s ! i) = D (d, b)" using cached_buffer_view [OF B 1(1)] 1(2) v by metis
    have "cache_inv k t D (i # taken) H (remove1 i F)"
      by (rule cache_inv_update [OF I 1(1) t(2,3), where z = "ram_content k (fs_devs s) (d, b)"])
        (use 1 data cache_invD(3) [OF I 1(1)] in \<open>simp_all add: buf_key_def t(4) fun_upd_idem\<close>)
    moreover have "same_keys s t" by (rule same_keys_update [OF t(3)]) (simp add: buf_key_def)
    ultimately show ?thesis using t 1 data by (intro disjI1) (auto simp: buf_at_run buf_key_def)
  next
    case 2
    let ?x = "\<lparr>b_data = ram_content k (fs_devs s) (d, b), b_dev = d, b_block = b, b_count = 1, b_dirty = False, b_valid = True\<rparr>"
    have key: "buf_key ?x = (d, b)" by (simp add: buf_key_def)
    obtain t H' where t: "bread d b s = Inr (length (fs_bufs s), t)" "cache_wf (ram_ok k) (ram_served k) (ram_content k) t H' F"
      "fs_bufs t = fs_bufs s @ [?x]" "ram_content k (fs_devs t) = ram_content k (fs_devs s)"
      using ram.bread_new [OF w 2 assms(2)] by blast
    have data: "ram_content k (fs_devs s) (d, b) = D (d, b)" using block_view_none [OF 2(1)] v by simp
    have "block_view (fs_bufs t) (ram_content k (fs_devs t)) (d', b') = D (d', b')" if "ram_served k d' b'" for d' b'
    proof -
      have "\<not> cached (fs_bufs s) (buf_key ?x)" using 2(1) unfolding key .
      from block_view_append [OF this, of "ram_content k (fs_devs s)" "(d', b')"] show ?thesis
        unfolding t(3,4) key using cache_invD(2) [OF I that] data by (simp split: if_splits)
    qed
    moreover have "count_list taken (length (fs_bufs s)) = 0" using cache_invD(4) [OF I] by (auto simp: count_list_0_iff)
    ultimately have "cache_inv k t D (length (fs_bufs s) # taken) H' F"
      using t(2) cache_invD(3,4) [OF I] by (auto simp: cache_inv_def t(3) nth_append less_Suc_eq)
    with t data show ?thesis by (intro disjI1) (auto simp: buf_at_run buf_key_def same_keys_def nth_append)
  next
    case 3
    have n: "length (fs_bufs s) = 3855" using w 3(2) by (simp add: cache_wf_def cache_room_def)
    have "set F = {c. c < 3855 \<and> c \<notin> set taken}"
      using cache_bufsD(3) [OF B] cache_invD(3) [OF I] by (auto simp: n count_list_0_iff)
    then have "F = [] \<longleftrightarrow> set taken = {..<3855}" using cache_invD(4) [OF I] unfolding n set_empty [symmetric] by auto
    with ram.bread_full [OF w 3] 3(1) n show ?thesis by simp
  qed
qed

lemma put_step:
  assumes I: "cache_inv k s D taken H F" and "i \<in> set taken" "length data = 1024"
  shows "\<exists>t. seqM (upd_buf i (\<lambda>x. x\<lparr>b_data := data\<rparr>)) (set_dirty i) s = Inr ((), t)
    \<and> cache_inv k t (D(buf_key (fs_bufs s ! i) := data)) taken H F"
proof -
  note i = held_buffer [OF I assms(2)] and w = cache_invD(1) [OF I]
  let ?y = "(fs_bufs s ! i)\<lparr>b_data := data, b_dirty := True\<rparr>"
  obtain t where t: "seqM (upd_buf i (\<lambda>x. x\<lparr>b_data := data\<rparr>)) (set_dirty i) s = Inr ((), t)"
    "cache_wf (ram_ok k) (ram_served k) (ram_content k) t H F" "fs_bufs t = (fs_bufs s)[i := ?y]" "fs_devs t = fs_devs s"
    using ram.put_runs [OF w i(1,2) assms(3)] by blast
  have "cache_inv k t (D(buf_key (fs_bufs s ! i) := data)) taken H F"
    by (rule cache_inv_update [OF I i(1) t(2,3), where z = "ram_content k (fs_devs s) (buf_key (fs_bufs s ! i))"])
      (use cache_invD(3) [OF I i(1)] in \<open>auto simp: buf_key_def t(4)\<close>)
  with t(1) show ?thesis by blast
qed

lemma release_step:
  assumes I: "cache_inv k s D taken H F" and "i \<in> set taken"
  shows "\<exists>t F'. brelse (Some i) s = Inr ((), t) \<and> cache_inv k t D (remove1 i taken) H F' \<and> same_keys s t
    \<and> length (fs_bufs t) = length (fs_bufs s) \<and> ram_content k (fs_devs t) (buf_key (fs_bufs s ! i)) = D (buf_key (fs_bufs s ! i))"
proof -
  note i = held_buffer [OF I assms(2)] and w = cache_invD(1) [OF I]
  let ?x = "fs_bufs s ! i" let ?y = "?x\<lparr>b_dirty := False, b_count := b_count ?x - 1\<rparr>"
  obtain t F' where t: "brelse (Some i) s = Inr ((), t)" "cache_wf (ram_ok k) (ram_served k) (ram_content k) t H F'"
    "fs_bufs t = (fs_bufs s)[i := ?y]" "ram_content k (fs_devs t) = (ram_content k (fs_devs s))(buf_key ?x := b_data ?x)"
    using ram.brelse_runs [OF w i(1,2)] by blast
  have c: "count_list (remove1 i taken) j = (if j = i then count_list taken j - 1 else count_list taken j)" for j
    by (induction taken) auto
  have "0 < count_list taken i" using assms(2) by (simp add: count_list_0_iff zero_less_iff_neq_zero)
  then have "cache_inv k t D (remove1 i taken) H F'"
    by (intro cache_inv_update [OF I i(1) t(2,3), where z = "b_data ?x"])
      (use cache_invD(3) [OF I i(1)] i(4) set_remove1_subset [of i taken] in \<open>auto simp: c t(4) buf_key_def fun_upd_idem of_nat_diff\<close>)
  moreover have "same_keys s t" by (rule same_keys_update [OF t(3)]) (simp add: buf_key_def)
  ultimately show ?thesis using t(1,3,4) i(4) by auto
qed

lemma cache_run_inv: "cache_run k s D taken \<Longrightarrow> \<exists>H F. cache_inv k s D taken H F"
proof (induction rule: cache_run.induct)
  case (start s t)
  show ?case using buffer_init_inv [OF start(1) start(2) start(3)] by blast
next
  case (read s D taken d b i t)
  then obtain H F where I: "cache_inv k s D taken H F" by blast
  from read_step [OF I read.hyps(2)] read.hyps(3) show ?case by auto
next
  case (put s D taken i x data t)
  then obtain H F where I: "cache_inv k s D taken H F" by blast
  have "x = fs_bufs s ! i" using put.hyps(3) held_buffer(1) [OF I put.hyps(2)] by (simp add: buf_at_run)
  moreover from put_step [OF I put.hyps(2,4)] put.hyps(5)
  have "cache_inv k t (D(buf_key (fs_bufs s ! i) := data)) taken H F" by (elim exE conjE) simp
  ultimately show ?case by blast
next
  case (release s D taken i t)
  then obtain H F where I: "cache_inv k s D taken H F" by blast
  from release_step [OF I release.hyps(2)] release.hyps(3) show ?case by auto
qed

text \<open>A machine with its RAM disks set up and an empty cache.\<close>

definition demo_fs :: "ram_t devs_t \<Rightarrow> ram_t fs_t" where
  "demo_fs d = \<lparr>fs_bufs = [], fs_buf_ptr = 0, fs_buf_data = 0, fs_waiters = [],
     fs_links = \<lparr>l_next = (\<lambda>_. None), l_prev = (\<lambda>_. None)\<rparr>, fs_inodes = [], fs_supers = [], fs_root = None, fs_files = [],
     fs_task = zero_task, fs_now = 0, fs_heap = demo_heap, fs_devs = d\<rparr>"

lemma demo_cache: "\<exists>s D. cache_run 1 s D [] \<and> fs_bufs s = [] \<and> D (1, 5) = replicate 1024 0"
proof -
  obtain d where d: "device_init demo_devices = Inr ((), d)" "free_from 1 d" "ds_world d = ds_world demo_devices"
    using device_init_free [of demo_devices] by (auto simp: demo_devices_def detached_def)
  obtain e where e: "ram_ok 1 e" "\<forall>d b. ram_served 1 d b \<longrightarrow> ram_content 1 e (d, b) = replicate 1024 0"
    using ramdisk_init_runs [OF d(2)] d(3) by (auto simp: demo_devices_def RAMDISK_NR_def DEVICE_NR_def)
  obtain t where t: "buffer_init (demo_fs e) = Inr ((), t)" "fs_bufs t = []" by (simp add: buffer_init_def)
  have "cache_run 1 t (ram_content 1 (fs_devs (demo_fs e))) []"
    by (rule cache_run.start [OF _ _ t(1)]) (use e(1) in \<open>simp_all add: demo_fs_def detached_def\<close>)
  moreover have "ram_content 1 e (1, 5) = replicate 1024 0" using e(2) by (simp add: ram_served_def RAMDISK_NR_def)
  ultimately show ?thesis using t(2) by (intro exI [of _ t] exI [of _ "ram_content 1 e"]) (simp add: demo_fs_def)
qed

text \<open>
  C36. The cache is transparent.  Whatever its clients have read, changed, marked dirty and released
  before, \<open>bread\<close> of a block of a RAM disk returns a buffer with the bytes last given to that block;
  it fails only when the block is not in the cache and all 3855 buffers exist, and then always: it sleeps
  when all of them are taken, and otherwise an assertion stops the kernel, since \<open>hash_remove\<close> asserts that
  the buffer to be used again is not on its hash chain.
\<close>
theorem cache_reads:
  assumes "cache_run k s D taken" "ram_served k d b"
  shows "(\<exists>i t x. bread d b s = Inr (i, t) \<and> buf_at i t = Inr (x, t) \<and> buf_key x = (d, b) \<and> b_data x = D (d, b))
    \<or> (\<not> cached (fs_bufs s) (d, b) \<and> length (fs_bufs s) = 3855
      \<and> bread d b s = Inl (if set taken = {..<3855} then Would_Sleep else Assert_Failed))"
  using cache_run_inv [OF assms(1)] read_step [OF _ assms(2)] by blast

lemma cache_reads_witness:
  "\<exists>s D i t x. cache_run 1 s D [] \<and> bread 1 5 s = Inr (i, t) \<and> buf_at i t = Inr (x, t) \<and> b_data x = replicate 1024 0"
proof -
  obtain s D where s: "cache_run 1 s D []" "fs_bufs s = []" "D (1, 5) = replicate 1024 0" using demo_cache by blast
  have "ram_served 1 1 5" by (simp add: ram_served_def RAMDISK_NR_def)
  from cache_reads [OF s(1) this] s show ?thesis by auto
qed

text \<open>
  C37. The cache writes through.  A client can always give back a buffer it holds, and then the
  block is on the disk; so at any time every block whose buffer nobody holds is on the disk with the bytes
  last given to it.
\<close>
theorem cache_writes_back:
  assumes "cache_run k s D taken"
  shows "(\<forall>i\<in>set taken. \<exists>x t. buf_at i s = Inr (x, s) \<and> brelse (Some i) s = Inr ((), t)
      \<and> ram_content k (fs_devs t) (buf_key x) = D (buf_key x))
    \<and> (\<forall>d b. ram_served k d b \<and> (\<forall>i\<in>set taken. buf_key (fs_bufs s ! i) \<noteq> (d, b)) \<longrightarrow> ram_content k (fs_devs s) (d, b) = D (d, b))"
proof -
  obtain H F where I: "cache_inv k s D taken H F" using cache_run_inv [OF assms] by blast
  note B = cache_invD(5) [OF I]
  have "\<exists>x t. buf_at i s = Inr (x, s) \<and> brelse (Some i) s = Inr ((), t) \<and> ram_content k (fs_devs t) (buf_key x) = D (buf_key x)"
    if "i \<in> set taken" for i
    using release_step [OF I that] held_buffer(1) [OF I that] by (auto simp: buf_at_run)
  moreover have "ram_content k (fs_devs s) (d, b) = D (d, b)"
    if s: "ram_served k d b" and h: "\<forall>i\<in>set taken. buf_key (fs_bufs s ! i) \<noteq> (d, b)" for d b
  proof (cases "cached (fs_bufs s) (d, b)")
    case True
    then obtain i where i: "i < length (fs_bufs s)" "buf_key (fs_bufs s ! i) = (d, b)" by (auto simp: cached_def)
    then have "i \<notin> set taken" using h by blast
    then have "b_count (fs_bufs s ! i) = 0" using cache_invD(3) [OF I i(1)] by (simp add: count_list_0_iff)
    then have "b_data (fs_bufs s ! i) = ram_content k (fs_devs s) (d, b)" using cache_bufsD(4) [OF B i(1)] i(2) by simp
    then show ?thesis using cached_buffer_view [OF B i(1), of "ram_content k (fs_devs s)"] i(2) cache_invD(2) [OF I s] by simp
  next
    case False
    then show ?thesis using cache_invD(2) [OF I s] by (simp add: block_view_none)
  qed
  ultimately show ?thesis by blast
qed

lemma cache_writes_back_witness:
  "\<exists>s D i t. cache_run 1 s D [i] \<and> brelse (Some i) s = Inr ((), t) \<and> ram_content 1 (fs_devs t) (1, 5) = replicate 1024 7"
proof -
  obtain s D where s: "cache_run 1 s D []" "fs_bufs s = []" using demo_cache by blast
  have srv: "ram_served 1 1 5" by (simp add: ram_served_def RAMDISK_NR_def)
  obtain H F where "cache_inv 1 s D [] H F" using cache_run_inv [OF s(1)] by blast
  from read_step [OF this srv] s(2) obtain i t x H' F' where
    t: "bread 1 5 s = Inr (i, t)" "buf_at i t = Inr (x, t)" "buf_key x = (1, 5)" "cache_inv 1 t D [i] H' F'" by auto
  have r: "cache_run 1 t D [i]" by (rule cache_run.read [OF s(1) srv t(1)])
  have l: "length (replicate 1024 (7 :: u8)) = 1024" "i \<in> set [i]" by simp_all
  obtain u where u: "seqM (upd_buf i (\<lambda>x. x\<lparr>b_data := replicate 1024 7\<rparr>)) (set_dirty i) t = Inr ((), u)"
    "cache_inv 1 u (D(buf_key (fs_bufs t ! i) := replicate 1024 7)) [i] H' F'" using put_step [OF t(4) l(2,1)] by blast
  have r2: "cache_run 1 u (D(buf_key x := replicate 1024 7)) [i]" by (rule cache_run.put [OF r l(2) t(2) l(1) u(1)])
  from cache_writes_back [OF r2] obtain y v where v: "buf_at i u = Inr (y, u)" "brelse (Some i) u = Inr ((), v)"
    "ram_content 1 (fs_devs v) (buf_key y) = (D(buf_key x := replicate 1024 7)) (buf_key y)" by auto
  have "i < length (fs_bufs t)" using held_buffer(1) [OF t(4) l(2)] .
  then have "buf_key y = (1, 5)" using u(1) v(1) t(2,3) by (auto simp: seqM_def bindM_def set_dirty_def upd_buf_run buf_at_run buf_key_def)
  with v r2 t(3) show ?thesis by auto
qed

end
