(* ===== verification/Ylos_Filedata.thy ===== *)
theory Ylos_Filedata
  imports Ylos_Inode Ylos_Cache
begin

text \<open>
  The bytes of a file: the layout of a MINIX file system of version 1, which \<open>bmap\<close> of fs/bmap.c and \<open>inode_read\<close>
  of fs/inode.c are proved to follow over the cache and the RAM disks.
\<close>

section \<open>The layout\<close>

text \<open>The entries of a block of numbers, and the block numbers that lead to block \<open>n\<close> of a file whose nine
  zone numbers start at \<open>zones\<close>: seven direct ones, one block of 512 numbers, one block of 512 such blocks.  The
  last one is the block itself; 0 is a hole.\<close>

definition entry :: "u8 list \<Rightarrow> nat \<Rightarrow> nat \<Rightarrow> u32" where
  "entry bytes base n = ucast (word16 bytes (base + 2 * n))"

definition zone_path :: "(u32 \<times> u32 \<Rightarrow> u8 list) \<Rightarrow> u32 \<Rightarrow> u8 list \<Rightarrow> nat \<Rightarrow> nat \<Rightarrow> u32 list" where
  "zone_path D dev bytes zones n =
     (if n < 7 then [entry bytes zones n]
      else if n < 7 + 512 then
        (let i = entry bytes zones 7 in if i = 0 then [0] else [i, entry (D (dev, i)) 0 (n - 7)])
      else
        (let i = entry bytes zones 8; m = n - (7 + 512) in
         if i = 0 then [0]
         else let j = entry (D (dev, i)) 0 (m div 512) in
              if j = 0 then [i, 0] else [i, j, entry (D (dev, j)) 0 (m mod 512)]))"

definition file_zone :: "(u32 \<times> u32 \<Rightarrow> u8 list) \<Rightarrow> u32 \<Rightarrow> u8 list \<Rightarrow> nat \<Rightarrow> nat \<Rightarrow> u32" where
  "file_zone D dev bytes zones n = last (zone_path D dev bytes zones n)"

definition file_byte :: "(u32 \<times> u32 \<Rightarrow> u8 list) \<Rightarrow> u32 \<Rightarrow> u8 list \<Rightarrow> nat \<Rightarrow> nat \<Rightarrow> u8" where
  "file_byte D dev bytes zones off = D (dev, file_zone D dev bytes zones (off div 1024)) ! (off mod 1024)"

section \<open>What the cache leaves alone\<close>

definition rest :: "'w fs_t \<Rightarrow> inode_t list \<times> super_block_t list \<times> nat option \<times> file_t list \<times> task_t \<times> u32 \<times> heap_t" where
  "rest s = (fs_inodes s, fs_supers s, fs_root s, fs_files s, fs_task s, fs_now s, fs_heap s)"

definition keeps_rest :: "('w fs_t, 'a) op \<Rightarrow> bool" where
  "keeps_rest m \<longleftrightarrow> (\<forall>r. keeps (\<lambda>s. rest s = r) m (\<lambda>_ s. rest s = r))"

lemma keeps_restD: "keeps_rest m \<Longrightarrow> m s = Inr (x, t) \<Longrightarrow> rest t = rest s"
  unfolding keeps_rest_def keeps_def by blast

lemma keeps_restI: "(\<And>s x t. m s = Inr (x, t) \<Longrightarrow> rest t = rest s) \<Longrightarrow> keeps_rest m"
  unfolding keeps_rest_def keeps_def by blast

named_theorems rest_intros "operations that change only the cache and the devices"

lemma rest_ret [rest_intros]: "keeps_rest (ret x)" by (rule keeps_restI) simp
lemma rest_failM [rest_intros]: "keeps_rest (failM e)" by (rule keeps_restI) simp
lemma rest_getM [rest_intros]: "keeps_rest (getM f)" by (rule keeps_restI) simp
lemma rest_assertM [rest_intros]: "keeps_rest (assertM b)" by (cases b) (rule keeps_restI, simp)+
lemma rest_liftM [rest_intros]: "keeps_rest (liftM r)" by (cases r) (rule keeps_restI, simp)+

lemma rest_bindM [rest_intros]: "keeps_rest m \<Longrightarrow> (\<And>x. keeps_rest (f x)) \<Longrightarrow> keeps_rest (bindM m f)"
  unfolding keeps_rest_def by (blast intro: keeps_bindM)

lemma rest_seqM [rest_intros]: "keeps_rest m \<Longrightarrow> keeps_rest k \<Longrightarrow> keeps_rest (seqM m k)"
  unfolding keeps_rest_def by (blast intro: keeps_seqM)

lemma rest_if [rest_intros]: "keeps_rest m \<Longrightarrow> keeps_rest k \<Longrightarrow> keeps_rest (if b then m else k)"
  by simp

lemma rest_option [rest_intros]: "keeps_rest m \<Longrightarrow> (\<And>x. keeps_rest (f x)) \<Longrightarrow> keeps_rest (case z of None \<Rightarrow> m | Some x \<Rightarrow> f x)"
  by (cases z) simp_all

lemma rest_prod [rest_intros]: "(\<And>x y. keeps_rest (f x y)) \<Longrightarrow> keeps_rest (case z of (x, y) \<Rightarrow> f x y)"
  by (cases z) simp

lemma rest_modM [rest_intros]: "(\<And>s. rest (g s) = rest s) \<Longrightarrow> keeps_rest (modM g)"
  by (simp add: keeps_rest_def keeps_def)

lemma rest_devs [rest_intros]: "keeps_rest (devs m)"
  by (auto simp: keeps_rest_def keeps_def devs_def bindr_Inr_iff rest_def)

lemma rest_buf_at [rest_intros]: "keeps_rest (buf_at b)"
  unfolding buf_at_def by (intro rest_intros)

lemma rest_upd_buf [rest_intros]: "keeps_rest (upd_buf b f)"
  unfolding upd_buf_def by (intro rest_intros) (simp add: rest_def)

lemma rest_bwrite [rest_intros]: "keeps_rest (bwrite b)"
  unfolding bwrite_def by (intro rest_intros)

lemma rest_brelse [rest_intros]: "keeps_rest (brelse b)"
  unfolding brelse_def by (intro rest_intros) (simp add: rest_def)

lemma rest_hash [rest_intros]: "keeps_rest (get_from_hash_table d b)" "keeps_rest (hash_locate i)" "keeps_rest (hash_remove i)"
  unfolding get_from_hash_table_def hash_locate_def hash_remove_def Let_def
  by (intro rest_intros; simp add: rest_def)+

lemma rest_fnode [rest_intros]: "(\<And>b. keeps_rest (f b)) \<Longrightarrow> keeps_rest (case n of Rnode b \<Rightarrow> f b | _ \<Rightarrow> failM e)"
  by (cases n) (simp_all add: rest_failM)

lemma rest_free [rest_intros]: "keeps_rest get_new_buffer" "keeps_rest get_free_buffer"
  unfolding get_free_buffer_def get_new_buffer_def Let_def by (intro rest_intros; simp add: rest_def)+

lemma rest_bread [rest_intros]: "keeps_rest (bread d b)"
  unfolding bread_def getblk_def by (intro rest_intros)

section \<open>Buffers that are held\<close>

lemma cached_bytes:
  assumes "cache_inv k s D taken H F" "b < length (fs_bufs s)"
  shows "b_data (fs_bufs s ! b) = D (buf_key (fs_bufs s ! b))" "length (D (buf_key (fs_bufs s ! b))) = 1024"
proof -
  note B = cache_invD(5) [OF assms(1)]
  have "ram_served k (b_dev (fs_bufs s ! b)) (b_block (fs_bufs s ! b))" "length (b_data (fs_bufs s ! b)) = 1024"
    using cache_bufsD(4) [OF B assms(2)] by simp_all
  moreover have "block_view (fs_bufs s) (ram_content k (fs_devs s)) (buf_key (fs_bufs s ! b)) = b_data (fs_bufs s ! b)"
    by (rule cached_buffer_view [OF B assms(2)])
  ultimately show "b_data (fs_bufs s ! b) = D (buf_key (fs_bufs s ! b))" "length (D (buf_key (fs_bufs s ! b))) = 1024"
    using cache_invD(2) [OF assms(1)] by (simp_all add: buf_key_def)
qed

lemma load16_cached:
  assumes "cache_inv k s D taken H F" "b < length (fs_bufs s)" "off + 1 < 1024"
  shows "load16 b off s = Inr (word16 (D (buf_key (fs_bufs s ! b))) off, s)"
  using cached_bytes [OF assms(1,2)] assms(2,3) by (simp add: load16_def load8_def bindM_def buf_at_run word16_def)

text \<open>Reading a block when there is room, and giving one back.\<close>

lemma bread_room:
  assumes "cache_inv k s D taken H F" "ram_served k d b" "length (fs_bufs s) < 3855"
  shows "\<exists>i t H' F'. bread d b s = Inr (i, t) \<and> cache_inv k t D (i # taken) H' F' \<and> buf_key (fs_bufs t ! i) = (d, b)
    \<and> same_keys s t \<and> length (fs_bufs t) \<le> Suc (length (fs_bufs s)) \<and> rest t = rest s"
proof -
  obtain i t x H' F' where t: "bread d b s = Inr (i, t)" "buf_at i t = Inr (x, t)" "buf_key x = (d, b)"
    "cache_inv k t D (i # taken) H' F'" "same_keys s t" "length (fs_bufs t) \<le> Suc (length (fs_bufs s))"
    using read_step [OF assms(1,2)] assms(3) by auto
  have "i < length (fs_bufs t)" using held_buffer(1) [OF t(4)] by simp
  then have "fs_bufs t ! i = x" using t(2) by (simp add: buf_at_run)
  with t keeps_restD [OF rest_bread t(1)] show ?thesis by blast
qed

lemma brelse_held:
  assumes "cache_inv k s D taken H F" "b \<in> set taken"
  shows "\<exists>t F'. brelse (Some b) s = Inr ((), t) \<and> cache_inv k t D (remove1 b taken) H F' \<and> same_keys s t
    \<and> length (fs_bufs t) = length (fs_bufs s) \<and> rest t = rest s"
  using release_step [OF assms] keeps_restD [OF rest_brelse] by blast

section \<open>The walk of bmap\<close>

text \<open>The numbers \<open>bmap_walk\<close> meets.\<close>

fun walk_zones :: "(u32 \<times> u32 \<Rightarrow> u8 list) \<Rightarrow> u32 \<Rightarrow> nat \<Rightarrow> u8 list \<Rightarrow> nat \<Rightarrow> u32 \<Rightarrow> u32 \<Rightarrow> u32 \<Rightarrow> u32 list" where
  "walk_zones D dev 0 bytes base index block divider = [entry bytes base (unat index)]"
| "walk_zones D dev (Suc l) bytes base index block divider =
     (let v = entry bytes base (unat index)
      in if v = 0 then [0]
         else v # walk_zones D dev l (D (dev, v)) 0 (block div divider) (block mod divider) (divider div BLOCK_INDEXES))"

text \<open>The rest of the block number fits the levels that are left.\<close>

definition walk_fits :: "nat \<Rightarrow> u32 \<Rightarrow> u32 \<Rightarrow> bool" where
  "walk_fits l block divider \<longleftrightarrow> l = 0 \<or> (l = 1 \<and> block < 512 \<and> divider = 1) \<or> (l = 2 \<and> block < 262144 \<and> divider = 512)"

lemma walk_fits_next:
  assumes "walk_fits (Suc l) block divider"
  shows "unat (block div divider) < 512" "walk_fits l (block mod divider) (divider div BLOCK_INDEXES)"
proof -
  consider "l = 0" "block < 512" "divider = 1" | "l = 1" "block < 262144" "divider = 512"
    using assms by (auto simp: walk_fits_def)
  then show "unat (block div divider) < 512" "walk_fits l (block mod divider) (divider div BLOCK_INDEXES)"
    by (cases; simp add: walk_fits_def word_less_nat_alt unat_div unat_mod BLOCK_INDEXES_def)+
qed

lemma ucast_zero16: "ucast v = (0 :: u32) \<longleftrightarrow> v = 0" for v :: u16
proof
  assume "ucast v = (0 :: u32)"
  then have "unat (ucast v :: u32) = 0" by simp
  then have "unat v = 0" by (simp add: unsigned_ucast_eq take_bit_nat_eq_self unsigned_less [THEN less_trans])
  then show "v = 0" by (simp add: word_unat_eq_iff)
qed simp

declare bmap_walk.simps [simp del]

text \<open>One level: the entry is read, the buffer given back, and the entry read again from the cache.\<close>

lemma walk_entry:
  assumes I: "cache_inv k s D T H F" and b: "buf \<in> set T" "base + 2 * unat index + 1 < 1024"
  obtains t F' where "cache_inv k t D (remove1 buf T) H F'" "same_keys s t" "length (fs_bufs t) = length (fs_bufs s)" "rest t = rest s"
    "bmap_walk dev False l buf base index block divider s =
      (case l of
         0 \<Rightarrow> Inr (entry (D (buf_key (fs_bufs s ! buf))) base (unat index), t)
       | Suc l \<Rightarrow>
           if entry (D (buf_key (fs_bufs s ! buf))) base (unat index) = 0 then Inr (0, t)
           else bindM (bread dev (entry (D (buf_key (fs_bufs s ! buf))) base (unat index)))
             (\<lambda>buf. bmap_walk dev False l buf 0 (block div divider) (block mod divider) (divider div BLOCK_INDEXES)) t)"
proof -
  obtain t F' where t: "brelse (Some buf) s = Inr ((), t)" "cache_inv k t D (remove1 buf T) H F'" "same_keys s t"
    "length (fs_bufs t) = length (fs_bufs s)" "rest t = rest s" using brelse_held [OF I b(1)] by blast
  have l: "buf < length (fs_bufs s)" by (rule held_buffer(1) [OF I b(1)])
  then have key: "buf_key (fs_bufs t ! buf) = buf_key (fs_bufs s ! buf)" using t(3) by (simp add: same_keys_def)
  have "load16 buf (base + 2 * unat index) s = Inr (word16 (D (buf_key (fs_bufs s ! buf))) (base + 2 * unat index), s)"
    "load16 buf (base + 2 * unat index) t = Inr (word16 (D (buf_key (fs_bufs s ! buf))) (base + 2 * unat index), t)"
    using load16_cached [OF I l b(2)] load16_cached [OF t(2) _ b(2)] l by (simp_all add: t(4) key)
  then show ?thesis
    by (intro that [OF t(2-5)], subst bmap_walk.simps)
      (simp add: bindM_run seqM_run t(1) entry_def ucast_zero16 Let_def split: nat.splits)
qed

lemma bmap_walk_runs:
  "cache_inv k s D T H F \<Longrightarrow> buf \<in> set T \<Longrightarrow> buf_key (fs_bufs s ! buf) = key \<Longrightarrow> base + 2 * unat index + 1 < 1024 \<Longrightarrow>
   walk_fits l block divider \<Longrightarrow>
   \<forall>z\<in>set (walk_zones D dev l (D key) base index block divider). z = 0 \<or> ram_served k dev z \<Longrightarrow>
   length (fs_bufs s) + l \<le> 3855 \<Longrightarrow>
   \<exists>t H' F'. bmap_walk dev False l buf base index block divider s = Inr (last (walk_zones D dev l (D key) base index block divider), t)
     \<and> cache_inv k t D (remove1 buf T) H' F' \<and> same_keys s t \<and> length (fs_bufs t) \<le> length (fs_bufs s) + l \<and> rest t = rest s"
proof (induction l arbitrary: s T H F buf key base index block divider)
  case 0
  obtain t F' where t: "cache_inv k t D (remove1 buf T) H F'" "same_keys s t" "length (fs_bufs t) = length (fs_bufs s)" "rest t = rest s"
    "bmap_walk dev False 0 buf base index block divider s = Inr (entry (D key) base (unat index), t)"
    using walk_entry [where dev = dev and l = 0 and block = block and divider = divider, OF "0.prems"(1,2,4)] "0.prems"(3) by auto
  then show ?case by auto
next
  case (Suc l)
  let ?v = "entry (D key) base (unat index)"
  obtain t F' where t: "cache_inv k t D (remove1 buf T) H F'" "same_keys s t" "length (fs_bufs t) = length (fs_bufs s)" "rest t = rest s"
    "bmap_walk dev False (Suc l) buf base index block divider s = (if ?v = 0 then Inr (0, t)
      else bindM (bread dev ?v) (\<lambda>buf. bmap_walk dev False l buf 0 (block div divider) (block mod divider) (divider div BLOCK_INDEXES)) t)"
    using walk_entry [where dev = dev and l = "Suc l" and block = block and divider = divider, OF Suc.prems(1,2,4)] Suc.prems(3) by auto
  show ?case
  proof (cases "?v = 0")
    case True
    then show ?thesis using t by (auto simp: Let_def)
  next
    case False
    let ?zs = "walk_zones D dev l (D (dev, ?v)) 0 (block div divider) (block mod divider) (divider div BLOCK_INDEXES)"
    have zs: "walk_zones D dev (Suc l) (D key) base index block divider = ?v # ?zs" using False by (simp add: Let_def)
    have ne: "?zs \<noteq> []" by (cases l) (simp_all add: Let_def)
    have "ram_served k dev ?v" using Suc.prems(6) False unfolding zs by simp
    moreover have "length (fs_bufs t) < 3855" using Suc.prems(7) t(3) by simp
    ultimately obtain i u H2 F2 where u: "bread dev ?v t = Inr (i, u)" "cache_inv k u D (i # remove1 buf T) H2 F2"
      "buf_key (fs_bufs u ! i) = (dev, ?v)" "same_keys t u" "length (fs_bufs u) \<le> Suc (length (fs_bufs t))" "rest u = rest t"
      using bread_room [OF t(1)] by blast
    have fits: "0 + 2 * unat (block div divider) + 1 < 1024" "walk_fits l (block mod divider) (divider div BLOCK_INDEXES)"
      using walk_fits_next [OF Suc.prems(5)] by simp_all
    have zs': "\<forall>z\<in>set ?zs. z = 0 \<or> ram_served k dev z" using Suc.prems(6) unfolding zs by simp
    have n: "length (fs_bufs u) + l \<le> 3855" using u(5) t(3) Suc.prems(7) by simp
    have i: "i \<in> set (i # remove1 buf T)" by simp
    obtain v H3 F3 where v: "bmap_walk dev False l i 0 (block div divider) (block mod divider) (divider div BLOCK_INDEXES) u = Inr (last ?zs, v)"
      "cache_inv k v D (remove1 i (i # remove1 buf T)) H3 F3" "same_keys u v" "length (fs_bufs v) \<le> length (fs_bufs u) + l" "rest v = rest u"
      using Suc.IH [OF u(2) i u(3) fits zs' n] by blast
    have "bmap_walk dev False (Suc l) buf base index block divider s = Inr (last ?zs, v)"
      unfolding t(5) using False u(1) v(1) by (simp add: bindM_def)
    moreover have "last (?v # ?zs) = last ?zs" using ne by simp
    moreover have "same_keys s v" using same_keys_trans t(2) u(4) v(3) by blast
    ultimately show ?thesis unfolding zs using v(2,4,5) u(5,6) t(3,4) by (intro exI [of _ v] exI [of _ H3] exI [of _ F3]) simp
  qed
qed

text \<open>Where the walk starts leads to the block the layout says.\<close>

lemma bmap_start_path:
  assumes "unat block < 262663" "bmap_start block = (l, index, b, divider)"
  shows "walk_zones D dev l bytes zones index b divider = zone_path D dev bytes zones (unat block)"
    "walk_fits l b divider" "unat index \<le> 8" "l \<le> 2"
proof -
  have lt: "block < DIRECT_BLOCK \<longleftrightarrow> unat block < 7" by (simp add: DIRECT_BLOCK_def word_less_nat_alt)
  have sub: "unat (block - 7) = unat block - 7" if "\<not> unat block < 7"
    using that by (simp add: unat_diff_small)
  have sub2: "unat (block - 519) = unat block - 519" if "\<not> unat block < 519"
    using that by (simp add: unat_diff_small)
  have d: "block - DIRECT_BLOCK = block - 7" "block - DIRECT_BLOCK - INDIRECT1_BLOCK = block - 519"
    by (simp_all add: DIRECT_BLOCK_def INDIRECT1_BLOCK_def)
  consider "unat block < 7" "(l, index, b, divider) = (0, block, block, 1)"
    | "\<not> unat block < 7" "unat block < 519" "(l, index, b, divider) = (1, 7, block - 7, 1)"
    | "\<not> unat block < 519" "(l, index, b, divider) = (2, 8, block - 519, 512)"
    using assms(2) sub unfolding bmap_start_def lt d
    by (auto simp: INDIRECT1_BLOCK_def DIRECT_BLOCK_def BLOCK_INDEXES_def word_less_nat_alt split: if_splits)
  then have "walk_zones D dev l bytes zones index b divider = zone_path D dev bytes zones (unat block)
      \<and> walk_fits l b divider \<and> unat index \<le> 8 \<and> l \<le> 2"
  proof cases
    case 1
    then show "walk_zones D dev l bytes zones index b divider = zone_path D dev bytes zones (unat block) \<and>
      walk_fits l b divider \<and> unat index \<le> 8 \<and> l \<le> 2" by (simp add: zone_path_def walk_fits_def)
  next
    case 2
    then show "walk_zones D dev l bytes zones index b divider = zone_path D dev bytes zones (unat block) \<and>
      walk_fits l b divider \<and> unat index \<le> 8 \<and> l \<le> 2"
      using sub by (simp add: zone_path_def walk_fits_def word_less_nat_alt Let_def)
  next
    case 3
    have "unat ((block - 519) div 512) = (unat block - 519) div 512" "unat ((block - 519) mod 512) = (unat block - 519) mod 512"
      using sub2 3(1) by (simp_all add: unat_div unat_mod)
    moreover have eqs: "l = Suc (Suc 0)" "index = 8" "b = block - 519" "divider = 512" using 3(2) by simp_all
    ultimately show "walk_zones D dev l bytes zones index b divider = zone_path D dev bytes zones (unat block) \<and>
      walk_fits l b divider \<and> unat index \<le> 8 \<and> l \<le> 2"
      using 3(1) sub2 assms(1) unfolding eqs by (simp add: zone_path_def walk_fits_def word_less_nat_alt Let_def BLOCK_INDEXES_def)
  qed
  then show "walk_zones D dev l bytes zones index b divider = zone_path D dev bytes zones (unat block)"
    "walk_fits l b divider" "unat index \<le> 8" "l \<le> 2" by simp_all
qed

section \<open>An inode in memory\<close>

text \<open>Inode \<open>i\<close> is loaded: its descriptor lies at \<open>i_desc\<close> of a buffer that is held.\<close>

definition inode_loaded :: "'w fs_t \<Rightarrow> nat list \<Rightarrow> nat \<Rightarrow> bool" where
  "inode_loaded s T i \<longleftrightarrow> i < length (fs_inodes s) \<and> i_buf (fs_inodes s ! i) \<in> set T
     \<and> b_dev (fs_bufs s ! i_buf (fs_inodes s ! i)) = i_dev (fs_inodes s ! i) \<and> i_desc (fs_inodes s ! i) + 32 \<le> 1024"

definition desc_bytes :: "'w fs_t \<Rightarrow> (u32 \<times> u32 \<Rightarrow> u8 list) \<Rightarrow> nat \<Rightarrow> u8 list" where
  "desc_bytes s D i = D (buf_key (fs_bufs s ! i_buf (fs_inodes s ! i)))"

definition zones_at :: "'w fs_t \<Rightarrow> nat \<Rightarrow> nat" where
  "zones_at s i = i_desc (fs_inodes s ! i) + 14"

lemma hold_step:
  assumes I: "cache_inv k s D T H F" and b: "b \<in> set T"
  shows "\<exists>t. upd_buf b (\<lambda>x. x\<lparr>b_count := b_count x + 1\<rparr>) s = Inr ((), t) \<and> cache_inv k t D (b # T) H F \<and> same_keys s t
    \<and> length (fs_bufs t) = length (fs_bufs s) \<and> rest t = rest s"
proof -
  note h = held_buffer [OF I b] and w = cache_invD(1) [OF I] and B = cache_invD(5) [OF I]
  let ?x = "fs_bufs s ! b" let ?y = "?x\<lparr>b_count := b_count ?x + 1\<rparr>"
  let ?t = "s\<lparr>fs_bufs := (fs_bufs s)[b := ?y]\<rparr>"
  note X = cache_bufsD(4) [OF B h(1)]
  have run: "upd_buf b (\<lambda>x. x\<lparr>b_count := b_count x + 1\<rparr>) s = Inr ((), ?t)" by (rule upd_buf_run [OF h(1)])
  have nz: "b_count ?x + 1 \<noteq> 0" using X by simp
  have F: "set F = {c. c < length (fs_bufs s) \<and> b_count ((fs_bufs s)[b := ?y] ! c) = 0}"
    unfolding cache_bufsD(3) [OF B] using h(1,2) nz by (auto simp: nth_list_update)
  have "cache_bufs (ram_served k) (ram_content k (fs_devs s)) ((fs_bufs s)[b := ?y]) H F"
    by (rule cache_bufs_update [OF B h(1) _ _ _ _ _ _ _ F]) (use X nz in \<open>simp_all add: buf_key_def\<close>)
  then have wt: "cache_wf (ram_ok k) (ram_served k) (ram_content k) ?t H F" using w by (simp add: cache_wf_def cache_room_def)
  have "cache_inv k ?t D (b # T) H F"
    by (rule cache_inv_update [OF I h(1) wt, where y = ?y and z = "ram_content k (fs_devs s) (buf_key ?x)"])
      (use cache_invD(3) [OF I h(1)] h(4) b in \<open>auto simp: buf_key_def fun_upd_idem\<close>)
  moreover have "same_keys s ?t" by (rule same_keys_update [of ?t s b ?y]) (simp_all add: buf_key_def)
  moreover have "rest ?t = rest s" by (simp add: rest_def)
  ultimately show ?thesis using run by (intro exI [of _ ?t]) simp
qed

lemma inode_loaded_same:
  assumes "inode_loaded s T i" "same_keys s t" "rest t = rest s" "set T \<subseteq> {..<length (fs_bufs s)}"
  shows "inode_loaded t T i" "desc_bytes t D i = desc_bytes s D i" "zones_at t i = zones_at s i" "fs_inodes t = fs_inodes s"
proof -
  show eq: "fs_inodes t = fs_inodes s" using assms(3) by (simp add: rest_def)
  have "i_buf (fs_inodes s ! i) < length (fs_bufs s)" using assms(1,4) by (auto simp: inode_loaded_def)
  then have "buf_key (fs_bufs t ! i_buf (fs_inodes s ! i)) = buf_key (fs_bufs s ! i_buf (fs_inodes s ! i))"
    using assms(2) by (simp add: same_keys_def)
  then show "inode_loaded t T i" "desc_bytes t D i = desc_bytes s D i" "zones_at t i = zones_at s i"
    using assms(1) by (simp_all add: inode_loaded_def desc_bytes_def zones_at_def eq buf_key_def)
qed

lemma bmap_runs:
  assumes I: "cache_inv k s D T H F" and i: "inode_loaded s T i" and n: "unat block < 262663"
    and z: "\<forall>z\<in>set (zone_path D (i_dev (fs_inodes s ! i)) (desc_bytes s D i) (zones_at s i) (unat block)).
      z = 0 \<or> ram_served k (i_dev (fs_inodes s ! i)) z"
    and room: "length (fs_bufs s) + 2 \<le> 3855"
  shows "\<exists>t H' F'. bmap i block False s
      = Inr (file_zone D (i_dev (fs_inodes s ! i)) (desc_bytes s D i) (zones_at s i) (unat block), t)
    \<and> cache_inv k t D T H' F' \<and> same_keys s t \<and> length (fs_bufs t) \<le> length (fs_bufs s) + 2 \<and> rest t = rest s"
proof -
  let ?x = "fs_inodes s ! i"
  have b: "i_buf ?x \<in> set T" "i < length (fs_inodes s)" "i_desc ?x + 32 \<le> 1024" using i by (simp_all add: inode_loaded_def)
  obtain s1 where s1: "upd_buf (i_buf ?x) (\<lambda>x. x\<lparr>b_count := b_count x + 1\<rparr>) s = Inr ((), s1)"
    "cache_inv k s1 D (i_buf ?x # T) H F" "same_keys s s1" "length (fs_bufs s1) = length (fs_bufs s)" "rest s1 = rest s"
    using hold_step [OF I b(1)] by blast
  obtain l index bl divider where st: "bmap_start block = (l, index, bl, divider)" by (cases "bmap_start block")
  note P = bmap_start_path(1) [OF n st, of D "i_dev ?x" "desc_bytes s D i" "zones_at s i"] bmap_start_path(2-4) [OF n st]
  have key: "buf_key (fs_bufs s1 ! i_buf ?x) = buf_key (fs_bufs s ! i_buf ?x)"
    using s1(3) held_buffer(1) [OF I b(1)] by (simp add: same_keys_def)
  have "zones_at s i + 2 * unat index + 1 < 1024" using P(3) b(3) by (simp add: zones_at_def)
  moreover have "\<forall>z\<in>set (walk_zones D (i_dev ?x) l (D (buf_key (fs_bufs s ! i_buf ?x))) (zones_at s i) index bl divider).
      z = 0 \<or> ram_served k (i_dev ?x) z" using z P(1) by (simp add: desc_bytes_def)
  moreover have "length (fs_bufs s1) + l \<le> 3855" using P(4) room s1(4) by simp
  ultimately obtain t H' F' where t: "bmap_walk (i_dev ?x) False l (i_buf ?x) (zones_at s i) index bl divider s1
      = Inr (last (walk_zones D (i_dev ?x) l (D (buf_key (fs_bufs s ! i_buf ?x))) (zones_at s i) index bl divider), t)"
    "cache_inv k t D T H' F'" "same_keys s1 t" "length (fs_bufs t) \<le> length (fs_bufs s1) + l" "rest t = rest s1"
    using bmap_walk_runs [OF s1(2) _ key, of "zones_at s i" index l bl divider "i_dev ?x"] P(2) by auto
  have "bmap i block False s = Inr (file_zone D (i_dev ?x) (desc_bytes s D i) (zones_at s i) (unat block), t)"
    using n b(2) s1(1) t(1) P(1)
    by (simp add: bmap_def bindM_def seqM_def inode_at_def TOTAL_BLOCK_def word_less_nat_alt st file_zone_def desc_bytes_def zones_at_def)
  moreover have "same_keys s t" using same_keys_trans s1(3) t(3) by blast
  ultimately show ?thesis using t(2,4,5) s1(4,5) P(4) by (intro exI [of _ t] exI [of _ H'] exI [of _ F']) simp
qed

section \<open>Reading a file\<close>

lemma unat_off:
  assumes "unat off < 2 ^ 31"
  shows "unat (off_div off) = unat off div 1024" "unat (off_mod off) = unat off mod 1024"
proof -
  have "\<not> sint off < 0" using sint_small [OF assms] by simp
  then show d: "unat (off_div off) = unat off div 1024" by (simp add: off_div_def unat_div)
  have "unat (off_div off * 1024) = unat off div 1024 * 1024"
    using u32_less_2p32 [of off] by (subst unat_mult_small) (simp_all add: d del: u32_less_2p32)
  then show "unat (off_mod off) = unat off mod 1024"
    unfolding off_mod_def by (subst unat_diff_small) (simp_all add: minus_div_mult_eq_mod)
qed

text \<open>A block of the file that is not a hole, and how many blocks a range touches.\<close>

definition block_mapped :: "nat \<Rightarrow> (u32 \<times> u32 \<Rightarrow> u8 list) \<Rightarrow> u32 \<Rightarrow> u8 list \<Rightarrow> nat \<Rightarrow> nat \<Rightarrow> bool" where
  "block_mapped k D dev bytes zones n \<longleftrightarrow> file_zone D dev bytes zones n \<noteq> 0
     \<and> (\<forall>z\<in>set (zone_path D dev bytes zones n). z = 0 \<or> ram_served k dev z)"

definition blocks_of :: "nat \<Rightarrow> nat \<Rightarrow> nat" where
  "blocks_of off n = (if n = 0 then 0 else (off + n - 1) div 1024 - off div 1024 + 1)"

lemma zone_path_nonempty: "zone_path D dev bytes zones n \<noteq> []"
  by (simp add: zone_path_def Let_def)

lemma file_bytes_in_block:
  assumes "off mod 1024 + n \<le> 1024" "length (D (dev, file_zone D dev bytes zones (off div 1024))) = 1024"
  shows "take n (drop (off mod 1024) (D (dev, file_zone D dev bytes zones (off div 1024))))
    = map (file_byte D dev bytes zones) [off..<off + n]"
proof (rule nth_equalityI)
  fix j assume "j < length (take n (drop (off mod 1024) (D (dev, file_zone D dev bytes zones (off div 1024)))))"
  then have j: "j < n" by simp
  have m: "off mod 1024 + j < 1024" using j assms(1) by linarith
  have "off + j = off mod 1024 + j + off div 1024 * 1024" by simp
  then have "(off + j) div 1024 = (off mod 1024 + j + off div 1024 * 1024) div 1024"
    "(off + j) mod 1024 = (off mod 1024 + j + off div 1024 * 1024) mod 1024" by (simp_all only:)
  then have "(off + j) div 1024 = off div 1024" "(off + j) mod 1024 = off mod 1024 + j"
    using m by (simp_all only: div_mult_self1 mod_mult_self1 div_less mod_less)
  then show "take n (drop (off mod 1024) (D (dev, file_zone D dev bytes zones (off div 1024)))) ! j
      = map (file_byte D dev bytes zones) [off..<off + n] ! j"
    using j assms by (simp add: file_byte_def)
qed (use assms in simp)

lemma blocks_of_next:
  assumes "0 < n" "m = min (1024 - off mod 1024) n"
  shows "blocks_of off n = Suc (blocks_of (off + m) (n - m))"
proof -
  define q where "q = off div 1024"
  define r where "r = off mod 1024"
  have off: "off = r + q * 1024" and r: "r < 1024" by (simp_all add: q_def r_def)
  show ?thesis
  proof (cases "n \<le> 1024 - r")
    case True
    have "r + q * 1024 + n - 1 = (r + n - 1) + q * 1024" using assms(1) by simp
    then have "(off + n - 1) div 1024 = ((r + n - 1) + q * 1024) div 1024" unfolding off by (simp only:)
    also have "\<dots> = q" using True assms(1) by simp
    finally show ?thesis using True assms by (simp add: blocks_of_def r_def q_def)
  next
    case False
    then have m: "m = 1024 - r" using assms(2) by (simp add: r_def)
    then have o': "off + m = (q + 1) * 1024" using off r by simp
    have "(q + 1) * 1024 \<le> off + n - 1" using False off r by simp
    then have "q + 1 \<le> (off + n - 1) div 1024" by (simp add: less_eq_div_iff_mult_less_eq)
    moreover have "off + m + (n - m) - 1 = off + n - 1" using m False by simp
    moreover have "off + 1024 - r = (q + 1) * 1024" using off r by simp
    then have "(off + 1024 - r) div 1024 = q + 1" by simp
    moreover have "(off + m) div 1024 = q + 1" unfolding o' by simp
    ultimately show ?thesis using m False assms(1) by (simp add: blocks_of_def q_def Suc_diff_Suc Suc_le_eq)
  qed
qed

text \<open>The loop of \<open>inode_read\<close>.\<close>

lemma read_loop_runs:
  "unat left \<le> fuel \<Longrightarrow> cache_inv k s D T H F \<Longrightarrow> inode_loaded s T i \<Longrightarrow>
   dev = i_dev (fs_inodes s ! i) \<Longrightarrow> bytes = desc_bytes s D i \<Longrightarrow> zones = zones_at s i \<Longrightarrow>
   unat off + unat left \<le> 262663 * 1024 \<Longrightarrow>
   \<forall>n. unat off div 1024 \<le> n \<and> n * 1024 < unat off + unat left \<longrightarrow> block_mapped k D dev bytes zones n \<Longrightarrow>
   length (fs_bufs s) + 3 * blocks_of (unat off) (unat left) \<le> 3855 \<Longrightarrow>
   \<exists>t H' F'. read_loop fuel i left off out s
       = Inr ((out @ map (file_byte D dev bytes zones) [unat off..<unat off + unat left], off + left), t)
     \<and> cache_inv k t D T H' F' \<and> same_keys s t \<and> rest t = rest s"
proof (induction fuel arbitrary: left off out s H F)
  case 0
  then have "left = 0" by (simp add: word_unat_eq_iff)
  with "0.prems"(2) show ?case by (auto simp: same_keys_def)
next
  case (Suc fuel)
  note I = Suc.prems(2) and i = Suc.prems(3)
  show ?case
  proof (cases "left = 0")
    case True
    with Suc.prems(2) show ?thesis by (auto simp: same_keys_def)
  next
    case False
    then have l0: "0 < unat left" by (simp add: word_unat_eq_iff)
    let ?o = "unat off" let ?q = "?o div 1024" and ?r = "?o mod 1024"
    let ?nr = "file_zone D dev bytes zones ?q"
    let ?chars = "min (BLOCK_SIZE - off_mod off) left"
    have small: "?o < 2 ^ 31" using Suc.prems(7) by simp
    note od = unat_off [OF small]
    have chars: "unat ?chars = min (1024 - ?r) (unat left)"
    proof -
      have "unat (BLOCK_SIZE - off_mod off) = 1024 - ?r"
        unfolding BLOCK_SIZE_def by (subst unat_diff_small) (simp_all add: od)
      then show ?thesis by (simp add: min_def word_le_nat_alt)
    qed
    have q: "?q * 1024 < ?o + unat left" using l0 by (meson add_strict_increasing2 div_times_less_eq_dividend le_less_trans less_add_same_cancel1)
    then have mapped: "block_mapped k D dev bytes zones ?q" using Suc.prems(8) by blast
    have q2: "unat (off_div off) < 262663" using q Suc.prems(7) unfolding od by linarith
    have b1: "blocks_of ?o (unat left) = Suc (blocks_of (?o + unat ?chars) (unat left - unat ?chars))"
      by (rule blocks_of_next [OF l0 chars])
    have z: "\<forall>z\<in>set (zone_path D (i_dev (fs_inodes s ! i)) (desc_bytes s D i) (zones_at s i) (unat (off_div off))).
        z = 0 \<or> ram_served k (i_dev (fs_inodes s ! i)) z"
      using mapped Suc.prems(4-6) od by (simp add: block_mapped_def)
    obtain s1 H1 F1 where s1: "bmap i (off_div off) False s = Inr (?nr, s1)" "cache_inv k s1 D T H1 F1" "same_keys s s1"
      "length (fs_bufs s1) \<le> length (fs_bufs s) + 2" "rest s1 = rest s"
      using bmap_runs [OF I i q2 z] Suc.prems(4-6,9) b1 od by auto
    have nr: "?nr \<noteq> 0" "ram_served k dev ?nr"
      using mapped last_in_set [OF zone_path_nonempty, of D dev bytes zones ?q] by (auto simp: block_mapped_def file_zone_def)
    have "length (fs_bufs s1) < 3855" using s1(4) Suc.prems(9) b1 by simp
    then obtain b s2 H2 F2 where s2: "bread dev ?nr s1 = Inr (b, s2)" "cache_inv k s2 D (b # T) H2 F2" "buf_key (fs_bufs s2 ! b) = (dev, ?nr)"
      "same_keys s1 s2" "length (fs_bufs s2) \<le> Suc (length (fs_bufs s1))" "rest s2 = rest s1"
      using bread_room [OF s1(2) nr(2)] by blast
    have bin: "b \<in> set (b # T)" by simp
    note bl = held_buffer(1) [OF s2(2) bin]
    note data = cached_bytes [OF s2(2) bl, unfolded s2(3)]
    obtain s3 F3 where s3: "brelse (Some b) s2 = Inr ((), s3)" "cache_inv k s3 D T H2 F3" "same_keys s2 s3"
      "length (fs_bufs s3) = length (fs_bufs s2)" "rest s3 = rest s2"
      using brelse_held [OF s2(2) bin] by auto
    have keys: "same_keys s s3" "rest s3 = rest s"
      using same_keys_trans [OF same_keys_trans [OF s1(3) s2(4)] s3(3)] s1(5) s2(6) s3(5) by simp_all
    have T: "set T \<subseteq> {..<length (fs_bufs s)}" by (rule cache_invD(4) [OF I])
    note L = inode_loaded_same [OF i keys T]
    have len: "?r + unat ?chars \<le> 1024" "unat ?chars \<le> unat left" "0 < unat ?chars"
      using chars l0 mod_less_divisor [of 1024 ?o] by auto
    have cp: "memcpy (replicate (unat ?chars) 0) (drop (unat (off_mod off)) (b_data (fs_bufs s2 ! b))) (unat ?chars)
        = Inr (map (file_byte D dev bytes zones) [?o..<?o + unat ?chars])"
    proof -
      have "memcpy (replicate (unat ?chars) 0) (drop ?r (b_data (fs_bufs s2 ! b))) (unat ?chars)
          = Inr (take (unat ?chars) (drop ?r (D (dev, ?nr))))"
        using memcpy_buf [of "unat ?chars" "replicate (unat ?chars) 0" "drop ?r (D (dev, ?nr))"] len(1) data by simp
      moreover have "take (unat ?chars) (drop ?r (D (dev, ?nr))) = map (file_byte D dev bytes zones) [?o..<?o + unat ?chars]"
        by (rule file_bytes_in_block) (use len(1) data(2) in simp_all)
      ultimately show ?thesis unfolding od by simp
    qed
    let ?out = "out @ map (file_byte D dev bytes zones) [?o..<?o + unat ?chars]"
    have off': "unat (off + ?chars) = ?o + unat ?chars" by (rule unat_add_small) (use Suc.prems(7) len(2) in simp)
    have left': "unat (left - ?chars) = unat left - unat ?chars" by (rule unat_diff_small [OF len(2)])
    obtain t H' F' where t: "read_loop fuel i (left - ?chars) (off + ?chars) ?out s3
        = Inr ((?out @ map (file_byte D dev bytes zones) [?o + unat ?chars..<?o + unat ?chars + (unat left - unat ?chars)],
            off + ?chars + (left - ?chars)), t)"
      "cache_inv k t D T H' F'" "same_keys s3 t" "rest t = rest s3"
    proof -
      have p1: "unat (left - ?chars) \<le> fuel" using Suc.prems(1) len left' by simp
      have p2: "\<forall>n. unat (off + ?chars) div 1024 \<le> n \<and> n * 1024 < unat (off + ?chars) + unat (left - ?chars) \<longrightarrow> block_mapped k D dev bytes zones n"
        using Suc.prems(8) len div_le_mono [of ?o "?o + unat ?chars" 1024] unfolding off' left' by (auto intro: order_trans)
      have p3: "length (fs_bufs s3) + 3 * blocks_of (unat (off + ?chars)) (unat (left - ?chars)) \<le> 3855"
        using Suc.prems(9) s1(4) s2(5) s3(4) unfolding off' left' b1 by simp
      have p4: "unat (off + ?chars) + unat (left - ?chars) \<le> 262663 * 1024" using Suc.prems(7) len off' left' by simp
      from Suc.IH [OF p1 s3(2) L(1) _ _ _ p4 p2 p3, of ?out] that show thesis
        using Suc.prems(4-6) L(2-4) unfolding off' left' by auto
    qed
    have il: "i < length (fs_inodes s1)" "fs_inodes s1 ! i = fs_inodes s ! i"
      using i s1(5) by (auto simp: inode_loaded_def rest_def)
    have "read_loop (Suc fuel) i left off out s = read_loop fuel i (left - ?chars) (off + ?chars) ?out s3"
      using False nr(1) s1(1) s2(1) s3(1) bl cp Suc.prems(4) il
      by (simp add: bindM_def seqM_def inode_at_def buf_at_run Let_def)
    moreover have "map (file_byte D dev bytes zones) [?o..<?o + unat ?chars]
        @ map (file_byte D dev bytes zones) [?o + unat ?chars..<?o + unat ?chars + (unat left - unat ?chars)]
      = map (file_byte D dev bytes zones) [?o..<?o + unat left]"
      using len(2) upt_add_eq_append [of ?o "?o + unat ?chars" "unat left - unat ?chars"] by (simp add: map_append [symmetric] del: map_append)
    moreover have "off + ?chars + (left - ?chars) = off + left" by simp
    ultimately have "read_loop (Suc fuel) i left off out s
        = Inr ((out @ map (file_byte D dev bytes zones) [?o..<?o + unat left], off + left), t)"
      using t(1) by (simp only: append_assoc)
    moreover have "same_keys s t" "rest t = rest s" using same_keys_trans [OF keys(1) t(3)] keys(2) t(4) by simp_all
    ultimately show ?thesis using t(2) by blast
  qed
qed

declare read_loop.simps [simp del]

lemma load32_cached:
  assumes "cache_inv k s D T H F" "b < length (fs_bufs s)" "off + 3 < 1024"
  shows "load32 b off s = Inr (word32 (D (buf_key (fs_bufs s ! b))) off, s)"
  using load16_cached [OF assms(1,2), of off] load16_cached [OF assms(1,2), of "off + 2"] assms(3)
  by (simp add: load32_def bindM_def word32_def)

definition file_mode :: "'w fs_t \<Rightarrow> (u32 \<times> u32 \<Rightarrow> u8 list) \<Rightarrow> nat \<Rightarrow> u16" where
  "file_mode s D i = word16 (desc_bytes s D i) (i_desc (fs_inodes s ! i))"

definition file_size :: "'w fs_t \<Rightarrow> (u32 \<times> u32 \<Rightarrow> u8 list) \<Rightarrow> nat \<Rightarrow> u32" where
  "file_size s D i = word32 (desc_bytes s D i) (i_desc (fs_inodes s ! i) + 4)"

definition byte_of_file :: "'w fs_t \<Rightarrow> (u32 \<times> u32 \<Rightarrow> u8 list) \<Rightarrow> nat \<Rightarrow> nat \<Rightarrow> u8" where
  "byte_of_file s D i = file_byte D (i_dev (fs_inodes s ! i)) (desc_bytes s D i) (zones_at s i)"

lemma mode_size_loaded:
  assumes "cache_inv k s D T H F" "inode_loaded s T i"
  shows "imode i s = Inr (file_mode s D i, s)" "isize i s = Inr (file_size s D i, s)"
proof -
  let ?x = "fs_inodes s ! i"
  have i: "i < length (fs_inodes s)" "i_buf ?x \<in> set T" "i_desc ?x + 32 \<le> 1024" using assms(2) by (simp_all add: inode_loaded_def)
  note b = held_buffer(1) [OF assms(1) i(2)]
  show "imode i s = Inr (file_mode s D i, s)"
    using i load16_cached [OF assms(1) b, of "i_desc ?x"]
    by (simp add: imode_def desc16_def inode_at_def bindM_def file_mode_def desc_bytes_def)
  show "isize i s = Inr (file_size s D i, s)"
    using i load32_cached [OF assms(1) b, of "i_desc ?x + 4"]
    by (simp add: isize_def desc32_def inode_at_def bindM_def file_size_def desc_bytes_def)
qed

text \<open>
  C38. Reading a file returns its bytes.  With an inode in memory, at any point of a run of the cache's
  clients, \<open>inode_read\<close> of a file or directory on a RAM disk returns exactly the bytes that the layout of
  the MINIX file system gives to the positions from \<open>offset\<close> on, up to \<open>len\<close> of them and not past the
  size, with their number; and \<open>EOF\<close> from the end of the file on.  No byte of the range may be in a hole, and
  the cache needs room for the blocks that are touched.
\<close>
theorem inode_read_file:
  assumes "cache_run k s D T" "inode_loaded s T i"
    and "ISFILE (file_mode s D i) \<or> ISDIR (file_mode s D i)" "unat (file_size s D i) \<le> 262663 * 1024"
    and "n = min (unat len) (unat (file_size s D i) - unat offset)"
    and "\<forall>b. unat offset div 1024 \<le> b \<and> b * 1024 < unat offset + n \<longrightarrow>
      block_mapped k D (i_dev (fs_inodes s ! i)) (desc_bytes s D i) (zones_at s i) b"
    and "length (fs_bufs s) + 3 * blocks_of (unat offset) n \<le> 3855"
  shows "\<exists>t. inode_read i len offset s =
    Inr (if file_size s D i \<le> offset then ([], EOF)
         else (map (byte_of_file s D i) [unat offset..<unat offset + n], of_nat n), t)"
proof -
  obtain H F where I: "cache_inv k s D T H F" using cache_run_inv [OF assms(1)] by blast
  note ms = mode_size_loaded [OF I assms(2)]
  show ?thesis
  proof (cases "file_size s D i \<le> offset")
    case True
    then show ?thesis using assms(3) by (auto simp: inode_read_def bindM_def seqM_def ms)
  next
    case False
    let ?left = "min len (file_size s D i - offset)"
    have lt: "unat offset < unat (file_size s D i)" using False by (simp add: word_le_nat_alt)
    then have "unat (file_size s D i - offset) = unat (file_size s D i) - unat offset" by (intro unat_diff_small) simp
    then have left: "unat ?left = n" using assms(5) by (simp add: min_def word_le_nat_alt)
    have "unat offset + unat ?left \<le> 262663 * 1024" using left assms(4,5) lt by simp
    moreover have "\<forall>b. unat offset div 1024 \<le> b \<and> b * 1024 < unat offset + unat ?left \<longrightarrow>
        block_mapped k D (i_dev (fs_inodes s ! i)) (desc_bytes s D i) (zones_at s i) b" using assms(6) by (simp only: left)
    moreover have "length (fs_bufs s) + 3 * blocks_of (unat offset) (unat ?left) \<le> 3855" using assms(7) by (simp only: left)
    ultimately obtain t H' F' where t: "read_loop (unat ?left) i ?left offset [] s
        = Inr ((map (byte_of_file s D i) [unat offset..<unat offset + n], offset + ?left), t)" "rest t = rest s"
      using read_loop_runs [where left = ?left and off = offset and out = "[]", OF order_refl I assms(2) refl refl refl]
      by (auto simp: left byte_of_file_def)
    have il: "i < length (fs_inodes t)" using t(2) assms(2) by (auto simp: rest_def inode_loaded_def)
    have "?left = of_nat n" unfolding left [symmetric] by simp
    then show ?thesis
      using False assms(3) t(1) il by (auto simp: inode_read_def bindM_def seqM_def ms Let_def upd_inode_def inode_at_def)
  qed
qed

text \<open>A file of three bytes on the first RAM disk: its descriptor in block 5, its bytes in block 6.\<close>

definition demo_desc :: "u8 list" where
  "demo_desc = [0, 0x80, 0, 0, 3, 0, 0, 0, 0, 0, 0, 0, 0, 1, 6, 0] @ replicate 1008 0"

definition demo_data :: "u8 list" where
  "demo_data = [0x61, 0x62, 0x63] @ replicate 1021 0"

definition demo_inode :: inode_t where
  "demo_inode = \<lparr>i_buf = 0, i_desc = 0, i_dev = 1, i_nr = 1, i_count = 1, i_atime = 0, i_ctime = 0, i_mount = 0, i_pipe = False,
     i_fifo = \<lparr>f_buf = [], f_length = 0, f_head = 0, f_tail = 0\<rparr>, i_ring = 0, i_page = 0\<rparr>"

text \<open>Reading a block of an empty or growing cache and filling it.\<close>

lemma fill_new_block:
  assumes "cache_run k s D T" "ram_served k d b" "\<not> cached (fs_bufs s) (d, b)" "length (fs_bufs s) < 3855" "length data = 1024"
  shows "\<exists>t. cache_run k t (D((d, b) := data)) (length (fs_bufs s) # T) \<and> length (fs_bufs t) = Suc (length (fs_bufs s))
    \<and> buf_key (fs_bufs t ! length (fs_bufs s)) = (d, b) \<and> same_keys s t \<and> rest t = rest s"
proof -
  let ?i = "length (fs_bufs s)"
  obtain H F where I: "cache_inv k s D T H F" using cache_run_inv [OF assms(1)] by blast
  let ?x = "\<lparr>b_data = ram_content k (fs_devs s) (d, b), b_dev = d, b_block = b, b_count = 1, b_dirty = False, b_valid = True\<rparr>"
  obtain u H' where u: "bread d b s = Inr (?i, u)" "fs_bufs u = fs_bufs s @ [?x]"
    using ram.bread_new [OF cache_invD(1) [OF I] assms(3,4,2)] by blast
  have r: "cache_run k u D (?i # T)" by (rule cache_run.read [OF assms(1,2) u(1)])
  then obtain H2 F2 where I2: "cache_inv k u D (?i # T) H2 F2" using cache_run_inv by blast
  let ?t = "u\<lparr>fs_bufs := fs_bufs s @ [?x\<lparr>b_data := data, b_dirty := True\<rparr>]\<rparr>"
  have put: "seqM (upd_buf ?i (\<lambda>x. x\<lparr>b_data := data\<rparr>)) (set_dirty ?i) u = Inr ((), ?t)"
    by (simp add: seqM_def bindM_def set_dirty_def upd_buf_run u(2) list_update_append)
  have "buf_at ?i u = Inr (?x, u)" by (simp add: buf_at_run u(2))
  from cache_run.put [OF r _ this assms(5) put] have "cache_run k ?t (D((d, b) := data)) (?i # T)" by (simp add: buf_key_def)
  moreover have "rest ?t = rest s" using keeps_restD [OF rest_bread u(1)] by (simp add: rest_def)
  ultimately show ?thesis by (intro exI [of _ ?t]) (simp add: same_keys_def nth_append buf_key_def)
qed

lemma inode_read_file_witness:
  "\<exists>s D t. cache_run 1 s D [1, 0] \<and> inode_read 0 10 1 s = Inr (([0x62, 0x63], 2), t)"
proof -
  obtain d where d: "device_init demo_devices = Inr ((), d)" "free_from 1 d" "ds_world d = ds_world demo_devices"
    using device_init_free [of demo_devices] by (auto simp: demo_devices_def detached_def)
  obtain e where e: "ram_ok 1 e"
    using ramdisk_init_runs [OF d(2)] d(3) by (auto simp: demo_devices_def RAMDISK_NR_def DEVICE_NR_def)
  let ?s = "(demo_fs e)\<lparr>fs_inodes := [demo_inode]\<rparr>"
  obtain s0 where s0: "buffer_init ?s = Inr ((), s0)" "fs_bufs s0 = []" "fs_inodes s0 = [demo_inode]" by (simp add: buffer_init_def demo_fs_def)
  have "cache_run 1 s0 (ram_content 1 (fs_devs ?s)) []"
    by (rule cache_run.start [OF _ _ s0(1)]) (use e in \<open>simp_all add: demo_fs_def detached_def\<close>)
  then obtain D0 where r0: "cache_run 1 s0 D0 []" by blast
  have srv: "ram_served 1 1 5" "ram_served 1 1 6" by (simp_all add: ram_served_def RAMDISK_NR_def)
  have len: "length demo_desc = 1024" "length demo_data = 1024" by (simp_all add: demo_desc_def demo_data_def)
  obtain s1 where s1: "cache_run 1 s1 (D0((1, 5) := demo_desc)) [0]" "length (fs_bufs s1) = 1" "buf_key (fs_bufs s1 ! 0) = (1, 5)" "rest s1 = rest s0"
    using fill_new_block [OF r0 srv(1) _ _ len(1)] s0(2) by (auto simp: cached_def)
  have "\<not> cached (fs_bufs s1) (1, 6)" using s1(2,3) by (auto simp: cached_def)
  from fill_new_block [OF s1(1) srv(2) this _ len(2)] s1(2) obtain s2 where
    s2: "cache_run 1 s2 (D0((1, 5) := demo_desc, (1, 6) := demo_data)) [1, 0]" "length (fs_bufs s2) = 2"
      "same_keys s1 s2" "rest s2 = rest s1" by auto
  let ?D = "D0((1, 5) := demo_desc, (1, 6) := demo_data)"
  have key: "buf_key (fs_bufs s2 ! 0) = (1, 5)" using s2(3) s1(2,3) by (simp add: same_keys_def)
  have ino: "fs_inodes s2 = [demo_inode]" using s0(3) s1(4) s2(4) by (simp add: rest_def)
  have ld: "inode_loaded s2 [1, 0] 0" using key by (simp add: inode_loaded_def ino demo_inode_def buf_key_def)
  have db: "desc_bytes s2 ?D 0 = demo_desc" "zones_at s2 0 = 14" "i_dev (fs_inodes s2 ! 0) = 1" "i_desc (fs_inodes s2 ! 0) = 0"
    by (simp_all add: desc_bytes_def zones_at_def ino demo_inode_def key)
  have w: "word16 demo_desc 0 = 0x8000" "word32 demo_desc 4 = 3" "entry demo_desc 14 0 = 6"
    by (simp_all add: word32_def word16_def entry_def demo_desc_def nth_append)
  have zone: "zone_path ?D 1 demo_desc 14 0 = [6]" by (simp add: zone_path_def w)
  have pre: "ISFILE (file_mode s2 ?D 0) \<or> ISDIR (file_mode s2 ?D 0)" "unat (file_size s2 ?D 0) \<le> 262663 * 1024"
    "2 = min (unat (10 :: u32)) (unat (file_size s2 ?D 0) - unat (1 :: u32))"
    by (simp_all add: file_mode_def file_size_def db w ISFILE_def IFMT_def IFREG_def)
  have "\<forall>b. unat (1 :: u32) div 1024 \<le> b \<and> b * 1024 < unat (1 :: u32) + 2 \<longrightarrow>
      block_mapped 1 ?D (i_dev (fs_inodes s2 ! 0)) (desc_bytes s2 ?D 0) (zones_at s2 0) b"
  proof (intro allI impI, elim conjE)
    fix b :: nat assume "b * 1024 < unat (1 :: u32) + 2"
    then have "b = 0" by simp
    then show "block_mapped 1 ?D (i_dev (fs_inodes s2 ! 0)) (desc_bytes s2 ?D 0) (zones_at s2 0) b"
      using zone srv(2) by (simp add: db block_mapped_def file_zone_def)
  qed
  moreover have "length (fs_bufs s2) + 3 * blocks_of (unat (1 :: u32)) 2 \<le> 3855" by (simp add: s2(2) blocks_of_def)
  ultimately obtain t where t: "inode_read 0 10 1 s2 = Inr (if file_size s2 ?D 0 \<le> 1 then ([], EOF)
      else (map (byte_of_file s2 ?D 0) [unat (1 :: u32)..<unat (1 :: u32) + 2], of_nat 2), t)"
    using inode_read_file [OF s2(1) ld pre] by blast
  have "byte_of_file s2 ?D 0 m = demo_data ! m" if "m < 3" for m
    using that zone by (simp add: byte_of_file_def file_byte_def db file_zone_def)
  moreover have "\<not> file_size s2 ?D 0 \<le> 1" by (simp add: file_size_def db w word_le_nat_alt)
  ultimately have "inode_read 0 10 1 s2 = Inr (([0x62, 0x63], 2), t)" using t by (simp add: demo_data_def upt_rec)
  with s2(1) show ?thesis by blast
qed

end
