(* ===== verification/Ylos_Dev.thy ===== *)
theory Ylos_Dev
  imports Ylos_Super
begin

text \<open>
  fs/dev.c: the file system of /dev.  \<open>mkdir\<close>, \<open>mknod\<close> and \<open>link\<close> are the library functions of the same
  names, called from the kernel; they are the system calls they reach.
\<close>

definition dev_node :: "u8 list \<Rightarrow> u16 \<Rightarrow> 'w device_t \<Rightarrow> ('w fs_t, unit) op" where
  "dev_node name mode d = bindM (sys_mknod name (ucast mode) (dv_dev d)) (\<lambda>_. ret ())"

text \<open>The first device of a kind; \<open>device->dev\<close> of a NULL device.\<close>

definition first_node :: "u32 \<Rightarrow> u8 list \<Rightarrow> u16 \<Rightarrow> ('w fs_t, unit) op" where
  "first_node subtype name mode =
     bindM (devs (device_find subtype 0)) (\<lambda>r. case r of None \<Rightarrow> failM Bad_Access | Some d \<Rightarrow> dev_node name mode d)"

text \<open>The loop over the devices of a kind, from number \<open>i\<close> on; there are at most 64.\<close>

fun dev_nodes :: "nat \<Rightarrow> u32 \<Rightarrow> u32 \<Rightarrow> u16 \<Rightarrow> ('w fs_t, unit) op" where
  "dev_nodes 0 subtype i mode = failM Diverges"
| "dev_nodes (Suc n) subtype i mode =
     bindM (devs (device_find subtype i)) (\<lambda>r. case r of
       None \<Rightarrow> ret ()
     | Some d \<Rightarrow>
         bindM (liftM (vsprintf 32 (lit ''/dev/%s'') [Arg_Str (dv_name d)])) (\<lambda>(name, _).
         seqM (dev_node name mode d) (dev_nodes n subtype (i + 1) mode)))"

text \<open>One of the three files every task starts with.\<close>

definition std_file :: "nat \<Rightarrow> u8 list \<Rightarrow> u32 \<Rightarrow> ('w fs_t, unit) op" where
  "std_file n path flags =
     bindM (namei path) (\<lambda>r. case r of
       None \<Rightarrow> failM Bad_Access
     | Some i \<Rightarrow> bindM (imode i) (\<lambda>mode.
         upd_file n (\<lambda>f. f\<lparr>fl_inode := Some i, fl_mode := ucast mode, fl_flags := flags, fl_offset := 0\<rparr>)))"

definition dev_init :: "('w fs_t, unit) op" where
  "dev_init =
     bindM (sys_mkdir (lit ''/dev'') 0x1ed) (\<lambda>_.
     bindM (devs (device_find DEV_RAMDISK 0)) (\<lambda>r. case r of
       None \<Rightarrow> failM Assert_Failed
     | Some d \<Rightarrow>
         bindM (devmkfs (dv_dev d) 0) (\<lambda>_.
         bindM (read_super (dv_dev d)) (\<lambda>super.
         bindM (iget (dv_dev d) 1) (\<lambda>root.
         seqM (upd_super super (\<lambda>x. x\<lparr>sb_iroot := Some root\<rparr>))
         (bindM (namei (lit ''/dev'')) (\<lambda>mount.
          seqM (upd_super super (\<lambda>x. x\<lparr>sb_imount := mount\<rparr>))
          (case mount of
             None \<Rightarrow> failM Bad_Access
           | Some m \<Rightarrow>
               seqM (upd_inode m (\<lambda>x. x\<lparr>i_mount := dv_dev d\<rparr>))
               (do_all
                 [first_node DEV_CONSOLE (lit ''/dev/console'') (IFCHR OR 0x80),
                  first_node DEV_KEYBOARD (lit ''/dev/keyboard'') (IFCHR OR 0x100),
                  dev_nodes 65 DEV_IDE_DISK 0 (IFBLK OR 0x180),
                  dev_nodes 65 DEV_IDE_PART 0 (IFBLK OR 0x180),
                  dev_nodes 65 DEV_RAMDISK 1 (IFBLK OR 0x180),
                  dev_nodes 65 DEV_SERIAL 0 (IFCHR OR 0x180),
                  bindM (sys_link (lit ''/dev/console'') (lit ''/dev/stdout'')) (\<lambda>_. ret ()),
                  bindM (sys_link (lit ''/dev/console'') (lit ''/dev/stderr'')) (\<lambda>_. ret ()),
                  bindM (sys_link (lit ''/dev/keyboard'') (lit ''/dev/stdin'')) (\<lambda>_. ret ()),
                  std_file 0 (lit ''/dev/stdin'') O_RDONLY,
                  std_file 1 (lit ''/dev/stdout'') O_WRONLY,
                  std_file 2 (lit ''/dev/stderr'') O_WRONLY]))))))))) "

text \<open>The loops end: no table has a device with a number as large as its length.\<close>

lemma find_subtype_bound:
  "find_subtype ds subtype idx nr = Some d \<Longrightarrow> nr \<le> idx \<Longrightarrow> unat idx < 2 ^ 31 \<Longrightarrow> unat idx < unat nr + length ds"
proof (induction ds arbitrary: nr)
  case (Cons x ds)
  show ?case
  proof (cases "dv_subtype x = subtype \<and> nr \<noteq> idx")
    case True
    then have lt: "unat nr < unat idx" using Cons.prems(2) by (simp add: word_le_nat_alt word_unat_eq_iff)
    then have s: "unat (nr + 1) = Suc (unat nr)" using Cons.prems(3) by (intro unat_Suc_small) simp
    have "unat idx < unat (nr + 1) + length ds"
      by (rule Cons.IH) (use Cons.prems True lt s in \<open>simp_all add: word_le_nat_alt\<close>)
    then show ?thesis using s by simp
  next
    case False
    then show ?thesis using Cons.prems Cons.IH [of nr] by (auto split: if_splits)
  qed
qed simp

lemma device_find_ends:
  assumes "length (ds_table s) \<le> 64"
  shows "device_find subtype 64 s = Inr (None, s)"
proof -
  have "find_subtype (ds_table s) subtype 64 0 = None"
  proof (rule ccontr)
    assume "find_subtype (ds_table s) subtype 64 0 \<noteq> None"
    then obtain d where "find_subtype (ds_table s) subtype 64 0 = Some d" by blast
    from find_subtype_bound [OF this] assms show False by simp
  qed
  then show ?thesis by (simp add: device_find_def bindM_def)
qed

end
