(* ===== verification/Ylos_Serial.thy ===== *)
theory Ylos_Serial
  imports Ylos_Mutex Ylos_Fifo Ylos_Interrupt Ylos_Device Ylos_Vsprintf
begin

text \<open>
  kernel/serial.c: the two serial lines.  What the chip answers is a parameter: the line status and the
  byte at an interrupt, the line status at the \<open>n\<close>-th reading of \<open>serial_write\<close>, the byte that comes back in
  the loop of \<open>serial_init\<close>.  Bytes sent to ports are lists.  As for the keyboard, reading and writing are
  followed from one suspension to the next.
\<close>

section \<open>The code\<close>

definition COM1_IOBASE :: u16 where "COM1_IOBASE = 0x3f8"
definition COM2_IOBASE :: u16 where "COM2_IOBASE = 0x2f8"
definition COM_INTR_ENABLE :: u16 where "COM_INTR_ENABLE = 1"
definition COM_BAUD_LSB :: u16 where "COM_BAUD_LSB = 0"
definition COM_BAUD_MSB :: u16 where "COM_BAUD_MSB = 1"
definition COM_LINE_CONTROL :: u16 where "COM_LINE_CONTROL = 3"
definition COM_MODEM_CONTROL :: u16 where "COM_MODEM_CONTROL = 4"
definition LSR_DR :: u8 where "LSR_DR = 0x1"
definition LSR_THRE :: u8 where "LSR_THRE = 0x20"
definition BUF_LEN :: u32 where "BUF_LEN = 64"

record serial_t =
  ser_iobase :: u16
  ser_rx :: fifo_t
  ser_rlock :: lock_t
  ser_rx_waiter :: "task_ptr option"
  ser_wlock :: lock_t
  ser_tx_waiter :: "task_ptr option"

definition recv_data :: "sched_t \<Rightarrow> serial_t \<Rightarrow> u8 \<Rightarrow> (sched_t \<times> serial_t) result" where
  "recv_data s d byte =
     (let ch = (if byte = 0x0d then 0x0a else byte)
      in bindr (fifo_put (ser_rx d) ch) (\<lambda>f.
         let d = d\<lparr>ser_rx := f\<rparr> in
         case ser_rx_waiter d of
           None \<Rightarrow> Inr (s, d)
         | Some p \<Rightarrow> bindr (task_unblock s p) (\<lambda>s. Inr (s, d\<lparr>ser_rx_waiter := None\<rparr>))))"

definition send_ready :: "sched_t \<Rightarrow> serial_t \<Rightarrow> u8 \<Rightarrow> (sched_t \<times> serial_t) result" where
  "send_ready s d state = (case ser_tx_waiter d of
       Some p \<Rightarrow> if state AND LSR_THRE \<noteq> 0
                 then bindr (task_unblock s p) (\<lambda>s. Inr (s, d\<lparr>ser_tx_waiter := None\<rparr>)) else Inr (s, d)
     | None \<Rightarrow> Inr (s, d))"

text \<open>The interrupt handler: the line is \<open>serials[irq - IRQ_SERIAL_1]\<close>.\<close>

definition serial_handler ::
    "sched_t \<Rightarrow> serial_t list \<Rightarrow> u32 \<Rightarrow> u8 \<Rightarrow> u8 \<Rightarrow> (port_writes \<times> sched_t \<times> serial_t list) result" where
  "serial_handler s ds vector state byte =
     (let irq = vector - 0x20 in
      if \<not> (irq = IRQ_SERIAL_1 \<or> irq = IRQ_SERIAL_2) then Inl Assert_Failed
      else let i = unat (irq - IRQ_SERIAL_1) in
           bindr (load_at ds i) (\<lambda>d.
           bindr (if state AND LSR_DR \<noteq> 0 then recv_data s d byte else Inr (s, d)) (\<lambda>(s, d).
           bindr (send_ready s d state) (\<lambda>(s, d). Inr (send_eoi vector, s, ds[i := d])))))"

text \<open>\<open>serial_read\<close>\<close>

datatype serial_outcome =
    Ser_Done sched_t serial_t "u8 list"
  | Ser_Locked sched_t serial_t
  | Ser_Sleeps sched_t serial_t "u8 list" nat

fun serial_read_loop :: "sched_t \<Rightarrow> serial_t \<Rightarrow> u8 list \<Rightarrow> nat \<Rightarrow> serial_outcome result" where
  "serial_read_loop s d buf 0 =
     bindr (lock_release s (ser_rlock d)) (\<lambda>(s, lk). Inr (Ser_Done s (d\<lparr>ser_rlock := lk\<rparr>) buf))"
| "serial_read_loop s d buf (Suc n) =
     (if fifo_empty (ser_rx d)
      then if ser_rx_waiter d \<noteq> None then Inl Assert_Failed
           else bindr (task_block s (running_task s) None TASK_BLOCKED) (\<lambda>s'.
                Inr (Ser_Sleeps s' (d\<lparr>ser_rx_waiter := Some (running_task s)\<rparr>) buf (Suc n)))
      else bindr (fifo_get (ser_rx d)) (\<lambda>(f, byte). serial_read_loop s (d\<lparr>ser_rx := f\<rparr>) (buf @ [byte]) n))"

definition serial_read :: "sched_t \<Rightarrow> serial_t \<Rightarrow> u32 \<Rightarrow> serial_outcome result" where
  "serial_read s d count =
     bindr (lock_acquire s (ser_rlock d)) (\<lambda>r.
     case r of Lock_Waits s \<Rightarrow> Inr (Ser_Locked s d)
     | Lock_Taken s lk \<Rightarrow> serial_read_loop s (d\<lparr>ser_rlock := lk\<rparr>) [] (unat count))"

text \<open>\<open>serial_write\<close>: the bytes sent so far, the bytes still to send, the number of the next reading.\<close>

datatype serial_w_outcome =
    Ser_Sent sched_t serial_t "u8 list"
  | Ser_W_Locked sched_t serial_t
  | Ser_W_Sleeps sched_t serial_t "u8 list" "u8 list" nat

fun serial_write_loop :: "(nat \<Rightarrow> u8) \<Rightarrow> sched_t \<Rightarrow> serial_t \<Rightarrow> u8 list \<Rightarrow> u8 list \<Rightarrow> nat \<Rightarrow> serial_w_outcome result" where
  "serial_write_loop lsr s d sent [] k =
     bindr (lock_release s (ser_wlock d)) (\<lambda>(s, lk). Inr (Ser_Sent s (d\<lparr>ser_wlock := lk\<rparr>) sent))"
| "serial_write_loop lsr s d sent (c # cs) k =
     (if lsr k AND LSR_THRE \<noteq> 0 then serial_write_loop lsr s d (sent @ [c]) cs (k + 1)
      else bindr (task_block s (running_task s) None TASK_BLOCKED) (\<lambda>s'.
           Inr (Ser_W_Sleeps s' (d\<lparr>ser_tx_waiter := Some (running_task s)\<rparr>) sent (c # cs) (k + 1))))"

definition serial_write :: "(nat \<Rightarrow> u8) \<Rightarrow> sched_t \<Rightarrow> serial_t \<Rightarrow> u8 list \<Rightarrow> u32 \<Rightarrow> nat \<Rightarrow> serial_w_outcome result" where
  "serial_write lsr s d buf count k =
     (if length buf < unat count then Inl Bad_Access
      else bindr (lock_acquire s (ser_wlock d)) (\<lambda>r.
           case r of Lock_Waits s \<Rightarrow> Inr (Ser_W_Locked s d)
           | Lock_Taken s lk \<Rightarrow> serial_write_loop lsr s (d\<lparr>ser_wlock := lk\<rparr>) [] (take (unat count) buf) k))"

text \<open>One line of \<open>serial_init\<close>: the structure (with its two wait lists), the bytes sent to the chip, and whether it is there.\<close>

definition serial_line :: "nat \<Rightarrow> sched_t \<Rightarrow> u8 list \<Rightarrow> nat \<Rightarrow> nat \<Rightarrow> u8 \<Rightarrow> sched_t \<times> serial_t \<times> port_writes \<times> bool" where
  "serial_line i s buf rl wl echo =
     (let (s, rlock) = lock_init s rl; (s, wlock) = lock_init s wl;
          io = (if i = 0 then COM1_IOBASE else COM2_IOBASE);
          d = \<lparr>ser_iobase = io, ser_rx = fifo_init buf BUF_LEN, ser_rlock = rlock, ser_rx_waiter = None,
               ser_wlock = wlock, ser_tx_waiter = None\<rparr>;
          setup = [(io + COM_LINE_CONTROL, 0x80), (io + COM_BAUD_LSB, 0x30), (io + COM_BAUD_MSB, 0), (io + COM_LINE_CONTROL, 3),
                   (io + COM_INTR_ENABLE, 0x0d), (io + COM_MODEM_CONTROL, 0x1b), (io, 0xae)]
      in if echo \<noteq> 0xae then (s, d, setup, False) else (s, d, setup @ [(io + COM_MODEM_CONTROL, 0x0b)], True))"

definition serial_irq :: "nat \<Rightarrow> u32" where
  "serial_irq i = (if i = 0 then IRQ_SERIAL_1 else IRQ_SERIAL_2)"

text \<open>What follows for a line that is there: the handler, the mask, the device.\<close>

definition serial_install ::
    "nat \<Rightarrow> 'w dev_read option \<Rightarrow> 'w dev_write option \<Rightarrow> handler list \<Rightarrow> ports \<Rightarrow> 'w devs_t \<Rightarrow>
     (handler list \<times> ports \<times> 'w devs_t) result" where
  "serial_install i rd wr handlers ports ds =
     bindr (set_interrupt_handler handlers (serial_irq i) serial_handler_fn) (\<lambda>handlers.
     bindr (set_interrupt_mask ports (serial_irq i) True) (\<lambda>ports.
     bindr (vsprintf 16 (lit ''com%d'') [Arg_Int (of_nat (i + 1))]) (\<lambda>(name, _).
     bindr (device_install DEV_CHAR DEV_SERIAL i name 0 None rd wr ds) (\<lambda>(_, ds). Inr (handlers, ports, ds)))))"

section \<open>A line with nobody waiting\<close>

definition line_bytes :: "serial_t \<Rightarrow> u8 list \<Rightarrow> bool" where
  "line_bytes d xs \<longleftrightarrow> ring_rep (ser_rx d) xs \<and> ring_room (ser_rx d) = 63 \<and> length xs \<le> 63
     \<and> ser_rx_waiter d = None \<and> ser_tx_waiter d = None"

definition crlf :: "u8 \<Rightarrow> u8" where
  "crlf b = (if b = 0x0d then 0x0a else b)"

text \<open>Interrupts of the first line, one for each byte.\<close>

fun receive_all :: "sched_t \<Rightarrow> serial_t list \<Rightarrow> u8 list \<Rightarrow> (sched_t \<times> serial_t list) result" where
  "receive_all s ds [] = Inr (s, ds)"
| "receive_all s ds (b # bs) = bindr (serial_handler s ds 0x24 LSR_DR b) (\<lambda>(_, s, ds). receive_all s ds bs)"

lemma receive_one:
  assumes "line_bytes d xs"
  obtains d' where "serial_handler s [d, d2] 0x24 LSR_DR b = Inr (send_eoi 0x24, s, [d', d2])"
    "line_bytes d' (youngest 63 (xs @ [crlf b]))" "ser_rlock d' = ser_rlock d"
proof -
  have r: "ring_rep (ser_rx d) xs" "ring_room (ser_rx d) = 63" "length xs \<le> 63" "ser_rx_waiter d = None" "ser_tx_waiter d = None"
    using assms by (simp_all add: line_bytes_def)
  obtain f where f: "fifo_put (ser_rx d) (crlf b) = Inr f" "ring_rep f (ring_put 63 xs (crlf b))" "ring_room f = 63"
    using fifo_put_ring [OF r(1), of "crlf b"] r(2) by metis
  have y: "ring_put 63 xs (crlf b) = youngest 63 (xs @ [crlf b])" using r(3) by (simp add: ring_put_youngest)
  have "serial_handler s [d, d2] 0x24 LSR_DR b = Inr (send_eoi 0x24, s, [d\<lparr>ser_rx := f\<rparr>, d2])"
    using f(1) r(4,5)
    by (simp add: serial_handler_def IRQ_SERIAL_1_def recv_data_def send_ready_def Let_def LSR_DR_def crlf_def)
  moreover have "line_bytes (d\<lparr>ser_rx := f\<rparr>) (youngest 63 (xs @ [crlf b]))"
    using f(2,3) y r(4,5) by (simp add: line_bytes_def)
  ultimately show ?thesis using that by simp
qed

lemma receive_all_bytes:
  "line_bytes d xs \<Longrightarrow> \<exists>d'. receive_all s [d, d2] bs = Inr (s, [d', d2]) \<and> line_bytes d' (youngest 63 (xs @ map crlf bs))
     \<and> ser_rlock d' = ser_rlock d"
proof (induction bs arbitrary: d xs)
  case Nil
  then show ?case by (auto simp: youngest_all line_bytes_def)
next
  case (Cons b bs)
  obtain d1 where d1: "serial_handler s [d, d2] 0x24 LSR_DR b = Inr (send_eoi 0x24, s, [d1, d2])"
    "line_bytes d1 (youngest 63 (xs @ [crlf b]))" "ser_rlock d1 = ser_rlock d" by (rule receive_one [OF Cons.prems])
  from Cons.IH [OF d1(2)] obtain d' where "receive_all s [d1, d2] bs = Inr (s, [d', d2])"
    "line_bytes d' (youngest 63 (youngest 63 (xs @ [crlf b]) @ map crlf bs))" "ser_rlock d' = ser_rlock d1" by blast
  with d1(1,3) show ?case by (simp add: youngest_youngest)
qed

lemma read_bytes:
  "line_bytes d xs \<Longrightarrow> n \<le> length xs \<Longrightarrow>
   \<exists>d'. serial_read_loop s d buf n = serial_read_loop s d' (buf @ take n xs) 0 \<and> ser_rlock d' = ser_rlock d"
proof (induction n arbitrary: d xs buf)
  case (Suc n)
  then obtain x ys where xs: "xs = x # ys" by (cases xs) auto
  with Suc.prems have r: "ring_rep (ser_rx d) (x # ys)" by (simp add: line_bytes_def)
  then have ne: "\<not> fifo_empty (ser_rx d)"
    using length_ring_bytes [of "ser_rx d"] by (auto simp: ring_rep_def fifo_empty_count)
  from fifo_get_ring [OF r] obtain f where
    f: "fifo_get (ser_rx d) = Inr (f, x)" "ring_rep f ys" "ring_room f = ring_room (ser_rx d)" .
  then have "line_bytes (d\<lparr>ser_rx := f\<rparr>) ys" using Suc.prems(1) by (simp add: line_bytes_def xs)
  from Suc.IH [OF this, of "buf @ [x]"] Suc.prems(2) obtain d' where
    "serial_read_loop s (d\<lparr>ser_rx := f\<rparr>) (buf @ [x]) n = serial_read_loop s d' (buf @ take (Suc n) xs) 0" "ser_rlock d' = ser_rlock d"
    by (auto simp: xs)
  with ne f(1) show ?case by (intro exI [of _ d']) simp
qed auto

text \<open>
  What arrives on the first line is read in order: the youngest 63 bytes, a carriage return as a line
  feed, as long as no more are asked for than are there.
\<close>

lemma serial_receives:
  assumes "line_bytes d []" "ser_rlock d = free_lock l" "list_empty (s_links s) (tlist l)"
  obtains d' where "receive_all s [d, d2] bs = Inr (s, [d', d2])"
    "\<And>n. unat n \<le> min 63 (length bs) \<Longrightarrow> \<exists>s' e. serial_read s d' n = Inr (Ser_Done s' e (take (unat n) (youngest 63 (map crlf bs))))"
proof -
  obtain d' where d': "receive_all s [d, d2] bs = Inr (s, [d', d2])" "line_bytes d' (youngest 63 (map crlf bs))"
    "ser_rlock d' = free_lock l" using receive_all_bytes [OF assms(1), of s d2 bs] assms(2) by auto
  obtain s1 lk s2 lk2 where lock: "lock_acquire s (free_lock l) = Inr (Lock_Taken s1 lk)" "lock_release s1 lk = Inr (s2, lk2)"
    by (rule lock_round [OF assms(3)])
  have "\<exists>s' e. serial_read s d' n = Inr (Ser_Done s' e (take (unat n) (youngest 63 (map crlf bs))))"
    if n: "unat n \<le> min 63 (length bs)" for n
  proof -
    have "line_bytes (d'\<lparr>ser_rlock := lk\<rparr>) (youngest 63 (map crlf bs))" using d'(2) by (simp add: line_bytes_def)
    from read_bytes [OF this, of "unat n" s1 "[]"] n obtain e where
      "serial_read_loop s1 (d'\<lparr>ser_rlock := lk\<rparr>) [] (unat n) = serial_read_loop s1 e (take (unat n) (youngest 63 (map crlf bs))) 0"
      "ser_rlock e = lk" by auto
    with lock show ?thesis by (auto simp: serial_read_def d'(3))
  qed
  with d'(1) that show ?thesis by blast
qed

text \<open>The line is sent byte by byte while the chip is ready; at the first reading where it is not the caller sleeps.\<close>

lemma serial_write_ready:
  "(\<forall>j<length cs. lsr (k + j) AND LSR_THRE \<noteq> 0) \<Longrightarrow>
   serial_write_loop lsr s d sent cs k = serial_write_loop lsr s d (sent @ cs) [] (k + length cs)"
proof (induction cs arbitrary: sent k)
  case (Cons c cs)
  have "lsr k AND LSR_THRE \<noteq> 0" using Cons.prems by force
  moreover have "\<forall>j<length cs. lsr (Suc k + j) AND LSR_THRE \<noteq> 0" using Cons.prems by (metis add_Suc_shift length_Cons Suc_less_eq)
  ultimately show ?case using Cons.IH [of "Suc k" "sent @ [c]"] by simp
qed simp

text \<open>
  The second line has the lower interrupt (3, the first has 4): the handler that \<open>serial_install\<close> registers for it
  looks for the line before the first one.
\<close>

lemma com2_vector: "length h = IDT_SIZE \<Longrightarrow> set_interrupt_handler h (serial_irq 1) serial_handler_fn = Inr (h[0x23 := serial_handler_fn])"
  by (simp add: set_interrupt_handler_def serial_irq_def IRQ_SERIAL_2_def IRQ_MASTER_NR_def IDT_SIZE_def)

lemma com2_interrupt_fails: "length ds = 2 \<Longrightarrow> serial_handler s ds 0x23 state byte = Inl Bad_Access"
  by (simp add: serial_handler_def IRQ_SERIAL_1_def IRQ_SERIAL_2_def load_at_def unsigned_minus_1_eq_mask mask_eq_exp_minus_1)

end
