(* ===== verification/Ylos_Ide.thy ===== *)
theory Ylos_Ide
  imports Ylos_Device Ylos_Vsprintf Ylos_Interrupt
begin

text \<open>
  kernel/ide.c: disks behind the two IDE channels, read and written word by word.  A driver function is the
  tree of its accesses to the ports and of its calls of the scheduler; nothing is assumed of the disk.  A
  loop that waits for the disk takes fuel.  Messages to the log are left out.
\<close>

section \<open>Accesses\<close>

text \<open>The calls of the lock and of the scheduler, with the channel: \<open>Wait_Interrupt\<close> sets \<open>waiter\<close> and blocks, \<open>Wake_Waiter\<close> wakes
  it if there is one; only \<open>Is_Running\<close> has an answer.\<close>

datatype ide_call = Acquire nat | Release nat | Set_Active nat nat | Is_Running | Wait_Interrupt nat | Wake_Waiter nat

datatype 'a io =
    Io_Ret 'a
  | Io_Fail kerror
  | Inb u16 "u8 \<Rightarrow> 'a io"
  | Inw u16 "u16 \<Rightarrow> 'a io"
  | Outb u16 u8 "'a io"
  | Outw u16 u16 "'a io"
  | Call ide_call "bool \<Rightarrow> 'a io"

primrec bindI :: "'a io \<Rightarrow> ('a \<Rightarrow> 'b io) \<Rightarrow> 'b io" where
  "bindI (Io_Ret x) f = f x"
| "bindI (Io_Fail e) f = Io_Fail e"
| "bindI (Inb p k) f = Inb p (\<lambda>v. bindI (k v) f)"
| "bindI (Inw p k) f = Inw p (\<lambda>v. bindI (k v) f)"
| "bindI (Outb p v m) f = Outb p v (bindI m f)"
| "bindI (Outw p v m) f = Outw p v (bindI m f)"
| "bindI (Call c k) f = Call c (\<lambda>b. bindI (k b) f)"

definition seqI :: "'a io \<Rightarrow> 'b io \<Rightarrow> 'b io" where
  "seqI m k = bindI m (\<lambda>_. k)"

definition outb :: "u16 \<Rightarrow> u8 \<Rightarrow> unit io" where "outb p v = Outb p v (Io_Ret ())"
definition outw :: "u16 \<Rightarrow> u16 \<Rightarrow> unit io" where "outw p v = Outw p v (Io_Ret ())"
definition inb :: "u16 \<Rightarrow> u8 io" where "inb p = Inb p Io_Ret"
definition inw :: "u16 \<Rightarrow> u16 io" where "inw p = Inw p Io_Ret"
definition do_call :: "ide_call \<Rightarrow> bool io" where "do_call c = Call c Io_Ret"
definition liftI :: "'a result \<Rightarrow> 'a io" where
  "liftI r = (case r of Inl e \<Rightarrow> Io_Fail e | Inr x \<Rightarrow> Io_Ret x)"

fun all_io :: "unit io list \<Rightarrow> unit io" where
  "all_io [] = Io_Ret ()"
| "all_io (m # ms) = seqI m (all_io ms)"

section \<open>Disks\<close>

definition IDE_IOBASE_PRIMARY :: u16 where "IDE_IOBASE_PRIMARY = 0x1f0"
definition IDE_IOBASE_SECONDARY :: u16 where "IDE_IOBASE_SECONDARY = 0x170"
definition IDE_DATA :: u16 where "IDE_DATA = 0"
definition IDE_ERR :: u16 where "IDE_ERR = 1"
definition IDE_FEATURE :: u16 where "IDE_FEATURE = 1"
definition IDE_SECTOR :: u16 where "IDE_SECTOR = 2"
definition IDE_LBA_LOW :: u16 where "IDE_LBA_LOW = 3"
definition IDE_LBA_MID :: u16 where "IDE_LBA_MID = 4"
definition IDE_LBA_HIGH :: u16 where "IDE_LBA_HIGH = 5"
definition IDE_HDDEVSEL :: u16 where "IDE_HDDEVSEL = 6"
definition IDE_STATUS :: u16 where "IDE_STATUS = 7"
definition IDE_COMMAND :: u16 where "IDE_COMMAND = 7"
definition IDE_ALT_STATUS :: u16 where "IDE_ALT_STATUS = 0x206"
definition IDE_CONTROL :: u16 where "IDE_CONTROL = 0x206"
definition IDE_CMD_READ :: u8 where "IDE_CMD_READ = 0x20"
definition IDE_CMD_WRITE :: u8 where "IDE_CMD_WRITE = 0x30"
definition IDE_CMD_IDENTIFY :: u8 where "IDE_CMD_IDENTIFY = 0xec"
definition IDE_SR_NULL :: u8 where "IDE_SR_NULL = 0"
definition IDE_SR_ERR :: u8 where "IDE_SR_ERR = 0x01"
definition IDE_SR_DRQ :: u8 where "IDE_SR_DRQ = 0x08"
definition IDE_SR_DRDY :: u8 where "IDE_SR_DRDY = 0x40"
definition IDE_SR_BSY :: u8 where "IDE_SR_BSY = 0x80"
definition IDE_CTRL_SRST :: u8 where "IDE_CTRL_SRST = 0x04"
definition IDE_LBA_MASTER :: u8 where "IDE_LBA_MASTER = 0xe0"
definition IDE_LBA_SLAVE :: u8 where "IDE_LBA_SLAVE = 0xf0"
definition PART_FS_EXTENDED :: u32 where "PART_FS_EXTENDED = 5"
definition IDE_CTRL_NR :: nat where "IDE_CTRL_NR = 2"
definition IDE_DISK_NR :: nat where "IDE_DISK_NR = 2"
definition IDE_PART_NR :: nat where "IDE_PART_NR = 4"

record ide_part_t =
  pt_name :: "u8 list"
  pt_system :: u32
  pt_start :: u32
  pt_count :: u32

text \<open>\<open>ctrl\<close> is the number of the channel, with its base port.\<close>

record ide_disk_t =
  dk_name :: "u8 list"
  dk_ctrl :: nat
  dk_nr :: nat
  dk_iobase :: u16
  dk_selector :: u8
  dk_master :: bool
  dk_total_lba :: u32
  dk_cylinders :: u32
  dk_heads :: u32
  dk_sectors :: u32
  dk_parts :: "ide_part_t list"

section \<open>Commands\<close>

text \<open>The handler of a channel's interrupt; the waiter, if there is one, is woken.\<close>

definition ide_handler :: "(nat \<Rightarrow> u16) \<Rightarrow> u32 \<Rightarrow> unit io" where
  "ide_handler iobase vector =
     (let c = unat (vector - IRQ_HARDDISK - 0x20) in
      seqI (all_io (map (\<lambda>(p, v). outb p v) (send_eoi vector)))
        (if IDE_CTRL_NR \<le> c then Io_Fail Bad_Access
         else bindI (inb (iobase c + IDE_STATUS)) (\<lambda>_. bindI (do_call (Wake_Waiter c)) (\<lambda>_. Io_Ret ()))))"

definition ide_error :: "u16 \<Rightarrow> unit io" where
  "ide_error io = bindI (inb (io + IDE_ERR)) (\<lambda>_. Io_Ret ())"

fun ide_busy_wait :: "nat \<Rightarrow> u16 \<Rightarrow> u8 \<Rightarrow> unit io" where
  "ide_busy_wait 0 io msk = Io_Fail Diverges"
| "ide_busy_wait (Suc n) io msk =
     bindI (inb (io + IDE_ALT_STATUS)) (\<lambda>state.
     seqI (if state AND IDE_SR_ERR \<noteq> 0 then ide_error io else Io_Ret ())
       (if state AND IDE_SR_BSY \<noteq> 0 then ide_busy_wait n io msk
        else if state AND msk = msk then Io_Ret ()
        else ide_busy_wait n io msk))"

definition ide_reset_controller :: "nat \<Rightarrow> u16 \<Rightarrow> u8 \<Rightarrow> unit io" where
  "ide_reset_controller n io control =
     all_io [outb (io + IDE_CONTROL) IDE_CTRL_SRST, ide_busy_wait n io IDE_SR_NULL,
             outb (io + IDE_CONTROL) control, ide_busy_wait n io IDE_SR_NULL]"

definition set_active :: "ide_disk_t \<Rightarrow> unit io" where
  "set_active d = bindI (do_call (Set_Active (dk_ctrl d) (dk_nr d))) (\<lambda>_. Io_Ret ())"

definition ide_select_drive :: "ide_disk_t \<Rightarrow> unit io" where
  "ide_select_drive d = seqI (outb (dk_iobase d + IDE_HDDEVSEL) (dk_selector d)) (set_active d)"

definition ide_select_sector :: "ide_disk_t \<Rightarrow> u32 \<Rightarrow> u8 \<Rightarrow> unit io" where
  "ide_select_sector d lba count =
     all_io [outb (dk_iobase d + IDE_FEATURE) 0, outb (dk_iobase d + IDE_SECTOR) count,
             outb (dk_iobase d + IDE_LBA_LOW) (ucast (lba AND 0xff)),
             outb (dk_iobase d + IDE_LBA_MID) (ucast (drop_bit 8 lba AND 0xff)),
             outb (dk_iobase d + IDE_LBA_HIGH) (ucast (drop_bit 16 lba AND 0xff)),
             outb (dk_iobase d + IDE_HDDEVSEL) (ucast (drop_bit 24 lba AND 0xf) OR dk_selector d), set_active d]"

text \<open>The loops over the 256 words of a sector; a word is two bytes of the buffer, the low one first.\<close>

fun read_words :: "nat \<Rightarrow> u16 \<Rightarrow> u8 list io" where
  "read_words 0 io = Io_Ret []"
| "read_words (Suc n) io = bindI (inw (io + IDE_DATA)) (\<lambda>w. bindI (read_words n io) (\<lambda>bs. Io_Ret (ucast w # ucast (drop_bit 8 w) # bs)))"

definition ide_pio_read_sector :: "ide_disk_t \<Rightarrow> u8 list io" where
  "ide_pio_read_sector d = read_words 256 (dk_iobase d)"

fun write_words :: "nat \<Rightarrow> u16 \<Rightarrow> u8 list \<Rightarrow> unit io" where
  "write_words 0 io buf = Io_Ret ()"
| "write_words (Suc n) io (lo # hi # buf) = seqI (outw (io + IDE_DATA) (ucast lo OR push_bit 8 (ucast hi))) (write_words n io buf)"
| "write_words (Suc n) io buf = Io_Fail Bad_Access"

definition ide_pio_write_sector :: "ide_disk_t \<Rightarrow> u8 list \<Rightarrow> unit io" where
  "ide_pio_write_sector d buf = write_words 256 (dk_iobase d) buf"

definition ide_pio_ioctl :: "ide_disk_t \<Rightarrow> u32 \<Rightarrow> u32 result" where
  "ide_pio_ioctl d cmd =
     (if cmd = DEV_CMD_SECTOR_START then Inr 0
      else if cmd = DEV_CMD_SECTOR_COUNT then Inr (dk_total_lba d) else Inl Kernel_Panic)"

text \<open>A task that runs sleeps until the interrupt; before the tasks are started nobody does.\<close>

definition await :: "ide_disk_t \<Rightarrow> unit io" where
  "await d = bindI (do_call Is_Running) (\<lambda>running.
     if running then bindI (do_call (Wait_Interrupt (dk_ctrl d))) (\<lambda>_. Io_Ret ()) else Io_Ret ())"

fun read_sectors :: "nat \<Rightarrow> ide_disk_t \<Rightarrow> nat \<Rightarrow> u8 list io" where
  "read_sectors n d 0 = Io_Ret []"
| "read_sectors n d (Suc k) =
     seqI (await d) (seqI (ide_busy_wait n (dk_iobase d) IDE_SR_DRQ)
     (bindI (ide_pio_read_sector d) (\<lambda>bs. bindI (read_sectors n d k) (\<lambda>more. Io_Ret (bs @ more)))))"

fun write_sectors :: "nat \<Rightarrow> ide_disk_t \<Rightarrow> nat \<Rightarrow> u8 list \<Rightarrow> unit io" where
  "write_sectors n d 0 buf = Io_Ret ()"
| "write_sectors n d (Suc k) buf =
     seqI (ide_pio_write_sector d buf) (seqI (await d) (seqI (ide_busy_wait n (dk_iobase d) IDE_SR_NULL)
       (write_sectors n d k (drop 512 buf))))"

text \<open>What both functions do up to the command; \<open>intr\<close> is the state of the interrupt flag.\<close>

definition start_command :: "nat \<Rightarrow> bool \<Rightarrow> ide_disk_t \<Rightarrow> u8 \<Rightarrow> u32 \<Rightarrow> u8 \<Rightarrow> unit io" where
  "start_command n intr d count lba cmd =
     (if count = 0 \<or> intr then Io_Fail Assert_Failed
      else all_io [bindI (do_call (Acquire (dk_ctrl d))) (\<lambda>_. Io_Ret ()), ide_select_drive d,
             ide_busy_wait n (dk_iobase d) IDE_SR_DRDY, ide_select_sector d lba count, outb (dk_iobase d + IDE_COMMAND) cmd])"

definition ide_pio_read :: "nat \<Rightarrow> bool \<Rightarrow> ide_disk_t \<Rightarrow> u8 \<Rightarrow> u32 \<Rightarrow> (u32 \<times> u8 list) io" where
  "ide_pio_read n intr d count lba =
     seqI (start_command n intr d count lba IDE_CMD_READ)
     (bindI (read_sectors n d (unat count)) (\<lambda>bs. bindI (do_call (Release (dk_ctrl d))) (\<lambda>_. Io_Ret (0, bs))))"

definition ide_pio_write :: "nat \<Rightarrow> bool \<Rightarrow> ide_disk_t \<Rightarrow> u8 list \<Rightarrow> u8 \<Rightarrow> u32 \<Rightarrow> u32 io" where
  "ide_pio_write n intr d buf count lba =
     seqI (start_command n intr d count lba IDE_CMD_WRITE)
     (seqI (write_sectors n d (unat count) buf) (bindI (do_call (Release (dk_ctrl d))) (\<lambda>_. Io_Ret 0)))"

definition ide_pio_part_ioctl :: "ide_part_t \<Rightarrow> u32 \<Rightarrow> u32 result" where
  "ide_pio_part_ioctl p cmd =
     (if cmd = DEV_CMD_SECTOR_START then Inr (pt_start p)
      else if cmd = DEV_CMD_SECTOR_COUNT then Inr (pt_count p) else Inl Kernel_Panic)"

definition ide_pio_part_read :: "nat \<Rightarrow> bool \<Rightarrow> ide_disk_t \<Rightarrow> ide_part_t \<Rightarrow> u8 \<Rightarrow> u32 \<Rightarrow> (u32 \<times> u8 list) io" where
  "ide_pio_part_read n intr d p count lba = ide_pio_read n intr d count (pt_start p + lba)"

definition ide_pio_part_write :: "nat \<Rightarrow> bool \<Rightarrow> ide_disk_t \<Rightarrow> ide_part_t \<Rightarrow> u8 list \<Rightarrow> u8 \<Rightarrow> u32 \<Rightarrow> u32 io" where
  "ide_pio_part_write n intr d p buf count lba = ide_pio_write n intr d buf count (pt_start p + lba)"

section \<open>Finding disks and partitions\<close>

fun swap_loop :: "u8 list \<Rightarrow> u8 list" where
  "swap_loop (a # b # cs) = b # a # swap_loop cs"
| "swap_loop cs = cs"

definition ide_swap_pairs :: "u8 list \<Rightarrow> nat \<Rightarrow> u8 list" where
  "ide_swap_pairs buf len = (take (len - 1) (swap_loop (take len buf)) @ [0]) @ drop len buf"

text \<open>The fields of \<open>ide_params_t\<close>, by their offsets in bytes.\<close>

definition ide_identify :: "nat \<Rightarrow> ide_disk_t \<Rightarrow> (u32 \<times> ide_disk_t \<times> u8 list) io" where
  "ide_identify n d =
     bindI (do_call (Acquire (dk_ctrl d))) (\<lambda>_.
     seqI (all_io [ide_select_drive d, outb (dk_iobase d + IDE_COMMAND) IDE_CMD_IDENTIFY,
                   ide_busy_wait n (dk_iobase d) IDE_SR_NULL])
     (bindI (ide_pio_read_sector d) (\<lambda>buf.
      let swap = (\<lambda>buf off len. take off buf @ ide_swap_pairs (drop off buf) len);
          (ret, d, buf) =
            (if word32 buf 120 = 0 then (EOF, d, buf)
             else let buf = swap (swap (swap buf 20 20) 46 8) 54 40 in
               (0, d\<lparr>dk_total_lba := word32 buf 120, dk_cylinders := ucast (word16 buf 2),
                    dk_heads := ucast (word16 buf 6), dk_sectors := ucast (word16 buf 12)\<rparr>, buf))
      in bindI (do_call (Release (dk_ctrl d))) (\<lambda>_. Io_Ret (ret, d, buf)))))"

text \<open>The entry \<open>i\<close> of the table in a boot sector.\<close>

definition part_entry :: "u8 list \<Rightarrow> nat \<Rightarrow> u8 \<times> u32 \<times> u32" where
  "part_entry boot i = (let at = 446 + 16 * i in (boot ! (at + 4), word32 boot (at + 8), word32 boot (at + 12)))"

fun part_loop :: "nat \<Rightarrow> bool \<Rightarrow> nat \<Rightarrow> nat \<Rightarrow> u8 list \<Rightarrow> ide_disk_t \<Rightarrow> ide_disk_t io" where
  "part_loop n intr 0 i boot d = Io_Ret d"
| "part_loop n intr (Suc m) i boot d =
     (let (system, start, count) = part_entry boot i in
      if count = 0 then part_loop n intr m (i + 1) boot d
      else bindI (liftI (vsprintf 8 (lit ''%s%d'') [Arg_Str (dk_name d), Arg_Int (of_nat (i + 1))])) (\<lambda>(name, _).
           let d = d\<lparr>dk_parts := (dk_parts d)[i := \<lparr>pt_name = name, pt_system = ucast system, pt_start = start, pt_count = count\<rparr>]\<rparr>
           in seqI (if ucast system = PART_FS_EXTENDED then bindI (ide_pio_read n intr d 1 start) (\<lambda>_. Io_Ret ()) else Io_Ret ())
                (part_loop n intr m (i + 1) boot d)))"

definition ide_part_init :: "nat \<Rightarrow> bool \<Rightarrow> ide_disk_t \<Rightarrow> ide_disk_t io" where
  "ide_part_init n intr d =
     (if dk_total_lba d = 0 then Io_Ret d
      else bindI (ide_pio_read n intr d 1 0) (\<lambda>(_, boot). part_loop n intr IDE_PART_NR 0 boot d))"

definition no_part :: ide_part_t where
  "no_part = \<lparr>pt_name = replicate 8 0, pt_system = 0, pt_start = 0, pt_count = 0\<rparr>"

text \<open>One disk of a channel, and a channel.\<close>

definition disk_init :: "nat \<Rightarrow> bool \<Rightarrow> nat \<Rightarrow> u16 \<Rightarrow> nat \<Rightarrow> ide_disk_t io" where
  "disk_init n intr c io k =
     bindI (liftI (vsprintf 8 (lit ''hd%c'') [Arg_Int (of_nat (0x61 + c * 2 + k))])) (\<lambda>(name, _).
     bindI (ide_identify n \<lparr>dk_name = name, dk_ctrl = c, dk_nr = k, dk_iobase = io,
              dk_selector = (if k \<noteq> 0 then IDE_LBA_SLAVE else IDE_LBA_MASTER), dk_master = (k = 0), dk_total_lba = 0,
              dk_cylinders = 0, dk_heads = 0, dk_sectors = 0, dk_parts = replicate 4 no_part\<rparr>) (\<lambda>(_, d, _).
     ide_part_init n intr d))"

definition channel_init :: "nat \<Rightarrow> bool \<Rightarrow> nat \<Rightarrow> (u8 list \<times> u8 \<times> ide_disk_t list) io" where
  "channel_init n intr c =
     (let io = (if c \<noteq> 0 then IDE_IOBASE_SECONDARY else IDE_IOBASE_PRIMARY) in
      bindI (liftI (vsprintf 8 (lit ''ide%u'') [Arg_Int (of_nat c)])) (\<lambda>(name, _).
      bindI (inb (io + IDE_CONTROL)) (\<lambda>control.
      bindI (disk_init n intr c io 0) (\<lambda>d0. bindI (disk_init n intr c io 1) (\<lambda>d1.
      Io_Ret (name, control, [d0, d1]))))))"

definition ide_ctrl_init :: "nat \<Rightarrow> bool \<Rightarrow> ide_disk_t list io" where
  "ide_ctrl_init n intr =
     bindI (channel_init n intr 0) (\<lambda>(_, _, ds). bindI (channel_init n intr 1) (\<lambda>(_, _, es). Io_Ret (ds @ es)))"

text \<open>
  The devices: a disk is number \<open>p\<close> of the disks found, a partition \<open>16 * (p + 1)\<close> plus its number.  The driver's
  functions are parameters of the device table.
\<close>

fun install_parts ::
    "'w dev_ioctl option \<times> 'w dev_read option \<times> 'w dev_write option \<Rightarrow> u32 \<Rightarrow> nat \<Rightarrow> ide_part_t list \<Rightarrow> ('w devs_t, unit) op" where
  "install_parts drv dev ptr [] = ret ()"
| "install_parts drv dev ptr (p # ps) =
     seqM (whenM (pt_count p \<noteq> 0) (bindM (device_install DEV_BLOCK DEV_IDE_PART ptr (pt_name p) dev (fst drv) (fst (snd drv)) (snd (snd drv)))
            (\<lambda>_. ret ())))
       (install_parts drv dev (ptr + 1) ps)"

fun ide_install ::
    "'w dev_ioctl option \<times> 'w dev_read option \<times> 'w dev_write option \<Rightarrow>
     'w dev_ioctl option \<times> 'w dev_read option \<times> 'w dev_write option \<Rightarrow> nat \<Rightarrow> ide_disk_t list \<Rightarrow> ('w devs_t, unit) op" where
  "ide_install dk pt ptr [] = ret ()"
| "ide_install dk pt ptr (d # ds) =
     seqM (whenM (dk_total_lba d \<noteq> 0)
       (bindM (device_install DEV_BLOCK DEV_IDE_DISK ptr (dk_name d) 0 (fst dk) (fst (snd dk)) (snd (snd dk))) (\<lambda>dev.
        install_parts pt dev (16 * (ptr + 1)) (dk_parts d))))
       (ide_install dk pt (ptr + 1) ds)"

text \<open>The end of \<open>ide_init\<close>: the handlers and the masks.\<close>

definition ide_irqs :: "handler list \<Rightarrow> ports \<Rightarrow> (handler list \<times> ports) result" where
  "ide_irqs t ports =
     bindr (set_interrupt_handler t IRQ_HARDDISK ide_handler_fn) (\<lambda>t.
     bindr (set_interrupt_handler t IRQ_HARDDISK2 ide_handler_fn) (\<lambda>t.
     bindr (set_interrupt_mask ports IRQ_HARDDISK True) (\<lambda>ports.
     bindr (set_interrupt_mask ports IRQ_HARDDISK2 True) (\<lambda>ports.
     bindr (set_interrupt_mask ports IRQ_CASCADE True) (\<lambda>ports. Inr (t, ports))))))"

section \<open>Runs\<close>

text \<open>
  What a driver function does at the ports while the channel answers: \<open>alt\<close> is the sequence of what the
  alternate status register yields, \<open>dat\<close> that of the data register; other reads yield 0, and \<open>running\<close> tells
  whether the caller is a running task.  The positions in both sequences are the state.
\<close>

datatype event = Out8 u16 u8 | Out16 u16 u16 | Did ide_call

record chip =
  c_alt :: "nat \<Rightarrow> u8"
  c_dat :: "nat \<Rightarrow> u16"
  c_running :: bool

primrec run_io :: "chip \<Rightarrow> 'a io \<Rightarrow> nat \<times> nat \<Rightarrow> event list \<times> 'a result \<times> nat \<times> nat" where
  "run_io c (Io_Ret x) = (\<lambda>st. ([], Inr x, st))"
| "run_io c (Io_Fail e) = (\<lambda>st. ([], Inl e, st))"
| "run_io c (Inb p k) = (\<lambda>(a, d). if p = 0x3f6 \<or> p = 0x376 then run_io c (k (c_alt c a)) (a + 1, d) else run_io c (k 0) (a, d))"
| "run_io c (Inw p k) = (\<lambda>(a, d). run_io c (k (c_dat c d)) (a, d + 1))"
| "run_io c (Outb p v m) = (\<lambda>st. let (es, r) = run_io c m st in (Out8 p v # es, r))"
| "run_io c (Outw p v m) = (\<lambda>st. let (es, r) = run_io c m st in (Out16 p v # es, r))"
| "run_io c (Call x k) = (\<lambda>st. let (es, r) = run_io c (k (c_running c)) st in (Did x # es, r))"

lemma run_bindI: "run_io c m st = (es, Inr x, st') \<Longrightarrow> run_io c (f x) st' = (fs, r) \<Longrightarrow> run_io c (bindI m f) st = (es @ fs, r)"
  by (induction m arbitrary: st es) (auto split: prod.splits if_splits)

lemma run_seqI: "run_io c m st = (es, Inr x, st') \<Longrightarrow> run_io c k st' = (fs, r) \<Longrightarrow> run_io c (seqI m k) st = (es @ fs, r)"
  unfolding seqI_def by (rule run_bindI)

definition channel_of :: "ide_disk_t \<Rightarrow> bool" where
  "channel_of d \<longleftrightarrow> dk_iobase d = IDE_IOBASE_PRIMARY \<or> dk_iobase d = IDE_IOBASE_SECONDARY"

text \<open>
  A reading of the alternate status register that ends a wait; and a channel that, from reading \<open>a\<close> on, ends
  the waits for the states \<open>msks\<close>, one after the other, each within \<open>n\<close> readings.
\<close>

definition awaited_state :: "u8 \<Rightarrow> u8 \<Rightarrow> bool" where
  "awaited_state msk v \<longleftrightarrow> v AND IDE_SR_BSY = 0 \<and> v AND msk = msk"

primrec answers :: "nat \<Rightarrow> chip \<Rightarrow> u8 list \<Rightarrow> nat \<Rightarrow> bool" where
  "answers n c [] a \<longleftrightarrow> True"
| "answers n c (msk # msks) a \<longleftrightarrow> (\<exists>j<n. (\<forall>i<j. \<not> awaited_state msk (c_alt c (a + i))) \<and> awaited_state msk (c_alt c (a + j))
     \<and> answers n c msks (a + j + 1))"

lemma run_busy_wait:
  assumes "\<forall>i<j. \<not> awaited_state msk (c_alt c (a + i))" "awaited_state msk (c_alt c (a + j))" "j < n"
    "io = IDE_IOBASE_PRIMARY \<or> io = IDE_IOBASE_SECONDARY"
  shows "run_io c (ide_busy_wait n io msk) (a, p) = ([], Inr (), a + j + 1, p)"
  using assms(1-3)
proof (induction n arbitrary: a j)
  case (Suc n)
  have io: "io + 0x206 = 0x3f6 \<or> io + 0x206 = 0x376" "io + 1 \<noteq> 0x3f6" "io + 1 \<noteq> 0x376"
    using assms(4) by (auto simp: IDE_IOBASE_PRIMARY_def IDE_IOBASE_SECONDARY_def)
  let ?v = "c_alt c a"
  let ?next = "if ?v AND IDE_SR_BSY \<noteq> 0 then ide_busy_wait n io msk else if ?v AND msk = msk then Io_Ret () else ide_busy_wait n io msk"
  have err: "run_io c (seqI (if ?v AND IDE_SR_ERR \<noteq> 0 then ide_error io else Io_Ret ()) ?next) (a + 1, p) = run_io c ?next (a + 1, p)"
    using io by (simp add: seqI_def ide_error_def inb_def IDE_ERR_def)
  have step: "run_io c (ide_busy_wait (Suc n) io msk) (a, p) = run_io c ?next (a + 1, p)"
    using io(1) err by (simp add: inb_def IDE_ALT_STATUS_def)
  show ?case
  proof (cases j)
    case 0
    then show ?thesis using step Suc.prems(2) by (simp add: awaited_state_def)
  next
    case (Suc i)
    have "\<not> awaited_state msk ?v" using Suc.prems(1) Suc by (metis add.right_neutral zero_less_Suc)
    moreover have "run_io c (ide_busy_wait n io msk) (a + 1, p) = ([], Inr (), a + 1 + i + 1, p)"
    proof (rule Suc.IH)
      show "\<forall>k<i. \<not> awaited_state msk (c_alt c (a + 1 + k))" using Suc.prems(1) Suc
        by (metis add.assoc add.commute not_less_eq plus_1_eq_Suc)
    qed (use Suc.prems Suc in simp_all)
    ultimately show ?thesis using step Suc by (auto simp: awaited_state_def)
  qed
qed simp

lemma run_wait:
  assumes "answers n c (msk # msks) a" "channel_of d"
  obtains b where "run_io c (ide_busy_wait n (dk_iobase d) msk) (a, p) = ([], Inr (), b, p)" "answers n c msks b"
  using assms run_busy_wait [of _ msk c a n "dk_iobase d" p] by (auto simp: channel_of_def)

lemma run_outb [simp]: "run_io c (outb p v) st = ([Out8 p v], Inr (), st)"
  by (simp add: outb_def)

lemma run_set_active [simp]: "run_io c (set_active d) st = ([Did (Set_Active (dk_ctrl d) (dk_nr d))], Inr (), st)"
  by (simp add: set_active_def do_call_def)

definition awaited :: "chip \<Rightarrow> ide_disk_t \<Rightarrow> event list" where
  "awaited c d = Did Is_Running # (if c_running c then [Did (Wait_Interrupt (dk_ctrl d))] else [])"

lemma run_await [simp]: "run_io c (await d) st = (awaited c d, Inr (), st)"
  by (simp add: await_def do_call_def awaited_def)

text \<open>The bytes that carry the number of a sector.\<close>

definition sector_regs :: "ide_disk_t \<Rightarrow> u32 \<Rightarrow> u8 \<Rightarrow> u8 \<Rightarrow> event list" where
  "sector_regs d lba count cmd =
     (let io = dk_iobase d in
      [Did (Acquire (dk_ctrl d)), Out8 (io + 6) (dk_selector d), Did (Set_Active (dk_ctrl d) (dk_nr d)),
       Out8 (io + 1) 0, Out8 (io + 2) count, Out8 (io + 3) (ucast (lba AND 0xff)), Out8 (io + 4) (ucast (drop_bit 8 lba AND 0xff)),
       Out8 (io + 5) (ucast (drop_bit 16 lba AND 0xff)), Out8 (io + 6) (ucast (drop_bit 24 lba AND 0xf) OR dk_selector d),
       Did (Set_Active (dk_ctrl d) (dk_nr d)), Out8 (io + 7) cmd])"

lemma run_start_command:
  assumes "answers n c (IDE_SR_DRDY # msks) a" "channel_of d" "count \<noteq> 0"
  obtains b where "run_io c (start_command n False d count lba cmd) (a, p) = (sector_regs d lba count cmd, Inr (), b, p)"
    "answers n c msks b"
proof -
  obtain b where b: "run_io c (ide_busy_wait n (dk_iobase d) IDE_SR_DRDY) (a, p) = ([], Inr (), b, p)" "answers n c msks b"
    by (rule run_wait [where p = p, OF assms(1,2)])
  have sel: "run_io c (ide_select_drive d) (a, p) = ([Out8 (dk_iobase d + 6) (dk_selector d), Did (Set_Active (dk_ctrl d) (dk_nr d))], Inr (), a, p)"
    by (simp add: ide_select_drive_def seqI_def outb_def set_active_def do_call_def IDE_HDDEVSEL_def)
  have sec: "run_io c (ide_select_sector d lba count) (b, p) = (take 7 (drop 3 (sector_regs d lba count cmd)), Inr (), b, p)"
    by (simp add: ide_select_sector_def seqI_def outb_def set_active_def do_call_def sector_regs_def Let_def IDE_HDDEVSEL_def
        IDE_FEATURE_def IDE_SECTOR_def IDE_LBA_LOW_def IDE_LBA_MID_def IDE_LBA_HIGH_def)
  let ?lock = "bindI (do_call (Acquire (dk_ctrl d))) (\<lambda>_. Io_Ret ())"
  have lock: "run_io c ?lock (a, p) = ([Did (Acquire (dk_ctrl d))], Inr (), a, p)" by (simp add: do_call_def)
  have "run_io c (all_io [?lock, ide_select_drive d, ide_busy_wait n (dk_iobase d) IDE_SR_DRDY, ide_select_sector d lba count,
      outb (dk_iobase d + IDE_COMMAND) cmd]) (a, p) =
    ([Did (Acquire (dk_ctrl d))] @ [Out8 (dk_iobase d + 6) (dk_selector d), Did (Set_Active (dk_ctrl d) (dk_nr d))] @ []
      @ take 7 (drop 3 (sector_regs d lba count cmd)) @ [Out8 (dk_iobase d + IDE_COMMAND) cmd] @ [], Inr (), b, p)"
    unfolding all_io.simps by (intro run_seqI [OF lock] run_seqI [OF sel] run_seqI [OF b(1)] run_seqI [OF sec] run_seqI [OF run_outb]) simp
  then show ?thesis using assms(3) b(2)
    by (intro that [of b]) (simp_all add: start_command_def sector_regs_def Let_def IDE_COMMAND_def)
qed

section \<open>Sectors\<close>

fun bytes_words :: "u8 list \<Rightarrow> u16 list" where
  "bytes_words (lo # hi # bs) = (ucast lo OR push_bit 8 (ucast hi)) # bytes_words bs"
| "bytes_words bs = []"

definition words_bytes :: "u16 list \<Rightarrow> u8 list" where
  "words_bytes ws = concat (map (\<lambda>w. [ucast w, ucast (drop_bit 8 w)]) ws)"

lemma words_of_bytes: "even (length bs) \<Longrightarrow> words_bytes (bytes_words bs) = bs"
proof (induction bs rule: bytes_words.induct)
  case (1 lo hi bs)
  have "(ucast (ucast lo OR push_bit 8 (ucast hi) :: u16) :: u8) = lo" by (rule bit_word_eqI) (auto simp: bit_simps)
  moreover have "(ucast (drop_bit 8 (ucast lo OR push_bit 8 (ucast hi) :: u16)) :: u8) = hi"
    by (rule bit_word_eqI) (auto simp: bit_simps dest: bit_imp_le_length)
  ultimately have "(ucast (ucast lo OR push_bit 8 (ucast hi) :: u16) :: u8) = lo"
    "(ucast (drop_bit 8 (ucast lo OR push_bit 8 (ucast hi) :: u16)) :: u8) = hi" .
  with 1 show ?case by (simp add: words_bytes_def)
qed (simp_all add: words_bytes_def)

lemma run_write_words:
  "length buf = 2 * n + m \<Longrightarrow> run_io c (write_words n io buf) st = (map (Out16 (io + IDE_DATA)) (bytes_words (take (2 * n) buf)), Inr (), st)"
proof (induction n arbitrary: buf)
  case (Suc n)
  then obtain lo hi bs where buf: "buf = lo # hi # bs" by (cases buf; cases "tl buf") auto
  with Suc.IH [of bs] Suc.prems show ?case by (simp add: seqI_def outw_def)
qed simp

lemma run_read_words:
  "run_io c (read_words n io) (a, p) = ([], Inr (words_bytes (map (c_dat c) [p..<p + n])), a, p + n)"
proof (induction n arbitrary: p)
  case (Suc n)
  have upt: "[p..<Suc (p + n)] = p # [Suc p..<Suc (p + n)]" by (simp add: upt_conv_Cons del: upt_Suc)
  let ?f = "\<lambda>bs. Io_Ret (ucast (c_dat c p) # ucast (drop_bit 8 (c_dat c p)) # bs) :: u8 list io"
  have "run_io c (read_words (Suc n) io) (a, p) = run_io c (bindI (read_words n io) ?f) (a, Suc p)"
    by (simp add: inw_def)
  also have "\<dots> = ([] @ [], Inr (words_bytes (map (c_dat c) [p..<p + Suc n])), a, Suc p + n)"
    by (rule run_bindI [OF Suc.IH]) (simp add: words_bytes_def upt del: upt_Suc)
  finally show ?case by simp
qed (simp add: words_bytes_def)

lemma run_read_sectors:
  assumes "channel_of d"
  shows "answers n c (replicate k IDE_SR_DRQ) a \<Longrightarrow> \<exists>b. run_io c (read_sectors n d k) (a, p) =
    (concat (replicate k (awaited c d)), Inr (words_bytes (map (c_dat c) [p..<p + 256 * k])), b, p + 256 * k)"
proof (induction k arbitrary: a p)
  case 0
  then show ?case by (simp add: words_bytes_def)
next
  case (Suc k)
  obtain a1 where w: "run_io c (ide_busy_wait n (dk_iobase d) IDE_SR_DRQ) (a, p) = ([], Inr (), a1, p)"
    "answers n c (replicate k IDE_SR_DRQ) a1"
    by (rule run_wait [where p = p, OF Suc.prems [unfolded replicate_Suc] assms])
  have r: "run_io c (ide_pio_read_sector d) (a1, p) = ([], Inr (words_bytes (map (c_dat c) [p..<p + 256])), a1, p + 256)"
    by (simp only: ide_pio_read_sector_def run_read_words)
  obtain b where more: "run_io c (read_sectors n d k) (a1, p + 256) = (concat (replicate k (awaited c d)),
      Inr (words_bytes (map (c_dat c) [p + 256..<p + 256 + 256 * k])), b, p + 256 + 256 * k)" using Suc.IH [OF w(2)] by blast
  have upt: "[p..<p + 256 * Suc k] = [p..<p + 256] @ [p + 256..<p + 256 + 256 * k]"
    using upt_add_eq_append [of p "p + 256" "256 * k"] by (simp add: add.assoc)
  have "run_io c (read_sectors n d (Suc k)) (a, p) = (awaited c d @ [] @ [] @ concat (replicate k (awaited c d)) @ [],
      Inr (words_bytes (map (c_dat c) [p..<p + 256]) @ words_bytes (map (c_dat c) [p + 256..<p + 256 + 256 * k])),
      b, p + 256 + 256 * k)"
    unfolding read_sectors.simps
    by (intro run_seqI [OF run_await] run_seqI [OF w(1)] run_bindI [OF r] run_bindI [OF more]) simp
  then show ?case unfolding upt by (simp add: words_bytes_def add.assoc)
qed

fun sent :: "chip \<Rightarrow> ide_disk_t \<Rightarrow> nat \<Rightarrow> u8 list \<Rightarrow> event list" where
  "sent c d 0 buf = []"
| "sent c d (Suc k) buf = map (Out16 (dk_iobase d + IDE_DATA)) (bytes_words (take 512 buf)) @ awaited c d @ sent c d k (drop 512 buf)"

lemma run_write_sectors:
  assumes "channel_of d"
  shows "answers n c (replicate k IDE_SR_NULL) a \<Longrightarrow> length buf = 512 * k \<Longrightarrow> \<exists>b. run_io c (write_sectors n d k buf) (a, p) = (sent c d k buf, Inr (), b, p)"
proof (induction k arbitrary: a buf)
  case (Suc k)
  obtain a1 where w: "run_io c (ide_busy_wait n (dk_iobase d) IDE_SR_NULL) (a, p) = ([], Inr (), a1, p)"
    "answers n c (replicate k IDE_SR_NULL) a1"
    by (rule run_wait [where p = p, OF Suc.prems(1) [unfolded replicate_Suc] assms])
  have s: "run_io c (ide_pio_write_sector d buf) (a, p) = (map (Out16 (dk_iobase d + IDE_DATA)) (bytes_words (take 512 buf)), Inr (), a, p)"
    using run_write_words [of buf 256 "512 * k"] Suc.prems(2) by (simp add: ide_pio_write_sector_def)
  obtain b where more: "run_io c (write_sectors n d k (drop 512 buf)) (a1, p) = (sent c d k (drop 512 buf), Inr (), b, p)"
    using Suc.IH [OF w(2), of "drop 512 buf"] Suc.prems(2) by auto
  have "run_io c (write_sectors n d (Suc k) buf) (a, p) =
      (map (Out16 (dk_iobase d + IDE_DATA)) (bytes_words (take 512 buf)) @ awaited c d @ [] @ sent c d k (drop 512 buf), Inr (), b, p)"
    unfolding write_sectors.simps by (intro run_seqI [OF s] run_seqI [OF run_await] run_seqI [OF w(1)] more)
  then show ?case by auto
qed simp

text \<open>What the disk is told: the words at the data port, the last byte at another port, and the command they make.\<close>

definition data_words :: "event list \<Rightarrow> u16 list" where
  "data_words es = concat (map (\<lambda>e. case e of Out16 p w \<Rightarrow> [w] | _ \<Rightarrow> []) es)"

fun last_out :: "event list \<Rightarrow> u16 \<Rightarrow> u8 \<Rightarrow> u8" where
  "last_out [] p v = v"
| "last_out (Out8 q w # es) p v = last_out es p (if q = p then w else v)"
| "last_out (e # es) p v = last_out es p v"

definition told :: "event list \<Rightarrow> u16 \<Rightarrow> u8 \<times> bool \<times> nat \<times> u8" where
  "told es io = (last_out es (io + 7) 0, last_out es (io + 6) 0 AND 0x10 \<noteq> 0,
     unat (last_out es (io + 3) 0) + 2 ^ 8 * unat (last_out es (io + 4) 0) + 2 ^ 16 * unat (last_out es (io + 5) 0)
       + 2 ^ 24 * unat (last_out es (io + 6) 0 AND 0xf),
     last_out es (io + 2) 0)"

lemma data_words_simps [simp]:
  "data_words [] = []" "data_words (es @ fs) = data_words es @ data_words fs" "data_words (map (Out16 p) ws) = ws"
  "data_words (awaited c d) = []" "data_words (Did x # es) = data_words es" "data_words (Out8 q v # es) = data_words es"
  by (induction ws) (simp_all add: data_words_def awaited_def)

lemma last_out_append: "last_out (es @ fs) p v = last_out fs p (last_out es p v)"
  by (induction es p v rule: last_out.induct) auto

lemma last_out_quiet [simp]:
  "last_out (map (Out16 q) ws) p v = v" "last_out (awaited c d) p v = v" "last_out (concat (replicate k (awaited c d))) p v = v"
  "last_out (sent c d k buf) p v = v"
proof -
  show w: "last_out (map (Out16 q) ws) p v = v" for q ws by (induction ws) simp_all
  show a: "last_out (awaited c d) p v = v" by (simp add: awaited_def)
  show "last_out (concat (replicate k (awaited c d))) p v = v" by (induction k) (simp_all add: last_out_append a)
  show "last_out (sent c d k buf) p v = v" by (induction k arbitrary: buf) (simp_all add: last_out_append a w)
qed

lemma bytes_words_split: "512 \<le> length bs \<Longrightarrow> bytes_words bs = bytes_words (take 512 bs) @ bytes_words (drop 512 bs)"
proof -
  have "bytes_words (xs @ ys) = bytes_words xs @ bytes_words ys" if "even (length xs)" for xs ys
    using that by (induction xs rule: bytes_words.induct) auto
  then show ?thesis if "512 \<le> length bs" using that by (metis append_take_drop_id length_take min.absorb2 even_numeral)
qed

lemma data_words_sent: "length buf = 512 * k \<Longrightarrow> data_words (sent c d k buf) = bytes_words buf"
proof (induction k arbitrary: buf)
  case (Suc k)
  then show ?case using bytes_words_split [of buf] by simp
qed simp

section \<open>The address\<close>

lemma low_byte: "unat (ucast (w AND 0xff) :: u8) = unat w mod 256" for w :: u32
proof -
  have "(0xff :: u32) = mask 8" by (simp add: mask_eq_exp_minus_1)
  then have "w AND 0xff = take_bit 8 w" by (simp only: take_bit_eq_mask)
  then have "(ucast (w AND 0xff) :: u8) = ucast w" by (simp only:) (rule bit_word_eqI, auto simp: bit_simps)
  then show ?thesis by (simp only: unsigned_ucast_eq take_bit_eq_mod) simp
qed

lemma high_nibble:
  fixes w :: u32
  assumes "s = IDE_LBA_MASTER \<or> s = IDE_LBA_SLAVE"
  shows "unat ((ucast (w AND 0xf) OR s) AND 0xf) = unat w mod 16" "(ucast (w AND 0xf) OR s) AND 0x10 \<noteq> 0 \<longleftrightarrow> s = IDE_LBA_SLAVE"
proof -
  have w: "w AND 0xf = take_bit 4 w" by (simp add: take_bit_eq_mask mask_eq_exp_minus_1)
  have f: "(0xf :: u8) = mask 4" "(0x10 :: u8) = push_bit 4 1" by (simp_all add: mask_eq_exp_minus_1)
  have u: "(ucast (w AND 0xf) :: u8) AND 0xf = take_bit 4 (ucast w)" "(ucast (w AND 0xf) :: u8) AND 0x10 = 0"
    subgoal unfolding w f by (rule bit_word_eqI) (auto simp: bit_simps)
    subgoal unfolding w f by (rule bit_word_eqI) (simp only: bit_simps, auto)
    done
  have s: "s AND 0xf = 0" "s AND 0x10 \<noteq> 0 \<longleftrightarrow> s = IDE_LBA_SLAVE" using assms by (auto simp: IDE_LBA_MASTER_def IDE_LBA_SLAVE_def)
  have "(ucast (w AND 0xf) OR s) AND 0xf = (take_bit 4 (ucast w) :: u8)" by (simp only: word_ao_dist u s or.right_neutral)
  moreover have "unat (take_bit 4 (ucast w) :: u8) = unat w mod 16"
    by (simp only: unsigned_take_bit_eq unsigned_ucast_eq take_bit_take_bit) (simp add: take_bit_eq_mod)
  ultimately show "unat ((ucast (w AND 0xf) OR s) AND 0xf) = unat w mod 16" by (simp only:)
  show "(ucast (w AND 0xf) OR s) AND 0x10 \<noteq> 0 \<longleftrightarrow> s = IDE_LBA_SLAVE" by (simp only: word_ao_dist u s or.left_neutral)
qed

lemma four_bytes: "n mod 2 ^ 28 = n mod 256 + 256 * (n div 256 mod 256) + 65536 * (n div 65536 mod 256) + 16777216 * (n div 16777216 mod 16)" for n :: nat
  using mod_mult2_eq [of n 256 "256 * (256 * 16)"] mod_mult2_eq [of "n div 256" 256 "256 * 16"] mod_mult2_eq [of "n div 256 div 256" 256 16]
  by (simp add: div_mult2_eq [symmetric])

lemma told_sector_regs:
  assumes "dk_selector d = IDE_LBA_MASTER \<or> dk_selector d = IDE_LBA_SLAVE"
  shows "told (sector_regs d lba count cmd) (dk_iobase d) = (cmd, dk_selector d = IDE_LBA_SLAVE, unat lba mod 2 ^ 28, count)"
proof -
  let ?es = "sector_regs d lba count cmd" and ?io = "dk_iobase d"
  let ?h = "ucast (drop_bit 24 lba AND 0xf) OR dk_selector d"
  have outs: "last_out ?es (?io + 7) 0 = cmd" "last_out ?es (?io + 6) 0 = ?h" "last_out ?es (?io + 2) 0 = count"
    "last_out ?es (?io + 3) 0 = ucast (lba AND 0xff)" "last_out ?es (?io + 4) 0 = ucast (drop_bit 8 lba AND 0xff)"
    "last_out ?es (?io + 5) 0 = ucast (drop_bit 16 lba AND 0xff)"
    by (simp_all only: sector_regs_def Let_def last_out.simps) simp_all
  have div: "unat (drop_bit 8 lba) = unat lba div 256" "unat (drop_bit 16 lba) = unat lba div 65536"
    "unat (drop_bit 24 lba) = unat lba div 16777216"
    by (simp_all add: unsigned_drop_bit_eq drop_bit_eq_div take_bit_nat_eq_self unat_div)
  have num: "(2::nat) ^ 8 = 256" "(2::nat) ^ 16 = 65536" "(2::nat) ^ 24 = 16777216" by simp_all
  show ?thesis
    by (simp only: told_def outs low_byte high_nibble [OF assms] div four_bytes [symmetric] num)
qed

section \<open>Transfers\<close>

lemma data_words_sector_regs [simp]: "data_words (sector_regs d lba count cmd @ es) = data_words es"
  by (simp add: sector_regs_def Let_def)

lemma data_words_only_regs [simp]: "data_words (sector_regs d lba count cmd) = []"
  using data_words_sector_regs [of d lba count cmd "[]"] by simp

lemma told_append:
  assumes "\<And>p v. last_out fs p v = v"
  shows "told (es @ fs) io = told es io"
  using assms by (simp add: told_def last_out_append)

lemma run_release: "run_io c (bindI (do_call (Release k)) (\<lambda>_. Io_Ret x)) st = ([Did (Release k)], Inr x, st)"
  by (simp add: do_call_def)

definition framed :: "nat \<Rightarrow> event list \<Rightarrow> bool" where
  "framed k es \<longleftrightarrow> hd es = Did (Acquire k) \<and> last es = Did (Release k)"

lemma framed_sector_regs: "framed (dk_ctrl d) (sector_regs d lba count cmd @ es @ [Did (Release (dk_ctrl d))])"
  by (simp add: framed_def sector_regs_def Let_def)

lemma run_write:
  assumes "answers n c (IDE_SR_DRDY # replicate (unat count) IDE_SR_NULL) a" "channel_of d" "count \<noteq> 0" "length buf = 512 * unat count"
  shows "\<exists>b. run_io c (ide_pio_write n False d buf count lba) (a, p) =
    (sector_regs d lba count IDE_CMD_WRITE @ sent c d (unat count) buf @ [Did (Release (dk_ctrl d))], Inr 0, b, p)"
proof -
  obtain a1 where s: "run_io c (start_command n False d count lba IDE_CMD_WRITE) (a, p) = (sector_regs d lba count IDE_CMD_WRITE, Inr (), a1, p)"
    "answers n c (replicate (unat count) IDE_SR_NULL) a1" by (rule run_start_command [OF assms(1,2,3)])
  obtain b where w: "run_io c (write_sectors n d (unat count) buf) (a1, p) = (sent c d (unat count) buf, Inr (), b, p)"
    using run_write_sectors [OF assms(2) s(2) assms(4)] by blast
  show ?thesis unfolding ide_pio_write_def by (intro exI [of _ b] run_seqI [OF s(1)] run_seqI [OF w] run_release)
qed

lemma run_read:
  assumes "answers n c (IDE_SR_DRDY # replicate (unat count) IDE_SR_DRQ) a" "channel_of d" "count \<noteq> 0"
  shows "\<exists>b. run_io c (ide_pio_read n False d count lba) (a, p) =
    (sector_regs d lba count IDE_CMD_READ @ concat (replicate (unat count) (awaited c d)) @ [Did (Release (dk_ctrl d))],
     Inr (0, words_bytes (map (c_dat c) [p..<p + 256 * unat count])), b, p + 256 * unat count)"
proof -
  obtain a1 where s: "run_io c (start_command n False d count lba IDE_CMD_READ) (a, p) = (sector_regs d lba count IDE_CMD_READ, Inr (), a1, p)"
    "answers n c (replicate (unat count) IDE_SR_DRQ) a1" by (rule run_start_command [OF assms(1,2,3)])
  obtain b where r: "run_io c (read_sectors n d (unat count)) (a1, p) = (concat (replicate (unat count) (awaited c d)),
      Inr (words_bytes (map (c_dat c) [p..<p + 256 * unat count])), b, p + 256 * unat count)"
    using run_read_sectors [OF assms(2) s(2)] by blast
  show ?thesis unfolding ide_pio_read_def by (intro exI [of _ b] run_seqI [OF s(1)] run_bindI [OF r] run_release)
qed

lemma length_bytes_words: "length (bytes_words bs) = length bs div 2"
  by (induction bs rule: bytes_words.induct) simp_all

text \<open>
  A transfer.  The channel answers the waits of a write of \<open>count\<close> sectors, each within the fuel \<open>n\<close>: for the
  drive to be ready, then behind each sector not to be busy.  Then \<open>ide_pio_write\<close> locks the channel, names
  the command, the drive, the sector (its number modulo 2^28) and the count, sends the buffer, unlocks and
  returns 0.  And a read of the same sectors, whose waits for data are answered, names the same drive, sector
  and count, and, if the data port yields the words that were sent, returns 0 and the bytes that were written.
\<close>

lemma ide_transfers:
  assumes "answers n c (IDE_SR_DRDY # replicate (unat count) IDE_SR_NULL) 0"
    and "answers m e (IDE_SR_DRDY # replicate (unat count) IDE_SR_DRQ) 0"
    and "channel_of d" "dk_selector d = IDE_LBA_MASTER \<or> dk_selector d = IDE_LBA_SLAVE"
    and "count \<noteq> 0" "length buf = 512 * unat count"
  shows "\<exists>es fs a b.
    run_io c (ide_pio_write n False d buf count lba) (0, 0) = (es, Inr 0, a, 0) \<and> framed (dk_ctrl d) es \<and>
    told es (dk_iobase d) = (IDE_CMD_WRITE, dk_selector d = IDE_LBA_SLAVE, unat lba mod 2 ^ 28, count) \<and>
    run_io (e\<lparr>c_dat := (\<lambda>i. data_words es ! i)\<rparr>) (ide_pio_read m False d count lba) (0, 0) = (fs, Inr (0, buf), b, 256 * unat count) \<and>
    framed (dk_ctrl d) fs \<and>
    told fs (dk_iobase d) = (IDE_CMD_READ, dk_selector d = IDE_LBA_SLAVE, unat lba mod 2 ^ 28, count)"
proof -
  let ?es = "sector_regs d lba count IDE_CMD_WRITE @ sent c d (unat count) buf @ [Did (Release (dk_ctrl d))]"
  let ?e = "e\<lparr>c_dat := (\<lambda>i. data_words ?es ! i)\<rparr>"
  let ?fs = "sector_regs d lba count IDE_CMD_READ @ concat (replicate (unat count) (awaited ?e d)) @ [Did (Release (dk_ctrl d))]"
  have words: "data_words ?es = bytes_words buf" using data_words_sent [OF assms(6)] by simp
  have "answers m ?e ms k = answers m e ms k" for ms k by (induction ms arbitrary: k) simp_all
  then have e: "answers m ?e (IDE_SR_DRDY # replicate (unat count) IDE_SR_DRQ) 0" using assms(2) by simp
  have "map (c_dat ?e) [0..<256 * unat count] = bytes_words buf"
    using map_nth [of "bytes_words buf"] assms(6) unfolding words by (simp add: length_bytes_words)
  then have buf: "words_bytes (map (c_dat ?e) [0..<256 * unat count]) = buf" using words_of_bytes [of buf] assms(6) by simp
  have told: "told ?es (dk_iobase d) = (IDE_CMD_WRITE, dk_selector d = IDE_LBA_SLAVE, unat lba mod 2 ^ 28, count)"
    "told ?fs (dk_iobase d) = (IDE_CMD_READ, dk_selector d = IDE_LBA_SLAVE, unat lba mod 2 ^ 28, count)"
    using told_sector_regs [OF assms(4)] by (simp_all add: told_append last_out_append)
  obtain a where a: "run_io c (ide_pio_write n False d buf count lba) (0, 0) = (?es, Inr 0, a, 0)"
    using run_write [where lba = lba and p = 0, OF assms(1,3,5,6)] by blast
  obtain b where b: "run_io ?e (ide_pio_read m False d count lba) (0, 0) = (?fs, Inr (0, buf), b, 256 * unat count)"
    using run_read [where lba = lba and p = 0, OF e assms(3,5)] unfolding add_0 buf by blast
  have "framed (dk_ctrl d) ?es" "framed (dk_ctrl d) ?fs" by (rule framed_sector_regs)+
  with a b told show ?thesis by (intro exI [of _ ?es] exI [of _ ?fs] exI [of _ a] exI [of _ b] conjI)
qed

text \<open>One sector of a second disk: ready at once, then busy for one reading before each answer.\<close>

lemma ide_transfers_example:
  "\<exists>es fs a b.
    run_io \<lparr>c_alt = (\<lambda>k. if k = 1 then 0x80 else 0x40), c_dat = (\<lambda>_. 0), c_running = True\<rparr>
      (ide_pio_write 2 False \<lparr>dk_name = [], dk_ctrl = 0, dk_nr = 1, dk_iobase = 0x1f0, dk_selector = 0xf0, dk_master = False,
        dk_total_lba = 1000, dk_cylinders = 0, dk_heads = 0, dk_sectors = 0, dk_parts = []\<rparr> (replicate 512 7) 1 513) (0, 0)
      = (es, Inr 0, a, 0) \<and> told es 0x1f0 = (0x30, True, 513, 1) \<and> told fs 0x1f0 = (0x20, True, 513, 1) \<and>
    run_io \<lparr>c_alt = (\<lambda>k. if k = 1 then 0x80 else if k = 0 then 0x40 else 0x48), c_dat = (\<lambda>i. data_words es ! i), c_running = True\<rparr>
      (ide_pio_read 2 False \<lparr>dk_name = [], dk_ctrl = 0, dk_nr = 1, dk_iobase = 0x1f0, dk_selector = 0xf0, dk_master = False,
        dk_total_lba = 1000, dk_cylinders = 0, dk_heads = 0, dk_sectors = 0, dk_parts = []\<rparr> 1 513) (0, 0)
      = (fs, Inr (0, replicate 512 7), b, 256)"
proof -
  let ?c = "\<lparr>c_alt = (\<lambda>k. if k = 1 then 0x80 else 0x40), c_dat = (\<lambda>_. 0), c_running = True\<rparr>"
  let ?e = "\<lparr>c_alt = (\<lambda>k. if k = 1 then 0x80 else if k = 0 then 0x40 else 0x48), c_dat = (\<lambda>_. 0), c_running = True\<rparr>"
  let ?d = "\<lparr>dk_name = [], dk_ctrl = 0, dk_nr = 1, dk_iobase = 0x1f0, dk_selector = 0xf0, dk_master = False,
        dk_total_lba = 1000, dk_cylinders = 0, dk_heads = 0, dk_sectors = 0, dk_parts = []\<rparr>"
  have one: "unat (1 :: u8) = Suc 0" by simp
  have c: "answers 2 ?c (IDE_SR_DRDY # replicate (unat (1 :: u8)) IDE_SR_NULL) 0"
    "answers 2 ?e (IDE_SR_DRDY # replicate (unat (1 :: u8)) IDE_SR_DRQ) 0"
    by (simp_all add: one numeral_2_eq_2 Ex_less_Suc All_less_Suc awaited_state_def IDE_SR_DRDY_def IDE_SR_DRQ_def IDE_SR_BSY_def IDE_SR_NULL_def)
  have d: "channel_of ?d" "dk_selector ?d = IDE_LBA_MASTER \<or> dk_selector ?d = IDE_LBA_SLAVE" "(1 :: u8) \<noteq> 0"
    "length (replicate 512 (7 :: u8)) = 512 * unat (1 :: u8)"
    by (simp_all add: channel_of_def IDE_IOBASE_PRIMARY_def IDE_LBA_SLAVE_def)
  have n: "(513::nat) mod 2 ^ 28 = 513" by simp
  show ?thesis using ide_transfers [where lba = 513, OF c d]
    by (simp add: IDE_LBA_SLAVE_def IDE_CMD_WRITE_def IDE_CMD_READ_def n del: run_io.simps) blast
qed

end
