(* ===== verification/Spec2Isabelle.thy ===== *)
theory Spec2Isabelle
  imports Ylos_List Ylos_Fifo Ylos_String Ylos_Time Ylos_Address_Space Ylos_Heap Ylos_Sched Ylos_Mutex
    Ylos_Pipe Ylos_Vsprintf Ylos_Super Ylos_Keyboard Ylos_Console Ylos_Execve Ylos_Shell Ylos_Abspath
    Ylos_Syscall Ylos_Ls Ylos_Pipeline Ylos_Stream Ylos_Filedata Ylos_Dev Ylos_Serial Ylos_Ide
begin

text \<open>
  Verification library of YLOS, a 32-bit x86 teaching kernel in C (kernel/, fs/, lib/) with a shell and
  small programs (builtin/).

  \<^bold>\<open>How the program works.\<close>  The boot code loads the kernel; \<open>kernel_init\<close> sets up segments, interrupts,
  memory, the heap, devices, tasks and system calls, and switches to the first task.  A program enters
  the kernel by \<open>int 0x80\<close>; \<open>syscall_handler\<close> calls the entry of \<open>syscall_table\<close> that eax names.  The
  kernel is not preempted except by the clock: a task gives up the processor in \<open>schedule\<close>, reached from
  the clock handler, \<open>task_yield\<close>, \<open>task_block\<close>, \<open>task_sleep\<close> and \<open>task_exit\<close>.  Memory is shared between
  tasks by reference-counted frames and copied on a write fault.  Files are MINIX inodes whose blocks go
  through the buffer cache to block devices; pipes, keyboard, serial lines and the console are files too.

  \<^bold>\<open>Conventions.\<close>  A C struct is a record, an enum or a set of node addresses a datatype, a w-bit integer a
  \<open>w word\<close>, an \<open>int\<close> such a word read with \<open>sint\<close>; a pointer into an array is an index or the list of the
  bytes from there on.  A call that fails an \<open>assert\<close>, panics, accesses memory outside an object, divides by
  zero, never returns or is suspended is \<open>Inl\<close> of a \<open>kerror\<close>, a call that returns \<open>Inr\<close> (Ylos_Prelude).  Stateful code
  takes and returns the state, explicitly or as an \<open>op\<close> (Ylos_Monad).  Where the code suspends its caller,
  the definition is split there: a \<^emph>\<open>resumed\<close> call (\<open>pipe_read\<close>, \<open>mutex_lock\<close>, \<open>keyboard_read\<close>) goes on behind
  \<open>task_block\<close>, \<open>request_begin\<close> and \<open>request_finish\<close> are the two halves of \<open>device_request\<close>; the file system is
  followed for one task from one suspension to the next, where it would sleep it is \<open>Would_Sleep\<close>.

  \<^bold>\<open>Theories, bottom up.\<close>
  \<^item> Ylos_Prelude, Ylos_Monad: outcomes, operations, the shared lemmas on words, lists and results.
  \<^item> Ylos_Bitmap (lib/bitmap.c), Ylos_List (lib/list.c), Ylos_Fifo (lib/fifo.c), Ylos_String (lib/string.c),
    Ylos_Stdlib (lib/stdlib.c), Ylos_Vsprintf (lib/vsprintf.c), Ylos_Time (kernel/time.c, kernel/rtc.c): the library.
    Lists refine HOL lists (locale \<open>node_lists\<close>), rings refine queues (locale \<open>byte_queue\<close>), \<open>bitmap_scan\<close> is first fit,
    \<open>strcmp\<close> is a total order, \<open>vsprintf\<close> and \<open>atoi\<close> and the calendar functions invert each other where they do.
  \<^item> Ylos_Proc (task.h), Ylos_Memory, Ylos_Frames, Ylos_Paging, Ylos_Address_Space (kernel/memory.c): frames, the
    kernel's page map, page tables as the processor walks them (\<open>translate\<close>), copy-on-write.  The invariant
    \<open>as_wf\<close> holds after boot, and the page fault handler keeps it and makes exactly the faulting page private.
  \<^item> Ylos_Arena, Ylos_Heap (kernel/arena.c): the kernel heap; blocks in use never overlap (for all
    runs of \<open>kmalloc\<close> and \<open>kfree\<close>).
  \<^item> Ylos_Task, Ylos_Sched (kernel/task.c, kernel/clock.c): tasks and the scheduler; \<open>sched_wf\<close> is its invariant, under
    which no assertion fails; which task runs next, which sleepers wake.
  \<^item> Ylos_Mutex (kernel/mutex.c), Ylos_Pipe and Ylos_Stream (fs/pipe.c): synchronisation over the scheduler; mutual
    exclusion, and a pipe as a stream between a reader and a writer.
  \<^item> Ylos_Descriptors (kernel/global.c), Ylos_Interrupt (kernel/interrupt.c, handler.asm), Ylos_Syscall (kernel/gate.c,
    lib/syscall.c): segments, gates and system calls as the processor reads them.
  \<^item> Ylos_Device (kernel/device.c, kernel/ramdisk.c), Ylos_Disk, Ylos_Fs, Ylos_Buffer, Ylos_Cache (kernel/buffer.c): devices
    and the cache.  The locale \<open>block_device\<close> is what the cache needs of a disk; the RAM disks are proved to keep it,
    and the cache over them is transparent and writes through.
  \<^item> Ylos_Bmap, Ylos_Inode, Ylos_Namei, Ylos_Dirs, Ylos_Abspath, Ylos_File, Ylos_Super (fs/): block maps, inodes, names,
    open files and super blocks, over the bytes of the buffers as in the kernel; \<open>abspath\<close> resolves paths.
    Ylos_Filedata: reading and writing a file over the cache.  Ylos_Dev (fs/dev.c): the files of /dev.
  \<^item> Ylos_Keyboard, Ylos_Console: the drivers of kernel/keyboard.c and kernel/console.c; scan codes become the characters
    of the layout, the screen shows what a terminal of 80 by 25 would.  Ylos_Serial (kernel/serial.c) and Ylos_Ide
    (kernel/ide.c): the serial lines, and the disks as sequences of accesses to their ports.
  \<^item> Ylos_Args, Ylos_Execve (kernel/execve.c, lib/crt1.c): loading programs; their arguments arrive unchanged.
  \<^item> Ylos_User (builtin/cat.c, dup.c, echo.c, env.c, init.c, lib/printf.c), Ylos_Ls (builtin/ls.c), Ylos_Shell and Ylos_Ysh
    (builtin/ysh.c): programs as trees of their system calls, where the answer of the kernel chooses the branch.
    Ylos_Shell edits a line and takes it apart into words, Ylos_Ysh has the commands, redirections and pipelines.
    Ylos_Fd has the descriptors of a task as programs see them, with the proof that the calls of Ylos_File agree with
    them; over them Ylos_Pipeline shows what runs for a line.

  \<^bold>\<open>Loops.\<close>  Loops over an array or a counter are structural recursion; loops along linked nodes are
  \<open>partial_function (option)\<close>, whose value \<open>None\<close> (\<open>Diverges\<close>) is proved not to occur on well-formed lists.
  Loops that wait for a device or for ever (\<open>ide_busy_wait\<close>, \<open>cat\<close>, \<open>init\<close>, the shell) take fuel; \<open>answers\<close> of Ylos_Ide says
  what fuel a wait needs.

  \<^bold>\<open>Not modelled.\<close>  The boot loader, the assembly that switches stacks and accesses ports, the order of the calls in
  \<open>kernel_init\<close> and the kernel threads, messages to the log, and floating-point formatting beyond its digits; what
  the hardware answers is a parameter.  Other tasks enter only through the scheduler, the locks and the pipes: the
  file system is not followed while two tasks are inside it.
\<close>

end
